(* ===== verification/Prelude.thy ===== *)
theory Prelude
  imports Main "HOL-Library.Word" "HOL-Library.Tree"
    "HOL-Library.List_Lexorder" "HOL-Library.Product_Lexorder"
begin

text \<open>
  What every component of the development shares: the types of bytes and of the outcome of
  a C function, \<^verbatim>\<open>memcmp\<close>, and the ordered sequences that stand for the
  \<^verbatim>\<open>iv_avl_tree\<close> containers of ivykis.

  ivykis is not part of the repository.  An \<^verbatim>\<open>iv_avl_tree\<close> is represented by what its
  documentation promises about it: the in-order sequence of its elements, which is strictly
  increasing for the comparison function the tree was initialised with; insertion fails
  exactly when an equal element is present.  The balanced shape of the tree is not observable
  through that interface.  The one place where the repository looks at the shape itself is the
  search loop it repeats for every container (\<open>an = an->left\<close> / \<open>an = an->right\<close>);
  that loop is \<open>avl_descend\<close> below, on real binary trees, and \<open>find_attr_descends\<close> of
  the theory Lsa says that on every tree whose in-order sequence is increasing it returns
  what searching the sequence returns.
\<close>

unbundle bit_operations_syntax

named_theorems outcome_simps \<open>equations that run the outcome monad\<close>
named_theorems avl_defs \<open>the container operations, unfolded for evaluation\<close>

section \<open>Bytes and outcomes\<close>

type_synonym byte = "8 word"
type_synonym bytes = "byte list"
type_synonym u16 = "16 word"
type_synonym u32 = "32 word"
type_synonym u64 = "64 word"

abbreviation (input) SIZE_MAX :: nat where "SIZE_MAX \<equiv> 2 ^ 64 - 1"
abbreviation (input) SSIZE_MAX :: nat where "SSIZE_MAX \<equiv> 2 ^ 63 - 1"
abbreviation (input) INT_MAX :: nat where "INT_MAX \<equiv> 2 ^ 31 - 1"

text \<open>
  A C function either returns, or the process stops: \<^verbatim>\<open>abort()\<close>, a dereference of a
  null pointer, an access outside the object a pointer points into, or the removal of a node
  from a container it is not in (\<open>Not_linked\<close>).
\<close>

datatype fault = Abort | Null_deref | Out_of_bounds | Not_linked

type_synonym 'a outcome = "fault + 'a"

definition obind :: "'a outcome \<Rightarrow> ('a \<Rightarrow> 'b outcome) \<Rightarrow> 'b outcome" where
  "obind m f = (case m of Inl e \<Rightarrow> Inl e | Inr x \<Rightarrow> f x)"

lemma obind_simps [simp, outcome_simps]:
  "obind (Inl e) f = Inl e"
  "obind (Inr x) f = f x"
  by (simp_all add: obind_def)

lemma obind_eq_Inr [simp]: "obind m f = Inr y \<longleftrightarrow> (\<exists>x. m = Inr x \<and> f x = Inr y)"
  by (cases m) simp_all

lemma obind_eq_Inl: "obind m f = Inl e \<longleftrightarrow> m = Inl e \<or> (\<exists>x. m = Inr x \<and> f x = Inl e)"
  by (cases m) simp_all

lemma obind_assoc: "obind (obind m f) g = obind m (\<lambda>x. obind (f x) g)"
  by (cases m) simp_all

lemma obind_cong [fundef_cong]:
  "m = m' \<Longrightarrow> (\<And>x. m' = Inr x \<Longrightarrow> f x = f' x) \<Longrightarrow> obind m f = obind m' f'"
  by (cases m') simp_all

fun ofold :: "('a \<Rightarrow> 's \<Rightarrow> 's outcome) \<Rightarrow> 'a list \<Rightarrow> 's \<Rightarrow> 's outcome" where
  "ofold f [] s = Inr s"
| "ofold f (x # xs) s = obind (f x s) (ofold f xs)"

lemma ofold_append: "ofold f (xs @ ys) s = obind (ofold f xs s) (ofold f ys)"
proof (induction xs arbitrary: s)
  case (Cons x xs)
  then have "ofold f (xs @ ys) = (\<lambda>u. obind (ofold f xs u) (ofold f ys))" by blast
  then show ?case by (simp add: obind_assoc)
qed simp

lemma ofold_cong [fundef_cong]:
  "xs = ys \<Longrightarrow> s = t \<Longrightarrow> (\<And>x u. x \<in> set ys \<Longrightarrow> f x u = g x u) \<Longrightarrow> ofold f xs s = ofold g ys t"
proof (induction xs arbitrary: ys s t)
  case (Cons x xs)
  then show ?case by (auto intro!: obind_cong)
qed simp

lemma ofold_invariant:
  assumes "ofold f xs s = Inr t" and "P s"
    and "\<And>x u v. x \<in> set xs \<Longrightarrow> P u \<Longrightarrow> f x u = Inr v \<Longrightarrow> P v"
  shows "P t"
  using assms
proof (induction xs arbitrary: s)
  case (Cons x xs)
  then show ?case by auto
qed simp

lemma ofold_returns:
  assumes "P s" and "\<And>x u. x \<in> set xs \<Longrightarrow> P u \<Longrightarrow> \<exists>v. f x u = Inr v \<and> P v"
  shows "\<exists>t. ofold f xs s = Inr t \<and> P t"
  using assms
proof (induction xs arbitrary: s)
  case (Cons x xs)
  from Cons.prems(1) Cons.prems(2) [of x s] obtain v where v: "f x s = Inr v" "P v" by auto
  have "\<exists>t. ofold f xs v = Inr t \<and> P t"
    by (rule Cons.IH) (use v Cons.prems(2) in auto)
  with v show ?case by simp
qed simp

section \<open>Comparing memory\<close>

text \<open>
  \<^verbatim>\<open>memcmp\<close> on two blocks of the same length; the C function promises the sign of its
  result only, the model returns -1, 0 or 1.
\<close>

fun memcmp :: "bytes \<Rightarrow> bytes \<Rightarrow> int" where
  "memcmp (a # as) (b # bs) = (if a < b then -1 else if b < a then 1 else memcmp as bs)"
| "memcmp _ _ = 0"

lemma memcmp_refl [simp]: "memcmp a a = 0"
  by (induction a) auto

lemma memcmp_swap: "memcmp b a = - memcmp a b"
  by (induction a b rule: memcmp.induct) auto

lemma memcmp_range: "memcmp a b \<in> {-1, 0, 1}"
  by (induction a b rule: memcmp.induct) auto

lemma memcmp_eq_0: "length a = length b \<Longrightarrow> memcmp a b = 0 \<longleftrightarrow> a = b"
  by (induction a b rule: memcmp.induct) auto

lemma memcmp_trans:
  "length a = length b \<Longrightarrow> length b = length c \<Longrightarrow> memcmp a b < 0 \<Longrightarrow> memcmp b c < 0 \<Longrightarrow>
   memcmp a c < 0"
proof (induction a b arbitrary: c rule: memcmp.induct)
  case (1 a as b bs)
  then show ?case by (cases c) (auto split: if_splits)
qed simp_all

section \<open>Ordered sequences: the iv_avl_tree container\<close>

text \<open>A comparison function returns a negative, zero or positive \<^verbatim>\<open>int\<close>.\<close>

definition avl_ordered :: "('a \<Rightarrow> 'a \<Rightarrow> int) \<Rightarrow> 'a list \<Rightarrow> bool" where
  "avl_ordered cmp xs \<longleftrightarrow> sorted_wrt (\<lambda>a b. cmp a b < 0) xs"

fun avl_insert :: "('a \<Rightarrow> 'a \<Rightarrow> int) \<Rightarrow> 'a \<Rightarrow> 'a list \<Rightarrow> 'a list option" where
  "avl_insert cmp x [] = Some [x]"
| "avl_insert cmp x (y # ys) =
     (if cmp x y < 0 then Some (x # y # ys)
      else if cmp x y = 0 then None
      else map_option ((#) y) (avl_insert cmp x ys))"

fun avl_delete :: "('a \<Rightarrow> 'a \<Rightarrow> int) \<Rightarrow> 'a \<Rightarrow> 'a list \<Rightarrow> 'a list" where
  "avl_delete cmp x [] = []"
| "avl_delete cmp x (y # ys) = (if cmp x y = 0 then ys else y # avl_delete cmp x ys)"

definition avl_find :: "('a \<Rightarrow> int) \<Rightarrow> 'a list \<Rightarrow> 'a option" where
  "avl_find k xs = List.find (\<lambda>y. k y = 0) xs"

definition avl_max :: "'a list \<Rightarrow> 'a option" where
  "avl_max xs = (if xs = [] then None else Some (last xs))"

text \<open>
  The search loop of the repository, on the tree itself: \<open>k y\<close> is the comparison of
  the sought key with the element of a node.
\<close>

fun avl_descend :: "('a \<Rightarrow> int) \<Rightarrow> 'a tree \<Rightarrow> 'a option" where
  "avl_descend k Leaf = None"
| "avl_descend k (Node l y r) =
     (if k y = 0 then Some y
      else if k y < 0 then avl_descend k l
      else avl_descend k r)"

lemma avl_find_simps [simp, avl_defs]:
  "avl_find k [] = None"
  "avl_find k (y # ys) = (if k y = 0 then Some y else avl_find k ys)"
  by (simp_all add: avl_find_def)

lemma avl_find_append:
  "avl_find k (xs @ ys) = (case avl_find k xs of Some y \<Rightarrow> Some y | None \<Rightarrow> avl_find k ys)"
  by (induction xs) auto

lemma avl_find_SomeD: "avl_find k xs = Some y \<Longrightarrow> y \<in> set xs \<and> k y = 0"
  by (induction xs) (auto split: if_splits)

lemma avl_find_None_iff: "avl_find k xs = None \<longleftrightarrow> (\<forall>y \<in> set xs. k y \<noteq> 0)"
  by (induction xs) auto

lemma avl_ordered_simps [simp]:
  "avl_ordered cmp []"
  "avl_ordered cmp (x # xs) \<longleftrightarrow> (\<forall>y \<in> set xs. cmp x y < 0) \<and> avl_ordered cmp xs"
  by (simp_all add: avl_ordered_def)

lemma avl_ordered_append:
  "avl_ordered cmp (xs @ ys) \<longleftrightarrow>
     avl_ordered cmp xs \<and> avl_ordered cmp ys \<and> (\<forall>x \<in> set xs. \<forall>y \<in> set ys. cmp x y < 0)"
  by (auto simp: avl_ordered_def sorted_wrt_append)

lemma avl_insert_set: "avl_insert cmp x xs = Some ys \<Longrightarrow> set ys = insert x (set xs)"
  by (induction xs arbitrary: ys) (auto split: if_splits)

lemma avl_insert_length: "avl_insert cmp x xs = Some ys \<Longrightarrow> length ys = Suc (length xs)"
  by (induction xs arbitrary: ys) (auto split: if_splits)

lemma avl_insert_sum:
  fixes f :: "'a \<Rightarrow> nat"
  shows "avl_insert cmp x xs = Some ys \<Longrightarrow> sum_list (map f ys) = f x + sum_list (map f xs)"
  by (induction xs arbitrary: ys) (auto split: if_splits)

lemma avl_insert_last:
  "(\<forall>y \<in> set xs. cmp x y > 0) \<Longrightarrow> avl_insert cmp x xs = Some (xs @ [x])"
  by (induction xs) auto

lemma avl_delete_set: "set (avl_delete cmp x xs) \<subseteq> set xs"
  by (induction xs) auto

lemma avl_delete_sum:
  fixes f :: "'a \<Rightarrow> nat"
  assumes "avl_find (cmp x) xs = Some y"
  shows "sum_list (map f xs) = f y + sum_list (map f (avl_delete cmp x xs))"
  using assms by (induction xs) (auto split: if_splits)

lemma avl_delete_length:
  "avl_find (cmp x) xs = Some y \<Longrightarrow> length xs = Suc (length (avl_delete cmp x xs))"
  by (induction xs) (auto split: if_splits)

lemma avl_delete_ordered: "avl_ordered cmp xs \<Longrightarrow> avl_ordered cmp (avl_delete cmp x xs)"
  by (induction xs) (use avl_delete_set in fastforce)+

lemma avl_max_in: "avl_max xs = Some y \<Longrightarrow> y \<in> set xs"
  by (auto simp: avl_max_def split: if_splits)

text \<open>
  What ivykis asks of a comparison function, on the elements \<open>ok\<close> that the code puts into
  the tree.  Every comparison function of the repository is an instance.
\<close>

locale avl_order =
  fixes cmp :: "'a \<Rightarrow> 'a \<Rightarrow> int" and ok :: "'a \<Rightarrow> bool"
  assumes cmp_refl: "ok a \<Longrightarrow> cmp a a = 0"
    and cmp_swap: "ok a \<Longrightarrow> ok b \<Longrightarrow> sgn (cmp b a) = - sgn (cmp a b)"
    and cmp_trans: "ok a \<Longrightarrow> ok b \<Longrightarrow> ok c \<Longrightarrow> cmp a b < 0 \<Longrightarrow> cmp b c < 0 \<Longrightarrow> cmp a c < 0"
    and cmp_eq: "ok a \<Longrightarrow> ok b \<Longrightarrow> ok c \<Longrightarrow> cmp a b = 0 \<Longrightarrow> sgn (cmp a c) = sgn (cmp b c)"
begin

lemma cmp_gt_iff: "ok a \<Longrightarrow> ok b \<Longrightarrow> cmp b a > 0 \<longleftrightarrow> cmp a b < 0"
  using cmp_swap [of a b] by (simp add: sgn_if split: if_splits)

lemma cmp_zero_iff: "ok a \<Longrightarrow> ok b \<Longrightarrow> cmp b a = 0 \<longleftrightarrow> cmp a b = 0"
  using cmp_swap [of a b] by (simp add: sgn_if split: if_splits)

lemma cmp_eq_neg: "ok a \<Longrightarrow> ok b \<Longrightarrow> ok c \<Longrightarrow> cmp a b = 0 \<Longrightarrow> cmp a c < 0 \<longleftrightarrow> cmp b c < 0"
  using cmp_eq [of a b c] by (simp add: sgn_if split: if_splits)

lemma cmp_eq_zero: "ok a \<Longrightarrow> ok b \<Longrightarrow> ok c \<Longrightarrow> cmp a b = 0 \<Longrightarrow> cmp a c = 0 \<longleftrightarrow> cmp b c = 0"
  using cmp_eq [of a b c] by (simp add: sgn_if split: if_splits)

lemma cmp_less_eq:
  "ok a \<Longrightarrow> ok b \<Longrightarrow> ok c \<Longrightarrow> cmp b c = 0 \<Longrightarrow> cmp a b < 0 \<longleftrightarrow> cmp a c < 0"
  using cmp_eq_neg [of b c a] cmp_swap [of a b] cmp_swap [of a c] cmp_eq [of b c a]
  by (auto simp: sgn_if split: if_splits)

lemma insert_ordered:
  "avl_ordered cmp xs \<Longrightarrow> list_all ok (x # xs) \<Longrightarrow> avl_insert cmp x xs = Some ys \<Longrightarrow>
   avl_ordered cmp ys \<and> list_all ok ys"
proof (induction xs arbitrary: ys)
  case (Cons y zs)
  show ?case
  proof (cases "cmp x y < 0")
    case True
    then have "\<forall>z \<in> set zs. cmp x z < 0"
      using Cons.prems cmp_trans [of x y] by (auto simp: list_all_iff)
    with True Cons.prems show ?thesis by auto
  next
    case False
    with Cons.prems obtain ws where ws: "avl_insert cmp x zs = Some ws" "ys = y # ws"
      by (auto split: if_splits)
    from False Cons.prems(3) have "cmp x y > 0" by (auto split: if_splits)
    with Cons.prems(2) have "cmp y x < 0" by (simp add: cmp_gt_iff)
    moreover have "avl_ordered cmp ws \<and> list_all ok ws"
      by (rule Cons.IH) (use Cons.prems ws in auto)
    ultimately show ?thesis
      using ws Cons.prems(1,2) avl_insert_set [OF ws(1)] by simp
  qed
qed (auto simp: cmp_refl)

lemma insert_None:
  "avl_ordered cmp xs \<Longrightarrow> list_all ok (x # xs) \<Longrightarrow>
   avl_insert cmp x xs = None \<longleftrightarrow> (\<exists>y \<in> set xs. cmp x y = 0)"
proof (induction xs)
  case (Cons y zs)
  have less: "cmp x z < 0" if "cmp x y < 0" "z \<in> set zs" for z
    using that Cons.prems cmp_trans [of x y z] by (auto simp: list_all_iff)
  have IH: "avl_insert cmp x zs = None \<longleftrightarrow> (\<exists>z \<in> set zs. cmp x z = 0)"
    using Cons by simp
  show ?case
  proof (cases "cmp x y < 0")
    case True
    then have "\<forall>z \<in> set zs. cmp x z \<noteq> 0" using less by force
    with True show ?thesis by simp
  next
    case False
    with IH show ?thesis by simp
  qed
qed simp

lemma insert_None_find:
  "avl_ordered cmp xs \<Longrightarrow> list_all ok (x # xs) \<Longrightarrow>
   avl_insert cmp x xs = None \<longleftrightarrow> avl_find (cmp x) xs \<noteq> None"
  using avl_find_None_iff insert_None by (metis (mono_tags, lifting))

lemma insert_Some_find_None:
  assumes "avl_ordered cmp xs" "list_all ok (x # xs)" "avl_find (cmp x) xs = None"
  obtains ys where "avl_insert cmp x xs = Some ys"
  using assms insert_None_find [of xs x] by (cases "avl_insert cmp x xs") auto

lemma ordered_distinct_keys:
  "avl_ordered cmp xs \<Longrightarrow> list_all ok xs \<Longrightarrow> a \<in> set xs \<Longrightarrow> b \<in> set xs \<Longrightarrow> cmp a b = 0 \<Longrightarrow> a = b"
proof (induction xs)
  case (Cons x xs)
  then show ?case
    by (auto simp: list_all_iff) (metis cmp_zero_iff less_irrefl)+
qed simp

lemma find_member:
  "avl_ordered cmp xs \<Longrightarrow> list_all ok (x # xs) \<Longrightarrow> y \<in> set xs \<Longrightarrow> cmp x y = 0 \<Longrightarrow>
   avl_find (cmp x) xs = Some y"
proof (induction xs)
  case (Cons z zs)
  show ?case
  proof (cases "cmp x z = 0")
    case True
    then have "cmp z y = 0"
      using Cons.prems cmp_eq_zero [of x z y] by (auto simp: list_all_iff)
    with Cons.prems have "y = z" by (auto simp: list_all_iff cmp_refl)
    with True show ?thesis by simp
  next
    case False
    with Cons show ?thesis by auto
  qed
qed simp

lemma find_self:
  "avl_ordered cmp xs \<Longrightarrow> list_all ok xs \<Longrightarrow> y \<in> set xs \<Longrightarrow> avl_find (cmp y) xs = Some y"
  by (rule find_member) (auto simp: list_all_iff cmp_refl)

lemma delete_set:
  "avl_ordered cmp xs \<Longrightarrow> list_all ok (x # xs) \<Longrightarrow>
   set (avl_delete cmp x xs) = {y \<in> set xs. cmp x y \<noteq> 0}"
proof (induction xs)
  case (Cons z zs)
  have less: "cmp x y < 0" if "cmp x z = 0" "y \<in> set zs" for y
    using that Cons.prems cmp_eq_neg [of x z y] by (simp add: list_all_iff)
  show ?case
  proof (cases "cmp x z = 0")
    case True
    then have "\<forall>y \<in> set zs. cmp x y \<noteq> 0" using less by force
    with True show ?thesis by auto
  next
    case False
    with Cons show ?thesis by auto
  qed
qed simp

lemma delete_find_None:
  "avl_ordered cmp xs \<Longrightarrow> list_all ok (x # xs) \<Longrightarrow> avl_find (cmp x) (avl_delete cmp x xs) = None"
  by (simp add: avl_find_None_iff delete_set)

lemma ordered_ext:
  "avl_ordered cmp xs \<Longrightarrow> avl_ordered cmp ys \<Longrightarrow> list_all ok xs \<Longrightarrow> set xs = set ys \<Longrightarrow> xs = ys"
proof (induction xs arbitrary: ys)
  case (Cons x xs)
  then obtain y zs where ys: "ys = y # zs" by (cases ys) auto
  have irr: "\<not> cmp a a < 0" if "a \<in> set (x # xs)" for a
    using that Cons.prems cmp_refl [of a] by (auto simp: list_all_iff)
  have "x = y"
  proof (rule ccontr)
    assume "x \<noteq> y"
    with Cons.prems ys have "x \<in> set zs" "y \<in> set xs" by auto
    with Cons.prems ys have "cmp x y < 0" "cmp y x < 0" by auto
    moreover have "ok x" "ok y" using Cons.prems \<open>y \<in> set xs\<close> by (auto simp: list_all_iff)
    ultimately show False using cmp_gt_iff [of x y] by simp
  qed
  moreover have "x \<notin> set xs" "y \<notin> set zs"
    using Cons.prems ys irr by auto
  ultimately have "set xs = set zs" using Cons.prems ys by auto
  with Cons ys \<open>x = y\<close> show ?case by auto
qed simp

lemma descend_find:
  "avl_ordered cmp (inorder t) \<Longrightarrow> ok x \<Longrightarrow> list_all ok (inorder t) \<Longrightarrow>
   avl_descend (cmp x) t = avl_find (cmp x) (inorder t)"
proof (induction t)
  case (Node l y r)
  have l: "cmp x z \<noteq> 0" if "z \<in> set (inorder l)" "cmp x y = 0 \<or> \<not> cmp x y < 0" for z
  proof
    assume "cmp x z = 0"
    with that Node.prems have "cmp z y < 0" "ok z" "ok y"
      by (auto simp: avl_ordered_append list_all_iff)
    with \<open>cmp x z = 0\<close> Node.prems have "cmp x y < 0" using cmp_eq_neg [of x z y] by auto
    with that show False by auto
  qed
  have r: "cmp x z < 0" if "z \<in> set (inorder r)" "cmp x y < 0" for z
    using that Node.prems cmp_trans [of x y z] by (auto simp: avl_ordered_append list_all_iff)
  have none_l: "cmp x y = 0 \<or> \<not> cmp x y < 0 \<Longrightarrow> avl_find (cmp x) (inorder l) = None"
    using l by (auto simp: avl_find_None_iff)
  have none_r: "cmp x y < 0 \<Longrightarrow> avl_find (cmp x) (inorder r) = None"
    using r by (fastforce simp: avl_find_None_iff)
  from Node none_l none_r show ?case
    by (auto simp: avl_find_append avl_ordered_append split: option.splits)
qed simp

end

text \<open>
  Every comparison of the repository is the comparison of a key in a linear order: a byte
  block (lexicographic), a version, a pair of these.
\<close>

definition ord_cmp :: "'a::linorder \<Rightarrow> 'a \<Rightarrow> int" where
  "ord_cmp x y = (if x < y then -1 else if y < x then 1 else 0)"

lemma ord_cmp_simps [simp]:
  "ord_cmp x y < 0 \<longleftrightarrow> x < y" "0 < ord_cmp x y \<longleftrightarrow> y < x" "ord_cmp x y = 0 \<longleftrightarrow> x = y"
  "sgn (ord_cmp x y) = ord_cmp x y" "ord_cmp x y = -1 \<longleftrightarrow> x < y" "ord_cmp x y = 1 \<longleftrightarrow> y < x"
  by (auto simp: ord_cmp_def)

lemma ord_cmp_pair:
  "ord_cmp (a, b) (c, d) = (if ord_cmp a c \<noteq> 0 then ord_cmp a c else ord_cmp b d)"
  by (auto simp: ord_cmp_def)

lemma ord_cmp_Cons:
  "ord_cmp (a # as) (b # bs) = (if a < b then -1 else if b < a then 1 else ord_cmp as bs)"
  by (auto simp: ord_cmp_def)

lemma memcmp_ord: "length a = length b \<Longrightarrow> memcmp a b = ord_cmp a b"
proof (induction a b rule: memcmp.induct)
  case (1 a as b bs)
  then show ?case by (auto simp: ord_cmp_Cons)
qed (auto simp: ord_cmp_def)

lemma avl_order_key:
  fixes f :: "'a \<Rightarrow> 'b::linorder"
  assumes cmp: "\<And>a b. ok a \<Longrightarrow> ok b \<Longrightarrow> sgn (cmp a b) = ord_cmp (f a) (f b)"
  shows "avl_order cmp ok"
proof -
  have neg: "cmp a b < 0 \<longleftrightarrow> f a < f b" and zero: "cmp a b = 0 \<longleftrightarrow> f a = f b"
    if "ok a" "ok b" for a b
    using cmp [OF that] by (auto simp: sgn_if ord_cmp_def split: if_splits)
  show ?thesis
  proof
    show "cmp a a = 0" if "ok a" for a using zero that by blast
    show "sgn (cmp b a) = - sgn (cmp a b)" if "ok a" "ok b" for a b
      using that by (auto simp: cmp ord_cmp_def)
    show "cmp a c < 0" if "ok a" "ok b" "ok c" "cmp a b < 0" "cmp b c < 0" for a b c
      using that neg less_trans by metis
    show "sgn (cmp a c) = sgn (cmp b c)" if "ok a" "ok b" "ok c" "cmp a b = 0" for a b c
      using that zero [of a b] by (simp add: cmp)
  qed
qed

end
