(* ===== verification/Util.thy ===== *)
theory Util
  imports Prelude "HOL-Library.Signed_Division"
begin

text \<open>
  \<^verbatim>\<open>src/util.c\<close>: the walk over two containers (\<^verbatim>\<open>avl_diff\<close>), the comparison of socket
  addresses, the base-32 form of a node id (parser, printer and the search for it in a
  host name), the IPv6 addresses derived from a node id, and the arithmetic on
  \<^verbatim>\<open>struct timespec\<close>.  \<^verbatim>\<open>print_address\<close> only prints and is not modelled.
\<close>

section \<open>avl_diff\<close>

text \<open>
  \<open>avl_diff_ops\<close> is the walk of \<^verbatim>\<open>avl_diff\<close>: the callbacks it makes, in order.  The code
  advances its cursor before it makes a callback, so a callback may move the element it is
  given.  A null tree is walked like an empty one.
\<close>

datatype 'a diff_op = Item_add 'a | Item_mod 'a 'a | Item_del 'a

fun avl_diff_ops :: "('a \<Rightarrow> 'a \<Rightarrow> int) \<Rightarrow> 'a list \<Rightarrow> 'a list \<Rightarrow> 'a diff_op list" where
  "avl_diff_ops cmp (a # as) (b # bs) =
     (if cmp a b < 0 then Item_del a # avl_diff_ops cmp as (b # bs)
      else if cmp a b > 0 then Item_add b # avl_diff_ops cmp (a # as) bs
      else Item_mod a b # avl_diff_ops cmp as bs)"
| "avl_diff_ops cmp (a # as) [] = Item_del a # avl_diff_ops cmp as []"
| "avl_diff_ops cmp [] (b # bs) = Item_add b # avl_diff_ops cmp [] bs"
| "avl_diff_ops cmp [] [] = []"

fun diff_call ::
  "('a \<Rightarrow> 's \<Rightarrow> 's outcome) \<Rightarrow> ('a \<Rightarrow> 'a \<Rightarrow> 's \<Rightarrow> 's outcome) \<Rightarrow> ('a \<Rightarrow> 's \<Rightarrow> 's outcome) \<Rightarrow>
   'a diff_op \<Rightarrow> 's \<Rightarrow> 's outcome" where
  "diff_call item_add item_mod item_del (Item_add a) s = item_add a s"
| "diff_call item_add item_mod item_del (Item_mod a b) s = item_mod a b s"
| "diff_call item_add item_mod item_del (Item_del a) s = item_del a s"

definition avl_diff ::
  "('a \<Rightarrow> 'a \<Rightarrow> int) \<Rightarrow> 'a list \<Rightarrow> 'a list \<Rightarrow>
   ('a \<Rightarrow> 's \<Rightarrow> 's outcome) \<Rightarrow> ('a \<Rightarrow> 'a \<Rightarrow> 's \<Rightarrow> 's outcome) \<Rightarrow> ('a \<Rightarrow> 's \<Rightarrow> 's outcome) \<Rightarrow>
   's \<Rightarrow> 's outcome" where
  "avl_diff cmp a b item_add item_mod item_del s =
     ofold (diff_call item_add item_mod item_del) (avl_diff_ops cmp a b) s"

lemma avl_diff_ops_Nil [simp]:
  "avl_diff_ops cmp xs [] = map Item_del xs"
  "avl_diff_ops cmp [] ys = map Item_add ys"
  by (induction xs, simp_all) (induction ys, simp_all)

lemma avl_diff_ops_induct [case_names Both Left Right]:
  fixes cmp :: "'a \<Rightarrow> 'a \<Rightarrow> int" and P :: "'a list \<Rightarrow> 'a list \<Rightarrow> bool"
  assumes "\<And>a as b bs. (cmp a b < 0 \<Longrightarrow> P as (b # bs)) \<Longrightarrow> (cmp a b > 0 \<Longrightarrow> P (a # as) bs) \<Longrightarrow>
      (cmp a b = 0 \<Longrightarrow> P as bs) \<Longrightarrow> P (a # as) (b # bs)"
    and "\<And>as. P as []" and "\<And>bs. P [] bs"
  shows "P as bs"
proof (induction cmp\<equiv>cmp as bs rule: avl_diff_ops.induct)
  case (1 a as b bs)
  then show ?case by (intro assms(1)) auto
qed (rule assms)+

text \<open>No element of either container is passed over, and none is visited twice.\<close>

fun op_old :: "'a diff_op \<Rightarrow> 'a list" where
  "op_old (Item_add b) = []"
| "op_old (Item_mod a b) = [a]"
| "op_old (Item_del a) = [a]"

fun op_new :: "'a diff_op \<Rightarrow> 'a list" where
  "op_new (Item_add b) = [b]"
| "op_new (Item_mod a b) = [b]"
| "op_new (Item_del a) = []"

lemma avl_diff_ops_old: "concat (map op_old (avl_diff_ops cmp as bs)) = as"
  by (induction cmp as bs rule: avl_diff_ops.induct) (auto simp: comp_def)

lemma avl_diff_ops_new: "concat (map op_new (avl_diff_ops cmp as bs)) = bs"
  by (induction cmp as bs rule: avl_diff_ops.induct) (auto simp: comp_def)

lemma avl_diff_ops_same: "\<forall>a \<in> set as. cmp a a = 0 \<Longrightarrow> avl_diff_ops cmp as as = map (\<lambda>a. Item_mod a a) as"
  by (induction as) auto

lemma avl_diff_ops_old_in: "e \<in> set (avl_diff_ops cmp as bs) \<Longrightarrow> x \<in> set (op_old e) \<Longrightarrow> x \<in> set as"
  by (subst avl_diff_ops_old [of cmp as bs, symmetric]) auto

lemma avl_diff_ops_new_in: "e \<in> set (avl_diff_ops cmp as bs) \<Longrightarrow> x \<in> set (op_new e) \<Longrightarrow> x \<in> set bs"
  by (subst avl_diff_ops_new [of cmp as bs, symmetric]) auto

lemma avl_diff_ops_distinct: "distinct as \<Longrightarrow> distinct bs \<Longrightarrow> distinct (avl_diff_ops cmp as bs)"
proof (induction as bs rule: avl_diff_ops_induct [where cmp = cmp])
  case (Both a as b bs)
  have "Item_del a \<notin> set (avl_diff_ops cmp as (b # bs))" "Item_mod a b \<notin> set (avl_diff_ops cmp as bs)"
    using avl_diff_ops_old_in [of _ cmp as _ a] Both.prems(1) by fastforce+
  moreover have "Item_add b \<notin> set (avl_diff_ops cmp (a # as) bs)"
    using avl_diff_ops_new_in [of "Item_add b" cmp _ bs b] Both.prems(2) by fastforce
  ultimately show ?case using Both by simp
qed (auto simp: distinct_map inj_on_def)

context avl_order
begin

lemma ordered_distinct: "avl_ordered cmp xs \<Longrightarrow> list_all ok xs \<Longrightarrow> distinct xs"
  by (induction xs) (auto simp: cmp_refl)

lemma below_all:
  "avl_ordered cmp (y # ys) \<Longrightarrow> list_all ok (x # y # ys) \<Longrightarrow> cmp x y < 0 \<Longrightarrow> z \<in> set (y # ys) \<Longrightarrow>
   cmp x z < 0"
  using cmp_trans [of x y z] by (auto simp: list_all_iff)

lemma below_rest:
  "avl_ordered cmp (y # ys) \<Longrightarrow> list_all ok (x # y # ys) \<Longrightarrow> cmp x y = 0 \<Longrightarrow> z \<in> set ys \<Longrightarrow>
   cmp x z < 0"
  using cmp_eq_neg [of x y z] by (auto simp: list_all_iff)

text \<open>The walk over two increasing containers: which callbacks it makes, at each head.\<close>

lemma heads:
  assumes "avl_ordered cmp (a # as)" "avl_ordered cmp (b # bs)"
    and "list_all ok (a # as)" "list_all ok (b # bs)"
  shows "cmp a b < 0 \<Longrightarrow> \<forall>z \<in> set (b # bs). cmp a z \<noteq> 0"
    and "cmp a b > 0 \<Longrightarrow> \<forall>z \<in> set (a # as). cmp z b \<noteq> 0"
    and "cmp a b = 0 \<Longrightarrow> \<forall>z \<in> set bs. cmp a z \<noteq> 0"
    and "cmp a b = 0 \<Longrightarrow> \<forall>z \<in> set as. cmp z b \<noteq> 0"
proof -
  show "\<forall>z \<in> set (b # bs). cmp a z \<noteq> 0" if "cmp a b < 0"
    using below_all [of b bs a] assms that by fastforce
  show "\<forall>z \<in> set bs. cmp a z \<noteq> 0" if "cmp a b = 0"
    using below_rest [of b bs a] assms that by fastforce
  have sym: "cmp z b = 0 \<longleftrightarrow> cmp b z = 0" if "z \<in> set (a # as)" for z
    by (rule cmp_zero_iff) (use that assms in \<open>auto simp: list_all_iff\<close>)
  have "cmp b z < 0" if "cmp a b > 0" "z \<in> set (a # as)" for z
    by (rule below_all [of a as]) (use that assms cmp_gt_iff [of b a] in auto)
  then show "\<forall>z \<in> set (a # as). cmp z b \<noteq> 0" if "cmp a b > 0"
    using that sym by fastforce
  have "cmp b z < 0" if "cmp a b = 0" "z \<in> set as" for z
    by (rule below_rest [of a as]) (use that assms cmp_zero_iff [of b a] in auto)
  then show "\<forall>z \<in> set as. cmp z b \<noteq> 0" if "cmp a b = 0"
    using that sym by fastforce
qed

lemma diff_ops_iff:
  assumes "avl_ordered cmp as" "avl_ordered cmp bs" "list_all ok as" "list_all ok bs"
  shows "(Item_mod x y \<in> set (avl_diff_ops cmp as bs) \<longleftrightarrow> x \<in> set as \<and> y \<in> set bs \<and> cmp x y = 0) \<and>
    (Item_del x \<in> set (avl_diff_ops cmp as bs) \<longleftrightarrow> x \<in> set as \<and> (\<forall>z \<in> set bs. cmp x z \<noteq> 0)) \<and>
    (Item_add y \<in> set (avl_diff_ops cmp as bs) \<longleftrightarrow> y \<in> set bs \<and> (\<forall>z \<in> set as. cmp z y \<noteq> 0))"
  using assms
proof (induction as bs rule: avl_diff_ops_induct [where cmp = cmp])
  case (Both a as b bs)
  note h = heads [OF Both.prems]
  consider (lt) "cmp a b < 0" | (gt) "cmp a b > 0" | (eq) "cmp a b = 0" by linarith
  then show ?case
  proof cases
    case lt
    with Both h(1) show ?thesis by auto
  next
    case gt
    with Both h(2) show ?thesis by auto
  next
    case eq
    with Both h(3,4) show ?thesis by auto
  qed
qed auto

end

section \<open>Socket addresses\<close>

text \<open>
  The fields of \<^verbatim>\<open>struct sockaddr_storage\<close> that \<^verbatim>\<open>addrcmp\<close> reads: the family, and the address
  and port of that family in network byte order (4 and 2 bytes for \<^verbatim>\<open>AF_INET\<close>, 16 and 2
  for \<^verbatim>\<open>AF_INET6\<close>).  Any other family makes the code abort.
\<close>

record sockaddr =
  ss_family :: u16
  ss_addr :: bytes
  ss_port :: bytes

definition AF_INET :: u16 where "AF_INET = 2"
definition AF_INET6 :: u16 where "AF_INET6 = 10"

definition addrcmp :: "sockaddr \<Rightarrow> sockaddr \<Rightarrow> int outcome" where
  "addrcmp a b =
     (if ss_family a < ss_family b then Inr (-1)
      else if ss_family a > ss_family b then Inr 1
      else if ss_family a = AF_INET \<or> ss_family a = AF_INET6 then
        (let ret = memcmp (ss_addr a) (ss_addr b)
         in if ret \<noteq> 0 then Inr ret
            else let ret = memcmp (ss_port a) (ss_port b)
                 in if ret \<noteq> 0 then Inr ret else Inr 0)
      else Inl Abort)"

text \<open>Addresses as the kernel and \<^verbatim>\<open>parse_listen_addr\<close> produce them.\<close>

definition sockaddr_ok :: "sockaddr \<Rightarrow> bool" where
  "sockaddr_ok a \<longleftrightarrow>
     (ss_family a = AF_INET \<and> length (ss_addr a) = 4 \<or>
      ss_family a = AF_INET6 \<and> length (ss_addr a) = 16) \<and> length (ss_port a) = 2"

definition addrcmp_int :: "sockaddr \<Rightarrow> sockaddr \<Rightarrow> int" where
  "addrcmp_int a b = (case addrcmp a b of Inr r \<Rightarrow> r | Inl _ \<Rightarrow> 0)"

lemma addrcmp_returns:
  "sockaddr_ok a \<Longrightarrow> sockaddr_ok b \<Longrightarrow> addrcmp a b = Inr (addrcmp_int a b)"
  by (auto simp: addrcmp_int_def addrcmp_def sockaddr_ok_def Let_def split: sum.splits if_splits)

text \<open>On these, \<^verbatim>\<open>addrcmp\<close> compares family, address and port lexicographically.\<close>

definition sockaddr_key :: "sockaddr \<Rightarrow> u16 \<times> bytes \<times> bytes" where
  "sockaddr_key a = (ss_family a, ss_addr a, ss_port a)"

lemma addrcmp_int_key:
  assumes "sockaddr_ok a" "sockaddr_ok b"
  shows "addrcmp_int a b = ord_cmp (sockaddr_key a) (sockaddr_key b)"
proof -
  have len: "ss_family a = ss_family b \<Longrightarrow> length (ss_addr a) = length (ss_addr b)"
    "length (ss_port a) = length (ss_port b)"
    using assms by (auto simp: sockaddr_ok_def AF_INET_def AF_INET6_def)
  show ?thesis
  proof (cases "ss_family a = ss_family b")
    case True
    with assms len show ?thesis
      by (auto simp: addrcmp_int_def addrcmp_def sockaddr_key_def sockaddr_ok_def Let_def
          ord_cmp_pair memcmp_ord)
  next
    case False
    then show ?thesis
      by (auto simp: addrcmp_int_def addrcmp_def sockaddr_key_def ord_cmp_pair)
        (auto simp: ord_cmp_def)
  qed
qed

interpretation socka: avl_order addrcmp_int sockaddr_ok
  by (rule avl_order_key [where f = sockaddr_key]) (simp add: addrcmp_int_key)

lemma addrcmp_int_eq_0:
  "sockaddr_ok a \<Longrightarrow> sockaddr_ok b \<Longrightarrow> addrcmp_int a b = 0 \<longleftrightarrow> a = b"
  by (cases a, cases b) (auto simp: addrcmp_int_key sockaddr_key_def)

section \<open>Node ids in base 32\<close>

definition NODE_ID_LEN :: nat where "NODE_ID_LEN = 32"

text \<open>C strings are byte lists without the terminating 0; reading at the end gives that 0.\<close>

definition cstr_at :: "bytes \<Rightarrow> nat \<Rightarrow> byte" where
  "cstr_at s i = (if i < length s then s ! i else 0)"

text \<open>The alphabet \<open>0123456789bcdfghjklmnpqrstuvwxyz\<close>, and the values of the letters.\<close>

definition base32 :: bytes where
  "base32 = map (\<lambda>c. of_char c) ''0123456789bcdfghjklmnpqrstuvwxyz''"

definition base32idx :: "int list" where
  "base32idx =
     [-1, 10, 11, 12, -1, 13, 14, 15, -1, 16, 17, 18, 19,
      20, -1, 21, 22, 23, 24, 25, 26, 27, 28, 29, 30, 31]"

definition base32char :: "byte \<Rightarrow> int" where
  "base32char c =
     (if 48 \<le> c \<and> c \<le> 57 then int (unat c) - 48
      else if 65 \<le> c \<and> c \<le> 90 then base32idx ! (unat c - 65)
      else if 97 \<le> c \<and> c \<le> 122 then base32idx ! (unat c - 97)
      else -1)"

text \<open>
  The loop bodies of \<^verbatim>\<open>parse_base32_fingerprint\<close> and \<^verbatim>\<open>print_fingerprint\<close>: with
  \<open>j = 5 * i\<close>, chunk \<open>i\<close> covers bits \<open>j\<close> to \<open>j + 4\<close> of the id, counted from the low bit
  of its first byte.  \<open>v\<close> and \<open>val\<close> are \<^verbatim>\<open>int\<close>s in C and never negative here.
\<close>

definition put_chunk :: "nat \<Rightarrow> u32 \<Rightarrow> bytes \<Rightarrow> bytes" where
  "put_chunk j c nid =
     (let v = push_bit (j mod 8) c;
          byte = j div 8;
          nid = nid[byte := (nid ! byte) OR ucast (v AND 0xff)]
      in if v AND 0xff00 \<noteq> 0 \<and> byte + 1 < NODE_ID_LEN
         then nid[byte + 1 := (nid ! (byte + 1)) OR ucast (drop_bit 8 v)]
         else nid)"

definition get_chunk :: "nat \<Rightarrow> bytes \<Rightarrow> u32" where
  "get_chunk j nid =
     (let byte = j div 8;
          val = ucast (nid ! byte) :: u32;
          val = (if byte + 1 < NODE_ID_LEN then val OR push_bit 8 (ucast (nid ! (byte + 1))) else val)
      in drop_bit (j mod 8) val AND 0x1f)"

fun parse_base32_from :: "nat list \<Rightarrow> bytes \<Rightarrow> bytes \<Rightarrow> int \<times> bytes" where
  "parse_base32_from [] fp nid = (0, nid)"
| "parse_base32_from (i # is) fp nid =
     (let v = base32char (cstr_at fp i)
      in if v < 0 then (-1, nid)
         else parse_base32_from is fp (put_chunk (5 * i) (word_of_int v) nid))"

definition parse_base32_fingerprint :: "bytes \<Rightarrow> int \<times> bytes" where
  "parse_base32_fingerprint fp = parse_base32_from [0..<52] fp (replicate NODE_ID_LEN 0)"

definition print_fingerprint :: "bytes \<Rightarrow> bytes" where
  "print_fingerprint nid = map (\<lambda>i. base32 ! unat (get_chunk (5 * i) nid)) [0..<52]"

text \<open>
  The search for a fingerprint in a host name: each label that starts with \<^verbatim>\<open>z2bq\<close> and is
  followed by 52 base-32 characters and a dot.  The id is written even when the test of the
  dot then fails, as in the code.
\<close>

function parse_hostname_fingerprint :: "bytes \<Rightarrow> bytes \<Rightarrow> int \<times> bytes" where
  "parse_hostname_fingerprint nid hostname =
     (if length hostname > 56 then
        (let is_z2bq = (take 4 hostname = map of_char ''z2bq'');
             (ret, nid') = parse_base32_fingerprint (drop 4 hostname);
             nid = (if is_z2bq then nid' else nid)
         in if is_z2bq \<and> ret = 0 \<and> hostname ! 56 = of_char (CHR ''.'') then (0, nid)
            else (case dropWhile (\<lambda>c. c \<noteq> of_char (CHR ''.'')) hostname of
                    [] \<Rightarrow> (-1, nid)
                  | _ # rest \<Rightarrow> parse_hostname_fingerprint nid rest))
      else (-1, nid))"
  by pat_completeness auto
termination
proof (relation "measure (\<lambda>(nid, h). length h)")
  fix hostname :: bytes and y :: byte and rest :: bytes
  assume "dropWhile (\<lambda>c. c \<noteq> of_char (CHR ''.'')) hostname = y # rest"
  then have "length (y # rest) \<le> length hostname" by (metis length_dropWhile_le)
  then have "length rest < length hostname" by simp
  then show "((nid', rest), nid, hostname) \<in> measure (\<lambda>(nid, h). length h)" for nid nid' :: bytes
    by simp
qed simp

declare parse_hostname_fingerprint.simps [simp del]

subsection \<open>Printing and parsing are inverse\<close>

lemma word_small_bit:
  fixes c :: "'a::len word"
  assumes "unat c < 2 ^ n" "bit c k"
  shows "k < n"
proof (rule ccontr)
  assume "\<not> k < n"
  have "take_bit n (unat c) = unat c" using assms(1) by (simp add: take_bit_nat_eq_self)
  moreover have "bit (unat c) k" using assms(2) by (simp add: bit_unsigned_iff)
  ultimately show False using \<open>\<not> k < n\<close> by (metis bit_take_bit_iff)
qed

lemma length_put_chunk [simp]: "length (put_chunk j c nid) = length nid"
  by (simp add: put_chunk_def Let_def)

lemma mask_consts:
  "(0xff :: u32) = mask 8" "(0x1f :: u32) = mask 5" "(0xff00 :: u32) = push_bit 8 (mask 8)"
  by (simp_all add: mask_eq_exp_minus_1 push_bit_eq_mult)

lemma put_chunk_bit:
  assumes len: "length nid = 32" and t: "t < 256" and c: "unat c < 32" and j: "j < 256"
  shows "bit (put_chunk j c nid ! (t div 8)) (t mod 8) \<longleftrightarrow>
     bit (nid ! (t div 8)) (t mod 8) \<or> (j \<le> t \<and> bit c (t - j))"
proof -
  define v where "v = push_bit (j mod 8) c"
  have c5: "bit c k \<Longrightarrow> k < 5" for k
    using word_small_bit [of c 5 k] c by simp
  have v12: "bit v k \<Longrightarrow> k < 12" for k
    using c5 [of "k - j mod 8"] mod_less_divisor [of 8 j] by (auto simp: v_def bit_push_bit_iff)
  have bv: "bit v k \<longleftrightarrow> j mod 8 \<le> k \<and> bit c (k - j mod 8)" if "k < 32" for k
    using that by (simp add: v_def bit_push_bit_iff)
  have hi: "\<not> bit v k" if "v AND 0xff00 = 0" "8 \<le> k" for k
  proof
    assume k: "bit v k"
    then have "k < 12" by (rule v12)
    with that(2) have "k - 8 < 8" "k - 8 < 32" by linarith+
    then have "bit (v AND 0xff00) k"
      using k that(2) unfolding mask_consts by (simp add: bit_simps)
    with that(1) show False by simp
  qed
  define m where "m = t mod 8"
  have m: "m < 8" "t = 8 * (t div 8) + m" by (simp_all add: m_def)
  have jb: "j = 8 * (j div 8) + j mod 8" "j mod 8 < 8" "j div 8 < 32" using j by simp_all
  consider (lo) "t div 8 = j div 8" | (hi) "t div 8 = j div 8 + 1"
    | (no) "t div 8 \<noteq> j div 8" "t div 8 \<noteq> j div 8 + 1" by blast
  then show ?thesis
  proof cases
    case lo
    have "bit (put_chunk j c nid ! (t div 8)) m \<longleftrightarrow>
        bit (nid ! (t div 8)) m \<or> bit v m"
      using lo len jb m unfolding put_chunk_def v_def [symmetric] mask_consts
      by (simp add: Let_def bit_simps)
    also have "bit v m \<longleftrightarrow> j \<le> t \<and> bit c (t - j)"
    proof -
      have "j \<le> t \<longleftrightarrow> j mod 8 \<le> m" "t - j = m - j mod 8" using lo m jb by linarith+
      then show ?thesis using bv [of m] m by simp
    qed
    finally show ?thesis by (simp add: m_def)
  next
    case hi
    have "j div 8 + 1 < 32" using hi t by linarith
    have "bit (put_chunk j c nid ! (t div 8)) m \<longleftrightarrow>
        bit (nid ! (t div 8)) m \<or> bit v (m + 8)"
    proof (cases "v AND 0xff00 = 0")
      case True
      then show ?thesis using hi len jb m \<open>_ + 1 < 32\<close> \<open>\<And>k. v AND 0xff00 = 0 \<Longrightarrow> 8 \<le> k \<Longrightarrow> \<not> bit v k\<close> [of "m + 8"]
        unfolding put_chunk_def v_def [symmetric]
        by (simp add: Let_def)
    next
      case False
      then show ?thesis using hi len jb m \<open>_ + 1 < 32\<close>
        unfolding put_chunk_def v_def [symmetric]
        by (simp add: Let_def bit_simps NODE_ID_LEN_def add.commute)
    qed
    also have "bit v (m + 8) \<longleftrightarrow> j \<le> t \<and> bit c (t - j)"
    proof -
      have "j \<le> t" "j mod 8 \<le> m + 8" "t - j = m + 8 - j mod 8" using hi m jb by linarith+
      then show ?thesis using bv [of "m + 8"] m by simp
    qed
    finally show ?thesis by (simp add: m_def)
  next
    case no
    have "\<not> (j \<le> t \<and> bit c (t - j))"
    proof
      assume a: "j \<le> t \<and> bit c (t - j)"
      then have "t < j + 5" using c5 [of "t - j"] by linarith
      then have "t div 8 = j div 8 \<or> t div 8 = j div 8 + 1" using a m jb by linarith
      with no show False by blast
    qed
    moreover have "put_chunk j c nid ! (t div 8) = nid ! (t div 8)"
      using no by (simp add: put_chunk_def Let_def nth_list_update)
    ultimately show ?thesis by auto
  qed
qed

lemma get_chunk_small: "unat (get_chunk j nid) < 32"
proof -
  have "get_chunk j nid = take_bit 5 (get_chunk j nid)"
    unfolding get_chunk_def mask_consts by (simp add: Let_def flip: take_bit_eq_mask)
  then have "unat (get_chunk j nid) = take_bit 5 (unat (get_chunk j nid))"
    by (metis unsigned_take_bit_eq)
  also have "\<dots> < 2 ^ 5" by (rule take_bit_nat_less_exp)
  finally show ?thesis by simp
qed

lemma get_chunk_bit:
  assumes len: "length nid = 32" and j: "j + k < 256" and k: "k < 5"
  shows "bit (get_chunk j nid) k \<longleftrightarrow> bit (nid ! ((j + k) div 8)) ((j + k) mod 8)"
proof -
  have jb: "j = 8 * (j div 8) + j mod 8" "j mod 8 < 8" "j div 8 < 32" using j by simp_all
  show ?thesis
  proof (cases "j mod 8 + k < 8")
    case True
    then have q: "(j + k) div 8 = j div 8" "(j + k) mod 8 = j mod 8 + k"
      using jb by (linarith, metis True mod_add_left_eq mod_less)
    show ?thesis using True k unfolding q get_chunk_def mask_consts
      by (auto simp: Let_def bit_simps add.commute)
  next
    case False
    then have q: "(j + k) div 8 = j div 8 + 1" "(j + k) mod 8 = j mod 8 + k - 8"
    proof -
      show "(j + k) div 8 = j div 8 + 1" using False jb k by linarith
      have "(j + k) mod 8 = (j mod 8 + k) mod 8" by (simp add: mod_add_left_eq)
      also have "\<dots> = j mod 8 + k - 8" using False jb(2) k by (simp add: le_mod_geq)
      finally show "(j + k) mod 8 = j mod 8 + k - 8" .
    qed
    have "j div 8 + 1 < 32" using q(1) j by linarith
    then show ?thesis using False k jb(2) unfolding q get_chunk_def mask_consts
      by (auto simp: Let_def bit_simps add.commute NODE_ID_LEN_def dest: bit_imp_le_length)
  qed
qed

lemma base32_length: "length base32 = 32"
  by (simp add: base32_def)

lemma base32char_base32: "n < 32 \<Longrightarrow> base32char (base32 ! n) = int n"
proof -
  have "\<forall>n \<in> set [0..<32]. base32char (base32 ! n) = int n"
    by code_simp
  then show "n < 32 \<Longrightarrow> base32char (base32 ! n) = int n" by simp
qed

lemma parse_print_from:
  assumes len: "length nid = 32" "length out = 32" and n: "n \<le> 52"
    and fp: "\<And>i. i < 52 \<Longrightarrow> cstr_at fp i = base32 ! unat (get_chunk (5 * i) nid)"
    and sofar: "\<And>t. t < 256 \<Longrightarrow> bit (out ! (t div 8)) (t mod 8) \<longleftrightarrow> t < 5 * (52 - n) \<and> bit (nid ! (t div 8)) (t mod 8)"
  shows "parse_base32_from [52 - n..<52] fp out = (0, nid)"
  using n len(2) sofar
proof (induction n arbitrary: out)
  case 0
  have "out = nid"
  proof (rule nth_equalityI)
    fix q assume q: "q < length out"
    show "out ! q = nid ! q"
    proof (rule bit_word_eqI)
      fix m assume "m < LENGTH(8)"
      then show "bit (out ! q) m = bit (nid ! q) m"
        using "0.prems"(3) [of "8 * q + m"] q "0.prems"(2) by simp
    qed
  qed (use len "0.prems" in simp)
  then show ?case by simp
next
  case (Suc n)
  define i where "i = 52 - Suc n"
  have i: "i < 52" "52 - n = Suc i" "51 - n = i" using Suc.prems(1) by (auto simp: i_def)
  let ?c = "get_chunk (5 * i) nid"
  have c: "unat ?c < 32" by (rule get_chunk_small)
  have val: "base32char (cstr_at fp i) = int (unat ?c)"
    using fp [of i] i c by (simp add: base32char_base32)
  have upt: "[i..<52] = i # [Suc i..<52]" using i by (simp add: upt_conv_Cons)
  have "parse_base32_from [i..<52] fp out = parse_base32_from [52 - n..<52] fp (put_chunk (5 * i) ?c out)"
    unfolding upt i(2) by (simp add: val Let_def)
  also have "\<dots> = (0, nid)"
  proof (rule Suc.IH)
    fix t :: nat assume t: "t < 256"
    have "bit ?c (t - 5 * i) \<longleftrightarrow> t < 5 * i + 5 \<and> bit (nid ! (t div 8)) (t mod 8)" if "5 * i \<le> t"
    proof (cases "t < 5 * i + 5")
      case True
      then show ?thesis using get_chunk_bit [of nid "5 * i" "t - 5 * i"] len t that by simp
    next
      case False
      then show ?thesis using word_small_bit [of ?c 5 "t - 5 * i"] c by force
    qed
    then show "bit (put_chunk (5 * i) ?c out ! (t div 8)) (t mod 8) \<longleftrightarrow>
        t < 5 * (52 - n) \<and> bit (nid ! (t div 8)) (t mod 8)"
      using Suc.prems(2) Suc.prems(3) [OF t] t i c by (auto simp: put_chunk_bit i_def [symmetric])
  qed (use Suc.prems in auto)
  finally show ?case by (simp add: i_def)
qed

lemma parse_print_id: "length nid = NODE_ID_LEN \<Longrightarrow> parse_base32_fingerprint (print_fingerprint nid) = (0, nid)"
  using parse_print_from [of nid "replicate 32 0" 52 "print_fingerprint nid"]
  by (simp add: parse_base32_fingerprint_def print_fingerprint_def cstr_at_def NODE_ID_LEN_def del: upt_Suc)

text \<open>Printing a node id and parsing the text gives the id back.\<close>

theorem parse_print_fingerprint:
  "length nid = NODE_ID_LEN \<Longrightarrow> parse_base32_fingerprint (print_fingerprint nid) = (0, nid)"
  by (rule parse_print_id)

theorem parse_print_fingerprint_witness:
  "parse_base32_fingerprint (print_fingerprint (replicate 31 0 @ [0xa5])) = (0, replicate 31 0 @ [0xa5])"
  by (rule parse_print_fingerprint) (simp add: NODE_ID_LEN_def)

section \<open>Addresses derived from a node id\<close>

definition v6_global_addr_from_key_id :: "bytes \<Rightarrow> bytes" where
  "v6_global_addr_from_key_id nid = [0x20, 0x01, 0x00, 0x2f] @ take 12 (drop ((NODE_ID_LEN - 12) div 2) nid)"

definition v6_linklocal_addr_from_key_id :: "bytes \<Rightarrow> bytes" where
  "v6_linklocal_addr_from_key_id nid = [0xfe, 0x80] @ take 14 (drop ((NODE_ID_LEN - 14) div 2) nid)"

lemma v6_addr_length:
  "length nid = NODE_ID_LEN \<Longrightarrow> length (v6_global_addr_from_key_id nid) = 16"
  "length nid = NODE_ID_LEN \<Longrightarrow> length (v6_linklocal_addr_from_key_id nid) = 16"
  by (simp_all add: v6_global_addr_from_key_id_def v6_linklocal_addr_from_key_id_def NODE_ID_LEN_def)

section \<open>Timers\<close>

text \<open>
  \<open>rnd\<close> is the result of \<^verbatim>\<open>random()\<close>, between 0 and \<^verbatim>\<open>RAND_MAX\<close>; divisions truncate
  as in C.
\<close>

record timespec =
  tv_sec :: int
  tv_nsec :: int

definition RAND_MAX :: int where "RAND_MAX = 2147483647"

definition timespec_add_ms :: "int \<Rightarrow> timespec \<Rightarrow> int \<Rightarrow> int \<Rightarrow> timespec" where
  "timespec_add_ms rnd ts minms maxms =
     (let ms = minms + ((maxms - minms) * rnd) sdiv RAND_MAX;
          sec = tv_sec ts + ms sdiv 1000;
          nsec = tv_nsec ts + 1000000 * (ms smod 1000)
      in if nsec \<ge> 1000000000 then ts\<lparr>tv_sec := sec + 1, tv_nsec := nsec - 1000000000\<rparr>
         else ts\<lparr>tv_sec := sec, tv_nsec := nsec\<rparr>)"

definition timespec_ns :: "timespec \<Rightarrow> int" where
  "timespec_ns ts = 1000000000 * tv_sec ts + tv_nsec ts"

lemma random_share:
  assumes "0 \<le> d" "0 \<le> rnd" "rnd \<le> RAND_MAX"
  shows "0 \<le> (d * rnd) sdiv RAND_MAX" "(d * rnd) sdiv RAND_MAX \<le> d"
proof -
  have nn: "0 \<le> d * rnd" using assms by simp
  have div: "(d * rnd) sdiv RAND_MAX = (d * rnd) div RAND_MAX"
    using nn by (simp add: signed_divide_int_def RAND_MAX_def sgn_if)
  show "0 \<le> (d * rnd) sdiv RAND_MAX"
    unfolding div using nn by (simp add: RAND_MAX_def pos_imp_zdiv_nonneg_iff)
  have "d * rnd \<le> d * RAND_MAX" using assms by (simp add: mult_left_mono)
  then have "(d * rnd) div RAND_MAX \<le> (d * RAND_MAX) div RAND_MAX"
    by (simp add: zdiv_mono1 RAND_MAX_def)
  then show "(d * rnd) sdiv RAND_MAX \<le> d" unfolding div by (simp add: RAND_MAX_def)
qed

lemma timespec_add_ms_range:
  assumes "0 \<le> minms" "minms \<le> maxms" "0 \<le> rnd" "rnd \<le> RAND_MAX"
    and "0 \<le> tv_nsec ts" "tv_nsec ts < 1000000000"
  shows "timespec_ns ts + 1000000 * minms \<le> timespec_ns (timespec_add_ms rnd ts minms maxms) \<and>
    timespec_ns (timespec_add_ms rnd ts minms maxms) \<le> timespec_ns ts + 1000000 * maxms \<and>
    0 \<le> tv_nsec (timespec_add_ms rnd ts minms maxms) \<and>
    tv_nsec (timespec_add_ms rnd ts minms maxms) < 1000000000"
proof -
  define ms where "ms = minms + ((maxms - minms) * rnd) sdiv RAND_MAX"
  have ms: "minms \<le> ms" "ms \<le> maxms"
    using random_share [of "maxms - minms" rnd] assms by (simp_all add: ms_def)
  then have nn: "0 \<le> ms" using assms(1) by simp
  have d: "ms sdiv 1000 = ms div 1000" "ms smod 1000 = ms mod 1000"
    using nn by (auto simp: signed_divide_int_def signed_modulo_int_def sgn_if minus_div_mult_eq_mod)
  define q r where "q = ms div 1000" and "r = ms mod 1000"
  have sq: "ms sdiv 1000 = q" "ms smod 1000 = r" by (simp_all add: d q_def r_def)
  have r: "0 \<le> r" "r < 1000" and "ms = 1000 * q + r" by (simp_all add: q_def r_def)
  with ms have "minms \<le> 1000 * q + r" "1000 * q + r \<le> maxms" by simp_all
  with r assms(5,6) show ?thesis
    by (auto simp: timespec_add_ms_def timespec_ns_def Let_def ms_def [symmetric] sq)
qed

text \<open>
  Whatever \<^verbatim>\<open>random()\<close> returns, a timer is set between \<open>minms\<close> and \<open>maxms\<close>
  milliseconds ahead, and the time stays normalised.
\<close>

theorem timespec_add_ms_bounds:
  assumes "0 \<le> minms" "minms \<le> maxms" "0 \<le> rnd" "rnd \<le> RAND_MAX"
    and "0 \<le> tv_nsec ts" "tv_nsec ts < 1000000000"
  shows "timespec_ns ts + 1000000 * minms \<le> timespec_ns (timespec_add_ms rnd ts minms maxms) \<and>
    timespec_ns (timespec_add_ms rnd ts minms maxms) \<le> timespec_ns ts + 1000000 * maxms \<and>
    0 \<le> tv_nsec (timespec_add_ms rnd ts minms maxms) \<and>
    tv_nsec (timespec_add_ms rnd ts minms maxms) < 1000000000"
  using assms by (rule timespec_add_ms_range)

theorem timespec_add_ms_bounds_witness:
  "timespec_ns \<lparr>tv_sec = 5, tv_nsec = 999000000\<rparr> + 1000000 * 900 \<le>
     timespec_ns (timespec_add_ms 1000 \<lparr>tv_sec = 5, tv_nsec = 999000000\<rparr> 900 1100)"
  using timespec_add_ms_bounds [of 900 1100 1000 "\<lparr>tv_sec = 5, tv_nsec = 999000000\<rparr>"]
  by (simp add: RAND_MAX_def)

end
