(* ===== verification/Lsa.thy ===== *)
theory Lsa
  imports Util
begin

text \<open>
  \<^verbatim>\<open>src/lsa.h\<close>, \<^verbatim>\<open>src/lsa_type.h\<close> and \<^verbatim>\<open>src/lsa.c\<close>: link state advertisements.

  An attribute has a type, a signed flag, a key and data that is either bytes or another set
  of attributes; a set is an \<^verbatim>\<open>iv_avl_tree\<close> ordered by type and key.  Once an LSA is shared it
  is never modified again except for its reference count (every operation that modifies one
  aborts unless the count is 1), so an LSA is a value here: its address (\<open>lsa_ptr\<close>, the
  identity two pointers are compared by) and its contents, with the reference counts kept in a
  table of their own, \<open>refcounts\<close>, indexed by address.  \<^verbatim>\<open>malloc\<close> gives \<^verbatim>\<open>lsa_alloc\<close> the
  address; running out of memory elsewhere stops the process in the code and is not modelled.
  Sizes are \<open>nat\<close>s with the code's \<^verbatim>\<open>SIZE_MAX\<close> checks written out.
\<close>

section \<open>Data\<close>

datatype lsa_attr =
  Lsa_attr (attr_type: int) (attr_signed: bool) (attr_key: bytes) (attr_data: attr_data)
and attr_data = Attr_bytes bytes | Attr_set "lsa_attr list"

record lsa =
  lsa_ptr :: nat
  lsa_bytes :: nat
  lsa_id :: bytes
  lsa_root :: "lsa_attr list"

type_synonym refcounts = "nat \<Rightarrow> int"

definition LSA_ATTR_TYPE_ADV_PATH :: int where "LSA_ATTR_TYPE_ADV_PATH = 1"
definition LSA_ATTR_TYPE_PEER :: int where "LSA_ATTR_TYPE_PEER = 2"
definition LSA_ATTR_TYPE_NODE_NAME :: int where "LSA_ATTR_TYPE_NODE_NAME = 3"
definition LSA_ATTR_TYPE_VERSION :: int where "LSA_ATTR_TYPE_VERSION = 4"
definition LSA_ATTR_TYPE_PUBKEY :: int where "LSA_ATTR_TYPE_PUBKEY = 5"
definition LSA_ATTR_TYPE_SIGNATURE :: int where "LSA_ATTR_TYPE_SIGNATURE = 6"
definition LSA_PEER_ATTR_TYPE_METRIC :: int where "LSA_PEER_ATTR_TYPE_METRIC = 1"
definition LSA_PEER_ATTR_TYPE_PEER_FLAGS :: int where "LSA_PEER_ATTR_TYPE_PEER_FLAGS = 2"

lemmas lsa_type_defs =
  LSA_ATTR_TYPE_ADV_PATH_def LSA_ATTR_TYPE_PEER_def LSA_ATTR_TYPE_NODE_NAME_def
  LSA_ATTR_TYPE_VERSION_def LSA_ATTR_TYPE_PUBKEY_def LSA_ATTR_TYPE_SIGNATURE_def
  LSA_PEER_ATTR_TYPE_METRIC_def LSA_PEER_ATTR_TYPE_PEER_FLAGS_def

text \<open>The flags of a serialised attribute and of a peer (\<^verbatim>\<open>enum lsa_attr_flags\<close>, \<^verbatim>\<open>lsa_peer_flags\<close>).\<close>

definition LSA_ATTR_FLAG_HAS_KEY :: u64 where "LSA_ATTR_FLAG_HAS_KEY = 1"
definition LSA_ATTR_FLAG_DATA_IS_TLV :: u64 where "LSA_ATTR_FLAG_DATA_IS_TLV = 2"
definition LSA_ATTR_FLAG_SIGNED :: u64 where "LSA_ATTR_FLAG_SIGNED = 4"
definition LSA_PEER_FLAGS_CUSTOMER :: byte where "LSA_PEER_FLAGS_CUSTOMER = 1"
definition LSA_PEER_FLAGS_TRANSIT :: byte where "LSA_PEER_FLAGS_TRANSIT = 2"

definition MAX_SERIALISED_INT_LEN :: nat where "MAX_SERIALISED_INT_LEN = 10"

text \<open>
  \<^verbatim>\<open>sizeof(struct lsa_attr_set)\<close> and \<^verbatim>\<open>sizeof(struct lsa_attr)\<close> on a 64-bit target; the data of
  an attribute that is a set has the length of the former.
\<close>

definition SIZEOF_LSA_ATTR_SET :: nat where "SIZEOF_LSA_ATTR_SET = 16"
definition SIZEOF_LSA_ATTR :: nat where "SIZEOF_LSA_ATTR = 56"

fun data_is_attr_set :: "lsa_attr \<Rightarrow> bool" where
  "data_is_attr_set (Lsa_attr t s k (Attr_set as)) = True"
| "data_is_attr_set (Lsa_attr t s k (Attr_bytes d)) = False"

fun attr_datalen :: "lsa_attr \<Rightarrow> nat" where
  "attr_datalen (Lsa_attr t s k (Attr_set as)) = SIZEOF_LSA_ATTR_SET"
| "attr_datalen (Lsa_attr t s k (Attr_bytes d)) = length d"

lemma lsa_attr_induct [case_names Bytes Set]:
  assumes "\<And>t s k d. P (Lsa_attr t s k (Attr_bytes d))"
    and "\<And>t s k as. (\<And>a. a \<in> set as \<Longrightarrow> P a) \<Longrightarrow> P (Lsa_attr t s k (Attr_set as))"
  shows "P a"
proof (induction a rule: measure_induct_rule [where f = size])
  case (less a)
  obtain t s k d where a: "a = Lsa_attr t s k d" by (cases a)
  show ?case
  proof (cases d)
    case (Attr_bytes b)
    with a assms(1) show ?thesis by simp
  next
    case (Attr_set as)
    have "size x < size a" if "x \<in> set as" for x
      using that size_list_estimation' [of x as "size x" size] by (auto simp: a Attr_set)
    with less assms(2) a Attr_set show ?thesis by blast
  qed
qed

section \<open>The order of attributes\<close>

definition lsa_attr_compare_keys :: "int \<Rightarrow> bytes \<Rightarrow> int \<Rightarrow> bytes \<Rightarrow> int" where
  "lsa_attr_compare_keys atype akey btype bkey =
     (if atype < btype then -1
      else if atype > btype then 1
      else
        let len = length akey;
            len = (if len > length bkey then length bkey else len);
            ret = memcmp (take len akey) (take len bkey)
        in if ret < 0 then -1
           else if ret > 0 then 1
           else if length akey < length bkey then -1
           else if length akey > length bkey then 1
           else 0)"

definition compare_attr_keys :: "lsa_attr \<Rightarrow> lsa_attr \<Rightarrow> int" where
  "compare_attr_keys a b =
     lsa_attr_compare_keys (attr_type a) (attr_key a) (attr_type b) (attr_key b)"

lemma Nil_less_iff: "[] < (x :: bytes) \<longleftrightarrow> x \<noteq> []"
  by (cases x) simp_all

lemma memcmp_prefix_ord:
  "(if memcmp (take (min (length a) (length b)) a) (take (min (length a) (length b)) b) < 0 then -1
    else if memcmp (take (min (length a) (length b)) a) (take (min (length a) (length b)) b) > 0 then 1
    else if length a < length b then -1 else if length a > length b then 1 else 0) = ord_cmp a b"
proof (induction a b rule: memcmp.induct)
  case (1 a as b bs)
  have len: "min (length (a # as)) (length (b # bs)) = Suc (min (length as) (length bs))" by simp
  show ?case
  proof (cases "a = b")
    case True
    then show ?thesis unfolding len by (simp add: ord_cmp_Cons 1 [symmetric])
  next
    case False
    then show ?thesis unfolding len by (simp add: ord_cmp_Cons)
  qed
qed (auto simp: ord_cmp_def Nil_less_iff)

lemma lsa_attr_compare_keys_ord:
  "lsa_attr_compare_keys ta ka tb kb = ord_cmp (ta, ka) (tb, kb)"
proof -
  have "(if length ka > length kb then length kb else length ka) = min (length ka) (length kb)"
    by simp
  then show ?thesis
    unfolding lsa_attr_compare_keys_def Let_def ord_cmp_pair
    by (simp only: memcmp_prefix_ord) (auto simp: ord_cmp_def)
qed

definition attr_order_key :: "lsa_attr \<Rightarrow> int \<times> bytes" where
  "attr_order_key a = (attr_type a, attr_key a)"

lemma compare_attr_keys_ord: "compare_attr_keys a b = ord_cmp (attr_order_key a) (attr_order_key b)"
  by (simp add: compare_attr_keys_def lsa_attr_compare_keys_ord attr_order_key_def)

interpretation attrs: avl_order compare_attr_keys "\<lambda>_. True"
  by (rule avl_order_key [where f = attr_order_key]) (simp add: compare_attr_keys_ord)

section \<open>Well-formed attribute sets and their size\<close>

fun attr_ok :: "lsa_attr \<Rightarrow> bool" where
  "attr_ok (Lsa_attr t s k (Attr_bytes d)) = True"
| "attr_ok (Lsa_attr t s k (Attr_set as)) = (avl_ordered compare_attr_keys as \<and> list_all attr_ok as)"

definition attrs_ok :: "lsa_attr list \<Rightarrow> bool" where
  "attrs_ok as \<longleftrightarrow> avl_ordered compare_attr_keys as \<and> list_all attr_ok as"

text \<open>\<open>attr_size\<close> is what \<^verbatim>\<open>lsa_attr_size\<close> returns, \<open>attr_total\<close> its sum over a subtree.\<close>

fun attr_size :: "lsa_attr \<Rightarrow> nat" where
  "attr_size (Lsa_attr t s k d) =
     2 * MAX_SERIALISED_INT_LEN +
     (if k \<noteq> [] then MAX_SERIALISED_INT_LEN + length k else 0) +
     MAX_SERIALISED_INT_LEN + (case d of Attr_bytes b \<Rightarrow> length b | Attr_set as \<Rightarrow> 0)"

fun attr_total :: "lsa_attr \<Rightarrow> nat" where
  "attr_total (Lsa_attr t s k (Attr_bytes d)) = attr_size (Lsa_attr t s k (Attr_bytes d))"
| "attr_total (Lsa_attr t s k (Attr_set as)) =
     attr_size (Lsa_attr t s k (Attr_set as)) + sum_list (map attr_total as)"

definition attrs_total :: "lsa_attr list \<Rightarrow> nat" where
  "attrs_total as = sum_list (map attr_total as)"

text \<open>
  The invariant of an LSA: attribute sets ordered at every level, an id of 32 bytes, and the
  \<^verbatim>\<open>bytes\<close> field equal to the size of its contents.
\<close>

definition lsa_wf :: "lsa \<Rightarrow> bool" where
  "lsa_wf l \<longleftrightarrow> attrs_ok (lsa_root l) \<and> length (lsa_id l) = NODE_ID_LEN \<and>
     lsa_bytes l = MAX_SERIALISED_INT_LEN + NODE_ID_LEN + attrs_total (lsa_root l)"

lemma attrs_total_simps [simp]:
  "attrs_total [] = 0"
  "attrs_total (a # as) = attr_total a + attrs_total as"
  "attrs_total (as @ bs) = attrs_total as + attrs_total bs"
  by (simp_all add: attrs_total_def)

lemma attrs_ok_simps [simp]:
  "attrs_ok []"
  "attrs_ok (a # as) \<longleftrightarrow> attr_ok a \<and> attrs_ok as \<and> (\<forall>b \<in> set as. compare_attr_keys a b < 0)"
  by (auto simp: attrs_ok_def)

lemma attr_total_Set: "attr_total (Lsa_attr t s k (Attr_set as)) =
    attr_size (Lsa_attr t s k (Attr_set as)) + attrs_total as"
  by (simp add: attrs_total_def)

lemma attr_ok_Set: "attr_ok (Lsa_attr t s k (Attr_set as)) = attrs_ok as"
  by (simp add: attrs_ok_def)

declare attr_total.simps(2) [simp del] attr_ok.simps(2) [simp del]
declare attr_total_Set [simp] attr_ok_Set [simp]

section \<open>Operations\<close>

definition round_up :: "nat \<Rightarrow> nat" where
  "round_up n = (n + 7) mod 2 ^ 64 div 8 * 8"

definition lsa_attr_size :: "lsa_attr \<Rightarrow> nat outcome" where
  "lsa_attr_size a =
     (let size = 2 * MAX_SERIALISED_INT_LEN
      in obind (if attr_key a \<noteq> [] then
                  (let size = size + MAX_SERIALISED_INT_LEN
                   in if length (attr_key a) > SIZE_MAX - size then Inl Abort
                      else Inr (size + length (attr_key a)))
                else Inr size)
           (\<lambda>size. if MAX_SERIALISED_INT_LEN > SIZE_MAX - size then Inl Abort
             else let size = size + MAX_SERIALISED_INT_LEN
                  in if \<not> data_is_attr_set a then
                       (if attr_datalen a > SIZE_MAX - size then Inl Abort
                        else Inr (size + attr_datalen a))
                     else Inr size))"

definition attr_alloc :: "nat \<Rightarrow> nat \<Rightarrow> unit outcome" where
  "attr_alloc keylen datalen =
     (let size = SIZEOF_LSA_ATTR
      in if round_up keylen > SIZE_MAX - size then Inl Abort
         else let size = size + round_up keylen
              in if datalen > SIZE_MAX - size then Inl Abort else Inr ())"

definition lsa_alloc :: "nat option \<Rightarrow> refcounts \<Rightarrow> bytes \<Rightarrow> refcounts \<times> lsa option" where
  "lsa_alloc malloc rc nid =
     (case malloc of
        None \<Rightarrow> (rc, None)
      | Some p \<Rightarrow>
          (rc(p := 1),
           Some \<lparr>lsa_ptr = p, lsa_bytes = MAX_SERIALISED_INT_LEN + NODE_ID_LEN,
                 lsa_id = take NODE_ID_LEN nid, lsa_root = []\<rparr>))"

definition lsa_get :: "refcounts \<Rightarrow> lsa option \<Rightarrow> refcounts" where
  "lsa_get rc lo = (case lo of None \<Rightarrow> rc | Some l \<Rightarrow> rc(lsa_ptr l := rc (lsa_ptr l) + 1))"

text \<open>
  \<^verbatim>\<open>attr_tree_free\<close> is given the root of a tree.  It is called with the root of every nested
  set, also when that set is empty and its root null: the first thing it does is to read the
  node.  The model visits the nodes of a tree in their order; the result does not depend on it.
\<close>

fun attr_tree_free :: "nat \<Rightarrow> lsa_attr list \<Rightarrow> nat outcome"
and attr_node_free :: "nat \<Rightarrow> lsa_attr \<Rightarrow> nat outcome"
and attr_nodes_free :: "nat \<Rightarrow> lsa_attr list \<Rightarrow> nat outcome" where
  "attr_tree_free bytes [] = Inl Null_deref"
| "attr_tree_free bytes (a # as) =
     obind (attr_node_free bytes a) (\<lambda>bytes. attr_nodes_free bytes as)"
| "attr_node_free bytes (Lsa_attr t s k (Attr_bytes d)) =
     obind (lsa_attr_size (Lsa_attr t s k (Attr_bytes d))) (\<lambda>sz. Inr (bytes - sz))"
| "attr_node_free bytes (Lsa_attr t s k (Attr_set as)) =
     obind (lsa_attr_size (Lsa_attr t s k (Attr_set as))) (\<lambda>sz. attr_tree_free (bytes - sz) as)"
| "attr_nodes_free bytes [] = Inr bytes"
| "attr_nodes_free bytes (a # as) =
     obind (attr_node_free bytes a) (\<lambda>bytes. attr_nodes_free bytes as)"

definition lsa_put :: "refcounts \<Rightarrow> lsa option \<Rightarrow> refcounts outcome" where
  "lsa_put rc lo =
     (case lo of
        None \<Rightarrow> Inr rc
      | Some l \<Rightarrow>
          let rc = rc(lsa_ptr l := rc (lsa_ptr l) - 1)
          in if rc (lsa_ptr l) = 0 \<and> lsa_root l \<noteq> []
             then obind (attr_tree_free (lsa_bytes l) (lsa_root l)) (\<lambda>_. Inr rc)
             else Inr rc)"


subsection \<open>Finding and adding attributes\<close>

text \<open>
  A search key longer than 65536 bytes finds nothing (the code would put it on the stack).
  \<open>rc\<close> is \<^verbatim>\<open>lsa->refcount\<close> and \<open>bytes\<close> is \<^verbatim>\<open>lsa->bytes\<close>; \<open>aset\<close> is the attribute set
  written to, which is the root of the LSA or a set nested in it.
\<close>

definition lsa_attr_set_find_attr :: "lsa_attr list \<Rightarrow> int \<Rightarrow> bytes \<Rightarrow> lsa_attr option" where
  "lsa_attr_set_find_attr aset type key =
     (if length key > 65536 then None
      else avl_find (\<lambda>attr. lsa_attr_compare_keys type key (attr_type attr) (attr_key attr)) aset)"

definition lsa_find_attr :: "lsa \<Rightarrow> int \<Rightarrow> bytes \<Rightarrow> lsa_attr option" where
  "lsa_find_attr l type key = lsa_attr_set_find_attr (lsa_root l) type key"

definition lsa_attr_set_add_attr ::
  "int \<Rightarrow> nat \<Rightarrow> lsa_attr list \<Rightarrow> int \<Rightarrow> bool \<Rightarrow> bytes \<Rightarrow> bytes \<Rightarrow> (int \<times> nat \<times> lsa_attr list) outcome" where
  "lsa_attr_set_add_attr rc bytes aset type sign key data =
     (if rc \<noteq> 1 then Inl Abort
      else if lsa_attr_set_find_attr aset type key \<noteq> None then Inl Abort
      else obind (attr_alloc (length key) (length data)) (\<lambda>_.
        let attr = Lsa_attr type sign key (Attr_bytes data)
        in case avl_insert compare_attr_keys attr aset of
             None \<Rightarrow> Inr (-1, bytes, aset)
           | Some aset \<Rightarrow> obind (lsa_attr_size attr) (\<lambda>sz. Inr (0, bytes + sz, aset))))"

text \<open>The first component tells whether the code returns the pointer to the (empty) child set.\<close>

definition lsa_attr_set_add_attr_set ::
  "int \<Rightarrow> nat \<Rightarrow> lsa_attr list \<Rightarrow> int \<Rightarrow> bool \<Rightarrow> bytes \<Rightarrow> (bool \<times> nat \<times> lsa_attr list) outcome" where
  "lsa_attr_set_add_attr_set rc bytes aset type sign key =
     (if rc \<noteq> 1 then Inl Abort
      else if lsa_attr_set_find_attr aset type key \<noteq> None then Inl Abort
      else obind (attr_alloc (length key) SIZEOF_LSA_ATTR_SET) (\<lambda>_.
        let attr = Lsa_attr type sign key (Attr_set [])
        in case avl_insert compare_attr_keys attr aset of
             None \<Rightarrow> Inr (False, bytes, aset)
           | Some aset \<Rightarrow> obind (lsa_attr_size attr) (\<lambda>sz. Inr (True, bytes + sz, aset))))"

text \<open>What the caller writes through the pointer to the child set lands in that attribute.\<close>

fun set_child :: "int \<Rightarrow> bytes \<Rightarrow> lsa_attr list \<Rightarrow> lsa_attr list \<Rightarrow> lsa_attr list" where
  "set_child type key child [] = []"
| "set_child type key child (a # as) =
     (if attr_type a = type \<and> attr_key a = key
      then Lsa_attr type (attr_signed a) key (Attr_set child) # as
      else a # set_child type key child as)"

definition lsa_add_attr ::
  "refcounts \<Rightarrow> lsa \<Rightarrow> int \<Rightarrow> bool \<Rightarrow> bytes \<Rightarrow> bytes \<Rightarrow> (int \<times> lsa) outcome" where
  "lsa_add_attr rc l type sign key data =
     (if rc (lsa_ptr l) \<noteq> 1 then Inl Abort
      else obind (lsa_attr_set_add_attr (rc (lsa_ptr l)) (lsa_bytes l) (lsa_root l) type sign key data)
        (\<lambda>(ret, bytes, root). Inr (ret, l\<lparr>lsa_bytes := bytes, lsa_root := root\<rparr>)))"

definition lsa_add_attr_set ::
  "refcounts \<Rightarrow> lsa \<Rightarrow> int \<Rightarrow> bool \<Rightarrow> bytes \<Rightarrow> (bool \<times> lsa) outcome" where
  "lsa_add_attr_set rc l type sign key =
     (if rc (lsa_ptr l) \<noteq> 1 then Inl Abort
      else obind (lsa_attr_set_add_attr_set (rc (lsa_ptr l)) (lsa_bytes l) (lsa_root l) type sign key)
        (\<lambda>(ret, bytes, root). Inr (ret, l\<lparr>lsa_bytes := bytes, lsa_root := root\<rparr>)))"

subsection \<open>Copying\<close>

text \<open>
  \<open>lsa_attr_clone\<close> is the loop body.  If no child set was made, the recursive call is given a
  null pointer, which it only dereferences when there is something to copy.
\<close>

fun lsa_attr_set_clone ::
  "int \<Rightarrow> nat \<times> lsa_attr list \<Rightarrow> lsa_attr list \<Rightarrow> (nat \<times> lsa_attr list) outcome"
and lsa_attr_clone ::
  "int \<Rightarrow> nat \<times> lsa_attr list \<Rightarrow> lsa_attr \<Rightarrow> (nat \<times> lsa_attr list) outcome" where
  "lsa_attr_set_clone rc dst [] = Inr dst"
| "lsa_attr_set_clone rc dst (a # as) =
     obind (lsa_attr_clone rc dst a) (\<lambda>dst. lsa_attr_set_clone rc dst as)"
| "lsa_attr_clone rc (bytes, dst) (Lsa_attr t s k (Attr_bytes d)) =
     obind (lsa_attr_set_add_attr rc bytes dst t s k d) (\<lambda>(_, bytes, dst). Inr (bytes, dst))"
| "lsa_attr_clone rc (bytes, dst) (Lsa_attr t s k (Attr_set as)) =
     obind (lsa_attr_set_add_attr_set rc bytes dst t s k) (\<lambda>(child, bytes, dst).
       if child then
         obind (lsa_attr_set_clone rc (bytes, []) as) (\<lambda>(bytes, d).
           Inr (bytes, set_child t k d dst))
       else if as = [] then Inr (bytes, dst) else Inl Null_deref)"

definition lsa_clone :: "nat option \<Rightarrow> refcounts \<Rightarrow> lsa \<Rightarrow> (refcounts \<times> lsa option) outcome" where
  "lsa_clone malloc rc l =
     (case lsa_alloc malloc rc (lsa_id l) of
        (rc, None) \<Rightarrow> Inr (rc, None)
      | (rc, Some newlsa) \<Rightarrow>
          obind (lsa_attr_set_clone (rc (lsa_ptr newlsa)) (lsa_bytes newlsa, lsa_root newlsa) (lsa_root l))
            (\<lambda>(bytes, root). Inr (rc, Some (newlsa\<lparr>lsa_bytes := bytes, lsa_root := root\<rparr>))))"

subsection \<open>Deleting attributes\<close>

definition lsa_del_attr :: "refcounts \<Rightarrow> lsa \<Rightarrow> lsa_attr \<Rightarrow> lsa outcome" where
  "lsa_del_attr rc l attr =
     (if rc (lsa_ptr l) \<noteq> 1 then Inl Abort
      else obind (lsa_attr_size attr) (\<lambda>sz.
        let l = l\<lparr>lsa_bytes := lsa_bytes l - sz,
                  lsa_root := avl_delete compare_attr_keys attr (lsa_root l)\<rparr>
        in case attr_data attr of
             Attr_bytes d \<Rightarrow> Inr l
           | Attr_set as \<Rightarrow>
               if as \<noteq> [] then obind (attr_tree_free (lsa_bytes l) as) (\<lambda>b. Inr (l\<lparr>lsa_bytes := b\<rparr>))
               else Inr l))"

definition lsa_del_attr_bykey :: "refcounts \<Rightarrow> lsa \<Rightarrow> int \<Rightarrow> bytes \<Rightarrow> lsa outcome" where
  "lsa_del_attr_bykey rc l type key =
     (if rc (lsa_ptr l) \<noteq> 1 then Inl Abort
      else case lsa_find_attr l type key of
             None \<Rightarrow> Inl Abort
           | Some attr \<Rightarrow> lsa_del_attr rc l attr)"

section \<open>Sizes that fit\<close>

text \<open>No object of the process is as large as half of the address space.\<close>

lemma attr_size_le_total: "attr_size a \<le> attr_total a"
  by (cases a rule: attr_total.cases) simp_all

lemma attr_total_member: "a \<in> set as \<Longrightarrow> attr_total a \<le> attrs_total as"
  by (induction as) auto

lemma lsa_attr_size_eq:
  "attr_size a < 2 ^ 63 \<Longrightarrow> lsa_attr_size a = Inr (attr_size a)"
  by (cases a rule: attr_total.cases)
    (auto simp: lsa_attr_size_def Let_def MAX_SERIALISED_INT_LEN_def split: if_splits)

lemma attr_alloc_eq:
  assumes "keylen + datalen < 2 ^ 63"
  shows "attr_alloc keylen datalen = Inr ()"
proof -
  have "keylen + 7 < 2 ^ 64" using assms by simp
  then have "round_up keylen = (keylen + 7) div 8 * 8" by (simp add: round_up_def)
  also have "\<dots> \<le> keylen + 7" by (rule div_times_less_eq_dividend)
  finally show ?thesis using assms by (simp add: attr_alloc_def SIZEOF_LSA_ATTR_def Let_def)
qed


section \<open>Finding, adding and deleting\<close>

lemma compare_key_attr:
  "lsa_attr_compare_keys t k (attr_type a) (attr_key a) = compare_attr_keys (Lsa_attr t s k d) a"
  by (simp add: compare_attr_keys_def)

lemma compare_attr_keys_eq_0:
  "compare_attr_keys a b = 0 \<longleftrightarrow> attr_type a = attr_type b \<and> attr_key a = attr_key b"
  by (simp add: compare_attr_keys_ord attr_order_key_def)

lemma compare_attr_keys_gt: "0 < compare_attr_keys a b \<longleftrightarrow> compare_attr_keys b a < 0"
  by (simp add: compare_attr_keys_ord)

lemma compare_attr_keys_cong:
  "attr_type a = attr_type a' \<Longrightarrow> attr_key a = attr_key a' \<Longrightarrow> compare_attr_keys a = compare_attr_keys a'"
  "attr_type a = attr_type a' \<Longrightarrow> attr_key a = attr_key a' \<Longrightarrow> compare_attr_keys b a = compare_attr_keys b a'"
  by (auto simp: compare_attr_keys_def)

lemma find_attr_eq:
  "length k \<le> 65536 \<Longrightarrow>
   lsa_attr_set_find_attr as t k = avl_find (compare_attr_keys (Lsa_attr t s k d)) as"
  by (simp add: lsa_attr_set_find_attr_def compare_key_attr [of t k _ s d])

lemma find_attr_SomeD:
  "lsa_attr_set_find_attr as t k = Some a \<Longrightarrow> a \<in> set as \<and> attr_type a = t \<and> attr_key a = k"
  by (auto simp: lsa_attr_set_find_attr_def compare_key_attr [of t k _ True "Attr_bytes []"]
      compare_attr_keys_eq_0 dest!: avl_find_SomeD split: if_splits)

lemma find_attr_None:
  "(\<forall>a \<in> set as. attr_type a \<noteq> t \<or> attr_key a \<noteq> k) \<Longrightarrow> lsa_attr_set_find_attr as t k = None"
  by (auto simp: lsa_attr_set_find_attr_def avl_find_None_iff
      compare_key_attr [of t k _ True "Attr_bytes []"] compare_attr_keys_eq_0)

lemma find_attr_member:
  "avl_ordered compare_attr_keys as \<Longrightarrow> a \<in> set as \<Longrightarrow> length (attr_key a) \<le> 65536 \<Longrightarrow>
   lsa_attr_set_find_attr as (attr_type a) (attr_key a) = Some a"
  using attrs.find_self [of as a] find_attr_eq [of "attr_key a" as "attr_type a" "attr_signed a" "attr_data a"]
  by (simp add: list_all_iff)

lemma attrs_insert_Some:
  assumes "avl_ordered compare_attr_keys as"
    and "avl_find (compare_attr_keys a) as = None"
  obtains bs where "avl_insert compare_attr_keys a as = Some bs"
    and "avl_ordered compare_attr_keys bs" and "set bs = insert a (set as)"
    and "attrs_total bs = attr_total a + attrs_total as"
    and "avl_delete compare_attr_keys a bs = as"
proof -
  from attrs.insert_Some_find_None [of as a] assms
  obtain bs where bs: "avl_insert compare_attr_keys a as = Some bs" by (auto simp: list_all_iff)
  have ord: "avl_ordered compare_attr_keys bs"
    using attrs.insert_ordered [OF assms(1) _ bs] by (auto simp: list_all_iff)
  have "avl_delete compare_attr_keys a bs = as"
    using bs assms(2) compare_attr_keys_eq_0 [of a a]
    by (induction as arbitrary: bs) (auto split: if_splits)
  then show ?thesis
    using that [OF bs ord avl_insert_set [OF bs]] avl_insert_sum [OF bs, of attr_total]
    by (simp add: attrs_total_def)
qed

lemma add_attr_returns:
  assumes "avl_ordered compare_attr_keys as" "length k \<le> 65536 \<or> (\<forall>a \<in> set as. attr_type a \<noteq> t \<or> attr_key a \<noteq> k)"
    and "lsa_attr_set_find_attr as t k = None" "attr_total (Lsa_attr t s k (Attr_bytes d)) < 2 ^ 63"
  obtains bs where
    "lsa_attr_set_add_attr 1 b as t s k d = Inr (0, b + attr_total (Lsa_attr t s k (Attr_bytes d)), bs)"
    and "avl_insert compare_attr_keys (Lsa_attr t s k (Attr_bytes d)) as = Some bs"
    and "avl_ordered compare_attr_keys bs" and "set bs = insert (Lsa_attr t s k (Attr_bytes d)) (set as)"
    and "attrs_total bs = attr_total (Lsa_attr t s k (Attr_bytes d)) + attrs_total as"
    and "avl_delete compare_attr_keys (Lsa_attr t s k (Attr_bytes d)) bs = as"
proof -
  let ?a = "Lsa_attr t s k (Attr_bytes d)"
  have "avl_find (compare_attr_keys ?a) as = None"
    using assms(2,3) by (auto simp: find_attr_eq [where s = s and d = "Attr_bytes d"]
        avl_find_None_iff compare_attr_keys_eq_0)
  from attrs_insert_Some [OF assms(1) this]
  obtain bs where bs: "avl_insert compare_attr_keys ?a as = Some bs"
    "avl_ordered compare_attr_keys bs" "set bs = insert ?a (set as)"
    "attrs_total bs = attr_total ?a + attrs_total as" "avl_delete compare_attr_keys ?a bs = as" .
  moreover have "attr_alloc (length k) (length d) = Inr ()"
    by (rule attr_alloc_eq) (use assms(4) in \<open>auto split: if_splits\<close>)
  moreover have "lsa_attr_size ?a = Inr (attr_size ?a)"
    by (rule lsa_attr_size_eq) (use assms(4) in simp)
  ultimately show ?thesis
    using that [OF _ bs] assms(3) by (simp add: lsa_attr_set_add_attr_def)
qed

text \<open>
  C24: adding an attribute to an LSA that nobody else holds: it fails (by aborting) exactly when
  the key is there already; otherwise the LSA stays well-formed and its \<^verbatim>\<open>bytes\<close> grow by the
  size of the attribute, the attribute is found, and deleting it by its key restores the LSA.
\<close>

theorem lsa_add_attr_correct:
  assumes "lsa_wf l" "rc (lsa_ptr l) = 1" "length k \<le> 65536"
    and "attr_size (Lsa_attr t s k (Attr_bytes d)) < 2 ^ 63"
  shows "(if lsa_find_attr l t k \<noteq> None then lsa_add_attr rc l t s k d = Inl Abort
    else \<exists>l'. lsa_add_attr rc l t s k d = Inr (0, l') \<and> lsa_wf l' \<and> lsa_id l' = lsa_id l \<and>
      lsa_bytes l' = lsa_bytes l + attr_size (Lsa_attr t s k (Attr_bytes d)) \<and>
      lsa_find_attr l' t k = Some (Lsa_attr t s k (Attr_bytes d)) \<and>
      lsa_del_attr_bykey rc l' t k = Inr l)"
proof (cases "lsa_find_attr l t k")
  case (Some a)
  then show ?thesis
    using assms by (simp add: lsa_add_attr_def lsa_attr_set_add_attr_def lsa_find_attr_def)
next
  case None
  let ?a = "Lsa_attr t s k (Attr_bytes d)"
  have wf: "attrs_ok (lsa_root l)" "length (lsa_id l) = NODE_ID_LEN"
    "lsa_bytes l = MAX_SERIALISED_INT_LEN + NODE_ID_LEN + attrs_total (lsa_root l)"
    using assms(1) by (auto simp: lsa_wf_def)
  from wf(1) have ord: "avl_ordered compare_attr_keys (lsa_root l)" by (simp add: attrs_ok_def)
  have none: "lsa_attr_set_find_attr (lsa_root l) t k = None" using None by (simp add: lsa_find_attr_def)
  obtain bs where bs: "lsa_attr_set_add_attr 1 (lsa_bytes l) (lsa_root l) t s k d =
        Inr (0, lsa_bytes l + attr_total ?a, bs)"
    "avl_ordered compare_attr_keys bs" "set bs = insert ?a (set (lsa_root l))"
    "attrs_total bs = attr_total ?a + attrs_total (lsa_root l)"
    "avl_delete compare_attr_keys ?a bs = lsa_root l"
    by (rule add_attr_returns [OF ord _ none, of s d]) (use assms(3,4) in auto)
  define l' where "l' = l\<lparr>lsa_bytes := lsa_bytes l + attr_size ?a, lsa_root := bs\<rparr>"
  have l': "lsa_ptr l' = lsa_ptr l" "lsa_root l' = bs" by (simp_all add: l'_def)
  have add: "lsa_add_attr rc l t s k d = Inr (0, l')"
    using bs(1) assms(2) by (simp add: lsa_add_attr_def l'_def)
  have wf': "lsa_wf l'"
    using wf bs(2,3,4) by (auto simp: lsa_wf_def l'_def attrs_ok_def list_all_iff)
  have find: "lsa_find_attr l' t k = Some ?a"
    using find_attr_member [OF bs(2), of ?a] bs(3) assms(3) by (simp add: lsa_find_attr_def l'_def)
  have "lsa_del_attr_bykey rc l' t k = Inr l"
    using find bs(5) assms(2,4) lsa_attr_size_eq [of ?a]
    by (simp add: lsa_del_attr_bykey_def lsa_del_attr_def l' Let_def del: attr_size.simps)
      (simp add: l'_def)
  with add wf' find None show ?thesis by (simp add: l'_def)
qed


theorem lsa_add_attr_correct_witness:
  "lsa_add_attr (\<lambda>_. 1) \<lparr>lsa_ptr = 1, lsa_bytes = 42, lsa_id = replicate 32 7, lsa_root = []\<rparr>
      LSA_ATTR_TYPE_NODE_NAME True [] [65, 66] =
    Inr (0, \<lparr>lsa_ptr = 1, lsa_bytes = 74, lsa_id = replicate 32 7,
             lsa_root = [Lsa_attr LSA_ATTR_TYPE_NODE_NAME True [] (Attr_bytes [65, 66])]\<rparr>) \<and>
   (\<exists>l'. lsa_add_attr (\<lambda>_. 1) \<lparr>lsa_ptr = 1, lsa_bytes = 42, lsa_id = replicate 32 7, lsa_root = []\<rparr>
      LSA_ATTR_TYPE_NODE_NAME True [] [65, 66] = Inr (0, l') \<and> lsa_wf l')"
proof
  let ?l = "\<lparr>lsa_ptr = 1, lsa_bytes = 42, lsa_id = replicate 32 7, lsa_root = []\<rparr> :: lsa"
  show "lsa_add_attr (\<lambda>_. 1) ?l LSA_ATTR_TYPE_NODE_NAME True [] [65, 66] =
    Inr (0, \<lparr>lsa_ptr = 1, lsa_bytes = 74, lsa_id = replicate 32 7,
             lsa_root = [Lsa_attr LSA_ATTR_TYPE_NODE_NAME True [] (Attr_bytes [65, 66])]\<rparr>)"
    by (simp add: lsa_add_attr_def lsa_attr_set_add_attr_def lsa_attr_set_find_attr_def attr_alloc_def
        round_up_def lsa_attr_size_def SIZEOF_LSA_ATTR_def MAX_SERIALISED_INT_LEN_def Let_def)
  show "\<exists>l'. lsa_add_attr (\<lambda>_. 1) ?l LSA_ATTR_TYPE_NODE_NAME True [] [65, 66] = Inr (0, l') \<and> lsa_wf l'"
    using lsa_add_attr_correct [of ?l "\<lambda>_. 1" "[]" LSA_ATTR_TYPE_NODE_NAME True "[65, 66]"]
    by (auto simp: lsa_wf_def lsa_find_attr_def lsa_attr_set_find_attr_def MAX_SERIALISED_INT_LEN_def
        NODE_ID_LEN_def)
qed

section \<open>Copies\<close>

lemma set_child_last:
  "(\<forall>a \<in> set as. attr_type a \<noteq> t \<or> attr_key a \<noteq> k) \<Longrightarrow>
   set_child t k d (as @ [Lsa_attr t s k x]) = as @ [Lsa_attr t s k (Attr_set d)]"
  by (induction as) auto

lemma add_attr_set_returns:
  assumes "avl_find (compare_attr_keys (Lsa_attr t s k (Attr_set []))) as = None"
    and "avl_insert compare_attr_keys (Lsa_attr t s k (Attr_set [])) as = Some bs"
    and "attr_size (Lsa_attr t s k (Attr_set [])) < 2 ^ 63 - 16"
  shows "lsa_attr_set_add_attr_set 1 b as t s k =
    Inr (True, b + attr_size (Lsa_attr t s k (Attr_set [])), bs)"
proof -
  have "attr_alloc (length k) SIZEOF_LSA_ATTR_SET = Inr ()"
    by (rule attr_alloc_eq) (use assms(3) in \<open>auto simp: SIZEOF_LSA_ATTR_SET_def split: if_splits\<close>)
  moreover have "lsa_attr_set_find_attr as t k = None"
    using assms(1) by (simp add: lsa_attr_set_find_attr_def compare_key_attr [of t k _ s "Attr_set []"])
  moreover have "lsa_attr_size (Lsa_attr t s k (Attr_set [])) = Inr (attr_size (Lsa_attr t s k (Attr_set [])))"
    by (rule lsa_attr_size_eq) (use assms(3) in simp)
  ultimately show ?thesis
    using assms(2) by (simp add: lsa_attr_set_add_attr_set_def)
qed

lemma last_insert:
  "\<forall>x \<in> set dst. compare_attr_keys x a < 0 \<Longrightarrow> avl_insert compare_attr_keys a dst = Some (dst @ [a])"
  by (rule avl_insert_last) (simp add: compare_attr_keys_gt)

lemma last_find:
  "\<forall>x \<in> set dst. compare_attr_keys x a < 0 \<Longrightarrow> avl_find (compare_attr_keys a) dst = None"
  by (auto simp: avl_find_None_iff) (metis attrs.cmp_zero_iff order_less_irrefl)

lemma last_distinct:
  "\<forall>x \<in> set dst. compare_attr_keys x a < 0 \<Longrightarrow>
   \<forall>x \<in> set dst. attr_type x \<noteq> attr_type a \<or> attr_key x \<noteq> attr_key a"
  by (metis compare_attr_keys_eq_0 order_less_irrefl)

lemma clone_attrs_from:
  assumes "\<And>a b dst. a \<in> set as \<Longrightarrow> attr_ok a \<Longrightarrow> attr_total a < 2 ^ 63 - 16 \<Longrightarrow>
      \<forall>x \<in> set dst. compare_attr_keys x a < 0 \<Longrightarrow>
      lsa_attr_clone 1 (b, dst) a = Inr (b + attr_total a, dst @ [a])"
    and "avl_ordered compare_attr_keys (dst @ as)" "list_all attr_ok as" "attrs_total as < 2 ^ 63 - 16"
  shows "lsa_attr_set_clone 1 (b, dst) as = Inr (b + attrs_total as, dst @ as)"
  using assms
proof (induction as arbitrary: b dst)
  case (Cons a as)
  have "lsa_attr_clone 1 (b, dst) a = Inr (b + attr_total a, dst @ [a])"
    by (rule Cons.prems(1)) (use Cons.prems in \<open>auto simp: avl_ordered_append\<close>)
  moreover have "lsa_attr_set_clone 1 (b + attr_total a, dst @ [a]) as =
      Inr (b + attr_total a + attrs_total as, (dst @ [a]) @ as)"
    by (rule Cons.IH) (use Cons.prems in auto)
  ultimately show ?case by simp
qed simp

lemma add_attr_last:
  assumes "attr_total (Lsa_attr t s k (Attr_bytes d)) < 2 ^ 63"
    and "\<forall>x \<in> set dst. compare_attr_keys x (Lsa_attr t s k (Attr_bytes d)) < 0"
  shows "lsa_attr_set_add_attr 1 b dst t s k d =
    Inr (0, b + attr_total (Lsa_attr t s k (Attr_bytes d)), dst @ [Lsa_attr t s k (Attr_bytes d)])"
proof -
  let ?a = "Lsa_attr t s k (Attr_bytes d)"
  have "attr_alloc (length k) (length d) = Inr ()"
    by (rule attr_alloc_eq) (use assms(1) in \<open>auto split: if_splits\<close>)
  moreover have "lsa_attr_set_find_attr dst t k = None"
    using find_attr_None [of dst t k] last_distinct [OF assms(2)] by simp
  moreover have "lsa_attr_size ?a = Inr (attr_size ?a)"
    by (rule lsa_attr_size_eq) (use assms(1) in simp)
  ultimately show ?thesis
    using last_insert [OF assms(2)] by (simp add: lsa_attr_set_add_attr_def)
qed

lemma add_attr_set_last:
  assumes "attr_size (Lsa_attr t s k (Attr_set as)) < 2 ^ 63 - 16"
    and "\<forall>x \<in> set dst. compare_attr_keys x (Lsa_attr t s k (Attr_set as)) < 0"
  shows "lsa_attr_set_add_attr_set 1 b dst t s k =
      Inr (True, b + attr_size (Lsa_attr t s k (Attr_set as)), dst @ [Lsa_attr t s k (Attr_set [])])"
    and "set_child t k as (dst @ [Lsa_attr t s k (Attr_set [])]) = dst @ [Lsa_attr t s k (Attr_set as)]"
proof -
  let ?e = "Lsa_attr t s k (Attr_set [])"
  have less: "\<forall>x \<in> set dst. compare_attr_keys x ?e < 0"
    using assms(2) by (simp add: compare_attr_keys_def)
  have "lsa_attr_set_add_attr_set 1 b dst t s k = Inr (True, b + attr_size ?e, dst @ [?e])"
    by (rule add_attr_set_returns) (use assms(1) last_insert last_find less in auto)
  then show "lsa_attr_set_add_attr_set 1 b dst t s k =
      Inr (True, b + attr_size (Lsa_attr t s k (Attr_set as)), dst @ [?e])" by simp
  show "set_child t k as (dst @ [?e]) = dst @ [Lsa_attr t s k (Attr_set as)]"
    by (rule set_child_last) (use last_distinct [OF assms(2)] in simp)
qed

lemma clone_attr:
  "attr_ok a \<Longrightarrow> attr_total a < 2 ^ 63 - 16 \<Longrightarrow> \<forall>x \<in> set dst. compare_attr_keys x a < 0 \<Longrightarrow>
   lsa_attr_clone 1 (b, dst) a = Inr (b + attr_total a, dst @ [a])"
proof (induction a arbitrary: b dst rule: lsa_attr_induct)
  case (Bytes t s k d)
  then show ?case using add_attr_last [of t s k d dst b] by simp
next
  case (Set t s k as)
  let ?sz = "attr_size (Lsa_attr t s k (Attr_set as))"
  have "lsa_attr_set_clone 1 (b + ?sz, []) as = Inr (b + ?sz + attrs_total as, [] @ as)"
    by (rule clone_attrs_from) (use Set in \<open>auto simp: attrs_ok_def\<close>)
  with add_attr_set_last(1) [of t s k as dst b] add_attr_set_last(2) [of t s k as dst] Set.prems show ?case by (simp del: attr_size.simps)
qed

text \<open>
  \<^verbatim>\<open>lsa_clone\<close> succeeds on every well-formed LSA when \<^verbatim>\<open>malloc\<close> does, and the copy has the
  same id, contents and size, at its own address and with reference count 1; the counts of all
  other LSAs are left alone.
\<close>

theorem lsa_clone_correct:
  "lsa_wf l \<Longrightarrow> lsa_bytes l < 2 ^ 63 \<Longrightarrow>
   lsa_clone (Some p) rc l = Inr (rc(p := 1), Some (l\<lparr>lsa_ptr := p\<rparr>))"
  using clone_attrs_from [of "lsa_root l" "[]" "lsa_bytes l - attrs_total (lsa_root l)"] clone_attr
  by (simp add: lsa_clone_def lsa_alloc_def lsa_wf_def attrs_ok_def MAX_SERIALISED_INT_LEN_def
      NODE_ID_LEN_def)

theorem lsa_clone_correct_witness:
  "lsa_clone (Some 2) (\<lambda>_. 5) \<lparr>lsa_ptr = 1, lsa_bytes = 74, lsa_id = replicate 32 7,
     lsa_root = [Lsa_attr LSA_ATTR_TYPE_NODE_NAME True [] (Attr_bytes [65, 66])]\<rparr> =
   Inr ((\<lambda>_. 5)(2 := 1), Some \<lparr>lsa_ptr = 2, lsa_bytes = 74, lsa_id = replicate 32 7,
     lsa_root = [Lsa_attr LSA_ATTR_TYPE_NODE_NAME True [] (Attr_bytes [65, 66])]\<rparr>)"
  using lsa_clone_correct [of "\<lparr>lsa_ptr = 1, lsa_bytes = 74, lsa_id = replicate 32 7,
     lsa_root = [Lsa_attr LSA_ATTR_TYPE_NODE_NAME True [] (Attr_bytes [65, 66])]\<rparr>"]
  by (simp add: lsa_wf_def MAX_SERIALISED_INT_LEN_def NODE_ID_LEN_def)

section \<open>Freeing\<close>

text \<open>Whether no set nested in an attribute is empty.\<close>

fun attr_filled :: "lsa_attr \<Rightarrow> bool" where
  "attr_filled (Lsa_attr t s k (Attr_bytes d)) = True"
| "attr_filled (Lsa_attr t s k (Attr_set as)) = (as \<noteq> [] \<and> list_all attr_filled as)"

lemma attr_nodes_free_from:
  assumes "\<And>a b. a \<in> set as \<Longrightarrow> attr_total a < 2 ^ 63 \<Longrightarrow>
      attr_node_free b a = (if attr_filled a then Inr (b - attr_total a) else Inl Null_deref)"
    and "attrs_total as < 2 ^ 63"
  shows "attr_nodes_free b as =
    (if list_all attr_filled as then Inr (b - attrs_total as) else Inl Null_deref)"
  using assms by (induction as arbitrary: b) (auto simp: diff_diff_eq)

lemma attr_tree_free_nodes: "as \<noteq> [] \<Longrightarrow> attr_tree_free b as = attr_nodes_free b as"
  by (cases as) simp_all

lemma attr_node_free_eq:
  "attr_total a < 2 ^ 63 \<Longrightarrow>
   attr_node_free b a = (if attr_filled a then Inr (b - attr_total a) else Inl Null_deref)"
proof (induction a arbitrary: b rule: lsa_attr_induct)
  case (Bytes t s k d)
  then show ?case by (simp add: lsa_attr_size_eq del: attr_size.simps)
next
  case (Set t s k as)
  have sz: "lsa_attr_size (Lsa_attr t s k (Attr_set as)) = Inr (attr_size (Lsa_attr t s k (Attr_set as)))"
    by (rule lsa_attr_size_eq) (use Set.prems in simp)
  show ?case
  proof (cases "as = []")
    case False
    have "attr_nodes_free b' as =
        (if list_all attr_filled as then Inr (b' - attrs_total as) else Inl Null_deref)" for b'
      by (rule attr_nodes_free_from) (use Set in auto)
    with sz False show ?thesis by (simp add: attr_tree_free_nodes del: attr_size.simps)
  next
    case True
    with sz show ?thesis by (simp del: attr_size.simps)
  qed
qed

lemma attr_tree_free_eq:
  "as \<noteq> [] \<Longrightarrow> attrs_total as < 2 ^ 63 \<Longrightarrow>
   attr_tree_free b as = (if list_all attr_filled as then Inr (b - attrs_total as) else Inl Null_deref)"
  using attr_nodes_free_from [of as b] by (simp add: attr_tree_free_nodes attr_node_free_eq)

text \<open>
  Dropping a reference to an LSA decrements its count; the last reference frees it, and
  that reads through a null pointer exactly when some set nested in the LSA is empty (the root
  set is tested for emptiness, nested ones are not).
\<close>

theorem lsa_put_faults_iff:
  "lsa_wf l \<Longrightarrow> lsa_bytes l < 2 ^ 63 \<Longrightarrow>
   lsa_put rc (Some l) =
     (if rc (lsa_ptr l) = 1 \<and> \<not> list_all attr_filled (lsa_root l) then Inl Null_deref
      else Inr (rc(lsa_ptr l := rc (lsa_ptr l) - 1)))"
  by (cases "lsa_root l = []") (auto simp: lsa_put_def Let_def lsa_wf_def attr_tree_free_eq)

theorem lsa_put_faults_iff_witness:
  "lsa_put (\<lambda>_. 1) (Some \<lparr>lsa_ptr = 1, lsa_bytes = 104, lsa_id = replicate 32 7,
     lsa_root = [Lsa_attr LSA_ATTR_TYPE_PEER True (replicate 22 0) (Attr_set [])]\<rparr>) = Inl Null_deref"
  using lsa_put_faults_iff [of "\<lparr>lsa_ptr = 1, lsa_bytes = 104, lsa_id = replicate 32 7,
     lsa_root = [Lsa_attr LSA_ATTR_TYPE_PEER True (replicate 22 0) (Attr_set [])]\<rparr>" "\<lambda>_. 1"]
  by (simp add: lsa_wf_def MAX_SERIALISED_INT_LEN_def NODE_ID_LEN_def)

section \<open>The search loop\<close>

text \<open>
  The loop of \<^verbatim>\<open>lsa_attr_set_find_attr\<close>, on a search tree of any shape, returns what the
  model returns on the sequence of its elements.
\<close>

theorem find_attr_descends:
  "avl_ordered compare_attr_keys (inorder t) \<Longrightarrow> length key \<le> 65536 \<Longrightarrow>
   avl_descend (\<lambda>attr. lsa_attr_compare_keys type key (attr_type attr) (attr_key attr)) t =
     lsa_attr_set_find_attr (inorder t) type key"
  using attrs.descend_find [of t "Lsa_attr type True key (Attr_bytes [])"]
  by (simp add: compare_key_attr [of type key _ True "Attr_bytes []"]
      find_attr_eq [of key _ _ True "Attr_bytes []"] list_all_iff)

theorem find_attr_descends_witness:
  "avl_descend (\<lambda>attr. lsa_attr_compare_keys 2 [9] (attr_type attr) (attr_key attr))
     (Node (Node Leaf (Lsa_attr 1 True [] (Attr_bytes [])) Leaf)
       (Lsa_attr 2 True [] (Attr_bytes [])) (Node Leaf (Lsa_attr 2 True [9] (Attr_bytes [])) Leaf)) =
   lsa_attr_set_find_attr [Lsa_attr 1 True [] (Attr_bytes []), Lsa_attr 2 True [] (Attr_bytes []),
     Lsa_attr 2 True [9] (Attr_bytes [])] 2 [9]"
  using find_attr_descends [of "Node (Node Leaf (Lsa_attr 1 True [] (Attr_bytes [])) Leaf)
       (Lsa_attr 2 True [] (Attr_bytes [])) (Node Leaf (Lsa_attr 2 True [9] (Attr_bytes [])) Leaf)" "[9]" 2]
  by (simp add: compare_attr_keys_def lsa_attr_compare_keys_def Let_def)

end
