(* ===== verification/Lsa_Query.thy ===== *)
theory Lsa_Query
  imports Lsa
begin

text \<open>
  What the routing code asks of an LSA: \<^verbatim>\<open>src/lsa_path.c\<close> (does the advertisement path contain
  a node?), \<^verbatim>\<open>src/lsa_peer.c\<close> (the metric and flags advertised for a peer) and
  \<^verbatim>\<open>lsa_get_version\<close> of \<^verbatim>\<open>src/loc_rib.c\<close>.
\<close>

section \<open>The advertisement path\<close>

text \<open>
  The loop compares 32 bytes at every multiple of 32 below the length of the data; when the
  length is not a multiple of 32 the last comparison reads beyond the attribute.  An attribute that is a set has the 16 bytes of
  the set structure as its data.
\<close>

function lsa_path_scan :: "bytes \<Rightarrow> bytes \<Rightarrow> bool outcome" where
  "lsa_path_scan data nid =
     (if data = [] then Inr False
      else if length data < NODE_ID_LEN then Inl Out_of_bounds
      else if memcmp (take NODE_ID_LEN data) nid = 0 then Inr True
      else lsa_path_scan (drop NODE_ID_LEN data) nid)"
  by pat_completeness auto
termination
  by (relation "measure (\<lambda>(data, _). length data)") (auto simp: NODE_ID_LEN_def)

declare lsa_path_scan.simps [simp del]

definition lsa_path_contains :: "lsa_attr \<Rightarrow> bytes \<Rightarrow> bool outcome" where
  "lsa_path_contains attr nid =
     (if attr_type attr \<noteq> LSA_ATTR_TYPE_ADV_PATH then Inl Abort
      else case attr_data attr of
        Attr_bytes data \<Rightarrow> lsa_path_scan data nid
      | Attr_set _ \<Rightarrow> Inl Out_of_bounds)"

text \<open>The ids of a path.\<close>

function path_ids :: "bytes \<Rightarrow> bytes list" where
  "path_ids data = (if data = [] then [] else take NODE_ID_LEN data # path_ids (drop NODE_ID_LEN data))"
  by pat_completeness auto
termination by (relation "measure length") (auto simp: NODE_ID_LEN_def)

declare path_ids.simps [simp del]

lemma path_ids_Nil [simp]: "path_ids [] = []"
  by (simp add: path_ids.simps)

lemma path_ids_append: "length x = NODE_ID_LEN \<Longrightarrow> path_ids (x @ data) = x # path_ids data"
  by (subst path_ids.simps) (auto simp: NODE_ID_LEN_def)

lemma path_step:
  assumes "length data mod NODE_ID_LEN = 0" "data \<noteq> []"
  shows "\<not> length data < NODE_ID_LEN" "length (drop NODE_ID_LEN data) mod NODE_ID_LEN = 0"
proof -
  show ge: "\<not> length data < NODE_ID_LEN" using assms by (auto simp: mod_less)
  show "length (drop NODE_ID_LEN data) mod NODE_ID_LEN = 0"
    using assms(1) ge by (simp add: le_mod_geq)
qed

lemma path_ids_length: "length data mod NODE_ID_LEN = 0 \<Longrightarrow> x \<in> set (path_ids data) \<Longrightarrow> length x = NODE_ID_LEN"
proof (induction data rule: path_ids.induct)
  case (1 data)
  show ?case
  proof (cases "data = []")
    case False
    note step = path_step [OF "1.prems"(1) False]
    from "1.prems"(2) False have "x = take NODE_ID_LEN data \<or> x \<in> set (path_ids (drop NODE_ID_LEN data))"
      by (subst (asm) path_ids.simps) simp
    then show ?thesis using "1.IH" [OF False step(2)] step(1) by auto
  qed (use 1 in simp)
qed

lemma lsa_path_scan_iff:
  "length data mod NODE_ID_LEN = 0 \<Longrightarrow> length nid = NODE_ID_LEN \<Longrightarrow>
   lsa_path_scan data nid = Inr (nid \<in> set (path_ids data))"
proof (induction data nid rule: lsa_path_scan.induct)
  case (1 data nid)
  show ?case
  proof (cases "data = []")
    case False
    note step = path_step [OF "1.prems"(1) False]
    have cmp: "memcmp (take NODE_ID_LEN data) nid = 0 \<longleftrightarrow> take NODE_ID_LEN data = nid"
      using step(1) "1.prems"(2) by (intro memcmp_eq_0) auto
    show ?thesis
      using 1 False step cmp
      by (subst lsa_path_scan.simps, subst path_ids.simps) auto
  qed (simp add: lsa_path_scan.simps)
qed

text \<open>The path of an LSA, when it has one that is a list of ids.\<close>

definition path_of :: "lsa \<Rightarrow> bytes option" where
  "path_of l = (case lsa_find_attr l LSA_ATTR_TYPE_ADV_PATH [] of
     Some a \<Rightarrow> (case attr_data a of
       Attr_bytes d \<Rightarrow> if length d mod NODE_ID_LEN = 0 then Some d else None | Attr_set _ \<Rightarrow> None)
   | None \<Rightarrow> None)"

section \<open>What is advertised for a peer\<close>

record lsa_peer_info =
  lpi_metric :: int
  lpi_flags :: u32

definition attr_is_signed_bytes :: "lsa_attr option \<Rightarrow> nat \<Rightarrow> bytes option" where
  "attr_is_signed_bytes attr n =
     (case attr of
        Some (Lsa_attr t True k (Attr_bytes d)) \<Rightarrow> (if length d = n then Some d else None)
      | _ \<Rightarrow> None)"

text \<open>
  \<open>None\<close> is the return value -1.  The metric is a big-endian 16-bit number.  (A set is never 2 or 1 bytes
  long, so for the two inner attributes a set counts as missing.)
\<close>

definition lsa_get_peer_info :: "lsa \<Rightarrow> bytes \<Rightarrow> lsa_peer_info option" where
  "lsa_get_peer_info l peerid =
     (case lsa_find_attr l LSA_ATTR_TYPE_PEER peerid of
        Some (Lsa_attr t True k (Attr_set aset)) \<Rightarrow>
          Some \<lparr>lpi_metric =
                  (case attr_is_signed_bytes (lsa_attr_set_find_attr aset LSA_PEER_ATTR_TYPE_METRIC []) 2 of
                     Some d \<Rightarrow> 256 * int (unat (d ! 0)) + int (unat (d ! 1))
                   | None \<Rightarrow> 1),
                lpi_flags =
                  (case attr_is_signed_bytes (lsa_attr_set_find_attr aset LSA_PEER_ATTR_TYPE_PEER_FLAGS []) 1 of
                     Some d \<Rightarrow> ucast (d ! 0)
                   | None \<Rightarrow> 0)\<rparr>
      | _ \<Rightarrow> None)"

lemma lpi_metric_range:
  assumes "lsa_get_peer_info l peerid = Some lpi"
  shows "0 \<le> lpi_metric lpi \<and> lpi_metric lpi \<le> 65535"
proof -
  have b: "uint (x :: byte) \<le> 255" "0 \<le> uint (x :: byte)" for x
    using uint_lt2p [of x] by simp_all
  have "0 \<le> 256 * uint x + uint y \<and> 256 * uint x + uint y \<le> 65535" for x y :: byte
    using b [of x] b [of y] by linarith
  with assms show ?thesis
    by (auto simp: lsa_get_peer_info_def split: option.splits lsa_attr.splits bool.splits attr_data.splits)
qed

section \<open>The version\<close>

definition be32 :: "bytes \<Rightarrow> u64" where
  "be32 d = push_bit 24 (ucast (d ! 0)) OR push_bit 16 (ucast (d ! 1)) OR push_bit 8 (ucast (d ! 2)) OR ucast (d ! 3)"

definition lsa_get_version :: "lsa \<Rightarrow> u64" where
  "lsa_get_version l =
     (case attr_is_signed_bytes (lsa_find_attr l LSA_ATTR_TYPE_VERSION []) 8 of
        Some d \<Rightarrow> push_bit 32 (be32 (take 4 d)) OR be32 (drop 4 d)
      | None \<Rightarrow> 0)"

end
