(* ===== verification/Rib_Listener.thy ===== *)
theory Rib_Listener
  imports Lsa
begin

text \<open>
  \<^verbatim>\<open>src/rib_listener.h\<close>: the interface between the parts of the routing code.  A routing
  information base tells its listeners which LSAs they have (added, replaced, deleted), each
  with a cost.  A listener is a record of functions on the world: the reference counts of all LSAs and
  the state \<open>'w\<close> behind the listener's cookie.  The functions return or stop the process.

  The locales state the contract of a listener, seen from a base that feeds it: what the base
  must respect (an LSA is added once, only known LSAs are replaced or deleted, with the cost
  they were last announced with) and what the listener then promises (it returns, its state
  represents what it was told, and it takes and drops references in balance).  A \<open>rib_client\<close>
  can be told of several LSAs of one node, a \<open>rib_client_unique\<close> of one at a time.
\<close>

type_synonym 'w world = "refcounts \<times> 'w"

record 'w rib_listener =
  rl_lsa_add :: "lsa \<Rightarrow> u32 \<Rightarrow> 'w world \<Rightarrow> 'w world outcome"
  rl_lsa_mod :: "lsa \<Rightarrow> u32 \<Rightarrow> lsa \<Rightarrow> u32 \<Rightarrow> 'w world \<Rightarrow> 'w world outcome"
  rl_lsa_del :: "lsa \<Rightarrow> u32 \<Rightarrow> 'w world \<Rightarrow> 'w world outcome"

text \<open>The call of a listener that takes no references.\<close>

definition on_world :: "('c \<Rightarrow> 'c outcome) \<Rightarrow> 'c world \<Rightarrow> 'c world outcome" where
  "on_world f w = obind (f (snd w)) (\<lambda>c. Inr (fst w, c))"

definition RIB_COST_UNREACHABLE :: u32 where "RIB_COST_UNREACHABLE = 0xfffffffe"
definition RIB_COST_INELIGIBLE :: u32 where "RIB_COST_INELIGIBLE = 0xffffffff"

text \<open>
  The three-way choice that \<^verbatim>\<open>notify\<close> of \<^verbatim>\<open>adj_rib_in.c\<close> and \<^verbatim>\<open>recompute_rid\<close> of \<^verbatim>\<open>loc_rib.c\<close>
  both make, and their walk over the list of listeners.
\<close>

definition notify_listeners ::
  "'w rib_listener list \<Rightarrow> lsa option \<Rightarrow> u32 \<Rightarrow> lsa option \<Rightarrow> u32 \<Rightarrow> 'w world \<Rightarrow> 'w world outcome" where
  "notify_listeners rls old oldcost new newcost w =
     (case (old, new) of
        (None, Some b) \<Rightarrow> ofold (\<lambda>rl. rl_lsa_add rl b newcost) rls w
      | (Some a, Some b) \<Rightarrow> ofold (\<lambda>rl. rl_lsa_mod rl a oldcost b newcost) rls w
      | (Some a, None) \<Rightarrow> ofold (\<lambda>rl. rl_lsa_del rl a oldcost) rls w
      | (None, None) \<Rightarrow> Inr w)"

text \<open>References: \<open>held w p\<close> is how many the state \<open>w\<close> holds to the LSA at address \<open>p\<close>.\<close>

definition balanced :: "('w \<Rightarrow> nat \<Rightarrow> int) \<Rightarrow> 'w world \<Rightarrow> 'w world \<Rightarrow> bool" where
  "balanced held w w' \<longleftrightarrow> (\<forall>p. fst w' p - held (snd w') p = fst w p - held (snd w) p)"

definition lsa_filled :: "lsa \<Rightarrow> bool" where
  "lsa_filled l \<longleftrightarrow> lsa_wf l \<and> lsa_bytes l < 2 ^ 62 \<and> list_all attr_filled (lsa_root l)"

lemma lsa_put_filled:
  "lsa_filled l \<Longrightarrow> lsa_put rc (Some l) = Inr (rc(lsa_ptr l := rc (lsa_ptr l) - 1))"
  by (cases "lsa_root l = []") (auto simp: lsa_filled_def lsa_put_def Let_def lsa_wf_def attr_tree_free_eq)

lemma lsa_put_None [simp]: "lsa_put rc None = Inr rc"
  by (simp add: lsa_put_def)

text \<open>The ids are compared with \<^verbatim>\<open>memcmp\<close> everywhere.\<close>

definition id_ok :: "bytes \<Rightarrow> bool" where
  "id_ok nid \<longleftrightarrow> length nid = NODE_ID_LEN"

lemma memcmp_id: "id_ok a \<Longrightarrow> id_ok b \<Longrightarrow> memcmp a b = 0 \<longleftrightarrow> a = b"
  by (auto simp: id_ok_def memcmp_eq_0)

lemma memcmp_id_ord: "id_ok a \<Longrightarrow> id_ok b \<Longrightarrow> sgn (memcmp a b) = ord_cmp a b"
  by (simp add: id_ok_def memcmp_ord)

text \<open>
  \<open>rep w V\<close>: the state \<open>w\<close> is one of a listener that has been told of the LSAs and costs in \<open>V\<close>.
  A new LSA is at an address at which the listener knows none and to which it has no
  reference.
\<close>

definition fresh_lsa :: "('w \<Rightarrow> nat \<Rightarrow> int) \<Rightarrow> 'w \<Rightarrow> (lsa \<times> u32) set \<Rightarrow> lsa \<Rightarrow> bool" where
  "fresh_lsa held w V l \<longleftrightarrow> lsa_ptr l \<notin> lsa_ptr ` fst ` V \<and> held w (lsa_ptr l) = 0"

text \<open>LSAs that were announced with the cost \<^verbatim>\<open>RIB_COST_UNREACHABLE\<close>, as \<^verbatim>\<open>adj_rib_in\<close> does.\<close>

abbreviation unreach :: "lsa set \<Rightarrow> (lsa \<times> u32) set" where
  "unreach A \<equiv> (\<lambda>l. (l, RIB_COST_UNREACHABLE)) ` A"

locale rib_client_unique =
  fixes rl :: "'w rib_listener" and rep :: "'w \<Rightarrow> (lsa \<times> u32) set \<Rightarrow> bool"
    and held :: "'w \<Rightarrow> nat \<Rightarrow> int" and ok :: "lsa \<Rightarrow> bool" and cost_ok :: "u32 \<Rightarrow> bool"
  assumes unique_add: "rep (snd w) V \<Longrightarrow> ok l \<Longrightarrow> cost_ok c \<Longrightarrow> fresh_lsa held (snd w) V l \<Longrightarrow>
      lsa_id l \<notin> lsa_id ` fst ` V \<Longrightarrow>
      \<exists>w'. rl_lsa_add rl l c w = Inr w' \<and> rep (snd w') (insert (l, c) V) \<and> balanced held w w'"
    and unique_mod: "rep (snd w) V \<Longrightarrow> (a, c) \<in> V \<Longrightarrow> ok b \<Longrightarrow> cost_ok d \<Longrightarrow> lsa_id b = lsa_id a \<Longrightarrow>
      b = a \<or> fresh_lsa held (snd w) V b \<Longrightarrow> lsa_id a \<notin> lsa_id ` fst ` (V - {(a, c)}) \<Longrightarrow>
      \<exists>w'. rl_lsa_mod rl a c b d w = Inr w' \<and> rep (snd w') (insert (b, d) (V - {(a, c)})) \<and> balanced held w w'"
    and unique_del: "rep (snd w) V \<Longrightarrow> (a, c) \<in> V \<Longrightarrow> lsa_id a \<notin> lsa_id ` fst ` (V - {(a, c)}) \<Longrightarrow>
      \<exists>w'. rl_lsa_del rl a c w = Inr w' \<and> rep (snd w') (V - {(a, c)}) \<and> balanced held w w'"
begin

text \<open>The three calls as one: what a base tells its only listener about one node.\<close>

lemma unique_notify:
  assumes "rep (snd w) V" "\<forall>a \<in> set_option old. (a, c) \<in> V"
    and "\<forall>b \<in> set_option new. ok b \<and> cost_ok d \<and> (old = Some b \<or> fresh_lsa held (snd w) V b)"
    and "\<forall>a \<in> set_option old. \<forall>b \<in> set_option new. lsa_id b = lsa_id a"
    and "\<forall>l \<in> set_option old \<union> set_option new. lsa_id l \<notin> lsa_id ` fst ` (V - (\<lambda>a. (a, c)) ` set_option old)"
  shows "\<exists>w'. notify_listeners [rl] old c new d w = Inr w' \<and> balanced held w w' \<and>
    rep (snd w') (V - (\<lambda>a. (a, c)) ` set_option old \<union> (\<lambda>b. (b, d)) ` set_option new)"
proof (cases old; cases new)
  fix b assume on: "old = None" "new = Some b"
  then have "ok b" "cost_ok d" "fresh_lsa held (snd w) V b" "lsa_id b \<notin> lsa_id ` fst ` V"
    using assms(3,5) by simp_all
  from unique_add [OF assms(1) this] on show ?thesis by (auto simp: notify_listeners_def)
next
  fix a assume on: "old = Some a" "new = None"
  then have "(a, c) \<in> V" "lsa_id a \<notin> lsa_id ` fst ` (V - {(a, c)})" using assms(2,5) by simp_all
  from unique_del [OF assms(1) this] on show ?thesis by (auto simp: notify_listeners_def)
next
  fix a b assume on: "old = Some a" "new = Some b"
  then have "(a, c) \<in> V" "ok b" "cost_ok d" "lsa_id b = lsa_id a" "b = a \<or> fresh_lsa held (snd w) V b"
    "lsa_id a \<notin> lsa_id ` fst ` (V - {(a, c)})"
    using assms(2,3,4,5) by auto
  from unique_mod [OF assms(1) this] on show ?thesis by (auto simp: notify_listeners_def)
next
  assume "old = None" "new = None"
  then show ?thesis using assms(1) by (auto simp: notify_listeners_def balanced_def)
qed

end

locale rib_client =
  fixes rl :: "'w rib_listener" and rep :: "'w \<Rightarrow> (lsa \<times> u32) set \<Rightarrow> bool"
    and held :: "'w \<Rightarrow> nat \<Rightarrow> int" and ok :: "lsa \<Rightarrow> bool" and cost_ok :: "u32 \<Rightarrow> bool"
  assumes client_add: "rep (snd w) V \<Longrightarrow> ok l \<Longrightarrow> cost_ok c \<Longrightarrow> fresh_lsa held (snd w) V l \<Longrightarrow>
      \<exists>w'. rl_lsa_add rl l c w = Inr w' \<and> rep (snd w') (insert (l, c) V) \<and> balanced held w w'"
    and client_mod: "rep (snd w) V \<Longrightarrow> (a, c) \<in> V \<Longrightarrow> ok b \<Longrightarrow> cost_ok d \<Longrightarrow> lsa_id b = lsa_id a \<Longrightarrow>
      b = a \<or> fresh_lsa held (snd w) V b \<Longrightarrow>
      \<exists>w'. rl_lsa_mod rl a c b d w = Inr w' \<and> rep (snd w') (insert (b, d) (V - {(a, c)})) \<and> balanced held w w'"
    and client_del: "rep (snd w) V \<Longrightarrow> (a, c) \<in> V \<Longrightarrow>
      \<exists>w'. rl_lsa_del rl a c w = Inr w' \<and> rep (snd w') (V - {(a, c)}) \<and> balanced held w w'"
begin

lemma client_notify:
  assumes "rep (snd w) V" "\<forall>a \<in> set_option old. (a, c) \<in> V"
    and "\<forall>b \<in> set_option new. ok b \<and> cost_ok d \<and> fresh_lsa held (snd w) V b"
    and "\<forall>a \<in> set_option old. \<forall>b \<in> set_option new. lsa_id b = lsa_id a"
  shows "\<exists>w'. notify_listeners [rl] old c new d w = Inr w' \<and> balanced held w w' \<and>
    rep (snd w') (V - (\<lambda>a. (a, c)) ` set_option old \<union> (\<lambda>b. (b, d)) ` set_option new)"
proof (cases old; cases new)
  fix b assume on: "old = None" "new = Some b"
  then have "ok b" "cost_ok d" "fresh_lsa held (snd w) V b" using assms(3) by simp_all
  from client_add [OF assms(1) this] on show ?thesis by (auto simp: notify_listeners_def)
next
  fix a assume on: "old = Some a" "new = None"
  then have "(a, c) \<in> V" using assms(2) by simp
  from client_del [OF assms(1) this] on show ?thesis by (auto simp: notify_listeners_def)
next
  fix a b assume on: "old = Some a" "new = Some b"
  then have "(a, c) \<in> V" "ok b" "cost_ok d" "lsa_id b = lsa_id a" "b = a \<or> fresh_lsa held (snd w) V b"
    using assms(2,3,4) by auto
  from client_mod [OF assms(1) this] on show ?thesis by (auto simp: notify_listeners_def)
next
  assume "old = None" "new = None"
  then show ?thesis using assms(1) by (auto simp: notify_listeners_def balanced_def)
qed

end

text \<open>A listener that copes with several LSAs of one node copes with one.\<close>

sublocale rib_client \<subseteq> rib_client_unique
  by unfold_locales ((rule client_add client_mod client_del; assumption)+)

end
