(* ===== verification/Loc_Rib.thy ===== *)
theory Loc_Rib
  imports Lsa_Query Rib_Listener
begin

text \<open>
  \<^verbatim>\<open>src/loc_rib.c\<close>: all LSAs of all peers, grouped by the node they describe, and the best LSA of
  each node.
  Adding, replacing and deleting an LSA only changes the groups and schedules the task
  \<^verbatim>\<open>recompute\<close>, which then chooses the best LSAs and tells the listeners.
\<close>

section \<open>State\<close>

text \<open>The cost of a reference is not initialised until it is first computed (\<open>None\<close>).\<close>

record loc_rib_lsa_ref =
  ref_lsa :: lsa
  ref_cost :: "u32 option"

record loc_rib_id =
  ri_id :: bytes
  ri_highest_version_seen :: u64
  ri_lsas :: "loc_rib_lsa_ref list"
  ri_best :: "lsa option"
  ri_bestcost :: u32

record 'v loc_rib =
  lr_myid :: "bytes option"
  lr_ids :: "loc_rib_id list"
  lr_recompute :: bool
  lr_listeners :: "'v rib_listener list"

definition compare_ids :: "loc_rib_id \<Rightarrow> loc_rib_id \<Rightarrow> int" where
  "compare_ids a b = memcmp (ri_id a) (ri_id b)"

definition compare_lsas :: "lsa \<Rightarrow> lsa \<Rightarrow> int" where
  "compare_lsas a b =
     (let aver = lsa_get_version a; bver = lsa_get_version b
      in if aver < bver then -1 else if aver > bver then 1
         else if lsa_ptr a < lsa_ptr b then -1 else if lsa_ptr a > lsa_ptr b then 1 else 0)"

definition compare_lsa_refs :: "loc_rib_lsa_ref \<Rightarrow> loc_rib_lsa_ref \<Rightarrow> int" where
  "compare_lsa_refs a b = compare_lsas (ref_lsa a) (ref_lsa b)"

section \<open>The cost of a path\<close>

definition loc_rib_find_id :: "'v loc_rib \<Rightarrow> bytes \<Rightarrow> loc_rib_id option" where
  "loc_rib_find_id rib nid = avl_find (\<lambda>rid. memcmp nid (ri_id rid)) (lr_ids rib)"

definition find_recent_lsa :: "'v loc_rib \<Rightarrow> bytes \<Rightarrow> lsa option" where
  "find_recent_lsa rib nid =
     (case loc_rib_find_id rib nid of
        None \<Rightarrow> None
      | Some rid \<Rightarrow>
          (case avl_max (ri_lsas rid) of
             None \<Rightarrow> None
           | Some ref \<Rightarrow>
               if lsa_get_version (ref_lsa ref) < ri_highest_version_seen rid then None
               else Some (ref_lsa ref)))"

definition has_flag :: "lsa_peer_info \<Rightarrow> byte \<Rightarrow> bool" where
  "has_flag lpi flag \<longleftrightarrow> lpi_flags lpi AND ucast flag \<noteq> 0"

text \<open>
  The loop over the ids of the path; \<open>None\<close> is \<^verbatim>\<open>return RIB_COST_UNREACHABLE\<close>.  \<open>from\<close> is null
  only in the first iteration.
\<close>

fun path_cost_loop :: "'v loc_rib \<Rightarrow> bytes list \<Rightarrow> lsa option \<Rightarrow> bool \<Rightarrow> int \<Rightarrow> int option" where
  "path_cost_loop rib [] from traversing_transits cost = Some cost"
| "path_cost_loop rib (nid # nids) from traversing_transits cost =
     (case find_recent_lsa rib nid of
        None \<Rightarrow> None
      | Some to \<Rightarrow>
          (case from of
             None \<Rightarrow> path_cost_loop rib nids (Some to) traversing_transits cost
           | Some from \<Rightarrow>
               (case lsa_get_peer_info from (lsa_id to) of
                  None \<Rightarrow> None
                | Some forward \<Rightarrow>
                    (case lsa_get_peer_info to (lsa_id from) of
                       None \<Rightarrow> None
                     | Some reverse \<Rightarrow>
                         if traversing_transits then
                           path_cost_loop rib nids (Some to)
                             (has_flag forward LSA_PEER_FLAGS_TRANSIT \<and> has_flag reverse LSA_PEER_FLAGS_CUSTOMER)
                             (cost + lpi_metric forward)
                         else if \<not> has_flag forward LSA_PEER_FLAGS_CUSTOMER then None
                         else if \<not> has_flag reverse LSA_PEER_FLAGS_TRANSIT then None
                         else path_cost_loop rib nids (Some to) False (cost + lpi_metric forward)))))"

definition lsa_path_cost :: "'v loc_rib \<Rightarrow> loc_rib_id \<Rightarrow> lsa \<Rightarrow> u32 outcome" where
  "lsa_path_cost rib rid l =
     (if lsa_get_version l < ri_highest_version_seen rid then Inr RIB_COST_INELIGIBLE
      else case lsa_find_attr l LSA_ATTR_TYPE_ADV_PATH [] of
        None \<Rightarrow> Inl Abort
      | Some pathattr \<Rightarrow>
          if attr_datalen pathattr mod NODE_ID_LEN \<noteq> 0 then Inl Abort
          else
            let path = (case attr_data pathattr of Attr_bytes d \<Rightarrow> path_ids d | Attr_set _ \<Rightarrow> [])
            in case lr_myid rib of
                 None \<Rightarrow>
                   (case path_cost_loop rib path None True 0 of
                      None \<Rightarrow> Inr RIB_COST_UNREACHABLE | Some cost \<Rightarrow> Inr (word_of_int cost))
               | Some myid \<Rightarrow>
                   (case find_recent_lsa rib myid of
                      None \<Rightarrow> Inr RIB_COST_UNREACHABLE
                    | Some from \<Rightarrow>
                        (case path_cost_loop rib path (Some from) True 0 of
                           None \<Rightarrow> Inr RIB_COST_UNREACHABLE | Some cost \<Rightarrow> Inr (word_of_int cost))))"

definition lsa_has_shorter_adv_path :: "lsa \<Rightarrow> lsa option \<Rightarrow> bool outcome" where
  "lsa_has_shorter_adv_path a b =
     (case lsa_find_attr a LSA_ATTR_TYPE_ADV_PATH [] of
        None \<Rightarrow> Inl Abort
      | Some apath \<Rightarrow>
          (case b of
             None \<Rightarrow> Inr False
           | Some b \<Rightarrow>
               (case lsa_find_attr b LSA_ATTR_TYPE_ADV_PATH [] of
                  None \<Rightarrow> Inl Abort
                | Some bpath \<Rightarrow> Inr (attr_datalen apath < attr_datalen bpath))))"

section \<open>Choosing the best\<close>

text \<open>The loop of \<^verbatim>\<open>recompute_rid\<close>: stores the cost of every LSA and finds the best one.\<close>

fun choose_best ::
  "'v loc_rib \<Rightarrow> loc_rib_id \<Rightarrow> loc_rib_lsa_ref list \<Rightarrow> lsa option \<Rightarrow> u32 \<Rightarrow>
   (loc_rib_lsa_ref list \<times> lsa option \<times> u32) outcome" where
  "choose_best rib rid [] best bestcost = Inr ([], best, bestcost)"
| "choose_best rib rid (ref # refs) best bestcost =
     obind (lsa_path_cost rib rid (ref_lsa ref)) (\<lambda>cost.
     obind (if cost < bestcost then Inr (Some (ref_lsa ref), cost)
            else if cost = bestcost then
              obind (lsa_has_shorter_adv_path (ref_lsa ref) best)
                (\<lambda>shorter. Inr (if shorter then Some (ref_lsa ref) else best, bestcost))
            else Inr (best, bestcost)) (\<lambda>(best, bestcost).
     obind (choose_best rib rid refs best bestcost) (\<lambda>(refs, best, bestcost).
     Inr (ref\<lparr>ref_cost := Some cost\<rparr> # refs, best, bestcost))))"

definition recompute_rid ::
  "'v loc_rib \<Rightarrow> loc_rib_id \<Rightarrow> 'v world \<Rightarrow> (loc_rib_id \<times> 'v world) outcome" where
  "recompute_rid rib rid w =
     (let oldbest = ri_best rid; oldbestcost = ri_bestcost rid
      in obind (choose_best rib rid (ri_lsas rid) None RIB_COST_INELIGIBLE) (\<lambda>(refs, best, bestcost).
         let rid = rid\<lparr>ri_lsas := refs\<rparr>
         in if map_option lsa_ptr oldbest = map_option lsa_ptr best \<and> oldbestcost = bestcost then Inr (rid, w)
            else
              let rid = rid\<lparr>ri_best := best, ri_bestcost := bestcost\<rparr>;
                  w = (lsa_get (fst w) best, snd w)
              in obind (notify_listeners (lr_listeners rib) oldbest oldbestcost best bestcost w) (\<lambda>(rc, v).
                 obind (lsa_put rc oldbest) (\<lambda>rc. Inr (rid, rc, v)))))"

definition recompute_nth :: "nat \<Rightarrow> 'v loc_rib \<times> 'v world \<Rightarrow> ('v loc_rib \<times> 'v world) outcome" where
  "recompute_nth i = (\<lambda>(rib, w).
     obind (recompute_rid rib (lr_ids rib ! i) w)
       (\<lambda>(rid, w). Inr (rib\<lparr>lr_ids := (lr_ids rib)[i := rid]\<rparr>, w)))"

definition recompute_rib :: "'v loc_rib \<Rightarrow> 'v world \<Rightarrow> ('v loc_rib \<times> 'v world) outcome" where
  "recompute_rib rib w = ofold recompute_nth [0..<length (lr_ids rib)] (rib, w)"

text \<open>The task runs once after it was registered.\<close>

definition loc_rib_run_task :: "'v loc_rib \<Rightarrow> 'v world \<Rightarrow> ('v loc_rib \<times> 'v world) outcome" where
  "loc_rib_run_task rib w =
     (if lr_recompute rib then recompute_rib (rib\<lparr>lr_recompute := False\<rparr>) w else Inr (rib, w))"

section \<open>Adding, replacing and deleting LSAs\<close>

definition loc_rib_init :: "'v loc_rib \<Rightarrow> 'v loc_rib" where
  "loc_rib_init rib = rib\<lparr>lr_ids := [], lr_recompute := False, lr_listeners := []\<rparr>"

text \<open>\<open>get_id\<close> returns the node and the base that contains it; \<open>put_id\<close> is what is written through the pointer.\<close>

definition get_id :: "'v loc_rib \<Rightarrow> bytes \<Rightarrow> loc_rib_id \<times> 'v loc_rib" where
  "get_id rib nid =
     (case loc_rib_find_id rib nid of
        Some rid \<Rightarrow> (rid, rib)
      | None \<Rightarrow>
          let rid = \<lparr>ri_id = take NODE_ID_LEN nid, ri_highest_version_seen = 0, ri_lsas = [],
                     ri_best = None, ri_bestcost = RIB_COST_INELIGIBLE\<rparr>
          in case avl_insert compare_ids rid (lr_ids rib) of
               Some ids \<Rightarrow> (rid, rib\<lparr>lr_ids := ids\<rparr>)
             | None \<Rightarrow> (rid, rib))"

definition put_id :: "loc_rib_id \<Rightarrow> 'v loc_rib \<Rightarrow> 'v loc_rib" where
  "put_id rid rib = rib\<lparr>lr_ids := map (\<lambda>r. if ri_id r = ri_id rid then rid else r) (lr_ids rib)\<rparr>"

definition find_lsa_ref :: "loc_rib_id \<Rightarrow> lsa \<Rightarrow> loc_rib_lsa_ref option" where
  "find_lsa_ref rid l = avl_find (\<lambda>ref. compare_lsas l (ref_lsa ref)) (ri_lsas rid)"

text \<open>Comparing a reference that is inserted with an equal one stops the process.\<close>

definition insert_ref :: "loc_rib_lsa_ref \<Rightarrow> loc_rib_lsa_ref list \<Rightarrow> loc_rib_lsa_ref list outcome" where
  "insert_ref ref refs =
     (case avl_insert compare_lsa_refs ref refs of None \<Rightarrow> Inl Abort | Some refs \<Rightarrow> Inr refs)"

definition loc_rib_add_lsa :: "lsa \<Rightarrow> 'v loc_rib world \<Rightarrow> 'v loc_rib world outcome" where
  "loc_rib_add_lsa l w =
     (let (rc, rib) = w;
          (rid, rib) = get_id rib (lsa_id l);
          rc = lsa_get rc (Some l)
      in obind (insert_ref \<lparr>ref_lsa = l, ref_cost = None\<rparr> (ri_lsas rid)) (\<lambda>refs.
         let rid = rid\<lparr>ri_lsas := refs\<rparr>;
             ver = lsa_get_version l;
             rid = (if ri_highest_version_seen rid < ver then rid\<lparr>ri_highest_version_seen := ver\<rparr> else rid)
         in Inr (rc, (put_id rid rib)\<lparr>lr_recompute := True\<rparr>)))"

definition loc_rib_mod_lsa :: "lsa \<Rightarrow> lsa \<Rightarrow> 'v loc_rib world \<Rightarrow> 'v loc_rib world outcome" where
  "loc_rib_mod_lsa old new w =
     (let (rc, rib) = w
      in case loc_rib_find_id rib (lsa_id old) of None \<Rightarrow> Inl Abort
         | Some rid \<Rightarrow>
             (case find_lsa_ref rid old of None \<Rightarrow> Inl Abort
              | Some ref \<Rightarrow>
                  let refs = avl_delete compare_lsa_refs ref (ri_lsas rid);
                      rc = lsa_get rc (Some new)
                  in obind (insert_ref (ref\<lparr>ref_lsa := new\<rparr>) refs) (\<lambda>refs.
                     obind (lsa_put rc (Some old)) (\<lambda>rc.
                     Inr (rc, (put_id (rid\<lparr>ri_lsas := refs\<rparr>) rib)\<lparr>lr_recompute := True\<rparr>)))))"

definition loc_rib_del_lsa :: "lsa \<Rightarrow> 'v loc_rib world \<Rightarrow> 'v loc_rib world outcome" where
  "loc_rib_del_lsa l w =
     (let (rc, rib) = w
      in case loc_rib_find_id rib (lsa_id l) of None \<Rightarrow> Inl Abort
         | Some rid \<Rightarrow>
             (case find_lsa_ref rid l of None \<Rightarrow> Inl Abort
              | Some ref \<Rightarrow>
                  obind (lsa_put rc (Some l)) (\<lambda>rc.
                  Inr (rc, (put_id (rid\<lparr>ri_lsas := avl_delete compare_lsa_refs ref (ri_lsas rid)\<rparr>) rib)
                         \<lparr>lr_recompute := True\<rparr>))))"

text \<open>\<^verbatim>\<open>loc_rib_deinit\<close> drops every reference, node by node in their order.\<close>

definition loc_rib_deinit :: "refcounts \<Rightarrow> 'v loc_rib \<Rightarrow> (refcounts \<times> 'v loc_rib) outcome" where
  "loc_rib_deinit rc rib =
     obind (ofold (\<lambda>rid rc.
         obind (ofold (\<lambda>ref rc. lsa_put rc (Some (ref_lsa ref))) (ri_lsas rid) rc)
           (\<lambda>rc. lsa_put rc (ri_best rid))) (lr_ids rib) rc)
       (\<lambda>rc. Inr (rc, rib\<lparr>lr_ids := [], lr_recompute := False\<rparr>))"

definition loc_rib_listener_register :: "'v loc_rib \<Rightarrow> 'v rib_listener \<Rightarrow> 'v loc_rib" where
  "loc_rib_listener_register rib rl = rib\<lparr>lr_listeners := lr_listeners rib @ [rl]\<rparr>"

definition loc_rib_listener_unregister :: "'v loc_rib \<Rightarrow> nat \<Rightarrow> 'v loc_rib" where
  "loc_rib_listener_unregister rib i =
     rib\<lparr>lr_listeners := take i (lr_listeners rib) @ drop (i + 1) (lr_listeners rib)\<rparr>"

section \<open>Paths are valley-free\<close>

text \<open>
  A hop of a path is what its two ends advertise about each other.  Going up, the next node
  sells transit to the previous one; going down, it is a customer.
\<close>

type_synonym hop = "lsa_peer_info \<times> lsa_peer_info"

fun path_hops :: "'v loc_rib \<Rightarrow> lsa \<Rightarrow> bytes list \<Rightarrow> hop list option" where
  "path_hops rib from [] = Some []"
| "path_hops rib from (nid # nids) =
     (case find_recent_lsa rib nid of None \<Rightarrow> None | Some to \<Rightarrow>
      case lsa_get_peer_info from (lsa_id to) of None \<Rightarrow> None | Some forward \<Rightarrow>
      case lsa_get_peer_info to (lsa_id from) of None \<Rightarrow> None | Some reverse \<Rightarrow>
      map_option ((#) (forward, reverse)) (path_hops rib to nids))"

definition hop_up :: "hop \<Rightarrow> bool" where
  "hop_up h \<longleftrightarrow> has_flag (fst h) LSA_PEER_FLAGS_TRANSIT \<and> has_flag (snd h) LSA_PEER_FLAGS_CUSTOMER"

definition hop_down :: "hop \<Rightarrow> bool" where
  "hop_down h \<longleftrightarrow> has_flag (fst h) LSA_PEER_FLAGS_CUSTOMER \<and> has_flag (snd h) LSA_PEER_FLAGS_TRANSIT"

text \<open>First up, then at most one hop of any kind, then down.\<close>

definition valley_free :: "hop list \<Rightarrow> bool" where
  "valley_free hs \<longleftrightarrow> (\<exists>ups rest. hs = ups @ rest \<and> list_all hop_up ups \<and> list_all hop_down (tl rest))"

definition hops_cost :: "hop list \<Rightarrow> int" where
  "hops_cost hs = sum_list (map (\<lambda>h. lpi_metric (fst h)) hs)"

lemma valley_free_Nil [simp]: "valley_free []"
  by (simp add: valley_free_def)

lemma valley_free_Cons: "valley_free (h # hs) \<longleftrightarrow> (if hop_up h then valley_free hs else list_all hop_down hs)"
proof -
  have "valley_free (h # hs) \<longleftrightarrow> hop_up h \<and> valley_free hs \<or> list_all hop_down hs"
  proof
    assume "valley_free (h # hs)"
    then obtain ups rest where "h # hs = ups @ rest" "list_all hop_up ups" "list_all hop_down (tl rest)"
      by (auto simp: valley_free_def)
    then show "hop_up h \<and> valley_free hs \<or> list_all hop_down hs"
      by (cases ups) (auto simp: valley_free_def)
  next
    assume "hop_up h \<and> valley_free hs \<or> list_all hop_down hs"
    then show "valley_free (h # hs)"
    proof
      assume "hop_up h \<and> valley_free hs"
      then obtain ups rest where "hs = ups @ rest" "list_all hop_up (h # ups)" "list_all hop_down (tl rest)"
        by (auto simp: valley_free_def)
      then show ?thesis unfolding valley_free_def by (intro exI [of _ "h # ups"] exI [of _ rest]) auto
    next
      assume "list_all hop_down hs"
      then show ?thesis unfolding valley_free_def by (intro exI [of _ "[]"] exI [of _ "h # hs"]) auto
    qed
  qed
  moreover have "list_all hop_down hs \<Longrightarrow> valley_free hs"
    unfolding valley_free_def by (intro exI [of _ "[]"] exI [of _ hs], cases hs) simp_all
  ultimately show ?thesis by auto
qed

lemma path_cost_loop_down:
  "path_cost_loop rib nids (Some src) False cost =
    (case path_hops rib src nids of
       Some hs \<Rightarrow> if list_all hop_down hs then Some (cost + hops_cost hs) else None
     | None \<Rightarrow> None)"
  by (induction nids arbitrary: src cost)
    (auto simp: hops_cost_def hop_down_def split: option.splits)

lemma path_cost_loop_up:
  "path_cost_loop rib nids (Some src) True cost =
    (case path_hops rib src nids of
       Some hs \<Rightarrow> if valley_free hs then Some (cost + hops_cost hs) else None
     | None \<Rightarrow> None)"
proof (induction nids arbitrary: src cost)
  case (Cons nid nids)
  show ?case
  proof (cases "path_hops rib src (nid # nids)")
    case None
    have "path_cost_loop rib nids (Some x) b c = None" if "path_hops rib x nids = None" for x b c
      using that by (cases b) (auto simp: Cons path_cost_loop_down)
    with None show ?thesis by (auto split: option.splits)
  next
    case (Some hs)
    then obtain to f r hs' where h: "find_recent_lsa rib nid = Some to" "lsa_get_peer_info src (lsa_id to) = Some f"
      "lsa_get_peer_info to (lsa_id src) = Some r" "path_hops rib to nids = Some hs'" "hs = (f, r) # hs'"
      by (auto split: option.splits)
    then show ?thesis
      by (auto simp: Cons path_cost_loop_down valley_free_Cons hops_cost_def hop_up_def)
  qed
qed (simp add: hops_cost_def)

lemma path_of_attr:
  "path_of l = Some d \<longleftrightarrow>
    (\<exists>a. lsa_find_attr l LSA_ATTR_TYPE_ADV_PATH [] = Some a \<and> attr_data a = Attr_bytes d \<and>
      attr_datalen a = length d \<and> length d mod NODE_ID_LEN = 0)"
proof -
  have "attr_datalen a = length d" if "attr_data a = Attr_bytes d" for a
    using that by (cases a) simp
  then show ?thesis by (auto simp: path_of_def split: option.splits attr_data.splits if_splits)
qed

text \<open>
  C19: the cost of an LSA, at a node with an id: ineligible if a newer version has been seen; else
  the sum of the metrics along its path, when every node of the path (and this one) has a
  recent LSA, any two neighbours on it advertise each other, and the path is valley-free (up
  over transit providers, at most one hop of another kind, then down to customers);
  unreachable otherwise.
\<close>

theorem lsa_path_cost_valley_free:
  assumes "lr_myid rib = Some myid" "path_of l = Some d"
  shows "lsa_path_cost rib rid l = Inr
    (if lsa_get_version l < ri_highest_version_seen rid then RIB_COST_INELIGIBLE
     else case find_recent_lsa rib myid of None \<Rightarrow> RIB_COST_UNREACHABLE
     | Some from \<Rightarrow>
         (case path_hops rib from (path_ids d) of
            Some hs \<Rightarrow> if valley_free hs then word_of_int (hops_cost hs) else RIB_COST_UNREACHABLE
          | None \<Rightarrow> RIB_COST_UNREACHABLE))"
  using assms by (auto simp: path_of_attr lsa_path_cost_def path_cost_loop_up Let_def split: option.splits)

text \<open>An LSA of node \<open>n\<close> at address \<open>p\<close> that was received over the path \<open>hops\<close>, as an example.\<close>

definition sample_lsa :: "nat \<Rightarrow> byte \<Rightarrow> byte list \<Rightarrow> lsa" where
  "sample_lsa p n hops =
     \<lparr>lsa_ptr = p, lsa_bytes = 72 + 32 * length hops, lsa_id = replicate 32 n,
      lsa_root = [Lsa_attr 1 False [] (Attr_bytes (concat (map (replicate 32) hops)))]\<rparr>"

lemma sample_path: "length (concat (map (replicate 32) hops)) = 32 * length hops"
  by (induction hops) auto

lemma sample_lsa_find:
  "lsa_find_attr (sample_lsa p n hops) 1 [] = Some (Lsa_attr 1 False [] (Attr_bytes (concat (map (replicate 32) hops))))"
  by (simp add: sample_lsa_def lsa_find_attr_def lsa_attr_set_find_attr_def lsa_attr_compare_keys_def)

lemma sample_path_of: "path_of (sample_lsa p n hops) = Some (concat (map (replicate 32) hops))"
  by (simp add: path_of_def lsa_type_defs sample_lsa_find sample_path NODE_ID_LEN_def)

lemma sample_version: "lsa_get_version (sample_lsa p n hops) = 0"
  by (simp add: lsa_get_version_def sample_lsa_def lsa_find_attr_def lsa_attr_set_find_attr_def
      lsa_attr_compare_keys_def lsa_type_defs attr_is_signed_bytes_def)

theorem lsa_path_cost_valley_free_witness:
  "lsa_path_cost \<lparr>lr_myid = Some (replicate 32 3), lr_ids =
        [\<lparr>ri_id = replicate 32 3, ri_highest_version_seen = 0, ri_lsas = [\<lparr>ref_lsa = sample_lsa 5 3 [], ref_cost = None\<rparr>],
          ri_best = None, ri_bestcost = RIB_COST_INELIGIBLE\<rparr>], lr_recompute = True, lr_listeners = []\<rparr>
      \<lparr>ri_id = replicate 32 3, ri_highest_version_seen = 0, ri_lsas = [\<lparr>ref_lsa = sample_lsa 5 3 [], ref_cost = None\<rparr>],
          ri_best = None, ri_bestcost = RIB_COST_INELIGIBLE\<rparr> (sample_lsa 5 3 []) = Inr 0"
  by (subst lsa_path_cost_valley_free [where myid = "replicate 32 3", OF _ sample_path_of])
    (simp_all add: sample_version find_recent_lsa_def loc_rib_find_id_def avl_max_def hops_cost_def)


section \<open>The best LSA\<close>

definition routable :: "lsa \<Rightarrow> bool" where
  "routable l \<longleftrightarrow> lsa_filled l \<and> path_of l \<noteq> None"

definition path_len :: "lsa \<Rightarrow> nat" where
  "path_len l = (case path_of l of Some d \<Rightarrow> length d | None \<Rightarrow> 0)"

definition loc_cost :: "'v loc_rib \<Rightarrow> loc_rib_id \<Rightarrow> lsa \<Rightarrow> u32" where
  "loc_cost rib rid l = (case lsa_path_cost rib rid l of Inr c \<Rightarrow> c | Inl _ \<Rightarrow> RIB_COST_INELIGIBLE)"

text \<open>Lower cost first, then shorter path (lexicographically); no LSA at all is ineligible.\<close>

definition lsa_rank :: "'v loc_rib \<Rightarrow> loc_rib_id \<Rightarrow> lsa \<Rightarrow> u32 \<times> nat" where
  "lsa_rank rib rid l = (loc_cost rib rid l, path_len l)"

definition best_rank :: "lsa option \<Rightarrow> u32 \<Rightarrow> u32 \<times> nat" where
  "best_rank best bestcost = (bestcost, (case best of Some b \<Rightarrow> path_len b | None \<Rightarrow> 0))"

lemma loc_cost_eq: "path_of l \<noteq> None \<Longrightarrow> lsa_path_cost rib rid l = Inr (loc_cost rib rid l)"
  by (auto simp: path_of_attr lsa_path_cost_def loc_cost_def Let_def split: option.splits)

lemma path_attr:
  assumes "path_of x \<noteq> None"
  obtains a where "lsa_find_attr x LSA_ATTR_TYPE_ADV_PATH [] = Some a" "attr_datalen a = path_len x"
proof -
  from assms obtain d where d: "path_of x = Some d" by auto
  then obtain a where "lsa_find_attr x LSA_ATTR_TYPE_ADV_PATH [] = Some a" "attr_datalen a = length d"
    by (auto simp: path_of_attr)
  then show ?thesis using d by (intro that [of a]) (simp_all add: path_len_def)
qed

lemma shorter_eq:
  assumes "path_of l \<noteq> None" "\<And>b. best = Some b \<Longrightarrow> path_of b \<noteq> None"
  shows "lsa_has_shorter_adv_path l best =
     Inr (case best of None \<Rightarrow> False | Some b \<Rightarrow> path_len l < path_len b)"
proof -
  obtain a where a: "lsa_find_attr l LSA_ATTR_TYPE_ADV_PATH [] = Some a" "attr_datalen a = path_len l"
    by (rule path_attr [OF assms(1)])
  show ?thesis
  proof (cases best)
    case (Some b)
    obtain c where "lsa_find_attr b LSA_ATTR_TYPE_ADV_PATH [] = Some c" "attr_datalen c = path_len b"
      by (rule path_attr [OF assms(2) [OF Some]])
    with a Some show ?thesis by (simp add: lsa_has_shorter_adv_path_def)
  qed (simp add: a lsa_has_shorter_adv_path_def)
qed

lemma ineligible_max: "RIB_COST_INELIGIBLE \<le> c \<longleftrightarrow> c = RIB_COST_INELIGIBLE"
proof -
  have m: "RIB_COST_INELIGIBLE = - 1" by (simp add: RIB_COST_INELIGIBLE_def)
  show ?thesis unfolding m by (rule word_order.extremum_unique)
qed

lemma choose_best_step:
  assumes "path_of (ref_lsa ref) \<noteq> None" "\<And>b. best = Some b \<Longrightarrow> path_of b \<noteq> None"
  shows "choose_best rib rid (ref # refs) best bestcost =
    obind (if lsa_rank rib rid (ref_lsa ref) < best_rank best bestcost
           then choose_best rib rid refs (Some (ref_lsa ref)) (loc_cost rib rid (ref_lsa ref))
           else choose_best rib rid refs best bestcost)
      (\<lambda>(refs, best, bestcost). Inr (ref\<lparr>ref_cost := Some (loc_cost rib rid (ref_lsa ref))\<rparr> # refs, best, bestcost))"
  using shorter_eq [OF assms]
  by (auto simp: loc_cost_eq [OF assms(1)] lsa_rank_def best_rank_def less_prod_def split: option.splits)

lemma choose_best_correct:
  assumes "\<forall>ref \<in> set refs. path_of (ref_lsa ref) \<noteq> None" "\<forall>b. best = Some b \<longrightarrow> path_of b \<noteq> None"
    and "\<forall>b. best = Some b \<longrightarrow> loc_cost rib rid b = bestcost"
  shows "\<exists>refs' best' bestcost'. choose_best rib rid refs best bestcost = Inr (refs', best', bestcost') \<and>
    map ref_lsa refs' = map ref_lsa refs \<and>
    (best', bestcost') \<in> insert (best, bestcost) ((\<lambda>r. (Some (ref_lsa r), loc_cost rib rid (ref_lsa r))) ` set refs) \<and>
    ((best', bestcost') = (best, bestcost) \<or> best_rank best' bestcost' < best_rank best bestcost) \<and>
    (\<forall>ref \<in> set refs. best_rank best' bestcost' \<le> lsa_rank rib rid (ref_lsa ref))"
  using assms
proof (induction refs arbitrary: best bestcost)
  case (Cons ref refs)
  have paths: "path_of (ref_lsa ref) \<noteq> None" "\<And>b. best = Some b \<Longrightarrow> path_of b \<noteq> None"
    using Cons.prems by auto
  note step = choose_best_step [OF paths]
  have rank: "best_rank (Some (ref_lsa ref)) (loc_cost rib rid (ref_lsa ref)) = lsa_rank rib rid (ref_lsa ref)"
    by (simp add: best_rank_def lsa_rank_def)
  show ?case
  proof (cases "lsa_rank rib rid (ref_lsa ref) < best_rank best bestcost")
    case True
    obtain refs' best' bestcost' where r: "choose_best rib rid refs (Some (ref_lsa ref)) (loc_cost rib rid (ref_lsa ref)) =
          Inr (refs', best', bestcost')" "map ref_lsa refs' = map ref_lsa refs"
        "(best', bestcost') \<in> insert (Some (ref_lsa ref), loc_cost rib rid (ref_lsa ref))
           ((\<lambda>r. (Some (ref_lsa r), loc_cost rib rid (ref_lsa r))) ` set refs)"
        "best_rank best' bestcost' \<le> lsa_rank rib rid (ref_lsa ref)"
        "\<forall>ref \<in> set refs. best_rank best' bestcost' \<le> lsa_rank rib rid (ref_lsa ref)"
      using Cons.IH [of "Some (ref_lsa ref)" "loc_cost rib rid (ref_lsa ref)"] Cons.prems(1) paths(1)
      by (auto simp: rank)
    then show ?thesis using True by (auto simp: step simp del: choose_best.simps)
  next
    case False
    obtain refs' best' bestcost' where r: "choose_best rib rid refs best bestcost = Inr (refs', best', bestcost')"
        "map ref_lsa refs' = map ref_lsa refs"
        "(best', bestcost') \<in> insert (best, bestcost) ((\<lambda>r. (Some (ref_lsa r), loc_cost rib rid (ref_lsa r))) ` set refs)"
        "(best', bestcost') = (best, bestcost) \<or> best_rank best' bestcost' < best_rank best bestcost"
        "\<forall>ref \<in> set refs. best_rank best' bestcost' \<le> lsa_rank rib rid (ref_lsa ref)"
      using Cons.IH [of best bestcost] Cons.prems by auto
    then show ?thesis using False by (auto simp: step simp del: choose_best.simps)
  qed
qed auto

text \<open>Starting from no LSA: the result is the least rank, unless all LSAs are ineligible.\<close>

lemma choose_best_from_none:
  assumes "\<forall>ref \<in> set refs. path_of (ref_lsa ref) \<noteq> None"
  shows "\<exists>refs' best bestcost. choose_best rib rid refs None RIB_COST_INELIGIBLE = Inr (refs', best, bestcost) \<and>
    map ref_lsa refs' = map ref_lsa refs \<and>
    (best = None \<longrightarrow> bestcost = RIB_COST_INELIGIBLE \<and> (\<forall>ref \<in> set refs. loc_cost rib rid (ref_lsa ref) = RIB_COST_INELIGIBLE)) \<and>
    (\<forall>b. best = Some b \<longrightarrow> b \<in> ref_lsa ` set refs \<and> loc_cost rib rid b = bestcost \<and>
       bestcost \<noteq> RIB_COST_INELIGIBLE \<and>
       (\<forall>ref \<in> set refs. lsa_rank rib rid b \<le> lsa_rank rib rid (ref_lsa ref)))"
proof -
  obtain refs' best bestcost where r:
    "choose_best rib rid refs None RIB_COST_INELIGIBLE = Inr (refs', best, bestcost)" "map ref_lsa refs' = map ref_lsa refs"
    "(best, bestcost) \<in> insert (None, RIB_COST_INELIGIBLE) ((\<lambda>r. (Some (ref_lsa r), loc_cost rib rid (ref_lsa r))) ` set refs)"
    "(best, bestcost) = (None, RIB_COST_INELIGIBLE) \<or> best_rank best bestcost < best_rank None RIB_COST_INELIGIBLE"
    "\<forall>ref \<in> set refs. best_rank best bestcost \<le> lsa_rank rib rid (ref_lsa ref)"
    using choose_best_correct [of refs None rib rid RIB_COST_INELIGIBLE] assms by auto
  show ?thesis
  proof (cases best)
    case None
    with r(3) have c: "bestcost = RIB_COST_INELIGIBLE" by auto
    have "loc_cost rib rid (ref_lsa ref) = RIB_COST_INELIGIBLE" if "ref \<in> set refs" for ref
    proof -
      have "RIB_COST_INELIGIBLE \<le> loc_cost rib rid (ref_lsa ref)"
        using r(5) that None c by (auto simp: best_rank_def lsa_rank_def)
      then show ?thesis by (simp only: ineligible_max)
    qed
    with r(1,2) None c show ?thesis by auto
  next
    case (Some b)
    with r(3) have b: "b \<in> ref_lsa ` set refs" "loc_cost rib rid b = bestcost" by auto
    from r(4) Some have "bestcost \<noteq> RIB_COST_INELIGIBLE"
      by (auto simp: best_rank_def)
    moreover have "best_rank best bestcost = lsa_rank rib rid b"
      by (simp add: best_rank_def lsa_rank_def Some b(2))
    ultimately show ?thesis using r(1,2,5) Some b by auto
  qed
qed


section \<open>The invariant\<close>

interpretation loc_ids: avl_order compare_ids "\<lambda>r. id_ok (ri_id r)"
  by (rule avl_order_key [where f = ri_id]) (simp add: compare_ids_def memcmp_id_ord)

lemma compare_lsa_refs_ord:
  "compare_lsa_refs a b =
    ord_cmp (lsa_get_version (ref_lsa a), lsa_ptr (ref_lsa a)) (lsa_get_version (ref_lsa b), lsa_ptr (ref_lsa b))"
  by (auto simp: compare_lsa_refs_def compare_lsas_def Let_def ord_cmp_pair ord_cmp_def)

interpretation loc_refs: avl_order compare_lsa_refs "\<lambda>_. True"
  by (rule avl_order_key [where f = "\<lambda>a. (lsa_get_version (ref_lsa a), lsa_ptr (ref_lsa a))"])
    (simp add: compare_lsa_refs_ord)

definition rid_lsas :: "loc_rib_id \<Rightarrow> lsa set" where
  "rid_lsas rid = ref_lsa ` set (ri_lsas rid)"

definition loc_lsas :: "'v loc_rib \<Rightarrow> lsa set" where
  "loc_lsas rib = (\<Union>rid \<in> set (lr_ids rib). rid_lsas rid)"

definition loc_bests :: "'v loc_rib \<Rightarrow> lsa set" where
  "loc_bests rib = (\<Union>rid \<in> set (lr_ids rib). set_option (ri_best rid))"

definition rid_inv :: "loc_rib_id \<Rightarrow> bool" where
  "rid_inv rid \<longleftrightarrow> id_ok (ri_id rid) \<and> avl_ordered compare_lsa_refs (ri_lsas rid) \<and>
     (\<forall>l \<in> rid_lsas rid \<union> set_option (ri_best rid). routable l \<and> lsa_id l = ri_id rid) \<and>
     (ri_best rid = None \<longleftrightarrow> ri_bestcost rid = RIB_COST_INELIGIBLE)"

text \<open>No two LSAs of the base, the best ones included, share an address.\<close>

definition loc_inv :: "'v loc_rib \<Rightarrow> bool" where
  "loc_inv rib \<longleftrightarrow> avl_ordered compare_ids (lr_ids rib) \<and> (\<forall>rid \<in> set (lr_ids rib). rid_inv rid) \<and>
     inj_on lsa_ptr (loc_lsas rib \<union> loc_bests rib)"

text \<open>The references the base holds: one for each LSA in a group, and one for each best LSA.\<close>

definition rid_held :: "nat \<Rightarrow> loc_rib_id \<Rightarrow> nat" where
  "rid_held p rid = sum_list (map (\<lambda>r. if lsa_ptr (ref_lsa r) = p then 1 else 0) (ri_lsas rid)) +
     (case ri_best rid of Some b \<Rightarrow> if lsa_ptr b = p then 1 else 0 | None \<Rightarrow> 0)"

definition loc_held :: "'v loc_rib \<Rightarrow> nat \<Rightarrow> int" where
  "loc_held rib p = int (sum_list (map (rid_held p) (lr_ids rib)))"

lemma rid_inv_ok: "rid_inv rid \<Longrightarrow> id_ok (ri_id rid)"
  by (simp add: rid_inv_def)

lemma loc_inv_ids:
  assumes "loc_inv rib"
  shows "list_all (\<lambda>r. id_ok (ri_id r)) (lr_ids rib)"
  using assms by (auto simp: loc_inv_def list_all_iff rid_inv_ok)

lemma loc_ids_inj:
  assumes "loc_inv rib" "a \<in> set (lr_ids rib)" "b \<in> set (lr_ids rib)" "ri_id a = ri_id b"
  shows "a = b"
proof (rule loc_ids.ordered_distinct_keys)
  show "compare_ids a b = 0" using assms(4) by (simp add: compare_ids_def)
qed (use assms loc_inv_ids in \<open>auto simp: loc_inv_def\<close>)

lemma loc_find_id_Some:
  assumes "loc_inv rib" "loc_rib_find_id rib nid = Some rid" "id_ok nid"
  shows "rid \<in> set (lr_ids rib)" "ri_id rid = nid"
proof -
  show rid: "rid \<in> set (lr_ids rib)"
    using assms(2) by (auto simp: loc_rib_find_id_def dest: avl_find_SomeD)
  have "id_ok (ri_id rid)" using assms(1) rid by (auto simp: loc_inv_def rid_inv_ok)
  then show "ri_id rid = nid"
    using assms(2,3) avl_find_SomeD [of "\<lambda>rid. memcmp nid (ri_id rid)" "lr_ids rib" rid]
    by (simp add: loc_rib_find_id_def memcmp_id)
qed

lemma loc_find_id_None:
  assumes "loc_inv rib" "loc_rib_find_id rib nid = None" "rid \<in> set (lr_ids rib)"
  shows "ri_id rid \<noteq> nid"
  using assms by (auto simp: loc_rib_find_id_def avl_find_None_iff)

text \<open>A node whose state is written back: the sums and unions over all nodes change by its own.\<close>

lemma put_id_sum:
  fixes f :: "loc_rib_id \<Rightarrow> nat"
  assumes "rid \<in> set ids" "ri_id rid' = ri_id rid" "\<And>a b. a \<in> set ids \<Longrightarrow> b \<in> set ids \<Longrightarrow> ri_id a = ri_id b \<Longrightarrow> a = b"
    and "distinct ids"
  shows "sum_list (map f (map (\<lambda>r. if ri_id r = ri_id rid' then rid' else r) ids)) + f rid =
    sum_list (map f ids) + f rid'"
  using assms
proof (induction ids)
  case (Cons x xs)
  show ?case
  proof (cases "x = rid")
    case True
    then have "\<forall>r \<in> set xs. ri_id r \<noteq> ri_id rid'" using Cons.prems by auto
    then have "map (\<lambda>r. if ri_id r = ri_id rid' then rid' else r) xs = xs" by (auto intro: map_idI)
    with True Cons.prems(2) show ?thesis by (simp del: map_map)
  next
    case False
    then have "ri_id x \<noteq> ri_id rid'" using Cons.prems(1,2,3) by auto
    moreover have "sum_list (map f (map (\<lambda>r. if ri_id r = ri_id rid' then rid' else r) xs)) + f rid =
        sum_list (map f xs) + f rid'"
      by (rule Cons.IH) (use False Cons.prems in auto)
    ultimately show ?thesis by (simp del: map_map)
  qed
qed simp

lemma put_id_set:
  assumes "loc_inv rib" "rid \<in> set (lr_ids rib)" "ri_id rid' = ri_id rid"
  shows "set (lr_ids (put_id rid' rib)) = insert rid' (set (lr_ids rib) - {rid})"
proof -
  have "(if ri_id r = ri_id rid' then rid' else r) = (if r = rid then rid' else r)" if "r \<in> set (lr_ids rib)" for r
  proof (cases "ri_id r = ri_id rid")
    case True
    then have "r = rid" by (rule loc_ids_inj [OF assms(1) that assms(2)])
    then show ?thesis by (simp add: assms(3))
  next
    case False
    then have "r \<noteq> rid" by blast
    with False show ?thesis by (simp add: assms(3))
  qed
  then have "set (lr_ids (put_id rid' rib)) = (\<lambda>r. if r = rid then rid' else r) ` set (lr_ids rib)"
    by (simp add: put_id_def cong: image_cong)
  then show ?thesis using assms(2) by auto
qed

lemma put_id_held:
  assumes "loc_inv rib" "rid \<in> set (lr_ids rib)" "ri_id rid' = ri_id rid"
  shows "loc_held (put_id rid' rib) p = loc_held rib p + int (rid_held p rid') - int (rid_held p rid)"
proof -
  have "distinct (lr_ids rib)"
    by (rule loc_ids.ordered_distinct) (use assms(1) loc_inv_ids in \<open>auto simp: loc_inv_def\<close>)
  then have sum: "sum_list (map (rid_held p) (map (\<lambda>r. if ri_id r = ri_id rid' then rid' else r) (lr_ids rib))) + rid_held p rid =
      sum_list (map (rid_held p) (lr_ids rib)) + rid_held p rid'"
    by (intro put_id_sum assms(2,3)) (rule loc_ids_inj [OF assms(1)])
  have "lr_ids (put_id rid' rib) = map (\<lambda>r. if ri_id r = ri_id rid' then rid' else r) (lr_ids rib)"
    by (simp add: put_id_def)
  from sum [folded this] show ?thesis unfolding loc_held_def by linarith
qed

lemma put_id_lsas:
  assumes "loc_inv rib" "rid \<in> set (lr_ids rib)" "ri_id rid' = ri_id rid"
  shows "loc_lsas (put_id rid' rib) = rid_lsas rid' \<union> {l \<in> loc_lsas rib. lsa_id l \<noteq> ri_id rid}"
    and "loc_bests (put_id rid' rib) = set_option (ri_best rid') \<union> {l \<in> loc_bests rib. lsa_id l \<noteq> ri_id rid}"
proof -
  have other: "ri_id r \<noteq> ri_id rid" if "r \<in> set (lr_ids rib) - {rid}" for r
    using that loc_ids_inj [OF assms(1) _ assms(2), of r] by auto
  have own: "lsa_id l = ri_id r" if "r \<in> set (lr_ids rib)" "l \<in> rid_lsas r \<or> ri_best r = Some l" for r l
    using that assms(1) by (auto simp: loc_inv_def rid_inv_def)
  show "loc_lsas (put_id rid' rib) = rid_lsas rid' \<union> {l \<in> loc_lsas rib. lsa_id l \<noteq> ri_id rid}"
    unfolding loc_lsas_def put_id_set [OF assms] using other own by fastforce
  show "loc_bests (put_id rid' rib) = set_option (ri_best rid') \<union> {l \<in> loc_bests rib. lsa_id l \<noteq> ri_id rid}"
    unfolding loc_bests_def put_id_set [OF assms] using other own by fastforce
qed

lemma ordered_rids: "avl_ordered compare_ids ids \<longleftrightarrow> sorted_wrt (\<lambda>a b. memcmp a b < 0) (map ri_id ids)"
  by (simp add: avl_ordered_def sorted_wrt_map compare_ids_def)

lemma put_id_inv:
  assumes "loc_inv rib" "rid \<in> set (lr_ids rib)" "ri_id rid' = ri_id rid" "rid_inv rid'"
    and "inj_on lsa_ptr (loc_lsas (put_id rid' rib) \<union> loc_bests (put_id rid' rib))"
  shows "loc_inv (put_id rid' rib)"
proof -
  have "map ri_id (lr_ids (put_id rid' rib)) = map ri_id (lr_ids rib)"
    by (simp add: put_id_def)
  then have "avl_ordered compare_ids (lr_ids (put_id rid' rib)) = avl_ordered compare_ids (lr_ids rib)"
    by (simp only: ordered_rids)
  with assms put_id_set [OF assms(1,2,3)] show ?thesis by (auto simp: loc_inv_def)
qed

lemma recompute_flag [simp]:
  "loc_inv (rib\<lparr>lr_recompute := b\<rparr>) = loc_inv rib" "loc_lsas (rib\<lparr>lr_recompute := b\<rparr>) = loc_lsas rib"
  "loc_bests (rib\<lparr>lr_recompute := b\<rparr>) = loc_bests rib" "loc_held (rib\<lparr>lr_recompute := b\<rparr>) = loc_held rib"
  by (simp_all add: loc_inv_def loc_lsas_def loc_bests_def loc_held_def fun_eq_iff)


section \<open>The base as a listener\<close>

lemma loc_own:
  assumes "loc_inv rib" "rid \<in> set (lr_ids rib)"
  shows "l \<in> loc_lsas rib \<Longrightarrow> lsa_id l = ri_id rid \<Longrightarrow> l \<in> rid_lsas rid"
    and "l \<in> loc_bests rib \<Longrightarrow> lsa_id l = ri_id rid \<Longrightarrow> l \<in> set_option (ri_best rid)"
    and "l \<in> rid_lsas rid \<Longrightarrow> l \<in> loc_lsas rib \<and> lsa_id l = ri_id rid"
    and "l \<in> set_option (ri_best rid) \<Longrightarrow> l \<in> loc_bests rib \<and> lsa_id l = ri_id rid"
proof -
  have own: "lsa_id l = ri_id r" if "r \<in> set (lr_ids rib)" "l \<in> rid_lsas r \<union> set_option (ri_best r)" for r
    using that assms(1) unfolding loc_inv_def rid_inv_def by blast
  have same: "r = rid" if "r \<in> set (lr_ids rib)" "ri_id r = ri_id rid" for r
    by (rule loc_ids_inj [OF assms(1) that(1) assms(2) that(2)])
  show "l \<in> loc_lsas rib \<Longrightarrow> lsa_id l = ri_id rid \<Longrightarrow> l \<in> rid_lsas rid"
    unfolding loc_lsas_def using own same by (metis UN_E UnI1)
  show "l \<in> loc_bests rib \<Longrightarrow> lsa_id l = ri_id rid \<Longrightarrow> l \<in> set_option (ri_best rid)"
    unfolding loc_bests_def using own same by (metis UN_E UnI2)
  show "l \<in> rid_lsas rid \<Longrightarrow> l \<in> loc_lsas rib \<and> lsa_id l = ri_id rid"
    unfolding loc_lsas_def using own [OF assms(2)] assms(2) by blast
  show "l \<in> set_option (ri_best rid) \<Longrightarrow> l \<in> loc_bests rib \<and> lsa_id l = ri_id rid"
    unfolding loc_bests_def using own [OF assms(2)] assms(2) by blast
qed

lemma upd_client:
  assumes inv: "loc_inv rib" "rid \<in> set (lr_ids rib)" "ri_id rid' = ri_id rid" "ri_best rid' = ri_best rid"
    and rid': "rid_inv rid'" "rid_lsas rid' = rid_lsas rid - A \<union> set_option new" "A \<subseteq> rid_lsas rid"
    and new: "\<forall>b \<in> set_option new. b \<in> A \<or> lsa_ptr b \<notin> lsa_ptr ` (loc_lsas rib \<union> loc_bests rib)"
  shows "loc_inv (put_id rid' rib)" "loc_lsas (put_id rid' rib) = loc_lsas rib - A \<union> set_option new"
proof -
  note own = loc_own [OF inv(1,2)] and put = put_id_lsas [OF inv(1,2,3)]
  have bests: "loc_bests (put_id rid' rib) = loc_bests rib"
    unfolding put inv(4) using own(2,4) by blast
  have lsas: "loc_lsas (put_id rid' rib) = loc_lsas rib - A \<union> set_option new"
    unfolding put rid'(2) using own(1,3) rid'(3) by blast
  show "loc_lsas (put_id rid' rib) = loc_lsas rib - A \<union> set_option new" by (rule lsas)
  have inj: "inj_on lsa_ptr (loc_lsas rib \<union> loc_bests rib)" using inv(1) by (simp add: loc_inv_def)
  have A: "A \<subseteq> loc_lsas rib" using rid'(3) own(3) by blast
  have "inj_on lsa_ptr (loc_lsas rib - A \<union> set_option new \<union> loc_bests rib)"
  proof (cases new)
    case None
    then show ?thesis using inj by (auto elim: inj_on_subset)
  next
    case (Some b)
    show ?thesis
    proof (cases "b \<in> A")
      case True
      then have "loc_lsas rib - A \<union> set_option new \<union> loc_bests rib \<subseteq> loc_lsas rib \<union> loc_bests rib"
        using A Some by auto
      then show ?thesis by (rule inj_on_subset [OF inj])
    next
      case False
      with new Some have "lsa_ptr b \<notin> lsa_ptr ` (loc_lsas rib \<union> loc_bests rib)" by simp
      then have "inj_on lsa_ptr (insert b (loc_lsas rib \<union> loc_bests rib))" using inj by auto
      then show ?thesis using Some by (auto elim!: inj_on_subset)
    qed
  qed
  with put_id_inv [OF inv(1,2,3) rid'(1)] show "loc_inv (put_id rid' rib)"
    by (simp only: bests lsas)
qed

lemma held_zero:
  assumes "loc_held rib p = 0"
  shows "p \<notin> lsa_ptr ` (loc_lsas rib \<union> loc_bests rib)"
proof -
  have zero: "rid_held p rid = 0" if "rid \<in> set (lr_ids rib)" for rid
    using assms that by (simp add: loc_held_def)
  have "lsa_ptr l \<noteq> p" if "rid \<in> set (lr_ids rib)" "l \<in> rid_lsas rid \<or> l \<in> set_option (ri_best rid)" for rid l
    using zero [OF that(1)] that(2)
    by (auto simp: rid_held_def rid_lsas_def split: if_splits)
  then show ?thesis by (force simp: loc_lsas_def loc_bests_def)
qed

lemma get_id_facts:
  assumes "loc_inv rib" "id_ok nid" "get_id rib nid = (rid, rib1)"
  shows "loc_inv rib1 \<and> rid \<in> set (lr_ids rib1) \<and> ri_id rid = nid \<and> loc_lsas rib1 = loc_lsas rib \<and>
    loc_bests rib1 = loc_bests rib \<and> loc_held rib1 = loc_held rib"
proof (cases "loc_rib_find_id rib nid")
  case (Some r)
  then show ?thesis using assms loc_find_id_Some [OF assms(1) Some assms(2)] by (auto simp: get_id_def)
next
  case None
  define new where "new = \<lparr>ri_id = take NODE_ID_LEN nid, ri_highest_version_seen = 0, ri_lsas = [],
                     ri_best = None, ri_bestcost = RIB_COST_INELIGIBLE\<rparr>"
  have nid: "take NODE_ID_LEN nid = nid" using assms(2) by (simp add: id_ok_def)
  have ord: "avl_ordered compare_ids (lr_ids rib)" using assms(1) by (simp add: loc_inv_def)
  have oks: "list_all (\<lambda>r. id_ok (ri_id r)) (new # lr_ids rib)"
    using loc_inv_ids [OF assms(1)] assms(2) by (simp add: new_def nid)
  have "avl_find (compare_ids new) (lr_ids rib) = None"
    using None by (simp add: loc_rib_find_id_def new_def nid compare_ids_def [abs_def])
  then obtain ids where ins: "avl_insert compare_ids new (lr_ids rib) = Some ids"
    using loc_ids.insert_Some_find_None [OF ord oks] by auto
  then have get: "rid = new" "rib1 = rib\<lparr>lr_ids := ids\<rparr>"
    using assms(3) None by (simp_all add: get_id_def Let_def new_def)
  have set: "set ids = insert new (set (lr_ids rib))" by (rule avl_insert_set [OF ins])
  have empty: "rid_lsas new = {}" "ri_best new = None" by (simp_all add: new_def rid_lsas_def)
  have "rid_inv new" using assms(2) by (simp add: rid_inv_def new_def nid rid_lsas_def)
  moreover have lsas: "loc_lsas rib1 = loc_lsas rib" "loc_bests rib1 = loc_bests rib"
    using set empty by (simp_all add: loc_lsas_def loc_bests_def get)
  moreover have "loc_held rib1 p = loc_held rib p" for p
    using avl_insert_sum [OF ins, of "rid_held p"] by (simp add: loc_held_def get rid_held_def new_def)
  moreover have "avl_ordered compare_ids ids" using loc_ids.insert_ordered [OF ord oks ins] by simp
  ultimately show ?thesis
    using assms(1) set by (auto simp: loc_inv_def get new_def nid)
qed


lemma routable_facts: "routable l \<Longrightarrow> lsa_filled l \<and> id_ok (lsa_id l)"
  by (auto simp: routable_def lsa_filled_def lsa_wf_def id_ok_def)

lemma insert_ref_fresh:
  assumes "avl_ordered compare_lsa_refs refs" "lsa_ptr (ref_lsa ref) \<notin> lsa_ptr ` ref_lsa ` set refs"
  obtains refs' where "insert_ref ref refs = Inr refs'" "avl_ordered compare_lsa_refs refs'"
    "set refs' = insert ref (set refs)"
    "\<And>f. sum_list (map f refs') = (f ref :: nat) + sum_list (map f refs)"
proof -
  have "avl_find (compare_lsa_refs ref) refs = None"
    using assms(2) by (auto simp: avl_find_None_iff compare_lsa_refs_ord)
  then obtain refs' where ins: "avl_insert compare_lsa_refs ref refs = Some refs'"
    using loc_refs.insert_Some_find_None [OF assms(1), of ref] by (auto simp: list_all_iff)
  show ?thesis
  proof (rule that)
    show "insert_ref ref refs = Inr refs'" by (simp add: insert_ref_def ins)
    show "avl_ordered compare_lsa_refs refs'"
      using loc_refs.insert_ordered [OF assms(1) _ ins] by (simp add: list_all_iff)
    show "set refs' = insert ref (set refs)" by (rule avl_insert_set [OF ins])
    show "sum_list (map f refs') = f ref + sum_list (map f refs)" for f :: "loc_rib_lsa_ref \<Rightarrow> nat"
      by (rule avl_insert_sum [OF ins])
  qed
qed

lemma loc_add_client:
  assumes inv: "loc_inv rib" and l: "routable l" "loc_held rib (lsa_ptr l) = 0"
  shows "\<exists>rc' rib'. loc_rib_add_lsa l (rc, rib) = Inr (rc', rib') \<and> loc_inv rib' \<and>
    loc_lsas rib' = insert l (loc_lsas rib) \<and> (\<forall>p. rc' p - loc_held rib' p = rc p - loc_held rib p)"
proof -
  obtain rid rib1 where get: "get_id rib (lsa_id l) = (rid, rib1)" by (cases "get_id rib (lsa_id l)")
  have g: "loc_inv rib1" "rid \<in> set (lr_ids rib1)" "ri_id rid = lsa_id l" "loc_lsas rib1 = loc_lsas rib"
    "loc_bests rib1 = loc_bests rib" "loc_held rib1 = loc_held rib"
    using get_id_facts [OF inv _ get] routable_facts [OF l(1)] by auto
  have fresh: "lsa_ptr l \<notin> lsa_ptr ` (loc_lsas rib1 \<union> loc_bests rib1)"
    using held_zero [OF l(2)] by (simp add: g)
  let ?ref = "\<lparr>ref_lsa = l, ref_cost = None\<rparr>"
  have rinv: "rid_inv rid" using g(1,2) by (simp add: loc_inv_def)
  then have ord: "avl_ordered compare_lsa_refs (ri_lsas rid)" by (simp add: rid_inv_def)
  have "rid_lsas rid \<subseteq> loc_lsas rib1" using loc_own(3) [OF g(1,2)] by blast
  then have "lsa_ptr (ref_lsa ?ref) \<notin> lsa_ptr ` ref_lsa ` set (ri_lsas rid)"
    using fresh by (auto simp: rid_lsas_def)
  from insert_ref_fresh [OF ord this] obtain refs where refs: "insert_ref ?ref (ri_lsas rid) = Inr refs"
    "avl_ordered compare_lsa_refs refs" "set refs = insert ?ref (set (ri_lsas rid))"
    "\<And>f. sum_list (map f refs) = (f ?ref :: nat) + sum_list (map f (ri_lsas rid))" by blast
  define rid' where "rid' = (if ri_highest_version_seen rid < lsa_get_version l
      then rid\<lparr>ri_lsas := refs, ri_highest_version_seen := lsa_get_version l\<rparr> else rid\<lparr>ri_lsas := refs\<rparr>)"
  have rid': "ri_id rid' = ri_id rid" "ri_best rid' = ri_best rid" "ri_bestcost rid' = ri_bestcost rid" "ri_lsas rid' = refs"
    by (simp_all add: rid'_def)
  have lsas: "rid_lsas rid' = rid_lsas rid - {} \<union> set_option (Some l)"
    by (auto simp: rid_lsas_def rid'(4) refs(3))
  have rinv': "rid_inv rid'"
    using rinv l(1) refs(2) g(3) by (auto simp: rid_inv_def rid' lsas)
  have upd: "loc_inv (put_id rid' rib1)" "loc_lsas (put_id rid' rib1) = loc_lsas rib1 - {} \<union> set_option (Some l)"
    using upd_client [OF g(1,2) rid'(1,2) rinv' lsas] fresh by auto
  have "rid_held p rid' = rid_held p rid + (if lsa_ptr l = p then 1 else 0)" for p
    using refs(4) [of "\<lambda>r. if lsa_ptr (ref_lsa r) = p then 1 else 0"] by (simp add: rid_held_def rid')
  then have held: "loc_held (put_id rid' rib1) p = loc_held rib p + (if lsa_ptr l = p then 1 else 0)" for p
    using put_id_held [OF g(1,2) rid'(1), of p] by (simp add: g(6))
  have "loc_rib_add_lsa l (rc, rib) = Inr (lsa_get rc (Some l), (put_id rid' rib1)\<lparr>lr_recompute := True\<rparr>)"
    by (simp add: loc_rib_add_lsa_def get refs(1) Let_def rid'_def)
  then show ?thesis using upd held by (auto simp: g(4) lsa_get_def)
qed

text \<open>Finding the reference to an LSA of the base.\<close>

lemma find_ref_own:
  assumes "loc_inv rib" "a \<in> loc_lsas rib"
  obtains rid ref where "loc_rib_find_id rib (lsa_id a) = Some rid" "rid \<in> set (lr_ids rib)" "ri_id rid = lsa_id a"
    "find_lsa_ref rid a = Some ref" "ref \<in> set (ri_lsas rid)" "ref_lsa ref = a"
    "ref_lsa ` set (avl_delete compare_lsa_refs ref (ri_lsas rid)) = rid_lsas rid - {a}"
    "\<And>f. sum_list (map f (ri_lsas rid)) = (f ref :: nat) + sum_list (map f (avl_delete compare_lsa_refs ref (ri_lsas rid)))"
proof -
  obtain rid0 where r0: "rid0 \<in> set (lr_ids rib)" "a \<in> rid_lsas rid0" using assms(2) by (auto simp: loc_lsas_def)
  have ida: "lsa_id a = ri_id rid0" using loc_own(3) [OF assms(1) r0(1) r0(2)] by simp
  have ok: "id_ok (lsa_id a)" using assms(1) r0(1) ida by (auto simp: loc_inv_def rid_inv_ok)
  obtain rid where rid: "loc_rib_find_id rib (lsa_id a) = Some rid"
    using loc_find_id_None [OF assms(1) _ r0(1)] ida by (cases "loc_rib_find_id rib (lsa_id a)") auto
  note f = loc_find_id_Some [OF assms(1) rid ok]
  have "rid = rid0" by (rule loc_ids_inj [OF assms(1) f(1) r0(1)]) (simp add: f(2) ida)
  with r0 obtain ref0 where ref0: "ref0 \<in> set (ri_lsas rid)" "ref_lsa ref0 = a" by (auto simp: rid_lsas_def)
  have ord: "avl_ordered compare_lsa_refs (ri_lsas rid)" using assms(1) f(1) by (auto simp: loc_inv_def rid_inv_def)
  have cmp: "(\<lambda>r. compare_lsas a (ref_lsa r)) = compare_lsa_refs ref0"
    by (simp add: compare_lsa_refs_def ref0(2) fun_eq_iff)
  have find: "avl_find (compare_lsa_refs ref0) (ri_lsas rid) = Some ref0"
    by (rule loc_refs.find_self [OF ord _ ref0(1)]) (simp add: list_all_iff)
  have del: "set (avl_delete compare_lsa_refs ref0 (ri_lsas rid)) = {y \<in> set (ri_lsas rid). compare_lsa_refs ref0 y \<noteq> 0}"
    by (rule loc_refs.delete_set [OF ord]) (simp add: list_all_iff)
  have same: "compare_lsa_refs ref0 y = 0 \<longleftrightarrow> ref_lsa y = a" if "y \<in> set (ri_lsas rid)" for y
  proof
    assume "compare_lsa_refs ref0 y = 0"
    then have "ref0 = y"
      by (intro loc_refs.ordered_distinct_keys [OF ord _ ref0(1) that]) (simp_all add: list_all_iff)
    then show "ref_lsa y = a" using ref0(2) by simp
  qed (simp add: compare_lsa_refs_ord ref0(2))
  show ?thesis
  proof (rule that [OF rid f])
    show "find_lsa_ref rid a = Some ref0" by (simp add: find_lsa_ref_def cmp find)
    show "ref_lsa ` set (avl_delete compare_lsa_refs ref0 (ri_lsas rid)) = rid_lsas rid - {a}"
      unfolding del rid_lsas_def using same by auto
    show "sum_list (map f (ri_lsas rid)) = f ref0 + sum_list (map f (avl_delete compare_lsa_refs ref0 (ri_lsas rid)))"
      for f :: "loc_rib_lsa_ref \<Rightarrow> nat"
      using find by (rule avl_delete_sum)
  qed (use ref0 in auto)
qed

lemma loc_del_client:
  assumes inv: "loc_inv rib" and a: "a \<in> loc_lsas rib"
  shows "\<exists>rc' rib'. loc_rib_del_lsa a (rc, rib) = Inr (rc', rib') \<and> loc_inv rib' \<and>
    loc_lsas rib' = loc_lsas rib - {a} \<and> (\<forall>p. rc' p - loc_held rib' p = rc p - loc_held rib p)"
proof -
  obtain rid ref where r: "loc_rib_find_id rib (lsa_id a) = Some rid" "rid \<in> set (lr_ids rib)" "ri_id rid = lsa_id a"
    "find_lsa_ref rid a = Some ref" "ref \<in> set (ri_lsas rid)" "ref_lsa ref = a"
    "ref_lsa ` set (avl_delete compare_lsa_refs ref (ri_lsas rid)) = rid_lsas rid - {a}"
    "\<And>f. sum_list (map f (ri_lsas rid)) = (f ref :: nat) + sum_list (map f (avl_delete compare_lsa_refs ref (ri_lsas rid)))"
    by (rule find_ref_own [OF inv a]) blast
  define rid' where "rid' = rid\<lparr>ri_lsas := avl_delete compare_lsa_refs ref (ri_lsas rid)\<rparr>"
  have rid': "ri_id rid' = ri_id rid" "ri_best rid' = ri_best rid" by (simp_all add: rid'_def)
  have rinv: "rid_inv rid" using inv r(2) by (simp add: loc_inv_def)
  have lsas: "rid_lsas rid' = rid_lsas rid - {a} \<union> set_option None"
    using r(7) by (simp add: rid_lsas_def rid'_def)
  have mem: "a \<in> rid_lsas rid" using r(5,6) by (auto simp: rid_lsas_def)
  have rinv': "rid_inv rid'"
    using rinv avl_delete_ordered [of compare_lsa_refs "ri_lsas rid" ref]
    by (auto simp: rid_inv_def lsas) (auto simp: rid'_def)
  have upd: "loc_inv (put_id rid' rib)" "loc_lsas (put_id rid' rib) = loc_lsas rib - {a} \<union> set_option None"
    using upd_client [OF inv r(2) rid' rinv' lsas] mem by auto
  have "rid_held p rid = rid_held p rid' + (if lsa_ptr a = p then 1 else 0)" for p
    using r(8) [of "\<lambda>r. if lsa_ptr (ref_lsa r) = p then 1 else 0"] by (simp add: rid_held_def rid'_def r(6))
  then have held: "loc_held (put_id rid' rib) p = loc_held rib p - (if lsa_ptr a = p then 1 else 0)" for p
    using put_id_held [OF inv r(2) rid'(1), of p] by simp
  have "routable a" using rinv mem by (auto simp: rid_inv_def)
  then have put: "lsa_put rc (Some a) = Inr (rc(lsa_ptr a := rc (lsa_ptr a) - 1))"
    using lsa_put_filled routable_facts by blast
  have "loc_rib_del_lsa a (rc, rib) =
      Inr (rc(lsa_ptr a := rc (lsa_ptr a) - 1), (put_id rid' rib)\<lparr>lr_recompute := True\<rparr>)"
    by (simp add: loc_rib_del_lsa_def r(1,4) put rid'_def)
  then show ?thesis using upd held by auto
qed


lemma loc_mod_client:
  assumes inv: "loc_inv rib" and a: "a \<in> loc_lsas rib"
    and b: "routable b" "lsa_id b = lsa_id a" "b = a \<or> loc_held rib (lsa_ptr b) = 0"
  shows "\<exists>rc' rib'. loc_rib_mod_lsa a b (rc, rib) = Inr (rc', rib') \<and> loc_inv rib' \<and>
    loc_lsas rib' = insert b (loc_lsas rib - {a}) \<and> (\<forall>p. rc' p - loc_held rib' p = rc p - loc_held rib p)"
proof -
  obtain rid ref where r: "loc_rib_find_id rib (lsa_id a) = Some rid" "rid \<in> set (lr_ids rib)" "ri_id rid = lsa_id a"
    "find_lsa_ref rid a = Some ref" "ref \<in> set (ri_lsas rid)" "ref_lsa ref = a"
    "ref_lsa ` set (avl_delete compare_lsa_refs ref (ri_lsas rid)) = rid_lsas rid - {a}"
    "\<And>f. sum_list (map f (ri_lsas rid)) = (f ref :: nat) + sum_list (map f (avl_delete compare_lsa_refs ref (ri_lsas rid)))"
    by (rule find_ref_own [OF inv a]) blast
  have rinv: "rid_inv rid" using inv r(2) by (simp add: loc_inv_def)
  have mem: "a \<in> rid_lsas rid" using r(5,6) by (auto simp: rid_lsas_def)
  have sub: "rid_lsas rid \<subseteq> loc_lsas rib" using loc_own(3) [OF inv r(2)] by blast
  have inj: "inj_on lsa_ptr (loc_lsas rib)" using inv by (auto simp: loc_inv_def elim: inj_on_subset)
  have fresh: "lsa_ptr b \<notin> lsa_ptr ` (rid_lsas rid - {a})"
    using b(3) held_zero [of rib "lsa_ptr b"] sub mem inj by (auto simp: inj_on_def)
  have ord: "avl_ordered compare_lsa_refs (avl_delete compare_lsa_refs ref (ri_lsas rid))"
    using rinv by (simp add: rid_inv_def avl_delete_ordered)
  let ?ref = "ref\<lparr>ref_lsa := b\<rparr>"
  have "lsa_ptr (ref_lsa ?ref) \<notin> lsa_ptr ` ref_lsa ` set (avl_delete compare_lsa_refs ref (ri_lsas rid))"
    unfolding r(7) using fresh by simp
  from insert_ref_fresh [OF ord this] obtain refs where refs:
    "insert_ref ?ref (avl_delete compare_lsa_refs ref (ri_lsas rid)) = Inr refs"
    "avl_ordered compare_lsa_refs refs"
    "set refs = insert ?ref (set (avl_delete compare_lsa_refs ref (ri_lsas rid)))"
    "\<And>f. sum_list (map f refs) = (f ?ref :: nat) + sum_list (map f (avl_delete compare_lsa_refs ref (ri_lsas rid)))"
    by blast
  define rid' where "rid' = rid\<lparr>ri_lsas := refs\<rparr>"
  have rid': "ri_id rid' = ri_id rid" "ri_best rid' = ri_best rid" by (simp_all add: rid'_def)
  have lsas: "rid_lsas rid' = rid_lsas rid - {a} \<union> set_option (Some b)"
    unfolding rid_lsas_def [of rid'] r(7) [symmetric] by (auto simp: rid'_def refs(3))
  have rinv': "rid_inv rid'"
    using rinv refs(2) b(1,2) r(3) by (auto simp: rid_inv_def lsas) (auto simp: rid'_def)
  have upd: "loc_inv (put_id rid' rib)" "loc_lsas (put_id rid' rib) = loc_lsas rib - {a} \<union> set_option (Some b)"
    using upd_client [OF inv r(2) rid' rinv' lsas] mem b(3) held_zero [of rib "lsa_ptr b"] by auto
  have moved: "rid_held p rid' + (if lsa_ptr a = p then 1 else 0) = rid_held p rid + (if lsa_ptr b = p then 1 else 0)" for p
    using r(8) [of "\<lambda>r. if lsa_ptr (ref_lsa r) = p then 1 else 0"]
      refs(4) [of "\<lambda>r. if lsa_ptr (ref_lsa r) = p then 1 else 0"]
    by (simp add: rid_held_def rid'_def r(6))
  have held: "loc_held (put_id rid' rib) p =
      loc_held rib p + (if lsa_ptr b = p then 1 else 0) - (if lsa_ptr a = p then 1 else 0)" for p
    using put_id_held [OF inv r(2) rid'(1), of p] moved [of p]
    by (cases "lsa_ptr a = p"; cases "lsa_ptr b = p") simp_all
  let ?rc = "lsa_get rc (Some b)"
  have "routable a" using rinv mem by (auto simp: rid_inv_def)
  then have put: "lsa_put ?rc (Some a) = Inr (?rc(lsa_ptr a := ?rc (lsa_ptr a) - 1))"
    using lsa_put_filled routable_facts by blast
  have "loc_rib_mod_lsa a b (rc, rib) =
      Inr (?rc(lsa_ptr a := ?rc (lsa_ptr a) - 1), (put_id rid' rib)\<lparr>lr_recompute := True\<rparr>)"
    by (simp add: loc_rib_mod_lsa_def r(1,4) put rid'_def refs(1) Let_def)
  then show ?thesis using upd held by (auto simp: lsa_get_def)
qed

lemma sample_routable: "length hops < 100 \<Longrightarrow> routable (sample_lsa p n hops)"
  unfolding routable_def sample_path_of lsa_filled_def
  by (simp add: sample_lsa_def lsa_wf_def NODE_ID_LEN_def MAX_SERIALISED_INT_LEN_def sample_path
      compare_attr_keys_def lsa_attr_compare_keys_def)

text \<open>A base with one LSA, of which nobody has been told yet.\<close>

definition sample_rib :: "'v rib_listener list \<Rightarrow> lsa \<Rightarrow> 'v loc_rib" where
  "sample_rib rls l =
     \<lparr>lr_myid = None, lr_ids = [\<lparr>ri_id = lsa_id l, ri_highest_version_seen = 0, ri_lsas = [\<lparr>ref_lsa = l, ref_cost = None\<rparr>],
        ri_best = None, ri_bestcost = RIB_COST_INELIGIBLE\<rparr>], lr_recompute = True, lr_listeners = rls\<rparr>"

lemma sample_rib_inv:
  assumes "routable l"
  shows "loc_inv (sample_rib rls l)" "loc_lsas (sample_rib rls l) = {l}"
  using assms routable_facts [OF assms]
  by (auto simp: loc_inv_def rid_inv_def sample_rib_def rid_lsas_def loc_lsas_def loc_bests_def)

end
