(* ===== verification/Loc_Best.thy ===== *)
theory Loc_Best
  imports Loc_Rib
begin

text \<open>
  What the task \<^verbatim>\<open>recompute\<close> of \<^verbatim>\<open>src/loc_rib.c\<close> achieves: afterwards the best LSA of every node has
  the least cost and, among those, the shortest path; the listener has been told exactly the
  best LSAs and their costs; and the references are balanced.
\<close>

section \<open>Costs depend on the groups only\<close>

text \<open>What the cost of a path depends on; storing costs and best LSAs does not change it.\<close>

definition rid_topo :: "loc_rib_id \<Rightarrow> bytes \<times> u64 \<times> lsa list" where
  "rid_topo rid = (ri_id rid, ri_highest_version_seen rid, map ref_lsa (ri_lsas rid))"

definition rib_topo :: "'v loc_rib \<Rightarrow> bytes option \<times> (bytes \<times> u64 \<times> lsa list) list" where
  "rib_topo rib = (lr_myid rib, map rid_topo (lr_ids rib))"

definition topo_recent :: "(bytes \<times> u64 \<times> lsa list) list \<Rightarrow> bytes \<Rightarrow> lsa option" where
  "topo_recent ts nid =
     (case avl_find (\<lambda>t. memcmp nid (fst t)) ts of None \<Rightarrow> None
      | Some (_, seen, ls) \<Rightarrow> (case avl_max ls of None \<Rightarrow> None
          | Some l \<Rightarrow> if lsa_get_version l < seen then None else Some l))"

lemma avl_find_map: "avl_find k (map f xs) = map_option f (avl_find (\<lambda>x. k (f x)) xs)"
  by (induction xs) auto

lemma find_recent_topo: "find_recent_lsa rib nid = topo_recent (snd (rib_topo rib)) nid"
  by (auto simp: find_recent_lsa_def topo_recent_def rib_topo_def avl_find_map rid_topo_def
      loc_rib_find_id_def avl_max_def last_map split: option.splits)

lemma path_cost_loop_topo:
  assumes "rib_topo rib' = rib_topo rib"
  shows "path_cost_loop rib' nids src tt cost = path_cost_loop rib nids src tt cost"
proof -
  have "find_recent_lsa rib' nid = find_recent_lsa rib nid" for nid
    by (simp only: find_recent_topo assms)
  then show ?thesis
    by (induction rib nids src tt cost rule: path_cost_loop.induct) (simp_all split: option.split)
qed

lemma loc_cost_topo:
  assumes "rib_topo rib' = rib_topo rib" "ri_highest_version_seen rid' = ri_highest_version_seen rid"
  shows "loc_cost rib' rid' l = loc_cost rib rid l"
proof -
  have my: "lr_myid rib' = lr_myid rib" using assms(1) by (simp add: rib_topo_def)
  have rec: "find_recent_lsa rib' nid = find_recent_lsa rib nid" for nid
    by (simp only: find_recent_topo assms)
  have "lsa_path_cost rib' rid' l = lsa_path_cost rib rid l"
    unfolding lsa_path_cost_def assms(2) path_cost_loop_topo [OF assms(1)] rec my ..
  then show ?thesis by (simp add: loc_cost_def)
qed

section \<open>One node\<close>

text \<open>The best LSA of a node: one of least rank, or none if all are ineligible.\<close>

definition is_best :: "'v loc_rib \<Rightarrow> loc_rib_id \<Rightarrow> bool" where
  "is_best rib rid \<longleftrightarrow>
     (case ri_best rid of
        None \<Rightarrow> ri_bestcost rid = RIB_COST_INELIGIBLE \<and> (\<forall>l \<in> rid_lsas rid. loc_cost rib rid l = RIB_COST_INELIGIBLE)
      | Some b \<Rightarrow> b \<in> rid_lsas rid \<and> ri_bestcost rid = loc_cost rib rid b \<and> ri_bestcost rid \<noteq> RIB_COST_INELIGIBLE \<and>
          (\<forall>l \<in> rid_lsas rid. lsa_rank rib rid b \<le> lsa_rank rib rid l))"

lemma is_best_topo:
  assumes "rib_topo rib' = rib_topo rib"
  shows "is_best rib' rid = is_best rib rid"
  unfolding is_best_def lsa_rank_def loc_cost_topo [OF assms refl] ..

text \<open>What the listeners have been told.\<close>

definition rid_told :: "loc_rib_id \<Rightarrow> (lsa \<times> u32) set" where
  "rid_told rid = (\<lambda>b. (b, ri_bestcost rid)) ` set_option (ri_best rid)"

definition loc_told :: "'v loc_rib \<Rightarrow> (lsa \<times> u32) set" where
  "loc_told rib = (\<Union>rid \<in> set (lr_ids rib). rid_told rid)"

lemma loc_told_fst: "fst ` loc_told rib = loc_bests rib"
  by (force simp: loc_told_def rid_told_def loc_bests_def)

lemma put_id_told:
  assumes "loc_inv rib" "rid \<in> set (lr_ids rib)" "ri_id rid' = ri_id rid"
  shows "loc_told (put_id rid' rib) = loc_told rib - rid_told rid \<union> rid_told rid'"
    and "lsa_id l = ri_id rid \<Longrightarrow> lsa_id l \<notin> lsa_id ` fst ` (loc_told rib - rid_told rid)"
proof -
  have own: "lsa_id (fst x) = ri_id r" if "r \<in> set (lr_ids rib)" "x \<in> rid_told r" for r x
    using that assms(1) by (auto simp: loc_inv_def rid_inv_def rid_told_def)
  have same: "r = rid" if "r \<in> set (lr_ids rib)" "ri_id r = ri_id rid" for r
    by (rule loc_ids_inj [OF assms(1) that(1) assms(2) that(2)])
  have other: "x \<notin> rid_told rid" if "r \<in> set (lr_ids rib)" "r \<noteq> rid" "x \<in> rid_told r" for r x
    using own [OF that(1,3)] own [OF assms(2), of x] same [OF that(1)] that(2) by auto
  then show "loc_told (put_id rid' rib) = loc_told rib - rid_told rid \<union> rid_told rid'"
    unfolding loc_told_def put_id_set [OF assms] by blast
  show "lsa_id l \<notin> lsa_id ` fst ` (loc_told rib - rid_told rid)" if "lsa_id l = ri_id rid"
    using that own same unfolding loc_told_def by fastforce
qed

lemma choose_best_rid:
  assumes "rid_inv rid"
  obtains refs best bestcost where
    "choose_best rib rid (ri_lsas rid) None RIB_COST_INELIGIBLE = Inr (refs, best, bestcost)"
    "map ref_lsa refs = map ref_lsa (ri_lsas rid)"
    "is_best rib (rid\<lparr>ri_lsas := refs, ri_best := best, ri_bestcost := bestcost\<rparr>)"
    "set_option best \<subseteq> rid_lsas rid" "best = None \<longleftrightarrow> bestcost = RIB_COST_INELIGIBLE"
proof -
  have "\<forall>ref \<in> set (ri_lsas rid). path_of (ref_lsa ref) \<noteq> None"
    using assms by (auto simp: rid_inv_def rid_lsas_def routable_def)
  from choose_best_from_none [OF this, of rib rid] obtain refs best bestcost where r:
    "choose_best rib rid (ri_lsas rid) None RIB_COST_INELIGIBLE = Inr (refs, best, bestcost)"
    "map ref_lsa refs = map ref_lsa (ri_lsas rid)"
    "best = None \<longrightarrow> bestcost = RIB_COST_INELIGIBLE \<and>
       (\<forall>ref \<in> set (ri_lsas rid). loc_cost rib rid (ref_lsa ref) = RIB_COST_INELIGIBLE)"
    "\<forall>b. best = Some b \<longrightarrow> b \<in> ref_lsa ` set (ri_lsas rid) \<and> loc_cost rib rid b = bestcost \<and>
       bestcost \<noteq> RIB_COST_INELIGIBLE \<and>
       (\<forall>ref \<in> set (ri_lsas rid). lsa_rank rib rid b \<le> lsa_rank rib rid (ref_lsa ref))"
    by blast
  let ?rid = "rid\<lparr>ri_lsas := refs, ri_best := best, ri_bestcost := bestcost\<rparr>"
  have lsas: "rid_lsas ?rid = rid_lsas rid"
    using r(2) by (simp add: rid_lsas_def flip: set_map)
  have cost: "loc_cost rib ?rid l = loc_cost rib rid l" for l by (rule loc_cost_topo) simp_all
  show ?thesis
  proof (rule that [OF r(1,2)])
    show "is_best rib ?rid"
      unfolding is_best_def lsas lsa_rank_def cost
      using r(3,4) by (auto simp: rid_lsas_def lsa_rank_def split: option.split)
  qed (use r(3,4) in \<open>auto simp: rid_lsas_def\<close>)
qed


text \<open>The node that \<^verbatim>\<open>recompute_rid\<close> leaves behind.\<close>

lemma best_rid:
  assumes "loc_inv rib" "rid \<in> set (lr_ids rib)" "map ref_lsa refs = map ref_lsa (ri_lsas rid)"
    and "set_option best \<subseteq> rid_lsas rid" "best = None \<longleftrightarrow> bestcost = RIB_COST_INELIGIBLE"
    and R: "R = rid\<lparr>ri_lsas := refs, ri_best := best, ri_bestcost := bestcost\<rparr>"
  shows "rid_topo R = rid_topo rid" "rid_inv R" "loc_inv (put_id R rib)"
    "loc_lsas (put_id R rib) = loc_lsas rib"
    "loc_held (put_id R rib) p = loc_held rib p + (if Some p = map_option lsa_ptr best then 1 else 0)
       - (if Some p = map_option lsa_ptr (ri_best rid) then 1 else 0)"
proof -
  have fld: "ri_id R = ri_id rid" "ri_best R = best" "ri_bestcost R = bestcost" "ri_lsas R = refs"
    by (simp_all add: R)
  show "rid_topo R = rid_topo rid" using assms(3) by (simp add: rid_topo_def R)
  have lsas: "rid_lsas R = rid_lsas rid" using assms(3) by (simp add: rid_lsas_def fld flip: set_map)
  have rinv: "rid_inv rid" using assms(1,2) by (simp add: loc_inv_def)
  have ord: "avl_ordered compare_lsa_refs xs \<longleftrightarrow> sorted_wrt (\<lambda>a b. compare_lsas a b < 0) (map ref_lsa xs)" for xs
    by (simp add: avl_ordered_def sorted_wrt_map compare_lsa_refs_def)
  show rinv': "rid_inv R"
    using rinv assms(3,4,5) unfolding rid_inv_def lsas ord fld by auto
  note put = put_id_lsas [OF assms(1,2) fld(1)] and own = loc_own [OF assms(1,2)]
  show all: "loc_lsas (put_id R rib) = loc_lsas rib"
    unfolding put lsas using own(1,3) by blast
  have "loc_bests (put_id R rib) \<subseteq> loc_lsas rib \<union> loc_bests rib"
    unfolding put fld using own(3) assms(4) by blast
  then have "inj_on lsa_ptr (loc_lsas (put_id R rib) \<union> loc_bests (put_id R rib))"
    using assms(1) unfolding all loc_inv_def by (blast intro: inj_on_subset)
  then show "loc_inv (put_id R rib)" by (rule put_id_inv [OF assms(1,2) fld(1) rinv'])
  have "map (\<lambda>r. if lsa_ptr (ref_lsa r) = p then 1 else 0 :: nat) refs =
      map (\<lambda>r. if lsa_ptr (ref_lsa r) = p then 1 else 0) (ri_lsas rid)"
    using arg_cong [OF assms(3), of "map (\<lambda>l. if lsa_ptr l = p then 1 else 0 :: nat)"]
    by (simp add: comp_def)
  then have "int (rid_held p R) - int (rid_held p rid) = (if Some p = map_option lsa_ptr best then 1 else 0)
       - (if Some p = map_option lsa_ptr (ri_best rid) then 1 else 0)"
    by (auto simp: rid_held_def fld split: option.split)
  then show "loc_held (put_id R rib) p = loc_held rib p + (if Some p = map_option lsa_ptr best then 1 else 0)
       - (if Some p = map_option lsa_ptr (ri_best rid) then 1 else 0)"
    using put_id_held [OF assms(1,2) fld(1), of p] by linarith
qed

context rib_client_unique
begin

definition loc_pre :: "'w loc_rib \<Rightarrow> 'w world \<Rightarrow> bool" where
  "loc_pre rib w \<longleftrightarrow> loc_inv rib \<and> lr_listeners rib = [rl] \<and> rep (snd w) (loc_told rib) \<and>
     (\<forall>l \<in> loc_lsas rib. ok l) \<and> (\<forall>v p. held v p = 0) \<and> (\<forall>c. c \<noteq> RIB_COST_INELIGIBLE \<longrightarrow> cost_ok c)"

lemma recompute_rid_client:
  assumes pre: "loc_pre rib w" and rid: "rid \<in> set (lr_ids rib)"
  shows "\<exists>R w'. recompute_rid rib rid w = Inr (R, w') \<and> rid_topo R = rid_topo rid \<and> is_best rib R \<and>
    loc_pre (put_id R rib) w' \<and> (\<forall>p. fst w' p - loc_held (put_id R rib) p = fst w p - loc_held rib p)"
proof -
  have inv: "loc_inv rib" and rls: "lr_listeners rib = [rl]" and rep: "rep (snd w) (loc_told rib)"
    and held0: "\<And>v p. held v p = 0"
    using pre by (auto simp: loc_pre_def)
  have rinv: "rid_inv rid" using inv rid by (simp add: loc_inv_def)
  obtain refs best bestcost where ch:
    "choose_best rib rid (ri_lsas rid) None RIB_COST_INELIGIBLE = Inr (refs, best, bestcost)"
    "map ref_lsa refs = map ref_lsa (ri_lsas rid)"
    "is_best rib (rid\<lparr>ri_lsas := refs, ri_best := best, ri_bestcost := bestcost\<rparr>)"
    "set_option best \<subseteq> rid_lsas rid" "best = None \<longleftrightarrow> bestcost = RIB_COST_INELIGIBLE"
    by (rule choose_best_rid [OF rinv])
  define R where "R = rid\<lparr>ri_lsas := refs, ri_best := best, ri_bestcost := bestcost\<rparr>"
  note R = best_rid [OF inv rid ch(2,4,5) R_def]
  note own = loc_own [OF inv rid]
  have fld: "ri_id R = ri_id rid" "rid_told R = (\<lambda>b. (b, bestcost)) ` set_option best"
    by (simp_all add: R_def rid_told_def)
  note told = put_id_told(1) [OF inv rid fld(1)]
  have inj: "inj_on lsa_ptr (loc_lsas rib \<union> loc_bests rib)" using inv by (simp add: loc_inv_def)
  have bestin: "b \<in> loc_lsas rib \<and> lsa_id b = ri_id rid" if "best = Some b" for b
    using ch(4) own(3) that by auto
  have oldin: "a \<in> loc_bests rib \<and> lsa_id a = ri_id rid" if "ri_best rid = Some a" for a
    using own(4) that by auto
  have old_eq: "ri_best rid = Some b" if "best = Some b" "x \<in> loc_bests rib" "lsa_ptr b = lsa_ptr x" for b x
  proof -
    have "b = x" using bestin [OF that(1)] that(2,3) inj by (auto simp: inj_on_def)
    then show ?thesis using own(2) that(2) bestin [OF that(1)] by auto
  qed
  have "\<exists>w'. recompute_rid rib rid w = Inr (R, w') \<and> rep (snd w') (loc_told (put_id R rib)) \<and>
    (\<forall>p. fst w' p - loc_held (put_id R rib) p = fst w p - loc_held rib p)"
  proof (cases "map_option lsa_ptr (ri_best rid) = map_option lsa_ptr best \<and> ri_bestcost rid = bestcost")
    case True
    have "ri_best rid = best"
    proof (cases best)
      case (Some b)
      with True obtain x where x: "ri_best rid = Some x" "lsa_ptr x = lsa_ptr b" by auto
      have "ri_best rid = Some b" using old_eq [OF Some, of x] x oldin by simp
      then show ?thesis by (simp add: Some)
    qed (use True in simp)
    then have same: "R = rid\<lparr>ri_lsas := refs\<rparr>" "rid_told R = rid_told rid"
      using True by (auto simp: R_def rid_told_def)
    have "recompute_rid rib rid w = Inr (R, w)"
      by (simp add: recompute_rid_def ch(1) True same(1) Let_def)
    moreover have "loc_told (put_id R rib) = loc_told rib"
      unfolding told same(2) using rid by (auto simp: loc_told_def)
    ultimately show ?thesis using rep R(5) by (simp add: \<open>ri_best rid = best\<close>)
  next
    case False
    let ?w = "(lsa_get (fst w) best, snd w)"
    have "\<exists>w'. notify_listeners [rl] (ri_best rid) (ri_bestcost rid) best bestcost ?w = Inr w' \<and>
      balanced held ?w w' \<and>
      rep (snd w') (loc_told rib - (\<lambda>a. (a, ri_bestcost rid)) ` set_option (ri_best rid) \<union>
        (\<lambda>b. (b, bestcost)) ` set_option best)"
    proof (rule unique_notify)
      show "\<forall>a \<in> set_option (ri_best rid). (a, ri_bestcost rid) \<in> loc_told rib"
        using rid by (auto simp: loc_told_def rid_told_def)
      show "\<forall>b \<in> set_option best. ok b \<and> cost_ok bestcost \<and>
          (ri_best rid = Some b \<or> fresh_lsa held (snd ?w) (loc_told rib) b)"
        using pre ch(5) bestin old_eq by (auto simp: loc_pre_def fresh_lsa_def loc_told_fst)
      show "\<forall>l \<in> set_option (ri_best rid) \<union> set_option best.
          lsa_id l \<notin> lsa_id ` fst ` (loc_told rib - (\<lambda>a. (a, ri_bestcost rid)) ` set_option (ri_best rid))"
        using put_id_told(2) [OF inv rid fld(1)] bestin oldin unfolding rid_told_def by auto
    qed (use rep bestin oldin in auto)
    then obtain rc v where n: "notify_listeners [rl] (ri_best rid) (ri_bestcost rid) best bestcost ?w = Inr (rc, v)"
      "balanced held ?w (rc, v)" "rep v (loc_told (put_id R rib))"
      unfolding told fld(2) rid_told_def [of rid] by auto
    have rc: "rc p = lsa_get (fst w) best p" for p using n(2) held0 by (simp add: balanced_def)
    obtain rc' where put: "lsa_put rc (ri_best rid) = Inr rc'"
      "\<And>p. rc' p = rc p - (if Some p = map_option lsa_ptr (ri_best rid) then 1 else 0)"
    proof (cases "ri_best rid")
      case (Some a)
      then have "routable a" using rinv by (auto simp: rid_inv_def)
      then have "lsa_put rc (Some a) = Inr (rc(lsa_ptr a := rc (lsa_ptr a) - 1))"
        using lsa_put_filled routable_facts by blast
      then show ?thesis using Some by (intro that) auto
    qed (auto intro: that)
    have "recompute_rid rib rid w = Inr (R, rc', v)"
      unfolding recompute_rid_def Let_def ch(1) obind_simps prod.case if_not_P [OF False]
      by (simp add: rls n(1) put(1) R_def)
    moreover have "lsa_get (fst w) best p = fst w p + (if Some p = map_option lsa_ptr best then 1 else 0)" for p
      by (cases best) (auto simp: lsa_get_def)
    ultimately show ?thesis using n(3) R(5) by (simp add: put(2) rc)
  qed
  then obtain w' where w': "recompute_rid rib rid w = Inr (R, w')" "rep (snd w') (loc_told (put_id R rib))"
    "\<forall>p. fst w' p - loc_held (put_id R rib) p = fst w p - loc_held rib p" by blast
  have "lr_listeners (put_id R rib) = [rl]" using rls by (simp add: put_id_def)
  then have "loc_pre (put_id R rib) w'" using pre R(3,4) w'(2) by (simp add: loc_pre_def)
  then show ?thesis using w' R(1) ch(3) by (auto simp: R_def)
qed

end

section \<open>All nodes\<close>

lemma put_id_nth:
  assumes "loc_inv rib" "i < length (lr_ids rib)" "ri_id R = ri_id (lr_ids rib ! i)"
  shows "rib\<lparr>lr_ids := (lr_ids rib)[i := R]\<rparr> = put_id R rib"
proof -
  have dist: "distinct (lr_ids rib)"
    by (rule loc_ids.ordered_distinct) (use assms(1) loc_inv_ids in \<open>auto simp: loc_inv_def\<close>)
  have "(lr_ids rib)[i := R] ! j = (if ri_id (lr_ids rib ! j) = ri_id R then R else lr_ids rib ! j)"
    if "j < length (lr_ids rib)" for j
  proof (cases "j = i")
    case False
    then have "lr_ids rib ! j \<noteq> lr_ids rib ! i" using that dist assms(2) by (simp add: nth_eq_iff_index_eq)
    then have "ri_id (lr_ids rib ! j) \<noteq> ri_id R"
      using loc_ids_inj [OF assms(1), of "lr_ids rib ! j" "lr_ids rib ! i"] that assms(2,3) by auto
    with False show ?thesis by simp
  qed (use that assms(3) in simp)
  then have "(lr_ids rib)[i := R] = map (\<lambda>r. if ri_id r = ri_id R then R else r) (lr_ids rib)"
    by (intro nth_equalityI) simp_all
  then show ?thesis by (simp add: put_id_def)
qed

lemma rid_topo_lsas: "rid_topo R = rid_topo rid \<Longrightarrow> rid_lsas R = rid_lsas rid"
  by (simp add: rid_topo_def rid_lsas_def flip: set_map)

lemma rib_topo_lsas:
  fixes rib rib' :: "'v loc_rib"
  assumes "rib_topo rib' = rib_topo rib"
  shows "loc_lsas rib' = loc_lsas rib"
proof -
  have "loc_lsas rib = (\<Union>t \<in> set (snd (rib_topo rib)). set (snd (snd t)))" for rib :: "'v loc_rib"
    by (auto simp: loc_lsas_def rib_topo_def rid_topo_def rid_lsas_def)
  then show ?thesis by (simp add: assms)
qed

lemma put_id_topo:
  assumes "i < length (lr_ids rib)" "rid_topo R = rid_topo (lr_ids rib ! i)"
  shows "rib_topo (rib\<lparr>lr_ids := (lr_ids rib)[i := R]\<rparr>) = rib_topo rib"
  using assms by (simp add: rib_topo_def map_update list_update_same_conv)

context rib_client_unique
begin

lemma recompute_upto_client:
  assumes pre: "loc_pre rib w" and "n \<le> length (lr_ids rib)"
  shows "\<exists>rib' w'. ofold recompute_nth [0..<n] (rib, w) = Inr (rib', w') \<and> loc_pre rib' w' \<and>
    rib_topo rib' = rib_topo rib \<and> (\<forall>j < n. is_best rib (lr_ids rib' ! j)) \<and>
    (\<forall>p. fst w' p - loc_held rib' p = fst w p - loc_held rib p) \<and> lr_recompute rib' = lr_recompute rib"
  using assms(2)
proof (induction n)
  case (Suc n)
  then obtain rib1 w1 where 1: "ofold recompute_nth [0..<n] (rib, w) = Inr (rib1, w1)" "loc_pre rib1 w1"
    "rib_topo rib1 = rib_topo rib" "\<forall>j < n. is_best rib (lr_ids rib1 ! j)"
    "\<forall>p. fst w1 p - loc_held rib1 p = fst w p - loc_held rib p" "lr_recompute rib1 = lr_recompute rib" by auto
  have "length (lr_ids rib1) = length (lr_ids rib)"
    using arg_cong [OF 1(3), of "\<lambda>t. length (snd t)"] by (simp add: rib_topo_def)
  then have n: "n < length (lr_ids rib1)" using Suc.prems by simp
  have inv: "loc_inv rib1" using 1(2) by (simp add: loc_pre_def)
  obtain R w2 where R: "recompute_rid rib1 (lr_ids rib1 ! n) w1 = Inr (R, w2)"
    "rid_topo R = rid_topo (lr_ids rib1 ! n)" "is_best rib1 R" "loc_pre (put_id R rib1) w2"
    "\<forall>p. fst w2 p - loc_held (put_id R rib1) p = fst w1 p - loc_held rib1 p"
    using recompute_rid_client [OF 1(2) nth_mem [OF n]] by blast
  have idR: "ri_id R = ri_id (lr_ids rib1 ! n)" using R(2) by (simp add: rid_topo_def)
  let ?rib = "rib1\<lparr>lr_ids := (lr_ids rib1)[n := R]\<rparr>"
  note eq = put_id_nth [OF inv n idR]
  have "ofold recompute_nth [0..<Suc n] (rib, w) = Inr (?rib, w2)"
    using 1(1) R(1) by (simp add: ofold_append recompute_nth_def)
  moreover have "\<forall>j < Suc n. is_best rib (lr_ids ?rib ! j)"
    using 1(4) n R(3) is_best_topo [OF 1(3)] by (auto simp: less_Suc_eq nth_list_update)
  ultimately show ?case
    using R(4,5) 1(3,5,6) put_id_topo [OF n R(2)] by (auto simp: eq [symmetric])
qed (use pre in auto)

lemma recompute_client:
  assumes pre: "loc_pre rib w"
  shows "\<exists>rib' w'. recompute_rib rib w = Inr (rib', w') \<and> loc_pre rib' w' \<and> rib_topo rib' = rib_topo rib \<and>
    (\<forall>rid \<in> set (lr_ids rib'). is_best rib rid) \<and>
    (\<forall>p. fst w' p - loc_held rib' p = fst w p - loc_held rib p) \<and> lr_recompute rib' = lr_recompute rib"
proof -
  obtain rib' w' where r: "ofold recompute_nth [0..<length (lr_ids rib)] (rib, w) = Inr (rib', w')" "loc_pre rib' w'"
    "rib_topo rib' = rib_topo rib" "\<forall>j < length (lr_ids rib). is_best rib (lr_ids rib' ! j)"
    "\<forall>p. fst w' p - loc_held rib' p = fst w p - loc_held rib p" "lr_recompute rib' = lr_recompute rib"
    using recompute_upto_client [OF pre order_refl] by blast
  have "length (lr_ids rib') = length (lr_ids rib)"
    using arg_cong [OF r(3), of "\<lambda>t. length (snd t)"] by (simp add: rib_topo_def)
  then have "\<forall>rid \<in> set (lr_ids rib'). is_best rib rid" using r(4) by (auto simp: in_set_conv_nth)
  then show ?thesis using r by (auto simp: recompute_rib_def)
qed

end

end
