(* ===== verification/Rt_Builder.thy ===== *)
theory Rt_Builder
  imports Util Loc_Best
begin

text \<open>
  \<^verbatim>\<open>src/rt_builder.c\<close>: turns the best LSAs of a local routing base into routes.  The builder is a
  listener of the base; it calls the three functions \<^verbatim>\<open>rt_add\<close>, \<^verbatim>\<open>rt_mod\<close>, \<^verbatim>\<open>rt_del\<close> of its user
  on the state \<open>'c\<close> behind their cookie.  The specification is the route table: replayed on a
  table, the calls never add a route twice nor touch one that is not there, and the table is
  always the one that the best LSAs ask for.
\<close>

section \<open>The code\<close>

record 'c rt_builder =
  rb_myid :: "bytes option"
  rb_rt_add :: "bytes \<Rightarrow> bytes option \<Rightarrow> 'c \<Rightarrow> 'c"
  rb_rt_mod :: "bytes \<Rightarrow> bytes option \<Rightarrow> bytes option \<Rightarrow> 'c \<Rightarrow> 'c"
  rb_rt_del :: "bytes \<Rightarrow> bytes option \<Rightarrow> 'c \<Rightarrow> 'c"

definition rt_map :: "'c rt_builder \<Rightarrow> lsa \<Rightarrow> u32 \<Rightarrow> lsa option outcome" where
  "rt_map rb l cost =
     (if cost = RIB_COST_INELIGIBLE then Inl Abort
      else if cost = RIB_COST_UNREACHABLE then Inr None
      else case lsa_find_attr l LSA_ATTR_TYPE_ADV_PATH [] of None \<Rightarrow> Inl Abort
      | Some attr \<Rightarrow>
          if attr_datalen attr = 0 then Inr None
          else if (case (rb_myid rb, attr_data attr) of
                     (Some myid, Attr_bytes d) \<Rightarrow> attr_datalen attr = NODE_ID_LEN \<and> memcmp d myid = 0
                   | _ \<Rightarrow> False) then Inr None
          else Inr (Some l))"

text \<open>
  The address of the next hop is cut out of the path; a path that is shorter than that, or a
  set, is read beyond its end.
\<close>

definition rt_addr :: "bytes \<Rightarrow> bytes outcome" where
  "rt_addr d = (if length d < (NODE_ID_LEN - 12) div 2 + 12 then Inl Out_of_bounds
     else Inr (v6_global_addr_from_key_id d))"

definition getnh :: "'c rt_builder \<Rightarrow> lsa \<Rightarrow> bytes option outcome" where
  "getnh rb l =
     (case lsa_find_attr l LSA_ATTR_TYPE_ADV_PATH [] of None \<Rightarrow> Inl Abort
      | Some attr \<Rightarrow>
          (case attr_data attr of
             Attr_set _ \<Rightarrow> Inl Out_of_bounds
           | Attr_bytes d \<Rightarrow>
               let d = (case rb_myid rb of
                          Some myid \<Rightarrow> if length d \<ge> NODE_ID_LEN \<and> memcmp (take NODE_ID_LEN d) myid = 0
                            then drop NODE_ID_LEN d else d
                        | None \<Rightarrow> d)
               in if length d = 0 then Inl Abort
                  else if length d = NODE_ID_LEN then Inr None
                  else obind (rt_addr d) (\<lambda>a. Inr (Some a))))"

definition rt_add :: "'c rt_builder \<Rightarrow> lsa \<Rightarrow> 'c \<Rightarrow> 'c outcome" where
  "rt_add rb l c =
     (let dest = v6_global_addr_from_key_id (lsa_id l)
      in obind (getnh rb l) (\<lambda>nh. Inr (rb_rt_add rb dest nh c)))"

definition rt_mod :: "'c rt_builder \<Rightarrow> lsa \<Rightarrow> lsa \<Rightarrow> 'c \<Rightarrow> 'c outcome" where
  "rt_mod rb old new c =
     (let dest = v6_global_addr_from_key_id (lsa_id new)
      in obind (getnh rb old) (\<lambda>nhold.
         obind (getnh rb new) (\<lambda>nhnew.
         if nhold = None \<and> nhnew = None then Inr c
         else if (case (nhold, nhnew) of (Some a, Some b) \<Rightarrow> memcmp a b = 0 | _ \<Rightarrow> False) then Inr c
         else Inr (rb_rt_mod rb dest nhold nhnew c))))"

definition rt_del :: "'c rt_builder \<Rightarrow> lsa \<Rightarrow> 'c \<Rightarrow> 'c outcome" where
  "rt_del rb l c =
     (let dest = v6_global_addr_from_key_id (lsa_id l)
      in obind (getnh rb l) (\<lambda>nh. Inr (rb_rt_del rb dest nh c)))"

definition rt_lsa_add :: "'c rt_builder \<Rightarrow> lsa \<Rightarrow> u32 \<Rightarrow> 'c \<Rightarrow> 'c outcome" where
  "rt_lsa_add rb a cost c =
     obind (rt_map rb a cost) (\<lambda>a. case a of Some a \<Rightarrow> rt_add rb a c | None \<Rightarrow> Inr c)"

definition rt_lsa_mod :: "'c rt_builder \<Rightarrow> lsa \<Rightarrow> u32 \<Rightarrow> lsa \<Rightarrow> u32 \<Rightarrow> 'c \<Rightarrow> 'c outcome" where
  "rt_lsa_mod rb a acost b bcost c =
     obind (rt_map rb a acost) (\<lambda>a.
     obind (rt_map rb b bcost) (\<lambda>b.
     case (a, b) of
       (None, Some b) \<Rightarrow> rt_add rb b c
     | (Some a, Some b) \<Rightarrow> rt_mod rb a b c
     | (Some a, None) \<Rightarrow> rt_del rb a c
     | (None, None) \<Rightarrow> Inr c))"

definition rt_lsa_del :: "'c rt_builder \<Rightarrow> lsa \<Rightarrow> u32 \<Rightarrow> 'c \<Rightarrow> 'c outcome" where
  "rt_lsa_del rb a cost c =
     obind (rt_map rb a cost) (\<lambda>a. case a of Some a \<Rightarrow> rt_del rb a c | None \<Rightarrow> Inr c)"

text \<open>The listener; it takes no references.\<close>

definition rt_builder_rl :: "'c rt_builder \<Rightarrow> 'c rib_listener" where
  "rt_builder_rl rb =
     \<lparr>rl_lsa_add = (\<lambda>a cost. on_world (rt_lsa_add rb a cost)),
      rl_lsa_mod = (\<lambda>a acost b bcost. on_world (rt_lsa_mod rb a acost b bcost)),
      rl_lsa_del = (\<lambda>a cost. on_world (rt_lsa_del rb a cost))\<rparr>"

definition rt_builder_init :: "'c rt_builder \<Rightarrow> 'c loc_rib \<Rightarrow> 'c loc_rib" where
  "rt_builder_init rb rib = loc_rib_listener_register rib (rt_builder_rl rb)"

text \<open>\<open>i\<close> is the place of the builder's listener in the list.\<close>

definition rt_builder_deinit :: "nat \<Rightarrow> 'c loc_rib \<Rightarrow> 'c loc_rib" where
  "rt_builder_deinit i rib = loc_rib_listener_unregister rib i"

section \<open>The routes of an LSA\<close>

text \<open>
  The route for an LSA, if it is to have one: directly reachable (\<open>Some None\<close>) or by the address
  of the first node of the path.
\<close>

definition rt_hops :: "bytes option \<Rightarrow> lsa \<Rightarrow> bytes list" where
  "rt_hops myid l =
     (case path_of l of None \<Rightarrow> []
      | Some d \<Rightarrow> (case (path_ids d, myid) of
                     (x # xs, Some m) \<Rightarrow> if x = m then xs else x # xs
                   | (xs, _) \<Rightarrow> xs))"

definition rt_route :: "bytes option \<Rightarrow> lsa \<Rightarrow> u32 \<Rightarrow> bytes option option" where
  "rt_route myid l cost =
     (if cost = RIB_COST_UNREACHABLE then None
      else case rt_hops myid l of
        [] \<Rightarrow> None
      | [x] \<Rightarrow> Some None
      | x # _ \<Rightarrow> Some (Some (v6_global_addr_from_key_id x)))"

datatype rt_op = Rt_add bytes "bytes option" | Rt_mod bytes "bytes option" "bytes option" | Rt_del bytes "bytes option"

text \<open>A user that records the calls.\<close>

definition rt_recorder :: "bytes option \<Rightarrow> rt_op list rt_builder" where
  "rt_recorder myid =
     \<lparr>rb_myid = myid, rb_rt_add = (\<lambda>dest nh ops. ops @ [Rt_add dest nh]),
      rb_rt_mod = (\<lambda>dest old new ops. ops @ [Rt_mod dest old new]),
      rb_rt_del = (\<lambda>dest nh ops. ops @ [Rt_del dest nh])\<rparr>"

type_synonym rt_table = "bytes \<Rightarrow> bytes option option"

text \<open>A call that does not fit the table has no result.\<close>

fun rt_replay1 :: "rt_op \<Rightarrow> rt_table \<Rightarrow> rt_table option" where
  "rt_replay1 (Rt_add dest nh) tbl = (if tbl dest = None then Some (tbl(dest := Some nh)) else None)"
| "rt_replay1 (Rt_mod dest old new) tbl =
     (if tbl dest = Some old \<and> old \<noteq> new then Some (tbl(dest := Some new)) else None)"
| "rt_replay1 (Rt_del dest nh) tbl = (if tbl dest = Some nh then Some (tbl(dest := None)) else None)"

fun rt_replay :: "rt_op list \<Rightarrow> rt_table \<Rightarrow> rt_table option" where
  "rt_replay [] tbl = Some tbl"
| "rt_replay (op # ops) tbl = (case rt_replay1 op tbl of Some tbl \<Rightarrow> rt_replay ops tbl | None \<Rightarrow> None)"

lemma rt_replay_append:
  "rt_replay (ops @ ops') tbl = (case rt_replay ops tbl of Some tbl \<Rightarrow> rt_replay ops' tbl | None \<Rightarrow> None)"
  by (induction ops arbitrary: tbl) (auto split: option.split)


text \<open>What the code computes is the route above.\<close>

definition myid_ok :: "bytes option \<Rightarrow> bool" where
  "myid_ok myid \<longleftrightarrow> (\<forall>m. myid = Some m \<longrightarrow> id_ok m)"

lemma path_ids_Cons:
  assumes "length d mod NODE_ID_LEN = 0" "d \<noteq> []"
  shows "path_ids d = take NODE_ID_LEN d # path_ids (drop NODE_ID_LEN d)" "id_ok (take NODE_ID_LEN d)"
    "path_ids (drop NODE_ID_LEN d) = [] \<longleftrightarrow> length d = NODE_ID_LEN"
proof -
  show "path_ids d = take NODE_ID_LEN d # path_ids (drop NODE_ID_LEN d)"
    using assms(2) by (subst path_ids.simps) simp
  show "id_ok (take NODE_ID_LEN d)" using path_step(1) [OF assms] by (simp add: id_ok_def)
  have "path_ids (drop NODE_ID_LEN d) = [] \<longleftrightarrow> drop NODE_ID_LEN d = []" by (subst path_ids.simps) simp
  then show "path_ids (drop NODE_ID_LEN d) = [] \<longleftrightarrow> length d = NODE_ID_LEN"
    using path_step(1) [OF assms] by auto
qed

lemma rt_map_eq:
  assumes "path_of l = Some d" "myid_ok (rb_myid rb)" "cost \<noteq> RIB_COST_INELIGIBLE"
  shows "rt_map rb l cost = Inr (if rt_route (rb_myid rb) l cost = None then None else Some l)"
proof -
  obtain a where a: "lsa_find_attr l LSA_ATTR_TYPE_ADV_PATH [] = Some a" "attr_data a = Attr_bytes d"
    "attr_datalen a = length d" "length d mod NODE_ID_LEN = 0"
    using assms(1) by (auto simp: path_of_attr)
  show ?thesis
  proof (cases "d = []")
    case True
    then show ?thesis using a assms by (simp add: rt_map_def rt_route_def rt_hops_def)
  next
    case False
    note ids = path_ids_Cons [OF a(4) False]
    have none: "rt_hops (rb_myid rb) l = [] \<longleftrightarrow>
        (\<exists>m. rb_myid rb = Some m \<and> length d = NODE_ID_LEN \<and> take NODE_ID_LEN d = m)"
      using ids by (auto simp: rt_hops_def assms(1) split: option.split)
    have cmp: "length d = NODE_ID_LEN \<and> memcmp d m = 0 \<longleftrightarrow> length d = NODE_ID_LEN \<and> take NODE_ID_LEN d = m"
      if "rb_myid rb = Some m" for m
      using assms(2) that memcmp_id [of d m] by (auto simp: myid_ok_def id_ok_def)
    have "rt_map rb l cost = (if cost = RIB_COST_UNREACHABLE then Inr None
        else if rt_hops (rb_myid rb) l = [] then Inr None else Inr (Some l))"
      unfolding none using a assms(3) False cmp by (auto simp: rt_map_def split: option.split)
    then show ?thesis by (simp add: rt_route_def split: list.split)
  qed
qed

lemma getnh_eq:
  assumes "path_of l = Some d" "myid_ok (rb_myid rb)" "rt_route (rb_myid rb) l cost = Some nh"
  shows "getnh rb l = Inr nh"
proof -
  obtain a where a: "lsa_find_attr l LSA_ATTR_TYPE_ADV_PATH [] = Some a" "attr_data a = Attr_bytes d"
    "length d mod NODE_ID_LEN = 0"
    using assms(1) by (auto simp: path_of_attr)
  define e where "e = (case rb_myid rb of
      Some myid \<Rightarrow> if length d \<ge> NODE_ID_LEN \<and> memcmp (take NODE_ID_LEN d) myid = 0 then drop NODE_ID_LEN d else d
    | None \<Rightarrow> d)"
  have "d \<noteq> []" using assms(1,3) by (auto simp: rt_route_def rt_hops_def split: if_splits)
  note ids = path_ids_Cons [OF a(3) this] and step = path_step [OF a(3) this]
  have "path_ids e = rt_hops (rb_myid rb) l \<and> length e mod NODE_ID_LEN = 0"
  proof (cases "rb_myid rb")
    case None
    then show ?thesis
      using a(3) by (simp_all add: e_def rt_hops_def assms(1) split: list.split)
  next
    case (Some m)
    then have "memcmp (take NODE_ID_LEN d) m = 0 \<longleftrightarrow> take NODE_ID_LEN d = m"
      using assms(2) ids(2) by (intro memcmp_id) (simp_all add: myid_ok_def)
    then show ?thesis
      using Some a(3) step by (simp_all add: e_def rt_hops_def assms(1) ids(1))
  qed
  then have e: "path_ids e = rt_hops (rb_myid rb) l" "length e mod NODE_ID_LEN = 0" by simp_all
  then have "e \<noteq> []" using assms(3) by (auto simp: rt_route_def split: if_splits)
  note eids = path_ids_Cons [OF e(2) this] and estep = path_step [OF e(2) this]
  have nh: "nh = (if length e = NODE_ID_LEN then None else Some (v6_global_addr_from_key_id (take NODE_ID_LEN e)))"
    using assms(3) eids(3) e(1) [unfolded eids(1), symmetric]
    by (auto simp: rt_route_def split: if_splits list.splits)
  have "v6_global_addr_from_key_id (take NODE_ID_LEN e) = v6_global_addr_from_key_id e"
    by (simp add: v6_global_addr_from_key_id_def drop_take NODE_ID_LEN_def)
  moreover have "getnh rb l = (if length e = 0 then Inl Abort else if length e = NODE_ID_LEN then Inr None
      else obind (rt_addr e) (\<lambda>a. Inr (Some a)))"
    by (simp add: getnh_def a(1,2) e_def Let_def)
  ultimately show ?thesis using nh estep(1) \<open>e \<noteq> []\<close> by (simp add: rt_addr_def NODE_ID_LEN_def)
qed


section \<open>The calls follow the best LSAs\<close>

text \<open>The calls for a destination whose route changes.\<close>

definition rt_change :: "bytes \<Rightarrow> bytes option option \<Rightarrow> bytes option option \<Rightarrow> rt_op list" where
  "rt_change dest old new =
     (case (old, new) of
        (None, Some nh) \<Rightarrow> [Rt_add dest nh]
      | (Some a, Some b) \<Rightarrow> if a = b then [] else [Rt_mod dest a b]
      | (Some nh, None) \<Rightarrow> [Rt_del dest nh]
      | (None, None) \<Rightarrow> [])"

lemma rt_replay_change: "tbl dest = old \<Longrightarrow> rt_replay (rt_change dest old new) tbl = Some (tbl(dest := new))"
  by (auto simp: rt_change_def fun_upd_idem_iff split: option.split)

lemma rt_route_length: "rt_route myid l cost = Some (Some a) \<Longrightarrow> length a = 16"
proof -
  assume a: "rt_route myid l cost = Some (Some a)"
  then obtain x xs where x: "rt_hops myid l = x # xs" "a = v6_global_addr_from_key_id x"
    by (auto simp: rt_route_def split: if_splits list.splits)
  then obtain d where d: "path_of l = Some d" by (auto simp: rt_hops_def split: option.splits)
  then have "length d mod NODE_ID_LEN = 0" by (auto simp: path_of_attr)
  moreover have "set (rt_hops myid l) \<subseteq> set (path_ids d)"
    by (cases "path_ids d"; cases myid) (auto simp: rt_hops_def d)
  moreover have "x \<in> set (rt_hops myid l)" using x(1) by simp
  ultimately have "length x = NODE_ID_LEN" using path_ids_length [of d x] by auto
  then show "length a = 16" by (simp add: x(2) v6_addr_length)
qed

lemma rt_recorder_simps [simp]:
  "rb_myid (rt_recorder myid) = myid" "rb_rt_add (rt_recorder myid) dest nh ops = ops @ [Rt_add dest nh]"
  "rb_rt_mod (rt_recorder myid) dest a b ops = ops @ [Rt_mod dest a b]"
  "rb_rt_del (rt_recorder myid) dest nh ops = ops @ [Rt_del dest nh]"
  by (simp_all add: rt_recorder_def)

definition rt_told_ok :: "lsa \<Rightarrow> u32 \<Rightarrow> bool" where
  "rt_told_ok l cost \<longleftrightarrow> path_of l \<noteq> None \<and> cost \<noteq> RIB_COST_INELIGIBLE"

lemma rt_mod_ops:
  assumes "rt_told_ok a c" "rt_told_ok b d" "myid_ok myid" "lsa_id b = lsa_id a"
  shows "rt_lsa_mod (rt_recorder myid) a c b d ops = Inr (ops @
    rt_change (v6_global_addr_from_key_id (lsa_id a)) (rt_route myid a c) (rt_route myid b d))"
proof -
  from assms(1,2) obtain pa pb where p: "path_of a = Some pa" "path_of b = Some pb"
    "c \<noteq> RIB_COST_INELIGIBLE" "d \<noteq> RIB_COST_INELIGIBLE"
    by (auto simp: rt_told_ok_def)
  let ?rb = "rt_recorder myid"
  have my: "myid_ok (rb_myid ?rb)" using assms(3) by simp
  note ma = rt_map_eq [OF p(1) my p(3), simplified] and mb = rt_map_eq [OF p(2) my p(4), simplified]
  have na: "getnh ?rb a = Inr nh" if "rt_route myid a c = Some nh" for nh
    using getnh_eq [OF p(1) my, of c nh] that by simp
  have nb: "getnh ?rb b = Inr nh" if "rt_route myid b d = Some nh" for nh
    using getnh_eq [OF p(2) my, of d nh] that by simp
  show ?thesis
  proof (cases "rt_route myid a c"; cases "rt_route myid b d")
    fix x y assume xy: "rt_route myid a c = Some x" "rt_route myid b d = Some y"
    have "memcmp u v = 0 \<longleftrightarrow> u = v" if "x = Some u" "y = Some v" for u v
      using xy that by (intro memcmp_eq_0) (simp add: rt_route_length)
    with xy show ?thesis
      by (cases x; cases y)
        (auto simp: rt_lsa_mod_def ma mb rt_change_def rt_mod_def na nb assms(4) Let_def)
  qed (simp_all add: rt_lsa_mod_def ma mb rt_change_def rt_add_def rt_del_def na nb assms(4))
qed

lemma rt_add_del_ops:
  assumes "rt_told_ok a c" "myid_ok myid"
  shows "rt_lsa_add (rt_recorder myid) a c ops =
      Inr (ops @ rt_change (v6_global_addr_from_key_id (lsa_id a)) None (rt_route myid a c))"
    "rt_lsa_del (rt_recorder myid) a c ops =
      Inr (ops @ rt_change (v6_global_addr_from_key_id (lsa_id a)) (rt_route myid a c) None)"
proof -
  from assms(1) obtain pa where p: "path_of a = Some pa" "c \<noteq> RIB_COST_INELIGIBLE" by (auto simp: rt_told_ok_def)
  have my: "myid_ok (rb_myid (rt_recorder myid))" using assms(2) by simp
  note ma = rt_map_eq [OF p(1) my p(2), simplified]
  have na: "getnh (rt_recorder myid) a = Inr nh" if "rt_route myid a c = Some nh" for nh
    using getnh_eq [OF p(1) my, of c nh] that by simp
  show "rt_lsa_add (rt_recorder myid) a c ops =
      Inr (ops @ rt_change (v6_global_addr_from_key_id (lsa_id a)) None (rt_route myid a c))"
    by (cases "rt_route myid a c") (simp_all add: rt_lsa_add_def ma rt_change_def rt_add_def na)
  show "rt_lsa_del (rt_recorder myid) a c ops =
      Inr (ops @ rt_change (v6_global_addr_from_key_id (lsa_id a)) (rt_route myid a c) None)"
    by (cases "rt_route myid a c") (simp_all add: rt_lsa_del_def ma rt_change_def rt_del_def na)
qed

text \<open>
  The table the LSAs ask for.  The addresses are cut out of the ids: \<open>S\<close> is a set of ids on which
  they are distinct.
\<close>

definition rt_wants :: "bytes option \<Rightarrow> (lsa \<times> u32) set \<Rightarrow> rt_table \<Rightarrow> bool" where
  "rt_wants myid V tbl \<longleftrightarrow> (\<forall>dest nh. tbl dest = Some nh \<longleftrightarrow>
     (\<exists>(l, c) \<in> V. rt_route myid l c = Some nh \<and> v6_global_addr_from_key_id (lsa_id l) = dest))"

definition rt_view_ok :: "bytes set \<Rightarrow> (lsa \<times> u32) set \<Rightarrow> bool" where
  "rt_view_ok S V \<longleftrightarrow> inj_on v6_global_addr_from_key_id S \<and> lsa_id ` fst ` V \<subseteq> S \<and>
     inj_on (\<lambda>x. lsa_id (fst x)) V \<and> (\<forall>(l, c) \<in> V. rt_told_ok l c)"

definition rt_rep :: "bytes option \<Rightarrow> bytes set \<Rightarrow> rt_op list \<Rightarrow> (lsa \<times> u32) set \<Rightarrow> bool" where
  "rt_rep myid S ops V \<longleftrightarrow> myid_ok myid \<and> rt_view_ok S V \<and>
     (\<exists>tbl. rt_replay ops (\<lambda>_. None) = Some tbl \<and> rt_wants myid V tbl)"

lemma rt_viewD:
  assumes "rt_view_ok S V" "(l, c) \<in> V"
  shows "lsa_id l \<in> S" "rt_told_ok l c"
    "nid \<in> S \<Longrightarrow> v6_global_addr_from_key_id (lsa_id l) = v6_global_addr_from_key_id nid \<Longrightarrow> lsa_id l = nid"
proof -
  show S: "lsa_id l \<in> S" using assms by (force simp: rt_view_ok_def)
  show "rt_told_ok l c" using assms by (auto simp: rt_view_ok_def)
  show "nid \<in> S \<Longrightarrow> v6_global_addr_from_key_id (lsa_id l) = v6_global_addr_from_key_id nid \<Longrightarrow> lsa_id l = nid"
    using assms(1) S by (auto simp: rt_view_ok_def dest: inj_onD)
qed

text \<open>One node \<open>nid\<close> is told of anew: \<open>X\<close> is what was known of it, \<open>Y\<close> what is now.\<close>

definition rt_own :: "bytes option \<Rightarrow> (lsa \<times> u32) option \<Rightarrow> bytes option option" where
  "rt_own myid X = (case X of None \<Rightarrow> None | Some (l, c) \<Rightarrow> rt_route myid l c)"

lemma told_id: "x \<in> A \<Longrightarrow> lsa_id (fst x) \<in> lsa_id ` fst ` A"
  by simp

lemma rt_wants_own:
  assumes "rt_view_ok S V" "rt_wants myid V tbl" "nid \<in> S" "set_option X \<subseteq> V"
    and "\<forall>x \<in> set_option X. lsa_id (fst x) = nid" "nid \<notin> lsa_id ` fst ` (V - set_option X)"
  shows "tbl (v6_global_addr_from_key_id nid) = rt_own myid X"
proof -
  have own: "(l, c) \<in> set_option X" if "(l, c) \<in> V" "v6_global_addr_from_key_id (lsa_id l) = v6_global_addr_from_key_id nid" for l c
    using rt_viewD(3) [OF assms(1) that(1) assms(3) that(2)] told_id [of "(l, c)" "V - set_option X"] assms(6) that(1)
    by auto
  have addr: "v6_global_addr_from_key_id (lsa_id l) = v6_global_addr_from_key_id nid" if "(l, c) \<in> set_option X" for l c
    using assms(5) that by fastforce
  have "tbl (v6_global_addr_from_key_id nid) = Some nh \<longleftrightarrow> (\<exists>(l, c) \<in> set_option X. rt_route myid l c = Some nh)" for nh
    using assms(2,4) own addr unfolding rt_wants_def by blast
  then have "tbl (v6_global_addr_from_key_id nid) = Some nh \<longleftrightarrow> rt_own myid X = Some nh" for nh
    by (cases X) (auto simp: rt_own_def)
  then show ?thesis by (metis not_Some_eq)
qed

lemma rt_view_change:
  assumes "rt_rep myid S ops V" "nid \<in> S" "set_option X \<subseteq> V"
    and "\<forall>x \<in> set_option X \<union> set_option Y. lsa_id (fst x) = nid" "nid \<notin> lsa_id ` fst ` (V - set_option X)"
    and "\<forall>(l, c) \<in> set_option Y. rt_told_ok l c"
  shows "rt_rep myid S (ops @ rt_change (v6_global_addr_from_key_id nid) (rt_own myid X) (rt_own myid Y))
    (V - set_option X \<union> set_option Y)"
proof -
  obtain tbl where tbl: "rt_replay ops (\<lambda>_. None) = Some tbl" "rt_wants myid V tbl" and ok: "rt_view_ok S V"
    and my: "myid_ok myid"
    using assms(1) by (auto simp: rt_rep_def)
  let ?V = "V - set_option X \<union> set_option Y" and ?dest = "v6_global_addr_from_key_id nid"
  have own: "tbl ?dest = rt_own myid X"
    by (rule rt_wants_own [OF ok tbl(2) assms(2,3) _ assms(5)]) (use assms(4) in blast)
  have ok': "rt_view_ok S ?V"
  proof -
    have "inj_on (\<lambda>x. lsa_id (fst x)) ?V"
    proof (rule inj_onI)
      fix x y assume xy: "x \<in> ?V" "y \<in> ?V" "lsa_id (fst x) = lsa_id (fst y)"
      show "x = y"
      proof (cases "lsa_id (fst x) = nid")
        case True
        then have "x \<in> set_option Y" "y \<in> set_option Y"
          using xy assms(5) told_id [of x "V - set_option X"] told_id [of y "V - set_option X"] by auto
        then show ?thesis by (cases Y) auto
      next
        case False
        then have "x \<in> V" "y \<in> V" using xy assms(4) by auto
        then show ?thesis using ok xy(3) by (auto simp: rt_view_ok_def dest: inj_onD)
      qed
    qed
    moreover have "lsa_id ` fst ` ?V \<subseteq> S" using ok assms(2,4) by (auto simp: rt_view_ok_def)
    ultimately show ?thesis using ok assms(6) by (auto simp: rt_view_ok_def)
  qed
  have "rt_wants myid ?V (tbl(?dest := rt_own myid Y))"
    unfolding rt_wants_def
  proof (intro allI)
    fix dest nh
    show "(tbl(?dest := rt_own myid Y)) dest = Some nh \<longleftrightarrow>
        (\<exists>(l, c) \<in> ?V. rt_route myid l c = Some nh \<and> v6_global_addr_from_key_id (lsa_id l) = dest)"
    proof (cases "dest = ?dest")
      case True
      have inY: "(l, c) \<in> ?V \<and> v6_global_addr_from_key_id (lsa_id l) = ?dest \<longleftrightarrow> (l, c) \<in> set_option Y" for l c
      proof
        assume lc: "(l, c) \<in> ?V \<and> v6_global_addr_from_key_id (lsa_id l) = ?dest"
        then have "lsa_id l = nid" using rt_viewD(3) [OF ok' _ assms(2)] by blast
        then show "(l, c) \<in> set_option Y" using lc assms(5) told_id [of "(l, c)" "V - set_option X"] by auto
      next
        assume "(l, c) \<in> set_option Y"
        then show "(l, c) \<in> ?V \<and> v6_global_addr_from_key_id (lsa_id l) = ?dest" using assms(4) by fastforce
      qed
      then have "(\<exists>(l, c) \<in> ?V. rt_route myid l c = Some nh \<and> v6_global_addr_from_key_id (lsa_id l) = ?dest) \<longleftrightarrow>
          (\<exists>(l, c) \<in> set_option Y. rt_route myid l c = Some nh)"
        using inY by blast
      then show ?thesis using True by (cases Y) (auto simp: rt_own_def)
    next
      case False
      have "lsa_id l = nid" if "(l, c) \<in> set_option X \<union> set_option Y" for l c
        using assms(4) that by fastforce
      then have that_other: "(l, c) \<in> ?V \<and> v6_global_addr_from_key_id (lsa_id l) = dest \<longleftrightarrow>
          (l, c) \<in> V \<and> v6_global_addr_from_key_id (lsa_id l) = dest" for l c
        using False by blast
      have "(\<exists>(l, c) \<in> ?V. rt_route myid l c = Some nh \<and> v6_global_addr_from_key_id (lsa_id l) = dest) \<longleftrightarrow>
          (\<exists>(l, c) \<in> V. rt_route myid l c = Some nh \<and> v6_global_addr_from_key_id (lsa_id l) = dest)"
        using that_other by blast
      then show ?thesis using False tbl(2) by (simp add: rt_wants_def)
    qed
  qed
  then show ?thesis
    using my ok' by (auto simp: rt_rep_def rt_replay_append tbl(1) rt_replay_change [where tbl = tbl, OF own])
qed

text \<open>\<open>ok\<close> for the builder: an LSA with a path, of a node in \<open>S\<close>.\<close>

definition rt_ok :: "bytes set \<Rightarrow> lsa \<Rightarrow> bool" where
  "rt_ok S l \<longleftrightarrow> path_of l \<noteq> None \<and> lsa_id l \<in> S"

interpretation rt_client: rib_client_unique "rt_builder_rl (rt_recorder myid)" "rt_rep myid S"
    "\<lambda>_ _. 0" "rt_ok S" "\<lambda>c. c \<noteq> RIB_COST_INELIGIBLE" for myid S
proof
  fix w :: "rt_op list world" and V l c
  assume h: "rt_rep myid S (snd w) V" "rt_ok S l" "c \<noteq> RIB_COST_INELIGIBLE" "lsa_id l \<notin> lsa_id ` fst ` V"
  then have ok: "rt_told_ok l c" "myid_ok myid" by (simp_all add: rt_ok_def rt_told_ok_def rt_rep_def)
  have "rt_rep myid S (snd w @ rt_change (v6_global_addr_from_key_id (lsa_id l)) (rt_own myid None) (rt_own myid (Some (l, c))))
      (V - set_option None \<union> set_option (Some (l, c)))"
    by (rule rt_view_change [OF h(1)]) (use h ok in \<open>auto simp: rt_ok_def\<close>)
  then show "\<exists>w'. rl_lsa_add (rt_builder_rl (rt_recorder myid)) l c w = Inr w' \<and>
      rt_rep myid S (snd w') (insert (l, c) V) \<and> balanced (\<lambda>_ _. 0) w w'"
    by (simp add: rt_builder_rl_def on_world_def rt_add_del_ops [OF ok] rt_own_def balanced_def)
next
  fix w :: "rt_op list world" and V a c b d
  assume h: "rt_rep myid S (snd w) V" "(a, c) \<in> V" "rt_ok S b" "d \<noteq> RIB_COST_INELIGIBLE" "lsa_id b = lsa_id a"
    "lsa_id a \<notin> lsa_id ` fst ` (V - {(a, c)})"
  then have ok: "rt_told_ok a c" "rt_told_ok b d" "myid_ok myid" and inS: "lsa_id a \<in> S"
    using rt_viewD [of S V a c] by (auto simp: rt_ok_def rt_told_ok_def rt_rep_def)
  have "rt_rep myid S (snd w @ rt_change (v6_global_addr_from_key_id (lsa_id a)) (rt_own myid (Some (a, c))) (rt_own myid (Some (b, d))))
      (V - set_option (Some (a, c)) \<union> set_option (Some (b, d)))"
    by (rule rt_view_change [OF h(1) inS]) (use h(2,5,6) ok in auto)
  then show "\<exists>w'. rl_lsa_mod (rt_builder_rl (rt_recorder myid)) a c b d w = Inr w' \<and>
      rt_rep myid S (snd w') (insert (b, d) (V - {(a, c)})) \<and> balanced (\<lambda>_ _. 0) w w'"
    by (simp add: rt_builder_rl_def on_world_def rt_mod_ops [OF ok h(5)] rt_own_def balanced_def)
next
  fix w :: "rt_op list world" and V a c
  assume h: "rt_rep myid S (snd w) V" "(a, c) \<in> V" "lsa_id a \<notin> lsa_id ` fst ` (V - {(a, c)})"
  then have ok: "rt_told_ok a c" "myid_ok myid" and inS: "lsa_id a \<in> S"
    using rt_viewD [of S V a c] by (auto simp: rt_rep_def)
  have "rt_rep myid S (snd w @ rt_change (v6_global_addr_from_key_id (lsa_id a)) (rt_own myid (Some (a, c))) (rt_own myid None))
      (V - set_option (Some (a, c)) \<union> set_option None)"
    by (rule rt_view_change [OF h(1) inS]) (use h in auto)
  then show "\<exists>w'. rl_lsa_del (rt_builder_rl (rt_recorder myid)) a c w = Inr w' \<and>
      rt_rep myid S (snd w') (V - {(a, c)}) \<and> balanced (\<lambda>_ _. 0) w w'"
    by (simp add: rt_builder_rl_def on_world_def rt_add_del_ops [OF ok] rt_own_def balanced_def)
qed


section \<open>Properties\<close>

lemma recompute_routed:
  assumes "loc_inv rib" "lr_listeners rib = [rt_builder_rl (rt_recorder myid)]" "rt_rep myid S ops (loc_told rib)"
    and "lsa_id ` loc_lsas rib \<subseteq> S" "lr_recompute rib"
  shows "\<exists>rib' rc' ops'. loc_rib_run_task rib (rc, ops) = Inr (rib', rc', ops') \<and>
    loc_inv rib' \<and> \<not> lr_recompute rib' \<and> rib_topo rib' = rib_topo rib \<and>
    (\<forall>rid \<in> set (lr_ids rib'). is_best rib rid) \<and> rt_rep myid S ops' (loc_told rib') \<and>
    (\<forall>p. rc' p - loc_held rib' p = rc p - loc_held rib p)"
proof -
  let ?rib = "rib\<lparr>lr_recompute := False\<rparr>"
  have paths: "path_of l \<noteq> None" if "l \<in> loc_lsas rib" for l
    using assms(1) that by (auto simp: loc_lsas_def loc_inv_def rid_inv_def routable_def)
  have topo: "rib_topo ?rib = rib_topo rib" by (simp add: rib_topo_def)
  have told: "loc_told ?rib = loc_told rib" by (simp add: loc_told_def)
  have "rt_client.loc_pre myid S ?rib (rc, ops)"
    using assms paths by (auto simp: rt_client.loc_pre_def told rt_ok_def)
  from rt_client.recompute_client [OF this] obtain rib' w' where r:
    "recompute_rib ?rib (rc, ops) = Inr (rib', w')" "rt_client.loc_pre myid S rib' w'" "rib_topo rib' = rib_topo ?rib"
    "\<forall>rid \<in> set (lr_ids rib'). is_best ?rib rid"
    "\<forall>p. fst w' p - loc_held rib' p = fst (rc, ops) p - loc_held ?rib p" "lr_recompute rib' = lr_recompute ?rib" by blast
  then show ?thesis
    using assms(5) is_best_topo [OF topo] topo
    by (cases w') (auto simp: loc_rib_run_task_def rt_client.loc_pre_def)
qed

text \<open>
  C13: after the task has run, every node's best LSA is one with the least cost and, among those,
  the shortest path, and it has none exactly when all its LSAs are ineligible; the groups and
  versions are unchanged; every reference taken is one the base now holds.  (With a route
  builder as the listener; the process does not stop.)
\<close>

theorem recompute_best:
  assumes "loc_inv rib" "lr_listeners rib = [rt_builder_rl (rt_recorder myid)]" "rt_rep myid S ops (loc_told rib)"
    and "lsa_id ` loc_lsas rib \<subseteq> S" "lr_recompute rib"
  shows "\<exists>rib' rc' ops'. loc_rib_run_task rib (rc, ops) = Inr (rib', rc', ops') \<and>
    loc_inv rib' \<and> rib_topo rib' = rib_topo rib \<and> (\<forall>rid \<in> set (lr_ids rib'). is_best rib rid) \<and>
    (\<forall>p. rc' p - loc_held rib' p = rc p - loc_held rib p)"
  using recompute_routed [OF assms, of rc] by blast

lemma sample_told: "loc_told (sample_rib rls l) = {}"
  by (simp add: loc_told_def rid_told_def sample_rib_def)

lemma sample_rib_simps: "lr_listeners (sample_rib rls l) = rls" "lr_recompute (sample_rib rls l)"
  by (simp_all add: sample_rib_def)

lemma rt_rep_start: "rt_rep None {nid} [] {}"
  by (simp add: rt_rep_def myid_ok_def rt_view_ok_def rt_wants_def)

theorem recompute_best_witness:
  "let rib = sample_rib [rt_builder_rl (rt_recorder None)] (sample_lsa 5 7 [9]) in
   \<exists>rib' rc' ops'. loc_rib_run_task rib (\<lambda>_. 1, []) = Inr (rib', rc', ops') \<and>
    loc_inv rib' \<and> rib_topo rib' = rib_topo rib \<and> (\<forall>rid \<in> set (lr_ids rib'). is_best rib rid) \<and>
    (\<forall>p. rc' p - loc_held rib' p = 1 - loc_held rib p)"
proof -
  let ?l = "sample_lsa 5 7 [9]"
  have "routable ?l" by (rule sample_routable) simp
  note s = sample_rib_inv [OF this]
  show ?thesis
    unfolding Let_def
    by (rule recompute_best [where S = "{lsa_id ?l}" and myid = None])
      (simp_all only: s sample_told sample_rib_simps rt_rep_start image_insert image_empty order_refl)
qed

text \<open>
  C4: the route builder's calls, replayed from the empty route table, never add a route that
  is there, change or delete one that is not, or change one to itself; and after each run of the task
  the table holds exactly the routes to the reachable nodes: directly or by the first node of
  the best LSA's path.  The ids' addresses must be distinct (they are a digest's middle 12 bytes).
\<close>

theorem recompute_routes:
  assumes "loc_inv rib" "lr_listeners rib = [rt_builder_rl (rt_recorder myid)]" "rt_rep myid S ops (loc_told rib)"
    and "lsa_id ` loc_lsas rib \<subseteq> S" "lr_recompute rib"
  shows "\<exists>rib' rc' ops' tbl. loc_rib_run_task rib (rc, ops) = Inr (rib', rc', ops') \<and>
    rt_rep myid S ops' (loc_told rib') \<and> rt_replay ops' (\<lambda>_. None) = Some tbl \<and>
    (\<forall>dest nh. tbl dest = Some nh \<longleftrightarrow> (\<exists>rid \<in> set (lr_ids rib'). \<exists>b. ri_best rid = Some b \<and>
       rt_route myid b (ri_bestcost rid) = Some nh \<and> v6_global_addr_from_key_id (ri_id rid) = dest))"
proof -
  obtain rib' rc' ops' tbl where r: "loc_rib_run_task rib (rc, ops) = Inr (rib', rc', ops')" "loc_inv rib'"
    "rt_rep myid S ops' (loc_told rib')" "rt_replay ops' (\<lambda>_. None) = Some tbl" "rt_wants myid (loc_told rib') tbl"
    using recompute_routed [OF assms, of rc] by (auto simp: rt_rep_def)
  have "lsa_id b = ri_id rid" if "rid \<in> set (lr_ids rib')" "ri_best rid = Some b" for rid b
    using loc_own(4) [OF r(2) that(1), of b] that(2) by simp
  then have "(\<exists>(l, c) \<in> loc_told rib'. rt_route myid l c = Some nh \<and> v6_global_addr_from_key_id (lsa_id l) = dest) \<longleftrightarrow>
      (\<exists>rid \<in> set (lr_ids rib'). \<exists>b. ri_best rid = Some b \<and>
       rt_route myid b (ri_bestcost rid) = Some nh \<and> v6_global_addr_from_key_id (ri_id rid) = dest)" for dest nh
    by (fastforce simp: loc_told_def rid_told_def)
  with r show ?thesis by (auto simp: rt_wants_def)
qed

theorem recompute_routes_witness:
  "\<exists>rib' rc' ops' tbl.
    loc_rib_run_task (sample_rib [rt_builder_rl (rt_recorder None)] (sample_lsa 5 7 [9, 7])) (\<lambda>_. 1, []) = Inr (rib', rc', ops') \<and>
    rt_rep None {replicate 32 7} ops' (loc_told rib') \<and> rt_replay ops' (\<lambda>_. None) = Some tbl \<and>
    (\<forall>dest nh. tbl dest = Some nh \<longleftrightarrow> (\<exists>rid \<in> set (lr_ids rib'). \<exists>b. ri_best rid = Some b \<and>
       rt_route None b (ri_bestcost rid) = Some nh \<and> v6_global_addr_from_key_id (ri_id rid) = dest))"
proof -
  have "routable (sample_lsa 5 7 [9, 7])" by (rule sample_routable) simp
  note s = sample_rib_inv [OF this]
  have nid: "lsa_id (sample_lsa 5 7 [9, 7]) = replicate 32 7" by (simp only: sample_lsa_def lsa.simps)
  show ?thesis
    by (rule recompute_routes)
      (simp_all only: s sample_told sample_rib_simps rt_rep_start image_insert image_empty nid order_refl)
qed

end
