(* ===== verification/Conf.thy ===== *)
theory Conf
  imports Util "HOL-Library.Multiset"
begin

text \<open>
  \<^verbatim>\<open>src/conf.c\<close> and \<^verbatim>\<open>conf.h\<close>: the configuration and its parser.  The file format is read by
  the library \<^verbatim>\<open>libini_config\<close>, whose configuration object is a parameter (\<open>ini_cfgobj\<close>);
  \<^verbatim>\<open>parse_cfgfile\<close>, which only calls it, and \<^verbatim>\<open>free_config\<close> are not modelled.  The properties:
  a configuration that is returned is well-formed, it has one entry for every section of the
  file, and node ids and addresses are read back as the programs of the repository print them.
\<close>

section \<open>Strings\<close>

text \<open>C strings are byte lists that do not contain 0.\<close>

definition cstr :: "string \<Rightarrow> bytes" where "cstr s = map of_char s"

text \<open>\<^verbatim>\<open>strcmp\<close> promises the sign of its result only; the end of a string is a 0.\<close>

fun strcmp :: "bytes \<Rightarrow> bytes \<Rightarrow> int" where
  "strcmp [] [] = 0"
| "strcmp [] (_ # _) = -1"
| "strcmp (_ # _) [] = 1"
| "strcmp (a # as) (b # bs) = (if a < b then -1 else if b < a then 1 else strcmp as bs)"

definition tolower :: "byte \<Rightarrow> byte" where
  "tolower c = (if 65 \<le> c \<and> c \<le> 90 then c + 32 else c)"

definition strcasecmp :: "bytes \<Rightarrow> bytes \<Rightarrow> int" where
  "strcasecmp a b = strcmp (map tolower a) (map tolower b)"

text \<open>\<^verbatim>\<open>strchr\<close> and \<^verbatim>\<open>strstr\<close> as offsets into the string.\<close>

fun strchr :: "bytes \<Rightarrow> byte \<Rightarrow> nat option" where
  "strchr [] c = None"
| "strchr (x # xs) c = (if x = c then Some 0 else map_option Suc (strchr xs c))"

fun strstr :: "bytes \<Rightarrow> bytes \<Rightarrow> nat option" where
  "strstr [] p = (if p = [] then Some 0 else None)"
| "strstr (x # xs) p =
     (if take (length p) (x # xs) = p then Some 0 else map_option Suc (strstr xs p))"

definition isspace :: "byte \<Rightarrow> bool" where
  "isspace c \<longleftrightarrow> c = 32 \<or> 9 \<le> c \<and> c \<le> 13"

definition isdigit :: "byte \<Rightarrow> bool" where
  "isdigit c \<longleftrightarrow> 48 \<le> c \<and> c \<le> 57"

definition isxdigit :: "byte \<Rightarrow> bool" where
  "isxdigit c \<longleftrightarrow> isdigit c \<or> 65 \<le> c \<and> c \<le> 70 \<or> 97 \<le> c \<and> c \<le> 102"

definition xdigit_val :: "byte \<Rightarrow> nat" where
  "xdigit_val c =
     (if isdigit c then unat c - 48 else if c \<le> 70 then unat c - 55 else unat c - 87)"

definition number_val :: "nat \<Rightarrow> bytes \<Rightarrow> nat" where
  "number_val base ds = foldl (\<lambda>n c. base * n + xdigit_val c) 0 ds"

text \<open>
  The conversions of \<^verbatim>\<open>sscanf\<close> that are used.  \<open>%d\<close> reads an optional sign and at least one digit
  after white space; a number that does not fit is clamped to a \<^verbatim>\<open>long\<close> and cut to an \<^verbatim>\<open>int\<close>, as
  glibc does.  \<open>%hhx\<close> reads a sign, a prefix \<open>0x\<close> and hexadecimal digits, likewise; it returns the
  input that is left.
\<close>

definition scan_sign :: "bytes \<Rightarrow> bool \<times> bytes" where
  "scan_sign s =
     (let s = dropWhile isspace s
      in if cstr_at s 0 = of_char (CHR ''-'') then (True, drop 1 s)
         else if cstr_at s 0 = of_char (CHR ''+'') then (False, drop 1 s)
         else (False, s))"

definition scan_d :: "bytes \<Rightarrow> int option" where
  "scan_d s =
     (let (neg, s) = scan_sign s;
          ds = takeWhile isdigit s;
          n = int (number_val 10 ds);
          v = (if neg then max (- (2 ^ 63)) (- n) else min (2 ^ 63 - 1) n)
      in if ds = [] then None else Some (sint (word_of_int v :: u32)))"

definition scan_hhx :: "bytes \<Rightarrow> (byte \<times> bytes) option" where
  "scan_hhx s =
     (let (neg, s) = scan_sign s;
          s = (if cstr_at s 0 = of_char (CHR ''0'') \<and> tolower (cstr_at s 1) = of_char (CHR ''x'')
               then drop 2 s else s);
          ds = takeWhile isxdigit s;
          n = int (min (2 ^ 64 - 1) (number_val 16 ds))
      in if ds = [] then None
         else Some (word_of_int (if neg then - n else n), dropWhile isxdigit s))"

text \<open>\<^verbatim>\<open>printf\<close> with \<open>%d\<close>, and the network order of a port (\<^verbatim>\<open>htons\<close> of the low 16 bits).\<close>

fun print_nat :: "nat \<Rightarrow> bytes" where
  "print_nat n = (if n < 10 then [of_nat (48 + n)] else print_nat (n div 10) @ [of_nat (48 + n mod 10)])"

declare print_nat.simps [simp del]

definition print_int :: "int \<Rightarrow> bytes" where
  "print_int n = (if n < 0 then of_char (CHR ''-'') # print_nat (nat (- n)) else print_nat (nat n))"

definition htons :: "int \<Rightarrow> bytes" where
  "htons port = [word_of_int (port div 256), word_of_int port]"

section \<open>The configuration\<close>

datatype conf_fp_type = CONF_FP_TYPE_ANY | CONF_FP_TYPE_CNAME | CONF_FP_TYPE_MATCH

datatype conf_peer_type =
  CONF_PEER_TYPE_INVALID | CONF_PEER_TYPE_DBONLY | CONF_PEER_TYPE_EPEER
| CONF_PEER_TYPE_CUSTOMER | CONF_PEER_TYPE_TRANSIT | CONF_PEER_TYPE_IPEER

text \<open>
  The settings of each object.  The fields \<^verbatim>\<open>registered\<close>, \<^verbatim>\<open>tc\<close>, \<^verbatim>\<open>tls\<close>, \<^verbatim>\<open>tle\<close> and
  \<^verbatim>\<open>connections\<close> belong to \<^verbatim>\<open>dvpn.c\<close>; the parser leaves them 0.  The fingerprint is meaningful
  only with \<open>CONF_FP_TYPE_MATCH\<close>.
\<close>

record conf_connect_entry =
  cce_name :: bytes
  cce_hostname :: bytes
  cce_port :: bytes
  cce_fp_type :: conf_fp_type
  cce_fingerprint :: bytes
  cce_peer_type :: conf_peer_type
  cce_tunitf :: bytes
  cce_cost :: int

record conf_listen_entry =
  cle_name :: bytes
  cle_fp_type :: conf_fp_type
  cle_fingerprint :: bytes
  cle_peer_type :: conf_peer_type
  cle_tunitf :: bytes
  cle_cost :: int
  cle_conn_limit :: int

record conf_listening_socket =
  cls_listen_address :: sockaddr
  cls_have_wildcard_listen_entry :: bool
  cls_listen_entries :: "conf_listen_entry list"

record conf =
  node_name :: "bytes option"
  private_key :: "bytes option"
  role_key :: "bytes option"
  connect_entries :: "conf_connect_entry list"
  listening_sockets :: "conf_listening_socket list"

definition compare_connect_entries :: "conf_connect_entry \<Rightarrow> conf_connect_entry \<Rightarrow> int" where
  "compare_connect_entries a b = strcmp (cce_name a) (cce_name b)"

definition compare_listening_sockets :: "conf_listening_socket \<Rightarrow> conf_listening_socket \<Rightarrow> int" where
  "compare_listening_sockets a b = addrcmp_int (cls_listen_address a) (cls_listen_address b)"

definition compare_listen_entries :: "conf_listen_entry \<Rightarrow> conf_listen_entry \<Rightarrow> int" where
  "compare_listen_entries a b = strcmp (cle_name a) (cle_name b)"


section \<open>The parser\<close>

text \<open>
  The configuration object of \<^verbatim>\<open>libini_config\<close>, as far as the parser uses it: the return value
  of \<^verbatim>\<open>ini_get_config_valueobj\<close> and the object it finds, the value of such an object as a fresh
  string, a string owned by the object and an \<^verbatim>\<open>int\<close>, each with the error that is reported,
  and the names of the sections.
\<close>

record 'v ini_cfgobj =
  ini_valueobj :: "bytes \<Rightarrow> bytes \<Rightarrow> int \<times> 'v option"
  ini_string :: "'v \<Rightarrow> bytes option \<times> int"
  ini_const_string :: "'v option \<Rightarrow> bytes option \<times> int"
  ini_int :: "'v \<Rightarrow> int \<times> int"
  ini_sections :: "bytes list option"

text \<open>
  The system: \<^verbatim>\<open>inet_pton\<close> for the two address families, \<^verbatim>\<open>uname\<close>, whether the n-th allocation
  succeeds, and the indeterminate contents of the local array \<^verbatim>\<open>f\<close>.  The results of
  \<^verbatim>\<open>strdup\<close> and \<^verbatim>\<open>asprintf\<close> are not tested by the code; they are taken to succeed.
\<close>

record conf_env =
  ce_pton6 :: "bytes \<Rightarrow> bytes option"
  ce_pton4 :: "bytes \<Rightarrow> bytes option"
  ce_nodename :: "bytes option"
  ce_alloc :: "nat \<Rightarrow> bool"
  ce_junk :: bytes

record local_conf =
  lc_conf :: conf
  lc_default_port :: int
  lc_allocs :: nat

definition conf_alloc :: "conf_env \<Rightarrow> local_conf \<Rightarrow> bool \<times> local_conf" where
  "conf_alloc env lc = (ce_alloc env (lc_allocs lc), lc\<lparr>lc_allocs := Suc (lc_allocs lc)\<rparr>)"

definition default_section :: bytes where "default_section = cstr ''default''"

text \<open>A string of the default section; \<open>None\<close> is the error, \<open>Some None\<close> that it is absent.\<close>

definition default_string :: "'v ini_cfgobj \<Rightarrow> bytes \<Rightarrow> bytes option option option" where
  "default_string co name =
     (let (ret, vo) = ini_valueobj co default_section name
      in if ret = 0 \<and> vo \<noteq> None then
           (let (key, ret) = ini_string co (the vo) in if ret \<noteq> 0 then None else Some (Some key))
         else Some None)"

definition node_of :: "bytes \<Rightarrow> bytes" where
  "node_of nodename = (case strchr nodename (of_char (CHR ''.'')) of Some i \<Rightarrow> take i nodename | None \<Rightarrow> nodename)"

definition parse_config_default :: "conf_env \<Rightarrow> 'v ini_cfgobj \<Rightarrow> local_conf \<Rightarrow> int \<times> local_conf" where
  "parse_config_default env co lc =
     (case default_string co (cstr ''NodeName'') of
        None \<Rightarrow> (-1, lc)
      | Some v \<Rightarrow>
          let lc = lc\<lparr>lc_conf := (lc_conf lc)\<lparr>node_name :=
                (case v of Some key \<Rightarrow> key | None \<Rightarrow> map_option node_of (ce_nodename env))\<rparr>\<rparr>
          in case default_string co (cstr ''PrivateKey'') of
               None \<Rightarrow> (-1, lc)
             | Some v \<Rightarrow>
                 let lc = lc\<lparr>lc_conf := (lc_conf lc)\<lparr>private_key :=
                       (case v of Some key \<Rightarrow> key | None \<Rightarrow> Some (cstr ''/etc/pki/tls/dvpn/dvpn.key''))\<rparr>\<rparr>
                 in case default_string co (cstr ''RoleKey'') of
                      None \<Rightarrow> (-1, lc)
                    | Some v \<Rightarrow>
                        let lc = lc\<lparr>lc_conf := (lc_conf lc)\<lparr>role_key :=
                              (case v of Some key \<Rightarrow> key | None \<Rightarrow> Some (cstr ''/etc/pki/tls/dvpn/role.key''))\<rparr>\<rparr>;
                            (ret, vo) = ini_valueobj co default_section (cstr ''DefaultPort'')
                        in if ret = 0 \<and> vo \<noteq> None then
                             (let (port, ret) = ini_int co (the vo)
                              in if ret \<noteq> 0 then (-1, lc) else (0, lc\<lparr>lc_default_port := port\<rparr>))
                           else (0, lc))"

definition get_const_value :: "'v ini_cfgobj \<Rightarrow> bytes \<Rightarrow> bytes \<Rightarrow> bytes option" where
  "get_const_value co section name =
     (let (ret, vo) = ini_valueobj co section name
      in if ret \<noteq> 0 then None
         else let (value, ret) = ini_const_string co vo in if ret \<noteq> 0 then None else value)"

text \<open>
  The 32 conversions of the format; \<open>n\<close> are left, and all but the last are followed by a
  colon.  The result is the number of conversions made and the bytes they gave.
\<close>

fun scan_hex_id :: "nat \<Rightarrow> bytes \<Rightarrow> nat \<times> bytes" where
  "scan_hex_id 0 s = (0, [])"
| "scan_hex_id (Suc n) s =
     (case scan_hhx s of
        None \<Rightarrow> (0, [])
      | Some (b, rest) \<Rightarrow>
          if n = 0 then (1, [b])
          else if cstr_at rest 0 = of_char (CHR '':'') then
            (let (k, bs) = scan_hex_id n (drop 1 rest) in (Suc k, b # bs))
          else (1, [b]))"

definition parse_fingerprint :: "bytes \<Rightarrow> bytes \<Rightarrow> int \<times> bytes" where
  "parse_fingerprint nid fp =
     (let (k, bs) = scan_hex_id NODE_ID_LEN fp;
          nid = bs @ drop (length bs) nid
      in if k = NODE_ID_LEN then (0, nid)
         else if length fp = 52 then parse_base32_fingerprint fp
         else (-1, nid))"

definition parse_peer_type :: "bytes \<Rightarrow> conf_peer_type" where
  "parse_peer_type pt =
     (if strcasecmp pt (cstr ''dbonly'') = 0 then CONF_PEER_TYPE_DBONLY
      else if strcasecmp pt (cstr ''epeer'') = 0 \<or> strcasecmp pt (cstr ''peer'') = 0 then CONF_PEER_TYPE_EPEER
      else if strcasecmp pt (cstr ''customer'') = 0 \<or> strcasecmp pt (cstr ''downstream'') = 0 then CONF_PEER_TYPE_CUSTOMER
      else if strcasecmp pt (cstr ''transit'') = 0 \<or> strcasecmp pt (cstr ''upstream'') = 0 then CONF_PEER_TYPE_TRANSIT
      else if strcasecmp pt (cstr ''ipeer'') = 0 then CONF_PEER_TYPE_IPEER
      else CONF_PEER_TYPE_INVALID)"

text \<open>
  The two addresses of a configuration are cut in the same way: \<open>port_delim\<close> is the offset of
  the colon before the port, \<open>host_part\<close> the host name, \<open>port_part\<close> the port.
\<close>

definition port_delim :: "bytes \<Rightarrow> nat option" where
  "port_delim s =
     (case strstr s (cstr '']:'') of
        Some i \<Rightarrow> Some (i + 1)
      | None \<Rightarrow>
          case strchr s (of_char (CHR '':'')) of
            None \<Rightarrow> None
          | Some i \<Rightarrow> if strchr (drop (i + 1) s) (of_char (CHR '':'')) \<noteq> None then None else Some i)"

definition host_part :: "bytes \<Rightarrow> nat option \<Rightarrow> bytes" where
  "host_part s delim =
     (if cstr_at s 0 = of_char (CHR ''['') then
        (let h = drop 1 s in case strchr h (of_char (CHR '']'')) of Some i \<Rightarrow> take i h | None \<Rightarrow> h)
      else case delim of Some i \<Rightarrow> take i s | None \<Rightarrow> s)"

definition port_part :: "int \<Rightarrow> bytes \<Rightarrow> nat option \<Rightarrow> int option" where
  "port_part default_port s delim =
     (case delim of Some i \<Rightarrow> scan_d (drop (i + 1) s) | None \<Rightarrow> Some default_port)"

definition add_connect_peer ::
  "conf_env \<Rightarrow> local_conf \<Rightarrow> bytes \<Rightarrow> bytes \<Rightarrow> conf_fp_type \<Rightarrow> bytes \<Rightarrow> conf_peer_type \<Rightarrow> bytes option \<Rightarrow> int \<Rightarrow>
   int \<times> local_conf" where
  "add_connect_peer env lc peer connect fp_type fp peer_type itf cost =
     (let delim = port_delim connect
      in case port_part (lc_default_port lc) connect delim of
           None \<Rightarrow> (-1, lc)
         | Some port \<Rightarrow>
             let (mem, lc) = conf_alloc env lc
             in if \<not> mem then (-1, lc)
                else let cce = \<lparr>cce_name = peer, cce_hostname = host_part connect delim,
                          cce_port = print_int port, cce_fp_type = fp_type,
                          cce_fingerprint = take NODE_ID_LEN fp, cce_peer_type = peer_type,
                          cce_tunitf = (case itf of Some i \<Rightarrow> i | None \<Rightarrow> cstr ''dvpn%d''), cce_cost = cost\<rparr>
                     in case avl_insert compare_connect_entries cce (connect_entries (lc_conf lc)) of
                          None \<Rightarrow> (-1, lc)
                        | Some es \<Rightarrow> (0, lc\<lparr>lc_conf := (lc_conf lc)\<lparr>connect_entries := es\<rparr>\<rparr>))"


text \<open>
  The listening address: \<open>None\<close> is the error.  A port and an IPv4 address overwrite the
  fields of the IPv6 one.
\<close>

definition parse_listen_addr :: "conf_env \<Rightarrow> bytes \<Rightarrow> int \<Rightarrow> sockaddr option" where
  "parse_listen_addr env listen default_port =
     (let delim = port_delim listen
      in case port_part default_port listen delim of
           None \<Rightarrow> None
         | Some port \<Rightarrow>
             let l = host_part listen delim
             in if strcmp l [] = 0 \<or> strcmp l (cstr ''*'') = 0 then
                  Some \<lparr>ss_family = AF_INET6, ss_addr = replicate 16 0, ss_port = htons port\<rparr>
                else case ce_pton6 env l of
                       Some a \<Rightarrow> Some \<lparr>ss_family = AF_INET6, ss_addr = a, ss_port = htons port\<rparr>
                     | None \<Rightarrow>
                         (case ce_pton4 env l of
                            Some a \<Rightarrow> Some \<lparr>ss_family = AF_INET, ss_addr = a, ss_port = htons port\<rparr>
                          | None \<Rightarrow> None))"

text \<open>
  The socket is returned as a value; what is written through the pointer to it is written back
  with \<open>set_listening_socket\<close>.
\<close>

definition set_listening_socket :: "conf_listening_socket \<Rightarrow> local_conf \<Rightarrow> local_conf" where
  "set_listening_socket cls lc =
     lc\<lparr>lc_conf := (lc_conf lc)\<lparr>listening_sockets :=
       map (\<lambda>s. if compare_listening_sockets s cls = 0 then cls else s) (listening_sockets (lc_conf lc))\<rparr>\<rparr>"

definition get_listening_socket ::
  "conf_env \<Rightarrow> local_conf \<Rightarrow> bytes \<Rightarrow> (local_conf \<times> conf_listening_socket option) outcome" where
  "get_listening_socket env lc listen =
     (case parse_listen_addr env listen (lc_default_port lc) of
        None \<Rightarrow> Inr (lc, None)
      | Some addr \<Rightarrow>
          case avl_find (\<lambda>cls. addrcmp_int addr (cls_listen_address cls)) (listening_sockets (lc_conf lc)) of
            Some cls \<Rightarrow> Inr (lc, Some cls)
          | None \<Rightarrow>
              let (mem, lc) = conf_alloc env lc
              in if \<not> mem then Inr (lc, None)
                 else let cls = \<lparr>cls_listen_address = addr, cls_have_wildcard_listen_entry = False,
                                 cls_listen_entries = []\<rparr>
                      in case avl_insert compare_listening_sockets cls (listening_sockets (lc_conf lc)) of
                           None \<Rightarrow> Inl Abort
                         | Some ss \<Rightarrow>
                             Inr (lc\<lparr>lc_conf := (lc_conf lc)\<lparr>listening_sockets := ss\<rparr>\<rparr>, Some cls))"

definition add_listen_peer ::
  "conf_env \<Rightarrow> local_conf \<Rightarrow> bytes \<Rightarrow> bytes \<Rightarrow> conf_fp_type \<Rightarrow> bytes \<Rightarrow> conf_peer_type \<Rightarrow> bytes option \<Rightarrow>
   int \<Rightarrow> int \<Rightarrow> (int \<times> local_conf) outcome" where
  "add_listen_peer env lc peer listen fp_type fp peer_type itf cost conn_limit =
     obind (get_listening_socket env lc listen) (\<lambda>(lc, cls).
       case cls of
         None \<Rightarrow> Inr (-1, lc)
       | Some cls \<Rightarrow>
           if cls_have_wildcard_listen_entry cls \<and> fp_type = CONF_FP_TYPE_ANY then Inr (-1, lc)
           else let (mem, lc) = conf_alloc env lc
                in if \<not> mem then Inr (-1, lc)
                   else let cle = \<lparr>cle_name = peer, cle_fp_type = fp_type,
                              cle_fingerprint = take NODE_ID_LEN fp, cle_peer_type = peer_type,
                              cle_tunitf = (case itf of Some i \<Rightarrow> i | None \<Rightarrow> cstr ''dvpn%d''),
                              cle_cost = cost, cle_conn_limit = conn_limit\<rparr>;
                            es = (case avl_insert compare_listen_entries cle (cls_listen_entries cls) of
                                    Some es \<Rightarrow> es | None \<Rightarrow> cls_listen_entries cls);
                            cls = cls\<lparr>cls_listen_entries := es\<rparr>;
                            cls = (if fp_type = CONF_FP_TYPE_ANY
                                   then cls\<lparr>cls_have_wildcard_listen_entry := True\<rparr> else cls)
                        in Inr (0, set_listening_socket cls lc))"

text \<open>
  The fingerprint type and the id of a peer section, in \<^verbatim>\<open>parse_config_peer\<close>: \<open>None\<close> stands for
  the value -1 of \<^verbatim>\<open>fp_type\<close>, the outer \<open>None\<close> of the result for an error.
\<close>

definition peer_fp_type ::
  "conf_env \<Rightarrow> bytes option \<Rightarrow> bytes option \<Rightarrow> (conf_fp_type option \<times> bytes) option" where
  "peer_fp_type env connect fp =
     (case fp of
        None \<Rightarrow> Some (None, ce_junk env)
      | Some fp \<Rightarrow>
          if strcmp fp (cstr ''any'') = 0 then Some (Some CONF_FP_TYPE_ANY, ce_junk env)
          else if strcmp fp (cstr ''cname'') = 0 then
            (if connect = None then None else Some (Some CONF_FP_TYPE_CNAME, ce_junk env))
          else let (ret, f) = parse_fingerprint (ce_junk env) fp
               in if ret = 0 then Some (Some CONF_FP_TYPE_MATCH, f) else None)"

definition peer_fingerprint ::
  "conf_env \<Rightarrow> bytes option \<Rightarrow> bytes option \<Rightarrow> (conf_fp_type \<times> bytes) option" where
  "peer_fingerprint env connect fp =
     (let (ret, cfp) = (case connect of Some c \<Rightarrow> parse_hostname_fingerprint (ce_junk env) c
                                      | None \<Rightarrow> (-1, ce_junk env));
          have_cfp = (ret = 0)
      in case peer_fp_type env connect fp of
           None \<Rightarrow> None
         | Some (fp_type, f) \<Rightarrow>
             if \<not> have_cfp \<and> fp_type = None then None
             else if have_cfp \<and> fp_type = Some CONF_FP_TYPE_MATCH \<and> memcmp cfp f \<noteq> 0 then None
             else case fp_type of
                    Some t \<Rightarrow> Some (t, f)
                  | None \<Rightarrow> Some (CONF_FP_TYPE_MATCH, cfp))"

text \<open>An optional \<^verbatim>\<open>int\<close> directive of a section, with the test of its range.\<close>

definition peer_int :: "'v ini_cfgobj \<Rightarrow> bytes \<Rightarrow> bytes \<Rightarrow> (int \<Rightarrow> bool) \<Rightarrow> int \<Rightarrow> int option" where
  "peer_int co peer name valid dflt =
     (let (ret, vo) = ini_valueobj co peer name
      in if ret = 0 \<and> vo \<noteq> None then
           (let (v, ret) = ini_int co (the vo) in if ret \<noteq> 0 then None else if valid v then Some v else None)
         else Some dflt)"

definition parse_config_peer ::
  "conf_env \<Rightarrow> 'v ini_cfgobj \<Rightarrow> local_conf \<Rightarrow> bytes \<Rightarrow> (int \<times> local_conf) outcome" where
  "parse_config_peer env co lc peer =
     (let connect = get_const_value co peer (cstr ''Connect'');
          listen = get_const_value co peer (cstr ''Listen'')
      in if (connect = None) = (listen = None) then Inr (-1, lc)
         else case peer_fingerprint env connect (get_const_value co peer (cstr ''PeerFingerprint'')) of
           None \<Rightarrow> Inr (-1, lc)
         | Some (fp_type, f) \<Rightarrow>
             let peer_type = (case get_const_value co peer (cstr ''PeerType'') of
                   Some pt \<Rightarrow> parse_peer_type pt
                 | None \<Rightarrow> if connect \<noteq> None then CONF_PEER_TYPE_TRANSIT else CONF_PEER_TYPE_CUSTOMER);
                 itf = get_const_value co peer (cstr ''TunInterface'')
             in if peer_type = CONF_PEER_TYPE_INVALID then Inr (-1, lc)
                else case peer_int co peer (cstr ''Cost'') (\<lambda>c. 1 \<le> c \<and> c \<le> 32767) 0 of
                  None \<Rightarrow> Inr (-1, lc)
                | Some cost \<Rightarrow>
                    (case peer_int co peer (cstr ''ConnectionLimit'') (\<lambda>c. 1 \<le> c) 1 of
                       None \<Rightarrow> Inr (-1, lc)
                     | Some conn_limit \<Rightarrow>
                         (case connect of
                            Some c \<Rightarrow> Inr (add_connect_peer env lc peer c fp_type f peer_type itf cost)
                          | None \<Rightarrow> add_listen_peer env lc peer (the listen) fp_type f peer_type itf cost conn_limit)))"

fun parse_config_sections ::
  "conf_env \<Rightarrow> 'v ini_cfgobj \<Rightarrow> bytes list \<Rightarrow> local_conf \<Rightarrow> (local_conf option) outcome" where
  "parse_config_sections env co [] lc = Inr (Some lc)"
| "parse_config_sections env co (s # ss) lc =
     (if strcasecmp s default_section = 0 then parse_config_sections env co ss lc
      else obind (parse_config_peer env co lc s) (\<lambda>(ret, lc).
        if ret < 0 then Inr None else parse_config_sections env co ss lc))"

text \<open>\<open>cfg\<close> is the result of \<^verbatim>\<open>parse_cfgfile\<close>.  \<^verbatim>\<open>role_key\<close> is not initialised before it is set.\<close>

definition parse_config :: "conf_env \<Rightarrow> 'v ini_cfgobj option \<Rightarrow> conf option outcome" where
  "parse_config env cfg =
     (if \<not> ce_alloc env 0 then Inr None
      else case cfg of
        None \<Rightarrow> Inr None
      | Some co \<Rightarrow>
          let lc = \<lparr>lc_conf = \<lparr>node_name = None, private_key = None, role_key = None, connect_entries = [],
                      listening_sockets = []\<rparr>, lc_default_port = 19275, lc_allocs = 1\<rparr>;
              (ret, lc) = parse_config_default env co lc
          in if ret < 0 then Inr None
             else case ini_sections co of
               None \<Rightarrow> Inr (Some (lc_conf lc))
             | Some ss \<Rightarrow> obind (parse_config_sections env co ss lc) (\<lambda>r. Inr (map_option lc_conf r)))"


section \<open>A returned configuration is well-formed\<close>

lemma strcmp_ord: "strcmp a b = ord_cmp a b"
  by (induction a b rule: strcmp.induct) (auto simp: ord_cmp_Cons ord_cmp_def)

lemma strcmp_eq_0 [simp]: "strcmp a b = 0 \<longleftrightarrow> a = b"
  by (simp add: strcmp_ord)

interpretation cce_order: avl_order compare_connect_entries "\<lambda>_. True"
  by (rule avl_order_key [where f = cce_name]) (simp add: compare_connect_entries_def strcmp_ord)

interpretation cle_order: avl_order compare_listen_entries "\<lambda>_. True"
  by (rule avl_order_key [where f = cle_name]) (simp add: compare_listen_entries_def strcmp_ord)

abbreviation cls_addr_ok :: "conf_listening_socket \<Rightarrow> bool" where
  "cls_addr_ok s \<equiv> sockaddr_ok (cls_listen_address s)"

interpretation cls_order: avl_order compare_listening_sockets cls_addr_ok
  by (rule avl_order_key [where f = "\<lambda>s. sockaddr_key (cls_listen_address s)"])
    (simp add: compare_listening_sockets_def addrcmp_int_key)

definition cce_ok :: "conf_connect_entry \<Rightarrow> bool" where
  "cce_ok e \<longleftrightarrow> length (cce_fingerprint e) = NODE_ID_LEN \<and> cce_peer_type e \<noteq> CONF_PEER_TYPE_INVALID \<and>
     0 \<le> cce_cost e \<and> cce_cost e \<le> 32767"

definition cle_ok :: "conf_listen_entry \<Rightarrow> bool" where
  "cle_ok e \<longleftrightarrow> length (cle_fingerprint e) = NODE_ID_LEN \<and> cle_peer_type e \<noteq> CONF_PEER_TYPE_INVALID \<and>
     0 \<le> cle_cost e \<and> cle_cost e \<le> 32767 \<and> cle_fp_type e \<noteq> CONF_FP_TYPE_CNAME \<and> 1 \<le> cle_conn_limit e"

text \<open>At most one entry of a socket takes peers with any fingerprint.\<close>

definition wildcards :: "conf_listen_entry list \<Rightarrow> conf_listen_entry list" where
  "wildcards es = filter (\<lambda>e. cle_fp_type e = CONF_FP_TYPE_ANY) es"

definition cls_ok :: "conf_listening_socket \<Rightarrow> bool" where
  "cls_ok s \<longleftrightarrow> cls_addr_ok s \<and> avl_ordered compare_listen_entries (cls_listen_entries s) \<and>
     list_all cle_ok (cls_listen_entries s) \<and> cls_listen_entries s \<noteq> [] \<and>
     length (wildcards (cls_listen_entries s)) \<le> (if cls_have_wildcard_listen_entry s then 1 else 0)"

definition conf_wf :: "conf \<Rightarrow> bool" where
  "conf_wf c \<longleftrightarrow> avl_ordered compare_connect_entries (connect_entries c) \<and> list_all cce_ok (connect_entries c) \<and>
     avl_ordered compare_listening_sockets (listening_sockets c) \<and> list_all cls_ok (listening_sockets c)"

definition env_ok :: "conf_env \<Rightarrow> bool" where
  "env_ok env \<longleftrightarrow> (\<forall>s a. ce_pton6 env s = Some a \<longrightarrow> length a = 16) \<and>
     (\<forall>s a. ce_pton4 env s = Some a \<longrightarrow> length a = 4) \<and> length (ce_junk env) = NODE_ID_LEN"

text \<open>The names of the entries.\<close>

definition conf_names :: "conf \<Rightarrow> bytes multiset" where
  "conf_names c = mset (map cce_name (connect_entries c)) +
     mset (concat (map (\<lambda>s. map cle_name (cls_listen_entries s)) (listening_sockets c)))"

lemma avl_insert_mset: "avl_insert cmp x xs = Some ys \<Longrightarrow> mset ys = add_mset x (mset xs)"
  by (induction xs arbitrary: ys) (auto split: if_splits)

lemma avl_insert_split:
  "avl_insert cmp x xs = Some ys \<Longrightarrow> \<exists>ps qs. xs = ps @ qs \<and> ys = ps @ x # qs"
proof (induction xs arbitrary: ys)
  case (Cons y zs)
  show ?case
  proof (cases "cmp x y < 0")
    case True
    with Cons.prems have "y # zs = [] @ y # zs \<and> ys = [] @ x # y # zs" by auto
    then show ?thesis by blast
  next
    case False
    with Cons.prems obtain ws where ws: "avl_insert cmp x zs = Some ws" "ys = y # ws"
      by (auto split: if_splits)
    from Cons.IH [OF ws(1)] obtain ps qs where "zs = ps @ qs" "ws = ps @ x # qs" by blast
    with ws have "y # zs = (y # ps) @ qs \<and> ys = (y # ps) @ x # qs" by simp
    then show ?thesis by blast
  qed
qed simp

text \<open>Writing a socket back changes exactly the element with its address.\<close>

lemma set_listening_socket_split:
  assumes "avl_ordered compare_listening_sockets (ps @ s # qs)" "list_all cls_addr_ok (ps @ s # qs)"
    and "cls_listen_address s' = cls_listen_address s"
  shows "map (\<lambda>t. if compare_listening_sockets t s' = 0 then s' else t) (ps @ s # qs) = ps @ s' # qs"
proof -
  have s': "compare_listening_sockets t s' = compare_listening_sockets t s" for t
    by (simp add: compare_listening_sockets_def assms(3))
  have "compare_listening_sockets t s \<noteq> 0" if "t \<in> set ps" for t
    using that assms(1) by (auto simp: avl_ordered_append)
  moreover have "compare_listening_sockets t s \<noteq> 0" if "t \<in> set qs" for t
  proof -
    have "compare_listening_sockets s t < 0" using that assms(1) by (simp add: avl_ordered_append)
    moreover have "cls_addr_ok t" "cls_addr_ok s" using that assms(2) by (auto simp: list_all_iff)
    ultimately show ?thesis using cls_order.cmp_zero_iff [of t s] by auto
  qed
  moreover have "compare_listening_sockets s s = 0"
    using assms(2) by (simp add: cls_order.cmp_refl)
  ultimately show ?thesis by (simp add: s' map_idI)
qed

lemma cls_ordered_replace:
  assumes "avl_ordered compare_listening_sockets (ps @ s # qs)" "cls_listen_address s' = cls_listen_address s"
  shows "avl_ordered compare_listening_sockets (ps @ s' # qs)"
  using assms by (auto simp: avl_ordered_append compare_listening_sockets_def)


lemma cls_order_insert:
  assumes "avl_ordered compare_listening_sockets ss" "list_all cls_ok ss" "cls_addr_ok s"
    and "avl_insert compare_listening_sockets s ss = Some ts"
  shows "avl_ordered compare_listening_sockets ts"
  using cls_order.insert_ordered [OF assms(1) _ assms(4)] assms(2,3)
  by (auto simp: list_all_iff cls_ok_def)

text \<open>The addresses that are parsed.\<close>

lemma parse_listen_addr_ok:
  "env_ok env \<Longrightarrow> parse_listen_addr env listen p = Some a \<Longrightarrow> sockaddr_ok a"
  by (auto simp: parse_listen_addr_def env_ok_def sockaddr_ok_def htons_def Let_def
      split: option.splits if_splits)

text \<open>
  What \<^verbatim>\<open>get_listening_socket\<close> leaves: the socket with the given address is in the list, and
  is either one that was there or a new one without entries.
\<close>

lemma get_listening_socket_cases:
  assumes "env_ok env" "conf_wf (lc_conf lc)"
  obtains (fail) lc' where "get_listening_socket env lc listen = Inr (lc', None)"
  | (found) n cls ps qs where
      "get_listening_socket env lc listen =
         Inr (lc\<lparr>lc_conf := (lc_conf lc)\<lparr>listening_sockets := ps @ cls # qs\<rparr>, lc_allocs := n\<rparr>, Some cls)"
      "avl_ordered compare_listening_sockets (ps @ cls # qs)" "list_all cls_ok (ps @ qs)" "cls_addr_ok cls"
      "listening_sockets (lc_conf lc) = ps @ cls # qs \<and> cls_ok cls \<or>
       listening_sockets (lc_conf lc) = ps @ qs \<and> cls_listen_entries cls = [] \<and> \<not> cls_have_wildcard_listen_entry cls"
proof (cases "parse_listen_addr env listen (lc_default_port lc)")
  case None
  then show ?thesis by (intro fail) (simp add: get_listening_socket_def)
next
  case (Some addr)
  let ?ss = "listening_sockets (lc_conf lc)"
  let ?find = "avl_find (\<lambda>cls. addrcmp_int addr (cls_listen_address cls)) ?ss"
  let ?new = "\<lparr>cls_listen_address = addr, cls_have_wildcard_listen_entry = False, cls_listen_entries = []\<rparr>"
  have addr: "sockaddr_ok addr" using parse_listen_addr_ok assms(1) Some by blast
  have ss: "avl_ordered compare_listening_sockets ?ss" "list_all cls_ok ?ss"
    using assms(2) by (auto simp: conf_wf_def)
  show ?thesis
  proof (cases ?find)
    case (Some cls)
    then have "cls \<in> set ?ss" using avl_find_SomeD by fast
    then obtain ps qs where "?ss = ps @ cls # qs" by (auto dest: split_list)
    with ss Some \<open>parse_listen_addr _ _ _ = _\<close> show ?thesis
      by (intro found [where ps = ps and cls = cls and qs = qs and n = "lc_allocs lc"])
        (auto simp: get_listening_socket_def cls_ok_def)
  next
    case None
    have "avl_find (compare_listening_sockets ?new) ?ss = None"
      using None by (simp add: compare_listening_sockets_def [abs_def])
    moreover have "list_all cls_addr_ok (?new # ?ss)"
      using addr ss(2) by (auto simp: list_all_iff cls_ok_def)
    ultimately obtain ts where ts: "avl_insert compare_listening_sockets ?new ?ss = Some ts"
      using cls_order.insert_Some_find_None [OF ss(1)] by metis
    from avl_insert_split [OF ts] obtain ps qs where pq: "?ss = ps @ qs" "ts = ps @ ?new # qs" by blast
    have ord: "avl_ordered compare_listening_sockets ts"
      by (rule cls_order_insert [OF ss _ ts]) (simp add: addr)
    show ?thesis
    proof (cases "ce_alloc env (lc_allocs lc)")
      case True
      with Some None ts pq ord ss(2) addr show ?thesis
        by (intro found [where ps = ps and cls = ?new and qs = qs and n = "Suc (lc_allocs lc)"])
          (auto simp: get_listening_socket_def conf_alloc_def Let_def)
    next
      case False
      with Some None show ?thesis
        by (intro fail [of "lc\<lparr>lc_allocs := Suc (lc_allocs lc)\<rparr>"])
          (auto simp: get_listening_socket_def conf_alloc_def)
    qed
  qed
qed


lemma cle_insert:
  assumes "avl_ordered compare_listen_entries es" "list_all cle_ok es" "cle_ok e"
  defines "es' \<equiv> (case avl_insert compare_listen_entries e es of Some fs \<Rightarrow> fs | None \<Rightarrow> es)"
  shows "avl_ordered compare_listen_entries es' \<and> list_all cle_ok es' \<and> es' \<noteq> [] \<and>
    length (wildcards es') \<le> length (wildcards es) + (if cle_fp_type e = CONF_FP_TYPE_ANY then 1 else 0) \<and>
    (cle_name e \<notin> cle_name ` set es \<longrightarrow> mset (map cle_name es') = add_mset (cle_name e) (mset (map cle_name es)))"
proof (cases "avl_insert compare_listen_entries e es")
  case None
  then obtain f where "f \<in> set es" "cle_name e = cle_name f"
    using cle_order.insert_None [OF assms(1)] by (auto simp: compare_listen_entries_def list_all_iff)
  with None assms show ?thesis by (auto simp: es'_def)
next
  case (Some fs)
  then have es': "es' = fs" by (simp add: es'_def)
  have ord: "avl_ordered compare_listen_entries fs"
    using cle_order.insert_ordered [OF assms(1) _ Some] by (simp add: list_all_iff)
  have ms: "mset fs = add_mset e (mset es)" by (rule avl_insert_mset [OF Some])
  then have "set fs = insert e (set es)" by (metis set_mset_add_mset_insert set_mset_mset)
  with assms(2,3) have "list_all cle_ok fs" "fs \<noteq> []" by (auto simp: list_all_iff)
  moreover have "mset (wildcards fs) = mset (wildcards (e # es))"
    by (simp add: wildcards_def ms)
  then have "length (wildcards fs) = length (wildcards (e # es))" by (rule mset_eq_length)
  moreover have "mset (map cle_name fs) = add_mset (cle_name e) (mset (map cle_name es))"
    by (simp add: ms)
  ultimately show ?thesis using ord by (simp add: es' wildcards_def)
qed

lemma add_connect_peer_step:
  assumes "conf_wf (lc_conf lc)" "NODE_ID_LEN \<le> length fp" "peer_type \<noteq> CONF_PEER_TYPE_INVALID"
    "0 \<le> cost" "cost \<le> 32767" "add_connect_peer env lc peer connect fp_type fp peer_type itf cost = (ret, lc')"
  shows "ret \<in> {0, -1} \<and> (ret = 0 \<longrightarrow> conf_wf (lc_conf lc') \<and>
    conf_names (lc_conf lc') = add_mset peer (conf_names (lc_conf lc)))"
proof (cases "ret = 0")
  case False
  with assms(6) show ?thesis
    by (auto simp: add_connect_peer_def conf_alloc_def Let_def split: option.splits if_splits)
next
  case True
  with assms(6) obtain port where port: "port_part (lc_default_port lc) connect (port_delim connect) = Some port"
    by (auto simp: add_connect_peer_def Let_def split: option.splits)
  define cce where "cce = \<lparr>cce_name = peer, cce_hostname = host_part connect (port_delim connect),
    cce_port = print_int port, cce_fp_type = fp_type, cce_fingerprint = take NODE_ID_LEN fp,
    cce_peer_type = peer_type, cce_tunitf = (case itf of Some i \<Rightarrow> i | None \<Rightarrow> cstr ''dvpn%d''), cce_cost = cost\<rparr>"
  have eq: "add_connect_peer env lc peer connect fp_type fp peer_type itf cost =
    (let (mem, lc) = conf_alloc env lc in if \<not> mem then (-1, lc)
     else case avl_insert compare_connect_entries cce (connect_entries (lc_conf lc)) of
       None \<Rightarrow> (-1, lc) | Some es \<Rightarrow> (0, lc\<lparr>lc_conf := (lc_conf lc)\<lparr>connect_entries := es\<rparr>\<rparr>))"
    unfolding add_connect_peer_def cce_def by (simp only: port option.case Let_def)
  with True assms(6) obtain es where
    ins: "avl_insert compare_connect_entries cce (connect_entries (lc_conf lc)) = Some es"
    and lc': "lc' = lc\<lparr>lc_allocs := Suc (lc_allocs lc), lc_conf := (lc_conf lc)\<lparr>connect_entries := es\<rparr>\<rparr>"
    by (auto simp: conf_alloc_def split: option.splits if_splits)
  have cce: "cce_name cce = peer" "cce_fingerprint cce = take NODE_ID_LEN fp" "cce_peer_type cce = peer_type"
    "cce_cost cce = cost" by (simp_all add: cce_def)
  have "avl_ordered compare_connect_entries es"
    using cce_order.insert_ordered [OF _ _ ins] assms(1) by (simp add: conf_wf_def list_all_iff)
  moreover have "list_all cce_ok es"
    using assms cce avl_insert_set [OF ins] by (auto simp: list_all_iff conf_wf_def cce_ok_def)
  ultimately show ?thesis
    using True assms(1) cce avl_insert_mset [OF ins] by (simp add: lc' conf_wf_def conf_names_def)
qed

lemma add_listen_peer_step:
  assumes "env_ok env" "conf_wf (lc_conf lc)" "NODE_ID_LEN \<le> length fp"
    "peer_type \<noteq> CONF_PEER_TYPE_INVALID" "0 \<le> cost" "cost \<le> 32767" "fp_type \<noteq> CONF_FP_TYPE_CNAME" "1 \<le> conn_limit"
  shows "\<exists>ret lc'. add_listen_peer env lc peer listen fp_type fp peer_type itf cost conn_limit = Inr (ret, lc') \<and>
    ret \<in> {0, -1} \<and> (ret = 0 \<longrightarrow> conf_wf (lc_conf lc') \<and> (peer \<notin># conf_names (lc_conf lc) \<longrightarrow>
    conf_names (lc_conf lc') = add_mset peer (conf_names (lc_conf lc))))"
proof (cases rule: get_listening_socket_cases [OF assms(1,2), where listen = listen, case_names fail found])
  case (fail lc')
  then show ?thesis by (simp add: add_listen_peer_def)
next
  case (found n cls ps qs)
  let ?lc = "lc\<lparr>lc_conf := (lc_conf lc)\<lparr>listening_sockets := ps @ cls # qs\<rparr>, lc_allocs := n\<rparr>"
  let ?es = "cls_listen_entries cls"
  define cle where "cle = \<lparr>cle_name = peer, cle_fp_type = fp_type, cle_fingerprint = take NODE_ID_LEN fp,
    cle_peer_type = peer_type, cle_tunitf = (case itf of Some i \<Rightarrow> i | None \<Rightarrow> cstr ''dvpn%d''),
    cle_cost = cost, cle_conn_limit = conn_limit\<rparr>"
  define es where "es = (case avl_insert compare_listen_entries cle ?es of Some es \<Rightarrow> es | None \<Rightarrow> ?es)"
  define cls' where "cls' = (let c = cls\<lparr>cls_listen_entries := es\<rparr> in if fp_type = CONF_FP_TYPE_ANY
    then c\<lparr>cls_have_wildcard_listen_entry := True\<rparr> else c)"
  have cls'_simps: "cls_listen_address cls' = cls_listen_address cls" "cls_listen_entries cls' = es"
    "cls_have_wildcard_listen_entry cls' \<longleftrightarrow> cls_have_wildcard_listen_entry cls \<or> fp_type = CONF_FP_TYPE_ANY"
    by (auto simp: cls'_def Let_def)
  have old: "avl_ordered compare_listen_entries ?es" "list_all cle_ok ?es"
    "length (wildcards ?es) \<le> (if cls_have_wildcard_listen_entry cls then 1 else 0)"
    using found(5) by (auto simp: cls_ok_def wildcards_def)
  have "cle_ok cle" using assms by (simp add: cle_ok_def cle_def)
  note es = cle_insert [OF old(1,2) this, folded es_def]
  show ?thesis
  proof (cases "cls_have_wildcard_listen_entry cls \<and> fp_type = CONF_FP_TYPE_ANY \<or> \<not> ce_alloc env n")
    case True
    with found(1) show ?thesis by (auto simp: add_listen_peer_def conf_alloc_def)
  next
    case False
    have "cls_ok cls'"
      using es old(3) found(4) False by (auto simp: cls_ok_def cls'_simps cle_def split: if_splits)
    moreover have "avl_ordered compare_listening_sockets (ps @ cls' # qs)"
      by (rule cls_ordered_replace [OF found(2) cls'_simps(1)])
    moreover have "add_listen_peer env lc peer listen fp_type fp peer_type itf cost conn_limit =
      Inr (0, set_listening_socket cls' (?lc\<lparr>lc_allocs := Suc n\<rparr>))"
      using found(1) False unfolding cls'_def es_def cle_def
      by (simp add: add_listen_peer_def conf_alloc_def Let_def)
    moreover have "list_all cls_addr_ok (ps @ cls # qs)"
      using found(3,4) by (auto simp: list_all_iff cls_ok_def)
    note set_listening_socket_split [OF found(2) this cls'_simps(1)]
    then have "lc_conf (set_listening_socket cls' (?lc\<lparr>lc_allocs := Suc n\<rparr>)) =
      (lc_conf lc)\<lparr>listening_sockets := ps @ cls' # qs\<rparr>"
      by (simp add: set_listening_socket_def)
    moreover have "mset (map cle_name es) = add_mset peer (mset (map cle_name ?es))" if "peer \<notin># conf_names (lc_conf lc)"
      using that es found(5) by (auto simp: conf_names_def cle_def)
    ultimately show ?thesis
      using assms(2) found(3,5) by (auto simp: conf_wf_def conf_names_def cls'_simps)
  qed
qed


lemma parse_base32_length: "length (snd (parse_base32_fingerprint fp)) = NODE_ID_LEN"
proof -
  have "length (snd (parse_base32_from is fp nid)) = length nid" for "is" nid
    by (induction "is" arbitrary: nid) (auto simp: Let_def)
  then show ?thesis by (simp add: parse_base32_fingerprint_def)
qed

lemma parse_hostname_length:
  "length nid = NODE_ID_LEN \<Longrightarrow> length (snd (parse_hostname_fingerprint nid h)) = NODE_ID_LEN"
proof (induction nid h rule: parse_hostname_fingerprint.induct)
  case (1 nid h)
  have "length (snd (parse_base32_fingerprint (drop 4 h))) = NODE_ID_LEN" by (rule parse_base32_length)
  with 1 show ?case
    by (subst parse_hostname_fingerprint.simps) (auto simp: Let_def split: list.splits prod.splits)
qed

lemma scan_hex_id_length: "fst (scan_hex_id n s) \<le> n \<and> length (snd (scan_hex_id n s)) = fst (scan_hex_id n s)"
  by (induction n s rule: scan_hex_id.induct) (auto split: option.splits prod.splits)

lemma parse_fingerprint_length:
  "length nid = NODE_ID_LEN \<Longrightarrow> length (snd (parse_fingerprint nid fp)) = NODE_ID_LEN"
  using scan_hex_id_length [of NODE_ID_LEN fp] parse_base32_length [of fp]
  by (auto simp: parse_fingerprint_def Let_def split: prod.splits)

lemma peer_fp_type_ok:
  assumes "length (ce_junk env) = NODE_ID_LEN" "peer_fp_type env connect fp = Some (t, f)"
  shows "length f = NODE_ID_LEN \<and> (t = Some CONF_FP_TYPE_CNAME \<longrightarrow> connect \<noteq> None)"
proof (cases fp)
  case (Some x)
  with assms show ?thesis
    using parse_fingerprint_length [OF assms(1), of x]
    by (auto simp: peer_fp_type_def split: if_splits prod.splits)
qed (use assms in \<open>auto simp: peer_fp_type_def\<close>)

lemma peer_fingerprint_ok:
  assumes "length (ce_junk env) = NODE_ID_LEN" "peer_fingerprint env connect fp = Some (t, f)"
  shows "length f = NODE_ID_LEN \<and> (t = CONF_FP_TYPE_CNAME \<longrightarrow> connect \<noteq> None)"
proof -
  obtain ret cfp where c: "(case connect of Some c \<Rightarrow> parse_hostname_fingerprint (ce_junk env) c
      | None \<Rightarrow> (-1, ce_junk env)) = (ret, cfp)" by force
  then have "length cfp = NODE_ID_LEN"
    using assms(1) parse_hostname_length [OF assms(1)] by (auto split: option.splits) (metis snd_conv)
  then show ?thesis
    using assms(2) [unfolded peer_fingerprint_def c Let_def prod.case] peer_fp_type_ok [OF assms(1), of connect fp]
    by (auto split: option.splits if_splits)
qed

lemma peer_int_ok: "peer_int co peer name valid d = Some v \<Longrightarrow> v = d \<or> valid v"
  by (auto simp: peer_int_def Let_def split: prod.splits if_splits)

definition conf_step :: "bytes \<Rightarrow> local_conf \<Rightarrow> int \<times> local_conf \<Rightarrow> bool" where
  "conf_step peer lc r \<longleftrightarrow> fst r \<in> {0, -1} \<and> (fst r = 0 \<longrightarrow> conf_wf (lc_conf (snd r)) \<and>
     (peer \<notin># conf_names (lc_conf lc) \<longrightarrow> conf_names (lc_conf (snd r)) = add_mset peer (conf_names (lc_conf lc))))"

lemma conf_step_fail [simp]: "conf_step peer lc (-1, lc')"
  by (simp add: conf_step_def)

lemma parse_config_peer_step:
  assumes "env_ok env" "conf_wf (lc_conf lc)"
  shows "\<exists>r. parse_config_peer env co lc peer = Inr r \<and> conf_step peer lc r"
proof -
  let ?connect = "get_const_value co peer (cstr ''Connect'')"
  let ?listen = "get_const_value co peer (cstr ''Listen'')"
  let ?fp = "peer_fingerprint env ?connect (get_const_value co peer (cstr ''PeerFingerprint''))"
  let ?cost = "peer_int co peer (cstr ''Cost'') (\<lambda>c. 1 \<le> c \<and> c \<le> 32767) 0"
  let ?limit = "peer_int co peer (cstr ''ConnectionLimit'') (\<lambda>c. 1 \<le> c) 1"
  define peer_type where "peer_type = (case get_const_value co peer (cstr ''PeerType'') of
    Some pt \<Rightarrow> parse_peer_type pt
  | None \<Rightarrow> if ?connect \<noteq> None then CONF_PEER_TYPE_TRANSIT else CONF_PEER_TYPE_CUSTOMER)"
  show ?thesis
  proof (cases "(?connect = None) = (?listen = None) \<or> ?fp = None \<or> peer_type = CONF_PEER_TYPE_INVALID \<or>
      ?cost = None \<or> ?limit = None")
    case True
    then have "parse_config_peer env co lc peer = Inr (-1, lc)"
      by (auto simp: parse_config_peer_def peer_type_def Let_def split: option.splits)
    then show ?thesis by simp
  next
    case False
    then obtain t f cost limit where c: "?fp = Some (t, f)" "?cost = Some cost" "?limit = Some limit" by auto
    have ok: "NODE_ID_LEN \<le> length f" "t = CONF_FP_TYPE_CNAME \<longrightarrow> ?connect \<noteq> None" "0 \<le> cost" "cost \<le> 32767" "1 \<le> limit"
      using peer_fingerprint_ok [OF _ c(1)] assms(1) peer_int_ok [OF c(2)] peer_int_ok [OF c(3)]
      by (auto simp: env_ok_def)
    show ?thesis
    proof (cases ?connect)
      case (Some h)
      obtain ret lc' where r: "add_connect_peer env lc peer h t f peer_type
          (get_const_value co peer (cstr ''TunInterface'')) cost = (ret, lc')" by force
      with Some False c have "parse_config_peer env co lc peer = Inr (ret, lc')"
        by (simp add: parse_config_peer_def peer_type_def Let_def split: option.splits)
      moreover have "conf_step peer lc (ret, lc')"
        using add_connect_peer_step [OF assms(2) ok(1) _ ok(3,4) r] False by (auto simp: conf_step_def)
      ultimately show ?thesis by blast
    next
      case None
      have "parse_config_peer env co lc peer = add_listen_peer env lc peer (the ?listen) t f peer_type
          (get_const_value co peer (cstr ''TunInterface'')) cost limit"
        using None False c by (auto simp: parse_config_peer_def peer_type_def Let_def split: option.splits)
      then show ?thesis
        using add_listen_peer_step [OF assms ok(1) _ ok(3,4) _ ok(5), of peer_type t peer "the ?listen"
            "get_const_value co peer (cstr ''TunInterface'')"] False ok(2) None
        by (auto simp: conf_step_def)
    qed
  qed
qed

lemma parse_config_sections_step:
  assumes "env_ok env" "conf_wf (lc_conf lc)"
  defines "peers \<equiv> \<lambda>ss. filter (\<lambda>s. strcasecmp s default_section \<noteq> 0) ss"
  shows "\<exists>r. parse_config_sections env co ss lc = Inr r \<and> (\<forall>lc'. r = Some lc' \<longrightarrow> conf_wf (lc_conf lc') \<and>
    (distinct ss \<and> (\<forall>s \<in> set ss. s \<notin># conf_names (lc_conf lc)) \<longrightarrow>
      conf_names (lc_conf lc') = conf_names (lc_conf lc) + mset (peers ss)))"
  using assms(2)
proof (induction ss arbitrary: lc)
  case (Cons s ss)
  show ?case
  proof (cases "strcasecmp s default_section = 0")
    case True
    with Cons.IH [OF Cons.prems] show ?thesis by (auto simp: peers_def)
  next
    case False
    obtain ret lc1 where r: "parse_config_peer env co lc s = Inr (ret, lc1)" "conf_step s lc (ret, lc1)"
      using parse_config_peer_step [OF assms(1) Cons.prems, of co s] by auto
    show ?thesis
    proof (cases "ret < 0")
      case True
      with False r show ?thesis by simp
    next
      case ok: False
      with r(2) have wf: "conf_wf (lc_conf lc1)" and nm: "s \<notin># conf_names (lc_conf lc) \<Longrightarrow>
          conf_names (lc_conf lc1) = add_mset s (conf_names (lc_conf lc))" by (auto simp: conf_step_def)
      from Cons.IH [OF wf] obtain q where q: "parse_config_sections env co ss lc1 = Inr q"
        "\<forall>lc'. q = Some lc' \<longrightarrow> conf_wf (lc_conf lc') \<and>
          (distinct ss \<and> (\<forall>s \<in> set ss. s \<notin># conf_names (lc_conf lc1)) \<longrightarrow>
            conf_names (lc_conf lc') = conf_names (lc_conf lc1) + mset (peers ss))" by blast
      have "parse_config_sections env co (s # ss) lc = Inr q" using False r(1) ok q(1) by simp
      then show ?thesis using q(2) nm False
        by (intro exI [of _ q]) (auto simp: peers_def simp del: parse_config_sections.simps)
    qed
  qed
qed (simp add: peers_def)


lemma parse_config_default_empty:
  assumes "parse_config_default env co lc = (ret, lc')"
  shows "connect_entries (lc_conf lc') = connect_entries (lc_conf lc)"
    "listening_sockets (lc_conf lc') = listening_sockets (lc_conf lc)"
  using assms by (auto simp: parse_config_default_def Let_def split: option.splits prod.splits if_splits)

lemma parse_config_cases:
  assumes "env_ok env"
  shows "\<exists>r. parse_config env cfg = Inr r \<and> (\<forall>c. r = Some c \<longrightarrow> conf_wf c \<and>
    (\<forall>co ss. cfg = Some co \<and> ini_sections co = Some ss \<and> distinct ss \<longrightarrow>
      conf_names c = mset (filter (\<lambda>s. strcasecmp s default_section \<noteq> 0) ss)))"
proof (cases "\<not> ce_alloc env 0 \<or> cfg = None")
  case True
  then show ?thesis by (auto simp: parse_config_def split: option.splits)
next
  case False
  then obtain co where co: "cfg = Some co" "ce_alloc env 0" by auto
  let ?lc = "\<lparr>lc_conf = \<lparr>node_name = None, private_key = None, role_key = None, connect_entries = [],
      listening_sockets = []\<rparr>, lc_default_port = 19275, lc_allocs = 1\<rparr>"
  obtain ret lc where d: "parse_config_default env co ?lc = (ret, lc)" by force
  from parse_config_default_empty [OF d] have empty: "conf_wf (lc_conf lc)" "conf_names (lc_conf lc) = {#}"
    by (auto simp: conf_wf_def conf_names_def)
  show ?thesis
  proof (cases "ret < 0 \<or> ini_sections co = None")
    case True
    with co d empty show ?thesis by (auto simp: parse_config_def)
  next
    case False
    then obtain ss where ss: "ini_sections co = Some ss" by auto
    from parse_config_sections_step [OF assms empty(1)] obtain r where
      r: "parse_config_sections env co ss lc = Inr r" "\<forall>lc'. r = Some lc' \<longrightarrow> conf_wf (lc_conf lc') \<and>
        (distinct ss \<longrightarrow> conf_names (lc_conf lc') = mset (filter (\<lambda>s. strcasecmp s default_section \<noteq> 0) ss))"
      unfolding empty(2) by fastforce
    have "parse_config env cfg = Inr (map_option lc_conf r)"
      using co d ss False r(1) by (simp add: parse_config_def)
    with r(2) co ss show ?thesis by auto
  qed
qed

text \<open>C39: parsing never aborts, and a configuration it returns is well-formed: its containers are
  ordered (so names are unique), fingerprints have 32 bytes, costs and limits are in range, every
  socket has an entry, at most one of them for any fingerprint.\<close>

theorem parse_config_well_formed:
  assumes "env_ok env"
  shows "\<exists>r. parse_config env cfg = Inr r \<and> (\<forall>c. r = Some c \<longrightarrow> conf_wf c)"
  using parse_config_cases [OF assms, of cfg] by blast

text \<open>A configuration that is returned has exactly one entry for each section of the file
  other than the default one.\<close>

theorem parse_config_complete:
  assumes "env_ok env" "parse_config env (Some co) = Inr (Some c)" "ini_sections co = Some ss" "distinct ss"
  shows "conf_names c = mset (filter (\<lambda>s. strcasecmp s default_section \<noteq> 0) ss)"
  using parse_config_cases [OF assms(1), of "Some co"] assms(2-4) by auto


section \<open>Numbers, node ids and addresses are read back\<close>

lemma decimal_digit:
  assumes "d < 10"
  shows "isdigit (of_nat (48 + d)) \<and> xdigit_val (of_nat (48 + d)) = d"
proof -
  have "d \<in> {0, 1, 2, 3, 4, 5, 6, 7, 8, 9}" using assms by auto
  then show ?thesis by (auto simp: isdigit_def xdigit_val_def)
qed

lemma number_val_snoc [simp]: "number_val b (ds @ [c]) = b * number_val b ds + xdigit_val c"
  by (simp add: number_val_def)

lemma print_nat_digits: "print_nat n \<noteq> [] \<and> list_all isdigit (print_nat n) \<and> number_val 10 (print_nat n) = n"
proof (induction n rule: print_nat.induct)
  case (1 n)
  show ?case
  proof (cases "n < 10")
    case True
    then show ?thesis using decimal_digit [of n] by (subst (1 2 3) print_nat.simps) (simp add: number_val_def)
  next
    case False
    then show ?thesis using 1 decimal_digit [of "n mod 10"] by (subst (1 2 3) print_nat.simps) simp
  qed
qed

lemma isdigit_neq: "isdigit c \<Longrightarrow> \<not> isspace c \<and> c \<noteq> 45 \<and> c \<noteq> 43 \<and> c \<noteq> 58 \<and> isxdigit c"
  by (auto simp: isdigit_def isspace_def isxdigit_def word_le_nat_alt)

lemma scan_sign_digits:
  assumes "ds \<noteq> []" "list_all isxdigit ds"
  shows "scan_sign (ds @ rest) = (False, ds @ rest)"
proof -
  obtain d es where d: "ds = d # es" using assms(1) by (cases ds) auto
  with assms(2) have "\<not> isspace d" "d \<noteq> 45" "d \<noteq> 43"
    by (auto simp: isxdigit_def isdigit_def isspace_def word_le_nat_alt)
  with d show ?thesis by (simp add: scan_sign_def cstr_at_def)
qed

lemma takeWhile_all: "list_all P ds \<Longrightarrow> \<not> P (cstr_at rest 0) \<Longrightarrow> takeWhile P (ds @ rest) = ds \<and> dropWhile P (ds @ rest) = rest"
  by (cases rest) (induction ds, auto simp: cstr_at_def)+

lemma scan_d_nat:
  assumes "n < 2 ^ 31" "\<not> isdigit (cstr_at rest 0)"
  shows "scan_d (print_nat n @ rest) = Some (int n)"
proof -
  have ds: "print_nat n \<noteq> []" "list_all isdigit (print_nat n)" "number_val 10 (print_nat n) = n"
    using print_nat_digits by auto
  have "list_all isxdigit (print_nat n)"
    using ds(2) isdigit_neq by (metis list.pred_mono_strong)
  moreover have "sint (word_of_int (int n) :: u32) = int n"
    using assms(1) by (simp add: signed_of_nat signed_take_bit_int_eq_self)
  ultimately show ?thesis
    using ds assms takeWhile_all [OF ds(2) assms(2)] scan_sign_digits [of "print_nat n" rest]
    by (simp add: scan_d_def)
qed

text \<open>The characters of a node id in base 32 contain no colon.\<close>

lemma base32_no_colon: "n < 32 \<Longrightarrow> base32 ! n \<noteq> 58"
proof -
  have "58 \<notin> set base32" by (simp add: base32_def)
  then show "n < 32 \<Longrightarrow> base32 ! n \<noteq> 58" by (metis base32_length nth_mem)
qed

lemma scan_hhx_rest:
  assumes "scan_hhx s = Some (b, rest)" "58 \<notin> set s"
  shows "cstr_at rest 0 \<noteq> 58"
proof -
  have sub: "58 \<notin> set (drop n t)" "58 \<notin> set (dropWhile P t)" if "58 \<notin> set t" for n t and P :: "byte \<Rightarrow> bool"
    using that by (auto dest: in_set_dropD set_dropWhileD)
  have "58 \<notin> set (snd (scan_sign s))"
    using sub [of s] sub(1) [of "dropWhile isspace s"] assms(2) by (auto simp: scan_sign_def Let_def)
  with assms(1) have "58 \<notin> set rest"
    by (auto simp: scan_hhx_def Let_def split: prod.splits if_splits dest!: set_dropWhileD in_set_dropD)
  then show ?thesis by (cases rest) (auto simp: cstr_at_def)
qed

lemma scan_hex_id_no_colon: "58 \<notin> set s \<Longrightarrow> fst (scan_hex_id (Suc (Suc n)) s) \<le> 1"
  using scan_hhx_rest by (auto split: option.splits)

lemma parse_fingerprint_base32:
  assumes "length nid = NODE_ID_LEN"
  shows "parse_fingerprint f (print_fingerprint nid) = (0, nid)"
proof -
  have "58 \<notin> set (print_fingerprint nid)"
    using base32_no_colon get_chunk_small by (auto simp: print_fingerprint_def)
  then have "fst (scan_hex_id NODE_ID_LEN (print_fingerprint nid)) \<le> 1"
    using scan_hex_id_no_colon [of _ 30] by (simp add: NODE_ID_LEN_def numeral_eq_Suc del: scan_hex_id.simps)
  moreover have "length (print_fingerprint nid) = 52" by (simp add: print_fingerprint_def)
  ultimately show ?thesis
    using parse_print_id [OF assms] by (auto simp: parse_fingerprint_def NODE_ID_LEN_def split: prod.splits)
qed

text \<open>
  \<^verbatim>\<open>src/show-key-id.c\<close>: the line \<^verbatim>\<open>show_key_id_hex\<close> prints (\<open>%.2x\<close> for every byte, separated by
  colons and ended by a newline).
\<close>

definition hex_digit :: "nat \<Rightarrow> byte" where
  "hex_digit n = (if n < 10 then of_nat (48 + n) else of_nat (87 + n))"

fun print_key_id_hex :: "bytes \<Rightarrow> bytes" where
  "print_key_id_hex [] = []"
| "print_key_id_hex (b # bs) =
     [hex_digit (unat b div 16), hex_digit (unat b mod 16), of_char (if bs \<noteq> [] then CHR '':'' else CHR ''\<newline>'')] @
     print_key_id_hex bs"

lemma hex_digit_val:
  assumes "d < 16"
  shows "isxdigit (hex_digit d) \<and> xdigit_val (hex_digit d) = d \<and> tolower (hex_digit d) \<noteq> 120"
proof (cases "d < 10")
  case True
  moreover from True decimal_digit have "isdigit (of_nat (48 + d))" by blast
  then have "tolower (of_nat (48 + d)) \<noteq> 120"
    by (auto simp: tolower_def isdigit_def word_le_nat_alt)
  ultimately show ?thesis using decimal_digit [OF True] by (simp add: hex_digit_def isxdigit_def)
next
  case False
  with assms have "d = 10 \<or> d = 11 \<or> d = 12 \<or> d = 13 \<or> d = 14 \<or> d = 15" by linarith
  then show ?thesis
    by (elim disjE) (simp_all add: hex_digit_def isxdigit_def isdigit_def xdigit_val_def tolower_def)
qed

lemma scan_hhx_byte:
  assumes "\<not> isxdigit (cstr_at rest 0)"
  shows "scan_hhx (hex_digit (unat b div 16) # hex_digit (unat b mod 16) # rest) = Some (b, rest)"
proof -
  let ?ds = "[hex_digit (unat b div 16), hex_digit (unat b mod 16)]"
  have "unat b < 256" using unsigned_less [of b, where ?'a = nat] by simp
  then have "unat b div 16 < 16" by auto
  then have h: "isxdigit (hex_digit (unat b div 16))" "xdigit_val (hex_digit (unat b div 16)) = unat b div 16"
      "isxdigit (hex_digit (unat b mod 16))" "xdigit_val (hex_digit (unat b mod 16)) = unat b mod 16"
      "tolower (hex_digit (unat b mod 16)) \<noteq> 120"
    using hex_digit_val by auto
  then have sign: "scan_sign (?ds @ rest) = (False, ?ds @ rest)"
    by (intro scan_sign_digits) auto
  have "takeWhile isxdigit (?ds @ rest) = ?ds \<and> dropWhile isxdigit (?ds @ rest) = rest"
    by (rule takeWhile_all) (use h assms in auto)
  moreover have "number_val 16 ?ds = unat b" using h by (simp add: number_val_def)
  moreover have "tolower (cstr_at (?ds @ rest) 1) \<noteq> 120" using h(5) by (simp add: cstr_at_def)
  ultimately show ?thesis
    using sign \<open>unat b < 256\<close> by (simp add: scan_hhx_def)
qed

lemma scan_hex_id_printed:
  "nid \<noteq> [] \<Longrightarrow> scan_hex_id (length nid) (print_key_id_hex nid) = (length nid, nid)"
proof (induction nid)
  case (Cons b bs)
  show ?case
  proof (cases "bs = []")
    case True
    then show ?thesis by (simp add: scan_hhx_byte cstr_at_def isxdigit_def isdigit_def)
  next
    case False
    then have "length bs \<noteq> 0" by simp
    with Cons.IH [OF False] False show ?thesis
      by (simp add: scan_hhx_byte cstr_at_def isxdigit_def isdigit_def)
  qed
qed simp

text \<open>Both texts the program prints for a node id, \<^verbatim>\<open>show-key-id\<close> in base 32 and \<^verbatim>\<open>show-key-id-hex\<close>
  in hexadecimal, are read back as that id when they are given as a \<^verbatim>\<open>PeerFingerprint\<close>.\<close>

theorem parse_fingerprint_printed:
  assumes "length nid = NODE_ID_LEN"
  shows "parse_fingerprint f (print_fingerprint nid) = (0, nid) \<and>
    parse_fingerprint f (print_key_id_hex nid) = (0, nid @ drop NODE_ID_LEN f)"
proof -
  have "nid \<noteq> []" using assms by (auto simp: NODE_ID_LEN_def)
  then show ?thesis
    using parse_fingerprint_base32 [OF assms] scan_hex_id_printed [of nid] assms
    by (simp add: parse_fingerprint_def)
qed

theorem parse_fingerprint_printed_witness:
  "parse_fingerprint [] (print_fingerprint (replicate 31 0 @ [0xa5])) = (0, replicate 31 0 @ [0xa5]) \<and>
   parse_fingerprint [] (print_key_id_hex (replicate 31 0 @ [0xa5])) = (0, (replicate 31 0 @ [0xa5]) @ drop NODE_ID_LEN [])"
  by (rule parse_fingerprint_printed) (simp add: NODE_ID_LEN_def)


text \<open>How an address of a configuration is cut, as both users of it do.\<close>

definition conf_address :: "int \<Rightarrow> bytes \<Rightarrow> (bytes \<times> int) option" where
  "conf_address dflt s = map_option (\<lambda>p. (host_part s (port_delim s), p)) (port_part dflt s (port_delim s))"

lemma strchr_append: "strchr (xs @ ys) c = (case strchr xs c of Some i \<Rightarrow> Some i
    | None \<Rightarrow> map_option (\<lambda>i. length xs + i) (strchr ys c))"
  by (induction xs; cases "strchr ys c") (auto split: option.splits)

lemma strchr_None [simp]: "strchr xs c = None \<longleftrightarrow> c \<notin> set xs"
  by (induction xs) auto

lemma strchr_notin: "c \<notin> set xs \<Longrightarrow> strchr xs c = None"
  by simp

lemma strstr_None: "x \<notin> set s \<Longrightarrow> strstr s (x # ys) = None"
  by (induction s) auto

lemma strstr_here: "x \<notin> set xs \<Longrightarrow> strstr (xs @ x # ys @ zs) (x # ys) = Some (length xs)"
  by (induction xs) auto

lemma print_nat_no: "c \<in> set (print_nat n) \<Longrightarrow> isdigit c"
  using print_nat_digits by (auto simp: list_all_iff)

text \<open>A host without colons or brackets, alone or followed by a port, and an IPv6 address in
  brackets followed by a port or bare, are cut as they were meant; the port is read back as
  it is printed, and a missing one is the default.\<close>

theorem conf_address_forms:
  assumes "58 \<notin> set h" "91 \<notin> set h" "93 \<notin> set h" "93 \<notin> set v6" "91 \<notin> set v6"
    and "v6 = a @ 58 # b @ 58 # c" "p < 65536"
  shows "conf_address dflt h = Some (h, dflt) \<and>
    conf_address dflt (h @ 58 # print_nat p) = Some (h, int p) \<and>
    conf_address dflt (91 # v6 @ 93 # 58 # print_nat p) = Some (v6, int p) \<and>
    conf_address dflt v6 = Some (v6, dflt)"
proof (intro conjI)
  have p: "scan_d (print_nat p) = Some (int p)"
    using scan_d_nat [of p "[]"] assms(7) by (simp add: cstr_at_def isdigit_def)
  have digits: "58 \<notin> set (print_nat p)" "93 \<notin> set (print_nat p)"
    using print_nat_no [of 58 p] print_nat_no [of 93 p] by (auto simp: isdigit_def)
  have first: "cstr_at (xs @ 58 # ys) 0 \<noteq> 91" "cstr_at xs 0 \<noteq> 91" if "91 \<notin> set xs" for xs ys
    using that by (cases xs; auto simp: cstr_at_def)+
  have delim: "cstr '']:'' = [93, 58]" by (simp add: cstr_def)
  show "conf_address dflt h = Some (h, dflt)"
    using assms(1-3) first by (simp add: conf_address_def port_delim_def delim strstr_None strchr_notin host_part_def port_part_def)
  show "conf_address dflt (h @ 58 # print_nat p) = Some (h, int p)"
    using assms(1-3) first digits p
    by (simp add: conf_address_def port_delim_def delim strstr_None strchr_append strchr_notin host_part_def port_part_def)
  have "strstr (91 # v6 @ 93 # 58 # print_nat p) [93, 58] = Some (Suc (length v6))"
    using strstr_here [of 93 "91 # v6" "[58]" "print_nat p"] assms(4) by simp
  then show "conf_address dflt (91 # v6 @ 93 # 58 # print_nat p) = Some (v6, int p)"
    using assms(4) p by (simp add: conf_address_def port_delim_def delim strchr_append strchr_notin host_part_def
        port_part_def cstr_at_def del: strstr.simps)
  obtain i where i: "strchr v6 58 = Some i" "58 \<in> set (drop (Suc i) v6)"
  proof (cases "strchr a 58")
    case None
    then show ?thesis using that [of "length a"] assms(6) by (auto simp: strchr_append simp del: strchr_None)
  next
    case (Some i)
    have "i < length a" using Some by (induction a arbitrary: i) (auto split: if_splits)
    then show ?thesis using that [of i] Some assms(6) by (auto simp: strchr_append)
  qed
  then show "conf_address dflt v6 = Some (v6, dflt)"
    using assms(4,5) first by (simp add: conf_address_def port_delim_def delim strstr_None strchr_notin host_part_def
        port_part_def)
qed

theorem conf_address_forms_witness:
  "conf_address 19275 (cstr ''hub'') = Some (cstr ''hub'', 19275) \<and>
   conf_address 19275 (cstr ''hub'' @ 58 # print_nat 443) = Some (cstr ''hub'', int 443) \<and>
   conf_address 19275 (91 # cstr ''::1'' @ 93 # 58 # print_nat 443) = Some (cstr ''::1'', int 443) \<and>
   conf_address 19275 (cstr ''::1'') = Some (cstr ''::1'', 19275)"
  by (rule conf_address_forms [where a = "[]" and b = "[]" and c = "[49]"]) (simp_all add: cstr_def)


section \<open>A sample configuration\<close>

definition sample_env :: conf_env where
  "sample_env = \<lparr>ce_pton6 = \<lambda>_. None, ce_pton4 = \<lambda>_. None, ce_nodename = Some (cstr ''a.b''),
     ce_alloc = \<lambda>_. True, ce_junk = replicate NODE_ID_LEN 0\<rparr>"

definition sample_ini :: "bytes ini_cfgobj" where
  "sample_ini = \<lparr>
     ini_valueobj = \<lambda>s k. (0, map_of
       [((cstr ''hub'', cstr ''Connect''), cstr ''h:443''), ((cstr ''hub'', cstr ''PeerFingerprint''), cstr ''cname''),
        ((cstr ''all'', cstr ''Listen''), cstr ''*''), ((cstr ''all'', cstr ''PeerFingerprint''), cstr ''any'')] (s, k)),
     ini_string = \<lambda>v. (Some v, 0),
     ini_const_string = \<lambda>v. (v, case v of None \<Rightarrow> 22 | Some _ \<Rightarrow> 0),
     ini_int = \<lambda>v. (case scan_d v of Some n \<Rightarrow> (n, 0) | None \<Rightarrow> (0, 22)),
     ini_sections = Some [cstr ''Default'', cstr ''hub'', cstr ''all'']\<rparr>"

definition sample_conf :: conf where
  "sample_conf = \<lparr>node_name = Some (cstr ''a''), private_key = Some (cstr ''/etc/pki/tls/dvpn/dvpn.key''),
     role_key = Some (cstr ''/etc/pki/tls/dvpn/role.key''),
     connect_entries = [\<lparr>cce_name = cstr ''hub'', cce_hostname = cstr ''h'', cce_port = cstr ''443'',
       cce_fp_type = CONF_FP_TYPE_CNAME, cce_fingerprint = replicate NODE_ID_LEN 0,
       cce_peer_type = CONF_PEER_TYPE_TRANSIT, cce_tunitf = cstr ''dvpn%d'', cce_cost = 0\<rparr>],
     listening_sockets = [\<lparr>
       cls_listen_address = \<lparr>ss_family = AF_INET6, ss_addr = replicate 16 0, ss_port = [75, 75]\<rparr>,
       cls_have_wildcard_listen_entry = True,
       cls_listen_entries = [\<lparr>cle_name = cstr ''all'', cle_fp_type = CONF_FP_TYPE_ANY,
         cle_fingerprint = replicate NODE_ID_LEN 0, cle_peer_type = CONF_PEER_TYPE_CUSTOMER,
         cle_tunitf = cstr ''dvpn%d'', cle_cost = 0, cle_conn_limit = 1\<rparr>]\<rparr>]\<rparr>"

lemma sample_env_ok: "env_ok sample_env"
  by (simp add: env_ok_def sample_env_def)

lemma sample_parse: "parse_config sample_env (Some sample_ini) = Inr (Some sample_conf)"
  by code_simp

theorem parse_config_well_formed_witness:
  "\<exists>r. parse_config sample_env (Some sample_ini) = Inr r \<and> (\<forall>c. r = Some c \<longrightarrow> conf_wf c)"
  by (rule parse_config_well_formed [OF sample_env_ok])

theorem parse_config_complete_witness:
  "conf_names sample_conf = mset (filter (\<lambda>s. strcasecmp s default_section \<noteq> 0) [cstr ''Default'', cstr ''hub'', cstr ''all''])"
  by (rule parse_config_complete [OF sample_env_ok sample_parse])
    (simp_all add: sample_ini_def cstr_def)

end
