(* ===== verification/Confdiff.thy ===== *)
theory Confdiff
  imports Conf
begin

text \<open>
  \<^verbatim>\<open>src/confdiff.c\<close>: a running configuration is brought to a new one by moving entries
  between the two, with a callback for every entry that is started or stopped.  The callbacks
  of \<^verbatim>\<open>struct confdiff_request\<close> (they belong to \<^verbatim>\<open>dvpn.c\<close>) are functions on a state \<open>'w\<close>.
  The properties: whatever the callbacks answer no connect entry is lost or duplicated; when
  they succeed, the new settings are in force; an entry that did not change is left alone.
\<close>

section \<open>The code\<close>

text \<open>
  The two configurations are fields of the request that the code writes through; here they are
  in the state \<open>diff_state\<close>.  The callbacks that start something return 0 for success.
\<close>

record 'w confdiff_request =
  new_connect_entry :: "conf_connect_entry \<Rightarrow> 'w \<Rightarrow> int \<times> 'w"
  removed_connect_entry :: "conf_connect_entry \<Rightarrow> 'w \<Rightarrow> 'w"
  new_listening_socket :: "conf_listening_socket \<Rightarrow> 'w \<Rightarrow> int \<times> 'w"
  removed_listening_socket :: "conf_listening_socket \<Rightarrow> 'w \<Rightarrow> 'w"
  new_listen_entry :: "sockaddr \<Rightarrow> conf_listen_entry \<Rightarrow> 'w \<Rightarrow> int \<times> 'w"
  removed_listen_entry :: "sockaddr \<Rightarrow> conf_listen_entry \<Rightarrow> 'w \<Rightarrow> 'w"

type_synonym ('a, 'w) diff_state = "'a list \<times> 'a list \<times> 'w"

text \<open>
  Insertion with its return value ignored (a node with an equal element stays out), and
  deletion, which must be given a node of the tree.
\<close>

definition tree_insert :: "('a \<Rightarrow> 'a \<Rightarrow> int) \<Rightarrow> 'a \<Rightarrow> 'a list \<Rightarrow> 'a list" where
  "tree_insert cmp x xs = (case avl_insert cmp x xs of Some ys \<Rightarrow> ys | None \<Rightarrow> xs)"

definition tree_delete :: "('a \<Rightarrow> 'a \<Rightarrow> int) \<Rightarrow> 'a \<Rightarrow> 'a list \<Rightarrow> 'a list outcome" where
  "tree_delete cmp x xs =
     (if avl_find (cmp x) xs = None then Inl Not_linked else Inr (avl_delete cmp x xs))"

text \<open>In the state, the entries of \<^verbatim>\<open>conf\<close> come first, those of \<^verbatim>\<open>newconf\<close> second.\<close>

definition cce_add ::
  "'w confdiff_request \<Rightarrow> conf_connect_entry \<Rightarrow> (conf_connect_entry, 'w) diff_state \<Rightarrow>
   (conf_connect_entry, 'w) diff_state outcome" where
  "cce_add req a s =
     (let (conf, newconf, w) = s; cmp = compare_connect_entries
      in obind (tree_delete cmp a newconf) (\<lambda>newconf.
        let conf = tree_insert cmp a conf; (ret, w) = new_connect_entry req a w
        in if ret \<noteq> 0 then obind (tree_delete cmp a conf) (\<lambda>conf. Inr (conf, tree_insert cmp a newconf, w))
           else Inr (conf, newconf, w)))"

definition cce_same :: "conf_connect_entry \<Rightarrow> conf_connect_entry \<Rightarrow> bool" where
  "cce_same a b \<longleftrightarrow> strcmp (cce_hostname a) (cce_hostname b) = 0 \<and> strcmp (cce_port a) (cce_port b) = 0 \<and>
     cce_fp_type a = cce_fp_type b \<and>
     (cce_fp_type a \<noteq> CONF_FP_TYPE_MATCH \<or> memcmp (cce_fingerprint a) (cce_fingerprint b) = 0) \<and>
     cce_peer_type a = cce_peer_type b \<and> strcmp (cce_tunitf a) (cce_tunitf b) = 0 \<and> cce_cost a = cce_cost b"

definition cce_mod ::
  "'w confdiff_request \<Rightarrow> conf_connect_entry \<Rightarrow> conf_connect_entry \<Rightarrow>
   (conf_connect_entry, 'w) diff_state \<Rightarrow> (conf_connect_entry, 'w) diff_state outcome" where
  "cce_mod req a b s =
     (let (conf, newconf, w) = s; cmp = compare_connect_entries
      in if cce_same a b then Inr s
         else obind (tree_delete cmp a conf) (\<lambda>conf.
           let w = removed_connect_entry req a w
           in obind (tree_delete cmp b newconf) (\<lambda>newconf.
             let conf = tree_insert cmp b conf; (ret, w) = new_connect_entry req b w
             in if ret \<noteq> 0 then
                  obind (tree_delete cmp b conf) (\<lambda>conf.
                    let newconf = tree_insert cmp b newconf; conf = tree_insert cmp a conf;
                        (ret, w) = new_connect_entry req a w
                    in if ret \<noteq> 0 then Inl Abort else Inr (conf, newconf, w))
                else Inr (conf, tree_insert cmp a newconf, w))))"

definition cce_del ::
  "'w confdiff_request \<Rightarrow> conf_connect_entry \<Rightarrow> (conf_connect_entry, 'w) diff_state \<Rightarrow>
   (conf_connect_entry, 'w) diff_state outcome" where
  "cce_del req a s =
     (let (conf, newconf, w) = s; cmp = compare_connect_entries
      in obind (tree_delete cmp a conf) (\<lambda>conf.
        let w = removed_connect_entry req a w in Inr (conf, tree_insert cmp a newconf, w)))"

text \<open>
  The entries of one listening socket.  The callbacks also get the socket; it is named by its
  address, which identifies it in the configuration (of the socket itself \<^verbatim>\<open>dvpn.c\<close> reads
  nothing else but \<^verbatim>\<open>tls\<close>, which is part of \<open>'w\<close>).
\<close>

definition cle_add ::
  "'w confdiff_request \<Rightarrow> conf_listening_socket \<Rightarrow> conf_listen_entry \<Rightarrow>
   (conf_listen_entry, 'w) diff_state \<Rightarrow> (conf_listen_entry, 'w) diff_state outcome" where
  "cle_add req cls a s =
     (let (es, news, w) = s; cmp = compare_listen_entries
      in obind (tree_delete cmp a news) (\<lambda>news.
        let es = tree_insert cmp a es; (ret, w) = new_listen_entry req (cls_listen_address cls) a w
        in if ret \<noteq> 0 then obind (tree_delete cmp a es) (\<lambda>es. Inr (es, tree_insert cmp a news, w))
           else Inr (es, news, w)))"

definition cle_same :: "conf_listen_entry \<Rightarrow> conf_listen_entry \<Rightarrow> bool" where
  "cle_same a b \<longleftrightarrow> cle_fp_type a = cle_fp_type b \<and>
     (cle_fp_type a \<noteq> CONF_FP_TYPE_MATCH \<or> memcmp (cle_fingerprint a) (cle_fingerprint b) = 0) \<and>
     cle_peer_type a = cle_peer_type b \<and> strcmp (cle_tunitf a) (cle_tunitf b) = 0 \<and>
     cle_cost a = cle_cost b \<and> cle_conn_limit a = cle_conn_limit b"

definition cle_mod ::
  "'w confdiff_request \<Rightarrow> conf_listening_socket \<Rightarrow> conf_listen_entry \<Rightarrow> conf_listen_entry \<Rightarrow>
   (conf_listen_entry, 'w) diff_state \<Rightarrow> (conf_listen_entry, 'w) diff_state outcome" where
  "cle_mod req cls a b s =
     (let (es, news, w) = s; cmp = compare_listen_entries
      in if cle_same a b then Inr s
         else obind (tree_delete cmp a es) (\<lambda>es.
           let w = removed_listen_entry req (cls_listen_address cls) a w
           in obind (tree_delete cmp b news) (\<lambda>news.
             let es = tree_insert cmp b es;
                 (ret, w) = new_listen_entry req (cls_listen_address cls) b w
             in if ret \<noteq> 0 then
                  obind (tree_delete cmp b es) (\<lambda>es.
                    let news = tree_insert cmp b news
                    in obind (tree_delete cmp a es) (\<lambda>es.
                      let (ret, w) = new_listen_entry req (cls_listen_address cls) a w
                      in if ret \<noteq> 0 then Inl Abort else Inr (es, news, w)))
                else Inr (es, tree_insert cmp a news, w))))"

definition cle_del ::
  "'w confdiff_request \<Rightarrow> conf_listening_socket \<Rightarrow> conf_listen_entry \<Rightarrow>
   (conf_listen_entry, 'w) diff_state \<Rightarrow> (conf_listen_entry, 'w) diff_state outcome" where
  "cle_del req cls a s =
     (let (es, news, w) = s; cmp = compare_listen_entries
      in obind (tree_delete cmp a es) (\<lambda>es.
        let w = removed_listen_entry req (cls_listen_address cls) a w
        in Inr (es, tree_insert cmp a news, w)))"

definition cls_add ::
  "'w confdiff_request \<Rightarrow> conf_listening_socket \<Rightarrow> (conf_listening_socket, 'w) diff_state \<Rightarrow>
   (conf_listening_socket, 'w) diff_state outcome" where
  "cls_add req a s =
     (let (conf, newconf, w) = s; cmp = compare_listening_sockets
      in obind (tree_delete cmp a newconf) (\<lambda>newconf.
        let conf = tree_insert cmp a conf; (ret, w) = new_listening_socket req a w
        in if ret \<noteq> 0 then obind (tree_delete cmp a conf) (\<lambda>conf. Inr (conf, tree_insert cmp a newconf, w))
           else Inr (conf, newconf, w)))"

text \<open>
  \<open>a\<close> and \<open>b\<close> are nodes of the two trees: the walk over their entries writes the entries of
  these two nodes.
\<close>

definition set_entries ::
  "conf_listening_socket \<Rightarrow> conf_listen_entry list \<Rightarrow> conf_listening_socket list \<Rightarrow> conf_listening_socket list" where
  "set_entries a es ss =
     map (\<lambda>t. if compare_listening_sockets t a = 0 then t\<lparr>cls_listen_entries := es\<rparr> else t) ss"

definition cls_mod ::
  "'w confdiff_request \<Rightarrow> conf_listening_socket \<Rightarrow> conf_listening_socket \<Rightarrow>
   (conf_listening_socket, 'w) diff_state \<Rightarrow> (conf_listening_socket, 'w) diff_state outcome" where
  "cls_mod req a b s =
     (let (conf, newconf, w) = s
      in obind (avl_diff compare_listen_entries (cls_listen_entries a) (cls_listen_entries b)
            (cle_add req a) (cle_mod req a) (cle_del req a)
            (cls_listen_entries a, cls_listen_entries b, w))
        (\<lambda>(es, news, w). Inr (set_entries a es conf, set_entries b news newconf, w)))"

definition cls_del ::
  "'w confdiff_request \<Rightarrow> conf_listening_socket \<Rightarrow> (conf_listening_socket, 'w) diff_state \<Rightarrow>
   (conf_listening_socket, 'w) diff_state outcome" where
  "cls_del req a s =
     (let (conf, newconf, w) = s; cmp = compare_listening_sockets
      in obind (tree_delete cmp a conf) (\<lambda>conf.
        let w = removed_listening_socket req a w in Inr (conf, tree_insert cmp a newconf, w)))"

definition diff_configs :: "'w confdiff_request \<Rightarrow> conf \<times> conf \<times> 'w \<Rightarrow> (conf \<times> conf \<times> 'w) outcome" where
  "diff_configs req s =
     (let (conf, newconf, w) = s
      in obind (avl_diff compare_connect_entries (connect_entries conf) (connect_entries newconf)
            (cce_add req) (cce_mod req) (cce_del req) (connect_entries conf, connect_entries newconf, w))
        (\<lambda>(ces, nces, w).
          obind (avl_diff compare_listening_sockets (listening_sockets conf) (listening_sockets newconf)
              (cls_add req) (cls_mod req) (cls_del req) (listening_sockets conf, listening_sockets newconf, w))
            (\<lambda>(lss, nlss, w). Inr (conf\<lparr>connect_entries := ces, listening_sockets := lss\<rparr>,
              newconf\<lparr>connect_entries := nces, listening_sockets := nlss\<rparr>, w))))"


section \<open>Walking two containers while moving their elements\<close>

text \<open>
  The elements of a container around the place of \<open>x\<close>: those before it and those after it.
\<close>

context avl_order
begin

definition around :: "'a list \<Rightarrow> 'a \<Rightarrow> 'a list \<Rightarrow> bool" where
  "around ps x qs \<longleftrightarrow> ok x \<and> list_all ok (ps @ qs) \<and> (\<forall>p \<in> set ps. cmp p x < 0) \<and> (\<forall>q \<in> set qs. cmp x q < 0)"

lemma around_after: "around ps x qs \<Longrightarrow> p \<in> set ps \<Longrightarrow> cmp x p > 0"
  by (auto simp: around_def list_all_iff cmp_gt_iff)

lemma tree_insert_around:
  assumes "around ps x qs"
  shows "tree_insert cmp x (ps @ qs) = ps @ x # qs"
proof -
  have "avl_insert cmp x (ps @ qs) = Some (ps @ x # qs)"
    using assms
  proof (induction ps)
    case Nil
    then show ?case by (cases qs) (auto simp: around_def)
  next
    case (Cons p ps)
    have "cmp x p > 0" using around_after [OF Cons.prems] by simp
    moreover have "around ps x qs" using Cons.prems by (simp add: around_def)
    ultimately show ?case using Cons.IH by simp
  qed
  then show ?thesis by (simp add: tree_insert_def)
qed

lemma tree_delete_around:
  assumes "around ps x qs"
  shows "tree_delete cmp x (ps @ x # qs) = Inr (ps @ qs)"
proof -
  have "cmp x x = 0" using assms by (simp add: around_def cmp_refl)
  moreover have "avl_delete cmp x (ps @ x # qs) = ps @ qs" if "\<forall>p \<in> set ps. cmp x p > 0"
    using that \<open>cmp x x = 0\<close> by (induction ps) auto
  ultimately show ?thesis
    using around_after [OF assms] by (auto simp: tree_delete_def avl_find_None_iff)
qed

lemma tree_delete_absent:
  assumes "around ps x qs"
  shows "tree_delete cmp x (ps @ qs) = Inl Not_linked"
proof -
  have "\<forall>y \<in> set (ps @ qs). cmp x y \<noteq> 0"
    using assms around_after [OF assms] by (fastforce simp: around_def)
  then show ?thesis by (simp add: tree_delete_def avl_find_None_iff)
qed

lemma around_split: "around (ps @ qs) x (ss @ ts) \<Longrightarrow> around ps x ss \<and> around qs x ts"
  by (auto simp: around_def)

lemmas tree_moves = tree_insert_around tree_delete_around tree_delete_absent

end

text \<open>
  The outcome of a walk, element by element: \<open>res e w\<close> says which elements of callback \<open>e\<close>
  end up in the first and in the second container.
\<close>

type_synonym ('a, 'w) diff_res = "'a diff_op \<Rightarrow> 'w \<Rightarrow> ('a list \<times> 'a list \<times> 'w) outcome"

fun diff_run :: "('a, 'w) diff_res \<Rightarrow> 'a diff_op list \<Rightarrow> 'w \<Rightarrow> ('a list \<times> 'a list \<times> 'w) outcome" where
  "diff_run res [] w = Inr ([], [], w)"
| "diff_run res (e # es) w =
     obind (res e w) (\<lambda>(p, q, w). obind (diff_run res es w) (\<lambda>(ps, qs, w). Inr (p @ ps, q @ qs, w)))"

definition op_elems :: "'a diff_op \<Rightarrow> 'a list" where
  "op_elems e = op_old e @ op_new e"

fun op_match :: "('a \<Rightarrow> 'a \<Rightarrow> int) \<Rightarrow> 'a diff_op \<Rightarrow> bool" where
  "op_match cmp (Item_mod a b) \<longleftrightarrow> cmp a b = 0"
| "op_match cmp _ \<longleftrightarrow> True"

lemmas op_simps = op_elems_def op_old.simps op_new.simps op_match.simps append.simps

text \<open>
  The contract of three callbacks that move elements between two containers: each acts at the
  place of its own element, as \<open>res\<close> says, and leaves the rest of both containers alone.
\<close>

locale diff_steps = avl_order cmp ok
  for cmp :: "'a \<Rightarrow> 'a \<Rightarrow> int" and ok :: "'a \<Rightarrow> bool" +
  fixes item_add :: "'a \<Rightarrow> ('a, 'w) diff_state \<Rightarrow> ('a, 'w) diff_state outcome"
    and item_mod :: "'a \<Rightarrow> 'a \<Rightarrow> ('a, 'w) diff_state \<Rightarrow> ('a, 'w) diff_state outcome"
    and item_del :: "'a \<Rightarrow> ('a, 'w) diff_state \<Rightarrow> ('a, 'w) diff_state outcome"
    and res :: "('a, 'w) diff_res"
  assumes step: "op_match cmp e \<Longrightarrow> (\<And>x. x \<in> set (op_elems e) \<Longrightarrow> around (ps @ qs) x (ss @ ts)) \<Longrightarrow>
      diff_call item_add item_mod item_del e (ps @ op_old e @ ss, qs @ op_new e @ ts, w) =
      obind (res e w) (\<lambda>(p, q, w'). Inr (ps @ p @ ss, qs @ q @ ts, w'))"
    and keys: "res e w = Inr (p, q, w') \<Longrightarrow> list_all ok (op_elems e) \<Longrightarrow> x \<in> set (p @ q) \<Longrightarrow>
      ok x \<and> (\<exists>y \<in> set (op_elems e). cmp x y = 0)"
begin

definition before :: "'a list \<Rightarrow> 'a list \<Rightarrow> bool" where
  "before xs ys \<longleftrightarrow> list_all ok xs \<and> (\<forall>x \<in> set xs. \<forall>y \<in> set ys. cmp x y < 0)"

lemma before_res:
  assumes "res e w = Inr (p, q, w')" "list_all ok (op_elems e @ ys)" "before (op_elems e) ys"
  shows "before (p @ q) ys"
  unfolding before_def
proof (intro conjI ballI)
  show "list_all ok (p @ q)" using keys [OF assms(1)] assms(2) by (simp add: list_all_iff)
next
  fix x z assume x: "x \<in> set (p @ q)" and z: "z \<in> set ys"
  obtain y where y: "y \<in> set (op_elems e)" "cmp x y = 0" "ok x"
    using keys [OF assms(1) _ x] assms(2) by auto
  have "cmp y z < 0" "ok y" "ok z" using y z assms(2,3) by (auto simp: before_def list_all_iff)
  then show "cmp x z < 0" using cmp_eq_neg [of x y z] y by simp
qed

text \<open>One callback and the walk of the rest.\<close>

lemma walk_step:
  assumes match: "op_match cmp e" and ok: "list_all ok (op_elems e @ ss @ ts)"
    and pq: "before (ps @ qs) (op_elems e @ ss @ ts)" and e: "before (op_elems e) (ss @ ts)"
    and IH: "\<And>ps qs w. before (ps @ qs) (ss @ ts) \<Longrightarrow>
      ofold (diff_call item_add item_mod item_del) es (ps @ ss, qs @ ts, w) =
      obind (diff_run res es w) (\<lambda>(p, q, w). Inr (ps @ p, qs @ q, w))"
  shows "ofold (diff_call item_add item_mod item_del) (e # es) (ps @ op_old e @ ss, qs @ op_new e @ ts, w) =
    obind (diff_run res (e # es) w) (\<lambda>(p, q, w). Inr (ps @ p, qs @ q, w))"
proof -
  have "around (ps @ qs) x (ss @ ts)" if "x \<in> set (op_elems e)" for x
    using that pq e ok by (auto simp: around_def before_def list_all_iff)
  note s = step [OF match this]
  show ?thesis
  proof (cases "res e w")
    case (Inr r)
    obtain p q w' where r: "r = (p, q, w')" by (cases r)
    have "before (p @ q) (ss @ ts)" by (rule before_res [where w = w and w' = w', OF _ ok e]) (simp add: Inr r)
    with pq have "before ((ps @ p) @ qs @ q) (ss @ ts)" by (auto simp: before_def)
    from IH [OF this, of w'] show ?thesis
      by (simp add: s Inr r obind_assoc split_def)
  qed (simp add: s)
qed

lemma walk_from:
  "avl_ordered cmp as \<Longrightarrow> avl_ordered cmp bs \<Longrightarrow> list_all ok (as @ bs) \<Longrightarrow> before (ps @ qs) (as @ bs) \<Longrightarrow>
   ofold (diff_call item_add item_mod item_del) (avl_diff_ops cmp as bs) (ps @ as, qs @ bs, w) =
   obind (diff_run res (avl_diff_ops cmp as bs) w) (\<lambda>(p, q, w). Inr (ps @ p, qs @ q, w))"
proof (induction cmp\<equiv>cmp as bs arbitrary: ps qs w rule: avl_diff_ops.induct)
  case (1 a as b bs)
  have ord: "avl_ordered cmp as" "avl_ordered cmp bs" "avl_ordered cmp (a # as)" "avl_ordered cmp (b # bs)"
    and ok: "list_all ok (as @ bs)" "list_all ok (as @ b # bs)" "list_all ok ((a # as) @ bs)" "ok a" "ok b"
    using "1.prems"(1-3) by auto
  have all: "list_all ok (a # as @ b # bs)" "list_all ok (b # a # as @ bs)" "list_all ok (a # b # as @ bs)"
    and pq: "before (ps @ qs) (a # as @ b # bs)" "before (ps @ qs) (b # a # as @ bs)" "before (ps @ qs) (a # b # as @ bs)"
    using "1.prems"(3,4) by (auto simp: before_def)
  have sym: "cmp a b > 0 \<Longrightarrow> cmp b a < 0" "cmp a b = 0 \<Longrightarrow> cmp b a = 0"
    using ok cmp_gt_iff [of b a] cmp_zero_iff [of b a] by auto
  have a_b: "cmp a b < 0 \<Longrightarrow> z \<in> set (b # bs) \<Longrightarrow> cmp a z < 0" "cmp a b = 0 \<Longrightarrow> z \<in> set bs \<Longrightarrow> cmp a z < 0"
    and b_a: "cmp b a < 0 \<Longrightarrow> z \<in> set (a # as) \<Longrightarrow> cmp b z < 0" "cmp b a = 0 \<Longrightarrow> z \<in> set as \<Longrightarrow> cmp b z < 0" for z
    using below_all [of b bs a z] below_rest [of b bs a z] below_all [of a as b z] below_rest [of a as b z] ord ok
    by auto
  have a_a: "z \<in> set as \<Longrightarrow> cmp a z < 0" and b_b: "z \<in> set bs \<Longrightarrow> cmp b z < 0" for z using ord by auto
  consider (lt) "cmp a b < 0" | (gt) "cmp a b > 0" | (eq) "cmp a b = 0" by linarith
  then show ?case
  proof cases
    case lt
    have "before [a] (as @ b # bs)" using lt a_b(1) a_a ok(4) by (auto simp: before_def)
    note w = walk_step [of "Item_del a" as "b # bs" ps qs "avl_diff_ops cmp as (b # bs)" w, simplified op_simps,
        OF TrueI all(1) pq(1) this "1.hyps"(1) [OF lt ord(1,4) ok(2)]]
    show ?thesis using lt w by simp
  next
    case gt
    then have n: "\<not> cmp a b < 0" by simp
    have "before [b] (a # as @ bs)" using b_a(1) [OF sym(1) [OF gt]] b_b ok(5) by (auto simp: before_def)
    note w = walk_step [of "Item_add b" "a # as" bs ps qs "avl_diff_ops cmp (a # as) bs" w, simplified op_simps,
        OF TrueI all(2) pq(2) this "1.hyps"(2) [OF n gt ord(3,2) ok(3), simplified op_simps]]
    show ?thesis using gt n w by simp
  next
    case eq
    then have n: "\<not> cmp a b < 0" "\<not> cmp a b > 0" by auto
    have "before [a, b] (as @ bs)" using a_b(2) [OF eq] b_a(2) [OF sym(2) [OF eq]] a_a b_b ok(4,5)
      by (auto simp: before_def)
    note w = walk_step [of "Item_mod a b" as bs ps qs "avl_diff_ops cmp as bs" w, simplified op_simps,
        OF eq all(3) pq(3) this "1.hyps"(3) [OF n ord(1,2) ok(1)]]
    show ?thesis using n w by simp
  qed
next
  case (2 a as)
  have b: "before [a] (as @ [])" "list_all ok (a # as @ [])" "before (ps @ qs) (a # as @ [])"
    "avl_ordered cmp as" "list_all ok (as @ [])" using "2.prems" by (auto simp: before_def)
  from walk_step [of "Item_del a" as "[]" ps qs "avl_diff_ops cmp as []" w, simplified op_simps,
      OF TrueI b(2,3,1) "2.hyps" [OF b(4) "2.prems"(2) b(5)]] show ?case by (simp del: avl_diff_ops_Nil)
next
  case (3 b bs)
  have b: "before [b] bs" "list_all ok (b # bs)" "before (ps @ qs) (b # bs)"
    "avl_ordered cmp bs" "list_all ok bs" using "3.prems" by (auto simp: before_def)
  from walk_step [of "Item_add b" "[]" bs ps qs "avl_diff_ops cmp [] bs" w, simplified op_simps,
      OF TrueI b(2,3,1) "3.hyps" [OF "3.prems"(1) b(4), simplified op_simps, OF b(5)]] show ?case
    by (simp del: avl_diff_ops_Nil)
qed simp

lemma walk:
  assumes "avl_ordered cmp as" "avl_ordered cmp bs" "list_all ok as" "list_all ok bs"
  shows "avl_diff cmp as bs item_add item_mod item_del (as, bs, w) = diff_run res (avl_diff_ops cmp as bs) w"
  using walk_from [OF assms(1,2), of "[]" "[]" w] assms(3,4)
  by (cases "diff_run res (avl_diff_ops cmp as bs) w") (simp_all add: avl_diff_def before_def)

end


section \<open>What each callback of the walk does\<close>

fun cce_res :: "'w confdiff_request \<Rightarrow> (conf_connect_entry, 'w) diff_res" where
  "cce_res req (Item_add b) w = (let (ret, w) = new_connect_entry req b w
     in Inr (if ret \<noteq> 0 then ([], [b], w) else ([b], [], w)))"
| "cce_res req (Item_mod a b) w =
     (if cce_same a b then Inr ([a], [b], w)
      else let (ret, w) = new_connect_entry req b (removed_connect_entry req a w)
           in if ret \<noteq> 0 then (let (ret, w) = new_connect_entry req a w
                in if ret \<noteq> 0 then Inl Abort else Inr ([a], [b], w))
              else Inr ([b], [a], w))"
| "cce_res req (Item_del a) w = Inr ([], [a], removed_connect_entry req a w)"

fun cle_res :: "'w confdiff_request \<Rightarrow> conf_listening_socket \<Rightarrow> (conf_listen_entry, 'w) diff_res" where
  "cle_res req cls (Item_add b) w = (let (ret, w) = new_listen_entry req (cls_listen_address cls) b w
     in Inr (if ret \<noteq> 0 then ([], [b], w) else ([b], [], w)))"
| "cle_res req cls (Item_mod a b) w =
     (if cle_same a b then Inr ([a], [b], w)
      else let (ret, w) = new_listen_entry req (cls_listen_address cls) b
                 (removed_listen_entry req (cls_listen_address cls) a w)
           in if ret \<noteq> 0 then Inl Not_linked else Inr ([b], [a], w))"
| "cle_res req cls (Item_del a) w = Inr ([], [a], removed_listen_entry req (cls_listen_address cls) a w)"

fun cls_res :: "'w confdiff_request \<Rightarrow> (conf_listening_socket, 'w) diff_res" where
  "cls_res req (Item_add b) w = (let (ret, w) = new_listening_socket req b w
     in Inr (if ret \<noteq> 0 then ([], [b], w) else ([b], [], w)))"
| "cls_res req (Item_mod a b) w =
     obind (avl_diff compare_listen_entries (cls_listen_entries a) (cls_listen_entries b)
         (cle_add req a) (cle_mod req a) (cle_del req a) (cls_listen_entries a, cls_listen_entries b, w))
       (\<lambda>(es, news, w). Inr ([a\<lparr>cls_listen_entries := es\<rparr>], [b\<lparr>cls_listen_entries := news\<rparr>], w))"
| "cls_res req (Item_del a) w = Inr ([], [a], removed_listening_socket req a w)"

interpretation cce_walk: diff_steps compare_connect_entries "\<lambda>_. True"
    "cce_add req" "cce_mod req" "cce_del req" "cce_res req" for req
proof
  fix e ps qs ss ts and w :: 'a
  assume "op_match compare_connect_entries e"
    and "\<And>x. x \<in> set (op_elems e) \<Longrightarrow> cce_order.around (ps @ qs) x (ss @ ts)"
  then have "cce_order.around ps x ss" "cce_order.around qs x ts" if "x \<in> set (op_elems e)" for x
    using that cce_order.around_split by blast+
  then show "diff_call (cce_add req) (cce_mod req) (cce_del req) e (ps @ op_old e @ ss, qs @ op_new e @ ts, w) =
      obind (cce_res req e w) (\<lambda>(p, q, w'). Inr (ps @ p @ ss, qs @ q @ ts, w'))"
    by (cases e) (auto simp: op_elems_def cce_add_def cce_mod_def cce_del_def cce_order.tree_moves Let_def
        split: prod.splits)
next
  fix e p q x and w w' :: 'a
  assume "cce_res req e w = Inr (p, q, w')" "x \<in> set (p @ q)"
  then show "True \<and> (\<exists>y \<in> set (op_elems e). compare_connect_entries x y = 0)"
    by (cases e) (auto simp: op_elems_def cce_order.cmp_refl split: prod.splits if_splits)
qed

interpretation cle_walk: diff_steps compare_listen_entries "\<lambda>_. True"
    "cle_add req cls" "cle_mod req cls" "cle_del req cls" "cle_res req cls" for req cls
proof
  fix e ps qs ss ts and w :: 'a
  assume "op_match compare_listen_entries e"
    and "\<And>x. x \<in> set (op_elems e) \<Longrightarrow> cle_order.around (ps @ qs) x (ss @ ts)"
  then have "cle_order.around ps x ss" "cle_order.around qs x ts" if "x \<in> set (op_elems e)" for x
    using that cle_order.around_split by blast+
  then show "diff_call (cle_add req cls) (cle_mod req cls) (cle_del req cls) e (ps @ op_old e @ ss, qs @ op_new e @ ts, w) =
      obind (cle_res req cls e w) (\<lambda>(p, q, w'). Inr (ps @ p @ ss, qs @ q @ ts, w'))"
    by (cases e) (auto simp: op_elems_def cle_add_def cle_mod_def cle_del_def cle_order.tree_moves Let_def
        split: prod.splits)
next
  fix e p q x and w w' :: 'a
  assume "cle_res req cls e w = Inr (p, q, w')" "x \<in> set (p @ q)"
  then show "True \<and> (\<exists>y \<in> set (op_elems e). compare_listen_entries x y = 0)"
    by (cases e) (auto simp: op_elems_def cle_order.cmp_refl split: prod.splits if_splits)
qed

lemma set_entries_around:
  assumes "cls_order.around ps a ss"
  shows "set_entries a es (ps @ a # ss) = ps @ a\<lparr>cls_listen_entries := es\<rparr> # ss"
proof -
  have "compare_listening_sockets x a \<noteq> 0" if "x \<in> set (ps @ ss)" for x
    using that assms cls_order.cmp_zero_iff [of x a] by (auto simp: cls_order.around_def list_all_iff)
  moreover have "compare_listening_sockets a a = 0"
    using assms by (simp add: cls_order.around_def cls_order.cmp_refl)
  ultimately show ?thesis by (simp add: set_entries_def map_idI)
qed

interpretation cls_walk: diff_steps compare_listening_sockets cls_addr_ok
    "cls_add req" "cls_mod req" "cls_del req" "cls_res req" for req
proof
  fix e ps qs ss ts and w :: 'a
  assume "op_match compare_listening_sockets e"
    and "\<And>x. x \<in> set (op_elems e) \<Longrightarrow> cls_order.around (ps @ qs) x (ss @ ts)"
  then have "cls_order.around ps x ss" "cls_order.around qs x ts" if "x \<in> set (op_elems e)" for x
    using that cls_order.around_split by blast+
  then show "diff_call (cls_add req) (cls_mod req) (cls_del req) e (ps @ op_old e @ ss, qs @ op_new e @ ts, w) =
      obind (cls_res req e w) (\<lambda>(p, q, w'). Inr (ps @ p @ ss, qs @ q @ ts, w'))"
    by (cases e) (auto simp: op_elems_def cls_add_def cls_mod_def cls_del_def cls_order.tree_moves
        set_entries_around obind_assoc Let_def split_def intro!: obind_cong)
next
  fix e p q x and w w' :: 'a
  assume "cls_res req e w = Inr (p, q, w')" "x \<in> set (p @ q)" "list_all cls_addr_ok (op_elems e)"
  then show "cls_addr_ok x \<and> (\<exists>y \<in> set (op_elems e). compare_listening_sockets x y = 0)"
    by (cases e) (auto simp: op_elems_def cls_order.cmp_refl compare_listening_sockets_def socka.cmp_refl
        split: prod.splits if_splits)
qed


section \<open>Properties of a run\<close>

lemma diff_run_conserves:
  fixes f :: "'a \<Rightarrow> 'b::comm_monoid_add"
  assumes "diff_run res es w = Inr (ps, qs, w')"
    and "\<And>e w p q w'. e \<in> set es \<Longrightarrow> res e w = Inr (p, q, w') \<Longrightarrow>
      sum_list (map f (p @ q)) = sum_list (map f (op_elems e))"
  shows "sum_list (map f (ps @ qs)) = sum_list (map f (concat (map op_old es) @ concat (map op_new es)))"
  using assms
proof (induction es arbitrary: w ps qs)
  case (Cons e es)
  then obtain p q w1 ps1 qs1 where r: "res e w = Inr (p, q, w1)" "diff_run res es w1 = Inr (ps1, qs1, w')"
    and eq: "ps = p @ ps1" "qs = q @ qs1" by auto
  from Cons.IH [OF r(2)] Cons.prems(2)
  have "sum_list (map f (ps1 @ qs1)) = sum_list (map f (concat (map op_old es) @ concat (map op_new es)))" by auto
  moreover from Cons.prems(2) [OF _ r(1)] have "sum_list (map f (p @ q)) = sum_list (map f (op_elems e))" by simp
  ultimately show ?case by (simp add: eq op_elems_def) (metis (no_types, lifting) add.assoc add.left_commute)
qed simp

lemma diff_run_new:
  assumes "\<And>e w. e \<in> set es \<Longrightarrow> \<exists>p q w'. res e w = Inr (p, q, w') \<and> map g p = map g (op_new e)"
  shows "\<exists>ps qs w'. diff_run res es w = Inr (ps, qs, w') \<and> map g ps = map g (concat (map op_new es))"
  using assms
proof (induction es arbitrary: w)
  case (Cons e es)
  obtain p q w1 where e: "res e w = Inr (p, q, w1)" "map g p = map g (op_new e)"
    using Cons.prems [of e w] by auto
  obtain ps qs w' where "diff_run res es w1 = Inr (ps, qs, w')" "map g ps = map g (concat (map op_new es))"
    using Cons.IH [of w1] Cons.prems by auto
  with e show ?case by simp
qed simp

lemma diff_run_same:
  assumes "list_all2 (\<lambda>a b. \<forall>w. res (Item_mod a b) w = Inr ([a], [b], w)) as bs"
  shows "diff_run res (map2 Item_mod as bs) w = Inr (as, bs, w)"
  using assms by (induction rule: list_all2_induct) auto

lemma avl_diff_ops_match:
  "list_all2 (\<lambda>a b. cmp a b = 0) as bs \<Longrightarrow> avl_diff_ops cmp as bs = map2 Item_mod as bs"
  by (induction rule: list_all2_induct) auto

text \<open>The settings of an entry: a fingerprint counts only when it is to be matched.\<close>

definition cce_settings :: "conf_connect_entry \<Rightarrow> conf_connect_entry" where
  "cce_settings e = (if cce_fp_type e = CONF_FP_TYPE_MATCH then e else e\<lparr>cce_fingerprint := []\<rparr>)"

definition cle_settings :: "conf_listen_entry \<Rightarrow> conf_listen_entry" where
  "cle_settings e = (if cle_fp_type e = CONF_FP_TYPE_MATCH then e else e\<lparr>cle_fingerprint := []\<rparr>)"

definition cls_settings :: "conf_listening_socket \<Rightarrow> sockaddr \<times> conf_listen_entry list" where
  "cls_settings s = (cls_listen_address s, map cle_settings (cls_listen_entries s))"

lemma cce_same_iff:
  assumes "cce_ok a" "cce_ok b"
  shows "cce_settings a = cce_settings b \<longleftrightarrow> cce_same a b \<and> compare_connect_entries a b = 0"
  using assms by (cases a, cases b)
    (auto simp: cce_settings_def cce_same_def cce_ok_def compare_connect_entries_def memcmp_eq_0)

lemma cle_same_iff:
  assumes "cle_ok a" "cle_ok b"
  shows "cle_settings a = cle_settings b \<longleftrightarrow> cle_same a b \<and> compare_listen_entries a b = 0"
  using assms by (cases a, cases b)
    (auto simp: cle_settings_def cle_same_def cle_ok_def compare_listen_entries_def memcmp_eq_0)

text \<open>The operations of the walks over well-formed configurations.\<close>

lemma cce_ops:
  assumes "conf_wf c" "conf_wf n" "e \<in> set (avl_diff_ops compare_connect_entries (connect_entries c) (connect_entries n))"
  shows "list_all cce_ok (op_elems e) \<and> op_match compare_connect_entries e"
  using assms cce_order.diff_ops_iff [of "connect_entries c" "connect_entries n"]
  by (cases e) (auto simp: conf_wf_def list_all_iff op_elems_def)

lemma cls_ops:
  assumes "conf_wf c" "conf_wf n"
    "e \<in> set (avl_diff_ops compare_listening_sockets (listening_sockets c) (listening_sockets n))"
  shows "list_all cls_ok (op_elems e) \<and> op_match compare_listening_sockets e"
proof -
  have "list_all cls_addr_ok (listening_sockets c)" "list_all cls_addr_ok (listening_sockets n)"
    using assms(1,2) by (auto simp: conf_wf_def list_all_iff cls_ok_def)
  with assms cls_order.diff_ops_iff [of "listening_sockets c" "listening_sockets n"] show ?thesis
    by (cases e) (auto simp: conf_wf_def list_all_iff op_elems_def)
qed

lemma cle_ops:
  assumes "cls_ok a" "cls_ok b"
    "e \<in> set (avl_diff_ops compare_listen_entries (cls_listen_entries a) (cls_listen_entries b))"
  shows "list_all cle_ok (op_elems e) \<and> op_match compare_listen_entries e"
  using assms cle_order.diff_ops_iff [of "cls_listen_entries a" "cls_listen_entries b"]
  by (cases e) (auto simp: cls_ok_def list_all_iff op_elems_def)

text \<open>The three walks as runs.\<close>

lemma cle_run:
  assumes "cls_ok a" "cls_ok b"
  shows "avl_diff compare_listen_entries (cls_listen_entries a) (cls_listen_entries b)
      (cle_add req a) (cle_mod req a) (cle_del req a) (cls_listen_entries a, cls_listen_entries b, w) =
    diff_run (cle_res req a) (avl_diff_ops compare_listen_entries (cls_listen_entries a) (cls_listen_entries b)) w"
  by (rule cle_walk.walk) (use assms in \<open>auto simp: cls_ok_def list_all_iff\<close>)

lemma diff_configs_run:
  assumes "conf_wf c" "conf_wf n"
  shows "diff_configs req (c, n, w) =
    obind (diff_run (cce_res req) (avl_diff_ops compare_connect_entries (connect_entries c) (connect_entries n)) w)
      (\<lambda>(ces, nces, w).
        obind (diff_run (cls_res req) (avl_diff_ops compare_listening_sockets (listening_sockets c) (listening_sockets n)) w)
          (\<lambda>(lss, nlss, w). Inr (c\<lparr>connect_entries := ces, listening_sockets := lss\<rparr>,
            n\<lparr>connect_entries := nces, listening_sockets := nlss\<rparr>, w)))"
proof -
  have "avl_ordered compare_connect_entries (connect_entries c)" "avl_ordered compare_connect_entries (connect_entries n)"
    "avl_ordered compare_listening_sockets (listening_sockets c)" "avl_ordered compare_listening_sockets (listening_sockets n)"
    "list_all cls_addr_ok (listening_sockets c)" "list_all cls_addr_ok (listening_sockets n)"
    using assms by (auto simp: conf_wf_def list_all_iff cls_ok_def)
  then show ?thesis
    by (simp add: diff_configs_def cce_walk.walk cls_walk.walk list_all_iff)
qed


section \<open>Nothing is lost\<close>

text \<open>All connect entries, and all listen entries with the address of their socket.\<close>

definition conf_cces :: "conf \<Rightarrow> conf_connect_entry multiset" where
  "conf_cces c = mset (connect_entries c)"

definition cls_cles :: "conf_listening_socket \<Rightarrow> (sockaddr \<times> conf_listen_entry) multiset" where
  "cls_cles s = image_mset (\<lambda>e. (cls_listen_address s, e)) (mset (cls_listen_entries s))"

definition conf_cles :: "conf \<Rightarrow> (sockaddr \<times> conf_listen_entry) multiset" where
  "conf_cles c = (\<Sum>s\<leftarrow>listening_sockets c. cls_cles s)"

definition conf_addrs :: "conf \<Rightarrow> sockaddr multiset" where
  "conf_addrs c = mset (map cls_listen_address (listening_sockets c))"

lemma sum_single: "(\<Sum>x\<leftarrow>xs. {#f x#}) = mset (map f xs)"
  by (induction xs) auto

lemma cce_res_conserves:
  "cce_res req e w = Inr (p, q, w') \<Longrightarrow> mset (p @ q) = mset (op_elems e)"
  by (cases e) (auto simp: op_elems_def Let_def split: prod.splits if_splits)

lemma cle_res_conserves:
  "cle_res req a e w = Inr (p, q, w') \<Longrightarrow> mset (p @ q) = mset (op_elems e)"
  by (cases e) (auto simp: op_elems_def Let_def split: prod.splits if_splits)

lemma cls_res_conserves:
  assumes "cls_res req e w = Inr (p, q, w')" "list_all cls_ok (op_elems e)" "op_match compare_listening_sockets e"
  shows "sum_list (map cls_cles (p @ q)) = sum_list (map cls_cles (op_elems e)) \<and>
    mset (map cls_listen_address (p @ q)) = mset (map cls_listen_address (op_elems e))"
proof (cases e)
  case (Item_mod a b)
  with assms have ok: "cls_ok a" "cls_ok b" by (auto simp: op_elems_def)
  from Item_mod assms(1) obtain es news where
    run: "diff_run (cle_res req a) (avl_diff_ops compare_listen_entries (cls_listen_entries a) (cls_listen_entries b)) w =
      Inr (es, news, w')" and pq: "p = [a\<lparr>cls_listen_entries := es\<rparr>]" "q = [b\<lparr>cls_listen_entries := news\<rparr>]"
    by (auto simp: cle_run [OF ok])
  have "sum_list (map (\<lambda>x. {#x#}) (es @ news)) = sum_list (map (\<lambda>x. {#x#}) (cls_listen_entries a @ cls_listen_entries b))"
    using diff_run_conserves [OF run, of "\<lambda>x. {#x#}"] cle_res_conserves [of req a]
    by (simp add: sum_single avl_diff_ops_old avl_diff_ops_new)
  then have "mset es + mset news = mset (cls_listen_entries a) + mset (cls_listen_entries b)" by (simp add: sum_single)
  moreover have "cls_listen_address a = cls_listen_address b"
    using Item_mod assms(3) ok addrcmp_int_eq_0 by (auto simp: compare_listening_sockets_def cls_ok_def)
  ultimately show ?thesis
    by (simp add: Item_mod pq op_elems_def cls_cles_def image_mset_union [symmetric] del: image_mset_union)
next
  case (Item_add b)
  with assms(1) show ?thesis by (auto simp: op_elems_def split: prod.splits if_splits)
next
  case (Item_del a)
  with assms(1) show ?thesis by (auto simp: op_elems_def)
qed

text \<open>Whatever the callbacks answer, and so when an entry cannot be started and is taken back,
  no entry is lost or duplicated: those of the two configurations together are the same before
  and after.\<close>

theorem diff_configs_conserves:
  assumes "conf_wf c" "conf_wf n" "diff_configs req (c, n, w) = Inr (c', n', w')"
  shows "conf_cces c' + conf_cces n' = conf_cces c + conf_cces n \<and>
    conf_cles c' + conf_cles n' = conf_cles c + conf_cles n \<and>
    conf_addrs c' + conf_addrs n' = conf_addrs c + conf_addrs n"
proof -
  from assms(3) obtain ces nces w1 lss nlss where
    r: "diff_run (cce_res req) (avl_diff_ops compare_connect_entries (connect_entries c) (connect_entries n)) w =
        Inr (ces, nces, w1)"
      "diff_run (cls_res req) (avl_diff_ops compare_listening_sockets (listening_sockets c) (listening_sockets n)) w1 =
        Inr (lss, nlss, w')"
    and eq: "c' = c\<lparr>connect_entries := ces, listening_sockets := lss\<rparr>"
      "n' = n\<lparr>connect_entries := nces, listening_sockets := nlss\<rparr>"
    unfolding diff_configs_run [OF assms(1,2)] by auto
  have "sum_list (map (\<lambda>x. {#x#}) (ces @ nces)) = sum_list (map (\<lambda>x. {#x#}) (connect_entries c @ connect_entries n))"
    using diff_run_conserves [OF r(1), of "\<lambda>x. {#x#}"] cce_res_conserves [of req]
    by (simp add: sum_single avl_diff_ops_old avl_diff_ops_new)
  moreover have "sum_list (map cls_cles (lss @ nlss)) = sum_list (map cls_cles (listening_sockets c @ listening_sockets n))"
    using diff_run_conserves [OF r(2), of cls_cles] cls_res_conserves [of req] cls_ops [OF assms(1,2)]
    by (simp add: avl_diff_ops_old avl_diff_ops_new)
  moreover have "sum_list (map (\<lambda>s. {#cls_listen_address s#}) (lss @ nlss)) =
      sum_list (map (\<lambda>s. {#cls_listen_address s#}) (listening_sockets c @ listening_sockets n))"
    using diff_run_conserves [OF r(2), of "\<lambda>s. {#cls_listen_address s#}"] cls_res_conserves [of req] cls_ops [OF assms(1,2)]
    by (simp add: sum_single avl_diff_ops_old avl_diff_ops_new)
  ultimately show ?thesis
    by (simp add: eq conf_cces_def conf_cles_def conf_addrs_def sum_single)
qed

section \<open>The new settings are in force\<close>

definition req_succeeds :: "'w confdiff_request \<Rightarrow> bool" where
  "req_succeeds req \<longleftrightarrow> (\<forall>e w. fst (new_connect_entry req e w) = 0) \<and>
     (\<forall>s w. fst (new_listening_socket req s w) = 0) \<and> (\<forall>a e w. fst (new_listen_entry req a e w) = 0)"

lemma cce_res_new:
  assumes "req_succeeds req" "list_all cce_ok (op_elems e)" "op_match compare_connect_entries e"
  shows "\<exists>p q w'. cce_res req e w = Inr (p, q, w') \<and> map cce_settings p = map cce_settings (op_new e)"
proof (cases e)
  case (Item_mod a b)
  with assms show ?thesis using cce_same_iff [of a b]
    by (auto simp: op_elems_def req_succeeds_def split: prod.splits) (metis fst_conv)+
qed (use assms in \<open>auto simp: req_succeeds_def split: prod.splits, (metis fst_conv)+\<close>)

lemma cle_res_new:
  assumes "req_succeeds req" "list_all cle_ok (op_elems e)" "op_match compare_listen_entries e"
  shows "\<exists>p q w'. cle_res req a e w = Inr (p, q, w') \<and> map cle_settings p = map cle_settings (op_new e)"
proof (cases e)
  case (Item_mod a b)
  with assms show ?thesis using cle_same_iff [of a b]
    by (auto simp: op_elems_def req_succeeds_def split: prod.splits) (metis fst_conv)+
qed (use assms in \<open>auto simp: req_succeeds_def split: prod.splits, (metis fst_conv)+\<close>)

lemma cls_res_new:
  assumes "req_succeeds req" "list_all cls_ok (op_elems e)" "op_match compare_listening_sockets e"
  shows "\<exists>p q w'. cls_res req e w = Inr (p, q, w') \<and> map cls_settings p = map cls_settings (op_new e)"
proof (cases e)
  case (Item_mod a b)
  with assms have ok: "cls_ok a" "cls_ok b" by (auto simp: op_elems_def)
  obtain es news w' where
    "diff_run (cle_res req a) (avl_diff_ops compare_listen_entries (cls_listen_entries a) (cls_listen_entries b)) w =
      Inr (es, news, w')" "map cle_settings es = map cle_settings (cls_listen_entries b)"
    using diff_run_new [of _ "cle_res req a" cle_settings w] cle_res_new [OF assms(1)] cle_ops [OF ok]
    by (metis (no_types, lifting) avl_diff_ops_new)
  moreover have "cls_listen_address a = cls_listen_address b"
    using Item_mod assms(3) ok addrcmp_int_eq_0 by (auto simp: compare_listening_sockets_def cls_ok_def)
  ultimately show ?thesis by (simp add: Item_mod cle_run [OF ok] cls_settings_def)
qed (use assms in \<open>auto simp: req_succeeds_def split: prod.splits, (metis fst_conv)+\<close>)

text \<open>C35: when every entry can be started, the walk ends without a fault, and the running
  configuration then has the settings of the new one.\<close>

theorem diff_configs_applies:
  assumes "conf_wf c" "conf_wf n" "req_succeeds req"
  shows "\<exists>c' n' w'. diff_configs req (c, n, w) = Inr (c', n', w') \<and>
    map cce_settings (connect_entries c') = map cce_settings (connect_entries n) \<and>
    map cls_settings (listening_sockets c') = map cls_settings (listening_sockets n)"
proof -
  obtain ces nces w1 where 1:
    "diff_run (cce_res req) (avl_diff_ops compare_connect_entries (connect_entries c) (connect_entries n)) w =
        Inr (ces, nces, w1)" "map cce_settings ces = map cce_settings (connect_entries n)"
    using diff_run_new [of _ "cce_res req" cce_settings w] cce_res_new [OF assms(3)] cce_ops [OF assms(1,2)]
    by (metis (no_types, lifting) avl_diff_ops_new)
  obtain lss nlss w2 where
    "diff_run (cls_res req) (avl_diff_ops compare_listening_sockets (listening_sockets c) (listening_sockets n)) w1 =
        Inr (lss, nlss, w2)" "map cls_settings lss = map cls_settings (listening_sockets n)"
    using diff_run_new [of _ "cls_res req" cls_settings w1] cls_res_new [OF assms(3)] cls_ops [OF assms(1,2)]
    by (metis (no_types, lifting) avl_diff_ops_new)
  with 1 show ?thesis by (simp add: diff_configs_run [OF assms(1,2)])
qed


section \<open>Unchanged settings\<close>

lemma all2_settings:
  assumes "map f as = map f bs" "list_all P as" "list_all P bs" "\<And>a b. P a \<Longrightarrow> P b \<Longrightarrow> f a = f b \<Longrightarrow> Q a b"
  shows "list_all2 Q as bs"
  using assms by (auto simp: list_all2_conv_all_nth list_all_length dest: map_eq_imp_length_eq)
    (metis nth_map length_map)

lemma cce_run_same:
  assumes "map cce_settings as = map cce_settings bs" "list_all cce_ok as" "list_all cce_ok bs"
  shows "diff_run (cce_res req) (avl_diff_ops compare_connect_entries as bs) w = Inr (as, bs, w)"
proof -
  have "list_all2 (\<lambda>a b. compare_connect_entries a b = 0) as bs"
    "list_all2 (\<lambda>a b. \<forall>w. cce_res req (Item_mod a b) w = Inr ([a], [b], w)) as bs"
    by (rule all2_settings [OF assms], simp add: cce_same_iff)+
  then show ?thesis by (simp add: avl_diff_ops_match diff_run_same)
qed

lemma cle_run_same:
  assumes "map cle_settings as = map cle_settings bs" "list_all cle_ok as" "list_all cle_ok bs"
  shows "diff_run (cle_res req s) (avl_diff_ops compare_listen_entries as bs) w = Inr (as, bs, w)"
proof -
  have "list_all2 (\<lambda>a b. compare_listen_entries a b = 0) as bs"
    "list_all2 (\<lambda>a b. \<forall>w. cle_res req s (Item_mod a b) w = Inr ([a], [b], w)) as bs"
    by (rule all2_settings [OF assms], simp add: cle_same_iff)+
  then show ?thesis by (simp add: avl_diff_ops_match diff_run_same)
qed

lemma cls_res_same:
  assumes "cls_settings a = cls_settings b" "cls_ok a" "cls_ok b"
  shows "cls_res req (Item_mod a b) w = Inr ([a], [b], w)"
proof -
  have "map cle_settings (cls_listen_entries a) = map cle_settings (cls_listen_entries b)"
    "list_all cle_ok (cls_listen_entries a)" "list_all cle_ok (cls_listen_entries b)"
    using assms by (auto simp: cls_settings_def cls_ok_def)
  from cle_run_same [OF this, of req a w] show ?thesis by (simp add: cle_run [OF assms(2,3)])
qed

lemma cls_run_same:
  assumes "map cls_settings as = map cls_settings bs" "list_all cls_ok as" "list_all cls_ok bs"
  shows "diff_run (cls_res req) (avl_diff_ops compare_listening_sockets as bs) w = Inr (as, bs, w)"
proof -
  have "list_all2 (\<lambda>a b. compare_listening_sockets a b = 0) as bs"
    by (rule all2_settings [OF assms])
      (auto simp: cls_settings_def compare_listening_sockets_def cls_ok_def socka.cmp_refl)
  moreover have "list_all2 (\<lambda>a b. \<forall>w. cls_res req (Item_mod a b) w = Inr ([a], [b], w)) as bs"
    by (rule all2_settings [OF assms]) (simp add: cls_res_same del: cls_res.simps)
  ultimately show ?thesis by (simp add: avl_diff_ops_match diff_run_same)
qed

text \<open>A new configuration with the same settings changes nothing, and no callback is made: the
  connections of a node survive a reload of an unchanged file.\<close>

theorem diff_configs_unchanged:
  assumes "conf_wf c" "conf_wf n" "map cce_settings (connect_entries c) = map cce_settings (connect_entries n)"
    and "map cls_settings (listening_sockets c) = map cls_settings (listening_sockets n)"
  shows "diff_configs req (c, n, w) = Inr (c, n, w)"
proof -
  have "list_all cce_ok (connect_entries c)" "list_all cce_ok (connect_entries n)"
    "list_all cls_ok (listening_sockets c)" "list_all cls_ok (listening_sockets n)"
    using assms(1,2) by (auto simp: conf_wf_def)
  then show ?thesis
    using cce_run_same [OF assms(3), of req w] cls_run_same [OF assms(4), of req w]
    by (simp add: diff_configs_run [OF assms(1,2)])
qed

text \<open>C40: when a changed listen entry cannot be started, the old one, which the code took out of the
  tree, is taken out a second time instead of being put back: the tree is damaged before the
  old entry is started again.\<close>

theorem cle_mod_failure_damages_tree:
  assumes "cls_ok a" "cls_ok b" "x \<in> set (cls_listen_entries a)" "y \<in> set (cls_listen_entries b)"
    and "cle_name x = cle_name y" "\<not> cle_same x y" "\<And>w. fst (new_listen_entry req (cls_listen_address a) y w) \<noteq> 0"
  shows "cle_mod req a x y (cls_listen_entries a, cls_listen_entries b, w) = Inl Not_linked"
proof -
  have place: "\<exists>ps qs. es = ps @ e # qs \<and> cle_order.around ps e qs \<and> (\<forall>f. cle_name f = cle_name e \<longrightarrow> cle_order.around ps f qs)"
    if es: "avl_ordered compare_listen_entries es" "e \<in> set es" for es e
  proof -
    obtain ps qs where "es = ps @ e # qs" using es(2) by (auto dest: split_list)
    with es(1) have "es = ps @ e # qs" "cle_order.around ps e qs"
      by (auto simp: cle_order.around_def avl_ordered_append list_all_iff)
    then show ?thesis by (auto simp: cle_order.around_def compare_listen_entries_def)
  qed
  have ord: "avl_ordered compare_listen_entries (cls_listen_entries a)" "avl_ordered compare_listen_entries (cls_listen_entries b)"
    using assms(1,2) by (auto simp: cls_ok_def)
  from place [OF ord(1) assms(3)] obtain ps qs where a: "cls_listen_entries a = ps @ x # qs"
    "cle_order.around ps x qs" "cle_order.around ps y qs" using assms(5) by auto
  from place [OF ord(2) assms(4)] obtain ss ts where b: "cls_listen_entries b = ss @ y # ts"
    "cle_order.around ss y ts" using assms(5) by auto
  obtain ret w1 where r: "new_listen_entry req (cls_listen_address a) y
      (removed_listen_entry req (cls_listen_address a) x w) = (ret, w1)" by force
  then have "ret \<noteq> 0" using assms(7) by (metis fst_conv)
  with r show ?thesis
    by (simp add: cle_mod_def assms(6) a(1) b(1) cle_order.tree_moves [OF a(2)] cle_order.tree_moves [OF a(3)]
        cle_order.tree_moves [OF b(2)])
qed

section \<open>Samples\<close>

text \<open>The new file: the port and cost of the hub changed, the listening entry went, another came.\<close>

definition sample_newconf :: conf where
  "sample_newconf = sample_conf\<lparr>
     connect_entries := map (\<lambda>e. e\<lparr>cce_port := cstr ''444'', cce_cost := 5\<rparr>) (connect_entries sample_conf),
     listening_sockets := map (\<lambda>s. s\<lparr>cls_listen_entries := map (\<lambda>e. e\<lparr>cle_name := cstr ''any'', cle_cost := 9\<rparr>)
       (cls_listen_entries s)\<rparr>) (listening_sockets sample_conf)\<rparr>"

definition sample_req :: "nat confdiff_request" where
  "sample_req = \<lparr>new_connect_entry = \<lambda>_ w. (0, Suc w), removed_connect_entry = \<lambda>_ w. Suc w,
     new_listening_socket = \<lambda>_ w. (0, Suc w), removed_listening_socket = \<lambda>_ w. Suc w,
     new_listen_entry = \<lambda>_ _ w. (0, Suc w), removed_listen_entry = \<lambda>_ _ w. Suc w\<rparr>"

lemma sample_conf_wf: "conf_wf sample_conf" "conf_wf sample_newconf"
  by (simp_all add: conf_wf_def sample_conf_def sample_newconf_def cce_ok_def cls_ok_def cle_ok_def sockaddr_ok_def
      NODE_ID_LEN_def wildcards_def)

lemma sample_diff:
  "diff_configs sample_req (sample_conf, sample_newconf, 0) = Inr (sample_newconf, sample_conf, 4)"
  by code_simp

theorem diff_configs_conserves_witness:
  "conf_cces sample_newconf + conf_cces sample_conf = conf_cces sample_conf + conf_cces sample_newconf \<and>
   conf_cles sample_newconf + conf_cles sample_conf = conf_cles sample_conf + conf_cles sample_newconf \<and>
   conf_addrs sample_newconf + conf_addrs sample_conf = conf_addrs sample_conf + conf_addrs sample_newconf"
  by (rule diff_configs_conserves [OF sample_conf_wf sample_diff])

theorem diff_configs_applies_witness:
  "\<exists>c' n' w'. diff_configs sample_req (sample_conf, sample_newconf, 0) = Inr (c', n', w') \<and>
    map cce_settings (connect_entries c') = map cce_settings (connect_entries sample_newconf) \<and>
    map cls_settings (listening_sockets c') = map cls_settings (listening_sockets sample_newconf)"
  by (rule diff_configs_applies [OF sample_conf_wf]) (simp add: req_succeeds_def sample_req_def)

theorem diff_configs_unchanged_witness:
  "diff_configs sample_req (sample_conf, sample_conf, 0) = Inr (sample_conf, sample_conf, 0)"
  by (rule diff_configs_unchanged [OF sample_conf_wf(1) sample_conf_wf(1)]) simp_all

definition sample_socket :: "int \<Rightarrow> conf_listening_socket" where
  "sample_socket cost = \<lparr>cls_listen_address = \<lparr>ss_family = AF_INET6, ss_addr = replicate 16 0, ss_port = [75, 75]\<rparr>,
     cls_have_wildcard_listen_entry = True,
     cls_listen_entries = [\<lparr>cle_name = cstr ''all'', cle_fp_type = CONF_FP_TYPE_ANY,
       cle_fingerprint = replicate NODE_ID_LEN 0, cle_peer_type = CONF_PEER_TYPE_CUSTOMER,
       cle_tunitf = cstr ''dvpn%d'', cle_cost = cost, cle_conn_limit = 1\<rparr>]\<rparr>"

theorem cle_mod_failure_damages_tree_witness:
  "cle_mod (sample_req\<lparr>new_listen_entry := \<lambda>_ _ w. (1, w)\<rparr>) (sample_socket 1) (cls_listen_entries (sample_socket 1) ! 0)
     (cls_listen_entries (sample_socket 2) ! 0)
     (cls_listen_entries (sample_socket 1), cls_listen_entries (sample_socket 2), 0) = Inl Not_linked"
  by (rule cle_mod_failure_damages_tree)
    (simp_all add: sample_socket_def cls_ok_def cle_ok_def sockaddr_ok_def NODE_ID_LEN_def wildcards_def cle_same_def)

end
