(* ===== verification/Lsa_Serialise.thy ===== *)
theory Lsa_Serialise
  imports Lsa
begin

text \<open>
  \<^verbatim>\<open>src/lsa_serialise.c\<close>: the wire format of an LSA.  The code writes through a cursor into a
  buffer that may be too small (or absent, when only the length is wanted), counting what it
  would have written; \<open>dst\<close> is that cursor.  The second half states the format as a function
  to byte lists (\<open>lsa_enc\<close>) and shows that the code writes exactly that.
\<close>

section \<open>The cursor\<close>

text \<open>\<open>dst_buf\<close> is the whole destination buffer; its length is \<^verbatim>\<open>dstlen\<close>.\<close>

record dst =
  dst_buf :: bytes
  dst_off :: nat

definition write_at :: "nat \<Rightarrow> bytes \<Rightarrow> bytes \<Rightarrow> bytes" where
  "write_at off x buf = take off buf @ x @ drop (off + length x) buf"

definition dst_append :: "dst \<Rightarrow> bytes \<Rightarrow> dst outcome" where
  "dst_append d buf =
     (let off = dst_off d; dstlen = length (dst_buf d)
      in if length buf > SIZE_MAX - off then Inl Abort
         else let d = d\<lparr>dst_off := off + length buf\<rparr>
              in if off < dstlen then
                   (let space = dstlen - off;
                        space = (if space > length buf then length buf else space)
                    in Inr (d\<lparr>dst_buf := write_at off (take space buf) (dst_buf d)\<rparr>))
                 else Inr d)"

definition int_val :: "u64 \<Rightarrow> bytes" where
  "int_val val =
     [ucast (0x80 OR (drop_bit 63 val AND 0x1)),
      ucast (0x80 OR (drop_bit 56 val AND 0x7f)),
      ucast (0x80 OR (drop_bit 49 val AND 0x7f)),
      ucast (0x80 OR (drop_bit 42 val AND 0x7f)),
      ucast (0x80 OR (drop_bit 35 val AND 0x7f)),
      ucast (0x80 OR (drop_bit 28 val AND 0x7f)),
      ucast (0x80 OR (drop_bit 21 val AND 0x7f)),
      ucast (0x80 OR (drop_bit 14 val AND 0x7f)),
      ucast (0x80 OR (drop_bit 7 val AND 0x7f)),
      ucast (val AND 0x7f)]"

definition dst_append_int :: "dst \<Rightarrow> u64 \<Rightarrow> dst outcome" where
  "dst_append_int d val = dst_append d (dropWhile (\<lambda>b. b = 0x80) (int_val val))"

section \<open>Serialising\<close>

text \<open>
  \<open>preid\<close> is the id the sender puts in front of the advertisement path.  The data of a nested
  set is preceded by its length, for which the code serialises the set a first time into
  nothing.
\<close>

definition attr_flags :: "lsa_attr \<Rightarrow> u64" where
  "attr_flags a =
     (let flags = 0;
          flags = (if attr_key a \<noteq> [] then flags OR LSA_ATTR_FLAG_HAS_KEY else flags);
          flags = (if data_is_attr_set a then flags OR LSA_ATTR_FLAG_DATA_IS_TLV else flags)
      in if attr_signed a then flags OR LSA_ATTR_FLAG_SIGNED else flags)"

definition attr_head_serialise :: "lsa_attr \<Rightarrow> dst \<Rightarrow> dst outcome" where
  "attr_head_serialise a d =
     obind (dst_append_int d (word_of_int (attr_type a))) (\<lambda>d.
     obind (dst_append_int d (attr_flags a)) (\<lambda>d.
     if attr_key a \<noteq> [] then
       obind (dst_append_int d (word_of_nat (length (attr_key a)))) (\<lambda>d. dst_append d (attr_key a))
     else Inr d))"

definition dst_none :: dst where "dst_none = \<lparr>dst_buf = [], dst_off = 0\<rparr>"

fun lsa_attr_serialise_to :: "bool \<Rightarrow> bytes option \<Rightarrow> lsa_attr \<Rightarrow> dst \<Rightarrow> dst outcome"
and attr_set_data_serialise :: "bool \<Rightarrow> lsa_attr list \<Rightarrow> dst \<Rightarrow> dst outcome"
and lsa_attrs_serialise :: "bool \<Rightarrow> bytes option \<Rightarrow> lsa_attr list \<Rightarrow> dst \<Rightarrow> dst outcome" where
  "lsa_attr_serialise_to signed_only preid (Lsa_attr t s k (Attr_bytes data)) d =
     (if signed_only \<and> \<not> s then Inr d
      else obind (attr_head_serialise (Lsa_attr t s k (Attr_bytes data)) d) (\<lambda>d.
        case preid of
          Some pid \<Rightarrow>
            obind (dst_append_int d (word_of_nat (length data + NODE_ID_LEN))) (\<lambda>d.
            obind (dst_append d pid) (\<lambda>d. dst_append d data))
        | None \<Rightarrow>
            obind (dst_append_int d (word_of_nat (length data))) (\<lambda>d. dst_append d data)))"
| "lsa_attr_serialise_to signed_only preid (Lsa_attr t s k (Attr_set as)) d =
     (if signed_only \<and> \<not> s then Inr d
      else obind (attr_head_serialise (Lsa_attr t s k (Attr_set as)) d) (\<lambda>d.
        obind (lsa_attrs_serialise signed_only None as dst_none) (\<lambda>len.
        obind (dst_append_int d (word_of_nat (dst_off len))) (\<lambda>d.
        attr_set_data_serialise signed_only as d))))"
| "attr_set_data_serialise signed_only [] d = Inr d"
| "attr_set_data_serialise signed_only (a # as) d =
     obind (lsa_attr_serialise_to signed_only None a d) (\<lambda>d. attr_set_data_serialise signed_only as d)"
| "lsa_attrs_serialise signed_only preid [] d = Inr d"
| "lsa_attrs_serialise signed_only preid (a # as) d =
     obind (if attr_type a = LSA_ATTR_TYPE_ADV_PATH then lsa_attr_serialise_to signed_only preid a d
            else lsa_attr_serialise_to signed_only None a d)
       (\<lambda>d. lsa_attrs_serialise signed_only preid as d)"

definition lsa_attr_set_serialise_length :: "lsa_attr list \<Rightarrow> bool \<Rightarrow> bytes option \<Rightarrow> nat outcome" where
  "lsa_attr_set_serialise_length as signed_only preid =
     obind (lsa_attrs_serialise signed_only preid as dst_none) (\<lambda>d. Inr (dst_off d))"

definition lsa_serialise_length :: "lsa \<Rightarrow> bool \<Rightarrow> bytes option \<Rightarrow> nat outcome" where
  "lsa_serialise_length l signed_only preid =
     obind (lsa_attr_set_serialise_length (lsa_root l) signed_only preid) (\<lambda>n. Inr (NODE_ID_LEN + n))"

text \<open>The result is the buffer, and the length the code returns.\<close>

definition lsa_serialise :: "bytes \<Rightarrow> nat \<Rightarrow> lsa \<Rightarrow> bool \<Rightarrow> bytes option \<Rightarrow> (bytes \<times> nat) outcome" where
  "lsa_serialise buf serlen l signed_only preid =
     obind (dst_append_int \<lparr>dst_buf = buf, dst_off = 0\<rparr> (word_of_nat serlen)) (\<lambda>d.
     let serlen = serlen + dst_off d
     in obind (dst_append d (lsa_id l)) (\<lambda>d.
        obind (lsa_attrs_serialise signed_only preid (lsa_root l) d) (\<lambda>d.
        if serlen \<noteq> dst_off d then Inl Abort else Inr (dst_buf d, dst_off d))))"

definition lsa_attr_serialise :: "bytes \<Rightarrow> lsa_attr \<Rightarrow> (bytes \<times> nat) outcome" where
  "lsa_attr_serialise buf a =
     obind (lsa_attr_serialise_to False None a \<lparr>dst_buf = buf, dst_off = 0\<rparr>)
       (\<lambda>d. Inr (dst_buf d, dst_off d))"

definition lsa_attr_serialise_length :: "lsa_attr \<Rightarrow> nat outcome" where
  "lsa_attr_serialise_length a = obind (lsa_attr_serialise [] a) (\<lambda>(_, len). Inr len)"

section \<open>The format\<close>

definition int_enc :: "u64 \<Rightarrow> bytes" where
  "int_enc val = dropWhile (\<lambda>b. b = 0x80) (int_val val)"

definition attr_head_enc :: "lsa_attr \<Rightarrow> bytes" where
  "attr_head_enc a = int_enc (word_of_int (attr_type a)) @ int_enc (attr_flags a) @
     (if attr_key a \<noteq> [] then int_enc (word_of_nat (length (attr_key a))) @ attr_key a else [])"

fun attr_enc :: "bool \<Rightarrow> bytes option \<Rightarrow> lsa_attr \<Rightarrow> bytes" where
  "attr_enc so preid (Lsa_attr t s k (Attr_bytes data)) =
     (if so \<and> \<not> s then []
      else attr_head_enc (Lsa_attr t s k (Attr_bytes data)) @
        (let data' = (case preid of Some pid \<Rightarrow> pid @ data | None \<Rightarrow> data)
         in int_enc (word_of_nat (length data')) @ data'))"
| "attr_enc so preid (Lsa_attr t s k (Attr_set as)) =
     (if so \<and> \<not> s then []
      else attr_head_enc (Lsa_attr t s k (Attr_set as)) @
        (let data' = concat (map (attr_enc so None) as)
         in int_enc (word_of_nat (length data')) @ data'))"

definition attrs_enc :: "bool \<Rightarrow> bytes option \<Rightarrow> lsa_attr list \<Rightarrow> bytes" where
  "attrs_enc so preid as =
     concat (map (\<lambda>a. attr_enc so (if attr_type a = LSA_ATTR_TYPE_ADV_PATH then preid else None) a) as)"

definition lsa_enc :: "bool \<Rightarrow> bytes option \<Rightarrow> lsa \<Rightarrow> bytes" where
  "lsa_enc so preid l =
     (let body = lsa_id l @ attrs_enc so preid (lsa_root l)
      in int_enc (word_of_nat (length body)) @ body)"


section \<open>The code writes the format\<close>

definition dst_write :: "dst \<Rightarrow> bytes \<Rightarrow> dst" where
  "dst_write d x =
     d\<lparr>dst_off := dst_off d + length x,
       dst_buf := take (length (dst_buf d)) (write_at (dst_off d) x (dst_buf d))\<rparr>"

lemma dst_write_simps [simp]:
  "dst_off (dst_write d x) = dst_off d + length x"
  "dst_write d [] = d"
  by (simp_all add: dst_write_def write_at_def)

lemma length_dst_write [simp]: "length (dst_buf (dst_write d x)) = length (dst_buf d)"
  by (simp add: dst_write_def write_at_def)

lemma dst_buf_write:
  "dst_buf (dst_write d x) =
     map (\<lambda>i. if dst_off d \<le> i \<and> i < dst_off d + length x then x ! (i - dst_off d) else dst_buf d ! i)
       [0..<length (dst_buf d)]"
proof (rule nth_equalityI)
  fix i assume "i < length (dst_buf (dst_write d x))"
  then have i: "i < length (dst_buf d)" by simp
  show "dst_buf (dst_write d x) ! i = map (\<lambda>i. if dst_off d \<le> i \<and> i < dst_off d + length x
      then x ! (i - dst_off d) else dst_buf d ! i) [0..<length (dst_buf d)] ! i"
    using i by (auto simp: dst_write_def write_at_def nth_append split: if_splits)
qed simp

lemma dst_write_append: "dst_write (dst_write d x) y = dst_write d (x @ y)"
proof -
  have "dst_buf (dst_write (dst_write d x) y) = dst_buf (dst_write d (x @ y))"
    by (rule nth_equalityI) (auto simp: dst_buf_write nth_append)
  then show ?thesis by (simp add: dst_write_def)
qed

lemma dst_append_eq:
  "dst_off d + length x < 2 ^ 64 \<Longrightarrow> dst_append d x = Inr (dst_write d x)"
  by (auto simp: dst_append_def dst_write_def write_at_def Let_def min_def)

lemma dst_append_int_eq:
  "dst_off d + length (int_enc v) < 2 ^ 64 \<Longrightarrow> dst_append_int d v = Inr (dst_write d (int_enc v))"
  by (simp add: dst_append_int_def int_enc_def dst_append_eq)

lemmas dst_refine = dst_append_eq dst_append_int_eq dst_write_append

lemma attr_head_serialise_eq:
  "dst_off d + length (attr_head_enc a) < 2 ^ 64 \<Longrightarrow>
   attr_head_serialise a d = Inr (dst_write d (attr_head_enc a))"
  by (auto simp: attr_head_serialise_def attr_head_enc_def dst_refine)

definition preid_ok :: "bytes option \<Rightarrow> bool" where
  "preid_ok preid \<longleftrightarrow> (\<forall>pid. preid = Some pid \<longrightarrow> length pid = NODE_ID_LEN)"

lemma preid_ok_None [simp]: "preid_ok None"
  by (simp add: preid_ok_def)

definition attr_writes :: "lsa_attr \<Rightarrow> bool" where
  "attr_writes a \<longleftrightarrow> (\<forall>so preid d. preid_ok preid \<longrightarrow>
     dst_off d + length (attr_enc so preid a) < 2 ^ 64 \<longrightarrow>
     lsa_attr_serialise_to so preid a d = Inr (dst_write d (attr_enc so preid a)))"

lemma attrs_serialise_eq_from:
  assumes "\<And>a. a \<in> set as \<Longrightarrow> attr_writes a" "preid_ok preid"
    and "dst_off d + length (attrs_enc so preid as) < 2 ^ 64"
  shows "lsa_attrs_serialise so preid as d = Inr (dst_write d (attrs_enc so preid as))"
  using assms by (induction as arbitrary: d) (auto simp: attrs_enc_def attr_writes_def dst_write_append)

lemma attr_set_data_serialise_eq_from:
  assumes "\<And>a. a \<in> set as \<Longrightarrow> attr_writes a"
    and "dst_off d + length (concat (map (attr_enc so None) as)) < 2 ^ 64"
  shows "attr_set_data_serialise so as d = Inr (dst_write d (concat (map (attr_enc so None) as)))"
  using assms by (induction as arbitrary: d) (auto simp: attr_writes_def dst_write_append)

lemma attrs_enc_None: "attrs_enc so None as = concat (map (attr_enc so None) as)"
  by (simp add: attrs_enc_def cong: map_cong)


lemma attr_writes_all: "attr_writes a"
proof (induction a rule: lsa_attr_induct)
  case (Bytes t s k data)
  show ?case unfolding attr_writes_def
    by (auto simp: preid_ok_def attr_head_serialise_eq dst_refine Let_def add.commute split: option.splits)
next
  case (Set t s k as)
  have "lsa_attrs_serialise so None as dst_none = Inr (dst_write dst_none (concat (map (attr_enc so None) as)))"
    if "length (concat (map (attr_enc so None) as)) < 2 ^ 64" for so
    using attrs_serialise_eq_from [OF Set, where preid = None and d = dst_none and so = so] that by (simp add: attrs_enc_None dst_none_def)
  moreover have "attr_set_data_serialise so as d = Inr (dst_write d (concat (map (attr_enc so None) as)))"
    if "dst_off d + length (concat (map (attr_enc so None) as)) < 2 ^ 64" for so d
    by (rule attr_set_data_serialise_eq_from) (use Set that in auto)
  ultimately show ?case unfolding attr_writes_def
    by (auto simp: attr_head_serialise_eq dst_refine Let_def dst_none_def)
qed

lemma attrs_serialise_eq:
  "preid_ok preid \<Longrightarrow> dst_off d + length (attrs_enc so preid as) < 2 ^ 64 \<Longrightarrow>
   lsa_attrs_serialise so preid as d = Inr (dst_write d (attrs_enc so preid as))"
  by (rule attrs_serialise_eq_from) (simp_all add: attr_writes_all)


section \<open>How long the output is\<close>

lemma ucast_val_0: "ucast (0x80 OR (0 :: u64)) = (0x80 :: byte)"
  by simp

lemma drop_bit_small: "unat v < 2 ^ n \<Longrightarrow> drop_bit n (v :: u64) = 0"
  by (rule word_unat_eq_iff [THEN iffD2]) (simp only: unat_drop_bit_eq, simp add: drop_bit_eq_div)

lemma last_group_ne: "ucast (v AND 0x7f :: u64) \<noteq> (0x80 :: byte)"
proof
  assume "ucast (v AND 0x7f :: u64) = (0x80 :: byte)"
  then have "bit (ucast (v AND 0x7f :: u64) :: byte) 7 = bit (0x80 :: byte) 7" by simp
  then show False by (simp add: bit_simps) 
qed

lemma int_enc_length: "0 < length (int_enc v)" "length (int_enc v) \<le> 10"
proof -
  have "int_enc v \<noteq> []"
    using last_group_ne [of v] by (auto simp: int_enc_def int_val_def)
  then show "0 < length (int_enc v)" by simp
  have "length (int_enc v) \<le> length (int_val v)"
    unfolding int_enc_def by (rule length_dropWhile_le)
  then show "length (int_enc v) \<le> 10" by (simp add: int_val_def)
qed

lemma drop_bit_smaller: "unat v < 2 ^ m \<Longrightarrow> m \<le> n \<Longrightarrow> drop_bit n (v :: u64) = 0"
  by (rule drop_bit_small, erule order.strict_trans2) (simp add: power_increasing)

lemma int_enc_small:
  "unat v < 2 ^ 7 \<Longrightarrow> length (int_enc v) = 1"
  "unat v < 2 ^ 21 \<Longrightarrow> length (int_enc v) \<le> 3"
proof -
  assume "unat v < 2 ^ 7"
  then have "drop_bit n v = 0" if "7 \<le> n" for n using that by (rule drop_bit_smaller)
  then show "length (int_enc v) = 1" using last_group_ne [of v] by (simp add: int_enc_def int_val_def)
next
  assume "unat v < 2 ^ 21"
  then have "drop_bit n v = 0" if "21 \<le> n" for n using that by (rule drop_bit_smaller)
  then have "int_enc v = dropWhile (\<lambda>b. b = 0x80) (drop 7 (int_val v))"
    by (simp add: int_enc_def int_val_def)
  also have "length \<dots> \<le> length (drop 7 (int_val v))" by (rule length_dropWhile_le)
  finally show "length (int_enc v) \<le> 3" by (simp add: int_val_def)
qed

lemma attr_flags_small: "unat (attr_flags a) < 2 ^ 7"
  by (simp add: attr_flags_def Let_def LSA_ATTR_FLAG_HAS_KEY_def LSA_ATTR_FLAG_DATA_IS_TLV_def
      LSA_ATTR_FLAG_SIGNED_def)

lemma attr_head_enc_length:
  "length (attr_head_enc a) \<le> 20 + (if attr_key a = [] then 0 else 10 + length (attr_key a))"
  using int_enc_length(2) [of "word_of_int (attr_type a)"] int_enc_length(2) [of "attr_flags a"]
    int_enc_length(2) [of "word_of_nat (length (attr_key a))"]
  by (simp add: attr_head_enc_def)

lemma attr_enc_length_None: "length (attr_enc so None a) \<le> attr_total a"
proof (induction a rule: lsa_attr_induct)
  case (Bytes t s k d)
  show ?case
    using attr_head_enc_length [of "Lsa_attr t s k (Attr_bytes d)"]
      int_enc_length(2) [of "word_of_nat (length d)"]
    by (auto simp: Let_def MAX_SERIALISED_INT_LEN_def split: if_splits)
next
  case (Set t s k as)
  let ?d = "concat (map (attr_enc so None) as)"
  have "length ?d \<le> attrs_total as"
    using Set by (induction as) (simp_all add: add_mono)
  then show ?case
    using attr_head_enc_length [of "Lsa_attr t s k (Attr_set as)"]
      int_enc_length(2) [of "word_of_nat (length ?d)"]
    by (auto simp: Let_def MAX_SERIALISED_INT_LEN_def split: if_splits)
qed

lemma attrs_enc_length_None: "length (concat (map (attr_enc so None) as)) \<le> attrs_total as"
  by (induction as) (simp_all add: attr_enc_length_None add_mono)

text \<open>
  The id in front of a path adds 32 bytes; for a path attribute with a key these fit into
  what \<^verbatim>\<open>lsa_attr_size\<close> sets aside for the length fields.
\<close>

definition preid_room :: "lsa_attr \<Rightarrow> nat" where
  "preid_room a = (if attr_type a = LSA_ATTR_TYPE_ADV_PATH \<and> attr_key a = [] then NODE_ID_LEN else 0)"

lemma attr_enc_length_path:
  assumes "attr_total a < 2 ^ 21 - 32" "length pid = NODE_ID_LEN" "attr_type a = LSA_ATTR_TYPE_ADV_PATH"
  shows "length (attr_enc so (Some pid) a) \<le> attr_total a + preid_room a"
proof (cases a rule: attr_total.cases)
  case (1 t s k d)
  have "length (int_enc (word_of_int t)) = 1"
    using assms(3) 1 by (intro int_enc_small(1)) (simp add: LSA_ATTR_TYPE_ADV_PATH_def)
  moreover have "length (int_enc (attr_flags a)) = 1" by (rule int_enc_small(1), rule attr_flags_small)
  moreover have "length (int_enc (word_of_nat (length k))) \<le> 3"
    using assms(1) 1 by (intro int_enc_small(2)) (auto simp: unat_of_nat split: if_splits)
  moreover have "length (int_enc (word_of_nat (32 + length d))) \<le> 3"
    using assms(1) 1
    by (intro int_enc_small(2)) (auto simp: unat_of_nat simp del: of_nat_add split: if_splits)
  ultimately show ?thesis
    using 1 assms(2,3) by (auto simp: Let_def attr_head_enc_def preid_room_def NODE_ID_LEN_def
        MAX_SERIALISED_INT_LEN_def)
next
  case (2 t s k as)
  then show ?thesis using attr_enc_length_None [of so a] by simp
qed

lemma preid_room_sum:
  "avl_ordered compare_attr_keys as \<Longrightarrow> sum_list (map preid_room as) \<le> NODE_ID_LEN"
proof (induction as)
  case (Cons a as)
  show ?case
  proof (cases "preid_room a = 0")
    case False
    have "preid_room b = 0" if "b \<in> set as" for b
    proof -
      have "compare_attr_keys a b \<noteq> 0" using that Cons.prems by fastforce
      then show ?thesis
        using False by (auto simp: preid_room_def compare_attr_keys_eq_0 split: if_splits)
    qed
    then have "sum_list (map preid_room (a # as)) = preid_room a" by simp
    also have "\<dots> \<le> NODE_ID_LEN" by (simp add: preid_room_def)
    finally show ?thesis .
  qed (use Cons in simp)
qed simp

lemma attrs_enc_length_room:
  assumes "preid_ok preid" "attrs_total as < 2 ^ 21 - 32"
  shows "length (attrs_enc so preid as) \<le> attrs_total as + sum_list (map preid_room as)"
  using assms(2)
proof (induction as)
  case (Cons a as)
  have "length (attr_enc so (if attr_type a = LSA_ATTR_TYPE_ADV_PATH then preid else None) a)
      \<le> attr_total a + preid_room a"
  proof (cases "attr_type a = LSA_ATTR_TYPE_ADV_PATH \<and> preid \<noteq> None")
    case True
    then obtain pid where "preid = Some pid" by auto
    with True assms(1) Cons.prems attr_enc_length_path [of a pid so] show ?thesis
      by (simp add: preid_ok_def)
  next
    case False
    have "length (attr_enc so None a) \<le> attr_total a + preid_room a"
      using attr_enc_length_None [of so a] by simp
    with False show ?thesis by auto
  qed
  with Cons show ?case by (simp add: attrs_enc_def)
qed (simp add: attrs_enc_def)

lemma attrs_enc_length:
  assumes "attrs_ok as" "preid_ok preid" "attrs_total as < 2 ^ 21 - 32"
  shows "length (attrs_enc so preid as) \<le> attrs_total as + NODE_ID_LEN"
  using attrs_enc_length_room [OF assms(2,3), of so] preid_room_sum [of as] assms(1)
  by (simp add: attrs_ok_def)


section \<open>The serialiser\<close>

lemma serialise_length_eq:
  "preid_ok preid \<Longrightarrow> length (attrs_enc so preid (lsa_root l)) < 2 ^ 63 \<Longrightarrow>
   lsa_serialise_length l so preid = Inr (NODE_ID_LEN + length (attrs_enc so preid (lsa_root l)))"
  by (simp add: lsa_serialise_length_def lsa_attr_set_serialise_length_def attrs_serialise_eq dst_none_def)

lemma length_lsa_enc:
  "length (lsa_id l) = NODE_ID_LEN \<Longrightarrow>
   length (lsa_enc so preid l) \<le> 10 + NODE_ID_LEN + length (attrs_enc so preid (lsa_root l))"
  using int_enc_length(2) [of "word_of_nat (NODE_ID_LEN + length (attrs_enc so preid (lsa_root l)))"]
  by (simp add: lsa_enc_def Let_def)

lemma serialise_eq:
  assumes "preid_ok preid" "length (attrs_enc so preid (lsa_root l)) < 2 ^ 63"
    and "length (lsa_id l) = NODE_ID_LEN"
  shows "lsa_serialise buf (NODE_ID_LEN + length (attrs_enc so preid (lsa_root l))) l so preid =
    Inr (take (length buf) (lsa_enc so preid l) @ drop (length (lsa_enc so preid l)) buf,
      length (lsa_enc so preid l))"
proof -
  let ?d = "\<lparr>dst_buf = buf, dst_off = 0\<rparr>" and ?as = "attrs_enc so preid (lsa_root l)"
  let ?n = "NODE_ID_LEN + length ?as"
  have len: "length (int_enc v) \<le> 10" for v by (rule int_enc_length(2))
  have sum: "length (int_enc v) + (NODE_ID_LEN + length ?as) < 2 ^ 64" for v
    using len [of v] assms(2) by (simp add: NODE_ID_LEN_def)
  have enc: "lsa_enc so preid l = int_enc (word_of_nat ?n) @ lsa_id l @ ?as"
    by (simp add: lsa_enc_def Let_def assms(3))
  have 1: "dst_append_int ?d (word_of_nat ?n) = Inr (dst_write ?d (int_enc (word_of_nat ?n)))"
    by (rule dst_append_int_eq) (use sum [of "word_of_nat ?n"] in simp)
  have 2: "dst_append (dst_write ?d (int_enc (word_of_nat ?n))) (lsa_id l) =
      Inr (dst_write ?d (int_enc (word_of_nat ?n) @ lsa_id l))"
    by (subst dst_append_eq) (use sum [of "word_of_nat ?n"] assms(3) in \<open>simp_all add: dst_write_append\<close>)
  have 3: "lsa_attrs_serialise so preid (lsa_root l) (dst_write ?d (int_enc (word_of_nat ?n) @ lsa_id l)) =
      Inr (dst_write ?d (lsa_enc so preid l))"
    by (subst attrs_serialise_eq [OF assms(1)])
      (use sum [of "word_of_nat ?n"] assms(3) in \<open>simp_all add: dst_write_append enc\<close>)
  have "dst_buf (dst_write ?d (lsa_enc so preid l)) =
      take (length buf) (lsa_enc so preid l) @ drop (length (lsa_enc so preid l)) buf"
    by (auto simp: dst_write_def write_at_def)
  then show ?thesis
    unfolding lsa_serialise_def 1 using 2 3 by (simp add: Let_def enc assms(3))
qed

text \<open>
  C21: the serialiser, run the way its callers run it (the length first, then the bytes into a
  buffer that is large enough), writes exactly the wire format of the LSA and never aborts;
  the two passes over the attributes agree.
\<close>

theorem lsa_serialise_correct:
  assumes "lsa_wf l" "lsa_bytes l < 2 ^ 21 - 32" "preid_ok preid"
    and "length (lsa_enc so preid l) \<le> length buf"
  shows "\<exists>n. lsa_serialise_length l so preid = Inr n \<and>
    lsa_serialise buf n l so preid =
      Inr (lsa_enc so preid l @ drop (length (lsa_enc so preid l)) buf, length (lsa_enc so preid l))"
proof -
  have wf: "attrs_ok (lsa_root l)" "length (lsa_id l) = NODE_ID_LEN" "attrs_total (lsa_root l) < 2 ^ 21 - 32"
    using assms(1,2) by (auto simp: lsa_wf_def)
  have "length (attrs_enc so preid (lsa_root l)) < 2 ^ 63"
    using attrs_enc_length [OF wf(1) assms(3) wf(3), of so] wf(3) by (simp add: NODE_ID_LEN_def)
  then show ?thesis
    using serialise_length_eq [OF assms(3)] serialise_eq [OF assms(3) _ wf(2), of so buf] assms(4) by simp
qed

theorem lsa_serialise_correct_witness:
  "\<exists>n. lsa_serialise_length \<lparr>lsa_ptr = 5, lsa_bytes = 104, lsa_id = replicate 32 7,
      lsa_root = [Lsa_attr LSA_ATTR_TYPE_ADV_PATH False [] (Attr_bytes (replicate 32 9))]\<rparr>
      False (Some (replicate 32 1)) = Inr n \<and>
    lsa_serialise (replicate 100 0) n \<lparr>lsa_ptr = 5, lsa_bytes = 104, lsa_id = replicate 32 7,
      lsa_root = [Lsa_attr LSA_ATTR_TYPE_ADV_PATH False [] (Attr_bytes (replicate 32 9))]\<rparr>
      False (Some (replicate 32 1)) =
    Inr ([99] @ replicate 32 7 @ [1, 0, 64] @ replicate 32 1 @ replicate 32 9, 100)"
proof -
  let ?l = "\<lparr>lsa_ptr = 5, lsa_bytes = 104, lsa_id = replicate 32 7,
      lsa_root = [Lsa_attr LSA_ATTR_TYPE_ADV_PATH False [] (Attr_bytes (replicate 32 9))]\<rparr> :: lsa"
  have enc: "lsa_enc False (Some (replicate 32 1)) ?l =
      [99] @ replicate 32 7 @ [1, 0, 64] @ replicate 32 1 @ replicate 32 9"
    by code_simp
  show ?thesis
    using lsa_serialise_correct [of ?l "Some (replicate 32 1)" False "replicate 100 0"]
    by (simp add: enc lsa_wf_def preid_ok_def MAX_SERIALISED_INT_LEN_def NODE_ID_LEN_def)
qed

text \<open>
  C27: an LSA that passes the size limit of \<^verbatim>\<open>adj_rib_in\<close> (\<^verbatim>\<open>LSA_MAX_BYTES\<close>, room for one more id
  included) is short enough on the wire for the buffers of \<^verbatim>\<open>dgp_writer\<close>, also with the id put
  in front of its path (of each of its path attributes): their \<^verbatim>\<open>abort()\<close> is not reached.
\<close>

theorem lsa_serialise_length_bound:
  assumes "lsa_wf l" "lsa_bytes l + NODE_ID_LEN \<le> 32768" "preid_ok preid"
  shows "\<exists>n. lsa_serialise_length l so preid = Inr n \<and> n + MAX_SERIALISED_INT_LEN \<le> lsa_bytes l + NODE_ID_LEN \<and>
    n \<le> 65536 - 128"
proof -
  have wf: "attrs_ok (lsa_root l)" "attrs_total (lsa_root l) < 2 ^ 21 - 32"
    "lsa_bytes l = MAX_SERIALISED_INT_LEN + NODE_ID_LEN + attrs_total (lsa_root l)"
    using assms(1,2) by (auto simp: lsa_wf_def NODE_ID_LEN_def)
  have "length (attrs_enc so preid (lsa_root l)) \<le> attrs_total (lsa_root l) + NODE_ID_LEN"
    by (rule attrs_enc_length [OF wf(1) assms(3) wf(2)])
  then show ?thesis
    using serialise_length_eq [OF assms(3), of so l] wf(3) assms(2)
    by (simp add: MAX_SERIALISED_INT_LEN_def NODE_ID_LEN_def)
qed

theorem lsa_serialise_length_bound_witness:
  "\<exists>n. lsa_serialise_length \<lparr>lsa_ptr = 5, lsa_bytes = 104, lsa_id = replicate 32 7,
      lsa_root = [Lsa_attr LSA_ATTR_TYPE_ADV_PATH False [] (Attr_bytes (replicate 32 9))]\<rparr>
      False (Some (replicate 32 1)) = Inr n \<and> n \<le> 65536 - 128"
  using lsa_serialise_length_bound [of "\<lparr>lsa_ptr = 5, lsa_bytes = 104, lsa_id = replicate 32 7,
      lsa_root = [Lsa_attr LSA_ATTR_TYPE_ADV_PATH False [] (Attr_bytes (replicate 32 9))]\<rparr>"
      "Some (replicate 32 1)" False]
  by (auto simp: lsa_wf_def preid_ok_def MAX_SERIALISED_INT_LEN_def NODE_ID_LEN_def)

end
