(* ===== verification/Lsa_Deserialise.thy ===== *)
theory Lsa_Deserialise
  imports Lsa_Serialise
begin

text \<open>
  \<^verbatim>\<open>src/lsa_deserialise.c\<close>: reading an LSA off the wire, for bytes a peer chose.  The cursor
  \<^verbatim>\<open>struct src\<close> (start, length, offset) is the list of the bytes that remain.  The macros
  leave through the labels \<^verbatim>\<open>short_read\<close> and \<^verbatim>\<open>error\<close>; these are the two failures of a read.
\<close>

section \<open>Reading\<close>

datatype src_fail = Short_read | Src_error

type_synonym 'a src_read = "src_fail + 'a \<times> bytes"

definition SRC_READ :: "nat \<Rightarrow> bytes \<Rightarrow> bytes src_read" where
  "SRC_READ n src = (if length src < n then Inl Short_read else Inr (take n src, drop n src))"

text \<open>The \<^verbatim>\<open>while (val & 0x80)\<close> loop, at most nine further bytes.\<close>

fun src_read_loop :: "nat \<Rightarrow> byte \<Rightarrow> u64 \<Rightarrow> bytes \<Rightarrow> u64 src_read" where
  "src_read_loop cnt b v [] =
     (if b AND 0x80 \<noteq> 0 then (if cnt + 1 = 10 then Inl Src_error else Inl Short_read)
      else Inr (v, []))"
| "src_read_loop cnt b v (c # src) =
     (if b AND 0x80 \<noteq> 0 then
        (if cnt + 1 = 10 then Inl Src_error
         else src_read_loop (cnt + 1) c (push_bit 7 v OR ucast (c AND 0x7f)) src)
      else Inr (v, c # src))"

definition SRC_READ_UINT64_T :: "bytes \<Rightarrow> u64 src_read" where
  "SRC_READ_UINT64_T src =
     (case src of
        [] \<Rightarrow> Inl Short_read
      | b # src \<Rightarrow>
          if b = 0x80 then Inl Src_error else src_read_loop 0 b (ucast (b AND 0x7f)) src)"

definition SRC_READ_INT :: "bytes \<Rightarrow> u64 src_read" where
  "SRC_READ_INT src =
     (case SRC_READ_UINT64_T src of
        Inl e \<Rightarrow> Inl e
      | Inr (v, src) \<Rightarrow> if unat v > INT_MAX then Inl Src_error else Inr (v, src))"

definition SRC_READ_SIZE_T :: "bytes \<Rightarrow> nat src_read" where
  "SRC_READ_SIZE_T src =
     (case SRC_READ_UINT64_T src of
        Inl e \<Rightarrow> Inl e
      | Inr (v, src) \<Rightarrow> if unat v > SIZE_MAX then Inl Src_error else Inr (unat v, src))"

lemma src_read_loop_length: "src_read_loop cnt b v src = Inr (w, rest) \<Longrightarrow> length rest \<le> length src"
  by (induction cnt b v src rule: src_read_loop.induct) (auto split: if_splits)

lemma SRC_READ_INT_length: "SRC_READ_INT src = Inr (v, rest) \<Longrightarrow> length rest < length src"
  by (auto simp: SRC_READ_INT_def SRC_READ_UINT64_T_def dest!: src_read_loop_length
      split: sum.splits list.splits if_splits)

lemma SRC_READ_SIZE_T_length: "SRC_READ_SIZE_T src = Inr (v, rest) \<Longrightarrow> length rest < length src"
  by (auto simp: SRC_READ_SIZE_T_def SRC_READ_UINT64_T_def dest!: src_read_loop_length
      split: sum.splits list.splits if_splits)

text \<open>The part of an iteration of \<^verbatim>\<open>lsa_deserialise_attr_set\<close> that reads: type, flags, key, data.\<close>

definition src_read_attr :: "bytes \<Rightarrow> (int \<times> u64 \<times> bytes \<times> bytes) src_read" where
  "src_read_attr src =
     (case SRC_READ_INT src of Inl e \<Rightarrow> Inl e | Inr (type, src) \<Rightarrow>
      case SRC_READ_INT src of Inl e \<Rightarrow> Inl e | Inr (flags, src) \<Rightarrow>
      case (if flags AND LSA_ATTR_FLAG_HAS_KEY \<noteq> 0 then
              (case SRC_READ_SIZE_T src of Inl e \<Rightarrow> Inl e | Inr (keylen, src) \<Rightarrow> SRC_READ keylen src)
            else Inr ([], src)) of Inl e \<Rightarrow> Inl e | Inr (key, src) \<Rightarrow>
      case SRC_READ_SIZE_T src of Inl e \<Rightarrow> Inl e | Inr (datalen, src) \<Rightarrow>
      case SRC_READ datalen src of Inl e \<Rightarrow> Inl e | Inr (data, src) \<Rightarrow>
        Inr ((int (unat type), flags, key, data), src))"

lemma SRC_READ_length: "SRC_READ n src = Inr (x, rest) \<Longrightarrow> length x + length rest = length src"
  by (auto simp: SRC_READ_def split: if_splits)

lemma src_read_attr_length:
  assumes "src_read_attr src = Inr ((type, flags, key, data), rest)"
  shows "length key + length data + length rest < length src"
  using assms
  by (auto simp: src_read_attr_def split: sum.splits prod.splits if_splits
      dest!: SRC_READ_INT_length SRC_READ_SIZE_T_length SRC_READ_length)

section \<open>Attribute sets\<close>

text \<open>
  The set is handed back also when the read fails, with what was added before: the caller
  then frees the LSA with these contents.
\<close>

function lsa_deserialise_attr_set ::
  "int \<Rightarrow> nat \<Rightarrow> nat \<times> lsa_attr list \<Rightarrow> bytes \<Rightarrow> (int \<times> nat \<times> lsa_attr list) outcome" where
  "lsa_deserialise_attr_set rc maxdepth (bytes, dst) src =
     (if src = [] then Inr (0, bytes, dst)
      else case src_read_attr src of
        Inl _ \<Rightarrow> Inr (-1, bytes, dst)
      | Inr ((type, flags, key, data), src') \<Rightarrow>
          let sign = (flags AND LSA_ATTR_FLAG_SIGNED \<noteq> 0)
          in if flags AND LSA_ATTR_FLAG_DATA_IS_TLV \<noteq> 0 then
               (if maxdepth = 0 then Inr (-1, bytes, dst)
                else obind (lsa_attr_set_add_attr_set rc bytes dst type sign key)
                  (\<lambda>(child, bytes, dst).
                    if \<not> child then Inr (-1, bytes, dst)
                    else obind (lsa_deserialise_attr_set rc (maxdepth - 1) (bytes, []) data)
                      (\<lambda>(ret, bytes, child).
                        let dst = set_child type key child dst
                        in if ret < 0 then Inr (-1, bytes, dst)
                           else lsa_deserialise_attr_set rc maxdepth (bytes, dst) src')))
             else obind (lsa_attr_set_add_attr rc bytes dst type sign key data)
               (\<lambda>(ret, bytes, dst).
                 if ret < 0 then Inr (-1, bytes, dst)
                 else lsa_deserialise_attr_set rc maxdepth (bytes, dst) src'))"
  by pat_completeness auto
termination
  by (relation "measure (\<lambda>(_, _, _, src). length src)") (auto dest!: src_read_attr_length)

declare lsa_deserialise_attr_set.simps [simp del]

section \<open>LSAs\<close>

text \<open>
  The result is \<^verbatim>\<open>*lsap\<close> (\<open>None\<close> for a null pointer and where the code does not set it) and the
  value returned: the number of bytes consumed, 0 when there are too few, -1 on error.
\<close>

definition lsa_deserialise ::
  "nat option \<Rightarrow> refcounts \<Rightarrow> bytes \<Rightarrow> (refcounts \<times> int \<times> lsa option) outcome" where
  "lsa_deserialise malloc rc buf =
     (case SRC_READ_SIZE_T buf of
        Inl Short_read \<Rightarrow> Inr (rc, 0, None)
      | Inl Src_error \<Rightarrow> Inr (rc, -1, None)
      | Inr (len, src) \<Rightarrow>
          let off = length buf - length src
          in if len = 0 then Inr (rc, int off, None)
             else if len > SSIZE_MAX - off then Inr (rc, -1, None)
             else let len = len + off
             in if len > length buf then Inr (rc, 0, None)
             else let src = take (len - off) src
             in case SRC_READ NODE_ID_LEN src of
                  Inl _ \<Rightarrow> Inr (rc, 0, None)
                | Inr (nid, src) \<Rightarrow>
                    (case lsa_alloc malloc rc nid of
                       (rc, None) \<Rightarrow> Inr (rc, -1, None)
                     | (rc, Some l) \<Rightarrow>
                         obind (lsa_deserialise_attr_set (rc (lsa_ptr l)) 8 (lsa_bytes l, lsa_root l) src)
                           (\<lambda>(ret, bytes, root).
                             let l = l\<lparr>lsa_bytes := bytes, lsa_root := root\<rparr>
                             in if ret < 0 then obind (lsa_put rc (Some l)) (\<lambda>rc. Inr (rc, -1, None))
                                else Inr (rc, int len, Some l))))"


section \<open>Reading what was written: integers\<close>

fun int_groups :: "nat \<Rightarrow> u64 \<Rightarrow> bytes" where
  "int_groups 0 v = []"
| "int_groups (Suc 0) v = [ucast (v AND 0x7f)]"
| "int_groups (Suc k) v = ucast (0x80 OR (drop_bit (7 * k) v AND 0x7f)) # int_groups k v"

lemma mask7: "(0x7f :: u64) = mask 7" "(0x7f :: byte) = mask 7" "(0x80 :: byte) = push_bit 7 1"
  "(0x80 :: u64) = push_bit 7 1"
  by (simp_all add: mask_eq_exp_minus_1 push_bit_eq_mult)

lemma int_val_groups: "int_val v = int_groups 10 v"
proof -
  have "drop_bit 63 v AND 0x1 = drop_bit 63 v AND (0x7f :: u64)"
    by (rule bit_word_eqI) (auto simp: mask7 bit_simps bit_1_iff dest: bit_imp_le_length)
  then show ?thesis by (simp add: int_val_def eval_nat_numeral)
qed

lemma bit_80: "bit (0x80 :: byte) n \<longleftrightarrow> n = 7"
  unfolding mask7 bit_push_bit_iff bit_1_iff by auto

lemma low_128: "n < 7 \<Longrightarrow> \<not> bit (128 :: int) n"
proof -
  have "(128 :: int) = 2 ^ 7" by simp
  then show "n < 7 \<Longrightarrow> \<not> bit (128 :: int) n" by (simp only: bit_exp_iff) auto
qed

lemma group_bits:
  "ucast (0x80 OR (x AND 0x7f :: u64)) AND (0x80 :: byte) \<noteq> 0"
  "ucast (x AND 0x7f :: u64) AND (0x80 :: byte) = 0"
  "ucast (ucast (0x80 OR (x AND 0x7f :: u64)) AND (0x7f :: byte)) = x AND 0x7f"
  "ucast (ucast (x AND 0x7f :: u64) AND (0x7f :: byte)) = x AND 0x7f"
proof -
  show "ucast (0x80 OR (x AND 0x7f :: u64)) AND (0x80 :: byte) \<noteq> 0"
  proof
    assume "ucast (0x80 OR (x AND 0x7f :: u64)) AND (0x80 :: byte) = 0"
    then have "\<not> bit (ucast (0x80 OR (x AND 0x7f :: u64)) AND (0x80 :: byte)) 7" by simp
    then show False unfolding mask7 by (simp add: bit_simps)
  qed
  show "ucast (x AND 0x7f :: u64) AND (0x80 :: byte) = 0"
    by (rule bit_word_eqI) (simp only: bit_and_iff bit_80, auto simp: mask7(1) bit_simps)
  show "ucast (ucast (0x80 OR (x AND 0x7f :: u64)) AND (0x7f :: byte)) = x AND 0x7f"
    by (rule bit_word_eqI) (auto simp: mask7(1,2) bit_simps low_128)
  show "ucast (ucast (x AND 0x7f :: u64) AND (0x7f :: byte)) = x AND 0x7f"
    by (rule bit_word_eqI) (auto simp: mask7(1,2) bit_simps low_128)
qed

lemma join_group: "push_bit 7 (drop_bit (7 + n) v) OR (drop_bit n v AND 0x7f) = drop_bit n (v :: u64)"
proof (rule bit_word_eqI)
  fix i assume "i < LENGTH(64)"
  then show "bit (push_bit 7 (drop_bit (7 + n) v) OR (drop_bit n v AND 0x7f)) i = bit (drop_bit n v) i"
    by (cases "i < 7") (simp_all add: mask7 bit_simps)
qed

lemma read_loop_groups:
  "cnt + k < 10 \<Longrightarrow>
   src_read_loop cnt (if k = 0 then ucast (v AND 0x7f) else ucast (0x80 OR (drop_bit (7 * k) v AND 0x7f)))
     (drop_bit (7 * k) v) (int_groups k v @ rest) = Inr (v, rest)"
proof (induction k arbitrary: cnt)
  case 0
  then show ?case by (cases rest) (simp_all add: group_bits)
next
  case (Suc k)
  have j: "push_bit 7 (drop_bit (7 * Suc k) v) OR (drop_bit (7 * k) v AND 0x7f) = drop_bit (7 * k) v"
    using join_group [of "7 * k" v] by simp
  from Suc.IH [of "cnt + 1"] Suc.prems show ?case
  proof (cases k)
    case 0
    then show ?thesis
      using Suc.IH [of "cnt + 1"] Suc.prems j by (simp add: group_bits)
  next
    case (Suc m)
    then show ?thesis
      using Suc.IH [of "cnt + 1"] Suc.prems j by (simp add: group_bits)
  qed
qed

lemma read_groups:
  "0 < k \<Longrightarrow> k \<le> 10 \<Longrightarrow> drop_bit (7 * k) v = 0 \<Longrightarrow>
   SRC_READ_UINT64_T (dropWhile (\<lambda>b. b = 0x80) (int_groups k v) @ rest) = Inr (v, rest)"
proof (induction k)
  case (Suc k)
  have j: "push_bit 7 (drop_bit (7 * Suc k) v) OR (drop_bit (7 * k) v AND 0x7f) = drop_bit (7 * k) v"
    using join_group [of "7 * k" v] by simp
  then have top: "drop_bit (7 * k) v AND 0x7f = drop_bit (7 * k) v" using Suc.prems(3) by simp
  show ?case
  proof (cases k)
    case 0
    have "ucast (v AND 0x7f) \<noteq> (0x80 :: byte)" by (rule last_group_ne)
    moreover have v: "v AND 0x7f = v" using top 0 by simp
    moreover have "ucast (ucast v AND (0x7f :: byte)) = v" using group_bits(4) [of v] unfolding v .
    ultimately show ?thesis
      using 0 read_loop_groups [of 0 0 v rest] by (simp add: SRC_READ_UINT64_T_def)
  next
    case (Suc m)
    let ?b = "ucast (0x80 OR (drop_bit (7 * k) v AND 0x7f)) :: byte"
    show ?thesis
    proof (cases "?b = 0x80")
      case True
      have "drop_bit (7 * k) v AND 0x7f = ucast (?b AND 0x7f)" by (simp only: group_bits)
      also have "\<dots> = 0" by (simp add: True)
      finally have "drop_bit (7 * k) v = 0" using top by simp
      then show ?thesis using Suc.IH Suc.prems Suc True by simp
    next
      case False
      have "src_read_loop 0 ?b (drop_bit (7 * k) v) (int_groups k v @ rest) = Inr (v, rest)"
        using read_loop_groups [of 0 k v rest] Suc.prems Suc by simp
      moreover have "ucast (?b AND 0x7f) = drop_bit (7 * k) v" using group_bits(3) [of "drop_bit (7 * k) v"] top by (simp only:)
      moreover have "int_groups (Suc k) v = ?b # int_groups k v" using Suc by simp
      ultimately show ?thesis using False by (simp only: SRC_READ_UINT64_T_def) simp
    qed
  qed
qed simp

text \<open>Every 64-bit integer is read back from what \<^verbatim>\<open>dst_append_int\<close> writes for it.\<close>

theorem int_roundtrip: "SRC_READ_UINT64_T (int_enc v @ rest) = Inr (v, rest)"
  unfolding int_enc_def int_val_groups
  by (rule read_groups) (simp_all add: drop_bit_small)


section \<open>Reading what was written: LSAs\<close>

lemma attr_flags_bits:
  "attr_flags a AND LSA_ATTR_FLAG_HAS_KEY \<noteq> 0 \<longleftrightarrow> attr_key a \<noteq> []"
  "attr_flags a AND LSA_ATTR_FLAG_DATA_IS_TLV \<noteq> 0 \<longleftrightarrow> data_is_attr_set a"
  "attr_flags a AND LSA_ATTR_FLAG_SIGNED \<noteq> 0 \<longleftrightarrow> attr_signed a"
  by (auto simp: attr_flags_def Let_def LSA_ATTR_FLAG_HAS_KEY_def LSA_ATTR_FLAG_DATA_IS_TLV_def
      LSA_ATTR_FLAG_SIGNED_def)

lemma read_int_enc:
  "unat v \<le> INT_MAX \<Longrightarrow> SRC_READ_INT (int_enc v @ rest) = Inr (v, rest)"
  "n < 2 ^ 64 \<Longrightarrow> SRC_READ_SIZE_T (int_enc (word_of_nat n) @ rest) = Inr (n, rest)"
proof -
  have rt: "SRC_READ_UINT64_T (int_enc v @ rest) = Inr (v, rest)" for v
    unfolding int_enc_def int_val_groups by (rule read_groups) (simp_all add: drop_bit_small)
  show "unat v \<le> INT_MAX \<Longrightarrow> SRC_READ_INT (int_enc v @ rest) = Inr (v, rest)"
    by (simp add: SRC_READ_INT_def rt)
  have "unat v < 2 ^ LENGTH(64)" for v :: u64 by (rule unsigned_less)
  then show "n < 2 ^ 64 \<Longrightarrow> SRC_READ_SIZE_T (int_enc (word_of_nat n) @ rest) = Inr (n, rest)"
    by (simp add: SRC_READ_SIZE_T_def rt unat_of_nat)
qed

lemma read_exact: "SRC_READ (length x) (x @ rest) = Inr (x, rest)"
  by (simp add: SRC_READ_def)

lemma attr_flags_int: "unat (attr_flags a) \<le> INT_MAX"
  using attr_flags_small [of a] by simp

lemma read_attr_enc:
  assumes "0 \<le> attr_type a" "attr_type a \<le> 2 ^ 31 - 1" "length (attr_key a) < 2 ^ 63" "length d < 2 ^ 63"
  shows "src_read_attr (attr_head_enc a @ int_enc (word_of_nat (length d)) @ d @ rest) =
    Inr ((attr_type a, attr_flags a, attr_key a, d), rest)"
proof -
  have type: "unat (word_of_int (attr_type a) :: u64) = nat (attr_type a)"
    using assms(1,2) by (simp add: unsigned_of_int take_bit_int_eq_self nat_take_bit_eq)
  have "nat (attr_type a) \<le> 2 ^ 31 - 1" using assms(2) by simp
  with type have "SRC_READ_INT (int_enc (word_of_int (attr_type a)) @ r) = Inr (word_of_int (attr_type a), r)" for r
    by (intro read_int_enc(1)) simp
  moreover have "SRC_READ_INT (int_enc (attr_flags a) @ r) = Inr (attr_flags a, r)" for r
    by (rule read_int_enc(1)) (rule attr_flags_int)
  moreover have "int (unat (word_of_int (attr_type a) :: u64)) = attr_type a"
    using type assms(1) by simp
  ultimately show ?thesis
    using assms(3,4) by (simp add: src_read_attr_def attr_head_enc_def read_int_enc(2) read_exact attr_flags_bits)
qed

text \<open>What an LSA must satisfy to be read back: attribute types and nesting the reader accepts.\<close>

fun attr_fits :: "nat \<Rightarrow> lsa_attr \<Rightarrow> bool" where
  "attr_fits n (Lsa_attr t s k (Attr_bytes d)) \<longleftrightarrow> 0 \<le> t \<and> t \<le> 2 ^ 31 - 1"
| "attr_fits n (Lsa_attr t s k (Attr_set as)) \<longleftrightarrow>
     0 \<le> t \<and> t \<le> 2 ^ 31 - 1 \<and> n \<noteq> 0 \<and> list_all (attr_fits (n - 1)) as"

lemma attr_fits_type: "attr_fits n a \<Longrightarrow> 0 \<le> attr_type a \<and> attr_type a \<le> 2 ^ 31 - 1"
  by (cases "(n, a)" rule: attr_fits.cases) auto


lemma attr_enc_ne: "attr_enc False preid a \<noteq> []"
  using int_enc_length(1) by (cases a rule: attr_total.cases) (auto simp: attr_head_enc_def)

lemma des_attrs_from:
  assumes "\<And>a b dst src. a \<in> set as \<Longrightarrow> attr_ok a \<Longrightarrow> attr_fits n a \<Longrightarrow> attr_total a < 2 ^ 63 - 16 \<Longrightarrow>
      \<forall>x \<in> set dst. compare_attr_keys x a < 0 \<Longrightarrow>
      lsa_deserialise_attr_set 1 n (b, dst) (attr_enc False None a @ src) =
        lsa_deserialise_attr_set 1 n (b + attr_total a, dst @ [a]) src"
    and "avl_ordered compare_attr_keys (dst @ as)" "list_all attr_ok as" "list_all (attr_fits n) as"
    and "attrs_total as < 2 ^ 63 - 16"
  shows "lsa_deserialise_attr_set 1 n (b, dst) (concat (map (attr_enc False None) as)) =
    Inr (0, b + attrs_total as, dst @ as)"
  using assms
proof (induction as arbitrary: b dst)
  case Nil
  then show ?case by (simp add: lsa_deserialise_attr_set.simps [of _ _ _ _ "[]"])
next
  case (Cons a as)
  have "lsa_deserialise_attr_set 1 n (b, dst) (attr_enc False None a @ concat (map (attr_enc False None) as)) =
      lsa_deserialise_attr_set 1 n (b + attr_total a, dst @ [a]) (concat (map (attr_enc False None) as))"
    by (rule Cons.prems(1)) (use Cons.prems in \<open>auto simp: avl_ordered_append\<close>)
  also have "\<dots> = Inr (0, b + attr_total a + attrs_total as, (dst @ [a]) @ as)"
    by (rule Cons.IH) (use Cons.prems in auto)
  finally show ?case by simp
qed

lemma des_attr:
  "attr_ok a \<Longrightarrow> attr_fits n a \<Longrightarrow> attr_total a < 2 ^ 63 - 16 \<Longrightarrow>
   \<forall>x \<in> set dst. compare_attr_keys x a < 0 \<Longrightarrow>
   lsa_deserialise_attr_set 1 n (b, dst) (attr_enc False None a @ src) =
     lsa_deserialise_attr_set 1 n (b + attr_total a, dst @ [a]) src"
proof (induction a arbitrary: n b dst src rule: lsa_attr_induct)
  case (Bytes t s k d)
  let ?a = "Lsa_attr t s k (Attr_bytes d)"
  have enc: "attr_enc False None ?a @ src = attr_head_enc ?a @ int_enc (word_of_nat (length d)) @ d @ src"
    by (simp add: Let_def)
  have read: "src_read_attr (attr_enc False None ?a @ src) = Inr ((t, attr_flags ?a, k, d), src)"
    unfolding enc using read_attr_enc [of ?a d src] Bytes by (auto split: if_splits)
  have "lsa_attr_set_add_attr 1 b dst t s k d = Inr (0, b + attr_total ?a, dst @ [?a])"
    by (rule add_attr_last) (use Bytes in simp_all)
  then show ?case
    by (subst lsa_deserialise_attr_set.simps)
      (simp add: read attr_enc_ne attr_flags_bits Let_def del: attr_enc.simps attr_total.simps)
next
  case (Set t s k as)
  let ?a = "Lsa_attr t s k (Attr_set as)" and ?d = "concat (map (attr_enc False None) as)"
  have len: "length ?d \<le> attrs_total as" by (rule attrs_enc_length_None)
  have enc: "attr_enc False None ?a @ src = attr_head_enc ?a @ int_enc (word_of_nat (length ?d)) @ ?d @ src"
    by (simp add: Let_def)
  have read: "src_read_attr (attr_enc False None ?a @ src) = Inr ((t, attr_flags ?a, k, ?d), src)"
    unfolding enc using read_attr_enc [of ?a ?d src] Set.prems len by (auto split: if_splits)
  have "lsa_deserialise_attr_set 1 (n - 1) (b + attr_size ?a, []) ?d =
      Inr (0, b + attr_size ?a + attrs_total as, [] @ as)"
    by (rule des_attrs_from) (use Set in \<open>auto simp: attrs_ok_def\<close>)
  moreover have "n \<noteq> 0" using Set.prems(2) by simp
  moreover have "attr_size ?a < 2 ^ 63 - 16" using Set.prems(3) by simp
  ultimately show ?case
    using add_attr_set_last(1) [of t s k as dst b] add_attr_set_last(2) [of t s k as dst] Set.prems(4)
    by (subst lsa_deserialise_attr_set.simps)
      (simp add: read attr_enc_ne attr_flags_bits Let_def add.assoc del: attr_enc.simps attr_size.simps)
qed


lemma deserialise_enc:
  assumes wf: "lsa_wf l" and small: "lsa_bytes l < 2 ^ 62" and fits: "list_all (attr_fits 8) (lsa_root l)"
  shows "lsa_deserialise (Some p) rc (lsa_enc False None l @ rest) =
    Inr (rc(p := 1), int (length (lsa_enc False None l)), Some (l\<lparr>lsa_ptr := p\<rparr>))"
proof -
  let ?as = "concat (map (attr_enc False None) (lsa_root l))"
  define body where "body = lsa_id l @ ?as"
  have l: "attrs_ok (lsa_root l)" "length (lsa_id l) = 32"
      "lsa_bytes l = 42 + attrs_total (lsa_root l)"
    using wf by (auto simp: lsa_wf_def NODE_ID_LEN_def MAX_SERIALISED_INT_LEN_def)
  have body: "length body \<le> lsa_bytes l" "32 \<le> length body"
    using attrs_enc_length_None [of False "lsa_root l"] l(2,3) by (simp_all add: body_def)
  let ?h = "int_enc (word_of_nat (length body))"
  have enc: "lsa_enc False None l = ?h @ body"
    by (simp add: lsa_enc_def Let_def attrs_enc_None body_def)
  have h: "length ?h \<le> 10" "0 < length ?h" by (rule int_enc_length)+
  have size: "SRC_READ_SIZE_T (?h @ body @ rest) = Inr (length body, body @ rest)"
    by (rule read_int_enc(2)) (use body(1) small in simp)
  have nid: "SRC_READ NODE_ID_LEN body = Inr (lsa_id l, ?as)"
    using l(2) by (simp add: SRC_READ_def body_def NODE_ID_LEN_def)
  have attrs: "lsa_deserialise_attr_set 1 8 (42, []) ?as = Inr (0, 42 + attrs_total (lsa_root l), [] @ lsa_root l)"
    by (rule des_attrs_from) (use l small fits des_attr in \<open>auto simp: attrs_ok_def\<close>)
  have "body \<noteq> []" using body(2) by auto
  moreover have "\<not> SSIZE_MAX - length ?h < length body" using body(1) small h(1) by simp
  moreover have "lsa_alloc (Some p) rc (lsa_id l) =
      (rc(p := 1), Some \<lparr>lsa_ptr = p, lsa_bytes = 42, lsa_id = lsa_id l, lsa_root = []\<rparr>)"
    using l(2) by (simp add: lsa_alloc_def MAX_SERIALISED_INT_LEN_def NODE_ID_LEN_def)
  ultimately show ?thesis
    using attrs by (simp add: lsa_deserialise_def enc size Let_def nid l(3))
qed

subsection \<open>What the reader of a partial or extended serialisation sees\<close>

text \<open>
  Serialising only the signed attributes, or with an id put in front of the path, is
  serialising the LSA that has these changes made.
\<close>

fun attr_image :: "bool \<Rightarrow> bytes option \<Rightarrow> lsa_attr \<Rightarrow> lsa_attr" where
  "attr_image so preid (Lsa_attr t s k (Attr_bytes d)) =
     Lsa_attr t s k (Attr_bytes (case preid of Some pid \<Rightarrow> pid @ d | None \<Rightarrow> d))"
| "attr_image so preid (Lsa_attr t s k (Attr_set as)) =
     Lsa_attr t s k (Attr_set (map (attr_image so None) (filter (\<lambda>a. so \<longrightarrow> attr_signed a) as)))"

definition attrs_image :: "bool \<Rightarrow> bytes option \<Rightarrow> lsa_attr list \<Rightarrow> lsa_attr list" where
  "attrs_image so preid as =
     map (\<lambda>a. attr_image so (if attr_type a = LSA_ATTR_TYPE_ADV_PATH then preid else None) a)
       (filter (\<lambda>a. so \<longrightarrow> attr_signed a) as)"

definition lsa_image :: "bool \<Rightarrow> bytes option \<Rightarrow> lsa \<Rightarrow> lsa" where
  "lsa_image so preid l =
     l\<lparr>lsa_root := attrs_image so preid (lsa_root l),
       lsa_bytes := MAX_SERIALISED_INT_LEN + NODE_ID_LEN + attrs_total (attrs_image so preid (lsa_root l))\<rparr>"

lemma attr_image_keys [simp]:
  "attr_type (attr_image so preid a) = attr_type a"
  "attr_key (attr_image so preid a) = attr_key a"
  "attr_signed (attr_image so preid a) = attr_signed a"
  "data_is_attr_set (attr_image so preid a) = data_is_attr_set a"
  by (cases a rule: attr_total.cases; simp)+

lemma attr_head_image: "attr_head_enc (attr_image so preid a) = attr_head_enc a"
  by (simp add: attr_head_enc_def attr_flags_def)

lemma concat_filter:
  "(\<And>a. a \<in> set as \<Longrightarrow> \<not> P a \<Longrightarrow> f a = []) \<Longrightarrow> concat (map f as) = concat (map f (filter P as))"
  by (induction as) auto

lemma attr_enc_image:
  "attr_enc so preid a = (if so \<and> \<not> attr_signed a then [] else attr_enc False None (attr_image so preid a))"
proof (induction a arbitrary: preid rule: lsa_attr_induct)
  case (Bytes t s k d)
  show ?case
    using attr_head_image [of so preid "Lsa_attr t s k (Attr_bytes d)"]
    by (auto simp: Let_def split: option.splits)
next
  case (Set t s k as)
  have "concat (map (attr_enc so None) as) =
      concat (map (attr_enc so None) (filter (\<lambda>a. so \<longrightarrow> attr_signed a) as))"
    by (rule concat_filter) (use Set in auto)
  also have "\<dots> = concat (map (attr_enc False None) (map (attr_image so None) (filter (\<lambda>a. so \<longrightarrow> attr_signed a) as)))"
    by (rule arg_cong [where f = concat]) (use Set in auto)
  finally have data: "concat (map (attr_enc so None) as) =
      concat (map (attr_enc False None) (map (attr_image so None) (filter (\<lambda>a. so \<longrightarrow> attr_signed a) as)))" .
  have head: "attr_head_enc (attr_image so preid (Lsa_attr t s k (Attr_set as))) =
      attr_head_enc (Lsa_attr t s k (Attr_set as))" by (rule attr_head_image)
  show ?case
    using head unfolding attr_enc.simps(2) attr_image.simps(2) data by simp
qed

lemma lsa_enc_image: "lsa_enc so preid l = lsa_enc False None (lsa_image so preid l)"
proof -
  let ?P = "\<lambda>a. so \<longrightarrow> attr_signed a" and
    ?q = "\<lambda>a. if attr_type a = LSA_ATTR_TYPE_ADV_PATH then preid else None"
  have "attrs_enc so preid (lsa_root l) = concat (map (\<lambda>a. attr_enc so (?q a) a) (filter ?P (lsa_root l)))"
    unfolding attrs_enc_def by (rule concat_filter) (subst attr_enc_image, simp)
  also have "\<dots> = concat (map (attr_enc False None) (attrs_image so preid (lsa_root l)))"
    by (auto simp: attrs_image_def attr_enc_image [of so] intro!: arg_cong [where f = concat])
  finally show ?thesis
    by (simp add: lsa_enc_def lsa_image_def attrs_enc_None)
qed

lemma compare_attr_image [simp]:
  "compare_attr_keys (attr_image so p a) (attr_image so q b) = compare_attr_keys a b"
  by (simp add: compare_attr_keys_def)

lemma attr_image_ok: "attr_ok a \<Longrightarrow> attr_ok (attr_image so preid a)"
proof (induction a arbitrary: preid rule: lsa_attr_induct)
  case (Set t s k as)
  then show ?case
    by (auto simp: attrs_ok_def list_all_iff avl_ordered_def sorted_wrt_map intro!: sorted_wrt_filter)
qed simp

lemma attr_image_fits: "attr_fits n a \<Longrightarrow> attr_fits n (attr_image so preid a)"
  by (induction a arbitrary: preid n rule: lsa_attr_induct) (auto simp: list_all_iff)

lemma lsa_image_wf: "lsa_wf l \<Longrightarrow> lsa_wf (lsa_image so preid l)"
  by (auto simp: lsa_wf_def lsa_image_def attrs_image_def attrs_ok_def list_all_iff avl_ordered_def
      sorted_wrt_map attr_image_ok intro!: sorted_wrt_filter)

lemma deserialise_enc_image:
  assumes "lsa_wf l" "list_all (attr_fits 8) (lsa_root l)" "lsa_bytes (lsa_image so preid l) < 2 ^ 62"
  shows "lsa_deserialise (Some p) rc (lsa_enc so preid l @ rest) =
    Inr (rc(p := 1), int (length (lsa_enc so preid l)), Some (lsa_image so preid l\<lparr>lsa_ptr := p\<rparr>))"
  unfolding lsa_enc_image [of so preid]
  by (rule deserialise_enc)
    (use assms lsa_image_wf in \<open>auto simp: lsa_image_def attrs_image_def list_all_iff attr_image_fits\<close>)

text \<open>
  C1: what one node serialises another reads back: from the bytes \<^verbatim>\<open>lsa_serialise\<close> writes,
  whatever follows them, \<^verbatim>\<open>lsa_deserialise\<close> consumes exactly these and builds a fresh LSA with
  reference count 1 that is the serialised one, restricted to its signed attributes if only
  these were asked for, and with the sender's id in front of its path if one was given.
\<close>

theorem lsa_roundtrip:
  assumes "lsa_wf l" "list_all (attr_fits 8) (lsa_root l)" "lsa_bytes (lsa_image so preid l) < 2 ^ 62"
  shows "lsa_deserialise (Some p) rc (lsa_enc so preid l @ rest) =
    Inr (rc(p := 1), int (length (lsa_enc so preid l)), Some (lsa_image so preid l\<lparr>lsa_ptr := p\<rparr>))"
  using assms by (rule deserialise_enc_image)

theorem lsa_roundtrip_witness:
  "lsa_deserialise (Some 5) (\<lambda>_. 0)
     (lsa_enc False (Some (replicate 32 1)) \<lparr>lsa_ptr = 7, lsa_bytes = 104, lsa_id = replicate 32 7,
        lsa_root = [Lsa_attr LSA_ATTR_TYPE_ADV_PATH False [] (Attr_bytes (replicate 32 9))]\<rparr> @ [1, 2, 3]) =
   Inr ((\<lambda>_. 0)(5 := 1),
     int (length (lsa_enc False (Some (replicate 32 1)) \<lparr>lsa_ptr = 7, lsa_bytes = 104, lsa_id = replicate 32 7,
        lsa_root = [Lsa_attr LSA_ATTR_TYPE_ADV_PATH False [] (Attr_bytes (replicate 32 9))]\<rparr>)),
     Some \<lparr>lsa_ptr = 5, lsa_bytes = 136, lsa_id = replicate 32 7,
       lsa_root = [Lsa_attr LSA_ATTR_TYPE_ADV_PATH False [] (Attr_bytes (replicate 32 1 @ replicate 32 9))]\<rparr>)"
  using lsa_roundtrip [of "\<lparr>lsa_ptr = 7, lsa_bytes = 104, lsa_id = replicate 32 7,
        lsa_root = [Lsa_attr LSA_ATTR_TYPE_ADV_PATH False [] (Attr_bytes (replicate 32 9))]\<rparr>"
        False "Some (replicate 32 1)" 5 "\<lambda>_. 0" "[1, 2, 3]"]
  by (simp add: lsa_wf_def lsa_image_def attrs_image_def MAX_SERIALISED_INT_LEN_def NODE_ID_LEN_def
      LSA_ATTR_TYPE_ADV_PATH_def)


section \<open>Every accepted LSA is well-formed\<close>

lemma lsa_attr_size_Inr: "lsa_attr_size a = Inr sz \<Longrightarrow> sz = attr_size a"
  by (cases a rule: attr_total.cases)
    (auto simp: lsa_attr_size_def Let_def MAX_SERIALISED_INT_LEN_def split: if_splits)

lemma insert_attrs_ok:
  "avl_insert compare_attr_keys a dst = Some dst' \<Longrightarrow> attr_ok a \<Longrightarrow> attrs_ok dst \<Longrightarrow>
   attrs_ok dst' \<and> attrs_total dst' = attr_total a + attrs_total dst \<and> set dst' = insert a (set dst)"
  using attrs.insert_ordered [of dst a dst'] avl_insert_set [of compare_attr_keys a dst dst']
    avl_insert_sum [of compare_attr_keys a dst dst' attr_total]
  by (auto simp: attrs_ok_def attrs_total_def list_all_iff)

lemma add_attr_Inr:
  assumes "lsa_attr_set_add_attr rc b dst t s k d = Inr (ret, b', dst')" "attrs_ok dst"
  shows "attrs_ok dst' \<and> b' + attrs_total dst = b + attrs_total dst' \<and>
    set dst' \<subseteq> insert (Lsa_attr t s k (Attr_bytes d)) (set dst)"
  using assms insert_attrs_ok [of "Lsa_attr t s k (Attr_bytes d)" dst dst']
  by (auto simp: lsa_attr_set_add_attr_def Let_def dest!: lsa_attr_size_Inr
      split: if_splits option.splits)

lemma add_attr_set_Inr:
  assumes "lsa_attr_set_add_attr_set rc b dst t s k = Inr (child, b', dst')" "attrs_ok dst"
  shows "attrs_ok dst' \<and> b' + attrs_total dst = b + attrs_total dst' \<and>
    set dst' \<subseteq> insert (Lsa_attr t s k (Attr_set [])) (set dst) \<and>
    (child \<longrightarrow> Lsa_attr t s k (Attr_set []) \<in> set dst')"
  using assms insert_attrs_ok [of "Lsa_attr t s k (Attr_set [])" dst dst']
  by (auto simp: lsa_attr_set_add_attr_set_def Let_def dest!: lsa_attr_size_Inr
      split: if_splits option.splits)

lemma set_child_keys: "map attr_order_key (set_child t k c as) = map attr_order_key as"
  by (induction as) (auto simp: attr_order_key_def)

lemma ordered_keys: "avl_ordered compare_attr_keys as \<longleftrightarrow> sorted_wrt (<) (map attr_order_key as)"
  by (simp add: avl_ordered_def sorted_wrt_map compare_attr_keys_ord)

lemma set_child_ok:
  assumes "attrs_ok as" "Lsa_attr t s k (Attr_set []) \<in> set as" "attrs_ok c"
  shows "attrs_ok (set_child t k c as) \<and> attrs_total (set_child t k c as) = attrs_total as + attrs_total c \<and>
    set (set_child t k c as) \<subseteq> insert (Lsa_attr t s k (Attr_set c)) (set as)"
proof -
  have "avl_ordered compare_attr_keys (set_child t k c as)"
    using assms(1) by (simp add: attrs_ok_def ordered_keys set_child_keys)
  moreover have "list_all attr_ok (set_child t k c as) \<and>
      attrs_total (set_child t k c as) = attrs_total as + attrs_total c \<and>
      set (set_child t k c as) \<subseteq> insert (Lsa_attr t s k (Attr_set c)) (set as)"
    using assms
  proof (induction as)
    case (Cons a as)
    show ?case
    proof (cases "attr_type a = t \<and> attr_key a = k")
      case True
      then have "\<forall>x \<in> set as. compare_attr_keys a x \<noteq> 0" using Cons.prems(1) by fastforce
      then have "a = Lsa_attr t s k (Attr_set [])"
        using True Cons.prems(2) by (auto simp: compare_attr_keys_eq_0)
      then show ?thesis using Cons.prems by (auto simp: attrs_ok_def)
    next
      case False
      then show ?thesis using Cons by auto
    qed
  qed simp
  ultimately show ?thesis by (simp add: attrs_ok_def)
qed

lemma src_read_attr_type:
  assumes "src_read_attr src = Inr ((t, flags, k, d), rest)"
  shows "0 \<le> t \<and> t \<le> 2 ^ 31 - 1"
proof -
  have "uint v \<le> 2147483647" if "SRC_READ_INT src = Inr (v, src')" for v src'
  proof -
    from that have "unat v \<le> 2147483647" by (auto simp: SRC_READ_INT_def split: sum.splits if_splits)
    then have "int (unat v) \<le> 2147483647" by linarith
    then show ?thesis by simp
  qed
  with assms show ?thesis
    by (auto simp: src_read_attr_def split: sum.splits prod.splits)
qed

lemma des_Inr:
  "lsa_deserialise_attr_set rc n (b, dst) src = Inr (ret, b', dst') \<Longrightarrow> attrs_ok dst \<Longrightarrow>
   list_all (attr_fits n) dst \<Longrightarrow>
   attrs_ok dst' \<and> b' + attrs_total dst = b + attrs_total dst' \<and> list_all (attr_fits n) dst'"
proof (induction "length src" arbitrary: n b dst src ret b' dst' rule: less_induct)
  case less
  show ?case
  proof (cases "src = [] \<or> (\<exists>e. src_read_attr src = Inl e)")
    case True
    then show ?thesis
      using less.prems by (subst (asm) lsa_deserialise_attr_set.simps) (auto split: if_splits)
  next
    case False
    then obtain t flags k d src' where rd: "src \<noteq> []" "src_read_attr src = Inr ((t, flags, k, d), src')"
      by (cases "src_read_attr src") auto
    let ?s = "flags AND LSA_ATTR_FLAG_SIGNED \<noteq> 0"
    have shorter: "length d < length src" "length src' < length src"
      using src_read_attr_length [OF rd(2)] by simp_all
    have t: "0 \<le> t \<and> t \<le> 2 ^ 31 - 1" by (rule src_read_attr_type [OF rd(2)])
    show ?thesis
    proof (cases "flags AND LSA_ATTR_FLAG_DATA_IS_TLV = 0")
      case True
      from less.prems(1) rd True obtain r1 b1 dst1
        where add: "lsa_attr_set_add_attr rc b dst t ?s k d = Inr (r1, b1, dst1)"
          and rest: "if r1 < 0 then Inr (-1, b1, dst1) = (Inr (ret, b', dst') :: (int \<times> nat \<times> lsa_attr list) outcome)
            else lsa_deserialise_attr_set rc n (b1, dst1) src' = Inr (ret, b', dst')"
        by (subst (asm) lsa_deserialise_attr_set.simps) (auto simp: Let_def split: if_splits)
      note ok = add_attr_Inr [OF add less.prems(2)]
      have fits: "list_all (attr_fits n) dst1"
        using ok less.prems(3) t by (auto simp: list_all_iff)
      show ?thesis
        using less.hyps [OF shorter(2) _ _ fits, of b1 ret b' dst'] rest ok fits by (auto split: if_splits)
    next
      case tlv: False
      show ?thesis
      proof (cases "n = 0")
        case True
        then show ?thesis
          using less.prems rd tlv by (subst (asm) lsa_deserialise_attr_set.simps) (auto simp: Let_def)
      next
        case False
        have "obind (lsa_attr_set_add_attr_set rc b dst t ?s k) (\<lambda>(child, b1, dst1).
            if \<not> child then Inr (-1, b1, dst1)
            else obind (lsa_deserialise_attr_set rc (n - 1) (b1, []) d) (\<lambda>(r2, b2, c).
              if r2 < 0 then Inr (-1, b2, set_child t k c dst1)
              else lsa_deserialise_attr_set rc n (b2, set_child t k c dst1) src')) = Inr (ret, b', dst')"
          using less.prems(1) rd tlv False
          by (subst (asm) lsa_deserialise_attr_set.simps, unfold Let_def) (simp del: obind_eq_Inr)
        then obtain child b1 dst1
          where add: "lsa_attr_set_add_attr_set rc b dst t ?s k = Inr (child, b1, dst1)"
            and rest: "(if \<not> child then Inr (-1, b1, dst1)
            else obind (lsa_deserialise_attr_set rc (n - 1) (b1, []) d) (\<lambda>(r2, b2, c).
              if r2 < 0 then Inr (-1, b2, set_child t k c dst1)
              else lsa_deserialise_attr_set rc n (b2, set_child t k c dst1) src')) = Inr (ret, b', dst')"
          by (auto simp del: obind_eq_Inr simp: obind_def split: sum.splits)
        note ok = add_attr_set_Inr [OF add less.prems(2)]
        have fits: "list_all (attr_fits n) dst1"
          using ok less.prems(3) t False by (auto simp: list_all_iff)
        show ?thesis
        proof (cases child)
          case True
          with rest obtain r2 b2 c where c: "lsa_deserialise_attr_set rc (n - 1) (b1, []) d = Inr (r2, b2, c)"
            and fin: "if r2 < 0 then b' = b2 \<and> dst' = set_child t k c dst1
               else lsa_deserialise_attr_set rc n (b2, set_child t k c dst1) src' = Inr (ret, b', dst')"
            by (auto split: if_splits)
          have inner: "attrs_ok c \<and> b2 + attrs_total [] = b1 + attrs_total c \<and> list_all (attr_fits (n - 1)) c"
            by (rule less.hyps [OF shorter(1) c]) simp_all
          have in1: "Lsa_attr t ?s k (Attr_set []) \<in> set dst1" using ok True by simp
          note sc = set_child_ok [OF conjunct1 [OF ok] in1 conjunct1 [OF inner]]
          have fits2: "list_all (attr_fits n) (set_child t k c dst1)"
            using sc inner fits t False by (auto simp: list_all_iff subset_iff)
          show ?thesis
            using less.hyps [OF shorter(2) _ conjunct1 [OF sc] fits2, of b2 ret b' dst'] fin sc inner ok fits2
            by (auto split: if_splits)
        qed (use rest ok fits in auto)
      qed
    qed
  qed
qed


lemma SRC_READ_SIZE_T_suffix: "SRC_READ_SIZE_T src = Inr (v, rest) \<Longrightarrow> length rest < length src \<and> v < 2 ^ 64"
  using SRC_READ_SIZE_T_length [of src v rest] unsigned_less [where 'b = 64 and 'a = nat]
  by (auto simp: SRC_READ_SIZE_T_def split: sum.splits if_splits)

text \<open>
  C15: whatever bytes a peer sends, if \<^verbatim>\<open>lsa_deserialise\<close> returns then it returns -1, 0 or the
  number of bytes consumed, which is positive and within the buffer; and an LSA it returns is
  well-formed (its attribute sets ordered at every level and its \<^verbatim>\<open>bytes\<close> exact), nests at most
  8 deep, and is held by the caller alone.
\<close>

theorem lsa_deserialise_wf:
  assumes "lsa_deserialise malloc rc buf = Inr (rc', ret, lo)"
  shows "-1 \<le> ret \<and> ret \<le> int (length buf) \<and> (lo \<noteq> None \<longrightarrow> 0 < ret) \<and>
    (\<forall>l. lo = Some l \<longrightarrow> lsa_wf l \<and> list_all (attr_fits 8) (lsa_root l) \<and>
      rc' = rc(lsa_ptr l := 1) \<and> malloc = Some (lsa_ptr l))"
proof (cases "SRC_READ_SIZE_T buf")
  case (Inl e)
  then show ?thesis using assms by (cases e) (auto simp: lsa_deserialise_def)
next
  case (Inr x)
  obtain len src where x: "x = (len, src)" by (cases x)
  note sz = SRC_READ_SIZE_T_suffix [OF Inr [unfolded x]]
  let ?off = "length buf - length src" and ?src = "take len src"
  show ?thesis
  proof (cases "len = 0 \<or> len > SSIZE_MAX - ?off \<or> len + ?off > length buf \<or> length ?src < NODE_ID_LEN \<or> malloc = None")
    case True
    then show ?thesis using assms Inr x sz
      by (auto simp: lsa_deserialise_def Let_def SRC_READ_def lsa_alloc_def split: if_splits)
  next
    case False
    then obtain p where p: "malloc = Some p" by auto
    from assms Inr x False p obtain r b root
      where des: "lsa_deserialise_attr_set 1 8 (42, []) (drop NODE_ID_LEN ?src) = Inr (r, b, root)"
        and res: "ret = (if r < 0 then -1 else int (len + ?off))"
          "lo = (if r < 0 then None else Some \<lparr>lsa_ptr = p, lsa_bytes = b,
             lsa_id = take NODE_ID_LEN (take NODE_ID_LEN ?src), lsa_root = root\<rparr>)"
          "\<not> r < 0 \<Longrightarrow> rc' = rc(p := 1)"
      by (auto simp: lsa_deserialise_def Let_def SRC_READ_def lsa_alloc_def MAX_SERIALISED_INT_LEN_def
          NODE_ID_LEN_def split: if_splits)
    have "attrs_ok root \<and> b = 42 + attrs_total root \<and> list_all (attr_fits 8) root"
      using des_Inr [OF des] by simp
    with res p False sz show ?thesis
      by (auto simp: lsa_wf_def MAX_SERIALISED_INT_LEN_def NODE_ID_LEN_def split: if_splits)
  qed
qed

theorem lsa_deserialise_wf_witness:
  "lsa_deserialise (Some 5) (\<lambda>_. 0) ([36] @ replicate 32 7 @ [3, 4, 1, 65] @ [0]) =
     Inr ((\<lambda>_. 0)(5 := 1), 37, Some \<lparr>lsa_ptr = 5, lsa_bytes = 73, lsa_id = replicate 32 7,
       lsa_root = [Lsa_attr 3 True [] (Attr_bytes [65])]\<rparr>) \<and>
   lsa_wf \<lparr>lsa_ptr = 5, lsa_bytes = 73, lsa_id = replicate 32 7,
       lsa_root = [Lsa_attr 3 True [] (Attr_bytes [65])]\<rparr>"
proof -
  let ?l = "\<lparr>lsa_ptr = 5, lsa_bytes = 73, lsa_id = replicate 32 7,
       lsa_root = [Lsa_attr 3 True [] (Attr_bytes [65])]\<rparr> :: lsa"
  have enc: "[36] @ replicate 32 7 @ [3, 4, 1, 65] = lsa_enc False None ?l"
    by code_simp
  have "lsa_deserialise (Some 5) (\<lambda>_. 0) (([36] @ replicate 32 7 @ [3, 4, 1, 65]) @ [0]) =
      Inr ((\<lambda>_. 0)(5 := 1), 37, Some ?l)"
    using deserialise_enc [of ?l 5 "\<lambda>_. 0" "[0]"]
    unfolding enc [symmetric] by (simp add: lsa_wf_def MAX_SERIALISED_INT_LEN_def NODE_ID_LEN_def)
  then show ?thesis
    using lsa_deserialise_wf [of "Some 5" "\<lambda>_. 0" "[36] @ replicate 32 7 @ [3, 4, 1, 65] @ [0]"
        "(\<lambda>_. 0)(5 := 1)" 37 "Some ?l"] by simp
qed


text \<open>Evaluating the reader on given bytes.\<close>

lemmas deserialise_eval =
  lsa_deserialise_def lsa_alloc_def Let_def SRC_READ_def NODE_ID_LEN_def lsa_deserialise_attr_set.simps
  src_read_attr_def SRC_READ_INT_def SRC_READ_SIZE_T_def SRC_READ_UINT64_T_def LSA_ATTR_FLAG_HAS_KEY_def
  LSA_ATTR_FLAG_DATA_IS_TLV_def lsa_attr_set_add_attr_def lsa_attr_set_add_attr_set_def
  lsa_attr_set_find_attr_def attr_alloc_def round_up_def SIZEOF_LSA_ATTR_def SIZEOF_LSA_ATTR_SET_def
  lsa_attr_size_def MAX_SERIALISED_INT_LEN_def lsa_attr_compare_keys_def lsa_put_def

lemma replicate_7: "replicate 32 (7 :: byte) =
  [7, 7, 7, 7, 7, 7, 7, 7, 7, 7, 7, 7, 7, 7, 7, 7, 7, 7, 7, 7, 7, 7, 7, 7, 7, 7, 7, 7, 7, 7, 7, 7]"
  by code_simp

end
