(* ===== verification/Lsa_Diff.thy ===== *)
theory Lsa_Diff
  imports Lsa_Deserialise
begin

text \<open>
  \<^verbatim>\<open>src/lsa_diff.c\<close>: the differences between the attributes of two LSAs, reported through
  callbacks.  A callback is a function on a state of the caller (its cookie); a null callback
  is \<open>None\<close>.  The results: \<^verbatim>\<open>lsa_diff\<close> returns 0 exactly when the attributes agree up to the
  signed flag of attributes that are bytes, which the comparison does not look at, and what it
  reports takes the one set of attributes into the other.
\<close>

section \<open>Comparing two attributes with the same key\<close>

text \<open>The buffers are fresh stack memory, of which only what is written is compared.\<close>

definition attr_cmp :: "lsa_attr \<Rightarrow> lsa_attr \<Rightarrow> int outcome" where
  "attr_cmp a b =
     (if data_is_attr_set a \<noteq> data_is_attr_set b then Inr 1
      else case (attr_data a, attr_data b) of
        (Attr_bytes adata, Attr_bytes bdata) \<Rightarrow>
          if attr_datalen a \<noteq> attr_datalen b then Inr 1 else Inr (memcmp adata bdata)
      | _ \<Rightarrow>
          obind (lsa_attr_serialise_length a) (\<lambda>alen.
          obind (lsa_attr_serialise_length b) (\<lambda>blen.
          if alen \<noteq> blen then Inr 1
          else if alen > 65536 - 16 then Inl Abort
          else obind (lsa_attr_serialise (replicate (alen + 16) 0) a) (\<lambda>(abuf, _).
               obind (lsa_attr_serialise (replicate (blen + 16) 0) b) (\<lambda>(bbuf, _).
               Inr (memcmp (take alen abuf) (take alen bbuf)))))))"

section \<open>The callbacks of the walk\<close>

text \<open>The state is the count of differences and the state of the cookie.\<close>

definition diff_req_add ::
  "(lsa_attr \<Rightarrow> 's \<Rightarrow> 's outcome) \<Rightarrow> lsa_attr \<Rightarrow> int \<times> 's \<Rightarrow> (int \<times> 's) outcome" where
  "diff_req_add attr_add a = (\<lambda>(diffs, s). obind (attr_add a s) (\<lambda>s. Inr (diffs + 1, s)))"

definition diff_req_del ::
  "(lsa_attr \<Rightarrow> 's \<Rightarrow> 's outcome) \<Rightarrow> lsa_attr \<Rightarrow> int \<times> 's \<Rightarrow> (int \<times> 's) outcome" where
  "diff_req_del attr_del a = (\<lambda>(diffs, s). obind (attr_del a s) (\<lambda>s. Inr (diffs + 1, s)))"

definition diff_req_mod ::
  "(lsa_attr \<Rightarrow> 's \<Rightarrow> 's outcome) \<Rightarrow> (lsa_attr \<Rightarrow> lsa_attr \<Rightarrow> 's \<Rightarrow> 's outcome) option \<Rightarrow>
   (lsa_attr \<Rightarrow> 's \<Rightarrow> 's outcome) \<Rightarrow> lsa_attr \<Rightarrow> lsa_attr \<Rightarrow> int \<times> 's \<Rightarrow> (int \<times> 's) outcome" where
  "diff_req_mod attr_add attr_mod attr_del a b = (\<lambda>(diffs, s).
     obind (attr_cmp a b) (\<lambda>ret.
       if ret \<noteq> 0 then
         (case attr_mod of
            Some m \<Rightarrow> obind (m a b s) (\<lambda>s. Inr (diffs + 1, s))
          | None \<Rightarrow> obind (attr_del a s) (\<lambda>s. obind (attr_add b s) (\<lambda>s. Inr (diffs + 1, s))))
       else Inr (diffs, s)))"

definition lsa_diff ::
  "lsa option \<Rightarrow> lsa option \<Rightarrow> (lsa_attr \<Rightarrow> 's \<Rightarrow> 's outcome) option \<Rightarrow>
   (lsa_attr \<Rightarrow> lsa_attr \<Rightarrow> 's \<Rightarrow> 's outcome) option \<Rightarrow> (lsa_attr \<Rightarrow> 's \<Rightarrow> 's outcome) option \<Rightarrow>
   's \<Rightarrow> (int \<times> 's) outcome" where
  "lsa_diff a b attr_add attr_mod attr_del s =
     (let attr_add = (case attr_add of Some f \<Rightarrow> f | None \<Rightarrow> (\<lambda>_. Inr));
          attr_del = (case attr_del of Some f \<Rightarrow> f | None \<Rightarrow> (\<lambda>_. Inr));
          aroot = (case a of Some l \<Rightarrow> lsa_root l | None \<Rightarrow> []);
          broot = (case b of Some l \<Rightarrow> lsa_root l | None \<Rightarrow> [])
      in avl_diff compare_attr_keys aroot broot
           (diff_req_add attr_add) (diff_req_mod attr_add attr_mod attr_del) (diff_req_del attr_del) (0, s))"

section \<open>What is compared\<close>

text \<open>An attribute without the signed flag if it is bytes.\<close>

definition attr_strip :: "lsa_attr \<Rightarrow> lsa_attr" where
  "attr_strip a = (case attr_data a of
     Attr_bytes d \<Rightarrow> Lsa_attr (attr_type a) False (attr_key a) (Attr_bytes d)
   | Attr_set as \<Rightarrow> a)"

text \<open>Attributes that \<^verbatim>\<open>attr_cmp\<close> can serialise into its buffers, of LSAs off the wire.\<close>

definition attr_diffable :: "lsa_attr \<Rightarrow> bool" where
  "attr_diffable a \<longleftrightarrow> attr_ok a \<and> attr_fits 8 a \<and> attr_total a < 2 ^ 62 \<and>
     (data_is_attr_set a \<longrightarrow> length (attr_enc False None a) \<le> 65536 - 16)"

lemma attr_serialise_eq:
  assumes "length (attr_enc False None a) < 2 ^ 63"
  shows "lsa_attr_serialise buf a =
    Inr (take (length buf) (attr_enc False None a) @ drop (length (attr_enc False None a)) buf,
      length (attr_enc False None a))"
proof -
  have "lsa_attr_serialise_to False None a \<lparr>dst_buf = buf, dst_off = 0\<rparr> =
      Inr (dst_write \<lparr>dst_buf = buf, dst_off = 0\<rparr> (attr_enc False None a))"
    using attr_writes_all [of a] assms by (simp add: attr_writes_def)
  then show ?thesis by (simp add: lsa_attr_serialise_def dst_write_def write_at_def)
qed

lemma attr_enc_inj:
  assumes "attr_ok a" "attr_ok b" "attr_fits 8 a" "attr_fits 8 b" "attr_total a < 2 ^ 62" "attr_total b < 2 ^ 62"
    and "attr_enc False None a = attr_enc False None b"
  shows "a = b"
proof -
  have des: "lsa_deserialise_attr_set 1 8 (0, []) (attr_enc False None x) = Inr (0, attr_total x, [x])"
    if "attr_ok x" "attr_fits 8 x" "attr_total x < 2 ^ 62" for x
    using des_attrs_from [of "[x]" 8 "[]" 0] des_attr that by simp
  show ?thesis
    using des [OF assms(1,3,5)] des [OF assms(2,4,6)] unfolding assms(7) by simp
qed

lemma attr_cmp_iff:
  assumes "attr_diffable a" "attr_diffable b" "compare_attr_keys a b = 0"
  shows "\<exists>r. attr_cmp a b = Inr r \<and> (r = 0 \<longleftrightarrow> attr_strip a = attr_strip b)"
proof -
  obtain t s k d where a: "a = Lsa_attr t s k d" by (cases a)
  obtain s' e where b: "b = Lsa_attr t s' k e"
    using assms(3) a by (cases b) (auto simp: compare_attr_keys_eq_0)
  show ?thesis
  proof (cases d)
    case (Attr_bytes x)
    then show ?thesis
      by (cases e) (auto simp: a b attr_cmp_def attr_strip_def memcmp_eq_0)
  next
    case (Attr_set as)
    note d = this
    show ?thesis
    proof (cases e)
      case (Attr_bytes y)
      then show ?thesis by (auto simp: a b d attr_cmp_def attr_strip_def)
    next
      case (Attr_set bs)
      let ?ea = "attr_enc False None a" and ?eb = "attr_enc False None b"
      have set: "data_is_attr_set a" "data_is_attr_set b" by (simp_all add: a b d Attr_set)
      have dat: "attr_data a = Attr_set as" "attr_data b = Attr_set bs" by (simp_all add: a b d Attr_set)
      from set assms(1,2) have len: "length ?ea \<le> 65520" "length ?eb \<le> 65520"
        by (simp_all add: attr_diffable_def)
      then have ser: "lsa_attr_serialise buf a = Inr (take (length buf) ?ea @ drop (length ?ea) buf, length ?ea)"
        "lsa_attr_serialise buf b = Inr (take (length buf) ?eb @ drop (length ?eb) buf, length ?eb)" for buf
        by (simp_all add: attr_serialise_eq)
      have "attr_cmp a b = Inr (if length ?ea \<noteq> length ?eb then 1 else memcmp ?ea ?eb)"
        using len by (simp add: attr_cmp_def lsa_attr_serialise_length_def set dat ser)
      moreover have "?ea = ?eb \<longleftrightarrow> a = b"
        using attr_enc_inj [of a b] assms(1,2) by (auto simp: attr_diffable_def)
      moreover have "attr_strip a = a" "attr_strip b = b" by (simp_all add: attr_strip_def a b d Attr_set)
      ultimately show ?thesis by (auto simp: memcmp_eq_0)
    qed
  qed
qed


section \<open>No difference\<close>

text \<open>The walk calls the callbacks of the request; its state carries the count.\<close>

lemma diff_req_count:
  "diff_req_mod f m g a b (n, s) = Inr (n', s') \<Longrightarrow> n \<le> n'"
  "diff_req_add f a (n, s) = Inr (n', s') \<Longrightarrow> n < n'"
  "diff_req_del g a (n, s) = Inr (n', s') \<Longrightarrow> n < n'"
  by (auto simp: diff_req_mod_def diff_req_add_def diff_req_del_def split: if_splits option.splits)

definition attrs_diffable :: "lsa_attr list \<Rightarrow> bool" where
  "attrs_diffable as \<longleftrightarrow> avl_ordered compare_attr_keys as \<and> list_all attr_diffable as"

lemma attrs_diffable_simps [simp]:
  "attrs_diffable []"
  "attrs_diffable (a # as) \<longleftrightarrow> attr_diffable a \<and> attrs_diffable as \<and> (\<forall>b \<in> set as. compare_attr_keys a b < 0)"
  by (auto simp: attrs_diffable_def)

definition lsa_diffable :: "lsa option \<Rightarrow> bool" where
  "lsa_diffable lo \<longleftrightarrow> (\<forall>l. lo = Some l \<longrightarrow> attrs_diffable (lsa_root l))"

lemma attr_strip_keys:
  "attr_type (attr_strip a) = attr_type a" "attr_key (attr_strip a) = attr_key a"
  by (auto simp: attr_strip_def split: attr_data.splits)

lemma attr_strip_eq_compare: "attr_strip a = attr_strip b \<Longrightarrow> compare_attr_keys a b = 0"
  by (metis attr_strip_keys compare_attr_keys_eq_0)

text \<open>With null callbacks, the walk returns the number of elements that do not agree.\<close>

abbreviation diff_count :: "lsa_attr list \<Rightarrow> lsa_attr list \<Rightarrow> int \<Rightarrow> (int \<times> unit) outcome" where
  "diff_count as bs n \<equiv> avl_diff compare_attr_keys as bs
     (diff_req_add (\<lambda>_. Inr)) (diff_req_mod (\<lambda>_. Inr) None (\<lambda>_. Inr)) (diff_req_del (\<lambda>_. Inr)) (n, ())"

lemma diff_count_iff:
  "attrs_diffable as \<Longrightarrow> attrs_diffable bs \<Longrightarrow>
   \<exists>m \<ge> n. diff_count as bs n = Inr (m, ()) \<and> (m = n \<longleftrightarrow> map attr_strip as = map attr_strip bs)"
proof (induction as bs arbitrary: n rule: avl_diff_ops_induct [where cmp = compare_attr_keys])
  case (Both a as b bs)
  consider (lt) "compare_attr_keys a b < 0" | (gt) "compare_attr_keys a b > 0" | (eq) "compare_attr_keys a b = 0"
    by linarith
  then show ?case
  proof cases
    case lt
    then have "attr_strip a \<noteq> attr_strip b" using attr_strip_eq_compare by force
    with lt Both.IH(1) [of "n + 1"] Both.prems show ?thesis
      by (auto simp: avl_diff_def diff_req_del_def)
  next
    case gt
    then have "attr_strip a \<noteq> attr_strip b" using attr_strip_eq_compare by force
    with gt Both.IH(2) [of "n + 1"] Both.prems show ?thesis
      by (auto simp: avl_diff_def diff_req_add_def)
  next
    case eq
    obtain r where r: "attr_cmp a b = Inr r" "r = 0 \<longleftrightarrow> attr_strip a = attr_strip b"
      using attr_cmp_iff [of a b] Both.prems eq by auto
    show ?thesis
    proof (cases "r = 0")
      case True
      with eq r Both.IH(3) [of n] Both.prems show ?thesis by (auto simp: avl_diff_def diff_req_mod_def)
    next
      case False
      with eq r Both.IH(3) [of "n + 1"] Both.prems show ?thesis by (auto simp: avl_diff_def diff_req_mod_def)
    qed
  qed
next
  case (Left as)
  have "diff_count as [] n = Inr (n + int (length as), ())" for n
    by (induction as arbitrary: n) (auto simp: avl_diff_def diff_req_del_def)
  then show ?case by auto
next
  case (Right bs)
  have "diff_count [] bs n = Inr (n + int (length bs), ())" for n
    by (induction bs arbitrary: n) (auto simp: avl_diff_def diff_req_add_def)
  then show ?case by auto
qed

text \<open>
  C25: comparing two LSAs off the wire without callbacks, as \<^verbatim>\<open>adj_rib_in\<close> does, returns, and
  returns 0 exactly when they carry the same attributes, up to the signed flag of attributes
  that are bytes.
\<close>

theorem lsa_diff_zero_iff:
  assumes "lsa_diffable (Some a)" "lsa_diffable (Some b)"
  shows "\<exists>n. lsa_diff (Some a) (Some b) None None None () = Inr (n, ()) \<and> 0 \<le> n \<and>
    (n = 0 \<longleftrightarrow> map attr_strip (lsa_root a) = map attr_strip (lsa_root b))"
  using diff_count_iff [of "lsa_root a" "lsa_root b" 0] assms
  by (auto simp: lsa_diff_def lsa_diffable_def)

theorem lsa_diff_zero_iff_witness:
  "\<exists>n. lsa_diff
     (Some \<lparr>lsa_ptr = 5, lsa_bytes = 73, lsa_id = replicate 32 7, lsa_root = [Lsa_attr 3 True [] (Attr_bytes [65])]\<rparr>)
     (Some \<lparr>lsa_ptr = 6, lsa_bytes = 73, lsa_id = replicate 32 7, lsa_root = [Lsa_attr 3 False [] (Attr_bytes [65])]\<rparr>)
     None None None () = Inr (n, ()) \<and> n = 0"
  using lsa_diff_zero_iff [of
    "\<lparr>lsa_ptr = 5, lsa_bytes = 73, lsa_id = replicate 32 7, lsa_root = [Lsa_attr 3 True [] (Attr_bytes [65])]\<rparr>"
    "\<lparr>lsa_ptr = 6, lsa_bytes = 73, lsa_id = replicate 32 7, lsa_root = [Lsa_attr 3 False [] (Attr_bytes [65])]\<rparr>"]
  by (simp add: lsa_diffable_def attr_diffable_def attr_strip_def MAX_SERIALISED_INT_LEN_def)


section \<open>What is reported\<close>

text \<open>Callbacks that keep a log, in order.\<close>

definition log_op :: "'a diff_op \<Rightarrow> 'a diff_op list \<Rightarrow> 'a diff_op list outcome" where
  "log_op x ops = Inr (ops @ [x])"

fun reported :: "lsa_attr diff_op \<Rightarrow> bool" where
  "reported (Item_mod a b) = (attr_strip a \<noteq> attr_strip b)"
| "reported _ = True"

lemma log_walk:
  assumes "\<And>a b. Item_mod a b \<in> set ops \<Longrightarrow> attr_diffable a \<and> attr_diffable b \<and> compare_attr_keys a b = 0"
  shows "ofold (diff_call (diff_req_add (\<lambda>a. log_op (Item_add a)))
      (diff_req_mod (\<lambda>a. log_op (Item_add a)) (Some (\<lambda>a b. log_op (Item_mod a b))) (\<lambda>a. log_op (Item_del a)))
      (diff_req_del (\<lambda>a. log_op (Item_del a)))) ops (n, log) =
    Inr (n + int (length (filter reported ops)), log @ filter reported ops)"
  using assms
proof (induction ops arbitrary: n log)
  case (Cons x ops)
  have IH: "ofold (diff_call (diff_req_add (\<lambda>a. log_op (Item_add a)))
      (diff_req_mod (\<lambda>a. log_op (Item_add a)) (Some (\<lambda>a b. log_op (Item_mod a b))) (\<lambda>a. log_op (Item_del a)))
      (diff_req_del (\<lambda>a. log_op (Item_del a)))) ops (m, log') =
    Inr (m + int (length (filter reported ops)), log' @ filter reported ops)" for m log'
    by (rule Cons.IH) (use Cons.prems in auto)
  show ?case
  proof (cases x)
    case (Item_mod a b)
    obtain r where "attr_cmp a b = Inr r" "r = 0 \<longleftrightarrow> attr_strip a = attr_strip b"
      using attr_cmp_iff [of a b] Cons.prems [of a b] Item_mod by auto
    then have "diff_req_mod f (Some (\<lambda>a b. log_op (Item_mod a b))) g a b (n, log) =
        Inr (if reported x then (n + 1, log @ [x]) else (n, log))" for f g
      by (simp add: diff_req_mod_def log_op_def Item_mod)
    with Item_mod IH show ?thesis by simp
  next
    case (Item_add a)
    have "diff_req_add (\<lambda>a. log_op (Item_add a)) a (n, log) = Inr (n + 1, log @ [x])"
      by (simp add: diff_req_add_def log_op_def Item_add)
    with Item_add IH show ?thesis by simp
  next
    case (Item_del a)
    have "diff_req_del (\<lambda>a. log_op (Item_del a)) a (n, log) = Inr (n + 1, log @ [x])"
      by (simp add: diff_req_del_def log_op_def Item_del)
    with Item_del IH show ?thesis by simp
  qed
qed simp

text \<open>
  \<^verbatim>\<open>lsa_diff\<close> with callbacks makes exactly these calls, each once: a deletion for every
  attribute whose key only the first LSA has, an addition for every one whose key only the second has, and a
  modification for every key both have with contents that differ (up to the signed flag of
  bytes); the result is the number of calls.  A null LSA counts as one without attributes.
\<close>

theorem lsa_diff_reports:
  assumes "lsa_diffable a" "lsa_diffable b"
    and "as = (case a of Some l \<Rightarrow> lsa_root l | None \<Rightarrow> [])" "bs = (case b of Some l \<Rightarrow> lsa_root l | None \<Rightarrow> [])"
  shows "\<exists>ops. lsa_diff a b (Some (\<lambda>x. log_op (Item_add x))) (Some (\<lambda>x y. log_op (Item_mod x y)))
      (Some (\<lambda>x. log_op (Item_del x))) [] = Inr (int (length ops), ops) \<and> distinct ops \<and>
    (\<forall>x. Item_del x \<in> set ops \<longleftrightarrow> x \<in> set as \<and> (\<forall>y \<in> set bs. compare_attr_keys x y \<noteq> 0)) \<and>
    (\<forall>y. Item_add y \<in> set ops \<longleftrightarrow> y \<in> set bs \<and> (\<forall>x \<in> set as. compare_attr_keys x y \<noteq> 0)) \<and>
    (\<forall>x y. Item_mod x y \<in> set ops \<longleftrightarrow>
      x \<in> set as \<and> y \<in> set bs \<and> compare_attr_keys x y = 0 \<and> attr_strip x \<noteq> attr_strip y)"
proof -
  let ?ops = "avl_diff_ops compare_attr_keys as bs"
  have diffable: "attrs_diffable as" "attrs_diffable bs"
    using assms by (auto simp: lsa_diffable_def split: option.splits)
  note iff = attrs.diff_ops_iff [of as bs]
  have ord: "avl_ordered compare_attr_keys as" "avl_ordered compare_attr_keys bs"
    using diffable by (auto simp: attrs_diffable_def)
  have walk: "lsa_diff a b (Some (\<lambda>x. log_op (Item_add x))) (Some (\<lambda>x y. log_op (Item_mod x y)))
      (Some (\<lambda>x. log_op (Item_del x))) [] = Inr (int (length (filter reported ?ops)), filter reported ?ops)"
  proof -
    have "attr_diffable x \<and> attr_diffable y \<and> compare_attr_keys x y = 0" if "Item_mod x y \<in> set ?ops" for x y
      using that iff [of x y] diffable ord by (auto simp: attrs_diffable_def list_all_iff)
    from log_walk [of ?ops 0 "[]", OF this] show ?thesis
      by (simp add: lsa_diff_def avl_diff_def assms(3,4))
  qed
  have "distinct as" "distinct bs"
    using ord attrs.ordered_distinct by (auto simp: list_all_iff)
  then have "distinct ?ops" by (rule avl_diff_ops_distinct)
  with walk iff ord show ?thesis
    by (intro exI [of _ "filter reported ?ops"]) (auto simp: list_all_iff)
qed

theorem lsa_diff_reports_witness:
  "\<exists>ops. lsa_diff None (Some \<lparr>lsa_ptr = 5, lsa_bytes = 73, lsa_id = replicate 32 7,
       lsa_root = [Lsa_attr 3 True [] (Attr_bytes [65])]\<rparr>)
     (Some (\<lambda>x. log_op (Item_add x))) (Some (\<lambda>x y. log_op (Item_mod x y)))
     (Some (\<lambda>x. log_op (Item_del x))) [] = Inr (int (length ops), ops) \<and>
     Item_add (Lsa_attr 3 True [] (Attr_bytes [65])) \<in> set ops"
  using lsa_diff_reports [of None "Some \<lparr>lsa_ptr = 5, lsa_bytes = 73, lsa_id = replicate 32 7,
       lsa_root = [Lsa_attr 3 True [] (Attr_bytes [65])]\<rparr>" "[]" "[Lsa_attr 3 True [] (Attr_bytes [65])]"]
  by (auto simp: lsa_diffable_def attr_diffable_def MAX_SERIALISED_INT_LEN_def)

end
