(* ===== verification/Adj_Rib_In.thy ===== *)
theory Adj_Rib_In
  imports Lsa_Diff Lsa_Query Rib_Listener
begin

text \<open>
  \<^verbatim>\<open>src/adj_rib_in.c\<close>: the LSAs one peer has sent.  All LSAs are stored by id; only those that
  pass \<^verbatim>\<open>map\<close> (size, path, hash of the public key, signature) are counted and shown to the
  listeners.  nettle and gnutls are parameters, collected in a record; all the proofs need is that a digest has 32
  bytes.
\<close>

section \<open>State\<close>

definition ADJ_RIB_IN_MAX_BYTES :: nat where "ADJ_RIB_IN_MAX_BYTES = 1048576"
definition LSA_MAX_BYTES :: nat where "LSA_MAX_BYTES = 32768"

text \<open>
  \<open>pubkey_init\<close> tells whether \<^verbatim>\<open>gnutls_pubkey_init\<close> succeeds, \<open>pubkey_import\<close> is a DER import,
  \<open>pubkey_verify key data signature\<close> is \<^verbatim>\<open>gnutls_pubkey_verify_data2\<close> for RSA-SHA256, and
  \<open>set_image\<close> is the memory image of a set, which the code hashes and imports when a public
  key or signature attribute is a set.
\<close>

record 'k crypto =
  sha256 :: "bytes \<Rightarrow> bytes"
  pubkey_init :: bool
  pubkey_import :: "bytes \<Rightarrow> 'k option"
  pubkey_verify :: "'k \<Rightarrow> bytes \<Rightarrow> bytes \<Rightarrow> bool"
  set_image :: "lsa_attr list \<Rightarrow> bytes"

record 'w adj_rib_in =
  ai_myid :: "bytes option"
  ai_remoteid :: "bytes option"
  ai_lsas :: "lsa list"
  ai_size :: int
  ai_listeners :: "'w rib_listener list"

definition adj_compare_refs :: "lsa \<Rightarrow> lsa \<Rightarrow> int" where
  "adj_compare_refs a b = memcmp (lsa_id a) (lsa_id b)"

text \<open>A C \<^verbatim>\<open>int\<close> that is assigned a \<^verbatim>\<open>size_t\<close>.\<close>

definition int_of_size :: "int \<Rightarrow> int" where
  "int_of_size n = sint (word_of_int n :: 32 word)"

section \<open>Operations\<close>

definition adj_rib_in_init :: "'w adj_rib_in \<Rightarrow> 'w adj_rib_in" where
  "adj_rib_in_init rib = rib\<lparr>ai_lsas := [], ai_size := 0, ai_listeners := []\<rparr>"

definition adj_rib_in_find_ref :: "'w adj_rib_in \<Rightarrow> bytes \<Rightarrow> lsa option" where
  "adj_rib_in_find_ref rib nid = avl_find (\<lambda>ref. memcmp nid (lsa_id ref)) (ai_lsas rib)"

definition attr_raw :: "'k crypto \<Rightarrow> lsa_attr \<Rightarrow> bytes" where
  "attr_raw cr a = (case attr_data a of Attr_bytes d \<Rightarrow> d | Attr_set as \<Rightarrow> set_image cr as)"

text \<open>The end of \<^verbatim>\<open>map\<close>: serialise the signed attributes and verify the signature over them.\<close>

definition adj_verify :: "'k crypto \<Rightarrow> 'k \<Rightarrow> lsa_attr \<Rightarrow> lsa \<Rightarrow> lsa option outcome" where
  "adj_verify cr key sig l =
     obind (lsa_serialise_length l True None) (\<lambda>serlen.
     if serlen > 65536 - 128 then Inl Abort
     else let buflen = serlen + 128
     in obind (lsa_serialise (replicate buflen 0) serlen l True None) (\<lambda>(buf, len).
        if len > buflen then Inl Abort
        else if \<not> pubkey_verify cr key (take len buf) (attr_raw cr sig) then Inr None
        else Inr (Some l)))"

text \<open>The second half of \<^verbatim>\<open>map\<close>: the public key has the id as its digest, and verifies.\<close>

definition adj_authenticate :: "'k crypto \<Rightarrow> lsa \<Rightarrow> lsa option outcome" where
  "adj_authenticate cr l =
     (case lsa_find_attr l LSA_ATTR_TYPE_PUBKEY [] of None \<Rightarrow> Inr None
      | Some attr \<Rightarrow>
          let nid = sha256 cr (attr_raw cr attr)
          in if memcmp (lsa_id l) nid \<noteq> 0 then Inr None
          else if \<not> pubkey_init cr then Inr None
          else case pubkey_import cr (attr_raw cr attr) of None \<Rightarrow> Inr None
          | Some key \<Rightarrow>
          case lsa_find_attr l LSA_ATTR_TYPE_SIGNATURE [] of None \<Rightarrow> Inr None
          | Some sig \<Rightarrow> adj_verify cr key sig l)"

definition adj_map :: "'k crypto \<Rightarrow> 'w adj_rib_in \<Rightarrow> lsa option \<Rightarrow> lsa option outcome" where
  "adj_map cr rib lo =
     (case lo of None \<Rightarrow> Inr None
      | Some l \<Rightarrow>
          if lsa_bytes l + NODE_ID_LEN > LSA_MAX_BYTES then Inr None
          else case lsa_find_attr l LSA_ATTR_TYPE_ADV_PATH [] of None \<Rightarrow> Inr None
          | Some attr \<Rightarrow>
          if attr_datalen attr < NODE_ID_LEN \<or> attr_datalen attr mod NODE_ID_LEN \<noteq> 0 then Inr None
          else if (case ai_remoteid rib of None \<Rightarrow> True
                   | Some remoteid \<Rightarrow> memcmp remoteid (take NODE_ID_LEN (attr_raw cr attr)) \<noteq> 0) then Inr None
          else obind (case ai_myid rib of None \<Rightarrow> Inr False | Some myid \<Rightarrow> lsa_path_contains attr myid) (\<lambda>mine.
          if mine then Inr None else adj_authenticate cr l))"

definition adj_notify ::
  "'k crypto \<Rightarrow> 'w adj_rib_in \<Rightarrow> lsa option \<Rightarrow> lsa option \<Rightarrow> 'w world \<Rightarrow> ('w adj_rib_in \<times> 'w world) outcome" where
  "adj_notify cr rib old new w =
     obind (adj_map cr rib old) (\<lambda>old.
     obind (adj_map cr rib new) (\<lambda>new.
     let rib = (case old of Some l \<Rightarrow> rib\<lparr>ai_size := int_of_size (ai_size rib - int (lsa_bytes l))\<rparr> | None \<Rightarrow> rib);
         rib = (case new of Some l \<Rightarrow> rib\<lparr>ai_size := int_of_size (ai_size rib + int (lsa_bytes l))\<rparr> | None \<Rightarrow> rib)
     in obind (notify_listeners (ai_listeners rib) old RIB_COST_UNREACHABLE new RIB_COST_UNREACHABLE w)
          (\<lambda>w. Inr (rib, w))))"

definition adj_rib_in_del_lsa ::
  "'k crypto \<Rightarrow> 'w adj_rib_in \<Rightarrow> lsa \<Rightarrow> 'w world \<Rightarrow> ('w adj_rib_in \<times> 'w world) outcome" where
  "adj_rib_in_del_lsa cr rib ref w =
     obind (adj_notify cr rib (Some ref) None w) (\<lambda>(rib, rc, w).
     let rib = rib\<lparr>ai_lsas := avl_delete adj_compare_refs ref (ai_lsas rib)\<rparr>
     in obind (lsa_put rc (Some ref)) (\<lambda>rc. Inr (rib, rc, w)))"

text \<open>Storing another LSA in a node of the tree leaves its place in the tree as it is.\<close>

definition ref_replace :: "lsa \<Rightarrow> lsa \<Rightarrow> lsa list \<Rightarrow> lsa list" where
  "ref_replace old new xs = map (\<lambda>x. if x = old then new else x) xs"

text \<open>
  \<open>malloc\<close> tells whether the reference can be allocated.  \<open>size + bytes\<close> is computed in
  \<^verbatim>\<open>size_t\<close>, to which the \<^verbatim>\<open>int\<close> size is converted.
\<close>

definition adj_rib_in_add_lsa ::
  "'k crypto \<Rightarrow> bool \<Rightarrow> 'w adj_rib_in \<Rightarrow> lsa \<Rightarrow> 'w world \<Rightarrow> (int \<times> 'w adj_rib_in \<times> 'w world) outcome" where
  "adj_rib_in_add_lsa cr malloc rib l w =
     (let ref = adj_rib_in_find_ref rib (lsa_id l)
      in if lsa_root l = [] then
           (case ref of
              None \<Rightarrow> Inr (-1, rib, w)
            | Some ref \<Rightarrow> obind (adj_rib_in_del_lsa cr rib ref w) (\<lambda>(rib, w). Inr (0, rib, w)))
         else if (ai_size rib + int (lsa_bytes l)) mod 2 ^ 64 > int ADJ_RIB_IN_MAX_BYTES then
           (case ref of
              None \<Rightarrow> Inr (-1, rib, w)
            | Some ref \<Rightarrow> obind (adj_rib_in_del_lsa cr rib ref w) (\<lambda>(rib, w). Inr (-1, rib, w)))
         else case ref of
           None \<Rightarrow>
             if \<not> malloc then Inr (-1, rib, w)
             else obind (adj_notify cr rib None (Some l) w) (\<lambda>(rib, rc, w).
               let rc = lsa_get rc (Some l)
               in case avl_insert adj_compare_refs l (ai_lsas rib) of
                    Some lsas \<Rightarrow> Inr (0, rib\<lparr>ai_lsas := lsas\<rparr>, rc, w)
                  | None \<Rightarrow> Inr (0, rib, rc, w))
         | Some ref \<Rightarrow>
             obind (lsa_diff (Some ref) (Some l) None None None ()) (\<lambda>(diffs, _).
             if diffs \<noteq> 0 then
               obind (adj_notify cr rib (Some ref) (Some l) w) (\<lambda>(rib, rc, w).
               obind (lsa_put rc (Some ref)) (\<lambda>rc.
               let rc = lsa_get rc (Some l)
               in Inr (0, rib\<lparr>ai_lsas := ref_replace ref l (ai_lsas rib)\<rparr>, rc, w)))
             else Inr (0, rib, w)))"

text \<open>
  \<^verbatim>\<open>adj_rib_in_truncate\<close> deletes the LSA at the root of the tree until the tree is empty.  Which
  one that is depends on the shape of the tree: \<open>root\<close> chooses one.  The number of LSAs is
  fuel enough (\<open>adj_truncate_correct\<close>).
\<close>

fun adj_truncate_loop ::
  "nat \<Rightarrow> (lsa list \<Rightarrow> nat) \<Rightarrow> 'k crypto \<Rightarrow> 'w adj_rib_in \<Rightarrow> 'w world \<Rightarrow> ('w adj_rib_in \<times> 'w world) outcome" where
  "adj_truncate_loop 0 root cr rib w = Inr (rib, w)"
| "adj_truncate_loop (Suc n) root cr rib w =
     (if ai_lsas rib = [] then Inr (rib, w)
      else obind (adj_rib_in_del_lsa cr rib (ai_lsas rib ! (root (ai_lsas rib) mod length (ai_lsas rib))) w)
        (\<lambda>(rib, w). adj_truncate_loop n root cr rib w))"

definition adj_rib_in_truncate ::
  "(lsa list \<Rightarrow> nat) \<Rightarrow> 'k crypto \<Rightarrow> 'w adj_rib_in \<Rightarrow> 'w world \<Rightarrow> ('w adj_rib_in \<times> 'w world) outcome" where
  "adj_rib_in_truncate root cr rib w = adj_truncate_loop (length (ai_lsas rib)) root cr rib w"

definition adj_rib_in_listener_register :: "'w adj_rib_in \<Rightarrow> 'w rib_listener \<Rightarrow> 'w adj_rib_in" where
  "adj_rib_in_listener_register rib rl = rib\<lparr>ai_listeners := ai_listeners rib @ [rl]\<rparr>"

text \<open>A listener is unlinked by its place in the list.\<close>

definition adj_rib_in_listener_unregister :: "'w adj_rib_in \<Rightarrow> nat \<Rightarrow> 'w adj_rib_in" where
  "adj_rib_in_listener_unregister rib i =
     rib\<lparr>ai_listeners := take i (ai_listeners rib) @ drop (i + 1) (ai_listeners rib)\<rparr>"

interpretation adj_refs: avl_order adj_compare_refs "\<lambda>l. id_ok (lsa_id l)"
  by (rule avl_order_key [where f = lsa_id]) (simp add: adj_compare_refs_def memcmp_id_ord)


section \<open>What passes the map\<close>

text \<open>
  \<open>lsa_valid\<close>: within the size limit; the path attribute is a list of ids that begins with the
  peer's and does not contain our own; the id is the digest of the public key; the
  signature verifies, with that key, over the signed attributes.
\<close>

definition lsa_path_valid :: "'w adj_rib_in \<Rightarrow> lsa \<Rightarrow> bool" where
  "lsa_path_valid rib l \<longleftrightarrow>
     (\<exists>d remoteid. path_of l = Some d \<and> ai_remoteid rib = Some remoteid \<and>
        (\<exists>rest. path_ids d = remoteid # rest) \<and>
        (\<forall>myid. ai_myid rib = Some myid \<longrightarrow> myid \<notin> set (path_ids d)))"

definition lsa_signed :: "'k crypto \<Rightarrow> lsa \<Rightarrow> bool" where
  "lsa_signed cr l \<longleftrightarrow>
     (\<exists>pk sig key. lsa_find_attr l LSA_ATTR_TYPE_PUBKEY [] = Some pk \<and>
        sha256 cr (attr_raw cr pk) = lsa_id l \<and> pubkey_init cr \<and>
        pubkey_import cr (attr_raw cr pk) = Some key \<and>
        lsa_find_attr l LSA_ATTR_TYPE_SIGNATURE [] = Some sig \<and>
        pubkey_verify cr key (lsa_enc True None l) (attr_raw cr sig))"

definition lsa_valid :: "'k crypto \<Rightarrow> 'w adj_rib_in \<Rightarrow> lsa \<Rightarrow> bool" where
  "lsa_valid cr rib l \<longleftrightarrow> lsa_bytes l + NODE_ID_LEN \<le> LSA_MAX_BYTES \<and> lsa_path_valid rib l \<and> lsa_signed cr l"

definition crypto_ok :: "'k crypto \<Rightarrow> bool" where
  "crypto_ok cr \<longleftrightarrow> (\<forall>x. id_ok (sha256 cr x))"

definition ids_ok :: "'w adj_rib_in \<Rightarrow> bool" where
  "ids_ok rib \<longleftrightarrow> (\<forall>x. ai_myid rib = Some x \<longrightarrow> id_ok x) \<and> (\<forall>x. ai_remoteid rib = Some x \<longrightarrow> id_ok x)"

lemma find_root_type: "lsa_find_attr l t k = Some a \<Longrightarrow> attr_type a = t"
  by (auto simp: lsa_find_attr_def dest: find_attr_SomeD)

lemma adj_verify_eq:
  assumes "lsa_wf l" "lsa_bytes l + NODE_ID_LEN \<le> LSA_MAX_BYTES"
  shows "adj_verify cr key sig l =
    Inr (if pubkey_verify cr key (lsa_enc True None l) (attr_raw cr sig) then Some l else None)"
proof -
  let ?n = "NODE_ID_LEN + length (attrs_enc True None (lsa_root l))"
  have wf: "attrs_ok (lsa_root l)" "length (lsa_id l) = NODE_ID_LEN"
    "lsa_bytes l = MAX_SERIALISED_INT_LEN + NODE_ID_LEN + attrs_total (lsa_root l)"
    using assms(1) by (auto simp: lsa_wf_def)
  have "length (attrs_enc True None (lsa_root l)) \<le> attrs_total (lsa_root l)"
    by (simp add: attrs_enc_None attrs_enc_length_None)
  then have n: "?n \<le> 32768" using wf(3) assms(2) by (simp add: LSA_MAX_BYTES_def MAX_SERIALISED_INT_LEN_def NODE_ID_LEN_def)
  have len: "length (lsa_enc True None l) \<le> 10 + ?n" using length_lsa_enc [OF wf(2), of True None] by simp
  have small: "length (attrs_enc True None (lsa_root l)) < 2 ^ 63" using n by simp
  show ?thesis
    unfolding adj_verify_def serialise_length_eq [OF preid_ok_None small]
    using serialise_eq [OF preid_ok_None small wf(2)] n len by (simp add: Let_def)
qed

lemma path_ids_head:
  assumes "length d mod NODE_ID_LEN = 0"
  shows "(\<exists>rest. path_ids d = r # rest) \<longleftrightarrow> NODE_ID_LEN \<le> length d \<and> take NODE_ID_LEN d = r"
proof (cases "d = []")
  case False
  then show ?thesis using path_step(1) [OF assms False] by (subst path_ids.simps) auto
qed (auto simp: NODE_ID_LEN_def)

lemma adj_authenticate_eq:
  assumes "lsa_wf l" "crypto_ok cr" "lsa_bytes l + NODE_ID_LEN \<le> LSA_MAX_BYTES"
  shows "adj_authenticate cr l = Inr (if lsa_signed cr l then Some l else None)"
proof -
  have idl: "id_ok (lsa_id l)" using assms(1) by (simp add: lsa_wf_def id_ok_def)
  have digest: "memcmp (lsa_id l) (sha256 cr x) = 0 \<longleftrightarrow> sha256 cr x = lsa_id l" for x
    using memcmp_id [OF idl, of "sha256 cr x"] assms(2) by (auto simp: crypto_ok_def)
  note sig = adj_verify_eq [OF assms(1,3)]
  show ?thesis
    by (auto simp: adj_authenticate_def lsa_signed_def digest sig Let_def split: option.splits)
qed

lemma adj_map_eq:
  assumes "lsa_wf l" "crypto_ok cr" "ids_ok rib"
  shows "adj_map cr rib (Some l) = Inr (if lsa_valid cr rib l then Some l else None)"
proof (cases "lsa_bytes l + NODE_ID_LEN \<le> LSA_MAX_BYTES \<and> path_of l \<noteq> None \<and> ai_remoteid rib \<noteq> None")
  case False
  then consider "lsa_bytes l + NODE_ID_LEN > LSA_MAX_BYTES" | "path_of l = None" | "ai_remoteid rib = None"
    by fastforce
  then show ?thesis
  proof cases
    case 2
    have "adj_map cr rib (Some l) = Inr None"
    proof (cases "lsa_find_attr l LSA_ATTR_TYPE_ADV_PATH []")
      case (Some a)
      have "attr_datalen a < NODE_ID_LEN \<or> attr_datalen a mod NODE_ID_LEN \<noteq> 0"
      proof (cases a rule: attr_datalen.cases)
        case (1 t s k as)
        then show ?thesis by (simp add: SIZEOF_LSA_ATTR_SET_def NODE_ID_LEN_def)
      next
        case (2 t s k d)
        with Some \<open>path_of l = None\<close> show ?thesis by (auto simp: path_of_def split: if_splits)
      qed
      with Some show ?thesis by (simp add: adj_map_def)
    qed (simp add: adj_map_def)
    with 2 show ?thesis by (simp add: lsa_valid_def lsa_path_valid_def)
  qed (auto simp: adj_map_def lsa_valid_def lsa_path_valid_def split: option.splits)
next
  case True
  then obtain d remoteid where d: "path_of l = Some d" "ai_remoteid rib = Some remoteid" by auto
  then obtain a where a: "lsa_find_attr l LSA_ATTR_TYPE_ADV_PATH [] = Some a" "attr_data a = Attr_bytes d"
      "length d mod NODE_ID_LEN = 0"
    by (auto simp: path_of_def split: option.splits attr_data.splits if_splits)
  have dl: "attr_datalen a = length d" using a(2) by (cases a) simp
  have rid: "id_ok remoteid" using assms(3) d(2) by (simp add: ids_ok_def)
  have head: "memcmp remoteid (take NODE_ID_LEN d) = 0 \<longleftrightarrow> take NODE_ID_LEN d = remoteid" if "NODE_ID_LEN \<le> length d"
    using that memcmp_id [OF rid, of "take NODE_ID_LEN d"] by (auto simp: id_ok_def)
  have mine: "(case ai_myid rib of None \<Rightarrow> Inr False | Some myid \<Rightarrow> lsa_path_contains a myid) =
      Inr (\<exists>myid. ai_myid rib = Some myid \<and> myid \<in> set (path_ids d))"
    using a find_root_type [OF a(1)] assms(3)
    by (simp add: lsa_path_contains_def lsa_path_scan_iff ids_ok_def id_ok_def split: option.splits)
  have path: "lsa_path_valid rib l \<longleftrightarrow> NODE_ID_LEN \<le> length d \<and> take NODE_ID_LEN d = remoteid \<and>
      \<not> (\<exists>myid. ai_myid rib = Some myid \<and> myid \<in> set (path_ids d))"
    using d path_ids_head [OF a(3), of remoteid] by (auto simp: lsa_path_valid_def)
  have auth: "adj_authenticate cr l = Inr (if lsa_signed cr l then Some l else None)"
    by (rule adj_authenticate_eq) (use assms True in auto)
  have "adj_map cr rib (Some l) =
      (if length d < NODE_ID_LEN then Inr None
       else if take NODE_ID_LEN d \<noteq> remoteid then Inr None
       else if (\<exists>myid. ai_myid rib = Some myid \<and> myid \<in> set (path_ids d)) then Inr None
       else Inr (if lsa_signed cr l then Some l else None))"
  proof (cases "length d < NODE_ID_LEN")
    case short: True
    with True a(1) dl show ?thesis by (simp add: adj_map_def)
  next
    case False
    have "adj_map cr rib (Some l) =
        (if memcmp remoteid (take NODE_ID_LEN d) \<noteq> 0 then Inr None
         else obind (case ai_myid rib of None \<Rightarrow> Inr False | Some myid \<Rightarrow> lsa_path_contains a myid)
           (\<lambda>mine. if mine then Inr None else adj_authenticate cr l))"
      using False True a dl d(2) by (simp add: adj_map_def attr_raw_def)
    then show ?thesis using False head unfolding mine auth by simp
  qed
  with True show ?thesis by (auto simp: lsa_valid_def path)
qed


section \<open>The invariant\<close>

text \<open>
  An LSA off the wire can be stored when it is well-formed, has no empty nested sets (which
  cannot be freed) and can be compared.  \<open>adj_held\<close> counts the references the base holds.
\<close>

definition adj_lsa_ok :: "lsa \<Rightarrow> bool" where
  "adj_lsa_ok l \<longleftrightarrow> lsa_filled l \<and> attrs_diffable (lsa_root l)"

definition accepted :: "'k crypto \<Rightarrow> 'w adj_rib_in \<Rightarrow> lsa set" where
  "accepted cr rib = {l \<in> set (ai_lsas rib). lsa_valid cr rib l}"

definition accepted_bytes :: "'k crypto \<Rightarrow> 'w adj_rib_in \<Rightarrow> nat" where
  "accepted_bytes cr rib = sum_list (map (\<lambda>l. if lsa_valid cr rib l then lsa_bytes l else 0) (ai_lsas rib))"

definition adj_inv :: "'k crypto \<Rightarrow> 'w adj_rib_in \<Rightarrow> bool" where
  "adj_inv cr rib \<longleftrightarrow> avl_ordered adj_compare_refs (ai_lsas rib) \<and> list_all adj_lsa_ok (ai_lsas rib) \<and>
     ai_size rib = int (accepted_bytes cr rib) \<and> accepted_bytes cr rib \<le> ADJ_RIB_IN_MAX_BYTES"

definition adj_held :: "'w adj_rib_in \<Rightarrow> nat \<Rightarrow> int" where
  "adj_held rib p = int (sum_list (map (\<lambda>l. if lsa_ptr l = p then 1 else 0) (ai_lsas rib)))"

lemma lsa_valid_upd [simp]:
  "lsa_valid cr (rib\<lparr>ai_size := n\<rparr>) l = lsa_valid cr rib l"
  "lsa_valid cr (rib\<lparr>ai_lsas := ls\<rparr>) l = lsa_valid cr rib l"
  by (simp_all add: lsa_valid_def lsa_path_valid_def)

lemma adj_lsa_ok_wf: "adj_lsa_ok l \<Longrightarrow> lsa_wf l" "adj_lsa_ok l \<Longrightarrow> id_ok (lsa_id l)"
  by (auto simp: adj_lsa_ok_def lsa_filled_def lsa_wf_def id_ok_def)

lemma list_all_ids: "list_all adj_lsa_ok ls \<Longrightarrow> list_all (\<lambda>l. id_ok (lsa_id l)) ls"
  by (auto simp: list_all_iff adj_lsa_ok_wf)

lemma int_of_size_small: "0 \<le> n \<Longrightarrow> n < 2147483648 \<Longrightarrow> int_of_size n = n"
  by (simp add: int_of_size_def signed_of_int signed_take_bit_int_eq_self)

definition valid_part :: "'k crypto \<Rightarrow> 'w adj_rib_in \<Rightarrow> lsa option \<Rightarrow> lsa option" where
  "valid_part cr rib lo = (case lo of Some l \<Rightarrow> if lsa_valid cr rib l then Some l else None | None \<Rightarrow> None)"

lemma valid_part_simps [simp]:
  "valid_part cr rib None = None"
  "valid_part cr rib (Some l) = (if lsa_valid cr rib l then Some l else None)"
  by (simp_all add: valid_part_def)

lemma set_valid_part: "x \<in> set_option (valid_part cr rib lo) \<Longrightarrow> x \<in> set_option lo"
  by (cases lo) (auto split: if_splits)

definition part_bytes :: "lsa option \<Rightarrow> int" where
  "part_bytes lo = (case lo of Some l \<Rightarrow> int (lsa_bytes l) | None \<Rightarrow> 0)"

lemma part_bytes_simps [simp]: "part_bytes None = 0" "part_bytes (Some l) = int (lsa_bytes l)"
  by (simp_all add: part_bytes_def)

lemma part_bytes_nonneg: "0 \<le> part_bytes lo"
  by (simp add: part_bytes_def split: option.split)

lemma adj_find_ref_eq:
  "adj_rib_in_find_ref rib (lsa_id l) = avl_find (adj_compare_refs l) (ai_lsas rib)"
  by (simp add: adj_rib_in_find_ref_def adj_compare_refs_def [abs_def])

lemma ref_replace_sum:
  fixes f :: "lsa \<Rightarrow> nat"
  assumes "distinct xs" "ref \<in> set xs"
  shows "sum_list (map f (ref_replace ref l xs)) + f ref = sum_list (map f xs) + f l"
  using assms
proof (induction xs)
  case (Cons x xs)
  show ?case
  proof (cases "x = ref")
    case True
    then have "ref_replace ref l xs = xs" using Cons.prems(1) by (auto simp: ref_replace_def intro: map_idI)
    with True show ?thesis by (simp add: ref_replace_def)
  next
    case False
    with Cons have "sum_list (map f (ref_replace ref l xs)) + f ref = sum_list (map f xs) + f l" by simp
    with False show ?thesis by (simp add: ref_replace_def)
  qed
qed simp

lemma ref_replace_set:
  "distinct xs \<Longrightarrow> ref \<in> set xs \<Longrightarrow> set (ref_replace ref l xs) = insert l (set xs - {ref})"
  by (auto simp: ref_replace_def)

lemma ordered_ids: "avl_ordered adj_compare_refs xs \<longleftrightarrow> sorted_wrt (\<lambda>a b. memcmp a b < 0) (map lsa_id xs)"
  by (simp add: avl_ordered_def sorted_wrt_map adj_compare_refs_def)

lemma ref_replace_ordered:
  "lsa_id l = lsa_id ref \<Longrightarrow> avl_ordered adj_compare_refs (ref_replace ref l xs) = avl_ordered adj_compare_refs xs"
proof -
  assume "lsa_id l = lsa_id ref"
  then have "map lsa_id (ref_replace ref l xs) = map lsa_id xs" by (simp add: ref_replace_def)
  then show ?thesis by (simp add: ordered_ids)
qed

lemma accepted_bytes_delete:
  assumes "avl_ordered adj_compare_refs (ai_lsas rib)" "list_all adj_lsa_ok (ai_lsas rib)" "ref \<in> set (ai_lsas rib)"
  shows "int (accepted_bytes cr rib) = part_bytes (valid_part cr rib (Some ref)) +
      int (accepted_bytes cr (rib\<lparr>ai_lsas := avl_delete adj_compare_refs ref (ai_lsas rib)\<rparr>))"
    and "adj_held rib p = (if lsa_ptr ref = p then 1 else 0) +
      adj_held (rib\<lparr>ai_lsas := avl_delete adj_compare_refs ref (ai_lsas rib)\<rparr>) p"
    and "set (avl_delete adj_compare_refs ref (ai_lsas rib)) = set (ai_lsas rib) - {ref}"
proof -
  have find: "avl_find (adj_compare_refs ref) (ai_lsas rib) = Some ref"
    by (rule adj_refs.find_self) (use assms in \<open>auto simp: list_all_iff adj_lsa_ok_wf\<close>)
  show "int (accepted_bytes cr rib) = part_bytes (valid_part cr rib (Some ref)) +
      int (accepted_bytes cr (rib\<lparr>ai_lsas := avl_delete adj_compare_refs ref (ai_lsas rib)\<rparr>))"
    using find avl_delete_sum [where cmp = adj_compare_refs and x = ref and xs = "ai_lsas rib" and y = ref and f = "\<lambda>l. if lsa_valid cr rib l then lsa_bytes l else 0"]
    by (simp add: accepted_bytes_def)
  show "adj_held rib p = (if lsa_ptr ref = p then 1 else 0) +
      adj_held (rib\<lparr>ai_lsas := avl_delete adj_compare_refs ref (ai_lsas rib)\<rparr>) p"
    using find avl_delete_sum [where cmp = adj_compare_refs and x = ref and xs = "ai_lsas rib" and y = ref and f = "\<lambda>l. if lsa_ptr l = p then 1 else 0"]
    by (simp add: adj_held_def)
  have "\<forall>y \<in> set (ai_lsas rib). adj_compare_refs ref y = 0 \<longleftrightarrow> y = ref"
    using adj_refs.ordered_distinct_keys [of "ai_lsas rib" ref] adj_refs.cmp_refl assms
    by (auto simp: list_all_iff adj_lsa_ok_wf)
  then show "set (avl_delete adj_compare_refs ref (ai_lsas rib)) = set (ai_lsas rib) - {ref}"
    using adj_refs.delete_set [of "ai_lsas rib" ref] assms by (auto simp: list_all_iff adj_lsa_ok_wf)
qed

text \<open>
  What a call on the base does, given its only listener: the invariant holds afterwards, the
  listener knows exactly the accepted LSAs of the new state where it knew those of the old
  one, and every reference taken or dropped is accounted for.
\<close>

definition told :: "'k crypto \<Rightarrow> 'w adj_rib_in \<Rightarrow> (lsa \<times> u32) set" where
  "told cr rib = unreach (accepted cr rib)"

definition adj_moves ::
  "'k crypto \<Rightarrow> ('w \<Rightarrow> (lsa \<times> u32) set \<Rightarrow> bool) \<Rightarrow> ('w \<Rightarrow> nat \<Rightarrow> int) \<Rightarrow> (lsa \<times> u32) set \<Rightarrow>
   'w adj_rib_in \<Rightarrow> 'w world \<Rightarrow> 'w adj_rib_in \<Rightarrow> 'w world \<Rightarrow> bool" where
  "adj_moves cr rep held V rib w rib' w' \<longleftrightarrow>
     adj_inv cr rib' \<and> ai_listeners rib' = ai_listeners rib \<and> ai_myid rib' = ai_myid rib \<and>
     ai_remoteid rib' = ai_remoteid rib \<and> rep (snd w') (V - told cr rib \<union> told cr rib') \<and>
     V \<inter> told cr rib' \<subseteq> told cr rib \<and>
     (\<forall>p. fst w' p - held (snd w') p - adj_held rib' p = fst w p - held (snd w) p - adj_held rib p)"

context rib_client
begin

lemma adj_notify_client:
  assumes "crypto_ok cr" "ids_ok rib" "ai_listeners rib = [rl]" "rep (snd w) V"
    and "\<forall>l \<in> set_option old \<union> set_option new. lsa_wf l"
    and "\<forall>a \<in> set_option (valid_part cr rib old). (a, RIB_COST_UNREACHABLE) \<in> V"
    and "\<forall>b \<in> set_option (valid_part cr rib new). ok b \<and> cost_ok RIB_COST_UNREACHABLE \<and> fresh_lsa held (snd w) V b"
    and "\<forall>a \<in> set_option old. \<forall>b \<in> set_option new. lsa_id b = lsa_id a"
    and "part_bytes (valid_part cr rib old) \<le> ai_size rib" "ai_size rib < 1073741824"
    and "part_bytes (valid_part cr rib new) < 1073741824"
  shows "\<exists>w'. adj_notify cr rib old new w =
      Inr (rib\<lparr>ai_size := ai_size rib - part_bytes (valid_part cr rib old) + part_bytes (valid_part cr rib new)\<rparr>, w') \<and>
    balanced held w w' \<and>
    rep (snd w') (V - unreach (set_option (valid_part cr rib old)) \<union> unreach (set_option (valid_part cr rib new)))"
proof -
  let ?old = "valid_part cr rib old" and ?new = "valid_part cr rib new"
  have map: "adj_map cr rib lo = Inr (valid_part cr rib lo)" if "\<forall>l \<in> set_option lo. lsa_wf l" for lo
    using that adj_map_eq [OF _ assms(1,2)] by (cases lo) (auto simp: adj_map_def)
  have maps: "adj_map cr rib old = Inr ?old" "adj_map cr rib new = Inr ?new"
    using assms(5) by (auto intro!: map)
  note pos = part_bytes_nonneg
  have size1: "int_of_size (ai_size rib - part_bytes ?old) = ai_size rib - part_bytes ?old"
    by (rule int_of_size_small) (use assms(9,10) pos [of ?old] in linarith)+
  have size2: "int_of_size (ai_size rib - part_bytes ?old + part_bytes ?new) =
      ai_size rib - part_bytes ?old + part_bytes ?new"
    by (rule int_of_size_small) (use assms(9,10,11) pos [of ?old] pos [of ?new] in linarith)+
  have same: "\<forall>a \<in> set_option ?old. \<forall>b \<in> set_option ?new. lsa_id b = lsa_id a"
    using assms(8) set_valid_part by blast
  have sizes: "(case ?new of Some l \<Rightarrow>
        (case ?old of Some l \<Rightarrow> rib\<lparr>ai_size := int_of_size (ai_size rib - int (lsa_bytes l))\<rparr> | None \<Rightarrow> rib)
          \<lparr>ai_size := int_of_size (ai_size (case ?old of Some l \<Rightarrow>
             rib\<lparr>ai_size := int_of_size (ai_size rib - int (lsa_bytes l))\<rparr> | None \<Rightarrow> rib) + int (lsa_bytes l))\<rparr>
      | None \<Rightarrow> (case ?old of Some l \<Rightarrow> rib\<lparr>ai_size := int_of_size (ai_size rib - int (lsa_bytes l))\<rparr> | None \<Rightarrow> rib))
    = rib\<lparr>ai_size := ai_size rib - part_bytes ?old + part_bytes ?new\<rparr>"
    using size1 size2 by (cases ?old; cases ?new) simp_all
  obtain w' where w': "notify_listeners [rl] ?old RIB_COST_UNREACHABLE ?new RIB_COST_UNREACHABLE w = Inr w'"
    "balanced held w w'" "rep (snd w') (V - unreach (set_option ?old) \<union> unreach (set_option ?new))"
    using client_notify [OF assms(4,6,7) same] by blast
  have lst: "ai_listeners (rib\<lparr>ai_size := n\<rparr>) = [rl]" for n using assms(3) by simp
  show ?thesis
    using w' by (simp add: adj_notify_def maps Let_def sizes lst)
qed


definition adj_pre :: "'k crypto \<Rightarrow> 'w adj_rib_in \<Rightarrow> 'w world \<Rightarrow> (lsa \<times> u32) set \<Rightarrow> bool" where
  "adj_pre cr rib w V \<longleftrightarrow> crypto_ok cr \<and> ids_ok rib \<and> adj_inv cr rib \<and> ai_listeners rib = [rl] \<and>
     rep (snd w) V \<and> told cr rib \<subseteq> V \<and> cost_ok RIB_COST_UNREACHABLE \<and>
     (\<forall>l. adj_lsa_ok l \<longrightarrow> lsa_valid cr rib l \<longrightarrow> ok l)"

lemma part_le_size:
  assumes "adj_inv cr rib" "ref \<in> set (ai_lsas rib)"
  shows "part_bytes (valid_part cr rib (Some ref)) \<le> ai_size rib"
  using accepted_bytes_delete(1) [of rib ref cr] assms by (simp add: adj_inv_def)

lemma accepted_view: "adj_pre cr rib w V \<Longrightarrow> ref \<in> set (ai_lsas rib) \<Longrightarrow>
    \<forall>a \<in> set_option (valid_part cr rib (Some ref)). (a, RIB_COST_UNREACHABLE) \<in> V"
  by (auto simp: adj_pre_def told_def accepted_def)

lemma moves_client:
  assumes pre: "adj_pre cr rib w V" and w': "balanced held w (rc, v)"
      "rep v (V - unreach (set_option (valid_part cr rib old)) \<union> unreach (set_option (valid_part cr rib new)))"
    and rib': "ai_myid rib' = ai_myid rib" "ai_remoteid rib' = ai_remoteid rib" "ai_listeners rib' = ai_listeners rib"
    and lsas: "avl_ordered adj_compare_refs (ai_lsas rib')" "list_all adj_lsa_ok (ai_lsas rib')"
      "set (ai_lsas rib') = set (ai_lsas rib) - set_option old \<union> set_option new" "set_option old \<subseteq> set (ai_lsas rib)"
    and size: "ai_size rib' = int (accepted_bytes cr rib')" "accepted_bytes cr rib' \<le> ADJ_RIB_IN_MAX_BYTES"
    and rc: "\<And>p. rc' p - adj_held rib' p = rc p - adj_held rib p"
    and fresh: "\<forall>b \<in> set_option new. fresh_lsa held (snd w) V b"
  shows "adj_moves cr rep held V rib w rib' (rc', v)"
proof -
  have valid: "lsa_valid cr rib' = lsa_valid cr rib"
    by (intro ext) (simp add: lsa_valid_def lsa_path_valid_def rib')
  have old: "set_option (valid_part cr rib old) = {x \<in> set_option old. lsa_valid cr rib x}"
    and new: "set_option (valid_part cr rib new) = {x \<in> set_option new. lsa_valid cr rib x}"
    by (auto simp: valid_part_def split: option.splits if_splits)
  have acc: "accepted cr rib' = accepted cr rib - set_option (valid_part cr rib old) \<union> set_option (valid_part cr rib new)"
    using lsas(3) by (auto simp: accepted_def valid old new)
  have "set_option (valid_part cr rib old) \<subseteq> accepted cr rib"
    using lsas(4) by (auto simp: accepted_def old)
  then have "unreach (set_option (valid_part cr rib old)) \<subseteq> told cr rib" by (auto simp: told_def)
  moreover have "told cr rib \<subseteq> V" using pre by (simp add: adj_pre_def)
  moreover have told': "told cr rib' = told cr rib - unreach (set_option (valid_part cr rib old)) \<union>
      unreach (set_option (valid_part cr rib new))"
    by (auto simp: told_def acc)
  ultimately have "V - told cr rib \<union> told cr rib' =
      V - unreach (set_option (valid_part cr rib old)) \<union> unreach (set_option (valid_part cr rib new))"
    unfolding told' by blast
  moreover have "rc' p - held v p - adj_held rib' p = fst w p - held (snd w) p - adj_held rib p" for p
  proof -
    have "rc p - held v p = fst w p - held (snd w) p" using w'(1) by (simp add: balanced_def)
    with rc [of p] show ?thesis by simp
  qed
  moreover have "V \<inter> told cr rib' \<subseteq> told cr rib"
    using fresh by (auto simp: told' new fresh_lsa_def image_iff)
  ultimately show ?thesis using w'(2) rib' lsas(1,2) size by (simp add: adj_moves_def adj_inv_def)
qed

lemma del_lsa_client:
  assumes pre: "adj_pre cr rib w V" and ref: "ref \<in> set (ai_lsas rib)"
  shows "\<exists>rib' w'. adj_rib_in_del_lsa cr rib ref w = Inr (rib', w') \<and> adj_moves cr rep held V rib w rib' w' \<and>
    ai_lsas rib' = avl_delete adj_compare_refs ref (ai_lsas rib)"
proof -
  have ainv: "adj_inv cr rib" using pre by (simp add: adj_pre_def)
  then have ord: "avl_ordered adj_compare_refs (ai_lsas rib)" "list_all adj_lsa_ok (ai_lsas rib)"
    and size: "ai_size rib = int (accepted_bytes cr rib)" "accepted_bytes cr rib \<le> ADJ_RIB_IN_MAX_BYTES"
    by (auto simp: adj_inv_def)
  have refok: "adj_lsa_ok ref" using ord(2) ref by (simp add: list_all_iff)
  let ?part = "valid_part cr rib (Some ref)" and ?lsas = "avl_delete adj_compare_refs ref (ai_lsas rib)"
  note del = accepted_bytes_delete [OF ord ref]
  have "\<exists>w'. adj_notify cr rib (Some ref) None w =
      Inr (rib\<lparr>ai_size := ai_size rib - part_bytes ?part + part_bytes (valid_part cr rib None)\<rparr>, w') \<and>
    balanced held w w' \<and>
    rep (snd w') (V - unreach (set_option ?part) \<union> unreach (set_option (valid_part cr rib None)))"
    by (rule adj_notify_client)
      (use pre refok part_le_size [OF ainv ref] accepted_view [OF pre ref] size
        in \<open>auto simp: adj_pre_def adj_lsa_ok_wf ADJ_RIB_IN_MAX_BYTES_def\<close>)
  then obtain rc v where w1: "adj_notify cr rib (Some ref) None w =
      Inr (rib\<lparr>ai_size := ai_size rib - part_bytes ?part\<rparr>, rc, v)"
    "balanced held w (rc, v)"
    "rep v (V - unreach (set_option ?part) \<union> unreach (set_option (valid_part cr rib None)))"
    by auto
  define rib' where "rib' = rib\<lparr>ai_size := ai_size rib - part_bytes ?part, ai_lsas := ?lsas\<rparr>"
  define rc' where "rc' = rc(lsa_ptr ref := rc (lsa_ptr ref) - 1)"
  have put: "lsa_put rc (Some ref) = Inr rc'"
    using refok lsa_put_filled by (simp add: adj_lsa_ok_def rc'_def)
  have run: "adj_rib_in_del_lsa cr rib ref w = Inr (rib', rc', v)"
    using put by (simp add: adj_rib_in_del_lsa_def w1(1) rib'_def Let_def del: valid_part_simps)
  have "accepted_bytes cr rib' = accepted_bytes cr (rib\<lparr>ai_lsas := ?lsas\<rparr>)"
    by (simp add: accepted_bytes_def rib'_def)
  with del(1) have bytes: "int (accepted_bytes cr rib) = part_bytes ?part + int (accepted_bytes cr rib')"
    by (simp only:)
  have held: "adj_held rib' p = adj_held (rib\<lparr>ai_lsas := ?lsas\<rparr>) p" for p
    by (simp add: adj_held_def rib'_def)
  have "adj_moves cr rep held V rib w rib' (rc', v)"
  proof (rule moves_client [OF pre w1(2,3)])
    show "avl_ordered adj_compare_refs (ai_lsas rib')"
      using avl_delete_ordered [OF ord(1)] by (simp add: rib'_def)
    show "accepted_bytes cr rib' \<le> ADJ_RIB_IN_MAX_BYTES"
      using bytes size(2) part_bytes_nonneg [of ?part] by linarith
    show "ai_size rib' = int (accepted_bytes cr rib')" using bytes size(1) by (simp add: rib'_def)
    show "rc' p - adj_held rib' p = rc p - adj_held rib p" for p
      using del(2) [of p] by (simp add: held rc'_def)
  qed (use del(3) ord(2) ref in \<open>auto simp: rib'_def list_all_iff\<close>)
  with run show ?thesis by (auto simp: rib'_def)
qed

end

text \<open>What is stored after a call: a specification of \<^verbatim>\<open>adj_rib_in_add_lsa\<close> on the set of LSAs.\<close>

definition adj_overflow :: "'w adj_rib_in \<Rightarrow> lsa \<Rightarrow> bool" where
  "adj_overflow rib l \<longleftrightarrow> ai_size rib + int (lsa_bytes l) > int ADJ_RIB_IN_MAX_BYTES"

definition adj_stored :: "bool \<Rightarrow> 'w adj_rib_in \<Rightarrow> lsa \<Rightarrow> lsa list" where
  "adj_stored malloc rib l =
     (case avl_find (adj_compare_refs l) (ai_lsas rib) of
        None \<Rightarrow>
          if lsa_root l = [] \<or> adj_overflow rib l \<or> \<not> malloc then ai_lsas rib
          else the (avl_insert adj_compare_refs l (ai_lsas rib))
      | Some ref \<Rightarrow>
          if lsa_root l = [] \<or> adj_overflow rib l then avl_delete adj_compare_refs ref (ai_lsas rib)
          else if map attr_strip (lsa_root ref) = map attr_strip (lsa_root l) then ai_lsas rib
          else ref_replace ref l (ai_lsas rib))"


context rib_client
begin

lemma add_new_client:
  assumes pre: "adj_pre cr rib w V" and l: "adj_lsa_ok l" "fresh_lsa held (snd w) V l"
    and fits: "\<not> adj_overflow rib l" and find: "avl_find (adj_compare_refs l) (ai_lsas rib) = None"
  shows "\<exists>rc v lsas. adj_notify cr rib None (Some l) w =
      Inr (rib\<lparr>ai_size := ai_size rib + part_bytes (valid_part cr rib (Some l))\<rparr>, rc, v) \<and>
    avl_insert adj_compare_refs l (ai_lsas rib) = Some lsas \<and>
    adj_moves cr rep held V rib w
      (rib\<lparr>ai_size := ai_size rib + part_bytes (valid_part cr rib (Some l)), ai_lsas := lsas\<rparr>)
      (lsa_get rc (Some l), v)"
proof -
  have "adj_inv cr rib" using pre by (simp add: adj_pre_def)
  then have ord: "avl_ordered adj_compare_refs (ai_lsas rib)" "list_all adj_lsa_ok (ai_lsas rib)"
    and size: "ai_size rib = int (accepted_bytes cr rib)" "accepted_bytes cr rib \<le> ADJ_RIB_IN_MAX_BYTES"
    by (auto simp: adj_inv_def)
  let ?part = "valid_part cr rib (Some l)"
  have small: "ai_size rib + part_bytes ?part \<le> int ADJ_RIB_IN_MAX_BYTES"
    using fits size by (auto simp: adj_overflow_def)
  have "\<exists>w'. adj_notify cr rib None (Some l) w =
      Inr (rib\<lparr>ai_size := ai_size rib - part_bytes (valid_part cr rib None) + part_bytes ?part\<rparr>, w') \<and>
    balanced held w w' \<and>
    rep (snd w') (V - unreach (set_option (valid_part cr rib None)) \<union> unreach (set_option ?part))"
    by (rule adj_notify_client)
      (use pre l small size in \<open>auto simp: adj_pre_def adj_lsa_ok_wf ADJ_RIB_IN_MAX_BYTES_def\<close>)
  then obtain rc v where w1: "adj_notify cr rib None (Some l) w =
      Inr (rib\<lparr>ai_size := ai_size rib + part_bytes ?part\<rparr>, rc, v)"
    "balanced held w (rc, v)"
    "rep v (V - unreach (set_option (valid_part cr rib None)) \<union> unreach (set_option ?part))"
    by auto
  have oks: "list_all (\<lambda>l. id_ok (lsa_id l)) (l # ai_lsas rib)"
    using list_all_ids [OF ord(2)] l(1) by (simp add: adj_lsa_ok_wf)
  then obtain lsas where ins: "avl_insert adj_compare_refs l (ai_lsas rib) = Some lsas"
    using adj_refs.insert_Some_find_None [OF ord(1) oks find] by auto
  let ?rib = "rib\<lparr>ai_size := ai_size rib + part_bytes ?part, ai_lsas := lsas\<rparr>"
  have bytes: "int (accepted_bytes cr ?rib) = part_bytes ?part + int (accepted_bytes cr rib)"
    using avl_insert_sum [OF ins, of "\<lambda>l. if lsa_valid cr rib l then lsa_bytes l else 0"]
    by (simp add: accepted_bytes_def)
  have held: "adj_held ?rib p = (if lsa_ptr l = p then 1 else 0) + adj_held rib p" for p
    using avl_insert_sum [OF ins, of "\<lambda>l. if lsa_ptr l = p then 1 else 0"] by (simp add: adj_held_def)
  have "adj_moves cr rep held V rib w ?rib (lsa_get rc (Some l), v)"
  proof (rule moves_client [OF pre w1(2,3)])
    show "avl_ordered adj_compare_refs (ai_lsas ?rib)"
      using adj_refs.insert_ordered [OF ord(1) oks ins] by simp
    show "accepted_bytes cr ?rib \<le> ADJ_RIB_IN_MAX_BYTES" using bytes small size(1) by linarith
    show "ai_size ?rib = int (accepted_bytes cr ?rib)" using bytes size(1) by simp
    show "lsa_get rc (Some l) p - adj_held ?rib p = rc p - adj_held rib p" for p
      unfolding held by (simp add: lsa_get_def)
    show "\<forall>b \<in> set_option (Some l). fresh_lsa held (snd w) V b" using l(2) by auto
  qed (use avl_insert_set [OF ins] ord(2) l(1) in \<open>auto simp: list_all_iff\<close>)
  with w1(1) ins show ?thesis by blast
qed

lemma add_mod_client:
  assumes pre: "adj_pre cr rib w V" and l: "adj_lsa_ok l" "fresh_lsa held (snd w) V l"
    and fits: "\<not> adj_overflow rib l" and ref: "ref \<in> set (ai_lsas rib)" "lsa_id l = lsa_id ref"
  shows "\<exists>rc v. adj_notify cr rib (Some ref) (Some l) w =
      Inr (rib\<lparr>ai_size := ai_size rib - part_bytes (valid_part cr rib (Some ref)) + part_bytes (valid_part cr rib (Some l))\<rparr>, rc, v) \<and>
    adj_moves cr rep held V rib w
      (rib\<lparr>ai_size := ai_size rib - part_bytes (valid_part cr rib (Some ref)) + part_bytes (valid_part cr rib (Some l)),
        ai_lsas := ref_replace ref l (ai_lsas rib)\<rparr>)
      (lsa_get (rc(lsa_ptr ref := rc (lsa_ptr ref) - 1)) (Some l), v)"
proof -
  have ainv: "adj_inv cr rib" using pre by (simp add: adj_pre_def)
  then have ord: "avl_ordered adj_compare_refs (ai_lsas rib)" "list_all adj_lsa_ok (ai_lsas rib)"
    and size: "ai_size rib = int (accepted_bytes cr rib)" "accepted_bytes cr rib \<le> ADJ_RIB_IN_MAX_BYTES"
    by (auto simp: adj_inv_def)
  let ?old = "valid_part cr rib (Some ref)" and ?new = "valid_part cr rib (Some l)"
  have refok: "adj_lsa_ok ref" using ord(2) ref(1) by (simp add: list_all_iff)
  have small: "ai_size rib + part_bytes ?new \<le> int ADJ_RIB_IN_MAX_BYTES"
    using fits size by (auto simp: adj_overflow_def)
  have old: "part_bytes ?old \<le> ai_size rib" by (rule part_le_size [OF ainv ref(1)])
  have "\<exists>w'. adj_notify cr rib (Some ref) (Some l) w =
      Inr (rib\<lparr>ai_size := ai_size rib - part_bytes ?old + part_bytes ?new\<rparr>, w') \<and>
    balanced held w w' \<and>
    rep (snd w') (V - unreach (set_option ?old) \<union> unreach (set_option ?new))"
  proof (rule adj_notify_client)
    show "\<forall>a \<in> set_option ?old. (a, RIB_COST_UNREACHABLE) \<in> V" by (rule accepted_view [OF pre ref(1)])
    show "part_bytes ?old \<le> ai_size rib" by (rule old)
    show "\<forall>b \<in> set_option ?new. ok b \<and> cost_ok RIB_COST_UNREACHABLE \<and> fresh_lsa held (snd w) V b"
      using pre l by (auto simp: adj_pre_def)
    show "part_bytes ?new < 1073741824" "ai_size rib < 1073741824"
      using small size part_bytes_nonneg [of ?new] by (simp_all add: ADJ_RIB_IN_MAX_BYTES_def)
  qed (use pre l(1) refok ref(2) in \<open>simp_all add: adj_pre_def adj_lsa_ok_wf\<close>)
  then obtain rc v where w1: "adj_notify cr rib (Some ref) (Some l) w =
      Inr (rib\<lparr>ai_size := ai_size rib - part_bytes ?old + part_bytes ?new\<rparr>, rc, v)"
    "balanced held w (rc, v)"
    "rep v (V - unreach (set_option ?old) \<union> unreach (set_option ?new))"
    by auto
  have dist: "distinct (ai_lsas rib)"
    by (rule adj_refs.ordered_distinct [OF ord(1)]) (rule list_all_ids [OF ord(2)])
  let ?rib = "rib\<lparr>ai_size := ai_size rib - part_bytes ?old + part_bytes ?new,
        ai_lsas := ref_replace ref l (ai_lsas rib)\<rparr>"
  have bytes: "int (accepted_bytes cr ?rib) = int (accepted_bytes cr rib) - part_bytes ?old + part_bytes ?new"
  proof -
    have "accepted_bytes cr ?rib + (if lsa_valid cr rib ref then lsa_bytes ref else 0) =
        accepted_bytes cr rib + (if lsa_valid cr rib l then lsa_bytes l else 0)"
      using ref_replace_sum [OF dist ref(1), of "\<lambda>l. if lsa_valid cr rib l then lsa_bytes l else 0" l]
      by (simp add: accepted_bytes_def)
    then show ?thesis by (cases "lsa_valid cr rib ref"; cases "lsa_valid cr rib l") simp_all
  qed
  have held: "adj_held ?rib p = (if lsa_ptr l = p then 1 else 0) - (if lsa_ptr ref = p then 1 else 0) + adj_held rib p" for p
    using ref_replace_sum [OF dist ref(1), of "\<lambda>l. if lsa_ptr l = p then 1 else 0" l]
    unfolding adj_held_def by (cases "lsa_ptr l = p"; cases "lsa_ptr ref = p") simp_all
  have "adj_moves cr rep held V rib w ?rib (lsa_get (rc(lsa_ptr ref := rc (lsa_ptr ref) - 1)) (Some l), v)"
  proof (rule moves_client [OF pre w1(2,3)])
    show "avl_ordered adj_compare_refs (ai_lsas ?rib)"
      using ref_replace_ordered [OF ref(2)] ord(1) by simp
    show "accepted_bytes cr ?rib \<le> ADJ_RIB_IN_MAX_BYTES"
      using bytes small size(1) part_bytes_nonneg [of ?old] by linarith
    show "ai_size ?rib = int (accepted_bytes cr ?rib)" using bytes size(1) by simp
    show "lsa_get (rc(lsa_ptr ref := rc (lsa_ptr ref) - 1)) (Some l) p - adj_held ?rib p = rc p - adj_held rib p" for p
      unfolding held by (simp add: lsa_get_def)
    show "\<forall>b \<in> set_option (Some l). fresh_lsa held (snd w) V b" using l(2) by auto
  qed (use ref_replace_set [OF dist ref(1)] ord(2) l(1) ref(1) in \<open>auto simp: list_all_iff\<close>)
  with w1(1) show ?thesis by blast
qed

end


lemma overflow_mod:
  assumes "adj_inv cr rib" "adj_lsa_ok l"
  shows "(ai_size rib + int (lsa_bytes l)) mod 18446744073709551616 > int ADJ_RIB_IN_MAX_BYTES \<longleftrightarrow> adj_overflow rib l"
proof -
  have "0 \<le> ai_size rib" "ai_size rib \<le> 1048576" "lsa_bytes l < 2 ^ 62"
    using assms by (auto simp: adj_inv_def adj_lsa_ok_def lsa_filled_def ADJ_RIB_IN_MAX_BYTES_def)
  then have "(ai_size rib + int (lsa_bytes l)) mod 18446744073709551616 = ai_size rib + int (lsa_bytes l)"
    by (intro mod_pos_pos_trivial) auto
  then show ?thesis by (simp add: adj_overflow_def)
qed

lemma adj_diff_eq:
  assumes "adj_lsa_ok a" "adj_lsa_ok b"
  obtains n where "lsa_diff (Some a) (Some b) None None None () = Inr (n, ())"
    and "n = 0 \<longleftrightarrow> map attr_strip (lsa_root a) = map attr_strip (lsa_root b)"
proof -
  obtain m where "diff_count (lsa_root a) (lsa_root b) 0 = Inr (m, ())"
      "m = 0 \<longleftrightarrow> map attr_strip (lsa_root a) = map attr_strip (lsa_root b)"
    using diff_count_iff [of "lsa_root a" "lsa_root b" 0] assms by (auto simp: adj_lsa_ok_def)
  then show ?thesis by (intro that [of m]) (auto simp: lsa_diff_def)
qed

lemma adj_find_refD:
  assumes "avl_find (adj_compare_refs l) (ai_lsas rib) = Some ref" "adj_inv cr rib" "adj_lsa_ok l"
  shows "ref \<in> set (ai_lsas rib)" "lsa_id l = lsa_id ref" "adj_lsa_ok ref"
proof -
  show ref: "ref \<in> set (ai_lsas rib)" using avl_find_SomeD [OF assms(1)] by simp
  then show "adj_lsa_ok ref" using assms(2) by (auto simp: adj_inv_def list_all_iff)
  then show "lsa_id l = lsa_id ref"
    using avl_find_SomeD [OF assms(1)] assms(3) by (simp add: adj_compare_refs_def memcmp_id adj_lsa_ok_wf)
qed

context rib_client
begin

lemma moves_refl: "adj_pre cr rib w V \<Longrightarrow> adj_moves cr rep held V rib w rib w"
  by (auto simp: adj_moves_def adj_pre_def Un_absorb2 Diff_partition)

lemma add_lsa_client:
  assumes pre: "adj_pre cr rib w V" and l: "adj_lsa_ok l" "fresh_lsa held (snd w) V l"
  shows "\<exists>ret rib' w'. adj_rib_in_add_lsa cr malloc rib l w = Inr (ret, rib', w') \<and> ret \<in> {0, -1} \<and>
    adj_moves cr rep held V rib w rib' w' \<and> ai_lsas rib' = adj_stored malloc rib l"
proof -
  have ainv: "adj_inv cr rib" using pre by (simp add: adj_pre_def)
  note over = overflow_mod [OF ainv l(1)]
  show ?thesis
  proof (cases "avl_find (adj_compare_refs l) (ai_lsas rib)")
    case None
    then have ref: "adj_rib_in_find_ref rib (lsa_id l) = None" by (simp add: adj_find_ref_eq)
    show ?thesis
    proof (cases "lsa_root l = [] \<or> adj_overflow rib l \<or> \<not> malloc")
      case True
      then have "adj_rib_in_add_lsa cr malloc rib l w = Inr (-1, rib, w)"
        by (auto simp: adj_rib_in_add_lsa_def ref over)
      then show ?thesis using moves_refl [OF pre] None True by (auto simp: adj_stored_def)
    next
      case False
      then obtain rc v lsas where new: "adj_notify cr rib None (Some l) w =
          Inr (rib\<lparr>ai_size := ai_size rib + part_bytes (valid_part cr rib (Some l))\<rparr>, rc, v)"
        "avl_insert adj_compare_refs l (ai_lsas rib) = Some lsas"
        "adj_moves cr rep held V rib w
          (rib\<lparr>ai_size := ai_size rib + part_bytes (valid_part cr rib (Some l)), ai_lsas := lsas\<rparr>)
          (lsa_get rc (Some l), v)"
        using add_new_client [OF pre l _ None] by blast
      have "adj_rib_in_add_lsa cr malloc rib l w = Inr (0,
          rib\<lparr>ai_size := ai_size rib + part_bytes (valid_part cr rib (Some l)), ai_lsas := lsas\<rparr>,
          lsa_get rc (Some l), v)"
        using False new(1,2) by (simp add: adj_rib_in_add_lsa_def ref over del: valid_part_simps)
      then show ?thesis using new(2,3) None False
        by (auto simp: adj_stored_def simp del: valid_part_simps)
    qed
  next
    case (Some r)
    note r = adj_find_refD [OF Some ainv l(1)]
    have ref: "adj_rib_in_find_ref rib (lsa_id l) = Some r" using Some by (simp add: adj_find_ref_eq)
    show ?thesis
    proof (cases "lsa_root l = [] \<or> adj_overflow rib l")
      case True
      obtain rib' w' where del: "adj_rib_in_del_lsa cr rib r w = Inr (rib', w')"
        "adj_moves cr rep held V rib w rib' w'" "ai_lsas rib' = avl_delete adj_compare_refs r (ai_lsas rib)"
        using del_lsa_client [OF pre r(1)] by blast
      have "adj_rib_in_add_lsa cr malloc rib l w = Inr (if lsa_root l = [] then 0 else -1, rib', w')"
        using True del(1) by (auto simp: adj_rib_in_add_lsa_def ref over Let_def)
      then show ?thesis using del(2,3) Some True by (auto simp: adj_stored_def)
    next
      case fits: False
      obtain n where diff: "lsa_diff (Some r) (Some l) None None None () = Inr (n, ())"
        "n = 0 \<longleftrightarrow> map attr_strip (lsa_root r) = map attr_strip (lsa_root l)"
        by (rule adj_diff_eq [OF r(3) l(1)])
      show ?thesis
      proof (cases "n = 0")
        case True
        then have "adj_rib_in_add_lsa cr malloc rib l w = Inr (0, rib, w)"
          using fits diff(1) by (simp add: adj_rib_in_add_lsa_def ref over)
        then show ?thesis using moves_refl [OF pre] Some fits True diff(2) by (auto simp: adj_stored_def)
      next
        case False
        obtain rc v where md: "adj_notify cr rib (Some r) (Some l) w =
            Inr (rib\<lparr>ai_size := ai_size rib - part_bytes (valid_part cr rib (Some r)) + part_bytes (valid_part cr rib (Some l))\<rparr>, rc, v)"
          "adj_moves cr rep held V rib w
            (rib\<lparr>ai_size := ai_size rib - part_bytes (valid_part cr rib (Some r)) + part_bytes (valid_part cr rib (Some l)),
              ai_lsas := ref_replace r l (ai_lsas rib)\<rparr>)
            (lsa_get (rc(lsa_ptr r := rc (lsa_ptr r) - 1)) (Some l), v)"
          using add_mod_client [OF pre l _ r(1,2)] fits by blast
        have put: "lsa_put rc (Some r) = Inr (rc(lsa_ptr r := rc (lsa_ptr r) - 1))"
          using r(3) lsa_put_filled by (simp add: adj_lsa_ok_def)
        have "adj_rib_in_add_lsa cr malloc rib l w = Inr (0,
            rib\<lparr>ai_size := ai_size rib - part_bytes (valid_part cr rib (Some r)) + part_bytes (valid_part cr rib (Some l)),
              ai_lsas := ref_replace r l (ai_lsas rib)\<rparr>,
            lsa_get (rc(lsa_ptr r := rc (lsa_ptr r) - 1)) (Some l), v)"
          using fits False diff(1) md(1) put
          by (simp add: adj_rib_in_add_lsa_def ref over Let_def del: valid_part_simps)
        then show ?thesis using md(2) Some fits False diff(2)
          by (auto simp: adj_stored_def simp del: valid_part_simps)
      qed
    qed
  qed
qed

lemma moves_pre:
  assumes "adj_pre cr rib w V" "adj_moves cr rep held V rib w rib' w'"
  shows "adj_pre cr rib' w' (V - told cr rib \<union> told cr rib')"
proof -
  have "lsa_valid cr rib' = lsa_valid cr rib"
    using assms(2) by (intro ext) (simp add: adj_moves_def lsa_valid_def lsa_path_valid_def)
  then show ?thesis using assms by (auto simp: adj_pre_def adj_moves_def ids_ok_def)
qed

lemma moves_trans:
  assumes "adj_moves cr rep held V rib w rib' w'"
    and "adj_moves cr rep held (V - told cr rib \<union> told cr rib') rib' w' rib'' w''"
    and "told cr rib \<subseteq> V"
  shows "adj_moves cr rep held V rib w rib'' w''"
proof -
  have "V - told cr rib \<union> told cr rib' - told cr rib' \<union> told cr rib'' = V - told cr rib \<union> told cr rib''"
    using assms by (auto simp: adj_moves_def)
  moreover have "V \<inter> told cr rib'' \<subseteq> told cr rib" using assms by (auto simp: adj_moves_def)
  ultimately show ?thesis using assms by (simp add: adj_moves_def)
qed

lemma truncate_loop_client:
  assumes "adj_pre cr rib w V" "length (ai_lsas rib) \<le> n"
  shows "\<exists>rib' w'. adj_truncate_loop n root cr rib w = Inr (rib', w') \<and>
    adj_moves cr rep held V rib w rib' w' \<and> ai_lsas rib' = []"
  using assms
proof (induction n arbitrary: rib w V)
  case 0
  then show ?case using moves_refl [OF 0(1)] by (intro exI [of _ rib] exI [of _ w]) simp
next
  case (Suc n)
  show ?case
  proof (cases "ai_lsas rib = []")
    case True
    then show ?thesis
      using moves_refl [OF Suc.prems(1)] by (intro exI [of _ rib] exI [of _ w]) simp
  next
    case False
    let ?ref = "ai_lsas rib ! (root (ai_lsas rib) mod length (ai_lsas rib))"
    have ref: "?ref \<in> set (ai_lsas rib)" using False by simp
    have ainv: "adj_inv cr rib" using Suc.prems(1) by (simp add: adj_pre_def)
    obtain rib1 w1 where del: "adj_rib_in_del_lsa cr rib ?ref w = Inr (rib1, w1)"
      "adj_moves cr rep held V rib w rib1 w1" "ai_lsas rib1 = avl_delete adj_compare_refs ?ref (ai_lsas rib)"
      using del_lsa_client [OF Suc.prems(1) ref] by blast
    have "avl_find (adj_compare_refs ?ref) (ai_lsas rib) = Some ?ref"
      by (rule adj_refs.find_self) (use ainv ref in \<open>auto simp: adj_inv_def list_all_iff adj_lsa_ok_wf\<close>)
    then have "length (ai_lsas rib) = Suc (length (ai_lsas rib1))"
      unfolding del(3) by (rule avl_delete_length)
    then have "length (ai_lsas rib1) \<le> n" using Suc.prems(2) by simp
    from Suc.IH [OF moves_pre [OF Suc.prems(1) del(2)] this] obtain rib' w' where
      "adj_truncate_loop n root cr rib1 w1 = Inr (rib', w')"
      "adj_moves cr rep held (V - told cr rib \<union> told cr rib1) rib1 w1 rib' w'"
      "ai_lsas rib' = []" by blast
    then show ?thesis
      using False del(1) moves_trans [OF del(2)] Suc.prems(1) by (auto simp: adj_pre_def)
  qed
qed

end


section \<open>Properties\<close>

text \<open>
  C16: \<^verbatim>\<open>map\<close> never stops the process, and lets through exactly the valid LSAs: at most
  \<^verbatim>\<open>LSA_MAX_BYTES\<close> with room for one more id, received over a path of ids that starts at the
  peer and does not contain this node, with the digest of their public key as id, and a
  signature by that key over their signed attributes.
\<close>

theorem adj_map_correct:
  "lsa_wf l \<Longrightarrow> crypto_ok cr \<Longrightarrow> ids_ok rib \<Longrightarrow>
   adj_map cr rib (Some l) = Inr (if lsa_valid cr rib l then Some l else None)"
  by (rule adj_map_eq)

theorem adj_map_correct_witness:
  "adj_map \<lparr>sha256 = \<lambda>_. replicate 32 7, pubkey_init = True, pubkey_import = Some,
      pubkey_verify = \<lambda>k d s. k = [8] \<and> s = [1], set_image = \<lambda>_. []\<rparr>
     \<lparr>ai_myid = Some (replicate 32 3), ai_remoteid = Some (replicate 32 9), ai_lsas = [], ai_size = 0,
      ai_listeners = []\<rparr>
     (Some \<lparr>lsa_ptr = 5, lsa_bytes = 166, lsa_id = replicate 32 7,
        lsa_root = [Lsa_attr 1 False [] (Attr_bytes (replicate 32 9)), Lsa_attr 5 True [] (Attr_bytes [8]),
          Lsa_attr 6 False [] (Attr_bytes [1])]\<rparr>) =
   Inr (Some \<lparr>lsa_ptr = 5, lsa_bytes = 166, lsa_id = replicate 32 7,
        lsa_root = [Lsa_attr 1 False [] (Attr_bytes (replicate 32 9)), Lsa_attr 5 True [] (Attr_bytes [8]),
          Lsa_attr 6 False [] (Attr_bytes [1])]\<rparr>)"
proof -
  let ?cr = "\<lparr>sha256 = \<lambda>_. replicate 32 7, pubkey_init = True, pubkey_import = Some,
      pubkey_verify = \<lambda>k d s. k = [8] \<and> s = [1], set_image = \<lambda>_. []\<rparr> :: bytes crypto"
  let ?rib = "\<lparr>ai_myid = Some (replicate 32 3), ai_remoteid = Some (replicate 32 9), ai_lsas = [], ai_size = 0,
      ai_listeners = []\<rparr> :: 'a adj_rib_in"
  let ?l = "\<lparr>lsa_ptr = 5, lsa_bytes = 166, lsa_id = replicate 32 7,
        lsa_root = [Lsa_attr 1 False [] (Attr_bytes (replicate 32 9)), Lsa_attr 5 True [] (Attr_bytes [8]),
          Lsa_attr 6 False [] (Attr_bytes [1])]\<rparr> :: lsa"
  note defs = NODE_ID_LEN_def MAX_SERIALISED_INT_LEN_def LSA_MAX_BYTES_def lsa_type_defs
  have path: "path_ids (replicate 32 9) = [replicate 32 9]"
    using path_ids_append [of "replicate 32 9" "[]"] by (simp add: NODE_ID_LEN_def)
  have find: "lsa_find_attr ?l 1 [] = Some (Lsa_attr 1 False [] (Attr_bytes (replicate 32 9)))"
    "lsa_find_attr ?l 5 [] = Some (Lsa_attr 5 True [] (Attr_bytes [8]))"
    "lsa_find_attr ?l 6 [] = Some (Lsa_attr 6 False [] (Attr_bytes [1]))"
    by (simp_all add: lsa_find_attr_def lsa_attr_set_find_attr_def lsa_attr_compare_keys_def)
  have ne: "replicate 32 (3 :: byte) \<noteq> replicate 32 9"
    by simp
  have "lsa_valid ?cr ?rib ?l"
    unfolding lsa_valid_def lsa_path_valid_def lsa_signed_def path_of_def defs find
    by (simp add: path ne attr_raw_def NODE_ID_LEN_def)
  moreover have "lsa_wf ?l" by (simp add: lsa_wf_def defs compare_attr_keys_def lsa_attr_compare_keys_def)
  ultimately show ?thesis
    using adj_map_correct [of ?l ?cr ?rib] by (simp add: crypto_ok_def ids_ok_def id_ok_def NODE_ID_LEN_def)
qed

end
