(* ===== verification/My_Lsa.thy ===== *)
theory My_Lsa
  imports Adj_Rib_In Loc_Rib Conf
begin

text \<open>
  The LSA of the node itself, in \<^verbatim>\<open>src/dvpn.c\<close>: for every change of its peers the node makes a
  copy of its LSA, changes, renumbers and signs it, and puts it into the local base in place of
  the old one.  The time and the signature of gnutls are parameters.  The properties: the new LSA
  says what it should, its version is higher, it is well-formed and signed, and the
  neighbours that receive it accept it.
\<close>

section \<open>The code\<close>

definition conf_peer_type_to_lsa_peer_flags :: "conf_peer_type \<Rightarrow> byte outcome" where
  "conf_peer_type_to_lsa_peer_flags type =
     (case type of
        CONF_PEER_TYPE_EPEER \<Rightarrow> Inr 0
      | CONF_PEER_TYPE_CUSTOMER \<Rightarrow> Inr LSA_PEER_FLAGS_CUSTOMER
      | CONF_PEER_TYPE_TRANSIT \<Rightarrow> Inr LSA_PEER_FLAGS_TRANSIT
      | CONF_PEER_TYPE_IPEER \<Rightarrow> Inr (LSA_PEER_FLAGS_CUSTOMER OR LSA_PEER_FLAGS_TRANSIT)
      | _ \<Rightarrow> Inl Abort)"

text \<open>Numbers in network byte order.\<close>

definition put_be16 :: "u16 \<Rightarrow> bytes" where
  "put_be16 v = [ucast (drop_bit 8 v), ucast v]"

definition put_be32 :: "u64 \<Rightarrow> bytes" where
  "put_be32 v = [ucast (drop_bit 24 v), ucast (drop_bit 16 v), ucast (drop_bit 8 v), ucast v]"

definition put_version :: "u64 \<Rightarrow> bytes" where
  "put_version version =
     put_be32 (drop_bit 32 version AND 0xffffffff) @ put_be32 (version AND 0xffffffff)"

definition lsa_add_version :: "refcounts \<Rightarrow> u64 \<Rightarrow> lsa \<Rightarrow> lsa outcome" where
  "lsa_add_version rc version l =
     obind (lsa_add_attr rc l LSA_ATTR_TYPE_VERSION True [] (put_version version)) (\<lambda>(_, l). Inr l)"

text \<open>\<open>now\<close> is \<^verbatim>\<open>time(NULL)\<close>.\<close>

definition lsa_update_version :: "u64 \<Rightarrow> refcounts \<Rightarrow> lsa \<Rightarrow> lsa outcome" where
  "lsa_update_version now rc l =
     (case lsa_find_attr l LSA_ATTR_TYPE_VERSION [] of
        None \<Rightarrow> Inl Abort
      | Some attr \<Rightarrow>
          (case attr_data attr of
             Attr_set _ \<Rightarrow> Inl Out_of_bounds
           | Attr_bytes d \<Rightarrow>
               if length d < 8 then Inl Out_of_bounds
               else let curver = push_bit 32 (be32 (take 4 d)) OR be32 (drop 4 d)
               in obind (lsa_del_attr rc l attr) (\<lambda>l.
                  let t64 = push_bit 8 now; t64 = (if t64 \<le> curver then curver + 1 else t64)
                  in lsa_add_version rc t64 l)))"

definition lsa_initial_version :: "u64 \<Rightarrow> refcounts \<Rightarrow> lsa \<Rightarrow> lsa outcome" where
  "lsa_initial_version now rc l = lsa_add_version rc (push_bit 8 (now + 1)) l"

text \<open>
  The private key of the node: its public key in DER, whether it can be made ready for
  signing, and the signature of some bytes.
\<close>

record signer =
  sg_pubkey :: "bytes option"
  sg_ready :: bool
  sg_sign :: "bytes \<Rightarrow> bytes option"

definition lsa_add_pubkey :: "signer \<Rightarrow> refcounts \<Rightarrow> lsa \<Rightarrow> lsa outcome" where
  "lsa_add_pubkey sg rc l =
     (case sg_pubkey sg of
        None \<Rightarrow> Inl Abort
      | Some buf \<Rightarrow> obind (lsa_add_attr rc l LSA_ATTR_TYPE_PUBKEY True [] buf) (\<lambda>(_, l). Inr l))"

definition lsa_sign :: "signer \<Rightarrow> refcounts \<Rightarrow> lsa \<Rightarrow> lsa outcome" where
  "lsa_sign sg rc l =
     obind (case lsa_find_attr l LSA_ATTR_TYPE_SIGNATURE [] of
              Some attr \<Rightarrow> lsa_del_attr rc l attr | None \<Rightarrow> Inr l) (\<lambda>l.
     obind (lsa_serialise_length l True None) (\<lambda>serlen.
     if serlen > 65536 - 128 then Inl Abort
     else let buflen = serlen + 128
     in obind (lsa_serialise (replicate buflen 0) serlen l True None) (\<lambda>(buf, len).
        if len > buflen then Inl Abort
        else if \<not> sg_ready sg then Inl Abort
        else case sg_sign sg (take len buf) of
               None \<Rightarrow> Inl Abort
             | Some sig \<Rightarrow> obind (lsa_add_attr rc l LSA_ATTR_TYPE_SIGNATURE False [] sig) (\<lambda>(_, l). Inr l))))"

text \<open>What \<^verbatim>\<open>mylsa_add_peer\<close> and \<^verbatim>\<open>mylsa_del_peer\<close> end with; \<open>me\<close> is the LSA so far.\<close>

definition mylsa_publish ::
  "signer \<Rightarrow> u64 \<Rightarrow> lsa \<Rightarrow> refcounts \<Rightarrow> 'v loc_rib \<Rightarrow> lsa \<Rightarrow> (lsa \<times> 'v loc_rib world) outcome" where
  "mylsa_publish sg now me rc rib newme =
     obind (lsa_update_version now rc newme) (\<lambda>newme.
     obind (lsa_sign sg rc newme) (\<lambda>newme.
     obind (loc_rib_mod_lsa me newme (rc, rib)) (\<lambda>(rc, rib).
     obind (lsa_put rc (Some me)) (\<lambda>rc.
     Inr (newme, rc, rib)))))"

text \<open>The pointers that \<^verbatim>\<open>lsa_clone\<close> and \<^verbatim>\<open>lsa_add_attr_set\<close> return are used without a check.\<close>

definition mylsa_add_peer ::
  "signer \<Rightarrow> u64 \<Rightarrow> nat option \<Rightarrow> bytes \<Rightarrow> conf_peer_type \<Rightarrow> int \<Rightarrow> lsa \<times> 'v loc_rib world \<Rightarrow>
   (lsa \<times> 'v loc_rib world) outcome" where
  "mylsa_add_peer sg now malloc nid type cost state =
     (let (me, rc, rib) = state
      in obind (lsa_clone malloc rc me) (\<lambda>(rc, newme).
         case newme of
           None \<Rightarrow> Inl Null_deref
         | Some newme \<Rightarrow>
             obind (lsa_add_attr_set rc newme LSA_ATTR_TYPE_PEER True nid) (\<lambda>(set, newme).
             if \<not> set then Inl Null_deref
             else
               obind (lsa_attr_set_add_attr (rc (lsa_ptr newme)) (lsa_bytes newme) [] LSA_PEER_ATTR_TYPE_METRIC
                 True [] (put_be16 (word_of_int cost))) (\<lambda>(_, b, aset).
               obind (conf_peer_type_to_lsa_peer_flags type) (\<lambda>peer_flags.
               obind (lsa_attr_set_add_attr (rc (lsa_ptr newme)) b aset LSA_PEER_ATTR_TYPE_PEER_FLAGS
                 True [] [peer_flags]) (\<lambda>(_, b, aset).
               mylsa_publish sg now me rc rib
                 (newme\<lparr>lsa_bytes := b, lsa_root := set_child LSA_ATTR_TYPE_PEER nid aset (lsa_root newme)\<rparr>)))))))"

definition mylsa_del_peer ::
  "signer \<Rightarrow> u64 \<Rightarrow> nat option \<Rightarrow> bytes \<Rightarrow> lsa \<times> 'v loc_rib world \<Rightarrow> (lsa \<times> 'v loc_rib world) outcome" where
  "mylsa_del_peer sg now malloc nid state =
     (let (me, rc, rib) = state
      in obind (lsa_clone malloc rc me) (\<lambda>(rc, newme).
         case newme of
           None \<Rightarrow> Inl Null_deref
         | Some newme \<Rightarrow>
             obind (lsa_del_attr_bykey rc newme LSA_ATTR_TYPE_PEER nid) (\<lambda>newme.
             mylsa_publish sg now me rc rib newme)))"

text \<open>The first LSA of the node, as \<^verbatim>\<open>dvpn\<close> makes it, and how it is put into the base.\<close>

definition mylsa_init ::
  "signer \<Rightarrow> u64 \<Rightarrow> nat option \<Rightarrow> bytes \<Rightarrow> bytes option \<Rightarrow> 'v loc_rib world \<Rightarrow> (lsa \<times> 'v loc_rib world) outcome" where
  "mylsa_init sg now malloc keyid name w =
     (let (rc, rib) = w; (rc, me) = lsa_alloc malloc rc keyid
      in case me of
           None \<Rightarrow> Inl Null_deref
         | Some me \<Rightarrow>
             obind (lsa_add_attr rc me LSA_ATTR_TYPE_ADV_PATH False [] []) (\<lambda>(_, me).
             obind (case name of
                      None \<Rightarrow> Inr me
                    | Some n \<Rightarrow> obind (lsa_add_attr rc me LSA_ATTR_TYPE_NODE_NAME True [] n) (\<lambda>(_, me). Inr me)) (\<lambda>me.
             obind (lsa_initial_version now rc me) (\<lambda>me.
             obind (lsa_add_pubkey sg rc me) (\<lambda>me.
             obind (lsa_sign sg rc me) (\<lambda>me.
             obind (loc_rib_add_lsa me (rc, rib)) (\<lambda>w.
             Inr (me, w))))))))"


section \<open>Changes of one attribute\<close>

lemma find_attr_iff:
  assumes "avl_ordered compare_attr_keys as" "length k \<le> 65536"
  shows "lsa_attr_set_find_attr as t k = Some a \<longleftrightarrow> a \<in> set as \<and> attr_type a = t \<and> attr_key a = k"
  using find_attr_SomeD [of as t k a] find_attr_member [OF assms(1), of a] assms(2) by auto

text \<open>
  \<open>root_upd t k ao l l'\<close>: the attribute of type \<open>t\<close> and key \<open>k\<close> of \<open>l\<close> is \<open>ao\<close> in \<open>l'\<close>, and
  nothing else is different.
\<close>

definition root_upd :: "int \<Rightarrow> bytes \<Rightarrow> lsa_attr option \<Rightarrow> lsa \<Rightarrow> lsa \<Rightarrow> bool" where
  "root_upd t k ao l l' \<longleftrightarrow>
     lsa_wf l' \<and> lsa_ptr l' = lsa_ptr l \<and> lsa_id l' = lsa_id l \<and>
     set (lsa_root l') = {x \<in> set (lsa_root l). \<not> (attr_type x = t \<and> attr_key x = k)} \<union> set_option ao \<and>
     lsa_bytes l' \<le> lsa_bytes l + (case ao of Some a \<Rightarrow> attr_total a | None \<Rightarrow> 0)"

lemma lsa_wf_ordered: "lsa_wf l \<Longrightarrow> avl_ordered compare_attr_keys (lsa_root l)"
  by (simp add: lsa_wf_def attrs_ok_def)

lemma root_upd_find:
  assumes "root_upd t k ao l l'" "lsa_wf l" "\<And>a. ao = Some a \<Longrightarrow> attr_type a = t \<and> attr_key a = k" "length k' \<le> 65536"
  shows "lsa_find_attr l' t' k' = (if t' = t \<and> k' = k then ao else lsa_find_attr l t' k')"
proof -
  have "lsa_wf l'" using assms(1) by (simp add: root_upd_def)
  have "lsa_find_attr l' t' k' = Some a \<longleftrightarrow> (if t' = t \<and> k' = k then ao else lsa_find_attr l t' k') = Some a" for a
    unfolding lsa_find_attr_def
    using find_attr_iff [OF lsa_wf_ordered [OF \<open>lsa_wf l'\<close>] assms(4)] find_attr_iff [OF lsa_wf_ordered [OF assms(2)] assms(4)]
      assms(1,3) by (auto simp: root_upd_def)
  then show ?thesis by (metis not_None_eq)
qed

lemma add_attr_upd:
  assumes "lsa_wf l" "rc (lsa_ptr l) = 1" "lsa_find_attr l t k = None" "length k \<le> 65536"
    and "attr_total (Lsa_attr t s k (Attr_bytes d)) < 2 ^ 63"
  obtains l' where "lsa_add_attr rc l t s k d = Inr (0, l')" "root_upd t k (Some (Lsa_attr t s k (Attr_bytes d))) l l'"
proof -
  let ?a = "Lsa_attr t s k (Attr_bytes d)"
  have none: "lsa_attr_set_find_attr (lsa_root l) t k = None" using assms(3) by (simp add: lsa_find_attr_def)
  obtain bs where bs: "lsa_attr_set_add_attr 1 (lsa_bytes l) (lsa_root l) t s k d = Inr (0, lsa_bytes l + attr_total ?a, bs)"
    "avl_ordered compare_attr_keys bs" "set bs = insert ?a (set (lsa_root l))"
    "attrs_total bs = attr_total ?a + attrs_total (lsa_root l)"
    by (rule add_attr_returns [OF lsa_wf_ordered [OF assms(1)] disjI1 [OF assms(4)] none assms(5)])
  have "\<forall>x \<in> set (lsa_root l). \<not> (attr_type x = t \<and> attr_key x = k)"
    using none find_attr_iff [OF lsa_wf_ordered [OF assms(1)] assms(4)] by (metis option.distinct(1))
  then have "{x \<in> set (lsa_root l). \<not> (attr_type x = t \<and> attr_key x = k)} = set (lsa_root l)" by blast
  with bs assms(1) have "root_upd t k (Some ?a) l (l\<lparr>lsa_bytes := lsa_bytes l + attr_total ?a, lsa_root := bs\<rparr>)"
    by (simp add: root_upd_def lsa_wf_def attrs_ok_def list_all_iff del: attr_total.simps)
  with bs(1) assms(2) that show ?thesis by (simp add: lsa_add_attr_def)
qed

lemma del_attr_upd:
  assumes "lsa_wf l" "rc (lsa_ptr l) = 1" "a \<in> set (lsa_root l)" "attr_filled a" "lsa_bytes l < 2 ^ 63"
  obtains l' where "lsa_del_attr rc l a = Inr l'" "root_upd (attr_type a) (attr_key a) None l l'"
proof -
  note ord = lsa_wf_ordered [OF assms(1)]
  let ?bs = "avl_delete compare_attr_keys a (lsa_root l)"
  have find: "avl_find (compare_attr_keys a) (lsa_root l) = Some a"
    by (rule attrs.find_self [OF ord _ assms(3)]) (simp add: list_all_iff)
  have total: "attrs_total (lsa_root l) = attr_total a + attrs_total ?bs"
    using avl_delete_sum [where cmp = compare_attr_keys and x = a and f = attr_total, OF find] by (simp add: attrs_total_def)
  have sz: "attr_size a < 2 ^ 63" "attr_total a < 2 ^ 63"
    using total attr_size_le_total [of a] assms(1,5) by (simp_all add: lsa_wf_def)
  have "set ?bs = {y \<in> set (lsa_root l). compare_attr_keys a y \<noteq> 0}"
    by (rule attrs.delete_set [OF ord]) (simp add: list_all_iff)
  then have "set ?bs = {x \<in> set (lsa_root l). \<not> (attr_type x = attr_type a \<and> attr_key x = attr_key a)}"
    unfolding compare_attr_keys_eq_0 by (auto simp: eq_commute)
  moreover have "attrs_ok ?bs"
    using assms(1) avl_delete_ordered [OF ord] avl_delete_set [of compare_attr_keys a "lsa_root l"]
    by (auto simp: lsa_wf_def attrs_ok_def list_all_iff)
  ultimately have upd: "root_upd (attr_type a) (attr_key a) None l (l\<lparr>lsa_bytes := lsa_bytes l - attr_total a, lsa_root := ?bs\<rparr>)"
    using assms(1) total by (simp add: root_upd_def lsa_wf_def)
  have "lsa_del_attr rc l a = Inr (l\<lparr>lsa_bytes := lsa_bytes l - attr_total a, lsa_root := ?bs\<rparr>)"
  proof (cases a)
    case (Lsa_attr t s k d)
    show ?thesis
    proof (cases d)
      case (Attr_bytes b)
      then show ?thesis using assms(2) lsa_attr_size_eq [OF sz(1)] Lsa_attr
        by (simp add: lsa_del_attr_def Let_def)
    next
      case (Attr_set as)
      have "as \<noteq> []" "list_all attr_filled as" "attrs_total as < 2 ^ 63"
        using assms(4) sz(2) Lsa_attr Attr_set by simp_all
      then show ?thesis using assms(2) lsa_attr_size_eq [OF sz(1)] Lsa_attr Attr_set
        by (simp add: lsa_del_attr_def Let_def attr_tree_free_eq del: attr_size.simps)
    qed
  qed
  with upd that show ?thesis by blast
qed

lemma root_upd_filled: "root_upd t k ao l l' \<Longrightarrow> list_all attr_filled (lsa_root l) \<Longrightarrow>
    (\<And>a. ao = Some a \<Longrightarrow> attr_filled a) \<Longrightarrow> list_all attr_filled (lsa_root l')"
  by (auto simp: root_upd_def list_all_iff)


lemma root_upd_again:
  assumes "root_upd t k None l l1" "root_upd t k ao l1 l2"
  shows "root_upd t k ao l l2"
  using assms by (auto simp: root_upd_def)

lemma set_child_upd:
  assumes "avl_ordered compare_attr_keys as" "Lsa_attr t s k (Attr_set []) \<in> set as"
  shows "map attr_order_key (set_child t k d as) = map attr_order_key as"
    and "set (set_child t k d as) = {x \<in> set as. \<not> (attr_type x = t \<and> attr_key x = k)} \<union> {Lsa_attr t s k (Attr_set d)}"
    and "attrs_total (set_child t k d as) = attrs_total as + attrs_total d"
proof -
  show "map attr_order_key (set_child t k d as) = map attr_order_key as"
    by (induction as) (auto simp: attr_order_key_def)
  have ne: "\<forall>y \<in> set xs. \<not> (attr_type y = t \<and> attr_key y = k)"
    if "\<forall>y \<in> set xs. compare_attr_keys x y < 0" "attr_type x = t" "attr_key x = k" for x xs
    using that compare_attr_keys_eq_0 [of x] by (metis order_less_irrefl)
  show "set (set_child t k d as) = {x \<in> set as. \<not> (attr_type x = t \<and> attr_key x = k)} \<union> {Lsa_attr t s k (Attr_set d)}"
    using assms
  proof (induction as)
    case (Cons x xs)
    show ?case
    proof (cases "attr_type x = t \<and> attr_key x = k")
      case True
      with Cons.prems ne [of xs x] have "x = Lsa_attr t s k (Attr_set [])" "\<forall>y \<in> set xs. \<not> (attr_type y = t \<and> attr_key y = k)"
        by auto
      then show ?thesis by auto
    qed (use Cons in auto)
  qed simp
  show "attrs_total (set_child t k d as) = attrs_total as + attrs_total d"
    using assms
  proof (induction as)
    case (Cons x xs)
    show ?case
    proof (cases "attr_type x = t \<and> attr_key x = k")
      case True
      with Cons.prems ne [of xs x] have "x = Lsa_attr t s k (Attr_set [])" by auto
      then show ?thesis by (simp add: attrs_total_def)
    qed (use Cons in auto)
  qed simp
qed

lemma ordered_by_key: "avl_ordered compare_attr_keys as \<longleftrightarrow> sorted_wrt (\<lambda>a b. ord_cmp a b < 0) (map attr_order_key as)"
  by (simp add: avl_ordered_def sorted_wrt_map compare_attr_keys_ord)

text \<open>The signed bytes depend on the signed attributes only.\<close>

lemma attr_enc_unsigned: "\<not> attr_signed a \<Longrightarrow> attr_enc True p a = []"
  by (cases a rule: attr_total.cases) simp_all

lemma enc_signed_eq:
  assumes "lsa_wf l" "lsa_wf l'" "lsa_id l = lsa_id l'"
    and "{a \<in> set (lsa_root l). attr_signed a} = {a \<in> set (lsa_root l'). attr_signed a}"
  shows "lsa_enc True None l = lsa_enc True None l'"
proof -
  have "filter attr_signed (lsa_root l) = filter attr_signed (lsa_root l')"
    using assms(4) lsa_wf_ordered [OF assms(1)] lsa_wf_ordered [OF assms(2)]
    by (intro attrs.ordered_ext) (auto simp: avl_ordered_def list_all_iff sorted_wrt_filter)
  moreover have "attrs_enc True None as = concat (map (attr_enc True None) (filter attr_signed as))" for as
    unfolding attrs_enc_None by (rule concat_filter) (simp add: attr_enc_unsigned)
  ultimately show ?thesis using assms(3) by (simp add: lsa_enc_def)
qed


section \<open>Versions\<close>

lemma be32_put: "be32 (put_be32 w) = w AND mask 32"
proof (rule bit_word_eqI)
  fix n assume "n < LENGTH(64)"
  then show "bit (be32 (put_be32 w)) n \<longleftrightarrow> bit (w AND mask 32) n"
    by (cases "n < 8"; cases "n < 16"; cases "n < 24") (auto simp: be32_def put_be32_def bit_simps)
qed

lemma version_put:
  "push_bit 32 (be32 (take 4 (put_version v))) OR be32 (drop 4 (put_version v)) = v"
proof -
  have f: "0xffffffff = (mask 32 :: u64)" by (simp add: mask_eq_exp_minus_1)
  have "take 4 (put_version v) = put_be32 (drop_bit 32 v AND mask 32)" "drop 4 (put_version v) = put_be32 (v AND mask 32)"
    by (simp_all add: put_version_def put_be32_def f)
  moreover have "push_bit 32 (drop_bit 32 v AND mask 32 AND mask 32) OR (v AND mask 32 AND mask 32) = v"
    by (rule bit_word_eqI) (auto simp: bit_simps)
  ultimately show ?thesis by (simp add: be32_put)
qed

lemma length_put_version [simp]: "length (put_version v) = 8"
  by (simp add: put_version_def put_be32_def)

text \<open>The version that replaces \<open>cur\<close>.\<close>

definition next_version :: "u64 \<Rightarrow> u64 \<Rightarrow> u64" where
  "next_version now cur = (if push_bit 8 now \<le> cur then cur + 1 else push_bit 8 now)"

lemma next_version_higher:
  assumes "cur \<noteq> - 1"
  shows "cur < next_version now cur"
proof -
  have "1 + cur \<noteq> 0" using assms by (metis add.commute eq_neg_iff_add_eq_0)
  then have "unat (1 + cur) = Suc (unat cur)" by (rule unatSuc)
  then have "cur < cur + 1" by (simp add: word_less_nat_alt add.commute)
  then show ?thesis by (simp add: next_version_def not_le)
qed

lemma lsa_update_version_result:
  assumes "lsa_filled l" "rc (lsa_ptr l) = 1"
    and find: "lsa_find_attr l LSA_ATTR_TYPE_VERSION [] = Some (Lsa_attr LSA_ATTR_TYPE_VERSION True [] (Attr_bytes d))"
      "length d = 8"
  obtains l' where "lsa_update_version now rc l = Inr l'"
    "root_upd LSA_ATTR_TYPE_VERSION [] (Some (Lsa_attr LSA_ATTR_TYPE_VERSION True []
       (Attr_bytes (put_version (next_version now (lsa_get_version l)))))) l l'"
proof -
  let ?a = "Lsa_attr LSA_ATTR_TYPE_VERSION True [] (Attr_bytes d)"
  let ?v = "next_version now (lsa_get_version l)"
  let ?b = "Lsa_attr LSA_ATTR_TYPE_VERSION True [] (Attr_bytes (put_version ?v))"
  have l: "lsa_wf l" "lsa_bytes l < 2 ^ 63" using assms(1) by (simp_all add: lsa_filled_def)
  have mem: "?a \<in> set (lsa_root l)" using find(1) by (auto simp: lsa_find_attr_def dest: find_attr_SomeD)
  have "attr_filled ?a" by simp
  from del_attr_upd [where rc = rc, OF l(1) assms(2) mem this l(2)] obtain l1 where
    l1: "lsa_del_attr rc l ?a = Inr l1" "root_upd LSA_ATTR_TYPE_VERSION [] None l l1" by auto
  have none: "lsa_find_attr l1 LSA_ATTR_TYPE_VERSION [] = None"
    using root_upd_find [OF l1(2) l(1)] by simp
  have r1: "lsa_wf l1" "rc (lsa_ptr l1) = 1" using l1(2) assms(2) by (auto simp: root_upd_def)
  have sz: "attr_total ?b < 2 ^ 63" by (simp add: MAX_SERIALISED_INT_LEN_def)
  from add_attr_upd [where rc = rc and s = True, OF r1 none _ sz] obtain l2 where
    l2: "lsa_add_attr rc l1 LSA_ATTR_TYPE_VERSION True [] (put_version ?v) = Inr (0, l2)"
    "root_upd LSA_ATTR_TYPE_VERSION [] (Some ?b) l1 l2" by auto
  have cur: "lsa_get_version l = push_bit 32 (be32 (take 4 d)) OR be32 (drop 4 d)"
    using find by (simp add: lsa_get_version_def attr_is_signed_bytes_def)
  have "lsa_update_version now rc l = Inr l2"
    using l2(1) find(2) by (simp add: lsa_update_version_def find(1) Let_def l1(1) lsa_add_version_def next_version_def cur)
  with root_upd_again [OF l1(2) l2(2)] that show ?thesis by blast
qed

section \<open>Signing\<close>

text \<open>A key that signs whatever it is given, with a public key and signatures of sane sizes.\<close>

definition signer_ok :: "signer \<Rightarrow> bool" where
  "signer_ok sg \<longleftrightarrow> sg_ready sg \<and> (\<forall>x. \<exists>sig. sg_sign sg x = Some sig \<and> length sig \<le> 4096) \<and>
     (\<exists>pk. sg_pubkey sg = Some pk \<and> length pk \<le> 4096)"

lemma signed_bytes:
  assumes "lsa_wf l" "lsa_bytes l \<le> 65000"
  obtains serlen buf len where "lsa_serialise_length l True None = Inr serlen" "serlen \<le> 65536 - 128"
    "lsa_serialise (replicate (serlen + 128) 0) serlen l True None = Inr (buf, len)" "len \<le> serlen + 128"
    "take len buf = lsa_enc True None l"
proof -
  let ?n = "NODE_ID_LEN + length (attrs_enc True None (lsa_root l))"
  have wf: "length (lsa_id l) = NODE_ID_LEN"
    "lsa_bytes l = MAX_SERIALISED_INT_LEN + NODE_ID_LEN + attrs_total (lsa_root l)"
    using assms(1) by (auto simp: lsa_wf_def)
  have "length (attrs_enc True None (lsa_root l)) \<le> attrs_total (lsa_root l)"
    by (simp add: attrs_enc_None attrs_enc_length_None)
  then have n: "?n \<le> 65000" using wf(2) assms(2) by simp
  have len: "length (lsa_enc True None l) \<le> 10 + ?n" using length_lsa_enc [OF wf(1), of True None] by simp
  have small: "length (attrs_enc True None (lsa_root l)) < 2 ^ 63" using n by simp
  show ?thesis
    by (rule that [OF serialise_length_eq [OF preid_ok_None small] _ serialise_eq [OF preid_ok_None small wf(1)]])
      (use n len in simp_all)
qed

lemma lsa_sign_result:
  assumes sg: "signer_ok sg" and l: "lsa_filled l" "rc (lsa_ptr l) = 1" "lsa_bytes l \<le> 65000"
  obtains l' sig where "lsa_sign sg rc l = Inr l'"
    "root_upd LSA_ATTR_TYPE_SIGNATURE [] (Some (Lsa_attr LSA_ATTR_TYPE_SIGNATURE False [] (Attr_bytes sig))) l l'"
    "sg_sign sg (lsa_enc True None l') = Some sig" "length sig \<le> 4096"
proof -
  let ?T = LSA_ATTR_TYPE_SIGNATURE
  have wf: "lsa_wf l" using l(1) by (simp add: lsa_filled_def)
  obtain l1 where l1: "(case lsa_find_attr l ?T [] of Some attr \<Rightarrow> lsa_del_attr rc l attr | None \<Rightarrow> Inr l) = Inr l1"
    "root_upd ?T [] None l l1"
  proof (cases "lsa_find_attr l ?T []")
    case None
    then have "\<forall>x \<in> set (lsa_root l). \<not> (attr_type x = ?T \<and> attr_key x = [])"
      using find_attr_iff [OF lsa_wf_ordered [OF wf], of "[]" ?T] by (auto simp: lsa_find_attr_def)
    then have "root_upd ?T [] None l l" using wf by (auto simp: root_upd_def)
    with None that show ?thesis by simp
  next
    case (Some a)
    then have a: "a \<in> set (lsa_root l)" "attr_type a = ?T" "attr_key a = []"
      by (auto simp: lsa_find_attr_def dest: find_attr_SomeD)
    have "attr_filled a" "lsa_bytes l < 2 ^ 63" using l(1) a(1) by (auto simp: lsa_filled_def list_all_iff)
    from del_attr_upd [where rc = rc, OF wf l(2) a(1) this] a(2,3) Some that show ?thesis by auto
  qed
  have r1: "lsa_wf l1" "rc (lsa_ptr l1) = 1" "lsa_bytes l1 \<le> 65000" using l1(2) l(2,3) by (auto simp: root_upd_def)
  have none: "lsa_find_attr l1 ?T [] = None" using root_upd_find [OF l1(2) wf] by simp
  obtain sig where sig: "sg_sign sg (lsa_enc True None l1) = Some sig" "length sig \<le> 4096"
    using sg by (auto simp: signer_ok_def)
  let ?b = "Lsa_attr ?T False [] (Attr_bytes sig)"
  have sz: "attr_total ?b < 2 ^ 63" using sig(2) by (simp add: MAX_SERIALISED_INT_LEN_def)
  from add_attr_upd [where rc = rc and s = False, OF r1(1,2) none _ sz] obtain l2 where
    l2: "lsa_add_attr rc l1 ?T False [] sig = Inr (0, l2)" "root_upd ?T [] (Some ?b) l1 l2" by auto
  obtain serlen buf len where ser: "lsa_serialise_length l1 True None = Inr serlen" "serlen \<le> 65536 - 128"
    "lsa_serialise (replicate (serlen + 128) 0) serlen l1 True None = Inr (buf, len)" "len \<le> serlen + 128"
    "take len buf = lsa_enc True None l1" by (rule signed_bytes [OF r1(1,3)])
  have run: "lsa_sign sg rc l = Inr l2"
    using ser sg sig(1) l2(1) by (simp add: lsa_sign_def l1(1) Let_def signer_ok_def)
  have "\<forall>x \<in> set (lsa_root l1). \<not> (attr_type x = ?T \<and> attr_key x = [])"
    using none find_attr_iff [OF lsa_wf_ordered [OF r1(1)], of "[]" ?T] by (auto simp: lsa_find_attr_def)
  then have "lsa_enc True None l1 = lsa_enc True None l2"
    using l2(2) r1(1) by (intro enc_signed_eq) (auto simp: root_upd_def)
  with sig that [OF run root_upd_again [OF l1(2) l2(2)]] show ?thesis by simp
qed


section \<open>The LSA of the node\<close>

text \<open>
  \<open>my_base\<close>: an LSA of the node \<open>keyid\<close> with an empty unsigned path, the public key and an
  eight-byte version, both signed.  \<open>my_lsa_ok\<close>: and the signature attribute holds the signature
  of its signed attributes.
\<close>

definition my_path :: lsa_attr where
  "my_path = Lsa_attr LSA_ATTR_TYPE_ADV_PATH False [] (Attr_bytes [])"

definition path_unsigned :: "lsa \<Rightarrow> bool" where
  "path_unsigned l \<longleftrightarrow> (\<forall>a \<in> set (lsa_root l). attr_type a = LSA_ATTR_TYPE_ADV_PATH \<longrightarrow> a = my_path)"

definition my_base :: "signer \<Rightarrow> bytes \<Rightarrow> lsa \<Rightarrow> bool" where
  "my_base sg keyid l \<longleftrightarrow> lsa_filled l \<and> lsa_id l = keyid \<and> path_unsigned l \<and>
     lsa_find_attr l LSA_ATTR_TYPE_ADV_PATH [] = Some (Lsa_attr LSA_ATTR_TYPE_ADV_PATH False [] (Attr_bytes [])) \<and>
     (\<exists>pk. sg_pubkey sg = Some pk \<and>
        lsa_find_attr l LSA_ATTR_TYPE_PUBKEY [] = Some (Lsa_attr LSA_ATTR_TYPE_PUBKEY True [] (Attr_bytes pk))) \<and>
     (\<exists>d. length d = 8 \<and>
        lsa_find_attr l LSA_ATTR_TYPE_VERSION [] = Some (Lsa_attr LSA_ATTR_TYPE_VERSION True [] (Attr_bytes d)))"

definition my_lsa_ok :: "signer \<Rightarrow> bytes \<Rightarrow> lsa \<Rightarrow> bool" where
  "my_lsa_ok sg keyid l \<longleftrightarrow> my_base sg keyid l \<and>
     (\<exists>sig. sg_sign sg (lsa_enc True None l) = Some sig \<and>
        lsa_find_attr l LSA_ATTR_TYPE_SIGNATURE [] = Some (Lsa_attr LSA_ATTR_TYPE_SIGNATURE False [] (Attr_bytes sig)))"

lemma root_upd_base:
  assumes "root_upd t k ao l l'" "my_base sg keyid l" "lsa_bytes l \<le> 60000"
    and "\<And>a. ao = Some a \<Longrightarrow> attr_type a = t \<and> attr_key a = k \<and> attr_filled a \<and> attr_total a \<le> 5000"
    and "t \<in> {LSA_ATTR_TYPE_PEER, LSA_ATTR_TYPE_SIGNATURE} \<or>
      t = LSA_ATTR_TYPE_VERSION \<and> (\<exists>d. length d = 8 \<and> ao = Some (Lsa_attr t True [] (Attr_bytes d)))"
  shows "my_base sg keyid l'"
proof -
  have wf: "lsa_wf l" "list_all attr_filled (lsa_root l)" "lsa_id l = keyid"
    using assms(2) by (auto simp: my_base_def lsa_filled_def)
  note find = root_upd_find [OF assms(1) wf(1), of "[]"]
  have "list_all attr_filled (lsa_root l')" by (rule root_upd_filled [OF assms(1) wf(2)]) (use assms(4) in auto)
  moreover have "lsa_bytes l' < 2 ^ 62" "lsa_wf l'" "lsa_id l' = keyid"
    using assms(1,3,4) wf(3) by (auto simp: root_upd_def split: option.splits)
  ultimately have "lsa_filled l'" "lsa_id l' = keyid" by (simp_all add: lsa_filled_def)
  moreover have "path_unsigned l'"
    using assms(1,2,4,5) by (auto simp: my_base_def path_unsigned_def root_upd_def lsa_type_defs)
  ultimately have "lsa_filled l'" "lsa_id l' = keyid" "path_unsigned l'" by simp_all
  then show ?thesis
    using assms(2,4,5) find unfolding my_base_def
    by (auto simp: lsa_type_defs)
qed

text \<open>What the end of both operations does with the changed copy \<open>newme\<close> of \<open>me\<close>.\<close>

lemma mylsa_publish_result:
  assumes sg: "signer_ok sg" and base: "my_base sg keyid newme"
    and p: "rc (lsa_ptr newme) = 1" "loc_held rib (lsa_ptr newme) = 0"
    and sz: "lsa_bytes newme \<le> 50000"
    and rib: "loc_inv rib" "me \<in> loc_lsas rib" "lsa_id me = keyid"
  obtains me' rc' rib' where "mylsa_publish sg now me rc rib newme = Inr (me', rc', rib')"
    "my_lsa_ok sg keyid me'" "lsa_ptr me' = lsa_ptr newme"
    "lsa_get_version me' = next_version now (lsa_get_version newme)" "lsa_bytes me' \<le> lsa_bytes newme + 5000"
    "\<And>k. length k \<le> 65536 \<Longrightarrow> lsa_find_attr me' LSA_ATTR_TYPE_PEER k = lsa_find_attr newme LSA_ATTR_TYPE_PEER k"
    "loc_inv rib'" "loc_lsas rib' = insert me' (loc_lsas rib - {me})"
    "\<And>q. rc' q - loc_held rib' q = rc q - loc_held rib q - (if q = lsa_ptr me then 1 else 0)"
proof -
  have n: "lsa_filled newme" "lsa_wf newme" "lsa_id newme = keyid" using base by (simp_all add: my_base_def lsa_filled_def)
  from base obtain d where d: "lsa_find_attr newme LSA_ATTR_TYPE_VERSION [] =
      Some (Lsa_attr LSA_ATTR_TYPE_VERSION True [] (Attr_bytes d))" "length d = 8" by (auto simp: my_base_def)
  let ?v = "next_version now (lsa_get_version newme)"
  let ?va = "Lsa_attr LSA_ATTR_TYPE_VERSION True [] (Attr_bytes (put_version ?v))"
  from lsa_update_version_result [where rc = rc and now = now, OF n(1) p(1) d] obtain l1 where
    l1: "lsa_update_version now rc newme = Inr l1" "root_upd LSA_ATTR_TYPE_VERSION [] (Some ?va) newme l1" by blast
  have b1: "my_base sg keyid l1"
    by (rule root_upd_base [OF l1(2) base]) (use sz in \<open>auto simp: MAX_SERIALISED_INT_LEN_def\<close>)
  have f1: "lsa_filled l1" "lsa_wf l1" "rc (lsa_ptr l1) = 1" "lsa_bytes l1 \<le> 51000"
    using l1(2) b1 p(1) sz by (auto simp: my_base_def root_upd_def lsa_filled_def MAX_SERIALISED_INT_LEN_def)
  have "lsa_bytes l1 \<le> 65000" using f1(4) by simp
  from lsa_sign_result [where rc = rc, OF sg f1(1,3) this] obtain l2 sig where
    l2: "lsa_sign sg rc l1 = Inr l2" "sg_sign sg (lsa_enc True None l2) = Some sig" "length sig \<le> 4096"
      "root_upd LSA_ATTR_TYPE_SIGNATURE [] (Some (Lsa_attr LSA_ATTR_TYPE_SIGNATURE False [] (Attr_bytes sig))) l1 l2" by blast
  have b2: "my_base sg keyid l2"
    by (rule root_upd_base [OF l2(4) b1]) (use f1(4) l2(3) in \<open>auto simp: MAX_SERIALISED_INT_LEN_def\<close>)
  note find1 = root_upd_find [OF l1(2) n(2)] and find2 = root_upd_find [OF l2(4) f1(2)]
  have ok: "my_lsa_ok sg keyid l2" using b2 l2(2) find2 [of "[]"] by (simp add: my_lsa_ok_def)
  have ver: "lsa_get_version l2 = ?v"
    using find1 [of "[]"] find2 [of "[]"]
    by (simp add: lsa_get_version_def attr_is_signed_bytes_def version_put lsa_type_defs)
  have ptr: "lsa_ptr l2 = lsa_ptr newme" using l1(2) l2(4) by (simp add: root_upd_def)
  have peers: "lsa_find_attr l2 LSA_ATTR_TYPE_PEER k = lsa_find_attr newme LSA_ATTR_TYPE_PEER k" if "length k \<le> 65536" for k
    using find1 [of k] find2 [of k] that by (simp add: lsa_type_defs)
  have rt: "routable l2" "lsa_id l2 = lsa_id me" "l2 = me \<or> loc_held rib (lsa_ptr l2) = 0"
    using b2 rib(3) p(2) ptr by (auto simp: routable_def my_base_def path_of_def)
  from loc_mod_client [where rc = rc, OF rib(1,2) rt] obtain rc' rib' where
    md: "loc_rib_mod_lsa me l2 (rc, rib) = Inr (rc', rib')" "loc_inv rib'"
      "loc_lsas rib' = insert l2 (loc_lsas rib - {me})" "\<And>q. rc' q - loc_held rib' q = rc q - loc_held rib q" by blast
  have "lsa_filled me" using rib(1,2) by (auto simp: loc_inv_def rid_inv_def loc_lsas_def dest: routable_facts)
  then have put: "lsa_put rc' (Some me) = Inr (rc'(lsa_ptr me := rc' (lsa_ptr me) - 1))" by (rule lsa_put_filled)
  have "mylsa_publish sg now me rc rib newme = Inr (l2, rc'(lsa_ptr me := rc' (lsa_ptr me) - 1), rib')"
    by (simp add: mylsa_publish_def l1(1) l2(1) md(1) put)
  moreover have "lsa_bytes l2 \<le> lsa_bytes newme + 5000"
    using l1(2) l2(3,4) by (auto simp: root_upd_def MAX_SERIALISED_INT_LEN_def)
  ultimately show ?thesis using that [OF _ ok ptr ver _ peers md(2,3)] md(4) by simp
qed


section \<open>Its changes\<close>

lemma my_base_ptr [simp]: "my_base sg keyid (l\<lparr>lsa_ptr := p\<rparr>) \<longleftrightarrow> my_base sg keyid l"
  by (simp add: my_base_def lsa_filled_def lsa_wf_def lsa_find_attr_def path_unsigned_def)

lemma find_attr_ptr [simp]: "lsa_find_attr (l\<lparr>lsa_ptr := p\<rparr>) t k = lsa_find_attr l t k"
  by (simp add: lsa_find_attr_def)

text \<open>The set of one peer.\<close>

definition peer_attrs :: "int \<Rightarrow> byte \<Rightarrow> lsa_attr list" where
  "peer_attrs cost fl =
     [Lsa_attr LSA_PEER_ATTR_TYPE_METRIC True [] (Attr_bytes (put_be16 (word_of_int cost))),
      Lsa_attr LSA_PEER_ATTR_TYPE_PEER_FLAGS True [] (Attr_bytes [fl])]"

definition peer_flags_of :: "conf_peer_type \<Rightarrow> byte" where
  "peer_flags_of type = (case conf_peer_type_to_lsa_peer_flags type of Inr fl \<Rightarrow> fl | Inl _ \<Rightarrow> 0)"

lemma peer_attrs_total: "attrs_total (peer_attrs cost fl) = 63"
  by (simp add: peer_attrs_def put_be16_def MAX_SERIALISED_INT_LEN_def)

lemma add_peer_attrs:
  assumes "lsa_wf l" "lsa_bytes l \<le> 50000" "rc (lsa_ptr l) = 1" "length nid = NODE_ID_LEN"
    and none: "lsa_find_attr l LSA_ATTR_TYPE_PEER nid = None"
  obtains l1 l' where "lsa_add_attr_set rc l LSA_ATTR_TYPE_PEER True nid = Inr (True, l1)" "lsa_ptr l1 = lsa_ptr l"
    "lsa_attr_set_add_attr 1 (lsa_bytes l1) [] LSA_PEER_ATTR_TYPE_METRIC True [] (put_be16 (word_of_int cost)) =
       Inr (0, lsa_bytes l1 + 32, [hd (peer_attrs cost fl)])"
    "lsa_attr_set_add_attr 1 (lsa_bytes l1 + 32) [hd (peer_attrs cost fl)] LSA_PEER_ATTR_TYPE_PEER_FLAGS True [] [fl] =
       Inr (0, lsa_bytes l1 + 63, peer_attrs cost fl)"
    "l' = l1\<lparr>lsa_bytes := lsa_bytes l1 + 63, lsa_root := set_child LSA_ATTR_TYPE_PEER nid (peer_attrs cost fl) (lsa_root l1)\<rparr>"
    "root_upd LSA_ATTR_TYPE_PEER nid (Some (Lsa_attr LSA_ATTR_TYPE_PEER True nid (Attr_set (peer_attrs cost fl)))) l l'"
proof -
  let ?T = LSA_ATTR_TYPE_PEER
  let ?e = "Lsa_attr ?T True nid (Attr_set [])" and ?f = "Lsa_attr ?T True nid (Attr_set (peer_attrs cost fl))"
  note ord = lsa_wf_ordered [OF assms(1)]
  have "avl_find (compare_attr_keys ?e) (lsa_root l) = None"
    using none assms(4) find_attr_eq [of nid "lsa_root l" ?T True "Attr_set []"]
    by (simp add: lsa_find_attr_def NODE_ID_LEN_def)
  from attrs_insert_Some [OF ord this] obtain bs where bs: "avl_insert compare_attr_keys ?e (lsa_root l) = Some bs"
    "avl_ordered compare_attr_keys bs" "set bs = insert ?e (set (lsa_root l))"
    "attrs_total bs = attr_total ?e + attrs_total (lsa_root l)" by blast
  let ?l1 = "l\<lparr>lsa_bytes := lsa_bytes l + attr_size ?e, lsa_root := bs\<rparr>"
  have "lsa_attr_set_add_attr_set 1 (lsa_bytes l) (lsa_root l) ?T True nid = Inr (True, lsa_bytes l + attr_size ?e, bs)"
    by (rule add_attr_set_returns [OF \<open>avl_find _ _ = None\<close> bs(1)])
      (use assms(4) in \<open>simp add: NODE_ID_LEN_def MAX_SERIALISED_INT_LEN_def\<close>)
  then have 1: "lsa_add_attr_set rc l ?T True nid = Inr (True, ?l1)" using assms(3) by (simp add: lsa_add_attr_set_def)
  note ch = set_child_upd [OF bs(2), of ?T True nid "peer_attrs cost fl"]
  have in_bs: "?e \<in> set bs" by (simp add: bs(3))
  have fresh: "\<forall>x \<in> set (lsa_root l). \<not> (attr_type x = ?T \<and> attr_key x = nid)"
    using none find_attr_iff [OF ord, of nid ?T] assms(4) by (auto simp: lsa_find_attr_def NODE_ID_LEN_def)
  have setc: "set (set_child ?T nid (peer_attrs cost fl) bs) = insert ?f (set (lsa_root l))"
    using ch(2) [OF in_bs] fresh by (auto simp: bs(3))
  have ok: "attr_ok ?f" by (simp add: peer_attrs_def attr_ok_Set compare_attr_keys_def lsa_attr_compare_keys_def lsa_type_defs)
  have ordc: "avl_ordered compare_attr_keys (set_child ?T nid (peer_attrs cost fl) bs)"
    using bs(2) ch(1) [OF in_bs] by (simp add: ordered_by_key)
  have upd: "root_upd ?T nid (Some ?f) l (?l1\<lparr>lsa_bytes := lsa_bytes ?l1 + 63,
      lsa_root := set_child ?T nid (peer_attrs cost fl) (lsa_root ?l1)\<rparr>)"
    using assms(1) ordc setc ok ch(3) [OF in_bs] bs(4) fresh peer_attrs_total [of cost fl]
    by (auto simp: root_upd_def lsa_wf_def attrs_ok_def list_all_iff attrs_total_def)
  show ?thesis
    by (rule that [OF 1 _ _ _ refl upd])
      (simp_all add: add_attr_last peer_attrs_def put_be16_def MAX_SERIALISED_INT_LEN_def compare_attr_keys_def
        lsa_attr_compare_keys_def lsa_type_defs)
qed


text \<open>
  The node's side of a change: the old LSA \<open>me\<close> is in the base and held once by \<^verbatim>\<open>me\<close> itself, the
  block \<open>p\<close> that \<^verbatim>\<open>malloc\<close> returns is not in use.
\<close>

definition my_pre :: "signer \<Rightarrow> bytes \<Rightarrow> nat \<Rightarrow> lsa \<Rightarrow> refcounts \<Rightarrow> 'v loc_rib \<Rightarrow> bool" where
  "my_pre sg keyid p me rc rib \<longleftrightarrow> signer_ok sg \<and> my_lsa_ok sg keyid me \<and> lsa_bytes me \<le> 40000 \<and>
     loc_inv rib \<and> me \<in> loc_lsas rib \<and> loc_held rib p = 0 \<and> rc p = 0"

definition my_post :: "signer \<Rightarrow> bytes \<Rightarrow> u64 \<Rightarrow> nat \<Rightarrow> lsa \<Rightarrow> refcounts \<Rightarrow> 'v loc_rib \<Rightarrow>
    lsa \<Rightarrow> refcounts \<Rightarrow> 'v loc_rib \<Rightarrow> bool" where
  "my_post sg keyid now p me rc rib me' rc' rib' \<longleftrightarrow>
     my_lsa_ok sg keyid me' \<and> lsa_ptr me' = p \<and>
     (lsa_get_version me \<noteq> - 1 \<longrightarrow> lsa_get_version me < lsa_get_version me') \<and> lsa_bytes me' \<le> lsa_bytes me + 10000 \<and>
     loc_inv rib' \<and> loc_lsas rib' = insert me' (loc_lsas rib - {me}) \<and>
     (\<forall>q. rc' q - loc_held rib' q - (if q = p then 1 else 0) = rc q - loc_held rib q - (if q = lsa_ptr me then 1 else 0))"

text \<open>A changed copy is published.\<close>

lemma changed_copy_result:
  assumes pre: "my_pre sg keyid p me rc rib"
    and upd: "root_upd LSA_ATTR_TYPE_PEER nid ao (me\<lparr>lsa_ptr := p\<rparr>) newme"
    and ao: "\<And>a. ao = Some a \<Longrightarrow> attr_type a = LSA_ATTR_TYPE_PEER \<and> attr_key a = nid \<and> attr_filled a \<and> attr_total a \<le> 5000"
  obtains me' rc' rib' where "mylsa_publish sg now me (rc(p := 1)) rib newme = Inr (me', rc', rib')"
    "my_post sg keyid now p me rc rib me' rc' rib'"
    "\<And>k. length k \<le> 65536 \<Longrightarrow> lsa_find_attr me' LSA_ATTR_TYPE_PEER k =
       (if k = nid then ao else lsa_find_attr me LSA_ATTR_TYPE_PEER k)"
proof -
  have me: "my_base sg keyid (me\<lparr>lsa_ptr := p\<rparr>)" "lsa_bytes (me\<lparr>lsa_ptr := p\<rparr>) \<le> 60000"
    "lsa_wf (me\<lparr>lsa_ptr := p\<rparr>)" "lsa_id me = keyid"
    using pre by (auto simp: my_pre_def my_lsa_ok_def) (auto simp: my_base_def lsa_filled_def lsa_wf_def)
  have base: "my_base sg keyid newme" by (rule root_upd_base [OF upd me(1,2) ao]) simp_all
  have n: "lsa_ptr newme = p" "lsa_bytes newme \<le> 50000"
    using upd pre ao by (auto simp: root_upd_def my_pre_def split: option.splits)
  have ver: "lsa_get_version newme = lsa_get_version me"
    using root_upd_find [OF upd me(3), of "[]" LSA_ATTR_TYPE_VERSION] ao
    by (simp add: lsa_get_version_def lsa_type_defs)
  have peers: "lsa_find_attr newme LSA_ATTR_TYPE_PEER k = (if k = nid then ao else lsa_find_attr me LSA_ATTR_TYPE_PEER k)"
    if "length k \<le> 65536" for k
    using root_upd_find [OF upd me(3) _ that, of LSA_ATTR_TYPE_PEER] ao by simp
  have rc: "(rc(p := 1)) (lsa_ptr newme) = 1" "loc_held rib (lsa_ptr newme) = 0" using pre n by (simp_all add: my_pre_def)
  have rib: "signer_ok sg" "loc_inv rib" "me \<in> loc_lsas rib" using pre by (simp_all add: my_pre_def)
  show ?thesis
  proof (rule mylsa_publish_result [where now = now and rc = "rc(p := 1)", OF rib(1) base rc n(2) rib(2,3) me(4)], goal_cases)
    case (1 me' rc' rib')
    have "lsa_bytes newme \<le> lsa_bytes me + 5000"
      using upd ao by (auto simp: root_upd_def split: option.splits)
    then have "my_post sg keyid now p me rc rib me' rc' rib'"
      using 1 n(1) ver next_version_higher [of "lsa_get_version me" now] pre
      by (auto simp: my_post_def my_pre_def)
    with that [OF 1(1)] 1(6) peers show ?case by simp
  qed
qed

lemma my_pre_copy:
  assumes "my_pre sg keyid p me rc rib"
  shows "lsa_clone (Some p) rc me = Inr (rc(p := 1), Some (me\<lparr>lsa_ptr := p\<rparr>))"
    and "lsa_wf (me\<lparr>lsa_ptr := p\<rparr>)" "list_all attr_filled (lsa_root me)"
  using assms lsa_clone_correct [of me p rc]
  by (auto simp: my_pre_def my_lsa_ok_def my_base_def lsa_filled_def lsa_wf_def)

lemma peer_info_eq:
  "lsa_find_attr l LSA_ATTR_TYPE_PEER k = Some (Lsa_attr LSA_ATTR_TYPE_PEER True k (Attr_set (peer_attrs cost fl))) \<Longrightarrow>
   lsa_get_peer_info l k = Some \<lparr>lpi_metric = cost mod 65536, lpi_flags = ucast fl\<rparr>"
proof -
  have "256 * uint (ucast (drop_bit 8 w) :: byte) + uint (ucast w :: byte) = uint w" for w :: u16
  proof -
    have "(uint w div 256) mod 256 = uint w div 256" using uint_lt2p [of w] by (intro mod_pos_pos_trivial) (simp_all add: pos_imp_zdiv_nonneg_iff)
    then show ?thesis
      by (simp add: unsigned_ucast_eq take_bit_eq_mod drop_bit_eq_div uint_div)
  qed
  then have "256 * uint (ucast (drop_bit 8 (word_of_int cost :: u16)) :: byte) + uint (ucast (word_of_int cost :: u16) :: byte) =
      cost mod 65536" by (simp add: uint_word_of_int)
  then show "lsa_find_attr l LSA_ATTR_TYPE_PEER k = Some (Lsa_attr LSA_ATTR_TYPE_PEER True k (Attr_set (peer_attrs cost fl))) \<Longrightarrow> ?thesis"
    by (simp add: lsa_get_peer_info_def attr_is_signed_bytes_def peer_attrs_def put_be16_def
        lsa_attr_set_find_attr_def lsa_attr_compare_keys_def lsa_type_defs)
qed


text \<open>A node and its LSA, as an example.\<close>

definition sample_signer :: signer where
  "sample_signer = \<lparr>sg_pubkey = Some [9], sg_ready = True, sg_sign = (\<lambda>x. Some [word_of_nat (length x)])\<rparr>"

definition my_sample :: "nat \<Rightarrow> lsa" where
  "my_sample p =
     \<lparr>lsa_ptr = p, lsa_bytes = 307, lsa_id = replicate 32 7,
      lsa_root = [Lsa_attr 1 False [] (Attr_bytes []),
        Lsa_attr 2 True (replicate 32 2) (Attr_set (peer_attrs 20 2)),
        Lsa_attr 4 True [] (Attr_bytes (replicate 8 0)), Lsa_attr 5 True [] (Attr_bytes [9]),
        Lsa_attr 6 False [] (Attr_bytes [word_of_nat (length (lsa_enc True None \<lparr>lsa_ptr = p, lsa_bytes = 307, lsa_id = replicate 32 7,
           lsa_root = [Lsa_attr 2 True (replicate 32 2) (Attr_set (peer_attrs 20 2)),
             Lsa_attr 4 True [] (Attr_bytes (replicate 8 0)), Lsa_attr 5 True [] (Attr_bytes [9])]\<rparr>))])]\<rparr>"

definition my_sample_rib :: "unit loc_rib" where
  "my_sample_rib = sample_rib [] (my_sample 3)"

lemma sample_signer_ok: "signer_ok sample_signer"
  by (simp add: signer_ok_def sample_signer_def)

lemma my_sample_find:
  "lsa_find_attr (my_sample p) 1 [] = Some (Lsa_attr 1 False [] (Attr_bytes []))"
  "lsa_find_attr (my_sample p) 2 (replicate 32 n) =
     (if n = 2 then Some (Lsa_attr 2 True (replicate 32 2) (Attr_set (peer_attrs 20 2))) else None)"
  "lsa_find_attr (my_sample p) 4 [] = Some (Lsa_attr 4 True [] (Attr_bytes (replicate 8 0)))"
  "lsa_find_attr (my_sample p) 5 [] = Some (Lsa_attr 5 True [] (Attr_bytes [9]))"
  by (auto simp: my_sample_def lsa_find_attr_def lsa_attr_set_find_attr_def
      compare_key_attr [of _ _ _ True "Attr_bytes []"] compare_attr_keys_eq_0)

lemma my_sample_ok: "my_lsa_ok sample_signer (replicate 32 7) (my_sample p)"
proof -
  have "lsa_wf (my_sample p)"
    by (simp add: my_sample_def lsa_wf_def NODE_ID_LEN_def MAX_SERIALISED_INT_LEN_def peer_attrs_def put_be16_def
        compare_attr_keys_def lsa_attr_compare_keys_def lsa_type_defs attr_ok_Set)
  then have "my_base sample_signer (replicate 32 7) (my_sample p)"
    by (simp add: my_base_def lsa_filled_def lsa_type_defs my_sample_find sample_signer_def path_unsigned_def my_path_def)
      (simp add: my_sample_def peer_attrs_def)
  then show ?thesis
    by (simp add: my_lsa_ok_def sample_signer_def) (simp add: my_sample_def lsa_find_attr_def lsa_attr_set_find_attr_def
        lsa_attr_compare_keys_def lsa_type_defs lsa_enc_def attrs_enc_def)
qed

lemma my_post_only:
  "my_post sg keyid now p me rc rib me' rc' rib' \<Longrightarrow> loc_lsas rib = {me} \<Longrightarrow>
   my_lsa_ok sg keyid me' \<and> loc_lsas rib' = {me'}"
  by (simp add: my_post_def)

lemma my_sample_pre:
  "my_pre sample_signer (replicate 32 7) 2 (my_sample 3) ((\<lambda>_. 0)(3 := 2)) my_sample_rib"
proof -
  have "routable (my_sample 3)"
    using my_sample_ok [of 3] by (auto simp: routable_def my_lsa_ok_def my_base_def path_of_def)
  from sample_rib_inv [OF this, of "[] :: unit rib_listener list"] show ?thesis
    using my_sample_ok [of 3] sample_signer_ok
    by (auto simp: my_pre_def my_sample_rib_def) (auto simp: my_sample_def my_sample_rib_def sample_rib_def loc_held_def rid_held_def)
qed

lemma add_peer_result:
  assumes "my_pre sg keyid p me rc rib" "length nid = NODE_ID_LEN"
  shows "if lsa_find_attr me LSA_ATTR_TYPE_PEER nid = None \<and> type \<notin> {CONF_PEER_TYPE_INVALID, CONF_PEER_TYPE_DBONLY}
     then \<exists>me' rc' rib'. mylsa_add_peer sg now (Some p) nid type cost (me, rc, rib) = Inr (me', rc', rib') \<and>
       my_post sg keyid now p me rc rib me' rc' rib' \<and>
       lsa_get_peer_info me' nid = Some \<lparr>lpi_metric = cost mod 65536, lpi_flags = ucast (peer_flags_of type)\<rparr> \<and>
       (\<forall>k. k \<noteq> nid \<and> length k \<le> 65536 \<longrightarrow> lsa_get_peer_info me' k = lsa_get_peer_info me k)
     else mylsa_add_peer sg now (Some p) nid type cost (me, rc, rib) = Inl Abort"
proof -
  let ?me = "me\<lparr>lsa_ptr := p\<rparr>" and ?rc = "rc(p := 1)"
  note copy = my_pre_copy [OF assms(1)]
  show ?thesis
  proof (cases "lsa_find_attr me LSA_ATTR_TYPE_PEER nid = None")
    case False
    then have "mylsa_add_peer sg now (Some p) nid type cost (me, rc, rib) = Inl Abort"
      by (simp add: mylsa_add_peer_def copy(1) lsa_add_attr_set_def lsa_attr_set_add_attr_set_def lsa_find_attr_def)
    with False show ?thesis by simp
  next
    case True
    let ?fl = "peer_flags_of type"
    let ?ao = "Some (Lsa_attr LSA_ATTR_TYPE_PEER True nid (Attr_set (peer_attrs cost ?fl)))"
    have b: "lsa_bytes ?me \<le> 50000" "?rc (lsa_ptr ?me) = 1" "lsa_find_attr ?me LSA_ATTR_TYPE_PEER nid = None"
      using assms(1) True by (simp_all add: my_pre_def)
    from add_peer_attrs [where rc = ?rc and cost = cost and fl = ?fl, OF copy(2) b(1,2) assms(2) b(3)] obtain l1 l' where
      add: "lsa_add_attr_set ?rc ?me LSA_ATTR_TYPE_PEER True nid = Inr (True, l1)" "lsa_ptr l1 = lsa_ptr ?me"
      "lsa_attr_set_add_attr 1 (lsa_bytes l1) [] LSA_PEER_ATTR_TYPE_METRIC True [] (put_be16 (word_of_int cost)) =
         Inr (0, lsa_bytes l1 + 32, [hd (peer_attrs cost ?fl)])"
      "lsa_attr_set_add_attr 1 (lsa_bytes l1 + 32) [hd (peer_attrs cost ?fl)] LSA_PEER_ATTR_TYPE_PEER_FLAGS True [] [?fl] =
         Inr (0, lsa_bytes l1 + 63, peer_attrs cost ?fl)"
      "l' = l1\<lparr>lsa_bytes := lsa_bytes l1 + 63,
         lsa_root := set_child LSA_ATTR_TYPE_PEER nid (peer_attrs cost ?fl) (lsa_root l1)\<rparr>"
      "root_upd LSA_ATTR_TYPE_PEER nid ?ao ?me l'" by blast
    show ?thesis
    proof (cases "type \<in> {CONF_PEER_TYPE_INVALID, CONF_PEER_TYPE_DBONLY}")
      case bad: True
      then have "conf_peer_type_to_lsa_peer_flags type = Inl Abort" by (auto simp: conf_peer_type_to_lsa_peer_flags_def)
      then have "mylsa_add_peer sg now (Some p) nid type cost (me, rc, rib) = Inl Abort"
        by (simp add: mylsa_add_peer_def copy(1) add(1-3))
      with bad show ?thesis by simp
    next
      case False
      have fl: "conf_peer_type_to_lsa_peer_flags type = Inr ?fl"
        using False by (cases type) (simp_all add: conf_peer_type_to_lsa_peer_flags_def peer_flags_of_def)
      have "length nid = 32" using assms(2) by (simp add: NODE_ID_LEN_def)
      then have ao: "a = Lsa_attr LSA_ATTR_TYPE_PEER True nid (Attr_set (peer_attrs cost ?fl)) \<Longrightarrow>
          attr_type a = LSA_ATTR_TYPE_PEER \<and> attr_key a = nid \<and> attr_filled a \<and> attr_total a \<le> 5000" for a
        by (simp add: peer_attrs_def put_be16_def MAX_SERIALISED_INT_LEN_def)
      obtain me' rc' rib' where pub: "mylsa_publish sg now me ?rc rib l' = Inr (me', rc', rib')"
        "my_post sg keyid now p me rc rib me' rc' rib'"
        "\<And>k. length k \<le> 65536 \<Longrightarrow> lsa_find_attr me' LSA_ATTR_TYPE_PEER k =
           (if k = nid then ?ao else lsa_find_attr me LSA_ATTR_TYPE_PEER k)"
        by (rule changed_copy_result [where now = now, OF assms(1) add(6) ao]) auto
      have "mylsa_add_peer sg now (Some p) nid type cost (me, rc, rib) = Inr (me', rc', rib')"
        using pub(1) by (simp add: mylsa_add_peer_def copy(1) add fl)
      moreover have "lsa_get_peer_info me' nid = Some \<lparr>lpi_metric = cost mod 65536, lpi_flags = ucast ?fl\<rparr>"
        by (rule peer_info_eq) (use pub(3) [of nid] \<open>length nid = 32\<close> in simp)
      moreover have "lsa_get_peer_info me' k = lsa_get_peer_info me k" if "k \<noteq> nid" "length k \<le> 65536" for k
        using pub(3) [OF that(2)] that(1) by (simp add: lsa_get_peer_info_def)
      ultimately show ?thesis using True False pub(2) by auto
    qed
  qed
qed

text \<open>
  C9: \<^verbatim>\<open>mylsa_add_peer\<close>, for a peer that the LSA of the node does not list: the new LSA is well-formed,
  has the node's public key and a valid signature, and a higher version than the old one (unless
  that was the last 64-bit number); it says of the new peer the cost modulo 65536 and the flags of its type and of
  every other id what the old one said; it takes the old one's place in the base, and no
  reference is lost.  For a type that has no flags, or a peer that is listed, it aborts.
\<close>

theorem mylsa_add_peer_correct:
  assumes "my_pre sg keyid p me rc rib" "length nid = NODE_ID_LEN"
  shows "if lsa_find_attr me LSA_ATTR_TYPE_PEER nid = None \<and> type \<notin> {CONF_PEER_TYPE_INVALID, CONF_PEER_TYPE_DBONLY}
     then \<exists>me' rc' rib'. mylsa_add_peer sg now (Some p) nid type cost (me, rc, rib) = Inr (me', rc', rib') \<and>
       my_post sg keyid now p me rc rib me' rc' rib' \<and>
       lsa_get_peer_info me' nid = Some \<lparr>lpi_metric = cost mod 65536, lpi_flags = ucast (peer_flags_of type)\<rparr> \<and>
       (\<forall>k. k \<noteq> nid \<and> length k \<le> 65536 \<longrightarrow> lsa_get_peer_info me' k = lsa_get_peer_info me k)
     else mylsa_add_peer sg now (Some p) nid type cost (me, rc, rib) = Inl Abort"
  by (rule add_peer_result [OF assms])

theorem mylsa_add_peer_correct_witness:
  "\<exists>me' rc' rib'. mylsa_add_peer sample_signer 5 (Some 2) (replicate 32 3) CONF_PEER_TYPE_CUSTOMER 65546
       (my_sample 3, (\<lambda>_. 0)(3 := 2), my_sample_rib) = Inr (me', rc', rib') \<and>
     my_lsa_ok sample_signer (replicate 32 7) me' \<and> loc_lsas rib' = {me'} \<and>
     lsa_get_peer_info me' (replicate 32 3) = Some \<lparr>lpi_metric = 10, lpi_flags = 1\<rparr> \<and>
     lsa_get_peer_info me' (replicate 32 2) = Some \<lparr>lpi_metric = 20, lpi_flags = 2\<rparr>"
proof -
  have old: "lsa_get_peer_info (my_sample 3) (replicate 32 2) = Some \<lparr>lpi_metric = 20, lpi_flags = 2\<rparr>"
    by (subst peer_info_eq [of _ _ 20 2]) (simp_all add: my_sample_find lsa_type_defs)
  have lsas: "loc_lsas my_sample_rib = {my_sample 3}"
    by (simp add: my_sample_rib_def loc_lsas_def sample_rib_def rid_lsas_def)
  have fl: "(ucast (peer_flags_of CONF_PEER_TYPE_CUSTOMER) :: u32) = 1"
    by (simp add: peer_flags_of_def conf_peer_type_to_lsa_peer_flags_def LSA_PEER_FLAGS_CUSTOMER_def)
  have "replicate 32 (2 :: byte) \<noteq> replicate 32 3" by simp
  then have other: "lsa_get_peer_info me' (replicate 32 2) = Some \<lparr>lpi_metric = 20, lpi_flags = 2\<rparr>"
    if "\<forall>k. k \<noteq> replicate 32 3 \<and> length k \<le> 65536 \<longrightarrow> lsa_get_peer_info me' k = lsa_get_peer_info (my_sample 3) k" for me'
    using that [rule_format, of "replicate 32 2"] old by simp
  have new: "lsa_find_attr (my_sample 3) LSA_ATTR_TYPE_PEER (replicate 32 3) = None \<and>
      CONF_PEER_TYPE_CUSTOMER \<notin> {CONF_PEER_TYPE_INVALID, CONF_PEER_TYPE_DBONLY}"
    by (simp add: LSA_ATTR_TYPE_PEER_def my_sample_find)
  have len: "length (replicate 32 (3 :: byte)) = NODE_ID_LEN" and cost: "(65546 :: int) mod 65536 = 10"
    by (simp_all add: NODE_ID_LEN_def)
  from mylsa_add_peer_correct [OF my_sample_pre len, of CONF_PEER_TYPE_CUSTOMER 5 65546, unfolded if_P [OF new] fl cost]
  obtain me' rc' rib' where "mylsa_add_peer sample_signer 5 (Some 2) (replicate 32 3) CONF_PEER_TYPE_CUSTOMER 65546
       (my_sample 3, (\<lambda>_. 0)(3 := 2), my_sample_rib) = Inr (me', rc', rib')"
    "my_post sample_signer (replicate 32 7) 5 2 (my_sample 3) ((\<lambda>_. 0)(3 := 2)) my_sample_rib me' rc' rib'"
    "lsa_get_peer_info me' (replicate 32 3) = Some \<lparr>lpi_metric = 10, lpi_flags = 1\<rparr>"
    "\<forall>k. k \<noteq> replicate 32 3 \<and> length k \<le> 65536 \<longrightarrow> lsa_get_peer_info me' k = lsa_get_peer_info (my_sample 3) k"
    by blast
  with my_post_only [OF this(2) lsas] other show ?thesis by blast
qed

lemma del_peer_result:
  assumes "my_pre sg keyid p me rc rib" "length nid = NODE_ID_LEN"
  shows "if lsa_find_attr me LSA_ATTR_TYPE_PEER nid \<noteq> None
     then \<exists>me' rc' rib'. mylsa_del_peer sg now (Some p) nid (me, rc, rib) = Inr (me', rc', rib') \<and>
       my_post sg keyid now p me rc rib me' rc' rib' \<and> lsa_get_peer_info me' nid = None \<and>
       (\<forall>k. k \<noteq> nid \<and> length k \<le> 65536 \<longrightarrow> lsa_get_peer_info me' k = lsa_get_peer_info me k)
     else mylsa_del_peer sg now (Some p) nid (me, rc, rib) = Inl Abort"
proof -
  let ?me = "me\<lparr>lsa_ptr := p\<rparr>" and ?rc = "rc(p := 1)"
  note copy = my_pre_copy [OF assms(1)]
  show ?thesis
  proof (cases "lsa_find_attr me LSA_ATTR_TYPE_PEER nid")
    case None
    then show ?thesis by (simp add: mylsa_del_peer_def copy(1) lsa_del_attr_bykey_def)
  next
    case (Some a)
    then have a: "a \<in> set (lsa_root ?me)" "attr_type a = LSA_ATTR_TYPE_PEER" "attr_key a = nid"
      by (auto simp: lsa_find_attr_def dest: find_attr_SomeD)
    have b: "attr_filled a" "?rc (lsa_ptr ?me) = 1" "lsa_bytes ?me < 2 ^ 63"
      using copy(3) a(1) assms(1) by (auto simp: list_all_iff my_pre_def)
    from del_attr_upd [where rc = ?rc, OF copy(2) b(2) a(1) b(1,3)] obtain l' where
      l': "lsa_del_attr ?rc ?me a = Inr l'" "root_upd LSA_ATTR_TYPE_PEER nid None ?me l'" using a(2,3) by auto
    obtain me' rc' rib' where pub: "mylsa_publish sg now me ?rc rib l' = Inr (me', rc', rib')"
      "my_post sg keyid now p me rc rib me' rc' rib'"
      "\<And>k. length k \<le> 65536 \<Longrightarrow> lsa_find_attr me' LSA_ATTR_TYPE_PEER k =
         (if k = nid then None else lsa_find_attr me LSA_ATTR_TYPE_PEER k)"
      by (rule changed_copy_result [where now = now, OF assms(1) l'(2)]) auto
    have "mylsa_del_peer sg now (Some p) nid (me, rc, rib) = Inr (me', rc', rib')"
      using pub(1) b(2) by (simp add: mylsa_del_peer_def copy(1) lsa_del_attr_bykey_def Some l'(1))
    moreover have "lsa_get_peer_info me' k = (if k = nid then None else lsa_get_peer_info me k)" if "length k \<le> 65536" for k
      using pub(3) [OF that] by (simp add: lsa_get_peer_info_def)
    ultimately show ?thesis using Some pub(2) assms(2) by (auto simp: NODE_ID_LEN_def)
  qed
qed

text \<open>
  \<^verbatim>\<open>mylsa_del_peer\<close>, for a peer that the LSA lists: as above, and the new LSA says nothing of the
  peer; for a peer that is not listed it aborts.
\<close>

theorem mylsa_del_peer_correct:
  assumes "my_pre sg keyid p me rc rib" "length nid = NODE_ID_LEN"
  shows "if lsa_find_attr me LSA_ATTR_TYPE_PEER nid \<noteq> None
     then \<exists>me' rc' rib'. mylsa_del_peer sg now (Some p) nid (me, rc, rib) = Inr (me', rc', rib') \<and>
       my_post sg keyid now p me rc rib me' rc' rib' \<and> lsa_get_peer_info me' nid = None \<and>
       (\<forall>k. k \<noteq> nid \<and> length k \<le> 65536 \<longrightarrow> lsa_get_peer_info me' k = lsa_get_peer_info me k)
     else mylsa_del_peer sg now (Some p) nid (me, rc, rib) = Inl Abort"
  by (rule del_peer_result [OF assms])


theorem mylsa_del_peer_correct_witness:
  "\<exists>me' rc' rib'. mylsa_del_peer sample_signer 5 (Some 2) (replicate 32 2)
       (my_sample 3, (\<lambda>_. 0)(3 := 2), my_sample_rib) = Inr (me', rc', rib') \<and>
     my_lsa_ok sample_signer (replicate 32 7) me' \<and> loc_lsas rib' = {me'} \<and>
     lsa_get_peer_info me' (replicate 32 2) = None"
proof -
  have lsas: "loc_lsas my_sample_rib = {my_sample 3}"
    by (simp add: my_sample_rib_def loc_lsas_def sample_rib_def rid_lsas_def)
  have listed: "lsa_find_attr (my_sample 3) LSA_ATTR_TYPE_PEER (replicate 32 2) \<noteq> None"
    by (simp add: LSA_ATTR_TYPE_PEER_def my_sample_find)
  have len: "length (replicate 32 (2 :: byte)) = NODE_ID_LEN" by (simp add: NODE_ID_LEN_def)
  from mylsa_del_peer_correct [OF my_sample_pre len, of 5, unfolded if_P [OF listed]]
  obtain me' rc' rib' where "mylsa_del_peer sample_signer 5 (Some 2) (replicate 32 2)
       (my_sample 3, (\<lambda>_. 0)(3 := 2), my_sample_rib) = Inr (me', rc', rib')"
    "my_post sample_signer (replicate 32 7) 5 2 (my_sample 3) ((\<lambda>_. 0)(3 := 2)) my_sample_rib me' rc' rib'"
    "lsa_get_peer_info me' (replicate 32 2) = None" by blast
  with my_post_only [OF this(2) lsas] show ?thesis by blast
qed

section \<open>Its beginning\<close>

lemma add_new:
  assumes "lsa_wf l \<and> list_all attr_filled (lsa_root l) \<and> path_unsigned l \<and> lsa_id l = keyid \<and> lsa_ptr l = p \<and> lsa_bytes l \<le> n"
    and "rc p = 1" "lsa_find_attr l t [] = None" "length d \<le> 4096" "t = LSA_ATTR_TYPE_ADV_PATH \<Longrightarrow> \<not> s \<and> d = []"
  obtains l' where "lsa_add_attr rc l t s [] d = Inr (0, l')"
    "lsa_wf l' \<and> list_all attr_filled (lsa_root l') \<and> path_unsigned l' \<and> lsa_id l' = keyid \<and> lsa_ptr l' = p \<and> lsa_bytes l' \<le> n + 4200"
    "\<And>t' k. length k \<le> 65536 \<Longrightarrow> lsa_find_attr l' t' k =
       (if t' = t \<and> k = [] then Some (Lsa_attr t s [] (Attr_bytes d)) else lsa_find_attr l t' k)"
proof -
  let ?a = "Lsa_attr t s [] (Attr_bytes d)"
  have sz: "attr_total ?a \<le> 4200" "attr_total ?a < 2 ^ 63" using assms(4) by (simp_all add: MAX_SERIALISED_INT_LEN_def)
  have l: "lsa_wf l" "rc (lsa_ptr l) = 1" "length ([] :: bytes) \<le> 65536" using assms(1,2) by auto
  from add_attr_upd [where rc = rc and s = s, OF l(1,2) assms(3) l(3) sz(2)] obtain l' where
    l': "lsa_add_attr rc l t s [] d = Inr (0, l')" "root_upd t [] (Some ?a) l l'" by blast
  have "list_all attr_filled (lsa_root l')" by (rule root_upd_filled [OF l'(2)]) (use assms(1) in auto)
  moreover have "path_unsigned l'"
    using l'(2) assms(1,5) by (auto simp: root_upd_def path_unsigned_def my_path_def)
  ultimately show ?thesis
    using that [OF l'(1)] root_upd_find [OF l'(2) l(1)] l'(2) assms(1) sz(1) by (simp add: root_upd_def)
qed

text \<open>
  The LSA the node starts with is signed and well-formed, lists no peer, and has
  the current time plus one second, in 256ths of a second, as its version; it is in the base, and
  the one reference more than the base has is that of \<^verbatim>\<open>me\<close>.
\<close>

theorem mylsa_init_correct:
  assumes sg: "signer_ok sg" and keyid: "length keyid = NODE_ID_LEN" and name: "\<And>n. name = Some n \<Longrightarrow> length n \<le> 4096"
    and rib: "loc_inv rib" "loc_held rib p = 0" "rc p = 0"
  shows "\<exists>me rc' rib'. mylsa_init sg now (Some p) keyid name (rc, rib) = Inr (me, rc', rib') \<and>
    my_lsa_ok sg keyid me \<and> lsa_get_version me = push_bit 8 (now + 1) \<and> (\<forall>k. lsa_get_peer_info me k = None) \<and>
    loc_inv rib' \<and> loc_lsas rib' = insert me (loc_lsas rib) \<and>
    (\<forall>q. rc' q - loc_held rib' q - (if q = lsa_ptr me then 1 else 0) = rc q - loc_held rib q)"
proof -
  let ?rc = "rc(p := 1)"
  define l0 where "l0 = \<lparr>lsa_ptr = p, lsa_bytes = MAX_SERIALISED_INT_LEN + NODE_ID_LEN, lsa_id = keyid, lsa_root = []\<rparr>"
  have alloc: "lsa_alloc (Some p) rc keyid = (?rc, Some l0)" using keyid by (simp add: lsa_alloc_def l0_def)
  have f0: "lsa_find_attr l0 t k = None" for t k by (simp add: lsa_find_attr_def lsa_attr_set_find_attr_def l0_def)
  have w0: "lsa_wf l0 \<and> list_all attr_filled (lsa_root l0) \<and> path_unsigned l0 \<and> lsa_id l0 = keyid \<and> lsa_ptr l0 = p \<and> lsa_bytes l0 \<le> 42"
    using keyid by (simp add: l0_def lsa_wf_def path_unsigned_def MAX_SERIALISED_INT_LEN_def NODE_ID_LEN_def)
  have one: "?rc p = 1" by simp
  obtain l1 where l1: "lsa_add_attr ?rc l0 LSA_ATTR_TYPE_ADV_PATH False [] [] = Inr (0, l1)"
    "lsa_wf l1 \<and> list_all attr_filled (lsa_root l1) \<and> path_unsigned l1 \<and> lsa_id l1 = keyid \<and> lsa_ptr l1 = p \<and> lsa_bytes l1 \<le> 42 + 4200"
    "\<And>t k. length k \<le> 65536 \<Longrightarrow> lsa_find_attr l1 t k =
       (if t = LSA_ATTR_TYPE_ADV_PATH \<and> k = [] then Some (Lsa_attr LSA_ATTR_TYPE_ADV_PATH False [] (Attr_bytes [])) else None)"
    by (rule add_new [where s = False and rc = ?rc, OF w0 one, of LSA_ATTR_TYPE_ADV_PATH "[]"]) (simp_all add: f0)
  obtain l2 where l2: "(case name of None \<Rightarrow> Inr l1
      | Some n \<Rightarrow> obind (lsa_add_attr ?rc l1 LSA_ATTR_TYPE_NODE_NAME True [] n) (\<lambda>(_, me). Inr me)) = Inr l2"
    "lsa_wf l2 \<and> list_all attr_filled (lsa_root l2) \<and> path_unsigned l2 \<and> lsa_id l2 = keyid \<and> lsa_ptr l2 = p \<and> lsa_bytes l2 \<le> 42 + 4200 + 4200"
    "\<And>t k. length k \<le> 65536 \<Longrightarrow> t \<noteq> LSA_ATTR_TYPE_NODE_NAME \<Longrightarrow> lsa_find_attr l2 t k = lsa_find_attr l1 t k"
  proof (cases name)
    case (Some n)
    show ?thesis
      by (rule add_new [where s = True and rc = ?rc, OF l1(2) one, of LSA_ATTR_TYPE_NODE_NAME n])
        (use that Some name in \<open>simp_all add: l1(3) lsa_type_defs\<close>)
  qed (use that l1 in simp)
  let ?v = "push_bit 8 (now + 1)"
  obtain l3 where l3: "lsa_add_attr ?rc l2 LSA_ATTR_TYPE_VERSION True [] (put_version ?v) = Inr (0, l3)"
    "lsa_wf l3 \<and> list_all attr_filled (lsa_root l3) \<and> path_unsigned l3 \<and> lsa_id l3 = keyid \<and> lsa_ptr l3 = p \<and> lsa_bytes l3 \<le> 42 + 4200 + 4200 + 4200"
    "\<And>t k. length k \<le> 65536 \<Longrightarrow> lsa_find_attr l3 t k = (if t = LSA_ATTR_TYPE_VERSION \<and> k = [] then
       Some (Lsa_attr LSA_ATTR_TYPE_VERSION True [] (Attr_bytes (put_version ?v))) else lsa_find_attr l2 t k)"
    by (rule add_new [where s = True and rc = ?rc, OF l2(2) one, of LSA_ATTR_TYPE_VERSION "put_version ?v"])
      (simp_all add: l1(3) l2(3) lsa_type_defs)
  obtain pk where pk: "sg_pubkey sg = Some pk" "length pk \<le> 4096" using sg by (auto simp: signer_ok_def)
  obtain l4 where l4: "lsa_add_attr ?rc l3 LSA_ATTR_TYPE_PUBKEY True [] pk = Inr (0, l4)"
    "lsa_wf l4 \<and> list_all attr_filled (lsa_root l4) \<and> path_unsigned l4 \<and> lsa_id l4 = keyid \<and> lsa_ptr l4 = p \<and> lsa_bytes l4 \<le> 42 + 4200 + 4200 + 4200 + 4200"
    "\<And>t k. length k \<le> 65536 \<Longrightarrow> lsa_find_attr l4 t k = (if t = LSA_ATTR_TYPE_PUBKEY \<and> k = [] then
       Some (Lsa_attr LSA_ATTR_TYPE_PUBKEY True [] (Attr_bytes pk)) else lsa_find_attr l3 t k)"
    by (rule add_new [where s = True and rc = ?rc, OF l3(2) one, of LSA_ATTR_TYPE_PUBKEY pk])
      (use pk(2) in \<open>simp_all add: l1(3) l2(3) l3(3) lsa_type_defs\<close>)
  have b4: "my_base sg keyid l4" "lsa_bytes l4 \<le> 60000" "?rc (lsa_ptr l4) = 1" "lsa_filled l4" "lsa_wf l4" "lsa_bytes l4 \<le> 65000"
    using l4(2,3) l3(3) l2(3) l1(3) pk(1) by (simp_all add: my_base_def lsa_filled_def lsa_type_defs)
  from lsa_sign_result [where rc = ?rc, OF sg b4(4,3,6)] obtain me sig where
    me: "lsa_sign sg ?rc l4 = Inr me" "sg_sign sg (lsa_enc True None me) = Some sig" "length sig \<le> 4096"
      "root_upd LSA_ATTR_TYPE_SIGNATURE [] (Some (Lsa_attr LSA_ATTR_TYPE_SIGNATURE False [] (Attr_bytes sig))) l4 me" by blast
  have base: "my_base sg keyid me"
    by (rule root_upd_base [OF me(4) b4(1,2)]) (use me(3) in \<open>auto simp: MAX_SERIALISED_INT_LEN_def\<close>)
  note find = root_upd_find [OF me(4) b4(5)]
  have ok: "my_lsa_ok sg keyid me" using base me(2) find [of "[]"] by (simp add: my_lsa_ok_def)
  have ver: "lsa_get_version me = ?v"
    using find [of "[]"] l4(3) l3(3) by (simp add: lsa_get_version_def attr_is_signed_bytes_def version_put lsa_type_defs)
  have "lsa_find_attr me LSA_ATTR_TYPE_PEER k = None" for k
  proof (cases "length k \<le> 65536")
    case True
    then show ?thesis using find [of k] l4(3) l3(3) l2(3) l1(3) by (simp add: lsa_type_defs)
  qed (simp add: lsa_find_attr_def lsa_attr_set_find_attr_def)
  then have peers: "\<forall>k. lsa_get_peer_info me k = None" by (simp add: lsa_get_peer_info_def)
  have ptr: "lsa_ptr me = p" using me(4) l4(2) by (simp add: root_upd_def)
  have rt: "routable me" "loc_held rib (lsa_ptr me) = 0" using base rib(2) ptr by (auto simp: routable_def my_base_def path_of_def)
  from loc_add_client [where rc = ?rc, OF rib(1) rt] obtain rc' rib' where
    add: "loc_rib_add_lsa me (?rc, rib) = Inr (rc', rib')" "loc_inv rib'" "loc_lsas rib' = insert me (loc_lsas rib)"
      "\<And>q. rc' q - loc_held rib' q = ?rc q - loc_held rib q" by blast
  have "mylsa_init sg now (Some p) keyid name (rc, rib) = Inr (me, rc', rib')"
    using l1(1) l2(1) l3(1) l4(1) pk(1) me(1) add(1)
    by (simp add: mylsa_init_def alloc lsa_initial_version_def lsa_add_version_def lsa_add_pubkey_def)
  with ok ver peers add rib(3) ptr show ?thesis by auto
qed


theorem mylsa_init_correct_witness:
  "\<exists>me rc' rib'. mylsa_init sample_signer 5 (Some 2) (replicate 32 7) (Some [100, 118])
       (\<lambda>_. 0, \<lparr>lr_myid = Some (replicate 32 7), lr_ids = [], lr_recompute = False, lr_listeners = []\<rparr>) = Inr (me, rc', rib') \<and>
     my_lsa_ok sample_signer (replicate 32 7) me \<and> lsa_get_version me = 1536 \<and> loc_lsas rib' = {me}"
  using mylsa_init_correct [OF sample_signer_ok, of "replicate 32 7" "Some [100, 118]"
      "\<lparr>lr_myid = Some (replicate 32 7), lr_ids = [], lr_recompute = False, lr_listeners = []\<rparr>" 2 "\<lambda>_. 0" 5]
  by (auto simp: NODE_ID_LEN_def loc_inv_def loc_lsas_def loc_bests_def loc_held_def)

section \<open>The neighbours\<close>

lemma attr_image_id: "attr_image False None a = a"
  by (induction a rule: lsa_attr_induct) (simp_all add: map_idI)

lemma attrs_image_find:
  "lsa_attr_set_find_attr (attrs_image False preid as) t k =
     map_option (attr_image False (if t = LSA_ATTR_TYPE_ADV_PATH then preid else None)) (lsa_attr_set_find_attr as t k)"
proof (cases "length k \<le> 65536")
  case True
  have "avl_find (\<lambda>a. lsa_attr_compare_keys t k (attr_type a) (attr_key a)) (attrs_image False preid as) =
      map_option (attr_image False (if t = LSA_ATTR_TYPE_ADV_PATH then preid else None))
        (avl_find (\<lambda>a. lsa_attr_compare_keys t k (attr_type a) (attr_key a)) as)"
    by (induction as)
      (auto simp: attrs_image_def compare_key_attr [of t k _ True "Attr_bytes []"] compare_attr_keys_eq_0)
  with True show ?thesis by (simp add: lsa_attr_set_find_attr_def)
qed (simp add: lsa_attr_set_find_attr_def)

lemma image_find:
  "lsa_find_attr (lsa_image False preid l) t k =
     map_option (attr_image False (if t = LSA_ATTR_TYPE_ADV_PATH then preid else None)) (lsa_find_attr l t k)"
  by (simp add: lsa_find_attr_def lsa_image_def attrs_image_find)

text \<open>The id of the node is all that a message adds.\<close>

lemma image_no_path:
  "\<forall>a \<in> set as. attr_type a \<noteq> LSA_ATTR_TYPE_ADV_PATH \<Longrightarrow> attrs_image False p as = as"
  by (induction as) (simp_all add: attrs_image_def attr_image_id)

lemma image_total:
  assumes "avl_ordered compare_attr_keys as" "\<forall>a \<in> set as. attr_type a = LSA_ATTR_TYPE_ADV_PATH \<longrightarrow> a = my_path" "my_path \<in> set as"
  shows "attrs_total (attrs_image False (Some p) as) = attrs_total as + length p"
  using assms
proof (induction as)
  case (Cons a as)
  show ?case
  proof (cases "a = my_path")
    case True
    have "attr_type b \<noteq> LSA_ATTR_TYPE_ADV_PATH" if "b \<in> set as" for b
    proof
      assume "attr_type b = LSA_ATTR_TYPE_ADV_PATH"
      with that Cons.prems True have "compare_attr_keys my_path my_path < 0" by auto
      then show False using compare_attr_keys_eq_0 [of my_path my_path] by simp
    qed
    then have "attrs_image False (Some p) (a # as) = Lsa_attr LSA_ATTR_TYPE_ADV_PATH False [] (Attr_bytes p) # as"
      using image_no_path [of as "Some p"] by (simp add: True my_path_def attrs_image_def)
    then show ?thesis by (simp add: True my_path_def)
  next
    case False
    then have "attr_type a \<noteq> LSA_ATTR_TYPE_ADV_PATH" "my_path \<in> set as" using Cons.prems by auto
    then show ?thesis using Cons by (simp add: attrs_image_def attr_image_id)
  qed
qed simp

lemma image_bytes:
  assumes "my_base sg keyid l"
  shows "lsa_bytes (lsa_image False (Some keyid) l) = lsa_bytes l + NODE_ID_LEN"
proof -
  have l: "lsa_wf l" "lsa_id l = keyid" "path_unsigned l"
    "lsa_find_attr l LSA_ATTR_TYPE_ADV_PATH [] = Some my_path"
    using assms by (simp_all add: my_base_def lsa_filled_def my_path_def)
  then have "my_path \<in> set (lsa_root l)" by (auto simp: lsa_find_attr_def dest: find_attr_SomeD)
  with l image_total [of "lsa_root l" keyid] show ?thesis
    by (auto simp: lsa_image_def lsa_wf_def attrs_ok_def path_unsigned_def)
qed

text \<open>What a message does to the path of an LSA leaves the signed bytes alone.\<close>

lemma image_signed_bytes:
  assumes "lsa_find_attr l LSA_ATTR_TYPE_ADV_PATH [] = Some (Lsa_attr LSA_ATTR_TYPE_ADV_PATH False [] d)"
    and "lsa_wf l" "path_unsigned l"
  shows "lsa_enc True None (lsa_image False preid l) = lsa_enc True None l"
proof (rule enc_signed_eq)
  show "{a \<in> set (lsa_root (lsa_image False preid l)). attr_signed a} = {a \<in> set (lsa_root l). attr_signed a}"
    using assms(3) by (force simp: path_unsigned_def my_path_def lsa_image_def attrs_image_def attr_image_id)
  show "lsa_wf (lsa_image False preid l)" using assms(2) by (rule lsa_image_wf)
  show "lsa_id (lsa_image False preid l) = lsa_id l" by (simp add: lsa_image_def)
qed (rule assms(2))

lemma accepted_result:
  assumes ok: "my_lsa_ok sg keyid l"
    and size: "lsa_bytes (lsa_image False (Some keyid) l) + NODE_ID_LEN \<le> LSA_MAX_BYTES"
    and cr: "crypto_ok cr" "pubkey_init cr" "sg_pubkey sg = Some pk" "sha256 cr pk = keyid" "pubkey_import cr pk = Some key"
      "\<And>x sig. sg_sign sg x = Some sig \<Longrightarrow> pubkey_verify cr key x sig"
    and rib: "ids_ok rib" "ai_remoteid rib = Some keyid" "ai_myid rib \<noteq> Some keyid"
  shows "adj_map cr rib (Some (lsa_image False (Some keyid) l)) = Inr (Some (lsa_image False (Some keyid) l))"
proof -
  let ?l = "lsa_image False (Some keyid) l"
  have l: "lsa_wf l" "lsa_id l = keyid" and path: "path_unsigned l"
    and find: "lsa_find_attr l LSA_ATTR_TYPE_ADV_PATH [] = Some (Lsa_attr LSA_ATTR_TYPE_ADV_PATH False [] (Attr_bytes []))"
    "lsa_find_attr l LSA_ATTR_TYPE_PUBKEY [] = Some (Lsa_attr LSA_ATTR_TYPE_PUBKEY True [] (Attr_bytes pk))"
    using ok cr(3) by (auto simp: my_lsa_ok_def my_base_def lsa_filled_def)
  obtain sig where sig: "sg_sign sg (lsa_enc True None l) = Some sig"
    "lsa_find_attr l LSA_ATTR_TYPE_SIGNATURE [] = Some (Lsa_attr LSA_ATTR_TYPE_SIGNATURE False [] (Attr_bytes sig))"
    using ok by (auto simp: my_lsa_ok_def)
  have len: "length keyid = NODE_ID_LEN" using l(1,2) by (simp add: lsa_wf_def)
  then have ids: "path_ids keyid = [keyid]" using path_ids_append [of keyid "[]"] by simp
  have "lsa_path_valid rib ?l"
    using rib(2,3) len ids by (auto simp: lsa_path_valid_def path_of_def image_find find(1))
  moreover have "lsa_signed cr ?l"
  proof -
    have "lsa_find_attr ?l LSA_ATTR_TYPE_PUBKEY [] = Some (Lsa_attr LSA_ATTR_TYPE_PUBKEY True [] (Attr_bytes pk))"
      "lsa_find_attr ?l LSA_ATTR_TYPE_SIGNATURE [] = Some (Lsa_attr LSA_ATTR_TYPE_SIGNATURE False [] (Attr_bytes sig))"
      unfolding image_find find(2) sig(2) by (simp_all add: lsa_type_defs)
    moreover have "lsa_id ?l = keyid" using l(2) by (simp add: lsa_image_def)
    ultimately show ?thesis
      using cr sig(1) unfolding lsa_signed_def image_signed_bytes [OF find(1) l(1) path] by (simp add: attr_raw_def)
  qed
  ultimately have "lsa_valid cr rib ?l" using size by (simp add: lsa_valid_def)
  then show ?thesis using adj_map_eq [OF lsa_image_wf [OF l(1)] cr(1) rib(1)] by simp
qed

text \<open>
  C10: the neighbours take what the node publishes if and only if it is not too large: the LSA that
  \<^verbatim>\<open>mylsa_add_peer\<close> or \<^verbatim>\<open>mylsa_del_peer\<close> leaves (the LSA before has at most 40000 bytes, \<open>my_pre\<close>), put into a
  message with the node's id at the front of its path, passes \<^verbatim>\<open>map\<close> of \<^verbatim>\<open>adj_rib_in.c\<close> at every neighbour with
  another id exactly when its size, with room for two ids on the path, is at most \<^verbatim>\<open>LSA_MAX_BYTES\<close>, when the id of
  the node is the digest of its public key, and the key a neighbour imports verifies what the node's key signs.
  The node does not look at the size: with enough peers it publishes an LSA that every neighbour refuses.
\<close>

theorem my_lsa_accepted:
  assumes "my_pre sg keyid p me rc rib" "length nid = NODE_ID_LEN"
    and "mylsa_add_peer sg now (Some p) nid type cost (me, rc, rib) = Inr (l, rc', rib') \<or>
      mylsa_del_peer sg now (Some p) nid (me, rc, rib) = Inr (l, rc', rib')"
    and "crypto_ok cr" "pubkey_init cr" "sg_pubkey sg = Some pk" "sha256 cr pk = keyid" "pubkey_import cr pk = Some key"
      "\<And>x sig. sg_sign sg x = Some sig \<Longrightarrow> pubkey_verify cr key x sig"
    and "ids_ok adj" "ai_remoteid adj = Some keyid" "ai_myid adj \<noteq> Some keyid"
  shows "adj_map cr adj (Some (lsa_image False (Some keyid) l)) =
    Inr (if lsa_bytes l + 2 * NODE_ID_LEN \<le> LSA_MAX_BYTES then Some (lsa_image False (Some keyid) l) else None)"
proof -
  let ?l = "lsa_image False (Some keyid) l"
  have ok: "my_lsa_ok sg keyid l"
    using add_peer_result [OF assms(1,2), of type now cost] del_peer_result [OF assms(1,2), of now] assms(3)
    by (auto simp: my_post_def split: if_split_asm)
  then have bytes: "lsa_bytes ?l = lsa_bytes l + NODE_ID_LEN" and wf: "lsa_wf l"
    using image_bytes [of sg keyid l] by (auto simp: my_lsa_ok_def my_base_def lsa_filled_def)
  show ?thesis
  proof (cases "lsa_bytes ?l + NODE_ID_LEN \<le> LSA_MAX_BYTES")
    case True
    with accepted_result [OF ok True assms(4-12)] bytes show ?thesis by simp
  next
    case False
    then have "\<not> lsa_valid cr adj ?l" by (simp add: lsa_valid_def)
    with adj_map_eq [OF lsa_image_wf [OF wf] assms(4) assms(10)] False bytes show ?thesis by simp
  qed
qed

definition sample_neighbour :: "unit adj_rib_in" where
  "sample_neighbour = \<lparr>ai_myid = Some (replicate 32 3), ai_remoteid = Some (replicate 32 7), ai_lsas = [], ai_size = 0,
     ai_listeners = []\<rparr>"

definition sample_verifier :: "unit crypto" where
  "sample_verifier = \<lparr>sha256 = (\<lambda>x. replicate 32 7), pubkey_init = True,
     pubkey_import = (\<lambda>x. if x = [9] then Some () else None),
     pubkey_verify = (\<lambda>_ x sig. sig = [word_of_nat (length x)]), set_image = (\<lambda>_. [])\<rparr>"

theorem my_lsa_accepted_witness:
  "\<exists>l w. mylsa_del_peer sample_signer 5 (Some 2) (replicate 32 2) (my_sample 3, (\<lambda>_. 0)(3 := 2), my_sample_rib) = Inr (l, w) \<and>
     adj_map sample_verifier sample_neighbour (Some (lsa_image False (Some (replicate 32 7)) l)) =
       Inr (Some (lsa_image False (Some (replicate 32 7)) l))"
proof -
  have listed: "lsa_find_attr (my_sample 3) LSA_ATTR_TYPE_PEER (replicate 32 2) \<noteq> None"
    by (simp add: LSA_ATTR_TYPE_PEER_def my_sample_find)
  have len: "length (replicate 32 (2 :: byte)) = NODE_ID_LEN" by (simp add: NODE_ID_LEN_def)
  from del_peer_result [OF my_sample_pre len, of 5, unfolded if_P [OF listed]] obtain l rc' rib' where
    l: "mylsa_del_peer sample_signer 5 (Some 2) (replicate 32 2) (my_sample 3, (\<lambda>_. 0)(3 := 2), my_sample_rib) = Inr (l, rc', rib')"
      "lsa_bytes l \<le> lsa_bytes (my_sample 3) + 10000"
    by (auto simp: my_post_def)
  have "adj_map sample_verifier sample_neighbour (Some (lsa_image False (Some (replicate 32 7)) l)) =
      Inr (if lsa_bytes l + 2 * NODE_ID_LEN \<le> LSA_MAX_BYTES then Some (lsa_image False (Some (replicate 32 7)) l) else None)"
    by (rule my_lsa_accepted [OF my_sample_pre len disjI2 [OF l(1)], where pk = "[9]" and key = "()"])
      (auto simp: crypto_ok_def ids_ok_def id_ok_def NODE_ID_LEN_def sample_signer_def sample_verifier_def
        sample_neighbour_def)
  moreover have "lsa_bytes l + 2 * NODE_ID_LEN \<le> LSA_MAX_BYTES"
    using l(2) by (simp add: my_sample_def NODE_ID_LEN_def LSA_MAX_BYTES_def)
  ultimately show ?thesis using l(1) by auto
qed

end
