(* ===== verification/Event_Loop.thy ===== *)
theory Event_Loop
  imports Util
begin

text \<open>
  What the components that are run by the event loop of ivykis share: the outcome of a handler,
  with the misuses of the event loop and of pointers as faults, and the system calls, with the
  descriptors that are open after them.
\<close>

section \<open>Handlers\<close>

text \<open>
  ivykis stops the process when a timer or descriptor is registered twice, or unregistered
  when it is not registered: \<open>Iv_fatal\<close>.  \<open>Dangling\<close> is the use of an object that is not
  allocated or not in the list it is taken from.  \<open>Called\<close> is a fault of the code that is called.
\<close>

datatype handler_fault = Iv_fatal | Dangling | Called fault

type_synonym 'a handled = "handler_fault + 'a"

definition hbind :: "'a handled \<Rightarrow> ('a \<Rightarrow> 'b handled) \<Rightarrow> 'b handled" where
  "hbind m f = (case m of Inl e \<Rightarrow> Inl e | Inr x \<Rightarrow> f x)"

definition called :: "'a outcome \<Rightarrow> 'a handled" where
  "called m = (case m of Inl e \<Rightarrow> Inl (Called e) | Inr x \<Rightarrow> Inr x)"

lemma hbind_simps [simp]: "hbind (Inl e) f = Inl e" "hbind (Inr x) f = f x"
  by (simp_all add: hbind_def)

lemma hbind_eq_Inr [simp]: "hbind m f = Inr y \<longleftrightarrow> (\<exists>x. m = Inr x \<and> f x = Inr y)"
  by (cases m) simp_all

lemma hbind_fatal [simp]: "hbind m f = Inl Iv_fatal \<longleftrightarrow> m = Inl Iv_fatal \<or> (\<exists>x. m = Inr x \<and> f x = Inl Iv_fatal)"
  by (cases m) simp_all

lemma called_simps [simp]: "called m \<noteq> Inl Iv_fatal" "called m = Inr x \<longleftrightarrow> m = Inr x" "called (Inr x) = Inr x"
  by (cases m; simp add: called_def)+

text \<open>A handler that does not misuse the event loop or its pointers, and leaves a state with \<open>P\<close>.\<close>

definition safe :: "('a \<Rightarrow> bool) \<Rightarrow> 'a handled \<Rightarrow> bool" where
  "safe P m \<longleftrightarrow> (case m of Inr x \<Rightarrow> P x | Inl (Called f) \<Rightarrow> True | Inl _ \<Rightarrow> False)"

lemma safe_simps [simp]: "safe P (Inr x) \<longleftrightarrow> P x" "\<not> safe P (Inl Iv_fatal)" "\<not> safe P (Inl Dangling)" "safe P (Inl (Called e))"
  by (simp_all add: safe_def)

lemma safe_bind: "safe Q m \<Longrightarrow> (\<And>x. m = Inr x \<Longrightarrow> Q x \<Longrightarrow> safe P (f x)) \<Longrightarrow> safe P (hbind m f)"
  by (cases m) (auto simp: safe_def)

lemma safe_called: "safe P (called m) \<longleftrightarrow> (\<forall>x. m = Inr x \<longrightarrow> P x)"
  by (cases m) (simp_all add: called_def)

lemma safe_Inr: "safe P m \<Longrightarrow> m = Inr x \<Longrightarrow> P x"
  by simp

lemma safe_fatal: "safe P m \<Longrightarrow> m \<noteq> Inl Iv_fatal"
  by auto

text \<open>An object is read through its address.\<close>

definition deref :: "'a option \<Rightarrow> 'a handled" where
  "deref x = (case x of Some y \<Rightarrow> Inr y | None \<Rightarrow> Inl Dangling)"

lemma hbind_assoc: "hbind (hbind m f) g = hbind m (\<lambda>x. hbind (f x) g)"
  by (cases m) simp_all

lemma safe_mono: "safe P m \<Longrightarrow> (\<And>x. P x \<Longrightarrow> Q x) \<Longrightarrow> safe Q m"
  by (auto simp: safe_def split: sum.splits handler_fault.splits)

lemma safe_cases: "safe (\<lambda>x. x = y) m \<Longrightarrow> m = Inr y \<or> (\<exists>f. m = Inl (Called f))"
proof (cases m)
  case (Inl e)
  then show "safe (\<lambda>x. x = y) m \<Longrightarrow> ?thesis" by (cases e) auto
qed simp

lemma deref_simps [simp]: "deref (Some x) = Inr x"
  by (simp add: deref_def)

section \<open>System calls\<close>

text \<open>The fields of \<^verbatim>\<open>struct sockaddr_in6\<close> that vary, and the system calls that are made.\<close>

record sockaddr_in6 =
  sin6_port :: int
  sin6_addr :: bytes
  sin6_scope_id :: int

datatype sys_call =
    Sys_socket int
  | Sys_bind int sockaddr_in6
  | Sys_connect int sockaddr_in6
  | Sys_connect_addr int sockaddr
  | Sys_close int

datatype connect_result = Connect_ok | Connect_in_progress | Connect_error

definition EINPROGRESS :: int where "EINPROGRESS = 115"

text \<open>The descriptors that are open after a sequence of system calls.\<close>

fun fds_after :: "sys_call \<Rightarrow> int set \<Rightarrow> int set" where
  "fds_after (Sys_socket fd) S = insert fd S"
| "fds_after (Sys_close fd) S = S - {fd}"
| "fds_after _ S = S"

definition open_fds :: "sys_call list \<Rightarrow> int set" where
  "open_fds cs = fold fds_after cs {}"

lemma open_fds_simps [simp]: "open_fds [] = {}" "open_fds (cs @ ds) = fold fds_after ds (open_fds cs)"
  by (simp_all add: open_fds_def)

end
