(* ===== verification/Tconn_Connect_One.thy ===== *)
theory Tconn_Connect_One
  imports Conf Event_Loop
begin

text \<open>
  \<^verbatim>\<open>src/tconn_connect_one.c\<close>: one attempt to connect to one address of a peer, through the TLS
  handshake to an encrypted connection that is kept alive, until it is lost.  What the system and
  the TLS session of \<^verbatim>\<open>tconn.c\<close> answer are arguments of the handlers.  Each handler ends
  with at most one call of its user, a notification; the user handles it in \<^verbatim>\<open>tconn_connect.c\<close>.
  The properties here: in each state exactly the resources of that state are in use, whatever
  the order of events, and which key ids are accepted.
\<close>

section \<open>The code\<close>

datatype tco_state = TCO_CONNECT | TCO_TLS_HANDSHAKE | TCO_CONNECTED | TCO_FAILED

text \<open>
  A timer is its expiry time while it is registered; \<open>tco_tconn\<close> tells whether the TLS session is
  started.  The bytes of \<open>tco_id\<close> are not set by the code before a fingerprint matches.
\<close>

record tconn_connect_one =
  tco_addr :: sockaddr
  tco_fp_type :: conf_fp_type
  tco_fingerprint :: bytes
  tco_cnameid :: "bytes option"
  tco_state :: tco_state
  tco_rx_timeout :: "timespec option"
  tco_fd :: int
  tco_fd_registered :: bool
  tco_tconn :: bool
  tco_id :: bytes
  tco_keepalive_timer :: "timespec option"
  tco_calls :: "sys_call list"

text \<open>
  The answers while one handler runs: the descriptor of \<^verbatim>\<open>socket\<close>, the result of \<^verbatim>\<open>connect\<close>, the
  error that \<^verbatim>\<open>getsockopt\<close> reads, the results of \<^verbatim>\<open>tconn_start\<close> and \<^verbatim>\<open>tconn_record_send\<close>, a random
  number and the time.
\<close>

record tco_env =
  te_socket :: int
  te_connect :: connect_result
  te_sockerr :: "int option"
  te_start :: int
  te_send :: int
  te_clock :: "int \<times> timespec"

datatype tco_note = Note_failed | Note_connected bytes | Note_received bytes

definition CONNECT_TIMEOUT :: int where "CONNECT_TIMEOUT = 10"
definition HANDSHAKE_TIMEOUT :: int where "HANDSHAKE_TIMEOUT = 15"
definition KEEPALIVE_INTERVAL :: int where "KEEPALIVE_INTERVAL = 15"
definition KEEPALIVE_TIMEOUT :: int where "KEEPALIVE_TIMEOUT = 20"

text \<open>Timers of ivykis, as functions on the expiry time.\<close>

definition timer_register :: "timespec \<Rightarrow> timespec option \<Rightarrow> timespec option handled" where
  "timer_register t timer = (if timer = None then Inr (Some t) else Inl Iv_fatal)"

definition timer_unregister :: "timespec option \<Rightarrow> timespec option handled" where
  "timer_unregister timer = (if timer = None then Inl Iv_fatal else Inr None)"

text \<open>
  \<^verbatim>\<open>IV_TIMER_INIT\<close> overwrites the place of the timer in the event loop; when the timer is
  registered the event loop is left with an entry for it that is wrong.
\<close>

definition timer_init :: "timespec option \<Rightarrow> timespec option handled" where
  "timer_init timer = (if timer = None then Inr None else Inl Iv_fatal)"

definition expiry :: "tco_env \<Rightarrow> int \<Rightarrow> int \<Rightarrow> timespec" where
  "expiry env minms maxms = timespec_add_ms (fst (te_clock env)) (snd (te_clock env)) minms maxms"

definition tco_start_rx :: "tco_env \<Rightarrow> int \<Rightarrow> tconn_connect_one \<Rightarrow> tconn_connect_one handled" where
  "tco_start_rx env secs tco =
     hbind (timer_register (expiry env (1000 * secs) (1000 * secs)) (tco_rx_timeout tco)) (\<lambda>t.
     Inr (tco\<lparr>tco_rx_timeout := t\<rparr>))"

definition tco_stop_rx :: "tconn_connect_one \<Rightarrow> tconn_connect_one handled" where
  "tco_stop_rx tco = hbind (timer_unregister (tco_rx_timeout tco)) (\<lambda>t. Inr (tco\<lparr>tco_rx_timeout := t\<rparr>))"

definition tco_start_keepalive :: "int \<Rightarrow> timespec \<Rightarrow> tconn_connect_one \<Rightarrow> tconn_connect_one handled" where
  "tco_start_keepalive rnd base tco =
     hbind (timer_register (timespec_add_ms rnd base (900 * KEEPALIVE_INTERVAL) (1100 * KEEPALIVE_INTERVAL))
       (tco_keepalive_timer tco)) (\<lambda>t.
     Inr (tco\<lparr>tco_keepalive_timer := t\<rparr>))"

definition tco_stop_keepalive :: "tconn_connect_one \<Rightarrow> tconn_connect_one handled" where
  "tco_stop_keepalive tco =
     hbind (timer_unregister (tco_keepalive_timer tco)) (\<lambda>t. Inr (tco\<lparr>tco_keepalive_timer := t\<rparr>))"

definition tco_sys :: "sys_call \<Rightarrow> tconn_connect_one \<Rightarrow> tconn_connect_one" where
  "tco_sys call tco = tco\<lparr>tco_calls := tco_calls tco @ [call]\<rparr>"

definition tco_fd_unregister :: "tconn_connect_one \<Rightarrow> tconn_connect_one handled" where
  "tco_fd_unregister tco = (if tco_fd_registered tco then Inr (tco\<lparr>tco_fd_registered := False\<rparr>) else Inl Iv_fatal)"

definition tco_tconn_destroy :: "tconn_connect_one \<Rightarrow> tconn_connect_one handled" where
  "tco_tconn_destroy tco = (if tco_tconn tco then Inr (tco\<lparr>tco_tconn := False\<rparr>) else Inl Dangling)"

definition tco_state_destroy :: "tconn_connect_one \<Rightarrow> tconn_connect_one handled" where
  "tco_state_destroy tco =
     hbind (if tco_rx_timeout tco \<noteq> None then tco_stop_rx tco else Inr tco) (\<lambda>tco.
     hbind (if tco_state tco = TCO_TLS_HANDSHAKE \<or> tco_state tco = TCO_CONNECTED then tco_tconn_destroy tco else Inr tco) (\<lambda>tco.
     hbind (if tco_state tco = TCO_CONNECT \<or> tco_state tco = TCO_TLS_HANDSHAKE \<or> tco_state tco = TCO_CONNECTED
            then hbind (tco_fd_unregister tco) (\<lambda>tco. Inr (tco_sys (Sys_close (tco_fd tco)) tco)) else Inr tco) (\<lambda>tco.
     if tco_state tco = TCO_CONNECTED then tco_stop_keepalive tco else Inr tco)))"

text \<open>\<^verbatim>\<open>connection_failed\<close>, and the handlers that only call it.\<close>

definition tco_connection_failed :: "tconn_connect_one \<Rightarrow> (tconn_connect_one \<times> tco_note option) handled" where
  "tco_connection_failed tco =
     hbind (tco_state_destroy tco) (\<lambda>tco. Inr (tco\<lparr>tco_state := TCO_FAILED\<rparr>, Some Note_failed))"

definition tco_rx_timeout_expired :: "tconn_connect_one \<Rightarrow> (tconn_connect_one \<times> tco_note option) handled" where
  "tco_rx_timeout_expired tco = tco_connection_failed tco"

definition tco_connection_lost :: "tconn_connect_one \<Rightarrow> (tconn_connect_one \<times> tco_note option) handled" where
  "tco_connection_lost tco = tco_connection_failed tco"

text \<open>\<open>ids\<close> are the \<open>num\<close> ids of 32 bytes each, one after the other; the loops look for one of them.\<close>

fun find_id :: "bytes \<Rightarrow> bytes \<Rightarrow> nat \<Rightarrow> bool" where
  "find_id wanted ids 0 = False"
| "find_id wanted ids (Suc num) =
     (memcmp wanted (take NODE_ID_LEN ids) = 0 \<or> find_id wanted (drop NODE_ID_LEN ids) num)"

definition verify_key_ids :: "bytes \<Rightarrow> nat \<Rightarrow> tconn_connect_one \<Rightarrow> int \<times> tconn_connect_one" where
  "verify_key_ids ids num tco =
     (if (\<exists>cn \<in> set_option (tco_cnameid tco). \<not> find_id cn ids num) then (1, tco)
      else if tco_cnameid tco \<noteq> None \<and> (tco_fp_type tco = CONF_FP_TYPE_ANY \<or> tco_fp_type tco = CONF_FP_TYPE_CNAME)
      then (0, tco)
      else if tco_fp_type tco = CONF_FP_TYPE_ANY then (0, tco)
      else if tco_fp_type tco = CONF_FP_TYPE_CNAME then (1, tco)
      else if find_id (tco_fingerprint tco) ids num then (0, tco\<lparr>tco_id := take NODE_ID_LEN ids\<rparr>)
      else (1, tco))"

text \<open>The next keepalive is counted from \<open>expires\<close>, the time this one was due.\<close>

definition tco_send_keepalive :: "tco_env \<Rightarrow> timespec \<Rightarrow> tconn_connect_one \<Rightarrow> (tconn_connect_one \<times> tco_note option) handled" where
  "tco_send_keepalive env expires tco =
     (if tco_state tco \<noteq> TCO_CONNECTED then Inl (Called Abort)
      else hbind (tco_start_keepalive (fst (te_clock env)) expires tco) (\<lambda>tco.
           if te_send env \<noteq> 0 then tco_connection_failed tco else Inr (tco, None)))"

definition tco_handshake_done :: "tco_env \<Rightarrow> tconn_connect_one \<Rightarrow> (tconn_connect_one \<times> tco_note option) handled" where
  "tco_handshake_done env tco =
     hbind (tco_stop_rx (tco\<lparr>tco_state := TCO_CONNECTED\<rparr>)) (\<lambda>tco.
     hbind (tco_start_rx env KEEPALIVE_TIMEOUT tco) (\<lambda>tco.
     hbind (timer_init (tco_keepalive_timer tco)) (\<lambda>t.
     hbind (tco_start_keepalive (fst (te_clock env)) (snd (te_clock env)) (tco\<lparr>tco_keepalive_timer := t\<rparr>)) (\<lambda>tco.
     Inr (tco, Some (Note_connected (tco_id tco)))))))"

definition tco_record_received :: "tco_env \<Rightarrow> bytes \<Rightarrow> tconn_connect_one \<Rightarrow> (tconn_connect_one \<times> tco_note option) handled" where
  "tco_record_received env r tco =
     hbind (tco_stop_rx tco) (\<lambda>tco.
     hbind (tco_start_rx env KEEPALIVE_TIMEOUT tco) (\<lambda>tco.
     Inr (tco, Some (Note_received r))))"

definition tco_start_handshake :: "tco_env \<Rightarrow> tconn_connect_one \<Rightarrow> (int \<times> tconn_connect_one) handled" where
  "tco_start_handshake env tco =
     (if te_start env < 0 then Inr (-1, tco)
      else hbind (tco_start_rx env HANDSHAKE_TIMEOUT (tco\<lparr>tco_tconn := True, tco_state := TCO_TLS_HANDSHAKE\<rparr>)) (\<lambda>tco.
           Inr (0, tco)))"

definition tco_connect_pollout :: "tco_env \<Rightarrow> tconn_connect_one \<Rightarrow> (tconn_connect_one \<times> tco_note option) handled" where
  "tco_connect_pollout env tco =
     (case te_sockerr env of
        None \<Rightarrow> Inr (tco, None)
      | Some ret \<Rightarrow>
          if ret = EINPROGRESS then Inr (tco, None)
          else hbind (tco_stop_rx tco) (\<lambda>tco.
            if ret \<noteq> 0 then tco_connection_failed tco
            else hbind (tco_start_handshake env tco) (\<lambda>(ret, tco).
              if ret \<noteq> 0 then tco_connection_failed tco else Inr (tco, None))))"

definition tconn_connect_one_connect :: "tco_env \<Rightarrow> tconn_connect_one \<Rightarrow> (int \<times> tconn_connect_one) handled" where
  "tconn_connect_one_connect env tco =
     (let tco = tco\<lparr>tco_state := TCO_CONNECT\<rparr>
      in hbind (timer_init (tco_rx_timeout tco)) (\<lambda>t.
         let tco = tco\<lparr>tco_rx_timeout := t\<rparr>; fd = te_socket env
         in if fd < 0 then Inr (-1, tco)
            else if tco_fd_registered tco then Inl Iv_fatal
            else let tco = tco_sys (Sys_socket fd) (tco\<lparr>tco_fd := fd, tco_fd_registered := True\<rparr>);
                     tco = tco_sys (Sys_connect_addr fd (tco_addr tco)) tco
            in case te_connect env of
                 Connect_error \<Rightarrow> hbind (tco_fd_unregister tco) (\<lambda>tco. Inr (-1, tco_sys (Sys_close fd) tco))
               | Connect_ok \<Rightarrow> hbind (tco_start_handshake env tco) (\<lambda>(ret, tco).
                   if ret \<noteq> 0 then hbind (tco_fd_unregister tco) (\<lambda>tco. Inr (-1, tco_sys (Sys_close fd) tco))
                   else Inr (0, tco))
               | Connect_in_progress \<Rightarrow> hbind (tco_start_rx env CONNECT_TIMEOUT tco) (\<lambda>tco. Inr (0, tco))))"

definition tconn_connect_one_disconnect :: "tconn_connect_one \<Rightarrow> tconn_connect_one handled" where
  "tconn_connect_one_disconnect tco = tco_state_destroy tco"

text \<open>\<open>tcpi_rtt\<close> and the segment size are what \<^verbatim>\<open>getsockopt\<close> reads, when it succeeds.\<close>

definition tconn_connect_one_get_rtt :: "nat option \<Rightarrow> tconn_connect_one \<Rightarrow> int" where
  "tconn_connect_one_get_rtt tcpi_rtt tco =
     (if tco_state tco \<noteq> TCO_CONNECTED then -1
      else case tcpi_rtt of None \<Rightarrow> -1 | Some r \<Rightarrow> int (r div 1000))"

definition tconn_connect_one_get_maxseg :: "int option \<Rightarrow> tconn_connect_one \<Rightarrow> int" where
  "tconn_connect_one_get_maxseg mseg tco =
     (if tco_state tco \<noteq> TCO_CONNECTED then -1 else case mseg of None \<Rightarrow> -1 | Some m \<Rightarrow> m)"

text \<open>
  The return value and the notification: the user is told that the connection has failed first,
  and then the function returns to the user.
\<close>

definition tconn_connect_one_record_send ::
  "tco_env \<Rightarrow> bytes \<Rightarrow> tconn_connect_one \<Rightarrow> (int \<times> tconn_connect_one \<times> tco_note option) handled" where
  "tconn_connect_one_record_send env r tco =
     (if tco_state tco \<noteq> TCO_CONNECTED then Inr (0, tco, None)
      else hbind (tco_stop_keepalive tco) (\<lambda>tco.
           hbind (tco_start_keepalive (fst (te_clock env)) (snd (te_clock env)) tco) (\<lambda>tco.
           if te_send env \<noteq> 0 then hbind (tco_connection_failed tco) (\<lambda>(tco, note). Inr (-1, tco, note))
           else Inr (0, tco, None))))"


section \<open>The machine\<close>

text \<open>
  The events of an attempt: one of its timers expires (ivykis has then unregistered it), its
  descriptor is writable while it connects, and what the TLS session reports while it is started: the ids
  in the certificates of the peer, the end of the handshake, a record, the loss of the connection.
\<close>

datatype tco_event =
    Tco_timeout
  | Tco_keepalive tco_env timespec
  | Tco_pollout tco_env
  | Tco_verify bytes nat
  | Tco_handshake tco_env
  | Tco_record tco_env bytes
  | Tco_lost

fun tco_enabled :: "tco_event \<Rightarrow> tconn_connect_one \<Rightarrow> bool" where
  "tco_enabled Tco_timeout tco \<longleftrightarrow> tco_rx_timeout tco \<noteq> None"
| "tco_enabled (Tco_keepalive env expires) tco \<longleftrightarrow> tco_keepalive_timer tco = Some expires"
| "tco_enabled (Tco_pollout env) tco \<longleftrightarrow> tco_fd_registered tco \<and> \<not> tco_tconn tco"
| "tco_enabled (Tco_verify ids num) tco \<longleftrightarrow> tco_tconn tco \<and> tco_state tco = TCO_TLS_HANDSHAKE"
| "tco_enabled (Tco_handshake env) tco \<longleftrightarrow> tco_tconn tco \<and> tco_state tco = TCO_TLS_HANDSHAKE"
| "tco_enabled (Tco_record env r) tco \<longleftrightarrow> tco_tconn tco \<and> tco_state tco = TCO_CONNECTED"
| "tco_enabled Tco_lost tco \<longleftrightarrow> tco_tconn tco"

fun tco_run :: "tco_event \<Rightarrow> tconn_connect_one \<Rightarrow> (tconn_connect_one \<times> tco_note option) handled" where
  "tco_run Tco_timeout tco = tco_rx_timeout_expired (tco\<lparr>tco_rx_timeout := None\<rparr>)"
| "tco_run (Tco_keepalive env expires) tco = tco_send_keepalive env expires (tco\<lparr>tco_keepalive_timer := None\<rparr>)"
| "tco_run (Tco_pollout env) tco = tco_connect_pollout env tco"
| "tco_run (Tco_verify ids num) tco = Inr (snd (verify_key_ids ids num tco), None)"
| "tco_run (Tco_handshake env) tco = tco_handshake_done env tco"
| "tco_run (Tco_record env r) tco = tco_record_received env r tco"
| "tco_run Tco_lost tco = tco_connection_lost tco"

text \<open>What is in use during an attempt, and after it.\<close>

definition tco_live :: "tconn_connect_one \<Rightarrow> bool" where
  "tco_live tco \<longleftrightarrow> tco_state tco \<noteq> TCO_FAILED \<and> tco_rx_timeout tco \<noteq> None \<and> tco_fd_registered tco \<and>
     (tco_tconn tco \<longleftrightarrow> tco_state tco \<noteq> TCO_CONNECT) \<and>
     (tco_keepalive_timer tco \<noteq> None \<longleftrightarrow> tco_state tco = TCO_CONNECTED) \<and> open_fds (tco_calls tco) = {tco_fd tco}"

definition tco_idle :: "tconn_connect_one \<Rightarrow> bool" where
  "tco_idle tco \<longleftrightarrow> tco_rx_timeout tco = None \<and> \<not> tco_fd_registered tco \<and> \<not> tco_tconn tco \<and>
     tco_keepalive_timer tco = None \<and> open_fds (tco_calls tco) = {}"

lemmas tco_defs = timer_register_def timer_unregister_def timer_init_def tco_start_rx_def tco_stop_rx_def
  tco_start_keepalive_def tco_stop_keepalive_def tco_sys_def tco_fd_unregister_def tco_tconn_destroy_def

lemma state_destroy_idle:
  assumes "tco_live tco \<or> tco_live (tco\<lparr>tco_rx_timeout := Some t\<rparr>) \<or> tco_idle tco \<and> tco_state tco = TCO_FAILED"
  shows "\<exists>tco'. tco_state_destroy tco = Inr tco' \<and> tco_idle tco' \<and> tco_state tco' = tco_state tco"
  using assms
  by (cases "tco_state tco"; cases "tco_rx_timeout tco"; cases "tco_keepalive_timer tco")
    (auto simp: tco_live_def tco_idle_def tco_state_destroy_def tco_defs)

lemma connection_failed_idle:
  assumes "tco_live tco \<or> tco_live (tco\<lparr>tco_rx_timeout := Some t\<rparr>)"
  shows "\<exists>tco'. tco_connection_failed tco = Inr (tco', Some Note_failed) \<and> tco_idle tco' \<and> tco_state tco' = TCO_FAILED"
proof -
  from state_destroy_idle [of tco t] assms obtain tco' where "tco_state_destroy tco = Inr tco'" "tco_idle tco'" by blast
  then show ?thesis by (simp add: tco_connection_failed_def tco_idle_def)
qed

lemma connect_cases:
  assumes "tco_idle tco"
  obtains ret tco' where "tconn_connect_one_connect env tco = Inr (ret, tco')"
    "if ret = 0 then tco_live tco' \<and> tco_state tco' \<noteq> TCO_CONNECTED else tco_idle tco'"
proof -
  have "case tconn_connect_one_connect env tco of
      Inr (ret, tco') \<Rightarrow> (if ret = 0 then tco_live tco' \<and> tco_state tco' \<noteq> TCO_CONNECTED else tco_idle tco') | Inl _ \<Rightarrow> False"
    using assms
    by (auto simp: tconn_connect_one_connect_def tco_start_handshake_def tco_idle_def tco_live_def tco_defs Let_def
        split: connect_result.split)
  with that show ?thesis by (auto split: sum.splits)
qed

text \<open>What an event leaves, and what it tells the user.\<close>

definition tco_result :: "tconn_connect_one \<Rightarrow> tconn_connect_one \<Rightarrow> tco_note option \<Rightarrow> bool" where
  "tco_result tco tco' note \<longleftrightarrow>
     (case note of
        Some Note_failed \<Rightarrow> tco_idle tco' \<and> tco_state tco' = TCO_FAILED
      | Some (Note_connected i) \<Rightarrow> tco_live tco' \<and> tco_state tco \<noteq> TCO_CONNECTED \<and> tco_state tco' = TCO_CONNECTED \<and> i = tco_id tco
      | Some (Note_received r) \<Rightarrow> tco_live tco' \<and> tco_state tco = TCO_CONNECTED \<and> tco_state tco' = TCO_CONNECTED
      | None \<Rightarrow> tco_live tco' \<and> (tco_state tco' = TCO_CONNECTED \<longleftrightarrow> tco_state tco = TCO_CONNECTED))"

lemma tco_event_result:
  assumes "tco_live tco" "tco_enabled ev tco"
  shows "\<exists>tco' note. tco_run ev tco = Inr (tco', note) \<and> tco_result tco tco' note"
proof (cases ev)
  case Tco_timeout
  from assms(1) obtain t where "tco_rx_timeout tco = Some t" by (auto simp: tco_live_def)
  then have "tco_live (tco\<lparr>tco_rx_timeout := None, tco_rx_timeout := Some t\<rparr>)" using assms(1) by (simp add: tco_live_def)
  from connection_failed_idle [OF disjI2 [OF this]] Tco_timeout show ?thesis
    by (auto simp: tco_rx_timeout_expired_def tco_result_def)
next
  case (Tco_keepalive env expires)
  with assms have s: "tco_state tco = TCO_CONNECTED" by (simp add: tco_live_def)
  let ?tco = "tco\<lparr>tco_keepalive_timer := Some (timespec_add_ms (fst (te_clock env)) expires
    (900 * KEEPALIVE_INTERVAL) (1100 * KEEPALIVE_INTERVAL))\<rparr>"
  have live: "tco_live ?tco" using assms(1) s by (simp add: tco_live_def)
  from connection_failed_idle [OF disjI1 [OF live]] obtain tco' where
    "tco_connection_failed ?tco = Inr (tco', Some Note_failed)" "tco_idle tco'" "tco_state tco' = TCO_FAILED" by blast
  with live s show ?thesis unfolding Tco_keepalive tco_run.simps
    by (simp add: tco_send_keepalive_def tco_start_keepalive_def timer_register_def tco_result_def)
next
  case (Tco_pollout env)
  with assms have s: "tco_state tco = TCO_CONNECT" by (simp add: tco_live_def)
  from assms(1) obtain t where t: "tco_rx_timeout tco = Some t" by (auto simp: tco_live_def)
  then have "tco_live (tco\<lparr>tco_rx_timeout := None, tco_rx_timeout := Some t\<rparr>)" using assms(1) by (simp add: tco_live_def)
  note f = connection_failed_idle [OF disjI2 [OF this]]
  have "tco_live (tco\<lparr>tco_rx_timeout := None, tco_tconn := True, tco_state := TCO_TLS_HANDSHAKE, tco_rx_timeout := Some t\<rparr>)" for t
    using assms(1) s by (simp add: tco_live_def)
  with f s t assms(1) Tco_pollout show ?thesis
    by (cases "te_sockerr env")
      (auto simp: tco_connect_pollout_def tco_stop_rx_def timer_unregister_def tco_start_handshake_def tco_start_rx_def
        timer_register_def tco_result_def)
next
  case (Tco_verify ids num)
  with assms show ?thesis by (auto simp: verify_key_ids_def tco_live_def tco_result_def)
next
  case (Tco_handshake env)
  with assms show ?thesis by (auto simp: tco_handshake_done_def tco_defs tco_live_def tco_result_def)
next
  case (Tco_record env r)
  with assms show ?thesis by (auto simp: tco_record_received_def tco_defs tco_live_def tco_result_def)
next
  case Tco_lost
  from connection_failed_idle [OF disjI1 [OF assms(1)]] Tco_lost show ?thesis
    by (auto simp: tco_connection_lost_def tco_result_def)
qed

lemma record_send_result:
  assumes "tco_live tco" "tco_state tco = TCO_CONNECTED"
  shows "\<exists>tco'. tconn_connect_one_record_send env r tco =
      Inr (if te_send env = 0 then (0, tco', None) else (-1, tco', Some Note_failed)) \<and>
    (if te_send env = 0 then tco_live tco' \<and> tco_state tco' = TCO_CONNECTED else tco_idle tco' \<and> tco_state tco' = TCO_FAILED)"
proof -
  let ?tco = "\<lambda>t. tco\<lparr>tco_keepalive_timer := None, tco_keepalive_timer := Some t\<rparr>"
  have live: "tco_live (?tco t)" for t using assms by (simp add: tco_live_def)
  have s: "tconn_connect_one_record_send env r tco =
      (if te_send env \<noteq> 0 then hbind (tco_connection_failed (?tco (timespec_add_ms (fst (te_clock env)) (snd (te_clock env))
          (900 * KEEPALIVE_INTERVAL) (1100 * KEEPALIVE_INTERVAL)))) (\<lambda>(tco, note). Inr (-1, tco, note))
       else Inr (0, ?tco (timespec_add_ms (fst (te_clock env)) (snd (te_clock env))
          (900 * KEEPALIVE_INTERVAL) (1100 * KEEPALIVE_INTERVAL)), None))"
    using assms by (auto simp: tconn_connect_one_record_send_def tco_stop_keepalive_def tco_start_keepalive_def
        timer_register_def timer_unregister_def tco_live_def)
  show ?thesis
    using live assms(2) connection_failed_idle [OF disjI1 [OF live]] unfolding s by (auto simp: KEEPALIVE_INTERVAL_def)
qed

section \<open>Which peers are accepted\<close>

definition key_ids :: "bytes \<Rightarrow> nat \<Rightarrow> bytes list" where
  "key_ids ids num = map (\<lambda>i. take NODE_ID_LEN (drop (i * NODE_ID_LEN) ids)) [0..<num]"

lemma key_ids_Suc: "key_ids ids (Suc num) = take NODE_ID_LEN ids # key_ids (drop NODE_ID_LEN ids) num"
  unfolding key_ids_def by (simp add: map_upt_Suc add.commute del: upt_Suc)

lemma find_id_iff:
  "length ids = num * NODE_ID_LEN \<Longrightarrow> length wanted = NODE_ID_LEN \<Longrightarrow>
   find_id wanted ids num \<longleftrightarrow> wanted \<in> set (key_ids ids num)"
  by (induction num arbitrary: ids) (simp_all add: key_ids_Suc memcmp_eq_0, simp add: key_ids_def)

text \<open>C31: a peer is accepted exactly when its ids contain the one in the canonical name of the host,
  if that has one, and, unless any peer will do or the canonical name decides, the configured fingerprint.
  Only in the last case the id of the peer is stored.\<close>

theorem verify_key_ids_policy:
  assumes "length ids = num * NODE_ID_LEN" "length (tco_fingerprint tco) = NODE_ID_LEN"
    and "\<And>cn. tco_cnameid tco = Some cn \<Longrightarrow> length cn = NODE_ID_LEN"
  shows "(fst (verify_key_ids ids num tco) = 0 \<longleftrightarrow>
      set_option (tco_cnameid tco) \<subseteq> set (key_ids ids num) \<and>
      (case tco_fp_type tco of
         CONF_FP_TYPE_ANY \<Rightarrow> True
       | CONF_FP_TYPE_CNAME \<Rightarrow> tco_cnameid tco \<noteq> None
       | CONF_FP_TYPE_MATCH \<Rightarrow> tco_fingerprint tco \<in> set (key_ids ids num))) \<and>
    snd (verify_key_ids ids num tco) =
      (if fst (verify_key_ids ids num tco) = 0 \<and> tco_fp_type tco = CONF_FP_TYPE_MATCH
       then tco\<lparr>tco_id := take NODE_ID_LEN ids\<rparr> else tco)"
proof -
  have "find_id cn ids num \<longleftrightarrow> cn \<in> set (key_ids ids num)" if "tco_cnameid tco = Some cn" for cn
    using find_id_iff assms(1,3) that by blast
  then show ?thesis
    using find_id_iff [OF assms(1,2)]
    by (cases "tco_cnameid tco"; cases "tco_fp_type tco") (auto simp: verify_key_ids_def)
qed

definition sample_tco :: tconn_connect_one where
  "sample_tco = \<lparr>tco_addr = \<lparr>ss_family = 2, ss_addr = [127, 0, 0, 1], ss_port = [0, 19]\<rparr>, tco_fp_type = CONF_FP_TYPE_CNAME,
     tco_fingerprint = replicate 32 9, tco_cnameid = Some (replicate 32 7), tco_state = TCO_FAILED, tco_rx_timeout = None,
     tco_fd = 0, tco_fd_registered = False, tco_tconn = False, tco_id = replicate 32 0, tco_keepalive_timer = None,
     tco_calls = []\<rparr>"

theorem verify_key_ids_policy_witness:
  "verify_key_ids (replicate 32 9 @ replicate 32 7) 2 sample_tco = (0, sample_tco)"
proof -
  have "replicate 32 7 \<in> set (key_ids (replicate 32 9 @ replicate 32 7) 2)"
    by (simp add: key_ids_def NODE_ID_LEN_def numeral_2_eq_2)
  with verify_key_ids_policy [of "replicate 32 9 @ replicate 32 7" 2 sample_tco] show ?thesis
    by (cases "verify_key_ids (replicate 32 9 @ replicate 32 7) 2 sample_tco")
      (auto simp: sample_tco_def NODE_ID_LEN_def)
qed

end
