(* ===== verification/Tconn_Connect.thy ===== *)
theory Tconn_Connect
  imports Tconn_Connect_One
begin

text \<open>
  \<^verbatim>\<open>src/tconn_connect.c\<close>: keeps a connection to a peer.  The name of the peer is resolved, its
  addresses are tried one after the other, and when there is none left or the connection is lost
  everything starts again after a while.  The members of the union in \<^verbatim>\<open>struct tconn_connect\<close>,
  of which each state uses its own, are fields of the record.  The properties: every state
  uses exactly its own resources, and two cases in which the code goes wrong.
\<close>

section \<open>The code\<close>

datatype tc_state = TC_RESOLVE | TC_CONNECT | TC_CONNECTED | TC_WAITING_RETRY

text \<open>
  What the user provides, on a state \<open>'u\<close> behind \<^verbatim>\<open>cookie\<close>; a connection is known to the user by
  the pointer \<open>'k\<close> that \<^verbatim>\<open>new_conn\<close> returns.
\<close>

record ('k, 'u) tc_user_ops =
  tu_new_conn :: "bytes \<Rightarrow> 'u \<Rightarrow> ('k option \<times> 'u) handled"
  tu_record_received :: "'k option \<Rightarrow> bytes \<Rightarrow> 'u \<Rightarrow> 'u handled"
  tu_disconnect :: "'k option \<Rightarrow> 'u \<Rightarrow> 'u handled"

text \<open>
  \<open>tc_addrinfo\<close> tells whether a name is being resolved, \<open>tc_res\<close> is the list the resolver has
  allocated (a canonical name, and addresses), \<open>tc_rp\<close> the part of it that is still to be tried.
\<close>

record ('k, 'u) tconn_connect =
  tc_fp_type :: conf_fp_type
  tc_fingerprint :: bytes
  tc_state :: tc_state
  tc_addrinfo :: bool
  tc_resolve_timeout :: "timespec option"
  tc_tco :: tconn_connect_one
  tc_res :: "(bytes option \<times> sockaddr list) option"
  tc_rp :: "sockaddr list"
  tc_cnameid :: bytes
  tc_conncookie :: "'k option"
  tc_retry_wait :: "timespec option"
  tc_user :: 'u

text \<open>
  The answers to one handler are a sequence: the first are for its own timers, the others for
  the attempts it makes.
\<close>

type_synonym tc_envs = "nat \<Rightarrow> tco_env"

definition RESOLVE_TIMEOUT :: int where "RESOLVE_TIMEOUT = 10"
definition SHORT_RETRY_WAIT_TIME :: int where "SHORT_RETRY_WAIT_TIME = 2"
definition LONG_RETRY_WAIT_TIME :: int where "LONG_RETRY_WAIT_TIME = 10"

definition schedule_retry ::
  "('k, 'u) tc_user_ops \<Rightarrow> tc_envs \<Rightarrow> int \<Rightarrow> ('k, 'u) tconn_connect \<Rightarrow> ('k, 'u) tconn_connect handled" where
  "schedule_retry ops envs waittime tc =
     hbind (if tc_state tc = TC_CONNECTED
            then hbind (tu_disconnect ops (tc_conncookie tc) (tc_user tc)) (\<lambda>u. Inr (tc\<lparr>tc_user := u\<rparr>)) else Inr tc) (\<lambda>tc.
     let tc = tc\<lparr>tc_state := TC_WAITING_RETRY\<rparr>
     in hbind (timer_init (tc_retry_wait tc)) (\<lambda>t.
        hbind (timer_register (expiry (envs 0) (900 * waittime) (1100 * waittime)) t) (\<lambda>t.
        Inr (tc\<lparr>tc_retry_wait := t\<rparr>))))"

definition tc_freeaddrinfo :: "('k, 'u) tconn_connect \<Rightarrow> ('k, 'u) tconn_connect handled" where
  "tc_freeaddrinfo tc = (if tc_res tc = None then Inl Dangling else Inr (tc\<lparr>tc_res := None\<rparr>))"

definition tc_disconnect :: "('k, 'u) tconn_connect \<Rightarrow> ('k, 'u) tconn_connect handled" where
  "tc_disconnect tc = hbind (tconn_connect_one_disconnect (tc_tco tc)) (\<lambda>tco. Inr (tc\<lparr>tc_tco := tco\<rparr>))"

definition tc_connected ::
  "('k, 'u) tc_user_ops \<Rightarrow> tc_envs \<Rightarrow> bytes \<Rightarrow> ('k, 'u) tconn_connect \<Rightarrow> ('k, 'u) tconn_connect handled" where
  "tc_connected ops envs i tc =
     hbind (tc_freeaddrinfo tc) (\<lambda>tc.
     let tc = tc\<lparr>tc_state := TC_CONNECTED\<rparr>
     in hbind (tu_new_conn ops i (tc_user tc)) (\<lambda>(k, u).
        let tc = tc\<lparr>tc_conncookie := k, tc_user := u\<rparr>
        in if k = None then hbind (tc_disconnect tc) (schedule_retry ops envs SHORT_RETRY_WAIT_TIME) else Inr tc))"

definition tc_record_received ::
  "('k, 'u) tc_user_ops \<Rightarrow> bytes \<Rightarrow> ('k, 'u) tconn_connect \<Rightarrow> ('k, 'u) tconn_connect handled" where
  "tc_record_received ops r tc =
     hbind (tu_record_received ops (tc_conncookie tc) r (tc_user tc)) (\<lambda>u. Inr (tc\<lparr>tc_user := u\<rparr>))"

text \<open>The loop of \<^verbatim>\<open>try_connect\<close>, over the addresses that are left; it says whether an attempt was started.\<close>

fun tc_try :: "tc_envs \<Rightarrow> nat \<Rightarrow> sockaddr list \<Rightarrow> ('k, 'u) tconn_connect \<Rightarrow> (bool \<times> ('k, 'u) tconn_connect) handled" where
  "tc_try envs n [] tc = Inr (False, tc\<lparr>tc_rp := []\<rparr>)"
| "tc_try envs n (rp # rps) tc =
     hbind (tconn_connect_one_connect (envs n) ((tc_tco tc)\<lparr>tco_addr := rp\<rparr>)) (\<lambda>(ret, tco).
     let tc = tc\<lparr>tc_tco := tco, tc_rp := rp # rps\<rparr>
     in if ret = 0 then Inr (True, tc) else tc_try envs (Suc n) rps tc)"

definition tc_try_connect ::
  "('k, 'u) tc_user_ops \<Rightarrow> tc_envs \<Rightarrow> ('k, 'u) tconn_connect \<Rightarrow> ('k, 'u) tconn_connect handled" where
  "tc_try_connect ops envs tc =
     hbind (tc_try envs 1 (tc_rp tc) tc) (\<lambda>(started, tc).
     if started then Inr tc
     else hbind (tc_freeaddrinfo tc) (schedule_retry ops envs LONG_RETRY_WAIT_TIME))"

definition tc_connection_failed ::
  "('k, 'u) tc_user_ops \<Rightarrow> tc_envs \<Rightarrow> ('k, 'u) tconn_connect \<Rightarrow> ('k, 'u) tconn_connect handled" where
  "tc_connection_failed ops envs tc =
     (if tc_state tc = TC_CONNECT then
        hbind (tc_disconnect tc) (\<lambda>tc.
        case tc_rp tc of [] \<Rightarrow> Inl Dangling | _ # rps \<Rightarrow> tc_try_connect ops envs (tc\<lparr>tc_rp := rps\<rparr>))
      else hbind (tc_disconnect tc) (schedule_retry ops envs SHORT_RETRY_WAIT_TIME))"

text \<open>What the attempt tells its user is handled by the three callbacks.\<close>

fun tc_note ::
  "('k, 'u) tc_user_ops \<Rightarrow> tc_envs \<Rightarrow> tco_note option \<Rightarrow> ('k, 'u) tconn_connect \<Rightarrow> ('k, 'u) tconn_connect handled" where
  "tc_note ops envs None tc = Inr tc"
| "tc_note ops envs (Some Note_failed) tc = tc_connection_failed ops envs tc"
| "tc_note ops envs (Some (Note_connected i)) tc = tc_connected ops envs i tc"
| "tc_note ops envs (Some (Note_received r)) tc = tc_record_received ops r tc"

definition resolve_complete ::
  "('k, 'u) tc_user_ops \<Rightarrow> tc_envs \<Rightarrow> int \<Rightarrow> (bytes option \<times> sockaddr list) option \<Rightarrow>
   ('k, 'u) tconn_connect \<Rightarrow> ('k, 'u) tconn_connect handled" where
  "resolve_complete ops envs rc res tc =
     hbind (timer_unregister (tc_resolve_timeout tc)) (\<lambda>t.
     let tc = tc\<lparr>tc_resolve_timeout := t\<rparr>
     in if rc = 0 then
          let tco = (tc_tco tc)\<lparr>tco_fp_type := tc_fp_type tc, tco_fingerprint := tc_fingerprint tc, tco_cnameid := None\<rparr>
          in (case res of
                None \<Rightarrow> Inl Dangling
              | Some (canonname, rp) \<Rightarrow>
                  let tc = tc\<lparr>tc_state := TC_CONNECT, tc_tco := tco, tc_res := res, tc_rp := rp\<rparr>;
                      tc = (case canonname of
                              None \<Rightarrow> tc
                            | Some h \<Rightarrow>
                                let (ret, nid) = parse_hostname_fingerprint (tc_cnameid tc) h
                                in if ret = 0 then tc\<lparr>tc_tco := tco\<lparr>tco_cnameid := Some nid\<rparr>, tc_cnameid := nid\<rparr>
                                   else tc\<lparr>tc_cnameid := nid\<rparr>)
                  in tc_try_connect ops envs tc)
        else schedule_retry ops envs SHORT_RETRY_WAIT_TIME tc)"

definition resolve_timeout_expired ::
  "('k, 'u) tc_user_ops \<Rightarrow> tc_envs \<Rightarrow> ('k, 'u) tconn_connect \<Rightarrow> ('k, 'u) tconn_connect handled" where
  "resolve_timeout_expired ops envs tc =
     (if \<not> tc_addrinfo tc then Inl Dangling
      else schedule_retry ops envs SHORT_RETRY_WAIT_TIME (tc\<lparr>tc_addrinfo := False\<rparr>))"

text \<open>\<open>submitted\<close>: whether \<^verbatim>\<open>iv_getaddrinfo_submit\<close> succeeds.\<close>

definition start_resolve ::
  "('k, 'u) tc_user_ops \<Rightarrow> bool \<Rightarrow> tc_envs \<Rightarrow> ('k, 'u) tconn_connect \<Rightarrow> ('k, 'u) tconn_connect handled" where
  "start_resolve ops submitted envs tc =
     (let tc = tc\<lparr>tc_state := TC_RESOLVE\<rparr>
      in if submitted then
           hbind (timer_init (tc_resolve_timeout tc)) (\<lambda>t.
           hbind (timer_register (expiry (envs 0) (1000 * RESOLVE_TIMEOUT) (1000 * RESOLVE_TIMEOUT)) t) (\<lambda>t.
           Inr (tc\<lparr>tc_addrinfo := True, tc_resolve_timeout := t\<rparr>)))
         else schedule_retry ops envs SHORT_RETRY_WAIT_TIME tc)"

definition retry_wait_time_expired ::
  "('k, 'u) tc_user_ops \<Rightarrow> bool \<Rightarrow> tc_envs \<Rightarrow> ('k, 'u) tconn_connect \<Rightarrow> ('k, 'u) tconn_connect handled" where
  "retry_wait_time_expired ops submitted envs tc = start_resolve ops submitted envs tc"

definition tconn_connect_start ::
  "('k, 'u) tc_user_ops \<Rightarrow> bool \<Rightarrow> tc_envs \<Rightarrow> ('k, 'u) tconn_connect \<Rightarrow> ('k, 'u) tconn_connect handled" where
  "tconn_connect_start ops submitted envs tc = start_resolve ops submitted envs tc"

definition tconn_connect_destroy :: "('k, 'u) tconn_connect \<Rightarrow> ('k, 'u) tconn_connect handled" where
  "tconn_connect_destroy tc =
     (case tc_state tc of
        TC_RESOLVE \<Rightarrow>
          if \<not> tc_addrinfo tc then Inl Dangling
          else hbind (timer_unregister (tc_resolve_timeout tc)) (\<lambda>t.
               Inr (tc\<lparr>tc_addrinfo := False, tc_resolve_timeout := t\<rparr>))
      | TC_CONNECT \<Rightarrow> hbind (tc_disconnect tc) tc_freeaddrinfo
      | TC_CONNECTED \<Rightarrow> tc_disconnect tc
      | TC_WAITING_RETRY \<Rightarrow> hbind (timer_unregister (tc_retry_wait tc)) (\<lambda>t. Inr (tc\<lparr>tc_retry_wait := t\<rparr>)))"

definition tconn_connect_get_rtt :: "nat option \<Rightarrow> ('k, 'u) tconn_connect \<Rightarrow> int" where
  "tconn_connect_get_rtt tcpi_rtt tc =
     (if tc_state tc \<noteq> TC_CONNECTED then -1 else tconn_connect_one_get_rtt tcpi_rtt (tc_tco tc))"

definition tconn_connect_get_maxseg :: "int option \<Rightarrow> ('k, 'u) tconn_connect \<Rightarrow> int" where
  "tconn_connect_get_maxseg mseg tc =
     (if tc_state tc \<noteq> TC_CONNECTED then -1 else tconn_connect_one_get_maxseg mseg (tc_tco tc))"

definition tconn_connect_record_send ::
  "('k, 'u) tc_user_ops \<Rightarrow> tc_envs \<Rightarrow> bytes \<Rightarrow> ('k, 'u) tconn_connect \<Rightarrow> ('k, 'u) tconn_connect handled" where
  "tconn_connect_record_send ops envs r tc =
     (if tc_state tc \<noteq> TC_CONNECTED then Inr tc
      else hbind (tconn_connect_one_record_send (envs 0) r (tc_tco tc)) (\<lambda>(ret, tco, nt).
           hbind (tc_note ops envs nt (tc\<lparr>tc_tco := tco\<rparr>)) (\<lambda>tc.
           if ret \<noteq> 0 then hbind (tc_disconnect tc) (schedule_retry ops envs SHORT_RETRY_WAIT_TIME)
           else Inr tc)))"


section \<open>The machine\<close>

text \<open>
  What the code needs of its user.  \<open>has k u\<close>: in the state \<open>u\<close> of the user the connection is the one
  known as \<open>k\<close>, or there is none.  \<open>willing i u\<close>: the user does not misuse the event loop when it takes
  or refuses a connection to the peer \<open>i\<close>.
\<close>

locale tconn_user =
  fixes ops :: "('k, 'u) tc_user_ops" and has :: "'k option \<Rightarrow> 'u \<Rightarrow> bool" and willing :: "bytes \<Rightarrow> 'u \<Rightarrow> bool"
  assumes new_conn: "has None u \<Longrightarrow> willing i u \<Longrightarrow> safe (\<lambda>_. True) (tu_new_conn ops i u)"
    and new_conn_has: "has None u \<Longrightarrow> tu_new_conn ops i u = Inr (Some k, u') \<Longrightarrow> has (Some k) u'"
    and record_received: "has (Some k) u \<Longrightarrow> safe (has (Some k)) (tu_record_received ops (Some k) r u)"
    and disconnect: "has (Some k) u \<Longrightarrow> safe (has None) (tu_disconnect ops (Some k) u)"
    and disconnect_null: "tu_disconnect ops None u \<noteq> Inr u'"

text \<open>
  The events: the two timers, the end of the resolution of the name, what happens to the
  attempt, and a record that the user sends.
\<close>

datatype tc_event =
    Tc_retry bool tc_envs
  | Tc_resolve_timeout tc_envs
  | Tc_resolved tc_envs int "(bytes option \<times> sockaddr list) option"
  | Tc_one tc_envs tco_event
  | Tc_send tc_envs bytes

fun tc_possible :: "tc_event \<Rightarrow> ('k, 'u) tconn_connect \<Rightarrow> bool" where
  "tc_possible (Tc_retry submitted envs) tc \<longleftrightarrow> tc_retry_wait tc \<noteq> None"
| "tc_possible (Tc_resolve_timeout envs) tc \<longleftrightarrow> tc_resolve_timeout tc \<noteq> None"
| "tc_possible (Tc_resolved envs rc res) tc \<longleftrightarrow> tc_addrinfo tc \<and> (rc = 0 \<longrightarrow> res \<noteq> None)"
| "tc_possible (Tc_one envs ev) tc \<longleftrightarrow> tco_enabled ev (tc_tco tc)"
| "tc_possible (Tc_send envs r) tc \<longleftrightarrow> True"

text \<open>
  Two of them go wrong: a record that cannot be sent, and a connection that the user refuses when the handshake
  is done.
\<close>

definition tc_unsent :: "tc_event \<Rightarrow> ('k, 'u) tconn_connect \<Rightarrow> bool" where
  "tc_unsent ev tc \<longleftrightarrow> (\<exists>envs r. ev = Tc_send envs r \<and> tc_state tc = TC_CONNECTED \<and> te_send (envs 0) \<noteq> 0)"

definition tc_handshake :: "tc_event \<Rightarrow> bool" where
  "tc_handshake ev \<longleftrightarrow> (\<exists>envs env. ev = Tc_one envs (Tco_handshake env))"

definition tc_refused :: "('k, 'u) tc_user_ops \<Rightarrow> tc_event \<Rightarrow> ('k, 'u) tconn_connect \<Rightarrow> bool" where
  "tc_refused ops ev tc \<longleftrightarrow> tc_handshake ev \<and> (\<exists>u. tu_new_conn ops (tco_id (tc_tco tc)) (tc_user tc) = Inr (None, u))"

fun tc_run ::
  "('k, 'u) tc_user_ops \<Rightarrow> tc_event \<Rightarrow> ('k, 'u) tconn_connect \<Rightarrow> ('k, 'u) tconn_connect handled" where
  "tc_run ops (Tc_retry submitted envs) tc = retry_wait_time_expired ops submitted envs (tc\<lparr>tc_retry_wait := None\<rparr>)"
| "tc_run ops (Tc_resolve_timeout envs) tc = resolve_timeout_expired ops envs (tc\<lparr>tc_resolve_timeout := None\<rparr>)"
| "tc_run ops (Tc_resolved envs rc res) tc = resolve_complete ops envs rc res (tc\<lparr>tc_addrinfo := False\<rparr>)"
| "tc_run ops (Tc_one envs ev) tc =
     hbind (tco_run ev (tc_tco tc)) (\<lambda>(tco, nt). tc_note ops envs nt (tc\<lparr>tc_tco := tco\<rparr>))"
| "tc_run ops (Tc_send envs r) tc = tconn_connect_record_send ops envs r tc"

definition user_has :: "('k option \<Rightarrow> 'u \<Rightarrow> bool) \<Rightarrow> ('k, 'u) tconn_connect \<Rightarrow> bool" where
  "user_has has tc \<longleftrightarrow>
     (if tc_state tc = TC_CONNECTED then tc_conncookie tc \<noteq> None \<and> has (tc_conncookie tc) (tc_user tc)
      else has None (tc_user tc))"

definition tc_inv :: "('k option \<Rightarrow> 'u \<Rightarrow> bool) \<Rightarrow> ('k, 'u) tconn_connect \<Rightarrow> bool" where
  "tc_inv has tc \<longleftrightarrow>
     (tc_addrinfo tc \<longleftrightarrow> tc_state tc = TC_RESOLVE) \<and>
     (tc_resolve_timeout tc \<noteq> None \<longleftrightarrow> tc_state tc = TC_RESOLVE) \<and>
     (tc_retry_wait tc \<noteq> None \<longleftrightarrow> tc_state tc = TC_WAITING_RETRY) \<and>
     (tc_res tc = None \<longleftrightarrow> tc_state tc \<noteq> TC_CONNECT) \<and> (tc_state tc = TC_CONNECT \<longrightarrow> tc_rp tc \<noteq> []) \<and>
     (if tc_state tc = TC_CONNECT \<or> tc_state tc = TC_CONNECTED
      then tco_live (tc_tco tc) \<and> (tco_state (tc_tco tc) = TCO_CONNECTED \<longleftrightarrow> tc_state tc = TC_CONNECTED)
      else tco_idle (tc_tco tc)) \<and>
     user_has has tc"

text \<open>The rule \<open>user\<close> is any other change of the state of the user.\<close>

inductive tc_reach ::
  "('k, 'u) tc_user_ops \<Rightarrow> ('k option \<Rightarrow> 'u \<Rightarrow> bool) \<Rightarrow> ('k, 'u) tconn_connect \<Rightarrow> ('k, 'u) tconn_connect \<Rightarrow> bool"
  for ops has tc0 where
  start: "tconn_connect_start ops submitted envs tc0 = Inr tc \<Longrightarrow> tc_reach ops has tc0 tc"
| event: "tc_reach ops has tc0 tc \<Longrightarrow> tc_possible ev tc \<Longrightarrow> tc_run ops ev tc = Inr tc' \<Longrightarrow>
    tc_reach ops has tc0 tc'"
| user: "tc_reach ops has tc0 tc \<Longrightarrow> user_has has (tc\<lparr>tc_user := u\<rparr>) \<Longrightarrow>
    tc_reach ops has tc0 (tc\<lparr>tc_user := u\<rparr>)"

text \<open>Nothing is in use.\<close>

definition tc_quiet :: "('k, 'u) tconn_connect \<Rightarrow> bool" where
  "tc_quiet tc \<longleftrightarrow> \<not> tc_addrinfo tc \<and> tc_resolve_timeout tc = None \<and> tc_retry_wait tc = None \<and> tc_res tc = None \<and>
     tco_idle (tc_tco tc)"

lemma tc_try_result:
  assumes "tco_idle (tc_tco tc)"
  shows "\<exists>tco rps' b. tc_try envs n rps tc = Inr (b, tc\<lparr>tc_tco := tco, tc_rp := rps'\<rparr>) \<and>
    (if b then tco_live tco \<and> tco_state tco \<noteq> TCO_CONNECTED \<and> rps' \<noteq> [] else tco_idle tco)"
  using assms
proof (induction rps arbitrary: n tc)
  case Nil
  then show ?case by (intro exI [of _ "tc_tco tc"] exI [of _ "[]"] exI [of _ False]) simp
next
  case (Cons rp rps)
  have "tco_idle ((tc_tco tc)\<lparr>tco_addr := rp\<rparr>)" using Cons.prems by (simp add: tco_idle_def)
  then obtain ret tco where c: "tconn_connect_one_connect (envs n) ((tc_tco tc)\<lparr>tco_addr := rp\<rparr>) = Inr (ret, tco)"
    "if ret = 0 then tco_live tco \<and> tco_state tco \<noteq> TCO_CONNECTED else tco_idle tco" by (rule connect_cases)
  show ?case
  proof (cases "ret = 0")
    case True
    with c show ?thesis by (intro exI [of _ tco] exI [of _ "rp # rps"] exI [of _ True]) simp
  next
    case False
    with c have "tco_idle (tc_tco (tc\<lparr>tc_tco := tco, tc_rp := rp # rps\<rparr>))" by simp
    from Cons.IH [OF this, of "Suc n"] c(1) False show ?thesis by fastforce
  qed
qed

text \<open>A refused connection, in the state that \<^verbatim>\<open>connected\<close> has made before it asks the user.\<close>

lemma refused_fault:
  assumes "tco_live (tc_tco tc)" "tc_state tc = TC_CONNECTED" "tc_conncookie tc = None"
    and "tu_disconnect ops None (tc_user tc) = Inl e"
  shows "hbind (tc_disconnect tc) (schedule_retry ops envs w) = Inl e"
proof -
  obtain tco where "tconn_connect_one_disconnect (tc_tco tc) = Inr tco"
    using state_destroy_idle assms(1) by (metis tconn_connect_one_disconnect_def)
  with assms(2-4) show ?thesis by (simp add: tc_disconnect_def schedule_retry_def)
qed

text \<open>A record that cannot be sent: the loss of the connection is handled twice.\<close>

lemma unsent_fault:
  assumes "tc_inv has tc" "tc_state tc = TC_CONNECTED" "te_send (envs 0) \<noteq> 0"
  shows "tconn_connect_record_send ops envs r tc =
    (case tu_disconnect ops (tc_conncookie tc) (tc_user tc) of Inl e \<Rightarrow> Inl e | Inr u \<Rightarrow> Inl Iv_fatal)"
proof -
  have "tco_live (tc_tco tc)" "tco_state (tc_tco tc) = TCO_CONNECTED" using assms(1,2) by (auto simp: tc_inv_def)
  from record_send_result [OF this, of "envs 0" r] assms(3) obtain tco where
    send: "tconn_connect_one_record_send (envs 0) r (tc_tco tc) = Inr (-1, tco, Some Note_failed)" and
    tco: "tco_idle tco" "tco_state tco = TCO_FAILED" by auto
  have "tco_state_destroy tco = Inr tco" using tco by (simp add: tco_state_destroy_def tco_idle_def)
  then show ?thesis
    using assms(1,2) send
    by (simp add: tconn_connect_record_send_def tc_connection_failed_def tc_disconnect_def tconn_connect_one_disconnect_def
        schedule_retry_def timer_init_def timer_register_def tc_inv_def split: sum.split)
qed

context tconn_user
begin

lemma schedule_retry_inv:
  assumes "tc_quiet tc" "user_has has tc"
  shows "safe (\<lambda>tc'. tc_inv has tc' \<and> tc_state tc' = TC_WAITING_RETRY) (schedule_retry ops envs waittime tc)"
proof -
  let ?tc = "\<lambda>u. tc\<lparr>tc_user := u\<rparr>"
  have rest: "safe (\<lambda>tc'. tc_inv has tc' \<and> tc_state tc' = TC_WAITING_RETRY)
      (let tc = tc1\<lparr>tc_state := TC_WAITING_RETRY\<rparr>
       in hbind (timer_init (tc_retry_wait tc)) (\<lambda>t.
          hbind (timer_register (expiry (envs 0) (900 * waittime) (1100 * waittime)) t) (\<lambda>t.
          Inr (tc\<lparr>tc_retry_wait := t\<rparr>))))" if "tc_quiet tc1" "has None (tc_user tc1)" for tc1
    using that by (simp add: timer_init_def timer_register_def tc_inv_def tc_quiet_def user_has_def)
  have quiet: "tc_quiet (?tc u)" for u using assms(1) by (simp add: tc_quiet_def)
  show ?thesis
  proof (cases "tc_state tc = TC_CONNECTED")
    case True
    then obtain k where k: "tc_conncookie tc = Some k" "has (Some k) (tc_user tc)" using assms(2) by (auto simp: user_has_def)
    have "safe (\<lambda>tc1. tc_quiet tc1 \<and> has None (tc_user tc1))
        (hbind (tu_disconnect ops (tc_conncookie tc) (tc_user tc)) (\<lambda>u. Inr (?tc u)))"
      unfolding k(1) by (rule safe_bind [OF disconnect [OF k(2)]]) (simp add: quiet)
    from safe_bind [OF this rest] show ?thesis unfolding schedule_retry_def if_P [OF True] by simp
  next
    case False
    with assms rest [of tc] show ?thesis by (simp add: schedule_retry_def user_has_def)
  qed
qed

text \<open>Trying the addresses that are left.\<close>

lemma try_connect_inv:
  assumes "tc_state tc = TC_CONNECT" "tc_quiet (tc\<lparr>tc_res := None\<rparr>)" "tc_res tc \<noteq> None" "has None (tc_user tc)"
  shows "safe (tc_inv has) (tc_try_connect ops envs tc)"
proof -
  have "tco_idle (tc_tco tc)" using assms(2) by (simp add: tc_quiet_def)
  from tc_try_result [OF this] obtain tco rps b where t: "tc_try envs 1 (tc_rp tc) tc = Inr (b, tc\<lparr>tc_tco := tco, tc_rp := rps\<rparr>)"
    "if b then tco_live tco \<and> tco_state tco \<noteq> TCO_CONNECTED \<and> rps \<noteq> [] else tco_idle tco" by blast
  show ?thesis
  proof (cases b)
    case True
    with t assms show ?thesis by (auto simp: tc_try_connect_def tc_inv_def tc_quiet_def user_has_def)
  next
    case False
    let ?tc = "tc\<lparr>tc_tco := tco, tc_rp := rps, tc_res := None\<rparr>"
    have "safe (tc_inv has) (schedule_retry ops envs LONG_RETRY_WAIT_TIME ?tc)"
      by (rule safe_mono [OF schedule_retry_inv]) (use assms t(2) False in \<open>auto simp: tc_quiet_def user_has_def\<close>)
    with t(1) False assms(3) show ?thesis by (simp add: tc_try_connect_def tc_freeaddrinfo_def)
  qed
qed

lemma start_resolve_inv:
  assumes "tc_quiet tc" "has None (tc_user tc)"
  shows "safe (tc_inv has) (start_resolve ops submitted envs tc)"
proof -
  have "safe (tc_inv has) (schedule_retry ops envs SHORT_RETRY_WAIT_TIME (tc\<lparr>tc_state := TC_RESOLVE\<rparr>))"
    by (rule safe_mono [OF schedule_retry_inv]) (use assms in \<open>auto simp: tc_quiet_def user_has_def\<close>)
  with assms show ?thesis
    by (auto simp: start_resolve_def timer_init_def timer_register_def tc_inv_def tc_quiet_def user_has_def Let_def)
qed

lemma resolve_complete_inv:
  assumes "tc_inv has tc" "tc_addrinfo tc" "rc = 0 \<longrightarrow> res \<noteq> None"
  shows "safe (tc_inv has) (resolve_complete ops envs rc res (tc\<lparr>tc_addrinfo := False\<rparr>))"
proof (cases "rc = 0")
  case True
  then obtain canonname rp where res: "res = Some (canonname, rp)" using assms(3) by auto
  have state: "tc_state tc = TC_RESOLVE" "tc_resolve_timeout tc \<noteq> None" "has None (tc_user tc)" "tco_idle (tc_tco tc)"
      "tc_retry_wait tc = None"
    using assms(1,2) by (auto simp: tc_inv_def user_has_def)
  obtain t where t: "tc_resolve_timeout tc = Some t" using state(2) by auto
  have "\<exists>tc'. resolve_complete ops envs rc res (tc\<lparr>tc_addrinfo := False\<rparr>) = tc_try_connect ops envs tc' \<and>
      tc_state tc' = TC_CONNECT \<and> tc_quiet (tc'\<lparr>tc_res := None\<rparr>) \<and> tc_res tc' \<noteq> None \<and> tc_user tc' = tc_user tc"
  proof (cases canonname)
    case None
    show ?thesis unfolding resolve_complete_def res None
      by (rule exI, rule conjI [OF _ conjI]) (use True t state in \<open>auto simp: timer_unregister_def tc_quiet_def tco_idle_def\<close>)
  next
    case (Some h)
    obtain ret nid where h: "parse_hostname_fingerprint (tc_cnameid tc) h = (ret, nid)" by force
    show ?thesis unfolding resolve_complete_def res Some
      by (cases "ret = 0"; rule exI, rule conjI [OF _ conjI])
        (use True t state h in \<open>auto simp: timer_unregister_def tc_quiet_def tco_idle_def\<close>)
  qed
  then obtain tc' where tc': "resolve_complete ops envs rc res (tc\<lparr>tc_addrinfo := False\<rparr>) = tc_try_connect ops envs tc'"
      "tc_state tc' = TC_CONNECT" "tc_quiet (tc'\<lparr>tc_res := None\<rparr>)" "tc_res tc' \<noteq> None" "tc_user tc' = tc_user tc" by blast
  show ?thesis unfolding tc'(1) by (rule try_connect_inv [OF tc'(2-4)]) (use tc'(5) state(3) in simp)
next
  case False
  have "safe (tc_inv has) (schedule_retry ops envs SHORT_RETRY_WAIT_TIME (tc\<lparr>tc_addrinfo := False, tc_resolve_timeout := None\<rparr>))"
    by (rule safe_mono [OF schedule_retry_inv]) (use assms in \<open>auto simp: tc_inv_def tc_quiet_def user_has_def\<close>)
  with False assms show ?thesis by (auto simp: resolve_complete_def timer_unregister_def tc_inv_def)
qed

text \<open>An attempt that is not in use any more.\<close>

lemma disconnect_idle:
  assumes "tco_live (tc_tco tc) \<or> tco_idle (tc_tco tc) \<and> tco_state (tc_tco tc) = TCO_FAILED"
  obtains tco where "tc_disconnect tc = Inr (tc\<lparr>tc_tco := tco\<rparr>)" "tco_idle tco" "tco_state tco = tco_state (tc_tco tc)"
proof -
  from state_destroy_idle [of "tc_tco tc"] assms obtain tco where "tco_state_destroy (tc_tco tc) = Inr tco" "tco_idle tco"
    "tco_state tco = tco_state (tc_tco tc)" by blast
  with that show ?thesis by (simp add: tc_disconnect_def tconn_connect_one_disconnect_def)
qed

lemma connection_failed_inv:
  assumes "tc_inv has tc" "tc_state tc = TC_CONNECT \<or> tc_state tc = TC_CONNECTED" "tco_idle tco" "tco_state tco = TCO_FAILED"
  shows "safe (tc_inv has) (tc_connection_failed ops envs (tc\<lparr>tc_tco := tco\<rparr>))"
proof -
  let ?tc = "tc\<lparr>tc_tco := tco\<rparr>"
  have "tco_live (tc_tco ?tc) \<or> tco_idle (tc_tco ?tc) \<and> tco_state (tc_tco ?tc) = TCO_FAILED" using assms(3,4) by simp
  then obtain tco' where d: "tc_disconnect ?tc = Inr (?tc\<lparr>tc_tco := tco'\<rparr>)" "tco_idle tco'" by (rule disconnect_idle)
  show ?thesis
  proof (cases "tc_state tc = TC_CONNECT")
    case True
    then obtain rp rps where rp: "tc_rp tc = rp # rps" using assms(1) by (cases "tc_rp tc") (auto simp: tc_inv_def)
    have "safe (tc_inv has) (tc_try_connect ops envs (?tc\<lparr>tc_tco := tco', tc_rp := rps\<rparr>))"
      by (rule try_connect_inv) (use assms(1) True d(2) in \<open>auto simp: tc_inv_def tc_quiet_def user_has_def\<close>)
    with d True rp show ?thesis by (simp add: tc_connection_failed_def)
  next
    case False
    have "safe (tc_inv has) (schedule_retry ops envs SHORT_RETRY_WAIT_TIME (?tc\<lparr>tc_tco := tco'\<rparr>))"
      by (rule safe_mono [OF schedule_retry_inv])
        (use assms False d(2) in \<open>simp_all add: tc_inv_def tc_quiet_def user_has_def\<close>)
    with d False show ?thesis by (simp add: tc_connection_failed_def)
  qed
qed

lemma connected_eq:
  assumes "tc_inv has tc" "tc_state tc = TC_CONNECT"
  shows "tc_connected ops envs i (tc\<lparr>tc_tco := tco\<rparr>) = hbind (tu_new_conn ops i (tc_user tc)) (\<lambda>(k, u).
      if k = None then hbind (tc_disconnect (tc\<lparr>tc_tco := tco, tc_res := None, tc_state := TC_CONNECTED, tc_conncookie := k, tc_user := u\<rparr>))
        (schedule_retry ops envs SHORT_RETRY_WAIT_TIME)
      else Inr (tc\<lparr>tc_tco := tco, tc_res := None, tc_state := TC_CONNECTED, tc_conncookie := k, tc_user := u\<rparr>))"
proof -
  have "tc_res tc \<noteq> None" using assms by (auto simp: tc_inv_def)
  then show ?thesis by (auto simp: tc_connected_def tc_freeaddrinfo_def Let_def)
qed

lemma connected_taken:
  assumes "tc_inv has tc" "tc_state tc = TC_CONNECT" "tco_live tco" "tco_state tco = TCO_CONNECTED"
    and "tu_new_conn ops i (tc_user tc) = Inr (Some k, u)"
  shows "tc_inv has (tc\<lparr>tc_tco := tco, tc_res := None, tc_state := TC_CONNECTED, tc_conncookie := Some k, tc_user := u\<rparr>)"
proof -
  have "has None (tc_user tc)" using assms(1,2) by (auto simp: tc_inv_def user_has_def)
  from new_conn_has [OF this assms(5)] assms(1-4) show ?thesis by (auto simp: tc_inv_def user_has_def)
qed

text \<open>A refusal is passed on to \<^verbatim>\<open>disconnect\<close> with a null pointer.\<close>

lemma connected_refused:
  assumes "tc_inv has tc" "tc_state tc = TC_CONNECT" "tco_live tco" "tu_new_conn ops i (tc_user tc) = Inr (None, u)"
  obtains e where "tu_disconnect ops None u = Inl e" "tc_connected ops envs i (tc\<lparr>tc_tco := tco\<rparr>) = Inl e"
proof -
  obtain e where e: "tu_disconnect ops None u = Inl e" using disconnect_null [of u] by (cases "tu_disconnect ops None u") auto
  have "tc_connected ops envs i (tc\<lparr>tc_tco := tco\<rparr>) = Inl e"
    unfolding connected_eq [OF assms(1,2)] assms(4)
    using refused_fault [of "tc\<lparr>tc_tco := tco, tc_res := None, tc_state := TC_CONNECTED, tc_conncookie := None, tc_user := u\<rparr>"]
      assms(3) e by simp
  with e show thesis by (rule that)
qed

lemma connected_any:
  assumes "tc_inv has tc" "tc_state tc = TC_CONNECT" "tco_live tco" "tco_state tco = TCO_CONNECTED"
    and "tc_connected ops envs i (tc\<lparr>tc_tco := tco\<rparr>) = Inr tc'"
  shows "tc_inv has tc'"
proof (cases "tu_new_conn ops i (tc_user tc)")
  case (Inr ku)
  obtain k u where ku: "ku = (k, u)" by (cases ku)
  show ?thesis
  proof (cases k)
    case None
    obtain e where "tc_connected ops envs i (tc\<lparr>tc_tco := tco\<rparr>) = Inl e"
      by (rule connected_refused [OF assms(1-3)]) (use Inr ku None in auto)
    with assms(5) show ?thesis by simp
  next
    case (Some k')
    with connected_taken [OF assms(1-4)] assms(5) Inr ku show ?thesis by (auto simp: connected_eq [OF assms(1,2)])
  qed
qed (use assms(5) in \<open>simp add: connected_eq [OF assms(1,2)]\<close>)

lemma connected_inv:
  assumes "tc_inv has tc" "tc_state tc = TC_CONNECT" "tco_live tco" "tco_state tco = TCO_CONNECTED"
    and "willing i (tc_user tc)" "\<And>u. tu_new_conn ops i (tc_user tc) \<noteq> Inr (None, u)"
  shows "safe (tc_inv has) (tc_connected ops envs i (tc\<lparr>tc_tco := tco\<rparr>))"
proof -
  have "has None (tc_user tc)" using assms(1,2) by (auto simp: tc_inv_def user_has_def)
  then have "safe (\<lambda>_. True) (tu_new_conn ops i (tc_user tc))" using assms(5) by (rule new_conn)
  then show ?thesis
    unfolding connected_eq [OF assms(1,2)]
  proof (rule safe_bind)
    fix x assume x: "tu_new_conn ops i (tc_user tc) = Inr x"
    obtain k u where ku: "x = (k, u)" by (cases x)
    with assms(6) [of u] x obtain k' where "k = Some k'" by (cases k) auto
    with ku connected_taken [OF assms(1-4)] x
    show "safe (tc_inv has) (case x of (k, u) \<Rightarrow>
        if k = None then hbind (tc_disconnect (tc\<lparr>tc_tco := tco, tc_res := None, tc_state := TC_CONNECTED, tc_conncookie := k, tc_user := u\<rparr>))
          (schedule_retry ops envs SHORT_RETRY_WAIT_TIME)
        else Inr (tc\<lparr>tc_tco := tco, tc_res := None, tc_state := TC_CONNECTED, tc_conncookie := k, tc_user := u\<rparr>))"
      by simp
  qed
qed

text \<open>An event of the attempt: its handshake is done and it is offered to the user, or it does no harm.\<close>

lemma one_event_cases:
  assumes "tc_inv has tc" "tc_possible (Tc_one envs ev) tc"
  obtains tco where "tc_handshake (Tc_one envs ev)" "tc_state tc = TC_CONNECT" "tco_live tco" "tco_state tco = TCO_CONNECTED"
      "tc_run ops (Tc_one envs ev) tc = tc_connected ops envs (tco_id (tc_tco tc)) (tc\<lparr>tc_tco := tco\<rparr>)"
  | "\<not> tc_handshake (Tc_one envs ev)" "safe (tc_inv has) (tc_run ops (Tc_one envs ev) tc)"
proof -
  have st: "tc_state tc = TC_CONNECT \<or> tc_state tc = TC_CONNECTED"
    using assms by (cases ev) (auto simp: tc_inv_def tco_idle_def split: if_splits)
  then have live: "tco_live (tc_tco tc)" "tco_state (tc_tco tc) = TCO_CONNECTED \<longleftrightarrow> tc_state tc = TC_CONNECTED"
    using assms(1) by (auto simp: tc_inv_def)
  have "tco_enabled ev (tc_tco tc)" using assms(2) by simp
  from tco_event_result [OF live(1) this] obtain tco nt where
    r: "tco_run ev (tc_tco tc) = Inr (tco, nt)" "tco_result (tc_tco tc) tco nt" by blast
  have hs: "tc_handshake (Tc_one envs ev) \<longleftrightarrow> (\<exists>i. nt = Some (Note_connected i))"
    using r(1)
    by (cases ev) (auto simp: tc_handshake_def tco_rx_timeout_expired_def tco_connection_failed_def tco_send_keepalive_def
        tco_connect_pollout_def tco_record_received_def tco_connection_lost_def tco_handshake_done_def split: option.splits if_splits)
  show thesis
  proof (cases nt)
    case None
    with r st live assms(1) have "safe (tc_inv has) (tc_run ops (Tc_one envs ev) tc)"
      by (auto simp: tco_result_def tc_inv_def user_has_def)
    with hs None show ?thesis by (intro that(2)) simp
  next
    case (Some x)
    show ?thesis
    proof (cases x)
      case Note_failed
      with r Some connection_failed_inv [OF assms(1) st] have "safe (tc_inv has) (tc_run ops (Tc_one envs ev) tc)"
        by (simp add: tco_result_def)
      with hs Some Note_failed show ?thesis by (intro that(2)) simp
    next
      case (Note_connected i)
      with r Some have c: "tco_live tco" "tco_state tco = TCO_CONNECTED" "i = tco_id (tc_tco tc)"
          "tco_state (tc_tco tc) \<noteq> TCO_CONNECTED" by (auto simp: tco_result_def)
      show ?thesis
        by (rule that(1) [of tco]) (use hs st live(2) c r(1) Some Note_connected in auto)
    next
      case (Note_received rec)
      with r Some have c: "tco_live tco" "tco_state tco = TCO_CONNECTED" "tc_state tc = TC_CONNECTED"
        using live(2) by (auto simp: tco_result_def)
      then obtain k where k: "tc_conncookie tc = Some k" "has (Some k) (tc_user tc)"
        using assms(1) by (auto simp: tc_inv_def user_has_def)
      have "safe (tc_inv has) (tc_record_received ops rec (tc\<lparr>tc_tco := tco\<rparr>))"
        unfolding tc_record_received_def using c k assms(1)
        by (auto intro!: safe_bind [OF record_received [OF k(2)]] simp: tc_inv_def user_has_def)
      with r(1) Some Note_received have "safe (tc_inv has) (tc_run ops (Tc_one envs ev) tc)" by simp
      with hs Some Note_received show ?thesis by (intro that(2)) simp
    qed
  qed
qed

text \<open>The other events do no harm either, except for a record that cannot be sent.\<close>

lemma other_event_inv:
  assumes "tc_inv has tc" "tc_possible ev tc" "\<not> tc_unsent ev tc" "\<not> (\<exists>envs ev'. ev = Tc_one envs ev')"
  shows "safe (tc_inv has) (tc_run ops ev tc)"
proof (cases ev)
  case (Tc_retry submitted envs)
  with assms show ?thesis
    using start_resolve_inv [of "tc\<lparr>tc_retry_wait := None\<rparr>" submitted envs]
    by (auto simp: retry_wait_time_expired_def tc_inv_def tc_quiet_def user_has_def)
next
  case (Tc_resolve_timeout envs)
  have "safe (tc_inv has) (schedule_retry ops envs SHORT_RETRY_WAIT_TIME (tc\<lparr>tc_resolve_timeout := None, tc_addrinfo := False\<rparr>))"
    by (rule safe_mono [OF schedule_retry_inv])
      (use assms Tc_resolve_timeout in \<open>auto simp: tc_inv_def tc_quiet_def user_has_def\<close>)
  with assms Tc_resolve_timeout show ?thesis by (simp add: resolve_timeout_expired_def tc_inv_def)
next
  case (Tc_resolved envs rc res)
  with assms resolve_complete_inv show ?thesis by simp
next
  case (Tc_send envs r)
  show ?thesis
  proof (cases "tc_state tc = TC_CONNECTED")
    case True
    then have "tco_live (tc_tco tc)" "tco_state (tc_tco tc) = TCO_CONNECTED" using assms(1) by (auto simp: tc_inv_def)
    moreover have "te_send (envs 0) = 0" using assms(3) Tc_send True by (auto simp: tc_unsent_def)
    ultimately obtain tco where
      "tconn_connect_one_record_send (envs 0) r (tc_tco tc) = Inr (0, tco, None)" "tco_live tco" "tco_state tco = TCO_CONNECTED"
      using record_send_result [of "tc_tco tc" "envs 0" r] by auto
    with True assms(1) Tc_send show ?thesis by (simp add: tconn_connect_record_send_def tc_inv_def user_has_def)
  qed (use assms Tc_send in \<open>simp add: tconn_connect_record_send_def\<close>)
qed (use assms(4) in blast)

lemma unsent_stops:
  assumes "tc_inv has tc" "tc_unsent ev tc"
  shows "tc_run ops ev tc = Inl Iv_fatal \<or> (\<exists>f. tc_run ops ev tc = Inl (Called f))"
proof -
  obtain envs r where ev: "ev = Tc_send envs r" "tc_state tc = TC_CONNECTED" "te_send (envs 0) \<noteq> 0"
    using assms(2) by (auto simp: tc_unsent_def)
  obtain k where k: "tc_conncookie tc = Some k" "has (Some k) (tc_user tc)"
    using assms(1) ev(2) by (auto simp: tc_inv_def user_has_def)
  have run: "tc_run ops ev tc = (case tu_disconnect ops (Some k) (tc_user tc) of Inl e \<Rightarrow> Inl e | Inr u \<Rightarrow> Inl Iv_fatal)"
    using unsent_fault [of has tc envs ops r] assms(1) ev k(1) by simp
  show ?thesis
  proof (cases "tu_disconnect ops (Some k) (tc_user tc)")
    case (Inl e)
    with disconnect [OF k(2)] run show ?thesis by (cases e) auto
  qed (simp add: run)
qed

lemma refused_stops:
  assumes "tc_inv has tc" "tc_possible ev tc" "tc_refused ops ev tc"
  obtains u e where "tu_new_conn ops (tco_id (tc_tco tc)) (tc_user tc) = Inr (None, u)" "tu_disconnect ops None u = Inl e"
    "tc_run ops ev tc = Inl e"
proof -
  obtain envs env u where ev: "ev = Tc_one envs (Tco_handshake env)"
    "tu_new_conn ops (tco_id (tc_tco tc)) (tc_user tc) = Inr (None, u)"
    using assms(3) by (auto simp: tc_refused_def tc_handshake_def)
  from one_event_cases [OF assms(1) assms(2) [unfolded ev(1)]] obtain tco where
    "tc_state tc = TC_CONNECT" "tco_live tco" "tc_run ops ev tc = tc_connected ops envs (tco_id (tc_tco tc)) (tc\<lparr>tc_tco := tco\<rparr>)"
    using ev(1) by (auto simp: tc_handshake_def)
  then show thesis using connected_refused [OF assms(1) _ _ ev(2)] that ev(2) by metis
qed

lemma tc_event_inv:
  assumes "tc_inv has tc" "tc_possible ev tc" "\<not> tc_unsent ev tc" "\<not> tc_refused ops ev tc"
    and "tc_handshake ev \<Longrightarrow> willing (tco_id (tc_tco tc)) (tc_user tc)"
  shows "safe (tc_inv has) (tc_run ops ev tc)"
proof (cases "\<exists>envs ev'. ev = Tc_one envs ev'")
  case True
  then obtain envs ev' where ev: "ev = Tc_one envs ev'" by blast
  from one_event_cases [OF assms(1) assms(2) [unfolded ev]] show ?thesis
  proof cases
    case (1 tco)
    have "tu_new_conn ops (tco_id (tc_tco tc)) (tc_user tc) \<noteq> Inr (None, u)" for u
      using assms(4) 1(1) ev by (auto simp: tc_refused_def)
    moreover have "willing (tco_id (tc_tco tc)) (tc_user tc)" using assms(5) 1(1) ev by simp
    ultimately show ?thesis using connected_inv [OF assms(1) 1(2-4)] 1(5) ev by metis
  qed (simp add: ev)
next
  case False
  with assms other_event_inv show ?thesis by blast
qed

text \<open>Whatever the event, if the handler returns then the resources are those of the state.\<close>

lemma tc_event_any:
  assumes "tc_inv has tc" "tc_possible ev tc" "tc_run ops ev tc = Inr tc'"
  shows "tc_inv has tc'"
proof (cases "\<exists>envs ev'. ev = Tc_one envs ev'")
  case True
  then obtain envs ev' where ev: "ev = Tc_one envs ev'" by blast
  from one_event_cases [OF assms(1) assms(2) [unfolded ev]] show ?thesis
  proof cases
    case (1 tco)
    with connected_any [OF assms(1) 1(2-4)] assms(3) ev show ?thesis by metis
  next
    case 2
    with safe_Inr assms(3) ev show ?thesis by metis
  qed
next
  case False
  have "\<not> tc_unsent ev tc" using unsent_stops [OF assms(1)] assms(3) by fastforce
  from safe_Inr [OF other_event_inv [OF assms(1,2) this False] assms(3)] show ?thesis .
qed

lemma tc_reach_inv:
  assumes "tc_quiet tc0" "has None (tc_user tc0)"
  shows "tc_reach ops has tc0 tc \<Longrightarrow> tc_inv has tc"
proof (induction rule: tc_reach.induct)
  case (start submitted envs tc)
  then show ?case using safe_Inr [OF start_resolve_inv [OF assms]] by (simp add: tconn_connect_start_def)
next
  case (event tc ev tc')
  then show ?case using tc_event_any by blast
next
  case (user tc u)
  then show ?case by (simp add: tc_inv_def)
qed

lemma tc_destroy_quiet:
  assumes "tc_inv has tc"
  shows "\<exists>tc'. tconn_connect_destroy tc = Inr tc' \<and> tc_quiet tc' \<and> tc_user tc' = tc_user tc"
proof (cases "tc_state tc = TC_CONNECT \<or> tc_state tc = TC_CONNECTED")
  case True
  then have "tco_live (tc_tco tc) \<or> tco_idle (tc_tco tc) \<and> tco_state (tc_tco tc) = TCO_FAILED"
    using assms by (auto simp: tc_inv_def)
  then obtain tco where "tc_disconnect tc = Inr (tc\<lparr>tc_tco := tco\<rparr>)" "tco_idle tco" by (rule disconnect_idle)
  with True assms show ?thesis
    by (cases "tc_state tc") (auto simp: tconn_connect_destroy_def tc_inv_def tc_quiet_def tc_freeaddrinfo_def)
next
  case False
  with assms show ?thesis
    by (cases "tc_state tc")
      (auto simp: tconn_connect_destroy_def tc_inv_def tc_quiet_def timer_unregister_def split: if_splits)
qed

end


section \<open>Where the code goes wrong\<close>

text \<open>C34: when a record cannot be sent, the loss of the connection is handled twice, once by the
  callback and once after the return, and the retry timer is set up again while it is registered;
  and when the user refuses a connection by returning a null pointer, its \<^verbatim>\<open>disconnect\<close> is called
  with that null pointer.\<close>

theorem tconn_connect_faults:
  assumes "tc_inv has tc"
  shows "(tc_state tc = TC_CONNECTED \<and> te_send (envs 0) \<noteq> 0 \<and> tu_disconnect ops (tc_conncookie tc) (tc_user tc) = Inr u \<longrightarrow>
      tconn_connect_record_send ops envs r tc = Inl Iv_fatal) \<and>
    (tc_state tc = TC_CONNECT \<and> tco_state (tc_tco tc) = TCO_TLS_HANDSHAKE \<and>
      tu_new_conn ops (tco_id (tc_tco tc)) (tc_user tc) = Inr (None, u) \<and> tu_disconnect ops None u = Inl f \<longrightarrow>
      tc_run ops (Tc_one envs (Tco_handshake env)) tc = Inl f)"
proof (intro conjI impI; elim conjE)
  assume st: "tc_state tc = TC_CONNECTED" and fail: "te_send (envs 0) \<noteq> 0" and
    user: "tu_disconnect ops (tc_conncookie tc) (tc_user tc) = Inr u"
  then show "tconn_connect_record_send ops envs r tc = Inl Iv_fatal"
    using unsent_fault [of has tc envs ops r] assms by simp
next
  assume st: "tc_state tc = TC_CONNECT" "tco_state (tc_tco tc) = TCO_TLS_HANDSHAKE" and
    user: "tu_new_conn ops (tco_id (tc_tco tc)) (tc_user tc) = Inr (None, u)" "tu_disconnect ops None u = Inl f"
  then have live: "tco_live (tc_tco tc)" and res: "tc_res tc \<noteq> None" using assms by (auto simp: tc_inv_def)
  then have "tco_enabled (Tco_handshake env) (tc_tco tc)" using st(2) by (simp add: tco_live_def)
  from tco_event_result [OF live this] obtain tco nt where
    run: "tco_run (Tco_handshake env) (tc_tco tc) = Inr (tco, nt)" "tco_result (tc_tco tc) tco nt" by blast
  then have nt: "nt = Some (Note_connected (tco_id (tc_tco tc)))" "tco_live tco"
    by (auto simp: tco_handshake_done_def tco_result_def)
  let ?tc = "tc\<lparr>tc_tco := tco, tc_res := None, tc_state := TC_CONNECTED, tc_conncookie := None, tc_user := u\<rparr>"
  have "hbind (tc_disconnect ?tc) (schedule_retry ops envs SHORT_RETRY_WAIT_TIME) = Inl f"
    by (rule refused_fault) (use nt(2) user in simp_all)
  with run(1) nt(1) res user(1) show "tc_run ops (Tc_one envs (Tco_handshake env)) tc = Inl f"
    by (auto simp: tc_connected_def tc_freeaddrinfo_def)
qed

definition sample_tco_env :: tco_env where
  "sample_tco_env = \<lparr>te_socket = 5, te_connect = Connect_in_progress, te_sockerr = Some 0, te_start = 0, te_send = -1,
     te_clock = (0, \<lparr>tv_sec = 100, tv_nsec = 0\<rparr>)\<rparr>"

definition sample_tc :: "'u \<Rightarrow> (nat, 'u) tconn_connect" where
  "sample_tc u = \<lparr>tc_fp_type = CONF_FP_TYPE_MATCH, tc_fingerprint = replicate 32 9, tc_state = TC_RESOLVE,
     tc_addrinfo = False, tc_resolve_timeout = None, tc_tco = sample_tco, tc_res = None, tc_rp = [],
     tc_cnameid = [], tc_conncookie = None, tc_retry_wait = None, tc_user = u\<rparr>"

definition sample_connected :: "(nat, unit) tconn_connect" where
  "sample_connected = (sample_tc ())\<lparr>tc_state := TC_CONNECTED, tc_conncookie := Some 1,
     tc_tco := sample_tco\<lparr>tco_state := TCO_CONNECTED, tco_rx_timeout := Some \<lparr>tv_sec = 90, tv_nsec = 0\<rparr>, tco_fd := 5,
       tco_fd_registered := True, tco_tconn := True, tco_keepalive_timer := Some \<lparr>tv_sec = 80, tv_nsec = 0\<rparr>,
       tco_calls := [Sys_socket 5]\<rparr>\<rparr>"

theorem tconn_connect_faults_witness:
  "tconn_connect_record_send \<lparr>tu_new_conn = \<lambda>_ u. Inr (Some 1, u), tu_record_received = \<lambda>_ _ u. Inr u,
       tu_disconnect = \<lambda>_ u. Inr u\<rparr> (\<lambda>_. sample_tco_env) [1, 2] sample_connected = Inl Iv_fatal"
  by (rule tconn_connect_faults [where has = "\<lambda>_ _. True" and tc = sample_connected, THEN conjunct1, rule_format])
    (auto simp: tc_inv_def sample_connected_def sample_tc_def sample_tco_def tco_live_def user_has_def sample_tco_env_def open_fds_def)

end
