(* ===== verification/Rib_To_Loc.thy ===== *)
theory Rib_To_Loc
  imports Adj_Rib_In Loc_Rib
begin

text \<open>
  \<^verbatim>\<open>src/rib_listener_to_loc.c\<close>: the listener through which the LSAs of a peer's base get into the
  local one, and the proof that it keeps the contract of a listener.
\<close>

section \<open>The listener to a local base\<close>

definition rib_listener_to_loc :: "'v loc_rib rib_listener" where
  "rib_listener_to_loc =
     \<lparr>rl_lsa_add = (\<lambda>a cost. loc_rib_add_lsa a),
      rl_lsa_mod = (\<lambda>a acost b bcost. loc_rib_mod_lsa a b),
      rl_lsa_del = (\<lambda>a cost. loc_rib_del_lsa a)\<rparr>"


text \<open>\<open>rib_listener_to_loc\<close> keeps the contract of a listener, with the invariant above.\<close>

definition loc_rep :: "'v loc_rib \<Rightarrow> (lsa \<times> u32) set \<Rightarrow> bool" where
  "loc_rep rib V \<longleftrightarrow> loc_inv rib \<and> V = unreach (loc_lsas rib)"

interpretation to_loc: rib_client rib_listener_to_loc loc_rep loc_held routable "\<lambda>c. c = RIB_COST_UNREACHABLE"
proof
  fix w :: "'v loc_rib world" and V l c
  assume "loc_rep (snd w) V" "routable l" "c = RIB_COST_UNREACHABLE" "fresh_lsa loc_held (snd w) V l"
  then show "\<exists>w'. rl_lsa_add rib_listener_to_loc l c w = Inr w' \<and> loc_rep (snd w') (insert (l, c) V) \<and> balanced loc_held w w'"
    using loc_add_client [of "snd w" l "fst w"]
    by (auto simp: loc_rep_def rib_listener_to_loc_def fresh_lsa_def balanced_def)
next
  fix w :: "'v loc_rib world" and V a b c d
  assume h: "loc_rep (snd w) V" "(a, c) \<in> V" "routable b" "d = RIB_COST_UNREACHABLE" "lsa_id b = lsa_id a"
    "b = a \<or> fresh_lsa loc_held (snd w) V b"
  then have "b = a \<or> loc_held (snd w) (lsa_ptr b) = 0" by (auto simp: fresh_lsa_def)
  then obtain rc' rib' where md: "loc_rib_mod_lsa a b (fst w, snd w) = Inr (rc', rib')" "loc_inv rib'"
    "loc_lsas rib' = insert b (loc_lsas (snd w) - {a})" "\<forall>p. rc' p - loc_held rib' p = fst w p - loc_held (snd w) p"
    using loc_mod_client [of "snd w" a b "fst w"] h by (auto simp: loc_rep_def)
  have "insert (b, d) (V - {(a, c)}) = unreach (loc_lsas rib')" using h(1,2,4) md(3) by (auto simp: loc_rep_def)
  with md show "\<exists>w'. rl_lsa_mod rib_listener_to_loc a c b d w = Inr w' \<and>
      loc_rep (snd w') (insert (b, d) (V - {(a, c)})) \<and> balanced loc_held w w'"
    by (simp add: loc_rep_def rib_listener_to_loc_def balanced_def)
next
  fix w :: "'v loc_rib world" and V a c
  assume h: "loc_rep (snd w) V" "(a, c) \<in> V"
  then obtain rc' rib' where del: "loc_rib_del_lsa a (fst w, snd w) = Inr (rc', rib')" "loc_inv rib'"
    "loc_lsas rib' = loc_lsas (snd w) - {a}" "\<forall>p. rc' p - loc_held rib' p = fst w p - loc_held (snd w) p"
    using loc_del_client [of "snd w" a "fst w"] by (auto simp: loc_rep_def)
  have "V - {(a, c)} = unreach (loc_lsas rib')" using h del(3) by (auto simp: loc_rep_def)
  with del show "\<exists>w'. rl_lsa_del rib_listener_to_loc a c w = Inr w' \<and>
      loc_rep (snd w') (V - {(a, c)}) \<and> balanced loc_held w w'"
    by (simp add: loc_rep_def rib_listener_to_loc_def balanced_def)
qed

end
