(* ===== verification/Dgp_Reader.thy ===== *)
theory Dgp_Reader
  imports Util Lsa_Deserialise Rib_To_Loc
begin

text \<open>
  \<^verbatim>\<open>src/dgp_reader.c\<close>: what a peer sends on its connection, a stream of LSAs and single zero bytes
  (keepalives), is cut into messages and fed to the routing base of that peer, whose listener
  is the local base.  The results of \<^verbatim>\<open>read\<close>, the clock and the random numbers are arguments.
  The properties: the way the stream is split over the calls does not matter, a stream of what
  \<^verbatim>\<open>dgp_writer\<close> sends is accepted whole, and both bases keep their invariants.
\<close>

section \<open>The code\<close>

definition KEEPALIVE_TIMEOUT :: int where "KEEPALIVE_TIMEOUT = 15"
definition DGP_BUF_SIZE :: nat where "DGP_BUF_SIZE = 65536"

text \<open>
  \<open>dr_buf\<close> holds the first \<^verbatim>\<open>bytes\<close> bytes of the buffer; \<open>dr_keepalive\<close> is the expiry time of the
  timer while it is registered.
\<close>

record 'v dgp_reader =
  dr_myid :: "bytes option"
  dr_remoteid :: "bytes option"
  dr_buf :: bytes
  dr_adj_rib_in :: "'v adj_rib_in"
  dr_keepalive_timeout :: "timespec option"

text \<open>
  The allocator: the address of a new LSA, or none, and whether another small object can be
  allocated.
\<close>

record allocator =
  al_lsa :: "refcounts \<Rightarrow> nat option"
  al_ref :: "refcounts \<Rightarrow> bool"

text \<open>The result of \<^verbatim>\<open>read\<close>, after the calls that were interrupted (\<^verbatim>\<open>EINTR\<close>).\<close>

datatype read_result = Read_data bytes | Read_eof | Read_again | Read_error

definition keepalive_expiry :: "int \<Rightarrow> timespec \<Rightarrow> timespec" where
  "keepalive_expiry rnd now = timespec_add_ms rnd now (1000 * KEEPALIVE_TIMEOUT) (1000 * KEEPALIVE_TIMEOUT)"

definition dgp_reader_register :: "int \<Rightarrow> timespec \<Rightarrow> 'v loc_rib dgp_reader \<Rightarrow> 'v loc_rib dgp_reader" where
  "dgp_reader_register rnd now dr =
     (let dr = dr\<lparr>dr_buf := []\<rparr>;
          dr = (if dr_remoteid dr \<noteq> None then
                  let adj = (dr_adj_rib_in dr)\<lparr>ai_myid := dr_myid dr, ai_remoteid := dr_remoteid dr\<rparr>;
                      adj = adj_rib_in_init adj
                  in dr\<lparr>dr_adj_rib_in := adj_rib_in_listener_register adj rib_listener_to_loc\<rparr>
                else dr)
      in dr\<lparr>dr_keepalive_timeout := Some (keepalive_expiry rnd now)\<rparr>)"

text \<open>What the loop does with an LSA it has read.\<close>

definition dgp_take_lsa ::
  "'k crypto \<Rightarrow> allocator \<Rightarrow> bool \<Rightarrow> lsa \<Rightarrow> 'v adj_rib_in \<times> 'v world \<Rightarrow> ('v adj_rib_in \<times> 'v world) outcome" where
  "dgp_take_lsa cr al store l s =
     (let (adj, w) = s
      in obind (if store then obind (adj_rib_in_add_lsa cr (al_ref al (fst w)) adj l w) (\<lambda>(_, adj, w). Inr (adj, w))
                else Inr (adj, w)) (\<lambda>(adj, rc, v).
         obind (lsa_put rc (Some l)) (\<lambda>rc. Inr (adj, rc, v))))"

text \<open>
  The loop; \<open>rest\<close> is the buffer from \<^verbatim>\<open>off\<close> on, \<open>first\<close> is \<^verbatim>\<open>off == 0\<close>.  The result is the
  value returned and what remains.
\<close>

function dgp_reader_loop ::
  "'k crypto \<Rightarrow> allocator \<Rightarrow> bool \<Rightarrow> bool \<Rightarrow> bytes \<Rightarrow> 'v adj_rib_in \<times> 'v world \<Rightarrow>
   (int \<times> bytes \<times> 'v adj_rib_in \<times> 'v world) outcome" where
  "dgp_reader_loop cr al store first rest s =
     (if rest = [] then Inr (0, rest, s)
      else obind (lsa_deserialise (al_lsa al (fst (snd s))) (fst (snd s)) rest) (\<lambda>(rc, len, lo).
        let s = (fst s, rc, snd (snd s))
        in if len < 0 then Inr (-1, rest, s)
           else if len = 0 then
             (if first \<and> length rest = DGP_BUF_SIZE then Inr (-1, rest, s) else Inr (0, rest, s))
           else obind (case lo of Some l \<Rightarrow> dgp_take_lsa cr al store l s | None \<Rightarrow> Inr s)
             (\<lambda>s. dgp_reader_loop cr al store False (drop (nat len) rest) s)))"
  by pat_completeness auto
termination
  by (relation "measure (\<lambda>(_, _, _, _, rest, _). length rest)") auto

declare dgp_reader_loop.simps [simp del]

text \<open>When -1 is returned the buffer is left as it is (the connection is then closed).\<close>

definition dgp_reader_read ::
  "'k crypto \<Rightarrow> allocator \<Rightarrow> int \<Rightarrow> timespec \<Rightarrow> 'v dgp_reader \<Rightarrow> read_result \<Rightarrow> 'v world \<Rightarrow>
   (int \<times> 'v dgp_reader \<times> 'v world) outcome" where
  "dgp_reader_read cr al rnd now dr ret w =
     (case ret of
        Read_again \<Rightarrow> Inr (0, dr, w)
      | Read_error \<Rightarrow> Inr (-1, dr, w)
      | Read_eof \<Rightarrow> Inr (-1, dr, w)
      | Read_data d \<Rightarrow>
          let dr = dr\<lparr>dr_buf := dr_buf dr @ d, dr_keepalive_timeout := Some (keepalive_expiry rnd now)\<rparr>
          in obind (dgp_reader_loop cr al (dr_remoteid dr \<noteq> None) True (dr_buf dr) (dr_adj_rib_in dr, w))
            (\<lambda>(ret, rest, adj, w).
              if ret < 0 then Inr (-1, dr\<lparr>dr_adj_rib_in := adj\<rparr>, w)
              else Inr (0, dr\<lparr>dr_adj_rib_in := adj, dr_buf := rest\<rparr>, w)))"

definition dgp_reader_unregister ::
  "(lsa list \<Rightarrow> nat) \<Rightarrow> 'k crypto \<Rightarrow> 'v dgp_reader \<Rightarrow> 'v world \<Rightarrow> ('v dgp_reader \<times> 'v world) outcome" where
  "dgp_reader_unregister root cr dr w =
     obind (if dr_remoteid dr \<noteq> None then adj_rib_in_truncate root cr (dr_adj_rib_in dr) w
            else Inr (dr_adj_rib_in dr, w))
       (\<lambda>(adj, w). Inr (dr\<lparr>dr_adj_rib_in := adj, dr_keepalive_timeout := None\<rparr>, w))"

text \<open>The expired timer only tells the user, whose state is \<open>'c\<close>.\<close>

definition dgp_reader_keepalive_timeout :: "('c \<Rightarrow> 'c outcome) \<Rightarrow> 'c \<Rightarrow> 'c outcome" where
  "dgp_reader_keepalive_timeout io_error cookie = io_error cookie"

section \<open>Reading part of a message\<close>

lemma src_read_loop_short:
  "b AND 0x80 \<noteq> 0 \<Longrightarrow> \<forall>c \<in> set xs. c AND 0x80 \<noteq> 0 \<Longrightarrow> cnt + length xs < 9 \<Longrightarrow>
   src_read_loop cnt b v xs = Inl Short_read"
  by (induction xs arbitrary: cnt b v) auto

lemma int_groups_butlast: "b \<in> set (butlast (int_groups k v)) \<Longrightarrow> b AND 0x80 \<noteq> 0"
  by (induction k v rule: int_groups.induct) (auto simp: group_bits split: if_splits)

lemma int_enc_butlast: "b \<in> set (butlast (int_enc v)) \<Longrightarrow> b AND 0x80 \<noteq> 0"
proof -
  assume b: "b \<in> set (butlast (int_enc v))"
  obtain ps where "int_val v = ps @ int_enc v"
    unfolding int_enc_def by (metis takeWhile_dropWhile_id)
  then have "b \<in> set (butlast (int_val v))" using b by (auto simp: butlast_append)
  then show ?thesis unfolding int_val_groups by (rule int_groups_butlast)
qed

lemma read_int_prefix:
  assumes "xs @ ys = int_enc v" "ys \<noteq> []"
  shows "SRC_READ_SIZE_T xs = Inl Short_read"
proof (cases xs)
  case (Cons b bs)
  have len: "length (int_enc v) \<le> 10" by (rule int_enc_length)
  then have short: "0 + length bs < 9" using assms Cons by (cases ys) (auto simp flip: assms(1))
  have "butlast (int_enc v) = xs @ butlast ys" using assms by (simp add: butlast_append flip: assms(1))
  then have bits: "\<forall>c \<in> set xs. c AND 0x80 \<noteq> 0" using int_enc_butlast [of _ v] by auto
  have "b \<noteq> 0x80"
    using assms(1) Cons hd_dropWhile [of "\<lambda>b. b = 0x80" "int_val v"] unfolding int_enc_def
    by (metis append_Cons list.distinct(1) list.sel(1))
  then show ?thesis
    using src_read_loop_short [OF _ _ short, of b] bits Cons
    by (simp add: SRC_READ_SIZE_T_def SRC_READ_UINT64_T_def)
qed (simp add: SRC_READ_SIZE_T_def SRC_READ_UINT64_T_def)

text \<open>A message that is not yet complete is waited for.\<close>

lemma deserialise_prefix:
  assumes "xs @ ys = lsa_enc so preid l" "ys \<noteq> []" "length (lsa_enc so preid l) < 2 ^ 62" "id_ok (lsa_id l)"
  shows "lsa_deserialise malloc rc xs = Inr (rc, 0, None)"
proof -
  define body where "body = lsa_id l @ attrs_enc so preid (lsa_root l)"
  have enc: "lsa_enc so preid l = int_enc (word_of_nat (length body)) @ body"
    by (simp add: lsa_enc_def body_def Let_def)
  have body: "length body < 2 ^ 62" "32 \<le> length body"
    using assms(3,4) by (simp_all add: enc) (simp add: body_def id_ok_def NODE_ID_LEN_def)
  from assms(1) [unfolded enc] consider us where "xs @ us = int_enc (word_of_nat (length body))" "us \<noteq> []"
    | us where "xs = int_enc (word_of_nat (length body)) @ us" "us @ ys = body"
  proof -
    obtain us where "xs @ us = int_enc (word_of_nat (length body)) \<and> ys = us @ body \<or>
        xs = int_enc (word_of_nat (length body)) @ us \<and> us @ ys = body"
      using assms(1) [unfolded enc] by (auto simp: append_eq_append_conv2)
    then show thesis using that(1) [of us] that(2) [of us] that(2) [of "[]"] by (cases "us = []") auto
  qed
  then show ?thesis
  proof cases
    case 1
    then show ?thesis by (simp add: lsa_deserialise_def read_int_prefix)
  next
    case (2 us)
    have us: "length us < length body" using 2(2) assms(2) by (cases ys) auto
    let ?n = "length (int_enc (word_of_nat (length body)))"
    have n: "?n \<le> 10" by (rule int_enc_length(2))
    have pos: "0 < length body" using body(2) by linarith
    have "length body \<le> 9223372036854775807 - ?n" using body(1) n by simp
    then show ?thesis
      using 2(1) us body(1) pos n read_int_enc(2) [of "length body" us]
      by (simp add: lsa_deserialise_def Let_def)
  qed
qed

lemma deserialise_keepalive: "lsa_deserialise malloc rc (0 # rest) = Inr (rc, 1, None)"
proof -
  have "src_read_loop 0 0 0 rest = Inr (0, rest)" by (cases rest) simp_all
  then show ?thesis
    by (simp add: lsa_deserialise_def SRC_READ_SIZE_T_def SRC_READ_UINT64_T_def Let_def)
qed


section \<open>A stream of messages\<close>

datatype dgp_msg = Dgp_keepalive | Dgp_lsa lsa

text \<open>What \<^verbatim>\<open>dgp_writer\<close> sends for a message; \<open>preid\<close> is the id of the sender, put in front of the path.\<close>

definition dgp_wire :: "bytes option \<Rightarrow> dgp_msg \<Rightarrow> bytes" where
  "dgp_wire preid m = (case m of Dgp_keepalive \<Rightarrow> [0] | Dgp_lsa l \<Rightarrow> lsa_enc False preid l)"

definition dgp_stream :: "bytes option \<Rightarrow> dgp_msg list \<Rightarrow> bytes" where
  "dgp_stream preid ms = concat (map (dgp_wire preid) ms)"

definition dgp_msg_ok :: "bytes option \<Rightarrow> dgp_msg \<Rightarrow> bool" where
  "dgp_msg_ok preid m \<longleftrightarrow>
     (case m of Dgp_keepalive \<Rightarrow> True
      | Dgp_lsa l \<Rightarrow> lsa_wf l \<and> adj_lsa_ok (lsa_image False preid l) \<and> list_all (attr_fits 8) (lsa_root l) \<and>
          length (lsa_enc False preid l) \<le> DGP_BUF_SIZE)"

text \<open>The specification: the messages are delivered one by one, each in a fresh object.\<close>

definition dgp_deliver ::
  "'k crypto \<Rightarrow> allocator \<Rightarrow> bool \<Rightarrow> bytes option \<Rightarrow> dgp_msg \<Rightarrow> 'v adj_rib_in \<times> 'v world \<Rightarrow>
   ('v adj_rib_in \<times> 'v world) outcome" where
  "dgp_deliver cr al store preid m s =
     (case (m, s) of
        (Dgp_keepalive, _) \<Rightarrow> Inr s
      | (Dgp_lsa l, adj, rc, v) \<Rightarrow>
          (case al_lsa al rc of
             None \<Rightarrow> Inl Abort
           | Some p \<Rightarrow> dgp_take_lsa cr al store (lsa_image False preid l\<lparr>lsa_ptr := p\<rparr>) (adj, rc(p := 1), v)))"

text \<open>
  An allocator that does not fail, and gives out addresses of objects without references (there
  are such addresses while the objects are finitely many).
\<close>

definition al_ok :: "allocator \<Rightarrow> bool" where
  "al_ok al \<longleftrightarrow> (\<forall>rc. al_lsa al rc \<noteq> None) \<and>
     (\<forall>rc p. finite {q. rc q \<noteq> 0} \<longrightarrow> al_lsa al rc = Some p \<longrightarrow> rc p = 0)"

lemma dgp_wire_length: "dgp_msg_ok preid m \<Longrightarrow> 0 < length (dgp_wire preid m) \<and> length (dgp_wire preid m) \<le> DGP_BUF_SIZE"
  using int_enc_length(1) by (auto simp: dgp_msg_ok_def dgp_wire_def lsa_enc_def Let_def DGP_BUF_SIZE_def split: dgp_msg.splits)

lemma loop_message:
  assumes "dgp_msg_ok preid m" "al_ok al"
  shows "dgp_reader_loop cr al store first (dgp_wire preid m @ rest) s =
    obind (dgp_deliver cr al store preid m s) (dgp_reader_loop cr al store False rest)"
proof -
  obtain adj rc v where s: "s = (adj, rc, v)" by (cases s)
  have "al_lsa al rc \<noteq> None" using assms(2) by (simp add: al_ok_def)
  then obtain p where p: "al_lsa al rc = Some p" by blast
  show ?thesis
  proof (cases m)
    case Dgp_keepalive
    then show ?thesis
      by (subst dgp_reader_loop.simps) (simp add: dgp_wire_def dgp_deliver_def deserialise_keepalive s)
  next
    case (Dgp_lsa l)
    have "0 < length (lsa_enc False preid l)"
      using dgp_wire_length [OF assms(1)] by (simp add: Dgp_lsa dgp_wire_def)
    moreover have "lsa_deserialise (Some p) rc (lsa_enc False preid l @ rest) =
        Inr (rc(p := 1), int (length (lsa_enc False preid l)), Some (lsa_image False preid l\<lparr>lsa_ptr := p\<rparr>))"
      using assms(1) by (intro deserialise_enc_image) (simp_all add: Dgp_lsa dgp_msg_ok_def adj_lsa_ok_def lsa_filled_def)
    ultimately show ?thesis
      by (subst dgp_reader_loop.simps) (auto simp: dgp_wire_def dgp_deliver_def Dgp_lsa s p)
  qed
qed

text \<open>What is left in the buffer: nothing, or the beginning of a message.\<close>

definition dgp_pending :: "bytes option \<Rightarrow> bytes \<Rightarrow> bool" where
  "dgp_pending preid t \<longleftrightarrow> t = [] \<or> (\<exists>m u. dgp_msg_ok preid m \<and> t @ u = dgp_wire preid m \<and> u \<noteq> [])"

lemma loop_pending:
  assumes "dgp_pending preid t"
  shows "dgp_reader_loop cr al store first t s = Inr (0, t, s)"
proof (cases "t = []")
  case True
  then show ?thesis by (simp add: dgp_reader_loop.simps)
next
  case False
  then obtain m u where m: "dgp_msg_ok preid m" "t @ u = dgp_wire preid m" "u \<noteq> []"
    using assms by (auto simp: dgp_pending_def)
  have "length t < DGP_BUF_SIZE" using dgp_wire_length [OF m(1)] m(3) by (cases u) (auto simp flip: m(2))
  moreover have "lsa_deserialise malloc rc t = Inr (rc, 0, None)" for malloc rc
  proof (cases m)
    case Dgp_keepalive
    then show ?thesis using m False by (auto simp: dgp_wire_def append_eq_Cons_conv)
  next
    case (Dgp_lsa l)
    have "length (lsa_enc False preid l) < 2 ^ 62" "id_ok (lsa_id l)"
      using m(1) Dgp_lsa by (auto simp: dgp_msg_ok_def DGP_BUF_SIZE_def lsa_wf_def id_ok_def)
    then show ?thesis using m(2,3) Dgp_lsa by (intro deserialise_prefix) (auto simp: dgp_wire_def)
  qed
  ultimately show ?thesis using False by (subst dgp_reader_loop.simps) simp
qed

lemma loop_stream:
  fixes s :: "'v adj_rib_in \<times> 'v world"
  assumes "list_all (dgp_msg_ok preid) ms" "al_ok al" "dgp_pending preid t"
  shows "dgp_reader_loop cr al store first (dgp_stream preid ms @ t) s =
    obind (ofold (dgp_deliver cr al store preid) ms s) (\<lambda>s. Inr (0, t, s))"
  using assms(1)
proof (induction ms arbitrary: first s)
  case Nil
  then show ?case by (simp add: dgp_stream_def loop_pending [OF assms(3)])
next
  case (Cons m ms)
  have "dgp_reader_loop cr al store False (dgp_stream preid ms @ t) =
      (\<lambda>s :: 'v adj_rib_in \<times> 'v world. obind (ofold (dgp_deliver cr al store preid) ms s) (\<lambda>s. Inr (0, t, s)))"
    by (intro ext, rule Cons.IH) (use Cons.prems in simp)
  then show ?case
    using loop_message [of preid m al cr store first "dgp_stream preid ms @ t" s] Cons.prems assms(2)
    by (simp add: dgp_stream_def obind_assoc)
qed

text \<open>Cutting the stream anywhere leaves whole messages and a beginning of the next.\<close>

lemma stream_cut:
  assumes "list_all (dgp_msg_ok preid) ms" "xs @ ys = dgp_stream preid ms"
  obtains ms1 ms2 t where "ms = ms1 @ ms2" "xs = dgp_stream preid ms1 @ t" "t @ ys = dgp_stream preid ms2"
    "dgp_pending preid t" "t \<noteq> [] \<Longrightarrow> length t < length (dgp_stream preid ms2)"
  using assms
proof (induction ms arbitrary: xs thesis)
  case Nil
  then show ?case by (intro Nil(1) [of "[]" "[]" "[]"]) (auto simp: dgp_stream_def dgp_pending_def)
next
  case (Cons m ms)
  from Cons.prems(3) obtain us where us: "xs = dgp_wire preid m @ us \<and> us @ ys = dgp_stream preid ms \<or>
      xs @ us = dgp_wire preid m \<and> ys = us @ dgp_stream preid ms"
    by (auto simp: dgp_stream_def append_eq_append_conv2)
  show ?case
  proof (cases "\<exists>us. xs = dgp_wire preid m @ us \<and> us @ ys = dgp_stream preid ms")
    case True
    then obtain us where us: "xs = dgp_wire preid m @ us" "us @ ys = dgp_stream preid ms" by auto
    have "list_all (dgp_msg_ok preid) ms" using Cons.prems(2) by simp
    from Cons.IH [OF _ this us(2)] obtain ms1 ms2 t where "ms = ms1 @ ms2" "us = dgp_stream preid ms1 @ t"
      "t @ ys = dgp_stream preid ms2" "dgp_pending preid t" "t \<noteq> [] \<Longrightarrow> length t < length (dgp_stream preid ms2)" by blast
    then show ?thesis using us(1) by (intro Cons.prems(1) [of "m # ms1" ms2 t]) (auto simp: dgp_stream_def)
  next
    case False
    with us have u: "xs @ us = dgp_wire preid m" "ys = us @ dgp_stream preid ms" by auto
    have "us \<noteq> []" using False u by auto
    then have "dgp_pending preid xs" using u(1) Cons.prems(2) by (auto simp: dgp_pending_def)
    moreover have "length xs < length (dgp_wire preid m)" using \<open>us \<noteq> []\<close> by (simp flip: u(1))
    ultimately show ?thesis using u by (intro Cons.prems(1) [of "[]" "m # ms" xs]) (auto simp: dgp_stream_def)
  qed
qed


section \<open>Reading the stream in pieces\<close>

text \<open>A call of \<^verbatim>\<open>dgp_reader_read\<close>: the data, the clock and a random number.  The reading stops at an error.\<close>

fun dgp_reads ::
  "'k crypto \<Rightarrow> allocator \<Rightarrow> (int \<times> timespec \<times> bytes) list \<Rightarrow> 'v dgp_reader \<Rightarrow> 'v world \<Rightarrow>
   (int \<times> 'v dgp_reader \<times> 'v world) outcome" where
  "dgp_reads cr al [] dr w = Inr (0, dr, w)"
| "dgp_reads cr al ((rnd, now, d) # cs) dr w =
     obind (dgp_reader_read cr al rnd now dr (Read_data d) w) (\<lambda>(ret, dr, w).
       if ret < 0 then Inr (ret, dr, w) else dgp_reads cr al cs dr w)"

definition chunks_data :: "(int \<times> timespec \<times> bytes) list \<Rightarrow> bytes" where
  "chunks_data cs = concat (map (\<lambda>(_, _, d). d) cs)"

definition chunks_timer :: "(int \<times> timespec \<times> bytes) list \<Rightarrow> timespec option \<Rightarrow> timespec option" where
  "chunks_timer cs t = (if cs = [] then t else case last cs of (rnd, now, _) \<Rightarrow> Some (keepalive_expiry rnd now))"

lemma reads_stream:
  assumes "list_all (dgp_msg_ok preid) ms" "al_ok al" "dgp_pending preid (dr_buf dr)"
    and "dr_buf dr @ chunks_data cs = dgp_stream preid ms" "dr_buf dr \<noteq> [] \<Longrightarrow> length (dr_buf dr) < length (dgp_stream preid ms)"
  shows "dgp_reads cr al cs dr w =
    obind (ofold (dgp_deliver cr al (dr_remoteid dr \<noteq> None) preid) ms (dr_adj_rib_in dr, w))
      (\<lambda>(adj, w). Inr (0, dr\<lparr>dr_buf := [], dr_adj_rib_in := adj,
         dr_keepalive_timeout := chunks_timer cs (dr_keepalive_timeout dr)\<rparr>, w))"
  using assms(1,3-5)
proof (induction cs arbitrary: dr w ms)
  case Nil
  then have buf: "dr_buf dr = []" by (auto simp: chunks_data_def)
  then have "dgp_stream preid ms = []" using Nil by (simp add: chunks_data_def)
  then have "ms = []"
    using Nil.prems(1) dgp_wire_length by (cases ms) (auto simp: dgp_stream_def)
  then show ?case using buf by (cases dr) (simp add: chunks_timer_def)
next
  case (Cons c cs)
  obtain rnd now d where c: "c = (rnd, now, d)" by (cases c)
  let ?store = "dr_remoteid dr \<noteq> None"
  have "(dr_buf dr @ d) @ chunks_data cs = dgp_stream preid ms"
    using Cons.prems(3) by (simp add: c chunks_data_def)
  from stream_cut [OF Cons.prems(1) this] obtain ms1 ms2 t where cut: "ms = ms1 @ ms2"
    "dr_buf dr @ d = dgp_stream preid ms1 @ t" "t @ chunks_data cs = dgp_stream preid ms2"
    "dgp_pending preid t" "t \<noteq> [] \<Longrightarrow> length t < length (dgp_stream preid ms2)" by blast
  have ok: "list_all (dgp_msg_ok preid) ms1" "list_all (dgp_msg_ok preid) ms2" using Cons.prems(1) cut(1) by auto
  define dr1 where "dr1 adj = dr\<lparr>dr_keepalive_timeout := Some (keepalive_expiry rnd now),
      dr_adj_rib_in := adj, dr_buf := t\<rparr>" for adj
  have read: "dgp_reader_read cr al rnd now dr (Read_data d) w =
      obind (ofold (dgp_deliver cr al ?store preid) ms1 (dr_adj_rib_in dr, w)) (\<lambda>(adj, w). Inr (0, dr1 adj, w))"
    using loop_stream [OF ok(1) assms(2) cut(4), of cr ?store True "(dr_adj_rib_in dr, w)"]
    by (simp add: dgp_reader_read_def Let_def cut(2) dr1_def obind_assoc case_prod_beta')
  have fin: "(dr1 adj)\<lparr>dr_buf := [], dr_adj_rib_in := adj', dr_keepalive_timeout := x\<rparr> =
      dr\<lparr>dr_buf := [], dr_adj_rib_in := adj', dr_keepalive_timeout := x\<rparr>" for adj adj' x
    by (simp add: dr1_def)
  have timer: "chunks_timer cs (dr_keepalive_timeout (dr1 adj)) = chunks_timer (c # cs) (dr_keepalive_timeout dr)" for adj
    by (simp add: chunks_timer_def c dr1_def)
  have rest: "dgp_reads cr al cs (dr1 adj) w = obind (ofold (dgp_deliver cr al ?store preid) ms2 (adj, w))
      (\<lambda>(adj', w). Inr (0, dr\<lparr>dr_buf := [], dr_adj_rib_in := adj',
         dr_keepalive_timeout := chunks_timer (c # cs) (dr_keepalive_timeout dr)\<rparr>, w))" for adj w
    using Cons.IH [OF ok(2), of "dr1 adj" w] cut(3-5) unfolding fin timer by (simp add: dr1_def)
  show ?case
    unfolding c dgp_reads.simps read cut(1) ofold_append
    by (simp add: obind_assoc case_prod_beta' rest [unfolded c] del: split_paired_All)
qed


section \<open>The invariant\<close>

text \<open>
  The base of the peer is sound, the local base knows every LSA that passed its filter, and
  each reference the two bases hold is counted.
\<close>

definition dgp_inv :: "'k crypto \<Rightarrow> 'v loc_rib adj_rib_in \<Rightarrow> 'v loc_rib world \<Rightarrow> bool" where
  "dgp_inv cr adj w \<longleftrightarrow> crypto_ok cr \<and> ids_ok adj \<and> adj_inv cr adj \<and> ai_listeners adj = [rib_listener_to_loc] \<and>
     loc_inv (snd w) \<and> accepted cr adj \<subseteq> loc_lsas (snd w) \<and>
     (\<forall>p. adj_held adj p + loc_held (snd w) p \<le> fst w p) \<and> finite {p. fst w p \<noteq> 0}"

text \<open>What a call changes: the local base follows what passes the filter, and no reference is lost.\<close>

definition dgp_moves ::
  "'k crypto \<Rightarrow> 'v loc_rib adj_rib_in \<Rightarrow> 'v loc_rib world \<Rightarrow> 'v loc_rib adj_rib_in \<Rightarrow> 'v loc_rib world \<Rightarrow> bool" where
  "dgp_moves cr adj w adj' w' \<longleftrightarrow>
     loc_lsas (snd w') = loc_lsas (snd w) - accepted cr adj \<union> accepted cr adj' \<and>
     loc_lsas (snd w) \<inter> accepted cr adj' \<subseteq> accepted cr adj \<and>
     (\<forall>p. fst w' p - adj_held adj' p - loc_held (snd w') p = fst w p - adj_held adj p - loc_held (snd w) p)"

lemma routable_valid: "adj_lsa_ok l \<Longrightarrow> lsa_valid cr rib l \<Longrightarrow> routable l"
  by (auto simp: routable_def adj_lsa_ok_def lsa_valid_def lsa_path_valid_def)

lemma dgp_inv_pre: "dgp_inv cr adj w \<Longrightarrow> to_loc.adj_pre cr adj w (unreach (loc_lsas (snd w)))"
  by (auto simp: dgp_inv_def to_loc.adj_pre_def loc_rep_def told_def routable_valid)

lemma held_nonneg: "0 \<le> adj_held adj p" "0 \<le> loc_held rib p"
  by (simp_all add: adj_held_def loc_held_def)

lemma held_support:
  "adj_held adj p \<noteq> 0 \<Longrightarrow> p \<in> lsa_ptr ` set (ai_lsas adj)"
  "loc_held rib p \<noteq> 0 \<Longrightarrow> p \<in> lsa_ptr ` (loc_lsas rib \<union> loc_bests rib)"
proof -
  show "adj_held adj p \<noteq> 0 \<Longrightarrow> p \<in> lsa_ptr ` set (ai_lsas adj)"
    by (auto simp: adj_held_def split: if_splits)
  show "loc_held rib p \<noteq> 0 \<Longrightarrow> p \<in> lsa_ptr ` (loc_lsas rib \<union> loc_bests rib)"
    by (auto simp: loc_held_def rid_held_def loc_lsas_def rid_lsas_def loc_bests_def split: option.splits if_splits)
      force+
qed

lemma loc_finite: "finite (loc_lsas rib)" "finite (loc_bests rib)"
  by (simp_all add: loc_lsas_def rid_lsas_def loc_bests_def)

lemma refs_finite:
  assumes "dgp_inv cr adj w" "\<forall>p. rc p - adj_held adj' p - loc_held rib p = fst w p - adj_held adj p - loc_held (snd w) p"
  shows "finite {p. rc p \<noteq> 0}"
proof -
  have "{p. rc p \<noteq> 0} \<subseteq> {p. fst w p \<noteq> 0} \<union> lsa_ptr ` set (ai_lsas adj) \<union> lsa_ptr ` (loc_lsas (snd w) \<union> loc_bests (snd w)) \<union>
      lsa_ptr ` set (ai_lsas adj') \<union> lsa_ptr ` (loc_lsas rib \<union> loc_bests rib)"
  proof
    fix p assume p: "p \<in> {p. rc p \<noteq> 0}"
    show "p \<in> {p. fst w p \<noteq> 0} \<union> lsa_ptr ` set (ai_lsas adj) \<union> lsa_ptr ` (loc_lsas (snd w) \<union> loc_bests (snd w)) \<union>
      lsa_ptr ` set (ai_lsas adj') \<union> lsa_ptr ` (loc_lsas rib \<union> loc_bests rib)"
    proof (rule ccontr)
      assume "\<not> ?thesis"
      then have "fst w p = 0" "adj_held adj p = 0" "loc_held (snd w) p = 0" "adj_held adj' p = 0" "loc_held rib p = 0"
        using held_support(1) [of adj p] held_support(1) [of adj' p] held_support(2) [of "snd w" p] held_support(2) [of rib p]
        by blast+
      moreover have "rc p - adj_held adj' p - loc_held rib p = fst w p - adj_held adj p - loc_held (snd w) p"
        using assms(2) by blast
      ultimately show False using p by simp
    qed
  qed
  then show ?thesis
    by (rule finite_subset) (use assms(1) in \<open>simp add: loc_finite dgp_inv_def\<close>)
qed

lemma unreach_inj: "unreach A = unreach B \<longleftrightarrow> A = B"
  by (rule inj_image_eq_iff) (auto simp: inj_def)

lemma unreach_diff: "unreach A - unreach B \<union> unreach C = unreach (A - B \<union> C)"
  by auto

text \<open>A move of the base of the peer, as the theory of its listeners describes it, is one here.\<close>

lemma moves_inv:
  assumes inv: "dgp_inv cr adj w"
    and "adj_moves cr loc_rep loc_held (unreach (loc_lsas (snd w))) adj (rc, snd w) adj' (rc', v')"
    and slack: "\<forall>p. rc'' p - rc' p = fst w p - rc p"
  shows "dgp_inv cr adj' (rc'', v')" "dgp_moves cr adj w adj' (rc'', v')"
proof -
  from assms(2) have m: "adj_inv cr adj'" "ai_listeners adj' = ai_listeners adj" "ai_myid adj' = ai_myid adj"
    "ai_remoteid adj' = ai_remoteid adj" "loc_rep v' (unreach (loc_lsas (snd w)) - told cr adj \<union> told cr adj')"
    "unreach (loc_lsas (snd w)) \<inter> told cr adj' \<subseteq> told cr adj"
    "\<forall>p. rc' p - loc_held v' p - adj_held adj' p = rc p - loc_held (snd w) p - adj_held adj p"
    by (auto simp: adj_moves_def)
  have lsas: "loc_inv v'" "loc_lsas v' = loc_lsas (snd w) - accepted cr adj \<union> accepted cr adj'"
    using m(5) by (simp_all add: loc_rep_def told_def unreach_diff unreach_inj)
  have sl: "rc'' p - adj_held adj' p - loc_held v' p = fst w p - adj_held adj p - loc_held (snd w) p" for p
  proof -
    have "rc' p - loc_held v' p - adj_held adj' p = rc p - loc_held (snd w) p - adj_held adj p"
      "rc'' p - rc' p = fst w p - rc p" using m(7) slack by blast+
    then show ?thesis by linarith
  qed
  then show "dgp_moves cr adj w adj' (rc'', v')"
    using lsas m(6) by (auto simp: dgp_moves_def told_def)
  have "adj_held adj' p + loc_held v' p \<le> rc'' p" for p
  proof -
    have "adj_held adj p + loc_held (snd w) p \<le> fst w p" using inv by (simp add: dgp_inv_def)
    with sl [of p] show ?thesis by linarith
  qed
  moreover have "finite {p. rc'' p \<noteq> 0}" by (rule refs_finite [OF inv, of _ adj' v']) (use sl in simp)
  moreover have "ids_ok adj'" using inv m(3,4) by (simp add: dgp_inv_def ids_ok_def)
  ultimately show "dgp_inv cr adj' (rc'', v')"
    using inv m(1,2) lsas by (simp add: dgp_inv_def)
qed

lemma take_lsa_inv:
  assumes inv: "dgp_inv cr adj (rc, v)" and p: "rc p = 0" and l: "adj_lsa_ok l" "lsa_ptr l = p"
  shows "\<exists>adj' rc' v'. dgp_take_lsa cr al True l (adj, rc(p := 1), v) = Inr (adj', rc', v') \<and>
    dgp_inv cr adj' (rc', v') \<and> dgp_moves cr adj (rc, v) adj' (rc', v') \<and>
    ai_lsas adj' = adj_stored (al_ref al (rc(p := 1))) adj l"
proof -
  have "to_loc.adj_pre cr adj (rc, v) (unreach (loc_lsas v))" using dgp_inv_pre [OF inv] by simp
  then have pre: "to_loc.adj_pre cr adj (rc(p := 1), v) (unreach (loc_lsas v))" by (simp add: to_loc.adj_pre_def)
  have held: "adj_held adj p + loc_held v p \<le> rc p" using inv by (simp add: dgp_inv_def)
  then have zero: "loc_held v p = 0" using held_nonneg(1) [of adj p] held_nonneg(2) [of v p] p by simp
  then have "p \<notin> lsa_ptr ` loc_lsas v" using held_zero [of v p] by auto
  then have fresh: "fresh_lsa loc_held v (unreach (loc_lsas v)) l"
    using zero l(2) by (auto simp: fresh_lsa_def)
  obtain ret adj' rc' v' where add: "adj_rib_in_add_lsa cr (al_ref al (rc(p := 1))) adj l (rc(p := 1), v) = Inr (ret, adj', rc', v')"
    "adj_moves cr loc_rep loc_held (unreach (loc_lsas v)) adj (rc(p := 1), v) adj' (rc', v')"
    "ai_lsas adj' = adj_stored (al_ref al (rc(p := 1))) adj l"
    using to_loc.add_lsa_client [OF pre l(1), of "al_ref al (rc(p := 1))"] fresh by auto
  define rc'' where "rc'' = rc'(p := rc' p - 1)"
  have "lsa_put rc' (Some l) = Inr rc''"
    using l lsa_put_filled [of l rc'] by (simp add: adj_lsa_ok_def rc''_def)
  then have run: "dgp_take_lsa cr al True l (adj, rc(p := 1), v) = Inr (adj', rc'', v')"
    by (simp add: dgp_take_lsa_def add(1))
  have mv: "adj_moves cr loc_rep loc_held (unreach (loc_lsas (snd (rc, v)))) adj (rc(p := 1), snd (rc, v)) adj' (rc', v')"
    using add(2) by simp
  have "\<forall>q. rc'' q - rc' q = fst (rc, v) q - (rc(p := 1)) q" by (simp add: rc''_def p)
  note m = moves_inv [OF inv mv this]
  show ?thesis using run m add(3) by blast
qed

lemma deliver_inv:
  assumes "dgp_inv cr adj w" "dgp_msg_ok preid m" "al_ok al"
  shows "\<exists>adj' w'. dgp_deliver cr al True preid m (adj, w) = Inr (adj', w') \<and> dgp_inv cr adj' w' \<and>
    dgp_moves cr adj w adj' w'"
proof (cases m)
  case Dgp_keepalive
  then show ?thesis using assms(1)
    by (auto simp: dgp_deliver_def dgp_moves_def dgp_inv_def)
next
  case (Dgp_lsa l)
  obtain rc v where w: "w = (rc, v)" by (cases w)
  have "al_lsa al rc \<noteq> None" using assms(3) by (simp add: al_ok_def)
  then obtain p where p: "al_lsa al rc = Some p" by blast
  have "finite {q. rc q \<noteq> 0}" using assms(1) by (simp add: dgp_inv_def w)
  then have "rc p = 0" using assms(3) p unfolding al_ok_def by blast
  moreover have "adj_lsa_ok (lsa_image False preid l\<lparr>lsa_ptr := p\<rparr>)"
    using assms(2) by (simp add: Dgp_lsa dgp_msg_ok_def adj_lsa_ok_def lsa_filled_def lsa_wf_def)
  ultimately show ?thesis
    using take_lsa_inv [of cr adj rc v p "lsa_image False preid l\<lparr>lsa_ptr := p\<rparr>" al] assms(1)
    by (auto simp: dgp_deliver_def Dgp_lsa w p)
qed

lemma dgp_moves_trans:
  assumes "dgp_moves cr adj w adj1 w1" "dgp_moves cr adj1 w1 adj2 w2" "accepted cr adj1 \<subseteq> loc_lsas (snd w1)"
  shows "dgp_moves cr adj w adj2 w2"
  unfolding dgp_moves_def
proof (intro conjI allI)
  show "loc_lsas (snd w2) = loc_lsas (snd w) - accepted cr adj \<union> accepted cr adj2"
    "loc_lsas (snd w) \<inter> accepted cr adj2 \<subseteq> accepted cr adj"
    using assms unfolding dgp_moves_def by blast+
  show "fst w2 p - adj_held adj2 p - loc_held (snd w2) p = fst w p - adj_held adj p - loc_held (snd w) p" for p
    using assms(1,2) by (simp add: dgp_moves_def)
qed

lemma delivers_inv:
  assumes "dgp_inv cr adj w" "list_all (dgp_msg_ok preid) ms" "al_ok al"
  shows "\<exists>adj' w'. ofold (dgp_deliver cr al True preid) ms (adj, w) = Inr (adj', w') \<and> dgp_inv cr adj' w' \<and>
    dgp_moves cr adj w adj' w'"
  using assms(1,2)
proof (induction ms arbitrary: adj w)
  case Nil
  then show ?case by (auto simp: dgp_moves_def dgp_inv_def)
next
  case (Cons m ms)
  then obtain adj1 w1 where 1: "dgp_deliver cr al True preid m (adj, w) = Inr (adj1, w1)" "dgp_inv cr adj1 w1"
    "dgp_moves cr adj w adj1 w1"
    using deliver_inv [of cr adj w preid m al] assms(3) by auto
  then obtain adj2 w2 where 2: "ofold (dgp_deliver cr al True preid) ms (adj1, w1) = Inr (adj2, w2)" "dgp_inv cr adj2 w2"
    "dgp_moves cr adj1 w1 adj2 w2"
    using Cons.IH [OF 1(2)] Cons.prems(2) by auto
  have "accepted cr adj1 \<subseteq> loc_lsas (snd w1)" using 1(2) by (simp add: dgp_inv_def)
  with 1 2 show ?case using dgp_moves_trans by fastforce
qed


lemma truncate_inv:
  assumes inv: "dgp_inv cr adj w"
  shows "\<exists>adj' w'. adj_rib_in_truncate root cr adj w = Inr (adj', w') \<and> dgp_inv cr adj' w' \<and>
    dgp_moves cr adj w adj' w' \<and> ai_lsas adj' = []"
proof -
  obtain rc v where w: "w = (rc, v)" by (cases w)
  obtain adj' w' where t: "adj_truncate_loop (length (ai_lsas adj)) root cr adj w = Inr (adj', w')"
    "adj_moves cr loc_rep loc_held (unreach (loc_lsas (snd w))) adj w adj' w'" "ai_lsas adj' = []"
    using to_loc.truncate_loop_client [OF dgp_inv_pre [OF inv], of "length (ai_lsas adj)" root] by auto
  obtain rc' v' where w': "w' = (rc', v')" by (cases w')
  have mv: "adj_moves cr loc_rep loc_held (unreach (loc_lsas (snd w))) adj (rc, snd w) adj' (rc', v')"
    using t(2) by (simp add: w w')
  have "\<forall>p. rc' p - rc' p = fst w p - rc p" by (simp add: w)
  note m = moves_inv [OF inv mv this]
  show ?thesis using t m by (auto simp: adj_rib_in_truncate_def w')
qed

lemma reads_sound:
  assumes "dgp_inv cr (dr_adj_rib_in dr) w" "dr_remoteid dr \<noteq> None" "dr_buf dr = []" "al_ok al"
    and "list_all (dgp_msg_ok preid) ms" "chunks_data cs = dgp_stream preid ms"
  shows "\<exists>dr' w'. dgp_reads cr al cs dr w = Inr (0, dr', w') \<and> dr_buf dr' = [] \<and>
    dgp_inv cr (dr_adj_rib_in dr') w' \<and> dgp_moves cr (dr_adj_rib_in dr) w (dr_adj_rib_in dr') w'"
proof -
  obtain adj' w' where "ofold (dgp_deliver cr al True preid) ms (dr_adj_rib_in dr, w) = Inr (adj', w')" "dgp_inv cr adj' w'"
    "dgp_moves cr (dr_adj_rib_in dr) w adj' w'"
    using delivers_inv [OF assms(1,5,4)] by blast
  then show ?thesis
    using reads_stream [of preid ms al dr cs cr w] assms by (auto simp: dgp_pending_def)
qed

section \<open>Properties\<close>

text \<open>
  C18: however the stream of messages is cut into the pieces that \<^verbatim>\<open>read\<close> returns, all of it is
  consumed, and the effect is that of taking the messages one after the other, each LSA in a
  fresh object with the sender's id in front of its path.
\<close>

theorem dgp_reader_framing:
  assumes "list_all (dgp_msg_ok preid) ms" "al_ok al" "dr_buf dr = []" "chunks_data cs = dgp_stream preid ms"
  shows "dgp_reads cr al cs dr w =
    obind (ofold (dgp_deliver cr al (dr_remoteid dr \<noteq> None) preid) ms (dr_adj_rib_in dr, w))
      (\<lambda>(adj, w). Inr (0, dr\<lparr>dr_buf := [], dr_adj_rib_in := adj,
         dr_keepalive_timeout := chunks_timer cs (dr_keepalive_timeout dr)\<rparr>, w))"
  by (rule reads_stream) (use assms in \<open>auto simp: dgp_pending_def\<close>)

text \<open>
  C17: an LSA from a peer is stored, replaced, deleted or refused as \<open>adj_stored\<close> says (an LSA
  without attributes deletes; so does one that would exceed the limit, but reports failure; one
  with the same attributes changes nothing); the process does not stop, the invariants hold and the
  references balance.
\<close>

theorem adj_rib_in_add_lsa_correct:
  assumes "dgp_inv cr adj (rc, v)" "rc (lsa_ptr l) = 0" "adj_lsa_ok l"
  shows "\<exists>adj' w'. dgp_take_lsa cr al True l (adj, rc(lsa_ptr l := 1), v) = Inr (adj', w') \<and>
    ai_lsas adj' = adj_stored (al_ref al (rc(lsa_ptr l := 1))) adj l \<and>
    dgp_inv cr adj' w' \<and> dgp_moves cr adj (rc, v) adj' w'"
  using take_lsa_inv [of cr adj rc v "lsa_ptr l" l al] assms by blast

text \<open>
  C20: when the connection ends, the peer's base is emptied whatever the order its tree gives, and
  every LSA this peer had in the local base is gone from there.
\<close>

theorem dgp_reader_unregister_empties:
  assumes "dgp_inv cr (dr_adj_rib_in dr) w" "dr_remoteid dr \<noteq> None"
  shows "\<exists>dr' w'. dgp_reader_unregister root cr dr w = Inr (dr', w') \<and> ai_lsas (dr_adj_rib_in dr') = [] \<and>
    dr_keepalive_timeout dr' = None \<and> loc_inv (snd w') \<and>
    loc_lsas (snd w') = loc_lsas (snd w) - accepted cr (dr_adj_rib_in dr) \<and>
    (\<forall>p. fst w' p - loc_held (snd w') p = fst w p - loc_held (snd w) p - adj_held (dr_adj_rib_in dr) p)"
proof -
  obtain adj' w' where t: "adj_rib_in_truncate root cr (dr_adj_rib_in dr) w = Inr (adj', w')" "dgp_inv cr adj' w'"
    "dgp_moves cr (dr_adj_rib_in dr) w adj' w'" "ai_lsas adj' = []"
    using truncate_inv [OF assms(1)] by blast
  moreover have "accepted cr adj' = {}" "adj_held adj' p = 0" for p using t(4) by (simp_all add: accepted_def adj_held_def)
  ultimately show ?thesis
    using assms(2) by (auto simp: dgp_reader_unregister_def dgp_moves_def dgp_inv_def)
qed

section \<open>Examples\<close>

definition sample_crypto :: "bytes crypto" where
  "sample_crypto = \<lparr>sha256 = \<lambda>_. replicate 32 7, pubkey_init = True, pubkey_import = Some,
      pubkey_verify = \<lambda>k d s. k = [8] \<and> s = [1], set_image = \<lambda>_. []\<rparr>"

definition sample_adj :: "unit loc_rib adj_rib_in" where
  "sample_adj = \<lparr>ai_myid = Some (replicate 32 3), ai_remoteid = Some (replicate 32 9), ai_lsas = [], ai_size = 0,
      ai_listeners = [rib_listener_to_loc]\<rparr>"

definition sample_reader :: "unit loc_rib dgp_reader" where
  "sample_reader = \<lparr>dr_myid = Some (replicate 32 3), dr_remoteid = Some (replicate 32 9), dr_buf = [],
      dr_adj_rib_in = sample_adj, dr_keepalive_timeout = None\<rparr>"

definition sample_allocator :: allocator where
  "sample_allocator = \<lparr>al_lsa = \<lambda>rc. Some (LEAST p. rc p = 0), al_ref = \<lambda>_. True\<rparr>"

lemma sample_allocator_ok: "al_ok sample_allocator"
proof -
  have "rc (LEAST p. rc p = 0) = 0" if "finite {q. rc q \<noteq> 0}" for rc :: refcounts
  proof -
    have "\<exists>p. rc p = 0" using ex_new_if_finite [OF infinite_UNIV_nat that] by auto
    then show ?thesis by (rule LeastI_ex)
  qed
  then show ?thesis by (simp add: al_ok_def sample_allocator_def)
qed

lemma sample_image: "lsa_image False (Some (replicate 32 m)) (sample_lsa p n hops) = sample_lsa p n (m # hops)"
  by (simp add: lsa_image_def attrs_image_def sample_lsa_def lsa_type_defs sample_path
      MAX_SERIALISED_INT_LEN_def NODE_ID_LEN_def)

lemma sample_adj_lsa_ok: "length hops < 100 \<Longrightarrow> adj_lsa_ok (sample_lsa p n hops)"
  using sample_routable [of hops p n]
  by (simp add: adj_lsa_ok_def routable_def sample_lsa_def attr_diffable_def sample_path
      MAX_SERIALISED_INT_LEN_def)

lemma sample_msg_ok:
  assumes "length hops < 99"
  shows "dgp_msg_ok (Some (replicate 32 m)) (Dgp_lsa (sample_lsa p n hops))"
proof -
  have ok: "adj_lsa_ok (sample_lsa p n (m # hops))" "adj_lsa_ok (sample_lsa p n hops)"
    using assms by (auto intro: sample_adj_lsa_ok)
  have "lsa_wf (sample_lsa p n hops)" using ok(2) by (rule adj_lsa_ok_wf)
  moreover have "length (lsa_enc False (Some (replicate 32 m)) (sample_lsa p n hops)) \<le> DGP_BUF_SIZE"
  proof -
    have "length (attrs_enc False (Some (replicate 32 m)) (lsa_root (sample_lsa p n hops))) \<le>
        attrs_total (lsa_root (sample_lsa p n hops)) + NODE_ID_LEN"
      by (rule attrs_enc_length)
        (use assms in \<open>simp_all add: sample_lsa_def sample_path preid_ok_def NODE_ID_LEN_def MAX_SERIALISED_INT_LEN_def\<close>)
    moreover have "length (lsa_id (sample_lsa p n hops)) = NODE_ID_LEN" by (simp add: sample_lsa_def NODE_ID_LEN_def)
    ultimately have "length (lsa_enc False (Some (replicate 32 m)) (sample_lsa p n hops)) \<le>
        10 + NODE_ID_LEN + (attrs_total (lsa_root (sample_lsa p n hops)) + NODE_ID_LEN)"
      using length_lsa_enc [of "sample_lsa p n hops" False "Some (replicate 32 m)"] by linarith
    also have "\<dots> \<le> DGP_BUF_SIZE"
      using assms by (simp add: sample_lsa_def sample_path DGP_BUF_SIZE_def NODE_ID_LEN_def MAX_SERIALISED_INT_LEN_def)
    finally show ?thesis .
  qed
  ultimately show ?thesis using ok by (simp add: dgp_msg_ok_def sample_image) (simp add: sample_lsa_def)
qed

lemma sample_inv: "routable l \<Longrightarrow> dgp_inv sample_crypto sample_adj (\<lambda>p. if p = lsa_ptr l then 1 else 0, sample_rib [] l)"
  using sample_rib_inv [of l]
  by (auto simp: dgp_inv_def sample_crypto_def crypto_ok_def id_ok_def NODE_ID_LEN_def ids_ok_def sample_adj_def
      adj_inv_def accepted_def accepted_bytes_def ADJ_RIB_IN_MAX_BYTES_def adj_held_def loc_held_def
      rid_held_def sample_rib_def)


text \<open>A stream of an LSA and a keepalive, cut after its third byte.\<close>

definition sample_msgs :: "dgp_msg list" where
  "sample_msgs = [Dgp_lsa (sample_lsa 4 7 [7]), Dgp_keepalive]"

definition sample_chunks :: "(int \<times> timespec \<times> bytes) list" where
  "sample_chunks =
     [(0, \<lparr>tv_sec = 1, tv_nsec = 0\<rparr>, take 3 (dgp_stream (Some (replicate 32 9)) sample_msgs)),
      (0, \<lparr>tv_sec = 2, tv_nsec = 0\<rparr>, drop 3 (dgp_stream (Some (replicate 32 9)) sample_msgs))]"

lemma sample_msgs_ok: "list_all (dgp_msg_ok (Some (replicate 32 9))) sample_msgs"
  using sample_msg_ok [of "[7]" 9 4 7] by (simp add: sample_msgs_def) (simp add: dgp_msg_ok_def)

lemma sample_chunks_data: "chunks_data sample_chunks = dgp_stream (Some (replicate 32 9)) sample_msgs"
  by (simp add: chunks_data_def sample_chunks_def)

definition sample_world :: "unit loc_rib world" where
  "sample_world = (\<lambda>p. if p = 5 then 1 else 0, sample_rib [] (sample_lsa 5 8 [6]))"

lemma sample_world_inv: "dgp_inv sample_crypto sample_adj sample_world"
proof -
  have "lsa_ptr (sample_lsa 5 8 [6]) = 5" by (simp add: sample_lsa_def)
  then show ?thesis using sample_inv [OF sample_routable [of "[6]" 5 8]] by (simp add: sample_world_def)
qed

theorem dgp_reader_framing_witness:
  "dgp_reads sample_crypto sample_allocator sample_chunks sample_reader sample_world =
    obind (ofold (dgp_deliver sample_crypto sample_allocator True (Some (replicate 32 9))) sample_msgs (sample_adj, sample_world))
      (\<lambda>(adj, w). Inr (0, sample_reader\<lparr>dr_adj_rib_in := adj,
         dr_keepalive_timeout := Some \<lparr>tv_sec = 17, tv_nsec = 0\<rparr>\<rparr>, w))"
  using dgp_reader_framing [OF sample_msgs_ok sample_allocator_ok _ sample_chunks_data, of sample_reader sample_crypto sample_world]
  by (simp add: sample_reader_def chunks_timer_def)
    (simp add: sample_chunks_def keepalive_expiry_def timespec_add_ms_def KEEPALIVE_TIMEOUT_def RAND_MAX_def)

theorem adj_rib_in_add_lsa_correct_witness:
  "\<exists>adj' w'. dgp_take_lsa sample_crypto sample_allocator True (sample_lsa 7 4 [9])
      (sample_adj, (\<lambda>p. if p = 5 then 1 else 0)(7 := 1), snd sample_world) = Inr (adj', w') \<and>
    ai_lsas adj' = [sample_lsa 7 4 [9]] \<and> dgp_inv sample_crypto adj' w'"
proof -
  let ?l = "sample_lsa 7 4 [9]"
  have "lsa_ptr ?l = 7" by (simp add: sample_lsa_def)
  moreover have "adj_stored True sample_adj ?l = [?l]"
    by (simp add: adj_stored_def sample_adj_def adj_overflow_def ADJ_RIB_IN_MAX_BYTES_def) (simp add: sample_lsa_def)
  moreover have "dgp_inv sample_crypto sample_adj (\<lambda>p. if p = 5 then 1 else 0, snd sample_world)"
    using sample_world_inv by (simp add: sample_world_def)
  moreover have "al_ref sample_allocator rc" for rc by (simp add: sample_allocator_def)
  ultimately show ?thesis
    using adj_rib_in_add_lsa_correct [of sample_crypto sample_adj "\<lambda>p. if p = 5 then 1 else 0" "snd sample_world" ?l sample_allocator]
      sample_adj_lsa_ok [of "[9]" 7 4]
    by auto
qed

theorem dgp_reader_unregister_empties_witness:
  "\<exists>dr' w'. dgp_reader_unregister (\<lambda>_. 0) sample_crypto sample_reader sample_world = Inr (dr', w') \<and>
    ai_lsas (dr_adj_rib_in dr') = [] \<and> loc_lsas (snd w') = {sample_lsa 5 8 [6]}"
proof -
  have "dgp_inv sample_crypto (dr_adj_rib_in sample_reader) sample_world" "dr_remoteid sample_reader \<noteq> None"
    "accepted sample_crypto (dr_adj_rib_in sample_reader) = {}"
    using sample_world_inv by (simp_all add: sample_reader_def) (simp add: accepted_def sample_adj_def)
  moreover have "loc_lsas (snd sample_world) = {sample_lsa 5 8 [6]}"
    using sample_rib_inv(2) [OF sample_routable [of "[6]" 5 8]] by (simp add: sample_world_def)
  ultimately show ?thesis
    using dgp_reader_unregister_empties [of sample_crypto sample_reader sample_world "\<lambda>_. 0"] by fastforce
qed

end
