(* ===== verification/Dgp_Writer.thy ===== *)
theory Dgp_Writer
  imports Dgp_Reader Loc_Best
begin

text \<open>
  \<^verbatim>\<open>src/dgp_writer.c\<close>: sends the best LSAs of the local base to a peer, and keepalives when there is
  nothing to send.  The writer is a listener of the local base.  The socket, the clock and the
  user's \<^verbatim>\<open>io_error\<close> are parameters.  The property: what has been sent, read as messages,
  always says exactly which best LSAs may go to this peer.
\<close>

section \<open>The code\<close>

definition KEEPALIVE_INTERVAL :: int where "KEEPALIVE_INTERVAL = 10"

text \<open>
  \<open>'s\<close> is the state behind the file descriptor and the cookie.  \<open>so_write\<close> tells whether all
  bytes were written, \<open>so_cork\<close> is \<^verbatim>\<open>setsockopt(TCP_CORK)\<close> (\<open>None\<close> when it fails), \<open>so_clock\<close> a
  random number and the time.
\<close>

record 's sock_ops =
  so_write :: "bytes \<Rightarrow> 's \<Rightarrow> bool \<times> 's"
  so_cork :: "bool \<Rightarrow> 's \<Rightarrow> 's option"
  so_clock :: "'s \<Rightarrow> int \<times> timespec"
  so_io_error :: "'s \<Rightarrow> 's outcome"

record 's dgp_writer =
  dw_myid :: "bytes option"
  dw_remoteid :: "bytes option"
  dw_sock :: 's
  dw_keepalive_timer :: "timespec option"

definition dw_map :: "'s dgp_writer \<Rightarrow> lsa option \<Rightarrow> lsa option outcome" where
  "dw_map dw lo =
     (case lo of None \<Rightarrow> Inr None
      | Some l \<Rightarrow>
          (case lsa_find_attr l LSA_ATTR_TYPE_ADV_PATH [] of
             None \<Rightarrow> Inr None
           | Some attr \<Rightarrow>
               obind (case dw_remoteid dw of None \<Rightarrow> Inr False | Some rid \<Rightarrow> lsa_path_contains attr rid)
                 (\<lambda>c. Inr (if c then None else Some l))))"

definition dw_timer :: "int \<times> timespec \<Rightarrow> timespec" where
  "dw_timer clk = timespec_add_ms (fst clk) (snd clk) (900 * KEEPALIVE_INTERVAL) (1100 * KEEPALIVE_INTERVAL)"

text \<open>The dummy LSA that tells of a deletion; its address and size are not initialised.\<close>

definition dw_dummy :: "lsa \<Rightarrow> lsa" where
  "dw_dummy old = \<lparr>lsa_ptr = 0, lsa_bytes = 0, lsa_id = lsa_id old, lsa_root = []\<rparr>"

text \<open>The second half of \<^verbatim>\<open>dgp_writer_output_lsa\<close>; \<open>True\<close> is the return value 1.\<close>

definition dw_send :: "'s sock_ops \<Rightarrow> lsa \<Rightarrow> 's dgp_writer \<Rightarrow> (bool \<times> 's dgp_writer) outcome" where
  "dw_send so l dw =
     obind (lsa_serialise_length l False (dw_myid dw)) (\<lambda>serlen.
     if serlen > 65536 - 128 then Inl Abort
     else let buflen = serlen + 128
     in obind (lsa_serialise (replicate buflen 0) serlen l False (dw_myid dw)) (\<lambda>(buf, len).
        if len > buflen then Inl Abort
        else case so_write so (take len buf) (dw_sock dw) of
          (False, s) \<Rightarrow> obind (so_io_error so s) (\<lambda>s. Inr (True, dw\<lparr>dw_sock := s\<rparr>))
        | (True, s) \<Rightarrow> Inr (False, dw\<lparr>dw_sock := s, dw_keepalive_timer := Some (dw_timer (so_clock so s))\<rparr>)))"

definition dgp_writer_output_lsa ::
  "'s sock_ops \<Rightarrow> lsa option \<Rightarrow> lsa option \<Rightarrow> 's dgp_writer \<Rightarrow> (bool \<times> 's dgp_writer) outcome" where
  "dgp_writer_output_lsa so old new dw =
     obind (dw_map dw new) (\<lambda>lo.
     case lo of
       Some l \<Rightarrow> dw_send so l dw
     | None \<Rightarrow>
         obind (dw_map dw old) (\<lambda>oldo.
         case oldo of None \<Rightarrow> Inr (False, dw) | Some old \<Rightarrow> dw_send so (dw_dummy old) dw))"

definition dgp_writer_lsa_add :: "'s sock_ops \<Rightarrow> lsa \<Rightarrow> u32 \<Rightarrow> 's dgp_writer \<Rightarrow> 's dgp_writer outcome" where
  "dgp_writer_lsa_add so l cost dw = obind (dgp_writer_output_lsa so None (Some l) dw) (\<lambda>(_, dw). Inr dw)"

definition dgp_writer_lsa_mod ::
  "'s sock_ops \<Rightarrow> lsa \<Rightarrow> u32 \<Rightarrow> lsa \<Rightarrow> u32 \<Rightarrow> 's dgp_writer \<Rightarrow> 's dgp_writer outcome" where
  "dgp_writer_lsa_mod so old oldcost new newcost dw =
     obind (dgp_writer_output_lsa so (Some old) (Some new) dw) (\<lambda>(_, dw). Inr dw)"

definition dgp_writer_lsa_del :: "'s sock_ops \<Rightarrow> lsa \<Rightarrow> u32 \<Rightarrow> 's dgp_writer \<Rightarrow> 's dgp_writer outcome" where
  "dgp_writer_lsa_del so l cost dw = obind (dgp_writer_output_lsa so (Some l) None dw) (\<lambda>(_, dw). Inr dw)"

definition cork_fd :: "'s sock_ops \<Rightarrow> bool \<Rightarrow> 's dgp_writer \<Rightarrow> 's dgp_writer outcome" where
  "cork_fd so state dw =
     (case so_cork so state (dw_sock dw) of None \<Rightarrow> Inl Abort | Some s \<Rightarrow> Inr (dw\<lparr>dw_sock := s\<rparr>))"

definition dgp_writer_send_keepalive :: "'s sock_ops \<Rightarrow> 's dgp_writer \<Rightarrow> (bool \<times> 's dgp_writer) outcome" where
  "dgp_writer_send_keepalive so dw =
     (case so_write so [0] (dw_sock dw) of
        (False, s) \<Rightarrow> obind (so_io_error so s) (\<lambda>s. Inr (True, dw\<lparr>dw_sock := s\<rparr>))
      | (True, s) \<Rightarrow> Inr (False, dw\<lparr>dw_sock := s\<rparr>))"

text \<open>The loop of \<^verbatim>\<open>dgp_writer_rib_dump\<close>; it ends at the first failure.\<close>

fun dw_dump_loop :: "'s sock_ops \<Rightarrow> loc_rib_id list \<Rightarrow> 's dgp_writer \<Rightarrow> (bool \<times> 's dgp_writer) outcome" where
  "dw_dump_loop so [] dw = Inr (False, dw)"
| "dw_dump_loop so (rid # rids) dw =
     (case ri_best rid of
        None \<Rightarrow> dw_dump_loop so rids dw
      | Some best \<Rightarrow>
          obind (dgp_writer_output_lsa so None (Some best) dw)
            (\<lambda>(failed, dw). if failed then Inr (True, dw) else dw_dump_loop so rids dw))"

definition dgp_writer_rib_dump :: "'s sock_ops \<Rightarrow> 'v loc_rib \<Rightarrow> 's dgp_writer \<Rightarrow> 's dgp_writer outcome" where
  "dgp_writer_rib_dump so rib dw =
     (if lr_ids rib = [] then obind (dgp_writer_send_keepalive so dw) (\<lambda>(_, dw). Inr dw)
      else obind (cork_fd so True dw) (\<lambda>dw.
           obind (dw_dump_loop so (lr_ids rib) dw) (\<lambda>(failed, dw).
           if failed then Inr dw
           else obind (dgp_writer_send_keepalive so dw) (\<lambda>(failed, dw).
                if failed then Inr dw else cork_fd so False dw))))"

definition dgp_writer_keepalive_timer :: "'s sock_ops \<Rightarrow> 's dgp_writer \<Rightarrow> 's dgp_writer outcome" where
  "dgp_writer_keepalive_timer so dw =
     (let dw = dw\<lparr>dw_keepalive_timer := Some (dw_timer (so_clock so (dw_sock dw)))\<rparr>
      in obind (dgp_writer_send_keepalive so dw) (\<lambda>(_, dw). Inr dw))"

text \<open>The listener, which takes no references.\<close>

definition dgp_writer_rl :: "'s sock_ops \<Rightarrow> 's dgp_writer rib_listener" where
  "dgp_writer_rl so =
     \<lparr>rl_lsa_add = (\<lambda>l cost. on_world (dgp_writer_lsa_add so l cost)),
      rl_lsa_mod = (\<lambda>a acost b bcost. on_world (dgp_writer_lsa_mod so a acost b bcost)),
      rl_lsa_del = (\<lambda>l cost. on_world (dgp_writer_lsa_del so l cost))\<rparr>"

definition dgp_writer_register ::
  "'s sock_ops \<Rightarrow> 's dgp_writer loc_rib \<Rightarrow> 's dgp_writer \<Rightarrow> ('s dgp_writer loc_rib \<times> 's dgp_writer) outcome" where
  "dgp_writer_register so rib dw =
     (let rib = loc_rib_listener_register rib (dgp_writer_rl so);
          dw = dw\<lparr>dw_keepalive_timer := Some (dw_timer (so_clock so (dw_sock dw)))\<rparr>
      in obind (dgp_writer_rib_dump so rib dw) (\<lambda>dw. Inr (rib, dw)))"

text \<open>\<open>i\<close> is the place of the writer's listener in the list.\<close>

definition dgp_writer_unregister ::
  "nat \<Rightarrow> 's dgp_writer loc_rib \<Rightarrow> 's dgp_writer \<Rightarrow> 's dgp_writer loc_rib \<times> 's dgp_writer" where
  "dgp_writer_unregister i rib dw = (loc_rib_listener_unregister rib i, dw\<lparr>dw_keepalive_timer := None\<rparr>)"

section \<open>What is sent\<close>

text \<open>LSAs of the local base as they come out of the filter of \<^verbatim>\<open>adj_rib_in\<close>.\<close>

definition dw_ok :: "lsa \<Rightarrow> bool" where
  "dw_ok l \<longleftrightarrow> adj_lsa_ok l \<and> path_of l \<noteq> None \<and> lsa_bytes l + NODE_ID_LEN \<le> LSA_MAX_BYTES"

text \<open>An LSA may go to a peer that is not on its path.\<close>

definition dw_passes :: "bytes option \<Rightarrow> lsa \<Rightarrow> bool" where
  "dw_passes remoteid l \<longleftrightarrow>
     (\<forall>d r. path_of l = Some d \<longrightarrow> remoteid = Some r \<longrightarrow> r \<notin> set (path_ids d))"

lemma dw_map_eq:
  assumes "path_of l \<noteq> None" "preid_ok (dw_remoteid dw)"
  shows "dw_map dw (Some l) = Inr (if dw_passes (dw_remoteid dw) l then Some l else None)"
proof -
  from assms(1) obtain d where d: "path_of l = Some d" by auto
  then obtain a where a: "lsa_find_attr l LSA_ATTR_TYPE_ADV_PATH [] = Some a" "attr_data a = Attr_bytes d"
    "length d mod NODE_ID_LEN = 0"
    by (auto simp: path_of_attr)
  have "attr_type a = LSA_ATTR_TYPE_ADV_PATH" using a(1) by (rule find_root_type)
  then show ?thesis using a assms(2) d
    by (auto simp: dw_map_def dw_passes_def lsa_path_contains_def lsa_path_scan_iff preid_ok_def split: option.split)
qed

lemma dw_map_None: "dw_map dw None = Inr None"
  by (simp add: dw_map_def)

lemma attr_image_same [simp]: "attr_image False None a = a"
  by (induction a rule: lsa_attr_induct) (auto intro: map_idI)

lemma dw_send_eq:
  assumes "preid_ok (dw_myid dw)" "id_ok (lsa_id l)"
    and "attrs_ok (lsa_root l)" "attrs_total (lsa_root l) \<le> 32694"
  shows "dw_send so l dw =
    (case so_write so (lsa_enc False (dw_myid dw) l) (dw_sock dw) of
       (False, s) \<Rightarrow> obind (so_io_error so s) (\<lambda>s. Inr (True, dw\<lparr>dw_sock := s\<rparr>))
     | (True, s) \<Rightarrow> Inr (False, dw\<lparr>dw_sock := s, dw_keepalive_timer := Some (dw_timer (so_clock so s))\<rparr>))"
    and "length (lsa_enc False (dw_myid dw) l) \<le> DGP_BUF_SIZE"
proof -
  let ?n = "length (attrs_enc False (dw_myid dw) (lsa_root l))"
  have "?n \<le> attrs_total (lsa_root l) + NODE_ID_LEN"
    by (rule attrs_enc_length) (use assms in simp_all)
  then have n: "?n \<le> 32726" using assms(4) by (simp add: NODE_ID_LEN_def)
  then have small: "?n < 2 ^ 63" by simp
  have idl: "length (lsa_id l) = NODE_ID_LEN" using assms(2) by (simp add: id_ok_def)
  have len: "length (lsa_enc False (dw_myid dw) l) \<le> 10 + NODE_ID_LEN + ?n" by (rule length_lsa_enc [OF idl])
  then show "length (lsa_enc False (dw_myid dw) l) \<le> DGP_BUF_SIZE"
    using n by (simp add: DGP_BUF_SIZE_def NODE_ID_LEN_def)
  show "dw_send so l dw =
    (case so_write so (lsa_enc False (dw_myid dw) l) (dw_sock dw) of
       (False, s) \<Rightarrow> obind (so_io_error so s) (\<lambda>s. Inr (True, dw\<lparr>dw_sock := s\<rparr>))
     | (True, s) \<Rightarrow> Inr (False, dw\<lparr>dw_sock := s, dw_keepalive_timer := Some (dw_timer (so_clock so s))\<rparr>))"
    unfolding dw_send_def serialise_length_eq [OF assms(1) small]
    using serialise_eq [OF assms(1) small idl] n len by (simp add: Let_def NODE_ID_LEN_def)
qed


section \<open>The messages\<close>

lemma attr_image_set [simp]:
  "attr_image False preid (Lsa_attr t s k (Attr_set as)) = Lsa_attr t s k (Attr_set as)"
  by (auto intro: map_idI)

declare attr_image.simps(2) [simp del]

lemma attr_image_total: "preid_ok preid \<Longrightarrow> attr_total (attr_image False preid a) \<le> 3 * attr_total a"
  by (cases a rule: attr_total.cases; cases preid)
    (auto simp: preid_ok_def NODE_ID_LEN_def MAX_SERIALISED_INT_LEN_def)

lemma attr_image_diffable:
  assumes "attr_diffable a" "attr_total a \<le> 32768" "preid_ok preid"
  shows "attr_diffable (attr_image False preid a)"
proof (cases a rule: attr_total.cases)
  case (1 t s k d)
  then show ?thesis using assms
    by (cases preid) (auto simp: attr_diffable_def preid_ok_def NODE_ID_LEN_def MAX_SERIALISED_INT_LEN_def)
next
  case (2 t s k as)
  then show ?thesis using assms(1) by simp
qed

lemma attr_image_filled: "attr_filled a \<Longrightarrow> attr_filled (attr_image False preid a)"
  by (cases a rule: attr_total.cases) auto

lemma attrs_total_member: "a \<in> set as \<Longrightarrow> attr_total a \<le> attrs_total as"
  by (induction as) auto

lemma dw_ok_msg:
  assumes "dw_ok l" "preid_ok preid"
  shows "dgp_msg_ok preid (Dgp_lsa l)"
proof -
  have wf: "lsa_wf l" "list_all attr_filled (lsa_root l)" "attrs_diffable (lsa_root l)" "path_of l \<noteq> None"
    and size: "attrs_total (lsa_root l) \<le> 32694"
    using assms(1) by (auto simp: dw_ok_def adj_lsa_ok_def lsa_filled_def lsa_wf_def LSA_MAX_BYTES_def
        NODE_ID_LEN_def MAX_SERIALISED_INT_LEN_def)
  have aok: "attrs_ok (lsa_root l)" "length (lsa_id l) = NODE_ID_LEN" using wf(1) by (auto simp: lsa_wf_def)
  have "attrs_total (attrs_image False preid as) \<le> 3 * attrs_total as" for as
  proof (induction as)
    case (Cons a as)
    have "attr_total (attr_image False (if attr_type a = LSA_ATTR_TYPE_ADV_PATH then preid else None) a) \<le> 3 * attr_total a"
      by (rule attr_image_total) (use assms(2) in simp)
    with Cons show ?case by (simp add: attrs_image_def)
  qed (simp add: attrs_image_def)
  from this [of "lsa_root l"] have "attrs_total (attrs_image False preid (lsa_root l)) \<le> 98082" using size by simp
  then have bytes: "lsa_bytes (lsa_image False preid l) < 2 ^ 62"
    by (simp add: lsa_image_def NODE_ID_LEN_def MAX_SERIALISED_INT_LEN_def)
  have root: "lsa_root (lsa_image False preid l) = attrs_image False preid (lsa_root l)" by (simp add: lsa_image_def)
  have "attr_diffable (attr_image False (if attr_type a = LSA_ATTR_TYPE_ADV_PATH then preid else None) a)"
    if "a \<in> set (lsa_root l)" for a
    by (rule attr_image_diffable)
      (use wf(3) that attrs_total_member [OF that] size assms(2) in \<open>auto simp: attrs_diffable_def list_all_iff\<close>)
  then have "attrs_diffable (attrs_image False preid (lsa_root l))"
    using wf(3) by (auto simp: attrs_diffable_def attrs_image_def list_all_iff avl_ordered_def sorted_wrt_map)
  moreover have "list_all attr_filled (attrs_image False preid (lsa_root l))"
    using wf(2) by (auto simp: attrs_image_def list_all_iff attr_image_filled)
  ultimately have "adj_lsa_ok (lsa_image False preid l)"
    using bytes lsa_image_wf [OF wf(1)] by (simp add: adj_lsa_ok_def lsa_filled_def root)
  moreover have "list_all (attr_fits 8) (lsa_root l)"
    using wf(3) by (auto simp: attrs_diffable_def attr_diffable_def list_all_iff)
  moreover have "length (lsa_enc False preid l) \<le> DGP_BUF_SIZE"
    using dw_send_eq(2) [of "\<lparr>dw_myid = preid, dw_remoteid = None, dw_sock = (), dw_keepalive_timer = None\<rparr>" l]
      assms(2) aok size by (simp add: id_ok_def)
  ultimately show ?thesis using wf(1) by (simp add: dgp_msg_ok_def)
qed

text \<open>The deletion of a node's LSA, as a message.\<close>

definition dw_delete :: "bytes \<Rightarrow> lsa" where
  "dw_delete nid = \<lparr>lsa_ptr = 0, lsa_bytes = MAX_SERIALISED_INT_LEN + NODE_ID_LEN, lsa_id = nid, lsa_root = []\<rparr>"

lemma dw_delete_ok: "id_ok nid \<Longrightarrow> dgp_msg_ok preid (Dgp_lsa (dw_delete nid))"
  using length_lsa_enc [of "dw_delete nid" False preid]
  by (simp add: dgp_msg_ok_def dw_delete_def lsa_wf_def id_ok_def adj_lsa_ok_def lsa_filled_def lsa_image_def
      attrs_image_def attrs_enc_def NODE_ID_LEN_def MAX_SERIALISED_INT_LEN_def DGP_BUF_SIZE_def)

lemma dw_dummy_enc: "lsa_enc so preid (dw_dummy l) = lsa_enc so preid (dw_delete (lsa_id l))"
  by (simp add: lsa_enc_def dw_dummy_def dw_delete_def)

definition dw_pass :: "bytes option \<Rightarrow> lsa option \<Rightarrow> lsa option" where
  "dw_pass remoteid lo = (case lo of Some l \<Rightarrow> if dw_passes remoteid l then Some l else None | None \<Rightarrow> None)"

text \<open>The messages for a node whose LSA changes.\<close>

definition dw_msgs :: "bytes option \<Rightarrow> lsa option \<Rightarrow> lsa option \<Rightarrow> dgp_msg list" where
  "dw_msgs remoteid old new =
     (case (dw_pass remoteid old, dw_pass remoteid new) of
        (_, Some l) \<Rightarrow> [Dgp_lsa l]
      | (Some a, None) \<Rightarrow> [Dgp_lsa (dw_delete (lsa_id a))]
      | (None, None) \<Rightarrow> [])"

text \<open>A socket that takes everything and remembers it.\<close>

definition dw_recorder :: "(bytes \<Rightarrow> int \<times> timespec) \<Rightarrow> bytes sock_ops" where
  "dw_recorder clk = \<lparr>so_write = \<lambda>d s. (True, s @ d), so_cork = \<lambda>_ s. Some s, so_clock = clk, so_io_error = Inr\<rparr>"

lemma dw_recorder_simps [simp]:
  "so_write (dw_recorder clk) d s = (True, s @ d)" "so_cork (dw_recorder clk) b s = Some s"
  "so_clock (dw_recorder clk) = clk" "so_io_error (dw_recorder clk) = Inr"
  by (simp_all add: dw_recorder_def)

lemma dgp_stream_append: "dgp_stream preid (ms @ ms') = dgp_stream preid ms @ dgp_stream preid ms'"
  by (simp add: dgp_stream_def)

lemma dw_output_eq:
  assumes "preid_ok (dw_myid dw)" "preid_ok (dw_remoteid dw)" "\<forall>l \<in> set_option old \<union> set_option new. dw_ok l"
  shows "\<exists>t. dgp_writer_output_lsa (dw_recorder clk) old new dw = Inr (False,
      dw\<lparr>dw_sock := dw_sock dw @ dgp_stream (dw_myid dw) (dw_msgs (dw_remoteid dw) old new), dw_keepalive_timer := t\<rparr>)"
    and "list_all (dgp_msg_ok (dw_myid dw)) (dw_msgs (dw_remoteid dw) old new)"
proof -
  have map: "dw_map dw lo = Inr (dw_pass (dw_remoteid dw) lo)" if "\<forall>l \<in> set_option lo. dw_ok l" for lo
    using that dw_map_eq [OF _ assms(2)] by (cases lo) (auto simp: dw_pass_def dw_ok_def dw_map_None)
  have fits: "id_ok (lsa_id l)" "attrs_ok (lsa_root l)" "attrs_total (lsa_root l) \<le> 32694" if "dw_ok l" for l
    using that by (auto simp: dw_ok_def adj_lsa_ok_wf adj_lsa_ok_def lsa_filled_def lsa_wf_def LSA_MAX_BYTES_def
        NODE_ID_LEN_def MAX_SERIALISED_INT_LEN_def id_ok_def)
  have send: "dw_send (dw_recorder clk) l dw = Inr (False, dw\<lparr>dw_sock := dw_sock dw @ lsa_enc False (dw_myid dw) l,
      dw_keepalive_timer := Some (dw_timer (clk (dw_sock dw @ lsa_enc False (dw_myid dw) l)))\<rparr>)"
    if "id_ok (lsa_id l)" "attrs_ok (lsa_root l)" "attrs_total (lsa_root l) \<le> 32694" for l
    using dw_send_eq(1) [OF assms(1) that, of "dw_recorder clk"] by simp
  have dummy: "dw_send (dw_recorder clk) (dw_dummy a) dw = Inr (False,
      dw\<lparr>dw_sock := dw_sock dw @ lsa_enc False (dw_myid dw) (dw_delete (lsa_id a)),
        dw_keepalive_timer := Some (dw_timer (clk (dw_sock dw @ lsa_enc False (dw_myid dw) (dw_delete (lsa_id a)))))\<rparr>)"
    if "dw_ok a" for a
    using send [of "dw_dummy a"] fits(1) [OF that] unfolding dw_dummy_enc by (simp add: dw_dummy_def)
  have dm: "dw_map dw old = Inr (dw_pass (dw_remoteid dw) old)" "dw_map dw new = Inr (dw_pass (dw_remoteid dw) new)"
    using assms(3) by (auto intro!: map)
  have oks: "dw_ok l" if "dw_pass (dw_remoteid dw) lo = Some l" "lo = old \<or> lo = new" for l lo
    using that assms(3) by (auto simp: dw_pass_def split: option.splits if_splits)
  show "\<exists>t. dgp_writer_output_lsa (dw_recorder clk) old new dw = Inr (False,
      dw\<lparr>dw_sock := dw_sock dw @ dgp_stream (dw_myid dw) (dw_msgs (dw_remoteid dw) old new), dw_keepalive_timer := t\<rparr>)"
  proof (cases "dw_pass (dw_remoteid dw) new"; cases "dw_pass (dw_remoteid dw) old")
    fix l assume new: "dw_pass (dw_remoteid dw) new = Some l"
    have "dw_ok l" using oks [OF new] by simp
    then show ?thesis using new send [of l] fits [of l]
      by (auto simp: dgp_writer_output_lsa_def dm dw_msgs_def dgp_stream_def dgp_wire_def split: option.split)
  next
    fix l assume new: "dw_pass (dw_remoteid dw) new = Some l"
    have "dw_ok l" using oks [OF new] by simp
    then show ?thesis using new send [of l] fits [of l]
      by (auto simp: dgp_writer_output_lsa_def dm dw_msgs_def dgp_stream_def dgp_wire_def split: option.split)
  next
    fix a assume on: "dw_pass (dw_remoteid dw) new = None" "dw_pass (dw_remoteid dw) old = Some a"
    have "dw_ok a" using oks [OF on(2)] by simp
    then show ?thesis using on dummy [of a]
      by (auto simp: dgp_writer_output_lsa_def dm dw_msgs_def dgp_stream_def dgp_wire_def)
  next
    assume on: "dw_pass (dw_remoteid dw) new = None" "dw_pass (dw_remoteid dw) old = None"
    then show ?thesis
      by (intro exI [of _ "dw_keepalive_timer dw"])
        (simp add: dgp_writer_output_lsa_def dm dw_msgs_def dgp_stream_def)
  qed
  show "list_all (dgp_msg_ok (dw_myid dw)) (dw_msgs (dw_remoteid dw) old new)"
    using oks dw_ok_msg assms(1) dw_delete_ok fits(1) by (auto simp: dw_msgs_def split: option.split)
qed


section \<open>What the peer has been told\<close>

text \<open>The LSAs a reader of the messages has in the end, by node.\<close>

fun peer_view1 :: "dgp_msg \<Rightarrow> (bytes \<Rightarrow> lsa option) \<Rightarrow> bytes \<Rightarrow> lsa option" where
  "peer_view1 Dgp_keepalive tbl = tbl"
| "peer_view1 (Dgp_lsa l) tbl = tbl(lsa_id l := (if lsa_root l = [] then None else Some l))"

definition peer_view :: "dgp_msg list \<Rightarrow> bytes \<Rightarrow> lsa option" where
  "peer_view ms = fold peer_view1 ms (\<lambda>_. None)"

definition dw_wants :: "bytes option \<Rightarrow> (lsa \<times> u32) set \<Rightarrow> (bytes \<Rightarrow> lsa option) \<Rightarrow> bool" where
  "dw_wants remoteid V tbl \<longleftrightarrow>
     (\<forall>nid l. tbl nid = Some l \<longleftrightarrow> lsa_id l = nid \<and> dw_passes remoteid l \<and> l \<in> fst ` V)"

definition dw_rep :: "bytes option \<Rightarrow> bytes option \<Rightarrow> bytes dgp_writer \<Rightarrow> (lsa \<times> u32) set \<Rightarrow> bool" where
  "dw_rep myid remoteid dw V \<longleftrightarrow> dw_myid dw = myid \<and> dw_remoteid dw = remoteid \<and> preid_ok myid \<and> preid_ok remoteid \<and>
     (\<forall>l \<in> fst ` V. dw_ok l) \<and>
     (\<exists>ms. dw_sock dw = dgp_stream myid ms \<and> list_all (dgp_msg_ok myid) ms \<and> dw_wants remoteid V (peer_view ms))"

lemma dw_ok_root: "dw_ok l \<Longrightarrow> lsa_root l \<noteq> []"
  by (auto simp: dw_ok_def path_of_def lsa_find_attr_def lsa_attr_set_find_attr_def)

lemma dw_msgs_view:
  assumes "tbl nid = dw_pass remoteid old" "\<forall>l \<in> set_option old \<union> set_option new. lsa_id l = nid"
    and "\<forall>l \<in> set_option new. lsa_root l \<noteq> []"
  shows "fold peer_view1 (dw_msgs remoteid old new) tbl = tbl(nid := dw_pass remoteid new)"
proof -
  have "lsa_id l = nid" if "dw_pass remoteid lo = Some l" "lo = old \<or> lo = new" for l lo
    using that assms(2) by (auto simp: dw_pass_def split: option.splits if_splits)
  moreover have "lsa_root l \<noteq> []" if "dw_pass remoteid new = Some l" for l
    using that assms(3) by (auto simp: dw_pass_def split: option.splits if_splits)
  ultimately show ?thesis
    using assms(1) by (auto simp: dw_msgs_def dw_delete_def fun_upd_idem_iff split: option.split)
qed

lemma dw_change:
  assumes rep: "dw_rep myid remoteid dw V" and X: "set_option X \<subseteq> V" "nid \<notin> lsa_id ` fst ` (V - set_option X)"
    and ids: "\<forall>x \<in> set_option X \<union> set_option Y. lsa_id (fst x) = nid" and Y: "\<forall>y \<in> set_option Y. dw_ok (fst y)"
  shows "\<exists>dw'. dgp_writer_output_lsa (dw_recorder clk) (map_option fst X) (map_option fst Y) dw = Inr (False, dw') \<and>
    dw_rep myid remoteid dw' (V - set_option X \<union> set_option Y)"
proof -
  let ?old = "map_option fst X" and ?new = "map_option fst Y" and ?V = "V - set_option X \<union> set_option Y"
  obtain ms where ms: "dw_sock dw = dgp_stream myid ms" "list_all (dgp_msg_ok myid) ms" "dw_wants remoteid V (peer_view ms)"
    and dw: "dw_myid dw = myid" "dw_remoteid dw = remoteid" "preid_ok myid" "preid_ok remoteid" "\<forall>l \<in> fst ` V. dw_ok l"
    using rep by (auto simp: dw_rep_def)
  have oks: "\<forall>l \<in> set_option ?old \<union> set_option ?new. dw_ok l" using X(1) dw(5) Y by (cases X; cases Y) auto
  have nids: "\<forall>l \<in> set_option ?old \<union> set_option ?new. lsa_id l = nid" using ids by (cases X; cases Y) auto
  have pre: "preid_ok (dw_myid dw)" "preid_ok (dw_remoteid dw)" using dw by simp_all
  let ?ms = "dw_msgs remoteid ?old ?new"
  obtain t where out: "dgp_writer_output_lsa (dw_recorder clk) ?old ?new dw =
      Inr (False, dw\<lparr>dw_sock := dw_sock dw @ dgp_stream (dw_myid dw) ?ms, dw_keepalive_timer := t\<rparr>)"
    using dw_output_eq(1) [OF pre oks, of clk] dw(2) by auto
  have msok: "list_all (dgp_msg_ok myid) ?ms" using dw_output_eq(2) [OF pre oks] dw(1,2) by simp
  have other: "l \<in> fst ` ?V \<longleftrightarrow> l \<in> fst ` V" if "lsa_id l \<noteq> nid" for l
    using that ids by (auto simp: image_iff)
  have mine: "l \<in> fst ` V \<longleftrightarrow> l \<in> set_option ?old" "l \<in> fst ` ?V \<longleftrightarrow> l \<in> set_option ?new" if "lsa_id l = nid" for l
  proof -
    have "l \<notin> fst ` (V - set_option X)" using X(2) that by auto
    then show "l \<in> fst ` V \<longleftrightarrow> l \<in> set_option ?old" "l \<in> fst ` ?V \<longleftrightarrow> l \<in> set_option ?new"
      using X(1) by (cases X; cases Y; force)+
  qed
  have "peer_view ms nid = Some l \<longleftrightarrow> dw_pass remoteid ?old = Some l" for l
    using ms(3) mine(1) nids by (auto simp: dw_wants_def dw_pass_def split: option.splits if_splits)
  then have own: "peer_view ms nid = dw_pass remoteid ?old" by (metis not_Some_eq)
  have "\<forall>l \<in> set_option ?new. lsa_root l \<noteq> []" using oks dw_ok_root by blast
  then have view: "peer_view (ms @ ?ms) = (peer_view ms)(nid := dw_pass remoteid ?new)"
    using dw_msgs_view [where tbl = "peer_view ms", OF own nids] by (simp add: peer_view_def)
  have new: "dw_pass remoteid ?new = Some l \<longleftrightarrow> lsa_id l = nid \<and> dw_passes remoteid l \<and> l \<in> set_option ?new" for l
    using nids by (auto simp: dw_pass_def split: option.splits if_splits)
  have "(peer_view (ms @ ?ms) n = Some l) \<longleftrightarrow> lsa_id l = n \<and> dw_passes remoteid l \<and> l \<in> fst ` ?V" for n l
  proof (cases "n = nid")
    case True
    then show ?thesis using new [of l] mine(2) [of l] unfolding view by auto
  next
    case False
    have "peer_view ms n = Some l \<longleftrightarrow> lsa_id l = n \<and> dw_passes remoteid l \<and> l \<in> fst ` V"
      using ms(3) unfolding dw_wants_def by blast
    then show ?thesis using other [of l] False unfolding view fun_upd_other [OF False] by blast
  qed
  then have "dw_wants remoteid ?V (peer_view (ms @ ?ms))" unfolding dw_wants_def by blast
  moreover have "\<forall>l \<in> fst ` ?V. dw_ok l" using dw(5) Y by auto
  ultimately have "dw_rep myid remoteid
      (dw\<lparr>dw_sock := dw_sock dw @ dgp_stream (dw_myid dw) ?ms, dw_keepalive_timer := t\<rparr>) ?V"
    using dw msok ms(1,2) by (auto simp: dw_rep_def dgp_stream_append intro!: exI [of _ "ms @ ?ms"])
  with out show ?thesis by blast
qed

text \<open>The writer keeps the contract of a listener that is told of one LSA per node.\<close>

interpretation dw_client: rib_client_unique "dgp_writer_rl (dw_recorder clk)" "dw_rep myid remoteid"
    "\<lambda>_ _. 0" dw_ok "\<lambda>_. True" for clk myid remoteid
proof
  fix w :: "bytes dgp_writer world" and V l c
  assume h: "dw_rep myid remoteid (snd w) V" "dw_ok l" "lsa_id l \<notin> lsa_id ` fst ` V"
  then obtain dw' where "dgp_writer_output_lsa (dw_recorder clk) None (Some l) (snd w) = Inr (False, dw')"
    "dw_rep myid remoteid dw' (insert (l, c) V)"
    using dw_change [of myid remoteid "snd w" V None "lsa_id l" "Some (l, c)" clk] by auto
  then show "\<exists>w'. rl_lsa_add (dgp_writer_rl (dw_recorder clk)) l c w = Inr w' \<and>
      dw_rep myid remoteid (snd w') (insert (l, c) V) \<and> balanced (\<lambda>_ _. 0) w w'"
    by (simp add: dgp_writer_rl_def on_world_def dgp_writer_lsa_add_def balanced_def)
next
  fix w :: "bytes dgp_writer world" and V a c b d
  assume h: "dw_rep myid remoteid (snd w) V" "(a, c) \<in> V" "dw_ok b" "lsa_id b = lsa_id a"
    "lsa_id a \<notin> lsa_id ` fst ` (V - {(a, c)})"
  then obtain dw' where "dgp_writer_output_lsa (dw_recorder clk) (Some a) (Some b) (snd w) = Inr (False, dw')"
    "dw_rep myid remoteid dw' (insert (b, d) (V - {(a, c)}))"
    using dw_change [of myid remoteid "snd w" V "Some (a, c)" "lsa_id a" "Some (b, d)" clk] by auto
  then show "\<exists>w'. rl_lsa_mod (dgp_writer_rl (dw_recorder clk)) a c b d w = Inr w' \<and>
      dw_rep myid remoteid (snd w') (insert (b, d) (V - {(a, c)})) \<and> balanced (\<lambda>_ _. 0) w w'"
    by (simp add: dgp_writer_rl_def on_world_def dgp_writer_lsa_mod_def balanced_def)
next
  fix w :: "bytes dgp_writer world" and V a c
  assume h: "dw_rep myid remoteid (snd w) V" "(a, c) \<in> V" "lsa_id a \<notin> lsa_id ` fst ` (V - {(a, c)})"
  then obtain dw' where "dgp_writer_output_lsa (dw_recorder clk) (Some a) None (snd w) = Inr (False, dw')"
    "dw_rep myid remoteid dw' (V - {(a, c)})"
    using dw_change [of myid remoteid "snd w" V "Some (a, c)" "lsa_id a" None clk] by auto
  then show "\<exists>w'. rl_lsa_del (dgp_writer_rl (dw_recorder clk)) a c w = Inr w' \<and>
      dw_rep myid remoteid (snd w') (V - {(a, c)}) \<and> balanced (\<lambda>_ _. 0) w w'"
    by (simp add: dgp_writer_rl_def on_world_def dgp_writer_lsa_del_def balanced_def)
qed


section \<open>The dump for a new connection\<close>

lemma dw_dump_rep:
  assumes "dw_rep myid remoteid dw V" "distinct (map ri_id rids)"
    and "\<forall>rid \<in> set rids. \<forall>b \<in> set_option (ri_best rid). dw_ok b \<and> lsa_id b = ri_id rid"
    and "ri_id ` set rids \<inter> lsa_id ` fst ` V = {}"
  shows "\<exists>dw'. dw_dump_loop (dw_recorder clk) rids dw = Inr (False, dw') \<and>
    dw_rep myid remoteid dw' (V \<union> (\<Union>rid \<in> set rids. rid_told rid))"
  using assms
proof (induction rids arbitrary: dw V)
  case (Cons rid rids)
  show ?case
  proof (cases "ri_best rid")
    case None
    then show ?thesis using Cons.IH [of dw V] Cons.prems by (auto simp: rid_told_def)
  next
    case (Some b)
    let ?V = "insert (b, ri_bestcost rid) V"
    have b: "dw_ok b" "lsa_id b = ri_id rid" using Cons.prems(3) Some by auto
    have "ri_id rid \<notin> lsa_id ` fst ` V" using Cons.prems(4) by auto
    then obtain dw1 where 1: "dgp_writer_output_lsa (dw_recorder clk) None (Some b) dw = Inr (False, dw1)"
      "dw_rep myid remoteid dw1 ?V"
      using dw_change [OF Cons.prems(1), of None "ri_id rid" "Some (b, ri_bestcost rid)" clk] b by auto
    have "ri_id ` set rids \<inter> lsa_id ` fst ` ?V = {}" using Cons.prems(2,4) b(2) by auto
    then obtain dw2 where "dw_dump_loop (dw_recorder clk) rids dw1 = Inr (False, dw2)"
      "dw_rep myid remoteid dw2 (?V \<union> (\<Union>rid \<in> set rids. rid_told rid))"
      using Cons.IH [OF 1(2)] Cons.prems(2,3) by auto
    then show ?thesis using 1(1) Some by (auto simp: rid_told_def)
  qed
qed simp

lemma dw_keepalive_rep:
  assumes "dw_rep myid remoteid dw V"
  shows "\<exists>dw'. dgp_writer_send_keepalive (dw_recorder clk) dw = Inr (False, dw') \<and> dw_rep myid remoteid dw' V"
proof -
  obtain ms where ms: "dw_sock dw = dgp_stream myid ms" "list_all (dgp_msg_ok myid) ms" "dw_wants remoteid V (peer_view ms)"
    using assms by (auto simp: dw_rep_def)
  have "dw_rep myid remoteid (dw\<lparr>dw_sock := dw_sock dw @ [0]\<rparr>) V"
    using assms ms unfolding dw_rep_def
    by (auto simp: dgp_stream_append dgp_stream_def dgp_wire_def peer_view_def dgp_msg_ok_def
        intro!: exI [of _ "ms @ [Dgp_keepalive]"])
  then show ?thesis by (simp add: dgp_writer_send_keepalive_def)
qed

lemma dw_rep_timer: "dw_rep myid remoteid (dw\<lparr>dw_keepalive_timer := t\<rparr>) V = dw_rep myid remoteid dw V"
  by (simp add: dw_rep_def)

lemma dump_rep:
  assumes "loc_inv rib" "\<forall>l \<in> loc_bests rib. dw_ok l" "dw_rep myid remoteid dw {}"
  shows "\<exists>dw'. dgp_writer_rib_dump (dw_recorder clk) rib dw = Inr dw' \<and> dw_rep myid remoteid dw' (loc_told rib)"
proof (cases "lr_ids rib = []")
  case True
  then show ?thesis
    using dw_keepalive_rep [OF assms(3), of clk] by (auto simp: dgp_writer_rib_dump_def loc_told_def)
next
  case False
  have cork: "cork_fd (dw_recorder clk) b dw = Inr dw" for b dw by (simp add: cork_fd_def)
  have best: "\<forall>rid \<in> set (lr_ids rib). \<forall>b \<in> set_option (ri_best rid). dw_ok b \<and> lsa_id b = ri_id rid"
    using assms(2) loc_own(4) [OF assms(1)] by blast
  have "distinct (lr_ids rib)"
    by (rule loc_ids.ordered_distinct) (use assms(1) loc_inv_ids in \<open>auto simp: loc_inv_def\<close>)
  moreover have "inj_on ri_id (set (lr_ids rib))"
    by (rule inj_onI) (rule loc_ids_inj [OF assms(1)])
  ultimately have "distinct (map ri_id (lr_ids rib))" by (simp add: distinct_map)
  then obtain dw1 where 1: "dw_dump_loop (dw_recorder clk) (lr_ids rib) dw = Inr (False, dw1)"
    "dw_rep myid remoteid dw1 (loc_told rib)"
    using dw_dump_rep [OF assms(3) _ best, of clk] by (auto simp: loc_told_def)
  obtain dw2 where "dgp_writer_send_keepalive (dw_recorder clk) dw1 = Inr (False, dw2)"
    "dw_rep myid remoteid dw2 (loc_told rib)"
    using dw_keepalive_rep [OF 1(2), of clk] by blast
  then show ?thesis using False 1(1) by (simp add: dgp_writer_rib_dump_def cork)
qed

lemma dw_recompute:
  assumes "loc_inv rib" "lr_listeners rib = [dgp_writer_rl (dw_recorder clk)]" "dw_rep myid remoteid dw (loc_told rib)"
    and "\<forall>l \<in> loc_lsas rib. dw_ok l" "lr_recompute rib"
  shows "\<exists>rib' rc' dw'. loc_rib_run_task rib (rc, dw) = Inr (rib', rc', dw') \<and> loc_inv rib' \<and>
    (\<forall>rid \<in> set (lr_ids rib'). is_best rib rid) \<and> dw_rep myid remoteid dw' (loc_told rib')"
proof -
  let ?rib = "rib\<lparr>lr_recompute := False\<rparr>"
  have topo: "rib_topo ?rib = rib_topo rib" by (simp add: rib_topo_def)
  have "dw_client.loc_pre clk myid remoteid ?rib (rc, dw)"
    using assms by (simp add: dw_client.loc_pre_def loc_told_def)
  from dw_client.recompute_client [OF this] show ?thesis
    using assms(5) is_best_topo [OF topo]
    by (auto simp: loc_rib_run_task_def dw_client.loc_pre_def)
qed

lemma dw_rep_told:
  assumes "dw_rep myid remoteid dw (loc_told rib)" "loc_inv rib"
  shows "\<exists>ms. dw_sock dw = dgp_stream myid ms \<and> list_all (dgp_msg_ok myid) ms \<and>
    (\<forall>nid l. peer_view ms nid = Some l \<longleftrightarrow>
      dw_passes remoteid l \<and> (\<exists>rid \<in> set (lr_ids rib). ri_id rid = nid \<and> ri_best rid = Some l))"
proof -
  obtain ms where ms: "dw_sock dw = dgp_stream myid ms" "list_all (dgp_msg_ok myid) ms"
    "dw_wants remoteid (loc_told rib) (peer_view ms)"
    using assms(1) by (auto simp: dw_rep_def)
  have "lsa_id l = nid \<and> l \<in> loc_bests rib \<longleftrightarrow> (\<exists>rid \<in> set (lr_ids rib). ri_id rid = nid \<and> ri_best rid = Some l)" for nid l
    using loc_own(4) [OF assms(2)] by (fastforce simp: loc_bests_def)
  moreover have "peer_view ms nid = Some l \<longleftrightarrow> dw_passes remoteid l \<and> (lsa_id l = nid \<and> l \<in> loc_bests rib)" for nid l
    using ms(3) by (auto simp: dw_wants_def loc_told_fst)
  ultimately show ?thesis using ms(1,2) by auto
qed

section \<open>Properties\<close>

text \<open>
  C3: after each run of the task, the bytes sent to a peer are a sequence of well-formed
  messages after which the peer knows, of each node, exactly this node's best LSA, unless the peer
  is on its path (then it knows none); replacements and deletions included.  The process does not
  stop: each message fits the buffer.
\<close>

theorem dgp_writer_follows:
  assumes "loc_inv rib" "lr_listeners rib = [dgp_writer_rl (dw_recorder clk)]" "dw_rep myid remoteid dw (loc_told rib)"
    and "\<forall>l \<in> loc_lsas rib. dw_ok l" "lr_recompute rib"
  shows "\<exists>rib' rc' dw' ms. loc_rib_run_task rib (rc, dw) = Inr (rib', rc', dw') \<and>
    dw_rep myid remoteid dw' (loc_told rib') \<and> dw_sock dw' = dgp_stream myid ms \<and> list_all (dgp_msg_ok myid) ms \<and>
    (\<forall>nid l. peer_view ms nid = Some l \<longleftrightarrow>
      dw_passes remoteid l \<and> (\<exists>rid \<in> set (lr_ids rib'). ri_id rid = nid \<and> ri_best rid = Some l))"
  using dw_recompute [OF assms, of rc] dw_rep_told by blast

text \<open>
  A writer that is registered on a base sends a dump that tells a new peer exactly the
  current best LSAs that may go to it (just a keepalive when there are none).
\<close>

theorem dgp_writer_dump:
  assumes "loc_inv rib" "\<forall>l \<in> loc_bests rib. dw_ok l" "preid_ok (dw_myid dw)" "preid_ok (dw_remoteid dw)" "dw_sock dw = []"
  shows "\<exists>dw' ms. dgp_writer_register (dw_recorder clk) rib dw =
      Inr (rib\<lparr>lr_listeners := lr_listeners rib @ [dgp_writer_rl (dw_recorder clk)]\<rparr>, dw') \<and>
    dw_rep (dw_myid dw) (dw_remoteid dw) dw' (loc_told rib) \<and>
    dw_sock dw' = dgp_stream (dw_myid dw) ms \<and> list_all (dgp_msg_ok (dw_myid dw)) ms \<and>
    (\<forall>nid l. peer_view ms nid = Some l \<longleftrightarrow>
      dw_passes (dw_remoteid dw) l \<and> (\<exists>rid \<in> set (lr_ids rib). ri_id rid = nid \<and> ri_best rid = Some l))"
proof -
  let ?rib = "loc_rib_listener_register rib (dgp_writer_rl (dw_recorder clk))"
  let ?dw = "dw\<lparr>dw_keepalive_timer := Some (dw_timer (clk (dw_sock dw)))\<rparr>"
  have "dw_wants (dw_remoteid dw) {} (peer_view [])" by (simp add: dw_wants_def peer_view_def)
  then have start: "dw_rep (dw_myid dw) (dw_remoteid dw) ?dw {}"
    using assms(3-5) by (auto simp: dw_rep_def dgp_stream_def intro!: exI [of _ "[]"])
  have same: "loc_inv ?rib = loc_inv rib" "loc_bests ?rib = loc_bests rib" "loc_told ?rib = loc_told rib"
    by (simp_all add: loc_rib_listener_register_def loc_inv_def loc_lsas_def loc_bests_def loc_told_def)
  have "loc_inv ?rib" "\<forall>l \<in> loc_bests ?rib. dw_ok l" using assms(1,2) by (simp_all add: same)
  from dump_rep [OF this start, of clk] obtain dw' where
    "dgp_writer_rib_dump (dw_recorder clk) ?rib ?dw = Inr dw'" "dw_rep (dw_myid dw) (dw_remoteid dw) dw' (loc_told rib)"
    by (auto simp: same)
  with dw_rep_told [OF _ assms(1)] show ?thesis
    by (auto simp: dgp_writer_register_def Let_def loc_rib_listener_register_def)
qed

text \<open>
  C14: a peer that reads what the writer of this node has sent, in whatever pieces, accepts all of
  it: it never fails, never stops, and its two bases keep their invariants.
\<close>

theorem writer_to_reader:
  assumes "loc_inv rib" "lr_listeners rib = [dgp_writer_rl (dw_recorder clk)]" "dw_rep myid remoteid dw (loc_told rib)"
    and "\<forall>l \<in> loc_lsas rib. dw_ok l" "lr_recompute rib"
    and "dgp_inv cr (dr_adj_rib_in dr) w" "dr_remoteid dr \<noteq> None" "dr_buf dr = []" "al_ok al"
  shows "\<exists>rib' rc' dw'. loc_rib_run_task rib (rc, dw) = Inr (rib', rc', dw') \<and>
    (\<forall>cs. chunks_data cs = dw_sock dw' \<longrightarrow>
      (\<exists>dr' w'. dgp_reads cr al cs dr w = Inr (0, dr', w') \<and> dr_buf dr' = [] \<and>
        dgp_inv cr (dr_adj_rib_in dr') w' \<and> dgp_moves cr (dr_adj_rib_in dr) w (dr_adj_rib_in dr') w'))"
proof -
  obtain rib' rc' dw' where r: "loc_rib_run_task rib (rc, dw) = Inr (rib', rc', dw')"
    "dw_rep myid remoteid dw' (loc_told rib')"
    using dw_recompute [OF assms(1-5), of rc] by blast
  then obtain ms where ms: "dw_sock dw' = dgp_stream myid ms" "list_all (dgp_msg_ok myid) ms"
    by (auto simp: dw_rep_def)
  show ?thesis
    using r(1) reads_sound [OF assms(6-9) ms(2)] ms(1) by auto
qed

text \<open>
  A writer's timer expires between 9 and 11 seconds after it was set, four seconds or more
  before the timeout that the reader at the other end set at the same time: with a delay of less than
  that, no connection with a live peer times out.
\<close>

theorem keepalive_margin:
  assumes "0 \<le> rnd" "rnd \<le> RAND_MAX" "0 \<le> rnd'" "rnd' \<le> RAND_MAX" "0 \<le> tv_nsec now" "tv_nsec now < 1000000000"
  shows "timespec_ns now + 9000000000 \<le> timespec_ns (dw_timer (rnd, now)) \<and>
    timespec_ns (dw_timer (rnd, now)) \<le> timespec_ns now + 11000000000 \<and>
    timespec_ns (keepalive_expiry rnd' now) = timespec_ns now + 15000000000 \<and>
    timespec_ns (dw_timer (rnd, now)) + 4000000000 \<le> timespec_ns (keepalive_expiry rnd' now)"
  using timespec_add_ms_range [of 9000 11000 rnd now] timespec_add_ms_range [of 15000 15000 rnd' now] assms
  by (simp add: dw_timer_def keepalive_expiry_def KEEPALIVE_INTERVAL_def KEEPALIVE_TIMEOUT_def)


section \<open>Examples\<close>

definition sample_writer :: "bytes dgp_writer" where
  "sample_writer = \<lparr>dw_myid = Some (replicate 32 9), dw_remoteid = Some (replicate 32 3), dw_sock = [],
     dw_keepalive_timer = None\<rparr>"

definition sample_clock :: "bytes \<Rightarrow> int \<times> timespec" where
  "sample_clock _ = (0, \<lparr>tv_sec = 1, tv_nsec = 0\<rparr>)"

lemma sample_dw_ok: "length hops < 99 \<Longrightarrow> dw_ok (sample_lsa p n hops)"
  by (simp add: dw_ok_def sample_adj_lsa_ok sample_path_of)
    (simp add: sample_lsa_def LSA_MAX_BYTES_def NODE_ID_LEN_def)

lemma sample_writer_rep:
  "dw_rep (Some (replicate 32 9)) (Some (replicate 32 3)) sample_writer {}"
  by (auto simp: dw_rep_def sample_writer_def preid_ok_def NODE_ID_LEN_def dgp_stream_def dw_wants_def peer_view_def
      intro!: exI [of _ "[]"])

abbreviation (input) writer_rib :: "bytes dgp_writer loc_rib" where
  "writer_rib \<equiv> sample_rib [dgp_writer_rl (dw_recorder sample_clock)] (sample_lsa 5 7 [6, 7])"

lemma writer_rib_facts:
  "loc_inv writer_rib" "lr_listeners writer_rib = [dgp_writer_rl (dw_recorder sample_clock)]"
  "dw_rep (Some (replicate 32 9)) (Some (replicate 32 3)) sample_writer (loc_told writer_rib)"
  "\<forall>l \<in> loc_lsas writer_rib. dw_ok l" "lr_recompute writer_rib" "loc_bests writer_rib = {}"
proof -
  have r: "routable (sample_lsa 5 7 [6, 7])" by (rule sample_routable) simp
  note s = sample_rib_inv [OF r]
  show "loc_inv writer_rib" by (rule s)
  show "lr_listeners writer_rib = [dgp_writer_rl (dw_recorder sample_clock)]" "lr_recompute writer_rib"
    "loc_bests writer_rib = {}"
    by (simp_all add: sample_rib_def loc_bests_def)
  have "loc_told writer_rib = {}" by (simp add: sample_rib_def loc_told_def rid_told_def)
  then show "dw_rep (Some (replicate 32 9)) (Some (replicate 32 3)) sample_writer (loc_told writer_rib)"
    by (simp only: sample_writer_rep)
  show "\<forall>l \<in> loc_lsas writer_rib. dw_ok l" unfolding s(2) using sample_dw_ok [of "[6, 7]" 5 7] by simp
qed

theorem dgp_writer_follows_witness:
  "\<exists>rib' rc' dw' ms. loc_rib_run_task writer_rib (\<lambda>_. 1, sample_writer) = Inr (rib', rc', dw') \<and>
    dw_sock dw' = dgp_stream (Some (replicate 32 9)) ms \<and>
    (\<forall>nid l. peer_view ms nid = Some l \<longleftrightarrow>
      dw_passes (Some (replicate 32 3)) l \<and> (\<exists>rid \<in> set (lr_ids rib'). ri_id rid = nid \<and> ri_best rid = Some l))"
  using dgp_writer_follows [OF writer_rib_facts(1-5), of "\<lambda>_. 1"] by blast

theorem dgp_writer_dump_witness:
  "\<exists>dw' ms. dgp_writer_register (dw_recorder sample_clock) writer_rib sample_writer =
      Inr (writer_rib\<lparr>lr_listeners := lr_listeners writer_rib @ [dgp_writer_rl (dw_recorder sample_clock)]\<rparr>, dw') \<and>
    dw_sock dw' = dgp_stream (Some (replicate 32 9)) ms"
proof -
  have w: "preid_ok (dw_myid sample_writer)" "preid_ok (dw_remoteid sample_writer)" "dw_sock sample_writer = []"
    "dw_myid sample_writer = Some (replicate 32 9)"
    by (simp_all add: sample_writer_def preid_ok_def NODE_ID_LEN_def)
  have "\<forall>l \<in> loc_bests writer_rib. dw_ok l" by (simp add: writer_rib_facts(6))
  from dgp_writer_dump [OF writer_rib_facts(1) this w(1-3), of sample_clock] show ?thesis
    unfolding w(4) by blast
qed

theorem writer_to_reader_witness:
  "\<exists>rib' rc' dw'. loc_rib_run_task writer_rib (\<lambda>_. 1, sample_writer) = Inr (rib', rc', dw') \<and>
    (\<forall>cs. chunks_data cs = dw_sock dw' \<longrightarrow>
      (\<exists>dr' w'. dgp_reads sample_crypto sample_allocator cs sample_reader sample_world = Inr (0, dr', w') \<and>
        dr_buf dr' = [] \<and> dgp_inv sample_crypto (dr_adj_rib_in dr') w' \<and>
        dgp_moves sample_crypto (dr_adj_rib_in sample_reader) sample_world (dr_adj_rib_in dr') w'))"
proof -
  have r: "dgp_inv sample_crypto (dr_adj_rib_in sample_reader) sample_world" "dr_remoteid sample_reader \<noteq> None"
    "dr_buf sample_reader = []"
    using sample_world_inv by (simp_all add: sample_reader_def)
  show ?thesis by (rule writer_to_reader [OF writer_rib_facts(1-5) r sample_allocator_ok])
qed

theorem keepalive_margin_witness:
  "timespec_ns (dw_timer (1000, \<lparr>tv_sec = 5, tv_nsec = 999000000\<rparr>)) + 4000000000 \<le>
    timespec_ns (keepalive_expiry 77 \<lparr>tv_sec = 5, tv_nsec = 999000000\<rparr>)"
  using keepalive_margin [of 1000 77 "\<lparr>tv_sec = 5, tv_nsec = 999000000\<rparr>"] by (simp add: RAND_MAX_def)

end
