(* ===== verification/Dgp_Connect.thy ===== *)
theory Dgp_Connect
  imports Dgp_Writer Event_Loop
begin

text \<open>
  \<^verbatim>\<open>src/dgp_connect.c\<close>: one side of a connection between two nodes, the one that connects.  It is
  a state machine driven by the event loop; its resources are a socket, a timer and the session
  on the socket (a reader and a writer).  The results of the system calls a handler makes
  are an argument of the handler.  The properties: in every reachable state exactly the
  resources of that state are in use, the event loop is misused when \<^verbatim>\<open>connect\<close> succeeds at once and
  not otherwise, and a lost or refused connection is tried again.
\<close>

section \<open>The session on a connection\<close>

text \<open>
  What the users of a session call.  \<open>ss_writer_register\<close> also tells whether the writer
  reported an error to its user while it sent its first dump.
\<close>

record 's session_ops =
  ss_reader_register :: "'s \<Rightarrow> 's handled"
  ss_reader_read :: "read_result \<Rightarrow> 's \<Rightarrow> (int \<times> 's) handled"
  ss_reader_unregister :: "'s \<Rightarrow> 's handled"
  ss_writer_register :: "'s \<Rightarrow> (bool \<times> 's) handled"
  ss_writer_unregister :: "'s \<Rightarrow> 's handled"

locale dgp_session =
  fixes ops :: "'s session_ops" and reading :: "'s \<Rightarrow> bool" and writing :: "'s \<Rightarrow> bool"
  assumes reader_register:
      "\<not> reading s \<Longrightarrow> safe (\<lambda>s'. reading s' \<and> writing s' = writing s) (ss_reader_register ops s)"
    and reader_read:
      "reading s \<Longrightarrow> safe (\<lambda>(ret, s'). reading s' \<and> writing s' = writing s) (ss_reader_read ops r s)"
    and reader_unregister:
      "reading s \<Longrightarrow> safe (\<lambda>s'. \<not> reading s' \<and> writing s' = writing s) (ss_reader_unregister ops s)"
    and writer_register:
      "\<not> writing s \<Longrightarrow> safe (\<lambda>(failed, s'). writing s' \<and> reading s' = reading s) (ss_writer_register ops s)"
    and writer_unregister:
      "writing s \<Longrightarrow> safe (\<lambda>s'. \<not> writing s' \<and> reading s' = reading s) (ss_writer_unregister ops s)"

text \<open>
  The session of this repository: the reader and the writer, with the local base that both
  use and the reference counts.  A writer that reports an error leaves a mark in the state of its
  socket.  Random numbers and times come from \<open>clk\<close>; \<open>root\<close> is the shape of the tree in \<^verbatim>\<open>adj_rib_in\<close>.
\<close>

record sock =
  sk_sent :: bytes
  sk_failed :: bool

record session =
  se_dr :: "sock dgp_writer loc_rib dgp_reader"
  se_dw :: "sock dgp_writer"
  se_rib :: "sock dgp_writer loc_rib"
  se_rc :: refcounts
  se_place :: nat

record session_env =
  sn_root :: "lsa list \<Rightarrow> nat"
  sn_crypto :: "bytes crypto"
  sn_alloc :: allocator
  sn_sock :: "sock sock_ops"
  sn_clock :: "session \<Rightarrow> int \<times> timespec"

definition se_reader_register :: "session_env \<Rightarrow> session \<Rightarrow> session handled" where
  "se_reader_register env s =
     (if dr_keepalive_timeout (se_dr s) \<noteq> None then Inl Iv_fatal
      else Inr (s\<lparr>se_dr := dgp_reader_register (fst (sn_clock env s)) (snd (sn_clock env s)) (se_dr s)\<rparr>))"

definition se_reader_read :: "session_env \<Rightarrow> read_result \<Rightarrow> session \<Rightarrow> (int \<times> session) handled" where
  "se_reader_read env r s =
     (if dr_keepalive_timeout (se_dr s) = None then Inl Iv_fatal
      else called (obind (dgp_reader_read (sn_crypto env) (sn_alloc env) (fst (sn_clock env s)) (snd (sn_clock env s))
             (se_dr s) r (se_rc s, se_rib s))
           (\<lambda>(ret, dr, rc, rib). Inr (ret, s\<lparr>se_dr := dr, se_rc := rc, se_rib := rib\<rparr>))))"

definition se_reader_unregister :: "session_env \<Rightarrow> session \<Rightarrow> session handled" where
  "se_reader_unregister env s =
     called (obind (dgp_reader_unregister (sn_root env) (sn_crypto env) (se_dr s) (se_rc s, se_rib s))
       (\<lambda>(dr, rc, rib). Inr (s\<lparr>se_dr := dr, se_rc := rc, se_rib := rib\<rparr>)))"

definition se_writer_register :: "session_env \<Rightarrow> session \<Rightarrow> (bool \<times> session) handled" where
  "se_writer_register env s =
     (if dw_keepalive_timer (se_dw s) \<noteq> None then Inl Iv_fatal
      else called (obind (dgp_writer_register (sn_sock env) (se_rib s) (se_dw s))
           (\<lambda>(rib, dw). Inr (sk_failed (dw_sock dw),
              s\<lparr>se_dw := dw, se_rib := rib, se_place := length (lr_listeners (se_rib s))\<rparr>))))"

definition se_writer_unregister :: "session_env \<Rightarrow> session \<Rightarrow> session handled" where
  "se_writer_unregister env s =
     (if dw_keepalive_timer (se_dw s) = None then Inl Iv_fatal
      else let (rib, dw) = dgp_writer_unregister (se_place s) (se_rib s) (se_dw s)
           in Inr (s\<lparr>se_dw := dw, se_rib := rib\<rparr>))"

definition se_ops :: "session_env \<Rightarrow> session session_ops" where
  "se_ops env = \<lparr>ss_reader_register = se_reader_register env, ss_reader_read = se_reader_read env,
     ss_reader_unregister = se_reader_unregister env, ss_writer_register = se_writer_register env,
     ss_writer_unregister = se_writer_unregister env\<rparr>"

definition se_reading :: "session \<Rightarrow> bool" where
  "se_reading s \<longleftrightarrow> dr_keepalive_timeout (se_dr s) \<noteq> None"

definition se_writing :: "session \<Rightarrow> bool" where
  "se_writing s \<longleftrightarrow> dw_keepalive_timer (se_dw s) \<noteq> None"

lemma reader_read_timer:
  "dgp_reader_read cr al rnd now dr r w = Inr (ret, dr', w') \<Longrightarrow> dr_keepalive_timeout dr \<noteq> None \<Longrightarrow>
   dr_keepalive_timeout dr' \<noteq> None"
  by (auto simp: dgp_reader_read_def Let_def split: read_result.splits if_splits)

text \<open>Sending leaves the timer of the writer registered.\<close>

definition dw_on :: "'s dgp_writer \<Rightarrow> bool" where
  "dw_on dw \<longleftrightarrow> dw_keepalive_timer dw \<noteq> None"

lemma dw_on_simps [simp]:
  "dw_on (dw\<lparr>dw_keepalive_timer := Some t\<rparr>)" "dw_on (dw\<lparr>dw_sock := x, dw_keepalive_timer := Some t\<rparr>)"
  "dw_on (dw\<lparr>dw_sock := x\<rparr>) = dw_on dw"
  by (simp_all add: dw_on_def)

lemma dw_send_on:
  assumes "dw_send so l dw = Inr (b, dw')" "dw_on dw"
  shows "dw_on dw'"
proof -
  obtain d where d: "(case so_write so d (dw_sock dw) of
        (False, s) \<Rightarrow> obind (so_io_error so s) (\<lambda>s. Inr (True, dw\<lparr>dw_sock := s\<rparr>))
      | (True, s) \<Rightarrow> Inr (False, dw\<lparr>dw_sock := s, dw_keepalive_timer := Some (dw_timer (so_clock so s))\<rparr>)) = Inr (b, dw')"
    using assms(1) unfolding dw_send_def Let_def obind_eq_Inr by (auto split: if_split_asm)
  obtain sent sk where "so_write so d (dw_sock dw) = (sent, sk)" by force
  with d assms(2) show ?thesis by (cases sent) auto
qed

lemma dw_output_on: "dgp_writer_output_lsa so old new dw = Inr (b, dw') \<Longrightarrow> dw_on dw \<Longrightarrow> dw_on dw'"
  by (auto simp: dgp_writer_output_lsa_def split: option.split_asm dest: dw_send_on)

lemma dw_dump_on: "dw_dump_loop so rids dw = Inr (b, dw') \<Longrightarrow> dw_on dw \<Longrightarrow> dw_on dw'"
proof (induction rids arbitrary: dw)
  case (Cons rid rids)
  then show ?case by (cases "ri_best rid") (auto split: if_split_asm dest: dw_output_on)
qed simp

lemma dw_keepalive_on: "dgp_writer_send_keepalive so dw = Inr (b, dw') \<Longrightarrow> dw_on dw \<Longrightarrow> dw_on dw'"
  by (auto simp: dgp_writer_send_keepalive_def split: prod.split_asm bool.split_asm)

lemma cork_on: "cork_fd so st dw = Inr dw' \<Longrightarrow> dw_on dw \<Longrightarrow> dw_on dw'"
  by (auto simp: cork_fd_def split: option.split_asm)

lemma rib_dump_on:
  assumes "dgp_writer_rib_dump so rib dw = Inr dw'" "dw_on dw"
  shows "dw_on dw'"
proof (cases "lr_ids rib = []")
  case True
  with assms show ?thesis by (auto simp: dgp_writer_rib_dump_def dest: dw_keepalive_on)
next
  case False
  with assms(1) obtain dw1 dw2 failed where d: "cork_fd so True dw = Inr dw1" "dw_dump_loop so (lr_ids rib) dw1 = Inr (failed, dw2)"
    "(if failed then Inr dw2 else obind (dgp_writer_send_keepalive so dw2)
      (\<lambda>(failed, dw). if failed then Inr dw else cork_fd so False dw)) = Inr dw'"
    by (auto simp: dgp_writer_rib_dump_def)
  have "dw_on dw2" using d(1,2) assms(2) by (metis cork_on dw_dump_on)
  with d(3) show ?thesis by (auto split: if_split_asm dest: dw_keepalive_on cork_on)
qed

lemma writer_register_on:
  assumes "dgp_writer_register so rib dw = Inr (rib', dw')"
  shows "dw_on dw'"
proof -
  from assms have "dgp_writer_rib_dump so (loc_rib_listener_register rib (dgp_writer_rl so))
      (dw\<lparr>dw_keepalive_timer := Some (dw_timer (so_clock so (dw_sock dw)))\<rparr>) = Inr dw'"
    by (auto simp: dgp_writer_register_def Let_def)
  then show ?thesis by (rule rib_dump_on) simp
qed

lemma reader_register_on [simp]:
  "dr_keepalive_timeout (dgp_reader_register rnd now dr) = Some (keepalive_expiry rnd now)"
  by (simp add: dgp_reader_register_def Let_def)

lemma reader_unregister_off: "dgp_reader_unregister root cr dr w = Inr (dr', w') \<Longrightarrow> dr_keepalive_timeout dr' = None"
  by (auto simp: dgp_reader_unregister_def split: if_split_asm)

interpretation se: dgp_session "se_ops env" se_reading se_writing for env
proof
  fix s :: session and r :: read_result
  show "safe (\<lambda>s'. se_reading s' \<and> se_writing s' = se_writing s) (ss_reader_register (se_ops env) s)" if "\<not> se_reading s"
    using that by (simp add: se_ops_def se_reader_register_def se_reading_def se_writing_def)
  show "safe (\<lambda>(ret, s'). se_reading s' \<and> se_writing s' = se_writing s) (ss_reader_read (se_ops env) r s)" if "se_reading s"
    using that by (auto simp: se_ops_def se_reader_read_def se_reading_def se_writing_def safe_called dest: reader_read_timer)
  show "safe (\<lambda>s'. \<not> se_reading s' \<and> se_writing s' = se_writing s) (ss_reader_unregister (se_ops env) s)" if "se_reading s"
    using reader_unregister_off
    by (auto simp: se_ops_def se_reader_unregister_def se_reading_def se_writing_def safe_called)
  show "safe (\<lambda>(failed, s'). se_writing s' \<and> se_reading s' = se_reading s) (ss_writer_register (se_ops env) s)" if "\<not> se_writing s"
    using that by (auto simp: se_ops_def se_writer_register_def se_reading_def se_writing_def safe_called
        dest: writer_register_on [unfolded dw_on_def])
  show "safe (\<lambda>s'. \<not> se_writing s' \<and> se_reading s' = se_reading s) (ss_writer_unregister (se_ops env) s)" if "se_writing s"
    using that by (simp add: se_ops_def se_writer_unregister_def dgp_writer_unregister_def se_reading_def se_writing_def)
qed

section \<open>The code\<close>

datatype dc_state = STATE_CONNECTING | STATE_ESTABLISHED | STATE_WAITING_RETRY

datatype dc_handler = Handle_dgp_read | Connect_pollout

text \<open>
  \<open>dc_timeout\<close> is the expiry time of the timer while it is registered, \<open>dc_fd\<close> the number of the
  descriptor, \<open>dc_registered\<close> whether the event loop watches it, with the two handlers.
  \<open>dc_calls\<close> records the system calls.
\<close>

record 's dgp_connect =
  dc_myid :: "bytes option"
  dc_remoteid :: bytes
  dc_ifindex :: int
  dc_state :: dc_state
  dc_timeout :: "timespec option"
  dc_fd :: int
  dc_registered :: bool
  dc_handler_in :: "dc_handler option"
  dc_handler_out :: "dc_handler option"
  dc_session :: 's
  dc_calls :: "sys_call list"

text \<open>
  What the system answers while one handler runs: the descriptor \<^verbatim>\<open>socket\<close> returns, whether
  \<^verbatim>\<open>bind\<close> succeeds, the result of \<^verbatim>\<open>connect\<close>, the error \<^verbatim>\<open>getsockopt\<close> reads (\<open>None\<close> when
  the call fails), a random number and the time.
\<close>

record dc_env =
  de_socket :: int
  de_bind :: bool
  de_connect :: connect_result
  de_sockerr :: "int option"
  de_clock :: "int \<times> timespec"

definition iv_timer_register :: "timespec \<Rightarrow> 's dgp_connect \<Rightarrow> 's dgp_connect handled" where
  "iv_timer_register t dc = (if dc_timeout dc \<noteq> None then Inl Iv_fatal else Inr (dc\<lparr>dc_timeout := Some t\<rparr>))"

definition iv_timer_unregister :: "'s dgp_connect \<Rightarrow> 's dgp_connect handled" where
  "iv_timer_unregister dc = (if dc_timeout dc = None then Inl Iv_fatal else Inr (dc\<lparr>dc_timeout := None\<rparr>))"

definition iv_fd_register :: "'s dgp_connect \<Rightarrow> 's dgp_connect handled" where
  "iv_fd_register dc = (if dc_registered dc then Inl Iv_fatal else Inr (dc\<lparr>dc_registered := True\<rparr>))"

definition iv_fd_unregister :: "'s dgp_connect \<Rightarrow> 's dgp_connect handled" where
  "iv_fd_unregister dc = (if \<not> dc_registered dc then Inl Iv_fatal else Inr (dc\<lparr>dc_registered := False\<rparr>))"

definition sys :: "sys_call \<Rightarrow> 's dgp_connect \<Rightarrow> 's dgp_connect" where
  "sys call dc = dc\<lparr>dc_calls := dc_calls dc @ [call]\<rparr>"

text \<open>The code that starts the timer: \<open>minms\<close> to \<open>maxms\<close> from now.\<close>

definition start_timer :: "dc_env \<Rightarrow> int \<Rightarrow> int \<Rightarrow> 's dgp_connect \<Rightarrow> 's dgp_connect handled" where
  "start_timer env minms maxms dc =
     iv_timer_register (timespec_add_ms (fst (de_clock env)) (snd (de_clock env)) minms maxms) dc"

definition on_session :: "('s \<Rightarrow> 's handled) \<Rightarrow> 's dgp_connect \<Rightarrow> 's dgp_connect handled" where
  "on_session f dc = hbind (f (dc_session dc)) (\<lambda>s. Inr (dc\<lparr>dc_session := s\<rparr>))"

definition io_error :: "'s session_ops \<Rightarrow> dc_env \<Rightarrow> 's dgp_connect \<Rightarrow> 's dgp_connect handled" where
  "io_error ops env dc =
     hbind (iv_fd_unregister dc) (\<lambda>dc.
     let dc = sys (Sys_close (dc_fd dc)) dc
     in hbind (on_session (ss_writer_unregister ops) dc) (\<lambda>dc.
        hbind (on_session (ss_reader_unregister ops) dc) (\<lambda>dc.
        let dc = dc\<lparr>dc_state := STATE_WAITING_RETRY\<rparr>
        in start_timer env 900 1100 dc)))"

definition handle_dgp_read ::
  "'s session_ops \<Rightarrow> dc_env \<Rightarrow> read_result \<Rightarrow> 's dgp_connect \<Rightarrow> 's dgp_connect handled" where
  "handle_dgp_read ops env r dc =
     hbind (ss_reader_read ops r (dc_session dc)) (\<lambda>(ret, s).
     let dc = dc\<lparr>dc_session := s\<rparr>
     in if ret < 0 then io_error ops env dc else Inr dc)"

text \<open>
  When the writer reports an error while it is registered, \<^verbatim>\<open>io_error\<close> runs inside
  \<^verbatim>\<open>dgp_writer_register\<close>, which does nothing more after it.
\<close>

definition connect_success :: "'s session_ops \<Rightarrow> dc_env \<Rightarrow> 's dgp_connect \<Rightarrow> 's dgp_connect handled" where
  "connect_success ops env dc =
     (let dc = dc\<lparr>dc_state := STATE_ESTABLISHED\<rparr>
      in hbind (iv_timer_unregister dc) (\<lambda>dc.
         let dc = dc\<lparr>dc_handler_in := Some Handle_dgp_read, dc_handler_out := None\<rparr>
         in hbind (on_session (ss_reader_register ops) dc) (\<lambda>dc.
            hbind (ss_writer_register ops (dc_session dc)) (\<lambda>(failed, s).
            let dc = dc\<lparr>dc_session := s\<rparr>
            in if failed then io_error ops env dc else Inr dc))))"

definition connect_pollout :: "'s session_ops \<Rightarrow> dc_env \<Rightarrow> 's dgp_connect \<Rightarrow> 's dgp_connect handled" where
  "connect_pollout ops env dc =
     (case de_sockerr env of
        None \<Rightarrow> Inr dc
      | Some ret \<Rightarrow>
          if ret = EINPROGRESS then Inr dc
          else if ret = 0 then connect_success ops env dc
          else hbind (iv_fd_unregister dc) (\<lambda>dc.
            let dc = sys (Sys_close (dc_fd dc)) dc; dc = dc\<lparr>dc_state := STATE_WAITING_RETRY\<rparr>
            in hbind (iv_timer_unregister dc) (\<lambda>dc. start_timer env 900 1100 dc)))"

text \<open>The address of a node on the interface, or its global one when there is no interface.\<close>

definition dc_address :: "int \<Rightarrow> bytes \<Rightarrow> sockaddr_in6" where
  "dc_address ifindex nid =
     \<lparr>sin6_port = 173,
      sin6_addr = (if ifindex = 0 then v6_global_addr_from_key_id nid else v6_linklocal_addr_from_key_id nid),
      sin6_scope_id = ifindex\<rparr>"

definition connect_fail :: "dc_env \<Rightarrow> 's dgp_connect \<Rightarrow> 's dgp_connect handled" where
  "connect_fail env dc = start_timer env 900 1100 (dc\<lparr>dc_state := STATE_WAITING_RETRY\<rparr>)"

definition try_connect :: "'s session_ops \<Rightarrow> dc_env \<Rightarrow> 's dgp_connect \<Rightarrow> 's dgp_connect handled" where
  "try_connect ops env dc =
     (let fd = de_socket env
      in if fd < 0 then connect_fail env dc
         else let dc = sys (Sys_socket fd) dc;
                  dc = (case dc_myid dc of Some myid \<Rightarrow> sys (Sys_bind fd (dc_address (dc_ifindex dc) myid)) dc | None \<Rightarrow> dc)
         in if dc_myid dc \<noteq> None \<and> \<not> de_bind env then connect_fail env (sys (Sys_close fd) dc)
         else let dc = dc\<lparr>dc_fd := fd, dc_handler_in := None, dc_handler_out := Some Connect_pollout\<rparr>
         in hbind (iv_fd_register dc) (\<lambda>dc.
            let dc = sys (Sys_connect fd (dc_address (dc_ifindex dc) (dc_remoteid dc))) dc
            in case de_connect env of
                 Connect_error \<Rightarrow> hbind (iv_fd_unregister dc) (\<lambda>dc. connect_fail env (sys (Sys_close fd) dc))
               | Connect_ok \<Rightarrow> connect_success ops env dc
               | Connect_in_progress \<Rightarrow> start_timer env 9000 11000 dc))"

definition rx_timeout_expired :: "'s session_ops \<Rightarrow> dc_env \<Rightarrow> 's dgp_connect \<Rightarrow> 's dgp_connect handled" where
  "rx_timeout_expired ops env dc =
     (case dc_state dc of
        STATE_CONNECTING \<Rightarrow>
          hbind (iv_fd_unregister dc) (\<lambda>dc.
          let dc = sys (Sys_close (dc_fd dc)) dc; dc = dc\<lparr>dc_state := STATE_WAITING_RETRY\<rparr>
          in start_timer env 900 1100 dc)
      | STATE_WAITING_RETRY \<Rightarrow> try_connect ops env (dc\<lparr>dc_state := STATE_CONNECTING\<rparr>)
      | STATE_ESTABLISHED \<Rightarrow> Inr dc)"

definition dr_dw_io_error :: "'s session_ops \<Rightarrow> dc_env \<Rightarrow> 's dgp_connect \<Rightarrow> 's dgp_connect handled" where
  "dr_dw_io_error ops env dc = io_error ops env dc"

text \<open>The session gets the ids and the local base from its user: \<open>init\<close>.\<close>

definition dgp_connect_start ::
  "'s session_ops \<Rightarrow> (bytes option \<Rightarrow> bytes \<Rightarrow> 's \<Rightarrow> 's) \<Rightarrow> dc_env \<Rightarrow> 's dgp_connect \<Rightarrow> 's dgp_connect handled" where
  "dgp_connect_start ops init env dc =
     (let dc = dc\<lparr>dc_state := STATE_CONNECTING, dc_timeout := None, dc_registered := False,
                  dc_handler_in := None, dc_handler_out := None,
                  dc_session := init (dc_myid dc) (dc_remoteid dc) (dc_session dc)\<rparr>
      in try_connect ops env dc)"

definition dgp_connect_stop :: "'s session_ops \<Rightarrow> 's dgp_connect \<Rightarrow> 's dgp_connect handled" where
  "dgp_connect_stop ops dc =
     hbind (if dc_state dc \<noteq> STATE_ESTABLISHED then iv_timer_unregister dc else Inr dc) (\<lambda>dc.
     hbind (if dc_state dc \<noteq> STATE_WAITING_RETRY then hbind (iv_fd_unregister dc) (\<lambda>dc. Inr (sys (Sys_close (dc_fd dc)) dc))
            else Inr dc) (\<lambda>dc.
     if dc_state dc = STATE_ESTABLISHED then
       hbind (on_session (ss_writer_unregister ops) dc) (\<lambda>dc. on_session (ss_reader_unregister ops) dc)
     else Inr dc))"


section \<open>The machine\<close>

text \<open>Which resources are in use in which state.\<close>

definition dc_inv :: "('s \<Rightarrow> bool) \<Rightarrow> ('s \<Rightarrow> bool) \<Rightarrow> 's dgp_connect \<Rightarrow> bool" where
  "dc_inv reading writing dc \<longleftrightarrow>
     (case dc_state dc of
        STATE_CONNECTING \<Rightarrow> dc_timeout dc \<noteq> None \<and> dc_registered dc \<and> dc_handler_in dc = None \<and>
          dc_handler_out dc = Some Connect_pollout \<and> \<not> reading (dc_session dc) \<and> \<not> writing (dc_session dc)
      | STATE_ESTABLISHED \<Rightarrow> dc_timeout dc = None \<and> dc_registered dc \<and> dc_handler_in dc = Some Handle_dgp_read \<and>
          dc_handler_out dc = None \<and> reading (dc_session dc) \<and> writing (dc_session dc)
      | STATE_WAITING_RETRY \<Rightarrow> dc_timeout dc \<noteq> None \<and> \<not> dc_registered dc \<and>
          \<not> reading (dc_session dc) \<and> \<not> writing (dc_session dc)) \<and>
     open_fds (dc_calls dc) = (if dc_registered dc then {dc_fd dc} else {})"

text \<open>
  The events: the timer expires (ivykis has then unregistered it), the descriptor is readable
  or writable, the reader's timeout expires or the writer fails; \<open>session\<close> is any other change
  of the session.
\<close>

datatype dc_event = Timer dc_env | Readable dc_env read_result | Writable dc_env | Session_error dc_env

fun dc_enabled :: "('s \<Rightarrow> bool) \<Rightarrow> ('s \<Rightarrow> bool) \<Rightarrow> dc_event \<Rightarrow> 's dgp_connect \<Rightarrow> bool" where
  "dc_enabled reading writing (Timer env) dc \<longleftrightarrow> dc_timeout dc \<noteq> None"
| "dc_enabled reading writing (Readable env r) dc \<longleftrightarrow> dc_registered dc \<and> dc_handler_in dc = Some Handle_dgp_read"
| "dc_enabled reading writing (Writable env) dc \<longleftrightarrow> dc_registered dc \<and> dc_handler_out dc = Some Connect_pollout"
| "dc_enabled reading writing (Session_error env) dc \<longleftrightarrow> reading (dc_session dc) \<or> writing (dc_session dc)"

fun dc_run :: "'s session_ops \<Rightarrow> dc_event \<Rightarrow> 's dgp_connect \<Rightarrow> 's dgp_connect handled" where
  "dc_run ops (Timer env) dc = rx_timeout_expired ops env (dc\<lparr>dc_timeout := None\<rparr>)"
| "dc_run ops (Readable env r) dc = handle_dgp_read ops env r dc"
| "dc_run ops (Writable env) dc = connect_pollout ops env dc"
| "dc_run ops (Session_error env) dc = dr_dw_io_error ops env dc"

inductive dc_reach ::
  "'s session_ops \<Rightarrow> ('s \<Rightarrow> bool) \<Rightarrow> ('s \<Rightarrow> bool) \<Rightarrow> (bytes option \<Rightarrow> bytes \<Rightarrow> 's \<Rightarrow> 's) \<Rightarrow> 's dgp_connect \<Rightarrow>
   's dgp_connect \<Rightarrow> bool"
  for ops reading writing init dc0 where
  start: "dgp_connect_start ops init env dc0 = Inr dc \<Longrightarrow> dc_reach ops reading writing init dc0 dc"
| event: "dc_reach ops reading writing init dc0 dc \<Longrightarrow> dc_enabled reading writing ev dc \<Longrightarrow>
    dc_run ops ev dc = Inr dc' \<Longrightarrow> dc_reach ops reading writing init dc0 dc'"
| session: "dc_reach ops reading writing init dc0 dc \<Longrightarrow> reading s = reading (dc_session dc) \<Longrightarrow>
    writing s = writing (dc_session dc) \<Longrightarrow> dc_reach ops reading writing init dc0 (dc\<lparr>dc_session := s\<rparr>)"

text \<open>
  The attempt in which \<^verbatim>\<open>connect\<close> succeeds at once, and the event that makes such an attempt: the timer
  expires while the connection waits to be tried again.
\<close>

definition connects_at_once :: "dc_env \<Rightarrow> 's dgp_connect \<Rightarrow> bool" where
  "connects_at_once env dc \<longleftrightarrow> 0 \<le> de_socket env \<and> (dc_myid dc \<noteq> None \<longrightarrow> de_bind env) \<and> de_connect env = Connect_ok"

definition dc_at_once :: "dc_event \<Rightarrow> 's dgp_connect \<Rightarrow> bool" where
  "dc_at_once ev dc \<longleftrightarrow> dc_state dc = STATE_WAITING_RETRY \<and> (\<exists>env. ev = Timer env \<and> connects_at_once env dc)"

definition dc_fresh :: "('s \<Rightarrow> bool) \<Rightarrow> ('s \<Rightarrow> bool) \<Rightarrow> (bytes option \<Rightarrow> bytes \<Rightarrow> 's \<Rightarrow> 's) \<Rightarrow> 's dgp_connect \<Rightarrow> bool" where
  "dc_fresh reading writing init dc \<longleftrightarrow> open_fds (dc_calls dc) = {} \<and>
     (let s = init (dc_myid dc) (dc_remoteid dc) (dc_session dc) in \<not> reading s \<and> \<not> writing s)"

lemmas iv_defs = iv_timer_register_def iv_timer_unregister_def iv_fd_register_def iv_fd_unregister_def
  start_timer_def on_session_def connect_fail_def sys_def

context dgp_session
begin

abbreviation inv :: "'s dgp_connect \<Rightarrow> bool" where
  "inv dc \<equiv> dc_inv reading writing dc"

text \<open>Taking the session down.\<close>

lemma session_down:
  assumes "reading (dc_session dc)" "writing (dc_session dc)"
    and "\<And>s t. \<not> reading s \<Longrightarrow> \<not> writing s \<Longrightarrow> safe P (f (dc\<lparr>dc_session := t, dc_session := s\<rparr>))"
  shows "safe P (hbind (on_session (ss_writer_unregister ops) dc) (\<lambda>dc. hbind (on_session (ss_reader_unregister ops) dc) f))"
proof -
  have "safe (\<lambda>d. \<exists>t. d = dc\<lparr>dc_session := t\<rparr> \<and> \<not> writing t \<and> reading t) (on_session (ss_writer_unregister ops) dc)"
    unfolding on_session_def
    by (rule safe_bind [OF writer_unregister [OF assms(2)]]) (use assms(1) in auto)
  then show ?thesis
  proof (rule safe_bind)
    fix d assume "\<exists>t. d = dc\<lparr>dc_session := t\<rparr> \<and> \<not> writing t \<and> reading t"
    then obtain t where t: "d = dc\<lparr>dc_session := t\<rparr>" "\<not> writing t" "reading t" by blast
    have "safe (\<lambda>d'. \<exists>s. d' = d\<lparr>dc_session := s\<rparr> \<and> \<not> writing s \<and> \<not> reading s) (on_session (ss_reader_unregister ops) d)"
      unfolding on_session_def
      by (rule safe_bind [OF reader_unregister]) (use t in auto)
    then show "safe P (hbind (on_session (ss_reader_unregister ops) d) f)"
      by (rule safe_bind) (use t assms(3) in auto)
  qed
qed

lemma io_error_inv:
  assumes "dc_timeout dc = None" "dc_registered dc" "reading (dc_session dc)" "writing (dc_session dc)"
    "open_fds (dc_calls dc) = {dc_fd dc}"
  shows "safe inv (io_error ops env dc)"
proof -
  let ?dc = "dc\<lparr>dc_registered := False, dc_calls := dc_calls dc @ [Sys_close (dc_fd dc)]\<rparr>"
  have "io_error ops env dc = hbind (on_session (ss_writer_unregister ops) ?dc) (\<lambda>dc.
      hbind (on_session (ss_reader_unregister ops) dc) (\<lambda>dc. start_timer env 900 1100 (dc\<lparr>dc_state := STATE_WAITING_RETRY\<rparr>)))"
    using assms(2) by (simp add: io_error_def iv_fd_unregister_def sys_def Let_def)
  moreover have "safe inv (start_timer env 900 1100 (?dc\<lparr>dc_session := t, dc_session := s, dc_state := STATE_WAITING_RETRY\<rparr>))"
    if "\<not> reading s" "\<not> writing s" for s t
    using that assms by (simp add: start_timer_def iv_timer_register_def dc_inv_def)
  ultimately show ?thesis using session_down [of ?dc inv] assms(3,4) by simp
qed

lemma handle_dgp_read_inv:
  assumes "inv dc" "dc_state dc = STATE_ESTABLISHED"
  shows "safe inv (handle_dgp_read ops env r dc)"
proof -
  have on: "reading (dc_session dc)" "writing (dc_session dc)" using assms by (auto simp: dc_inv_def)
  have io: "safe inv (io_error ops env (dc\<lparr>dc_session := s\<rparr>))" if "reading s" "writing s" for s
    by (rule io_error_inv) (use that assms in \<open>auto simp: dc_inv_def\<close>)
  have ok: "inv (dc\<lparr>dc_session := s\<rparr>)" if "reading s" "writing s" for s
    using that assms by (simp add: dc_inv_def)
  show ?thesis
    unfolding handle_dgp_read_def
    by (rule safe_bind [OF reader_read [OF on(1)]]) (use on io ok in \<open>auto simp: Let_def\<close>)
qed

lemma connect_success_inv:
  assumes "dc_timeout dc \<noteq> None" "dc_registered dc" "\<not> reading (dc_session dc)" "\<not> writing (dc_session dc)"
    "open_fds (dc_calls dc) = {dc_fd dc}"
  shows "safe inv (connect_success ops env dc)"
proof -
  let ?dc = "dc\<lparr>dc_state := STATE_ESTABLISHED, dc_timeout := None, dc_handler_in := Some Handle_dgp_read,
    dc_handler_out := None\<rparr>"
  have eq: "connect_success ops env dc = hbind (ss_reader_register ops (dc_session dc)) (\<lambda>t.
      hbind (ss_writer_register ops t) (\<lambda>(failed, s).
        if failed then io_error ops env (?dc\<lparr>dc_session := t, dc_session := s\<rparr>)
        else Inr (?dc\<lparr>dc_session := t, dc_session := s\<rparr>)))"
    using assms by (cases "ss_reader_register ops (dc_session dc)"; cases "dc_timeout dc")
      (simp_all add: connect_success_def iv_defs Let_def)
  have last: "safe inv (if failed then io_error ops env (?dc\<lparr>dc_session := t, dc_session := s\<rparr>)
        else Inr (?dc\<lparr>dc_session := t, dc_session := s\<rparr>))" if "reading s" "writing s" for t s failed
  proof (cases failed)
    case True
    have "safe inv (io_error ops env (?dc\<lparr>dc_session := t, dc_session := s\<rparr>))"
      by (rule io_error_inv) (use that assms in simp_all)
    with True show ?thesis by simp
  qed (use that assms in \<open>simp add: dc_inv_def\<close>)
  show ?thesis
    unfolding eq
  proof (rule safe_bind [OF reader_register [OF assms(3)]])
    fix t assume t: "reading t \<and> writing t = writing (dc_session dc)"
    then have "\<not> writing t" using assms(4) by simp
    then show "safe inv (hbind (ss_writer_register ops t) (\<lambda>(failed, s).
        if failed then io_error ops env (?dc\<lparr>dc_session := t, dc_session := s\<rparr>)
        else Inr (?dc\<lparr>dc_session := t, dc_session := s\<rparr>)))"
      by (rule safe_bind [OF writer_register]) (use t last in auto)
  qed
qed

lemma connect_pollout_inv:
  assumes "inv dc" "dc_state dc = STATE_CONNECTING"
  shows "safe inv (connect_pollout ops env dc)"
proof -
  have "safe inv (connect_success ops env dc)"
    by (rule connect_success_inv) (use assms in \<open>auto simp: dc_inv_def\<close>)
  moreover have "safe inv (connect_pollout ops env dc)" if "de_sockerr env = Some e" "e \<noteq> 0" for e
    using that assms by (auto simp: connect_pollout_def iv_defs dc_inv_def Let_def)
  ultimately show ?thesis using assms(1)
    by (cases "de_sockerr env") (auto simp: connect_pollout_def EINPROGRESS_def)
qed

text \<open>
  When \<^verbatim>\<open>connect\<close> succeeds at once, \<^verbatim>\<open>connect_success\<close> unregisters a timer that \<^verbatim>\<open>try_connect\<close> has not
  registered, and the process stops; otherwise the attempt is under way or will be repeated.
\<close>

lemma try_connect_cases:
  assumes "dc_state dc = STATE_CONNECTING" "dc_timeout dc = None" "\<not> dc_registered dc"
    "\<not> reading (dc_session dc)" "\<not> writing (dc_session dc)" "open_fds (dc_calls dc) = {}"
  shows "if connects_at_once env dc then try_connect ops env dc = Inl Iv_fatal else safe inv (try_connect ops env dc)"
  using assms
  by (auto simp: try_connect_def connects_at_once_def connect_success_def iv_defs dc_inv_def Let_def
      split: option.split connect_result.split)

lemma rx_timeout_cases:
  assumes "inv dc" "dc_timeout dc \<noteq> None"
  shows "if dc_at_once (Timer env) dc then rx_timeout_expired ops env (dc\<lparr>dc_timeout := None\<rparr>) = Inl Iv_fatal
    else safe inv (rx_timeout_expired ops env (dc\<lparr>dc_timeout := None\<rparr>))"
proof (cases "dc_state dc")
  case STATE_WAITING_RETRY
  let ?dc = "dc\<lparr>dc_timeout := None, dc_state := STATE_CONNECTING\<rparr>"
  have "dc_at_once (Timer env) dc \<longleftrightarrow> connects_at_once env ?dc"
    using STATE_WAITING_RETRY by (simp add: dc_at_once_def connects_at_once_def)
  moreover have "if connects_at_once env ?dc then try_connect ops env ?dc = Inl Iv_fatal else safe inv (try_connect ops env ?dc)"
    by (rule try_connect_cases) (use STATE_WAITING_RETRY assms in \<open>simp_all add: dc_inv_def\<close>)
  ultimately show ?thesis using STATE_WAITING_RETRY by (simp add: rx_timeout_expired_def)
next
  case STATE_CONNECTING
  with assms show ?thesis by (auto simp: rx_timeout_expired_def iv_defs dc_inv_def dc_at_once_def Let_def)
qed (use assms in \<open>auto simp: dc_inv_def\<close>)

lemma event_cases:
  assumes "inv dc" "dc_enabled reading writing ev dc"
  shows "if dc_at_once ev dc then dc_run ops ev dc = Inl Iv_fatal else safe inv (dc_run ops ev dc)"
proof (cases ev)
  case (Timer env)
  with assms rx_timeout_cases show ?thesis by simp
next
  case (Readable env r)
  with assms have "dc_state dc = STATE_ESTABLISHED" by (cases "dc_state dc") (auto simp: dc_inv_def)
  with Readable assms handle_dgp_read_inv show ?thesis by (simp add: dc_at_once_def)
next
  case (Writable env)
  with assms have "dc_state dc = STATE_CONNECTING" by (cases "dc_state dc") (auto simp: dc_inv_def)
  with Writable assms connect_pollout_inv show ?thesis by (simp add: dc_at_once_def)
next
  case (Session_error env)
  with assms have st: "dc_state dc = STATE_ESTABLISHED" by (cases "dc_state dc") (auto simp: dc_inv_def)
  then have "safe inv (io_error ops env dc)"
    by (intro io_error_inv) (use assms(1) in \<open>simp_all add: dc_inv_def\<close>)
  with Session_error show ?thesis by (simp add: dr_dw_io_error_def dc_at_once_def)
qed

lemma start_cases:
  assumes "dc_fresh reading writing init dc0"
  shows "if connects_at_once env dc0 then dgp_connect_start ops init env dc0 = Inl Iv_fatal
    else safe inv (dgp_connect_start ops init env dc0)"
proof -
  let ?dc = "dc0\<lparr>dc_state := STATE_CONNECTING, dc_timeout := None, dc_registered := False,
      dc_handler_in := None, dc_handler_out := None, dc_session := init (dc_myid dc0) (dc_remoteid dc0) (dc_session dc0)\<rparr>"
  have "if connects_at_once env ?dc then try_connect ops env ?dc = Inl Iv_fatal else safe inv (try_connect ops env ?dc)"
    by (rule try_connect_cases) (use assms in \<open>simp_all add: dc_fresh_def Let_def\<close>)
  then show ?thesis by (simp add: dgp_connect_start_def connects_at_once_def Let_def)
qed

lemma start_inv: "dc_fresh reading writing init dc0 \<Longrightarrow> dgp_connect_start ops init env dc0 = Inr dc \<Longrightarrow> inv dc"
  using start_cases [of init dc0 env] by (auto split: if_splits)

lemma reach_inv:
  assumes "dc_fresh reading writing init dc0"
  shows "dc_reach ops reading writing init dc0 dc \<Longrightarrow> inv dc"
proof (induction rule: dc_reach.induct)
  case (start env dc)
  with start_inv [OF assms] show ?case by blast
next
  case (event dc ev dc')
  with event_cases [of dc ev] show ?case by (auto split: if_splits)
next
  case (session dc s)
  then show ?case by (simp add: dc_inv_def split: dc_state.splits)
qed

lemma stop_safe:
  assumes "inv dc"
  shows "safe (\<lambda>dc'. open_fds (dc_calls dc') = {} \<and> dc_timeout dc' = None \<and> \<not> dc_registered dc' \<and>
    \<not> reading (dc_session dc') \<and> \<not> writing (dc_session dc')) (dgp_connect_stop ops dc)"
proof (cases "dc_state dc")
  case STATE_ESTABLISHED
  let ?dc = "dc\<lparr>dc_registered := False, dc_calls := dc_calls dc @ [Sys_close (dc_fd dc)]\<rparr>"
  have on: "reading (dc_session dc)" "writing (dc_session dc)" "open_fds (dc_calls dc) = {dc_fd dc}"
      "dc_timeout dc = None" "dc_registered dc" using STATE_ESTABLISHED assms by (auto simp: dc_inv_def)
  have "hbind m Inr = m" for m :: "'s dgp_connect handled" by (cases m) simp_all
  then have "dgp_connect_stop ops dc = hbind (on_session (ss_writer_unregister ops) ?dc) (\<lambda>dc.
      hbind (on_session (ss_reader_unregister ops) dc) Inr)"
    using STATE_ESTABLISHED on(5) by (simp add: dgp_connect_stop_def iv_fd_unregister_def sys_def)
  with on show ?thesis using session_down [of ?dc _ Inr] by simp
qed (use assms in \<open>auto simp: dgp_connect_stop_def iv_defs dc_inv_def\<close>)

end


section \<open>The properties\<close>

text \<open>The ids that \<^verbatim>\<open>dgp_connect_start\<close> gives to the reader and the writer.\<close>

definition se_init :: "bytes option \<Rightarrow> bytes \<Rightarrow> session \<Rightarrow> session" where
  "se_init myid remoteid s =
     s\<lparr>se_dr := (se_dr s)\<lparr>dr_myid := myid, dr_remoteid := Some remoteid\<rparr>,
       se_dw := (se_dw s)\<lparr>dw_myid := myid, dw_remoteid := Some remoteid\<rparr>\<rparr>"

text \<open>C36: in every state that a connection reaches, exactly the resources of that state are in use
  (socket, timer, reader and writer, and no other descriptor is open), and stopping gives everything back.
  One event misuses the event loop, and no other: the timer expires while the connection waits to be tried
  again, the socket is made and bound, and \<^verbatim>\<open>connect\<close> succeeds at once; \<^verbatim>\<open>connect_success\<close> then
  unregisters a timer that is not registered, and the process stops.  The same holds of the first attempt.\<close>

theorem dgp_connect_safe:
  assumes "dc_fresh se_reading se_writing se_init dc0"
  shows "(if connects_at_once e dc0 then dgp_connect_start (se_ops env) se_init e dc0 = Inl Iv_fatal
      else safe (dc_inv se_reading se_writing) (dgp_connect_start (se_ops env) se_init e dc0)) \<and>
    (dc_reach (se_ops env) se_reading se_writing se_init dc0 dc \<longrightarrow>
      dc_inv se_reading se_writing dc \<and>
      (\<forall>ev. dc_enabled se_reading se_writing ev dc \<longrightarrow>
        (if dc_at_once ev dc then dc_run (se_ops env) ev dc = Inl Iv_fatal
         else safe (dc_inv se_reading se_writing) (dc_run (se_ops env) ev dc))) \<and>
      safe (\<lambda>dc'. open_fds (dc_calls dc') = {} \<and> dc_timeout dc' = None \<and> \<not> dc_registered dc' \<and>
        \<not> se_reading (dc_session dc') \<and> \<not> se_writing (dc_session dc')) (dgp_connect_stop (se_ops env) dc))"
proof (intro conjI impI)
  show "if connects_at_once e dc0 then dgp_connect_start (se_ops env) se_init e dc0 = Inl Iv_fatal
      else safe (dc_inv se_reading se_writing) (dgp_connect_start (se_ops env) se_init e dc0)"
    by (rule se.start_cases [OF assms])
  assume "dc_reach (se_ops env) se_reading se_writing se_init dc0 dc"
  then have inv: "dc_inv se_reading se_writing dc" by (rule se.reach_inv [OF assms])
  then show "dc_inv se_reading se_writing dc" .
  show "\<forall>ev. dc_enabled se_reading se_writing ev dc \<longrightarrow>
      (if dc_at_once ev dc then dc_run (se_ops env) ev dc = Inl Iv_fatal
       else safe (dc_inv se_reading se_writing) (dc_run (se_ops env) ev dc))"
    using se.event_cases [OF inv] by blast
  show "safe (\<lambda>dc'. open_fds (dc_calls dc') = {} \<and> dc_timeout dc' = None \<and> \<not> dc_registered dc' \<and>
      \<not> se_reading (dc_session dc') \<and> \<not> se_writing (dc_session dc')) (dgp_connect_stop (se_ops env) dc)"
    by (rule se.stop_safe [OF inv])
qed

text \<open>C37: a connection that is not established has its timer running; when the timer expires while
  it waits, it connects to the peer's address again and sets a timer of nine to eleven seconds;
  when it expires before the connection is made, the socket is given up and a new attempt
  is scheduled about a second later.\<close>

theorem dgp_connect_retries:
  assumes "dc_fresh se_reading se_writing se_init dc0" "dc_reach (se_ops env) se_reading se_writing se_init dc0 dc"
    and "dc_state dc \<noteq> STATE_ESTABLISHED" "0 \<le> de_socket e" "de_bind e" "de_connect e = Connect_in_progress"
  shows "dc_timeout dc \<noteq> None \<and> (\<exists>dc'. dc_run (se_ops env) (Timer e) dc = Inr dc' \<and>
    (if dc_state dc = STATE_WAITING_RETRY
     then dc_state dc' = STATE_CONNECTING \<and>
       last (dc_calls dc') = Sys_connect (de_socket e) (dc_address (dc_ifindex dc) (dc_remoteid dc)) \<and>
       dc_timeout dc' = Some (timespec_add_ms (fst (de_clock e)) (snd (de_clock e)) 9000 11000)
     else dc_state dc' = STATE_WAITING_RETRY \<and> last (dc_calls dc') = Sys_close (dc_fd dc) \<and>
       dc_timeout dc' = Some (timespec_add_ms (fst (de_clock e)) (snd (de_clock e)) 900 1100)))"
proof -
  have inv: "dc_inv se_reading se_writing dc" by (rule se.reach_inv [OF assms(1,2)])
  show ?thesis
  proof (cases "dc_state dc")
    case STATE_WAITING_RETRY
    with inv assms(4-6) show ?thesis
      by (cases "dc_myid dc") (simp_all add: rx_timeout_expired_def try_connect_def iv_defs dc_inv_def Let_def)
  next
    case STATE_CONNECTING
    with inv show ?thesis by (simp add: rx_timeout_expired_def iv_defs dc_inv_def Let_def)
  qed (use assms(3) in simp)
qed

section \<open>Samples\<close>

definition sample_session :: session where
  "sample_session = \<lparr>
     se_dr = \<lparr>dr_myid = None, dr_remoteid = None, dr_buf = [],
       dr_adj_rib_in = \<lparr>ai_myid = None, ai_remoteid = None, ai_lsas = [], ai_size = 0, ai_listeners = []\<rparr>,
       dr_keepalive_timeout = None\<rparr>,
     se_dw = \<lparr>dw_myid = None, dw_remoteid = None, dw_sock = \<lparr>sk_sent = [], sk_failed = False\<rparr>, dw_keepalive_timer = None\<rparr>,
     se_rib = \<lparr>lr_myid = None, lr_ids = [], lr_recompute = False, lr_listeners = []\<rparr>,
     se_rc = (\<lambda>_. 0), se_place = 0\<rparr>"

definition sample_connect :: "session dgp_connect" where
  "sample_connect = \<lparr>dc_myid = Some (replicate 32 3), dc_remoteid = replicate 32 9, dc_ifindex = 4,
     dc_state = STATE_CONNECTING, dc_timeout = None, dc_fd = 0, dc_registered = False, dc_handler_in = None,
     dc_handler_out = None, dc_session = sample_session, dc_calls = []\<rparr>"

definition sample_dc_env :: dc_env where
  "sample_dc_env = \<lparr>de_socket = 7, de_bind = True, de_connect = Connect_in_progress, de_sockerr = None,
     de_clock = (0, \<lparr>tv_sec = 100, tv_nsec = 0\<rparr>)\<rparr>"

definition sample_started :: "session dgp_connect" where
  "sample_started = sample_connect\<lparr>dc_timeout := Some (timespec_add_ms 0 \<lparr>tv_sec = 100, tv_nsec = 0\<rparr> 9000 11000), dc_fd := 7,
     dc_registered := True, dc_handler_out := Some Connect_pollout,
     dc_session := se_init (Some (replicate 32 3)) (replicate 32 9) sample_session,
     dc_calls := [Sys_socket 7, Sys_bind 7 (dc_address 4 (replicate 32 3)), Sys_connect 7 (dc_address 4 (replicate 32 9))]\<rparr>"

definition sample_senv :: session_env where
  "sample_senv = \<lparr>sn_root = (\<lambda>_. 0), sn_crypto = sample_crypto, sn_alloc = sample_allocator,
     sn_sock = \<lparr>so_write = \<lambda>d s. (True, s\<lparr>sk_sent := sk_sent s @ d\<rparr>), so_cork = \<lambda>_. Some,
       so_clock = \<lambda>_. (0, \<lparr>tv_sec = 100, tv_nsec = 0\<rparr>), so_io_error = \<lambda>s. Inr (s\<lparr>sk_failed := True\<rparr>)\<rparr>,
     sn_clock = \<lambda>_. (0, \<lparr>tv_sec = 100, tv_nsec = 0\<rparr>)\<rparr>"

lemma sample_connect_fresh: "dc_fresh se_reading se_writing se_init sample_connect"
  by (simp add: dc_fresh_def sample_connect_def sample_session_def se_init_def se_reading_def se_writing_def)

lemma sample_connect_reach: "dc_reach (se_ops env) se_reading se_writing se_init sample_connect sample_started"
  by (rule dc_reach.start [where env = sample_dc_env])
    (simp_all add: sample_dc_env_def dgp_connect_start_def try_connect_def iv_defs sample_connect_def
      sample_started_def Let_def)

theorem dgp_connect_safe_witness:
  "dgp_connect_start (se_ops sample_senv) se_init (sample_dc_env\<lparr>de_connect := Connect_ok\<rparr>) sample_connect = Inl Iv_fatal \<and>
   dc_inv se_reading se_writing sample_started"
proof
  have "connects_at_once (sample_dc_env\<lparr>de_connect := Connect_ok\<rparr>) sample_connect"
    by (simp add: connects_at_once_def sample_dc_env_def)
  then show "dgp_connect_start (se_ops sample_senv) se_init (sample_dc_env\<lparr>de_connect := Connect_ok\<rparr>) sample_connect = Inl Iv_fatal"
    using dgp_connect_safe [OF sample_connect_fresh, of "sample_dc_env\<lparr>de_connect := Connect_ok\<rparr>" sample_senv] by simp
  show "dc_inv se_reading se_writing sample_started"
    using dgp_connect_safe [OF sample_connect_fresh, of _ sample_senv sample_started] sample_connect_reach by blast
qed

theorem dgp_connect_retries_witness:
  "\<exists>dc'. dc_run (se_ops sample_senv) (Timer sample_dc_env) sample_started = Inr dc' \<and> dc_state dc' = STATE_WAITING_RETRY"
  using dgp_connect_retries [OF sample_connect_fresh sample_connect_reach, of sample_dc_env]
  by (auto simp: sample_started_def sample_connect_def sample_dc_env_def)

end
