(* ===== verification/Tun_Itf.thy ===== *)
theory Tun_Itf
  imports Conf Event_Loop
begin

text \<open>
  The network interfaces of the node: \<^verbatim>\<open>src/tun.c\<close> (the device that carries the packets of a peer)
  and \<^verbatim>\<open>src/itf.c\<close> (addresses, routes and settings, made by running \<^verbatim>\<open>ip\<close>).  What is asked of the
  system is recorded, what it answers is a parameter.
\<close>

section \<open>The device\<close>

text \<open>
  \<open>ti_registered\<close> tells whether the event loop watches the descriptor.  The name that the
  system gives the interface is \<open>ti_name\<close>; a null \<^verbatim>\<open>itfname\<close> leaves the choice to it.
\<close>

record tun_interface =
  ti_itfname :: "bytes option"
  ti_fd :: int
  ti_registered :: bool
  ti_name :: bytes

datatype itf_call =
    Tun_open int
  | Tun_close int
  | Tun_write int bytes
  | Itf_ip "bytes list"
  | Itf_enable_v6 bytes

definition IFNAMSIZ :: nat where "IFNAMSIZ = 16"

text \<open>
  The answers: the descriptor that \<^verbatim>\<open>open\<close> returns; the name the \<^verbatim>\<open>ioctl\<close> gives, \<open>None\<close> when it fails; whether
  a program that is run succeeds and whether the file under \<^verbatim>\<open>/proc\<close> can be opened, after the
  calls so far; and \<^verbatim>\<open>inet_ntop\<close>.
\<close>

record itf_env =
  ie_open :: "itf_call list \<Rightarrow> int"
  ie_setiff :: "bytes option \<Rightarrow> itf_call list \<Rightarrow> bytes option"
  ie_ip :: "bytes list \<Rightarrow> itf_call list \<Rightarrow> bool"
  ie_proc :: "itf_call list \<Rightarrow> bool"
  ie_ntop :: "bytes \<Rightarrow> bytes"

definition tun_interface_register ::
  "itf_env \<Rightarrow> tun_interface \<Rightarrow> itf_call list \<Rightarrow> int \<times> tun_interface \<times> itf_call list" where
  "tun_interface_register env ti calls =
     (let fd = ie_open env calls
      in if fd < 0 then (-1, ti, calls)
         else let calls = calls @ [Tun_open fd]
              in case ie_setiff env (map_option (take IFNAMSIZ) (ti_itfname ti)) calls of
                   None \<Rightarrow> (-1, ti, calls @ [Tun_close fd])
                 | Some nm \<Rightarrow> (0, ti\<lparr>ti_name := nm, ti_fd := fd, ti_registered := True\<rparr>, calls))"

definition tun_interface_unregister ::
  "tun_interface \<Rightarrow> itf_call list \<Rightarrow> (tun_interface \<times> itf_call list) handled" where
  "tun_interface_unregister ti calls =
     (if \<not> ti_registered ti then Inl Iv_fatal
      else Inr (ti\<lparr>ti_registered := False\<rparr>, calls @ [Tun_close (ti_fd ti)]))"

definition tun_interface_get_name :: "tun_interface \<Rightarrow> bytes" where
  "tun_interface_get_name ti = ti_name ti"

text \<open>The result of \<^verbatim>\<open>write\<close> is only printed.\<close>

definition tun_interface_send_packet :: "tun_interface \<Rightarrow> bytes \<Rightarrow> itf_call list \<Rightarrow> itf_call list" where
  "tun_interface_send_packet ti buf calls = calls @ [Tun_write (ti_fd ti) buf]"

text \<open>The result of \<^verbatim>\<open>read\<close>, once it is not interrupted.\<close>

datatype tun_read = Tun_data bytes | Tun_again | Tun_error

definition tun_got_packet :: "(bytes \<Rightarrow> 'u \<Rightarrow> 'u handled) \<Rightarrow> tun_read \<Rightarrow> 'u \<Rightarrow> 'u handled" where
  "tun_got_packet got_packet r u =
     (case r of
        Tun_error \<Rightarrow> Inl (Called Abort)
      | Tun_again \<Rightarrow> Inr u
      | Tun_data buf \<Rightarrow> if buf = [] then Inr u else got_packet buf u)"


section \<open>Running ip\<close>

text \<open>The arguments end at the first null pointer.\<close>

fun argv :: "bytes option list \<Rightarrow> bytes list" where
  "argv (Some a # as) = a # argv as"
| "argv _ = []"

definition spawnvp :: "itf_env \<Rightarrow> bytes option list \<Rightarrow> itf_call list \<Rightarrow> int \<times> itf_call list" where
  "spawnvp env args calls =
     (if ie_ip env (argv args) calls then 0 else -1, calls @ [Itf_ip (argv args)])"

definition itf_add_addr_v6 :: "itf_env \<Rightarrow> bytes \<Rightarrow> bytes \<Rightarrow> int \<Rightarrow> itf_call list \<Rightarrow> int \<times> itf_call list" where
  "itf_add_addr_v6 env itf addr len calls =
     spawnvp env [Some (cstr ''ip''), Some (cstr ''addr''), Some (cstr ''add''),
       Some (ie_ntop env addr @ cstr ''/'' @ print_int len), Some (cstr ''dev''), Some itf, None] calls"

definition route_v6_direct :: "itf_env \<Rightarrow> bytes \<Rightarrow> bytes \<Rightarrow> bytes option \<Rightarrow> itf_call list \<Rightarrow> int \<times> itf_call list" where
  "route_v6_direct env action dest itf calls =
     spawnvp env [Some (cstr ''ip''), Some (cstr ''route''), Some action, Some (ie_ntop env dest),
       Some (cstr ''dev''), itf, None] calls"

definition itf_add_route_v6_direct :: "itf_env \<Rightarrow> bytes \<Rightarrow> bytes option \<Rightarrow> itf_call list \<Rightarrow> int \<times> itf_call list" where
  "itf_add_route_v6_direct env addr itf calls = route_v6_direct env (cstr ''add'') addr itf calls"

definition itf_chg_route_v6_direct :: "itf_env \<Rightarrow> bytes \<Rightarrow> bytes option \<Rightarrow> itf_call list \<Rightarrow> int \<times> itf_call list" where
  "itf_chg_route_v6_direct env addr itf calls = route_v6_direct env (cstr ''chg'') addr itf calls"

definition itf_del_route_v6_direct :: "itf_env \<Rightarrow> bytes \<Rightarrow> bytes option \<Rightarrow> itf_call list \<Rightarrow> int \<times> itf_call list" where
  "itf_del_route_v6_direct env addr itf calls = route_v6_direct env (cstr ''del'') addr itf calls"

definition itf_set_mtu :: "itf_env \<Rightarrow> bytes \<Rightarrow> int \<Rightarrow> itf_call list \<Rightarrow> int \<times> itf_call list" where
  "itf_set_mtu env itf mtu calls =
     spawnvp env [Some (cstr ''ip''), Some (cstr ''link''), Some (cstr ''set''), Some itf, Some (cstr ''mtu''),
       Some (print_int mtu), None] calls"

definition itf_set_state :: "itf_env \<Rightarrow> bytes \<Rightarrow> bool \<Rightarrow> itf_call list \<Rightarrow> int \<times> itf_call list" where
  "itf_set_state env itf up calls =
     (let (ret, calls) = spawnvp env [Some (cstr ''ip''), Some (cstr ''link''), Some (cstr ''set''), Some itf,
            Some (cstr (if up then ''up'' else ''down'')), None] calls
      in if ret \<noteq> 0 then (-1, calls)
         else if up \<and> ie_proc env calls
         then (0, calls @ [Itf_enable_v6 (take 255 (cstr ''/proc/sys/net/ipv6/conf/'' @ itf @ cstr ''/disable_ipv6''))])
         else (0, calls))"

end
