(* ===== verification/Dvpn_Connect.thy ===== *)
theory Dvpn_Connect
  imports My_Lsa Tconn_Connect Dgp_Connect Tun_Itf
begin

text \<open>
  The connections that the node makes, in \<^verbatim>\<open>src/dvpn.c\<close>: the user of \<^verbatim>\<open>tconn_connect.c\<close>.  A new connection
  gets an interface, a place among the direct peers, an entry in the node's own LSA and a session of
  the routing protocol; a lost one gives them back.  The properties: the connections of an entry of the
  configuration use exactly their resources at all times, packets pass unchanged, and two peers
  with one address stop the process.
\<close>

section \<open>The code\<close>

record direct_peer =
  dp_addr :: bytes
  dp_itfname :: bytes

record connect_entry_conn =
  cec_cce :: conf_connect_entry
  cec_peerid :: bytes
  cec_tun :: tun_interface
  cec_dp :: direct_peer
  cec_dc :: "session dgp_connect"

text \<open>
  The variables of \<^verbatim>\<open>dvpn.c\<close> that the connections use, the objects that are allocated
  (\<open>dv_conns\<close>), the list of each entry of the configuration, by its name, and the record of
  what is done to interfaces.
\<close>

record dvpn =
  dv_me :: lsa
  dv_rc :: refcounts
  dv_rib :: "sock dgp_writer loc_rib"
  dv_peers :: "direct_peer list"
  dv_conns :: "nat \<Rightarrow> connect_entry_conn option"
  dv_connections :: "bytes \<Rightarrow> nat list"
  dv_calls :: "itf_call list"

text \<open>
  The identity of the node, and the answers of the system: the time, the addresses \<^verbatim>\<open>malloc\<close> and
  \<^verbatim>\<open>calloc\<close> return, what the connection reports as its round trip time and segment size, the index
  of an interface, and the answers to the routing protocol's connection.
\<close>

record dvpn_env =
  ve_keyid :: bytes
  ve_signer :: signer
  ve_session :: session_env
  ve_itf :: itf_env
  ve_now :: "dvpn \<Rightarrow> u64"
  ve_malloc :: "dvpn \<Rightarrow> nat option"
  ve_calloc :: "dvpn \<Rightarrow> nat option"
  ve_rtt :: "dvpn \<Rightarrow> int"
  ve_maxseg :: "dvpn \<Rightarrow> int"
  ve_ifindex :: "bytes \<Rightarrow> int"
  ve_dc :: "dvpn \<Rightarrow> dc_env"

subsection \<open>Direct peers and routes\<close>

definition compare_direct_peers :: "direct_peer \<Rightarrow> direct_peer \<Rightarrow> int" where
  "compare_direct_peers a b = memcmp (dp_addr a) (dp_addr b)"

definition dp_find :: "direct_peer list \<Rightarrow> bytes \<Rightarrow> direct_peer option" where
  "dp_find peers addr = avl_find (\<lambda>dp. memcmp addr (dp_addr dp)) peers"

definition peer_itfname :: "direct_peer list \<Rightarrow> bytes \<Rightarrow> bytes option" where
  "peer_itfname peers addr = map_option dp_itfname (dp_find peers addr)"

definition dv_rt_add :: "itf_env \<Rightarrow> direct_peer list \<Rightarrow> bytes \<Rightarrow> bytes option \<Rightarrow> itf_call list \<Rightarrow> itf_call list" where
  "dv_rt_add env peers dest nh calls =
     snd (itf_add_route_v6_direct env dest (peer_itfname peers (case nh of Some h \<Rightarrow> h | None \<Rightarrow> dest)) calls)"

definition dv_rt_mod ::
  "itf_env \<Rightarrow> direct_peer list \<Rightarrow> bytes \<Rightarrow> bytes option \<Rightarrow> bytes option \<Rightarrow> itf_call list \<Rightarrow> itf_call list" where
  "dv_rt_mod env peers dest oldnh newnh calls =
     (let itfname = peer_itfname peers (case newnh of Some h \<Rightarrow> h | None \<Rightarrow> dest);
          (ret, calls) = itf_chg_route_v6_direct env dest itfname calls
      in if ret < 0 then snd (itf_add_route_v6_direct env dest itfname calls) else calls)"

definition dv_rt_del :: "itf_env \<Rightarrow> direct_peer list \<Rightarrow> bytes \<Rightarrow> bytes option \<Rightarrow> itf_call list \<Rightarrow> itf_call list" where
  "dv_rt_del env peers dest nh calls =
     (let itfname = peer_itfname peers (case nh of Some h \<Rightarrow> h | None \<Rightarrow> dest)
      in if itfname \<noteq> None then snd (itf_del_route_v6_direct env dest itfname calls) else calls)"

subsection \<open>What a connection shares\<close>

text \<open>A change of the node's own LSA.\<close>

definition dv_mylsa ::
  "(lsa \<times> sock dgp_writer loc_rib world \<Rightarrow> (lsa \<times> sock dgp_writer loc_rib world) outcome) \<Rightarrow> dvpn \<Rightarrow> dvpn handled" where
  "dv_mylsa f dv =
     hbind (called (f (dv_me dv, dv_rc dv, dv_rib dv))) (\<lambda>(me, rc, rib). Inr (dv\<lparr>dv_me := me, dv_rc := rc, dv_rib := rib\<rparr>))"

text \<open>
  A session works on the base and the reference counts that all share: they are handed to it
  before a call and taken back after it.  The writers are listeners of the base, each known by its place;
  when one leaves, those behind it move up.
\<close>

definition dc_load :: "dvpn \<Rightarrow> session dgp_connect \<Rightarrow> session dgp_connect" where
  "dc_load dv dc = dc\<lparr>dc_session := (dc_session dc)\<lparr>se_rib := dv_rib dv, se_rc := dv_rc dv\<rparr>\<rparr>"

definition place_after :: "session dgp_connect \<Rightarrow> session dgp_connect \<Rightarrow> connect_entry_conn \<Rightarrow> connect_entry_conn" where
  "place_after old new c =
     (let s = dc_session (cec_dc c)
      in if se_writing (dc_session old) \<and> \<not> se_writing (dc_session new) \<and> se_place (dc_session old) < se_place s
         then c\<lparr>cec_dc := (cec_dc c)\<lparr>dc_session := s\<lparr>se_place := se_place s - 1\<rparr>\<rparr>\<rparr>
         else c)"

definition dc_store :: "nat \<Rightarrow> connect_entry_conn \<Rightarrow> session dgp_connect \<Rightarrow> dvpn \<Rightarrow> dvpn" where
  "dc_store k cec dc dv =
     dv\<lparr>dv_rib := se_rib (dc_session dc), dv_rc := se_rc (dc_session dc),
        dv_conns := (\<lambda>q. map_option (place_after (cec_dc cec) dc) (dv_conns dv q))(k \<mapsto> cec\<lparr>cec_dc := dc\<rparr>)\<rparr>"

definition cec_on_dc ::
  "nat \<Rightarrow> (session dgp_connect \<Rightarrow> session dgp_connect handled) \<Rightarrow> dvpn \<Rightarrow> dvpn handled" where
  "cec_on_dc k f dv =
     hbind (deref (dv_conns dv k)) (\<lambda>cec.
     hbind (f (dc_load dv (cec_dc cec))) (\<lambda>dc. Inr (dc_store k cec dc dv)))"

subsection \<open>The life of a connection\<close>

text \<open>A packet of the interface is sent with its length in front.\<close>

definition packet_frame :: "bytes \<Rightarrow> bytes" where
  "packet_frame buf = [0x00, word_of_nat (length buf div 256), word_of_nat (length buf mod 256)] @ buf"

definition cec_tun_got_packet ::
  "(nat, dvpn) tc_user_ops \<Rightarrow> tc_envs \<Rightarrow> bytes \<Rightarrow> (nat, dvpn) tconn_connect \<Rightarrow> (nat, dvpn) tconn_connect handled" where
  "cec_tun_got_packet ops envs buf tc = tconn_connect_record_send ops envs (packet_frame buf) tc"

text \<open>What \<^verbatim>\<open>cec_destroy\<close> does when the session is stopped.\<close>

definition cec_release :: "dvpn_env \<Rightarrow> nat \<Rightarrow> connect_entry_conn \<Rightarrow> dvpn \<Rightarrow> dvpn handled" where
  "cec_release ve k cec dv =
     (if cec_dp cec \<notin> set (dv_peers dv) then Inl Dangling
      else let dv = dv\<lparr>dv_peers := avl_delete compare_direct_peers (cec_dp cec) (dv_peers dv)\<rparr>
      in hbind (tun_interface_unregister (cec_tun cec) (dv_calls dv)) (\<lambda>(_, calls).
         let dv = dv\<lparr>dv_calls := calls\<rparr>
         in hbind (if cce_peer_type (cec_cce cec) \<noteq> CONF_PEER_TYPE_DBONLY
                   then dv_mylsa (mylsa_del_peer (ve_signer ve) (ve_now ve dv) (ve_malloc ve dv) (cec_peerid cec)) dv
                   else Inr dv) (\<lambda>dv.
            Inr (dv\<lparr>dv_conns := (dv_conns dv)(k := None)\<rparr>))))"

definition cec_destroy :: "dvpn_env \<Rightarrow> nat \<Rightarrow> dvpn \<Rightarrow> dvpn handled" where
  "cec_destroy ve k dv =
     hbind (deref (dv_conns dv k)) (\<lambda>cec.
     let name = cce_name (cec_cce cec)
     in if k \<notin> set (dv_connections dv name) then Inl Dangling
        else let dv = dv\<lparr>dv_connections := (dv_connections dv)(name := remove1 k (dv_connections dv name))\<rparr>
        in hbind (cec_on_dc k (dgp_connect_stop (se_ops (ve_session ve))) dv) (cec_release ve k cec))"

text \<open>The cost of the link to the peer, and the packet size of the interface.\<close>

definition conn_cost :: "int \<Rightarrow> int \<Rightarrow> int" where
  "conn_cost configured rtt = (if configured = 0 then if rtt < 1 then 1 else rtt else configured)"

definition conn_mtu :: "int \<Rightarrow> int" where
  "conn_mtu maxseg =
     (let mtu = maxseg - 5 - 8 - 3 - 16 in if mtu < 1280 then 1280 else if mtu > 1500 then 1500 else mtu)"

definition conn_setup_itf :: "itf_env \<Rightarrow> bytes \<Rightarrow> bytes \<Rightarrow> int \<Rightarrow> itf_call list \<Rightarrow> itf_call list" where
  "conn_setup_itf env keyid tunitf mtu calls =
     (let calls = snd (itf_set_mtu env tunitf mtu calls);
          calls = snd (itf_set_state env tunitf True calls);
          calls = snd (itf_add_addr_v6 env tunitf (v6_linklocal_addr_from_key_id keyid) 10 calls)
      in snd (itf_add_addr_v6 env tunitf (v6_global_addr_from_key_id keyid) 128 calls))"

text \<open>What \<^verbatim>\<open>calloc\<close> makes of the connection of the routing protocol, before the code fills it in.\<close>

definition zero_session :: session where
  "zero_session = \<lparr>
     se_dr = \<lparr>dr_myid = None, dr_remoteid = None, dr_buf = [],
       dr_adj_rib_in = \<lparr>ai_myid = None, ai_remoteid = None, ai_lsas = [], ai_size = 0, ai_listeners = []\<rparr>,
       dr_keepalive_timeout = None\<rparr>,
     se_dw = \<lparr>dw_myid = None, dw_remoteid = None, dw_sock = \<lparr>sk_sent = [], sk_failed = False\<rparr>, dw_keepalive_timer = None\<rparr>,
     se_rib = \<lparr>lr_myid = None, lr_ids = [], lr_recompute = False, lr_listeners = []\<rparr>,
     se_rc = (\<lambda>_. 0), se_place = 0\<rparr>"

definition cec_new_dc :: "dvpn_env \<Rightarrow> bytes \<Rightarrow> bytes \<Rightarrow> session dgp_connect" where
  "cec_new_dc ve peerid tunitf = \<lparr>dc_myid = Some (ve_keyid ve), dc_remoteid = peerid, dc_ifindex = ve_ifindex ve tunitf,
     dc_state = STATE_CONNECTING, dc_timeout = None, dc_fd = 0, dc_registered = False, dc_handler_in = None,
     dc_handler_out = None, dc_session = zero_session, dc_calls = []\<rparr>"

text \<open>The last part of \<^verbatim>\<open>cce_new_conn\<close>, when the interface is there.\<close>

definition cce_setup_conn ::
  "dvpn_env \<Rightarrow> conf_connect_entry \<Rightarrow> nat \<Rightarrow> bytes \<Rightarrow> tun_interface \<Rightarrow> dvpn \<Rightarrow> (nat option \<times> dvpn) handled" where
  "cce_setup_conn ve cce k peerid tun dv =
     (if ve_maxseg ve dv < 0 then Inl (Called Abort)
      else let tunitf = tun_interface_get_name tun;
               dv = dv\<lparr>dv_calls := conn_setup_itf (ve_itf ve) (ve_keyid ve) tunitf (conn_mtu (ve_maxseg ve dv)) (dv_calls dv)\<rparr>;
               dp = \<lparr>dp_addr = v6_global_addr_from_key_id peerid, dp_itfname = tunitf\<rparr>
      in case avl_insert compare_direct_peers dp (dv_peers dv) of
           None \<Rightarrow> Inl (Called Abort)
         | Some peers \<Rightarrow>
             let cec = \<lparr>cec_cce = cce, cec_peerid = peerid, cec_tun = tun, cec_dp = dp, cec_dc = cec_new_dc ve peerid tunitf\<rparr>;
                 dv = dv\<lparr>dv_peers := peers, dv_conns := (dv_conns dv)(k \<mapsto> cec)\<rparr>
             in hbind (cec_on_dc k (dgp_connect_start (se_ops (ve_session ve)) se_init (ve_dc ve dv)) dv) (\<lambda>dv.
                Inr (Some k, dv\<lparr>dv_connections :=
                  (dv_connections dv)(cce_name cce := dv_connections dv (cce_name cce) @ [k])\<rparr>)))"

definition cce_new_conn :: "dvpn_env \<Rightarrow> conf_connect_entry \<Rightarrow> bytes \<Rightarrow> dvpn \<Rightarrow> (nat option \<times> dvpn) handled" where
  "cce_new_conn ve cce peerid dv =
     (if dp_find (dv_peers dv) (v6_global_addr_from_key_id (ve_keyid ve)) \<noteq> None then Inr (None, dv)
      else case ve_calloc ve dv of
        None \<Rightarrow> Inr (None, dv)
      | Some k \<Rightarrow>
          let tun = \<lparr>ti_itfname = Some (cce_tunitf cce), ti_fd = 0, ti_registered = False, ti_name = []\<rparr>;
              (ret, tun, calls) = tun_interface_register (ve_itf ve) tun (dv_calls dv);
              dv = dv\<lparr>dv_calls := calls\<rparr>
          in if ret < 0 then Inr (None, dv)
             else hbind (if cce_peer_type cce \<noteq> CONF_PEER_TYPE_DBONLY
                         then dv_mylsa (mylsa_add_peer (ve_signer ve) (ve_now ve dv) (ve_malloc ve dv) peerid
                                (cce_peer_type cce) (conn_cost (cce_cost cce) (ve_rtt ve dv))) dv
                         else Inr dv)
                    (cce_setup_conn ve cce k peerid tun))"

definition cec_record_received :: "nat option \<Rightarrow> bytes \<Rightarrow> dvpn \<Rightarrow> dvpn handled" where
  "cec_record_received ko r dv =
     (if length r \<le> 3 then Inr dv
      else if r ! 0 \<noteq> 0x00 then Inr dv
      else let rlen = 256 * unat (r ! 1) + unat (r ! 2)
      in if rlen + 3 \<noteq> length r then Inr dv
      else case ko of
             None \<Rightarrow> Inl (Called Null_deref)
           | Some k \<Rightarrow> hbind (deref (dv_conns dv k)) (\<lambda>cec.
               Inr (dv\<lparr>dv_calls := tun_interface_send_packet (cec_tun cec) (take rlen (drop 3 r)) (dv_calls dv)\<rparr>)))"

definition cec_disconnect :: "dvpn_env \<Rightarrow> nat option \<Rightarrow> dvpn \<Rightarrow> dvpn handled" where
  "cec_disconnect ve ko dv = (case ko of None \<Rightarrow> Inl (Called Null_deref) | Some k \<Rightarrow> cec_destroy ve k dv)"

definition cec_ops :: "dvpn_env \<Rightarrow> conf_connect_entry \<Rightarrow> (nat, dvpn) tc_user_ops" where
  "cec_ops ve cce = \<lparr>tu_new_conn = cce_new_conn ve cce, tu_record_received = cec_record_received,
     tu_disconnect = cec_disconnect ve\<rparr>"





section \<open>The resources of a connection\<close>

lemma dc_load_inv [simp]: "dc_inv se_reading se_writing (dc_load dv dc) \<longleftrightarrow> dc_inv se_reading se_writing dc"
  by (simp add: dc_inv_def dc_load_def se_reading_def se_writing_def cong: dc_state.case_cong)

lemma on_dc_safe:
  assumes "dv_conns dv k = Some cec" "safe Q (f (dc_load dv (cec_dc cec)))"
  shows "safe (\<lambda>dv'. \<exists>dc. Q dc \<and> dv' = dc_store k cec dc dv) (cec_on_dc k f dv)"
  unfolding cec_on_dc_def assms(1) deref_simps hbind_simps
  by (rule safe_bind [OF assms(2)]) auto

lemma mylsa_safe:
  assumes "\<And>me rc rib. Q (dv\<lparr>dv_me := me, dv_rc := rc, dv_rib := rib\<rparr>)"
  shows "safe Q (dv_mylsa f dv)"
  unfolding dv_mylsa_def
  by (rule safe_bind [of "\<lambda>_. True"]) (simp add: safe_called, use assms in force)

lemma dc_store_simps [simp]:
  "dv_peers (dc_store k cec dc dv) = dv_peers dv" "dv_connections (dc_store k cec dc dv) = dv_connections dv"
  "dv_calls (dc_store k cec dc dv) = dv_calls dv" "dv_conns (dc_store k cec dc dv) k = Some (cec\<lparr>cec_dc := dc\<rparr>)"
  by (simp_all add: dc_store_def)

text \<open>
  \<open>cec_has cce ko dv\<close>: the entry \<open>cce\<close> has the connection \<open>ko\<close>, or none; a connection has its interface, its
  place among the direct peers and a session in one of its states.
\<close>

definition cec_ok :: "conf_connect_entry \<Rightarrow> connect_entry_conn \<Rightarrow> dvpn \<Rightarrow> bool" where
  "cec_ok cce cec dv \<longleftrightarrow> cec_cce cec = cce \<and> dc_inv se_reading se_writing (cec_dc cec) \<and>
     ti_registered (cec_tun cec) \<and> cec_dp cec \<in> set (dv_peers dv)"

definition cec_has :: "conf_connect_entry \<Rightarrow> nat option \<Rightarrow> dvpn \<Rightarrow> bool" where
  "cec_has cce ko dv \<longleftrightarrow>
     (case ko of
        None \<Rightarrow> dv_connections dv (cce_name cce) = []
      | Some k \<Rightarrow> dv_connections dv (cce_name cce) = [k] \<and> (\<exists>cec. dv_conns dv k = Some cec \<and> cec_ok cce cec dv))"

text \<open>No connection of the routing protocol is made at once.\<close>

definition ve_pends :: "dvpn_env \<Rightarrow> bool" where
  "ve_pends ve \<longleftrightarrow> (\<forall>dv. de_connect (ve_dc ve dv) \<noteq> Connect_ok)"

lemma cec_release_safe:
  assumes "cec_dp cec \<in> set (dv_peers dv)" "ti_registered (cec_tun cec)"
  shows "safe (\<lambda>dv'. dv_connections dv' = dv_connections dv \<and> dv_conns dv' = (dv_conns dv)(k := None) \<and>
      dv_peers dv' = avl_delete compare_direct_peers (cec_dp cec) (dv_peers dv))
    (cec_release ve k cec dv)"
proof -
  have mylsa: "safe (\<lambda>d. dv_connections d = dv_connections dv1 \<and> dv_conns d = dv_conns dv1 \<and> dv_peers d = dv_peers dv1)
      (dv_mylsa f dv1)" for f dv1
    by (simp add: mylsa_safe)
  show ?thesis
    using assms unfolding cec_release_def
    by (simp add: tun_interface_unregister_def Let_def) (intro impI, rule safe_bind [OF mylsa], simp)
qed

lemma cec_destroy_safe:
  assumes "cec_has cce (Some k) dv"
  shows "safe (cec_has cce None) (cec_destroy ve k dv)"
proof -
  obtain cec where cec: "dv_connections dv (cce_name cce) = [k]" "dv_conns dv k = Some cec" "cec_cce cec = cce"
    "dc_inv se_reading se_writing (cec_dc cec)" "ti_registered (cec_tun cec)" "cec_dp cec \<in> set (dv_peers dv)"
    using assms by (auto simp: cec_has_def cec_ok_def)
  let ?dv = "dv\<lparr>dv_connections := (dv_connections dv)(cce_name cce := [])\<rparr>"
  have inv: "dc_inv se_reading se_writing (dc_load ?dv (cec_dc cec))" using cec(4) by simp
  have conn: "dv_conns ?dv k = Some cec" using cec(2) by simp
  have stop: "safe (\<lambda>dv'. \<exists>dc. True \<and> dv' = dc_store k cec dc ?dv) (cec_on_dc k (dgp_connect_stop (se_ops (ve_session ve))) ?dv)"
    by (rule on_dc_safe [OF conn], rule safe_mono [OF se.stop_safe [OF inv]]) simp
  have release: "safe (cec_has cce None) (cec_release ve k cec (dc_store k cec dc ?dv))" for dc
    by (rule safe_mono [OF cec_release_safe]) (use cec in \<open>simp_all add: cec_has_def\<close>)
  have "safe (cec_has cce None)
      (hbind (cec_on_dc k (dgp_connect_stop (se_ops (ve_session ve))) ?dv) (cec_release ve k cec))"
    by (rule safe_bind [OF stop]) (use release in blast)
  with cec(1-3) show ?thesis by (simp add: cec_destroy_def)
qed

text \<open>The last part makes the connection, or the event loop is misused by a connection that is made at once.\<close>

lemma cce_setup_conn_cases:
  assumes "ti_registered tun" "dv_connections dv (cce_name cce) = []"
  shows "\<not> ve_pends ve \<and> cce_setup_conn ve cce k peerid tun dv = Inl Iv_fatal \<or>
    safe (\<lambda>(k, dv'). k \<noteq> None \<and> cec_has cce k dv') (cce_setup_conn ve cce k peerid tun dv)"
proof (cases "ve_maxseg ve dv < 0")
  case False
  let ?tunitf = "tun_interface_get_name tun"
  let ?dv = "dv\<lparr>dv_calls := conn_setup_itf (ve_itf ve) (ve_keyid ve) ?tunitf (conn_mtu (ve_maxseg ve dv)) (dv_calls dv)\<rparr>"
  let ?dp = "\<lparr>dp_addr = v6_global_addr_from_key_id peerid, dp_itfname = ?tunitf\<rparr>"
  show ?thesis
  proof (cases "avl_insert compare_direct_peers ?dp (dv_peers dv)")
    case (Some peers)
    let ?cec = "\<lparr>cec_cce = cce, cec_peerid = peerid, cec_tun = tun, cec_dp = ?dp, cec_dc = cec_new_dc ve peerid ?tunitf\<rparr>"
    let ?dv1 = "?dv\<lparr>dv_peers := peers, dv_conns := (dv_conns ?dv)(k \<mapsto> ?cec)\<rparr>"
    let ?start = "dgp_connect_start (se_ops (ve_session ve)) se_init (ve_dc ve ?dv1)"
    have fresh: "dc_fresh se_reading se_writing se_init (dc_load d (cec_new_dc ve peerid ?tunitf))" for d
      by (simp add: dc_fresh_def dc_load_def cec_new_dc_def zero_session_def se_init_def se_reading_def se_writing_def)
    have conn: "dv_conns ?dv1 k = Some ?cec" by simp
    note cases = se.start_cases [OF fresh, of "ve_dc ve ?dv1" ?dv1 "ve_session ve"]
    show ?thesis
    proof (cases "connects_at_once (ve_dc ve ?dv1) (dc_load ?dv1 (cec_new_dc ve peerid ?tunitf))")
      case True
      with cases have "?start (dc_load ?dv1 (cec_dc ?cec)) = Inl Iv_fatal" by simp
      then have "cec_on_dc k ?start ?dv1 = Inl Iv_fatal" by (simp add: cec_on_dc_def)
      moreover have "\<not> ve_pends ve" using True unfolding ve_pends_def connects_at_once_def by blast
      ultimately show ?thesis using False Some by (simp add: cce_setup_conn_def Let_def)
    next
      case no: False
      with cases have start: "safe (dc_inv se_reading se_writing) (?start (dc_load ?dv1 (cec_dc ?cec)))" by simp
      have in_peers: "?dp \<in> set peers" using avl_insert_set [OF Some] by simp
      have "safe (\<lambda>(k, dv'). k \<noteq> None \<and> cec_has cce k dv')
          (hbind (cec_on_dc k ?start ?dv1) (\<lambda>dv.
            Inr (Some k, dv\<lparr>dv_connections := (dv_connections dv)(cce_name cce := dv_connections dv (cce_name cce) @ [k])\<rparr>)))"
        by (rule safe_bind [OF on_dc_safe [where Q = "dc_inv se_reading se_writing" and f = ?start, OF conn start]])
          (use assms in_peers in \<open>auto simp: cec_has_def cec_ok_def\<close>)
      with False Some show ?thesis by (simp add: cce_setup_conn_def Let_def)
    qed
  qed (use False in \<open>simp add: cce_setup_conn_def Let_def\<close>)
qed (simp add: cce_setup_conn_def)

lemma tun_register_ok: "tun_interface_register env ti calls = (ret, tun, calls') \<Longrightarrow> \<not> ret < 0 \<Longrightarrow> ti_registered tun"
  by (auto simp: tun_interface_register_def Let_def split: if_splits option.splits)

lemma cce_new_conn_cases:
  assumes none: "cec_has cce None dv"
  shows "\<not> ve_pends ve \<and> cce_new_conn ve cce i dv = Inl Iv_fatal \<or>
    safe (\<lambda>(k, dv'). k = None \<or> cec_has cce k dv') (cce_new_conn ve cce i dv)"
proof (cases "dp_find (dv_peers dv) (v6_global_addr_from_key_id (ve_keyid ve)) \<noteq> None \<or> ve_calloc ve dv = None")
  case False
  then obtain k where k: "ve_calloc ve dv = Some k" by auto
  let ?tun = "\<lparr>ti_itfname = Some (cce_tunitf cce), ti_fd = 0, ti_registered = False, ti_name = []\<rparr>"
  obtain ret tun calls where tun: "tun_interface_register (ve_itf ve) ?tun (dv_calls dv) = (ret, tun, calls)"
    by (cases "tun_interface_register (ve_itf ve) ?tun (dv_calls dv)")
  let ?dv = "dv\<lparr>dv_calls := calls\<rparr>"
  show ?thesis
  proof (cases "ret < 0")
    case True
    with False k tun show ?thesis by (simp add: cce_new_conn_def)
  next
    case reg: False
    let ?mylsa = "if cce_peer_type cce \<noteq> CONF_PEER_TYPE_DBONLY
        then dv_mylsa (mylsa_add_peer (ve_signer ve) (ve_now ve ?dv) (ve_malloc ve ?dv) i
               (cce_peer_type cce) (conn_cost (cce_cost cce) (ve_rtt ve ?dv))) ?dv
        else Inr ?dv"
    have run: "cce_new_conn ve cce i dv = hbind ?mylsa (cce_setup_conn ve cce k i tun)"
      using False k tun reg by (simp add: cce_new_conn_def Let_def)
    have mylsa: "safe (\<lambda>d. dv_connections d (cce_name cce) = []) ?mylsa"
      using none by (simp add: mylsa_safe cec_has_def)
    show ?thesis
    proof (cases ?mylsa)
      case (Inl e)
      have "\<exists>f. e = Called f" using mylsa unfolding Inl by (cases e) auto
      then show ?thesis unfolding run Inl by auto
    next
      case (Inr d)
      then have "dv_connections d (cce_name cce) = []" using mylsa by simp
      note cases = cce_setup_conn_cases [OF tun_register_ok [OF tun reg] this, of ve k i]
      have "safe (\<lambda>(k, dv'). k = None \<or> cec_has cce k dv') (cce_setup_conn ve cce k i tun d)"
        if "safe (\<lambda>(k, dv'). k \<noteq> None \<and> cec_has cce k dv') (cce_setup_conn ve cce k i tun d)"
        by (rule safe_mono [OF that]) auto
      with cases show ?thesis unfolding run Inr hbind_simps by blast
    qed
  qed
qed (auto simp: cce_new_conn_def split: option.split)

interpretation cec: tconn_user "cec_ops ve cce" "cec_has cce" "\<lambda>_ _. ve_pends ve" for ve cce
proof
  fix dv dv' :: dvpn and i r :: bytes and k :: nat
  show "safe (\<lambda>_. True) (tu_new_conn (cec_ops ve cce) i dv)" if "cec_has cce None dv" "ve_pends ve"
  proof -
    have "safe (\<lambda>(k, dv'). k = None \<or> cec_has cce k dv') (cce_new_conn ve cce i dv)"
      using cce_new_conn_cases [OF that(1), of ve i] that(2) by blast
    then show ?thesis unfolding cec_ops_def tc_user_ops.select_convs by (rule safe_mono) simp
  qed
  show "cec_has cce (Some k) dv'" if "cec_has cce None dv" "tu_new_conn (cec_ops ve cce) i dv = Inr (Some k, dv')"
  proof -
    have run: "cce_new_conn ve cce i dv = Inr (Some k, dv')" using that(2) by (simp add: cec_ops_def)
    from cce_new_conn_cases [OF that(1), of ve i] show ?thesis unfolding run by simp
  qed
  show "safe (cec_has cce (Some k)) (tu_record_received (cec_ops ve cce) (Some k) r dv)" if "cec_has cce (Some k) dv"
    using that by (auto simp: cec_ops_def cec_record_received_def cec_has_def cec_ok_def Let_def)
  show "safe (cec_has cce None) (tu_disconnect (cec_ops ve cce) (Some k) dv)" if "cec_has cce (Some k) dv"
    using cec_destroy_safe [OF that] by (simp add: cec_ops_def cec_disconnect_def)
  show "tu_disconnect (cec_ops ve cce) None dv \<noteq> Inr dv'"
    by (simp add: cec_ops_def cec_disconnect_def)
qed


interpretation dps: avl_order compare_direct_peers "\<lambda>dp. length (dp_addr dp) = 16"
  by unfold_locales
    (auto simp: compare_direct_peers_def memcmp_eq_0 intro: memcmp_trans, metis memcmp_swap sgn_minus)

lemma dp_compare_refl: "compare_direct_peers dp dp = 0"
  by (simp add: compare_direct_peers_def)

lemma avl_delete_inserted:
  "avl_insert cmp x xs = Some ys \<Longrightarrow> cmp x x = 0 \<Longrightarrow> \<forall>y \<in> set xs. cmp x y \<noteq> 0 \<Longrightarrow> avl_delete cmp x ys = xs"
  by (induction xs arbitrary: ys) (auto split: if_splits)

lemma avl_find_inserted:
  "avl_insert cmp x xs = Some ys \<Longrightarrow> cmp x x = 0 \<Longrightarrow> \<forall>y \<in> set xs. cmp x y \<noteq> 0 \<Longrightarrow> avl_find (cmp x) ys = Some x"
  by (induction xs arbitrary: ys) (auto split: if_splits)

section \<open>The properties\<close>


text \<open>
  A packet of one to 65535 bytes that one node reads from its interface is written to the
  interface of the other byte for byte; a record that does not hold exactly one packet is dropped.
\<close>

theorem packet_roundtrip:
  assumes "dv_conns dv k = Some cec"
  shows "cec_record_received (Some k) r dv =
    Inr (if \<exists>buf. r = packet_frame buf \<and> 0 < length buf \<and> length buf < 65536
         then dv\<lparr>dv_calls := dv_calls dv @ [Tun_write (ti_fd (cec_tun cec)) (drop 3 r)]\<rparr> else dv)"
proof (cases "3 < length r \<and> r ! 0 = 0 \<and> 256 * unat (r ! 1) + unat (r ! 2) + 3 = length r")
  case True
  then obtain b1 b2 buf where r: "r = 0 # b1 # b2 # buf"
    by (cases r; cases "tl r"; cases "tl (tl r)") auto
  have n: "256 * unat b1 + unat b2 = length buf" "buf \<noteq> []" using True r by auto
  have b: "unat b1 < 256" "unat b2 < 256" by (rule order_less_le_trans [OF unsigned_less], simp)+
  have "unat b1 = length buf div 256" "unat b2 = length buf mod 256" unfolding n(1) [symmetric] using b by simp_all
  then have "length buf div 256 = unat b1" "length buf mod 256 = unat b2" by simp_all
  then have "r = packet_frame buf" by (simp add: packet_frame_def r del: div_eq_0_iff)
  moreover have "0 < length buf" using n(2) by simp
  moreover have "length buf < 65536" using n(1) b by linarith
  ultimately have "\<exists>buf. r = packet_frame buf \<and> 0 < length buf \<and> length buf < 65536" by blast
  then show ?thesis
    using True r n assms by (simp add: cec_record_received_def tun_interface_send_packet_def)
next
  case False
  have "r \<noteq> packet_frame buf" if "0 < length buf" "length buf < 65536" for buf
  proof -
    have "length buf div 256 < 256" using that(2) by linarith
    then have "unat (word_of_nat (length buf div 256) :: byte) = length buf div 256"
      "unat (word_of_nat (length buf mod 256) :: byte) = length buf mod 256" by (simp_all add: unat_of_nat)
    with False that show ?thesis by (auto simp: packet_frame_def)
  qed
  then have "\<not> (\<exists>buf. r = packet_frame buf \<and> 0 < length buf \<and> length buf < 65536)" by blast
  with False show ?thesis by (auto simp: cec_record_received_def Let_def)
qed


text \<open>What a new connection has done.\<close>

lemma dv_mylsa_Inr:
  "(if b then dv_mylsa f dv else Inr dv) = Inr dv' \<Longrightarrow>
   dv_peers dv' = dv_peers dv \<and> dv_connections dv' = dv_connections dv \<and> dv_conns dv' = dv_conns dv \<and> dv_calls dv' = dv_calls dv"
  by (auto simp: dv_mylsa_def split: if_splits)

lemma cec_on_dc_Inr:
  "cec_on_dc k f dv = Inr dv' \<Longrightarrow> dv_conns dv k = Some cec \<Longrightarrow> \<exists>dc. dv' = dc_store k cec dc dv"
  by (auto simp: cec_on_dc_def)

lemma cce_new_conn_Some:
  assumes "cce_new_conn ve cce peerid dv = Inr (Some k, dv')"
  obtains calls maxseg peers dp cec where "ve_calloc ve dv = Some k" "dp_addr dp = v6_global_addr_from_key_id peerid"
    "avl_insert compare_direct_peers dp (dv_peers dv) = Some peers" "dv_peers dv' = peers"
    "dv_connections dv' = (dv_connections dv)(cce_name cce := dv_connections dv (cce_name cce) @ [k])"
    "dv_conns dv' k = Some cec" "cec_cce cec = cce" "cec_dp cec = dp"
    "dv_calls dv' = conn_setup_itf (ve_itf ve) (ve_keyid ve) (dp_itfname dp) (conn_mtu maxseg) calls"
proof -
  let ?tun = "\<lparr>ti_itfname = Some (cce_tunitf cce), ti_fd = 0, ti_registered = False, ti_name = []\<rparr>"
  from assms obtain tun calls dv1 where new: "ve_calloc ve dv = Some k"
    "(if cce_peer_type cce \<noteq> CONF_PEER_TYPE_DBONLY
      then dv_mylsa (mylsa_add_peer (ve_signer ve) (ve_now ve (dv\<lparr>dv_calls := calls\<rparr>)) (ve_malloc ve (dv\<lparr>dv_calls := calls\<rparr>)) peerid
        (cce_peer_type cce) (conn_cost (cce_cost cce) (ve_rtt ve (dv\<lparr>dv_calls := calls\<rparr>)))) (dv\<lparr>dv_calls := calls\<rparr>)
      else Inr (dv\<lparr>dv_calls := calls\<rparr>)) = Inr dv1"
    "cce_setup_conn ve cce k peerid tun dv1 = Inr (Some k, dv')"
    by (fastforce simp: cce_new_conn_def cce_setup_conn_def Let_def split: if_split_asm option.split_asm prod.split_asm)
  have keep: "dv_peers dv1 = dv_peers dv" "dv_connections dv1 = dv_connections dv" using dv_mylsa_Inr [OF new(2)] by simp_all
  let ?dp = "\<lparr>dp_addr = v6_global_addr_from_key_id peerid, dp_itfname = ti_name tun\<rparr>"
  let ?calls = "conn_setup_itf (ve_itf ve) (ve_keyid ve) (ti_name tun) (conn_mtu (ve_maxseg ve dv1)) (dv_calls dv1)"
  from new(3) obtain peers dv2 where set: "avl_insert compare_direct_peers ?dp (dv_peers dv1) = Some peers"
    "cec_on_dc k (dgp_connect_start (se_ops (ve_session ve)) se_init (ve_dc ve (dv1\<lparr>dv_calls := ?calls, dv_peers := peers,
        dv_conns := (dv_conns dv1)(k \<mapsto> \<lparr>cec_cce = cce, cec_peerid = peerid, cec_tun = tun, cec_dp = ?dp,
          cec_dc = cec_new_dc ve peerid (ti_name tun)\<rparr>)\<rparr>))) (dv1\<lparr>dv_calls := ?calls, dv_peers := peers,
        dv_conns := (dv_conns dv1)(k \<mapsto> \<lparr>cec_cce = cce, cec_peerid = peerid, cec_tun = tun, cec_dp = ?dp,
          cec_dc = cec_new_dc ve peerid (ti_name tun)\<rparr>)\<rparr>) = Inr dv2"
    "dv' = dv2\<lparr>dv_connections := (dv_connections dv2)(cce_name cce := dv_connections dv2 (cce_name cce) @ [k])\<rparr>"
    by (auto simp: cce_setup_conn_def Let_def tun_interface_get_name_def split: if_split_asm option.split_asm)
  from cec_on_dc_Inr [OF set(2)] obtain dc where dv2: "dv2 = dc_store k \<lparr>cec_cce = cce, cec_peerid = peerid, cec_tun = tun,
      cec_dp = ?dp, cec_dc = cec_new_dc ve peerid (ti_name tun)\<rparr> dc (dv1\<lparr>dv_calls := ?calls, dv_peers := peers,
        dv_conns := (dv_conns dv1)(k \<mapsto> \<lparr>cec_cce = cce, cec_peerid = peerid, cec_tun = tun, cec_dp = ?dp,
          cec_dc = cec_new_dc ve peerid (ti_name tun)\<rparr>)\<rparr>)" by auto
  show ?thesis
    by (rule that [OF new(1), of ?dp peers "\<lparr>cec_cce = cce, cec_peerid = peerid, cec_tun = tun, cec_dp = ?dp, cec_dc = dc\<rparr>" "ve_maxseg ve dv1" "dv_calls dv1"]) (use set(1,3) keep in \<open>simp_all add: dv2\<close>)
qed

definition dps_ok :: "direct_peer list \<Rightarrow> bool" where
  "dps_ok peers \<longleftrightarrow> avl_ordered compare_direct_peers peers \<and> list_all (\<lambda>dp. length (dp_addr dp) = 16) peers"

lemma dp_find_eq: "dp_find peers (dp_addr dp) = avl_find (compare_direct_peers dp) peers"
  by (simp add: dp_find_def compare_direct_peers_def [abs_def])

text \<open>
  C28: a connection that is made is found among the direct peers by the address of its peer, its
  interface has been given a packet size between 1280 and 1500 bytes and the addresses of the node, and when it is
  lost the direct peers and the connections of the entry are what they were before.  For a peer
  that is connected already no connection is made.
\<close>

theorem cce_conn_roundtrip:
  assumes "dps_ok (dv_peers dv)" "length peerid = NODE_ID_LEN"
    and "cce_new_conn ve cce peerid dv = Inr (Some k, dv1)"
  shows "dp_find (dv_peers dv) (v6_global_addr_from_key_id peerid) = None \<and>
    (\<exists>itf mtu calls. peer_itfname (dv_peers dv1) (v6_global_addr_from_key_id peerid) = Some itf \<and> 1280 \<le> mtu \<and> mtu \<le> 1500 \<and>
       dv_calls dv1 = conn_setup_itf (ve_itf ve) (ve_keyid ve) itf mtu calls) \<and>
    (k \<notin> set (dv_connections dv (cce_name cce)) \<longrightarrow> (\<forall>dv2. cec_disconnect ve (Some k) dv1 = Inr dv2 \<longrightarrow>
       dv_peers dv2 = dv_peers dv \<and> dv_connections dv2 = dv_connections dv \<and> dv_conns dv2 k = None))"
proof -
  obtain calls maxseg peers dp cec where new: "ve_calloc ve dv = Some k" "dp_addr dp = v6_global_addr_from_key_id peerid"
    "avl_insert compare_direct_peers dp (dv_peers dv) = Some peers" "dv_peers dv1 = peers"
    "dv_connections dv1 = (dv_connections dv)(cce_name cce := dv_connections dv (cce_name cce) @ [k])"
    "dv_conns dv1 k = Some cec" "cec_cce cec = cce" "cec_dp cec = dp"
    "dv_calls dv1 = conn_setup_itf (ve_itf ve) (ve_keyid ve) (dp_itfname dp) (conn_mtu maxseg) calls"
    by (rule cce_new_conn_Some [OF assms(3)])
  have len: "length (dp_addr dp) = 16" using new(2) assms(2) by (simp add: v6_global_addr_from_key_id_def NODE_ID_LEN_def)
  have none: "avl_find (compare_direct_peers dp) (dv_peers dv) = None"
    using dps.insert_None_find [of "dv_peers dv" dp] new(3) len assms(1) by (simp add: dps_ok_def)
  then have fresh: "\<forall>y \<in> set (dv_peers dv). compare_direct_peers dp y \<noteq> 0" by (simp add: avl_find_None_iff)
  have restored: "avl_delete compare_direct_peers dp peers = dv_peers dv"
    by (rule avl_delete_inserted [OF new(3) dp_compare_refl fresh])
  have "avl_find (compare_direct_peers dp) peers = Some dp"
    by (rule avl_find_inserted [OF new(3) dp_compare_refl fresh])
  then have itf: "peer_itfname (dv_peers dv1) (v6_global_addr_from_key_id peerid) = Some (dp_itfname dp)"
    using new(2,4) dp_find_eq [of peers dp] by (simp add: peer_itfname_def)
  have mtu: "1280 \<le> conn_mtu maxseg" "conn_mtu maxseg \<le> 1500" by (simp_all add: conn_mtu_def Let_def)
  have "dv_peers dv2 = dv_peers dv \<and> dv_connections dv2 = dv_connections dv \<and> dv_conns dv2 k = None"
    if "cec_disconnect ve (Some k) dv1 = Inr dv2" "k \<notin> set (dv_connections dv (cce_name cce))" for dv2
  proof -
    from that new obtain dv3 where dv3: "cec_on_dc k (dgp_connect_stop (se_ops (ve_session ve)))
        (dv1\<lparr>dv_connections := dv_connections dv\<rparr>) = Inr dv3" "cec_release ve k cec dv3 = Inr dv2"
      by (auto simp: cec_disconnect_def cec_destroy_def remove1_append)
    from cec_on_dc_Inr [OF dv3(1)] new(6) obtain dc where dc: "dv3 = dc_store k cec dc (dv1\<lparr>dv_connections := dv_connections dv\<rparr>)" by auto
    have "cec_dp cec \<in> set (dv_peers dv3)" "ti_registered (cec_tun cec)"
      using dv3(2) by (auto simp: cec_release_def tun_interface_unregister_def Let_def split: if_split_asm)
    from safe_Inr [OF cec_release_safe [OF this] dv3(2)] show ?thesis using new(4,8) restored by (simp add: dc)
  qed
  with none itf mtu new(9) new(2) dp_find_eq [of "dv_peers dv" dp] show ?thesis by auto
qed


section \<open>Samples\<close>

definition sample_cce :: conf_connect_entry where
  "sample_cce = \<lparr>cce_name = cstr ''peer'', cce_hostname = cstr ''host'', cce_port = cstr ''1234'',
     cce_fp_type = CONF_FP_TYPE_ANY, cce_fingerprint = replicate 32 0, cce_peer_type = CONF_PEER_TYPE_DBONLY,
     cce_tunitf = cstr ''tun0'', cce_cost = 0\<rparr>"

definition sample_ve :: dvpn_env where
  "sample_ve = \<lparr>ve_keyid = replicate 32 7, ve_signer = sample_signer, ve_session = sample_senv,
     ve_itf = \<lparr>ie_open = \<lambda>_. 8, ie_setiff = \<lambda>_ _. Some (cstr ''tun0''), ie_ip = \<lambda>_ _. True, ie_proc = \<lambda>_. True, ie_ntop = id\<rparr>,
     ve_now = \<lambda>_. 5, ve_malloc = \<lambda>_. Some 2, ve_calloc = \<lambda>_. Some 4, ve_rtt = \<lambda>_. 10, ve_maxseg = \<lambda>_. 1400,
     ve_ifindex = \<lambda>_. 3, ve_dc = \<lambda>_. sample_dc_env\<rparr>"

definition sample_dvpn :: dvpn where
  "sample_dvpn = \<lparr>dv_me = my_sample 3, dv_rc = (\<lambda>_. 0)(3 := 2), dv_rib = sample_rib [] (my_sample 3), dv_peers = [],
     dv_conns = (\<lambda>_. None), dv_connections = (\<lambda>_. []), dv_calls = []\<rparr>"

lemma sample_new_conn:
  "\<exists>dv. cce_new_conn sample_ve sample_cce (replicate 32 9) sample_dvpn = Inr (Some 4, dv)"
  by (simp add: cce_new_conn_def sample_ve_def sample_dvpn_def sample_cce_def dp_find_def tun_interface_register_def
      cce_setup_conn_def cec_on_dc_def dgp_connect_start_def try_connect_def iv_defs sample_dc_env_def dc_load_def
      cec_new_dc_def Let_def)


theorem packet_roundtrip_witness:
  "\<exists>cec. cec_record_received (Some 1) (packet_frame [69, 0]) (sample_dvpn\<lparr>dv_conns := [1 \<mapsto> cec]\<rparr>) =
     Inr (sample_dvpn\<lparr>dv_conns := [1 \<mapsto> cec], dv_calls := [Tun_write 8 [69, 0]]\<rparr>)"
proof -
  let ?cec = "\<lparr>cec_cce = sample_cce, cec_peerid = [], cec_tun = \<lparr>ti_itfname = None, ti_fd = 8, ti_registered = True, ti_name = []\<rparr>,
    cec_dp = \<lparr>dp_addr = [], dp_itfname = []\<rparr>, cec_dc = sample_connect\<rparr>"
  have "\<exists>buf. packet_frame [69, 0] = packet_frame buf \<and> 0 < length buf \<and> length buf < 65536"
    by (rule exI [of _ "[69, 0]"]) simp
  moreover have "drop 3 (packet_frame [69, 0]) = [69, 0]" by (simp add: packet_frame_def)
  ultimately have "cec_record_received (Some 1) (packet_frame [69, 0]) (sample_dvpn\<lparr>dv_conns := [1 \<mapsto> ?cec]\<rparr>) =
     Inr (sample_dvpn\<lparr>dv_conns := [1 \<mapsto> ?cec], dv_calls := [Tun_write 8 [69, 0]]\<rparr>)"
    by (subst packet_roundtrip [of _ 1 ?cec]) (simp_all add: sample_dvpn_def)
  then show ?thesis by blast
qed

theorem cce_conn_roundtrip_witness:
  "\<exists>dv itf. cce_new_conn sample_ve sample_cce (replicate 32 9) sample_dvpn = Inr (Some 4, dv) \<and>
     peer_itfname (dv_peers dv) (v6_global_addr_from_key_id (replicate 32 9)) = Some itf"
proof -
  obtain dv where dv: "cce_new_conn sample_ve sample_cce (replicate 32 9) sample_dvpn = Inr (Some 4, dv)"
    using sample_new_conn by blast
  have "dps_ok (dv_peers sample_dvpn)" by (simp add: sample_dvpn_def dps_ok_def)
  from cce_conn_roundtrip [OF this _ dv] dv show ?thesis by (auto simp: NODE_ID_LEN_def)
qed

end
