(* ===== verification/Dgp_Listen.thy ===== *)
theory Dgp_Listen
  imports Dgp_Connect
begin

text \<open>
  \<^verbatim>\<open>src/dgp_listen.c\<close>: the side that accepts connections.  A listening socket has entries, one
  for each peer that may connect, and connections: at most one for each entry, and any
  number that only receive (read-only), when they are permitted.  Entries and connections
  are objects at addresses, in two maps, because each points to the other.  The properties: the
  pointers stay consistent, no descriptor leaks, a connection is accepted as a peer only from the
  link-local address of that peer, and the newest one of a peer replaces the one before it.
\<close>

section \<open>The code\<close>

record 's conn =
  cn_dle :: "nat option"
  cn_fd :: int
  cn_registered :: bool
  cn_session :: 's

record dgp_listen_entry =
  dle_remoteid :: bytes
  dle_current :: "nat option"

text \<open>
  \<open>dls_conns\<close> holds the connections that are allocated, \<open>dls_dles\<close> the entries; the two lists
  are those of the socket.  \<open>dls_calls\<close> records the system calls.
\<close>

record 's dgp_listen_socket =
  dls_myid :: bytes
  dls_ifindex :: int
  dls_permit_readonly :: bool
  dls_listen_fd :: int
  dls_registered :: bool
  dls_listen_entries :: "nat list"
  dls_readonly_conns :: "nat list"
  dls_dles :: "nat \<Rightarrow> dgp_listen_entry option"
  dls_conns :: "nat \<Rightarrow> 's conn option"
  dls_calls :: "sys_call list"

definition dls_sys :: "sys_call \<Rightarrow> 's dgp_listen_socket \<Rightarrow> 's dgp_listen_socket" where
  "dls_sys call dls = dls\<lparr>dls_calls := dls_calls dls @ [call]\<rparr>"

fun find_entry :: "(nat \<Rightarrow> dgp_listen_entry option) \<Rightarrow> bytes \<Rightarrow> nat list \<Rightarrow> nat option handled" where
  "find_entry dles addr [] = Inr None"
| "find_entry dles addr (d # ds) =
     hbind (deref (dles d)) (\<lambda>dle.
     if memcmp addr (v6_linklocal_addr_from_key_id (dle_remoteid dle)) = 0 then Inr (Some d)
     else find_entry dles addr ds)"

definition find_entry_by_addr :: "'s dgp_listen_socket \<Rightarrow> bytes \<Rightarrow> nat option handled" where
  "find_entry_by_addr dls addr = find_entry (dls_dles dls) addr (dls_listen_entries dls)"

definition set_current :: "nat \<Rightarrow> nat option \<Rightarrow> 's dgp_listen_socket \<Rightarrow> 's dgp_listen_socket handled" where
  "set_current d c dls =
     hbind (deref (dls_dles dls d)) (\<lambda>dle. Inr (dls\<lparr>dls_dles := (dls_dles dls)(d \<mapsto> dle\<lparr>dle_current := c\<rparr>)\<rparr>))"

definition conn_kill :: "'s session_ops \<Rightarrow> nat \<Rightarrow> 's dgp_listen_socket \<Rightarrow> 's dgp_listen_socket handled" where
  "conn_kill ops c dls =
     hbind (deref (dls_conns dls c)) (\<lambda>conn.
     hbind (case cn_dle conn of
              Some d \<Rightarrow> set_current d None dls
            | None \<Rightarrow> if c \<in> set (dls_readonly_conns dls)
                then Inr (dls\<lparr>dls_readonly_conns := remove1 c (dls_readonly_conns dls)\<rparr>) else Inl Dangling) (\<lambda>dls.
     if \<not> cn_registered conn then Inl Iv_fatal
     else let dls = dls_sys (Sys_close (cn_fd conn)) dls
     in hbind (ss_writer_unregister ops (cn_session conn)) (\<lambda>s.
        hbind (ss_reader_unregister ops s) (\<lambda>_.
        Inr (dls\<lparr>dls_conns := (dls_conns dls)(c := None)\<rparr>)))))"

definition dgp_listen_read ::
  "'s session_ops \<Rightarrow> nat \<Rightarrow> read_result \<Rightarrow> 's dgp_listen_socket \<Rightarrow> 's dgp_listen_socket handled" where
  "dgp_listen_read ops c r dls =
     hbind (deref (dls_conns dls c)) (\<lambda>conn.
     hbind (ss_reader_read ops r (cn_session conn)) (\<lambda>(ret, s).
     let dls = dls\<lparr>dls_conns := (dls_conns dls)(c \<mapsto> conn\<lparr>cn_session := s\<rparr>)\<rparr>
     in if ret < 0 then conn_kill ops c dls else Inr dls))"

definition dls_dr_dw_io_error :: "'s session_ops \<Rightarrow> nat \<Rightarrow> 's dgp_listen_socket \<Rightarrow> 's dgp_listen_socket handled" where
  "dls_dr_dw_io_error ops c dls = conn_kill ops c dls"

text \<open>
  What \<^verbatim>\<open>accept\<close> returns (\<open>None\<close> when it fails): a descriptor and the address of the other side,
  with whether its family is \<^verbatim>\<open>AF_INET6\<close>; the address \<^verbatim>\<open>malloc\<close> gives for the connection.
  \<open>init\<close> makes the session with the ids of the two nodes; the id of a peer that may only receive
  is a null pointer.
\<close>

record accepted =
  ac_fd :: int
  ac_inet6 :: bool
  ac_peer :: sockaddr_in6

definition replace_current :: "'s session_ops \<Rightarrow> nat \<Rightarrow> nat \<Rightarrow> 's dgp_listen_socket \<Rightarrow> 's dgp_listen_socket handled" where
  "replace_current ops d c dls =
     hbind (deref (dls_dles dls d)) (\<lambda>e.
     hbind (case dle_current e of Some c' \<Rightarrow> conn_kill ops c' dls | None \<Rightarrow> Inr dls) (\<lambda>dls.
     set_current d (Some c) dls))"

definition start_conn ::
  "'s session_ops \<Rightarrow> (bytes \<Rightarrow> bytes option \<Rightarrow> 's) \<Rightarrow> int \<Rightarrow> nat option \<Rightarrow> nat \<Rightarrow> 's dgp_listen_socket \<Rightarrow>
   's dgp_listen_socket handled" where
  "start_conn ops init fd dle c dls =
     hbind (case dle of Some d \<Rightarrow> hbind (deref (dls_dles dls d)) (\<lambda>e. Inr (Some (dle_remoteid e))) | None \<Rightarrow> Inr None) (\<lambda>remoteid.
     hbind (ss_reader_register ops (init (dls_myid dls) remoteid)) (\<lambda>s.
     hbind (ss_writer_register ops s) (\<lambda>(failed, s).
     let dls = dls\<lparr>dls_conns := (dls_conns dls)(c \<mapsto>
           \<lparr>cn_dle = dle, cn_fd = fd, cn_registered = True, cn_session = s\<rparr>)\<rparr>
     in if failed then dls_dr_dw_io_error ops c dls else Inr dls)))"

definition got_connection ::
  "'s session_ops \<Rightarrow> (bytes \<Rightarrow> bytes option \<Rightarrow> 's) \<Rightarrow> accepted option \<Rightarrow> nat option \<Rightarrow> 's dgp_listen_socket \<Rightarrow>
   's dgp_listen_socket handled" where
  "got_connection ops init acc malloc dls =
     (case acc of
        None \<Rightarrow> Inr dls
      | Some a \<Rightarrow>
          let fd = ac_fd a; dls = dls_sys (Sys_socket fd) dls
          in if \<not> ac_inet6 a then Inr (dls_sys (Sys_close fd) dls)
             else hbind (if sin6_port (ac_peer a) = 173 then find_entry_by_addr dls (sin6_addr (ac_peer a)) else Inr None) (\<lambda>dle.
             if dle = None \<and> \<not> dls_permit_readonly dls then Inr (dls_sys (Sys_close fd) dls)
             else case malloc of
               None \<Rightarrow> Inr (dls_sys (Sys_close fd) dls)
             | Some c \<Rightarrow>
                 hbind (case dle of
                     Some d \<Rightarrow> replace_current ops d c dls
                   | None \<Rightarrow> Inr (dls\<lparr>dls_readonly_conns := dls_readonly_conns dls @ [c]\<rparr>)) (\<lambda>dls.
                 start_conn ops init fd dle c dls)))"

text \<open>The system calls of \<^verbatim>\<open>dgp_listen_socket_register\<close>: each may fail.\<close>

record listen_env =
  le_socket :: int
  le_reuseaddr :: bool
  le_freebind :: bool
  le_bind :: bool
  le_listen :: bool

definition dgp_listen_socket_register ::
  "listen_env \<Rightarrow> 's dgp_listen_socket \<Rightarrow> int \<times> 's dgp_listen_socket" where
  "dgp_listen_socket_register env dls =
     (let fd = le_socket env
      in if fd < 0 then (1, dls)
         else let dls = dls_sys (Sys_socket fd) dls
         in if \<not> le_reuseaddr env then (1, dls_sys (Sys_close fd) dls)
         else if \<not> le_freebind env then (1, dls_sys (Sys_close fd) dls)
         else let dls = dls_sys (Sys_bind fd (dc_address (dls_ifindex dls) (dls_myid dls))) dls
         in if \<not> le_bind env then (1, dls_sys (Sys_close fd) dls)
         else if \<not> le_listen env then (1, dls_sys (Sys_close fd) dls)
         else (0, dls\<lparr>dls_listen_fd := fd, dls_registered := True, dls_listen_entries := [], dls_readonly_conns := []\<rparr>))"

definition dgp_listen_entry_register :: "nat \<Rightarrow> 's dgp_listen_socket \<Rightarrow> 's dgp_listen_socket handled" where
  "dgp_listen_entry_register d dls =
     (let dls = dls\<lparr>dls_listen_entries := dls_listen_entries dls @ [d]\<rparr> in set_current d None dls)"

definition dgp_listen_entry_unregister :: "'s session_ops \<Rightarrow> nat \<Rightarrow> 's dgp_listen_socket \<Rightarrow> 's dgp_listen_socket handled" where
  "dgp_listen_entry_unregister ops d dls =
     hbind (deref (dls_dles dls d)) (\<lambda>dle.
     hbind (case dle_current dle of Some c \<Rightarrow> conn_kill ops c dls | None \<Rightarrow> Inr dls) (\<lambda>dls.
     Inr (dls\<lparr>dls_listen_entries := remove1 d (dls_listen_entries dls)\<rparr>)))"

definition dgp_listen_entry_reset :: "'s session_ops \<Rightarrow> nat \<Rightarrow> 's dgp_listen_socket \<Rightarrow> 's dgp_listen_socket handled" where
  "dgp_listen_entry_reset ops d dls =
     hbind (deref (dls_dles dls d)) (\<lambda>dle.
     case dle_current dle of
       Some c \<Rightarrow> hbind (conn_kill ops c dls) (\<lambda>dls. set_current d None dls)
     | None \<Rightarrow> Inr dls)"

fun hfold :: "('a \<Rightarrow> 's \<Rightarrow> 's handled) \<Rightarrow> 'a list \<Rightarrow> 's \<Rightarrow> 's handled" where
  "hfold f [] s = Inr s"
| "hfold f (x # xs) s = hbind (f x s) (hfold f xs)"

definition dgp_listen_socket_unregister :: "'s session_ops \<Rightarrow> 's dgp_listen_socket \<Rightarrow> 's dgp_listen_socket handled" where
  "dgp_listen_socket_unregister ops dls =
     (if \<not> dls_registered dls then Inl Iv_fatal
      else let dls = dls_sys (Sys_close (dls_listen_fd dls)) (dls\<lparr>dls_registered := False\<rparr>)
      in hbind (hfold (dgp_listen_entry_unregister ops) (dls_listen_entries dls) dls) (\<lambda>dls.
         hfold (conn_kill ops) (dls_readonly_conns dls) dls))"


section \<open>The invariant\<close>

text \<open>
  Each connection belongs to the entry that points to it, or is in the list of read-only
  ones; its session is registered.
\<close>

definition conn_linked :: "'s dgp_listen_socket \<Rightarrow> nat \<Rightarrow> 's conn \<Rightarrow> bool" where
  "conn_linked dls c k \<longleftrightarrow>
     (case cn_dle k of
        Some d \<Rightarrow> d \<in> set (dls_listen_entries dls) \<and> (\<exists>e. dls_dles dls d = Some e \<and> dle_current e = Some c)
      | None \<Rightarrow> c \<in> set (dls_readonly_conns dls))"

definition dls_links :: "('s \<Rightarrow> bool) \<Rightarrow> ('s \<Rightarrow> bool) \<Rightarrow> 's dgp_listen_socket \<Rightarrow> bool" where
  "dls_links reading writing dls \<longleftrightarrow>
     distinct (dls_listen_entries dls) \<and> distinct (dls_readonly_conns dls) \<and>
     (\<forall>d \<in> set (dls_listen_entries dls). dls_dles dls d \<noteq> None) \<and>
     (\<forall>c k. dls_conns dls c = Some k \<longrightarrow> conn_linked dls c k \<and> cn_registered k \<and>
        reading (cn_session k) \<and> writing (cn_session k)) \<and>
     (\<forall>c \<in> set (dls_readonly_conns dls). \<exists>k. dls_conns dls c = Some k \<and> cn_dle k = None) \<and>
     (\<forall>d \<in> set (dls_listen_entries dls). \<forall>e c. dls_dles dls d = Some e \<longrightarrow> dle_current e = Some c \<longrightarrow>
        (\<exists>k. dls_conns dls c = Some k \<and> cn_dle k = Some d))"

text \<open>The open descriptors are those of the connections, the listening one, and \<open>X\<close>, each once.\<close>

definition conn_fds :: "'s dgp_listen_socket \<Rightarrow> int set" where
  "conn_fds dls = {fd. \<exists>c k. dls_conns dls c = Some k \<and> cn_fd k = fd}"

definition listen_fds :: "'s dgp_listen_socket \<Rightarrow> int set" where
  "listen_fds dls = (if dls_registered dls then {dls_listen_fd dls} else {})"

definition dls_fds :: "int set \<Rightarrow> 's dgp_listen_socket \<Rightarrow> bool" where
  "dls_fds X dls \<longleftrightarrow>
     (\<forall>c c' k k'. dls_conns dls c = Some k \<longrightarrow> dls_conns dls c' = Some k' \<longrightarrow> cn_fd k = cn_fd k' \<longrightarrow> c = c') \<and>
     listen_fds dls \<inter> conn_fds dls = {} \<and> X \<inter> (listen_fds dls \<union> conn_fds dls) = {} \<and>
     open_fds (dls_calls dls) = listen_fds dls \<union> conn_fds dls \<union> X"

definition dls_inv :: "('s \<Rightarrow> bool) \<Rightarrow> ('s \<Rightarrow> bool) \<Rightarrow> int set \<Rightarrow> 's dgp_listen_socket \<Rightarrow> bool" where
  "dls_inv reading writing X dls \<longleftrightarrow> dls_links reading writing dls \<and> dls_fds X dls"

lemma dls_fdsD:
  assumes "dls_fds X dls"
  shows "listen_fds dls \<inter> conn_fds dls = {}" "X \<inter> (listen_fds dls \<union> conn_fds dls) = {}"
    "open_fds (dls_calls dls) = listen_fds dls \<union> conn_fds dls \<union> X"
proof -
  from assms have "listen_fds dls \<inter> conn_fds dls = {} \<and> X \<inter> (listen_fds dls \<union> conn_fds dls) = {} \<and>
      open_fds (dls_calls dls) = listen_fds dls \<union> conn_fds dls \<union> X"
    unfolding dls_fds_def by (rule conjunct2)
  then show "listen_fds dls \<inter> conn_fds dls = {}" "X \<inter> (listen_fds dls \<union> conn_fds dls) = {}"
    "open_fds (dls_calls dls) = listen_fds dls \<union> conn_fds dls \<union> X" by simp_all
qed

text \<open>What is left when a connection is killed.\<close>

definition killed :: "nat \<Rightarrow> 's conn \<Rightarrow> 's dgp_listen_socket \<Rightarrow> 's dgp_listen_socket" where
  "killed c k dls =
     (case cn_dle k of
        Some d \<Rightarrow> dls\<lparr>dls_dles := (dls_dles dls)(d := map_option (\<lambda>e. e\<lparr>dle_current := None\<rparr>) (dls_dles dls d)),
          dls_calls := dls_calls dls @ [Sys_close (cn_fd k)], dls_conns := (dls_conns dls)(c := None)\<rparr>
      | None \<Rightarrow> dls\<lparr>dls_readonly_conns := remove1 c (dls_readonly_conns dls),
          dls_calls := dls_calls dls @ [Sys_close (cn_fd k)], dls_conns := (dls_conns dls)(c := None)\<rparr>)"

lemma killed_simps [simp]:
  "dls_conns (killed c k dls) = (dls_conns dls)(c := None)"
  "dls_listen_entries (killed c k dls) = dls_listen_entries dls"
  "dls_registered (killed c k dls) = dls_registered dls" "dls_listen_fd (killed c k dls) = dls_listen_fd dls"
  "dls_myid (killed c k dls) = dls_myid dls" "dls_permit_readonly (killed c k dls) = dls_permit_readonly dls"
  "dls_calls (killed c k dls) = dls_calls dls @ [Sys_close (cn_fd k)]"
  "dls_readonly_conns (killed c k dls) =
     (if cn_dle k = None then remove1 c (dls_readonly_conns dls) else dls_readonly_conns dls)"
  "dls_dles (killed c k dls) = (case cn_dle k of None \<Rightarrow> dls_dles dls
     | Some d \<Rightarrow> (dls_dles dls)(d := map_option (\<lambda>e. e\<lparr>dle_current := None\<rparr>) (dls_dles dls d)))"
  by (auto simp: killed_def split: option.split)

lemma killed_links:
  assumes "dls_links reading writing dls" "dls_conns dls c = Some k"
  shows "dls_links reading writing (killed c k dls)"
proof -
  note L = assms(1) [unfolded dls_links_def]
  have k: "conn_linked dls c k" using L assms(2) by blast
  have other: "conn_linked (killed c k dls) c' k'" if c': "dls_conns dls c' = Some k'" "c' \<noteq> c" for c' k'
  proof (cases "cn_dle k'")
    case (Some d)
    have "conn_linked dls c' k'" using L c'(1) by blast
    then obtain e where e: "d \<in> set (dls_listen_entries dls)" "dls_dles dls d = Some e" "dle_current e = Some c'"
      using Some by (auto simp: conn_linked_def)
    have "cn_dle k \<noteq> Some d" using k e c'(2) by (auto simp: conn_linked_def)
    then show ?thesis using Some e by (auto simp: conn_linked_def split: option.split)
  next
    case None
    have "conn_linked dls c' k'" using L c'(1) by blast
    with None c'(2) show ?thesis by (simp add: conn_linked_def)
  qed
  have dist: "c \<notin> set (remove1 c (dls_readonly_conns dls))" using L by simp
  show ?thesis
  proof (cases "cn_dle k")
    case None
    have "dls_conns dls x \<noteq> None \<and> x \<noteq> c" if "dls_dles dls d = Some e" "dle_current e = Some x"
      "d \<in> set (dls_listen_entries dls)" for d e x
      using L that assms(2) None by fastforce
    with L None other dist show ?thesis unfolding dls_links_def killed_simps
      by (auto simp: distinct_remove1) 
  next
    case (Some d)
    have "c \<notin> set (dls_readonly_conns dls)" using L assms(2) Some by fastforce
    moreover have "x \<noteq> c" if "dls_dles dls d' = Some e" "dle_current e = Some x"
      "d' \<in> set (dls_listen_entries dls)" "d' \<noteq> d" for d' e x
      using L that assms(2) Some by fastforce
    ultimately show ?thesis using L Some other unfolding dls_links_def killed_simps
      by auto
  qed
qed

lemma killed_fds:
  assumes "dls_fds X dls" "dls_conns dls c = Some k"
  shows "dls_fds X (killed c k dls)"
proof -
  have inj: "\<And>c' k'. dls_conns dls c' = Some k' \<Longrightarrow> cn_fd k' = cn_fd k \<Longrightarrow> c' = c"
    using assms unfolding dls_fds_def by blast
  have "conn_fds (killed c k dls) = conn_fds dls - {cn_fd k}"
  proof (rule set_eqI, rule iffI)
    fix fd assume "fd \<in> conn_fds (killed c k dls)"
    then obtain c' k' where "dls_conns dls c' = Some k'" "cn_fd k' = fd" "c' \<noteq> c"
      by (auto simp: conn_fds_def split: if_splits)
    then show "fd \<in> conn_fds dls - {cn_fd k}" using inj by (auto simp: conn_fds_def)
  next
    fix fd assume "fd \<in> conn_fds dls - {cn_fd k}"
    then obtain c' k' where "dls_conns dls c' = Some k'" "cn_fd k' = fd" "fd \<noteq> cn_fd k"
      by (auto simp: conn_fds_def)
    moreover from this have "c' \<noteq> c" using assms(2) by auto
    ultimately show "fd \<in> conn_fds (killed c k dls)" by (auto simp: conn_fds_def)
  qed
  note conn = this
  have fd: "cn_fd k \<in> conn_fds dls" using assms(2) by (auto simp: conn_fds_def)
  have uniq: "\<forall>c1 c2 k1 k2. dls_conns (killed c k dls) c1 = Some k1 \<longrightarrow> dls_conns (killed c k dls) c2 = Some k2 \<longrightarrow>
      cn_fd k1 = cn_fd k2 \<longrightarrow> c1 = c2"
    using assms(1) unfolding dls_fds_def killed_simps by (metis fun_upd_apply option.distinct(1))
  have sets: "L \<inter> (C - {fd}) = {} \<and> Y \<inter> (L \<union> (C - {fd})) = {} \<and> (L \<union> C \<union> Y) - {fd} = L \<union> (C - {fd}) \<union> Y"
    if "L \<inter> C = {}" "Y \<inter> (L \<union> C) = {}" "fd \<in> C" for L C Y :: "int set" and fd
    using that by blast
  have listen: "listen_fds (killed c k dls) = listen_fds dls" by (simp add: listen_fds_def)
  have "listen_fds dls \<inter> conn_fds dls = {}" "X \<inter> (listen_fds dls \<union> conn_fds dls) = {}"
    "open_fds (dls_calls dls) = listen_fds dls \<union> conn_fds dls \<union> X"
    by (rule dls_fdsD [OF assms(1)])+
  with sets [OF this(1,2) fd] have "listen_fds dls \<inter> (conn_fds dls - {cn_fd k}) = {} \<and>
      X \<inter> (listen_fds dls \<union> (conn_fds dls - {cn_fd k})) = {} \<and>
      open_fds (dls_calls dls @ [Sys_close (cn_fd k)]) = listen_fds dls \<union> (conn_fds dls - {cn_fd k}) \<union> X" by simp
  with uniq show ?thesis unfolding dls_fds_def conn listen killed_simps(7) by blast
qed

context dgp_session
begin

lemma conn_kill_eq:
  assumes "dls_links reading writing dls" "dls_conns dls c = Some k"
  shows "conn_kill ops c dls = Inr (killed c k dls) \<or> (\<exists>f. conn_kill ops c dls = Inl (Called f))"
proof -
  note L = assms(1) [unfolded dls_links_def]
  have k: "conn_linked dls c k" "cn_registered k" "reading (cn_session k)" "writing (cn_session k)"
    using L assms(2) by blast+
  let ?rest = "hbind (ss_writer_unregister ops (cn_session k)) (\<lambda>s. hbind (ss_reader_unregister ops s) (\<lambda>_. Inr (killed c k dls)))"
  have "conn_kill ops c dls = ?rest"
    using k(1,2) assms(2)
    by (cases "cn_dle k") (auto simp: conn_kill_def conn_linked_def killed_def set_current_def dls_sys_def Let_def)
  moreover have "safe (\<lambda>x. x = killed c k dls) ?rest"
    by (rule safe_bind [OF writer_unregister [OF k(4)]]) (rule safe_bind [OF reader_unregister], use k(3) in auto)
  ultimately show ?thesis using safe_cases by metis
qed

lemma conn_kill_inv:
  assumes "dls_inv reading writing X dls" "dls_conns dls c = Some k"
  shows "safe (\<lambda>dls'. dls_inv reading writing X dls' \<and> dls' = killed c k dls) (conn_kill ops c dls)"
proof -
  have "dls_inv reading writing X (killed c k dls)"
    using assms killed_links killed_fds by (auto simp: dls_inv_def)
  with conn_kill_eq [of dls c k] assms show ?thesis by (auto simp: dls_inv_def)
qed


end

section \<open>The machine\<close>

text \<open>
  What happens to a socket that is open: a connection arrives, one of the connections is readable
  or its reader or writer reports an error, or the user adds, removes or resets an entry.  The
  kernel gives descriptors that are not open, \<^verbatim>\<open>malloc\<close> addresses that are not in use, and an
  entry is registered once.
\<close>

datatype dls_event =
    Accept "accepted option" "nat option"
  | Conn_readable nat read_result
  | Conn_error nat
  | Entry_register nat dgp_listen_entry
  | Entry_unregister nat
  | Entry_reset nat

fun dls_enabled :: "dls_event \<Rightarrow> 's dgp_listen_socket \<Rightarrow> bool" where
  "dls_enabled (Accept acc malloc) dls \<longleftrightarrow>
     (\<forall>a. acc = Some a \<longrightarrow> ac_fd a \<notin> open_fds (dls_calls dls)) \<and> (\<forall>c. malloc = Some c \<longrightarrow> dls_conns dls c = None)"
| "dls_enabled (Conn_readable c r) dls \<longleftrightarrow> dls_conns dls c \<noteq> None"
| "dls_enabled (Conn_error c) dls \<longleftrightarrow> dls_conns dls c \<noteq> None"
| "dls_enabled (Entry_register d e) dls \<longleftrightarrow> d \<notin> set (dls_listen_entries dls)"
| "dls_enabled (Entry_unregister d) dls \<longleftrightarrow> d \<in> set (dls_listen_entries dls)"
| "dls_enabled (Entry_reset d) dls \<longleftrightarrow> d \<in> set (dls_listen_entries dls)"

fun dls_run ::
  "'s session_ops \<Rightarrow> (bytes \<Rightarrow> bytes option \<Rightarrow> 's) \<Rightarrow> dls_event \<Rightarrow> 's dgp_listen_socket \<Rightarrow> 's dgp_listen_socket handled" where
  "dls_run ops init (Accept acc malloc) dls = got_connection ops init acc malloc dls"
| "dls_run ops init (Conn_readable c r) dls = dgp_listen_read ops c r dls"
| "dls_run ops init (Conn_error c) dls = dls_dr_dw_io_error ops c dls"
| "dls_run ops init (Entry_register d e) dls = dgp_listen_entry_register d (dls\<lparr>dls_dles := (dls_dles dls)(d \<mapsto> e)\<rparr>)"
| "dls_run ops init (Entry_unregister d) dls = dgp_listen_entry_unregister ops d dls"
| "dls_run ops init (Entry_reset d) dls = dgp_listen_entry_reset ops d dls"

definition dls_fresh :: "'s dgp_listen_socket \<Rightarrow> bool" where
  "dls_fresh dls \<longleftrightarrow> open_fds (dls_calls dls) = {} \<and> (\<forall>c. dls_conns dls c = None)"

inductive dls_reach ::
  "'s session_ops \<Rightarrow> ('s \<Rightarrow> bool) \<Rightarrow> ('s \<Rightarrow> bool) \<Rightarrow> (bytes \<Rightarrow> bytes option \<Rightarrow> 's) \<Rightarrow> 's dgp_listen_socket \<Rightarrow>
   's dgp_listen_socket \<Rightarrow> bool"
  for ops reading writing init dls0 where
  start: "dgp_listen_socket_register env dls0 = (0, dls) \<Longrightarrow> dls_reach ops reading writing init dls0 dls"
| event: "dls_reach ops reading writing init dls0 dls \<Longrightarrow> dls_enabled ev dls \<Longrightarrow> dls_run ops init ev dls = Inr dls' \<Longrightarrow>
    dls_reach ops reading writing init dls0 dls'"
| session: "dls_reach ops reading writing init dls0 dls \<Longrightarrow> dls_conns dls c = Some k \<Longrightarrow> reading s \<Longrightarrow> writing s \<Longrightarrow>
    dls_reach ops reading writing init dls0 (dls\<lparr>dls_conns := (dls_conns dls)(c \<mapsto> k\<lparr>cn_session := s\<rparr>)\<rparr>)"

text \<open>No event closes the listening socket.\<close>

lemma set_current_registered: "set_current d c dls = Inr dls' \<Longrightarrow> dls_registered dls' = dls_registered dls"
  by (auto simp: set_current_def)

lemma conn_kill_registered: "conn_kill ops c dls = Inr dls' \<Longrightarrow> dls_registered dls' = dls_registered dls"
  by (auto simp: conn_kill_def Let_def dls_sys_def dest!: set_current_registered split: option.split_asm if_split_asm)

lemma start_conn_registered: "start_conn ops init fd dle c dls = Inr dls' \<Longrightarrow> dls_registered dls' = dls_registered dls"
  by (auto simp: start_conn_def dls_dr_dw_io_error_def Let_def dest!: conn_kill_registered split: if_splits)

lemma replace_current_registered: "replace_current ops d c dls = Inr dls' \<Longrightarrow> dls_registered dls' = dls_registered dls"
  by (auto simp: replace_current_def dest!: conn_kill_registered set_current_registered split: option.splits)

lemma got_connection_registered:
  assumes "got_connection ops init acc malloc dls = Inr dls'"
  shows "dls_registered dls' = dls_registered dls"
proof (cases acc)
  case (Some a)
  let ?closed = "dls_sys (Sys_close (ac_fd a)) (dls_sys (Sys_socket (ac_fd a)) dls)"
  have closed: "dls_registered ?closed = dls_registered dls" by (simp add: dls_sys_def)
  show ?thesis
  proof (cases "dls' = ?closed")
    case False
    let ?dls = "dls_sys (Sys_socket (ac_fd a)) dls"
    let ?find = "if sin6_port (ac_peer a) = 173 then find_entry_by_addr ?dls (sin6_addr (ac_peer a)) else Inr None"
    obtain dle where dle: "?find = Inr dle"
      using assms Some False by (cases ?find) (auto simp: got_connection_def Let_def split: if_split_asm)
    obtain c where c: "malloc = Some c"
      using assms Some False dle by (cases malloc) (auto simp: got_connection_def Let_def split: if_split_asm)
    from assms Some False dle c have
      "hbind (case dle of Some d \<Rightarrow> replace_current ops d c ?dls
         | None \<Rightarrow> Inr (?dls\<lparr>dls_readonly_conns := dls_readonly_conns ?dls @ [c]\<rparr>))
       (start_conn ops init (ac_fd a) dle c) = Inr dls'"
      unfolding got_connection_def Some Let_def option.case dle c by (simp split: if_split_asm)
    then show ?thesis
      by (auto simp: dls_sys_def dest!: start_conn_registered replace_current_registered split: option.split_asm)
  qed (use closed in simp)
qed (use assms in \<open>simp add: got_connection_def\<close>)

lemma run_registered: "dls_run ops init ev dls = Inr dls' \<Longrightarrow> dls_registered dls' = dls_registered dls"
  by (cases ev)
    (auto simp: dgp_listen_read_def dls_dr_dw_io_error_def dgp_listen_entry_register_def dgp_listen_entry_unregister_def
      dgp_listen_entry_reset_def Let_def dest!: got_connection_registered conn_kill_registered set_current_registered
      split: option.splits if_splits)

section \<open>Changes of the connections\<close>

lemma set_session_inv:
  assumes "dls_inv reading writing X dls" "dls_conns dls c = Some k" "reading s" "writing s"
  shows "dls_inv reading writing X (dls\<lparr>dls_conns := (dls_conns dls)(c \<mapsto> k\<lparr>cn_session := s\<rparr>)\<rparr>)"
proof -
  let ?d = "dls\<lparr>dls_conns := (dls_conns dls)(c \<mapsto> k\<lparr>cn_session := s\<rparr>)\<rparr>"
  have linked: "conn_linked ?d c' k' = conn_linked dls c' k'" for c' k'
    by (simp add: conn_linked_def split: option.split)
  have old: "\<exists>k''. dls_conns dls c' = Some k'' \<and> cn_fd k'' = cn_fd k' \<and> cn_dle k'' = cn_dle k' \<and> cn_registered k'' = cn_registered k'"
    if "dls_conns ?d c' = Some k'" for c' k'
    using that assms(2) by (auto split: if_splits)
  have new: "\<exists>k''. dls_conns ?d c' = Some k'' \<and> cn_fd k'' = cn_fd k' \<and> cn_dle k'' = cn_dle k'"
    if "dls_conns dls c' = Some k'" for c' k'
    using that assms(2) by auto
  have "conn_fds ?d = conn_fds dls"
    unfolding conn_fds_def using old new by (metis (no_types, lifting))
  moreover have "listen_fds ?d = listen_fds dls" by (simp add: listen_fds_def)
  moreover have "\<forall>c1 c2 k1 k2. dls_conns ?d c1 = Some k1 \<longrightarrow> dls_conns ?d c2 = Some k2 \<longrightarrow> cn_fd k1 = cn_fd k2 \<longrightarrow> c1 = c2"
    using assms(1) old unfolding dls_inv_def dls_fds_def by metis
  moreover have "open_fds (dls_calls ?d) = open_fds (dls_calls dls)" by simp
  ultimately have "dls_fds X ?d"
    using assms(1) unfolding dls_inv_def dls_fds_def by metis
  moreover have "dls_links reading writing ?d"
  proof -
    note L = assms(1) [unfolded dls_inv_def dls_links_def, THEN conjunct1]
    have "conn_linked ?d c' k' \<and> cn_registered k' \<and> reading (cn_session k') \<and> writing (cn_session k')"
      if "dls_conns ?d c' = Some k'" for c' k'
    proof (cases "c' = c")
      case True
      have "conn_linked dls c k" "cn_registered k" using L assms(2) by blast+
      with True that assms(3,4) show ?thesis by (auto simp: conn_linked_def split: option.splits)
    next
      case False
      with that L linked show ?thesis by auto
    qed
    moreover have "\<forall>x \<in> set (dls_readonly_conns dls). \<exists>k'. dls_conns ?d x = Some k' \<and> cn_dle k' = None"
      using L new by metis
    moreover have "\<forall>d \<in> set (dls_listen_entries dls). \<forall>e x. dls_dles dls d = Some e \<longrightarrow> dle_current e = Some x \<longrightarrow>
        (\<exists>k'. dls_conns ?d x = Some k' \<and> cn_dle k' = Some d)"
      using L new by metis
    ultimately show ?thesis using L unfolding dls_links_def by simp
  qed
  ultimately show ?thesis by (simp add: dls_inv_def)
qed


text \<open>A new connection takes over an open descriptor.\<close>

lemma add_conn_fds:
  assumes "dls_fds (insert fd X) dls" "fd \<notin> X" "dls_conns dls c = None" "cn_fd k = fd"
    and "dls_conns dls' = (dls_conns dls)(c \<mapsto> k)" "dls_calls dls' = dls_calls dls" "listen_fds dls' = listen_fds dls"
  shows "dls_fds X dls'"
proof -
  have "conn_fds dls' = insert fd (conn_fds dls)"
  proof (rule set_eqI, rule iffI)
    fix x assume "x \<in> conn_fds dls'"
    then show "x \<in> insert fd (conn_fds dls)" using assms(4) by (auto simp: conn_fds_def assms(5) split: if_splits)
  next
    fix x assume "x \<in> insert fd (conn_fds dls)"
    then obtain c' k' where "((dls_conns dls)(c \<mapsto> k)) c' = Some k' \<and> cn_fd k' = x"
      using assms(3,4) by (auto simp: conn_fds_def) (metis fun_upd_apply option.distinct(1))+
    then show "x \<in> conn_fds dls'" by (auto simp: conn_fds_def assms(5) simp del: fun_upd_apply)
  qed
  moreover have "fd \<notin> conn_fds dls" using assms(1) by (auto simp: dls_fds_def)
  then have fresh: "cn_fd k' \<noteq> fd" if "dls_conns dls c' = Some k'" for c' k' using that by (auto simp: conn_fds_def)
  have "c1 = c2" if q: "dls_conns dls' c1 = Some k1" "dls_conns dls' c2 = Some k2" "cn_fd k1 = cn_fd k2" for c1 c2 k1 k2
  proof (cases "c1 = c \<or> c2 = c")
    case True
    with q assms(4) fresh show ?thesis by (auto simp: assms(5) split: if_splits)
  next
    case False
    with q(1,2) have "dls_conns dls c1 = Some k1" "dls_conns dls c2 = Some k2" by (auto simp: assms(5))
    with q(3) assms(1) show ?thesis unfolding dls_fds_def by blast
  qed
  moreover have "listen_fds dls \<inter> conn_fds dls = {}" "insert fd X \<inter> (listen_fds dls \<union> conn_fds dls) = {}"
    "open_fds (dls_calls dls) = listen_fds dls \<union> conn_fds dls \<union> insert fd X"
    using dls_fdsD [OF assms(1)] by blast+
  then have "listen_fds dls \<inter> insert fd (conn_fds dls) = {}" "X \<inter> (listen_fds dls \<union> insert fd (conn_fds dls)) = {}"
    "open_fds (dls_calls dls) = listen_fds dls \<union> insert fd (conn_fds dls) \<union> X"
    using assms(2) by auto
  ultimately show ?thesis unfolding dls_fds_def assms(6,7) by (metis (no_types, lifting))
qed

lemma add_peer_links:
  assumes "dls_links reading writing dls" "d \<in> set (dls_listen_entries dls)" "dls_dles dls d = Some e"
    "dle_current e = None" "dls_conns dls c = None" "cn_dle k = Some d" "cn_registered k"
    "reading (cn_session k)" "writing (cn_session k)"
  shows "dls_links reading writing (dls\<lparr>dls_dles := (dls_dles dls)(d \<mapsto> e\<lparr>dle_current := Some c\<rparr>),
    dls_conns := (dls_conns dls)(c \<mapsto> k)\<rparr>)"
proof -
  let ?d = "dls\<lparr>dls_dles := (dls_dles dls)(d \<mapsto> e\<lparr>dle_current := Some c\<rparr>), dls_conns := (dls_conns dls)(c \<mapsto> k)\<rparr>"
  note L = assms(1) [unfolded dls_links_def]
  have "conn_linked ?d c' k' \<and> cn_registered k' \<and> reading (cn_session k') \<and> writing (cn_session k')"
    if "dls_conns ?d c' = Some k'" for c' k'
  proof (cases "c' = c")
    case True
    with that assms show ?thesis by (auto simp: conn_linked_def)
  next
    case False
    then have k': "conn_linked dls c' k'" "cn_registered k'" "reading (cn_session k')" "writing (cn_session k')"
      using that L by auto
    have "cn_dle k' \<noteq> Some d" using k'(1) assms(3,4) by (auto simp: conn_linked_def)
    with k' show ?thesis by (auto simp: conn_linked_def split: option.splits)
  qed
  moreover have "c \<notin> set (dls_readonly_conns dls)" using L assms(5) by fastforce
  then have "\<forall>x \<in> set (dls_readonly_conns dls). \<exists>k'. dls_conns ?d x = Some k' \<and> cn_dle k' = None" using L by auto
  moreover have "\<exists>k'. dls_conns ?d x = Some k' \<and> cn_dle k' = Some d'"
    if "d' \<in> set (dls_listen_entries dls)" "dls_dles ?d d' = Some e'" "dle_current e' = Some x" for d' e' x
  proof (cases "d' = d")
    case True
    with that assms(6) show ?thesis by auto
  next
    case False
    with that(2) have "dls_dles dls d' = Some e'" by simp
    with that(1,3) L obtain k' where "dls_conns dls x = Some k'" "cn_dle k' = Some d'" by blast
    moreover from this have "x \<noteq> c" using assms(5) by auto
    ultimately show ?thesis by simp
  qed
  ultimately show ?thesis using L unfolding dls_links_def by simp
qed

lemma add_readonly_links:
  assumes "dls_links reading writing dls" "dls_conns dls c = None" "cn_dle k = None" "cn_registered k"
    "reading (cn_session k)" "writing (cn_session k)"
  shows "dls_links reading writing (dls\<lparr>dls_readonly_conns := dls_readonly_conns dls @ [c],
    dls_conns := (dls_conns dls)(c \<mapsto> k)\<rparr>)"
proof -
  let ?d = "dls\<lparr>dls_readonly_conns := dls_readonly_conns dls @ [c], dls_conns := (dls_conns dls)(c \<mapsto> k)\<rparr>"
  note L = assms(1) [unfolded dls_links_def]
  have "conn_linked ?d c' k' \<and> cn_registered k' \<and> reading (cn_session k') \<and> writing (cn_session k')"
    if "dls_conns ?d c' = Some k'" for c' k'
  proof (cases "c' = c")
    case True
    with that assms show ?thesis by (auto simp: conn_linked_def)
  next
    case False
    then have "conn_linked dls c' k'" "cn_registered k'" "reading (cn_session k')" "writing (cn_session k')"
      using that L by auto
    then show ?thesis by (auto simp: conn_linked_def split: option.splits)
  qed
  moreover have "c \<notin> set (dls_readonly_conns dls)" using L assms(2) by fastforce
  then have "\<forall>x \<in> set (dls_readonly_conns ?d). \<exists>k'. dls_conns ?d x = Some k' \<and> cn_dle k' = None"
    "distinct (dls_readonly_conns ?d)" using L assms(3) by auto
  moreover have "\<exists>k'. dls_conns ?d x = Some k' \<and> cn_dle k' = Some d'"
    if "d' \<in> set (dls_listen_entries dls)" "dls_dles dls d' = Some e'" "dle_current e' = Some x" for d' e' x
  proof -
    from that L obtain k' where "dls_conns dls x = Some k'" "cn_dle k' = Some d'" by blast
    moreover from this have "x \<noteq> c" using assms(2) by auto
    ultimately show ?thesis by simp
  qed
  ultimately show ?thesis using L unfolding dls_links_def by simp
qed

text \<open>The search for the entry of a peer.\<close>

lemma find_entry_result:
  assumes "\<forall>d \<in> set ds. dles d \<noteq> None"
  shows "\<exists>r. find_entry dles addr ds = Inr r \<and>
    (case r of
       Some d \<Rightarrow> d \<in> set ds \<and> memcmp addr (v6_linklocal_addr_from_key_id (dle_remoteid (the (dles d)))) = 0
     | None \<Rightarrow> \<forall>d \<in> set ds. memcmp addr (v6_linklocal_addr_from_key_id (dle_remoteid (the (dles d)))) \<noteq> 0)"
  using assms
proof (induction ds)
  case (Cons d ds)
  then obtain e r where e: "dles d = Some e" and r: "find_entry dles addr ds = Inr r"
    "(case r of
       Some d \<Rightarrow> d \<in> set ds \<and> memcmp addr (v6_linklocal_addr_from_key_id (dle_remoteid (the (dles d)))) = 0
     | None \<Rightarrow> \<forall>d \<in> set ds. memcmp addr (v6_linklocal_addr_from_key_id (dle_remoteid (the (dles d)))) \<noteq> 0)" by auto
  then show ?case by (cases r) auto
qed simp


text \<open>Descriptors that are opened and closed without becoming a connection.\<close>

lemma conn_fds_sys [simp]: "conn_fds (dls_sys call dls) = conn_fds dls" "listen_fds (dls_sys call dls) = listen_fds dls"
  by (simp_all add: conn_fds_def listen_fds_def dls_sys_def)

lemma dls_sys_simps [simp]:
  "dls_conns (dls_sys call dls) = dls_conns dls" "dls_dles (dls_sys call dls) = dls_dles dls"
  "dls_listen_entries (dls_sys call dls) = dls_listen_entries dls" "dls_readonly_conns (dls_sys call dls) = dls_readonly_conns dls"
  "dls_permit_readonly (dls_sys call dls) = dls_permit_readonly dls" "dls_myid (dls_sys call dls) = dls_myid dls"
  "dls_registered (dls_sys call dls) = dls_registered dls" "dls_calls (dls_sys call dls) = dls_calls dls @ [call]"
  by (simp_all add: dls_sys_def)

lemma linked_sys [simp]: "conn_linked (dls_sys call dls) = conn_linked dls"
  by (rule ext)+ (simp add: conn_linked_def split: option.split)

lemma links_sys [simp]: "dls_links reading writing (dls_sys call dls) = dls_links reading writing dls"
  by (simp add: dls_links_def)

lemma fds_change:
  assumes "dls_fds X dls" "dls_conns dls' = dls_conns dls" "listen_fds dls' = L"
    and "L \<inter> conn_fds dls = {}" "Y \<inter> (L \<union> conn_fds dls) = {}" "open_fds (dls_calls dls') = L \<union> conn_fds dls \<union> Y"
  shows "dls_fds Y dls'"
proof -
  have "conn_fds dls' = conn_fds dls" by (simp add: conn_fds_def assms(2))
  moreover have "\<forall>c c' k k'. dls_conns dls' c = Some k \<longrightarrow> dls_conns dls' c' = Some k' \<longrightarrow> cn_fd k = cn_fd k' \<longrightarrow> c = c'"
    using assms(1) unfolding dls_fds_def assms(2) by (rule conjunct1)
  ultimately show ?thesis using assms(4-6) unfolding dls_fds_def assms(3) by metis
qed

lemma accept_inv:
  assumes "dls_inv reading writing {} dls" "fd \<notin> open_fds (dls_calls dls)"
  shows "dls_inv reading writing {fd} (dls_sys (Sys_socket fd) dls)"
proof -
  have f: "dls_fds {} dls" using assms(1) by (simp add: dls_inv_def)
  have "dls_fds {fd} (dls_sys (Sys_socket fd) dls)"
    by (rule fds_change [OF f _ refl]) (use dls_fdsD [OF f] assms(2) in auto)
  with assms(1) show ?thesis by (simp add: dls_inv_def)
qed

lemma close_inv:
  assumes "dls_inv reading writing {fd} dls"
  shows "dls_inv reading writing {} (dls_sys (Sys_close fd) dls)"
proof -
  have f: "dls_fds {fd} dls" using assms(1) by (simp add: dls_inv_def)
  have "dls_fds {} (dls_sys (Sys_close fd) dls)"
    by (rule fds_change [OF f _ refl]) (use dls_fdsD [OF f] in auto)
  with assms(1) show ?thesis by (simp add: dls_inv_def)
qed

lemma add_peer_inv:
  assumes "dls_inv reading writing {fd} dls" "d \<in> set (dls_listen_entries dls)" "dls_dles dls d = Some e"
    "dle_current e = None" "dls_conns dls c = None" "reading s" "writing s"
  shows "dls_inv reading writing {} (dls\<lparr>dls_dles := (dls_dles dls)(d \<mapsto> e\<lparr>dle_current := Some c\<rparr>),
    dls_conns := (dls_conns dls)(c \<mapsto> \<lparr>cn_dle = Some d, cn_fd = fd, cn_registered = True, cn_session = s\<rparr>)\<rparr>)"
    (is "dls_inv _ _ _ ?d")
proof -
  let ?k = "\<lparr>cn_dle = Some d, cn_fd = fd, cn_registered = True, cn_session = s\<rparr>"
  have "dls_links reading writing ?d" by (rule add_peer_links) (use assms in \<open>simp_all add: dls_inv_def\<close>)
  moreover have "dls_fds {} ?d"
    by (rule add_conn_fds [of fd "{}" dls c ?k]) (use assms in \<open>simp_all add: dls_inv_def listen_fds_def\<close>)
  ultimately show ?thesis by (simp only: dls_inv_def)
qed

lemma add_readonly_inv:
  assumes "dls_inv reading writing {fd} dls" "dls_conns dls c = None" "reading s" "writing s"
  shows "dls_inv reading writing {} (dls\<lparr>dls_readonly_conns := dls_readonly_conns dls @ [c],
    dls_conns := (dls_conns dls)(c \<mapsto> \<lparr>cn_dle = None, cn_fd = fd, cn_registered = True, cn_session = s\<rparr>)\<rparr>)"
    (is "dls_inv _ _ _ ?d")
proof -
  let ?k = "\<lparr>cn_dle = None, cn_fd = fd, cn_registered = True, cn_session = s\<rparr>"
  have "dls_links reading writing ?d" by (rule add_readonly_links) (use assms in \<open>simp_all add: dls_inv_def\<close>)
  moreover have "dls_fds {} ?d"
    by (rule add_conn_fds [of fd "{}" dls c ?k]) (use assms in \<open>simp_all add: dls_inv_def listen_fds_def\<close>)
  ultimately show ?thesis by (simp only: dls_inv_def)
qed

text \<open>What accepting a connection leaves.\<close>

definition from_peer :: "accepted \<Rightarrow> 's dgp_listen_socket \<Rightarrow> nat \<Rightarrow> bool" where
  "from_peer a dls d \<longleftrightarrow> d \<in> set (dls_listen_entries dls) \<and> sin6_port (ac_peer a) = 173 \<and>
     memcmp (sin6_addr (ac_peer a)) (v6_linklocal_addr_from_key_id (dle_remoteid (the (dls_dles dls d)))) = 0"

definition accept_ok :: "accepted \<Rightarrow> nat option \<Rightarrow> 's dgp_listen_socket \<Rightarrow> 's dgp_listen_socket \<Rightarrow> bool" where
  "accept_ok a malloc dls dls' \<longleftrightarrow>
     (\<forall>c k. dls_conns dls' c = Some k \<longrightarrow> dls_conns dls c = Some k \<or>
        malloc = Some c \<and> cn_fd k = ac_fd a \<and> ac_inet6 a \<and>
        (case cn_dle k of Some d \<Rightarrow> from_peer a dls d | None \<Rightarrow> dls_permit_readonly dls \<and> (\<forall>d. \<not> from_peer a dls d))) \<and>
     (\<forall>c k. dls_conns dls c = Some k \<longrightarrow> dls_conns dls' c \<noteq> Some k \<longrightarrow> (\<exists>d. cn_dle k = Some d \<and> from_peer a dls d))"


text \<open>
  The change of the connections: the old one of the entry goes, the new one comes (unless it has
  failed already), the others stay.
\<close>

definition conns_step ::
  "int \<Rightarrow> nat option \<Rightarrow> nat \<Rightarrow> (nat \<Rightarrow> 's conn option) \<Rightarrow> (nat \<Rightarrow> 's conn option) \<Rightarrow> bool" where
  "conns_step fd dle c m m' \<longleftrightarrow> (\<forall>x. m' x = m x \<or>
     m' x = None \<and> (\<exists>k. m x = Some k \<and> cn_dle k = dle \<and> dle \<noteq> None) \<or>
     x = c \<and> (\<exists>s. m' x = Some \<lparr>cn_dle = dle, cn_fd = fd, cn_registered = True, cn_session = s\<rparr>))"

lemma accept_okI:
  assumes "conns_step (ac_fd a) dle c (dls_conns dls) (dls_conns dls')" "malloc = Some c" "ac_inet6 a" "dls_conns dls c = None"
    and "\<And>d. dle = Some d \<Longrightarrow> from_peer a dls d" "dle = None \<Longrightarrow> dls_permit_readonly dls \<and> (\<forall>d. \<not> from_peer a dls d)"
  shows "accept_ok a malloc dls dls'"
  unfolding accept_ok_def
proof (intro conjI allI impI)
  fix x k assume x: "dls_conns dls' x = Some k"
  show "dls_conns dls x = Some k \<or> malloc = Some x \<and> cn_fd k = ac_fd a \<and> ac_inet6 a \<and>
      (case cn_dle k of Some d \<Rightarrow> from_peer a dls d | None \<Rightarrow> dls_permit_readonly dls \<and> (\<forall>d. \<not> from_peer a dls d))"
  proof (cases "dls_conns dls x = Some k")
    case False
    with assms(1) x obtain s where "x = c" "k = \<lparr>cn_dle = dle, cn_fd = ac_fd a, cn_registered = True, cn_session = s\<rparr>"
      unfolding conns_step_def by (metis option.distinct(1) option.inject)
    with assms show ?thesis by (auto split: option.split)
  qed simp
next
  fix x k assume "dls_conns dls x = Some k" "dls_conns dls' x \<noteq> Some k"
  with assms(1,4) have "cn_dle k = dle" "dle \<noteq> None"
    unfolding conns_step_def by (metis option.distinct(1) option.inject)+
  with assms(5) show "\<exists>d. cn_dle k = Some d \<and> from_peer a dls d" by auto
qed

text \<open>The new connection of a peer is there, the one it had is gone, those of others are as they were.\<close>

definition admitted ::
  "accepted \<Rightarrow> nat \<Rightarrow> dgp_listen_entry \<Rightarrow> nat \<Rightarrow> 's \<Rightarrow> 's dgp_listen_socket \<Rightarrow> 's dgp_listen_socket \<Rightarrow> bool" where
  "admitted a d e c s dls dls' \<longleftrightarrow>
     dls_conns dls' c = Some \<lparr>cn_dle = Some d, cn_fd = ac_fd a, cn_registered = True, cn_session = s\<rparr> \<and>
     dls_dles dls' d = Some (e\<lparr>dle_current := Some c\<rparr>) \<and>
     (\<forall>c'. dle_current e = Some c' \<longrightarrow> dls_conns dls' c' = None) \<and>
     (\<forall>x k. dls_conns dls x = Some k \<longrightarrow> cn_dle k \<noteq> Some d \<longrightarrow> x \<noteq> c \<longrightarrow> dls_conns dls' x = Some k)"

definition init_idle :: "('s \<Rightarrow> bool) \<Rightarrow> ('s \<Rightarrow> bool) \<Rightarrow> (bytes \<Rightarrow> bytes option \<Rightarrow> 's) \<Rightarrow> bool" where
  "init_idle reading writing init \<longleftrightarrow> (\<forall>m r. \<not> reading (init m r) \<and> \<not> writing (init m r))"

context dgp_session
begin

lemma read_inv:
  assumes "dls_inv reading writing X dls" "dls_conns dls c = Some k"
  shows "safe (dls_inv reading writing X) (dgp_listen_read ops c r dls)"
proof -
  have on: "reading (cn_session k)" "writing (cn_session k)"
    using assms unfolding dls_inv_def dls_links_def by blast+
  have last: "safe (dls_inv reading writing X) (if ret < 0 then conn_kill ops c (dls\<lparr>dls_conns := (dls_conns dls)(c \<mapsto> k\<lparr>cn_session := s\<rparr>)\<rparr>)
      else Inr (dls\<lparr>dls_conns := (dls_conns dls)(c \<mapsto> k\<lparr>cn_session := s\<rparr>)\<rparr>))"
    if s: "reading s" "writing s" for ret :: int and s
  proof -
    let ?d = "dls\<lparr>dls_conns := (dls_conns dls)(c \<mapsto> k\<lparr>cn_session := s\<rparr>)\<rparr>"
    have d: "dls_inv reading writing X ?d" by (rule set_session_inv [OF assms s])
    have "safe (\<lambda>dls'. dls_inv reading writing X dls' \<and> dls' = killed c (k\<lparr>cn_session := s\<rparr>) ?d) (conn_kill ops c ?d)"
      by (rule conn_kill_inv [OF d]) simp
    then have "safe (dls_inv reading writing X) (conn_kill ops c ?d)" by (rule safe_mono) simp
    with d show ?thesis by simp
  qed
  show ?thesis
    unfolding dgp_listen_read_def assms(2) deref_simps hbind_simps
  proof (rule safe_bind [OF reader_read [OF on(1)]])
    fix x :: "int \<times> 's" assume "case x of (ret, s') \<Rightarrow> reading s' \<and> writing s' = writing (cn_session k)"
    then obtain ret s where "x = (ret, s)" "reading s" "writing s" using on(2) by (cases x) auto
    with last [of s ret] show "safe (dls_inv reading writing X) (case x of (ret, s) \<Rightarrow>
        let dls = dls\<lparr>dls_conns := (dls_conns dls)(c \<mapsto> k\<lparr>cn_session := s\<rparr>)\<rparr>
        in if ret < 0 then conn_kill ops c dls else Inr dls)" unfolding Let_def by simp
  qed
qed

text \<open>Starting a session on a new connection, whose entry points to it or which is in the list.\<close>

lemma start_conn_inv:
  assumes "init_idle reading writing init" "\<And>d. dle = Some d \<Longrightarrow> dls_dles dls d \<noteq> None"
    and "\<And>s. reading s \<Longrightarrow> writing s \<Longrightarrow> dls_inv reading writing {} (dls\<lparr>dls_conns := (dls_conns dls)(c \<mapsto>
      \<lparr>cn_dle = dle, cn_fd = fd, cn_registered = True, cn_session = s\<rparr>)\<rparr>)"
  shows "safe (\<lambda>dls'. dls_inv reading writing {} dls' \<and> (dls_conns dls' = (dls_conns dls)(c := None) \<or>
      (\<exists>s. dls_conns dls' = (dls_conns dls)(c \<mapsto> \<lparr>cn_dle = dle, cn_fd = fd, cn_registered = True, cn_session = s\<rparr>))))
    (start_conn ops init fd dle c dls)" (is "safe ?P _")
proof -
  let ?k = "\<lambda>s. \<lparr>cn_dle = dle, cn_fd = fd, cn_registered = True, cn_session = s\<rparr>"
  let ?d = "\<lambda>s. dls\<lparr>dls_conns := (dls_conns dls)(c \<mapsto> ?k s)\<rparr>"
  have last: "safe ?P (if failed then conn_kill ops c (?d s) else Inr (?d s))" if s: "reading s" "writing s" for failed s
  proof (cases failed)
    case True
    have "safe (\<lambda>dls'. dls_inv reading writing {} dls' \<and> dls' = killed c (?k s) (?d s)) (conn_kill ops c (?d s))"
      by (rule conn_kill_inv [OF assms(3) [OF s]]) simp
    then have "safe ?P (conn_kill ops c (?d s))" by (rule safe_mono) auto
    with True show ?thesis by simp
  next
    case False
    with assms(3) [OF s] show ?thesis by auto
  qed
  obtain remoteid where rem: "(case dle of Some d \<Rightarrow> hbind (deref (dls_dles dls d)) (\<lambda>e. Inr (Some (dle_remoteid e)))
      | None \<Rightarrow> Inr None) = Inr remoteid"
    using assms(2) by (cases dle) auto
  have idle: "\<not> reading (init (dls_myid dls) remoteid)" "\<not> writing (init (dls_myid dls) remoteid)"
    using assms(1) by (auto simp: init_idle_def)
  show ?thesis
    unfolding start_conn_def rem hbind_simps
  proof (rule safe_bind [OF reader_register [OF idle(1)]])
    fix t assume t: "reading t \<and> writing t = writing (init (dls_myid dls) remoteid)"
    then have "\<not> writing t" using idle(2) by simp
    then show "safe ?P (hbind (ss_writer_register ops t) (\<lambda>(failed, s). let dls = ?d s
        in if failed then dls_dr_dw_io_error ops c dls else Inr dls))"
    proof (rule safe_bind [OF writer_register])
      fix x :: "bool \<times> 's" assume "case x of (failed, s') \<Rightarrow> writing s' \<and> reading s' = reading t"
      then obtain failed s where "x = (failed, s)" "reading s" "writing s" using t by (cases x) auto
      with last [of s failed] show "safe ?P (case x of (failed, s) \<Rightarrow> let dls = ?d s
          in if failed then dls_dr_dw_io_error ops c dls else Inr dls)"
        unfolding Let_def dls_dr_dw_io_error_def by simp
    qed
  qed
qed


lemma entry_current:
  assumes "dls_inv reading writing X dls" "d \<in> set (dls_listen_entries dls)"
  obtains e where "dls_dles dls d = Some e"
    "\<And>c. dle_current e = Some c \<Longrightarrow> \<exists>k. dls_conns dls c = Some k \<and> cn_dle k = Some d"
proof -
  have "dls_links reading writing dls" using assms(1) by (simp add: dls_inv_def)
  then show ?thesis using assms(2) that unfolding dls_links_def by blast
qed

text \<open>Making room for a new connection of an entry: the old one, if any, is killed.\<close>

definition evicted :: "nat \<Rightarrow> dgp_listen_entry \<Rightarrow> 's dgp_listen_socket \<Rightarrow> 's dgp_listen_socket \<Rightarrow> bool" where
  "evicted d e dls dls' \<longleftrightarrow> dls_dles dls' d = Some (e\<lparr>dle_current := None\<rparr>) \<and> dls_registered dls' = dls_registered dls \<and>
     dls_myid dls' = dls_myid dls \<and> (\<forall>c. dle_current e = Some c \<longrightarrow> dls_conns dls' c = None) \<and>
     dls_listen_entries dls' = dls_listen_entries dls \<and> dls_readonly_conns dls' = dls_readonly_conns dls \<and>
     (\<forall>c. dls_conns dls' c = dls_conns dls c \<or>
        dls_conns dls' c = None \<and> (\<exists>k. dls_conns dls c = Some k \<and> cn_dle k = Some d))"

lemma kill_current:
  assumes "dls_inv reading writing X dls" "d \<in> set (dls_listen_entries dls)" "dls_dles dls d = Some e"
  shows "safe (\<lambda>dls'. dls_inv reading writing X dls' \<and> evicted d e dls dls')
    (case dle_current e of Some c \<Rightarrow> conn_kill ops c dls | None \<Rightarrow> Inr dls)"
proof (cases "dle_current e")
  case None
  then have "e\<lparr>dle_current := None\<rparr> = e" by simp
  with None assms show ?thesis by (simp add: evicted_def)
next
  case (Some c)
  from entry_current [OF assms(1,2)] assms(3) Some obtain k where k: "dls_conns dls c = Some k" "cn_dle k = Some d"
    by (metis option.inject)
  have "safe (\<lambda>dls'. dls_inv reading writing X dls' \<and> dls' = killed c k dls) (conn_kill ops c dls)"
    by (rule conn_kill_inv [OF assms(1) k(1)])
  then have "safe (\<lambda>dls'. dls_inv reading writing X dls' \<and> evicted d e dls dls') (conn_kill ops c dls)"
    by (rule safe_mono) (use k assms(3) Some in \<open>auto simp: evicted_def\<close>)
  with Some show ?thesis by simp
qed

lemma accept_peer:
  assumes "init_idle reading writing init" "dls_inv reading writing {fd} dls" "d \<in> set (dls_listen_entries dls)"
    "dls_conns dls c = None"
  shows "safe (\<lambda>dls'. dls_inv reading writing {} dls' \<and> conns_step fd (Some d) c (dls_conns dls) (dls_conns dls'))
    (hbind (replace_current ops d c dls) (start_conn ops init fd (Some d) c))" (is "safe ?P _")
proof -
  from entry_current [OF assms(2,3)] obtain e where e: "dls_dles dls d = Some e" by metis
  have "hbind (replace_current ops d c dls) (start_conn ops init fd (Some d) c) =
      hbind (case dle_current e of Some c \<Rightarrow> conn_kill ops c dls | None \<Rightarrow> Inr dls)
        (\<lambda>dls1. hbind (set_current d (Some c) dls1) (start_conn ops init fd (Some d) c))"
    unfolding replace_current_def e deref_simps hbind_simps hbind_assoc ..
  moreover have "safe ?P (hbind (set_current d (Some c) dls1) (start_conn ops init fd (Some d) c))"
    if dls1: "dls_inv reading writing {fd} dls1 \<and> evicted d e dls dls1" for dls1
  proof -
    let ?dls2 = "dls1\<lparr>dls_dles := (dls_dles dls1)(d \<mapsto> e\<lparr>dle_current := None, dle_current := Some c\<rparr>)\<rparr>"
    note 1 = dls1 [unfolded evicted_def]
    have c: "dls_conns dls1 c = None" using 1 assms(4) by metis
    have "set_current d (Some c) dls1 = Inr ?dls2" using 1 by (simp add: set_current_def)
    moreover have "safe (\<lambda>dls'. dls_inv reading writing {} dls' \<and> (dls_conns dls' = (dls_conns ?dls2)(c := None) \<or>
      (\<exists>s. dls_conns dls' = (dls_conns ?dls2)(c \<mapsto> \<lparr>cn_dle = Some d, cn_fd = fd, cn_registered = True, cn_session = s\<rparr>))))
      (start_conn ops init fd (Some d) c ?dls2)"
    proof (rule start_conn_inv [OF assms(1)])
      show "dls_dles ?dls2 d' \<noteq> None" if "Some d = Some d'" for d' using that by simp
      show "dls_inv reading writing {} (?dls2\<lparr>dls_conns := (dls_conns ?dls2)(c \<mapsto>
          \<lparr>cn_dle = Some d, cn_fd = fd, cn_registered = True, cn_session = s\<rparr>)\<rparr>)" if "reading s" "writing s" for s
        using add_peer_inv [of reading writing fd dls1 d "e\<lparr>dle_current := None\<rparr>" c s] 1 c that assms(3) by simp
    qed
    then have "safe ?P (start_conn ops init fd (Some d) c ?dls2)"
    proof (rule safe_mono)
      fix dls'
      assume "dls_inv reading writing {} dls' \<and> (dls_conns dls' = (dls_conns ?dls2)(c := None) \<or>
        (\<exists>s. dls_conns dls' = (dls_conns ?dls2)(c \<mapsto> \<lparr>cn_dle = Some d, cn_fd = fd, cn_registered = True, cn_session = s\<rparr>)))"
      moreover have "conns_step fd (Some d) c (dls_conns dls) ((dls_conns dls1)(c := y))"
        if "y = None \<or> (\<exists>s. y = Some \<lparr>cn_dle = Some d, cn_fd = fd, cn_registered = True, cn_session = s\<rparr>)" for y
        using that 1 assms(4) unfolding conns_step_def by (metis fun_upd_apply option.distinct(1))
      ultimately show "?P dls'" by auto
    qed
    ultimately show ?thesis by simp
  qed
  ultimately show ?thesis
    using safe_bind [OF kill_current [OF assms(2,3) e], of ?P] by simp
qed

lemma accept_readonly:
  assumes "init_idle reading writing init" "dls_inv reading writing {fd} dls" "dls_conns dls c = None"
  shows "safe (\<lambda>dls'. dls_inv reading writing {} dls' \<and> conns_step fd None c (dls_conns dls) (dls_conns dls'))
    (start_conn ops init fd None c (dls\<lparr>dls_readonly_conns := dls_readonly_conns dls @ [c]\<rparr>))"
proof (rule safe_mono [OF start_conn_inv [OF assms(1)]])
  show "dls_inv reading writing {} (dls\<lparr>dls_readonly_conns := dls_readonly_conns dls @ [c],
      dls_conns := (dls_conns (dls\<lparr>dls_readonly_conns := dls_readonly_conns dls @ [c]\<rparr>))(c \<mapsto>
        \<lparr>cn_dle = None, cn_fd = fd, cn_registered = True, cn_session = s\<rparr>)\<rparr>)" if "reading s" "writing s" for s
    using add_readonly_inv [OF assms(2,3) that] by simp
qed (use assms(3) in \<open>auto simp: conns_step_def split: if_splits\<close>)


text \<open>A connection that arrives.\<close>

lemma got_connection_inv:
  assumes "init_idle reading writing init" "dls_inv reading writing {} dls"
    and "\<And>a. acc = Some a \<Longrightarrow> ac_fd a \<notin> open_fds (dls_calls dls)" "\<And>c. malloc = Some c \<Longrightarrow> dls_conns dls c = None"
  shows "safe (\<lambda>dls'. dls_inv reading writing {} dls' \<and> (\<forall>a. acc = Some a \<longrightarrow> accept_ok a malloc dls dls'))
    (got_connection ops init acc malloc dls)"
proof (cases acc)
  case None
  with assms show ?thesis by (simp add: got_connection_def)
next
  case (Some a)
  let ?fd = "ac_fd a"
  let ?dls = "dls_sys (Sys_socket ?fd) dls"
  have inv: "dls_inv reading writing {?fd} ?dls" by (rule accept_inv [OF assms(2) assms(3) [OF Some]])
  have closed: "dls_inv reading writing {} (dls_sys (Sys_close ?fd) ?dls) \<and> accept_ok a malloc dls (dls_sys (Sys_close ?fd) ?dls)"
    using close_inv [OF inv] by (simp add: accept_ok_def)
  have "\<forall>d \<in> set (dls_listen_entries dls). dls_dles dls d \<noteq> None"
    using assms(2) unfolding dls_inv_def dls_links_def by blast
  from find_entry_result [OF this, of "sin6_addr (ac_peer a)"] obtain r where
    r: "find_entry (dls_dles dls) (sin6_addr (ac_peer a)) (dls_listen_entries dls) = Inr r" and
    r': "case r of
       Some d \<Rightarrow> d \<in> set (dls_listen_entries dls) \<and> memcmp (sin6_addr (ac_peer a)) (v6_linklocal_addr_from_key_id (dle_remoteid (the (dls_dles dls d)))) = 0
     | None \<Rightarrow> \<forall>d \<in> set (dls_listen_entries dls). memcmp (sin6_addr (ac_peer a)) (v6_linklocal_addr_from_key_id (dle_remoteid (the (dls_dles dls d)))) \<noteq> 0"
    by blast
  define dle where "dle = (if sin6_port (ac_peer a) = 173 then r else None)"
  have dle: "(if sin6_port (ac_peer a) = 173 then find_entry_by_addr ?dls (sin6_addr (ac_peer a)) else Inr None) = Inr dle"
    by (simp add: dle_def find_entry_by_addr_def r)
  have peer: "dle = Some d \<Longrightarrow> from_peer a dls d" and nopeer: "dle = None \<Longrightarrow> \<not> from_peer a dls d" for d
    using r' by (auto simp: dle_def from_peer_def split: if_splits)
  show ?thesis
  proof (cases "ac_inet6 a \<and> (dle \<noteq> None \<or> dls_permit_readonly dls) \<and> malloc \<noteq> None")
    case False
    then have "got_connection ops init acc malloc dls = Inr (dls_sys (Sys_close ?fd) ?dls)"
      by (auto simp: got_connection_def Some dle Let_def split: option.split)
    with closed Some show ?thesis by simp
  next
    case True
    then obtain c where c: "malloc = Some c" "dls_conns ?dls c = None" using assms(4) by auto
    show ?thesis
    proof (cases dle)
      case (Some d)
      have "got_connection ops init acc malloc dls =
          hbind (replace_current ops d c ?dls) (start_conn ops init ?fd (Some d) c)"
        using True c(1) by (simp add: got_connection_def \<open>acc = Some a\<close> dle Some Let_def)
      note eq = this
      have "d \<in> set (dls_listen_entries ?dls)" using peer [OF Some] by (simp add: from_peer_def)
      then show ?thesis unfolding eq
        by (rule safe_mono [OF accept_peer [OF assms(1) inv _ c(2)]])
          (use c \<open>acc = Some a\<close> peer [OF Some] True Some in \<open>auto intro!: accept_okI\<close>)
    next
      case None
      then have eq: "got_connection ops init acc malloc dls =
          start_conn ops init ?fd None c (?dls\<lparr>dls_readonly_conns := dls_readonly_conns ?dls @ [c]\<rparr>)"
        using True c(1) by (simp add: got_connection_def \<open>acc = Some a\<close> dle Let_def)
      show ?thesis unfolding eq
        by (rule safe_mono [OF accept_readonly [OF assms(1) inv c(2)]])
          (use c \<open>acc = Some a\<close> nopeer [OF None] True None in \<open>auto intro!: accept_okI\<close>)
    qed
  qed
qed

text \<open>A peer gets its connection, in place of the one it had.\<close>

lemma find_entry_unique:
  assumes "\<forall>d \<in> set (dls_listen_entries dls). dls_dles dls d \<noteq> None" "from_peer a dls d" "\<And>d'. from_peer a dls d' \<Longrightarrow> d' = d"
  shows "find_entry (dls_dles dls) (sin6_addr (ac_peer a)) (dls_listen_entries dls) = Inr (Some d)"
proof -
  from find_entry_result [OF assms(1), of "sin6_addr (ac_peer a)"] obtain r where
    r: "find_entry (dls_dles dls) (sin6_addr (ac_peer a)) (dls_listen_entries dls) = Inr r" and
    r': "case r of
       Some d \<Rightarrow> d \<in> set (dls_listen_entries dls) \<and> memcmp (sin6_addr (ac_peer a)) (v6_linklocal_addr_from_key_id (dle_remoteid (the (dls_dles dls d)))) = 0
     | None \<Rightarrow> \<forall>d \<in> set (dls_listen_entries dls). memcmp (sin6_addr (ac_peer a)) (v6_linklocal_addr_from_key_id (dle_remoteid (the (dls_dles dls d)))) \<noteq> 0"
    by blast
  have "r = Some d"
  proof (cases r)
    case None
    with r' assms(2) show ?thesis by (auto simp: from_peer_def)
  next
    case (Some d')
    with r' assms(2) have "from_peer a dls d'" by (simp add: from_peer_def)
    with Some assms(3) show ?thesis by simp
  qed
  with r show ?thesis by simp
qed

lemma peer_admitted:
  assumes "dls_inv reading writing {} dls" "ac_fd a \<notin> open_fds (dls_calls dls)" "dls_conns dls c = None"
    and "ac_inet6 a" "from_peer a dls d" "\<And>d'. from_peer a dls d' \<Longrightarrow> d' = d" "dls_dles dls d = Some e"
    and "ss_reader_register ops (init (dls_myid dls) (Some (dle_remoteid e))) = Inr s" "ss_writer_register ops s = Inr (False, s')"
  shows "safe (admitted a d e c s' dls) (got_connection ops init (Some a) (Some c) dls)"
proof -
  let ?dls = "dls_sys (Sys_socket (ac_fd a)) dls"
  have d: "d \<in> set (dls_listen_entries ?dls)" "dls_dles ?dls d = Some e" "sin6_port (ac_peer a) = 173"
    using assms(5,7) by (simp_all add: from_peer_def)
  have "\<forall>d \<in> set (dls_listen_entries dls). dls_dles dls d \<noteq> None"
    using assms(1) unfolding dls_inv_def dls_links_def by blast
  from find_entry_unique [OF this assms(5,6)] have "find_entry_by_addr ?dls (sin6_addr (ac_peer a)) = Inr (Some d)"
    by (simp add: find_entry_by_addr_def)
  with assms(4) d have eq: "got_connection ops init (Some a) (Some c) dls =
      hbind (case dle_current e of Some c \<Rightarrow> conn_kill ops c ?dls | None \<Rightarrow> Inr ?dls)
        (\<lambda>dls1. hbind (set_current d (Some c) dls1) (start_conn ops init (ac_fd a) (Some d) c))"
    by (simp add: got_connection_def replace_current_def hbind_assoc Let_def)
  note kill = kill_current [OF accept_inv [OF assms(1,2)] d(1,2)]
  show ?thesis
    unfolding eq
  proof (rule safe_bind [OF kill])
    fix dls1 assume "dls_inv reading writing {ac_fd a} dls1 \<and> evicted d e ?dls dls1"
    then have 1: "dls_dles dls1 d = Some (e\<lparr>dle_current := None\<rparr>)" "dls_myid dls1 = dls_myid dls"
        "\<forall>x. dle_current e = Some x \<longrightarrow> dls_conns dls1 x = None"
        "\<forall>x. dls_conns dls1 x = dls_conns dls x \<or> dls_conns dls1 x = None \<and> (\<exists>k. dls_conns dls x = Some k \<and> cn_dle k = Some d)"
      by (simp_all add: evicted_def)
    have old: "x \<noteq> c" if "dle_current e = Some x" for x
      using that assms(1,3,7) d(1) unfolding dls_inv_def dls_links_def by fastforce
    have others: "dls_conns dls1 x = Some k" if "dls_conns dls x = Some k" "cn_dle k \<noteq> Some d" for x k
      using 1(4) that by (metis option.inject)
    show "safe (admitted a d e c s' dls) (hbind (set_current d (Some c) dls1) (start_conn ops init (ac_fd a) (Some d) c))"
      using 1(1-3) old others assms(8,9) by (auto simp: set_current_def start_conn_def admitted_def Let_def)
  qed
qed


text \<open>The entries.\<close>

lemma fds_same:
  "dls_fds X dls \<Longrightarrow> dls_conns dls' = dls_conns dls \<Longrightarrow> listen_fds dls' = listen_fds dls \<Longrightarrow>
   dls_calls dls' = dls_calls dls \<Longrightarrow> dls_fds X dls'"
  using dls_fdsD [of X dls] by (intro fds_change [of X dls dls' "listen_fds dls"]) simp_all

lemma entry_register_inv:
  assumes "dls_inv reading writing X dls" "d \<notin> set (dls_listen_entries dls)" "dls_dles dls d = Some e"
  shows "safe (dls_inv reading writing X) (dgp_listen_entry_register d dls)"
proof -
  let ?d = "dls\<lparr>dls_listen_entries := dls_listen_entries dls @ [d], dls_dles := (dls_dles dls)(d \<mapsto> e\<lparr>dle_current := None\<rparr>)\<rparr>"
  have L: "dls_links reading writing dls" and F: "dls_fds X dls" using assms(1) by (auto simp: dls_inv_def)
  note L' = L [unfolded dls_links_def]
  have "conn_linked ?d c k" if "conn_linked dls c k" for c k
    using that assms(2) by (auto simp: conn_linked_def split: option.splits)
  moreover have "\<forall>d' \<in> set (dls_listen_entries dls @ [d]). \<forall>e' c. dls_dles ?d d' = Some e' \<longrightarrow> dle_current e' = Some c \<longrightarrow>
      (\<exists>k. dls_conns dls c = Some k \<and> cn_dle k = Some d')"
    using L' by auto
  ultimately have "dls_links reading writing ?d" using L' assms(2) unfolding dls_links_def by simp
  moreover have "dls_fds X ?d" by (rule fds_same [OF F]) (simp_all add: listen_fds_def)
  ultimately show ?thesis
    using assms(3) by (simp add: dgp_listen_entry_register_def set_current_def dls_inv_def)
qed

lemma entry_unregister_inv:
  assumes "dls_inv reading writing X dls" "d \<in> set (dls_listen_entries dls)"
  shows "safe (\<lambda>dls'. dls_inv reading writing X dls' \<and> dls_listen_entries dls' = remove1 d (dls_listen_entries dls) \<and>
    dls_registered dls' = dls_registered dls) (dgp_listen_entry_unregister ops d dls)"
proof -
  from entry_current [OF assms] obtain e where e: "dls_dles dls d = Some e" by metis
  show ?thesis
    unfolding dgp_listen_entry_unregister_def e deref_simps hbind_simps
  proof (rule safe_bind [OF kill_current [OF assms e]])
    fix dls1 assume "dls_inv reading writing X dls1 \<and> evicted d e dls dls1"
    then have inv: "dls_links reading writing dls1" "dls_fds X dls1" and ev: "dls_dles dls1 d = Some (e\<lparr>dle_current := None\<rparr>)"
        "dls_listen_entries dls1 = dls_listen_entries dls" "dls_registered dls1 = dls_registered dls"
      by (auto simp: dls_inv_def evicted_def)
    note L = inv(1) [unfolded dls_links_def]
    let ?d = "dls1\<lparr>dls_listen_entries := remove1 d (dls_listen_entries dls1)\<rparr>"
    have "conn_linked ?d c k" if "conn_linked dls1 c k" for c k
      using that ev(1) L by (auto simp: conn_linked_def split: option.splits)
    moreover have "set (remove1 d (dls_listen_entries dls1)) \<subseteq> set (dls_listen_entries dls1)" by (rule set_remove1_subset)
    ultimately have "dls_links reading writing ?d"
      using L unfolding dls_links_def by (auto simp: distinct_remove1)
    moreover have "dls_fds X ?d" by (rule fds_same [OF inv(2)]) (simp_all add: listen_fds_def)
    ultimately show "safe (\<lambda>dls'. dls_inv reading writing X dls' \<and> dls_listen_entries dls' = remove1 d (dls_listen_entries dls) \<and>
        dls_registered dls' = dls_registered dls) (Inr ?d)"
      using ev by (simp add: dls_inv_def)
  qed
qed

lemma entry_reset_inv:
  assumes "dls_inv reading writing X dls" "d \<in> set (dls_listen_entries dls)"
  shows "safe (dls_inv reading writing X) (dgp_listen_entry_reset ops d dls)"
proof -
  from entry_current [OF assms] obtain e where e: "dls_dles dls d = Some e" by metis
  have again: "set_current d None dls1 = Inr dls1" if "dls_dles dls1 d = Some (e\<lparr>dle_current := None\<rparr>)" for dls1 :: "'s dgp_listen_socket"
  proof -
    have "(dls_dles dls1)(d \<mapsto> e\<lparr>dle_current := None\<rparr>) = dls_dles dls1" using that by (rule fun_upd_idem)
    with that show ?thesis by (simp add: set_current_def)
  qed
  have "safe (dls_inv reading writing X) (hbind (conn_kill ops c dls) (set_current d None))" if "dle_current e = Some c" for c
    using safe_bind [OF kill_current [OF assms e], of "dls_inv reading writing X" "set_current d None"] that
    by (auto simp: evicted_def again)
  then show ?thesis
    using assms(1) by (auto simp: dgp_listen_entry_reset_def e split: option.split)
qed

text \<open>The socket is closed: first the entries go, with their connections, then the read-only ones.\<close>

lemma entries_down:
  "dls_inv reading writing {} dls \<Longrightarrow> \<not> dls_registered dls \<Longrightarrow> dls_listen_entries dls = ds \<Longrightarrow>
   safe (\<lambda>dls'. dls_inv reading writing {} dls' \<and> \<not> dls_registered dls' \<and> dls_listen_entries dls' = [])
     (hfold (dgp_listen_entry_unregister ops) ds dls)"
proof (induction ds arbitrary: dls)
  case (Cons d ds)
  have "d \<in> set (dls_listen_entries dls)" using Cons.prems(3) by simp
  note u = entry_unregister_inv [OF Cons.prems(1) this]
  show ?case
    unfolding hfold.simps by (rule safe_bind [OF u], rule Cons.IH) (use Cons.prems in auto)
qed simp

lemma readonly_down:
  "dls_inv reading writing {} dls \<Longrightarrow> \<not> dls_registered dls \<Longrightarrow> dls_listen_entries dls = [] \<Longrightarrow> dls_readonly_conns dls = cs \<Longrightarrow>
   safe (\<lambda>dls'. dls_inv reading writing {} dls' \<and> \<not> dls_registered dls' \<and> dls_listen_entries dls' = [] \<and> dls_readonly_conns dls' = [])
     (hfold (conn_kill ops) cs dls)"
proof (induction cs arbitrary: dls)
  case (Cons c cs)
  then obtain k where k: "dls_conns dls c = Some k" "cn_dle k = None"
    unfolding dls_inv_def dls_links_def by (metis list.set_intros(1))
  note u = conn_kill_inv [OF Cons.prems(1) k(1)]
  show ?case
    unfolding hfold.simps by (rule safe_bind [OF u], rule Cons.IH) (use Cons.prems k(2) in auto)
qed simp

lemma socket_unregister_inv:
  assumes "dls_inv reading writing {} dls" "dls_registered dls"
  shows "safe (\<lambda>dls'. open_fds (dls_calls dls') = {} \<and> (\<forall>c. dls_conns dls' c = None) \<and> dls_listen_entries dls' = [] \<and>
    dls_readonly_conns dls' = []) (dgp_listen_socket_unregister ops dls)"
proof -
  have L: "dls_links reading writing dls" and F: "dls_fds {} dls" using assms(1) by (auto simp: dls_inv_def)
  let ?dls = "dls_sys (Sys_close (dls_listen_fd dls)) (dls\<lparr>dls_registered := False\<rparr>)"
  have "conn_linked (dls\<lparr>dls_registered := False\<rparr>) c k = conn_linked dls c k" for c k
    by (simp add: conn_linked_def split: option.split)
  then have "dls_links reading writing ?dls" using L by (simp add: dls_links_def)
  moreover have "dls_fds {} ?dls"
    by (rule fds_change [OF F, of _ "{}"]) (use dls_fdsD [OF F] assms(2) in \<open>auto simp: listen_fds_def\<close>)
  ultimately have inv: "dls_inv reading writing {} ?dls" by (simp add: dls_inv_def)
  have gone: "open_fds (dls_calls dls') = {} \<and> (\<forall>c. dls_conns dls' c = None)"
    if "dls_inv reading writing {} dls'" "\<not> dls_registered dls'" "dls_listen_entries dls' = []" "dls_readonly_conns dls' = []" for dls'
  proof -
    have none: "dls_conns dls' c = None" for c
    proof (rule ccontr)
      assume "dls_conns dls' c \<noteq> None"
      then obtain k where "dls_conns dls' c = Some k" by auto
      then have "conn_linked dls' c k" using that(1) unfolding dls_inv_def dls_links_def by blast
      then show False using that(3,4) by (auto simp: conn_linked_def split: option.splits)
    qed
    have "dls_fds {} dls'" using that(1) by (simp add: dls_inv_def)
    with none dls_fdsD(3) [OF this] that(2) show ?thesis by (simp add: conn_fds_def listen_fds_def)
  qed
  have "dgp_listen_socket_unregister ops dls = hbind (hfold (dgp_listen_entry_unregister ops) (dls_listen_entries ?dls) ?dls)
      (\<lambda>dls. hfold (conn_kill ops) (dls_readonly_conns dls) dls)"
    using assms(2) by (simp add: dgp_listen_socket_unregister_def Let_def)
  moreover have "safe (\<lambda>dls'. dls_inv reading writing {} dls' \<and> \<not> dls_registered dls' \<and> dls_listen_entries dls' = [])
      (hfold (dgp_listen_entry_unregister ops) (dls_listen_entries ?dls) ?dls)"
    by (rule entries_down [OF inv]) simp_all
  moreover have "safe (\<lambda>dls'. open_fds (dls_calls dls') = {} \<and> (\<forall>c. dls_conns dls' c = None) \<and> dls_listen_entries dls' = [] \<and>
      dls_readonly_conns dls' = []) (hfold (conn_kill ops) (dls_readonly_conns dls1) dls1)"
    if "dls_inv reading writing {} dls1 \<and> \<not> dls_registered dls1 \<and> dls_listen_entries dls1 = []" for dls1
    by (rule safe_mono [OF readonly_down]) (use that gone in auto)
  ultimately show ?thesis by (auto intro: safe_bind)
qed

text \<open>The listening socket is opened.\<close>

lemma socket_register_inv:
  assumes "dls_fresh dls0" and "dgp_listen_socket_register env dls0 = (ret, dls)"
  shows "if ret = 0 then dls_inv reading writing {} dls \<and> dls_registered dls else open_fds (dls_calls dls) = {}"
proof (cases "0 \<le> le_socket env \<and> le_reuseaddr env \<and> le_freebind env \<and> le_bind env \<and> le_listen env")
  case True
  with assms show ?thesis
    by (auto simp: dgp_listen_socket_register_def dls_fresh_def dls_inv_def dls_links_def dls_fds_def conn_fds_def
        listen_fds_def dls_sys_def Let_def)
next
  case False
  with assms show ?thesis
    by (auto simp: dgp_listen_socket_register_def dls_fresh_def dls_sys_def Let_def split: if_splits)
qed

text \<open>An entry that is not in the list may be anything.\<close>

lemma set_entry_inv:
  assumes "dls_inv reading writing X dls" "d \<notin> set (dls_listen_entries dls)"
  shows "dls_inv reading writing X (dls\<lparr>dls_dles := (dls_dles dls)(d \<mapsto> e)\<rparr>)" (is "dls_inv _ _ _ ?d")
proof -
  have L: "dls_links reading writing dls" and F: "dls_fds X dls" using assms(1) by (auto simp: dls_inv_def)
  note L' = L [unfolded dls_links_def]
  have "conn_linked ?d c k" if "conn_linked dls c k" for c k
    using that assms(2) by (auto simp: conn_linked_def split: option.splits)
  moreover have "\<forall>d' \<in> set (dls_listen_entries dls). dls_dles ?d d' = dls_dles dls d'" using assms(2) by auto
  ultimately have "dls_links reading writing ?d" using L' unfolding dls_links_def by simp
  moreover have "dls_fds X ?d" by (rule fds_same [OF F]) (simp_all add: listen_fds_def)
  ultimately show ?thesis by (simp add: dls_inv_def)
qed

lemma listen_event_inv:
  assumes "init_idle reading writing init" "dls_inv reading writing {} dls" "dls_enabled ev dls"
  shows "safe (dls_inv reading writing {}) (dls_run ops init ev dls)"
proof (cases ev)
  case (Accept acc malloc)
  have "safe (\<lambda>dls'. dls_inv reading writing {} dls' \<and> (\<forall>a. acc = Some a \<longrightarrow> accept_ok a malloc dls dls'))
      (got_connection ops init acc malloc dls)"
    by (rule got_connection_inv [OF assms(1,2)]) (use Accept assms(3) in auto)
  then show ?thesis unfolding Accept dls_run.simps by (rule safe_mono) simp
next
  case (Conn_readable c r)
  with assms read_inv show ?thesis by auto
next
  case (Conn_error c)
  with assms(3) obtain k where "dls_conns dls c = Some k" by auto
  from conn_kill_inv [OF assms(2) this] have "safe (dls_inv reading writing {}) (conn_kill ops c dls)" by (rule safe_mono) simp
  with Conn_error show ?thesis by (simp add: dls_dr_dw_io_error_def)
next
  case (Entry_register d e)
  let ?d = "dls\<lparr>dls_dles := (dls_dles dls)(d \<mapsto> e)\<rparr>"
  have "safe (dls_inv reading writing {}) (dgp_listen_entry_register d ?d)"
    by (rule entry_register_inv [where e = e]) (use Entry_register assms(2,3) set_entry_inv in auto)
  with Entry_register show ?thesis by simp
next
  case (Entry_unregister d)
  with assms(3) have "d \<in> set (dls_listen_entries dls)" by simp
  from entry_unregister_inv [OF assms(2) this] have "safe (dls_inv reading writing {}) (dgp_listen_entry_unregister ops d dls)"
    by (rule safe_mono) simp
  with Entry_unregister show ?thesis by simp
next
  case (Entry_reset d)
  with assms entry_reset_inv show ?thesis by simp
qed

lemma listen_reach_inv:
  assumes "init_idle reading writing init" "dls_fresh dls0"
  shows "dls_reach ops reading writing init dls0 dls \<Longrightarrow> dls_inv reading writing {} dls \<and> dls_registered dls"
proof (induction rule: dls_reach.induct)
  case (start env dls)
  from socket_register_inv [OF assms(2) start] show ?case by simp
next
  case (event dls ev dls')
  then show ?case using safe_Inr [OF listen_event_inv [OF assms(1)]] run_registered by metis
next
  case (session dls c k s)
  then show ?case using set_session_inv by auto
qed

end


section \<open>The properties\<close>

text \<open>
  The ids that \<^verbatim>\<open>got_connection\<close> gives to the reader and the writer of a connection, in a session
  that is not registered.  All connections of the program use one local base; here the session of
  each has its own copy, and the rule \<open>session\<close> of \<open>dls_reach\<close> covers whatever the others do to it.
\<close>

definition se_accept :: "session \<Rightarrow> bytes \<Rightarrow> bytes option \<Rightarrow> session" where
  "se_accept s myid remoteid =
     s\<lparr>se_dr := (se_dr s)\<lparr>dr_myid := Some myid, dr_remoteid := remoteid\<rparr>,
       se_dw := (se_dw s)\<lparr>dw_myid := Some myid, dw_remoteid := remoteid\<rparr>\<rparr>"

lemma se_accept_idle: "\<not> se_reading s \<Longrightarrow> \<not> se_writing s \<Longrightarrow> init_idle se_reading se_writing (se_accept s)"
  by (simp add: init_idle_def se_accept_def se_reading_def se_writing_def)

text \<open>C38: in every state that a listening socket reaches, each connection is registered and belongs to
  the entry that points to it or is in the list of read-only ones, and the open descriptors are exactly
  the listening one and one for each connection; no event misuses the event loop or a
  pointer; closing the socket ends all connections and closes all descriptors; and when
  opening it fails, nothing stays open.\<close>

theorem dgp_listen_safe:
  assumes "\<not> se_reading s" "\<not> se_writing s" "dls_fresh dls0"
    and "dls_reach (se_ops env) se_reading se_writing (se_accept s) dls0 dls"
  shows "dls_inv se_reading se_writing {} dls \<and>
    (\<forall>ev. dls_enabled ev dls \<longrightarrow> safe (dls_inv se_reading se_writing {}) (dls_run (se_ops env) (se_accept s) ev dls)) \<and>
    safe (\<lambda>dls'. open_fds (dls_calls dls') = {} \<and> (\<forall>c. dls_conns dls' c = None) \<and> dls_listen_entries dls' = [] \<and>
      dls_readonly_conns dls' = []) (dgp_listen_socket_unregister (se_ops env) dls) \<and>
    (\<forall>lenv ret dls1. dgp_listen_socket_register lenv dls0 = (ret, dls1) \<longrightarrow> ret \<noteq> 0 \<longrightarrow> open_fds (dls_calls dls1) = {})"
proof -
  note idle = se_accept_idle [OF assms(1,2)]
  have inv: "dls_inv se_reading se_writing {} dls" "dls_registered dls"
    using se.listen_reach_inv [OF idle assms(3,4)] by simp_all
  have "open_fds (dls_calls dls1) = {}" if "dgp_listen_socket_register lenv dls0 = (ret, dls1)" "ret \<noteq> 0" for lenv ret dls1
    using se.socket_register_inv [OF assms(3) that(1)] that(2) by simp
  with inv(1) se.listen_event_inv [OF idle inv(1)] se.socket_unregister_inv [OF inv] show ?thesis by blast
qed

text \<open>Who gets a connection.  Accepting one adds at most one connection, for an IPv6 client: as
  that of a peer only if it comes from port 173 of the link-local address of this peer, as a
  read-only one only if it comes from no peer and these are permitted; no connection goes but that
  of the same peer.  And a peer does get its connection, in place of the one it had, when its
  reader and writer start.\<close>

theorem dgp_listen_admission:
  assumes "\<not> se_reading s" "\<not> se_writing s" "dls_inv se_reading se_writing {} dls" "ac_fd a \<notin> open_fds (dls_calls dls)"
    and "\<And>c. malloc = Some c \<Longrightarrow> dls_conns dls c = None"
  shows "safe (accept_ok a malloc dls) (got_connection (se_ops env) (se_accept s) (Some a) malloc dls) \<and>
    (\<forall>c d e s1 s2. malloc = Some c \<and> ac_inet6 a \<and> from_peer a dls d \<and> (\<forall>d'. from_peer a dls d' \<longrightarrow> d' = d) \<and>
      dls_dles dls d = Some e \<and>
      ss_reader_register (se_ops env) (se_accept s (dls_myid dls) (Some (dle_remoteid e))) = Inr s1 \<and>
      ss_writer_register (se_ops env) s1 = Inr (False, s2) \<longrightarrow>
      safe (admitted a d e c s2 dls) (got_connection (se_ops env) (se_accept s) (Some a) malloc dls))"
proof -
  have "safe (\<lambda>dls'. dls_inv se_reading se_writing {} dls' \<and> (\<forall>a'. Some a = Some a' \<longrightarrow> accept_ok a' malloc dls dls'))
      (got_connection (se_ops env) (se_accept s) (Some a) malloc dls)"
    by (rule se.got_connection_inv [OF se_accept_idle [OF assms(1,2)] assms(3)]) (use assms(4,5) in auto)
  then have "safe (accept_ok a malloc dls) (got_connection (se_ops env) (se_accept s) (Some a) malloc dls)"
    by (rule safe_mono) simp
  with se.peer_admitted [OF assms(3,4)] assms(5) show ?thesis by blast
qed

section \<open>Samples\<close>

definition sample_listen0 :: "session dgp_listen_socket" where
  "sample_listen0 = \<lparr>dls_myid = replicate 32 3, dls_ifindex = 4, dls_permit_readonly = False, dls_listen_fd = 0,
     dls_registered = False, dls_listen_entries = [], dls_readonly_conns = [], dls_dles = Map.empty, dls_conns = Map.empty,
     dls_calls = []\<rparr>"

definition sample_entry :: dgp_listen_entry where
  "sample_entry = \<lparr>dle_remoteid = replicate 32 9, dle_current = None\<rparr>"

definition sample_listen :: "session dgp_listen_socket" where
  "sample_listen = sample_listen0\<lparr>dls_listen_fd := 5, dls_registered := True, dls_listen_entries := [0],
     dls_dles := [0 \<mapsto> sample_entry], dls_calls := [Sys_socket 5, Sys_bind 5 (dc_address 4 (replicate 32 3))]\<rparr>"

definition sample_accepted :: accepted where
  "sample_accepted = \<lparr>ac_fd = 6, ac_inet6 = True,
     ac_peer = \<lparr>sin6_port = 173, sin6_addr = v6_linklocal_addr_from_key_id (replicate 32 9), sin6_scope_id = 4\<rparr>\<rparr>"

lemma sample_listen_reach: "dls_reach (se_ops env) se_reading se_writing (se_accept sample_session) sample_listen0 sample_listen"
proof (rule dls_reach.event)
  let ?dls = "sample_listen0\<lparr>dls_listen_fd := 5, dls_registered := True, dls_calls := dls_calls sample_listen\<rparr>"
  show "dls_reach (se_ops env) se_reading se_writing (se_accept sample_session) sample_listen0 ?dls"
    by (rule dls_reach.start [of "\<lparr>le_socket = 5, le_reuseaddr = True, le_freebind = True, le_bind = True, le_listen = True\<rparr>"])
      (simp add: dgp_listen_socket_register_def sample_listen0_def sample_listen_def dls_sys_def)
  show "dls_enabled (Entry_register 0 sample_entry) ?dls"
    by (simp add: sample_listen0_def)
  show "dls_run (se_ops env) (se_accept sample_session) (Entry_register 0 sample_entry) ?dls = Inr sample_listen"
    by (simp add: dgp_listen_entry_register_def set_current_def sample_listen_def sample_listen0_def sample_entry_def Let_def)
qed

lemma sample_idle: "\<not> se_reading sample_session" "\<not> se_writing sample_session"
  by (simp_all add: se_reading_def se_writing_def sample_session_def)

theorem dgp_listen_safe_witness:
  "dls_inv se_reading se_writing {} sample_listen"
  using dgp_listen_safe [OF sample_idle _ sample_listen_reach [of sample_senv]]
  by (simp add: dls_fresh_def sample_listen0_def)

lemma sample_listen_inv: "dls_inv se_reading se_writing {} sample_listen"
  using se.listen_reach_inv [OF se_accept_idle [OF sample_idle] _ sample_listen_reach [of sample_senv]]
  by (simp add: dls_fresh_def sample_listen0_def)

theorem dgp_listen_admission_witness:
  "\<exists>s. safe (admitted sample_accepted 0 sample_entry 1 s sample_listen)
     (got_connection (se_ops sample_senv) (se_accept sample_session) (Some sample_accepted) (Some 1) sample_listen)"
proof -
  let ?s = "se_accept sample_session (dls_myid sample_listen) (Some (dle_remoteid sample_entry))"
  obtain s1 where s1: "ss_reader_register (se_ops sample_senv) ?s = Inr s1"
      "s1 = ?s\<lparr>se_dr := dgp_reader_register 0 \<lparr>tv_sec = 100, tv_nsec = 0\<rparr> (se_dr ?s)\<rparr>"
    by (simp add: se_ops_def se_reader_register_def se_accept_def sample_session_def sample_senv_def)
  obtain s2 where s2: "ss_writer_register (se_ops sample_senv) s1 = Inr (False, s2)"
    by (simp add: s1(2) se_ops_def se_writer_register_def se_accept_def sample_session_def sample_senv_def
        dgp_writer_register_def dgp_writer_rib_dump_def dgp_writer_send_keepalive_def loc_rib_listener_register_def Let_def)
  have peer: "from_peer sample_accepted sample_listen d \<longleftrightarrow> d = 0" for d
    by (auto simp: from_peer_def sample_accepted_def sample_listen_def sample_entry_def)
  have "safe (admitted sample_accepted 0 sample_entry 1 s2 sample_listen)
     (got_connection (se_ops sample_senv) (se_accept sample_session) (Some sample_accepted) (Some 1) sample_listen)"
  proof (rule dgp_listen_admission [OF sample_idle sample_listen_inv, THEN conjunct2, rule_format])
    show "ac_fd sample_accepted \<notin> open_fds (dls_calls sample_listen)"
      by (simp add: sample_accepted_def sample_listen_def open_fds_def)
    show "dls_conns sample_listen c = None" for c by (simp add: sample_listen_def sample_listen0_def)
    have "ac_inet6 sample_accepted" "dls_dles sample_listen 0 = Some sample_entry"
      by (simp_all add: sample_accepted_def sample_listen_def)
    with s1(1) s2 peer show "Some 1 = Some 1 \<and> ac_inet6 sample_accepted \<and> from_peer sample_accepted sample_listen 0 \<and>
      (\<forall>d'. from_peer sample_accepted sample_listen d' \<longrightarrow> d' = 0) \<and> dls_dles sample_listen 0 = Some sample_entry \<and>
      ss_reader_register (se_ops sample_senv) ?s = Inr s1 \<and> ss_writer_register (se_ops sample_senv) s1 = Inr (False, s2)"
      by simp
  qed
  then show ?thesis by blast
qed

end
