(* ===== verification/Tconn.thy ===== *)
theory Tconn
  imports Conf Event_Loop
begin

text \<open>
  \<^verbatim>\<open>src/tconn.c\<close>: a TLS session over a non-blocking socket.  The session is that of gnutls, which reads
  and writes through two callbacks; between them and the socket are two buffers, and whatever may
  be done next is kept in two handlers of the descriptor and two tasks of the event loop.  The
  function \<^verbatim>\<open>verify_state\<close>, called all over the code, stops the process when these do not fit the
  state.  This theory has the code, what is needed of gnutls and the system, and what a call of gnutls
  leaves in the buffers; the properties are in Tconn_Verify.
\<close>

section \<open>The code\<close>

datatype tconn_state = TLS_HANDSHAKE | TLS_RUNNING | TLS_TX_CONGESTION | TLS_DEAD

text \<open>
  \<open>tn_rx\<close> are the bytes of \<^verbatim>\<open>rx_buf\<close> from \<^verbatim>\<open>rx_start\<close> to \<^verbatim>\<open>rx_end\<close>, \<open>tn_tx\<close> the first \<^verbatim>\<open>tx_bytes\<close> of
  \<^verbatim>\<open>tx_buf\<close>; the handlers and tasks are there or not.  \<open>tn_open\<close>: the session and its
  credentials are allocated.  \<open>tn_user\<close> is the object of the user, which the check of key ids may
  change; \<open>tn_sent\<close> records all bytes the socket has taken.
\<close>

record ('s, 'u) tconn =
  tn_state :: tconn_state
  tn_sess :: 's
  tn_open :: bool
  tn_user :: 'u
  tn_io_error :: int
  tn_rx_task :: bool
  tn_rx :: bytes
  tn_rx_eof :: bool
  tn_tx_task :: bool
  tn_tx :: bytes
  tn_handler_in :: bool
  tn_handler_out :: bool
  tn_sent :: bytes

definition BUF_SIZE :: nat where "BUF_SIZE = 32768"
definition EAGAIN :: int where "EAGAIN = 11"
definition GNUTLS_E_AGAIN :: int where "GNUTLS_E_AGAIN = -28"
definition GNUTLS_E_REHANDSHAKE :: int where "GNUTLS_E_REHANDSHAKE = -37"

text \<open>
  The answers of \<^verbatim>\<open>recv\<close> and \<^verbatim>\<open>send\<close>, after those that \<^verbatim>\<open>EINTR\<close> repeats.  What \<^verbatim>\<open>send\<close> answers may
  depend on what has been sent and what is to be sent.
\<close>

datatype recv_result = Recv bytes | Recv_eof | Recv_errno int
datatype send_result = Sent nat | Send_errno int

type_synonym sender = "bytes \<Rightarrow> bytes \<Rightarrow> send_result"

text \<open>
  A call of gnutls: it returns (a value, the record that was read, the session), or it calls one of
  the callbacks and goes on with the answer.
\<close>

datatype pull_reply = Pulled bytes | Pull_eof | Pull_errno int
datatype push_reply = Pushed nat | Push_errno int

datatype 's gtls =
    Gret int bytes 's
  | Gpull nat "pull_reply \<Rightarrow> 's gtls"
  | Gpush bytes "push_reply \<Rightarrow> 's gtls"
  | Gverify "bytes list" "int \<Rightarrow> 's gtls"

text \<open>\<open>gt_direction\<close>: an interrupted call waits to write.\<close>

record 's gnutls =
  gt_handshake :: "'s \<Rightarrow> 's gtls"
  gt_recv :: "'s \<Rightarrow> 's gtls"
  gt_send :: "'s \<Rightarrow> bytes \<Rightarrow> 's gtls"
  gt_direction :: "'s \<Rightarrow> bool"
  gt_pending :: "'s \<Rightarrow> bool"

text \<open>
  What a certificate says: the id of its key and its distinguished name; \<open>tl_crt\<close> is \<open>None\<close> for
  bytes that are no certificate or have no usable key.  \<open>tl_malloc\<close>: the memory and the objects of gnutls
  that the check needs are allocated.  \<open>tl_nodelay\<close>: \<^verbatim>\<open>setsockopt\<close> works.  \<open>tl_verify\<close> is the callback
  of the user.
\<close>

record crt =
  crt_id :: bytes
  crt_dn :: "bytes option"

record 'u tls_env =
  tl_send :: sender
  tl_nodelay :: bool
  tl_malloc :: bool
  tl_crt :: "bytes \<Rightarrow> crt option"
  tl_verify :: "bytes \<Rightarrow> nat \<Rightarrow> 'u \<Rightarrow> int \<times> 'u"

subsection \<open>What the state asks for\<close>

definition verify_state_pollin :: "('s, 'u) tconn \<Rightarrow> bool" where
  "verify_state_pollin tc \<longleftrightarrow>
     \<not> (tn_state tc = TLS_DEAD \<or> tn_io_error tc \<noteq> 0) \<and> \<not> (tn_rx tc \<noteq> [] \<or> tn_rx_eof tc)"

definition verify_state_pollout :: "('s, 'u) tconn \<Rightarrow> bool" where
  "verify_state_pollout tc \<longleftrightarrow> \<not> (tn_state tc = TLS_DEAD \<or> tn_io_error tc \<noteq> 0) \<and> tn_tx tc \<noteq> []"

definition verify_state_rx_task :: "'s gnutls \<Rightarrow> ('s, 'u) tconn \<Rightarrow> bool" where
  "verify_state_rx_task gt tc \<longleftrightarrow>
     (tn_state tc = TLS_HANDSHAKE \<and> \<not> gt_direction gt (tn_sess tc) \<and>
        (tn_io_error tc \<noteq> 0 \<or> tn_rx tc \<noteq> [] \<or> tn_rx_eof tc)) \<or>
     ((tn_state tc = TLS_RUNNING \<or> tn_state tc = TLS_TX_CONGESTION) \<and>
        (gt_pending gt (tn_sess tc) \<or> tn_io_error tc \<noteq> 0 \<or> tn_rx tc \<noteq> [] \<or> tn_rx_eof tc))"

definition verify_state_tx_task :: "'s gnutls \<Rightarrow> ('s, 'u) tconn \<Rightarrow> bool" where
  "verify_state_tx_task gt tc \<longleftrightarrow>
     (tn_state tc = TLS_HANDSHAKE \<and> gt_direction gt (tn_sess tc) \<and> (tn_io_error tc \<noteq> 0 \<or> length (tn_tx tc) < BUF_SIZE)) \<or>
     (tn_state tc = TLS_TX_CONGESTION \<and> (tn_io_error tc \<noteq> 0 \<or> length (tn_tx tc) < BUF_SIZE))"

definition verify_state :: "'s gnutls \<Rightarrow> ('s, 'u) tconn \<Rightarrow> unit handled" where
  "verify_state gt tc =
     (if \<not> verify_state_pollin tc \<and> tn_handler_in tc then Inl (Called Abort)
      else if verify_state_pollin tc \<and> \<not> tn_handler_in tc then Inl (Called Abort)
      else if \<not> verify_state_pollout tc \<and> tn_handler_out tc then Inl (Called Abort)
      else if \<not> verify_state_rx_task gt tc \<and> tn_rx_task tc then Inl (Called Abort)
      else if verify_state_rx_task gt tc \<and> \<not> tn_rx_task tc then Inl (Called Abort)
      else if \<not> verify_state_tx_task gt tc \<and> tn_tx_task tc then Inl (Called Abort)
      else if verify_state_tx_task gt tc \<and> \<not> tn_tx_task tc then Inl (Called Abort)
      else Inr ())"

subsection \<open>Between the buffers and the socket\<close>

text \<open>ivykis stops the process when a task is registered twice.\<close>

definition rx_task_register :: "('s, 'u) tconn \<Rightarrow> ('s, 'u) tconn handled" where
  "rx_task_register tc = (if tn_rx_task tc then Inl Iv_fatal else Inr (tc\<lparr>tn_rx_task := True\<rparr>))"

definition tx_task_register :: "('s, 'u) tconn \<Rightarrow> ('s, 'u) tconn handled" where
  "tx_task_register tc = (if tn_tx_task tc then Inl Iv_fatal else Inr (tc\<lparr>tn_tx_task := True\<rparr>))"

definition got_io_error :: "'s gnutls \<Rightarrow> ('s, 'u) tconn \<Rightarrow> ('s, 'u) tconn handled" where
  "got_io_error gt tc =
     (let tc = tc\<lparr>tn_handler_in := False, tn_handler_out := False\<rparr>
      in hbind (if \<not> tn_rx_task tc \<and> ((tn_state tc = TLS_HANDSHAKE \<and> \<not> gt_direction gt (tn_sess tc)) \<or>
                   tn_state tc = TLS_RUNNING \<or> tn_state tc = TLS_TX_CONGESTION)
                then rx_task_register tc else Inr tc) (\<lambda>tc.
         if \<not> tn_tx_task tc \<and> ((tn_state tc = TLS_HANDSHAKE \<and> gt_direction gt (tn_sess tc)) \<or> tn_state tc = TLS_TX_CONGESTION)
         then tx_task_register tc else Inr tc))"

definition tconn_fd_handler_in :: "'s gnutls \<Rightarrow> recv_result \<Rightarrow> ('s, 'u) tconn \<Rightarrow> ('s, 'u) tconn handled" where
  "tconn_fd_handler_in gt r tc =
     hbind (verify_state gt tc) (\<lambda>_.
     if tn_rx tc \<noteq> [] then Inl (Called Abort)
     else case r of
       Recv bs \<Rightarrow>
         let tc = tc\<lparr>tn_handler_in := False\<rparr>
         in hbind (if (tn_state tc = TLS_HANDSHAKE \<and> \<not> gt_direction gt (tn_sess tc)) \<or> tn_state tc = TLS_RUNNING \<or>
                      tn_state tc = TLS_TX_CONGESTION
                   then rx_task_register tc else Inr tc) (\<lambda>tc.
            let tc = tc\<lparr>tn_rx := bs\<rparr> in hbind (verify_state gt tc) (\<lambda>_. Inr tc))
     | Recv_eof \<Rightarrow>
         hbind (got_io_error gt (tc\<lparr>tn_rx_eof := True\<rparr>)) (\<lambda>tc. hbind (verify_state gt tc) (\<lambda>_. Inr tc))
     | Recv_errno e \<Rightarrow>
         hbind (if e \<noteq> EAGAIN then got_io_error gt (tc\<lparr>tn_io_error := e\<rparr>) else Inr tc) (\<lambda>tc.
         hbind (verify_state gt tc) (\<lambda>_. Inr tc)))"

definition tconn_fd_handler_out :: "'s gnutls \<Rightarrow> sender \<Rightarrow> ('s, 'u) tconn \<Rightarrow> ('s, 'u) tconn handled" where
  "tconn_fd_handler_out gt sndr tc =
     hbind (verify_state gt tc) (\<lambda>_.
     case sndr (tn_sent tc) (tn_tx tc) of
       Send_errno e \<Rightarrow>
         hbind (if e \<noteq> EAGAIN then got_io_error gt (tc\<lparr>tn_io_error := e\<rparr>) else Inr tc) (\<lambda>tc.
         hbind (verify_state gt tc) (\<lambda>_. Inr tc))
     | Sent n \<Rightarrow>
         hbind (if length (tn_tx tc) = BUF_SIZE \<and>
                   ((tn_state tc = TLS_HANDSHAKE \<and> gt_direction gt (tn_sess tc)) \<or> tn_state tc = TLS_TX_CONGESTION)
                then tx_task_register tc else Inr tc) (\<lambda>tc.
         let tc = tc\<lparr>tn_tx := drop n (tn_tx tc), tn_sent := tn_sent tc @ take n (tn_tx tc)\<rparr>;
             tc = (if tn_tx tc = [] then tc\<lparr>tn_handler_out := False\<rparr> else tc)
         in hbind (verify_state gt tc) (\<lambda>_. Inr tc)))"

subsection \<open>Between gnutls and the buffers\<close>

definition tconn_gtls_pull_func :: "nat \<Rightarrow> ('s, 'u) tconn \<Rightarrow> pull_reply \<times> ('s, 'u) tconn" where
  "tconn_gtls_pull_func len tc =
     (if tn_io_error tc \<noteq> 0 then (Pull_errno (tn_io_error tc), tc)
      else if tn_rx tc \<noteq> [] then
        let tocopy = min (length (tn_rx tc)) len;
            bs = take tocopy (tn_rx tc);
            tc = tc\<lparr>tn_rx := drop tocopy (tn_rx tc)\<rparr>
        in (Pulled bs, if tn_rx tc = [] then tc\<lparr>tn_handler_in := True\<rparr> else tc)
      else if tn_rx_eof tc then (Pull_eof, tc)
      else (Pull_errno EAGAIN, tc))"

function push_again :: "sender \<Rightarrow> bytes \<Rightarrow> nat \<Rightarrow> ('s, 'u) tconn \<Rightarrow> push_reply \<times> ('s, 'u) tconn" where
  "push_again sndr buf copied tc =
     (let tocopy = min (BUF_SIZE - length (tn_tx tc)) (length buf);
          tx = tn_tx tc @ take tocopy buf;
          tc = tc\<lparr>tn_tx := tx\<rparr>;
          copied = copied + tocopy;
          buf = drop tocopy buf
      in if \<not> tn_handler_out tc \<and> length tx = BUF_SIZE then
           (case sndr (tn_sent tc) tx of
              Send_errno e \<Rightarrow>
                if e \<noteq> EAGAIN then (Push_errno e, tc\<lparr>tn_io_error := e\<rparr>)
                else (Pushed copied, tc\<lparr>tn_handler_out := True\<rparr>)
            | Sent n \<Rightarrow>
                let tc' = tc\<lparr>tn_tx := drop n tx, tn_sent := tn_sent tc @ take n tx\<rparr>;
                    tc' = (if drop n tx \<noteq> [] then tc'\<lparr>tn_handler_out := True\<rparr> else tc')
                in if buf \<noteq> [] \<and> length (drop n tx) < BUF_SIZE then push_again sndr buf copied tc' else (Pushed copied, tc'))
         else (Pushed copied, tc))"
  by auto

termination
  by (relation "measure (\<lambda>(sndr, buf, copied, tc). 2 * length buf + (if length (tn_tx tc) \<ge> BUF_SIZE then 1 else 0))")
    (auto simp: min_def)

declare push_again.simps [simp del]

definition tconn_gtls_push_func :: "sender \<Rightarrow> bytes \<Rightarrow> ('s, 'u) tconn \<Rightarrow> push_reply \<times> ('s, 'u) tconn" where
  "tconn_gtls_push_func sndr buf tc =
     (if tn_io_error tc \<noteq> 0 then (Push_errno (tn_io_error tc), tc)
      else if length (tn_tx tc) = BUF_SIZE then (Push_errno EAGAIN, tc)
      else push_again sndr buf 0 tc)"

definition tconn_tx_flush :: "sender \<Rightarrow> ('s, 'u) tconn \<Rightarrow> int \<times> ('s, 'u) tconn" where
  "tconn_tx_flush sndr tc =
     (if tn_io_error tc \<noteq> 0 then (1, tc)
      else if tn_handler_out tc \<or> tn_tx tc = [] then (0, tc)
      else case sndr (tn_sent tc) (tn_tx tc) of
        Send_errno e \<Rightarrow> if e = EAGAIN then (0, tc\<lparr>tn_handler_out := True\<rparr>) else (1, tc\<lparr>tn_io_error := e\<rparr>)
      | Sent n \<Rightarrow>
          let tc = tc\<lparr>tn_tx := drop n (tn_tx tc), tn_sent := tn_sent tc @ take n (tn_tx tc)\<rparr>
          in (0, if tn_tx tc \<noteq> [] then tc\<lparr>tn_handler_out := True\<rparr> else tc))"

subsection \<open>Certificates\<close>

text \<open>\<^verbatim>\<open>sprintf\<close> with \<open>%.2x\<close> for every byte, after \<^verbatim>\<open>CN=\<close>.\<close>

definition expected_dn :: "bytes \<Rightarrow> bytes" where
  "expected_dn nodeid = cstr ''CN='' @ concat (map (\<lambda>b. [hex_digit (unat b div 16), hex_digit (unat b mod 16)]) nodeid)"

definition cert_refers_to_nodeid :: "crt \<Rightarrow> bytes \<Rightarrow> bool" where
  "cert_refers_to_nodeid c nodeid = (case crt_dn c of None \<Rightarrow> False | Some dn \<Rightarrow> strcmp (expected_dn nodeid) dn = 0)"

fun verify_certs :: "(bytes \<Rightarrow> crt option) \<Rightarrow> nat \<Rightarrow> bytes list \<Rightarrow> bytes \<Rightarrow> bytes option" where
  "verify_certs imp i [] nodeids = Some nodeids"
| "verify_certs imp i (der # ders) nodeids =
     (case imp der of
        None \<Rightarrow> None
      | Some c \<Rightarrow> verify_certs imp (i + 1) ders
          (if i = 0 \<or> cert_refers_to_nodeid c (take NODE_ID_LEN nodeids) then nodeids @ crt_id c else nodeids))"

definition tconn_verify_cert :: "'u tls_env \<Rightarrow> bytes list \<Rightarrow> 'u \<Rightarrow> int \<times> 'u" where
  "tconn_verify_cert env certs u =
     (if length certs < 1 then (1, u)
      else if \<not> tl_malloc env then (1, u)
      else case verify_certs (tl_crt env) 0 certs [] of
        None \<Rightarrow> (1, u)
      | Some nodeids \<Rightarrow> tl_verify env nodeids (length nodeids div NODE_ID_LEN) u)"

subsection \<open>Calls of gnutls\<close>

primrec run_gtls :: "'u tls_env \<Rightarrow> 's gtls \<Rightarrow> ('s, 'u) tconn \<Rightarrow> int \<times> bytes \<times> ('s, 'u) tconn" where
  "run_gtls env (Gret ret rec s) = (\<lambda>tc. (ret, rec, tc\<lparr>tn_sess := s\<rparr>))"
| "run_gtls env (Gpull len k) = (\<lambda>tc. let (reply, tc) = tconn_gtls_pull_func len tc in run_gtls env (k reply) tc)"
| "run_gtls env (Gpush buf k) = (\<lambda>tc. let (reply, tc) = tconn_gtls_push_func (tl_send env) buf tc in run_gtls env (k reply) tc)"
| "run_gtls env (Gverify certs k) =
     (\<lambda>tc. let (ret, u) = tconn_verify_cert env certs (tn_user tc) in run_gtls env (k ret) (tc\<lparr>tn_user := u\<rparr>))"


text \<open>
  A call, and again when the buffer could not be flushed after it, to let gnutls see the error;
  \<^verbatim>\<open>done\<close> are the results after which the code flushes.
\<close>

definition gtls_call ::
  "'u tls_env \<Rightarrow> (int \<Rightarrow> bool) \<Rightarrow> ('s \<Rightarrow> 's gtls) \<Rightarrow> ('s \<Rightarrow> 's gtls) \<Rightarrow> ('s, 'u) tconn \<Rightarrow> int \<times> ('s, 'u) tconn" where
  "gtls_call env done call again tc =
     (let (ret, _, tc) = run_gtls env (call (tn_sess tc)) tc
      in if done ret \<or> ret = GNUTLS_E_AGAIN
         then let (failed, tc) = tconn_tx_flush (tl_send env) tc
              in if failed \<noteq> 0 then let (ret, _, tc) = run_gtls env (again (tn_sess tc)) tc in (ret, tc) else (ret, tc)
         else (ret, tc))"

subsection \<open>The session\<close>

text \<open>A handler ends with at most one call of the user.\<close>

datatype tconn_note = Tn_handshake_done | Tn_record bytes | Tn_lost

definition tconn_connection_abort :: "bool \<Rightarrow> ('s, 'u) tconn \<Rightarrow> ('s, 'u) tconn \<times> tconn_note option" where
  "tconn_connection_abort notify_err tc =
     (tc\<lparr>tn_handler_in := False, tn_handler_out := False, tn_state := TLS_DEAD, tn_rx_task := False, tn_tx_task := False\<rparr>,
      if notify_err then Some Tn_lost else None)"

text \<open>The task that reads on, when there is something left.\<close>

definition rx_task_if_needed :: "'s gnutls \<Rightarrow> ('s, 'u) tconn \<Rightarrow> ('s, 'u) tconn handled" where
  "rx_task_if_needed gt tc =
     (if gt_pending gt (tn_sess tc) \<or> tn_rx tc \<noteq> [] \<or> tn_rx_eof tc then rx_task_register tc else Inr tc)"

definition tconn_do_handshake ::
  "'s gnutls \<Rightarrow> 'u tls_env \<Rightarrow> bool \<Rightarrow> ('s, 'u) tconn \<Rightarrow> (int \<times> ('s, 'u) tconn \<times> tconn_note option) handled" where
  "tconn_do_handshake gt env notify_err tc =
     (let (ret, tc) = gtls_call env (\<lambda>ret. ret = 0) (gt_handshake gt) (gt_handshake gt) tc
      in if ret \<noteq> 0 then
           if ret \<noteq> GNUTLS_E_AGAIN then let (tc, note) = tconn_connection_abort notify_err tc in Inr (-1, tc, note)
           else hbind (verify_state gt tc) (\<lambda>_. Inr (0, tc, None))
         else let tc = tc\<lparr>tn_state := TLS_RUNNING\<rparr>
         in hbind (rx_task_if_needed gt tc) (\<lambda>tc.
            hbind (verify_state gt tc) (\<lambda>_.
            if \<not> tl_nodelay env then Inl (Called Abort)
            else Inr (0, tc, Some Tn_handshake_done))))"

definition tconn_do_record_recv ::
  "'s gnutls \<Rightarrow> 'u tls_env \<Rightarrow> ('s, 'u) tconn \<Rightarrow> (('s, 'u) tconn \<times> tconn_note option) handled" where
  "tconn_do_record_recv gt env tc =
     (let (ret, buf, tc) = run_gtls env (gt_recv gt (tn_sess tc)) tc
      in if ret = GNUTLS_E_AGAIN then hbind (verify_state gt tc) (\<lambda>_. Inr (tc, None))
         else if ret < 0 \<and> ret \<noteq> GNUTLS_E_REHANDSHAKE \<or> ret = 0 then Inr (tconn_connection_abort True tc)
         else hbind (rx_task_if_needed gt tc) (\<lambda>tc.
              hbind (verify_state gt tc) (\<lambda>_.
              Inr (tc, if ret = GNUTLS_E_REHANDSHAKE then None else Some (Tn_record (take (nat ret) buf))))))"

definition tconn_do_record_send ::
  "'s gnutls \<Rightarrow> 'u tls_env \<Rightarrow> ('s, 'u) tconn \<Rightarrow> (('s, 'u) tconn \<times> tconn_note option) handled" where
  "tconn_do_record_send gt env tc =
     (let (ret, tc) = gtls_call env (\<lambda>ret. 0 < ret) (\<lambda>s. gt_send gt s []) (\<lambda>s. gt_send gt s []) tc
      in if ret = GNUTLS_E_AGAIN then hbind (verify_state gt tc) (\<lambda>_. Inr (tc, None))
         else if ret < 0 then Inr (tconn_connection_abort True tc)
         else if tn_state tc = TLS_TX_CONGESTION then
           let tc = tc\<lparr>tn_state := TLS_RUNNING\<rparr> in hbind (verify_state gt tc) (\<lambda>_. Inr (tc, None))
         else Inr (tconn_connection_abort True tc))"

definition tconn_rx_task_handler ::
  "'s gnutls \<Rightarrow> 'u tls_env \<Rightarrow> ('s, 'u) tconn \<Rightarrow> (('s, 'u) tconn \<times> tconn_note option) handled" where
  "tconn_rx_task_handler gt env tc =
     (if tn_state tc = TLS_HANDSHAKE \<and> \<not> gt_direction gt (tn_sess tc) \<and>
         (tn_io_error tc \<noteq> 0 \<or> tn_rx tc \<noteq> [] \<or> tn_rx_eof tc)
      then hbind (tconn_do_handshake gt env True tc) (\<lambda>(_, tc, note). Inr (tc, note))
      else if (tn_state tc = TLS_RUNNING \<or> tn_state tc = TLS_TX_CONGESTION) \<and>
         (gt_pending gt (tn_sess tc) \<or> tn_io_error tc \<noteq> 0 \<or> tn_rx tc \<noteq> [] \<or> tn_rx_eof tc)
      then tconn_do_record_recv gt env tc
      else Inl (Called Abort))"

definition tconn_tx_task_handler ::
  "'s gnutls \<Rightarrow> 'u tls_env \<Rightarrow> ('s, 'u) tconn \<Rightarrow> (('s, 'u) tconn \<times> tconn_note option) handled" where
  "tconn_tx_task_handler gt env tc =
     (if tn_state tc = TLS_HANDSHAKE \<and> gt_direction gt (tn_sess tc) \<and> (tn_io_error tc \<noteq> 0 \<or> length (tn_tx tc) < BUF_SIZE)
      then hbind (tconn_do_handshake gt env True tc) (\<lambda>(_, tc, note). Inr (tc, note))
      else if tn_state tc = TLS_TX_CONGESTION \<and> (tn_io_error tc \<noteq> 0 \<or> length (tn_tx tc) < BUF_SIZE)
      then tconn_do_record_send gt env tc
      else Inl (Called Abort))"

text \<open>
  The results of the calls of gnutls that make a session: \<open>ts_init\<close> is \<open>None\<close> when \<^verbatim>\<open>gnutls_init\<close>
  fails.
\<close>

record 's tls_start =
  ts_init :: "'s option"
  ts_priority :: int
  ts_allocate :: int
  ts_set_key :: int
  ts_set_credentials :: int

definition tconn_start_handshake ::
  "'s gnutls \<Rightarrow> 's tls_start \<Rightarrow> 'u tls_env \<Rightarrow> ('s, 'u) tconn \<Rightarrow> (int \<times> ('s, 'u) tconn \<times> tconn_note option) handled" where
  "tconn_start_handshake gt st env tc =
     (if ts_allocate st \<noteq> 0 then Inr (-1, tc, None)
      else if ts_set_key st \<noteq> 0 then Inr (-1, tc, None)
      else if ts_set_credentials st \<noteq> 0 then Inr (-1, tc, None)
      else hbind (tconn_do_handshake gt env False (tc\<lparr>tn_state := TLS_HANDSHAKE\<rparr>)) (\<lambda>(ret, tc, note).
           if ret \<noteq> 0 then Inr (-1, tc, note) else Inr (0, tc, note)))"

definition tconn_start ::
  "'s gnutls \<Rightarrow> 's tls_start \<Rightarrow> 'u tls_env \<Rightarrow> ('s, 'u) tconn \<Rightarrow> (int \<times> ('s, 'u) tconn \<times> tconn_note option) handled" where
  "tconn_start gt st env tc =
     (case ts_init st of
        None \<Rightarrow> Inr (-1, tc, None)
      | Some s \<Rightarrow>
          if ts_priority st \<noteq> 0 then Inr (-1, tc, None)
          else let tc = tc\<lparr>tn_sess := s, tn_handler_in := True, tn_handler_out := False, tn_io_error := 0,
                 tn_rx_task := False, tn_rx := [], tn_rx_eof := False, tn_tx_task := False, tn_tx := []\<rparr>
          in hbind (tconn_start_handshake gt st env tc) (\<lambda>(ret, tc, note).
             if ret \<noteq> 0 then Inr (-1, tc, note) else Inr (0, tc\<lparr>tn_open := True\<rparr>, note)))"

text \<open>
  A session that was never set up, or is released already: \<open>Dangling\<close> stands for whichever fault comes first
  (\<^verbatim>\<open>verify_state\<close> aborts when it finds no handler of the descriptor, else gnutls gets a session that
  is not there).
\<close>

definition tconn_destroy :: "'s gnutls \<Rightarrow> ('s, 'u) tconn \<Rightarrow> ('s, 'u) tconn handled" where
  "tconn_destroy gt tc =
     (if \<not> tn_open tc then Inl Dangling
      else hbind (verify_state gt tc) (\<lambda>_.
           Inr (tc\<lparr>tn_handler_in := False, tn_handler_out := False, tn_open := False, tn_rx_task := False, tn_tx_task := False\<rparr>)))"

definition tconn_record_send ::
  "'s gnutls \<Rightarrow> 'u tls_env \<Rightarrow> bytes \<Rightarrow> ('s, 'u) tconn \<Rightarrow> (int \<times> ('s, 'u) tconn) handled" where
  "tconn_record_send gt env r tc =
     hbind (verify_state gt tc) (\<lambda>_.
     if tn_state tc = TLS_TX_CONGESTION then Inr (0, tc)
     else if tn_state tc \<noteq> TLS_RUNNING then Inr (-1, tc)
     else let (ret, tc) = gtls_call env (\<lambda>ret. 0 < ret) (\<lambda>s. gt_send gt s r) (\<lambda>s. gt_send gt s []) tc
     in if ret < 0 \<and> ret \<noteq> GNUTLS_E_AGAIN then Inr (-1, fst (tconn_connection_abort False tc))
        else let tc = (if ret = GNUTLS_E_AGAIN then tc\<lparr>tn_state := TLS_TX_CONGESTION\<rparr> else tc)
        in hbind (verify_state gt tc) (\<lambda>_. Inr (0, tc)))"


section \<open>What is needed of gnutls and the system\<close>

text \<open>
  The documented behaviour of the calls, as a property of what they do.  A failure of the
  transport other than \<^verbatim>\<open>EAGAIN\<close>, or its end, makes the call fail; with \<^verbatim>\<open>EAGAIN\<close> it is interrupted, and only then:
  it returns \<^verbatim>\<open>GNUTLS_E_AGAIN\<close> and tells whether it waits to read or to write.  \<open>P\<close> holds of other
  results, \<open>A\<close> of interrupted ones.
\<close>

definition gt_fails :: "int \<Rightarrow> bool" where
  "gt_fails ret \<longleftrightarrow> ret < 0 \<and> ret \<noteq> GNUTLS_E_AGAIN \<and> ret \<noteq> GNUTLS_E_REHANDSHAKE"

definition returns_failure :: "'s gtls \<Rightarrow> bool" where
  "returns_failure t = (case t of Gret ret _ _ \<Rightarrow> gt_fails ret | _ \<Rightarrow> False)"

definition returns_again :: "(bool \<Rightarrow> 's \<Rightarrow> bool) \<Rightarrow> bool \<Rightarrow> 's gtls \<Rightarrow> bool" where
  "returns_again A writing t = (case t of Gret ret _ s \<Rightarrow> ret = GNUTLS_E_AGAIN \<and> A writing s | _ \<Rightarrow> False)"

primrec gt_behaves :: "(int \<Rightarrow> 's \<Rightarrow> bool) \<Rightarrow> (bool \<Rightarrow> 's \<Rightarrow> bool) \<Rightarrow> bool \<Rightarrow> bool \<Rightarrow> 's gtls \<Rightarrow> bool" where
  "gt_behaves P A reads writes (Gret ret rec s) \<longleftrightarrow> ret \<noteq> GNUTLS_E_AGAIN \<and> (gt_fails ret \<or> P ret s)"
| "gt_behaves P A reads writes (Gpull len k) \<longleftrightarrow> reads \<and> 0 < len \<and>
     (\<forall>bs. gt_behaves P A reads writes (k (Pulled bs))) \<and> returns_failure (k Pull_eof) \<and>
     (\<forall>e. if e = EAGAIN then returns_again A False (k (Pull_errno e)) else returns_failure (k (Pull_errno e)))"
| "gt_behaves P A reads writes (Gpush buf k) \<longleftrightarrow> writes \<and> buf \<noteq> [] \<and>
     (\<forall>n. gt_behaves P A reads writes (k (Pushed n))) \<and>
     (\<forall>e. if e = EAGAIN then returns_again A True (k (Push_errno e)) else returns_failure (k (Push_errno e)))"
| "gt_behaves P A reads writes (Gverify certs k) \<longleftrightarrow> (\<forall>ret. gt_behaves P A reads writes (k ret))"

text \<open>The call fails, or reads or writes.\<close>

primrec gt_transfers :: "'s gtls \<Rightarrow> bool" where
  "gt_transfers (Gret ret rec s) \<longleftrightarrow> gt_fails ret"
| "gt_transfers (Gpull len k) \<longleftrightarrow> True"
| "gt_transfers (Gpush buf k) \<longleftrightarrow> True"
| "gt_transfers (Gverify certs k) \<longleftrightarrow> (\<forall>ret. gt_transfers (k ret))"

definition gnutls_ok :: "'s gnutls \<Rightarrow> bool" where
  "gnutls_ok gt \<longleftrightarrow>
     (\<forall>s. gt_behaves (\<lambda>ret s'. ret = 0) (\<lambda>w s'. gt_direction gt s' = w) True True (gt_handshake gt s) \<and>
          gt_transfers (gt_handshake gt s)) \<and>
     (\<forall>s. gt_behaves (\<lambda>ret s'. True) (\<lambda>w s'. \<not> w \<and> \<not> gt_pending gt s') True False (gt_recv gt s) \<and>
          (gt_pending gt s \<or> gt_transfers (gt_recv gt s))) \<and>
     (\<forall>s r. gt_behaves (\<lambda>ret s'. 0 \<le> ret \<and> gt_pending gt s' = gt_pending gt s) (\<lambda>w s'. w \<and> gt_pending gt s' = gt_pending gt s) False True
            (gt_send gt s r) \<and> gt_transfers (gt_send gt s r))"

text \<open>\<^verbatim>\<open>send\<close> takes at least one byte and no more than there are, or fails.\<close>

definition sender_ok :: "sender \<Rightarrow> bool" where
  "sender_ok sndr \<longleftrightarrow> (\<forall>sent buf. buf \<noteq> [] \<longrightarrow>
     (case sndr sent buf of Sent n \<Rightarrow> 0 < n \<and> n \<le> length buf | Send_errno e \<Rightarrow> e \<noteq> 0))"


section \<open>What a call of gnutls leaves\<close>

text \<open>The buffers and handlers when there was no error.\<close>

definition io_ok :: "('s, 'u) tconn \<Rightarrow> bool" where
  "io_ok tc \<longleftrightarrow> tn_io_error tc = 0 \<and> length (tn_tx tc) \<le> BUF_SIZE \<and> (tn_rx_eof tc \<longrightarrow> tn_rx tc = []) \<and>
     (tn_handler_in tc \<longleftrightarrow> tn_rx tc = [] \<and> \<not> tn_rx_eof tc) \<and> (tn_handler_out tc \<longrightarrow> tn_tx tc \<noteq> []) \<and>
     (length (tn_tx tc) = BUF_SIZE \<longrightarrow> tn_handler_out tc)"

text \<open>What a call does not change, and what it leaves when it does not write, or not read.\<close>

definition io_frame :: "('s, 'u) tconn \<Rightarrow> ('s, 'u) tconn \<Rightarrow> bool" where
  "io_frame tc tc' \<longleftrightarrow> tn_state tc' = tn_state tc \<and> tn_open tc' = tn_open tc \<and> tn_rx_task tc' = tn_rx_task tc \<and>
     tn_tx_task tc' = tn_tx_task tc \<and> tn_rx_eof tc' = tn_rx_eof tc"

definition same_tx :: "('s, 'u) tconn \<Rightarrow> ('s, 'u) tconn \<Rightarrow> bool" where
  "same_tx tc tc' \<longleftrightarrow> tn_tx tc' = tn_tx tc \<and> tn_sent tc' = tn_sent tc \<and> tn_handler_out tc' = tn_handler_out tc \<and> tn_io_error tc' = tn_io_error tc"

definition same_rx :: "('s, 'u) tconn \<Rightarrow> ('s, 'u) tconn \<Rightarrow> bool" where
  "same_rx tc tc' \<longleftrightarrow> tn_rx tc' = tn_rx tc \<and> tn_handler_in tc' = tn_handler_in tc"

lemmas io_frame_defs = io_frame_def same_tx_def same_rx_def

lemma BUF_SIZE_pos [simp]: "0 < BUF_SIZE"
  by (simp add: BUF_SIZE_def)

lemma pull_result:
  assumes "io_ok tc" "0 < len" "tconn_gtls_pull_func len tc = (reply, tc')"
  shows "io_ok tc' \<and> io_frame tc tc' \<and> same_tx tc tc' \<and>
    (case reply of
       Pulled bs \<Rightarrow> tn_rx tc = bs @ tn_rx tc' \<and> bs \<noteq> []
     | Pull_eof \<Rightarrow> tc' = tc
     | Pull_errno e \<Rightarrow> e = EAGAIN \<and> tc' = tc \<and> tn_rx tc = [] \<and> \<not> tn_rx_eof tc)"
  using assms by (auto simp: tconn_gtls_pull_func_def io_ok_def io_frame_defs Let_def split: if_splits)

lemma push_again_eq:
  assumes "n = min (BUF_SIZE - length (tn_tx tc)) (length buf)" "tx = tn_tx tc @ take n buf"
  shows "push_again sndr buf copied tc =
    (if \<not> tn_handler_out tc \<and> length tx = BUF_SIZE then
       (case sndr (tn_sent tc) tx of
          Send_errno e \<Rightarrow>
            if e \<noteq> EAGAIN then (Push_errno e, tc\<lparr>tn_tx := tx, tn_io_error := e\<rparr>)
            else (Pushed (copied + n), tc\<lparr>tn_tx := tx, tn_handler_out := True\<rparr>)
        | Sent m \<Rightarrow>
            let tc' = tc\<lparr>tn_tx := drop m tx, tn_sent := tn_sent tc @ take m tx\<rparr>;
                tc' = (if drop m tx \<noteq> [] then tc'\<lparr>tn_handler_out := True\<rparr> else tc')
            in if drop n buf \<noteq> [] \<and> length (drop m tx) < BUF_SIZE then push_again sndr (drop n buf) (copied + n) tc'
               else (Pushed (copied + n), tc'))
     else (Pushed (copied + n), tc\<lparr>tn_tx := tx\<rparr>))"
  unfolding assms by (subst push_again.simps) (simp add: Let_def split: send_result.split)

lemma sender_okD:
  assumes "sender_ok sndr" "buf \<noteq> []"
  shows "sndr sent buf = Send_errno e \<Longrightarrow> e \<noteq> 0" "sndr sent buf = Sent n \<Longrightarrow> 0 < n" "sndr sent buf = Sent n \<Longrightarrow> n \<le> length buf"
  using spec [OF spec [OF assms(1) [unfolded sender_ok_def], of sent], of buf] assms(2) by auto

lemma push_again_result:
  assumes "sender_ok sndr"
  shows "io_ok tc \<Longrightarrow> length (tn_tx tc) < BUF_SIZE \<Longrightarrow> buf \<noteq> [] \<Longrightarrow> push_again sndr buf copied tc = (reply, tc') \<Longrightarrow>
    io_frame tc tc' \<and> same_rx tc tc' \<and>
    (case reply of
       Pushed n \<Rightarrow> io_ok tc' \<and> copied < n \<and> n - copied \<le> length buf \<and>
         tn_sent tc' @ tn_tx tc' = tn_sent tc @ tn_tx tc @ take (n - copied) buf
     | Push_errno e \<Rightarrow> e \<noteq> EAGAIN \<and> e \<noteq> 0 \<and> tn_io_error tc' = e)"
proof (induction "length buf" arbitrary: buf copied tc rule: less_induct)
  case (less buf copied tc)
  define n where n_def: "n = min (BUF_SIZE - length (tn_tx tc)) (length buf)"
  define tx where tx_def: "tx = tn_tx tc @ take n buf"
  note eq = push_again_eq [OF n_def tx_def, of sndr copied]
  have n: "0 < n" "n \<le> length buf" using less.prems(2,3) by (auto simp: n_def)
  have len: "length tx \<le> BUF_SIZE" "tx \<noteq> []" using less.prems(1-3) n by (auto simp: io_ok_def tx_def n_def)
  show ?case
  proof (cases "\<not> tn_handler_out tc \<and> length tx = BUF_SIZE")
    case False
    then have "push_again sndr buf copied tc = (Pushed (copied + n), tc\<lparr>tn_tx := tx\<rparr>)" unfolding eq by (rule if_not_P)
    then have res: "reply = Pushed (copied + n)" "tc' = tc\<lparr>tn_tx := tx\<rparr>" using less.prems(4) by simp_all
    have "io_ok (tc\<lparr>tn_tx := tx\<rparr>)" using less.prems(1) len False by (auto simp: io_ok_def)
    with n show ?thesis unfolding res by (simp add: io_frame_defs) (simp add: tx_def)
  next
    case True
    show ?thesis
    proof (cases "sndr (tn_sent tc) tx")
      case (Send_errno e)
      have "e \<noteq> 0" using sender_okD(1) [OF assms len(2) Send_errno] .
      have res: "(reply, tc') = (if e \<noteq> EAGAIN then (Push_errno e, tc\<lparr>tn_tx := tx, tn_io_error := e\<rparr>)
          else (Pushed (copied + n), tc\<lparr>tn_tx := tx, tn_handler_out := True\<rparr>))"
        using less.prems(4) True Send_errno unfolding eq by simp
      show ?thesis
      proof (cases "e = EAGAIN")
        case True
        with res less.prems(1) n len show ?thesis by (simp add: io_ok_def io_frame_defs) (simp add: tx_def)
      next
        case False
        with res \<open>e \<noteq> 0\<close> show ?thesis by (simp add: io_frame_defs)
      qed
    next
      case (Sent m)
      note m = sender_okD(2,3) [OF assms len(2) Sent]
      define tc1 where "tc1 = tc\<lparr>tn_tx := drop m tx, tn_sent := tn_sent tc @ take m tx\<rparr>"
      define tc2 where "tc2 = (if drop m tx \<noteq> [] then tc1\<lparr>tn_handler_out := True\<rparr> else tc1)"
      have short: "length (drop m tx) < BUF_SIZE" using m len True by simp
      have unfold: "push_again sndr buf copied tc =
          (if drop n buf \<noteq> [] then push_again sndr (drop n buf) (copied + n) tc2 else (Pushed (copied + n), tc2))"
        unfolding eq using True Sent short by (simp add: Let_def tc1_def tc2_def)
      have tx2: "tn_tx tc2 = drop m tx" by (simp add: tc2_def tc1_def)
      have ok2: "io_ok tc2" "tn_sent tc2 @ tn_tx tc2 = tn_sent tc @ tx" "io_frame tc tc2" "same_rx tc tc2"
        using less.prems(1) m len True short by (auto simp: io_ok_def io_frame_defs tc2_def tc1_def)
      show ?thesis
      proof (cases "drop n buf = []")
        case True
        then show ?thesis using unfold less.prems(4) ok2 n by (auto simp: tx_def)
      next
        case False
        have call: "push_again sndr (drop n buf) (copied + n) tc2 = (reply, tc')" using unfold less.prems(4) False by simp
        have "length (drop n buf) < length buf" using n by simp
        note IH = less.hyps [OF this ok2(1) _ False call, unfolded tx2, OF short]
        show ?thesis
        proof (cases reply)
          case (Pushed k)
          have k: "copied + n < k" "k - (copied + n) \<le> length buf - n" "tn_sent tc' @ tn_tx tc' = tn_sent tc @ tx @ take (k - (copied + n)) (drop n buf)"
            using IH Pushed ok2(2) by (auto simp: tx2)
          have "take (k - copied) buf = take n buf @ take (k - (copied + n)) (drop n buf)"
            using k(1) take_add [of n "k - (copied + n)" buf] by simp
          then show ?thesis using IH Pushed ok2(3,4) k n by (auto simp: io_frame_defs tx_def)
        next
          case (Push_errno e)
          then show ?thesis using IH ok2(3,4) by (auto simp: io_frame_defs)
        qed
      qed
    qed
  qed
qed

lemma push_result:
  assumes "sender_ok sndr" "io_ok tc" "buf \<noteq> []" "tconn_gtls_push_func sndr buf tc = (reply, tc')"
  shows "io_frame tc tc' \<and> same_rx tc tc' \<and>
    (case reply of
       Pushed n \<Rightarrow> io_ok tc' \<and> 0 < n \<and> n \<le> length buf \<and> tn_sent tc' @ tn_tx tc' = tn_sent tc @ tn_tx tc @ take n buf
     | Push_errno e \<Rightarrow> if e = EAGAIN then tc' = tc \<and> length (tn_tx tc) = BUF_SIZE else e \<noteq> 0 \<and> tn_io_error tc' = e)"
proof (cases "length (tn_tx tc) = BUF_SIZE")
  case True
  with assms show ?thesis by (auto simp: tconn_gtls_push_func_def io_ok_def io_frame_defs)
next
  case False
  with assms(2) have "length (tn_tx tc) < BUF_SIZE" by (simp add: io_ok_def)
  moreover have "push_again sndr buf 0 tc = (reply, tc')"
    using assms(2,4) False by (simp add: tconn_gtls_push_func_def io_ok_def)
  ultimately show ?thesis using push_again_result [OF assms(1,2) _ assms(3), of 0 reply tc'] by (auto split: push_reply.splits)
qed


text \<open>The bytes that gnutls has read, and those of its own that were taken, in the course of a call.\<close>

primrec gtls_log :: "'u tls_env \<Rightarrow> 's gtls \<Rightarrow> ('s, 'u) tconn \<Rightarrow> bytes \<times> bytes" where
  "gtls_log env (Gret ret rec s) = (\<lambda>tc. ([], []))"
| "gtls_log env (Gpull len k) =
     (\<lambda>tc. let (reply, tc) = tconn_gtls_pull_func len tc; (r, w) = gtls_log env (k reply) tc
           in ((case reply of Pulled bs \<Rightarrow> bs @ r | _ \<Rightarrow> r), w))"
| "gtls_log env (Gpush buf k) =
     (\<lambda>tc. let (reply, tc) = tconn_gtls_push_func (tl_send env) buf tc; (r, w) = gtls_log env (k reply) tc
           in (r, (case reply of Pushed n \<Rightarrow> take n buf @ w | _ \<Rightarrow> w)))"
| "gtls_log env (Gverify certs k) =
     (\<lambda>tc. let (ret, u) = tconn_verify_cert env certs (tn_user tc) in gtls_log env (k ret) (tc\<lparr>tn_user := u\<rparr>))"

definition call_left ::
  "(int \<Rightarrow> 's \<Rightarrow> bool) \<Rightarrow> (bool \<Rightarrow> 's \<Rightarrow> bool) \<Rightarrow> int \<Rightarrow> bytes \<times> bytes \<Rightarrow> ('s, 'u) tconn \<Rightarrow> ('s, 'u) tconn \<Rightarrow> bool" where
  "call_left P A ret log tc tc' \<longleftrightarrow> io_ok tc' \<and> tn_rx tc = fst log @ tn_rx tc' \<and> tn_sent tc' @ tn_tx tc' = tn_sent tc @ tn_tx tc @ snd log \<and>
     (if ret = GNUTLS_E_AGAIN
      then \<exists>w. A w (tn_sess tc') \<and> (if w then length (tn_tx tc') = BUF_SIZE else tn_rx tc' = [] \<and> \<not> tn_rx_eof tc')
      else P ret (tn_sess tc'))"

lemma io_frame_trans: "io_frame a b \<Longrightarrow> io_frame b c \<Longrightarrow> io_frame a c"
  by (simp add: io_frame_def)

lemma same_trans: "same_tx a b \<Longrightarrow> same_tx b c \<Longrightarrow> same_tx a c" "same_rx a b \<Longrightarrow> same_rx b c \<Longrightarrow> same_rx a c"
  by (simp_all add: same_tx_def same_rx_def)

lemma call_left_pull:
  "call_left P A ret log tc1 tc' \<Longrightarrow> tn_rx tc = bs @ tn_rx tc1 \<Longrightarrow> same_tx tc tc1 \<Longrightarrow> call_left P A ret (bs @ fst log, snd log) tc tc'"
  by (simp add: call_left_def same_tx_def)

lemma call_left_push:
  assumes "call_left P A ret log tc1 tc'" "tn_sent tc1 @ tn_tx tc1 = tn_sent tc @ tn_tx tc @ bs" "same_rx tc tc1"
  shows "call_left P A ret (fst log, bs @ snd log) tc tc'"
proof -
  have "tn_sent tc' @ tn_tx tc' = (tn_sent tc1 @ tn_tx tc1) @ snd log" using assms(1) by (simp add: call_left_def)
  then show ?thesis using assms by (simp add: call_left_def same_rx_def)
qed

lemma call_left_again:
  assumes "io_ok tc" "io_frame tc tc'" "same_tx tc tc'" "same_rx tc tc'" "A w (tn_sess tc')"
    "if w then length (tn_tx tc) = BUF_SIZE else tn_rx tc = [] \<and> \<not> tn_rx_eof tc"
  shows "call_left P A GNUTLS_E_AGAIN ([], []) tc tc'"
proof -
  have "io_ok tc'" using assms(1-4) by (simp add: io_ok_def io_frame_defs)
  moreover have "if w then length (tn_tx tc') = BUF_SIZE else tn_rx tc' = [] \<and> \<not> tn_rx_eof tc'"
    using assms(2-4,6) by (simp add: io_frame_defs)
  moreover have "tn_rx tc' = tn_rx tc" "tn_tx tc' = tn_tx tc" "tn_sent tc' = tn_sent tc" using assms(3,4) by (simp_all add: io_frame_defs)
  ultimately show ?thesis using assms(5) unfolding call_left_def by (metis append_Nil append_Nil2 fst_conv snd_conv)
qed

lemma returns_failureD: "returns_failure t \<Longrightarrow> run_gtls env t tc = (ret, buf, tc') \<Longrightarrow> gt_fails ret \<and> io_frame tc tc' \<and> same_tx tc tc' \<and> same_rx tc tc'"
  by (cases t) (auto simp: returns_failure_def io_frame_defs)

lemma returns_againD:
  "returns_again A w t \<Longrightarrow> run_gtls env t tc = (ret, buf, tc') \<Longrightarrow>
   ret = GNUTLS_E_AGAIN \<and> A w (tn_sess tc') \<and> io_frame tc tc' \<and> same_tx tc tc' \<and> same_rx tc tc' \<and> gtls_log env t tc = ([], [])"
  by (cases t) (auto simp: returns_again_def io_frame_defs)

lemma run_result:
  assumes "sender_ok (tl_send env)"
  shows "gt_behaves P A reads writes t \<Longrightarrow> io_ok tc \<Longrightarrow> run_gtls env t tc = (ret, buf, tc') \<Longrightarrow>
    io_frame tc tc' \<and> (\<not> reads \<longrightarrow> same_rx tc tc') \<and> (\<not> writes \<longrightarrow> same_tx tc tc') \<and>
    (gt_fails ret \<or> call_left P A ret (gtls_log env t tc) tc tc')"
proof (induction t arbitrary: tc)
  case (Gret r b s)
  then have res: "ret = r" "tc' = tc\<lparr>tn_sess := s\<rparr>" by auto
  have "io_ok tc'" using Gret.prems(2) unfolding res io_ok_def by simp
  then show ?case using Gret.prems(1) by (simp add: res io_frame_defs call_left_def)
next
  case (Gpull len k)
  obtain reply tc1 where p: "tconn_gtls_pull_func len tc = (reply, tc1)" by fastforce
  have len: "0 < len" "reads" using Gpull.prems(1) by simp_all
  note pr = pull_result [OF Gpull.prems(2) len(1) p]
  have run: "run_gtls env (k reply) tc1 = (ret, buf, tc')" using Gpull.prems(3) p by simp
  show ?case
  proof (cases reply)
    case (Pulled bs)
    have "gt_behaves P A reads writes (k reply)" using Gpull.prems(1) Pulled unfolding gt_behaves.simps by blast
    from Gpull.IH [OF _ this _ run] pr have "io_frame tc1 tc' \<and> (\<not> writes \<longrightarrow> same_tx tc1 tc') \<and>
        (gt_fails ret \<or> call_left P A ret (gtls_log env (k reply) tc1) tc1 tc')" by simp
    moreover have "io_frame tc tc1" "same_tx tc tc1" "tn_rx tc = bs @ tn_rx tc1" using pr Pulled by simp_all
    moreover have "gtls_log env (Gpull len k) tc = (bs @ fst (gtls_log env (k reply) tc1), snd (gtls_log env (k reply) tc1))"
      using p Pulled by (simp add: case_prod_beta)
    ultimately show ?thesis using len(2) io_frame_trans [of tc tc1 tc'] same_trans(1) [of tc tc1 tc'] call_left_pull [of P A ret _ tc1 tc' tc bs]
      by (elim conjE disjE) simp_all
  next
    case Pull_eof
    have "returns_failure (k reply)" using Gpull.prems(1) Pull_eof by simp
    from returns_failureD [OF this run] pr len(2) show ?thesis by (auto simp: io_frame_defs)
  next
    case (Pull_errno e)
    then have e: "e = EAGAIN" "tc1 = tc" "tn_rx tc = []" "\<not> tn_rx_eof tc" using pr by simp_all
    have "returns_again A False (k reply)" using Gpull.prems(1) Pull_errno e(1) by simp
    from returns_againD [OF this run] e have *: "ret = GNUTLS_E_AGAIN" "A False (tn_sess tc')" "io_frame tc tc'" "same_tx tc tc'" "same_rx tc tc'"
      "gtls_log env (k reply) tc = ([], [])" by simp_all
    moreover have "gtls_log env (Gpull len k) tc = ([], [])" using p Pull_errno *(6) e(2) by (simp add: case_prod_beta)
    moreover have "call_left P A GNUTLS_E_AGAIN ([], []) tc tc'"
      by (rule call_left_again [where w = False and A = A, OF Gpull.prems(2) *(3-5,2)]) (use e in simp)
    ultimately show ?thesis by simp
  qed
next
  case (Gpush b k)
  obtain reply tc1 where p: "tconn_gtls_push_func (tl_send env) b tc = (reply, tc1)" by fastforce
  have b: "b \<noteq> []" "writes" using Gpush.prems(1) by simp_all
  note pr = push_result [OF assms Gpush.prems(2) b(1) p]
  have run: "run_gtls env (k reply) tc1 = (ret, buf, tc')" using Gpush.prems(3) p by simp
  show ?case
  proof (cases reply)
    case (Pushed n)
    have "gt_behaves P A reads writes (k reply)" using Gpush.prems(1) Pushed unfolding gt_behaves.simps by blast
    from Gpush.IH [OF _ this _ run] pr Pushed have "io_frame tc1 tc' \<and> (\<not> reads \<longrightarrow> same_rx tc1 tc') \<and>
        (gt_fails ret \<or> call_left P A ret (gtls_log env (k reply) tc1) tc1 tc')" by simp
    moreover have "io_frame tc tc1" "same_rx tc tc1" "tn_sent tc1 @ tn_tx tc1 = tn_sent tc @ tn_tx tc @ take n b"
      using pr Pushed by simp_all
    moreover have "gtls_log env (Gpush b k) tc = (fst (gtls_log env (k reply) tc1), take n b @ snd (gtls_log env (k reply) tc1))"
      using p Pushed by (simp add: case_prod_beta)
    ultimately show ?thesis using b(2) io_frame_trans [of tc tc1 tc'] same_trans(2) [of tc tc1 tc'] call_left_push [of P A ret _ tc1 tc' tc "take n b"]
      by (elim conjE disjE) simp_all
  next
    case (Push_errno e)
    show ?thesis
    proof (cases "e = EAGAIN")
      case True
      then have e: "tc1 = tc" "length (tn_tx tc) = BUF_SIZE" using pr Push_errno by simp_all
      have "returns_again A True (k reply)" using Gpush.prems(1) Push_errno True by simp
      from returns_againD [OF this run] e have *: "ret = GNUTLS_E_AGAIN" "A True (tn_sess tc')" "io_frame tc tc'" "same_tx tc tc'" "same_rx tc tc'"
        "gtls_log env (k reply) tc = ([], [])" by simp_all
      moreover have "gtls_log env (Gpush b k) tc = ([], [])" using p Push_errno *(6) e(1) by (simp add: case_prod_beta)
      moreover have "call_left P A GNUTLS_E_AGAIN ([], []) tc tc'"
        by (rule call_left_again [where w = True and A = A, OF Gpush.prems(2) *(3-5,2)]) (use e in simp)
      ultimately show ?thesis by simp
    next
      case False
      have "returns_failure (k reply)" using Gpush.prems(1) Push_errno False by (auto split: if_splits)
      from returns_failureD [OF this run] pr b(2) show ?thesis by (auto simp: io_frame_defs)
    qed
  qed
next
  case (Gverify certs k)
  obtain r u where v: "tconn_verify_cert env certs (tn_user tc) = (r, u)" by fastforce
  let ?tc = "tc\<lparr>tn_user := u\<rparr>"
  have "run_gtls env (k r) ?tc = (ret, buf, tc')" using Gverify.prems(3) v by simp
  moreover have "gt_behaves P A reads writes (k r)" "io_ok ?tc" using Gverify.prems(1,2) by (simp_all add: io_ok_def)
  ultimately have "io_frame ?tc tc' \<and> (\<not> reads \<longrightarrow> same_rx ?tc tc') \<and> (\<not> writes \<longrightarrow> same_tx ?tc tc') \<and>
      (gt_fails ret \<or> call_left P A ret (gtls_log env (k r) ?tc) ?tc tc')" using Gverify.IH by blast
  then show ?case using v by (simp add: io_frame_defs call_left_def)
qed

text \<open>After an error of the transport a call fails.\<close>

lemma run_error:
  "gt_behaves P A reads writes t \<Longrightarrow> gt_transfers t \<Longrightarrow> tn_io_error tc \<noteq> 0 \<Longrightarrow> tn_io_error tc \<noteq> EAGAIN \<Longrightarrow>
   run_gtls env t tc = (ret, buf, tc') \<Longrightarrow> gt_fails ret \<and> io_frame tc tc'"
proof (induction t arbitrary: tc)
  case (Gverify certs k)
  obtain r u where v: "tconn_verify_cert env certs (tn_user tc) = (r, u)" by fastforce
  have "gt_fails ret \<and> io_frame (tc\<lparr>tn_user := u\<rparr>) tc'"
    by (rule Gverify.IH [of "k r"]) (use Gverify.prems v in auto)
  then show ?case by (simp add: io_frame_def)
next
  case (Gpull len k)
  then have "returns_failure (k (Pull_errno (tn_io_error tc)))" "run_gtls env (k (Pull_errno (tn_io_error tc))) tc = (ret, buf, tc')"
    by (auto simp: tconn_gtls_pull_func_def split: if_splits)
  then show ?case using returns_failureD by blast
next
  case (Gpush b k)
  then have "returns_failure (k (Push_errno (tn_io_error tc)))" "run_gtls env (k (Push_errno (tn_io_error tc))) tc = (ret, buf, tc')"
    by (auto simp: tconn_gtls_push_func_def split: if_splits)
  then show ?case using returns_failureD by blast
qed (auto simp: io_frame_def)


lemma flush_result:
  assumes "sender_ok sndr" "io_ok tc" "tconn_tx_flush sndr tc = (failed, tc')"
  shows "io_frame tc tc' \<and> same_rx tc tc' \<and> tn_sess tc' = tn_sess tc \<and>
    (if failed = 0 then io_ok tc' \<and> tn_sent tc' @ tn_tx tc' = tn_sent tc @ tn_tx tc \<and> (length (tn_tx tc) = BUF_SIZE \<longrightarrow> tn_tx tc' = tn_tx tc)
     else tn_io_error tc' \<noteq> 0 \<and> tn_io_error tc' \<noteq> EAGAIN)"
proof (cases "tn_handler_out tc \<or> tn_tx tc = []")
  case True
  then have "failed = 0" "tc' = tc" using assms(2,3) by (auto simp: tconn_tx_flush_def io_ok_def)
  then show ?thesis using assms(2) by (simp add: io_frame_defs)
next
  case False
  then have ne: "tn_tx tc \<noteq> []" "\<not> tn_handler_out tc" "length (tn_tx tc) < BUF_SIZE" "tn_io_error tc = 0" using assms(2) by (auto simp: io_ok_def)
  show ?thesis
  proof (cases "sndr (tn_sent tc) (tn_tx tc)")
    case (Send_errno e)
    have "e \<noteq> 0" by (rule sender_okD(1) [OF assms(1) ne(1) Send_errno])
    moreover have res: "(failed, tc') = (if e = EAGAIN then (0, tc\<lparr>tn_handler_out := True\<rparr>) else (1, tc\<lparr>tn_io_error := e\<rparr>))"
      using assms(3) Send_errno ne by (simp add: tconn_tx_flush_def)
    ultimately show ?thesis using assms(2) ne by (cases "e = EAGAIN") (auto simp: io_ok_def io_frame_defs)
  next
    case (Sent n)
    note n = sender_okD(2,3) [OF assms(1) ne(1) Sent]
    let ?tc = "tc\<lparr>tn_tx := drop n (tn_tx tc), tn_sent := tn_sent tc @ take n (tn_tx tc)\<rparr>"
    have res: "failed = 0" "tc' = (if drop n (tn_tx tc) \<noteq> [] then ?tc\<lparr>tn_handler_out := True\<rparr> else ?tc)"
      using assms(3) Sent ne by (auto simp: tconn_tx_flush_def Let_def)
    have "io_ok tc'" unfolding res using assms(2) n ne by (auto simp: io_ok_def)
    moreover have "tn_sent tc' @ tn_tx tc' = tn_sent tc @ tn_tx tc" "io_frame tc tc'" "same_rx tc tc'" "tn_sess tc' = tn_sess tc"
      unfolding res by (auto simp: io_frame_defs)
    ultimately show ?thesis using res(1) ne by simp
  qed
qed

lemma call_left_flush:
  assumes "call_left P A ret log tc tc1" "io_frame tc1 tc2" "same_rx tc1 tc2" "tn_sess tc2 = tn_sess tc1" "io_ok tc2"
    "tn_sent tc2 @ tn_tx tc2 = tn_sent tc1 @ tn_tx tc1" "length (tn_tx tc1) = BUF_SIZE \<longrightarrow> tn_tx tc2 = tn_tx tc1"
  shows "call_left P A ret log tc tc2"
proof -
  have rx: "tn_rx tc2 = tn_rx tc1" "tn_rx_eof tc2 = tn_rx_eof tc1" using assms(2,3) by (simp_all add: io_frame_defs)
  have "if ret = GNUTLS_E_AGAIN
      then \<exists>w. A w (tn_sess tc2) \<and> (if w then length (tn_tx tc2) = BUF_SIZE else tn_rx tc2 = [] \<and> \<not> tn_rx_eof tc2)
      else P ret (tn_sess tc2)"
    using assms(1,7) unfolding call_left_def rx assms(4) by (metis (full_types))
  then show ?thesis using assms(1,5,6) unfolding call_left_def rx by simp
qed

lemma gtls_call_result:
  assumes snd: "sender_ok (tl_send env)" and ok: "io_ok tc" and call: "gt_behaves P A reads writes (call (tn_sess tc))"
    and again: "\<And>s. gt_behaves P' A' reads' writes' (again s) \<and> gt_transfers (again s)"
    and nonneg: "\<And>r. done r \<Longrightarrow> 0 \<le> r" and res: "gtls_call env done call again tc = (ret, tc')"
  shows "io_frame tc tc' \<and> (gt_fails ret \<or> call_left P A ret (gtls_log env (call (tn_sess tc)) tc) tc tc' \<and> (\<not> reads \<longrightarrow> same_rx tc tc'))"
proof -
  obtain ret1 buf tc1 where run: "run_gtls env (call (tn_sess tc)) tc = (ret1, buf, tc1)" by (metis prod_cases3)
  note r1 = run_result [OF snd call ok run]
  obtain failed tc2 where fl: "tconn_tx_flush (tl_send env) tc1 = (failed, tc2)" by fastforce
  obtain ret3 buf3 tc3 where run3: "run_gtls env (again (tn_sess tc2)) tc2 = (ret3, buf3, tc3)" by (metis prod_cases3)
  show ?thesis
  proof (cases "gt_fails ret1 \<or> \<not> (done ret1 \<or> ret1 = GNUTLS_E_AGAIN)")
    case True
    then have "\<not> (done ret1 \<or> ret1 = GNUTLS_E_AGAIN)" using nonneg [of ret1] by (auto simp: gt_fails_def)
    then have "ret = ret1" "tc' = tc1" using res run by (simp_all add: gtls_call_def)
    then show ?thesis using r1 by blast
  next
    case False
    then have left: "call_left P A ret1 (gtls_log env (call (tn_sess tc)) tc) tc tc1" and frame: "io_frame tc tc1" and rx: "\<not> reads \<longrightarrow> same_rx tc tc1"
      using r1 by blast+
    have ok1: "io_ok tc1" using left by (simp add: call_left_def)
    note f = flush_result [OF snd ok1 fl]
    show ?thesis
    proof (cases "failed = 0")
      case True
      then have eq: "ret = ret1" "tc' = tc2" using res run fl False by (simp_all add: gtls_call_def)
      have "call_left P A ret (gtls_log env (call (tn_sess tc)) tc) tc tc'"
        using call_left_flush [OF left] f True unfolding eq by simp
      moreover have "io_frame tc tc'" using io_frame_trans [OF frame] f unfolding eq by blast
      moreover have "\<not> reads \<longrightarrow> same_rx tc tc'" using rx f same_trans(2) unfolding eq by blast
      ultimately show ?thesis by blast
    next
      case failed: False
      then have eq: "ret = ret3" "tc' = tc3" using res run fl run3 False by (simp_all add: gtls_call_def)
      have "gt_fails ret3 \<and> io_frame tc2 tc3"
        by (rule run_error [OF _ _ _ _ run3]) (use again f failed in auto)
      then show ?thesis using io_frame_trans frame f unfolding eq by blast
    qed
  qed
qed

text \<open>After an error of the transport the whole step fails.\<close>

lemma gtls_call_error:
  assumes "gt_behaves P A reads writes (call (tn_sess tc))" "gt_transfers (call (tn_sess tc))" "tn_io_error tc \<noteq> 0" "tn_io_error tc \<noteq> EAGAIN"
    "\<And>r. done r \<Longrightarrow> 0 \<le> r" "gtls_call env done call again tc = (ret, tc')"
  shows "gt_fails ret \<and> io_frame tc tc'"
proof -
  obtain ret1 buf tc1 where run: "run_gtls env (call (tn_sess tc)) tc = (ret1, buf, tc1)" by (metis prod_cases3)
  have f: "gt_fails ret1 \<and> io_frame tc tc1" by (rule run_error [OF assms(1-4) run])
  then have "\<not> (done ret1 \<or> ret1 = GNUTLS_E_AGAIN)" using assms(5) [of ret1] by (auto simp: gt_fails_def)
  then have "ret = ret1" "tc' = tc1" using assms(6) run by (simp_all add: gtls_call_def)
  with f show ?thesis by simp
qed

end
