(* ===== verification/Tconn_Verify.thy ===== *)
theory Tconn_Verify
  imports Tconn
begin

text \<open>
  The properties of \<^verbatim>\<open>src/tconn.c\<close>.  \<open>tls_inv\<close> joins what \<^verbatim>\<open>verify_state\<close> asks for with what else holds of the
  buffers, and every handler, task and call keeps it; so \<^verbatim>\<open>verify_state\<close> never stops the process, as long as
  events come in the order given by \<open>tls_allowed\<close>.  In two situations outside of it the process
  stops, one of which the peer can bring about.  No byte is lost or reordered in the buffers.  At the
  end: which key ids a chain of certificates yields.
\<close>

section \<open>The state is what \<^verbatim>\<open>verify_state\<close> asks for\<close>

lemma verify_iff:
  "verify_state gt tc = Inr () \<longleftrightarrow>
     (tn_handler_in tc \<longleftrightarrow> verify_state_pollin tc) \<and> (tn_handler_out tc \<longrightarrow> verify_state_pollout tc) \<and>
     (tn_rx_task tc \<longleftrightarrow> verify_state_rx_task gt tc) \<and> (tn_tx_task tc \<longleftrightarrow> verify_state_tx_task gt tc)"
  by (auto simp: verify_state_def)

lemma verify_dead:
  "tn_state tc = TLS_DEAD \<Longrightarrow> verify_state gt tc = Inr () \<longleftrightarrow>
     \<not> tn_handler_in tc \<and> \<not> tn_handler_out tc \<and> \<not> tn_rx_task tc \<and> \<not> tn_tx_task tc"
  by (simp add: verify_iff verify_state_pollin_def verify_state_pollout_def verify_state_rx_task_def verify_state_tx_task_def)

text \<open>What else holds of a session that is not dead.\<close>

definition tls_sound :: "'s gnutls \<Rightarrow> ('s, 'u) tconn \<Rightarrow> bool" where
  "tls_sound gt tc \<longleftrightarrow>
     (if tn_io_error tc = 0 then io_ok tc
      else tn_io_error tc \<noteq> EAGAIN \<and> \<not> tn_handler_in tc \<and> \<not> tn_handler_out tc \<and>
        (tn_state tc \<noteq> TLS_HANDSHAKE \<longrightarrow> \<not> gt_pending gt (tn_sess tc)))"

definition tls_inv :: "'s gnutls \<Rightarrow> ('s, 'u) tconn \<Rightarrow> bool" where
  "tls_inv gt tc \<longleftrightarrow> verify_state gt tc = Inr () \<and> (tn_state tc \<noteq> TLS_DEAD \<longrightarrow> tls_sound gt tc)"

lemma tls_inv_verify: "tls_inv gt tc \<Longrightarrow> verify_state gt tc = Inr ()"
  by (simp add: tls_inv_def)

lemma tls_inv_alive:
  "tn_state tc \<noteq> TLS_DEAD \<Longrightarrow> tls_inv gt tc \<longleftrightarrow>
     tls_sound gt tc \<and> (tn_rx_task tc \<longleftrightarrow> verify_state_rx_task gt tc) \<and> (tn_tx_task tc \<longleftrightarrow> verify_state_tx_task gt tc)"
  by (auto simp: tls_inv_def verify_iff tls_sound_def io_ok_def verify_state_pollin_def verify_state_pollout_def split: if_splits)

lemma tls_invI:
  "tn_state tc \<noteq> TLS_DEAD \<Longrightarrow> tls_sound gt tc \<Longrightarrow> (tn_rx_task tc \<longleftrightarrow> verify_state_rx_task gt tc) \<Longrightarrow>
   (tn_tx_task tc \<longleftrightarrow> verify_state_tx_task gt tc) \<Longrightarrow> tls_inv gt tc"
  by (simp add: tls_inv_alive)

lemma io_ok_sound: "io_ok tc \<Longrightarrow> tls_sound gt tc"
  by (simp add: tls_sound_def io_ok_def)

lemma abort_inv:
  "tconn_connection_abort notify tc = (tc', note) \<Longrightarrow>
   tls_inv gt tc' \<and> tn_state tc' = TLS_DEAD \<and> tn_open tc' = tn_open tc"
  by (auto simp: tconn_connection_abort_def tls_inv_def verify_dead)

text \<open>
  The descriptor can be read.  The session waits to write into a full buffer: then the end of the stream
  makes the process stop, and so does anything that is received while the task that reads is
  registered.
\<close>

definition tls_write_blocked :: "'s gnutls \<Rightarrow> ('s, 'u) tconn \<Rightarrow> bool" where
  "tls_write_blocked gt tc \<longleftrightarrow> length (tn_tx tc) = BUF_SIZE \<and>
     (tn_state tc = TLS_TX_CONGESTION \<or> tn_state tc = TLS_HANDSHAKE \<and> gt_direction gt (tn_sess tc))"

lemma handler_in_start:
  assumes "tls_inv gt tc" "tn_handler_in tc"
  shows "tn_state tc \<noteq> TLS_DEAD" "tls_sound gt tc" "tn_rx_task tc \<longleftrightarrow> verify_state_rx_task gt tc"
    "tn_tx_task tc \<longleftrightarrow> verify_state_tx_task gt tc" "io_ok tc" "tn_rx tc = []" "\<not> tn_rx_eof tc" "tn_io_error tc = 0"
proof -
  show alive: "tn_state tc \<noteq> TLS_DEAD" using assms by (auto simp: tls_inv_def verify_dead)
  show sound: "tls_sound gt tc" and "tn_rx_task tc \<longleftrightarrow> verify_state_rx_task gt tc" "tn_tx_task tc \<longleftrightarrow> verify_state_tx_task gt tc"
    using assms(1) alive tls_inv_alive by blast+
  show io: "io_ok tc" using sound assms(2) by (auto simp: tls_sound_def split: if_splits)
  show "tn_rx tc = []" "\<not> tn_rx_eof tc" "tn_io_error tc = 0" using io assms(2) by (auto simp: io_ok_def)
qed

lemma got_io_error_eq:
  "got_io_error gt tc = Inr (tc\<lparr>tn_handler_in := False, tn_handler_out := False,
     tn_rx_task := tn_rx_task tc \<or> (tn_state tc = TLS_HANDSHAKE \<and> \<not> gt_direction gt (tn_sess tc)) \<or>
       tn_state tc = TLS_RUNNING \<or> tn_state tc = TLS_TX_CONGESTION,
     tn_tx_task := tn_tx_task tc \<or> (tn_state tc = TLS_HANDSHAKE \<and> gt_direction gt (tn_sess tc)) \<or> tn_state tc = TLS_TX_CONGESTION\<rparr>)"
  by (auto simp: got_io_error_def rx_task_register_def tx_task_register_def Let_def)

text \<open>An error of the transport, whichever way.\<close>

lemma transport_error_inv:
  assumes "tls_inv gt tc" "tn_state tc \<noteq> TLS_DEAD" "tn_io_error tc = 0" "e \<noteq> 0" "e \<noteq> EAGAIN"
    "tn_state tc \<noteq> TLS_HANDSHAKE \<Longrightarrow> \<not> gt_pending gt (tn_sess tc)"
  shows "\<exists>tc'. got_io_error gt (tc\<lparr>tn_io_error := e\<rparr>) = Inr tc' \<and> tls_inv gt tc' \<and> tn_open tc' = tn_open tc"
  using assms unfolding got_io_error_eq
  by (cases "tn_state tc")
    (auto simp: tls_inv_alive tls_sound_def io_ok_def verify_state_rx_task_def verify_state_tx_task_def)

lemma handler_in_data:
  assumes "tls_inv gt tc" "tn_handler_in tc" "\<not> tn_rx_task tc" "bs \<noteq> []"
  shows "\<exists>tc'. tconn_fd_handler_in gt (Recv bs) tc = Inr tc' \<and> tls_inv gt tc' \<and> tn_open tc' = tn_open tc"
proof -
  note s = handler_in_start [OF assms(1,2)]
  let ?b = "(tn_state tc = TLS_HANDSHAKE \<and> \<not> gt_direction gt (tn_sess tc)) \<or> tn_state tc = TLS_RUNNING \<or> tn_state tc = TLS_TX_CONGESTION"
  let ?tc = "tc\<lparr>tn_handler_in := False, tn_rx_task := ?b, tn_rx := bs\<rparr>"
  have inv: "tls_inv gt ?tc"
    using s assms
    by (cases "tn_state tc") (simp_all add: tls_inv_alive tls_sound_def io_ok_def verify_state_rx_task_def verify_state_tx_task_def)
  have "(if ?b then rx_task_register (tc\<lparr>tn_handler_in := False\<rparr>) else Inr (tc\<lparr>tn_handler_in := False\<rparr>)) =
      Inr (tc\<lparr>tn_handler_in := False, tn_rx_task := ?b\<rparr>)"
    using assms(3) by (auto simp: rx_task_register_def)
  then have "tconn_fd_handler_in gt (Recv bs) tc = Inr ?tc"
    using s(6) tls_inv_verify [OF assms(1)] tls_inv_verify [OF inv] by (simp add: tconn_fd_handler_in_def Let_def)
  with inv show ?thesis by simp
qed

lemma handler_in_eof:
  assumes "tls_inv gt tc" "tn_handler_in tc" "length (tn_tx tc) < BUF_SIZE"
  shows "\<exists>tc'. tconn_fd_handler_in gt Recv_eof tc = Inr tc' \<and> tls_inv gt tc' \<and> tn_open tc' = tn_open tc"
proof -
  note s = handler_in_start [OF assms(1,2)]
  obtain tc' where g: "got_io_error gt (tc\<lparr>tn_rx_eof := True\<rparr>) = Inr tc'" "tls_inv gt tc'" "tn_open tc' = tn_open tc"
    using s assms unfolding got_io_error_eq
    by (cases "tn_state tc")
      (auto simp: tls_inv_alive tls_sound_def io_ok_def verify_state_rx_task_def verify_state_tx_task_def)
  then show ?thesis using s(6) tls_inv_verify [OF assms(1)] tls_inv_verify [OF g(2)] by (simp add: tconn_fd_handler_in_def)
qed

lemma handler_in_errno:
  assumes "tls_inv gt tc" "tn_handler_in tc" "\<not> tn_rx_task tc" "e \<noteq> 0"
  shows "\<exists>tc'. tconn_fd_handler_in gt (Recv_errno e) tc = Inr tc' \<and> tls_inv gt tc' \<and> tn_open tc' = tn_open tc"
proof (cases "e = EAGAIN")
  case True
  then show ?thesis using handler_in_start(6) [OF assms(1,2)] tls_inv_verify [OF assms(1)] assms(1) by (simp add: tconn_fd_handler_in_def)
next
  case False
  note s = handler_in_start [OF assms(1,2)]
  have "\<not> gt_pending gt (tn_sess tc)" if x: "tn_state tc \<noteq> TLS_HANDSHAKE"
    using s(1,3) assms(3) x by (cases "tn_state tc") (simp_all add: verify_state_rx_task_def)
  then obtain tc' where g: "got_io_error gt (tc\<lparr>tn_io_error := e\<rparr>) = Inr tc'" "tls_inv gt tc'" "tn_open tc' = tn_open tc"
    using transport_error_inv [OF assms(1) s(1,8) assms(4) False] by blast
  then show ?thesis using False s(6) tls_inv_verify [OF assms(1)] tls_inv_verify [OF g(2)] by (simp add: tconn_fd_handler_in_def)
qed

text \<open>The descriptor can be written.\<close>

lemma set_tx_task: "tn_tx_task tc = b \<Longrightarrow> tc\<lparr>tn_tx_task := b\<rparr> = tc"
  by (cases tc) simp

lemma handler_out_inv:
  assumes "tls_inv gt tc" "tn_handler_out tc" "sender_ok sndr"
    "\<forall>e. sndr (tn_sent tc) (tn_tx tc) = Send_errno e \<longrightarrow> e = EAGAIN \<or> tn_state tc = TLS_HANDSHAKE \<or> \<not> gt_pending gt (tn_sess tc)"
  shows "\<exists>tc'. tconn_fd_handler_out gt sndr tc = Inr tc' \<and> tls_inv gt tc' \<and> tn_open tc' = tn_open tc"
proof -
  have alive: "tn_state tc \<noteq> TLS_DEAD" using assms(1,2) by (auto simp: tls_inv_def verify_dead)
  have inv: "tls_sound gt tc" "tn_rx_task tc \<longleftrightarrow> verify_state_rx_task gt tc" "tn_tx_task tc \<longleftrightarrow> verify_state_tx_task gt tc"
    using assms(1) alive tls_inv_alive by blast+
  have io: "io_ok tc" using inv(1) assms(2) by (auto simp: tls_sound_def split: if_splits)
  have tx: "tn_tx tc \<noteq> []" "length (tn_tx tc) \<le> BUF_SIZE" "tn_io_error tc = 0" using io assms(2) by (simp_all add: io_ok_def)
  note V = tls_inv_verify [OF assms(1)]
  show ?thesis
  proof (cases "sndr (tn_sent tc) (tn_tx tc)")
    case (Send_errno e)
    show ?thesis
    proof (cases "e = EAGAIN")
      case True
      then show ?thesis using V Send_errno assms(1) by (simp add: tconn_fd_handler_out_def)
    next
      case False
      have e: "e \<noteq> 0" by (rule sender_okD(1) [OF assms(3) tx(1) Send_errno])
      have "\<not> gt_pending gt (tn_sess tc)" if x: "tn_state tc \<noteq> TLS_HANDSHAKE" using assms(4) Send_errno False x by blast
      then obtain tc' where g: "got_io_error gt (tc\<lparr>tn_io_error := e\<rparr>) = Inr tc'" "tls_inv gt tc'" "tn_open tc' = tn_open tc"
        using transport_error_inv [OF assms(1) alive tx(3) e False] by blast
      moreover have "tn_sent tc' @ tn_tx tc' = tn_sent tc @ tn_tx tc" using g(1) unfolding got_io_error_eq by auto
      ultimately show ?thesis using False V Send_errno tls_inv_verify [OF g(2)] by (simp add: tconn_fd_handler_out_def)
    qed
  next
    case (Sent n)
    note n = sender_okD(2,3) [OF assms(3) tx(1) Sent]
    let ?w = "(tn_state tc = TLS_HANDSHAKE \<and> gt_direction gt (tn_sess tc)) \<or> tn_state tc = TLS_TX_CONGESTION"
    let ?t1 = "tc\<lparr>tn_tx_task := ?w, tn_tx := drop n (tn_tx tc), tn_sent := tn_sent tc @ take n (tn_tx tc)\<rparr>"
    define t2 where "t2 = (if drop n (tn_tx tc) = [] then ?t1\<lparr>tn_handler_out := False\<rparr> else ?t1)"
    have reg: "(if length (tn_tx tc) = BUF_SIZE \<and> ?w then tx_task_register tc else Inr tc) = Inr (tc\<lparr>tn_tx_task := ?w\<rparr>)"
    proof (cases "length (tn_tx tc) = BUF_SIZE")
      case True
      then have "\<not> tn_tx_task tc" using inv(3) tx(3) by (simp add: verify_state_tx_task_def)
      then show ?thesis using True set_tx_task [of tc ?w] by (cases ?w) (simp_all add: tx_task_register_def)
    next
      case False
      then have "tn_tx_task tc = ?w" using inv(3) tx(2) by (auto simp: verify_state_tx_task_def)
      then show ?thesis using False set_tx_task by simp
    qed
    have inv': "tls_inv gt t2"
      using alive inv io n assms(2) unfolding t2_def
      by (cases "tn_state tc") (auto simp: tls_inv_alive tls_sound_def io_ok_def verify_state_rx_task_def verify_state_tx_task_def)
    have "tconn_fd_handler_out gt sndr tc =
        hbind (Inr (tc\<lparr>tn_tx_task := ?w\<rparr>)) (\<lambda>tc. let tc = tc\<lparr>tn_tx := drop n (tn_tx tc), tn_sent := tn_sent tc @ take n (tn_tx tc)\<rparr>;
             tc = (if tn_tx tc = [] then tc\<lparr>tn_handler_out := False\<rparr> else tc)
         in hbind (verify_state gt tc) (\<lambda>_. Inr tc))"
      unfolding tconn_fd_handler_out_def V Sent by (simp only: reg [symmetric] hbind_simps send_result.case)
    also have "\<dots> = hbind (verify_state gt t2) (\<lambda>_. Inr t2)" by (simp add: t2_def Let_def)
    finally have "tconn_fd_handler_out gt sndr tc = Inr t2" using tls_inv_verify [OF inv'] by simp
    moreover have "tn_sent t2 @ tn_tx t2 = tn_sent tc @ tn_tx tc" "tn_open t2 = tn_open tc" by (simp_all add: t2_def)
    ultimately show ?thesis using inv' by blast
  qed
qed

section \<open>The calls of gnutls keep it\<close>

lemma gt_behaves_mono:
  "gt_behaves P A reads writes t \<Longrightarrow> (\<And>ret s. P ret s \<Longrightarrow> P' ret s) \<Longrightarrow> (\<And>w s. A w s \<Longrightarrow> A' w s) \<Longrightarrow> gt_behaves P' A' reads writes t"
proof (induction t)
  case (Gpull len k)
  have "returns_again A False t \<Longrightarrow> returns_again A' False t" for t using Gpull.prems(3) by (cases t) (auto simp: returns_again_def)
  then show ?case using Gpull by auto
next
  case (Gpush buf k)
  have "returns_again A True t \<Longrightarrow> returns_again A' True t" for t using Gpush.prems(3) by (cases t) (auto simp: returns_again_def)
  then show ?case using Gpush by auto
qed auto

text \<open>The parts of \<open>gnutls_ok\<close>.\<close>

lemma gnutls_ok_handshake:
  "gnutls_ok gt \<Longrightarrow> gt_behaves (\<lambda>ret s'. ret = 0) (\<lambda>w s'. gt_direction gt s' = w) True True (gt_handshake gt s) \<and> gt_transfers (gt_handshake gt s)"
  by (simp add: gnutls_ok_def)

lemma gnutls_ok_recv:
  "gnutls_ok gt \<Longrightarrow> gt_behaves (\<lambda>ret s'. True) (\<lambda>w s'. \<not> w \<and> \<not> gt_pending gt s') True False (gt_recv gt s)"
  "gnutls_ok gt \<Longrightarrow> \<not> gt_pending gt s \<Longrightarrow> gt_transfers (gt_recv gt s)"
  by (auto simp: gnutls_ok_def)

lemma gnutls_ok_send:
  "gnutls_ok gt \<Longrightarrow> gt_behaves (\<lambda>ret s'. 0 \<le> ret \<and> gt_pending gt s' = gt_pending gt s) (\<lambda>w s'. w \<and> gt_pending gt s' = gt_pending gt s)
     False True (gt_send gt s r) \<and> gt_transfers (gt_send gt s r)"
  by (simp add: gnutls_ok_def)

lemma gnutls_ok_sends:
  assumes "gnutls_ok gt"
  shows "gt_behaves (\<lambda>_ _. True) (\<lambda>_ _. True) False True (gt_send gt s r) \<and> gt_transfers (gt_send gt s r)"
  by (rule conjI [OF gt_behaves_mono [OF conjunct1 [OF gnutls_ok_send [OF assms]]] conjunct2 [OF gnutls_ok_send [OF assms]]]) simp_all

text \<open>What a call leaves when the session was sound.\<close>

lemma gtls_call_sound:
  assumes "sender_ok (tl_send env)" "tls_sound gt tc"
    "gt_behaves P A reads writes (call (tn_sess tc)) \<and> gt_transfers (call (tn_sess tc))"
    "\<And>s. gt_behaves P' A' reads' writes' (again s) \<and> gt_transfers (again s)"
    "\<And>r. done r \<Longrightarrow> 0 \<le> r" "gtls_call env done call again tc = (ret, tc')"
  shows "io_frame tc tc' \<and>
    (gt_fails ret \<or> tn_io_error tc = 0 \<and> call_left P A ret (gtls_log env (call (tn_sess tc)) tc) tc tc' \<and> (\<not> reads \<longrightarrow> same_rx tc tc'))"
proof (cases "tn_io_error tc = 0")
  case True
  then have "io_ok tc" using assms(2) by (simp add: tls_sound_def)
  from gtls_call_result [OF assms(1) this conjunct1 [OF assms(3)] assms(4,5,6)] True show ?thesis by blast
next
  case False
  then have "tn_io_error tc \<noteq> EAGAIN" using assms(2) by (simp add: tls_sound_def)
  from gtls_call_error [OF conjunct1 [OF assms(3)] conjunct2 [OF assms(3)] False this assms(5,6)] show ?thesis by blast
qed

lemma gt_fails_simps [simp]: "\<not> gt_fails 0" "\<not> gt_fails GNUTLS_E_AGAIN" "gt_fails ret \<Longrightarrow> ret < 0"
  by (simp_all add: gt_fails_def)

lemma GNUTLS_E_AGAIN_neg [simp]: "GNUTLS_E_AGAIN < 0"
  by (simp add: GNUTLS_E_AGAIN_def)

lemma GNUTLS_E_AGAIN_nonzero [simp]: "GNUTLS_E_AGAIN \<noteq> 0" "GNUTLS_E_AGAIN \<noteq> GNUTLS_E_REHANDSHAKE"
  by (simp_all add: GNUTLS_E_AGAIN_def GNUTLS_E_REHANDSHAKE_def)

lemma rx_task_if_needed_eq:
  "\<not> tn_rx_task tc \<Longrightarrow> rx_task_if_needed gt tc = Inr (tc\<lparr>tn_rx_task := gt_pending gt (tn_sess tc) \<or> tn_rx tc \<noteq> [] \<or> tn_rx_eof tc\<rparr>)"
  by (cases tc) (simp add: rx_task_if_needed_def rx_task_register_def)

text \<open>The state \<open>s\<close> with no error, and the reading task on when it is needed.\<close>

lemma running_inv:
  assumes "io_ok tc" "\<not> tn_rx_task tc" "tn_state tc = TLS_RUNNING \<or> tn_state tc = TLS_TX_CONGESTION" "tn_tx_task tc \<longleftrightarrow> verify_state_tx_task gt tc"
  shows "\<exists>tc'. rx_task_if_needed gt tc = Inr tc' \<and> tls_inv gt tc' \<and> tn_open tc' = tn_open tc"
proof -
  let ?tc = "tc\<lparr>tn_rx_task := gt_pending gt (tn_sess tc) \<or> tn_rx tc \<noteq> [] \<or> tn_rx_eof tc\<rparr>"
  have "io_ok ?tc" using assms(1) by (simp add: io_ok_def)
  then have "tls_sound gt ?tc" by (rule io_ok_sound)
  moreover have "tn_state ?tc \<noteq> TLS_DEAD" "tn_rx_task ?tc \<longleftrightarrow> verify_state_rx_task gt ?tc" "tn_tx_task ?tc \<longleftrightarrow> verify_state_tx_task gt ?tc"
    using assms(1,3,4) by (auto simp: verify_state_rx_task_def verify_state_tx_task_def io_ok_def)
  ultimately have "tls_inv gt ?tc" by (blast intro: tls_invI)
  then show ?thesis using rx_task_if_needed_eq [OF assms(2)] by simp
qed

lemma do_handshake_inv:
  assumes gt: "gnutls_ok gt" and env: "sender_ok (tl_send env)" "tl_nodelay env" and tc: "tls_sound gt tc" "tn_state tc = TLS_HANDSHAKE"
    "\<not> tn_rx_task tc" "\<not> tn_tx_task tc"
  shows "\<exists>ret tc' nt. tconn_do_handshake gt env notify tc = Inr (ret, tc', nt) \<and> tls_inv gt tc' \<and> tn_open tc' = tn_open tc \<and>
    (ret = 0 \<longleftrightarrow> tn_state tc' \<noteq> TLS_DEAD)"
proof -
  obtain ret tc1 where c: "gtls_call env (\<lambda>ret. ret = 0) (gt_handshake gt) (gt_handshake gt) tc = (ret, tc1)" by fastforce
  note hs = gnutls_ok_handshake [OF gt]
  have left: "io_frame tc tc1" "gt_fails ret \<or> (\<exists>log. call_left (\<lambda>ret s'. ret = 0) (\<lambda>w s'. gt_direction gt s' = w) ret log tc tc1)"
    using gtls_call_sound [OF env(1) tc(1) hs hs _ c] by blast+
  have fr: "tn_state tc1 = TLS_HANDSHAKE" "\<not> tn_rx_task tc1" "\<not> tn_tx_task tc1" "tn_open tc1 = tn_open tc"
    using left(1) tc by (simp_all add: io_frame_def)
  show ?thesis
  proof (cases "gt_fails ret")
    case True
    then have "ret \<noteq> 0" "ret \<noteq> GNUTLS_E_AGAIN" by auto
    moreover obtain tc2 nt where a: "tconn_connection_abort notify tc1 = (tc2, nt)" by fastforce
    ultimately show ?thesis using abort_inv [OF a, of gt] fr(4) c by (simp add: tconn_do_handshake_def)
  next
    case False
    then obtain log where l: "call_left (\<lambda>ret s'. ret = 0) (\<lambda>w s'. gt_direction gt s' = w) ret log tc tc1" using left(2) by blast
    then have io: "io_ok tc1" by (simp add: call_left_def)
    show ?thesis
    proof (cases "ret = GNUTLS_E_AGAIN")
      case True
      then have d: "if gt_direction gt (tn_sess tc1) then length (tn_tx tc1) = BUF_SIZE else tn_rx tc1 = [] \<and> \<not> tn_rx_eof tc1"
        using l by (simp add: call_left_def)
      then have "tls_inv gt tc1" using fr io
        by (auto simp: tls_inv_alive io_ok_sound verify_state_rx_task_def verify_state_tx_task_def io_ok_def split: if_splits)
      then show ?thesis using c True fr tls_inv_verify by (auto simp: tconn_do_handshake_def)
    next
      case False
      then have ret: "ret = 0" using l by (simp add: call_left_def)
      let ?tc = "tc1\<lparr>tn_state := TLS_RUNNING\<rparr>"
      have "io_ok ?tc" using io by (simp add: io_ok_def)
      from running_inv [OF this, of gt] fr obtain tc2 where r: "rx_task_if_needed gt ?tc = Inr tc2" "tls_inv gt tc2" "tn_open tc2 = tn_open tc"
        by (auto simp: verify_state_tx_task_def)
      moreover have "tn_state tc2 = TLS_RUNNING" using r(1) fr(2) by (auto simp: rx_task_if_needed_eq)
      ultimately show ?thesis using c ret env(2) tls_inv_verify [OF r(2)] by (simp add: tconn_do_handshake_def)
    qed
  qed
qed

lemma do_record_recv_inv:
  assumes gt: "gnutls_ok gt" and env: "sender_ok (tl_send env)" and tc: "tls_sound gt tc"
    "tn_state tc = TLS_RUNNING \<or> tn_state tc = TLS_TX_CONGESTION" "\<not> tn_rx_task tc" "tn_tx_task tc \<longleftrightarrow> verify_state_tx_task gt tc"
  shows "\<exists>tc' nt. tconn_do_record_recv gt env tc = Inr (tc', nt) \<and> tls_inv gt tc' \<and> tn_open tc' = tn_open tc"
proof -
  obtain ret buf tc1 where c: "run_gtls env (gt_recv gt (tn_sess tc)) tc = (ret, buf, tc1)" by (metis prod_cases3)
  let ?P = "\<lambda>ret s'. True" and ?A = "\<lambda>w s'. \<not> w \<and> \<not> gt_pending gt s'"
  note rc = gnutls_ok_recv [OF gt]
  have left: "io_frame tc tc1 \<and> (gt_fails ret \<or> io_ok tc \<and> same_tx tc tc1 \<and> (\<exists>log. call_left ?P ?A ret log tc tc1))"
  proof (cases "tn_io_error tc = 0")
    case True
    then have "io_ok tc" using tc(1) by (simp add: tls_sound_def)
    from run_result [OF env rc(1) this c] this show ?thesis by blast
  next
    case False
    then have "tn_io_error tc \<noteq> EAGAIN" "\<not> gt_pending gt (tn_sess tc)" using tc(1,2) by (auto simp: tls_sound_def)
    then show ?thesis using run_error [OF rc(1) _ False _ c] rc(2) by blast
  qed
  have fr: "tn_state tc1 = tn_state tc" "\<not> tn_rx_task tc1" "tn_tx_task tc1 = tn_tx_task tc" "tn_open tc1 = tn_open tc"
    using left tc(3) by (auto simp: io_frame_def)
  show ?thesis
  proof (cases "ret \<noteq> GNUTLS_E_AGAIN \<and> (ret < 0 \<and> ret \<noteq> GNUTLS_E_REHANDSHAKE \<or> ret = 0)")
    case True
    moreover obtain tc2 nt where a: "tconn_connection_abort True tc1 = (tc2, nt)" by fastforce
    ultimately show ?thesis using abort_inv [OF a, of gt] fr(4) c by (auto simp: tconn_do_record_recv_def)
  next
    case False
    then have "\<not> gt_fails ret" by (auto simp: gt_fails_def)
    then obtain log where l: "call_left ?P ?A ret log tc tc1" and tx: "io_ok tc" "same_tx tc tc1" using left by blast
    then have io: "io_ok tc1" by (simp add: call_left_def)
    have t: "tn_tx_task tc1 \<longleftrightarrow> verify_state_tx_task gt tc1"
      using fr tc(2,4) tx(2) by (auto simp: verify_state_tx_task_def same_tx_def)
    have st: "tn_state tc1 = TLS_RUNNING \<or> tn_state tc1 = TLS_TX_CONGESTION" using tc(2) fr by simp
    obtain tc2 where r: "rx_task_if_needed gt tc1 = Inr tc2" "tls_inv gt tc2" "tn_open tc2 = tn_open tc1"
      using running_inv [OF io fr(2) st t] by blast
    show ?thesis
    proof (cases "ret = GNUTLS_E_AGAIN")
      case True
      then have "\<not> gt_pending gt (tn_sess tc1)" "tn_rx tc1 = []" "\<not> tn_rx_eof tc1" using l by (auto simp: call_left_def)
      then have "tc2 = tc1" using r(1) by (simp add: rx_task_if_needed_def)
      then show ?thesis using c True r fr tls_inv_verify by (auto simp: tconn_do_record_recv_def)
    next
      case ret: False
      then have "(ret < 0 \<and> ret \<noteq> GNUTLS_E_REHANDSHAKE \<or> ret = 0) = False" using False by blast
      then show ?thesis using c r fr tls_inv_verify [OF r(2)] ret by (simp add: tconn_do_record_recv_def if_not_P)
    qed
  qed
qed

text \<open>A call that sends.\<close>

lemma send_call:
  assumes gt: "gnutls_ok gt" and env: "sender_ok (tl_send env)" and tc: "tls_sound gt tc" "tn_state tc \<noteq> TLS_DEAD" "tn_state tc \<noteq> TLS_HANDSHAKE"
    "tn_rx_task tc \<longleftrightarrow> verify_state_rx_task gt tc" "\<not> tn_tx_task tc"
    and c: "gtls_call env (\<lambda>ret. 0 < ret) (\<lambda>s. gt_send gt s r) (\<lambda>s. gt_send gt s []) tc = (ret, tc')"
  shows "tn_open tc' = tn_open tc \<and> tn_state tc' = tn_state tc \<and>
    (gt_fails ret \<or> ret = GNUTLS_E_AGAIN \<and> tls_inv gt (tc'\<lparr>tn_state := TLS_TX_CONGESTION\<rparr>) \<or> 0 \<le> ret \<and> tls_inv gt (tc'\<lparr>tn_state := TLS_RUNNING\<rparr>))"
proof -
  let ?P = "\<lambda>ret s'. 0 \<le> ret \<and> gt_pending gt s' = gt_pending gt (tn_sess tc)" and ?A = "\<lambda>w s'. w \<and> gt_pending gt s' = gt_pending gt (tn_sess tc)"
  note sd = gnutls_ok_send [OF gt] and tr = gnutls_ok_sends [OF gt]
  have left: "io_frame tc tc' \<and> (gt_fails ret \<or> tn_io_error tc = 0 \<and> call_left ?P ?A ret (gtls_log env (gt_send gt (tn_sess tc) r) tc) tc tc' \<and> same_rx tc tc')"
    using gtls_call_sound [OF env tc(1) sd tr _ c] by auto
  then have fr: "tn_open tc' = tn_open tc" "tn_state tc' = tn_state tc" "\<not> tn_tx_task tc'" "tn_rx_task tc' = tn_rx_task tc"
    "tn_rx_eof tc' = tn_rx_eof tc"
    using tc(5) by (simp_all add: io_frame_def)
  show ?thesis
  proof (cases "gt_fails ret")
    case True
    then show ?thesis using fr by simp
  next
    case False
    define log where "log = gtls_log env (gt_send gt (tn_sess tc) r) tc"
    have e: "tn_io_error tc = 0" "tn_rx tc' = tn_rx tc" and l: "call_left ?P ?A ret log tc tc'"
      using left False unfolding log_def same_rx_def by blast+
    have io: "io_ok tc'" "io_ok (tc'\<lparr>tn_state := st\<rparr>)" for st using l by (simp_all add: call_left_def io_ok_def)
    have p: "gt_pending gt (tn_sess tc') = gt_pending gt (tn_sess tc)" using l by (auto simp: call_left_def split: if_splits)
    have rx: "tn_rx_task tc' \<longleftrightarrow> verify_state_rx_task gt (tc'\<lparr>tn_state := st\<rparr>)" if x: "st = TLS_RUNNING \<or> st = TLS_TX_CONGESTION" for st
      using tc(2-4) fr e p io(1) x by (cases "tn_state tc") (auto simp: verify_state_rx_task_def io_ok_def)
    show ?thesis
    proof (cases "ret = GNUTLS_E_AGAIN")
      case True
      then have "length (tn_tx tc') = BUF_SIZE" using l by (auto simp: call_left_def)
      then have "tls_inv gt (tc'\<lparr>tn_state := TLS_TX_CONGESTION\<rparr>)"
        using io(1) io(2) rx fr by (intro tls_invI io_ok_sound) (simp_all add: verify_state_tx_task_def io_ok_def)
      then show ?thesis using True fr by simp
    next
      case False
      then have "0 \<le> ret" using l by (simp add: call_left_def)
      moreover have "tls_inv gt (tc'\<lparr>tn_state := TLS_RUNNING\<rparr>)"
        using io(2) rx fr by (intro tls_invI io_ok_sound) (simp_all add: verify_state_tx_task_def)
      ultimately show ?thesis using fr by simp
    qed
  qed
qed

lemma set_state: "tn_state tc = st \<Longrightarrow> tc\<lparr>tn_state := st\<rparr> = tc"
  by (cases tc) simp

lemma do_record_send_inv:
  assumes "gnutls_ok gt" "sender_ok (tl_send env)" "tls_sound gt tc" "tn_state tc = TLS_TX_CONGESTION"
    "tn_rx_task tc \<longleftrightarrow> verify_state_rx_task gt tc" "\<not> tn_tx_task tc"
  shows "\<exists>tc' nt. tconn_do_record_send gt env tc = Inr (tc', nt) \<and> tls_inv gt tc' \<and> tn_open tc' = tn_open tc"
proof -
  obtain ret tc1 where c: "gtls_call env (\<lambda>ret. 0 < ret) (\<lambda>s. gt_send gt s []) (\<lambda>s. gt_send gt s []) tc = (ret, tc1)" by fastforce
  have r: "tn_open tc1 = tn_open tc" "tn_state tc1 = TLS_TX_CONGESTION"
    "gt_fails ret \<or> ret = GNUTLS_E_AGAIN \<and> tls_inv gt (tc1\<lparr>tn_state := TLS_TX_CONGESTION\<rparr>) \<or> 0 \<le> ret \<and> tls_inv gt (tc1\<lparr>tn_state := TLS_RUNNING\<rparr>)"
    using send_call [OF assms(1-3) _ _ assms(5,6) c] assms(4) by simp_all
  from r(3) consider (fails) "gt_fails ret" | (again) "ret = GNUTLS_E_AGAIN" "tls_inv gt tc1"
      | (sent) "0 \<le> ret" "tls_inv gt (tc1\<lparr>tn_state := TLS_RUNNING\<rparr>)"
    using set_state [OF r(2)] by auto
  then show ?thesis
  proof cases
    case fails
    obtain tc2 nt where a: "tconn_connection_abort True tc1 = (tc2, nt)" by fastforce
    show ?thesis using abort_inv [OF a, of gt] r(1) c fails a by (auto simp: tconn_do_record_send_def gt_fails_def)
  next
    case again
    then show ?thesis using c r(1) tls_inv_verify by (auto simp: tconn_do_record_send_def)
  next
    case sent
    then have "ret \<noteq> GNUTLS_E_AGAIN" "\<not> ret < 0" by (auto simp: GNUTLS_E_AGAIN_def)
    then show ?thesis using c r sent tls_inv_verify [OF sent(2)] by (simp add: tconn_do_record_send_def)
  qed
qed

text \<open>The user sends a record.\<close>

lemma record_send_inv:
  assumes "gnutls_ok gt" "sender_ok (tl_send env)" "tls_inv gt tc"
  shows "\<exists>ret tc'. tconn_record_send gt env r tc = Inr (ret, tc') \<and> tls_inv gt tc' \<and> tn_open tc' = tn_open tc"
proof (cases "tn_state tc = TLS_RUNNING")
  case False
  then show ?thesis using assms(3) tls_inv_verify [OF assms(3)] by (simp add: tconn_record_send_def)
next
  case True
  then have i: "tls_sound gt tc" "tn_rx_task tc \<longleftrightarrow> verify_state_rx_task gt tc" "\<not> tn_tx_task tc"
    using assms(3) by (simp_all add: tls_inv_alive verify_state_tx_task_def)
  obtain ret tc1 where c: "gtls_call env (\<lambda>ret. 0 < ret) (\<lambda>s. gt_send gt s r) (\<lambda>s. gt_send gt s []) tc = (ret, tc1)" by fastforce
  have r: "tn_open tc1 = tn_open tc" "tn_state tc1 = TLS_RUNNING"
    "gt_fails ret \<or> ret = GNUTLS_E_AGAIN \<and> tls_inv gt (tc1\<lparr>tn_state := TLS_TX_CONGESTION\<rparr>) \<or> 0 \<le> ret \<and> tls_inv gt (tc1\<lparr>tn_state := TLS_RUNNING\<rparr>)"
    using send_call [OF assms(1,2) i(1) _ _ i(2,3) c] True by simp_all
  note V = tls_inv_verify [OF assms(3)]
  from r(3) consider (fails) "gt_fails ret" | (again) "ret = GNUTLS_E_AGAIN" "tls_inv gt (tc1\<lparr>tn_state := TLS_TX_CONGESTION\<rparr>)"
      | (sent) "0 \<le> ret" "tls_inv gt tc1"
    using set_state [OF r(2)] by auto
  then show ?thesis
  proof cases
    case fails
    obtain tc2 nt where a: "tconn_connection_abort False tc1 = (tc2, nt)" by fastforce
    show ?thesis using abort_inv [OF a, of gt] r(1) c fails a V True by (auto simp: tconn_record_send_def gt_fails_def)
  next
    case again
    then show ?thesis using c r(1) V True tls_inv_verify [OF again(2)] by (simp add: tconn_record_send_def)
  next
    case sent
    then have "ret \<noteq> GNUTLS_E_AGAIN" "\<not> ret < 0" by (auto simp: GNUTLS_E_AGAIN_def)
    then show ?thesis using c r V True sent tls_inv_verify [OF sent(2)] by (simp add: tconn_record_send_def)
  qed
qed

text \<open>A task runs after it was taken off the list.\<close>

lemma task_simps [simp]:
  "verify_state_rx_task gt (tc\<lparr>tn_rx_task := b\<rparr>) = verify_state_rx_task gt tc"
  "verify_state_tx_task gt (tc\<lparr>tn_rx_task := b\<rparr>) = verify_state_tx_task gt tc"
  "verify_state_rx_task gt (tc\<lparr>tn_tx_task := b\<rparr>) = verify_state_rx_task gt tc"
  "verify_state_tx_task gt (tc\<lparr>tn_tx_task := b\<rparr>) = verify_state_tx_task gt tc"
  "tls_sound gt (tc\<lparr>tn_rx_task := b\<rparr>) = tls_sound gt tc"
  "tls_sound gt (tc\<lparr>tn_tx_task := b\<rparr>) = tls_sound gt tc"
  by (simp_all add: verify_state_rx_task_def verify_state_tx_task_def tls_sound_def io_ok_def)

lemma rx_task_inv:
  assumes "gnutls_ok gt" "sender_ok (tl_send env)" "tl_nodelay env" "tls_inv gt tc" "tn_rx_task tc"
  shows "\<exists>tc' nt. tconn_rx_task_handler gt env (tc\<lparr>tn_rx_task := False\<rparr>) = Inr (tc', nt) \<and> tls_inv gt tc' \<and> tn_open tc' = tn_open tc"
proof -
  have alive: "tn_state tc \<noteq> TLS_DEAD" using assms(4,5) by (auto simp: tls_inv_def verify_dead)
  have i: "tls_sound gt tc" "verify_state_rx_task gt tc" "tn_tx_task tc \<longleftrightarrow> verify_state_tx_task gt tc"
    using assms(4,5) alive tls_inv_alive by blast+
  let ?tc = "tc\<lparr>tn_rx_task := False\<rparr>"
  show ?thesis
  proof (cases "tn_state tc = TLS_HANDSHAKE")
    case True
    then have "\<not> tn_tx_task ?tc" "\<not> gt_direction gt (tn_sess tc) \<and> (tn_io_error tc \<noteq> 0 \<or> tn_rx tc \<noteq> [] \<or> tn_rx_eof tc)"
      using i by (simp_all add: verify_state_rx_task_def verify_state_tx_task_def)
    moreover from this obtain ret tc' nt where "tconn_do_handshake gt env True ?tc = Inr (ret, tc', nt)" "tls_inv gt tc'" "tn_open tc' = tn_open tc"
      using do_handshake_inv [OF assms(1-3), of ?tc True] i(1) True by auto
    ultimately show ?thesis using True by (simp add: tconn_rx_task_handler_def)
  next
    case False
    then have st: "tn_state tc = TLS_RUNNING \<or> tn_state tc = TLS_TX_CONGESTION" using alive by (cases "tn_state tc") simp_all
    have "tconn_rx_task_handler gt env ?tc = tconn_do_record_recv gt env ?tc"
      using i(2) False st by (simp add: tconn_rx_task_handler_def verify_state_rx_task_def)
    then show ?thesis using do_record_recv_inv [OF assms(1,2), of ?tc] i st by simp
  qed
qed

lemma tx_task_inv:
  assumes "gnutls_ok gt" "sender_ok (tl_send env)" "tl_nodelay env" "tls_inv gt tc" "tn_tx_task tc"
  shows "\<exists>tc' nt. tconn_tx_task_handler gt env (tc\<lparr>tn_tx_task := False\<rparr>) = Inr (tc', nt) \<and> tls_inv gt tc' \<and> tn_open tc' = tn_open tc"
proof -
  have alive: "tn_state tc \<noteq> TLS_DEAD" using assms(4,5) by (auto simp: tls_inv_def verify_dead)
  have i: "tls_sound gt tc" "verify_state_tx_task gt tc" "tn_rx_task tc \<longleftrightarrow> verify_state_rx_task gt tc"
    using assms(4,5) alive tls_inv_alive by blast+
  let ?tc = "tc\<lparr>tn_tx_task := False\<rparr>"
  show ?thesis
  proof (cases "tn_state tc = TLS_HANDSHAKE")
    case True
    then have "\<not> tn_rx_task ?tc" "gt_direction gt (tn_sess tc) \<and> (tn_io_error tc \<noteq> 0 \<or> length (tn_tx tc) < BUF_SIZE)"
      using i by (simp_all add: verify_state_rx_task_def verify_state_tx_task_def)
    moreover from this obtain ret tc' nt where "tconn_do_handshake gt env True ?tc = Inr (ret, tc', nt)" "tls_inv gt tc'" "tn_open tc' = tn_open tc"
      using do_handshake_inv [OF assms(1-3), of ?tc True] i(1) True by auto
    ultimately show ?thesis using True by (simp add: tconn_tx_task_handler_def)
  next
    case False
    then have st: "tn_state tc = TLS_TX_CONGESTION" using i(2) by (simp add: verify_state_tx_task_def)
    have "tconn_tx_task_handler gt env ?tc = tconn_do_record_send gt env ?tc"
      using i(2) False st by (simp add: tconn_tx_task_handler_def verify_state_tx_task_def)
    then show ?thesis using do_record_send_inv [OF assms(1,2), of ?tc] i st by simp
  qed
qed

lemma set_open_tasks:
  "verify_state_pollin (tc\<lparr>tn_open := b\<rparr>) = verify_state_pollin tc"
  "verify_state_pollout (tc\<lparr>tn_open := b\<rparr>) = verify_state_pollout tc"
  "verify_state_rx_task gt (tc\<lparr>tn_open := b\<rparr>) = verify_state_rx_task gt tc"
  "verify_state_tx_task gt (tc\<lparr>tn_open := b\<rparr>) = verify_state_tx_task gt tc"
  "io_ok (tc\<lparr>tn_open := b\<rparr>) = io_ok tc"
  by (simp_all add: verify_state_pollin_def verify_state_pollout_def verify_state_rx_task_def verify_state_tx_task_def io_ok_def)

lemma set_open: "tls_inv gt (tc\<lparr>tn_open := b\<rparr>) = tls_inv gt tc"
  by (simp add: tls_inv_def verify_state_def tls_sound_def set_open_tasks)

lemma tconn_start_inv:
  assumes "gnutls_ok gt" "sender_ok (tl_send env)" "tl_nodelay env"
  shows "\<exists>ret tc' nt. tconn_start gt st env tc = Inr (ret, tc', nt) \<and> (ret = 0 \<longrightarrow> tls_inv gt tc' \<and> tn_open tc')"
proof (cases "ts_init st")
  case None
  then show ?thesis by (simp add: tconn_start_def)
next
  case (Some s)
  let ?tc = "tc\<lparr>tn_sess := s, tn_handler_in := True, tn_handler_out := False, tn_io_error := 0,
                 tn_rx_task := False, tn_rx := [], tn_rx_eof := False, tn_tx_task := False, tn_tx := [], tn_state := TLS_HANDSHAKE\<rparr>"
  have "tls_sound gt ?tc" by (simp add: tls_sound_def io_ok_def)
  then obtain ret tc' nt where h: "tconn_do_handshake gt env False ?tc = Inr (ret, tc', nt)" "tls_inv gt tc'"
    using do_handshake_inv [OF assms, of ?tc False] by auto
  have "tls_inv gt (tc'\<lparr>tn_open := True\<rparr>)"
    using h(2) by (simp add: set_open)
  with h(1) Some show ?thesis by (auto simp: tconn_start_def tconn_start_handshake_def Let_def)
qed

lemma destroy_inv: "tls_inv gt tc \<Longrightarrow> tn_open tc \<Longrightarrow> \<exists>tc'. tconn_destroy gt tc = Inr tc'"
  by (simp add: tconn_destroy_def tls_inv_verify)

section \<open>What may happen to a session\<close>

text \<open>
  The event loop calls a handler that is set, with what \<^verbatim>\<open>recv\<close> or \<^verbatim>\<open>send\<close> answer, and a task that
  is registered; the user sends a record.
\<close>

datatype 'u tls_event =
    Ev_in recv_result
  | Ev_out sender
  | Ev_rx_task "'u tls_env"
  | Ev_tx_task "'u tls_env"
  | Ev_send "'u tls_env" bytes

fun tls_enabled :: "'u tls_event \<Rightarrow> ('s, 'u) tconn \<Rightarrow> bool" where
  "tls_enabled (Ev_in r) tc \<longleftrightarrow> tn_handler_in tc"
| "tls_enabled (Ev_out sndr) tc \<longleftrightarrow> tn_handler_out tc"
| "tls_enabled (Ev_rx_task env) tc \<longleftrightarrow> tn_rx_task tc"
| "tls_enabled (Ev_tx_task env) tc \<longleftrightarrow> tn_tx_task tc"
| "tls_enabled (Ev_send env r) tc \<longleftrightarrow> True"

fun tls_step :: "'s gnutls \<Rightarrow> 'u tls_event \<Rightarrow> ('s, 'u) tconn \<Rightarrow> ('s, 'u) tconn handled" where
  "tls_step gt (Ev_in r) tc = tconn_fd_handler_in gt r tc"
| "tls_step gt (Ev_out sndr) tc = tconn_fd_handler_out gt sndr tc"
| "tls_step gt (Ev_rx_task env) tc = hbind (tconn_rx_task_handler gt env (tc\<lparr>tn_rx_task := False\<rparr>)) (\<lambda>(tc, _). Inr tc)"
| "tls_step gt (Ev_tx_task env) tc = hbind (tconn_tx_task_handler gt env (tc\<lparr>tn_tx_task := False\<rparr>)) (\<lambda>(tc, _). Inr tc)"
| "tls_step gt (Ev_send env r) tc = hbind (tconn_record_send gt env r tc) (\<lambda>(_, tc). Inr tc)"

text \<open>
  What the code needs.  Of the system: error numbers are not 0, \<^verbatim>\<open>send\<close> is as described, and
  \<^verbatim>\<open>setsockopt\<close> works.  Of the order of events: the descriptor is read, and gets an error, only when
  the task that reads has run; the peer does not end the stream while the buffer to it
  is full.
\<close>

definition tls_env_ok :: "'u tls_env \<Rightarrow> bool" where
  "tls_env_ok env \<longleftrightarrow> sender_ok (tl_send env) \<and> tl_nodelay env"

fun tls_allowed :: "'s gnutls \<Rightarrow> 'u tls_event \<Rightarrow> ('s, 'u) tconn \<Rightarrow> bool" where
  "tls_allowed gt (Ev_in (Recv bs)) tc \<longleftrightarrow> bs \<noteq> [] \<and> \<not> tn_rx_task tc"
| "tls_allowed gt (Ev_in Recv_eof) tc \<longleftrightarrow> length (tn_tx tc) < BUF_SIZE"
| "tls_allowed gt (Ev_in (Recv_errno e)) tc \<longleftrightarrow> e \<noteq> 0 \<and> \<not> tn_rx_task tc"
| "tls_allowed gt (Ev_out sndr) tc \<longleftrightarrow> sender_ok sndr \<and>
     (case sndr (tn_sent tc) (tn_tx tc) of
        Send_errno e \<Rightarrow> e = EAGAIN \<or> tn_state tc = TLS_HANDSHAKE \<or> \<not> gt_pending gt (tn_sess tc)
      | Sent n \<Rightarrow> True)"
| "tls_allowed gt (Ev_rx_task env) tc \<longleftrightarrow> tls_env_ok env"
| "tls_allowed gt (Ev_tx_task env) tc \<longleftrightarrow> tls_env_ok env"
| "tls_allowed gt (Ev_send env r) tc \<longleftrightarrow> tls_env_ok env"

inductive tls_reach :: "'s gnutls \<Rightarrow> ('s, 'u) tconn \<Rightarrow> bool" for gt where
  tls_started: "tls_env_ok env \<Longrightarrow> tconn_start gt st env tc = Inr (0, tc', nt) \<Longrightarrow> tls_reach gt tc'"
| tls_stepped: "tls_reach gt tc \<Longrightarrow> tls_enabled ev tc \<Longrightarrow> tls_allowed gt ev tc \<Longrightarrow> tls_step gt ev tc = Inr tc' \<Longrightarrow> tls_reach gt tc'"

inductive_simps tls_reach_iff: "tls_reach gt tc"

lemma tls_step_inv:
  assumes "gnutls_ok gt" "tls_inv gt tc" "tls_enabled ev tc" "tls_allowed gt ev tc"
  shows "\<exists>tc'. tls_step gt ev tc = Inr tc' \<and> tls_inv gt tc' \<and> tn_open tc' = tn_open tc"
proof (cases ev)
  case (Ev_in r)
  then show ?thesis
    using assms handler_in_data [OF assms(2)] handler_in_eof [OF assms(2)] handler_in_errno [OF assms(2)] by (cases r) simp_all
next
  case (Ev_out sndr)
  then have "\<forall>e. sndr (tn_sent tc) (tn_tx tc) = Send_errno e \<longrightarrow> e = EAGAIN \<or> tn_state tc = TLS_HANDSHAKE \<or> \<not> gt_pending gt (tn_sess tc)"
    using assms(4) by (auto split: send_result.splits)
  with handler_out_inv [where sndr = sndr, OF assms(2)] Ev_out assms(3,4) show ?thesis by auto
next
  case (Ev_rx_task env)
  then show ?thesis using rx_task_inv [OF assms(1) _ _ assms(2), of env] assms(3,4) by (auto simp: tls_env_ok_def)
next
  case (Ev_tx_task env)
  then show ?thesis using tx_task_inv [OF assms(1) _ _ assms(2), of env] assms(3,4) by (auto simp: tls_env_ok_def)
next
  case (Ev_send env r)
  then show ?thesis using record_send_inv [OF assms(1) _ assms(2), of env r] assms(4) by (auto simp: tls_env_ok_def)
qed

lemma tls_reach_inv: "tls_reach gt tc \<Longrightarrow> gnutls_ok gt \<Longrightarrow> tls_inv gt tc \<and> tn_open tc"
proof (induction rule: tls_reach.induct)
  case (tls_started env st tc tc' nt)
  then show ?case using tconn_start_inv [of gt env st tc] by (simp add: tls_env_ok_def)
next
  case (tls_stepped tc ev tc')
  then show ?case using tls_step_inv [of gt tc ev] by auto
qed

text \<open>
  C7: \<^verbatim>\<open>verify_state\<close> never stops the process, and no task is registered twice: \<^verbatim>\<open>tconn_start\<close>
  returns, and in every state that it and the handlers, the tasks and \<^verbatim>\<open>tconn_record_send\<close> lead to,
  whatever gnutls and the socket answer, the state is as \<^verbatim>\<open>verify_state\<close> wants it, each of these
  runs to its end, and so does \<^verbatim>\<open>tconn_destroy\<close>.  The order of the events is constrained as given by
  \<open>tls_allowed\<close>.
\<close>

theorem tconn_never_aborts:
  assumes "gnutls_ok gt"
  shows "(tls_env_ok env \<longrightarrow> (\<exists>r. tconn_start gt st env tc = Inr r)) \<and>
    (tls_reach gt tc' \<longrightarrow> verify_state gt tc' = Inr () \<and> (\<exists>tc''. tconn_destroy gt tc' = Inr tc'') \<and>
       (tls_enabled ev tc' \<longrightarrow> tls_allowed gt ev tc' \<longrightarrow> (\<exists>tc''. tls_step gt ev tc' = Inr tc'')))"
proof (intro conjI impI)
  show "\<exists>r. tconn_start gt st env tc = Inr r" if x: "tls_env_ok env"
    using tconn_start_inv [OF assms, of env st tc] x by (auto simp: tls_env_ok_def)
next
  assume "tls_reach gt tc'"
  from tls_reach_inv [OF this assms] have i: "tls_inv gt tc'" "tn_open tc'" by simp_all
  show "verify_state gt tc' = Inr ()" by (rule tls_inv_verify [OF i(1)])
  show "\<exists>tc''. tconn_destroy gt tc' = Inr tc''" by (rule destroy_inv [OF i])
  show "\<exists>tc''. tls_step gt ev tc' = Inr tc''" if x: "tls_enabled ev tc'" "tls_allowed gt ev tc'"
    using tls_step_inv [OF assms i(1) x] by blast
qed

text \<open>
  A session that satisfies what is needed of gnutls: the handshake sends one byte and then waits for
  one; what is sent has one byte before it, and what is received is taken as it is.  The number tells
  how far the handshake is.
\<close>

definition sample_again :: "nat \<Rightarrow> nat \<Rightarrow> int \<Rightarrow> nat gtls" where
  "sample_again s s' e = (if e = EAGAIN then Gret GNUTLS_E_AGAIN [] s' else Gret (-54) [] s)"

definition sample_pull :: "nat \<Rightarrow> nat \<Rightarrow> nat \<Rightarrow> (bytes \<Rightarrow> nat gtls) \<Rightarrow> nat gtls" where
  "sample_pull s s' len k = Gpull len (\<lambda>r. case r of Pulled bs \<Rightarrow> k bs | Pull_eof \<Rightarrow> Gret (-110) [] s | Pull_errno e \<Rightarrow> sample_again s s' e)"

definition sample_push :: "nat \<Rightarrow> nat \<Rightarrow> bytes \<Rightarrow> (nat \<Rightarrow> nat gtls) \<Rightarrow> nat gtls" where
  "sample_push s s' buf k = Gpush buf (\<lambda>r. case r of Pushed n \<Rightarrow> k n | Push_errno e \<Rightarrow> sample_again s s' e)"

definition sample_gnutls :: "nat gnutls" where
  "sample_gnutls = \<lparr>
     gt_handshake = (\<lambda>s. if s = 0 then sample_push s 0 [22] (\<lambda>n. sample_pull 0 1 1 (\<lambda>bs. Gret 0 [] 2))
        else sample_pull s 1 1 (\<lambda>bs. Gret 0 [] 2)),
     gt_recv = (\<lambda>s. sample_pull s s 8 (\<lambda>bs. Gret (int (length bs)) bs s)),
     gt_send = (\<lambda>s r. sample_push s s (23 # r) (\<lambda>n. Gret (int n) [] s)),
     gt_direction = (\<lambda>s. s = 0),
     gt_pending = (\<lambda>s. False)\<rparr>"

definition sample_sender :: sender where
  "sample_sender sent buf = Sent (if buf = [] then 0 else 1)"

definition sample_tls_env :: "unit tls_env" where
  "sample_tls_env = \<lparr>tl_send = sample_sender, tl_nodelay = True, tl_malloc = True, tl_crt = (\<lambda>_. None), tl_verify = (\<lambda>_ _ u. (0, u))\<rparr>"

definition sample_tls_start :: "nat tls_start" where
  "sample_tls_start = \<lparr>ts_init = Some 0, ts_priority = 0, ts_allocate = 0, ts_set_key = 0, ts_set_credentials = 0\<rparr>"

definition sample_tconn :: "(nat, unit) tconn" where
  "sample_tconn = \<lparr>tn_state = TLS_DEAD, tn_sess = 0, tn_open = False, tn_user = (), tn_io_error = 0, tn_rx_task = False, tn_rx = [],
     tn_rx_eof = False, tn_tx_task = False, tn_tx = [], tn_handler_in = False, tn_handler_out = False, tn_sent = []\<rparr>"

lemma sample_gnutls_ok: "gnutls_ok sample_gnutls"
  by (auto simp: gnutls_ok_def sample_gnutls_def sample_pull_def sample_push_def sample_again_def returns_failure_def returns_again_def
      gt_fails_def GNUTLS_E_AGAIN_def GNUTLS_E_REHANDSHAKE_def)

lemma sample_tls_env_ok: "tls_env_ok sample_tls_env"
  by (auto simp: tls_env_ok_def sample_tls_env_def sender_ok_def sample_sender_def Suc_le_eq)

lemmas sample_run = sample_gnutls_def sample_pull_def sample_push_def sample_again_def sample_tls_env_def sample_sender_def
  sample_tls_start_def sample_tconn_def tconn_start_def tconn_start_handshake_def tconn_do_handshake_def gtls_call_def
  tconn_gtls_pull_func_def tconn_gtls_push_func_def push_again.simps BUF_SIZE_def EAGAIN_def GNUTLS_E_AGAIN_def tconn_tx_flush_def
  verify_state_def verify_state_pollin_def verify_state_pollout_def verify_state_rx_task_def verify_state_tx_task_def
  tconn_fd_handler_in_def rx_task_register_def rx_task_if_needed_def tconn_rx_task_handler_def Let_def

lemma sample_started:
  "tconn_start sample_gnutls sample_tls_start sample_tls_env sample_tconn =
     Inr (0, sample_tconn\<lparr>tn_state := TLS_HANDSHAKE, tn_sess := 1, tn_open := True, tn_handler_in := True, tn_sent := [22]\<rparr>, None)"
  by (simp add: sample_run)

lemma sample_received:
  "tls_step sample_gnutls (Ev_in (Recv [2, 7]))
     (sample_tconn\<lparr>tn_state := TLS_HANDSHAKE, tn_sess := 1, tn_open := True, tn_handler_in := True, tn_sent := [22]\<rparr>) =
   Inr (sample_tconn\<lparr>tn_state := TLS_HANDSHAKE, tn_sess := 1, tn_open := True, tn_rx_task := True, tn_rx := [2, 7], tn_sent := [22]\<rparr>)"
  by (simp add: sample_run)

lemma sample_running:
  "tls_step sample_gnutls (Ev_rx_task sample_tls_env)
     (sample_tconn\<lparr>tn_state := TLS_HANDSHAKE, tn_sess := 1, tn_open := True, tn_rx_task := True, tn_rx := [2, 7], tn_sent := [22]\<rparr>) =
   Inr (sample_tconn\<lparr>tn_state := TLS_RUNNING, tn_sess := 2, tn_open := True, tn_rx_task := True, tn_rx := [7], tn_sent := [22]\<rparr>)"
  by (simp add: sample_run)

lemma sample_running_reach:
  "tls_reach sample_gnutls (sample_tconn\<lparr>tn_state := TLS_RUNNING, tn_sess := 2, tn_open := True, tn_rx_task := True, tn_rx := [7], tn_sent := [22]\<rparr>)"
proof -
  have "tls_reach sample_gnutls (sample_tconn\<lparr>tn_state := TLS_HANDSHAKE, tn_sess := 1, tn_open := True, tn_handler_in := True, tn_sent := [22]\<rparr>)"
    by (rule tls_started [OF sample_tls_env_ok sample_started])
  from tls_stepped [OF this _ _ sample_received]
  have "tls_reach sample_gnutls (sample_tconn\<lparr>tn_state := TLS_HANDSHAKE, tn_sess := 1, tn_open := True, tn_rx_task := True, tn_rx := [2, 7], tn_sent := [22]\<rparr>)"
    by (simp add: sample_tconn_def)
  from tls_stepped [OF this _ _ sample_running]
  show ?thesis by (simp add: sample_tconn_def sample_tls_env_ok)
qed

theorem tconn_never_aborts_witness:
  "tls_reach sample_gnutls (sample_tconn\<lparr>tn_state := TLS_RUNNING, tn_sess := 2, tn_open := True, tn_rx_task := True, tn_rx := [7], tn_sent := [22]\<rparr>) \<and>
   (\<exists>tc'. tls_step sample_gnutls (Ev_rx_task sample_tls_env)
      (sample_tconn\<lparr>tn_state := TLS_RUNNING, tn_sess := 2, tn_open := True, tn_rx_task := True, tn_rx := [7], tn_sent := [22]\<rparr>) = Inr tc')"
  using tconn_never_aborts [OF sample_gnutls_ok, THEN conjunct2, rule_format, OF sample_running_reach, THEN conjunct2, THEN conjunct2, rule_format,
      of "Ev_rx_task sample_tls_env"] sample_running_reach
  by (simp add: sample_tls_env_ok)

section \<open>When the process stops\<close>

lemma handler_in_registered:
  assumes "tls_inv gt tc" "tn_handler_in tc" "tn_rx_task tc"
  shows "tconn_fd_handler_in gt (Recv bs) tc = Inl Iv_fatal"
proof -
  note s = handler_in_start [OF assms(1,2)]
  have "tn_state tc = TLS_RUNNING \<or> tn_state tc = TLS_TX_CONGESTION" using s assms(3) by (auto simp: verify_state_rx_task_def)
  then show ?thesis using s(6) tls_inv_verify [OF assms(1)] assms(3) by (auto simp: tconn_fd_handler_in_def rx_task_register_def)
qed

lemma handler_in_eof_outcome:
  assumes "tls_inv gt tc" "tn_handler_in tc"
  shows "tconn_fd_handler_in gt Recv_eof tc = Inl (Called Abort) \<and> tls_write_blocked gt tc \<or>
    (\<exists>tc'. tconn_fd_handler_in gt Recv_eof tc = Inr tc') \<and> \<not> tls_write_blocked gt tc"
proof -
  note s = handler_in_start [OF assms(1,2)]
  obtain tc1 where g: "got_io_error gt (tc\<lparr>tn_rx_eof := True\<rparr>) = Inr tc1" unfolding got_io_error_eq by blast
  have bufs: "tn_io_error tc1 = 0" "tn_rx_eof tc1" "tn_rx tc1 = []" "tn_tx tc1 = tn_tx tc" "tn_state tc1 = tn_state tc" "tn_sess tc1 = tn_sess tc"
      "\<not> tn_handler_in tc1" "\<not> tn_handler_out tc1" "length (tn_tx tc) \<le> BUF_SIZE"
    using g s(5-8) unfolding got_io_error_eq by (auto simp: io_ok_def)
  have tasks: "tn_rx_task tc1 \<longleftrightarrow> tn_rx_task tc \<or> (tn_state tc = TLS_HANDSHAKE \<and> \<not> gt_direction gt (tn_sess tc)) \<or>
        tn_state tc = TLS_RUNNING \<or> tn_state tc = TLS_TX_CONGESTION"
      "tn_tx_task tc1 \<longleftrightarrow> tn_tx_task tc \<or> (tn_state tc = TLS_HANDSHAKE \<and> gt_direction gt (tn_sess tc)) \<or> tn_state tc = TLS_TX_CONGESTION"
    using g unfolding got_io_error_eq by auto
  have rx: "tn_rx_task tc1 \<longleftrightarrow> verify_state_rx_task gt tc1"
    using tasks(1) s(3,6-8) bufs by (cases "tn_state tc") (simp_all add: verify_state_rx_task_def)
  have tx: "(tn_tx_task tc1 \<longleftrightarrow> verify_state_tx_task gt tc1) \<longleftrightarrow> \<not> tls_write_blocked gt tc"
    using tasks(2) s(4,8) bufs by (cases "tn_state tc") (auto simp: verify_state_tx_task_def tls_write_blocked_def)
  have "verify_state_pollin tc1 = False" "verify_state_pollout tc1 \<or> \<not> tn_handler_out tc1" using bufs by (simp_all add: verify_state_pollin_def)
  then have "verify_state gt tc1 = (if tls_write_blocked gt tc then Inl (Called Abort) else Inr ())"
    using bufs(7,8) rx tx by (auto simp: verify_state_def)
  then show ?thesis using s(6) g tls_inv_verify [OF assms(1)] by (simp add: tconn_fd_handler_in_def)
qed

lemma handler_in_errno_outcome:
  assumes "tls_inv gt tc" "tn_handler_in tc" "e \<noteq> 0"
  shows "\<exists>tc'. tconn_fd_handler_in gt (Recv_errno e) tc = Inr tc'"
proof (cases "e = EAGAIN \<or> \<not> tn_rx_task tc")
  case True
  then show ?thesis
    using handler_in_errno [OF assms(1,2) _ assms(3)] handler_in_start(6) [OF assms(1,2)] tls_inv_verify [OF assms(1)]
    by (auto simp: tconn_fd_handler_in_def)
next
  case False
  note s = handler_in_start [OF assms(1,2)]
  obtain tc1 where g: "got_io_error gt (tc\<lparr>tn_io_error := e\<rparr>) = Inr tc1" unfolding got_io_error_eq by blast
  have st: "tn_state tc = TLS_RUNNING \<or> tn_state tc = TLS_TX_CONGESTION" using s False by (auto simp: verify_state_rx_task_def)
  have bufs: "tn_io_error tc1 = e" "tn_state tc1 = tn_state tc" "\<not> tn_handler_in tc1" "\<not> tn_handler_out tc1" "tn_rx_task tc1"
      "tn_tx_task tc1 \<longleftrightarrow> tn_state tc = TLS_TX_CONGESTION"
    using g s(4) st unfolding got_io_error_eq by (auto simp: verify_state_tx_task_def)
  then have "verify_state gt tc1 = Inr ()"
    using st assms(3) by (auto simp: verify_iff verify_state_pollin_def verify_state_rx_task_def verify_state_tx_task_def)
  then show ?thesis using False s(6) g tls_inv_verify [OF assms(1)] by (simp add: tconn_fd_handler_in_def)
qed

text \<open>
  C32: When the descriptor can be read, the process is stopped in two situations, and in no other: the
  peer ends the stream while the session waits to write and its buffer is full, as the task that writes is
  then registered, which \<^verbatim>\<open>verify_state\<close> does not want; or data arrive while the task that reads
  is still registered, as it is then registered twice.
\<close>

theorem tconn_handler_in_stops:
  assumes "gnutls_ok gt" "tls_reach gt tc" "tn_handler_in tc"
    "case r of Recv bs \<Rightarrow> bs \<noteq> [] | Recv_eof \<Rightarrow> True | Recv_errno e \<Rightarrow> e \<noteq> 0"
  shows "(\<exists>f. tconn_fd_handler_in gt r tc = Inl f) \<longleftrightarrow>
    (case r of Recv bs \<Rightarrow> tn_rx_task tc | Recv_eof \<Rightarrow> tls_write_blocked gt tc | Recv_errno e \<Rightarrow> False)"
proof -
  have inv: "tls_inv gt tc" using tls_reach_inv [OF assms(2,1)] by simp
  show ?thesis
  proof (cases r)
    case (Recv bs)
    then show ?thesis
      using assms(4) handler_in_data [OF inv assms(3), of bs] handler_in_registered [OF inv assms(3), of bs] by (cases "tn_rx_task tc") auto
  next
    case Recv_eof
    then show ?thesis using handler_in_eof_outcome [OF inv assms(3)] by auto
  next
    case (Recv_errno e)
    then show ?thesis using assms(4) handler_in_errno_outcome [OF inv assms(3), of e] by auto
  qed
qed

text \<open>
  After an I/O error, when gnutls still has a record, the record is returned, but the task is not
  registered again, though \<^verbatim>\<open>verify_state\<close> wants it for the error.
\<close>

lemma record_recv_after_error:
  assumes "run_gtls env (gt_recv gt (tn_sess tc)) tc = (ret, buf, tc')" "0 < ret" "tn_state tc' = TLS_RUNNING" "tn_io_error tc' \<noteq> 0"
    "\<not> tn_rx_task tc'" "tn_rx tc' = []" "\<not> tn_rx_eof tc'" "\<not> gt_pending gt (tn_sess tc')"
  shows "tconn_do_record_recv gt env tc = Inl (Called Abort)"
proof -
  have "verify_state gt tc' = Inl (Called Abort)"
    using assms(3-8) by (auto simp: verify_state_def verify_state_rx_task_def)
  moreover have "ret \<noteq> GNUTLS_E_AGAIN" "(ret < 0 \<and> ret \<noteq> GNUTLS_E_REHANDSHAKE \<or> ret = 0) = False" using assms(2) by (auto simp: GNUTLS_E_AGAIN_def)
  moreover have "rx_task_if_needed gt tc' = Inr tc'" using assms(6-8) by (simp add: rx_task_if_needed_def)
  ultimately show ?thesis using assms(1) unfolding tconn_do_record_recv_def by simp
qed

text \<open>The first situation arises: the socket takes nothing, and two records are sent.\<close>

definition sample_blocked_env :: "unit tls_env" where
  "sample_blocked_env = sample_tls_env\<lparr>tl_send := (\<lambda>sent buf. Send_errno EAGAIN)\<rparr>"

lemma sample_blocked_env_ok: "tls_env_ok sample_blocked_env"
  by (simp add: tls_env_ok_def sample_blocked_env_def sample_tls_env_def sender_ok_def EAGAIN_def)

definition sample_idle :: "(nat, unit) tconn" where
  "sample_idle = sample_tconn\<lparr>tn_state := TLS_RUNNING, tn_sess := 2, tn_open := True, tn_handler_in := True, tn_sent := [22]\<rparr>"

lemma sample_read:
  "tls_step sample_gnutls (Ev_rx_task sample_tls_env)
     (sample_tconn\<lparr>tn_state := TLS_RUNNING, tn_sess := 2, tn_open := True, tn_rx_task := True, tn_rx := [7], tn_sent := [22]\<rparr>) = Inr sample_idle"
  by (simp add: sample_run sample_idle_def tconn_do_record_recv_def)

lemma sample_filled:
  assumes "length r = BUF_SIZE - 1"
  shows "tls_step sample_gnutls (Ev_send sample_blocked_env r) sample_idle = Inr (sample_idle\<lparr>tn_tx := 23 # r, tn_handler_out := True\<rparr>)"
proof -
  let ?full = "sample_idle\<lparr>tn_tx := 23 # r, tn_handler_out := True\<rparr>"
  have again: "push_again (\<lambda>sent buf. Send_errno EAGAIN) (23 # r) 0 sample_idle = (Pushed BUF_SIZE, ?full)"
    using assms by (subst push_again_eq [OF refl refl]) (simp add: sample_idle_def sample_tconn_def)
  have idle: "tn_io_error sample_idle = 0" "length (tn_tx sample_idle) \<noteq> BUF_SIZE" "tn_sess sample_idle = 2" "tn_state sample_idle = TLS_RUNNING"
    by (simp_all add: sample_idle_def sample_tconn_def BUF_SIZE_def)
  have set_sess: "?full\<lparr>tn_sess := 2\<rparr> = ?full" by (simp add: sample_idle_def)
  have run: "run_gtls sample_blocked_env (gt_send sample_gnutls 2 r) sample_idle = (int BUF_SIZE, [], ?full)"
    using idle again set_sess
    by (simp add: sample_blocked_env_def sample_gnutls_def sample_push_def tconn_gtls_push_func_def sample_tls_env_def)
  have call: "gtls_call sample_blocked_env (\<lambda>ret. 0 < ret) (\<lambda>s. gt_send sample_gnutls s r) (\<lambda>s. gt_send sample_gnutls s []) sample_idle =
      (int BUF_SIZE, ?full)"
    using idle run by (simp add: gtls_call_def tconn_tx_flush_def)
  have "verify_state sample_gnutls sample_idle = Inr ()" "verify_state sample_gnutls ?full = Inr ()"
    by (simp_all add: verify_iff verify_state_pollin_def verify_state_pollout_def verify_state_rx_task_def verify_state_tx_task_def
        sample_idle_def sample_tconn_def sample_gnutls_def)
  moreover have "int BUF_SIZE \<noteq> GNUTLS_E_AGAIN" by (simp add: GNUTLS_E_AGAIN_def BUF_SIZE_def)
  ultimately show ?thesis using idle call by (simp add: tconn_record_send_def)
qed

lemma sample_blocks:
  assumes "length r = BUF_SIZE - 1"
  shows "tls_step sample_gnutls (Ev_send sample_blocked_env [1]) (sample_idle\<lparr>tn_tx := 23 # r, tn_handler_out := True\<rparr>) =
    Inr (sample_idle\<lparr>tn_tx := 23 # r, tn_handler_out := True, tn_state := TLS_TX_CONGESTION\<rparr>)"
  using assms
  by (simp add: tconn_record_send_def sample_gnutls_def gtls_call_def sample_push_def sample_again_def tconn_gtls_push_func_def
      sample_idle_def sample_tconn_def tconn_tx_flush_def sample_blocked_env_def verify_iff verify_state_pollin_def verify_state_pollout_def
      verify_state_rx_task_def verify_state_tx_task_def Let_def)

lemma sample_idle_reach: "tls_reach sample_gnutls sample_idle"
  by (rule tls_stepped [OF sample_running_reach _ _ sample_read]) (simp_all add: sample_tls_env_ok)

theorem tconn_handler_in_stops_witness:
  "\<exists>tc :: (nat, unit) tconn. tls_reach sample_gnutls tc \<and> tn_handler_in tc \<and> tls_write_blocked sample_gnutls tc \<and>
     (\<exists>f. tconn_fd_handler_in sample_gnutls Recv_eof tc = Inl f)"
proof -
  obtain r :: bytes where r: "length r = BUF_SIZE - 1" using Ex_list_of_length by blast
  let ?full = "sample_idle\<lparr>tn_tx := 23 # r, tn_handler_out := True\<rparr>"
  let ?tc = "?full\<lparr>tn_state := TLS_TX_CONGESTION\<rparr>"
  have "tls_reach sample_gnutls ?full"
    by (rule tls_stepped [OF sample_idle_reach _ _ sample_filled [OF r]]) (simp_all add: sample_blocked_env_ok)
  then have reach: "tls_reach sample_gnutls ?tc"
    by (rule tls_stepped [OF _ _ _ sample_blocks [OF r]]) (simp_all add: sample_blocked_env_ok)
  moreover have "tn_handler_in ?tc" "tls_write_blocked sample_gnutls ?tc"
    using r by (simp_all add: sample_idle_def tls_write_blocked_def)
  moreover have "\<exists>f. tconn_fd_handler_in sample_gnutls Recv_eof ?tc = Inl f"
    using tconn_handler_in_stops [OF sample_gnutls_ok reach calculation(2), of Recv_eof] calculation(3) by simp
  ultimately show ?thesis by blast
qed

section \<open>The key ids of a chain\<close>

lemma verify_certs_later:
  "length id0 = NODE_ID_LEN \<Longrightarrow> 0 < i \<Longrightarrow> map imp ders = map Some cs \<Longrightarrow>
   verify_certs imp i ders (id0 @ ids) = Some (id0 @ ids @ concat (map crt_id (filter (\<lambda>c. crt_dn c = Some (expected_dn id0)) cs)))"
proof (induction ders arbitrary: i ids cs)
  case (Cons der ders)
  then obtain c cs' where c: "cs = c # cs'" "imp der = Some c" "map imp ders = map Some cs'" by (cases cs) auto
  have refers: "cert_refers_to_nodeid c id0 \<longleftrightarrow> crt_dn c = Some (expected_dn id0)"
    by (auto simp: cert_refers_to_nodeid_def split: option.splits)
  have "verify_certs imp (i + 1) ders (id0 @ ids') =
      Some (id0 @ ids' @ concat (map crt_id (filter (\<lambda>c. crt_dn c = Some (expected_dn id0)) cs')))" for ids'
    by (rule Cons.IH [OF Cons.prems(1) _ c(3)]) simp
  from this [of ids] this [of "ids @ crt_id c"] show ?case using Cons.prems(1,2) c(1,2) refers by (cases "crt_dn c = Some (expected_dn id0)") simp_all
qed simp

lemma length_concat_ids: "(\<And>c. c \<in> set cs \<Longrightarrow> length (crt_id c) = n) \<Longrightarrow> length (concat (map crt_id cs)) = length cs * n"
  by (induction cs) auto

lemma verify_certs_invalid: "None \<in> set (map imp ders) \<Longrightarrow> verify_certs imp i ders ids = None"
  by (induction ders arbitrary: i ids) (auto split: option.splits)

text \<open>
  C33: \<^verbatim>\<open>tconn_verify_cert\<close>: the user is asked about the id of the key of the first certificate, followed
  by the ids of the keys of those later certificates whose name is the hexadecimal form of the first
  id, and of no others; when one of them cannot be read the chain is refused and the user is not asked.  No
  signature takes part in it.
\<close>

theorem tconn_verify_cert_ids:
  assumes "\<And>der c. tl_crt env der = Some c \<Longrightarrow> length (crt_id c) = NODE_ID_LEN" "tl_malloc env"
  shows "tconn_verify_cert env certs u =
    (if certs = [] \<or> None \<in> set (map (tl_crt env) certs) then (1, u)
     else let c0 = the (tl_crt env (hd certs));
              ids = crt_id c0 # map crt_id (filter (\<lambda>c. crt_dn c = Some (expected_dn (crt_id c0))) (map (the \<circ> tl_crt env) (tl certs)))
          in tl_verify env (concat ids) (length ids) u)"
proof (cases "certs = [] \<or> None \<in> set (map (tl_crt env) certs)")
  case True
  then show ?thesis
  proof
    assume "None \<in> set (map (tl_crt env) certs)"
    from verify_certs_invalid [OF this, of 0 "[]"] this show ?thesis by (auto simp: tconn_verify_cert_def)
  qed (simp add: tconn_verify_cert_def)
next
  case False
  then obtain der ders where certs: "certs = der # ders" by (cases certs) auto
  define cs where "cs = map (the \<circ> tl_crt env) ders"
  obtain c0 where c0: "tl_crt env der = Some c0" using False certs by (cases "tl_crt env der") auto
  have "\<exists>c. tl_crt env d = Some c" if x: "d \<in> set ders" for d
    using False certs x by (cases "tl_crt env d") (auto simp: image_iff)
  then have cs: "map (tl_crt env) ders = map Some cs" unfolding cs_def by fastforce
  let ?fs = "filter (\<lambda>c. crt_dn c = Some (expected_dn (crt_id c0))) cs"
  have len0: "length (crt_id c0) = NODE_ID_LEN" using assms(1) c0 .
  have "verify_certs (tl_crt env) 0 certs [] = Some (concat (map crt_id (c0 # ?fs)))"
    using verify_certs_later [OF len0 _ cs, of 1 "[]"] c0 certs by simp
  moreover have "length (crt_id c) = NODE_ID_LEN" if x: "c \<in> set (c0 # ?fs)" for c
  proof -
    have "Some c \<in> set (map (tl_crt env) certs)" using x c0 cs certs by auto
    then show ?thesis using assms(1) by auto
  qed
  then have "length (concat (map crt_id (c0 # ?fs))) = length (c0 # ?fs) * NODE_ID_LEN" by (rule length_concat_ids)
  ultimately show ?thesis using certs c0 cs assms(2) False by (simp add: tconn_verify_cert_def Let_def cs_def NODE_ID_LEN_def)
qed

definition sample_chain_env :: "bytes tls_env" where
  "sample_chain_env = \<lparr>tl_send = sample_sender, tl_nodelay = True, tl_malloc = True,
     tl_crt = (\<lambda>der. if der = [1] then Some \<lparr>crt_id = replicate 32 7, crt_dn = None\<rparr>
        else if der = [2] then Some \<lparr>crt_id = replicate 32 8, crt_dn = Some (expected_dn (replicate 32 7))\<rparr>
        else if der = [3] then Some \<lparr>crt_id = replicate 32 9, crt_dn = Some []\<rparr> else None),
     tl_verify = (\<lambda>ids n u. (int n, ids))\<rparr>"

theorem tconn_verify_cert_ids_witness:
  "tconn_verify_cert sample_chain_env [[1], [3], [2]] [] = (2, replicate 32 7 @ replicate 32 8)"
  by (subst tconn_verify_cert_ids) (auto simp: sample_chain_env_def NODE_ID_LEN_def expected_dn_def cstr_def split: if_splits)

section \<open>The bytes in the buffers\<close>

text \<open>What gnutls has read and what was taken of its bytes in the course of an event, and what the socket has given.\<close>

fun tls_event_log :: "'s gnutls \<Rightarrow> 'u tls_event \<Rightarrow> ('s, 'u) tconn \<Rightarrow> bytes \<times> bytes" where
  "tls_event_log gt (Ev_rx_task env) tc =
     gtls_log env (if tn_state tc = TLS_HANDSHAKE then gt_handshake gt (tn_sess tc) else gt_recv gt (tn_sess tc)) (tc\<lparr>tn_rx_task := False\<rparr>)"
| "tls_event_log gt (Ev_tx_task env) tc =
     gtls_log env (if tn_state tc = TLS_HANDSHAKE then gt_handshake gt (tn_sess tc) else gt_send gt (tn_sess tc) []) (tc\<lparr>tn_tx_task := False\<rparr>)"
| "tls_event_log gt (Ev_send env r) tc = (if tn_state tc = TLS_RUNNING then gtls_log env (gt_send gt (tn_sess tc) r) tc else ([], []))"
| "tls_event_log gt ev tc = ([], [])"

fun tls_received :: "'u tls_event \<Rightarrow> bytes" where
  "tls_received (Ev_in (Recv bs)) = bs"
| "tls_received ev = []"

definition same_bufs :: "('s, 'u) tconn \<Rightarrow> ('s, 'u) tconn \<Rightarrow> bool" where
  "same_bufs tc tc' \<longleftrightarrow> tn_rx tc' = tn_rx tc \<and> tn_tx tc' = tn_tx tc \<and> tn_sent tc' = tn_sent tc"

lemma rx_task_if_needed_bufs: "rx_task_if_needed gt tc = Inr tc' \<Longrightarrow> same_bufs tc tc'"
  by (auto simp: rx_task_if_needed_def rx_task_register_def same_bufs_def split: if_splits)

lemma abort_dead: "tconn_connection_abort notify tc = (tc', nt) \<Longrightarrow> tn_state tc' = TLS_DEAD"
  by (auto simp: tconn_connection_abort_def)

lemma do_handshake_bufs:
  assumes "tconn_do_handshake gt env notify tc = Inr (r, tc', nt)" "tn_state tc' \<noteq> TLS_DEAD"
    "gtls_call env (\<lambda>ret. ret = 0) (gt_handshake gt) (gt_handshake gt) tc = (ret, tc1)"
  shows "\<not> gt_fails ret \<and> same_bufs tc1 tc'"
proof (cases "ret = 0")
  case True
  then obtain tc2 where "rx_task_if_needed gt (tc1\<lparr>tn_state := TLS_RUNNING\<rparr>) = Inr tc2" "tc' = tc2"
    using assms(1,3) by (auto simp: tconn_do_handshake_def split: if_splits)
  then show ?thesis using True rx_task_if_needed_bufs by (fastforce simp: same_bufs_def)
next
  case False
  then have "ret = GNUTLS_E_AGAIN"
    using assms by (auto simp: tconn_do_handshake_def dest: abort_dead split: if_splits prod.splits)
  then show ?thesis using assms(1,3) by (auto simp: tconn_do_handshake_def same_bufs_def)
qed

lemma do_record_recv_bufs:
  assumes "tconn_do_record_recv gt env tc = Inr (tc', nt)" "tn_state tc' \<noteq> TLS_DEAD"
    "run_gtls env (gt_recv gt (tn_sess tc)) tc = (ret, buf, tc1)"
  shows "\<not> gt_fails ret \<and> same_bufs tc1 tc'"
proof -
  have "\<not> (ret \<noteq> GNUTLS_E_AGAIN \<and> (ret < 0 \<and> ret \<noteq> GNUTLS_E_REHANDSHAKE \<or> ret = 0))"
    using assms by (auto simp: tconn_do_record_recv_def dest: abort_dead split: if_splits)
  then consider "ret = GNUTLS_E_AGAIN" | "ret \<noteq> GNUTLS_E_AGAIN" "(ret < 0 \<and> ret \<noteq> GNUTLS_E_REHANDSHAKE \<or> ret = 0) = False" by blast
  then show ?thesis
  proof cases
    case 1
    then show ?thesis using assms(1,3) by (simp add: tconn_do_record_recv_def same_bufs_def)
  next
    case 2
    have "rx_task_if_needed gt tc1 = Inr tc'"
      using assms(1) unfolding tconn_do_record_recv_def assms(3) Let_def prod.case if_not_P [OF 2(1)] 2(2) if_False hbind_eq_Inr by (elim exE conjE) simp
    then have "same_bufs tc1 tc'" by (rule rx_task_if_needed_bufs)
    moreover have "\<not> gt_fails ret" using 2(2) unfolding gt_fails_def by blast
    ultimately show ?thesis by blast
  qed
qed

lemma do_record_send_bufs:
  assumes "tconn_do_record_send gt env tc = Inr (tc', nt)" "tn_state tc' \<noteq> TLS_DEAD"
    "gtls_call env (\<lambda>ret. 0 < ret) (\<lambda>s. gt_send gt s []) (\<lambda>s. gt_send gt s []) tc = (ret, tc1)"
  shows "\<not> gt_fails ret \<and> same_bufs tc1 tc'"
  using assms
  by (auto simp: tconn_do_record_send_def gt_fails_def same_bufs_def Let_def dest: abort_dead split: if_splits)

lemma record_send_bufs:
  assumes "tconn_record_send gt env r tc = Inr (i, tc')" "tn_state tc' \<noteq> TLS_DEAD" "tn_state tc = TLS_RUNNING"
    "gtls_call env (\<lambda>ret. 0 < ret) (\<lambda>s. gt_send gt s r) (\<lambda>s. gt_send gt s []) tc = (ret, tc1)"
  shows "\<not> gt_fails ret \<and> same_bufs tc1 tc'"
proof (cases "ret < 0 \<and> ret \<noteq> GNUTLS_E_AGAIN")
  case True
  then have "tc' = fst (tconn_connection_abort False tc1)" using assms(1,3,4) by (simp add: tconn_record_send_def)
  then show ?thesis using assms(2) abort_dead [of False tc1] by (metis prod.collapse)
next
  case False
  have st: "tn_state tc \<noteq> TLS_TX_CONGESTION" "\<not> tn_state tc \<noteq> TLS_RUNNING" using assms(3) by simp_all
  have "tc' = (if ret = GNUTLS_E_AGAIN then tc1\<lparr>tn_state := TLS_TX_CONGESTION\<rparr> else tc1)"
    using assms(1) unfolding tconn_record_send_def assms(4) Let_def prod.case if_not_P [OF False] if_not_P [OF st(1)] if_not_P [OF st(2)]
      hbind_eq_Inr by (elim exE conjE) (simp split del: if_split)
  then have "same_bufs tc1 tc'" by (cases "ret = GNUTLS_E_AGAIN") (simp_all add: same_bufs_def)
  moreover have "\<not> gt_fails ret" using False unfolding gt_fails_def by blast
  ultimately show ?thesis by blast
qed

lemma handler_out_bufs:
  assumes "tconn_fd_handler_out gt sndr tc = Inr tc'"
  shows "tn_rx tc' = tn_rx tc \<and> tn_sent tc' @ tn_tx tc' = tn_sent tc @ tn_tx tc"
proof (cases "sndr (tn_sent tc) (tn_tx tc)")
  case (Send_errno e)
  then show ?thesis using assms by (auto simp: tconn_fd_handler_out_def got_io_error_eq split: if_splits)
next
  case (Sent n)
  let ?w = "length (tn_tx tc) = BUF_SIZE \<and> ((tn_state tc = TLS_HANDSHAKE \<and> gt_direction gt (tn_sess tc)) \<or> tn_state tc = TLS_TX_CONGESTION)"
  obtain tc1 where t: "(if ?w then tx_task_register tc else Inr tc) = Inr tc1"
    and f: "tc' = (let tc = tc1\<lparr>tn_tx := drop n (tn_tx tc1), tn_sent := tn_sent tc1 @ take n (tn_tx tc1)\<rparr>
         in if tn_tx tc = [] then tc\<lparr>tn_handler_out := False\<rparr> else tc)"
    using assms Sent unfolding tconn_fd_handler_out_def by (auto simp: Let_def)
  have "same_bufs tc tc1" using t by (auto simp: tx_task_register_def same_bufs_def split: if_splits)
  then show ?thesis unfolding f by (simp add: same_bufs_def Let_def)
qed

lemma handler_in_bufs:
  fixes tc tc' :: "('s, 'u) tconn"
  assumes "tconn_fd_handler_in gt r tc = Inr tc'"
  shows "tn_rx tc @ tls_received (Ev_in r :: 'u tls_event) = tn_rx tc' \<and> tn_tx tc' = tn_tx tc \<and> tn_sent tc' = tn_sent tc"
proof (cases r)
  case (Recv bs)
  let ?w = "(tn_state tc = TLS_HANDSHAKE \<and> \<not> gt_direction gt (tn_sess tc)) \<or> tn_state tc = TLS_RUNNING \<or> tn_state tc = TLS_TX_CONGESTION"
  have rx: "tn_rx tc = []" using assms by (auto simp: tconn_fd_handler_in_def split: if_splits)
  obtain tc1 where t: "(if ?w then rx_task_register (tc\<lparr>tn_handler_in := False\<rparr>) else Inr (tc\<lparr>tn_handler_in := False\<rparr>)) = Inr tc1"
    and f: "tc' = tc1\<lparr>tn_rx := bs\<rparr>"
    using assms rx Recv unfolding tconn_fd_handler_in_def by (auto simp: Let_def)
  have "same_bufs tc tc1" using t by (auto simp: rx_task_register_def same_bufs_def split: if_splits)
  then show ?thesis unfolding f using rx Recv by (simp add: same_bufs_def)
next
  case Recv_eof
  then show ?thesis using assms by (auto simp: tconn_fd_handler_in_def got_io_error_eq split: if_splits)
next
  case (Recv_errno e)
  then show ?thesis using assms by (auto simp: tconn_fd_handler_in_def got_io_error_eq split: if_splits)
qed

text \<open>The bytes of one step are where they should be.\<close>

definition stream_kept :: "bytes \<times> bytes \<Rightarrow> ('s, 'u) tconn \<Rightarrow> ('s, 'u) tconn \<Rightarrow> bool" where
  "stream_kept log tc tc' \<longleftrightarrow> tn_rx tc = fst log @ tn_rx tc' \<and> tn_sent tc' @ tn_tx tc' = tn_sent tc @ tn_tx tc @ snd log"

lemma call_stream:
  assumes "sender_ok (tl_send env)" "tls_sound gt tc" "gt_behaves P A reads writes (call (tn_sess tc)) \<and> gt_transfers (call (tn_sess tc))"
    "\<And>s. gt_behaves P' A' reads' writes' (again s) \<and> gt_transfers (again s)" "\<And>r. done r \<Longrightarrow> 0 \<le> r"
    "gtls_call env done call again tc = (ret, tc1)" "\<not> gt_fails ret \<and> same_bufs tc1 tc'"
  shows "stream_kept (gtls_log env (call (tn_sess tc)) tc) tc tc'"
  using gtls_call_sound [OF assms(1-6)] assms(7) by (auto simp: call_left_def same_bufs_def stream_kept_def)

lemma handshake_stream:
  assumes "gnutls_ok gt" "sender_ok (tl_send env)" "tls_sound gt tc"
    "tconn_do_handshake gt env notify tc = Inr (r, tc', nt)" "tn_state tc' \<noteq> TLS_DEAD"
  shows "stream_kept (gtls_log env (gt_handshake gt (tn_sess tc)) tc) tc tc'"
proof -
  obtain ret tc1 where c: "gtls_call env (\<lambda>ret. ret = 0) (gt_handshake gt) (gt_handshake gt) tc = (ret, tc1)" by fastforce
  note hs = gnutls_ok_handshake [OF assms(1)]
  show ?thesis by (rule call_stream [OF assms(2,3) hs hs _ c do_handshake_bufs [OF assms(4,5) c]]) simp
qed

lemma recv_stream:
  assumes "gnutls_ok gt" "sender_ok (tl_send env)" "tls_sound gt tc" "tn_state tc \<noteq> TLS_HANDSHAKE" 
    "tconn_do_record_recv gt env tc = Inr (tc', nt)" "tn_state tc' \<noteq> TLS_DEAD"
  shows "stream_kept (gtls_log env (gt_recv gt (tn_sess tc)) tc) tc tc'"
proof -
  obtain ret buf tc1 where c: "run_gtls env (gt_recv gt (tn_sess tc)) tc = (ret, buf, tc1)" by (metis prod_cases3)
  note b = do_record_recv_bufs [OF assms(5,6) c]
  note rc = gnutls_ok_recv [OF assms(1)]
  have io: "io_ok tc"
  proof (rule ccontr)
    assume "\<not> io_ok tc"
    then have e: "tn_io_error tc \<noteq> 0" "tn_io_error tc \<noteq> EAGAIN" "\<not> gt_pending gt (tn_sess tc)"
      using assms(3,4) by (auto simp: tls_sound_def split: if_splits)
    then show False using run_error [OF rc(1) _ e(1,2) c] rc(2) b by blast
  qed
  from run_result [OF assms(2) rc(1) io c] b show ?thesis by (auto simp: call_left_def same_bufs_def stream_kept_def)
qed

lemma send_stream:
  assumes "gnutls_ok gt" "sender_ok (tl_send env)" "tls_sound gt tc"
    "gtls_call env (\<lambda>ret. 0 < ret) (\<lambda>s. gt_send gt s r) (\<lambda>s. gt_send gt s []) tc = (ret, tc1)" "\<not> gt_fails ret \<and> same_bufs tc1 tc'"
  shows "stream_kept (gtls_log env (gt_send gt (tn_sess tc) r) tc) tc tc'"
proof -
  note sd = gnutls_ok_send [OF assms(1)] and tr = gnutls_ok_sends [OF assms(1)]
  show ?thesis by (rule call_stream [OF assms(2,3) sd tr _ assms(4,5)]) simp
qed

lemma stream_kept_task [simp]:
  "stream_kept log (tc\<lparr>tn_rx_task := b\<rparr>) tc' = stream_kept log tc tc'" "stream_kept log (tc\<lparr>tn_tx_task := b\<rparr>) tc' = stream_kept log tc tc'"
  by (simp_all add: stream_kept_def)

lemma rx_task_stream:
  assumes "gnutls_ok gt" "tls_inv gt tc" "sender_ok (tl_send env)" "tn_rx_task tc" "tn_state tc' \<noteq> TLS_DEAD"
    "tconn_rx_task_handler gt env (tc\<lparr>tn_rx_task := False\<rparr>) = Inr (tc', nt)"
  shows "stream_kept (tls_event_log gt (Ev_rx_task env) tc) tc tc'"
proof -
  have v: "verify_state_rx_task gt tc" using assms(2,4) by (simp add: tls_inv_def verify_iff)
  then have s: "tls_sound gt (tc\<lparr>tn_rx_task := False\<rparr>)" using assms(2) by (auto simp: tls_inv_def verify_state_rx_task_def)
  show ?thesis
  proof (cases "tn_state tc = TLS_HANDSHAKE")
    case True
    then obtain i where "tconn_do_handshake gt env True (tc\<lparr>tn_rx_task := False\<rparr>) = Inr (i, tc', nt)"
      using assms(6) v by (auto simp: tconn_rx_task_handler_def verify_state_rx_task_def)
    from handshake_stream [OF assms(1,3) s this assms(5)] show ?thesis using True by simp
  next
    case False
    then have "tconn_do_record_recv gt env (tc\<lparr>tn_rx_task := False\<rparr>) = Inr (tc', nt)"
      using assms(6) v by (auto simp: tconn_rx_task_handler_def verify_state_rx_task_def)
    from recv_stream [OF assms(1,3) s _ this assms(5)] show ?thesis using False by simp
  qed
qed

lemma tx_task_stream:
  assumes "gnutls_ok gt" "tls_inv gt tc" "sender_ok (tl_send env)" "tn_tx_task tc" "tn_state tc' \<noteq> TLS_DEAD"
    "tconn_tx_task_handler gt env (tc\<lparr>tn_tx_task := False\<rparr>) = Inr (tc', nt)"
  shows "stream_kept (tls_event_log gt (Ev_tx_task env) tc) tc tc'"
proof -
  have v: "verify_state_tx_task gt tc" using assms(2,4) by (simp add: tls_inv_def verify_iff)
  then have s: "tls_sound gt (tc\<lparr>tn_tx_task := False\<rparr>)" using assms(2) by (auto simp: tls_inv_def verify_state_tx_task_def)
  show ?thesis
  proof (cases "tn_state tc = TLS_HANDSHAKE")
    case True
    then obtain i where "tconn_do_handshake gt env True (tc\<lparr>tn_tx_task := False\<rparr>) = Inr (i, tc', nt)"
      using assms(6) v by (auto simp: tconn_tx_task_handler_def verify_state_tx_task_def)
    from handshake_stream [OF assms(1,3) s this assms(5)] show ?thesis using True by simp
  next
    case False
    then have d: "tconn_do_record_send gt env (tc\<lparr>tn_tx_task := False\<rparr>) = Inr (tc', nt)"
      using assms(6) v by (auto simp: tconn_tx_task_handler_def verify_state_tx_task_def)
    obtain ret tc1 where c: "gtls_call env (\<lambda>ret. 0 < ret) (\<lambda>s. gt_send gt s []) (\<lambda>s. gt_send gt s []) (tc\<lparr>tn_tx_task := False\<rparr>) = (ret, tc1)"
      by fastforce
    from send_stream [OF assms(1,3) s c do_record_send_bufs [OF d assms(5) c]] show ?thesis using False by simp
  qed
qed

text \<open>
  C8: No byte is lost, repeated or reordered in the buffers: what was in \<^verbatim>\<open>rx_buf\<close> and what the socket has
  given since is what gnutls has read followed by what is in \<^verbatim>\<open>rx_buf\<close>; and what was sent and is in
  \<^verbatim>\<open>tx_buf\<close>, followed by the bytes that gnutls was told were taken, is what is sent and in \<^verbatim>\<open>tx_buf\<close> then.
  This holds across every event that does not end the session.
\<close>

theorem tconn_stream:
  assumes "gnutls_ok gt" "tls_reach gt tc" "tls_enabled ev tc" "tls_allowed gt ev tc" "tls_step gt ev tc = Inr tc'" "tn_state tc' \<noteq> TLS_DEAD"
  shows "tn_rx tc @ tls_received ev = fst (tls_event_log gt ev tc) @ tn_rx tc' \<and>
    tn_sent tc' @ tn_tx tc' = tn_sent tc @ tn_tx tc @ snd (tls_event_log gt ev tc)"
proof -
  have inv: "tls_inv gt tc" using tls_reach_inv [OF assms(2,1)] by simp
  have sound: "tls_sound gt tc" if x: "tn_state tc \<noteq> TLS_DEAD" using inv x by (simp add: tls_inv_def)
  show ?thesis
  proof (cases ev)
    case (Ev_in r)
    then show ?thesis using assms(5) handler_in_bufs [of gt r tc tc'] by simp
  next
    case (Ev_out sndr)
    then show ?thesis using assms(5) handler_out_bufs [of gt sndr tc tc'] by simp
  next
    case (Ev_rx_task env)
    then show ?thesis
      using assms(3-5) rx_task_stream [OF assms(1) inv _ _ assms(6), of env] by (auto simp: tls_env_ok_def stream_kept_def)
  next
    case (Ev_tx_task env)
    then show ?thesis
      using assms(3-5) tx_task_stream [OF assms(1) inv _ _ assms(6), of env] by (auto simp: tls_env_ok_def stream_kept_def)
  next
    case (Ev_send env r)
    have env: "sender_ok (tl_send env)" using assms(4) Ev_send by (simp add: tls_env_ok_def)
    obtain i where r: "tconn_record_send gt env r tc = Inr (i, tc')" using assms(5) Ev_send by auto
    show ?thesis
    proof (cases "tn_state tc = TLS_RUNNING")
      case True
      obtain ret tc1 where c: "gtls_call env (\<lambda>ret. 0 < ret) (\<lambda>s. gt_send gt s r) (\<lambda>s. gt_send gt s []) tc = (ret, tc1)" by fastforce
      from send_stream [OF assms(1) env sound c record_send_bufs [OF r assms(6) True c]] show ?thesis
        using True Ev_send by (simp add: stream_kept_def)
    next
      case False
      then have "tc' = tc" using r by (auto simp: tconn_record_send_def split: if_splits)
      then show ?thesis using False Ev_send by simp
    qed
  qed
qed

theorem tconn_stream_witness:
  "tls_event_log sample_gnutls (Ev_rx_task sample_tls_env)
     (sample_tconn\<lparr>tn_state := TLS_RUNNING, tn_sess := 2, tn_open := True, tn_rx_task := True, tn_rx := [7], tn_sent := [22]\<rparr>) = ([7], [])"
proof (rule prod_eqI)
  note * = tconn_stream [OF sample_gnutls_ok sample_running_reach _ _ sample_read]
  show "fst (tls_event_log sample_gnutls (Ev_rx_task sample_tls_env)
     (sample_tconn\<lparr>tn_state := TLS_RUNNING, tn_sess := 2, tn_open := True, tn_rx_task := True, tn_rx := [7], tn_sent := [22]\<rparr>)) = fst ([7], [])"
    using * by (simp add: sample_tls_env_ok sample_idle_def sample_tconn_def)
  show "snd (tls_event_log sample_gnutls (Ev_rx_task sample_tls_env)
     (sample_tconn\<lparr>tn_state := TLS_RUNNING, tn_sess := 2, tn_open := True, tn_rx_task := True, tn_rx := [7], tn_sent := [22]\<rparr>)) = snd ([7], [])"
    using * by (simp add: sample_tls_env_ok sample_idle_def sample_tconn_def)
qed

end
