(* ===== verification/Tconn_Listen.thy ===== *)
theory Tconn_Listen
  imports Tconn_Verify Tconn_Connect_One
begin

text \<open>
  \<^verbatim>\<open>src/tconn_listen.c\<close>: accepts TLS connections.  A socket has entries, one for each peer or group of peers that
  may connect; a connection belongs to the socket until its key ids are known, and then to
  the entry they match.  Each connection has a TLS session, that of Tconn.  The properties, in Tconn_Listen_Safe and
  Tconn_Listen_Match: which entry a
  connection goes to; lists, timers, descriptors and sessions stay consistent whatever happens
  to a connection, for every user that keeps a stated contract.  Here are the code and what a step
  of a session tells the connection.
\<close>

section \<open>The code\<close>

datatype cc_state = CC_TLS_HANDSHAKE | CC_KEY_ID_VERIFIED | CC_CONNECTED

text \<open>
  The object that \<^verbatim>\<open>verify_key_ids\<close> is called with during a handshake.  All it does to the connection is
  to put it behind the others of the entry that matches, and to note the entry and the id; this is
  recorded here, and carried out when the call of gnutls returns, since nothing else looks at it
  before.
\<close>

type_synonym cc_checks = "(nat \<times> bytes) list"

record 's client_conn =
  cc_fd :: int
  cc_registered :: bool
  cc_tconn :: "('s, cc_checks) tconn"
  cc_rx_timeout :: "timespec option"
  cc_state :: cc_state
  cc_tle :: "nat option"
  cc_id :: bytes
  cc_cookie :: "nat option"
  cc_keepalive_timer :: "timespec option"

text \<open>An entry is an object of the user, at an address.\<close>

record tconn_listen_entry =
  tle_ptr :: nat
  tle_name :: bytes
  tle_fp_type :: conf_fp_type
  tle_fingerprint :: bytes

text \<open>
  \<open>ls_conns\<close> are the connections that are allocated; \<open>ls_lists None\<close> is \<^verbatim>\<open>conn_handshaking\<close>, \<open>ls_lists\<close> of
  an entry the list of its connections.
\<close>

record ('s, 'u) tconn_listen_socket =
  ls_listen_fd :: int
  ls_registered :: bool
  ls_conns :: "nat \<Rightarrow> 's client_conn option"
  ls_lists :: "nat option \<Rightarrow> nat list"
  ls_entries :: "tconn_listen_entry list"
  ls_user :: 'u
  ls_calls :: "sys_call list"

text \<open>The callbacks of the user, which may call back into this code: they get the whole state.\<close>

record ('s, 'u) listen_user_ops =
  lu_new_conn :: "nat \<Rightarrow> nat \<Rightarrow> bytes \<Rightarrow> ('s, 'u) tconn_listen_socket \<Rightarrow> (nat option \<times> ('s, 'u) tconn_listen_socket) handled"
  lu_record_received :: "nat option \<Rightarrow> bytes \<Rightarrow> ('s, 'u) tconn_listen_socket \<Rightarrow> ('s, 'u) tconn_listen_socket handled"
  lu_disconnect :: "nat option \<Rightarrow> ('s, 'u) tconn_listen_socket \<Rightarrow> ('s, 'u) tconn_listen_socket handled"

text \<open>The answers of the system while one handler runs.\<close>

record tl_env =
  tx_send :: sender
  tx_nodelay :: bool
  tx_malloc :: bool
  tx_crt :: "bytes \<Rightarrow> crt option"
  tx_rnd :: int
  tx_now :: timespec

subsection \<open>Which entry\<close>

definition tl_compare_listen_entries :: "tconn_listen_entry \<Rightarrow> tconn_listen_entry \<Rightarrow> int" where
  "tl_compare_listen_entries a b =
     (if tle_fp_type a = CONF_FP_TYPE_ANY then if tle_fp_type b = CONF_FP_TYPE_ANY then 0 else -1
      else if tle_fp_type b = CONF_FP_TYPE_ANY then 1
      else memcmp (tle_fingerprint a) (tle_fingerprint b))"

definition find_listen_entry :: "tconn_listen_entry list \<Rightarrow> bytes \<Rightarrow> tconn_listen_entry option" where
  "find_listen_entry entries i =
     avl_find (\<lambda>e. if tle_fp_type e = CONF_FP_TYPE_ANY then 1 else memcmp i (tle_fingerprint e)) entries"

definition find_wildcard_listen_entry :: "tconn_listen_entry list \<Rightarrow> tconn_listen_entry option" where
  "find_wildcard_listen_entry entries =
     (case entries of [] \<Rightarrow> None | e # _ \<Rightarrow> if tle_fp_type e = CONF_FP_TYPE_ANY then Some e else None)"

fun match_key_ids :: "tconn_listen_entry list \<Rightarrow> bytes \<Rightarrow> nat \<Rightarrow> tconn_listen_entry option" where
  "match_key_ids entries ids 0 = None"
| "match_key_ids entries ids (Suc n) =
     (case find_listen_entry entries (take NODE_ID_LEN ids) of
        Some e \<Rightarrow> Some e
      | None \<Rightarrow> match_key_ids entries (drop NODE_ID_LEN ids) n)"

definition tl_verify_key_ids :: "tconn_listen_entry list \<Rightarrow> bytes \<Rightarrow> nat \<Rightarrow> cc_checks \<Rightarrow> int \<times> cc_checks" where
  "tl_verify_key_ids entries ids num u =
     (case (case match_key_ids entries ids num of Some e \<Rightarrow> Some e | None \<Rightarrow> find_wildcard_listen_entry entries) of
        None \<Rightarrow> (1, u)
      | Some e \<Rightarrow> (0, u @ [(tle_ptr e, take NODE_ID_LEN ids)]))"

definition tl_tls_env :: "tl_env \<Rightarrow> tconn_listen_entry list \<Rightarrow> cc_checks tls_env" where
  "tl_tls_env env entries = \<lparr>tl_send = tx_send env, tl_nodelay = tx_nodelay env, tl_malloc = tx_malloc env,
     tl_crt = tx_crt env, tl_verify = tl_verify_key_ids entries\<rparr>"

subsection \<open>The life of a connection\<close>

definition ls_sys :: "sys_call \<Rightarrow> ('s, 'u) tconn_listen_socket \<Rightarrow> ('s, 'u) tconn_listen_socket" where
  "ls_sys call ls = ls\<lparr>ls_calls := ls_calls ls @ [call]\<rparr>"

definition ls_set :: "nat \<Rightarrow> 's client_conn \<Rightarrow> ('s, 'u) tconn_listen_socket \<Rightarrow> ('s, 'u) tconn_listen_socket" where
  "ls_set k cc ls = ls\<lparr>ls_conns := (ls_conns ls)(k \<mapsto> cc)\<rparr>"

definition ls_list_del :: "nat \<Rightarrow> 's client_conn \<Rightarrow> ('s, 'u) tconn_listen_socket \<Rightarrow> ('s, 'u) tconn_listen_socket handled" where
  "ls_list_del k cc ls =
     (let l = cc_tle cc
      in if k \<notin> set (ls_lists ls l) then Inl Dangling
         else Inr (ls\<lparr>ls_lists := (ls_lists ls)(l := remove1 k (ls_lists ls l))\<rparr>))"

text \<open>\<^verbatim>\<open>client_conn_kill\<close> after it has told the user.\<close>

definition client_conn_drop :: "'s gnutls \<Rightarrow> nat \<Rightarrow> ('s, 'u) tconn_listen_socket \<Rightarrow> ('s, 'u) tconn_listen_socket handled" where
  "client_conn_drop gt k ls =
     hbind (deref (ls_conns ls k)) (\<lambda>cc.
     hbind (ls_list_del k cc ls) (\<lambda>ls.
     hbind (tconn_destroy gt (cc_tconn cc)) (\<lambda>_.
     if \<not> cc_registered cc then Inl Iv_fatal
     else let ls = ls_sys (Sys_close (cc_fd cc)) ls
     in hbind (if cc_rx_timeout cc \<noteq> None then timer_unregister (cc_rx_timeout cc) else Inr None) (\<lambda>_.
        hbind (if cc_state cc = CC_CONNECTED then timer_unregister (cc_keepalive_timer cc) else Inr None) (\<lambda>_.
        Inr (ls\<lparr>ls_conns := (ls_conns ls)(k := None)\<rparr>))))))"

definition client_conn_kill ::
  "'s gnutls \<Rightarrow> ('s, 'u) listen_user_ops \<Rightarrow> nat \<Rightarrow> bool \<Rightarrow> ('s, 'u) tconn_listen_socket \<Rightarrow> ('s, 'u) tconn_listen_socket handled" where
  "client_conn_kill gt ops k notify ls =
     hbind (deref (ls_conns ls k)) (\<lambda>cc.
     hbind (if cc_state cc = CC_CONNECTED \<and> notify
            then if cc_tle cc = None then Inl (Called Null_deref) else lu_disconnect ops (cc_cookie cc) ls
            else Inr ls) (client_conn_drop gt k))"

text \<open>The timer has expired.\<close>

definition tl_rx_timeout ::
  "'s gnutls \<Rightarrow> ('s, 'u) listen_user_ops \<Rightarrow> nat \<Rightarrow> ('s, 'u) tconn_listen_socket \<Rightarrow> ('s, 'u) tconn_listen_socket handled" where
  "tl_rx_timeout gt ops k ls =
     hbind (deref (ls_conns ls k)) (\<lambda>cc. client_conn_kill gt ops k True (ls_set k (cc\<lparr>cc_rx_timeout := None\<rparr>) ls))"

text \<open>The part of \<^verbatim>\<open>verify_key_ids\<close> that changes the connection.\<close>

definition tl_accept :: "nat \<Rightarrow> nat \<times> bytes \<Rightarrow> ('s, 'u) tconn_listen_socket \<Rightarrow> ('s, 'u) tconn_listen_socket handled" where
  "tl_accept k m ls =
     hbind (deref (ls_conns ls k)) (\<lambda>cc.
     hbind (ls_list_del k cc ls) (\<lambda>ls.
     let ls = ls\<lparr>ls_lists := (ls_lists ls)(Some (fst m) := ls_lists ls (Some (fst m)) @ [k])\<rparr>
     in Inr (ls_set k (cc\<lparr>cc_state := CC_KEY_ID_VERIFIED, cc_tle := Some (fst m), cc_id := snd m\<rparr>) ls)))"

fun tl_accept_all :: "nat \<Rightarrow> cc_checks \<Rightarrow> ('s, 'u) tconn_listen_socket \<Rightarrow> ('s, 'u) tconn_listen_socket handled" where
  "tl_accept_all k [] ls = Inr ls"
| "tl_accept_all k (m # ms) ls = hbind (tl_accept k m ls) (tl_accept_all k ms)"

definition cc_start_rx :: "tl_env \<Rightarrow> int \<Rightarrow> 's client_conn \<Rightarrow> 's client_conn handled" where
  "cc_start_rx env secs cc =
     hbind (timer_register (timespec_add_ms (tx_rnd env) (tx_now env) (1000 * secs) (1000 * secs)) (cc_rx_timeout cc)) (\<lambda>t.
     Inr (cc\<lparr>cc_rx_timeout := t\<rparr>))"

definition cc_restart_rx :: "tl_env \<Rightarrow> 's client_conn \<Rightarrow> 's client_conn handled" where
  "cc_restart_rx env cc =
     hbind (timer_unregister (cc_rx_timeout cc)) (\<lambda>t. cc_start_rx env KEEPALIVE_TIMEOUT (cc\<lparr>cc_rx_timeout := t\<rparr>))"

definition cc_start_keepalive :: "int \<Rightarrow> timespec \<Rightarrow> 's client_conn \<Rightarrow> 's client_conn handled" where
  "cc_start_keepalive rnd base cc =
     hbind (timer_register (timespec_add_ms rnd base (900 * KEEPALIVE_INTERVAL) (1100 * KEEPALIVE_INTERVAL)) (cc_keepalive_timer cc)) (\<lambda>t.
     Inr (cc\<lparr>cc_keepalive_timer := t\<rparr>))"

definition tl_handshake_done ::
  "'s gnutls \<Rightarrow> ('s, 'u) listen_user_ops \<Rightarrow> tl_env \<Rightarrow> nat \<Rightarrow> ('s, 'u) tconn_listen_socket \<Rightarrow> ('s, 'u) tconn_listen_socket handled" where
  "tl_handshake_done gt ops env k ls =
     hbind (deref (ls_conns ls k)) (\<lambda>cc.
     case cc_tle cc of
       None \<Rightarrow> Inl (Called Null_deref)
     | Some t \<Rightarrow>
         hbind (lu_new_conn ops t k (cc_id cc) ls) (\<lambda>(cookie, ls).
         if cookie = None then client_conn_kill gt ops k False ls
         else hbind (deref (ls_conns ls k)) (\<lambda>cc.
              hbind (cc_restart_rx env cc) (\<lambda>cc.
              let cc = cc\<lparr>cc_state := CC_CONNECTED, cc_cookie := cookie\<rparr>
              in hbind (timer_init (cc_keepalive_timer cc)) (\<lambda>t.
                 hbind (cc_start_keepalive (tx_rnd env) (tx_now env) (cc\<lparr>cc_keepalive_timer := t\<rparr>)) (\<lambda>cc.
                 Inr (ls_set k cc ls)))))))"

definition tl_record_received ::
  "('s, 'u) listen_user_ops \<Rightarrow> tl_env \<Rightarrow> nat \<Rightarrow> bytes \<Rightarrow> ('s, 'u) tconn_listen_socket \<Rightarrow> ('s, 'u) tconn_listen_socket handled" where
  "tl_record_received ops env k r ls =
     hbind (deref (ls_conns ls k)) (\<lambda>cc.
     hbind (cc_restart_rx env cc) (\<lambda>cc.
     if cc_tle cc = None then Inl (Called Null_deref)
     else lu_record_received ops (cc_cookie cc) r (ls_set k cc ls)))"

definition tl_connection_lost ::
  "'s gnutls \<Rightarrow> ('s, 'u) listen_user_ops \<Rightarrow> nat \<Rightarrow> ('s, 'u) tconn_listen_socket \<Rightarrow> ('s, 'u) tconn_listen_socket handled" where
  "tl_connection_lost gt ops k ls = client_conn_kill gt ops k True ls"

text \<open>What the session tells the connection is handled by these three.\<close>

fun tl_note ::
  "'s gnutls \<Rightarrow> ('s, 'u) listen_user_ops \<Rightarrow> tl_env \<Rightarrow> nat \<Rightarrow> tconn_note option \<Rightarrow>
   ('s, 'u) tconn_listen_socket \<Rightarrow> ('s, 'u) tconn_listen_socket handled" where
  "tl_note gt ops env k None ls = Inr ls"
| "tl_note gt ops env k (Some Tn_handshake_done) ls = tl_handshake_done gt ops env k ls"
| "tl_note gt ops env k (Some (Tn_record r)) ls = tl_record_received ops env k r ls"
| "tl_note gt ops env k (Some Tn_lost) ls = tl_connection_lost gt ops k ls"

text \<open>A handler or task of the session of a connection runs.\<close>

definition tl_tconn ::
  "'s gnutls \<Rightarrow> ('s, 'u) listen_user_ops \<Rightarrow> tl_env \<Rightarrow> nat \<Rightarrow>
   (('s, cc_checks) tconn \<Rightarrow> (('s, cc_checks) tconn \<times> tconn_note option) handled) \<Rightarrow>
   ('s, 'u) tconn_listen_socket \<Rightarrow> ('s, 'u) tconn_listen_socket handled" where
  "tl_tconn gt ops env k f ls =
     hbind (deref (ls_conns ls k)) (\<lambda>cc.
     hbind (f (cc_tconn cc)) (\<lambda>(tc, nt).
     hbind (tl_accept_all k (tn_user tc) (ls_set k (cc\<lparr>cc_tconn := tc\<lparr>tn_user := []\<rparr>\<rparr>) ls)) (tl_note gt ops env k nt)))"

definition tl_send_keepalive ::
  "'s gnutls \<Rightarrow> ('s, 'u) listen_user_ops \<Rightarrow> tl_env \<Rightarrow> nat \<Rightarrow> timespec \<Rightarrow> ('s, 'u) tconn_listen_socket \<Rightarrow>
   ('s, 'u) tconn_listen_socket handled" where
  "tl_send_keepalive gt ops env k expires ls =
     hbind (deref (ls_conns ls k)) (\<lambda>cc.
     hbind (cc_start_keepalive (tx_rnd env) expires (cc\<lparr>cc_keepalive_timer := None\<rparr>)) (\<lambda>cc.
     hbind (tconn_record_send gt (tl_tls_env env (ls_entries ls)) [0, 0, 0] (cc_tconn cc)) (\<lambda>(ret, tc).
     let ls = ls_set k (cc\<lparr>cc_tconn := tc\<rparr>) ls
     in if ret \<noteq> 0 then client_conn_kill gt ops k True ls else Inr ls)))"

text \<open>
  \<^verbatim>\<open>calloc\<close> fills the connection with 0, which is no state of a session: \<open>tn_open\<close> says that it cannot be
  used.  The answers are the descriptor \<^verbatim>\<open>accept\<close> returns, \<^verbatim>\<open>None\<close> when it fails, whether \<^verbatim>\<open>getsockname\<close>
  works, and the address \<^verbatim>\<open>calloc\<close> returns.  The return value of \<^verbatim>\<open>tconn_start\<close> is not used.
\<close>

definition zero_tconn :: "'s \<Rightarrow> ('s, cc_checks) tconn" where
  "zero_tconn s = \<lparr>tn_state = TLS_DEAD, tn_sess = s, tn_open = False, tn_user = [], tn_io_error = 0, tn_rx_task = False, tn_rx = [],
     tn_rx_eof = False, tn_tx_task = False, tn_tx = [], tn_handler_in = False, tn_handler_out = False, tn_sent = []\<rparr>"

definition zero_client_conn :: "int \<Rightarrow> 's \<Rightarrow> 's client_conn" where
  "zero_client_conn fd s = \<lparr>cc_fd = fd, cc_registered = True, cc_tconn = zero_tconn s, cc_rx_timeout = None,
     cc_state = CC_TLS_HANDSHAKE, cc_tle = None, cc_id = replicate NODE_ID_LEN 0, cc_cookie = None, cc_keepalive_timer = None\<rparr>"

record 's tl_accepted =
  ta_accept :: "int option"
  ta_getsockname :: bool
  ta_calloc :: "nat option"
  ta_null :: 's
  ta_start :: "'s tls_start"

definition tl_got_connection ::
  "'s gnutls \<Rightarrow> ('s, 'u) listen_user_ops \<Rightarrow> tl_env \<Rightarrow> 's tl_accepted \<Rightarrow> ('s, 'u) tconn_listen_socket \<Rightarrow>
   ('s, 'u) tconn_listen_socket handled" where
  "tl_got_connection gt ops env acc ls =
     (case ta_accept acc of
        None \<Rightarrow> Inr ls
      | Some fd \<Rightarrow>
          let ls = ls_sys (Sys_socket fd) ls
          in if \<not> ta_getsockname acc then Inr (ls_sys (Sys_close fd) ls)
             else case ta_calloc acc of
               None \<Rightarrow> Inr (ls_sys (Sys_close fd) ls)
             | Some k \<Rightarrow>
                 let ls = ls_set k (zero_client_conn fd (ta_null acc)) (ls\<lparr>ls_lists := (ls_lists ls)(None := ls_lists ls None @ [k])\<rparr>)
                 in hbind (tl_tconn gt ops env k
                       (\<lambda>tc. hbind (tconn_start gt (ta_start acc) (tl_tls_env env (ls_entries ls)) tc) (\<lambda>(ret, tc, nt). Inr (tc, nt))) ls) (\<lambda>ls.
                    hbind (deref (ls_conns ls k)) (\<lambda>cc.
                    hbind (timer_init (cc_rx_timeout cc)) (\<lambda>t.
                    hbind (cc_start_rx env HANDSHAKE_TIMEOUT (cc\<lparr>cc_rx_timeout := t\<rparr>)) (\<lambda>cc.
                    Inr (ls_set k (cc\<lparr>cc_state := CC_TLS_HANDSHAKE\<rparr>) ls))))))"

subsection \<open>The interface\<close>

record tl_socket_env =
  tq_socket :: int
  tq_reuseaddr :: bool
  tq_bind :: bool
  tq_listen :: bool

definition tconn_listen_socket_register ::
  "tl_socket_env \<Rightarrow> sockaddr_in6 \<Rightarrow> ('s, 'u) tconn_listen_socket \<Rightarrow> int \<times> ('s, 'u) tconn_listen_socket" where
  "tconn_listen_socket_register env address ls =
     (let fd = tq_socket env
      in if fd < 0 then (1, ls)
         else let ls = ls_sys (Sys_socket fd) ls
         in if \<not> tq_reuseaddr env then (1, ls_sys (Sys_close fd) ls)
         else let ls = ls_sys (Sys_bind fd address) ls
         in if \<not> tq_bind env then (1, ls_sys (Sys_close fd) ls)
         else if \<not> tq_listen env then (1, ls_sys (Sys_close fd) ls)
         else (0, ls\<lparr>ls_listen_fd := fd, ls_registered := True, ls_lists := (ls_lists ls)(None := []), ls_entries := []\<rparr>))"

text \<open>The comparison function stops the process when two entries match every peer.\<close>

definition tconn_listen_entry_register ::
  "tconn_listen_entry \<Rightarrow> ('s, 'u) tconn_listen_socket \<Rightarrow> (int \<times> ('s, 'u) tconn_listen_socket) handled" where
  "tconn_listen_entry_register e ls =
     (if tle_fp_type e = CONF_FP_TYPE_ANY \<and> find_wildcard_listen_entry (ls_entries ls) \<noteq> None then Inl (Called Abort)
      else case avl_insert tl_compare_listen_entries e (ls_entries ls) of
        None \<Rightarrow> Inr (-1, ls)
      | Some es \<Rightarrow> Inr (0, ls\<lparr>ls_entries := es, ls_lists := (ls_lists ls)(Some (tle_ptr e) := [])\<rparr>))"

fun client_conn_kill_all ::
  "'s gnutls \<Rightarrow> ('s, 'u) listen_user_ops \<Rightarrow> nat list \<Rightarrow> ('s, 'u) tconn_listen_socket \<Rightarrow> ('s, 'u) tconn_listen_socket handled" where
  "client_conn_kill_all gt ops [] ls = Inr ls"
| "client_conn_kill_all gt ops (k # ks) ls = hbind (client_conn_kill gt ops k False ls) (client_conn_kill_all gt ops ks)"

definition tconn_listen_entry_unregister ::
  "'s gnutls \<Rightarrow> ('s, 'u) listen_user_ops \<Rightarrow> tconn_listen_entry \<Rightarrow> ('s, 'u) tconn_listen_socket \<Rightarrow> ('s, 'u) tconn_listen_socket handled" where
  "tconn_listen_entry_unregister gt ops e ls =
     hbind (client_conn_kill_all gt ops (ls_lists ls (Some (tle_ptr e))) ls) (\<lambda>ls.
     if e \<notin> set (ls_entries ls) then Inl Dangling
     else Inr (ls\<lparr>ls_entries := avl_delete tl_compare_listen_entries e (ls_entries ls)\<rparr>))"

fun tl_unregister_all ::
  "'s gnutls \<Rightarrow> ('s, 'u) listen_user_ops \<Rightarrow> tconn_listen_entry list \<Rightarrow> ('s, 'u) tconn_listen_socket \<Rightarrow> ('s, 'u) tconn_listen_socket handled" where
  "tl_unregister_all gt ops [] ls = Inr ls"
| "tl_unregister_all gt ops (e # es) ls = hbind (tconn_listen_entry_unregister gt ops e ls) (tl_unregister_all gt ops es)"

definition tconn_listen_socket_unregister ::
  "'s gnutls \<Rightarrow> ('s, 'u) listen_user_ops \<Rightarrow> ('s, 'u) tconn_listen_socket \<Rightarrow> ('s, 'u) tconn_listen_socket handled" where
  "tconn_listen_socket_unregister gt ops ls =
     (if \<not> ls_registered ls then Inl Iv_fatal
      else let ls = ls_sys (Sys_close (ls_listen_fd ls)) (ls\<lparr>ls_registered := False\<rparr>)
      in hbind (client_conn_kill_all gt ops (ls_lists ls None) ls) (\<lambda>ls. tl_unregister_all gt ops (ls_entries ls) ls))"

definition tconn_listen_entry_get_rtt :: "nat option \<Rightarrow> int" where
  "tconn_listen_entry_get_rtt tcpi_rtt = (case tcpi_rtt of None \<Rightarrow> -1 | Some r \<Rightarrow> int (r div 1000))"

definition tconn_listen_entry_get_maxseg :: "int option \<Rightarrow> int" where
  "tconn_listen_entry_get_maxseg mseg = (case mseg of None \<Rightarrow> -1 | Some m \<Rightarrow> m)"

definition tconn_listen_entry_record_send ::
  "'s gnutls \<Rightarrow> ('s, 'u) listen_user_ops \<Rightarrow> tl_env \<Rightarrow> nat \<Rightarrow> bytes \<Rightarrow> ('s, 'u) tconn_listen_socket \<Rightarrow>
   ('s, 'u) tconn_listen_socket handled" where
  "tconn_listen_entry_record_send gt ops env k r ls =
     hbind (deref (ls_conns ls k)) (\<lambda>cc.
     hbind (timer_unregister (cc_keepalive_timer cc)) (\<lambda>t.
     hbind (cc_start_keepalive (tx_rnd env) (tx_now env) (cc\<lparr>cc_keepalive_timer := t\<rparr>)) (\<lambda>cc.
     hbind (tconn_record_send gt (tl_tls_env env (ls_entries ls)) r (cc_tconn cc)) (\<lambda>(ret, tc).
     let ls = ls_set k (cc\<lparr>cc_tconn := tc\<rparr>) ls
     in if ret \<noteq> 0 then client_conn_kill gt ops k True ls else Inr ls))))"

text \<open>\<^verbatim>\<open>client_conn_kill\<close> with \<^verbatim>\<open>notify\<close> 0 is \<open>client_conn_drop\<close>: the user is not told.\<close>

definition tconn_listen_entry_disconnect :: "'s gnutls \<Rightarrow> nat \<Rightarrow> ('s, 'u) tconn_listen_socket \<Rightarrow> ('s, 'u) tconn_listen_socket handled" where
  "tconn_listen_entry_disconnect gt k ls = client_conn_drop gt k ls"

lemma kill_silently: "client_conn_kill gt ops k False ls = tconn_listen_entry_disconnect gt k ls"
  by (simp add: client_conn_kill_def tconn_listen_entry_disconnect_def client_conn_drop_def deref_def hbind_def split: option.split)

section \<open>What a step of a session tells the connection\<close>

text \<open>What the buffers do to a session.\<close>

definition same_call :: "('s, 'u) tconn \<Rightarrow> ('s, 'u) tconn \<Rightarrow> bool" where
  "same_call tc tc' \<longleftrightarrow> tn_state tc' = tn_state tc \<and> tn_open tc' = tn_open tc \<and> tn_user tc' = tn_user tc \<and> tn_sess tc' = tn_sess tc"

lemma same_call_refl [simp]: "same_call tc tc"
  by (simp add: same_call_def)

lemma push_again_frame:
  "push_again sndr buf copied tc = (reply, tc') \<Longrightarrow> same_call tc tc'"
proof (induction "2 * length buf + (if length (tn_tx tc) \<ge> BUF_SIZE then 1 else 0)" arbitrary: buf copied tc rule: less_induct)
  case less
  define n where n_def: "n = min (BUF_SIZE - length (tn_tx tc)) (length buf)"
  define tx where tx_def: "tx = tn_tx tc @ take n buf"
  note eq = push_again_eq [OF n_def tx_def, of sndr copied]
  show ?case
  proof (cases "\<not> tn_handler_out tc \<and> length tx = BUF_SIZE")
    case False
    then have "tc' = tc\<lparr>tn_tx := tx\<rparr>" using less.prems unfolding eq if_not_P [OF False] by simp
    then show ?thesis by (simp add: same_call_def)
  next
    case True
    note eq' = eq [unfolded if_P [OF True]]
    show ?thesis
    proof (cases "sndr (tn_sent tc) tx")
      case (Send_errno e)
      then show ?thesis using less.prems unfolding eq' by (auto simp: same_call_def split: if_splits)
    next
      case (Sent m)
      define tc1 where "tc1 = tc\<lparr>tn_tx := drop m tx, tn_sent := tn_sent tc @ take m tx\<rparr>"
      define tc2 where "tc2 = (if drop m tx \<noteq> [] then tc1\<lparr>tn_handler_out := True\<rparr> else tc1)"
      have fr: "same_call tc tc2" "tn_tx tc2 = drop m tx"
        by (simp_all add: tc2_def tc1_def same_call_def)
      have res: "(if drop n buf \<noteq> [] \<and> length (drop m tx) < BUF_SIZE then push_again sndr (drop n buf) (copied + n) tc2
          else (Pushed (copied + n), tc2)) = (reply, tc')"
        using less.prems unfolding eq' Sent send_result.case Let_def tc1_def tc2_def by assumption
      show ?thesis
      proof (cases "drop n buf \<noteq> [] \<and> length (drop m tx) < BUF_SIZE")
        case c: True
        then have run: "push_again sndr (drop n buf) (copied + n) tc2 = (reply, tc')" using res by simp
        have "2 * length (drop n buf) + (if length (tn_tx tc2) \<ge> BUF_SIZE then 1 else 0) <
            2 * length buf + (if length (tn_tx tc) \<ge> BUF_SIZE then 1 else 0)"
        proof (cases "n = 0")
          case True
          then have "length (tn_tx tc) \<ge> BUF_SIZE" using c by (auto simp: n_def min_def split: if_splits)
          then show ?thesis using c True fr(2) by simp
        next
          case False
          moreover have "n < length buf" using c by simp
          ultimately have "length (drop n buf) < length buf" by simp
          then show ?thesis using c fr(2) by (simp del: length_drop)
        qed
        from less.hyps [OF this run] fr(1) show ?thesis by (simp add: same_call_def)
      next
        case False
        then have "tc' = tc2" using res unfolding if_not_P [OF False] by simp
        then show ?thesis using fr(1) by simp
      qed
    qed
  qed
qed

lemma pull_same: "tconn_gtls_pull_func len tc = (reply, tc') \<Longrightarrow> same_call tc tc'"
  by (auto simp: tconn_gtls_pull_func_def same_call_def Let_def split: if_splits)

lemma push_same: "tconn_gtls_push_func sndr buf tc = (reply, tc') \<Longrightarrow> same_call tc tc'"
  by (auto simp: tconn_gtls_push_func_def dest: push_again_frame split: if_splits)

lemma flush_same: "tconn_tx_flush sndr tc = (failed, tc') \<Longrightarrow> same_call tc tc'"
  by (auto simp: tconn_tx_flush_def same_call_def Let_def split: if_splits send_result.splits)

text \<open>
  What the socket needs of gnutls besides \<open>gnutls_ok\<close>.  \<open>V\<close> tells that the certificates of the peer have
  been accepted: a handshake ends well, or comes to such a session, only when the check of the
  certificates has answered 0, in this call or before.  No other call checks certificates.  A new
  session of a server begins by waiting for the peer.
\<close>

primrec gt_checks :: "('s \<Rightarrow> bool) \<Rightarrow> bool \<Rightarrow> 's gtls \<Rightarrow> bool" where
  "gt_checks V checked (Gret ret r s) \<longleftrightarrow> (ret = 0 \<or> V s \<longrightarrow> checked)"
| "gt_checks V checked (Gpull len k) \<longleftrightarrow> (\<forall>reply. gt_checks V checked (k reply))"
| "gt_checks V checked (Gpush buf k) \<longleftrightarrow> (\<forall>reply. gt_checks V checked (k reply))"
| "gt_checks V checked (Gverify certs k) \<longleftrightarrow> (\<forall>ret. gt_checks V (checked \<or> ret = 0) (k ret))"

primrec gt_silent :: "'s gtls \<Rightarrow> bool" where
  "gt_silent (Gret ret r s) \<longleftrightarrow> True"
| "gt_silent (Gpull len k) \<longleftrightarrow> (\<forall>reply. gt_silent (k reply))"
| "gt_silent (Gpush buf k) \<longleftrightarrow> (\<forall>reply. gt_silent (k reply))"
| "gt_silent (Gverify certs k) \<longleftrightarrow> False"

definition gnutls_checks :: "'s gnutls \<Rightarrow> ('s \<Rightarrow> bool) \<Rightarrow> bool" where
  "gnutls_checks gt V \<longleftrightarrow> gnutls_ok gt \<and> (\<forall>s. gt_checks V (V s) (gt_handshake gt s)) \<and>
     (\<forall>s. gt_silent (gt_recv gt s)) \<and> (\<forall>s r. gt_silent (gt_send gt s r))"

definition server_waits :: "'s gnutls \<Rightarrow> ('s \<Rightarrow> bool) \<Rightarrow> 's tls_start \<Rightarrow> bool" where
  "server_waits gt V st \<longleftrightarrow> (\<forall>s. ts_init st = Some s \<longrightarrow> \<not> V s \<and> (\<exists>len k. gt_handshake gt s = Gpull len k))"

text \<open>The check accepts by recording the entry.\<close>

lemma tl_verify_result:
  "tl_verify_key_ids entries ids n u = (ret, u') \<Longrightarrow>
   if ret = 0 then \<exists>e \<in> set entries. u' = u @ [(tle_ptr e, take NODE_ID_LEN ids)] else u' = u"
proof -
  have match: "match_key_ids entries ids n = Some e \<Longrightarrow> e \<in> set entries" for e
    by (induction n arbitrary: ids) (auto simp: find_listen_entry_def dest: avl_find_SomeD split: option.splits)
  have wild: "find_wildcard_listen_entry entries = Some e \<Longrightarrow> e \<in> set entries" for e
    by (auto simp: find_wildcard_listen_entry_def split: list.splits if_splits)
  show "tl_verify_key_ids entries ids n u = (ret, u') \<Longrightarrow> ?thesis"
    using match wild by (auto simp: tl_verify_key_ids_def split: option.splits)
qed

definition checks_of :: "tconn_listen_entry list \<Rightarrow> cc_checks \<Rightarrow> bool" where
  "checks_of entries u \<longleftrightarrow> (\<forall>m \<in> set u. fst m \<in> tle_ptr ` set entries \<and> length (snd m) = NODE_ID_LEN)"

text \<open>A certificate yields a key id.\<close>

definition crts_ok :: "(bytes \<Rightarrow> crt option) \<Rightarrow> bool" where
  "crts_ok imp \<longleftrightarrow> (\<forall>der c. imp der = Some c \<longrightarrow> length (crt_id c) = NODE_ID_LEN)"

lemma verify_certs_length: "verify_certs imp i certs ids = Some ids' \<Longrightarrow> length ids \<le> length ids'"
  by (induction imp i certs ids rule: verify_certs.induct) (force split: option.splits if_splits)+

lemma verify_certs_first:
  assumes "crts_ok imp" "verify_certs imp 0 certs [] = Some ids" "certs \<noteq> []"
  shows "NODE_ID_LEN \<le> length ids"
proof -
  obtain der ders where c: "certs = der # ders" using assms(3) by (cases certs) auto
  then obtain crt where crt: "imp der = Some crt" "verify_certs imp 1 ders (crt_id crt) = Some ids"
    using assms(2) by (auto split: option.splits)
  from verify_certs_length [OF crt(2)] crt(1) assms(1) show ?thesis by (auto simp: crts_ok_def)
qed

lemma verify_cert_result:
  assumes "tconn_verify_cert (tl_tls_env env entries) certs u = (ret, u')" "checks_of entries u" "crts_ok (tx_crt env)"
  shows "checks_of entries u' \<and> (if ret = 0 then u' \<noteq> [] else u' = u)"
proof -
  have "(ret = 1 \<and> u' = u) \<or> (\<exists>ids n. tl_verify_key_ids entries ids n u = (ret, u') \<and> NODE_ID_LEN \<le> length ids)"
    using assms(1) verify_certs_first [OF assms(3)] by (auto simp: tconn_verify_cert_def tl_tls_env_def split: if_splits option.splits)
  then show ?thesis
  proof
    assume "\<exists>ids n. tl_verify_key_ids entries ids n u = (ret, u') \<and> NODE_ID_LEN \<le> length ids"
    then obtain ids n where v: "tl_verify_key_ids entries ids n u = (ret, u')" "NODE_ID_LEN \<le> length ids" by blast
    show ?thesis using tl_verify_result [OF v(1)] v(2) assms(2) by (cases "ret = 0") (auto simp: checks_of_def)
  qed (use assms(2) in simp)
qed

lemma run_checks:
  "crts_ok (tx_crt env) \<Longrightarrow> gt_checks V checked t \<Longrightarrow> run_gtls (tl_tls_env env entries) t tc = (ret, buf, tc') \<Longrightarrow> (checked \<longrightarrow> base \<or> tn_user tc \<noteq> []) \<Longrightarrow>
   checks_of entries (tn_user tc) \<Longrightarrow>
   tn_state tc' = tn_state tc \<and> tn_open tc' = tn_open tc \<and> checks_of entries (tn_user tc') \<and>
     (ret = 0 \<or> V (tn_sess tc') \<longrightarrow> base \<or> tn_user tc' \<noteq> [])"
proof (induction t arbitrary: tc checked)
  case (Gpull len k)
  obtain reply tc1 where p: "tconn_gtls_pull_func len tc = (reply, tc1)" by fastforce
  have "gt_checks V checked (k reply)" "run_gtls (tl_tls_env env entries) (k reply) tc1 = (ret, buf, tc')" using Gpull.prems(2,3) p by simp_all
  from Gpull.IH [OF _ Gpull.prems(1) this] pull_same [OF p] Gpull.prems(4,5) show ?case by (simp add: same_call_def)
next
  case (Gpush b k)
  obtain reply tc1 where p: "tconn_gtls_push_func (tl_send (tl_tls_env env entries)) b tc = (reply, tc1)" by fastforce
  have "gt_checks V checked (k reply)" "run_gtls (tl_tls_env env entries) (k reply) tc1 = (ret, buf, tc')" using Gpush.prems(2,3) p by simp_all
  from Gpush.IH [OF _ Gpush.prems(1) this] push_same [OF p] Gpush.prems(4,5) show ?case by (simp add: same_call_def)
next
  case (Gverify certs k)
  obtain r u where v: "tconn_verify_cert (tl_tls_env env entries) certs (tn_user tc) = (r, u)" by fastforce
  note u = verify_cert_result [OF v Gverify.prems(5) Gverify.prems(1)]
  have "gt_checks V (checked \<or> r = 0) (k r)" "run_gtls (tl_tls_env env entries) (k r) (tc\<lparr>tn_user := u\<rparr>) = (ret, buf, tc')"
    using Gverify.prems(2,3) v by simp_all
  from Gverify.IH [OF _ Gverify.prems(1) this] u Gverify.prems(4) show ?case by (auto split: if_splits)
qed auto

lemma run_silent:
  "gt_silent t \<Longrightarrow> run_gtls env t tc = (ret, buf, tc') \<Longrightarrow>
   tn_state tc' = tn_state tc \<and> tn_open tc' = tn_open tc \<and> tn_user tc' = tn_user tc"
proof (induction t arbitrary: tc)
  case (Gpull len k)
  obtain reply tc1 where p: "tconn_gtls_pull_func len tc = (reply, tc1)" by fastforce
  have "gt_silent (k reply)" "run_gtls env (k reply) tc1 = (ret, buf, tc')" using Gpull.prems p by simp_all
  from Gpull.IH [OF _ this] pull_same [OF p] show ?case by (simp add: same_call_def)
next
  case (Gpush b k)
  obtain reply tc1 where p: "tconn_gtls_push_func (tl_send env) b tc = (reply, tc1)" by fastforce
  have "gt_silent (k reply)" "run_gtls env (k reply) tc1 = (ret, buf, tc')" using Gpush.prems p by simp_all
  from Gpush.IH [OF _ this] push_same [OF p] show ?case by (simp add: same_call_def)
qed auto

text \<open>
  A session that waits for an event, of a connection that has an entry (\<open>known\<close>) and is connected or not, and
  what an event makes of it.
\<close>

definition session_ready :: "'s gnutls \<Rightarrow> ('s \<Rightarrow> bool) \<Rightarrow> bool \<Rightarrow> bool \<Rightarrow> ('s, cc_checks) tconn \<Rightarrow> bool" where
  "session_ready gt V known connected tc \<longleftrightarrow> tls_inv gt tc \<and> tn_open tc \<and> tn_user tc = [] \<and> tn_state tc \<noteq> TLS_DEAD \<and>
     (tn_state tc = TLS_HANDSHAKE \<longleftrightarrow> \<not> connected) \<and> (V (tn_sess tc) \<and> \<not> connected \<longrightarrow> known) \<and> (connected \<longrightarrow> known)"

definition session_left ::
  "'s gnutls \<Rightarrow> ('s \<Rightarrow> bool) \<Rightarrow> tconn_listen_entry list \<Rightarrow> bool \<Rightarrow> bool \<Rightarrow> ('s, cc_checks) tconn \<Rightarrow> tconn_note option \<Rightarrow> bool" where
  "session_left gt V entries known connected tc nt \<longleftrightarrow> tls_inv gt tc \<and> tn_open tc \<and> checks_of entries (tn_user tc) \<and>
     (connected \<longrightarrow> tn_user tc = [] \<and> known) \<and>
     (case nt of
        None \<Rightarrow> tn_state tc \<noteq> TLS_DEAD \<and> (tn_state tc = TLS_HANDSHAKE \<longleftrightarrow> \<not> connected) \<and>
          (V (tn_sess tc) \<and> \<not> connected \<longrightarrow> known \<or> tn_user tc \<noteq> [])
      | Some Tn_handshake_done \<Rightarrow> \<not> connected \<and> tn_state tc = TLS_RUNNING \<and> (known \<or> tn_user tc \<noteq> [])
      | Some (Tn_record r) \<Rightarrow> connected \<and> (tn_state tc = TLS_RUNNING \<or> tn_state tc = TLS_TX_CONGESTION)
      | Some Tn_lost \<Rightarrow> tn_state tc = TLS_DEAD)"

lemma abort_note: "tconn_connection_abort True tc = (tc', nt) \<Longrightarrow> nt = Some Tn_lost \<and> tn_state tc' = TLS_DEAD \<and> tn_user tc' = tn_user tc"
  by (auto simp: tconn_connection_abort_def)

lemma handshake_call_checks:
  assumes "gnutls_checks gt V" "gtls_call (tl_tls_env env entries) (\<lambda>ret. ret = 0) (gt_handshake gt) (gt_handshake gt) tc = (ret, tc')"
    "V (tn_sess tc) \<longrightarrow> base \<or> tn_user tc \<noteq> []" "checks_of entries (tn_user tc)" "crts_ok (tx_crt env)"
  shows "tn_state tc' = tn_state tc \<and> checks_of entries (tn_user tc') \<and> (ret = 0 \<or> V (tn_sess tc') \<longrightarrow> base \<or> tn_user tc' \<noteq> [])"
proof -
  have hs: "gt_checks V (V s) (gt_handshake gt s)" for s using assms(1) by (simp add: gnutls_checks_def)
  obtain ret1 buf tc1 where run: "run_gtls (tl_tls_env env entries) (gt_handshake gt (tn_sess tc)) tc = (ret1, buf, tc1)" by (metis prod_cases3)
  note r1 = run_checks [OF assms(5) hs run assms(3,4)]
  obtain failed tc2 where fl: "tconn_tx_flush (tl_send (tl_tls_env env entries)) tc1 = (failed, tc2)" by fastforce
  note r2 = flush_same [OF fl]
  obtain ret3 buf3 tc3 where run3: "run_gtls (tl_tls_env env entries) (gt_handshake gt (tn_sess tc2)) tc2 = (ret3, buf3, tc3)" by (metis prod_cases3)
  have r3: "tn_state tc3 = tn_state tc2 \<and> tn_open tc3 = tn_open tc2 \<and> checks_of entries (tn_user tc3) \<and>
     (ret3 = 0 \<or> V (tn_sess tc3) \<longrightarrow> base \<or> tn_user tc3 \<noteq> [])"
    by (rule run_checks [OF assms(5) hs run3]) (use r1 r2 in \<open>auto simp: same_call_def\<close>)
  have "(ret, tc') = (if ret1 = 0 \<or> ret1 = GNUTLS_E_AGAIN then if failed \<noteq> 0 then (ret3, tc3) else (ret1, tc2) else (ret1, tc1))"
    using assms(2) unfolding gtls_call_def run Let_def prod.case fl run3 by simp
  then show ?thesis using r1 r2 r3 by (auto simp: same_call_def split: if_splits)
qed

lemma handshake_left:
  assumes "gnutls_checks gt V" "session_ready gt V known connected (tc0)" "tn_state tc0 = TLS_HANDSHAKE" "tn_user tc = []" "tn_sess tc = tn_sess tc0"
    "tn_state tc = TLS_HANDSHAKE"
    "tconn_do_handshake gt (tl_tls_env env entries) True tc = Inr (r, tc', nt)" "tls_inv gt tc'" "tn_open tc'"
    "crts_ok (tx_crt env)"
  shows "session_left gt V entries known connected tc' nt"
proof -
  have c: "\<not> connected" "V (tn_sess tc) \<longrightarrow> known \<or> tn_user tc \<noteq> []" "checks_of entries (tn_user tc)"
    using assms(2-5) by (auto simp: session_ready_def checks_of_def)
  obtain ret tc1 where call: "gtls_call (tl_tls_env env entries) (\<lambda>ret. ret = 0) (gt_handshake gt) (gt_handshake gt) tc = (ret, tc1)" by fastforce
  note k = handshake_call_checks [OF assms(1) call c(2,3) assms(10)]
  show ?thesis
  proof (cases "ret = 0")
    case True
    then obtain tc2 where r: "rx_task_if_needed gt (tc1\<lparr>tn_state := TLS_RUNNING\<rparr>) = Inr tc2" "tc' = tc2" "nt = Some Tn_handshake_done"
      using assms(7) call by (auto simp: tconn_do_handshake_def split: if_splits)
    have "tn_state tc2 = TLS_RUNNING" "tn_user tc2 = tn_user tc1"
      using r(1) by (auto simp: rx_task_if_needed_def rx_task_register_def split: if_splits)
    then show ?thesis using assms(8,9) c(1) k True r by (simp add: session_left_def)
  next
    case False
    show ?thesis
    proof (cases "ret = GNUTLS_E_AGAIN")
      case True
      then have "tc' = tc1" "nt = None" using assms(7) call by (auto simp: tconn_do_handshake_def)
      then show ?thesis using assms(6,8,9) c(1) k by (auto simp: session_left_def)
    next
      case again: False
      then have "tconn_connection_abort True tc1 = (tc', nt)"
        using assms(7) call False by (auto simp: tconn_do_handshake_def split: prod.splits)
      from abort_note [OF this] show ?thesis using assms(8,9) c(1) k by (simp add: session_left_def)
    qed
  qed
qed

lemma recv_left:
  assumes "gnutls_checks gt V" "known" "tn_state tc = TLS_RUNNING \<or> tn_state tc = TLS_TX_CONGESTION" "tn_user tc = []"
    "tconn_do_record_recv gt env tc = Inr (tc', nt)" "tls_inv gt tc'" "tn_open tc'"
  shows "session_left gt V entries known True tc' nt"
proof -
  obtain ret buf tc1 where run: "run_gtls env (gt_recv gt (tn_sess tc)) tc = (ret, buf, tc1)" by (metis prod_cases3)
  have s: "tn_state tc1 = tn_state tc" "tn_user tc1 = []"
    using run_silent [OF _ run] assms(1,4) by (simp_all add: gnutls_checks_def)
  consider (again) "ret = GNUTLS_E_AGAIN" | (fails) "ret \<noteq> GNUTLS_E_AGAIN" "ret < 0 \<and> ret \<noteq> GNUTLS_E_REHANDSHAKE \<or> ret = 0"
    | (got) "ret \<noteq> GNUTLS_E_AGAIN" "(ret < 0 \<and> ret \<noteq> GNUTLS_E_REHANDSHAKE \<or> ret = 0) = False" by blast
  then show ?thesis
  proof cases
    case again
    then have "tc' = tc1" "nt = None" using assms(5) run by (auto simp: tconn_do_record_recv_def)
    then show ?thesis using assms(2,3,6,7) s by (auto simp: session_left_def checks_of_def)
  next
    case fails
    then have "tconn_connection_abort True tc1 = (tc', nt)" using assms(5) run by (simp add: tconn_do_record_recv_def)
    from abort_note [OF this] show ?thesis using assms(2,6,7) s by (simp add: session_left_def checks_of_def)
  next
    case got
    have "rx_task_if_needed gt tc1 = Inr tc' \<and> (nt = None \<or> (\<exists>r. nt = Some (Tn_record r)))"
      using assms(5) unfolding tconn_do_record_recv_def run Let_def prod.case if_not_P [OF got(1)] got(2) if_False hbind_eq_Inr
      by (elim exE conjE) (auto split: if_splits)
    moreover from this have "tn_state tc' = tn_state tc1" "tn_user tc' = tn_user tc1"
      by (auto simp: rx_task_if_needed_def rx_task_register_def split: if_splits)
    ultimately show ?thesis using assms(2,3,6,7) s by (auto simp: session_left_def checks_of_def)
  qed
qed

lemma send_call_silent:
  assumes "gnutls_checks gt V" "gtls_call env (\<lambda>ret. 0 < ret) (\<lambda>s. gt_send gt s r) (\<lambda>s. gt_send gt s []) tc = (ret, tc')"
  shows "tn_state tc' = tn_state tc \<and> tn_user tc' = tn_user tc"
proof -
  have sd: "gt_silent (gt_send gt s r)" for s r using assms(1) by (simp add: gnutls_checks_def)
  obtain ret1 buf tc1 where run: "run_gtls env (gt_send gt (tn_sess tc) r) tc = (ret1, buf, tc1)" by (metis prod_cases3)
  obtain failed tc2 where fl: "tconn_tx_flush (tl_send env) tc1 = (failed, tc2)" by fastforce
  obtain ret3 buf3 tc3 where run3: "run_gtls env (gt_send gt (tn_sess tc2) []) tc2 = (ret3, buf3, tc3)" by (metis prod_cases3)
  have "tc' = (if 0 < ret1 \<or> ret1 = GNUTLS_E_AGAIN then if failed \<noteq> 0 then tc3 else tc2 else tc1)"
    using assms(2) unfolding gtls_call_def run Let_def prod.case fl run3 by (auto split: if_splits)
  then show ?thesis using run_silent [OF sd run] flush_same [OF fl] run_silent [OF sd run3] by (simp add: same_call_def)
qed

lemma send_left:
  assumes "gnutls_checks gt V" "known" "tn_state tc = TLS_TX_CONGESTION" "tn_user tc = []"
    "tconn_do_record_send gt env tc = Inr (tc', nt)" "tls_inv gt tc'" "tn_open tc'"
  shows "session_left gt V entries known True tc' nt"
proof -
  obtain ret tc1 where c: "gtls_call env (\<lambda>ret. 0 < ret) (\<lambda>s. gt_send gt s []) (\<lambda>s. gt_send gt s []) tc = (ret, tc1)" by fastforce
  have s: "tn_state tc1 = TLS_TX_CONGESTION" "tn_user tc1 = []" using send_call_silent [OF assms(1) c] assms(3,4) by simp_all
  show ?thesis
  proof (cases "ret < 0 \<and> ret \<noteq> GNUTLS_E_AGAIN")
    case True
    then have "tconn_connection_abort True tc1 = (tc', nt)" using assms(5) c by (simp add: tconn_do_record_send_def)
    from abort_note [OF this] show ?thesis using assms(2,6,7) s by (simp add: session_left_def checks_of_def)
  next
    case False
    then have "nt = None \<and> (tc' = tc1 \<or> tc' = tc1\<lparr>tn_state := TLS_RUNNING\<rparr>)"
      using assms(5) c s(1) by (cases "ret = GNUTLS_E_AGAIN") (auto simp: tconn_do_record_send_def Let_def)
    then show ?thesis using assms(2,6,7) s by (auto simp: session_left_def checks_of_def)
  qed
qed

lemma session_readyD:
  assumes "session_ready gt V known connected tc"
  shows "tls_inv gt tc" "tn_open tc" "tn_user tc = []" "tn_state tc \<noteq> TLS_DEAD" "tn_state tc = TLS_HANDSHAKE \<longleftrightarrow> \<not> connected" "connected \<Longrightarrow> known"
    "tn_state tc \<noteq> TLS_HANDSHAKE \<Longrightarrow> tn_state tc = TLS_RUNNING \<or> tn_state tc = TLS_TX_CONGESTION"
  using assms by (cases "tn_state tc"; auto simp: session_ready_def)+

definition tl_env_ok :: "tl_env \<Rightarrow> bool" where
  "tl_env_ok env \<longleftrightarrow> sender_ok (tx_send env) \<and> tx_nodelay env \<and> crts_ok (tx_crt env)"

lemma tl_env_okD: "tl_env_ok env \<Longrightarrow> sender_ok (tl_send (tl_tls_env env entries)) \<and> tl_nodelay (tl_tls_env env entries)"
  by (simp add: tl_env_ok_def tl_tls_env_def)

lemma rx_task_left:
  assumes "gnutls_checks gt V" "tl_env_ok env" "session_ready gt V known connected tc" "tn_rx_task tc"
  shows "\<exists>tc' nt. tconn_rx_task_handler gt (tl_tls_env env entries) (tc\<lparr>tn_rx_task := False\<rparr>) = Inr (tc', nt) \<and>
    session_left gt V entries known connected tc' nt"
proof -
  note r = session_readyD [OF assms(3)]
  let ?tc = "tc\<lparr>tn_rx_task := False\<rparr>" and ?env = "tl_tls_env env entries"
  have gt: "gnutls_ok gt" using assms(1) by (simp add: gnutls_checks_def)
  obtain tc' nt where h: "tconn_rx_task_handler gt ?env ?tc = Inr (tc', nt)" "tls_inv gt tc'" "tn_open tc'"
    using rx_task_inv [OF gt _ _ r(1) assms(4), of ?env] tl_env_okD [OF assms(2), of entries] r(2) by auto
  show ?thesis
  proof (cases "tn_state tc = TLS_HANDSHAKE")
    case True
    then obtain i where "tconn_do_handshake gt ?env True ?tc = Inr (i, tc', nt)" using h(1) by (auto simp: tconn_rx_task_handler_def split: if_splits)
    from handshake_left [OF assms(1,3) True _ _ _ this h(2,3)] r(3) True h(1) assms(2) show ?thesis by (simp add: tl_env_ok_def)
  next
    case False
    then have "tconn_do_record_recv gt ?env ?tc = Inr (tc', nt)" using h(1) by (auto simp: tconn_rx_task_handler_def split: if_splits)
    moreover have "connected" "known" using r(5,6) False by simp_all
    ultimately show ?thesis using recv_left [OF assms(1) _ _ _ _ h(2,3), where known = known and tc = ?tc and env = ?env and entries = entries] h(1) r(3) r(7) [OF False] by simp
  qed
qed

lemma tx_task_left:
  assumes "gnutls_checks gt V" "tl_env_ok env" "session_ready gt V known connected tc" "tn_tx_task tc"
  shows "\<exists>tc' nt. tconn_tx_task_handler gt (tl_tls_env env entries) (tc\<lparr>tn_tx_task := False\<rparr>) = Inr (tc', nt) \<and>
    session_left gt V entries known connected tc' nt"
proof -
  note r = session_readyD [OF assms(3)]
  let ?tc = "tc\<lparr>tn_tx_task := False\<rparr>" and ?env = "tl_tls_env env entries"
  have gt: "gnutls_ok gt" using assms(1) by (simp add: gnutls_checks_def)
  obtain tc' nt where h: "tconn_tx_task_handler gt ?env ?tc = Inr (tc', nt)" "tls_inv gt tc'" "tn_open tc'"
    using tx_task_inv [OF gt _ _ r(1) assms(4), of ?env] tl_env_okD [OF assms(2), of entries] r(2) by auto
  show ?thesis
  proof (cases "tn_state tc = TLS_HANDSHAKE")
    case True
    then obtain i where "tconn_do_handshake gt ?env True ?tc = Inr (i, tc', nt)" using h(1) by (auto simp: tconn_tx_task_handler_def split: if_splits)
    from handshake_left [OF assms(1,3) True _ _ _ this h(2,3)] r(3) True h(1) assms(2) show ?thesis by (simp add: tl_env_ok_def)
  next
    case False
    then have "tconn_do_record_send gt ?env ?tc = Inr (tc', nt)" "tn_state tc = TLS_TX_CONGESTION"
      using h(1) by (auto simp: tconn_tx_task_handler_def split: if_splits)
    moreover have "connected" "known" using r(5,6) False by simp_all
    ultimately show ?thesis using send_left [OF assms(1) _ _ _ _ h(2,3), where known = known and tc = ?tc and env = ?env and entries = entries] h(1) r(3) by simp
  qed
qed

lemma handler_in_same:
  assumes "tconn_fd_handler_in gt r tc = Inr tc'"
  shows "same_call tc tc'"
proof (cases r)
  case (Recv bs)
  let ?w = "(tn_state tc = TLS_HANDSHAKE \<and> \<not> gt_direction gt (tn_sess tc)) \<or> tn_state tc = TLS_RUNNING \<or> tn_state tc = TLS_TX_CONGESTION"
  have rx: "tn_rx tc = []" using assms by (auto simp: tconn_fd_handler_in_def split: if_splits)
  obtain tc1 where t: "(if ?w then rx_task_register (tc\<lparr>tn_handler_in := False\<rparr>) else Inr (tc\<lparr>tn_handler_in := False\<rparr>)) = Inr tc1"
    and f: "tc' = tc1\<lparr>tn_rx := bs\<rparr>"
    using assms rx Recv unfolding tconn_fd_handler_in_def by (auto simp: Let_def)
  have "same_call tc tc1" using t by (auto simp: rx_task_register_def same_call_def split: if_splits)
  then show ?thesis unfolding f by (simp add: same_call_def)
qed (use assms in \<open>auto simp: tconn_fd_handler_in_def got_io_error_eq same_call_def split: if_splits\<close>)

lemma handler_out_same:
  assumes "tconn_fd_handler_out gt sndr tc = Inr tc'"
  shows "same_call tc tc'"
proof (cases "sndr (tn_sent tc) (tn_tx tc)")
  case (Send_errno e)
  then show ?thesis using assms by (auto simp: tconn_fd_handler_out_def got_io_error_eq same_call_def split: if_splits)
next
  case (Sent n)
  let ?w = "length (tn_tx tc) = BUF_SIZE \<and> ((tn_state tc = TLS_HANDSHAKE \<and> gt_direction gt (tn_sess tc)) \<or> tn_state tc = TLS_TX_CONGESTION)"
  obtain tc1 where t: "(if ?w then tx_task_register tc else Inr tc) = Inr tc1"
    and f: "tc' = (let tc = tc1\<lparr>tn_tx := drop n (tn_tx tc1), tn_sent := tn_sent tc1 @ take n (tn_tx tc1)\<rparr>
         in if tn_tx tc = [] then tc\<lparr>tn_handler_out := False\<rparr> else tc)"
    using assms Sent unfolding tconn_fd_handler_out_def by (auto simp: Let_def)
  have "same_call tc tc1" using t by (auto simp: tx_task_register_def same_call_def split: if_splits)
  then show ?thesis unfolding f by (simp add: same_call_def Let_def)
qed

lemma same_call_left:
  assumes "session_ready gt V known connected tc" "same_call tc tc'" "tls_inv gt tc'"
  shows "session_left gt V entries known connected tc' None"
  using assms by (auto simp: session_ready_def session_left_def same_call_def checks_of_def)

lemma record_send_left:
  assumes "gnutls_checks gt V" "sender_ok (tl_send env)" "session_ready gt V known True tc"
  shows "\<exists>ret tc'. tconn_record_send gt env r tc = Inr (ret, tc') \<and> tls_inv gt tc' \<and> tn_open tc' \<and> tn_user tc' = [] \<and>
    (ret = 0 \<longrightarrow> session_ready gt V known True tc')"
proof -
  note d = session_readyD [OF assms(3)]
  have gt: "gnutls_ok gt" using assms(1) by (simp add: gnutls_checks_def)
  obtain ret tc' where h: "tconn_record_send gt env r tc = Inr (ret, tc')" "tls_inv gt tc'" "tn_open tc'"
    using record_send_inv [OF gt assms(2) d(1), of r] d(2) by auto
  have st: "tn_state tc = TLS_RUNNING \<or> tn_state tc = TLS_TX_CONGESTION" using d(5,7) by simp
  obtain ret1 tc1 where c: "gtls_call env (\<lambda>ret. 0 < ret) (\<lambda>s. gt_send gt s r) (\<lambda>s. gt_send gt s []) tc = (ret1, tc1)" by fastforce
  note sc = send_call_silent [OF assms(1) c]
  have "tn_user tc' = [] \<and> (ret = 0 \<longrightarrow> tn_state tc' = TLS_RUNNING \<or> tn_state tc' = TLS_TX_CONGESTION)"
  proof (cases "tn_state tc = TLS_TX_CONGESTION")
    case True
    then show ?thesis using h(1) d(3) by (auto simp: tconn_record_send_def)
  next
    case False
    then have run: "tn_state tc = TLS_RUNNING" "\<not> tn_state tc \<noteq> TLS_RUNNING" using st by simp_all
    show ?thesis
    proof (cases "ret1 < 0 \<and> ret1 \<noteq> GNUTLS_E_AGAIN")
      case True
      have "ret = -1 \<and> tc' = fst (tconn_connection_abort False tc1)"
        using h(1) unfolding tconn_record_send_def c Let_def prod.case if_P [OF True] if_not_P [OF False] if_not_P [OF run(2)] by auto
      then show ?thesis using sc d(3) by (simp add: tconn_connection_abort_def)
    next
      case ok: False
      have "tc' = (if ret1 = GNUTLS_E_AGAIN then tc1\<lparr>tn_state := TLS_TX_CONGESTION\<rparr> else tc1)"
        using h(1) unfolding tconn_record_send_def c Let_def prod.case if_not_P [OF ok] if_not_P [OF False] if_not_P [OF run(2)] hbind_eq_Inr
        by (elim exE conjE) (simp split del: if_split)
      then show ?thesis using sc d(3) run(1) by (cases "ret1 = GNUTLS_E_AGAIN") simp_all
    qed
  qed
  then show ?thesis using h d(6) by (auto simp: session_ready_def)
qed

text \<open>The calls that make the session work.\<close>

definition tls_start_ok :: "'s tls_start \<Rightarrow> bool" where
  "tls_start_ok st \<longleftrightarrow> ts_init st \<noteq> None \<and> ts_priority st = 0 \<and> ts_allocate st = 0 \<and> ts_set_key st = 0 \<and> ts_set_credentials st = 0"

lemma start_left:
  assumes "gnutls_checks gt V" "server_waits gt V st" "tls_start_ok st" "tl_env_ok env" "tn_user tc = []"
  shows "\<exists>tc'. tconn_start gt st (tl_tls_env env entries) tc = Inr (0, tc', None) \<and> session_ready gt V False False tc'"
proof -
  let ?env = "tl_tls_env env entries"
  obtain s len k where s: "ts_init st = Some s" "\<not> V s" "gt_handshake gt s = Gpull len k"
    using assms(2,3) by (auto simp: server_waits_def tls_start_ok_def)
  define tc0 where "tc0 = tc\<lparr>tn_sess := s, tn_handler_in := True, tn_handler_out := False, tn_io_error := 0,
                 tn_rx_task := False, tn_rx := [], tn_rx_eof := False, tn_tx_task := False, tn_tx := [], tn_state := TLS_HANDSHAKE\<rparr>"
  have gt: "gnutls_ok gt" using assms(1) by (simp add: gnutls_checks_def)
  have "gt_behaves (\<lambda>ret s'. ret = 0) (\<lambda>w s'. gt_direction gt s' = w) True True (Gpull len k)"
    using gnutls_ok_handshake [OF gt, of s] s(3) by simp
  then have "returns_again (\<lambda>w s'. gt_direction gt s' = w) False (k (Pull_errno EAGAIN))" by simp
  then obtain buf s' where k: "k (Pull_errno EAGAIN) = Gret GNUTLS_E_AGAIN buf s'"
    by (cases "k (Pull_errno EAGAIN)") (auto simp: returns_again_def)
  have "gt_checks V (V s) (gt_handshake gt s)" using assms(1) by (simp add: gnutls_checks_def)
  then have "gt_checks V (V s) (k (Pull_errno EAGAIN))" unfolding s(3) by simp
  then have V: "\<not> V s'" using s(2) unfolding k by simp
  have call: "gtls_call ?env (\<lambda>ret. ret = 0) (gt_handshake gt) (gt_handshake gt) tc0 = (GNUTLS_E_AGAIN, tc0\<lparr>tn_sess := s'\<rparr>)"
    using s(3) k by (simp add: gtls_call_def tc0_def tconn_gtls_pull_func_def tconn_tx_flush_def)
  have "tls_sound gt tc0" by (simp add: tls_sound_def io_ok_def tc0_def)
  then obtain r tc1 nt where h: "tconn_do_handshake gt ?env False tc0 = Inr (r, tc1, nt)" "tls_inv gt tc1"
    using do_handshake_inv [OF gt _ _ \<open>tls_sound gt tc0\<close>, of ?env False] tl_env_okD [OF assms(4), of entries] by (auto simp: tc0_def)
  have res: "r = 0" "nt = None" "tc1 = tc0\<lparr>tn_sess := s'\<rparr>" using h(1) call by (auto simp: tconn_do_handshake_def)
  have "tconn_start gt st ?env tc = Inr (0, tc1\<lparr>tn_open := True\<rparr>, None)"
    using h(1) s(1) assms(3) res(1,2) by (simp add: tconn_start_def tconn_start_handshake_def tls_start_ok_def Let_def tc0_def)
  moreover have "session_ready gt V False False (tc1\<lparr>tn_open := True\<rparr>)"
    using h(2) res(3) V assms(5) by (simp add: session_ready_def set_open tc0_def)
  ultimately show ?thesis by blast
qed

end
