(* ===== verification/Tconn_Listen_Safe.thy ===== *)
theory Tconn_Listen_Safe
  imports Tconn_Listen
begin

section \<open>The invariant\<close>

text \<open>What holds of every connection, and of one that waits for an event.\<close>

definition cc_core :: "'s gnutls \<Rightarrow> 's client_conn \<Rightarrow> bool" where
  "cc_core gt cc \<longleftrightarrow> cc_registered cc \<and> tls_inv gt (cc_tconn cc) \<and> tn_open (cc_tconn cc) \<and> tn_user (cc_tconn cc) = [] \<and>
     (cc_keepalive_timer cc \<noteq> None \<longleftrightarrow> cc_state cc = CC_CONNECTED) \<and> (cc_state cc = CC_TLS_HANDSHAKE \<longleftrightarrow> cc_tle cc = None) \<and>
     (cc_state cc = CC_CONNECTED \<longrightarrow> cc_cookie cc \<noteq> None) \<and> length (cc_id cc) = NODE_ID_LEN"

definition cc_ready :: "'s gnutls \<Rightarrow> ('s \<Rightarrow> bool) \<Rightarrow> 's client_conn \<Rightarrow> bool" where
  "cc_ready gt V cc \<longleftrightarrow> session_ready gt V (cc_tle cc \<noteq> None) (cc_state cc = CC_CONNECTED) (cc_tconn cc) \<and> cc_rx_timeout cc \<noteq> None"

definition tle_ok :: "tconn_listen_entry \<Rightarrow> bool" where
  "tle_ok e \<longleftrightarrow> tle_fp_type e = CONF_FP_TYPE_ANY \<or> length (tle_fingerprint e) = NODE_ID_LEN"

definition entries_ok :: "tconn_listen_entry list \<Rightarrow> bool" where
  "entries_ok es \<longleftrightarrow> avl_ordered tl_compare_listen_entries es \<and> list_all tle_ok es \<and> distinct (map tle_ptr es)"

lemma tle_key: "ord_cmp (if tle_fp_type a = CONF_FP_TYPE_ANY then [] else (0::byte) # tle_fingerprint a)
    (if tle_fp_type b = CONF_FP_TYPE_ANY then [] else 0 # tle_fingerprint b) =
   (if tle_fp_type a = CONF_FP_TYPE_ANY then if tle_fp_type b = CONF_FP_TYPE_ANY then 0 else -1
    else if tle_fp_type b = CONF_FP_TYPE_ANY then 1 else ord_cmp (tle_fingerprint a) (tle_fingerprint b))"
  by (auto simp: ord_cmp_Cons ord_cmp_def)

interpretation tle_order: avl_order tl_compare_listen_entries tle_ok
  by (rule avl_order_key [where f = "\<lambda>e. if tle_fp_type e = CONF_FP_TYPE_ANY then [] else (0::byte) # tle_fingerprint e"])
    (auto simp: tl_compare_listen_entries_def tle_ok_def tle_key memcmp_ord)

text \<open>\<open>X\<close> are the connections in the middle of a callback.\<close>

definition ls_links :: "'s gnutls \<Rightarrow> ('s \<Rightarrow> bool) \<Rightarrow> nat set \<Rightarrow> ('s, 'u) tconn_listen_socket \<Rightarrow> bool" where
  "ls_links gt V X ls \<longleftrightarrow>
     (\<forall>k cc. ls_conns ls k = Some cc \<longrightarrow> cc_core gt cc \<and> (k \<notin> X \<longrightarrow> cc_ready gt V cc) \<and>
        (\<forall>t. cc_tle cc = Some t \<longrightarrow> t \<in> tle_ptr ` set (ls_entries ls))) \<and>
     (\<forall>l k. k \<in> set (ls_lists ls l) \<longleftrightarrow> (\<exists>cc. ls_conns ls k = Some cc \<and> cc_tle cc = l)) \<and>
     (\<forall>l. distinct (ls_lists ls l)) \<and> entries_ok (ls_entries ls)"

definition ls_conn_fds :: "('s, 'u) tconn_listen_socket \<Rightarrow> int set" where
  "ls_conn_fds ls = {fd. \<exists>k cc. ls_conns ls k = Some cc \<and> cc_fd cc = fd}"

definition ls_listen_fds :: "('s, 'u) tconn_listen_socket \<Rightarrow> int set" where
  "ls_listen_fds ls = (if ls_registered ls then {ls_listen_fd ls} else {})"

definition ls_fds :: "('s, 'u) tconn_listen_socket \<Rightarrow> bool" where
  "ls_fds ls \<longleftrightarrow>
     (\<forall>k k' cc cc'. ls_conns ls k = Some cc \<longrightarrow> ls_conns ls k' = Some cc' \<longrightarrow> cc_fd cc = cc_fd cc' \<longrightarrow> k = k') \<and>
     ls_listen_fds ls \<inter> ls_conn_fds ls = {} \<and> open_fds (ls_calls ls) = ls_listen_fds ls \<union> ls_conn_fds ls"

definition ls_inv :: "'s gnutls \<Rightarrow> ('s \<Rightarrow> bool) \<Rightarrow> nat set \<Rightarrow> ('s, 'u) tconn_listen_socket \<Rightarrow> bool" where
  "ls_inv gt V X ls \<longleftrightarrow> ls_links gt V X ls \<and> ls_fds ls"

lemma ls_invD:
  assumes "ls_inv gt V X ls" "ls_conns ls k = Some cc"
  shows "cc_core gt cc" "k \<notin> X \<Longrightarrow> cc_ready gt V cc" "\<And>t. cc_tle cc = Some t \<Longrightarrow> t \<in> tle_ptr ` set (ls_entries ls)"
    "k \<in> set (ls_lists ls (cc_tle cc))" "\<And>l. k \<in> set (ls_lists ls l) \<Longrightarrow> l = cc_tle cc"
proof -
  have conns: "\<forall>k cc. ls_conns ls k = Some cc \<longrightarrow> cc_core gt cc \<and> (k \<notin> X \<longrightarrow> cc_ready gt V cc) \<and>
        (\<forall>t. cc_tle cc = Some t \<longrightarrow> t \<in> tle_ptr ` set (ls_entries ls))"
    and lists: "\<forall>l k. k \<in> set (ls_lists ls l) \<longleftrightarrow> (\<exists>cc. ls_conns ls k = Some cc \<and> cc_tle cc = l)"
    using assms(1) unfolding ls_inv_def ls_links_def by blast+
  show "cc_core gt cc" "k \<notin> X \<Longrightarrow> cc_ready gt V cc" "\<And>t. cc_tle cc = Some t \<Longrightarrow> t \<in> tle_ptr ` set (ls_entries ls)"
    using conns assms(2) by blast+
  show "k \<in> set (ls_lists ls (cc_tle cc))" "\<And>l. k \<in> set (ls_lists ls l) \<Longrightarrow> l = cc_tle cc" using lists assms(2) by auto
qed

lemma ls_inv_mono: "ls_inv gt V X ls \<Longrightarrow> X \<subseteq> Y \<Longrightarrow> ls_inv gt V Y ls"
  unfolding ls_inv_def ls_links_def by blast

text \<open>A connection is changed, but for its descriptor and its list.\<close>

lemma ls_fds_inj:
  "ls_fds ls \<Longrightarrow> ls_conns ls j = Some c \<Longrightarrow> ls_conns ls j' = Some c' \<Longrightarrow> cc_fd c = cc_fd c' \<Longrightarrow> j = j'"
  unfolding ls_fds_def by blast

lemma ls_fds_cong:
  assumes "ls_conns a = ls_conns b" "ls_calls a = ls_calls b" "ls_registered a = ls_registered b" "ls_listen_fd a = ls_listen_fd b"
  shows "ls_fds a \<longleftrightarrow> ls_fds b"
  unfolding ls_fds_def ls_conn_fds_def ls_listen_fds_def assms by (rule refl)

lemma ls_set_fds:
  assumes "ls_fds ls" "ls_conns ls k = Some cc" "cc_fd cc' = cc_fd cc"
  shows "ls_fds (ls_set k cc' ls)"
proof -
  have "ls_conn_fds (ls_set k cc' ls) = ls_conn_fds ls"
  proof (rule set_eqI)
    fix fd
    have "(\<exists>j c. ls_conns (ls_set k cc' ls) j = Some c \<and> cc_fd c = fd) \<longleftrightarrow> (\<exists>j c. ls_conns ls j = Some c \<and> cc_fd c = fd)"
      unfolding ls_set_def using assms(2,3) by (simp; metis option.inject)
    then show "fd \<in> ls_conn_fds (ls_set k cc' ls) \<longleftrightarrow> fd \<in> ls_conn_fds ls" by (simp add: ls_conn_fds_def)
  qed
  moreover have "ls_listen_fds (ls_set k cc' ls) = ls_listen_fds ls" by (simp add: ls_listen_fds_def ls_set_def)
  moreover have "\<forall>j j' c c'. ls_conns (ls_set k cc' ls) j = Some c \<longrightarrow> ls_conns (ls_set k cc' ls) j' = Some c' \<longrightarrow> cc_fd c = cc_fd c' \<longrightarrow> j = j'"
  proof (intro allI impI)
    fix j j' c c' assume c: "ls_conns (ls_set k cc' ls) j = Some c" "ls_conns (ls_set k cc' ls) j' = Some c'" "cc_fd c = cc_fd c'"
    have old: "\<exists>c0. ls_conns ls i = Some c0 \<and> cc_fd c0 = cc_fd d" if "ls_conns (ls_set k cc' ls) i = Some d" for i d
      using that assms(2,3) by (auto simp: ls_set_def split: if_splits)
    obtain c0 c0' where o: "ls_conns ls j = Some c0" "cc_fd c0 = cc_fd c" "ls_conns ls j' = Some c0'" "cc_fd c0' = cc_fd c'"
      using old [OF c(1)] old [OF c(2)] by blast
    show "j = j'" by (rule ls_fds_inj [OF assms(1) o(1,3)]) (simp add: o(2,4) c(3))
  qed
  moreover have "ls_calls (ls_set k cc' ls) = ls_calls ls" by (simp add: ls_set_def)
  moreover have "ls_listen_fds ls \<inter> ls_conn_fds ls = {}" "open_fds (ls_calls ls) = ls_listen_fds ls \<union> ls_conn_fds ls"
    using assms(1) unfolding ls_fds_def by blast+
  ultimately show ?thesis unfolding ls_fds_def by metis
qed

lemma ls_set_inv:
  assumes "ls_inv gt V X ls" "ls_conns ls k = Some cc" "cc_fd cc' = cc_fd cc" "cc_tle cc' = cc_tle cc" "cc_core gt cc'" "k \<notin> Y \<Longrightarrow> cc_ready gt V cc'"
    "X - {k} \<subseteq> Y"
  shows "ls_inv gt V Y (ls_set k cc' ls)"
proof -
  have "ls_links gt V Y (ls_set k cc' ls)"
    unfolding ls_links_def
  proof (intro conjI allI impI)
    fix j c assume j: "ls_conns (ls_set k cc' ls) j = Some c"
    show "cc_core gt c" using j assms(5) ls_invD(1) [OF assms(1), of j c] by (auto simp: ls_set_def split: if_splits)
    show "cc_ready gt V c" if "j \<notin> Y"
      using j that assms(6,7) ls_invD(2) [OF assms(1), of j c] by (auto simp: ls_set_def split: if_splits)
    show "t \<in> tle_ptr ` set (ls_entries (ls_set k cc' ls))" if "cc_tle c = Some t" for t
      using j that assms(2,4) ls_invD(3) [OF assms(1), of j c] ls_invD(3) [OF assms(1,2)] by (auto simp: ls_set_def split: if_splits)
  next
    fix l j
    have "j \<in> set (ls_lists ls l) \<longleftrightarrow> (\<exists>c. ls_conns ls j = Some c \<and> cc_tle c = l)"
      using assms(1) by (simp add: ls_inv_def ls_links_def)
    then show "j \<in> set (ls_lists (ls_set k cc' ls) l) \<longleftrightarrow> (\<exists>c. ls_conns (ls_set k cc' ls) j = Some c \<and> cc_tle c = l)"
      using assms(2,4) by (auto simp: ls_set_def)
  qed (use assms(1) in \<open>simp_all add: ls_inv_def ls_links_def ls_set_def\<close>)
  then show ?thesis using ls_set_fds [OF _ assms(2,3)] assms(1) by (simp add: ls_inv_def)
qed

text \<open>A connection goes.\<close>

definition dropped :: "nat \<Rightarrow> 's client_conn \<Rightarrow> ('s, 'u) tconn_listen_socket \<Rightarrow> ('s, 'u) tconn_listen_socket" where
  "dropped k cc ls = ls\<lparr>ls_lists := (ls_lists ls)(cc_tle cc := remove1 k (ls_lists ls (cc_tle cc))),
     ls_calls := ls_calls ls @ [Sys_close (cc_fd cc)], ls_conns := (ls_conns ls)(k := None)\<rparr>"

lemma dropped_links:
  assumes "ls_links gt V X ls" "ls_conns ls k = Some cc"
  shows "ls_links gt V (X - {k}) (dropped k cc ls)"
proof -
  have L: "\<forall>k cc. ls_conns ls k = Some cc \<longrightarrow> cc_core gt cc \<and> (k \<notin> X \<longrightarrow> cc_ready gt V cc) \<and>
        (\<forall>t. cc_tle cc = Some t \<longrightarrow> t \<in> tle_ptr ` set (ls_entries ls))"
    and lists: "\<And>l k. k \<in> set (ls_lists ls l) \<longleftrightarrow> (\<exists>cc. ls_conns ls k = Some cc \<and> cc_tle cc = l)"
    and dist: "\<And>l. distinct (ls_lists ls l)" and ents: "entries_ok (ls_entries ls)"
    using assms(1) unfolding ls_links_def by blast+
  have "j \<in> set (ls_lists (dropped k cc ls) l) \<longleftrightarrow> (\<exists>c. ls_conns (dropped k cc ls) j = Some c \<and> cc_tle c = l)" for j l
    using lists [of j l] dist [of l] assms(2) by (auto simp: dropped_def)
  moreover have "distinct (ls_lists (dropped k cc ls) l)" for l using dist by (simp add: dropped_def distinct_remove1)
  moreover have "cc_core gt c \<and> (j \<notin> X - {k} \<longrightarrow> cc_ready gt V c) \<and> (\<forall>t. cc_tle c = Some t \<longrightarrow> t \<in> tle_ptr ` set (ls_entries (dropped k cc ls)))"
    if x: "ls_conns (dropped k cc ls) j = Some c" for j c
    using x L by (auto simp: dropped_def split: if_splits)
  ultimately show ?thesis using ents unfolding ls_links_def by (simp add: dropped_def)
qed

lemma dropped_fds:
  assumes "ls_fds ls" "ls_conns ls k = Some cc"
  shows "ls_fds (dropped k cc ls)"
proof -
  have inj: "\<And>j c. ls_conns ls j = Some c \<Longrightarrow> cc_fd c = cc_fd cc \<Longrightarrow> j = k" using assms unfolding ls_fds_def by blast
  have conn: "ls_conn_fds (dropped k cc ls) = ls_conn_fds ls - {cc_fd cc}"
  proof (intro set_eqI iffI)
    fix fd assume "fd \<in> ls_conn_fds (dropped k cc ls)"
    then obtain j c where c: "ls_conns ls j = Some c" "cc_fd c = fd" "j \<noteq> k" by (auto simp: ls_conn_fds_def dropped_def split: if_splits)
    then have "cc_fd c \<noteq> cc_fd cc" using inj by blast
    then show "fd \<in> ls_conn_fds ls - {cc_fd cc}" using c(1,2) unfolding ls_conn_fds_def by blast
  next
    fix fd assume "fd \<in> ls_conn_fds ls - {cc_fd cc}"
    then obtain j c where c: "ls_conns ls j = Some c" "cc_fd c = fd" "fd \<noteq> cc_fd cc" by (auto simp: ls_conn_fds_def)
    moreover from this have "j \<noteq> k" using assms(2) by auto
    ultimately have "ls_conns (dropped k cc ls) j = Some c" by (simp add: dropped_def)
    then show "fd \<in> ls_conn_fds (dropped k cc ls)" using c(2) unfolding ls_conn_fds_def by blast
  qed
  have listen: "ls_listen_fds (dropped k cc ls) = ls_listen_fds ls" by (simp add: ls_listen_fds_def dropped_def)
  have fd: "cc_fd cc \<in> ls_conn_fds ls" using assms(2) by (auto simp: ls_conn_fds_def)
  have "open_fds (ls_calls (dropped k cc ls)) = open_fds (ls_calls ls) - {cc_fd cc}" by (simp add: dropped_def)
  moreover have "\<forall>j j' c c'. ls_conns (dropped k cc ls) j = Some c \<longrightarrow> ls_conns (dropped k cc ls) j' = Some c' \<longrightarrow> cc_fd c = cc_fd c' \<longrightarrow> j = j'"
  proof (intro allI impI)
    fix j j' c c' assume c: "ls_conns (dropped k cc ls) j = Some c" "ls_conns (dropped k cc ls) j' = Some c'" "cc_fd c = cc_fd c'"
    then have "ls_conns ls j = Some c" "ls_conns ls j' = Some c'" by (simp_all add: dropped_def split: if_splits)
    then show "j = j'" using ls_fds_inj [OF assms(1)] c(3) by blast
  qed
  moreover have "ls_listen_fds ls \<inter> ls_conn_fds ls = {}" "open_fds (ls_calls ls) = ls_listen_fds ls \<union> ls_conn_fds ls"
    using assms(1) unfolding ls_fds_def by blast+
  then have "ls_listen_fds ls \<inter> (ls_conn_fds ls - {cc_fd cc}) = {}"
    "open_fds (ls_calls ls) - {cc_fd cc} = ls_listen_fds ls \<union> (ls_conn_fds ls - {cc_fd cc})" using fd by blast+
  ultimately show ?thesis unfolding ls_fds_def conn listen by (intro conjI) simp_all
qed

lemma drop_inv:
  assumes "ls_inv gt V X ls" "ls_conns ls k = Some cc"
  shows "client_conn_drop gt k ls = Inr (dropped k cc ls) \<and> ls_inv gt V (X - {k}) (dropped k cc ls)"
proof -
  note core = ls_invD(1) [OF assms] and l = ls_invD(4) [OF assms]
  obtain tc' where t: "tconn_destroy gt (cc_tconn cc) = Inr tc'" using core destroy_inv [of gt "cc_tconn cc"] by (auto simp: cc_core_def)
  have "client_conn_drop gt k ls = Inr (dropped k cc ls)"
    using assms(2) l core t
    by (auto simp: client_conn_drop_def ls_list_del_def cc_core_def timer_unregister_def dropped_def ls_sys_def Let_def)
  then show ?thesis using dropped_links [OF _ assms(2)] dropped_fds [OF _ assms(2)] assms(1) by (simp add: ls_inv_def)
qed

text \<open>A connection gets its entry.\<close>

definition accepted_cc :: "cc_checks \<Rightarrow> 's client_conn \<Rightarrow> 's client_conn" where
  "accepted_cc ms cc = (if ms = [] then cc else cc\<lparr>cc_state := CC_KEY_ID_VERIFIED, cc_tle := Some (fst (last ms)), cc_id := snd (last ms)\<rparr>)"

lemma tl_accept_inv:
  assumes "ls_inv gt V X ls" "ls_conns ls k = Some cc" "k \<in> X" "cc_state cc \<noteq> CC_CONNECTED" "fst m \<in> tle_ptr ` set (ls_entries ls)" "length (snd m) = NODE_ID_LEN"
  shows "\<exists>ls'. tl_accept k m ls = Inr ls' \<and> ls_inv gt V X ls' \<and> ls_conns ls' = (ls_conns ls)(k \<mapsto> accepted_cc [m] cc) \<and>
    ls_entries ls' = ls_entries ls \<and> ls_user ls' = ls_user ls"
proof -
  let ?t = "Some (fst m)" and ?l = "cc_tle cc" and ?cc = "accepted_cc [m] cc"
  define L where "L = (ls_lists ls)(?l := remove1 k (ls_lists ls ?l))"
  define ls1 where "ls1 = ls\<lparr>ls_lists := L(?t := L ?t @ [k]), ls_conns := (ls_conns ls)(k \<mapsto> ?cc)\<rparr>"
  have L: "\<And>k cc. ls_conns ls k = Some cc \<Longrightarrow> cc_core gt cc \<and> (k \<notin> X \<longrightarrow> cc_ready gt V cc) \<and>
        (\<forall>t. cc_tle cc = Some t \<longrightarrow> t \<in> tle_ptr ` set (ls_entries ls))"
    and lists: "\<And>l k. k \<in> set (ls_lists ls l) \<longleftrightarrow> (\<exists>cc. ls_conns ls k = Some cc \<and> cc_tle cc = l)"
    and dist: "\<And>l. distinct (ls_lists ls l)" and ents: "entries_ok (ls_entries ls)" and fds: "ls_fds ls"
    using assms(1) unfolding ls_inv_def ls_links_def by blast+
  have in_L: "j \<in> set (L l) \<longleftrightarrow> j \<noteq> k \<and> (\<exists>cc. ls_conns ls j = Some cc \<and> cc_tle cc = l)" for j l
    using lists [of j l] dist [of l] assms(2) by (auto simp: L_def)
  have dist_L: "distinct (L l)" for l using dist by (simp add: L_def distinct_remove1)
  have core: "cc_core gt ?cc" using L [OF assms(2)] assms(4,6) by (auto simp: cc_core_def accepted_cc_def)
  have "tl_accept k m ls = Inr ls1"
    using assms(2) ls_invD(4) [OF assms(1,2)] by (simp add: tl_accept_def ls_list_del_def ls1_def L_def ls_set_def accepted_cc_def Let_def)
  moreover have "ls_links gt V X ls1"
    unfolding ls_links_def
  proof (intro conjI allI impI)
    fix j c assume j: "ls_conns ls1 j = Some c"
    show "cc_core gt c" using j core L by (auto simp: ls1_def split: if_splits)
    show "cc_ready gt V c" if x: "j \<notin> X" using j x L assms(3) by (auto simp: ls1_def split: if_splits)
    show "t \<in> tle_ptr ` set (ls_entries ls1)" if x: "cc_tle c = Some t" for t
      using j x L assms(5) by (auto simp: ls1_def accepted_cc_def split: if_splits)
  next
    fix l j
    show "j \<in> set (ls_lists ls1 l) \<longleftrightarrow> (\<exists>c. ls_conns ls1 j = Some c \<and> cc_tle c = l)"
      using in_L by (auto simp: ls1_def accepted_cc_def)
    have "k \<notin> set (L ?t)" using in_L [of k ?t] by simp
    then show "distinct (ls_lists ls1 l)" using dist_L [of l] dist_L [of ?t] by (simp add: ls1_def)
    show "entries_ok (ls_entries ls1)" using ents by (simp add: ls1_def)
  qed
  moreover have "ls_fds ls1"
  proof -
    have "ls_fds (ls_set k ?cc ls)" by (rule ls_set_fds [OF fds assms(2)]) (simp add: accepted_cc_def)
    then show ?thesis by (rule ls_fds_cong [THEN iffD1, rotated -1]) (simp_all add: ls_set_def ls1_def)
  qed
  moreover have "ls_conns ls1 = (ls_conns ls)(k \<mapsto> ?cc)" "ls_entries ls1 = ls_entries ls" "ls_user ls1 = ls_user ls" by (simp_all add: ls1_def)
  ultimately show ?thesis unfolding ls_inv_def by blast
qed

lemma accept_all_inv:
  "ls_inv gt V X ls \<Longrightarrow> ls_conns ls k = Some cc \<Longrightarrow> k \<in> X \<Longrightarrow> ms = [] \<or> cc_state cc \<noteq> CC_CONNECTED \<Longrightarrow> checks_of (ls_entries ls) ms \<Longrightarrow>
   \<exists>ls'. tl_accept_all k ms ls = Inr ls' \<and> ls_inv gt V X ls' \<and> ls_conns ls' = (ls_conns ls)(k \<mapsto> accepted_cc ms cc) \<and>
     ls_entries ls' = ls_entries ls \<and> ls_user ls' = ls_user ls"
proof (induction ms arbitrary: ls cc)
  case Nil
  then have "(ls_conns ls)(k \<mapsto> cc) = ls_conns ls" by auto
  then show ?case using Nil.prems by (simp add: accepted_cc_def)
next
  case (Cons m ms)
  have m: "fst m \<in> tle_ptr ` set (ls_entries ls)" "checks_of (ls_entries ls) ms" "length (snd m) = NODE_ID_LEN" using Cons.prems(5) by (simp_all add: checks_of_def)
  obtain ls1 where a: "tl_accept k m ls = Inr ls1" "ls_inv gt V X ls1" "ls_conns ls1 = (ls_conns ls)(k \<mapsto> accepted_cc [m] cc)"
      "ls_entries ls1 = ls_entries ls" "ls_user ls1 = ls_user ls"
    using tl_accept_inv [OF Cons.prems(1-3) _ m(1,3)] Cons.prems(4) by auto
  have c: "ls_conns ls1 k = Some (accepted_cc [m] cc)" "cc_state (accepted_cc [m] cc) \<noteq> CC_CONNECTED" using a(3) by (simp_all add: accepted_cc_def)
  from Cons.IH [OF a(2) c(1) Cons.prems(3) disjI2 [OF c(2)]] m(2) a(4)
  obtain ls2 where b: "tl_accept_all k ms ls1 = Inr ls2" "ls_inv gt V X ls2" "ls_conns ls2 = (ls_conns ls1)(k \<mapsto> accepted_cc ms (accepted_cc [m] cc))"
      "ls_entries ls2 = ls_entries ls1" "ls_user ls2 = ls_user ls1"
    unfolding a(4) by blast
  have "accepted_cc ms (accepted_cc [m] cc) = accepted_cc (m # ms) cc" by (simp add: accepted_cc_def)
  moreover have "ls_conns ls2 = (ls_conns ls)(k \<mapsto> accepted_cc (m # ms) cc)" using b(3) a(3) calculation by simp
  ultimately show ?case using a(1,4,5) b(1,2,4,5) by (intro exI [of _ ls2]) simp
qed

lemma set_user_tasks:
  "verify_state_pollin (tc\<lparr>tn_user := u\<rparr>) = verify_state_pollin tc"
  "verify_state_pollout (tc\<lparr>tn_user := u\<rparr>) = verify_state_pollout tc"
  "verify_state_rx_task gt (tc\<lparr>tn_user := u\<rparr>) = verify_state_rx_task gt tc"
  "verify_state_tx_task gt (tc\<lparr>tn_user := u\<rparr>) = verify_state_tx_task gt tc"
  "io_ok (tc\<lparr>tn_user := u\<rparr>) = io_ok tc"
  by (simp_all add: verify_state_pollin_def verify_state_pollout_def verify_state_rx_task_def verify_state_tx_task_def io_ok_def)

lemma set_user_inv: "tls_inv gt (tc\<lparr>tn_user := u\<rparr>) = tls_inv gt tc"
  by (simp add: tls_inv_def verify_state_def tls_sound_def set_user_tasks)

section \<open>The contract of the user\<close>

text \<open>The connections that are connected, with their entry and what the user has returned for them.\<close>

definition connected_as :: "'s client_conn \<Rightarrow> (nat \<times> nat) option" where
  "connected_as cc = (if cc_state cc \<noteq> CC_CONNECTED then None
     else case cc_tle cc of None \<Rightarrow> None | Some t \<Rightarrow> map_option (Pair t) (cc_cookie cc))"

definition connected :: "('s, 'u) tconn_listen_socket \<Rightarrow> nat \<Rightarrow> (nat \<times> nat) option" where
  "connected ls k = (case ls_conns ls k of None \<Rightarrow> None | Some cc \<Rightarrow> connected_as cc)"

text \<open>
  \<open>uinv E C u\<close>: the state \<open>u\<close> of the user goes with the entries \<open>E\<close> and the connections \<open>C\<close>.  A callback keeps the invariant, leaves the
  connection it is about alone, and the user knows the new connection after \<^verbatim>\<open>new_conn\<close>, and does
  not know it any more after \<^verbatim>\<open>disconnect\<close>.
\<close>

locale listen_user =
  fixes gt :: "'s gnutls" and V :: "'s \<Rightarrow> bool" and ops :: "('s, 'u) listen_user_ops" and uinv :: "tconn_listen_entry list \<Rightarrow> (nat \<Rightarrow> (nat \<times> nat) option) \<Rightarrow> 'u \<Rightarrow> bool"
  assumes new_conn:
      "ls_inv gt V {k} ls \<Longrightarrow> uinv (ls_entries ls) (connected ls) (ls_user ls) \<Longrightarrow> ls_conns ls k = Some cc \<Longrightarrow> cc_state cc = CC_KEY_ID_VERIFIED \<Longrightarrow>
       cc_tle cc = Some t \<Longrightarrow>
       safe (\<lambda>(c, ls'). ls_inv gt V {k} ls' \<and> ls_conns ls' k = Some cc \<and> uinv (ls_entries ls') ((connected ls')(k := map_option (Pair t) c)) (ls_user ls'))
         (lu_new_conn ops t k (cc_id cc) ls)"
    and record_received:
      "ls_inv gt V {} ls \<Longrightarrow> uinv (ls_entries ls) (connected ls) (ls_user ls) \<Longrightarrow> connected ls k = Some (t, x) \<Longrightarrow>
       safe (\<lambda>ls'. ls_inv gt V {} ls' \<and> uinv (ls_entries ls') (connected ls') (ls_user ls')) (lu_record_received ops (Some x) r ls)"
    and disconnect:
      "ls_inv gt V {k} ls \<Longrightarrow> uinv (ls_entries ls) (connected ls) (ls_user ls) \<Longrightarrow> ls_conns ls k = Some cc \<Longrightarrow> connected ls k = Some (t, x) \<Longrightarrow>
       safe (\<lambda>ls'. ls_inv gt V {k} ls' \<and> ls_conns ls' k = Some cc \<and> uinv (ls_entries ls') ((connected ls')(k := None)) (ls_user ls'))
         (lu_disconnect ops (Some x) ls)"

lemma connected_dropped: "connected (dropped k cc ls) = (connected ls)(k := None)"
  by (auto simp: connected_def dropped_def)

lemma connected_set: "connected (ls_set k cc ls) = (connected ls)(k := connected_as cc)"
  by (auto simp: connected_def ls_set_def)

lemma connected_same:
  assumes "ls_conns ls k = Some cc" "cc_state cc' = cc_state cc" "cc_tle cc' = cc_tle cc" "cc_cookie cc' = cc_cookie cc"
  shows "connected (ls_set k cc' ls) = connected ls"
proof -
  have "connected_as cc' = connected ls k" using assms by (simp add: connected_def connected_as_def split: option.split)
  then show ?thesis by (simp add: connected_set)
qed

lemma connected_cong: "ls_conns a = ls_conns b \<Longrightarrow> connected a = connected b"
  by (simp add: connected_def fun_eq_iff)

lemma dropped_simps [simp]: "ls_user (dropped k cc ls) = ls_user ls" "ls_entries (dropped k cc ls) = ls_entries ls"
  "ls_registered (dropped k cc ls) = ls_registered ls"
  by (simp_all add: dropped_def)

lemma ls_set_simps [simp]: "ls_user (ls_set k cc ls) = ls_user ls" "ls_entries (ls_set k cc ls) = ls_entries ls"
  by (simp_all add: ls_set_def)

context listen_user
begin

text \<open>Everything is in order.\<close>

definition quiet :: "('s, 'u) tconn_listen_socket \<Rightarrow> bool" where
  "quiet ls \<longleftrightarrow> ls_inv gt V {} ls \<and> uinv (ls_entries ls) (connected ls) (ls_user ls)"

lemma kill_quiet:
  assumes "ls_inv gt V X ls" "X \<subseteq> {k}" "ls_conns ls k = Some cc" "uinv (ls_entries ls) ((connected ls)(k := None)) (ls_user ls)"
  shows "client_conn_drop gt k ls = Inr (dropped k cc ls) \<and> quiet (dropped k cc ls)"
proof -
  have e: "X - {k} = {}" using assms(2) by blast
  note d = drop_inv [OF assms(1,3), unfolded e]
  then show ?thesis using assms(4) by (simp add: quiet_def connected_dropped)
qed

lemma kill_inv:
  assumes "ls_inv gt V {k} ls" "ls_conns ls k = Some cc" "uinv (ls_entries ls) (connected ls) (ls_user ls)"
  shows "safe quiet (client_conn_kill gt ops k True ls)"
proof (cases "cc_state cc = CC_CONNECTED")
  case True
  note core = ls_invD(1) [OF assms(1,2)]
  obtain t where tle: "cc_tle cc = Some t" using core True by (auto simp: cc_core_def)
  obtain x where x: "cc_cookie cc = Some x" "connected ls k = Some (t, x)" using core True assms(2) tle by (auto simp: cc_core_def connected_def connected_as_def)
  have "safe quiet (hbind (lu_disconnect ops (Some x) ls) (client_conn_drop gt k))"
  proof (rule safe_bind [OF disconnect [OF assms(1,3,2) x(2)]])
    fix ls' assume "ls_inv gt V {k} ls' \<and> ls_conns ls' k = Some cc \<and> uinv (ls_entries ls') ((connected ls')(k := None)) (ls_user ls')"
    then show "safe quiet (client_conn_drop gt k ls')" using kill_quiet [of "{k}" ls' k cc] by simp
  qed
  then show ?thesis using assms(2) True tle x(1) by (simp add: client_conn_kill_def)
next
  case False
  then have "(connected ls)(k := None) = connected ls" using assms(2) by (auto simp: connected_def connected_as_def)
  then show ?thesis using kill_quiet [OF assms(1) _ assms(2)] assms(2,3) False by (simp add: client_conn_kill_def)
qed

text \<open>A connection in the middle of a callback is ready again.\<close>

lemma ready_quiet:
  assumes "ls_inv gt V {k} ls" "ls_conns ls k = Some cc" "cc_ready gt V cc" "uinv (ls_entries ls) (connected ls) (ls_user ls)"
  shows "quiet ls"
proof -
  have "ls_inv gt V {} (ls_set k cc ls)"
    by (rule ls_set_inv [OF assms(1,2)]) (use assms(3) ls_invD(1) [OF assms(1,2)] in simp_all)
  moreover have "ls_set k cc ls = ls" using assms(2) by (cases ls) (auto simp: ls_set_def)
  ultimately show ?thesis using assms(4) by (simp add: quiet_def)
qed

lemma set_quiet:
  assumes "ls_inv gt V X ls" "X \<subseteq> {k}" "ls_conns ls k = Some cc" "cc_fd cc' = cc_fd cc" "cc_tle cc' = cc_tle cc" "cc_core gt cc'" "cc_ready gt V cc'"
    "uinv (ls_entries (ls_set k cc' ls)) (connected (ls_set k cc' ls)) (ls_user ls)"
  shows "quiet (ls_set k cc' ls)"
proof -
  have "ls_inv gt V {} (ls_set k cc' ls)" by (rule ls_set_inv [OF assms(1,3-6)]) (use assms(2,7) in auto)
  then show ?thesis using assms(8) by (simp add: quiet_def)
qed

lemma handshake_done_inv:
  assumes "ls_inv gt V {k} ls" "uinv (ls_entries ls) (connected ls) (ls_user ls)" "ls_conns ls k = Some cc" "cc_state cc = CC_KEY_ID_VERIFIED"
    "tn_state (cc_tconn cc) = TLS_RUNNING" "cc_rx_timeout cc \<noteq> None"
  shows "safe quiet (tl_handshake_done gt ops env k ls)"
proof -
  note core = ls_invD(1) [OF assms(1,3)]
  obtain t where t: "cc_tle cc = Some t" using core assms(4) by (auto simp: cc_core_def)
  have "safe quiet (hbind (lu_new_conn ops t k (cc_id cc) ls) (\<lambda>(cookie, ls).
         if cookie = None then client_conn_kill gt ops k False ls
         else hbind (deref (ls_conns ls k)) (\<lambda>cc.
              hbind (cc_restart_rx env cc) (\<lambda>cc.
              let cc = cc\<lparr>cc_state := CC_CONNECTED, cc_cookie := cookie\<rparr>
              in hbind (timer_init (cc_keepalive_timer cc)) (\<lambda>t.
                 hbind (cc_start_keepalive (tx_rnd env) (tx_now env) (cc\<lparr>cc_keepalive_timer := t\<rparr>)) (\<lambda>cc.
                 Inr (ls_set k cc ls)))))))" (is "safe quiet (hbind _ ?rest)")
  proof (rule safe_bind [OF new_conn [OF assms(1,2,3,4) t]])
    fix p assume "case p of (c, ls') \<Rightarrow> ls_inv gt V {k} ls' \<and> ls_conns ls' k = Some cc \<and> uinv (ls_entries ls') ((connected ls')(k := map_option (Pair t) c)) (ls_user ls')"
    then obtain c ls' where p: "p = (c, ls')" "ls_inv gt V {k} ls'" "ls_conns ls' k = Some cc" "uinv (ls_entries ls') ((connected ls')(k := map_option (Pair t) c)) (ls_user ls')"
      by (cases p) auto
    show "safe quiet (?rest p)"
    proof (cases c)
      case None
      then show ?thesis using p kill_quiet [OF p(2) subset_refl p(3)] by (simp add: client_conn_kill_def)
    next
      case (Some x)
      obtain r where rx: "cc_rx_timeout cc = Some r" using assms(6) by blast
      have ka: "cc_keepalive_timer cc = None" using core assms(4) by (auto simp: cc_core_def)
      define cc' where "cc' = cc\<lparr>cc_rx_timeout := Some (timespec_add_ms (tx_rnd env) (tx_now env) (1000 * KEEPALIVE_TIMEOUT) (1000 * KEEPALIVE_TIMEOUT)),
          cc_state := CC_CONNECTED, cc_cookie := Some x,
          cc_keepalive_timer := Some (timespec_add_ms (tx_rnd env) (tx_now env) (900 * KEEPALIVE_INTERVAL) (1100 * KEEPALIVE_INTERVAL))\<rparr>"
      have "?rest p = Inr (ls_set k cc' ls')"
        using p(1,3) Some rx ka
        by (simp add: cc_restart_rx_def cc_start_rx_def timer_unregister_def timer_register_def timer_init_def cc_start_keepalive_def cc'_def)
      moreover have "cc_core gt cc'" using core t by (simp add: cc_core_def cc'_def)
      moreover have "cc_ready gt V cc'" using core t assms(5) by (simp add: cc_ready_def cc_core_def session_ready_def cc'_def)
      ultimately show ?thesis
        using set_quiet [OF p(2) subset_refl p(3), of cc'] p(4) Some t by (simp add: connected_set connected_as_def cc'_def)
    qed
  qed
  then show ?thesis using assms(3) t by (simp add: tl_handshake_done_def)
qed

lemma record_received_inv:
  assumes "quiet ls" "ls_conns ls k = Some cc" "cc_state cc = CC_CONNECTED"
  shows "safe quiet (tl_record_received ops env k r ls)"
proof -
  have inv: "ls_inv gt V {} ls" "uinv (ls_entries ls) (connected ls) (ls_user ls)" using assms(1) by (simp_all add: quiet_def)
  note core = ls_invD(1) [OF inv(1) assms(2)] and ready = ls_invD(2) [OF inv(1) assms(2)]
  obtain x where x: "cc_cookie cc = Some x" using core assms(3) by (auto simp: cc_core_def)
  obtain ot where ot: "cc_rx_timeout cc = Some ot" using ready by (auto simp: cc_ready_def)
  define cc' where "cc' = cc\<lparr>cc_rx_timeout := Some (timespec_add_ms (tx_rnd env) (tx_now env) (1000 * KEEPALIVE_TIMEOUT) (1000 * KEEPALIVE_TIMEOUT))\<rparr>"
  have "connected (ls_set k cc' ls) = connected ls" by (rule connected_same [OF assms(2)]) (simp_all add: cc'_def)
  moreover have "cc_core gt cc'" "cc_ready gt V cc'" using core ready by (simp_all add: cc_core_def cc_ready_def cc'_def)
  ultimately have q: "quiet (ls_set k cc' ls)" using set_quiet [OF inv(1) empty_subsetI assms(2), of cc'] inv(2) by (simp add: cc'_def)
  obtain t where t: "cc_tle cc = Some t" using core assms(3) by (auto simp: cc_core_def)
  have "connected (ls_set k cc' ls) k = Some (t, x)" using assms(3) x t by (simp add: connected_set connected_as_def cc'_def)
  then have "safe quiet (lu_record_received ops (Some x) r (ls_set k cc' ls))"
    using record_received [of "ls_set k cc' ls" k t x r] q by (simp add: quiet_def [abs_def])
  moreover have "cc_tle cc \<noteq> None" using core assms(3) by (auto simp: cc_core_def)
  ultimately show ?thesis
    using assms(2) ot x by (simp add: tl_record_received_def cc_restart_rx_def cc_start_rx_def timer_unregister_def timer_register_def cc'_def)
qed

text \<open>A handler or task of a session.\<close>

lemma tl_tconn_inv:
  assumes "quiet ls" "ls_conns ls k = Some cc" "f (cc_tconn cc) = Inr (tc', nt)"
    "session_left gt V (ls_entries ls) (cc_tle cc \<noteq> None) (cc_state cc = CC_CONNECTED) tc' nt"
  shows "safe quiet (tl_tconn gt ops env k f ls)"
proof -
  have inv: "ls_inv gt V {} ls" "uinv (ls_entries ls) (connected ls) (ls_user ls)" using assms(1) by (simp_all add: quiet_def)
  note core = ls_invD(1) [OF inv(1) assms(2)] and ready = ls_invD(2) [OF inv(1) assms(2)]
  note left = assms(4) [unfolded session_left_def]
  let ?cc = "cc\<lparr>cc_tconn := tc'\<lparr>tn_user := []\<rparr>\<rparr>"
  have set_user: "tls_inv gt (tc'\<lparr>tn_user := []\<rparr>)" using left by (simp add: set_user_inv)
  have core': "cc_core gt ?cc" using core left set_user by (simp add: cc_core_def)
  have inv1: "ls_inv gt V {k} (ls_set k ?cc ls)" by (rule ls_set_inv [OF inv(1) assms(2)]) (use core' in simp_all)
  have conns: "ls_conns (ls_set k ?cc ls) k = Some ?cc" "ls_entries (ls_set k ?cc ls) = ls_entries ls" "ls_user (ls_set k ?cc ls) = ls_user ls"
    by (simp_all add: ls_set_def)
  have con: "connected (ls_set k ?cc ls) = connected ls" by (rule connected_same [OF assms(2)]) simp_all
  have ms: "tn_user tc' = [] \<or> cc_state ?cc \<noteq> CC_CONNECTED" "checks_of (ls_entries (ls_set k ?cc ls)) (tn_user tc')" using left conns(2) by auto
  define cc2 where "cc2 = accepted_cc (tn_user tc') ?cc"
  obtain ls2 where a: "tl_accept_all k (tn_user tc') (ls_set k ?cc ls) = Inr ls2" "ls_inv gt V {k} ls2"
      "ls_conns ls2 = (ls_conns (ls_set k ?cc ls))(k \<mapsto> cc2)" "ls_user ls2 = ls_user ls" "ls_entries ls2 = ls_entries ls"
    using accept_all_inv [OF inv1 conns(1) _ ms] unfolding cc2_def conns(2,3) by blast
  have k2: "ls_conns ls2 k = Some cc2" using a(3) by simp
  have con2: "connected ls2 = connected ls"
  proof
    fix j
    show "connected ls2 j = connected ls j"
      using a(3) con ms(1) assms(2) by (auto simp: connected_def connected_as_def cc2_def accepted_cc_def ls_set_def split: option.split)
  qed
  have u2: "uinv (ls_entries ls2) (connected ls2) (ls_user ls2)" using con2 a(4,5) inv(2) by simp
  have cc2: "cc_tconn cc2 = tc'\<lparr>tn_user := []\<rparr>" "cc_rx_timeout cc2 = cc_rx_timeout cc" "cc_state cc2 = CC_CONNECTED \<longleftrightarrow> cc_state cc = CC_CONNECTED"
      "cc_tle cc2 \<noteq> None \<longleftrightarrow> cc_tle cc \<noteq> None \<or> tn_user tc' \<noteq> []" "cc_keepalive_timer cc2 = cc_keepalive_timer cc"
    using ms(1) by (auto simp: cc2_def accepted_cc_def)
  have core2: "cc_core gt cc2" by (rule ls_invD(1) [OF a(2) k2])
  have rx: "cc_rx_timeout cc2 \<noteq> None" using ready cc2(2) by (simp add: cc_ready_def)
  have note_safe: "safe quiet (tl_note gt ops env k nt ls2)"
  proof (cases nt)
    case None
    have "cc_ready gt V cc2" using left None cc2 rx set_user by (auto simp: cc_ready_def session_ready_def)
    then show ?thesis using ready_quiet [OF a(2) k2 _ u2] None by simp
  next
    case (Some n)
    show ?thesis
    proof (cases n)
      case Tn_handshake_done
      then have "cc_state cc2 = CC_KEY_ID_VERIFIED" "tn_state (cc_tconn cc2) = TLS_RUNNING"
        using left Some cc2 core2 by (auto simp: cc_core_def) (metis cc_state.exhaust)+
      then show ?thesis using handshake_done_inv [OF a(2) u2 k2 _ _ rx] Some Tn_handshake_done by simp
    next
      case (Tn_record r)
      then have "cc_state cc2 = CC_CONNECTED" "cc_ready gt V cc2" using left Some cc2 rx set_user by (auto simp: cc_ready_def session_ready_def)
      then show ?thesis using record_received_inv [OF ready_quiet [OF a(2) k2 _ u2] k2] Some Tn_record by simp
    next
      case Tn_lost
      then show ?thesis using kill_inv [OF a(2) k2 u2] Some by (simp add: tl_connection_lost_def)
    qed
  qed
  then show ?thesis using assms(2,3) a(1) by (simp add: tl_tconn_def)
qed

lemma quietD:
  assumes "quiet ls" "ls_conns ls k = Some cc"
  shows "ls_inv gt V {} ls" "uinv (ls_entries ls) (connected ls) (ls_user ls)" "cc_core gt cc" "cc_ready gt V cc"
  using assms ls_invD(1,2) [of gt V "{}" ls k cc] by (simp_all add: quiet_def)

lemma session_handler_inv:
  assumes "quiet ls" "ls_conns ls k = Some cc"
    "\<exists>tc' nt. f (cc_tconn cc) = Inr (tc', nt) \<and> session_left gt V (ls_entries ls) (cc_tle cc \<noteq> None) (cc_state cc = CC_CONNECTED) tc' nt"
  shows "safe quiet (tl_tconn gt ops env k f ls)"
  using tl_tconn_inv [OF assms(1,2)] assms(3) by blast

lemma rx_timeout_inv:
  assumes "quiet ls" "ls_conns ls k = Some cc"
  shows "safe quiet (tl_rx_timeout gt ops k ls)"
proof -
  note q = quietD [OF assms]
  let ?cc = "cc\<lparr>cc_rx_timeout := None\<rparr>"
  have "cc_core gt ?cc" using q(3) by (simp add: cc_core_def)
  then have "ls_inv gt V {k} (ls_set k ?cc ls)" by (intro ls_set_inv [OF q(1) assms(2)]) simp_all
  moreover have "ls_conns (ls_set k ?cc ls) k = Some ?cc" "ls_user (ls_set k ?cc ls) = ls_user ls" by (simp_all add: ls_set_def)
  moreover have "connected (ls_set k ?cc ls) = connected ls" by (rule connected_same [OF assms(2)]) simp_all
  ultimately have "safe quiet (client_conn_kill gt ops k True (ls_set k ?cc ls))" using kill_inv [of k "ls_set k ?cc ls" ?cc] q(2) by simp
  then show ?thesis using assms(2) by (simp add: tl_rx_timeout_def)
qed

text \<open>A record is sent, with the timer set again.\<close>

lemma send_inv:
  assumes "quiet ls" "ls_conns ls k = Some cc" "cc_state cc = CC_CONNECTED" "gnutls_checks gt V" "tl_env_ok env"
    "cc1 = cc\<lparr>cc_keepalive_timer := Some t\<rparr>"
  shows "safe quiet (hbind (tconn_record_send gt (tl_tls_env env (ls_entries ls)) r (cc_tconn cc1)) (\<lambda>(ret, tc).
     let ls = ls_set k (cc1\<lparr>cc_tconn := tc\<rparr>) ls
     in if ret \<noteq> 0 then client_conn_kill gt ops k True ls else Inr ls))"
proof -
  note q = quietD [OF assms(1,2)]
  have ready: "session_ready gt V (cc_tle cc \<noteq> None) True (cc_tconn cc)" "cc_rx_timeout cc \<noteq> None"
    using q(4) assms(3) by (simp_all add: cc_ready_def)
  obtain ret tc' where s: "tconn_record_send gt (tl_tls_env env (ls_entries ls)) r (cc_tconn cc) = Inr (ret, tc')" "tls_inv gt tc'" "tn_open tc'"
      "tn_user tc' = []" "ret = 0 \<longrightarrow> session_ready gt V (cc_tle cc \<noteq> None) True tc'"
    using record_send_left [OF assms(4) _ ready(1), of "tl_tls_env env (ls_entries ls)" r] tl_env_okD [OF assms(5)] by blast
  let ?cc = "cc1\<lparr>cc_tconn := tc'\<rparr>"
  have core: "cc_core gt ?cc" using q(3) s(2-4) assms(3,6) by (simp add: cc_core_def)
  have con: "connected (ls_set k ?cc ls) = connected ls" by (rule connected_same [OF assms(2)]) (simp_all add: assms(6))
  show ?thesis
  proof (cases "ret = 0")
    case True
    have "cc_ready gt V ?cc" using s(5) True ready(2) assms(3,6) by (simp add: cc_ready_def)
    then have "quiet (ls_set k ?cc ls)" using set_quiet [OF q(1) empty_subsetI assms(2) _ _ core] con q(2) assms(6) by simp
    then show ?thesis using s(1) True assms(6) by simp
  next
    case False
    have "ls_inv gt V {k} (ls_set k ?cc ls)" by (rule ls_set_inv [OF q(1) assms(2)]) (use core assms(6) in simp_all)
    moreover have "ls_conns (ls_set k ?cc ls) k = Some ?cc" "ls_user (ls_set k ?cc ls) = ls_user ls" by (simp_all add: ls_set_def)
    ultimately have "safe quiet (client_conn_kill gt ops k True (ls_set k ?cc ls))" using kill_inv [of k "ls_set k ?cc ls" ?cc] con q(2) by simp
    then show ?thesis using s(1) False assms(6) by simp
  qed
qed

lemma send_keepalive_inv:
  assumes "quiet ls" "ls_conns ls k = Some cc" "cc_keepalive_timer cc = Some expires" "gnutls_checks gt V" "tl_env_ok env"
  shows "safe quiet (tl_send_keepalive gt ops env k expires ls)"
proof -
  have "cc_state cc = CC_CONNECTED" using quietD(3) [OF assms(1,2)] assms(3) by (auto simp: cc_core_def)
  from send_inv [OF assms(1,2) this assms(4,5) refl, where r = "[0, 0, 0]"] show ?thesis
    using assms(2) by (simp add: tl_send_keepalive_def cc_start_keepalive_def timer_register_def)
qed

lemma entry_record_send_inv:
  assumes "quiet ls" "ls_conns ls k = Some cc" "cc_state cc = CC_CONNECTED" "gnutls_checks gt V" "tl_env_ok env"
  shows "safe quiet (tconn_listen_entry_record_send gt ops env k r ls)"
proof -
  have "cc_keepalive_timer cc \<noteq> None" using quietD(3) [OF assms(1,2)] assms(3) by (auto simp: cc_core_def)
  with send_inv [OF assms refl, where r = r] show ?thesis
    using assms(2) by (simp add: tconn_listen_entry_record_send_def cc_start_keepalive_def timer_register_def timer_unregister_def)
qed

end

text \<open>A new connection.\<close>

lemma added_inv:
  assumes "ls_inv gt V {} ls" "ls_conns ls k = None" "fd \<notin> open_fds (ls_calls ls)" "cc_core gt cc" "cc_ready gt V cc" "cc_tle cc = None" "cc_fd cc = fd"
    "ls' = ls\<lparr>ls_calls := ls_calls ls @ [Sys_socket fd], ls_lists := (ls_lists ls)(None := ls_lists ls None @ [k]), ls_conns := (ls_conns ls)(k \<mapsto> cc)\<rparr>"
  shows "ls_inv gt V {} ls'"
proof -
  have L: "\<And>k cc. ls_conns ls k = Some cc \<Longrightarrow> cc_core gt cc \<and> cc_ready gt V cc \<and> (\<forall>t. cc_tle cc = Some t \<longrightarrow> t \<in> tle_ptr ` set (ls_entries ls))"
    and lists: "\<And>l k. k \<in> set (ls_lists ls l) \<longleftrightarrow> (\<exists>cc. ls_conns ls k = Some cc \<and> cc_tle cc = l)"
    and dist: "\<And>l. distinct (ls_lists ls l)" and ents: "entries_ok (ls_entries ls)" and fds: "ls_fds ls"
    using assms(1) unfolding ls_inv_def ls_links_def by blast+
  have "ls_links gt V {} ls'"
    unfolding ls_links_def
  proof (intro conjI allI impI)
    fix j c assume j: "ls_conns ls' j = Some c"
    show "cc_core gt c" "cc_ready gt V c" using j assms(4,5) L by (auto simp: assms(8) split: if_splits)
    show "t \<in> tle_ptr ` set (ls_entries ls')" if x: "cc_tle c = Some t" for t using j x assms(6) L by (auto simp: assms(8) split: if_splits)
  next
    fix l j
    show "j \<in> set (ls_lists ls' l) \<longleftrightarrow> (\<exists>c. ls_conns ls' j = Some c \<and> cc_tle c = l)"
      using lists assms(2,6) by (auto simp: assms(8))
    have "k \<notin> set (ls_lists ls None)" using lists [of k None] assms(2) by simp
    then show "distinct (ls_lists ls' l)" using dist [of l] dist [of None] by (simp add: assms(8))
    show "entries_ok (ls_entries ls')" using ents by (simp add: assms(8))
  qed
  moreover have "ls_fds ls'"
  proof -
    have conn: "ls_conn_fds ls' = insert fd (ls_conn_fds ls)"
    proof (intro set_eqI iffI)
      fix x assume "x \<in> ls_conn_fds ls'"
      then show "x \<in> insert fd (ls_conn_fds ls)" using assms(7) by (auto simp: ls_conn_fds_def assms(8) split: if_splits)
    next
      fix x assume "x \<in> insert fd (ls_conn_fds ls)"
      then have "\<exists>j c. ls_conns ls' j = Some c \<and> cc_fd c = x"
      proof
        assume "x = fd"
        then show ?thesis using assms(7) by (intro exI [of _ k] exI [of _ cc]) (simp add: assms(8))
      next
        assume "x \<in> ls_conn_fds ls"
        then obtain j c where c: "ls_conns ls j = Some c" "cc_fd c = x" by (auto simp: ls_conn_fds_def)
        moreover from this have "j \<noteq> k" using assms(2) by auto
        ultimately show ?thesis by (intro exI [of _ j] exI [of _ c]) (simp add: assms(8))
      qed
      then show "x \<in> ls_conn_fds ls'" by (simp add: ls_conn_fds_def)
    qed
    have listen: "ls_listen_fds ls' = ls_listen_fds ls" by (simp add: ls_listen_fds_def assms(8))
    have old: "ls_listen_fds ls \<inter> ls_conn_fds ls = {}" "open_fds (ls_calls ls) = ls_listen_fds ls \<union> ls_conn_fds ls"
      using fds unfolding ls_fds_def by blast+
    have new: "fd \<notin> ls_conn_fds ls" "fd \<notin> ls_listen_fds ls" using assms(3) old(2) by blast+
    have "open_fds (ls_calls ls') = insert fd (open_fds (ls_calls ls))" by (simp add: assms(8))
    then have "open_fds (ls_calls ls') = ls_listen_fds ls \<union> insert fd (ls_conn_fds ls)" using old(2) by blast
    moreover have "ls_listen_fds ls \<inter> insert fd (ls_conn_fds ls) = {}" using old(1) new by blast
    moreover have "\<forall>j j' c c'. ls_conns ls' j = Some c \<longrightarrow> ls_conns ls' j' = Some c' \<longrightarrow> cc_fd c = cc_fd c' \<longrightarrow> j = j'"
    proof (intro allI impI)
      fix j j' c c' assume c: "ls_conns ls' j = Some c" "ls_conns ls' j' = Some c'" "cc_fd c = cc_fd c'"
      have val: "i \<noteq> k \<and> ls_conns ls i = Some d \<and> cc_fd d \<noteq> fd \<or> i = k \<and> cc_fd d = fd" if "ls_conns ls' i = Some d" for i d
      proof (cases "i = k")
        case True
        then show ?thesis using that assms(7) by (simp add: assms(8))
      next
        case False
        then have "ls_conns ls i = Some d" using that by (simp add: assms(8))
        moreover from this have "cc_fd d \<in> ls_conn_fds ls" unfolding ls_conn_fds_def by blast
        ultimately show ?thesis using False new(1) by metis
      qed
      show "j = j'" using val [OF c(1)] val [OF c(2)] c(3) ls_fds_inj [OF fds, of j c j' c'] by metis
    qed
    ultimately show ?thesis unfolding ls_fds_def conn listen by (intro conjI)
  qed
  ultimately show ?thesis by (simp add: ls_inv_def)
qed

text \<open>Entries.\<close>

lemma avl_insert_distinct:
  "avl_insert cmp x xs = Some ys \<Longrightarrow> f x \<notin> f ` set xs \<Longrightarrow> distinct (map f xs) \<Longrightarrow> distinct (map f ys)"
proof (induction xs arbitrary: ys)
  case (Cons a xs)
  show ?case
  proof (cases "cmp x a > 0")
    case True
    then obtain z where z: "avl_insert cmp x xs = Some z" "ys = a # z" using Cons.prems(1) by (auto split: if_splits)
    have "f a \<notin> f ` set z" using Cons.prems(2,3) avl_insert_set [OF z(1)] by auto
    then show ?thesis using Cons.IH [OF z(1)] Cons.prems(2,3) z(2) by auto
  qed (use Cons.prems in \<open>auto split: if_splits\<close>)
qed simp

lemma avl_delete_distinct: "distinct (map f xs) \<Longrightarrow> distinct (map f (avl_delete cmp x xs))"
  by (induction xs) (use avl_delete_set in fastforce)+

lemma no_entry_list:
  assumes "ls_inv gt V X ls" "t \<notin> tle_ptr ` set (ls_entries ls)"
  shows "ls_lists ls (Some t) = []"
proof (rule ccontr)
  assume "ls_lists ls (Some t) \<noteq> []"
  then obtain k where "k \<in> set (ls_lists ls (Some t))" by (cases "ls_lists ls (Some t)") auto
  then obtain cc where cc: "ls_conns ls k = Some cc" "cc_tle cc = Some t" using assms(1) unfolding ls_inv_def ls_links_def by blast
  from ls_invD(3) [OF assms(1) this] assms(2) show False by blast
qed

lemma set_entries_inv:
  assumes "ls_inv gt V X ls" "entries_ok es" "\<And>k cc t. ls_conns ls k = Some cc \<Longrightarrow> cc_tle cc = Some t \<Longrightarrow> t \<in> tle_ptr ` set es"
  shows "ls_inv gt V X (ls\<lparr>ls_entries := es\<rparr>)"
proof -
  have "ls_links gt V X (ls\<lparr>ls_entries := es\<rparr>)"
    unfolding ls_links_def
  proof (intro conjI allI impI)
    fix k cc assume "ls_conns (ls\<lparr>ls_entries := es\<rparr>) k = Some cc"
    then have cc: "ls_conns ls k = Some cc" by simp
    show "cc_core gt cc" by (rule ls_invD(1) [OF assms(1) cc])
    show "cc_ready gt V cc" if x: "k \<notin> X" by (rule ls_invD(2) [OF assms(1) cc x])
    show "t \<in> tle_ptr ` set (ls_entries (ls\<lparr>ls_entries := es\<rparr>))" if x: "cc_tle cc = Some t" for t using assms(3) [OF cc x] by simp
  qed (use assms(1,2) in \<open>simp_all add: ls_inv_def ls_links_def\<close>)
  moreover have "ls_fds (ls\<lparr>ls_entries := es\<rparr>) \<longleftrightarrow> ls_fds ls" by (rule ls_fds_cong) simp_all
  ultimately show ?thesis using assms(1) by (simp add: ls_inv_def)
qed

text \<open>Entries come and go.\<close>

lemma tl_entry_register_inv:
  assumes "ls_inv gt V {} ls" "tle_ok e" "tle_ptr e \<notin> tle_ptr ` set (ls_entries ls)" "avl_insert tl_compare_listen_entries e (ls_entries ls) = Some es"
    "ls' = ls\<lparr>ls_entries := es, ls_lists := (ls_lists ls)(Some (tle_ptr e) := [])\<rparr>"
  shows "ls_inv gt V {} ls' \<and> connected ls' = connected ls \<and> set es = insert e (set (ls_entries ls))"
proof -
  have eo: "entries_ok (ls_entries ls)" using assms(1) by (simp add: ls_inv_def ls_links_def)
  have set: "set es = insert e (set (ls_entries ls))" by (rule avl_insert_set [OF assms(4)])
  have "avl_ordered tl_compare_listen_entries es \<and> list_all tle_ok es"
    by (rule tle_order.insert_ordered [OF _ _ assms(4)]) (use eo assms(2) in \<open>simp_all add: entries_ok_def\<close>)
  moreover have "distinct (map tle_ptr es)"
    by (rule avl_insert_distinct [OF assms(4,3)]) (use eo in \<open>simp add: entries_ok_def\<close>)
  ultimately have eo': "entries_ok es" by (simp add: entries_ok_def)
  have "ls_lists ls (Some (tle_ptr e)) = []" by (rule no_entry_list [OF assms(1,3)])
  then have same: "ls' = ls\<lparr>ls_entries := es\<rparr>" using assms(5) by (cases ls) auto
  have "ls_inv gt V {} ls'" unfolding same
    by (rule set_entries_inv [OF assms(1) eo']) (use set ls_invD(3) [OF assms(1)] in auto)
  moreover have "connected ls' = connected ls" unfolding same by (rule connected_cong) simp
  ultimately show ?thesis using set by blast
qed

lemma kill_all_inv:
  "ls_inv gt V {} ls \<Longrightarrow> ls_lists ls l = ks \<Longrightarrow>
   \<exists>ls'. client_conn_kill_all gt ops ks ls = Inr ls' \<and> ls_inv gt V {} ls' \<and> ls_lists ls' = (ls_lists ls)(l := []) \<and> ls_entries ls' = ls_entries ls \<and>
     ls_registered ls' = ls_registered ls \<and> ls_user ls' = ls_user ls \<and> (\<forall>j. j \<notin> set ks \<longrightarrow> connected ls' j = connected ls j) \<and>
     (\<forall>j \<in> set ks. connected ls' j = None)"
proof (induction ks arbitrary: ls)
  case Nil
  then have "(ls_lists ls)(l := []) = ls_lists ls" by auto
  then show ?case using Nil by simp
next
  case (Cons k ks)
  have "k \<in> set (ls_lists ls l)" using Cons.prems(2) by simp
  then obtain cc where cc: "ls_conns ls k = Some cc" "cc_tle cc = l" using Cons.prems(1) unfolding ls_inv_def ls_links_def by blast
  note d = drop_inv [OF Cons.prems(1) cc(1)]
  have inv: "ls_inv gt V {} (dropped k cc ls)" using d by simp
  have lists: "ls_lists (dropped k cc ls) = (ls_lists ls)(l := ks)" using Cons.prems(2) cc(2) by (simp add: dropped_def)
  have "distinct (k # ks)" using Cons.prems unfolding ls_inv_def ls_links_def by metis
  then have "k \<notin> set ks" by simp
  obtain ls' where r: "client_conn_kill_all gt ops ks (dropped k cc ls) = Inr ls'" "ls_inv gt V {} ls'" "ls_lists ls' = (ls_lists (dropped k cc ls))(l := [])"
      "ls_entries ls' = ls_entries (dropped k cc ls)" "ls_registered ls' = ls_registered (dropped k cc ls)" "ls_user ls' = ls_user (dropped k cc ls)"
      "\<forall>j. j \<notin> set ks \<longrightarrow> connected ls' j = connected (dropped k cc ls) j" "\<forall>j \<in> set ks. connected ls' j = None"
  proof -
    have "ls_lists (dropped k cc ls) l = ks" using lists by simp
    from Cons.IH [OF inv this] that show thesis by blast
  qed
  have "client_conn_kill gt ops k False ls = Inr (dropped k cc ls)" using d by (simp add: kill_silently tconn_listen_entry_disconnect_def)
  then show ?case using r lists \<open>k \<notin> set ks\<close> by (simp add: connected_dropped fun_eq_iff)
qed

lemma tl_entry_unregister_inv:
  assumes "ls_inv gt V {} ls" "e \<in> set (ls_entries ls)"
  shows "\<exists>ls'. tconn_listen_entry_unregister gt ops e ls = Inr ls' \<and> ls_inv gt V {} ls' \<and>
    ls_entries ls' = avl_delete tl_compare_listen_entries e (ls_entries ls) \<and> set (ls_entries ls') = set (ls_entries ls) - {e} \<and>
    ls_registered ls' = ls_registered ls \<and> ls_user ls' = ls_user ls \<and> ls_lists ls' = (ls_lists ls)(Some (tle_ptr e) := []) \<and>
    (\<forall>k. connected ls' k = connected ls k \<or> connected ls' k = None \<and> k \<in> set (ls_lists ls (Some (tle_ptr e))))"
proof -
  obtain ls1 where r: "client_conn_kill_all gt ops (ls_lists ls (Some (tle_ptr e))) ls = Inr ls1" "ls_inv gt V {} ls1"
      "ls_lists ls1 = (ls_lists ls)(Some (tle_ptr e) := [])" "ls_entries ls1 = ls_entries ls" "ls_registered ls1 = ls_registered ls" "ls_user ls1 = ls_user ls"
      "\<forall>j. j \<notin> set (ls_lists ls (Some (tle_ptr e))) \<longrightarrow> connected ls1 j = connected ls j" "\<forall>j \<in> set (ls_lists ls (Some (tle_ptr e))). connected ls1 j = None"
    using kill_all_inv [OF assms(1) refl] by blast
  let ?es = "avl_delete tl_compare_listen_entries e (ls_entries ls)"
  have eo: "entries_ok (ls_entries ls)" using assms(1) by (simp add: ls_inv_def ls_links_def)
  have ok: "list_all tle_ok (e # ls_entries ls)" using eo assms(2) by (auto simp: entries_ok_def list_all_iff)
  have self: "tl_compare_listen_entries e e = 0" by (simp add: tl_compare_listen_entries_def)
  have "set ?es = {y \<in> set (ls_entries ls). tl_compare_listen_entries e y \<noteq> 0}"
    by (rule tle_order.delete_set) (use eo ok in \<open>simp_all add: entries_ok_def\<close>)
  also have "\<dots> = set (ls_entries ls) - {e}"
    using tle_order.ordered_distinct_keys [of "ls_entries ls" e] eo assms(2) self by (auto simp: entries_ok_def)
  finally have set: "set ?es = set (ls_entries ls) - {e}" .
  have eo': "entries_ok ?es"
    using eo set avl_delete_distinct avl_delete_ordered by (auto simp: entries_ok_def list_all_iff)
  have keep: "t \<in> tle_ptr ` set ?es" if c: "ls_conns ls1 k = Some cc" "cc_tle cc = Some t" for k cc t
  proof -
    have "t \<in> tle_ptr ` set (ls_entries ls)" using ls_invD(3) [OF r(2) c] r(4) by simp
    then obtain y where y: "y \<in> set (ls_entries ls)" "tle_ptr y = t" by blast
    have "k \<in> set (ls_lists ls1 (Some t))" using ls_invD(4) [OF r(2) c(1)] c(2) by simp
    then have "t \<noteq> tle_ptr e" using r(3) by auto
    then show ?thesis using set y by blast
  qed
  have "ls_inv gt V {} (ls1\<lparr>ls_entries := ?es\<rparr>)" by (rule set_entries_inv [OF r(2) eo' keep])
  moreover have "tconn_listen_entry_unregister gt ops e ls = Inr (ls1\<lparr>ls_entries := ?es\<rparr>)"
    using r(1,4) assms(2) by (simp add: tconn_listen_entry_unregister_def)
  moreover have "connected (ls1\<lparr>ls_entries := ?es\<rparr>) = connected ls1" by (rule connected_cong) simp
  moreover have "connected ls1 k = connected ls k \<or> connected ls1 k = None \<and> k \<in> set (ls_lists ls (Some (tle_ptr e)))" for k
    using r(7,8) by blast
  ultimately show ?thesis using r(3,5,6) set by (intro exI [of _ "ls1\<lparr>ls_entries := ?es\<rparr>"]) simp
qed

text \<open>The socket is closed.\<close>

lemma unregister_all_inv:
  "ls_inv gt V {} ls \<Longrightarrow> ls_entries ls = es \<Longrightarrow>
   \<exists>ls'. tl_unregister_all gt ops es ls = Inr ls' \<and> ls_inv gt V {} ls' \<and> ls_entries ls' = [] \<and> ls_registered ls' = ls_registered ls \<and>
     ls_user ls' = ls_user ls \<and> (\<forall>l. ls_lists ls l = [] \<longrightarrow> ls_lists ls' l = [])"
proof (induction es arbitrary: ls)
  case (Cons e es)
  have e: "e \<in> set (ls_entries ls)" using Cons.prems(2) by simp
  obtain ls1 where r: "tconn_listen_entry_unregister gt ops e ls = Inr ls1" "ls_inv gt V {} ls1"
      "ls_entries ls1 = avl_delete tl_compare_listen_entries e (ls_entries ls)" "ls_registered ls1 = ls_registered ls" "ls_user ls1 = ls_user ls"
      "ls_lists ls1 = (ls_lists ls)(Some (tle_ptr e) := [])"
    using tl_entry_unregister_inv [OF Cons.prems(1) e] by blast
  have "tl_compare_listen_entries e e = 0" by (simp add: tl_compare_listen_entries_def)
  then have es: "ls_entries ls1 = es" using r(3) Cons.prems(2) by simp
  show ?case using Cons.IH [OF r(2) es] r(1,4-6) by auto
qed simp

lemma tl_socket_unregister_inv:
  assumes "ls_inv gt V {} ls" "ls_registered ls"
  shows "\<exists>ls'. tconn_listen_socket_unregister gt ops ls = Inr ls' \<and> (\<forall>k. ls_conns ls' k = None) \<and> open_fds (ls_calls ls') = {} \<and>
    ls_entries ls' = [] \<and> ls_user ls' = ls_user ls"
proof -
  let ?ls = "ls_sys (Sys_close (ls_listen_fd ls)) (ls\<lparr>ls_registered := False\<rparr>)"
  have fds: "ls_fds ls" using assms(1) by (simp add: ls_inv_def)
  have conn: "ls_conns ?ls = ls_conns ls" by (simp add: ls_sys_def)
  then have cf: "ls_conn_fds ?ls = ls_conn_fds ls" by (simp add: ls_conn_fds_def)
  have "open_fds (ls_calls ls) = {ls_listen_fd ls} \<union> ls_conn_fds ls" "{ls_listen_fd ls} \<inter> ls_conn_fds ls = {}"
    using fds assms(2) unfolding ls_fds_def ls_listen_fds_def by auto
  moreover have "open_fds (ls_calls ?ls) = open_fds (ls_calls ls) - {ls_listen_fd ls}" by (simp add: ls_sys_def)
  ultimately have "open_fds (ls_calls ?ls) = ls_conn_fds ?ls" unfolding cf by blast
  moreover have "ls_listen_fds ?ls = {}" by (simp add: ls_listen_fds_def ls_sys_def)
  ultimately have "ls_fds ?ls" using fds unfolding ls_fds_def conn by blast
  moreover have "ls_links gt V {} ?ls" using assms(1) by (simp add: ls_inv_def ls_links_def ls_sys_def)
  ultimately have q: "ls_inv gt V {} ?ls" by (simp add: ls_inv_def)
  obtain ls1 where r: "client_conn_kill_all gt ops (ls_lists ?ls None) ?ls = Inr ls1" "ls_inv gt V {} ls1" "ls_lists ls1 = (ls_lists ?ls)(None := [])"
      "ls_registered ls1 = ls_registered ?ls" "ls_user ls1 = ls_user ?ls"
    using kill_all_inv [OF q refl] by blast
  obtain ls2 where s: "tl_unregister_all gt ops (ls_entries ls1) ls1 = Inr ls2" "ls_inv gt V {} ls2" "ls_entries ls2 = []" "ls_registered ls2 = ls_registered ls1"
      "\<forall>l. ls_lists ls1 l = [] \<longrightarrow> ls_lists ls2 l = []" "ls_user ls2 = ls_user ls1"
    using unregister_all_inv [OF r(2) refl] by blast
  have none: "ls_conns ls2 k = None" for k
  proof (rule ccontr)
    assume "ls_conns ls2 k \<noteq> None"
    then obtain cc where cc: "ls_conns ls2 k = Some cc" by blast
    have "cc_tle cc = None" using ls_invD(3) [OF s(2) cc] s(3) by (cases "cc_tle cc") auto
    then show False using ls_invD(4) [OF s(2) cc] r(3) s(5) by simp
  qed
  have "ls_fds ls2" using s(2) by (simp add: ls_inv_def)
  moreover have "ls_listen_fds ls2 = {}" "ls_conn_fds ls2 = {}" using none s(4) r(4) by (simp_all add: ls_listen_fds_def ls_conn_fds_def ls_sys_def)
  ultimately have "open_fds (ls_calls ls2) = {}" unfolding ls_fds_def by blast
  moreover have "tconn_listen_socket_unregister gt ops ls = Inr ls2"
    using assms(2) r(1) s(1) by (simp add: tconn_listen_socket_unregister_def Let_def)
  moreover have "ls_user ls2 = ls_user ls" using r(5) s(6) by (simp add: ls_sys_def)
  ultimately show ?thesis using none s(3) by (intro exI [of _ ls2]) simp
qed

text \<open>A connection that is accepted.\<close>

lemma failed_accept_inv:
  assumes "ls_inv gt V {} ls" "fd \<notin> open_fds (ls_calls ls)" "ls' = ls\<lparr>ls_calls := ls_calls ls @ [Sys_socket fd, Sys_close fd]\<rparr>"
  shows "ls_inv gt V {} ls' \<and> connected ls' = connected ls \<and> ls_user ls' = ls_user ls \<and> ls_entries ls' = ls_entries ls"
proof -
  have "ls_links gt V {} ls'" using assms(1) by (simp add: ls_inv_def ls_links_def assms(3))
  moreover have "ls_conn_fds ls' = ls_conn_fds ls" "ls_listen_fds ls' = ls_listen_fds ls" by (simp_all add: ls_conn_fds_def ls_listen_fds_def assms(3))
  moreover have "open_fds (ls_calls ls') = open_fds (ls_calls ls)" using assms(2) by (simp add: assms(3))
  moreover have "ls_conns ls' = ls_conns ls" by (simp add: assms(3))
  moreover have "ls_fds ls" using assms(1) by (simp add: ls_inv_def)
  ultimately have "ls_fds ls'" unfolding ls_fds_def by metis
  moreover have "connected ls' = connected ls" by (rule connected_cong) (simp add: assms(3))
  ultimately show ?thesis using \<open>ls_links gt V {} ls'\<close> by (simp add: ls_inv_def assms(3))
qed

context listen_user
begin

lemma got_connection_inv:
  assumes "quiet ls" "gnutls_checks gt V" "tl_env_ok env" "server_waits gt V (ta_start acc)" "tls_start_ok (ta_start acc)"
    "\<And>fd. ta_accept acc = Some fd \<Longrightarrow> fd \<notin> open_fds (ls_calls ls)" "\<And>k. ta_calloc acc = Some k \<Longrightarrow> ls_conns ls k = None"
  shows "safe quiet (tl_got_connection gt ops env acc ls)"
proof (cases "ta_accept acc")
  case None
  then show ?thesis using assms(1) by (simp add: tl_got_connection_def)
next
  case (Some fd)
  note fd = assms(6) [OF Some]
  have inv: "ls_inv gt V {} ls" "uinv (ls_entries ls) (connected ls) (ls_user ls)" using assms(1) by (simp_all add: quiet_def)
  have q: "quiet (ls\<lparr>ls_calls := ls_calls ls @ [Sys_socket fd, Sys_close fd]\<rparr>)"
    using failed_accept_inv [OF inv(1) fd refl] inv(2) by (simp add: quiet_def)
  show ?thesis
  proof (cases "ta_getsockname acc \<and> ta_calloc acc \<noteq> None")
    case False
    then show ?thesis using q Some by (auto simp: tl_got_connection_def ls_sys_def Let_def split: option.splits)
  next
    case True
    then obtain k where k: "ta_calloc acc = Some k" "ta_getsockname acc" by auto
    note free = assms(7) [OF k(1)]
    obtain tc' where st: "tconn_start gt (ta_start acc) (tl_tls_env env (ls_entries ls)) (zero_tconn (ta_null acc)) = Inr (0, tc', None)"
        "session_ready gt V False False tc'"
      using start_left [OF assms(2,4,5,3), of "zero_tconn (ta_null acc)" "ls_entries ls"] by (auto simp: zero_tconn_def)
    define cc where "cc = (zero_client_conn fd (ta_null acc))\<lparr>cc_tconn := tc',
        cc_rx_timeout := Some (timespec_add_ms (tx_rnd env) (tx_now env) (1000 * HANDSHAKE_TIMEOUT) (1000 * HANDSHAKE_TIMEOUT))\<rparr>"
    define ls1 where "ls1 = ls\<lparr>ls_calls := ls_calls ls @ [Sys_socket fd], ls_lists := (ls_lists ls)(None := ls_lists ls None @ [k]),
        ls_conns := (ls_conns ls)(k \<mapsto> cc)\<rparr>"
    have user: "tn_user tc' = []" using st(2) by (simp add: session_ready_def)
    then have same: "tc'\<lparr>tn_user := []\<rparr> = tc'" by (cases tc') simp
    have "tl_got_connection gt ops env acc ls = Inr ls1"
      using Some k st(1) user
      by (simp add: same tl_got_connection_def ls_sys_def tl_tconn_def ls_set_def zero_client_conn_def timer_init_def cc_start_rx_def timer_register_def
          ls1_def cc_def Let_def)
    moreover have "cc_core gt cc" "cc_ready gt V cc" using st(2) by (simp_all add: cc_core_def cc_ready_def cc_def zero_client_conn_def session_ready_def)
    then have "ls_inv gt V {} ls1" by (rule added_inv [OF inv(1) free fd]) (simp_all add: cc_def zero_client_conn_def ls1_def)
    moreover have "connected ls1 = connected ls" using free by (auto simp: connected_def connected_as_def ls1_def cc_def zero_client_conn_def)
    ultimately show ?thesis using inv(2) by (simp add: quiet_def ls1_def)
  qed
qed

end

section \<open>Events\<close>

text \<open>
  What happens to a socket that is open: a connection arrives; the descriptor of one is readable or
  writable; a task or timer of one runs; the user sends a record.  The kernel gives descriptors that
  are not open, \<^verbatim>\<open>calloc\<close> addresses that are not in use, and the calls that start a session
  work.
\<close>

datatype 's tl_event =
    Tl_accept tl_env "'s tl_accepted"
  | Tl_in nat tl_env recv_result
  | Tl_out nat tl_env sender
  | Tl_rx_task nat tl_env
  | Tl_tx_task nat tl_env
  | Tl_rx_timeout nat
  | Tl_keepalive nat tl_env
  | Tl_send nat tl_env bytes

definition tl_on :: "nat \<Rightarrow> ('s client_conn \<Rightarrow> bool) \<Rightarrow> ('s, 'u) tconn_listen_socket \<Rightarrow> bool" where
  "tl_on k P ls \<longleftrightarrow> (case ls_conns ls k of None \<Rightarrow> False | Some cc \<Rightarrow> P cc)"

fun tl_enabled :: "'s gnutls \<Rightarrow> ('s \<Rightarrow> bool) \<Rightarrow> 's tl_event \<Rightarrow> ('s, 'u) tconn_listen_socket \<Rightarrow> bool" where
  "tl_enabled gt V (Tl_accept env acc) ls \<longleftrightarrow> tl_env_ok env \<and> server_waits gt V (ta_start acc) \<and> tls_start_ok (ta_start acc) \<and>
     (\<forall>fd. ta_accept acc = Some fd \<longrightarrow> fd \<notin> open_fds (ls_calls ls)) \<and> (\<forall>k. ta_calloc acc = Some k \<longrightarrow> ls_conns ls k = None)"
| "tl_enabled gt V (Tl_in k env r) ls \<longleftrightarrow>
     tl_on k (\<lambda>cc. tls_enabled (Ev_in r) (cc_tconn cc) \<and> tls_allowed gt (Ev_in r) (cc_tconn cc)) ls"
| "tl_enabled gt V (Tl_out k env sndr) ls \<longleftrightarrow>
     tl_on k (\<lambda>cc. tls_enabled (Ev_out sndr) (cc_tconn cc) \<and> tls_allowed gt (Ev_out sndr) (cc_tconn cc)) ls"
| "tl_enabled gt V (Tl_rx_task k env) ls \<longleftrightarrow> tl_env_ok env \<and> tl_on k (\<lambda>cc. tn_rx_task (cc_tconn cc)) ls"
| "tl_enabled gt V (Tl_tx_task k env) ls \<longleftrightarrow> tl_env_ok env \<and> tl_on k (\<lambda>cc. tn_tx_task (cc_tconn cc)) ls"
| "tl_enabled gt V (Tl_rx_timeout k) ls \<longleftrightarrow> tl_on k (\<lambda>cc. cc_rx_timeout cc \<noteq> None) ls"
| "tl_enabled gt V (Tl_keepalive k env) ls \<longleftrightarrow> tl_env_ok env \<and> tl_on k (\<lambda>cc. cc_keepalive_timer cc \<noteq> None) ls"
| "tl_enabled gt V (Tl_send k env r) ls \<longleftrightarrow> tl_env_ok env \<and> tl_on k (\<lambda>cc. cc_state cc = CC_CONNECTED) ls"

text \<open>The session has nothing to tell when a handler of the descriptor runs.\<close>

definition tl_step ::
  "'s gnutls \<Rightarrow> cc_checks tls_event \<Rightarrow> ('s, cc_checks) tconn \<Rightarrow> (('s, cc_checks) tconn \<times> tconn_note option) handled" where
  "tl_step gt ev tc = hbind (tls_step gt ev tc) (\<lambda>tc. Inr (tc, None))"

fun tl_run ::
  "'s gnutls \<Rightarrow> ('s, 'u) listen_user_ops \<Rightarrow> 's tl_event \<Rightarrow> ('s, 'u) tconn_listen_socket \<Rightarrow> ('s, 'u) tconn_listen_socket handled" where
  "tl_run gt ops (Tl_accept env acc) ls = tl_got_connection gt ops env acc ls"
| "tl_run gt ops (Tl_in k env r) ls = tl_tconn gt ops env k (tl_step gt (Ev_in r)) ls"
| "tl_run gt ops (Tl_out k env sndr) ls = tl_tconn gt ops env k (tl_step gt (Ev_out sndr)) ls"
| "tl_run gt ops (Tl_rx_task k env) ls =
     tl_tconn gt ops env k (\<lambda>tc. tconn_rx_task_handler gt (tl_tls_env env (ls_entries ls)) (tc\<lparr>tn_rx_task := False\<rparr>)) ls"
| "tl_run gt ops (Tl_tx_task k env) ls =
     tl_tconn gt ops env k (\<lambda>tc. tconn_tx_task_handler gt (tl_tls_env env (ls_entries ls)) (tc\<lparr>tn_tx_task := False\<rparr>)) ls"
| "tl_run gt ops (Tl_rx_timeout k) ls = tl_rx_timeout gt ops k ls"
| "tl_run gt ops (Tl_keepalive k env) ls =
     hbind (deref (ls_conns ls k)) (\<lambda>cc. case cc_keepalive_timer cc of None \<Rightarrow> Inr ls | Some t \<Rightarrow> tl_send_keepalive gt ops env k t ls)"
| "tl_run gt ops (Tl_send k env r) ls = tconn_listen_entry_record_send gt ops env k r ls"

lemma tl_onE:
  assumes "tl_on k P ls"
  obtains cc where "ls_conns ls k = Some cc" "P cc"
  using assms by (auto simp: tl_on_def split: option.splits)

lemma tl_step_left:
  assumes "gnutls_ok gt" "session_ready gt V known conn tc" "tls_enabled ev tc" "tls_allowed gt ev tc"
    "\<And>tc'. tls_step gt ev tc = Inr tc' \<Longrightarrow> same_call tc tc'"
  shows "\<exists>tc' nt. tl_step gt ev tc = Inr (tc', nt) \<and> session_left gt V entries known conn tc' nt"
proof -
  obtain tc' where s: "tls_step gt ev tc = Inr tc'" "tls_inv gt tc'"
    using tls_step_inv [OF assms(1) session_readyD(1) [OF assms(2)] assms(3,4)] by blast
  from same_call_left [OF assms(2) assms(5) [OF s(1)] s(2)] s(1) show ?thesis by (simp add: tl_step_def)
qed

context listen_user
begin

lemma tl_event_inv:
  assumes "gnutls_checks gt V" "quiet ls" "tl_enabled gt V ev ls"
  shows "safe quiet (tl_run gt ops ev ls)"
proof -
  have gt: "gnutls_ok gt" using assms(1) by (simp add: gnutls_checks_def)
  have ready: "session_ready gt V (cc_tle cc \<noteq> None) (cc_state cc = CC_CONNECTED) (cc_tconn cc)" if "ls_conns ls k = Some cc" for k cc
    using quietD(4) [OF assms(2) that] by (simp add: cc_ready_def)
  show ?thesis
  proof (cases ev)
    case (Tl_accept env acc)
    then show ?thesis using got_connection_inv [OF assms(2,1)] assms(3) by simp
  next
    case (Tl_in k env r)
    then obtain cc where cc: "ls_conns ls k = Some cc" "tls_enabled (Ev_in r) (cc_tconn cc)" "tls_allowed gt (Ev_in r) (cc_tconn cc)"
      using assms(3) by (auto elim: tl_onE)
    have left: "\<exists>tc' nt. tl_step gt (Ev_in r) (cc_tconn cc) = Inr (tc', nt) \<and>
        session_left gt V (ls_entries ls) (cc_tle cc \<noteq> None) (cc_state cc = CC_CONNECTED) tc' nt"
      by (rule tl_step_left [OF gt ready [OF cc(1)] cc(2,3)]) (simp add: handler_in_same)
    show ?thesis unfolding Tl_in tl_run.simps by (rule session_handler_inv [OF assms(2) cc(1)], rule left)
  next
    case (Tl_out k env sndr)
    then obtain cc where cc: "ls_conns ls k = Some cc" "tls_enabled (Ev_out sndr) (cc_tconn cc)" "tls_allowed gt (Ev_out sndr) (cc_tconn cc)"
      using assms(3) by (auto elim: tl_onE)
    have left: "\<exists>tc' nt. tl_step gt (Ev_out sndr) (cc_tconn cc) = Inr (tc', nt) \<and>
        session_left gt V (ls_entries ls) (cc_tle cc \<noteq> None) (cc_state cc = CC_CONNECTED) tc' nt"
      by (rule tl_step_left [OF gt ready [OF cc(1)] cc(2,3)]) (simp add: handler_out_same)
    show ?thesis unfolding Tl_out tl_run.simps by (rule session_handler_inv [OF assms(2) cc(1)], rule left)
  next
    case (Tl_rx_task k env)
    then obtain cc where cc: "ls_conns ls k = Some cc" "tn_rx_task (cc_tconn cc)" "tl_env_ok env" using assms(3) by (auto elim: tl_onE)
    show ?thesis unfolding Tl_rx_task tl_run.simps
      by (rule session_handler_inv [OF assms(2) cc(1)], rule rx_task_left [OF assms(1) cc(3) ready [OF cc(1)] cc(2)])
  next
    case (Tl_tx_task k env)
    then obtain cc where cc: "ls_conns ls k = Some cc" "tn_tx_task (cc_tconn cc)" "tl_env_ok env" using assms(3) by (auto elim: tl_onE)
    show ?thesis unfolding Tl_tx_task tl_run.simps
      by (rule session_handler_inv [OF assms(2) cc(1)], rule tx_task_left [OF assms(1) cc(3) ready [OF cc(1)] cc(2)])
  next
    case (Tl_rx_timeout k)
    then obtain cc where "ls_conns ls k = Some cc" using assms(3) by (auto elim: tl_onE)
    from rx_timeout_inv [OF assms(2) this] Tl_rx_timeout show ?thesis by simp
  next
    case (Tl_keepalive k env)
    then obtain cc t where cc: "ls_conns ls k = Some cc" "cc_keepalive_timer cc = Some t" "tl_env_ok env" using assms(3) by (auto elim: tl_onE)
    from send_keepalive_inv [OF assms(2) cc(1,2) assms(1) cc(3)] Tl_keepalive cc(1,2) show ?thesis by simp
  next
    case (Tl_send k env r)
    then obtain cc where cc: "ls_conns ls k = Some cc" "cc_state cc = CC_CONNECTED" "tl_env_ok env" using assms(3) by (auto elim: tl_onE)
    from entry_record_send_inv [OF assms(2) cc(1,2) assms(1) cc(3)] Tl_send show ?thesis by simp
  qed
qed

end

end
