(* ===== verification/Dvpn_Listen.thy ===== *)
theory Dvpn_Listen
  imports Dvpn_Connect Dgp_Listen Tconn_Listen_Safe
begin

text \<open>
  The connections that the node accepts, in \<^verbatim>\<open>src/dvpn.c\<close>: the user of \<^verbatim>\<open>tconn_listen.c\<close>, and the functions
  that start and stop a listening socket of the configuration and its entries.  A new connection gets an
  interface, a place among the direct peers, an entry in the node's own LSA and a listening socket
  of the routing protocol; when its entry has as many connections as it may have, the newest
  one goes first.  The properties: whatever happens, every connected connection has exactly its
  resources and no entry has more than its limit; stopping the socket gives everything back.
\<close>

section \<open>The code\<close>

text \<open>
  A connection: \<open>lec_cle\<close> is the address of its entry, \<open>lec_conn\<close> that of the \<^verbatim>\<open>client_conn\<close>.  Its
  only entry in its listening socket of the routing protocol, \<^verbatim>\<open>dle\<close>, is a part of it, and has its address.
\<close>

record listen_entry_conn =
  lec_cle :: nat
  lec_conn :: nat
  lec_peerid :: bytes
  lec_tun :: tun_interface
  lec_dp :: direct_peer
  lec_dls :: "session dgp_listen_socket"

text \<open>What \<^verbatim>\<open>dvpn.c\<close> and \<^verbatim>\<open>tconn_listen.c\<close> keep in an entry of the configuration.\<close>

record listen_entry_state =
  cl_conf :: conf_listen_entry
  cl_registered :: bool
  cl_tle :: tconn_listen_entry
  cl_num_connections :: int
  cl_connections :: "nat list"

text \<open>
  The variables of \<^verbatim>\<open>dvpn.c\<close>, the entries by their addresses, which exist as long as the configuration
  does, and the connections that are allocated.
\<close>

record dvpn_listen =
  dl_dv :: dvpn
  dl_cles :: "nat \<Rightarrow> listen_entry_state"
  dl_lecs :: "nat \<Rightarrow> listen_entry_conn option"

text \<open>The answers of the system that the connecting side does not ask for.\<close>

record listen_conn_env =
  xe_ve :: dvpn_env
  xe_calloc :: "dvpn_listen \<Rightarrow> nat option"
  xe_rtt :: "nat \<Rightarrow> nat option"
  xe_maxseg :: "nat \<Rightarrow> int option"
  xe_listen :: "dvpn_listen \<Rightarrow> listen_env"

type_synonym 's listen_state = "('s, dvpn_listen) tconn_listen_socket"

definition dl_upd :: "(dvpn \<Rightarrow> dvpn) \<Rightarrow> dvpn_listen \<Rightarrow> dvpn_listen" where
  "dl_upd f dl = dl\<lparr>dl_dv := f (dl_dv dl)\<rparr>"

definition ls_upd :: "(dvpn_listen \<Rightarrow> dvpn_listen) \<Rightarrow> 's listen_state \<Rightarrow> 's listen_state" where
  "ls_upd f ls = ls\<lparr>ls_user := f (ls_user ls)\<rparr>"

definition on_user :: "(dvpn_listen \<Rightarrow> dvpn_listen handled) \<Rightarrow> 's listen_state \<Rightarrow> 's listen_state handled" where
  "on_user f ls = hbind (f (ls_user ls)) (\<lambda>dl. Inr (ls\<lparr>ls_user := dl\<rparr>))"

definition on_dv :: "(dvpn \<Rightarrow> dvpn handled) \<Rightarrow> dvpn_listen \<Rightarrow> dvpn_listen handled" where
  "on_dv f dl = hbind (f (dl_dv dl)) (\<lambda>dv. Inr (dl\<lparr>dl_dv := dv\<rparr>))"

subsection \<open>What the sessions share\<close>

text \<open>
  The sessions of the routing protocol work on the base and the reference counts that all share: they are
  handed to the sessions of a connection, and taken back from the one that ends (\<open>session_ended\<close> is
  what \<^verbatim>\<open>conn_kill\<close> makes of a session, before it is freed).  Its writer is a listener of the base, known by
  its place: those behind it move up.
\<close>

definition dls_load :: "dvpn \<Rightarrow> session dgp_listen_socket \<Rightarrow> session dgp_listen_socket" where
  "dls_load dv dls = dls\<lparr>dls_conns := (\<lambda>c. map_option
     (\<lambda>cn. cn\<lparr>cn_session := (cn_session cn)\<lparr>se_rib := dv_rib dv, se_rc := dv_rc dv\<rparr>\<rparr>) (dls_conns dls c))\<rparr>"

definition session_ended :: "session session_ops \<Rightarrow> session \<Rightarrow> session handled" where
  "session_ended ops s = hbind (ss_writer_unregister ops s) (ss_reader_unregister ops)"

definition move_up :: "session \<Rightarrow> session \<Rightarrow> session" where
  "move_up gone s = (if se_place gone < se_place s then s\<lparr>se_place := se_place s - 1\<rparr> else s)"

definition conn_move_up :: "session \<Rightarrow> session conn \<Rightarrow> session conn" where
  "conn_move_up gone cn = cn\<lparr>cn_session := move_up gone (cn_session cn)\<rparr>"

definition lec_move_up :: "session \<Rightarrow> listen_entry_conn \<Rightarrow> listen_entry_conn" where
  "lec_move_up gone lec =
     lec\<lparr>lec_dls := (lec_dls lec)\<lparr>dls_conns := (\<lambda>c. map_option (conn_move_up gone) (dls_conns (lec_dls lec) c))\<rparr>\<rparr>"

definition cec_move_up :: "session \<Rightarrow> connect_entry_conn \<Rightarrow> connect_entry_conn" where
  "cec_move_up gone cec = cec\<lparr>cec_dc := (cec_dc cec)\<lparr>dc_session := move_up gone (dc_session (cec_dc cec))\<rparr>\<rparr>"

definition dl_take_back :: "session \<Rightarrow> session \<Rightarrow> dvpn_listen \<Rightarrow> dvpn_listen" where
  "dl_take_back old new dl =
     dl\<lparr>dl_dv := (dl_dv dl)\<lparr>dv_rib := se_rib new, dv_rc := se_rc new,
                            dv_conns := (\<lambda>k. map_option (cec_move_up old) (dv_conns (dl_dv dl) k))\<rparr>,
        dl_lecs := (\<lambda>x. map_option (lec_move_up old) (dl_lecs dl x))\<rparr>"

text \<open>
  The two calls with which \<^verbatim>\<open>lec_destroy\<close> ends the routing protocol.  Read-only connections are not permitted here,
  so at most the one of the entry ends.
\<close>

definition lec_stop_routing :: "listen_conn_env \<Rightarrow> nat \<Rightarrow> listen_entry_conn \<Rightarrow> dvpn_listen \<Rightarrow> dvpn_listen handled" where
  "lec_stop_routing env x lec dl =
     (let ops = se_ops (ve_session (xe_ve env)); dls = dls_load (dl_dv dl) (lec_dls lec)
      in hbind (deref (dls_dles dls x)) (\<lambda>dle.
         hbind (case dle_current dle of
                  None \<Rightarrow> Inr dl
                | Some c \<Rightarrow> hbind (deref (dls_conns dls c)) (\<lambda>cn.
                    hbind (session_ended ops (cn_session cn)) (\<lambda>s. Inr (dl_take_back (cn_session cn) s dl)))) (\<lambda>dl.
         hbind (dgp_listen_entry_unregister ops x dls) (\<lambda>dls.
         hbind (dgp_listen_socket_unregister ops dls) (\<lambda>dls. Inr dl)))))"

subsection \<open>The life of a connection\<close>

definition lec_tun_got_packet ::
  "'s gnutls \<Rightarrow> ('s, dvpn_listen) listen_user_ops \<Rightarrow> tl_env \<Rightarrow> nat \<Rightarrow> bytes \<Rightarrow> 's listen_state \<Rightarrow> 's listen_state handled" where
  "lec_tun_got_packet gt ops env x buf ls =
     hbind (deref (dl_lecs (ls_user ls) x)) (\<lambda>lec.
     tconn_listen_entry_record_send gt ops env (lec_conn lec) (packet_frame buf) ls)"

definition lec_unlink :: "nat \<Rightarrow> listen_entry_conn \<Rightarrow> dvpn_listen \<Rightarrow> dvpn_listen handled" where
  "lec_unlink x lec dl =
     (let t = lec_cle lec; cl = dl_cles dl t
      in if x \<notin> set (cl_connections cl) then Inl Dangling
         else Inr (dl\<lparr>dl_cles := (dl_cles dl)(t := cl\<lparr>cl_connections := remove1 x (cl_connections cl),
                cl_num_connections := cl_num_connections cl - 1\<rparr>)\<rparr>))"

definition lec_release :: "listen_conn_env \<Rightarrow> nat \<Rightarrow> listen_entry_conn \<Rightarrow> dvpn_listen \<Rightarrow> dvpn_listen handled" where
  "lec_release env x lec dl =
     (let ve = xe_ve env; dv = dl_dv dl
      in if lec_dp lec \<notin> set (dv_peers dv) then Inl Dangling
      else let dv = dv\<lparr>dv_peers := avl_delete compare_direct_peers (lec_dp lec) (dv_peers dv)\<rparr>
      in hbind (tun_interface_unregister (lec_tun lec) (dv_calls dv)) (\<lambda>(_, calls).
         let dv = dv\<lparr>dv_calls := calls\<rparr>
         in hbind (if cle_peer_type (cl_conf (dl_cles dl (lec_cle lec))) \<noteq> CONF_PEER_TYPE_DBONLY
                   then dv_mylsa (mylsa_del_peer (ve_signer ve) (ve_now ve dv) (ve_malloc ve dv) (lec_peerid lec)) dv
                   else Inr dv) (\<lambda>dv.
            Inr (dl\<lparr>dl_dv := dv, dl_lecs := (dl_lecs dl)(x := None)\<rparr>))))"

definition lec_destroy :: "'s gnutls \<Rightarrow> listen_conn_env \<Rightarrow> nat \<Rightarrow> bool \<Rightarrow> 's listen_state \<Rightarrow> 's listen_state handled" where
  "lec_destroy gt env x disconnect_tconn ls =
     hbind (deref (dl_lecs (ls_user ls) x)) (\<lambda>lec.
     hbind (on_user (lec_unlink x lec) ls) (\<lambda>ls.
     hbind (on_user (lec_stop_routing env x lec) ls) (\<lambda>ls.
     hbind (if disconnect_tconn then tconn_listen_entry_disconnect gt (lec_conn lec) ls else Inr ls)
       (on_user (lec_release env x lec)))))"

text \<open>
  The last part of \<^verbatim>\<open>cle_new_conn\<close>.  The return value of \<^verbatim>\<open>dgp_listen_socket_register\<close> is not used: when it
  fails, the list of the entries, which \<^verbatim>\<open>calloc\<close> has filled with null pointers, is not
  initialised, and putting an entry into it writes through one of them.
\<close>

definition lec_new_dls :: "listen_conn_env \<Rightarrow> bytes \<Rightarrow> session dgp_listen_socket" where
  "lec_new_dls env tunitf = \<lparr>dls_myid = ve_keyid (xe_ve env), dls_ifindex = ve_ifindex (xe_ve env) tunitf, dls_permit_readonly = False,
     dls_listen_fd = 0, dls_registered = False, dls_listen_entries = [], dls_readonly_conns = [],
     dls_dles = (\<lambda>_. None), dls_conns = (\<lambda>_. None), dls_calls = []\<rparr>"

definition lec_start_routing :: "listen_conn_env \<Rightarrow> nat \<Rightarrow> listen_entry_conn \<Rightarrow> dvpn_listen \<Rightarrow> session dgp_listen_socket handled" where
  "lec_start_routing env x lec dl =
     (let (ret, dls) = dgp_listen_socket_register (xe_listen env dl) (lec_dls lec)
      in if ret \<noteq> 0 then Inl Dangling
         else dgp_listen_entry_register x (dls\<lparr>dls_dles := [x \<mapsto> \<lparr>dle_remoteid = lec_peerid lec, dle_current = None\<rparr>]\<rparr>))"

definition cle_setup_conn ::
  "listen_conn_env \<Rightarrow> nat \<Rightarrow> nat \<Rightarrow> nat \<Rightarrow> bytes \<Rightarrow> tun_interface \<Rightarrow> dvpn_listen \<Rightarrow> dvpn_listen handled" where
  "cle_setup_conn env t k x peerid tun dl =
     (let ve = xe_ve env; maxseg = tconn_listen_entry_get_maxseg (xe_maxseg env k)
      in if maxseg < 0 then Inl (Called Abort)
         else let tunitf = tun_interface_get_name tun;
                  dl = dl_upd (\<lambda>dv. dv\<lparr>dv_calls := conn_setup_itf (ve_itf ve) (ve_keyid ve) tunitf (conn_mtu maxseg) (dv_calls dv)\<rparr>) dl;
                  dp = \<lparr>dp_addr = v6_global_addr_from_key_id peerid, dp_itfname = tunitf\<rparr>
         in case avl_insert compare_direct_peers dp (dv_peers (dl_dv dl)) of
              None \<Rightarrow> Inl (Called Abort)
            | Some peers \<Rightarrow>
                let dl = dl_upd (\<lambda>dv. dv\<lparr>dv_peers := peers\<rparr>) dl;
                    lec = \<lparr>lec_cle = t, lec_conn = k, lec_peerid = peerid, lec_tun = tun, lec_dp = dp, lec_dls = lec_new_dls env tunitf\<rparr>
                in hbind (lec_start_routing env x lec dl) (\<lambda>dls.
                   let cl = dl_cles dl t
                   in Inr (dl\<lparr>dl_lecs := (dl_lecs dl)(x \<mapsto> lec\<lparr>lec_dls := dls\<rparr>),
                        dl_cles := (dl_cles dl)(t := cl\<lparr>cl_num_connections := cl_num_connections cl + 1,
                          cl_connections := cl_connections cl @ [x]\<rparr>)\<rparr>)))"

definition cle_add_peer :: "listen_conn_env \<Rightarrow> nat \<Rightarrow> nat \<Rightarrow> bytes \<Rightarrow> dvpn_listen \<Rightarrow> dvpn_listen handled" where
  "cle_add_peer env t k peerid dl =
     (let ve = xe_ve env; cle = cl_conf (dl_cles dl t)
      in if cle_peer_type cle = CONF_PEER_TYPE_DBONLY then Inr dl
         else on_dv (\<lambda>dv. dv_mylsa (mylsa_add_peer (ve_signer ve) (ve_now ve dv) (ve_malloc ve dv) peerid (cle_peer_type cle)
                (conn_cost (cle_cost cle) (tconn_listen_entry_get_rtt (xe_rtt env k)))) dv) dl)"

text \<open>An entry that has as many connections as it may have loses the last one of its list.\<close>

definition cle_make_room :: "'s gnutls \<Rightarrow> listen_conn_env \<Rightarrow> nat \<Rightarrow> 's listen_state \<Rightarrow> 's listen_state handled" where
  "cle_make_room gt env t ls =
     (let cl = dl_cles (ls_user ls) t
      in if cle_conn_limit (cl_conf cl) \<noteq> cl_num_connections cl then Inr ls
         else if cl_connections cl = [] then Inl Dangling
         else lec_destroy gt env (last (cl_connections cl)) True ls)"

definition cle_new_conn ::
  "'s gnutls \<Rightarrow> listen_conn_env \<Rightarrow> nat \<Rightarrow> nat \<Rightarrow> bytes \<Rightarrow> 's listen_state \<Rightarrow> (nat option \<times> 's listen_state) handled" where
  "cle_new_conn gt env t k peerid ls =
     (let dl = ls_user ls
      in if dp_find (dv_peers (dl_dv dl)) (v6_global_addr_from_key_id peerid) \<noteq> None then Inr (None, ls)
      else case xe_calloc env dl of
        None \<Rightarrow> Inr (None, ls)
      | Some x \<Rightarrow>
          let tun = \<lparr>ti_itfname = Some (cle_tunitf (cl_conf (dl_cles dl t))), ti_fd = 0, ti_registered = False, ti_name = []\<rparr>;
              (ret, tun, calls) = tun_interface_register (ve_itf (xe_ve env)) tun (dv_calls (dl_dv dl));
              ls = ls_upd (dl_upd (\<lambda>dv. dv\<lparr>dv_calls := calls\<rparr>)) ls
          in if ret < 0 then Inr (None, ls)
             else hbind (cle_make_room gt env t ls) (\<lambda>ls.
                  hbind (on_user (cle_add_peer env t k peerid) ls) (\<lambda>ls.
                  hbind (on_user (cle_setup_conn env t k x peerid tun) ls) (\<lambda>ls. Inr (Some x, ls)))))"

definition lec_record_received :: "nat option \<Rightarrow> bytes \<Rightarrow> 's listen_state \<Rightarrow> 's listen_state handled" where
  "lec_record_received xo r ls =
     (if length r \<le> 3 then Inr ls
      else if r ! 0 \<noteq> 0x00 then Inr ls
      else let rlen = 256 * unat (r ! 1) + unat (r ! 2)
      in if rlen + 3 \<noteq> length r then Inr ls
      else case xo of
             None \<Rightarrow> Inl (Called Null_deref)
           | Some x \<Rightarrow> hbind (deref (dl_lecs (ls_user ls) x)) (\<lambda>lec.
               Inr (ls_upd (dl_upd (\<lambda>dv. dv\<lparr>dv_calls := tun_interface_send_packet (lec_tun lec) (take rlen (drop 3 r)) (dv_calls dv)\<rparr>)) ls)))"

definition lec_disconnect :: "'s gnutls \<Rightarrow> listen_conn_env \<Rightarrow> nat option \<Rightarrow> 's listen_state \<Rightarrow> 's listen_state handled" where
  "lec_disconnect gt env xo ls = (case xo of None \<Rightarrow> Inl (Called Null_deref) | Some x \<Rightarrow> lec_destroy gt env x False ls)"

definition lec_ops :: "'s gnutls \<Rightarrow> listen_conn_env \<Rightarrow> ('s, dvpn_listen) listen_user_ops" where
  "lec_ops gt env = \<lparr>lu_new_conn = cle_new_conn gt env, lu_record_received = lec_record_received,
     lu_disconnect = lec_disconnect gt env\<rparr>"

subsection \<open>The configuration\<close>

definition conf_tle :: "nat \<Rightarrow> conf_listen_entry \<Rightarrow> tconn_listen_entry" where
  "conf_tle t cle = \<lparr>tle_ptr = t, tle_name = cle_name cle, tle_fp_type = cle_fp_type cle, tle_fingerprint = cle_fingerprint cle\<rparr>"

text \<open>The return value of \<^verbatim>\<open>tconn_listen_entry_register\<close> is not used.\<close>

definition start_conf_listen_entry :: "nat \<Rightarrow> 's listen_state \<Rightarrow> 's listen_state handled" where
  "start_conf_listen_entry t ls =
     (let cl = dl_cles (ls_user ls) t; tle = conf_tle t (cl_conf cl); cl = cl\<lparr>cl_registered := True, cl_tle := tle\<rparr>
      in hbind (tconn_listen_entry_register tle ls) (\<lambda>(_, ls).
         Inr (ls_upd (\<lambda>dl. dl\<lparr>dl_cles := (dl_cles dl)(t := cl\<lparr>cl_num_connections := 0, cl_connections := []\<rparr>)\<rparr>) ls)))"

definition stop_conf_listen_entry :: "'s gnutls \<Rightarrow> listen_conn_env \<Rightarrow> nat \<Rightarrow> 's listen_state \<Rightarrow> 's listen_state handled" where
  "stop_conf_listen_entry gt env t ls =
     (let ls = ls_upd (\<lambda>dl. dl\<lparr>dl_cles := (dl_cles dl)(t := (dl_cles dl t)\<lparr>cl_registered := False\<rparr>)\<rparr>) ls;
          cl = dl_cles (ls_user ls) t
      in hbind (hfold (\<lambda>x. lec_destroy gt env x True) (cl_connections cl) ls)
           (tconn_listen_entry_unregister gt (lec_ops gt env) (cl_tle cl)))"

text \<open>\<open>ts\<close> are the entries of the socket.  The new value of \<^verbatim>\<open>registered\<close> is returned, too.\<close>

definition start_conf_listening_socket ::
  "tl_socket_env \<Rightarrow> sockaddr_in6 \<Rightarrow> nat list \<Rightarrow> 's listen_state \<Rightarrow> (bool \<times> 's listen_state) handled" where
  "start_conf_listening_socket env address ts ls =
     (let (ret, ls) = tconn_listen_socket_register env address ls
      in if ret \<noteq> 0 then Inr (False, ls)
         else hbind (hfold start_conf_listen_entry ts ls) (\<lambda>ls. Inr (True, ls)))"

definition stop_conf_listening_socket ::
  "'s gnutls \<Rightarrow> listen_conn_env \<Rightarrow> nat list \<Rightarrow> 's listen_state \<Rightarrow> (bool \<times> 's listen_state) handled" where
  "stop_conf_listening_socket gt env ts ls =
     hbind (hfold (\<lambda>t ls. if cl_registered (dl_cles (ls_user ls) t) then stop_conf_listen_entry gt env t ls else Inr ls) ts ls) (\<lambda>ls.
     hbind (tconn_listen_socket_unregister gt (lec_ops gt env) ls) (\<lambda>ls. Inr (False, ls)))"

end
