(* ===== verification/Dvpn_Listen_Safe.thy ===== *)
theory Dvpn_Listen_Safe
  imports Dvpn_Listen
begin

text \<open>
  The invariant of the accepted connections, and that everything that happens keeps it: \<open>lec_ops\<close> keeps
  the contract \<open>listen_user\<close> of Tconn_Listen_Safe.
\<close>

section \<open>The invariant\<close>

text \<open>The listening socket of the routing protocol of the connection at \<open>x\<close>.\<close>

definition lec_dls_ok :: "nat \<Rightarrow> session dgp_listen_socket \<Rightarrow> bool" where
  "lec_dls_ok x dls \<longleftrightarrow> dls_inv se_reading se_writing {} dls \<and> dls_registered dls \<and> dls_listen_entries dls = [x] \<and>
     dls_readonly_conns dls = [] \<and> \<not> dls_permit_readonly dls"

definition lec_ok :: "nat \<Rightarrow> listen_entry_conn \<Rightarrow> dvpn_listen \<Rightarrow> bool" where
  "lec_ok x lec dl \<longleftrightarrow> ti_registered (lec_tun lec) \<and> lec_dp lec \<in> set (dv_peers (dl_dv dl)) \<and> lec_dls_ok x (lec_dls lec) \<and>
     x \<in> set (cl_connections (dl_cles dl (lec_cle lec)))"

text \<open>No entry has more connections than it may have.\<close>

definition cle_ok :: "nat \<Rightarrow> dvpn_listen \<Rightarrow> bool" where
  "cle_ok t dl \<longleftrightarrow> (let cl = dl_cles dl t in
     distinct (cl_connections cl) \<and> cl_num_connections cl = int (length (cl_connections cl)) \<and> 1 \<le> cle_conn_limit (cl_conf cl) \<and>
     cl_num_connections cl \<le> cle_conn_limit (cl_conf cl) \<and>
     (\<forall>x \<in> set (cl_connections cl). \<exists>lec. dl_lecs dl x = Some lec \<and> lec_cle lec = t))"

text \<open>An entry is registered when it is one of the socket, \<open>E\<close>.\<close>

definition cles_registered :: "tconn_listen_entry list \<Rightarrow> (nat \<Rightarrow> listen_entry_state) \<Rightarrow> bool" where
  "cles_registered E cles \<longleftrightarrow> (\<forall>t. cl_registered (cles t) \<longrightarrow> cl_tle (cles t) \<in> set E \<and> tle_ptr (cl_tle (cles t)) = t) \<and>
     (\<forall>e \<in> set E. cl_registered (cles (tle_ptr e)) \<and> cl_tle (cles (tle_ptr e)) = e)"

text \<open>The answers of the system: \<^verbatim>\<open>calloc\<close> returns no address in use, and the calls that make a listening socket work.\<close>

definition listen_works :: "listen_env \<Rightarrow> bool" where
  "listen_works env \<longleftrightarrow> 0 \<le> le_socket env \<and> le_reuseaddr env \<and> le_freebind env \<and> le_bind env \<and> le_listen env"

definition xe_ok :: "listen_conn_env \<Rightarrow> bool" where
  "xe_ok env \<longleftrightarrow> (\<forall>dl x. xe_calloc env dl = Some x \<longrightarrow> dl_lecs dl x = None) \<and> (\<forall>dl. listen_works (xe_listen env dl))"

definition lec_inv :: "listen_conn_env \<Rightarrow> tconn_listen_entry list \<Rightarrow> (nat \<Rightarrow> (nat \<times> nat) option) \<Rightarrow> dvpn_listen \<Rightarrow> bool" where
  "lec_inv env E C dl \<longleftrightarrow> xe_ok env \<and> dps_ok (dv_peers (dl_dv dl)) \<and> cles_registered E (dl_cles dl) \<and> (\<forall>t. cle_ok t dl) \<and>
     (\<forall>x lec. dl_lecs dl x = Some lec \<longrightarrow> C (lec_conn lec) = Some (lec_cle lec, x) \<and> lec_ok x lec dl) \<and>
     (\<forall>k t x. C k = Some (t, x) \<longrightarrow> (\<exists>lec. dl_lecs dl x = Some lec \<and> lec_conn lec = k)) \<and>
     (\<forall>x y a b. dl_lecs dl x = Some a \<longrightarrow> dl_lecs dl y = Some b \<longrightarrow> lec_dp a = lec_dp b \<longrightarrow> x = y)"

lemma lec_invD:
  assumes "lec_inv env E C dl" "dl_lecs dl x = Some lec"
  shows "C (lec_conn lec) = Some (lec_cle lec, x)" "lec_ok x lec dl"
    "\<And>y b. dl_lecs dl y = Some b \<Longrightarrow> lec_dp lec = lec_dp b \<Longrightarrow> x = y"
  using assms unfolding lec_inv_def by blast+

lemma lec_invC:
  assumes "lec_inv env E C dl" "C k = Some (t, x)"
  obtains lec where "dl_lecs dl x = Some lec" "lec_conn lec = k" "lec_cle lec = t"
proof -
  obtain lec where l: "dl_lecs dl x = Some lec" "lec_conn lec = k" using assms unfolding lec_inv_def by blast
  from lec_invD(1) [OF assms(1) l(1)] l(2) assms(2) have "lec_cle lec = t" by simp
  with l that show thesis by blast
qed

lemma lec_inv_cle: "lec_inv env E C dl \<Longrightarrow> cle_ok t dl"
  by (simp add: lec_inv_def)

lemma lec_inv_dps: "lec_inv env E C dl \<Longrightarrow> dps_ok (dv_peers (dl_dv dl))"
  unfolding lec_inv_def by blast

lemma lec_inv_peer: "lec_inv env E C dl \<Longrightarrow> dl_lecs dl x = Some lec \<Longrightarrow> lec_dp lec \<in> set (dv_peers (dl_dv dl))"
  using lec_invD(2) by (fastforce simp: lec_ok_def)

section \<open>What the rest of the program does\<close>

text \<open>
  The rest of the program, the routing protocol of the connections included, changes the base, the node's own LSA and
  other direct peers; the sockets of the routing protocol stay in order.
\<close>

definition lecs_rest :: "(nat \<Rightarrow> listen_entry_conn option) \<Rightarrow> (nat \<Rightarrow> listen_entry_conn option) \<Rightarrow> bool" where
  "lecs_rest a b \<longleftrightarrow> (\<forall>x. case a x of
       None \<Rightarrow> b x = None
     | Some lec \<Rightarrow> \<exists>dls. b x = Some (lec\<lparr>lec_dls := dls\<rparr>) \<and> (lec_dls_ok x (lec_dls lec) \<longrightarrow> lec_dls_ok x dls))"

definition dl_rest :: "dvpn_listen \<Rightarrow> dvpn_listen \<Rightarrow> bool" where
  "dl_rest dl dl' \<longleftrightarrow> dl_cles dl' = dl_cles dl \<and> dps_ok (dv_peers (dl_dv dl')) \<and> lecs_rest (dl_lecs dl) (dl_lecs dl') \<and>
     (\<forall>x lec. dl_lecs dl x = Some lec \<longrightarrow> lec_dp lec \<in> set (dv_peers (dl_dv dl')))"

lemma lecs_rest_refl [simp]: "lecs_rest a a"
proof -
  have "\<exists>dls. lec = lec\<lparr>lec_dls := dls\<rparr> \<and> (lec_dls_ok x (lec_dls lec) \<longrightarrow> lec_dls_ok x dls)" for lec x
    by (intro exI [of _ "lec_dls lec"]) simp
  then show ?thesis by (auto simp: lecs_rest_def split: option.split)
qed

lemma lecs_restD:
  assumes "lecs_rest a b" "b x = Some lec'"
  obtains lec dls where "a x = Some lec" "lec' = lec\<lparr>lec_dls := dls\<rparr>" "lec_dls_ok x (lec_dls lec) \<Longrightarrow> lec_dls_ok x dls"
  using assms unfolding lecs_rest_def by (cases "a x"; fastforce dest: spec [of _ x])

lemma lecs_restI:
  assumes "lecs_rest a b" "a x = Some lec"
  obtains dls where "b x = Some (lec\<lparr>lec_dls := dls\<rparr>)"
  using assms unfolding lecs_rest_def by (fastforce dest: spec [of _ x])

lemma lecs_rest_trans: "lecs_rest a b \<Longrightarrow> lecs_rest b c \<Longrightarrow> lecs_rest a c"
  unfolding lecs_rest_def
proof
  fix x
  assume "\<forall>x. case a x of None \<Rightarrow> b x = None
     | Some lec \<Rightarrow> \<exists>dls. b x = Some (lec\<lparr>lec_dls := dls\<rparr>) \<and> (lec_dls_ok x (lec_dls lec) \<longrightarrow> lec_dls_ok x dls)"
    "\<forall>x. case b x of None \<Rightarrow> c x = None
     | Some lec \<Rightarrow> \<exists>dls. c x = Some (lec\<lparr>lec_dls := dls\<rparr>) \<and> (lec_dls_ok x (lec_dls lec) \<longrightarrow> lec_dls_ok x dls)"
  note r = this [THEN spec [of _ x]]
  show "case a x of None \<Rightarrow> c x = None
     | Some lec \<Rightarrow> \<exists>dls. c x = Some (lec\<lparr>lec_dls := dls\<rparr>) \<and> (lec_dls_ok x (lec_dls lec) \<longrightarrow> lec_dls_ok x dls)"
    using r by (cases "a x") auto
qed

lemma lecs_rest_delete: "lecs_rest a b \<Longrightarrow> lecs_rest (a(x := None)) (b(x := None))"
  unfolding lecs_rest_def
proof
  fix y
  assume "\<forall>x. case a x of None \<Rightarrow> b x = None
     | Some lec \<Rightarrow> \<exists>dls. b x = Some (lec\<lparr>lec_dls := dls\<rparr>) \<and> (lec_dls_ok x (lec_dls lec) \<longrightarrow> lec_dls_ok x dls)"
  note r = this [THEN spec [of _ y]]
  show "case (a(x := None)) y of None \<Rightarrow> (b(x := None)) y = None
     | Some lec \<Rightarrow> \<exists>dls. (b(x := None)) y = Some (lec\<lparr>lec_dls := dls\<rparr>) \<and> (lec_dls_ok y (lec_dls lec) \<longrightarrow> lec_dls_ok y dls)"
    using r by (cases "y = x"; cases "a y") simp_all
qed

lemma rest_inv:
  assumes "lec_inv env E C dl" "dl_rest dl dl'"
  shows "lec_inv env E C dl'"
proof -
  note r = assms(2) [unfolded dl_rest_def]
  have rest: "lecs_rest (dl_lecs dl) (dl_lecs dl')" and cles: "dl_cles dl' = dl_cles dl" using r by blast+
  have old: "\<exists>lec dls. dl_lecs dl x = Some lec \<and> lec' = lec\<lparr>lec_dls := dls\<rparr> \<and> (lec_dls_ok x (lec_dls lec) \<longrightarrow> lec_dls_ok x dls)"
    if "dl_lecs dl' x = Some lec'" for x lec'
    using lecs_restD [OF rest that] by metis
  have new: "\<exists>dls. dl_lecs dl' x = Some (lec\<lparr>lec_dls := dls\<rparr>)" if "dl_lecs dl x = Some lec" for x lec
    using lecs_restI [OF rest that] by metis
  have "cle_ok t dl'" for t
  proof -
    have "\<exists>lec'. dl_lecs dl' x = Some lec' \<and> lec_cle lec' = t" if "dl_lecs dl x = Some lec" "lec_cle lec = t" for x lec
      using new [OF that(1)] that(2) by auto
    then show ?thesis using lec_inv_cle [OF assms(1), of t] unfolding cle_ok_def cles Let_def by blast
  qed
  moreover have "C (lec_conn lec') = Some (lec_cle lec', x) \<and> lec_ok x lec' dl'" if l: "dl_lecs dl' x = Some lec'" for x lec'
  proof -
    obtain lec dls where o: "dl_lecs dl x = Some lec" "lec' = lec\<lparr>lec_dls := dls\<rparr>" "lec_dls_ok x (lec_dls lec) \<longrightarrow> lec_dls_ok x dls"
      using old [OF l] by blast
    show ?thesis using lec_invD(1,2) [OF assms(1) o(1)] o r by (auto simp: lec_ok_def)
  qed
  moreover have "\<exists>lec'. dl_lecs dl' x = Some lec' \<and> lec_conn lec' = k" if c: "C k = Some (t, x)" for k t x
  proof -
    obtain lec where "dl_lecs dl x = Some lec" "lec_conn lec = k" using lec_invC [OF assms(1) c] by blast
    then show ?thesis using new [of x lec] by auto
  qed
  moreover have "x = y" if l: "dl_lecs dl' x = Some a" "dl_lecs dl' y = Some b" "lec_dp a = lec_dp b" for x y a b
  proof -
    obtain a0 b0 where "dl_lecs dl x = Some a0" "lec_dp a = lec_dp a0" "dl_lecs dl y = Some b0" "lec_dp b = lec_dp b0"
      using old [OF l(1)] old [OF l(2)] by auto
    then show ?thesis using lec_invD(3) [OF assms(1)] l(3) by metis
  qed
  moreover have "dps_ok (dv_peers (dl_dv dl'))" using r by blast
  ultimately show ?thesis using assms(1) cles unfolding lec_inv_def by metis
qed

section \<open>The sessions\<close>

lemma move_up_state [simp]: "se_reading (move_up gone s) = se_reading s" "se_writing (move_up gone s) = se_writing s"
  by (simp_all add: move_up_def se_reading_def se_writing_def)

definition dls_map :: "(session \<Rightarrow> session) \<Rightarrow> session dgp_listen_socket \<Rightarrow> session dgp_listen_socket" where
  "dls_map f dls = dls\<lparr>dls_conns := (\<lambda>c. map_option (\<lambda>cn. cn\<lparr>cn_session := f (cn_session cn)\<rparr>) (dls_conns dls c))\<rparr>"

lemma dls_load_map: "dls_load dv = dls_map (\<lambda>s. s\<lparr>se_rib := dv_rib dv, se_rc := dv_rc dv\<rparr>)"
  by (simp add: dls_load_def dls_map_def fun_eq_iff)

lemma lec_move_up_map: "lec_move_up gone lec = lec\<lparr>lec_dls := dls_map (move_up gone) (lec_dls lec)\<rparr>"
proof -
  have "conn_move_up gone = (\<lambda>cn. cn\<lparr>cn_session := move_up gone (cn_session cn)\<rparr>)" by (simp add: conn_move_up_def fun_eq_iff)
  then show ?thesis by (simp add: lec_move_up_def dls_map_def)
qed

lemma dls_map_inv:
  assumes "\<And>s. se_reading (f s) = se_reading s" "\<And>s. se_writing (f s) = se_writing s" "dls_inv se_reading se_writing X dls"
  shows "dls_inv se_reading se_writing X (dls_map f dls)"
proof -
  have L: "dls_links se_reading se_writing dls" and F: "dls_fds X dls" using assms(3) by (simp_all add: dls_inv_def)
  have conn: "\<exists>cn. dls_conns dls c = Some cn \<and> cn' = cn\<lparr>cn_session := f (cn_session cn)\<rparr>" if "dls_conns (dls_map f dls) c = Some cn'" for c cn'
    using that by (auto simp: dls_map_def)
  have same: "conn_linked (dls_map f dls) c (cn\<lparr>cn_session := s\<rparr>) = conn_linked dls c cn" for c cn s
    by (simp add: conn_linked_def dls_map_def split: option.split)
  have "dls_links se_reading se_writing (dls_map f dls)"
    unfolding dls_links_def
  proof (intro conjI allI impI)
    fix c cn' assume "dls_conns (dls_map f dls) c = Some cn'"
    from conn [OF this] obtain cn where cn: "dls_conns dls c = Some cn" "cn' = cn\<lparr>cn_session := f (cn_session cn)\<rparr>" by blast
    have "conn_linked dls c cn \<and> cn_registered cn \<and> se_reading (cn_session cn) \<and> se_writing (cn_session cn)"
      using L cn(1) unfolding dls_links_def by blast
    then show "conn_linked (dls_map f dls) c cn'" "cn_registered cn'" "se_reading (cn_session cn')" "se_writing (cn_session cn')"
      using assms(1,2) by (simp_all add: cn(2) same)
  qed (use L in \<open>fastforce simp: dls_links_def dls_map_def\<close>)+
  moreover have "dls_fds X (dls_map f dls)"
  proof -
    have "conn_fds (dls_map f dls) = conn_fds dls"
    proof (rule set_eqI)
      fix fd
      have "(\<exists>c k. dls_conns (dls_map f dls) c = Some k \<and> cn_fd k = fd) \<longleftrightarrow> (\<exists>c k. dls_conns dls c = Some k \<and> cn_fd k = fd)"
        unfolding dls_map_def by fastforce
      then show "fd \<in> conn_fds (dls_map f dls) \<longleftrightarrow> fd \<in> conn_fds dls" by (simp add: conn_fds_def)
    qed
    moreover have "listen_fds (dls_map f dls) = listen_fds dls" "dls_calls (dls_map f dls) = dls_calls dls"
      by (simp_all add: listen_fds_def dls_map_def)
    moreover have "c = c'" if k: "dls_conns (dls_map f dls) c = Some k" "dls_conns (dls_map f dls) c' = Some k'" "cn_fd k = cn_fd k'" for c c' k k'
    proof -
      obtain a b where ab: "dls_conns dls c = Some a" "dls_conns dls c' = Some b" "cn_fd k = cn_fd a" "cn_fd k' = cn_fd b"
        using conn [OF k(1)] conn [OF k(2)] by auto
      have "\<forall>c c' k k'. dls_conns dls c = Some k \<longrightarrow> dls_conns dls c' = Some k' \<longrightarrow> cn_fd k = cn_fd k' \<longrightarrow> c = c'"
        using F unfolding dls_fds_def by (rule conjunct1)
      then show ?thesis using ab k(3) by metis
    qed
    ultimately show ?thesis using dls_fdsD [OF F] unfolding dls_fds_def by metis
  qed
  ultimately show ?thesis by (simp add: dls_inv_def)
qed

lemma dls_map_ok:
  "(\<And>s. se_reading (f s) = se_reading s) \<Longrightarrow> (\<And>s. se_writing (f s) = se_writing s) \<Longrightarrow> lec_dls_ok x dls \<Longrightarrow> lec_dls_ok x (dls_map f dls)"
  using dls_map_inv [of f "{}" dls] by (auto simp: lec_dls_ok_def) (simp_all add: dls_map_def)

lemma session_ended_safe:
  assumes "se_reading s" "se_writing s"
  shows "safe (\<lambda>_. True) (session_ended (se_ops senv) s)"
  unfolding session_ended_def
proof (rule safe_bind [OF se.writer_unregister [OF assms(2)]])
  fix s' assume "\<not> se_writing s' \<and> se_reading s' = se_reading s"
  then have "se_reading s'" using assms(1) by simp
  from se.reader_unregister [OF this] show "safe (\<lambda>_. True) (ss_reader_unregister (se_ops senv) s')" by (rule safe_mono) simp
qed

text \<open>Ending the routing protocol of a connection leaves the others in order.\<close>

lemma take_back_rest:
  "lecs_rest (dl_lecs dl) (dl_lecs (dl_take_back old new dl)) \<and> dl_cles (dl_take_back old new dl) = dl_cles dl \<and>
   dv_peers (dl_dv (dl_take_back old new dl)) = dv_peers (dl_dv dl)"
proof -
  have "lecs_rest (dl_lecs dl) (\<lambda>x. map_option (lec_move_up old) (dl_lecs dl x))"
    unfolding lecs_rest_def
  proof
    fix x
    show "case dl_lecs dl x of None \<Rightarrow> map_option (lec_move_up old) (dl_lecs dl x) = None
      | Some lec \<Rightarrow> \<exists>dls. map_option (lec_move_up old) (dl_lecs dl x) = Some (lec\<lparr>lec_dls := dls\<rparr>) \<and>
          (lec_dls_ok x (lec_dls lec) \<longrightarrow> lec_dls_ok x dls)"
    proof (cases "dl_lecs dl x")
      case (Some lec)
      then show ?thesis
        using dls_map_ok [of "move_up old" x "lec_dls lec"] by (auto intro!: exI [of _ "dls_map (move_up old) (lec_dls lec)"] simp: lec_move_up_map)
    qed simp
  qed
  then show ?thesis by (simp add: dl_take_back_def)
qed

lemma stop_routing_safe:
  assumes "lec_dls_ok x (lec_dls lec)"
  shows "safe (\<lambda>dl'. lecs_rest (dl_lecs dl) (dl_lecs dl') \<and> dl_cles dl' = dl_cles dl \<and> dv_peers (dl_dv dl') = dv_peers (dl_dv dl))
    (lec_stop_routing env x lec dl)" (is "safe ?P _")
proof -
  let ?ops = "se_ops (ve_session (xe_ve env))" and ?dls = "dls_load (dl_dv dl) (lec_dls lec)"
  have "lec_dls_ok x ?dls" unfolding dls_load_map
    by (rule dls_map_ok [OF _ _ assms]) (simp_all add: se_reading_def se_writing_def)
  then have inv: "dls_inv se_reading se_writing {} ?dls" and reg: "dls_registered ?dls" and x: "x \<in> set (dls_listen_entries ?dls)"
    by (simp_all add: lec_dls_ok_def)
  have L: "dls_links se_reading se_writing ?dls" using inv by (simp add: dls_inv_def)
  obtain dle where dle: "dls_dles ?dls x = Some dle" using L x unfolding dls_links_def by blast
  have end_session: "safe ?P (case dle_current dle of
                  None \<Rightarrow> Inr dl
                | Some c \<Rightarrow> hbind (deref (dls_conns ?dls c)) (\<lambda>cn.
                    hbind (session_ended ?ops (cn_session cn)) (\<lambda>s. Inr (dl_take_back (cn_session cn) s dl))))"
  proof (cases "dle_current dle")
    case (Some c)
    then obtain cn where cn: "dls_conns ?dls c = Some cn" using L x dle unfolding dls_links_def by blast
    then have "se_reading (cn_session cn)" "se_writing (cn_session cn)" using L unfolding dls_links_def by blast+
    from session_ended_safe [OF this] have "safe ?P (hbind (session_ended ?ops (cn_session cn)) (\<lambda>s. Inr (dl_take_back (cn_session cn) s dl)))"
      by (rule safe_bind) (simp add: take_back_rest)
    then show ?thesis using Some cn by simp
  qed simp
  have close: "safe (\<lambda>_. True) (hbind (dgp_listen_entry_unregister ?ops x ?dls) (dgp_listen_socket_unregister ?ops))"
  proof (rule safe_bind [OF se.entry_unregister_inv [OF inv x]])
    fix dls assume "dls_inv se_reading se_writing {} dls \<and> dls_listen_entries dls = remove1 x (dls_listen_entries ?dls) \<and>
      dls_registered dls = dls_registered ?dls"
    then have "dls_inv se_reading se_writing {} dls" "dls_registered dls" using reg by simp_all
    from se.socket_unregister_inv [OF this] show "safe (\<lambda>_. True) (dgp_listen_socket_unregister ?ops dls)" by (rule safe_mono) simp
  qed
  have "lec_stop_routing env x lec dl = hbind (case dle_current dle of
                  None \<Rightarrow> Inr dl
                | Some c \<Rightarrow> hbind (deref (dls_conns ?dls c)) (\<lambda>cn.
                    hbind (session_ended ?ops (cn_session cn)) (\<lambda>s. Inr (dl_take_back (cn_session cn) s dl))))
      (\<lambda>dl'. hbind (hbind (dgp_listen_entry_unregister ?ops x ?dls) (dgp_listen_socket_unregister ?ops)) (\<lambda>_. Inr dl'))"
    using dle by (simp add: lec_stop_routing_def Let_def hbind_assoc)
  moreover have "safe ?P \<dots>"
  proof (rule safe_bind [OF end_session])
    fix dl' assume p: "?P dl'"
    show "safe ?P (hbind (hbind (dgp_listen_entry_unregister ?ops x ?dls) (dgp_listen_socket_unregister ?ops)) (\<lambda>_. Inr dl'))"
      by (rule safe_bind [OF close]) (simp add: p)
  qed
  ultimately show ?thesis by simp
qed

section \<open>A connection goes\<close>

text \<open>What \<^verbatim>\<open>lec_destroy\<close> takes away.\<close>

definition lec_gone :: "nat \<Rightarrow> listen_entry_conn \<Rightarrow> dvpn_listen \<Rightarrow> dvpn_listen" where
  "lec_gone x lec dl = (let t = lec_cle lec; cl = dl_cles dl t in
     dl\<lparr>dl_dv := (dl_dv dl)\<lparr>dv_peers := avl_delete compare_direct_peers (lec_dp lec) (dv_peers (dl_dv dl))\<rparr>,
        dl_cles := (dl_cles dl)(t := cl\<lparr>cl_connections := remove1 x (cl_connections cl), cl_num_connections := cl_num_connections cl - 1\<rparr>),
        dl_lecs := (dl_lecs dl)(x := None)\<rparr>)"

lemma lec_gone_simps [simp]:
  "dl_lecs (lec_gone x lec dl) = (dl_lecs dl)(x := None)"
  "dv_peers (dl_dv (lec_gone x lec dl)) = avl_delete compare_direct_peers (lec_dp lec) (dv_peers (dl_dv dl))"
  "dl_cles (lec_gone x lec dl) = (dl_cles dl)(lec_cle lec := (dl_cles dl (lec_cle lec))\<lparr>
     cl_connections := remove1 x (cl_connections (dl_cles dl (lec_cle lec))), cl_num_connections := cl_num_connections (dl_cles dl (lec_cle lec)) - 1\<rparr>)"
  by (simp_all add: lec_gone_def Let_def)

lemma delete_peer:
  assumes "dps_ok peers" "dp \<in> set peers"
  shows "dps_ok (avl_delete compare_direct_peers dp peers)" "set (avl_delete compare_direct_peers dp peers) = set peers - {dp}"
proof -
  have ok: "avl_ordered compare_direct_peers peers" "list_all (\<lambda>dp. length (dp_addr dp) = 16) (dp # peers)"
    using assms by (auto simp: dps_ok_def list_all_iff)
  then show "dps_ok (avl_delete compare_direct_peers dp peers)"
    using avl_delete_set [of compare_direct_peers dp peers] avl_delete_ordered by (auto simp: dps_ok_def list_all_iff)
  have "set (avl_delete compare_direct_peers dp peers) = {y \<in> set peers. compare_direct_peers dp y \<noteq> 0}"
    by (rule dps.delete_set [OF ok])
  also have "\<dots> = set peers - {dp}"
    using dps.ordered_distinct_keys [of peers dp] assms ok dp_compare_refl by auto
  finally show "set (avl_delete compare_direct_peers dp peers) = set peers - {dp}" .
qed

lemma gone_cle_ok:
  assumes "lec_inv env E C dl" "dl_lecs dl x = Some lec"
  shows "cle_ok t (lec_gone x lec dl)"
proof -
  have t: "cle_ok t dl" by (rule lec_inv_cle [OF assms(1)])
  have member: "\<exists>a. ((dl_lecs dl)(x := None)) y = Some a \<and> lec_cle a = t" if "y \<in> set (cl_connections (dl_cles dl t))" "y \<noteq> x" for y
    using t that unfolding cle_ok_def Let_def by simp
  show ?thesis
  proof (cases "t = lec_cle lec")
    case True
    have x: "x \<in> set (cl_connections (dl_cles dl t))" using lec_invD(2) [OF assms] True by (simp add: lec_ok_def)
    have d: "distinct (cl_connections (dl_cles dl t))" "cl_num_connections (dl_cles dl t) = int (length (cl_connections (dl_cles dl t)))"
      "1 \<le> cle_conn_limit (cl_conf (dl_cles dl t))" "cl_num_connections (dl_cles dl t) \<le> cle_conn_limit (cl_conf (dl_cles dl t))"
      using t by (simp_all add: cle_ok_def Let_def)
    have n: "int (length (remove1 x (cl_connections (dl_cles dl t)))) = int (length (cl_connections (dl_cles dl t))) - 1"
    proof -
      have "length (remove1 x (cl_connections (dl_cles dl t))) = length (cl_connections (dl_cles dl t)) - 1" using x by (simp add: length_remove1)
      moreover have "0 < length (cl_connections (dl_cles dl t))" using x by (rule length_pos_if_in_set)
      ultimately show ?thesis by linarith
    qed
    have m: "\<exists>a. ((dl_lecs dl)(x := None)) y = Some a \<and> lec_cle a = t" if "y \<in> set (remove1 x (cl_connections (dl_cles dl t)))" for y
      using member [of y] that d(1) by simp
    show ?thesis using d n m True by (auto simp: cle_ok_def Let_def distinct_remove1)
  next
    case False
    have "x \<notin> set (cl_connections (dl_cles dl t))"
      using t assms(2) False unfolding cle_ok_def Let_def by auto
    then have m: "\<exists>a. ((dl_lecs dl)(x := None)) y = Some a \<and> lec_cle a = t" if "y \<in> set (cl_connections (dl_cles dl t))" for y
      using member [OF that] that by blast
    show ?thesis using t False m by (simp add: cle_ok_def Let_def)
  qed
qed

lemma gone_inv:
  assumes "lec_inv env E C dl" "dl_lecs dl x = Some lec"
  shows "lec_inv env E (C(lec_conn lec := None)) (lec_gone x lec dl)"
proof -
  note l = lec_invD [OF assms]
  have dps: "dps_ok (dv_peers (dl_dv dl))" and dp: "lec_dp lec \<in> set (dv_peers (dl_dv dl))" using lec_inv_dps [OF assms(1)] lec_inv_peer [OF assms] by simp_all
  note del = delete_peer [OF dps dp]
  have reg: "cles_registered E (dl_cles (lec_gone x lec dl))"
    using assms(1) by (auto simp: lec_inv_def cles_registered_def)
  have lecs: "C (lec_conn a) = Some (lec_cle a, y) \<and> lec_ok y a (lec_gone x lec dl) \<and> lec_conn a \<noteq> lec_conn lec"
    if a: "dl_lecs dl y = Some a" "y \<noteq> x" for y a
  proof -
    note la = lec_invD [OF assms(1) a(1)]
    have "lec_dp a \<noteq> lec_dp lec" using l(3) [OF a(1)] a(2) by auto
    moreover have "y \<in> set (cl_connections (dl_cles (lec_gone x lec dl) (lec_cle a)))" using la(2) a(2) by (auto simp: lec_ok_def)
    ultimately have "lec_ok y a (lec_gone x lec dl)" using la(2) del(2) by (simp add: lec_ok_def)
    moreover have "lec_conn a \<noteq> lec_conn lec" using la(1) l(1) a(2) by auto
    ultimately show ?thesis using la(1) by simp
  qed
  have conns: "\<exists>a. ((dl_lecs dl)(x := None)) y = Some a \<and> lec_conn a = k" if c: "C k = Some (t, y)" "k \<noteq> lec_conn lec" for k t y
  proof -
    obtain a where a: "dl_lecs dl y = Some a" "lec_conn a = k" using lec_invC [OF assms(1) c(1)] by blast
    then show ?thesis using c(2) assms(2) by auto
  qed
  have dist: "y = z" if "dl_lecs dl y = Some a" "dl_lecs dl z = Some b" "lec_dp a = lec_dp b" for y z a b
    using lec_invD(3) [OF assms(1) that(1,2,3)] .
  have "xe_ok env" using assms(1) by (simp add: lec_inv_def)
  moreover have "\<forall>t. cle_ok t (lec_gone x lec dl)" using gone_cle_ok [OF assms] by blast
  moreover have "\<forall>y a. dl_lecs (lec_gone x lec dl) y = Some a \<longrightarrow>
      (C(lec_conn lec := None)) (lec_conn a) = Some (lec_cle a, y) \<and> lec_ok y a (lec_gone x lec dl)"
    using lecs by simp
  moreover have "\<forall>k t y. (C(lec_conn lec := None)) k = Some (t, y) \<longrightarrow> (\<exists>a. dl_lecs (lec_gone x lec dl) y = Some a \<and> lec_conn a = k)"
    using conns by simp
  moreover have "\<forall>y z a b. dl_lecs (lec_gone x lec dl) y = Some a \<longrightarrow> dl_lecs (lec_gone x lec dl) z = Some b \<longrightarrow> lec_dp a = lec_dp b \<longrightarrow> y = z"
    using dist by simp
  moreover have "dps_ok (dv_peers (dl_dv (lec_gone x lec dl)))" using del(1) by simp
  ultimately show ?thesis using reg unfolding lec_inv_def by (intro conjI)
qed

lemma release_safe:
  assumes "ti_registered (lec_tun lec)" "lec_dp lec \<in> set (dv_peers (dl_dv dl))"
  shows "safe (\<lambda>dl'. dl_cles dl' = dl_cles dl \<and> dl_lecs dl' = (dl_lecs dl)(x := None) \<and>
      dv_peers (dl_dv dl') = avl_delete compare_direct_peers (lec_dp lec) (dv_peers (dl_dv dl)))
    (lec_release env x lec dl)"
proof -
  have mylsa: "safe (\<lambda>d. dv_peers d = dv_peers dv1) (dv_mylsa f dv1)" for f dv1
    by (simp add: mylsa_safe)
  show ?thesis
    using assms unfolding lec_release_def
    by (simp add: tun_interface_unregister_def Let_def) (intro impI, rule safe_bind [OF mylsa], simp)
qed

text \<open>\<open>g\<close> is what happens to the TLS connection in between.\<close>

lemma destroy_safe:
  assumes "lec_inv env E C (ls_user ls)" "dl_lecs (ls_user ls) x = Some lec"
    "\<And>u. (if d then tconn_listen_entry_disconnect gt (lec_conn lec) (ls\<lparr>ls_user := u\<rparr>) else Inr (ls\<lparr>ls_user := u\<rparr>)) = Inr (ls0\<lparr>ls_user := u\<rparr>)"
  shows "safe (\<lambda>ls'. \<exists>dl. ls' = ls0\<lparr>ls_user := dl\<rparr> \<and> lec_inv env E (C(lec_conn lec := None)) dl \<and> dl_rest (lec_gone x lec (ls_user ls)) dl \<and>
      dv_peers (dl_dv dl) = dv_peers (dl_dv (lec_gone x lec (ls_user ls))))
    (lec_destroy gt env x d ls)" (is "safe ?P _")
proof -
  let ?dl = "ls_user ls"
  note l = lec_invD [OF assms(1,2)]
  have lec: "lec_dls_ok x (lec_dls lec)" "ti_registered (lec_tun lec)" "lec_dp lec \<in> set (dv_peers (dl_dv ?dl))"
      "x \<in> set (cl_connections (dl_cles ?dl (lec_cle lec)))"
    using l(2) by (simp_all add: lec_ok_def)
  define dl1 where "dl1 = ?dl\<lparr>dl_cles := dl_cles (lec_gone x lec ?dl)\<rparr>"
  have unlink: "lec_unlink x lec ?dl = Inr dl1" using lec(4) by (simp add: lec_unlink_def dl1_def Let_def)
  have gone: "lec_inv env E (C(lec_conn lec := None)) (lec_gone x lec ?dl)" by (rule gone_inv [OF assms(1,2)])
  have "lec_destroy gt env x d ls = hbind (lec_stop_routing env x lec dl1) (\<lambda>dl2.
      hbind (lec_release env x lec dl2) (\<lambda>dl3. Inr (ls0\<lparr>ls_user := dl3\<rparr>)))"
  proof -
    have "on_user (lec_unlink x lec) ls = Inr (ls\<lparr>ls_user := dl1\<rparr>)" using unlink by (simp add: on_user_def)
    moreover have "on_user (lec_stop_routing env x lec) (ls\<lparr>ls_user := dl1\<rparr>) = hbind (lec_stop_routing env x lec dl1) (\<lambda>dl2. Inr (ls\<lparr>ls_user := dl2\<rparr>))"
      by (simp add: on_user_def)
    moreover have "on_user (lec_release env x lec) (ls0\<lparr>ls_user := u\<rparr>) = hbind (lec_release env x lec u) (\<lambda>dl3. Inr (ls0\<lparr>ls_user := dl3\<rparr>))" for u
      by (simp add: on_user_def)
    ultimately show ?thesis using assms(2) unfolding lec_destroy_def by (simp add: hbind_assoc assms(3) del: if_split)
  qed
  moreover have "safe ?P \<dots>"
  proof (rule safe_bind [OF stop_routing_safe [OF lec(1)]])
    fix dl2 :: dvpn_listen
    assume d2: "lecs_rest (dl_lecs dl1) (dl_lecs dl2) \<and> dl_cles dl2 = dl_cles dl1 \<and> dv_peers (dl_dv dl2) = dv_peers (dl_dv dl1)"
    have dp: "lec_dp lec \<in> set (dv_peers (dl_dv dl2))" using d2 lec(3) by (simp add: dl1_def)
    show "safe ?P (hbind (lec_release env x lec dl2) (\<lambda>dl3. Inr (ls0\<lparr>ls_user := dl3\<rparr>)))"
    proof (rule safe_bind [OF release_safe [OF lec(2) dp]])
      fix dl3 :: dvpn_listen
      assume d3: "dl_cles dl3 = dl_cles dl2 \<and> dl_lecs dl3 = (dl_lecs dl2)(x := None) \<and>
        dv_peers (dl_dv dl3) = avl_delete compare_direct_peers (lec_dp lec) (dv_peers (dl_dv dl2))"
      have "lecs_rest ((dl_lecs ?dl)(x := None)) (dl_lecs dl3)" using lecs_rest_delete [of "dl_lecs dl1" "dl_lecs dl2" x] d2 d3 by (simp add: dl1_def)
      moreover have "dv_peers (dl_dv dl3) = dv_peers (dl_dv (lec_gone x lec ?dl))" "dl_cles dl3 = dl_cles (lec_gone x lec ?dl)"
        using d2 d3 by (simp_all add: dl1_def)
      ultimately have "dl_rest (lec_gone x lec ?dl) dl3" "dv_peers (dl_dv dl3) = dv_peers (dl_dv (lec_gone x lec ?dl))"
        using lec_inv_dps [OF gone] lec_inv_peer [OF gone] by (simp_all add: dl_rest_def)
      with rest_inv [OF gone this(1)] show "safe ?P (Inr (ls0\<lparr>ls_user := dl3\<rparr>))" by auto
    qed
  qed
  ultimately show ?thesis by simp
qed

lemma ls_inv_user [simp]: "ls_inv gt V X (ls\<lparr>ls_user := u\<rparr>) \<longleftrightarrow> ls_inv gt V X ls"
proof -
  have "ls_links gt V X (ls\<lparr>ls_user := u\<rparr>) \<longleftrightarrow> ls_links gt V X ls" by (simp add: ls_links_def)
  moreover have "ls_fds (ls\<lparr>ls_user := u\<rparr>) \<longleftrightarrow> ls_fds ls" by (rule ls_fds_cong) simp_all
  ultimately show ?thesis by (simp add: ls_inv_def)
qed

lemma connected_user [simp]: "connected (ls\<lparr>ls_user := u\<rparr>) = connected ls"
  by (rule connected_cong) simp

lemma dropped_of_user: "dropped k cc (ls\<lparr>ls_user := u\<rparr>) = (dropped k cc ls)\<lparr>ls_user := u\<rparr>"
  by (simp add: dropped_def)

lemma connectedD:
  assumes "connected ls k = Some (t, x)"
  obtains cc where "ls_conns ls k = Some cc" "cc_state cc = CC_CONNECTED"
  using assms by (auto simp: connected_def connected_as_def split: option.splits if_splits)

text \<open>A connection is destroyed together with its TLS connection.\<close>

definition user_ok :: "listen_conn_env \<Rightarrow> 's listen_state \<Rightarrow> bool" where
  "user_ok env ls \<longleftrightarrow> lec_inv env (ls_entries ls) (connected ls) (ls_user ls)"

lemma kill_lec:
  assumes "ls_inv gt V X ls" "lec_inv env E (connected ls) (ls_user ls)" "dl_lecs (ls_user ls) x = Some lec"
  shows "\<exists>cc. ls_conns ls (lec_conn lec) = Some cc \<and> connected ls (lec_conn lec) \<noteq> None \<and>
    safe (\<lambda>ls'. \<exists>dl. ls' = (dropped (lec_conn lec) cc ls)\<lparr>ls_user := dl\<rparr> \<and> ls_inv gt V (X - {lec_conn lec}) ls' \<and> lec_inv env E (connected ls') dl \<and>
      dl_rest (lec_gone x lec (ls_user ls)) dl \<and>
      dv_peers (dl_dv dl) = dv_peers (dl_dv (lec_gone x lec (ls_user ls)))) (lec_destroy gt env x True ls)"
proof -
  note l = lec_invD [OF assms(2) assms(3)]
  obtain cc where cc: "ls_conns ls (lec_conn lec) = Some cc" using connectedD [OF l(1)] by blast
  have d: "client_conn_drop gt (lec_conn lec) (ls\<lparr>ls_user := u\<rparr>) = Inr ((dropped (lec_conn lec) cc ls)\<lparr>ls_user := u\<rparr>)" for u
  proof -
    have "ls_inv gt V X (ls\<lparr>ls_user := u\<rparr>)" "ls_conns (ls\<lparr>ls_user := u\<rparr>) (lec_conn lec) = Some cc" using assms(1) cc by simp_all
    from drop_inv [OF this] show ?thesis by (simp add: dropped_of_user)
  qed
  have inv: "ls_inv gt V (X - {lec_conn lec}) (dropped (lec_conn lec) cc ls)" using drop_inv [OF assms(1) cc] by simp
  have "safe (\<lambda>ls'. \<exists>dl. ls' = (dropped (lec_conn lec) cc ls)\<lparr>ls_user := dl\<rparr> \<and> lec_inv env E ((connected ls)(lec_conn lec := None)) dl \<and>
      dl_rest (lec_gone x lec (ls_user ls)) dl \<and>
      dv_peers (dl_dv dl) = dv_peers (dl_dv (lec_gone x lec (ls_user ls)))) (lec_destroy gt env x True ls)"
    by (rule destroy_safe [OF assms(2) assms(3)]) (simp add: d tconn_listen_entry_disconnect_def)
  then have "safe (\<lambda>ls'. \<exists>dl. ls' = (dropped (lec_conn lec) cc ls)\<lparr>ls_user := dl\<rparr> \<and> ls_inv gt V (X - {lec_conn lec}) ls' \<and> lec_inv env E (connected ls') dl \<and>
      dl_rest (lec_gone x lec (ls_user ls)) dl \<and>
      dv_peers (dl_dv dl) = dv_peers (dl_dv (lec_gone x lec (ls_user ls)))) (lec_destroy gt env x True ls)"
    by (rule safe_mono) (auto simp: inv connected_dropped)
  then show ?thesis using cc l(1) by blast
qed

section \<open>A new connection\<close>

lemma lec_inv_dv:
  assumes "lec_inv env E C dl" "dv_peers dv = dv_peers (dl_dv dl)"
  shows "lec_inv env E C (dl\<lparr>dl_dv := dv\<rparr>)"
  by (rule rest_inv [OF assms(1)]) (use assms lec_inv_dps [OF assms(1)] lec_inv_peer [OF assms(1)] in \<open>simp add: dl_rest_def\<close>)

lemma peer_address:
  "length peerid = NODE_ID_LEN \<Longrightarrow> length (v6_global_addr_from_key_id peerid) = 16"
  by (simp add: v6_addr_length NODE_ID_LEN_def)

lemma add_peer:
  assumes "dps_ok peers" "dp_find peers (dp_addr dp) = None" "length (dp_addr dp) = 16"
  obtains peers' where "avl_insert compare_direct_peers dp peers = Some peers'" "dps_ok peers'" "set peers' = insert dp (set peers)" "dp \<notin> set peers"
proof -
  have ok: "avl_ordered compare_direct_peers peers" "list_all (\<lambda>dp. length (dp_addr dp) = 16) (dp # peers)"
    using assms by (auto simp: dps_ok_def)
  have none: "avl_find (compare_direct_peers dp) peers = None" using assms(2) dp_find_eq [of peers dp] by simp
  then obtain peers' where i: "avl_insert compare_direct_peers dp peers = Some peers'"
    using dps.insert_Some_find_None [OF ok] by blast
  moreover have "dps_ok peers'" using dps.insert_ordered [OF ok i] by (simp add: dps_ok_def)
  moreover have "set peers' = insert dp (set peers)" by (rule avl_insert_set [OF i])
  moreover have "dp \<notin> set peers" using none dp_compare_refl by (auto simp: avl_find_None_iff)
  ultimately show thesis by (rule that)
qed

lemma start_routing_ok:
  assumes "listen_works (xe_listen env dl)" "lec_dls lec = lec_new_dls env tunitf"
  shows "\<exists>dls. lec_start_routing env x lec dl = Inr dls \<and> lec_dls_ok x dls"
proof -
  let ?e = "\<lparr>dle_remoteid = lec_peerid lec, dle_current = None\<rparr>"
  obtain ret dls where r: "dgp_listen_socket_register (xe_listen env dl) (lec_dls lec) = (ret, dls)" by fastforce
  have fresh: "dls_fresh (lec_dls lec)" by (simp add: assms(2) lec_new_dls_def dls_fresh_def)
  have ret: "ret = 0" "dls_listen_entries dls = []" "dls_readonly_conns dls = []" "\<not> dls_permit_readonly dls" "dls_dles dls = (\<lambda>_. None)"
    using r assms by (auto simp: dgp_listen_socket_register_def listen_works_def lec_new_dls_def dls_sys_def Let_def split: if_splits)
  have inv: "dls_inv se_reading se_writing {} dls" "dls_registered dls"
    using se.socket_register_inv [OF fresh r] ret(1) by simp_all
  let ?dls = "dls\<lparr>dls_dles := [x \<mapsto> ?e]\<rparr>"
  have "dls_inv se_reading se_writing {} ?dls" using se.set_entry_inv [OF inv(1), of x ?e] ret(2,5) by simp
  then have s: "safe (dls_inv se_reading se_writing {}) (dgp_listen_entry_register x ?dls)"
    by (rule se.entry_register_inv) (use ret(2) in simp_all)
  obtain dls' where "dgp_listen_entry_register x ?dls = Inr dls'" "dls_registered dls'" "dls_listen_entries dls' = [x]"
      "dls_readonly_conns dls' = []" "\<not> dls_permit_readonly dls'"
    using inv(2) ret by (simp add: dgp_listen_entry_register_def set_current_def)
  moreover from this s have "dls_inv se_reading se_writing {} dls'" by simp
  ultimately show ?thesis using r ret(1) by (simp add: lec_start_routing_def lec_dls_ok_def)
qed

definition lec_added :: "nat \<Rightarrow> listen_entry_conn \<Rightarrow> dvpn_listen \<Rightarrow> dvpn_listen" where
  "lec_added x lec dl = (let t = lec_cle lec; cl = dl_cles dl t in
     dl\<lparr>dl_lecs := (dl_lecs dl)(x \<mapsto> lec),
        dl_cles := (dl_cles dl)(t := cl\<lparr>cl_num_connections := cl_num_connections cl + 1, cl_connections := cl_connections cl @ [x]\<rparr>)\<rparr>)"

lemma lec_added_simps [simp]:
  "dl_lecs (lec_added x lec dl) = (dl_lecs dl)(x \<mapsto> lec)" "dl_dv (lec_added x lec dl) = dl_dv dl"
  "dl_cles (lec_added x lec dl) = (dl_cles dl)(lec_cle lec := (dl_cles dl (lec_cle lec))\<lparr>
     cl_num_connections := cl_num_connections (dl_cles dl (lec_cle lec)) + 1, cl_connections := cl_connections (dl_cles dl (lec_cle lec)) @ [x]\<rparr>)"
  by (simp_all add: lec_added_def Let_def)

lemma added_cle_ok:
  assumes "lec_inv env E C dl" "dl_lecs dl x = None"
    "cl_num_connections (dl_cles dl (lec_cle lec)) < cle_conn_limit (cl_conf (dl_cles dl (lec_cle lec)))"
  shows "cle_ok t (lec_added x lec dl)"
proof -
  have t: "cle_ok t dl" by (rule lec_inv_cle [OF assms(1)])
  have d: "distinct (cl_connections (dl_cles dl t))" "cl_num_connections (dl_cles dl t) = int (length (cl_connections (dl_cles dl t)))"
    "1 \<le> cle_conn_limit (cl_conf (dl_cles dl t))" "cl_num_connections (dl_cles dl t) \<le> cle_conn_limit (cl_conf (dl_cles dl t))"
    using t by (simp_all add: cle_ok_def Let_def)
  have m: "\<exists>a. dl_lecs dl y = Some a \<and> lec_cle a = t" if "y \<in> set (cl_connections (dl_cles dl t))" for y
    using t that by (simp add: cle_ok_def Let_def)
  have x: "x \<notin> set (cl_connections (dl_cles dl t))" using m [of x] assms(2) by auto
  have m': "\<exists>a. ((dl_lecs dl)(x \<mapsto> lec)) y = Some a \<and> lec_cle a = t" if "y \<in> set (cl_connections (dl_cles dl t))" for y
    using m [OF that] that x by auto
  show ?thesis
  proof (cases "t = lec_cle lec")
    case True
    then show ?thesis using d m' x assms(3) by (simp add: cle_ok_def Let_def)
  next
    case False
    then show ?thesis using d m' by (simp add: cle_ok_def Let_def)
  qed
qed

lemma lec_added_inv:
  assumes "lec_inv env E C dl" "dl_lecs dl x = None" "C (lec_conn lec) = None"
    "cl_num_connections (dl_cles dl (lec_cle lec)) < cle_conn_limit (cl_conf (dl_cles dl (lec_cle lec)))"
    "ti_registered (lec_tun lec)" "lec_dls_ok x (lec_dls lec)" "lec_dp lec \<notin> set (dv_peers (dl_dv dl))"
    "dps_ok peers" "set peers = insert (lec_dp lec) (set (dv_peers (dl_dv dl)))" "dv_peers dv = peers"
  shows "lec_inv env E (C(lec_conn lec \<mapsto> (lec_cle lec, x))) ((lec_added x lec dl)\<lparr>dl_dv := dv\<rparr>)" (is "lec_inv env E ?C ?dl")
proof -
  have new: "lec_ok x lec ?dl" using assms(5,6,9,10) by (simp add: lec_ok_def)
  have old: "?C (lec_conn a) = Some (lec_cle a, y) \<and> lec_ok y a ?dl" if a: "dl_lecs dl y = Some a" for y a
  proof -
    note la = lec_invD [OF assms(1) a]
    have "lec_conn a \<noteq> lec_conn lec" using la(1) assms(3) by auto
    then show ?thesis using la(1,2) assms(9,10) by (auto simp: lec_ok_def)
  qed
  have lecs: "?C (lec_conn a) = Some (lec_cle a, y) \<and> lec_ok y a ?dl" if "dl_lecs ?dl y = Some a" for y a
    using that new old [of y a] by (cases "y = x") simp_all
  have conns: "\<exists>a. dl_lecs ?dl y = Some a \<and> lec_conn a = k" if c: "?C k = Some (t, y)" for k t y
  proof (cases "k = lec_conn lec")
    case True
    then show ?thesis using c by auto
  next
    case False
    then have "C k = Some (t, y)" using c by simp
    then obtain a where a: "dl_lecs dl y = Some a" "lec_conn a = k" using lec_invC [OF assms(1)] by blast
    then show ?thesis using assms(2) by auto
  qed
  have fresh: "lec_dp a \<noteq> lec_dp lec" if "dl_lecs dl y = Some a" for y a using lec_inv_peer [OF assms(1) that] assms(7) by auto
  have dist: "y = z" if l: "dl_lecs ?dl y = Some a" "dl_lecs ?dl z = Some b" "lec_dp a = lec_dp b" for y z a b
  proof (cases "y = x"; cases "z = x")
    assume "y \<noteq> x" "z \<noteq> x"
    then show "y = z" using lec_invD(3) [OF assms(1), of y a z b] l by simp
  qed (use l fresh [of z b] fresh [of y a] in auto)
  have "cle_ok t ?dl" for t using added_cle_ok [OF assms(1,2,4), of t] by (simp add: cle_ok_def)
  moreover have "cles_registered E (dl_cles ?dl)" using assms(1) by (auto simp: lec_inv_def cles_registered_def)
  moreover have "dps_ok (dv_peers (dl_dv ?dl))" using assms(8,10) by simp
  moreover have "xe_ok env" using assms(1) by (simp add: lec_inv_def)
  ultimately show ?thesis using lecs conns dist unfolding lec_inv_def by blast
qed

text \<open>The new connection is the last one of the entry.\<close>

definition new_lec :: "nat \<Rightarrow> nat \<Rightarrow> nat \<Rightarrow> bytes \<Rightarrow> nat list \<Rightarrow> dvpn_listen \<Rightarrow> bool" where
  "new_lec t k x peerid xs dl \<longleftrightarrow> cl_connections (dl_cles dl t) = xs @ [x] \<and>
     (\<exists>lec. dl_lecs dl x = Some lec \<and> lec_cle lec = t \<and> lec_conn lec = k \<and> lec_peerid lec = peerid \<and>
        dp_addr (lec_dp lec) = v6_global_addr_from_key_id peerid)"

lemma setup_safe:
  assumes "lec_inv env E C dl" "dl_lecs dl x = None" "C k = None" "cl_num_connections (dl_cles dl t) < cle_conn_limit (cl_conf (dl_cles dl t))"
    "ti_registered tun" "dp_find (dv_peers (dl_dv dl)) (v6_global_addr_from_key_id peerid) = None" "length peerid = NODE_ID_LEN"
  shows "safe (\<lambda>dl'. lec_inv env E (C(k \<mapsto> (t, x))) dl' \<and> new_lec t k x peerid (cl_connections (dl_cles dl t)) dl')
    (cle_setup_conn env t k x peerid tun dl)"
proof (cases "tconn_listen_entry_get_maxseg (xe_maxseg env k) < 0")
  case True
  then show ?thesis by (simp add: cle_setup_conn_def)
next
  case False
  let ?itf = "tun_interface_get_name tun"
  let ?dp = "\<lparr>dp_addr = v6_global_addr_from_key_id peerid, dp_itfname = ?itf\<rparr>"
  let ?dv = "(dl_dv dl)\<lparr>dv_calls := conn_setup_itf (ve_itf (xe_ve env)) (ve_keyid (xe_ve env)) ?itf
      (conn_mtu (tconn_listen_entry_get_maxseg (xe_maxseg env k))) (dv_calls (dl_dv dl))\<rparr>"
  have len: "length (dp_addr ?dp) = 16" using peer_address [OF assms(7)] by simp
  have find: "dp_find (dv_peers (dl_dv dl)) (dp_addr ?dp) = None" using assms(6) by simp
  obtain peers where p: "avl_insert compare_direct_peers ?dp (dv_peers (dl_dv dl)) = Some peers" "dps_ok peers"
      "set peers = insert ?dp (set (dv_peers (dl_dv dl)))" "?dp \<notin> set (dv_peers (dl_dv dl))"
    by (rule add_peer [OF lec_inv_dps [OF assms(1)] find len])
  let ?lec = "\<lparr>lec_cle = t, lec_conn = k, lec_peerid = peerid, lec_tun = tun, lec_dp = ?dp, lec_dls = lec_new_dls env ?itf\<rparr>"
  let ?dl = "dl\<lparr>dl_dv := ?dv\<lparr>dv_peers := peers\<rparr>\<rparr>"
  have works: "listen_works (xe_listen env ?dl)" using assms(1) by (simp add: lec_inv_def xe_ok_def)
  obtain dls where dls: "lec_start_routing env x ?lec ?dl = Inr dls" "lec_dls_ok x dls"
    using start_routing_ok [of env ?dl ?lec ?itf x] works by auto
  have run: "cle_setup_conn env t k x peerid tun dl = Inr ((lec_added x (?lec\<lparr>lec_dls := dls\<rparr>) dl)\<lparr>dl_dv := ?dv\<lparr>dv_peers := peers\<rparr>\<rparr>)"
    using False p(1) dls(1) by (simp add: cle_setup_conn_def dl_upd_def lec_added_def Let_def)
  have "lec_inv env E (C(lec_conn (?lec\<lparr>lec_dls := dls\<rparr>) \<mapsto> (lec_cle (?lec\<lparr>lec_dls := dls\<rparr>), x)))
      ((lec_added x (?lec\<lparr>lec_dls := dls\<rparr>) dl)\<lparr>dl_dv := ?dv\<lparr>dv_peers := peers\<rparr>\<rparr>)"
    by (rule lec_added_inv [where peers = peers]) (use assms p dls(2) in simp_all)
  then show ?thesis unfolding run by (simp add: new_lec_def)
qed

lemma add_peer_safe:
  "lec_inv env E C dl \<Longrightarrow>
   safe (\<lambda>dl'. lec_inv env E C dl' \<and> dl_lecs dl' = dl_lecs dl \<and> dl_cles dl' = dl_cles dl \<and> dv_peers (dl_dv dl') = dv_peers (dl_dv dl))
     (cle_add_peer env t k peerid dl)"
proof -
  assume inv: "lec_inv env E C dl"
  have mylsa: "safe (\<lambda>dv. dv_peers dv = dv_peers (dl_dv dl)) (dv_mylsa f (dl_dv dl))" for f by (simp add: mylsa_safe)
  have "safe (\<lambda>dl'. lec_inv env E C dl' \<and> dl_lecs dl' = dl_lecs dl \<and> dl_cles dl' = dl_cles dl \<and> dv_peers (dl_dv dl') = dv_peers (dl_dv dl))
      (hbind (dv_mylsa f (dl_dv dl)) (\<lambda>dv. Inr (dl\<lparr>dl_dv := dv\<rparr>)))" for f
    by (rule safe_bind [OF mylsa]) (simp add: lec_inv_dv [OF inv])
  then show ?thesis using inv by (simp add: cle_add_peer_def on_dv_def Let_def)
qed

text \<open>There is room for the new connection.\<close>

definition cle_kept :: "listen_entry_state \<Rightarrow> nat list" where
  "cle_kept cl = (if int (length (cl_connections cl)) = cle_conn_limit (cl_conf cl) then butlast (cl_connections cl) else cl_connections cl)"

lemma remove1_last: "distinct xs \<Longrightarrow> xs \<noteq> [] \<Longrightarrow> remove1 (last xs) xs = butlast xs"
proof (induction xs rule: rev_induct)
  case (snoc x xs)
  then show ?case by (simp add: remove1_append)
qed simp

lemma make_room_safe:
  assumes "ls_inv gt V {k} ls" "user_ok env ls" "ls_conns ls k = Some cc" "connected ls k = None"
  shows "safe (\<lambda>ls'. ls_inv gt V {k} ls' \<and> user_ok env ls' \<and> ls_conns ls' k = Some cc \<and> connected ls' k = None \<and>
      cl_num_connections (dl_cles (ls_user ls') t) < cle_conn_limit (cl_conf (dl_cles (ls_user ls') t)) \<and>
      cl_connections (dl_cles (ls_user ls') t) = cle_kept (dl_cles (ls_user ls) t) \<and>
      set (dv_peers (dl_dv (ls_user ls'))) \<subseteq> set (dv_peers (dl_dv (ls_user ls))) \<and>
      (\<forall>x. dl_lecs (ls_user ls) x = None \<longrightarrow> dl_lecs (ls_user ls') x = None)) (cle_make_room gt env t ls)" (is "safe ?P _")
proof -
  let ?cl = "dl_cles (ls_user ls) t"
  note inv = assms(2) [unfolded user_ok_def]
  have ok: "cle_ok t (ls_user ls)" by (rule lec_inv_cle [OF inv])
  then have n: "cl_num_connections ?cl = int (length (cl_connections ?cl))" "1 \<le> cle_conn_limit (cl_conf ?cl)"
      "cl_num_connections ?cl \<le> cle_conn_limit (cl_conf ?cl)"
    by (simp_all add: cle_ok_def Let_def)
  show ?thesis
  proof (cases "cle_conn_limit (cl_conf ?cl) = cl_num_connections ?cl")
    case False
    then show ?thesis using assms n(1,3) by (simp add: cle_make_room_def cle_kept_def Let_def)
  next
    case True
    then have ne: "cl_connections ?cl \<noteq> []" using n(1,2) by auto
    let ?x = "last (cl_connections ?cl)"
    obtain lec where lec: "dl_lecs (ls_user ls) ?x = Some lec" "lec_cle lec = t"
      using ok ne unfolding cle_ok_def Let_def by (meson last_in_set)
    obtain cc' where cc': "ls_conns ls (lec_conn lec) = Some cc'" "connected ls (lec_conn lec) \<noteq> None" and
      safe: "safe (\<lambda>ls'. \<exists>dl. ls' = (dropped (lec_conn lec) cc' ls)\<lparr>ls_user := dl\<rparr> \<and> ls_inv gt V ({k} - {lec_conn lec}) ls' \<and> lec_inv env (ls_entries ls) (connected ls') dl \<and>
        dl_rest (lec_gone ?x lec (ls_user ls)) dl \<and> dv_peers (dl_dv dl) = dv_peers (dl_dv (lec_gone ?x lec (ls_user ls)))) (lec_destroy gt env ?x True ls)"
      using kill_lec [OF assms(1) inv lec(1)] by blast
    have k: "lec_conn lec \<noteq> k" using cc'(2) assms(4) by auto
    have post: "?P ls'" if d: "ls' = (dropped (lec_conn lec) cc' ls)\<lparr>ls_user := dl\<rparr>" "ls_inv gt V ({k} - {lec_conn lec}) ls'" "lec_inv env (ls_entries ls) (connected ls') dl"
        "dl_rest (lec_gone ?x lec (ls_user ls)) dl" "dv_peers (dl_dv dl) = dv_peers (dl_dv (lec_gone ?x lec (ls_user ls)))" for ls' dl
    proof -
      have keep: "ls_conns ls' k = Some cc" "connected ls' k = None"
        using k assms(3,4) by (simp_all add: d(1) connected_dropped) (simp add: dropped_def)
      have user: "ls_user ls' = dl" by (simp add: d(1))
      have cles: "dl_cles dl = dl_cles (lec_gone ?x lec (ls_user ls))" and rest: "lecs_rest (dl_lecs (lec_gone ?x lec (ls_user ls))) (dl_lecs dl)"
        using d(4) by (simp_all add: dl_rest_def)
      have "cl_num_connections (dl_cles dl t) < cle_conn_limit (cl_conf (dl_cles dl t))" using True lec(2) by (simp add: cles)
      moreover have "cl_connections (dl_cles dl t) = cle_kept ?cl"
        using ok remove1_last [OF _ ne] True n(1) lec(2) by (simp add: cles cle_kept_def cle_ok_def Let_def)
      moreover have "dl_lecs dl y = None" if "dl_lecs (ls_user ls) y = None" for y
        using rest [unfolded lecs_rest_def, THEN spec [of _ y]] that by (simp split: if_splits)
      moreover have "set (dv_peers (dl_dv dl)) \<subseteq> set (dv_peers (dl_dv (ls_user ls)))" using d(5) avl_delete_set by simp
      moreover have "user_ok env ls'" using d(3) by (simp add: user_ok_def d(1))
      ultimately show ?thesis using keep d(2) k by (simp add: user)
    qed
    have "safe ?P (lec_destroy gt env ?x True ls)" by (rule safe_mono [OF safe]) (elim exE conjE, rule post, assumption+)
    then show ?thesis using True ne by (simp add: cle_make_room_def Let_def)
  qed
qed

lemma new_conn_safe:
  assumes "ls_inv gt V {k} ls" "user_ok env ls" "ls_conns ls k = Some cc" "connected ls k = None" "length peerid = NODE_ID_LEN"
  shows "safe (\<lambda>(c, ls'). ls_inv gt V {k} ls' \<and> ls_conns ls' k = Some cc \<and>
      lec_inv env (ls_entries ls') ((connected ls')(k := map_option (Pair t) c)) (ls_user ls') \<and>
      (case c of
         None \<Rightarrow> dl_lecs (ls_user ls') = dl_lecs (ls_user ls)
       | Some x \<Rightarrow> dp_find (dv_peers (dl_dv (ls_user ls))) (v6_global_addr_from_key_id peerid) = None \<and>
           new_lec t k x peerid (cle_kept (dl_cles (ls_user ls) t)) (ls_user ls'))) (cle_new_conn gt env t k peerid ls)" (is "safe ?P _")
proof -
  let ?dl = "ls_user ls" and ?addr = "v6_global_addr_from_key_id peerid"
  note inv = assms(2) [unfolded user_ok_def]
  have refused: "?P (None, ls\<lparr>ls_user := ?dl\<lparr>dl_dv := dv\<rparr>\<rparr>)" if "dv_peers dv = dv_peers (dl_dv ?dl)" for dv
  proof -
    have "(connected ls)(k := None) = connected ls" using assms(4) by (simp add: fun_upd_idem)
    then show ?thesis using assms(1,3) lec_inv_dv [OF inv that] by simp
  qed
  have refused0: "?P (None, ls)" using refused [OF refl] by simp
  show ?thesis
  proof (cases "dp_find (dv_peers (dl_dv ?dl)) ?addr \<noteq> None \<or> xe_calloc env ?dl = None")
    case True
    have "cle_new_conn gt env t k peerid ls = Inr (None, ls)" using True by (auto simp: cle_new_conn_def Let_def)
    then show ?thesis using refused0 by simp
  next
    case False
    then obtain x where x: "xe_calloc env ?dl = Some x" "dp_find (dv_peers (dl_dv ?dl)) ?addr = None" by auto
    have free: "dl_lecs ?dl x = None" using inv x(1) by (simp add: lec_inv_def xe_ok_def)
    let ?tun = "\<lparr>ti_itfname = Some (cle_tunitf (cl_conf (dl_cles ?dl t))), ti_fd = 0, ti_registered = False, ti_name = []\<rparr>"
    obtain ret tun calls where tun: "tun_interface_register (ve_itf (xe_ve env)) ?tun (dv_calls (dl_dv ?dl)) = (ret, tun, calls)" by (metis prod_cases3)
    let ?dv = "(dl_dv ?dl)\<lparr>dv_calls := calls\<rparr>"
    let ?ls = "ls\<lparr>ls_user := ?dl\<lparr>dl_dv := ?dv\<rparr>\<rparr>"
    have eq: "cle_new_conn gt env t k peerid ls = (if ret < 0 then Inr (None, ?ls)
             else hbind (cle_make_room gt env t ?ls) (\<lambda>ls.
                  hbind (on_user (cle_add_peer env t k peerid) ls) (\<lambda>ls.
                  hbind (on_user (cle_setup_conn env t k x peerid tun) ls) (\<lambda>ls. Inr (Some x, ls)))))"
      using x tun by (simp add: cle_new_conn_def ls_upd_def dl_upd_def Let_def)
    show ?thesis
    proof (cases "ret < 0")
      case True
      then show ?thesis using refused [of ?dv] by (simp add: eq)
    next
      case ok: False
      have reg: "ti_registered tun" using tun ok by (auto simp: tun_interface_register_def Let_def split: if_splits option.splits)
      have inv1: "ls_inv gt V {k} ?ls" "user_ok env ?ls" "ls_conns ?ls k = Some cc" "connected ?ls k = None"
        using assms(1,3,4) lec_inv_dv [OF inv, of ?dv] by (simp_all add: user_ok_def)
      have "safe ?P (hbind (cle_make_room gt env t ?ls) (\<lambda>ls.
                  hbind (on_user (cle_add_peer env t k peerid) ls) (\<lambda>ls.
                  hbind (on_user (cle_setup_conn env t k x peerid tun) ls) (\<lambda>ls. Inr (Some x, ls)))))"
      proof (rule safe_bind [OF make_room_safe [OF inv1, where t = t]])
        fix ls1
        assume r: "ls_inv gt V {k} ls1 \<and> user_ok env ls1 \<and> ls_conns ls1 k = Some cc \<and> connected ls1 k = None \<and>
          cl_num_connections (dl_cles (ls_user ls1) t) < cle_conn_limit (cl_conf (dl_cles (ls_user ls1) t)) \<and>
          cl_connections (dl_cles (ls_user ls1) t) = cle_kept (dl_cles (ls_user ?ls) t) \<and>
          set (dv_peers (dl_dv (ls_user ls1))) \<subseteq> set (dv_peers (dl_dv (ls_user ?ls))) \<and>
          (\<forall>x. dl_lecs (ls_user ?ls) x = None \<longrightarrow> dl_lecs (ls_user ls1) x = None)"
        have none: "dp_find (dv_peers (dl_dv (ls_user ls1))) ?addr = None"
          using x(2) r by (auto simp: dp_find_def avl_find_None_iff)
        have inv2: "lec_inv env (ls_entries ls1) (connected ls1) (ls_user ls1)" using r by (simp add: user_ok_def)
        have "safe (\<lambda>dl. lec_inv env (ls_entries ls1) ((connected ls1)(k \<mapsto> (t, x))) dl \<and> new_lec t k x peerid (cle_kept (dl_cles (ls_user ls) t)) dl)
            (hbind (cle_add_peer env t k peerid (ls_user ls1)) (cle_setup_conn env t k x peerid tun))"
        proof (rule safe_bind [OF add_peer_safe [OF inv2]])
          fix dl assume d: "lec_inv env (ls_entries ls1) (connected ls1) dl \<and> dl_lecs dl = dl_lecs (ls_user ls1) \<and> dl_cles dl = dl_cles (ls_user ls1) \<and>
            dv_peers (dl_dv dl) = dv_peers (dl_dv (ls_user ls1))"
          have "safe (\<lambda>dl'. lec_inv env (ls_entries ls1) ((connected ls1)(k \<mapsto> (t, x))) dl' \<and>
              new_lec t k x peerid (cl_connections (dl_cles dl t)) dl') (cle_setup_conn env t k x peerid tun dl)"
            by (rule setup_safe) (use d r free none reg assms(5) in simp_all)
          then show "safe (\<lambda>dl. lec_inv env (ls_entries ls1) ((connected ls1)(k \<mapsto> (t, x))) dl \<and> new_lec t k x peerid (cle_kept (dl_cles (ls_user ls) t)) dl) (cle_setup_conn env t k x peerid tun dl)"
            by (rule safe_mono) (use d r in simp)
        qed
        note s = this
        have "hbind (on_user (cle_add_peer env t k peerid) ls1) (\<lambda>ls. hbind (on_user (cle_setup_conn env t k x peerid tun) ls) (\<lambda>ls. Inr (Some x, ls))) =
            hbind (hbind (cle_add_peer env t k peerid (ls_user ls1)) (cle_setup_conn env t k x peerid tun)) (\<lambda>dl. Inr (Some x, ls1\<lparr>ls_user := dl\<rparr>))"
          by (simp add: on_user_def hbind_assoc)
        moreover have "safe ?P \<dots>"
          by (rule safe_bind [OF s]) (use r x(2) in simp)
        ultimately show "safe ?P (hbind (on_user (cle_add_peer env t k peerid) ls1) (\<lambda>ls. hbind (on_user (cle_setup_conn env t k x peerid tun) ls) (\<lambda>ls. Inr (Some x, ls))))"
          by simp
      qed
      then show ?thesis using ok by (simp add: eq)
    qed
  qed
qed

interpretation lec: listen_user gt V "lec_ops gt env" "lec_inv env" for gt V env
proof
  fix k t x :: nat and ls :: "'a listen_state" and cc r
  show "safe (\<lambda>(c, ls'). ls_inv gt V {k} ls' \<and> ls_conns ls' k = Some cc \<and>
      lec_inv env (ls_entries ls') ((connected ls')(k := map_option (Pair t) c)) (ls_user ls')) (lu_new_conn (lec_ops gt env) t k (cc_id cc) ls)"
    if p: "ls_inv gt V {k} ls" "lec_inv env (ls_entries ls) (connected ls) (ls_user ls)" "ls_conns ls k = Some cc" "cc_state cc = CC_KEY_ID_VERIFIED"
      "cc_tle cc = Some t"
  proof -
    have "length (cc_id cc) = NODE_ID_LEN" using ls_invD(1) [OF p(1,3)] by (simp add: cc_core_def)
    moreover have "connected ls k = None" using p(3,4) by (simp add: connected_def connected_as_def)
    moreover have "user_ok env ls" using p(2) by (simp add: user_ok_def)
    ultimately have "safe (\<lambda>(c, ls'). ls_inv gt V {k} ls' \<and> ls_conns ls' k = Some cc \<and>
        lec_inv env (ls_entries ls') ((connected ls')(k := map_option (Pair t) c)) (ls_user ls')) (cle_new_conn gt env t k (cc_id cc) ls)"
      by (intro safe_mono [OF new_conn_safe [OF p(1) _ p(3)]]) auto
    then show ?thesis by (simp add: lec_ops_def)
  qed
  show "safe (\<lambda>ls'. ls_inv gt V {} ls' \<and> lec_inv env (ls_entries ls') (connected ls') (ls_user ls')) (lu_record_received (lec_ops gt env) (Some x) r ls)"
    if p: "ls_inv gt V {} ls" "lec_inv env (ls_entries ls) (connected ls) (ls_user ls)" "connected ls k = Some (t, x)"
  proof -
    obtain lec where "dl_lecs (ls_user ls) x = Some lec" using lec_invC [OF p(2,3)] by blast
    then show ?thesis
      using p(1,2) lec_inv_dv [OF p(2)] by (simp add: lec_ops_def lec_record_received_def ls_upd_def dl_upd_def Let_def)
  qed
  show "safe (\<lambda>ls'. ls_inv gt V {k} ls' \<and> ls_conns ls' k = Some cc \<and> lec_inv env (ls_entries ls') ((connected ls')(k := None)) (ls_user ls'))
      (lu_disconnect (lec_ops gt env) (Some x) ls)"
    if p: "ls_inv gt V {k} ls" "lec_inv env (ls_entries ls) (connected ls) (ls_user ls)" "ls_conns ls k = Some cc" "connected ls k = Some (t, x)"
  proof -
    obtain lec where lec: "dl_lecs (ls_user ls) x = Some lec" "lec_conn lec = k" using lec_invC [OF p(2,4)] by blast
    have "safe (\<lambda>ls'. \<exists>dl. ls' = ls\<lparr>ls_user := dl\<rparr> \<and> lec_inv env (ls_entries ls) ((connected ls)(lec_conn lec := None)) dl \<and>
        dl_rest (lec_gone x lec (ls_user ls)) dl \<and> dv_peers (dl_dv dl) = dv_peers (dl_dv (lec_gone x lec (ls_user ls)))) (lec_destroy gt env x False ls)"
      by (rule destroy_safe [OF p(2) lec(1)]) simp
    then have "safe (\<lambda>ls'. ls_inv gt V {k} ls' \<and> ls_conns ls' k = Some cc \<and> lec_inv env (ls_entries ls') ((connected ls')(k := None)) (ls_user ls'))
        (lec_destroy gt env x False ls)"
      by (rule safe_mono) (use p(1,3) lec(2) in auto)
    then show ?thesis by (simp add: lec_ops_def lec_disconnect_def)
  qed
qed

end
