(* ===== verification/Tconn_Listen_Match.thy ===== *)
theory Tconn_Listen_Match
  imports Tconn_Listen_Safe
begin

text \<open>
  Which entry of a listening socket a connection goes to: \<^verbatim>\<open>verify_key_ids\<close> and \<^verbatim>\<open>find_listen_entry\<close> of
  \<^verbatim>\<open>src/tconn_listen.c\<close>, against a statement that does not search.  And what becomes of a connection
  whose session cannot be set up.
\<close>

section \<open>Key ids and entries\<close>

text \<open>
  \<open>key_id ids i\<close> is the \<open>i\<close>-th key id that \<^verbatim>\<open>tconn_verify_cert\<close> has found in the certificates of the peer, the first one
  that of the peer itself.
\<close>

definition key_id :: "bytes \<Rightarrow> nat \<Rightarrow> bytes" where
  "key_id ids i = take NODE_ID_LEN (drop (i * NODE_ID_LEN) ids)"

definition entry_matches :: "tconn_listen_entry \<Rightarrow> bytes \<Rightarrow> bool" where
  "entry_matches e i \<longleftrightarrow> tle_fp_type e \<noteq> CONF_FP_TYPE_ANY \<and> tle_fingerprint e = i"

lemma key_id_length: "n * NODE_ID_LEN \<le> length ids \<Longrightarrow> i < n \<Longrightarrow> length (key_id ids i) = NODE_ID_LEN"
proof -
  assume a: "n * NODE_ID_LEN \<le> length ids" "i < n"
  have "Suc i * NODE_ID_LEN \<le> n * NODE_ID_LEN" using a(2) by (intro mult_le_mono1) simp
  then have "Suc i * NODE_ID_LEN \<le> length ids" using a(1) by linarith
  then show ?thesis by (simp add: key_id_def)
qed

lemma key_id_drop: "key_id (drop NODE_ID_LEN ids) i = key_id ids (Suc i)"
  by (simp add: key_id_def add.commute)

lemma find_listen_entry_iff:
  assumes "entries_ok entries" "length i = NODE_ID_LEN"
  shows "find_listen_entry entries i = Some e \<longleftrightarrow> e \<in> set entries \<and> entry_matches e i"
proof -
  have ok: "avl_ordered tl_compare_listen_entries entries" "list_all tle_ok entries" using assms(1) by (simp_all add: entries_ok_def)
  have eq: "(if tle_fp_type y = CONF_FP_TYPE_ANY then 1 else memcmp i (tle_fingerprint y)) = 0 \<longleftrightarrow> entry_matches y i" if "y \<in> set entries" for y
    using that ok(2) assms(2) by (auto simp: entry_matches_def list_all_iff tle_ok_def memcmp_eq_0)
  have unique: "y = e" if "y \<in> set entries" "entry_matches y i" "e \<in> set entries" "entry_matches e i" for y
    using tle_order.ordered_distinct_keys [OF ok that(1,3)] that(2,4) by (simp add: tl_compare_listen_entries_def entry_matches_def)
  show ?thesis
  proof
    assume "find_listen_entry entries i = Some e"
    then have "e \<in> set entries" "(if tle_fp_type e = CONF_FP_TYPE_ANY then 1 else memcmp i (tle_fingerprint e)) = 0"
      unfolding find_listen_entry_def by (auto dest: avl_find_SomeD)
    then show "e \<in> set entries \<and> entry_matches e i" using eq by blast
  next
    assume e: "e \<in> set entries \<and> entry_matches e i"
    then have "find_listen_entry entries i \<noteq> None" using eq unfolding find_listen_entry_def avl_find_None_iff by blast
    then obtain y where y: "find_listen_entry entries i = Some y" by blast
    then have "y \<in> set entries" "(if tle_fp_type y = CONF_FP_TYPE_ANY then 1 else memcmp i (tle_fingerprint y)) = 0"
      unfolding find_listen_entry_def by (auto dest: avl_find_SomeD)
    then have "y = e" using eq unique e by blast
    with y show "find_listen_entry entries i = Some e" by simp
  qed
qed

lemma find_listen_entry_None:
  assumes "entries_ok entries" "length i = NODE_ID_LEN"
  shows "find_listen_entry entries i = None \<longleftrightarrow> (\<forall>e \<in> set entries. \<not> entry_matches e i)"
  using find_listen_entry_iff [OF assms] by (cases "find_listen_entry entries i") auto

definition first_match :: "tconn_listen_entry list \<Rightarrow> bytes \<Rightarrow> nat \<Rightarrow> nat \<Rightarrow> tconn_listen_entry \<Rightarrow> bool" where
  "first_match entries ids num i e \<longleftrightarrow> i < num \<and> e \<in> set entries \<and> entry_matches e (key_id ids i) \<and>
     (\<forall>j < i. \<forall>y \<in> set entries. \<not> entry_matches y (key_id ids j))"

lemma match_key_ids_first:
  "entries_ok entries \<Longrightarrow> num * NODE_ID_LEN \<le> length ids \<Longrightarrow>
   (match_key_ids entries ids num = Some e \<longleftrightarrow> (\<exists>i. first_match entries ids num i e)) \<and>
   (match_key_ids entries ids num = None \<longleftrightarrow> (\<forall>i < num. \<forall>y \<in> set entries. \<not> entry_matches y (key_id ids i)))"
proof (induction num arbitrary: ids)
  case 0
  then show ?case by (simp add: first_match_def)
next
  case (Suc num)
  have id0: "take NODE_ID_LEN ids = key_id ids 0" by (simp add: key_id_def)
  have len: "length (key_id ids 0) = NODE_ID_LEN" by (rule key_id_length [OF Suc.prems(2)]) simp
  note find = find_listen_entry_iff [OF Suc.prems(1) len] find_listen_entry_None [OF Suc.prems(1) len]
  have "num * NODE_ID_LEN \<le> length (drop NODE_ID_LEN ids)" using Suc.prems(2) by simp
  note ih = Suc.IH [OF Suc.prems(1) this]
  have all: "(\<forall>i < Suc num. P i) \<longleftrightarrow> P 0 \<and> (\<forall>i < num. P (Suc i))" for P :: "nat \<Rightarrow> bool" by (auto simp: less_Suc_eq_0_disj)
  show ?case
  proof (cases "find_listen_entry entries (key_id ids 0)")
    case None
    have no: "\<forall>y \<in> set entries. \<not> entry_matches y (key_id ids 0)" using find(2) None by blast
    have "(\<exists>i. first_match entries ids (Suc num) i e) \<longleftrightarrow> (\<exists>i. first_match entries (drop NODE_ID_LEN ids) num i e)"
    proof
      assume "\<exists>i. first_match entries ids (Suc num) i e"
      then obtain i where i: "first_match entries ids (Suc num) i e" ..
      then obtain k where "i = Suc k" using no by (cases i) (auto simp: first_match_def)
      then have "first_match entries (drop NODE_ID_LEN ids) num k e" using i by (auto simp: first_match_def key_id_drop)
      then show "\<exists>i. first_match entries (drop NODE_ID_LEN ids) num i e" ..
    next
      assume "\<exists>i. first_match entries (drop NODE_ID_LEN ids) num i e"
      then obtain i where i: "first_match entries (drop NODE_ID_LEN ids) num i e" ..
      then have "first_match entries ids (Suc num) (Suc i) e"
        using no by (auto simp: first_match_def key_id_drop all less_Suc_eq_0_disj)
      then show "\<exists>i. first_match entries ids (Suc num) i e" ..
    qed
    moreover have "match_key_ids entries ids (Suc num) = match_key_ids entries (drop NODE_ID_LEN ids) num" using None by (simp add: id0)
    ultimately show ?thesis using ih no unfolding all key_id_drop by simp
  next
    case (Some y)
    then have y: "y \<in> set entries" "entry_matches y (key_id ids 0)" using find(1) by simp_all
    have unique: "a = y" if "a \<in> set entries" "entry_matches a (key_id ids 0)" for a
      using find_listen_entry_iff [OF Suc.prems(1) len, of a] Some that by simp
    have "(\<exists>i. first_match entries ids (Suc num) i e) \<longleftrightarrow> e = y"
    proof
      assume "\<exists>i. first_match entries ids (Suc num) i e"
      then obtain i where i: "first_match entries ids (Suc num) i e" ..
      then have "i = 0" using y by (cases i) (auto simp: first_match_def)
      then show "e = y" using i unique by (simp add: first_match_def)
    next
      assume "e = y"
      then have "first_match entries ids (Suc num) 0 e" using y by (simp add: first_match_def)
      then show "\<exists>i. first_match entries ids (Suc num) i e" ..
    qed
    then show ?thesis using Some y by (auto simp: id0)
  qed
qed

lemma wildcard_first:
  assumes "entries_ok entries" "w \<in> set entries" "tle_fp_type w = CONF_FP_TYPE_ANY"
  shows "find_wildcard_listen_entry entries = Some w"
proof -
  obtain e es where es: "entries = e # es" using assms(2) by (cases entries) auto
  have "w = e"
  proof (rule ccontr)
    assume "w \<noteq> e"
    then have "tl_compare_listen_entries e w < 0" using assms(1,2) es by (auto simp: entries_ok_def)
    then show False using assms(3) by (simp add: tl_compare_listen_entries_def split: if_splits)
  qed
  then show ?thesis using es assms(3) by (simp add: find_wildcard_listen_entry_def)
qed

lemma no_wildcard: "\<forall>w \<in> set entries. tle_fp_type w \<noteq> CONF_FP_TYPE_ANY \<Longrightarrow> find_wildcard_listen_entry entries = None"
  by (cases entries) (simp_all add: find_wildcard_listen_entry_def)

text \<open>
  C11: the entry that accepts a peer: the one whose fingerprint is the first key id of the
  peer's certificates that any entry has; when no entry has any of them, the entry for all
  peers; when there is none, the peer is refused.  Whichever key id it was, the peer
  is known by its first one.
\<close>

theorem tl_key_match:
  assumes "entries_ok entries" "num * NODE_ID_LEN \<le> length ids"
  shows "(first_match entries ids num i e \<longrightarrow> tl_verify_key_ids entries ids num u = (0, u @ [(tle_ptr e, key_id ids 0)])) \<and>
    ((\<forall>i < num. \<forall>y \<in> set entries. \<not> entry_matches y (key_id ids i)) \<longrightarrow>
       (\<forall>w \<in> set entries. tle_fp_type w = CONF_FP_TYPE_ANY \<longrightarrow>
          tl_verify_key_ids entries ids num u = (0, u @ [(tle_ptr w, key_id ids 0)])) \<and>
       ((\<forall>w \<in> set entries. tle_fp_type w \<noteq> CONF_FP_TYPE_ANY) \<longrightarrow> tl_verify_key_ids entries ids num u = (1, u)))"
proof -
  note m = match_key_ids_first [OF assms]
  have id0: "take NODE_ID_LEN ids = key_id ids 0" by (simp add: key_id_def)
  have found: "match_key_ids entries ids num = Some e" if "first_match entries ids num i e" using m [of e] that by blast
  have none: "match_key_ids entries ids num = None" if "\<forall>i < num. \<forall>y \<in> set entries. \<not> entry_matches y (key_id ids i)"
    using m that by blast
  show ?thesis
  proof (intro conjI impI ballI)
    assume "first_match entries ids num i e"
    from found [OF this] show "tl_verify_key_ids entries ids num u = (0, u @ [(tle_ptr e, key_id ids 0)])"
      by (simp add: tl_verify_key_ids_def id0)
  next
    fix w assume "\<forall>i < num. \<forall>y \<in> set entries. \<not> entry_matches y (key_id ids i)" "w \<in> set entries" "tle_fp_type w = CONF_FP_TYPE_ANY"
    with none wildcard_first [OF assms(1)] show "tl_verify_key_ids entries ids num u = (0, u @ [(tle_ptr w, key_id ids 0)])"
      by (simp add: tl_verify_key_ids_def id0)
  next
    assume "\<forall>i < num. \<forall>y \<in> set entries. \<not> entry_matches y (key_id ids i)" "\<forall>w \<in> set entries. tle_fp_type w \<noteq> CONF_FP_TYPE_ANY"
    with none no_wildcard show "tl_verify_key_ids entries ids num u = (1, u)" by (simp add: tl_verify_key_ids_def)
  qed
qed

text \<open>A peer with the key ids 9\dots and 1\dots, and a socket with an entry for everybody and one for 1\dots.\<close>

definition sample_tle :: "nat \<Rightarrow> conf_fp_type \<Rightarrow> tconn_listen_entry" where
  "sample_tle t fp = \<lparr>tle_ptr = t, tle_name = cstr ''peer'', tle_fp_type = fp, tle_fingerprint = replicate 32 1\<rparr>"

theorem tl_key_match_witness:
  "tl_verify_key_ids [sample_tle 5 CONF_FP_TYPE_ANY, sample_tle 7 CONF_FP_TYPE_MATCH] (replicate 32 9 @ replicate 32 1) 2 [] =
     (0, [(7, replicate 32 9)])"
proof -
  let ?es = "[sample_tle 5 CONF_FP_TYPE_ANY, sample_tle 7 CONF_FP_TYPE_MATCH]" and ?ids = "replicate 32 9 @ replicate 32 1 :: bytes"
  have ok: "entries_ok ?es" by (simp add: entries_ok_def tle_ok_def sample_tle_def tl_compare_listen_entries_def NODE_ID_LEN_def)
  have ids: "key_id ?ids 0 = replicate 32 9" "key_id ?ids 1 = replicate 32 1" by (simp_all add: key_id_def NODE_ID_LEN_def)
  have differ: "replicate 32 (1 :: byte) \<noteq> replicate 32 9" by (simp add: replicate_eq_replicate)
  have "first_match ?es ?ids 2 1 (sample_tle 7 CONF_FP_TYPE_MATCH)"
    using ids differ by (simp add: first_match_def entry_matches_def sample_tle_def)
  moreover have "2 * NODE_ID_LEN \<le> length ?ids" by (simp add: NODE_ID_LEN_def)
  ultimately have "tl_verify_key_ids ?es ?ids 2 [] = (0, [] @ [(tle_ptr (sample_tle 7 CONF_FP_TYPE_MATCH), key_id ?ids 0)])"
    using tl_key_match [OF ok, of 2 ?ids 1 "sample_tle 7 CONF_FP_TYPE_MATCH" "[]"] by blast
  then show ?thesis using ids(1) by (simp add: sample_tle_def)
qed

section \<open>A session that cannot be set up\<close>

text \<open>
  C30: when a new connection is accepted and \<^verbatim>\<open>tconn_start\<close> fails for its certificate, the session has been
  released, but the connection stays, with its timer running; when that expires, the session is
  released once more.
\<close>

theorem listen_start_failure:
  assumes "ta_accept acc = Some fd" "ta_getsockname acc" "ta_calloc acc = Some k"
    and "ts_init (ta_start acc) = Some s" "ts_priority (ta_start acc) = 0"
    and "ts_allocate (ta_start acc) \<noteq> 0 \<or> ts_set_key (ta_start acc) \<noteq> 0 \<or> ts_set_credentials (ta_start acc) \<noteq> 0"
  shows "\<exists>ls' cc. tl_got_connection gt ops env acc ls = Inr ls' \<and> ls_conns ls' k = Some cc \<and> k \<in> set (ls_lists ls' None) \<and>
    cc_rx_timeout cc \<noteq> None \<and> tl_rx_timeout gt ops k ls' = Inl Dangling"
proof -
  let ?tc = "(zero_tconn (ta_null acc))\<lparr>tn_sess := s, tn_handler_in := True, tn_handler_out := False, tn_io_error := 0,
     tn_rx_task := False, tn_rx := [], tn_rx_eof := False, tn_tx_task := False, tn_tx := []\<rparr>"
  have start: "tconn_start gt (ta_start acc) tenv (zero_tconn (ta_null acc)) = Inr (-1, ?tc, None)" for tenv
    using assms(4-6) by (auto simp: tconn_start_def tconn_start_handshake_def Let_def)
  have user: "tn_user ?tc = []" "tn_open ?tc = False" by (simp_all add: zero_tconn_def)
  then have same: "?tc\<lparr>tn_user := []\<rparr> = ?tc" by (simp add: zero_tconn_def)
  define cc where "cc = (zero_client_conn fd (ta_null acc))\<lparr>cc_tconn := ?tc,
     cc_rx_timeout := Some (timespec_add_ms (tx_rnd env) (tx_now env) (1000 * HANDSHAKE_TIMEOUT) (1000 * HANDSHAKE_TIMEOUT))\<rparr>"
  define ls1 where "ls1 = ls\<lparr>ls_calls := ls_calls ls @ [Sys_socket fd], ls_lists := (ls_lists ls)(None := ls_lists ls None @ [k]),
     ls_conns := (ls_conns ls)(k \<mapsto> cc)\<rparr>"
  have got: "tl_got_connection gt ops env acc ls = Inr ls1"
    using assms(1-3) start user
    by (simp add: same tl_got_connection_def ls_sys_def tl_tconn_def ls_set_def zero_client_conn_def timer_init_def cc_start_rx_def timer_register_def
        ls1_def cc_def Let_def)
  have "\<not> tn_open (cc_tconn cc)" "cc_state cc = CC_TLS_HANDSHAKE" "cc_tle cc = None"
    using user(2) by (simp_all add: cc_def zero_client_conn_def)
  then have "tl_rx_timeout gt ops k ls1 = Inl Dangling"
    by (simp add: tl_rx_timeout_def client_conn_kill_def client_conn_drop_def ls_list_del_def tconn_destroy_def ls_set_def ls1_def Let_def)
  with got show ?thesis by (simp add: ls1_def cc_def)
qed

definition sample_socket :: "(nat, unit) tconn_listen_socket" where
  "sample_socket = \<lparr>ls_listen_fd = 3, ls_registered = True, ls_conns = (\<lambda>_. None), ls_lists = (\<lambda>_. []), ls_entries = [],
     ls_user = (), ls_calls = [Sys_socket 3]\<rparr>"

definition sample_user_ops :: "(nat, unit) listen_user_ops" where
  "sample_user_ops = \<lparr>lu_new_conn = (\<lambda>t k i ls. Inr (None, ls)), lu_record_received = (\<lambda>x r ls. Inr ls), lu_disconnect = (\<lambda>x ls. Inr ls)\<rparr>"

definition sample_accept :: "nat tl_accepted" where
  "sample_accept = \<lparr>ta_accept = Some 4, ta_getsockname = True, ta_calloc = Some 1, ta_null = 0,
     ta_start = sample_tls_start\<lparr>ts_set_key := -64\<rparr>\<rparr>"

definition sample_tl_env :: tl_env where
  "sample_tl_env = \<lparr>tx_send = sample_sender, tx_nodelay = True, tx_malloc = True, tx_crt = (\<lambda>_. None), tx_rnd = 0,
     tx_now = \<lparr>tv_sec = 100, tv_nsec = 0\<rparr>\<rparr>"

theorem listen_start_failure_witness:
  "\<exists>ls'. tl_got_connection sample_gnutls sample_user_ops sample_tl_env sample_accept sample_socket = Inr ls' \<and>
     tl_rx_timeout sample_gnutls sample_user_ops 1 ls' = Inl Dangling"
  using listen_start_failure [of sample_accept 4 1 0 sample_gnutls sample_user_ops sample_tl_env sample_socket]
  by (auto simp: sample_accept_def sample_tls_start_def)

end
