(* ===== verification/Dvpn_Listen_Reach.thy ===== *)
theory Dvpn_Listen_Reach
  imports Dvpn_Listen_Safe Tconn_Listen_Match
begin

text \<open>
  The whole life of a listening socket of the configuration: entries are started and stopped, connections come
  and go, the rest of the program runs.  The properties: everything stays consistent, nothing that is
  freed is used, and stopping the socket gives everything back; which entry a connection goes to;
  and what two failures that the code ignores lead to.
\<close>

section \<open>Entries start and stop\<close>

lemma lec_inv_set: "lec_inv env E C dl \<Longrightarrow> set E = set E' \<Longrightarrow> lec_inv env E' C dl"
  by (simp add: lec_inv_def cles_registered_def)

text \<open>Only what the entries keep of the configuration and of \<^verbatim>\<open>tconn_listen.c\<close> changes.\<close>

lemma set_cles_inv:
  assumes "lec_inv env E C dl" "cles_registered E' cles" "\<And>t. cl_conf (cles t) = cl_conf (dl_cles dl t)"
    "\<And>t. cl_connections (cles t) = cl_connections (dl_cles dl t)" "\<And>t. cl_num_connections (cles t) = cl_num_connections (dl_cles dl t)"
  shows "lec_inv env E' C (dl\<lparr>dl_cles := cles\<rparr>)"
proof -
  have "cle_ok t (dl\<lparr>dl_cles := cles\<rparr>)" for t
    using lec_inv_cle [OF assms(1), of t] assms(3-5) by (simp add: cle_ok_def Let_def)
  moreover have "lec_ok x lec (dl\<lparr>dl_cles := cles\<rparr>) \<longleftrightarrow> lec_ok x lec dl" for x lec
    using assms(4) by (simp add: lec_ok_def)
  ultimately show ?thesis using assms(1,2) unfolding lec_inv_def by simp
qed

text \<open>The direct peers that are not those of an accepted connection.\<close>

definition foreign_peers :: "dvpn_listen \<Rightarrow> direct_peer set" where
  "foreign_peers dl = {dp \<in> set (dv_peers (dl_dv dl)). \<forall>x lec. dl_lecs dl x = Some lec \<longrightarrow> lec_dp lec \<noteq> dp}"

lemma gone_foreign:
  assumes "lec_inv env E C dl" "dl_lecs dl x = Some lec" "dl_rest (lec_gone x lec dl) dl'"
    "dv_peers (dl_dv dl') = dv_peers (dl_dv (lec_gone x lec dl))"
  shows "foreign_peers dl' = foreign_peers dl"
proof -
  have peers: "set (dv_peers (dl_dv dl')) = set (dv_peers (dl_dv dl)) - {lec_dp lec}"
    using delete_peer(2) [OF lec_inv_dps [OF assms(1)] lec_inv_peer [OF assms(1,2)]] assms(4) by simp
  have rest: "lecs_rest ((dl_lecs dl)(x := None)) (dl_lecs dl')" using assms(3) by (simp add: dl_rest_def)
  have old: "\<exists>a. dl_lecs dl y = Some a \<and> lec_dp a = lec_dp b" if "dl_lecs dl' y = Some b" for y b
  proof -
    show ?thesis
      using rest [unfolded lecs_rest_def, THEN spec [of _ y]] that by (cases "((dl_lecs dl)(x := None)) y") (auto split: if_splits)
  qed
  have new: "\<exists>b. dl_lecs dl' y = Some b \<and> lec_dp b = lec_dp a" if a: "dl_lecs dl y = Some a" "y \<noteq> x" for y a
  proof -
    obtain dls where "dl_lecs dl' y = Some (a\<lparr>lec_dls := dls\<rparr>)"
      using rest [unfolded lecs_rest_def, THEN spec [of _ y]] a by auto
    then show ?thesis by simp
  qed
  have dps: "(\<forall>y b. dl_lecs dl' y = Some b \<longrightarrow> lec_dp b \<noteq> dp) \<and> dp \<noteq> lec_dp lec \<longleftrightarrow> (\<forall>y a. dl_lecs dl y = Some a \<longrightarrow> lec_dp a \<noteq> dp)" for dp
  proof (intro iffI allI impI conjI)
    fix y a assume L: "(\<forall>y b. dl_lecs dl' y = Some b \<longrightarrow> lec_dp b \<noteq> dp) \<and> dp \<noteq> lec_dp lec" and a: "dl_lecs dl y = Some a"
    show "lec_dp a \<noteq> dp"
    proof (cases "y = x")
      case False
      from new [OF a this] obtain b where "dl_lecs dl' y = Some b" "lec_dp b = lec_dp a" by blast
      then show ?thesis using L by auto
    qed (use L a assms(2) in auto)
  next
    fix y b assume R: "\<forall>y a. dl_lecs dl y = Some a \<longrightarrow> lec_dp a \<noteq> dp" and b: "dl_lecs dl' y = Some b"
    from old [OF b] obtain a where "dl_lecs dl y = Some a" "lec_dp a = lec_dp b" by blast
    then show "lec_dp b \<noteq> dp" using R by auto
  next
    assume R: "\<forall>y a. dl_lecs dl y = Some a \<longrightarrow> lec_dp a \<noteq> dp"
    then show "dp \<noteq> lec_dp lec" using assms(2) by auto
  qed
  have "dp \<in> foreign_peers dl' \<longleftrightarrow> dp \<in> set (dv_peers (dl_dv dl)) \<and> ((\<forall>y b. dl_lecs dl' y = Some b \<longrightarrow> lec_dp b \<noteq> dp) \<and> dp \<noteq> lec_dp lec)" for dp
    unfolding foreign_peers_def peers by blast
  then show ?thesis unfolding dps foreign_peers_def by blast
qed

text \<open>All connections of an entry go.\<close>

definition same_regs :: "(nat \<Rightarrow> listen_entry_state) \<Rightarrow> (nat \<Rightarrow> listen_entry_state) \<Rightarrow> bool" where
  "same_regs a b \<longleftrightarrow> (\<forall>t. cl_registered (b t) = cl_registered (a t) \<and> cl_tle (b t) = cl_tle (a t))"

lemma same_regs_trans: "same_regs a b \<Longrightarrow> same_regs b c \<Longrightarrow> same_regs a c"
  by (simp add: same_regs_def)

lemma destroy_all_safe:
  "ls_inv gt V {} ls \<Longrightarrow> lec_inv env E (connected ls) (ls_user ls) \<Longrightarrow> cl_connections (dl_cles (ls_user ls) t) = xs \<Longrightarrow>
   safe (\<lambda>ls'. ls_inv gt V {} ls' \<and> lec_inv env E (connected ls') (ls_user ls') \<and> cl_connections (dl_cles (ls_user ls') t) = [] \<and>
       ls_entries ls' = ls_entries ls \<and> ls_registered ls' = ls_registered ls \<and> same_regs (dl_cles (ls_user ls)) (dl_cles (ls_user ls')) \<and>
       foreign_peers (ls_user ls') = foreign_peers (ls_user ls))
     (hfold (\<lambda>x. lec_destroy gt env x True) xs ls)"
proof (induction xs arbitrary: ls)
  case Nil
  then show ?case by (simp add: same_regs_def)
next
  case (Cons x xs)
  have "x \<in> set (cl_connections (dl_cles (ls_user ls) t))" using Cons.prems(3) by simp
  then obtain lec where lec: "dl_lecs (ls_user ls) x = Some lec" "lec_cle lec = t"
    using lec_inv_cle [OF Cons.prems(2), of t] unfolding cle_ok_def Let_def by blast
  obtain cc where cc: "ls_conns ls (lec_conn lec) = Some cc" and
    kill: "safe (\<lambda>ls'. \<exists>dl. ls' = (dropped (lec_conn lec) cc ls)\<lparr>ls_user := dl\<rparr> \<and> ls_inv gt V ({} - {lec_conn lec}) ls' \<and>
      lec_inv env E (connected ls') dl \<and> dl_rest (lec_gone x lec (ls_user ls)) dl \<and>
      dv_peers (dl_dv dl) = dv_peers (dl_dv (lec_gone x lec (ls_user ls)))) (lec_destroy gt env x True ls)"
    using kill_lec [OF Cons.prems(1,2) lec(1)] by blast
  show ?case
    unfolding hfold.simps
  proof (rule safe_bind [OF kill])
    fix ls1 assume "\<exists>dl. ls1 = (dropped (lec_conn lec) cc ls)\<lparr>ls_user := dl\<rparr> \<and> ls_inv gt V ({} - {lec_conn lec}) ls1 \<and>
      lec_inv env E (connected ls1) dl \<and> dl_rest (lec_gone x lec (ls_user ls)) dl \<and>
      dv_peers (dl_dv dl) = dv_peers (dl_dv (lec_gone x lec (ls_user ls)))"
    then obtain dl where d: "ls1 = (dropped (lec_conn lec) cc ls)\<lparr>ls_user := dl\<rparr>" "ls_inv gt V {} ls1" "lec_inv env E (connected ls1) dl"
      "dl_rest (lec_gone x lec (ls_user ls)) dl" "dv_peers (dl_dv dl) = dv_peers (dl_dv (lec_gone x lec (ls_user ls)))" by auto
    have user: "ls_user ls1 = dl" by (simp add: d(1))
    have cles: "dl_cles dl = dl_cles (lec_gone x lec (ls_user ls))" using d(4) by (simp add: dl_rest_def)
    have xs: "cl_connections (dl_cles (ls_user ls1) t) = xs" using Cons.prems(3) lec(2) by (simp add: user cles)
    have regs: "same_regs (dl_cles (ls_user ls)) (dl_cles (ls_user ls1))" by (simp add: user cles same_regs_def)
    have foreign: "foreign_peers (ls_user ls1) = foreign_peers (ls_user ls)"
      unfolding user by (rule gone_foreign [OF Cons.prems(2) lec(1) d(4,5)])
    have "lec_inv env E (connected ls1) (ls_user ls1)" using d(3) by (simp add: user)
    from Cons.IH [OF d(2) this xs]
    show "safe (\<lambda>ls'. ls_inv gt V {} ls' \<and> lec_inv env E (connected ls') (ls_user ls') \<and> cl_connections (dl_cles (ls_user ls') t) = [] \<and>
       ls_entries ls' = ls_entries ls \<and> ls_registered ls' = ls_registered ls \<and> same_regs (dl_cles (ls_user ls)) (dl_cles (ls_user ls')) \<and>
       foreign_peers (ls_user ls') = foreign_peers (ls_user ls)) (hfold (\<lambda>x. lec_destroy gt env x True) xs ls1)"
    proof (rule safe_mono)
      fix ls'
      assume "ls_inv gt V {} ls' \<and> lec_inv env E (connected ls') (ls_user ls') \<and> cl_connections (dl_cles (ls_user ls') t) = [] \<and>
        ls_entries ls' = ls_entries ls1 \<and> ls_registered ls' = ls_registered ls1 \<and> same_regs (dl_cles (ls_user ls1)) (dl_cles (ls_user ls')) \<and>
        foreign_peers (ls_user ls') = foreign_peers (ls_user ls1)"
      moreover have "ls_entries ls1 = ls_entries ls" "ls_registered ls1 = ls_registered ls" by (simp_all add: d(1))
      ultimately show "ls_inv gt V {} ls' \<and> lec_inv env E (connected ls') (ls_user ls') \<and> cl_connections (dl_cles (ls_user ls') t) = [] \<and>
        ls_entries ls' = ls_entries ls \<and> ls_registered ls' = ls_registered ls \<and> same_regs (dl_cles (ls_user ls)) (dl_cles (ls_user ls')) \<and>
        foreign_peers (ls_user ls') = foreign_peers (ls_user ls)"
        using foreign same_regs_trans [OF regs, of "dl_cles (ls_user ls')"] by simp
    qed
  qed
qed

text \<open>A connection that is connected and the entry it belongs to.\<close>

lemma connected_entry:
  assumes "ls_inv gt V X ls" "connected ls k = Some (t, x)"
  shows "k \<in> set (ls_lists ls (Some t))" "t \<in> tle_ptr ` set (ls_entries ls)"
proof -
  obtain cc where cc: "ls_conns ls k = Some cc" "cc_tle cc = Some t"
    using assms(2) by (auto simp: connected_def connected_as_def split: option.splits if_splits)
  from ls_invD(3,4) [OF assms(1) cc(1)] cc(2) show "k \<in> set (ls_lists ls (Some t))" "t \<in> tle_ptr ` set (ls_entries ls)" by simp_all
qed

definition listen_ok :: "'s gnutls \<Rightarrow> ('s \<Rightarrow> bool) \<Rightarrow> listen_conn_env \<Rightarrow> 's listen_state \<Rightarrow> bool" where
  "listen_ok gt V env ls \<longleftrightarrow> ls_inv gt V {} ls \<and> user_ok env ls"

lemma stop_entry_safe:
  assumes "listen_ok gt V env ls" "cl_registered (dl_cles (ls_user ls) t)"
  shows "safe (\<lambda>ls'. listen_ok gt V env ls' \<and> ls_registered ls' = ls_registered ls \<and>
      (\<forall>t'. cl_registered (dl_cles (ls_user ls') t') \<longleftrightarrow> t' \<noteq> t \<and> cl_registered (dl_cles (ls_user ls) t')) \<and>
      foreign_peers (ls_user ls') = foreign_peers (ls_user ls)) (stop_conf_listen_entry gt env t ls)" (is "safe ?P _")
proof -
  let ?dl = "ls_user ls" and ?cles = "dl_cles (ls_user ls)"
  define e where "e = cl_tle (?cles t)"
  define E where "E = filter (\<lambda>y. y \<noteq> e) (ls_entries ls)"
  define cles where "cles = ?cles(t := (?cles t)\<lparr>cl_registered := False\<rparr>)"
  have inv: "ls_inv gt V {} ls" "lec_inv env (ls_entries ls) (connected ls) ?dl" using assms(1) by (simp_all add: listen_ok_def user_ok_def)
  have reg: "cles_registered (ls_entries ls) ?cles" using inv(2) by (simp add: lec_inv_def)
  have e: "e \<in> set (ls_entries ls)" "tle_ptr e = t" using reg assms(2) by (simp_all add: cles_registered_def e_def)
  have other: "tle_ptr y \<noteq> t" if "y \<in> set (ls_entries ls)" "y \<noteq> e" for y
    using reg that by (auto simp: cles_registered_def e_def)
  have reg': "cles_registered E cles"
    unfolding cles_registered_def
  proof (intro conjI allI impI ballI)
    fix t' assume "cl_registered (cles t')"
    then have t': "t' \<noteq> t" "cl_registered (?cles t')" by (auto simp: cles_def split: if_splits)
    then have "cl_tle (?cles t') \<in> set (ls_entries ls)" "tle_ptr (cl_tle (?cles t')) = t'" using reg by (simp_all add: cles_registered_def)
    then show "cl_tle (cles t') \<in> set E" "tle_ptr (cl_tle (cles t')) = t'" using t'(1) e(2) by (auto simp: cles_def E_def)
  next
    fix y assume "y \<in> set E"
    then have y: "y \<in> set (ls_entries ls)" "y \<noteq> e" by (simp_all add: E_def)
    then show "cl_registered (cles (tle_ptr y))" "cl_tle (cles (tle_ptr y)) = y"
      using reg other [OF y] by (simp_all add: cles_registered_def cles_def)
  qed
  have inv1: "lec_inv env E (connected ls) (?dl\<lparr>dl_cles := cles\<rparr>)"
    by (rule set_cles_inv [OF inv(2) reg']) (simp_all add: cles_def)
  let ?ls = "ls\<lparr>ls_user := ?dl\<lparr>dl_cles := cles\<rparr>\<rparr>"
  have "stop_conf_listen_entry gt env t ls = hbind (hfold (\<lambda>x. lec_destroy gt env x True) (cl_connections (dl_cles (ls_user ?ls) t)) ?ls)
      (tconn_listen_entry_unregister gt (lec_ops gt env) e)"
    by (simp add: stop_conf_listen_entry_def ls_upd_def cles_def e_def Let_def)
  moreover have "safe ?P \<dots>"
  proof (rule safe_bind [OF destroy_all_safe [OF _ _ refl]])
    show "ls_inv gt V {} ?ls" "lec_inv env E (connected ?ls) (ls_user ?ls)" using inv(1) inv1 by simp_all
  next
    fix ls1
    assume d: "ls_inv gt V {} ls1 \<and> lec_inv env E (connected ls1) (ls_user ls1) \<and> cl_connections (dl_cles (ls_user ls1) t) = [] \<and>
       ls_entries ls1 = ls_entries ?ls \<and> ls_registered ls1 = ls_registered ?ls \<and> same_regs (dl_cles (ls_user ?ls)) (dl_cles (ls_user ls1)) \<and>
       foreign_peers (ls_user ls1) = foreign_peers (ls_user ?ls)"
    have e1: "e \<in> set (ls_entries ls1)" using d e(1) by simp
    obtain ls2 where u: "tconn_listen_entry_unregister gt (lec_ops gt env) e ls1 = Inr ls2" "ls_inv gt V {} ls2"
        "set (ls_entries ls2) = set (ls_entries ls1) - {e}" "ls_registered ls2 = ls_registered ls1" "ls_user ls2 = ls_user ls1"
        "\<forall>k. connected ls2 k = connected ls1 k \<or> connected ls2 k = None \<and> k \<in> set (ls_lists ls1 (Some (tle_ptr e)))"
      using tl_entry_unregister_inv [OF conjunct1 [OF d] e1, where ops = "lec_ops gt env"] by blast
    have none: "connected ls1 k = None" if k: "k \<in> set (ls_lists ls1 (Some t))" for k
    proof (rule ccontr)
      assume "connected ls1 k \<noteq> None"
      then obtain t' x where c: "connected ls1 k = Some (t', x)" by auto
      have "t' = t"
        using connected_entry(1) [OF conjunct1 [OF d] c] k d unfolding ls_inv_def ls_links_def by (metis option.inject)
      moreover obtain lec where "dl_lecs (ls_user ls1) x = Some lec" "lec_cle lec = t'" using lec_invC [OF conjunct1 [OF conjunct2 [OF d]] c] by blast
      moreover from this have "x \<in> set (cl_connections (dl_cles (ls_user ls1) t'))"
        using lec_invD(2) [of env E "connected ls1" "ls_user ls1" x lec] d by (simp add: lec_ok_def)
      ultimately show False using d by simp
    qed
    have con: "connected ls2 = connected ls1"
    proof
      fix k
      show "connected ls2 k = connected ls1 k" using u(6) [THEN spec [of _ k]] none [of k] e(2) by (cases "k \<in> set (ls_lists ls1 (Some t))") auto
    qed
    have "set E = set (ls_entries ls2)" using u(3) d by (auto simp: E_def)
    then have "lec_inv env (ls_entries ls2) (connected ls2) (ls_user ls2)" using lec_inv_set [of env E] d con u(5) by simp
    moreover have "cl_registered (dl_cles (ls_user ls2) t') \<longleftrightarrow> t' \<noteq> t \<and> cl_registered (?cles t')" for t'
      using d u(5) by (simp add: same_regs_def cles_def)
    moreover have "foreign_peers (ls_user ls2) = foreign_peers ?dl" using d u(5) by (simp add: foreign_peers_def)
    moreover have "ls_registered ls2 = ls_registered ls" using d u(4) by simp
    ultimately show "safe ?P (tconn_listen_entry_unregister gt (lec_ops gt env) e ls1)"
      using u(1,2) by (simp add: listen_ok_def user_ok_def)
  qed
  ultimately show ?thesis by simp
qed

text \<open>An entry can be started that is not registered, and whose fingerprint no other entry of the socket has.\<close>

definition start_allowed :: "nat \<Rightarrow> 's listen_state \<Rightarrow> bool" where
  "start_allowed t ls \<longleftrightarrow> (let cl = dl_cles (ls_user ls) t; tle = conf_tle t (cl_conf cl) in
     \<not> cl_registered cl \<and> tle_ok tle \<and> (\<forall>e \<in> set (ls_entries ls). tl_compare_listen_entries tle e \<noteq> 0))"

lemma start_entry_safe:
  assumes "listen_ok gt V env ls" "start_allowed t ls"
  shows "\<exists>ls'. start_conf_listen_entry t ls = Inr ls' \<and> listen_ok gt V env ls'"
proof -
  let ?dl = "ls_user ls" and ?cles = "dl_cles (ls_user ls)"
  define e where "e = conf_tle t (cl_conf (?cles t))"
  have inv: "ls_inv gt V {} ls" "lec_inv env (ls_entries ls) (connected ls) ?dl" using assms(1) by (simp_all add: listen_ok_def user_ok_def)
  have reg: "cles_registered (ls_entries ls) ?cles" using inv(2) by (simp add: lec_inv_def)
  have e: "\<not> cl_registered (?cles t)" "tle_ok e" "\<forall>y \<in> set (ls_entries ls). tl_compare_listen_entries e y \<noteq> 0" "tle_ptr e = t"
    using assms(2) by (simp_all add: start_allowed_def e_def conf_tle_def Let_def)
  have new: "t \<notin> tle_ptr ` set (ls_entries ls)" using reg e(1) by (auto simp: cles_registered_def)
  have eo: "entries_ok (ls_entries ls)" using inv(1) by (simp add: ls_inv_def ls_links_def)
  have none: "avl_find (tl_compare_listen_entries e) (ls_entries ls) = None" using e(3) by (simp add: avl_find_None_iff)
  obtain es where es: "avl_insert tl_compare_listen_entries e (ls_entries ls) = Some es"
    by (rule tle_order.insert_Some_find_None [OF _ _ none]) (use eo e(2) in \<open>simp_all add: entries_ok_def\<close>)
  have wild: "\<not> (tle_fp_type e = CONF_FP_TYPE_ANY \<and> find_wildcard_listen_entry (ls_entries ls) \<noteq> None)"
    using e(3) by (auto simp: find_wildcard_listen_entry_def tl_compare_listen_entries_def split: list.splits if_splits)
  let ?ls = "ls\<lparr>ls_entries := es, ls_lists := (ls_lists ls)(Some (tle_ptr e) := [])\<rparr>"
  have r: "ls_inv gt V {} ?ls \<and> connected ?ls = connected ls \<and> set es = insert e (set (ls_entries ls))"
    by (rule tl_entry_register_inv [OF inv(1) e(2) _ es refl]) (use new e(4) in simp)
  let ?cl = "(?cles t)\<lparr>cl_registered := True, cl_tle := e, cl_num_connections := 0, cl_connections := []\<rparr>"
  let ?dl' = "?dl\<lparr>dl_cles := ?cles(t := ?cl)\<rparr>"
  have run: "start_conf_listen_entry t ls = Inr (?ls\<lparr>ls_user := ?dl'\<rparr>)"
  proof -
    have "tconn_listen_entry_register e ls = Inr (0, ?ls)"
      using wild es unfolding tconn_listen_entry_register_def if_not_P [OF wild] by simp
    then show ?thesis by (simp add: start_conf_listen_entry_def ls_upd_def e_def Let_def)
  qed
  have no_lec: "lec_cle lec \<noteq> t" if "dl_lecs ?dl x = Some lec" for x lec
    using connected_entry(2) [OF inv(1) lec_invD(1) [OF inv(2) that]] new by auto
  have "cl_connections (?cles t) = []"
  proof (rule ccontr)
    assume "cl_connections (?cles t) \<noteq> []"
    then have "hd (cl_connections (?cles t)) \<in> set (cl_connections (?cles t))" by simp
    then show False using lec_inv_cle [OF inv(2), of t] no_lec unfolding cle_ok_def Let_def by blast
  qed
  then have n: "cl_connections (?cles t) = []" "cl_num_connections (?cles t) = 0"
    using lec_inv_cle [OF inv(2), of t] by (simp_all add: cle_ok_def Let_def)
  have reg': "cles_registered es (?cles(t := ?cl))"
    unfolding cles_registered_def
  proof (intro conjI allI impI ballI)
    fix t' assume "cl_registered ((?cles(t := ?cl)) t')"
    then show "cl_tle ((?cles(t := ?cl)) t') \<in> set es" "tle_ptr (cl_tle ((?cles(t := ?cl)) t')) = t'"
      using reg r e(4) by (cases "t' = t"; simp add: cles_registered_def)+
  next
    fix y assume "y \<in> set es"
    then consider "y = e" | "y \<in> set (ls_entries ls)" "tle_ptr y \<noteq> t" using r new by auto
    then show "cl_registered ((?cles(t := ?cl)) (tle_ptr y))" "cl_tle ((?cles(t := ?cl)) (tle_ptr y)) = y"
      using reg e(4) by (cases; simp add: cles_registered_def)+
  qed
  have "lec_inv env es (connected ls) ?dl'"
    by (rule set_cles_inv [OF inv(2) reg']) (use n in simp_all)
  then have "listen_ok gt V env (?ls\<lparr>ls_user := ?dl'\<rparr>)" using r by (simp add: listen_ok_def user_ok_def)
  with run show ?thesis by blast
qed

section \<open>The socket stops\<close>



section \<open>Everything that happens\<close>

text \<open>
  Besides the events of \<open>tl_event\<close>: the interface of a connection has a packet, an entry of the configuration is started or
  stopped, the rest of the program runs.
\<close>

datatype 's dl_event =
    Dl_tls "'s tl_event"
  | Dl_packet tl_env nat bytes
  | Dl_start nat
  | Dl_stop nat
  | Dl_rest dvpn_listen

fun dl_enabled :: "'s gnutls \<Rightarrow> ('s \<Rightarrow> bool) \<Rightarrow> 's dl_event \<Rightarrow> 's listen_state \<Rightarrow> bool" where
  "dl_enabled gt V (Dl_tls ev) ls \<longleftrightarrow> tl_enabled gt V ev ls"
| "dl_enabled gt V (Dl_packet tenv x buf) ls \<longleftrightarrow> tl_env_ok tenv \<and> dl_lecs (ls_user ls) x \<noteq> None"
| "dl_enabled gt V (Dl_start t) ls \<longleftrightarrow> start_allowed t ls"
| "dl_enabled gt V (Dl_stop t) ls \<longleftrightarrow> cl_registered (dl_cles (ls_user ls) t)"
| "dl_enabled gt V (Dl_rest dl) ls \<longleftrightarrow> dl_rest (ls_user ls) dl"

fun dl_run :: "'s gnutls \<Rightarrow> listen_conn_env \<Rightarrow> 's dl_event \<Rightarrow> 's listen_state \<Rightarrow> 's listen_state handled" where
  "dl_run gt env (Dl_tls ev) ls = tl_run gt (lec_ops gt env) ev ls"
| "dl_run gt env (Dl_packet tenv x buf) ls = lec_tun_got_packet gt (lec_ops gt env) tenv x buf ls"
| "dl_run gt env (Dl_start t) ls = start_conf_listen_entry t ls"
| "dl_run gt env (Dl_stop t) ls = stop_conf_listen_entry gt env t ls"
| "dl_run gt env (Dl_rest dl) ls = Inr (ls\<lparr>ls_user := dl\<rparr>)"

text \<open>Before the socket is registered there are no connections, and no entry is registered.\<close>

definition listen_fresh :: "listen_conn_env \<Rightarrow> 's listen_state \<Rightarrow> bool" where
  "listen_fresh env ls \<longleftrightarrow> (\<forall>k. ls_conns ls k = None) \<and> (\<forall>l. ls_lists ls l = []) \<and> open_fds (ls_calls ls) = {} \<and> xe_ok env \<and>
     dps_ok (dv_peers (dl_dv (ls_user ls))) \<and> (\<forall>x. dl_lecs (ls_user ls) x = None) \<and>
     (\<forall>t. let cl = dl_cles (ls_user ls) t in \<not> cl_registered cl \<and> cl_num_connections cl = 0 \<and> cl_connections cl = [] \<and>
        1 \<le> cle_conn_limit (cl_conf cl))"

inductive dl_reach :: "'s gnutls \<Rightarrow> ('s \<Rightarrow> bool) \<Rightarrow> listen_conn_env \<Rightarrow> 's listen_state \<Rightarrow> 's listen_state \<Rightarrow> bool"
  for gt V env ls0 where
  dl_started: "tconn_listen_socket_register senv address ls0 = (0, ls) \<Longrightarrow> dl_reach gt V env ls0 ls"
| dl_event: "dl_reach gt V env ls0 ls \<Longrightarrow> dl_enabled gt V ev ls \<Longrightarrow> dl_run gt env ev ls = Inr ls' \<Longrightarrow> dl_reach gt V env ls0 ls'"

lemma socket_register_ok:
  assumes "listen_fresh env ls0" "tconn_listen_socket_register senv address ls0 = (0, ls)"
  shows "listen_ok gt V env ls \<and> ls_registered ls"
proof -
  have ls: "ls = ls0\<lparr>ls_calls := ls_calls ls0 @ [Sys_socket (tq_socket senv), Sys_bind (tq_socket senv) address], ls_listen_fd := tq_socket senv,
      ls_registered := True, ls_lists := (ls_lists ls0)(None := []), ls_entries := []\<rparr>"
    using assms(2) by (auto simp: tconn_listen_socket_register_def ls_sys_def Let_def split: if_splits)
  have none: "connected ls k = None" for k using assms(1) by (simp add: connected_def listen_fresh_def ls)
  have limit: "0 \<le> cle_conn_limit (cl_conf (dl_cles (ls_user ls0) t))" for t
    using assms(1) by (auto simp: listen_fresh_def Let_def intro: order_trans [of 0 1])
  have "ls_inv gt V {} ls"
    using assms(1) by (simp add: ls_inv_def ls_links_def ls_fds_def ls_conn_fds_def ls_listen_fds_def listen_fresh_def entries_ok_def ls)
  moreover have "user_ok env ls"
    using assms(1) none limit by (simp add: user_ok_def lec_inv_def listen_fresh_def cles_registered_def cle_ok_def Let_def ls)
  ultimately show ?thesis by (simp add: listen_ok_def ls)
qed

lemma dl_event_safe:
  assumes "gnutls_checks gt V" "listen_ok gt V env ls" "dl_enabled gt V ev ls"
  shows "safe (listen_ok gt V env) (dl_run gt env ev ls)"
proof -
  have quiet: "lec.quiet gt V env = listen_ok gt V env" by (simp add: lec.quiet_def listen_ok_def user_ok_def fun_eq_iff)
  have inv: "ls_inv gt V {} ls" "lec_inv env (ls_entries ls) (connected ls) (ls_user ls)" using assms(2) by (simp_all add: listen_ok_def user_ok_def)
  show ?thesis
  proof (cases ev)
    case (Dl_tls e)
    then show ?thesis using lec.tl_event_inv [where gt = gt and V = V and env = env, unfolded quiet, OF assms(1,2)] assms(3) by simp
  next
    case (Dl_packet tenv x buf)
    then obtain lec where lec: "dl_lecs (ls_user ls) x = Some lec" "tl_env_ok tenv" using assms(3) by auto
    obtain cc where cc: "ls_conns ls (lec_conn lec) = Some cc" "cc_state cc = CC_CONNECTED"
      using connectedD [OF lec_invD(1) [OF inv(2) lec(1)]] by blast
    have "lec.quiet gt V env ls" using assms(2) quiet by simp
    from lec.entry_record_send_inv [OF this cc assms(1) lec(2)] show ?thesis
      using lec(1) Dl_packet by (simp add: lec_tun_got_packet_def quiet)
  next
    case (Dl_start t)
    then show ?thesis using start_entry_safe [OF assms(2), of t] assms(3) by auto
  next
    case (Dl_stop t)
    then have "safe (\<lambda>ls'. listen_ok gt V env ls') (stop_conf_listen_entry gt env t ls)"
      using stop_entry_safe [OF assms(2), of t] assms(3) by (auto elim: safe_mono)
    then show ?thesis using Dl_stop by simp
  next
    case (Dl_rest dl)
    then show ?thesis using rest_inv [OF inv(2)] inv(1) assms(3) by (simp add: listen_ok_def user_ok_def)
  qed
qed

section \<open>No event closes the socket\<close>

definition ops_registered :: "('s, 'u) listen_user_ops \<Rightarrow> bool" where
  "ops_registered ops \<longleftrightarrow>
     (\<forall>t k i ls c ls'. lu_new_conn ops t k i ls = Inr (c, ls') \<longrightarrow> ls_registered ls' = ls_registered ls) \<and>
     (\<forall>x r ls ls'. lu_record_received ops x r ls = Inr ls' \<longrightarrow> ls_registered ls' = ls_registered ls) \<and>
     (\<forall>x ls ls'. lu_disconnect ops x ls = Inr ls' \<longrightarrow> ls_registered ls' = ls_registered ls)"

lemma ls_set_registered [simp]: "ls_registered (ls_set k cc ls) = ls_registered ls" "ls_registered (ls_sys c ls) = ls_registered ls"
  by (simp_all add: ls_set_def ls_sys_def)

lemma drop_registered: "client_conn_drop gt k ls = Inr ls' \<Longrightarrow> ls_registered ls' = ls_registered ls"
  by (auto simp: client_conn_drop_def ls_list_del_def Let_def split: if_splits)

lemma kill_registered:
  "ops_registered ops \<Longrightarrow> client_conn_kill gt ops k b ls = Inr ls' \<Longrightarrow> ls_registered ls' = ls_registered ls"
  unfolding client_conn_kill_def by (auto simp: ops_registered_def dest!: drop_registered split: if_splits)

lemma accept_all_registered: "tl_accept_all k ms ls = Inr ls' \<Longrightarrow> ls_registered ls' = ls_registered ls"
proof (induction ms arbitrary: ls)
  case (Cons m ms)
  then obtain ls1 where "tl_accept k m ls = Inr ls1" "tl_accept_all k ms ls1 = Inr ls'" by auto
  moreover from this have "ls_registered ls1 = ls_registered ls" by (auto simp: tl_accept_def ls_list_del_def Let_def split: if_splits)
  ultimately show ?case using Cons.IH by metis
qed simp

lemma note_registered:
  assumes "ops_registered ops" "tl_note gt ops env k nt ls = Inr ls'"
  shows "ls_registered ls' = ls_registered ls"
proof (cases nt)
  case (Some n)
  show ?thesis
  proof (cases n)
    case Tn_handshake_done
    then have "tl_handshake_done gt ops env k ls = Inr ls'" using assms(2) Some by simp
    then show ?thesis
      using assms(1) kill_registered [OF assms(1), of gt k False]
      by (auto simp: tl_handshake_done_def ops_registered_def Let_def split: option.splits if_splits; metis)
  next
    case (Tn_record r)
    then have "tl_record_received ops env k r ls = Inr ls'" using assms(2) Some by simp
    then show ?thesis using assms(1) by (auto simp: tl_record_received_def ops_registered_def split: if_splits)
  next
    case Tn_lost
    then show ?thesis using assms(2) Some kill_registered [OF assms(1)] by (simp add: tl_connection_lost_def)
  qed
qed (use assms in simp)

lemma tl_tconn_registered:
  assumes "ops_registered ops" "tl_tconn gt ops env k f ls = Inr ls'"
  shows "ls_registered ls' = ls_registered ls"
proof -
  obtain cc tc nt ls1 where "tl_accept_all k (tn_user tc) (ls_set k (cc\<lparr>cc_tconn := tc\<lparr>tn_user := []\<rparr>\<rparr>) ls) = Inr ls1" "tl_note gt ops env k nt ls1 = Inr ls'"
    using assms(2) by (auto simp: tl_tconn_def)
  from accept_all_registered [OF this(1)] note_registered [OF assms(1) this(2)] show ?thesis by simp
qed

lemma tl_run_registered:
  assumes "ops_registered ops" "tl_run gt ops ev ls = Inr ls'"
  shows "ls_registered ls' = ls_registered ls"
proof -
  note kill = kill_registered [OF assms(1)] and tconn = tl_tconn_registered [OF assms(1)]
  show ?thesis
  proof (cases ev)
    case (Tl_accept env acc)
    then have "tl_got_connection gt ops env acc ls = Inr ls'" using assms(2) by simp
    then show ?thesis
      by (auto simp: tl_got_connection_def Let_def dest!: tconn split: option.splits if_splits)
  next
    case (Tl_rx_timeout k)
    then show ?thesis using assms(2) by (auto simp: tl_rx_timeout_def dest!: kill)
  next
    case (Tl_keepalive k env)
    then show ?thesis using assms(2) by (auto simp: tl_send_keepalive_def Let_def dest!: kill split: option.splits if_splits)
  next
    case (Tl_send k env r)
    then show ?thesis using assms(2) by (auto simp: tconn_listen_entry_record_send_def Let_def dest!: kill split: if_splits)
  qed (use assms(2) in \<open>simp_all add: tconn\<close>)
qed

lemma on_user_registered: "on_user f ls = Inr ls' \<Longrightarrow> ls_registered ls' = ls_registered ls"
  by (auto simp: on_user_def)

lemma destroy_registered: "lec_destroy gt env x d ls = Inr ls' \<Longrightarrow> ls_registered ls' = ls_registered ls"
  by (auto simp: lec_destroy_def tconn_listen_entry_disconnect_def dest!: drop_registered on_user_registered split: if_splits)

lemma lec_ops_registered: "ops_registered (lec_ops gt env)"
proof -
  have "ls_registered ls' = ls_registered ls" if "cle_new_conn gt env t k i ls = Inr (c, ls')" for t k i c and ls ls' :: "'a listen_state"
    using that
    by (auto simp: cle_new_conn_def cle_make_room_def ls_upd_def Let_def dest!: destroy_registered on_user_registered split: option.splits if_splits prod.splits)
  moreover have "ls_registered ls' = ls_registered ls" if "lec_record_received x r ls = Inr ls'" for x r and ls ls' :: "'a listen_state"
    using that by (auto simp: lec_record_received_def ls_upd_def Let_def split: option.splits if_splits)
  moreover have "ls_registered ls' = ls_registered ls" if "lec_disconnect gt env x ls = Inr ls'" for x and ls ls' :: "'a listen_state"
    using that by (auto simp: lec_disconnect_def dest!: destroy_registered split: option.splits)
  ultimately show ?thesis unfolding ops_registered_def lec_ops_def by simp
qed

lemma dl_run_registered:
  assumes "listen_ok gt V env ls" "dl_enabled gt V ev ls" "dl_run gt env ev ls = Inr ls'"
  shows "ls_registered ls' = ls_registered ls"
proof (cases ev)
  case (Dl_packet tenv x buf)
  then have "\<exists>lec :: listen_entry_conn. tl_run gt (lec_ops gt env) (Tl_send (lec_conn lec) tenv (packet_frame buf)) ls = Inr ls'"
    using assms(3) by (auto simp: lec_tun_got_packet_def)
  then obtain lec :: listen_entry_conn where "tl_run gt (lec_ops gt env) (Tl_send (lec_conn lec) tenv (packet_frame buf)) ls = Inr ls'" ..
  then show ?thesis by (rule tl_run_registered [OF lec_ops_registered])
next
  case (Dl_start t)
  then show ?thesis using assms(3)
    by (auto simp: start_conf_listen_entry_def tconn_listen_entry_register_def ls_upd_def Let_def split: if_splits option.splits)
next
  case (Dl_stop t)
  then show ?thesis using safe_Inr [OF stop_entry_safe [OF assms(1)]] assms(2,3) by fastforce
next
  case (Dl_tls e)
  then have "tl_run gt (lec_ops gt env) e ls = Inr ls'" using assms(3) by simp
  then show ?thesis by (rule tl_run_registered [OF lec_ops_registered])
qed (use assms(3) in auto)

lemma dl_reach_ok:
  assumes "gnutls_checks gt V" "listen_fresh env ls0"
  shows "dl_reach gt V env ls0 ls \<Longrightarrow> listen_ok gt V env ls \<and> ls_registered ls"
proof (induction rule: dl_reach.induct)
  case (dl_started senv address ls)
  then show ?case by (rule socket_register_ok [OF assms(2)])
next
  case (dl_event ls ev ls')
  then show ?case using safe_Inr [OF dl_event_safe [OF assms(1)]] dl_run_registered by metis
qed

section \<open>The properties\<close>


text \<open>
  C12: a peer whose certificates have been accepted by the entry \<open>t\<close> gets a connection only when no
  direct peer has its address.  Then the other connections of the entry stay, but for the last of them when there
  were as many as the limit; the new one is behind them, and the limit is kept.  When there is none, the
  connections are as before.
\<close>

theorem cle_new_conn_room:
  assumes "ls_inv gt V {k} ls" "user_ok env ls" "ls_conns ls k = Some cc" "cc_state cc = CC_KEY_ID_VERIFIED"
  shows "safe (\<lambda>(c, ls'). ls_inv gt V {k} ls' \<and> ls_conns ls' k = Some cc \<and>
      (case c of
         None \<Rightarrow> dl_lecs (ls_user ls') = dl_lecs (ls_user ls)
       | Some x \<Rightarrow> dp_find (dv_peers (dl_dv (ls_user ls))) (v6_global_addr_from_key_id (cc_id cc)) = None \<and>
           cl_connections (dl_cles (ls_user ls') t) = cle_kept (dl_cles (ls_user ls) t) @ [x] \<and>
           int (length (cl_connections (dl_cles (ls_user ls') t))) \<le> cle_conn_limit (cl_conf (dl_cles (ls_user ls') t)) \<and>
           (\<exists>lec. dl_lecs (ls_user ls') x = Some lec \<and> lec_cle lec = t \<and> lec_conn lec = k \<and> lec_peerid lec = cc_id cc \<and>
              dp_addr (lec_dp lec) = v6_global_addr_from_key_id (cc_id cc) \<and> lec_dp lec \<in> set (dv_peers (dl_dv (ls_user ls'))))))
    (cle_new_conn gt env t k (cc_id cc) ls)"
proof -
  have "length (cc_id cc) = NODE_ID_LEN" using ls_invD(1) [OF assms(1,3)] by (simp add: cc_core_def)
  moreover have "connected ls k = None" using assms(3,4) by (simp add: connected_def connected_as_def)
  ultimately show ?thesis
  proof (intro safe_mono [OF new_conn_safe [OF assms(1-3)]])
    fix r
    assume r: "case r of (c, ls') \<Rightarrow> ls_inv gt V {k} ls' \<and> ls_conns ls' k = Some cc \<and>
      lec_inv env (ls_entries ls') ((connected ls')(k := map_option (Pair t) c)) (ls_user ls') \<and>
      (case c of
         None \<Rightarrow> dl_lecs (ls_user ls') = dl_lecs (ls_user ls)
       | Some x \<Rightarrow> dp_find (dv_peers (dl_dv (ls_user ls))) (v6_global_addr_from_key_id (cc_id cc)) = None \<and>
           new_lec t k x (cc_id cc) (cle_kept (dl_cles (ls_user ls) t)) (ls_user ls'))"
    obtain c ls' where c: "r = (c, ls')" by (cases r)
    show "case r of (c, ls') \<Rightarrow> ls_inv gt V {k} ls' \<and> ls_conns ls' k = Some cc \<and>
      (case c of
         None \<Rightarrow> dl_lecs (ls_user ls') = dl_lecs (ls_user ls)
       | Some x \<Rightarrow> dp_find (dv_peers (dl_dv (ls_user ls))) (v6_global_addr_from_key_id (cc_id cc)) = None \<and>
           cl_connections (dl_cles (ls_user ls') t) = cle_kept (dl_cles (ls_user ls) t) @ [x] \<and>
           int (length (cl_connections (dl_cles (ls_user ls') t))) \<le> cle_conn_limit (cl_conf (dl_cles (ls_user ls') t)) \<and>
           (\<exists>lec. dl_lecs (ls_user ls') x = Some lec \<and> lec_cle lec = t \<and> lec_conn lec = k \<and> lec_peerid lec = cc_id cc \<and>
              dp_addr (lec_dp lec) = v6_global_addr_from_key_id (cc_id cc) \<and> lec_dp lec \<in> set (dv_peers (dl_dv (ls_user ls')))))"
    proof (cases c)
      case (Some x)
      have inv: "lec_inv env (ls_entries ls') ((connected ls')(k := map_option (Pair t) c)) (ls_user ls')"
        and new: "new_lec t k x (cc_id cc) (cle_kept (dl_cles (ls_user ls) t)) (ls_user ls')" using r c Some by simp_all
      have "int (length (cl_connections (dl_cles (ls_user ls') t))) \<le> cle_conn_limit (cl_conf (dl_cles (ls_user ls') t))"
        using lec_inv_cle [OF inv, of t] by (simp add: cle_ok_def Let_def)
      with r new lec_inv_peer [OF inv] show ?thesis unfolding c Some new_lec_def by auto
    qed (use r c in simp)
  qed
qed

text \<open>
  C29: what starting an entry does when another entry of the socket has its fingerprint.  When both are for every peer,
  the process stops.  Otherwise the entry is taken for registered, no connection will ever match it, and
  stopping it works on a list and a tree node that have never been set up.
\<close>

theorem listen_entry_duplicate:
  assumes "listen_ok gt V env ls" "\<not> cl_registered (dl_cles (ls_user ls) t)" "tle_ok (conf_tle t (cl_conf (dl_cles (ls_user ls) t)))"
    and "e \<in> set (ls_entries ls)" "tl_compare_listen_entries (conf_tle t (cl_conf (dl_cles (ls_user ls) t))) e = 0"
  shows "if cle_fp_type (cl_conf (dl_cles (ls_user ls) t)) = CONF_FP_TYPE_ANY then start_conf_listen_entry t ls = Inl (Called Abort)
    else \<exists>ls'. start_conf_listen_entry t ls = Inr ls' \<and> cl_registered (dl_cles (ls_user ls') t) \<and> ls_entries ls' = ls_entries ls \<and>
      stop_conf_listen_entry gt env t ls' = Inl Dangling"
proof -
  let ?cl = "dl_cles (ls_user ls) t"
  let ?e = "conf_tle t (cl_conf ?cl)"
  have inv: "ls_inv gt V {} ls" "lec_inv env (ls_entries ls) (connected ls) (ls_user ls)" using assms(1) by (simp_all add: listen_ok_def user_ok_def)
  have eo: "entries_ok (ls_entries ls)" using inv(1) by (simp add: ls_inv_def ls_links_def)
  have ptr: "tle_ptr ?e = t" and fp: "tle_fp_type ?e = cle_fp_type (cl_conf ?cl)" by (simp_all add: conf_tle_def)
  have new: "t \<notin> tle_ptr ` set (ls_entries ls)" using inv(2) assms(2) by (auto simp: lec_inv_def cles_registered_def)
  show ?thesis
  proof (cases "tle_fp_type ?e = CONF_FP_TYPE_ANY")
    case True
    then have "tle_fp_type e = CONF_FP_TYPE_ANY" using assms(5) by (simp add: tl_compare_listen_entries_def split: if_splits)
    from wildcard_first [OF eo assms(4) this] True show ?thesis
      unfolding fp [symmetric] by (simp add: start_conf_listen_entry_def tconn_listen_entry_register_def Let_def)
  next
    case False
    have "avl_find (tl_compare_listen_entries ?e) (ls_entries ls) \<noteq> None" using assms(4,5) by (auto simp: avl_find_None_iff)
    then have full: "avl_insert tl_compare_listen_entries ?e (ls_entries ls) = None"
      using tle_order.insert_None_find [of "ls_entries ls" ?e] eo assms(3) by (simp add: entries_ok_def)
    have empty: "ls_lists ls (Some t) = []"
    proof (rule ccontr)
      assume "ls_lists ls (Some t) \<noteq> []"
      then have h: "hd (ls_lists ls (Some t)) \<in> set (ls_lists ls (Some t))" by simp
      then obtain cc where "ls_conns ls (hd (ls_lists ls (Some t))) = Some cc" "cc_tle cc = Some t"
        using inv(1) unfolding ls_inv_def ls_links_def by blast
      from ls_invD(3) [OF inv(1) this] new show False by simp
    qed
    let ?ls = "ls_upd (\<lambda>dl. dl\<lparr>dl_cles := (dl_cles dl)(t := ?cl\<lparr>cl_registered := True, cl_tle := ?e, cl_num_connections := 0, cl_connections := []\<rparr>)\<rparr>) ls"
    have start: "start_conf_listen_entry t ls = Inr ?ls"
      using False full by (simp add: start_conf_listen_entry_def tconn_listen_entry_register_def Let_def)
    have "?e \<notin> set (ls_entries ls)" using new imageI [of ?e "set (ls_entries ls)" tle_ptr] unfolding ptr by blast
    then have stop: "stop_conf_listen_entry gt env t ?ls = Inl Dangling"
      using empty ptr by (simp add: stop_conf_listen_entry_def tconn_listen_entry_unregister_def ls_upd_def Let_def)
    have "cl_registered (dl_cles (ls_user ?ls) t)" "ls_entries ?ls = ls_entries ls" by (simp_all add: ls_upd_def)
    with start stop False fp show ?thesis by auto
  qed
qed


section \<open>Samples\<close>

text \<open>
  A gnutls whose sessions of a server are 0 when new, and 2 when the peer is accepted.  An entry at 5 of at most one connection,
  for the peer with the key id 1\dots; the entry at 6 has its fingerprint, too.
\<close>

definition sample_server :: "nat gnutls" where
  "sample_server = sample_gnutls\<lparr>
     gt_handshake := (\<lambda>s. sample_pull s s 1 (\<lambda>bs. Gverify [] (\<lambda>ret. if ret = 0 then Gret 0 [] 2 else Gret (-43) [] s))),
     gt_direction := (\<lambda>s. False)\<rparr>"

lemma sample_server_checks: "gnutls_checks sample_server (\<lambda>s. s = 2)"
proof -
  have "gnutls_ok sample_server"
    using sample_gnutls_ok by (auto simp: gnutls_ok_def sample_server_def sample_pull_def sample_again_def returns_failure_def
        returns_again_def gt_fails_def GNUTLS_E_AGAIN_def GNUTLS_E_REHANDSHAKE_def)
  then show ?thesis
    by (auto simp: gnutls_checks_def sample_server_def sample_gnutls_def sample_pull_def sample_push_def sample_again_def
        split: pull_reply.split push_reply.split)
qed

definition sample_xe :: listen_conn_env where
  "sample_xe = \<lparr>xe_ve = sample_ve, xe_calloc = (\<lambda>dl. if dl_lecs dl 4 = None then Some 4 else None), xe_rtt = (\<lambda>_. Some 10),
     xe_maxseg = (\<lambda>_. Some 1400),
     xe_listen = (\<lambda>_. \<lparr>le_socket = 9, le_reuseaddr = True, le_freebind = True, le_bind = True, le_listen = True\<rparr>)\<rparr>"

definition sample_cle :: listen_entry_state where
  "sample_cle = \<lparr>cl_conf = \<lparr>cle_name = cstr ''peer'', cle_fp_type = CONF_FP_TYPE_MATCH, cle_fingerprint = replicate 32 1,
       cle_peer_type = CONF_PEER_TYPE_DBONLY, cle_tunitf = cstr ''tun0'', cle_cost = 0, cle_conn_limit = 1\<rparr>,
     cl_registered = False, cl_tle = sample_tle 0 CONF_FP_TYPE_ANY, cl_num_connections = 0, cl_connections = []\<rparr>"

definition sample_dl :: "(nat \<Rightarrow> listen_entry_state) \<Rightarrow> dvpn_listen" where
  "sample_dl cles = \<lparr>dl_dv = sample_dvpn, dl_cles = cles, dl_lecs = (\<lambda>_. None)\<rparr>"

definition sample_ls0 :: "nat listen_state" where
  "sample_ls0 = \<lparr>ls_listen_fd = 0, ls_registered = False, ls_conns = (\<lambda>_. None), ls_lists = (\<lambda>_. []), ls_entries = [],
     ls_user = sample_dl (\<lambda>_. sample_cle), ls_calls = []\<rparr>"

definition sample_ls :: "nat listen_state" where
  "sample_ls = sample_ls0\<lparr>ls_listen_fd := 3, ls_registered := True, ls_entries := [sample_tle 5 CONF_FP_TYPE_MATCH],
     ls_user := sample_dl ((\<lambda>_. sample_cle)(5 := sample_cle\<lparr>cl_registered := True, cl_tle := sample_tle 5 CONF_FP_TYPE_MATCH\<rparr>)),
     ls_calls := [Sys_socket 3, Sys_bind 3 (dc_address 4 (replicate 32 3))]\<rparr>"

lemma sample_xe_ok: "xe_ok sample_xe"
  by (auto simp: xe_ok_def sample_xe_def listen_works_def split: if_splits)

lemma sample_ls0_fresh: "listen_fresh sample_xe sample_ls0"
  by (simp add: listen_fresh_def sample_ls0_def sample_xe_ok sample_dl_def sample_dvpn_def sample_cle_def dps_ok_def)

lemma sample_conf_tle: "conf_tle t (cl_conf sample_cle) = sample_tle t CONF_FP_TYPE_MATCH"
  by (simp add: conf_tle_def sample_cle_def sample_tle_def)

lemma sample_ls_reach: "dl_reach sample_server V sample_xe sample_ls0 sample_ls"
proof (rule dl_reach.dl_event)
  let ?ls = "sample_ls0\<lparr>ls_listen_fd := 3, ls_registered := True, ls_calls := ls_calls sample_ls\<rparr>"
  show "dl_reach sample_server V sample_xe sample_ls0 ?ls"
    by (rule dl_reach.dl_started [where senv = "\<lparr>tq_socket = 3, tq_reuseaddr = True, tq_bind = True, tq_listen = True\<rparr>" and
        address = "dc_address 4 (replicate 32 3)"])
      (simp add: tconn_listen_socket_register_def sample_ls0_def sample_ls_def ls_sys_def Let_def fun_eq_iff)
  show "dl_enabled sample_server V (Dl_start 5) ?ls"
    by (simp add: start_allowed_def sample_ls0_def sample_dl_def sample_conf_tle Let_def)
      (simp add: sample_cle_def sample_tle_def tle_ok_def NODE_ID_LEN_def)
  show "dl_run sample_server sample_xe (Dl_start 5) ?ls = Inr sample_ls"
    by (simp add: start_conf_listen_entry_def tconn_listen_entry_register_def sample_ls0_def sample_ls_def sample_dl_def sample_conf_tle
        find_wildcard_listen_entry_def ls_upd_def Let_def)
      (simp add: sample_cle_def sample_tle_def fun_eq_iff)
qed


theorem listen_entry_duplicate_witness:
  "\<exists>ls'. start_conf_listen_entry 6 sample_ls = Inr ls' \<and> cl_registered (dl_cles (ls_user ls') 6) \<and> ls_entries ls' = ls_entries sample_ls \<and>
     stop_conf_listen_entry sample_server sample_xe 6 ls' = Inl Dangling"
proof -
  have ok: "listen_ok sample_server (\<lambda>s. s = 2) sample_xe sample_ls"
    using dl_reach_ok [OF sample_server_checks sample_ls0_fresh sample_ls_reach] by blast
  have conf: "dl_cles (ls_user sample_ls) 6 = sample_cle" by (simp add: sample_ls_def sample_dl_def)
  have "\<not> cl_registered (dl_cles (ls_user sample_ls) 6)" "tle_ok (conf_tle 6 (cl_conf (dl_cles (ls_user sample_ls) 6)))"
    "sample_tle 5 CONF_FP_TYPE_MATCH \<in> set (ls_entries sample_ls)"
    "tl_compare_listen_entries (conf_tle 6 (cl_conf (dl_cles (ls_user sample_ls) 6))) (sample_tle 5 CONF_FP_TYPE_MATCH) = 0"
    unfolding conf sample_conf_tle
    by (simp_all add: sample_cle_def sample_ls_def tle_ok_def sample_tle_def NODE_ID_LEN_def tl_compare_listen_entries_def memcmp_eq_0)
  from listen_entry_duplicate [OF ok this] show ?thesis unfolding conf by (simp add: sample_cle_def)
qed

text \<open>A peer that the entry has just accepted.\<close>

definition sample_cc :: "nat client_conn" where
  "sample_cc = \<lparr>cc_fd = 8, cc_registered = True,
     cc_tconn = (zero_tconn 2)\<lparr>tn_open := True\<rparr>, cc_rx_timeout = Some \<lparr>tv_sec = 100, tv_nsec = 0\<rparr>,
     cc_state = CC_KEY_ID_VERIFIED, cc_tle = Some 5, cc_id = replicate 32 1, cc_cookie = None, cc_keepalive_timer = None\<rparr>"

definition sample_ls1 :: "nat listen_state" where
  "sample_ls1 = sample_ls\<lparr>ls_conns := [1 \<mapsto> sample_cc], ls_lists := (\<lambda>_. [])(Some 5 := [1]), ls_calls := ls_calls sample_ls @ [Sys_socket 8]\<rparr>"

lemma sample_ls1_inv: "ls_inv sample_server (\<lambda>s. s = 2) {1} sample_ls1" "user_ok sample_xe sample_ls1"
proof -
  have ok: "listen_ok sample_server (\<lambda>s. s = 2) sample_xe sample_ls"
    using dl_reach_ok [OF sample_server_checks sample_ls0_fresh sample_ls_reach] by blast
  have "cc_core sample_server sample_cc"
    by (simp add: cc_core_def sample_cc_def zero_tconn_def tls_inv_def NODE_ID_LEN_def verify_state_def verify_state_pollin_def
        verify_state_pollout_def verify_state_rx_task_def verify_state_tx_task_def)
  then have "ls_links sample_server (\<lambda>s. s = 2) {1} sample_ls1"
    using ok by (auto simp: listen_ok_def ls_inv_def ls_links_def sample_ls1_def sample_cc_def sample_ls_def sample_tle_def sample_ls0_def)
  moreover have "ls_fds sample_ls1"
    by (auto simp: ls_fds_def ls_conn_fds_def ls_listen_fds_def sample_ls1_def sample_ls_def sample_cc_def open_fds_def)
  ultimately show "ls_inv sample_server (\<lambda>s. s = 2) {1} sample_ls1" by (simp add: ls_inv_def)
  have "connected sample_ls1 = connected sample_ls"
    by (auto simp: connected_def connected_as_def sample_ls1_def sample_ls_def sample_ls0_def sample_cc_def)
  then show "user_ok sample_xe sample_ls1" using ok by (simp add: listen_ok_def user_ok_def sample_ls1_def)
qed

theorem cle_new_conn_room_witness:
  "\<exists>ls'. cle_new_conn sample_server sample_xe 5 1 (replicate 32 1) sample_ls1 = Inr (Some 4, ls') \<and>
     cl_connections (dl_cles (ls_user ls') 5) = [4] \<and>
     (\<exists>lec. dl_lecs (ls_user ls') 4 = Some lec \<and> lec_dp lec \<in> set (dv_peers (dl_dv (ls_user ls'))))"
proof -
  have "\<exists>ls'. cle_new_conn sample_server sample_xe 5 1 (replicate 32 1) sample_ls1 = Inr (Some 4, ls')"
    by (simp add: cle_new_conn_def sample_ls1_def sample_ls_def sample_ls0_def sample_dl_def sample_dvpn_def sample_xe_def sample_ve_def
        sample_cle_def dp_find_def tun_interface_register_def cle_make_room_def on_user_def cle_add_peer_def cle_setup_conn_def
        lec_start_routing_def lec_new_dls_def dgp_listen_socket_register_def dgp_listen_entry_register_def dls_sys_def ls_upd_def dl_upd_def
        tconn_listen_entry_get_maxseg_def set_current_def Let_def)
  then obtain ls' where new: "cle_new_conn sample_server sample_xe 5 1 (replicate 32 1) sample_ls1 = Inr (Some 4, ls')" ..
  have cc: "ls_conns sample_ls1 1 = Some sample_cc" "cc_state sample_cc = CC_KEY_ID_VERIFIED" "cc_id sample_cc = replicate 32 1"
    by (simp_all add: sample_ls1_def sample_cc_def)
  have "cle_kept (dl_cles (ls_user sample_ls1) 5) = []"
    by (simp add: cle_kept_def sample_ls1_def sample_ls_def sample_dl_def sample_cle_def)
  with safe_Inr [OF cle_new_conn_room [OF sample_ls1_inv cc(1,2), of 5] new [folded cc(3)]] show ?thesis using new by auto
qed

end
