(* ===== verification/Spf.thy ===== *)
theory Spf
  imports Util "HOL-Library.Multiset"
begin

text \<open>
  \<^verbatim>\<open>src/spf.c\<close>: shortest paths from one node of a graph, by the algorithm of Dijkstra with a binary
  heap.  Nodes and edges are known by their addresses; the memory \<open>g\<close> maps the address of a node to its
  contents.  The properties: for every graph within the stated bounds the run ends without a
  fault, the costs are those of the shortest paths, and the parent of a node is, among the nodes on a
  shortest path just before it, the one with the least id.
\<close>

section \<open>The code\<close>

record spf_edge =
  ed_ptr :: nat
  ed_to :: nat
  ed_cost :: int

record spf_node =
  nd_id :: bytes
  nd_cookie :: nat
  nd_edges :: "spf_edge list"
  nd_parent :: "nat option"
  nd_cost :: int
  nd_heapidx :: int

record spf_context =
  sc_nodes :: "nat list"
  sc_num_nodes :: int

type_synonym spf_mem = "nat \<Rightarrow> spf_node"

text \<open>The cost of a node that has not been reached, \<^verbatim>\<open>INT_MAX\<close>.\<close>

definition MAX_COST :: int where "MAX_COST = 2147483647"

text \<open>The sum of two \<^verbatim>\<open>int\<close>s.\<close>

definition int_add :: "int \<Rightarrow> int \<Rightarrow> int" where
  "int_add a b = sint (word_of_int (a + b) :: 32 word)"

definition spf_init :: "spf_context \<Rightarrow> spf_context" where
  "spf_init ctx = ctx\<lparr>sc_nodes := [], sc_num_nodes := 0\<rparr>"

definition spf_node_add :: "nat \<Rightarrow> spf_context \<times> spf_mem \<Rightarrow> spf_context \<times> spf_mem" where
  "spf_node_add n s =
     (let (ctx, g) = s
      in (ctx\<lparr>sc_nodes := sc_nodes ctx @ [n], sc_num_nodes := sc_num_nodes ctx + 1\<rparr>, g(n := (g n)\<lparr>nd_edges := []\<rparr>)))"

definition spf_node_del :: "nat \<Rightarrow> spf_context \<Rightarrow> spf_context outcome" where
  "spf_node_del n ctx =
     (if n \<notin> set (sc_nodes ctx) then Inl Not_linked
      else Inr (ctx\<lparr>sc_nodes := remove1 n (sc_nodes ctx), sc_num_nodes := sc_num_nodes ctx - 1\<rparr>))"

definition spf_edge_add :: "nat \<Rightarrow> spf_edge \<Rightarrow> spf_mem \<Rightarrow> spf_mem" where
  "spf_edge_add from e g = g(from := (g from)\<lparr>nd_edges := nd_edges (g from) @ [e]\<rparr>)"

definition spf_edge_del :: "nat \<Rightarrow> nat \<Rightarrow> spf_mem \<Rightarrow> spf_mem outcome" where
  "spf_edge_del from p g =
     (if p \<notin> ed_ptr ` set (nd_edges (g from)) then Inl Not_linked
      else Inr (g(from := (g from)\<lparr>nd_edges := filter (\<lambda>e. ed_ptr e \<noteq> p) (nd_edges (g from))\<rparr>)))"

text \<open>The heap is the part of the array that is in use.\<close>

definition heap_swap :: "nat \<Rightarrow> nat \<Rightarrow> spf_mem \<times> nat list \<Rightarrow> spf_mem \<times> nat list" where
  "heap_swap i j s =
     (let (g, h) = s; h = h[i := h ! j, j := h ! i];
          g = g(h ! i := (g (h ! i))\<lparr>nd_heapidx := int i\<rparr>)
      in (g(h ! j := (g (h ! j))\<lparr>nd_heapidx := int j\<rparr>), h))"

lemma length_heap_swap [simp]: "length (snd (heap_swap i j s)) = length (snd s)"
  by (simp add: heap_swap_def Let_def split: prod.split)

definition heap_cost :: "spf_mem \<times> nat list \<Rightarrow> nat \<Rightarrow> int" where
  "heap_cost s i = nd_cost (fst s (snd s ! i))"

definition min_child :: "nat \<Rightarrow> spf_mem \<times> nat list \<Rightarrow> nat" where
  "min_child index s =
     (let min = index;
          child = 2 * index + 1;
          min = (if child < length (snd s) \<and> heap_cost s min > heap_cost s child then child else min);
          child = 2 * index + 2
      in if child < length (snd s) \<and> heap_cost s min > heap_cost s child then child else min)"

lemma min_child_range: "min_child index s = index \<or> index < min_child index s \<and> min_child index s < length (snd s)"
  by (auto simp: min_child_def Let_def)

function push_down :: "nat \<Rightarrow> spf_mem \<times> nat list \<Rightarrow> spf_mem \<times> nat list" where
  "push_down index s =
     (let min = min_child index s
      in if index = min then s else push_down min (heap_swap index min s))"
  by auto

termination
proof (relation "measure (\<lambda>(index, s). length (snd s) - index)")
  fix index s min
  assume "min = min_child index s" "index \<noteq> min"
  with min_child_range [of index s] show "((min, heap_swap index min s), index, s) \<in> measure (\<lambda>(index, s). length (snd s) - index)"
    by auto
qed simp

declare push_down.simps [simp del]

fun pull_up :: "nat \<Rightarrow> spf_mem \<times> nat list \<Rightarrow> spf_mem \<times> nat list" where
  "pull_up index s =
     (if index = 0 then s
      else let parent = (index - 1) div 2
      in if heap_cost s parent \<le> heap_cost s index then s
         else pull_up parent (heap_swap index parent s))"

declare pull_up.simps [simp del]

definition nl :: "spf_node \<Rightarrow> spf_node \<Rightarrow> bool outcome" where
  "nl a b = (let ret = memcmp (nd_id a) (nd_id b) in if ret = 0 then Inl Abort else Inr (ret < 0))"

text \<open>One turn of the inner loop; \<open>num\<close> is the length of the array.\<close>

definition spf_relax :: "int \<Rightarrow> nat \<Rightarrow> spf_edge \<Rightarrow> spf_mem \<times> nat list \<Rightarrow> (spf_mem \<times> nat list) outcome" where
  "spf_relax num from e s =
     (let (g, h) = s; to = ed_to e; cost = int_add (nd_cost (g from)) (ed_cost e)
      in if cost < nd_cost (g to) then
           obind (if nd_cost (g to) = MAX_COST
                  then if num \<le> int (length h) then Inl Out_of_bounds
                       else Inr (g(to := (g to)\<lparr>nd_heapidx := int (length h)\<rparr>), h @ [to])
                  else Inr (g, h)) (\<lambda>(g, h).
           let g = g(to := (g to)\<lparr>nd_parent := Some from, nd_cost := cost\<rparr>); i = nd_heapidx (g to)
           in if i < 0 \<or> int (length h) \<le> i then Inl Out_of_bounds
              else Inr (pull_up (nat i) (g, h)))
         else if cost = nd_cost (g to) then
           (case nd_parent (g to) of
              None \<Rightarrow> Inl Null_deref
            | Some p \<Rightarrow> obind (nl (g from) (g p)) (\<lambda>less.
                Inr (if less then g(to := (g to)\<lparr>nd_parent := Some from\<rparr>) else g, h)))
         else Inr (g, h))"

text \<open>Taking the first node off the heap.\<close>

definition heap_pop :: "spf_mem \<times> nat list \<Rightarrow> nat \<times> spf_mem \<times> nat list" where
  "heap_pop s =
     (let (g, h) = s; from = hd h; g = g(from := (g from)\<lparr>nd_heapidx := -1\<rparr>)
      in if length h = 1 then (from, g, [])
         else let h = (butlast h)[0 := last h]; g = g(hd h := (g (hd h))\<lparr>nd_heapidx := 0\<rparr>)
              in (from, push_down 0 (g, h)))"

text \<open>The loop, with a bound on the number of its turns; \<open>None\<close> when that was not enough.\<close>

fun spf_loop :: "nat \<Rightarrow> int \<Rightarrow> spf_mem \<times> nat list \<Rightarrow> spf_mem outcome option" where
  "spf_loop fuel num (g, []) = Some (Inr g)"
| "spf_loop 0 num (g, n # h) = None"
| "spf_loop (Suc fuel) num (g, n # h) =
     (let (from, g, h) = heap_pop (g, n # h)
      in case ofold (spf_relax num from) (nd_edges (g from)) (g, h) of
           Inl f \<Rightarrow> Some (Inl f)
         | Inr s \<Rightarrow> spf_loop fuel num s)"

fun spf_reset :: "nat list \<Rightarrow> spf_mem \<Rightarrow> spf_mem" where
  "spf_reset [] g = g"
| "spf_reset (n # ns) g = spf_reset ns (g(n := (g n)\<lparr>nd_parent := None, nd_cost := MAX_COST, nd_heapidx := -1\<rparr>))"

definition spf_run :: "spf_context \<Rightarrow> nat \<Rightarrow> spf_mem \<Rightarrow> spf_mem outcome option" where
  "spf_run ctx source g =
     (if sc_num_nodes ctx < 1 then Some (Inl Out_of_bounds)
      else let g = spf_reset (sc_nodes ctx) g; g = g(source := (g source)\<lparr>nd_cost := 0, nd_heapidx := 0\<rparr>)
           in spf_loop (nat (sc_num_nodes ctx)) (sc_num_nodes ctx) (g, [source]))"


section \<open>The heap\<close>

definition heap_ok :: "spf_mem \<times> nat list \<Rightarrow> bool" where
  "heap_ok s \<longleftrightarrow> (\<forall>i. 0 < i \<and> i < length (snd s) \<longrightarrow> heap_cost s ((i - 1) div 2) \<le> heap_cost s i)"

text \<open>
  \<open>heap_down\<close> and \<open>heap_up\<close>: all is in order but for the node at \<open>k\<close> and those below it, or the
  one above it.
\<close>

definition heap_below :: "nat \<Rightarrow> spf_mem \<times> nat list \<Rightarrow> bool" where
  "heap_below k s \<longleftrightarrow> (0 < k \<longrightarrow> (\<forall>i. 0 < i \<and> i < length (snd s) \<and> (i - 1) div 2 = k \<longrightarrow>
     heap_cost s ((k - 1) div 2) \<le> heap_cost s i))"

definition heap_down :: "nat \<Rightarrow> spf_mem \<times> nat list \<Rightarrow> bool" where
  "heap_down k s \<longleftrightarrow> (\<forall>i. 0 < i \<and> i < length (snd s) \<and> (i - 1) div 2 \<noteq> k \<longrightarrow>
     heap_cost s ((i - 1) div 2) \<le> heap_cost s i) \<and> heap_below k s"

definition heap_up :: "nat \<Rightarrow> spf_mem \<times> nat list \<Rightarrow> bool" where
  "heap_up k s \<longleftrightarrow> (\<forall>i. 0 < i \<and> i < length (snd s) \<and> i \<noteq> k \<longrightarrow>
     heap_cost s ((i - 1) div 2) \<le> heap_cost s i) \<and> heap_below k s"

text \<open>\<open>same_but_idx\<close>: only the places of nodes in the heap differ.\<close>

definition same_but_idx :: "spf_mem \<Rightarrow> spf_mem \<Rightarrow> bool" where
  "same_but_idx g g' \<longleftrightarrow> (\<forall>n. \<exists>i. g' n = (g n)\<lparr>nd_heapidx := i\<rparr>)"

definition idx_ok :: "spf_mem \<times> nat list \<Rightarrow> bool" where
  "idx_ok s \<longleftrightarrow> distinct (snd s) \<and>
     (\<forall>i < length (snd s). nd_heapidx (fst s (snd s ! i)) = int i)"

lemma same_but_idx_refl: "same_but_idx g g"
  unfolding same_but_idx_def by (metis spf_node.surjective spf_node.update_convs(6))

lemma same_but_idx_trans: "same_but_idx a b \<Longrightarrow> same_but_idx b c \<Longrightarrow> same_but_idx a c"
  unfolding same_but_idx_def by (metis spf_node.cases spf_node.update_convs(6))

lemma same_but_idx_upd: "same_but_idx g (g(n := (g n)\<lparr>nd_heapidx := i\<rparr>))"
  using same_but_idx_refl [of g] unfolding same_but_idx_def by auto

lemma same_but_idxD:
  assumes "same_but_idx g g'"
  shows "nd_id (g' n) = nd_id (g n)" "nd_edges (g' n) = nd_edges (g n)" "nd_parent (g' n) = nd_parent (g n)"
    "nd_cost (g' n) = nd_cost (g n)" "nd_cookie (g' n) = nd_cookie (g n)"
  using assms by (auto simp: same_but_idx_def dest!: spec [of _ n])

lemma heap_swap_facts:
  assumes "idx_ok s" "i < length (snd s)" "j < length (snd s)" "i \<noteq> j"
  shows "same_but_idx (fst s) (fst (heap_swap i j s))" "snd (heap_swap i j s) = (snd s)[i := snd s ! j, j := snd s ! i]"
    "idx_ok (heap_swap i j s)" "mset (snd (heap_swap i j s)) = mset (snd s)"
    "heap_cost (heap_swap i j s) k = heap_cost s (if k = i then j else if k = j then i else k)"
proof -
  obtain g h where s: "s = (g, h)" by (cases s)
  let ?h = "h[i := h ! j, j := h ! i]"
  have h: "?h ! i = h ! j" "?h ! j = h ! i" "length ?h = length h" using assms s by auto
  have d: "distinct h" "h ! i \<noteq> h ! j" using assms s by (auto simp: idx_ok_def nth_eq_iff_index_eq)
  have sw: "heap_swap i j (g, h) = (g(h ! j := (g (h ! j))\<lparr>nd_heapidx := int i\<rparr>, h ! i := (g (h ! i))\<lparr>nd_heapidx := int j\<rparr>), ?h)"
    using d(2) by (simp add: heap_swap_def Let_def h)
  show same: "same_but_idx (fst s) (fst (heap_swap i j s))"
    unfolding s sw using same_but_idx_refl [of g] by (auto simp: same_but_idx_def)
  show "snd (heap_swap i j s) = (snd s)[i := snd s ! j, j := snd s ! i]" by (simp add: s sw)
  show ms: "mset (snd (heap_swap i j s)) = mset (snd s)"
    unfolding s sw using assms(2,3) s by (simp add: mset_swap)
  have dist: "distinct ?h" using ms d(1) unfolding s sw by (metis mset_eq_imp_distinct_iff snd_conv)
  have idx: "\<forall>k < length h. nd_heapidx (g (h ! k)) = int k"
    using assms(1) s by (auto simp: idx_ok_def)
  have "nd_heapidx (fst (heap_swap i j s) (?h ! k)) = int k" if "k < length h" for k
    using that idx d assms(2-4) s by (auto simp: s sw nth_list_update nth_eq_iff_index_eq)
  then show "idx_ok (heap_swap i j s)" using dist by (simp add: idx_ok_def s sw)
  show "heap_cost (heap_swap i j s) k = heap_cost s (if k = i then j else if k = j then i else k)"
    using assms(2-4) s d(2) by (auto simp: heap_cost_def s sw)
qed


lemma min_child_least:
  assumes "0 < i" "i < length (snd s)" "(i - 1) div 2 = k"
  shows "heap_cost s (min_child k s) \<le> heap_cost s i"
proof -
  have "i = 2 * k + 1 \<or> i = 2 * k + 2" using assms(1,3) by arith
  then show ?thesis using assms(2) by (auto simp: min_child_def Let_def)
qed

lemma min_child_le: "heap_cost s (min_child k s) \<le> heap_cost s k"
  by (auto simp: min_child_def Let_def)

lemma min_child_parent: "min_child k s \<noteq> k \<Longrightarrow> (min_child k s - 1) div 2 = k \<and> heap_cost s (min_child k s) < heap_cost s k"
  by (auto simp: min_child_def Let_def split: if_splits)

text \<open>What every change of the order of the heap keeps.\<close>

definition reordered :: "spf_mem \<times> nat list \<Rightarrow> spf_mem \<times> nat list \<Rightarrow> bool" where
  "reordered s s' \<longleftrightarrow> same_but_idx (fst s) (fst s') \<and> mset (snd s') = mset (snd s) \<and> idx_ok s'"

lemma reordered_refl: "idx_ok s \<Longrightarrow> reordered s s"
  by (simp add: reordered_def same_but_idx_refl)

lemma reordered_trans: "reordered a b \<Longrightarrow> reordered b c \<Longrightarrow> reordered a c"
  by (auto simp: reordered_def intro: same_but_idx_trans)

lemma swap_reordered:
  "idx_ok s \<Longrightarrow> i < length (snd s) \<Longrightarrow> j < length (snd s) \<Longrightarrow> i \<noteq> j \<Longrightarrow> reordered s (heap_swap i j s)"
  using heap_swap_facts(1,3,4) by (simp add: reordered_def)

lemma push_down_step:
  assumes "heap_down k s" "idx_ok s" "m = min_child k s" "m \<noteq> k"
  shows "heap_down m (heap_swap k m s)"
proof -
  have m: "m < length (snd s)" "k < m" "(m - 1) div 2 = k" "heap_cost s m < heap_cost s k"
    using min_child_range [of k s] min_child_parent [of k s] assms(3,4) by auto
  then have "k < length (snd s)" by simp
  note cost = heap_swap_facts(5) [OF assms(2) this m(1)]
  have least: "heap_cost s m \<le> heap_cost s i" if "0 < i" "i < length (snd s)" "(i - 1) div 2 = k" for i
    using min_child_least [OF that] assms(3) by simp
  have ok: "heap_cost s ((i - 1) div 2) \<le> heap_cost s i" if "0 < i" "i < length (snd s)" "(i - 1) div 2 \<noteq> k" for i
    using assms(1) that by (simp add: heap_down_def)
  have below: "heap_cost s ((k - 1) div 2) \<le> heap_cost s m" if "0 < k"
    using assms(1) that m by (auto simp: heap_down_def heap_below_def)
  have "heap_cost (heap_swap k m s) ((i - 1) div 2) \<le> heap_cost (heap_swap k m s) i"
    if i: "0 < i" "i < length (snd s)" "(i - 1) div 2 \<noteq> m" for i
  proof -
    consider "i = m" | "i = k" | "i \<noteq> m" "i \<noteq> k" "(i - 1) div 2 = k" | "i \<noteq> m" "i \<noteq> k" "(i - 1) div 2 \<noteq> k" by blast
    then show ?thesis
    proof cases
      case 1
      then show ?thesis using m by (simp add: cost)
    next
      case 2
      then have "(k - 1) div 2 < k" using i(1) by simp
      then show ?thesis using 2 i(1) m(2) below by (simp add: cost)
    next
      case 3
      then show ?thesis using least [OF i(1,2)] m by (simp add: cost)
    next
      case 4
      then show ?thesis using ok [OF i(1,2)] i(3) m by (simp add: cost)
    qed
  qed
  moreover have "heap_cost (heap_swap k m s) ((m - 1) div 2) \<le> heap_cost (heap_swap k m s) i"
    if i: "0 < i" "i < length (snd s)" "(i - 1) div 2 = m" for i
  proof -
    have "i \<noteq> m" "i \<noteq> k" using i m(2) by auto
    then show ?thesis using ok [OF i(1,2)] i(3) m by (simp add: cost)
  qed
  ultimately show ?thesis by (simp add: heap_down_def heap_below_def)
qed

lemma push_down_ok:
  "heap_down k s \<Longrightarrow> idx_ok s \<Longrightarrow> reordered s (push_down k s) \<and> heap_ok (push_down k s)"
proof (induction k s rule: push_down.induct)
  case (1 k s)
  let ?m = "min_child k s"
  show ?case
  proof (cases "k = ?m")
    case True
    have "heap_cost s ((i - 1) div 2) \<le> heap_cost s i" if "0 < i" "i < length (snd s)" for i
      using min_child_least [OF that] 1(2) that True by (cases "(i - 1) div 2 = k") (auto simp: heap_down_def)
    then have "heap_ok s" by (simp add: heap_ok_def)
    with True 1(3) show ?thesis by (subst (1 2) push_down.simps) (simp add: reordered_refl)
  next
    case False
    then have m: "?m < length (snd s)" "k < ?m" using min_child_range [of k s] by auto
    have sw: "reordered s (heap_swap k ?m s)" by (rule swap_reordered) (use 1(3) m in auto)
    then have "idx_ok (heap_swap k ?m s)" by (simp add: reordered_def)
    from 1(1) [OF refl False push_down_step [OF 1(2,3) refl] this] False
    show ?thesis by (subst (1 2) push_down.simps) (auto simp: Let_def intro: reordered_trans [OF sw])
  qed
qed

lemma pull_up_step:
  assumes "heap_up k s" "idx_ok s" "0 < k" "k < length (snd s)" "heap_cost s k < heap_cost s p" "p = (k - 1) div 2"
  shows "heap_up p (heap_swap k p s)"
proof -
  have p: "p < k" "p < length (snd s)" using assms(3,4,6) by auto
  note cost = heap_swap_facts(5) [OF assms(2,4) p(2)]
  have ok: "heap_cost s ((i - 1) div 2) \<le> heap_cost s i" if "0 < i" "i < length (snd s)" "i \<noteq> k" for i
    using assms(1) that by (simp add: heap_up_def)
  have below: "heap_cost s p \<le> heap_cost s i" if "0 < i" "i < length (snd s)" "(i - 1) div 2 = k" for i
    using assms(1,3,6) that by (auto simp: heap_up_def heap_below_def)
  have "heap_cost (heap_swap k p s) ((i - 1) div 2) \<le> heap_cost (heap_swap k p s) i"
    if i: "0 < i" "i < length (snd s)" "i \<noteq> p" for i
  proof -
    consider "i = k" | "i \<noteq> k" "(i - 1) div 2 = k" | "i \<noteq> k" "(i - 1) div 2 = p" | "i \<noteq> k" "(i - 1) div 2 \<noteq> k" "(i - 1) div 2 \<noteq> p"
      by blast
    then show ?thesis
    proof cases
      case 1
      then have "(i - 1) div 2 = p" using assms(6) by simp
      then show ?thesis unfolding \<open>(i - 1) div 2 = p\<close> using 1 p assms(5) by (simp add: cost)
    next
      case 2
      then show ?thesis using below [OF i(1,2)] i(3) p(1) by (simp add: cost)
    next
      case 3
      then show ?thesis using ok [OF i(1,2)] assms(5) i(3) p(1) by (simp add: cost)
    next
      case 4
      then show ?thesis using ok [OF i(1,2)] i(3) p(1) by (simp add: cost)
    qed
  qed
  moreover have "heap_cost (heap_swap k p s) ((p - 1) div 2) \<le> heap_cost (heap_swap k p s) i"
    if i: "0 < i" "i < length (snd s)" "(i - 1) div 2 = p" "0 < p" for i
  proof -
    have pp: "(p - 1) div 2 < p" using i(4) by simp
    have up: "heap_cost s ((p - 1) div 2) \<le> heap_cost s p" using ok [of p] i(4) p by simp
    show ?thesis
    proof (cases "i = k")
      case True
      then show ?thesis using up pp p(1) by (simp add: cost)
    next
      case False
      have "i \<noteq> p" using i by auto
      moreover have "heap_cost s p \<le> heap_cost s i" using ok [OF i(1,2) False] i(3) by simp
      ultimately show ?thesis using False up pp p(1) by (simp add: cost)
    qed
  qed
  ultimately show ?thesis by (auto simp: heap_up_def heap_below_def)
qed

lemma pull_up_ok:
  "heap_up k s \<Longrightarrow> idx_ok s \<Longrightarrow> k < length (snd s) \<Longrightarrow> reordered s (pull_up k s) \<and> heap_ok (pull_up k s)"
proof (induction k s rule: pull_up.induct)
  case (1 k s)
  let ?p = "(k - 1) div 2"
  show ?case
  proof (cases "k = 0 \<or> heap_cost s ?p \<le> heap_cost s k")
    case True
    then have "heap_ok s" using 1(2) by (auto simp: heap_up_def heap_ok_def)
    with True 1(3) show ?thesis by (subst (1 2) pull_up.simps) (auto simp: Let_def reordered_refl)
  next
    case False
    have sw: "reordered s (heap_swap k ?p s)" by (rule swap_reordered) (use 1(3,4) False in auto)
    have up: "heap_up ?p (heap_swap k ?p s)" by (rule pull_up_step [OF 1(2,3)]) (use 1(4) False in auto)
    have "idx_ok (heap_swap k ?p s)" "?p < length (snd (heap_swap k ?p s))" using sw 1(4) by (simp_all add: reordered_def)
    with 1(1) [OF _ refl _ up] False have "reordered (heap_swap k ?p s) (pull_up ?p (heap_swap k ?p s)) \<and>
        heap_ok (pull_up ?p (heap_swap k ?p s))" by simp
    with False show ?thesis by (subst (1 2) pull_up.simps) (auto simp: Let_def intro: reordered_trans [OF sw])
  qed
qed

text \<open>The first node of the heap has the least cost.\<close>

lemma heap_min:
  assumes "heap_ok s" "i < length (snd s)"
  shows "heap_cost s 0 \<le> heap_cost s i"
  using assms(2)
proof (induction i rule: less_induct)
  case (less i)
  show ?case
  proof (cases "i = 0")
    case False
    then have "heap_cost s 0 \<le> heap_cost s ((i - 1) div 2)" using less by simp
    also have "\<dots> \<le> heap_cost s i" using assms(1) False less.prems by (simp add: heap_ok_def)
    finally show ?thesis .
  qed simp
qed


lemma heap_pop_ok:
  assumes "idx_ok (g, n # h)" "heap_ok (g, n # h)"
  obtains g' h' where "heap_pop (g, n # h) = (n, g', h')" "same_but_idx g g'" "mset h' = mset h" "idx_ok (g', h')" "heap_ok (g', h')"
proof -
  let ?g1 = "g(n := (g n)\<lparr>nd_heapidx := -1\<rparr>)"
  have d: "n \<notin> set h" "distinct h"
    and idx: "\<And>i. i < Suc (length h) \<Longrightarrow> nd_heapidx (g ((n # h) ! i)) = int i"
    using assms(1) by (auto simp: idx_ok_def)
  show ?thesis
  proof (cases "h = []")
    case True
    have "idx_ok (?g1, [])" by (simp add: idx_ok_def)
    moreover have "heap_ok (?g1, [])" by (simp add: heap_ok_def)
    ultimately show ?thesis using that [of ?g1 "[]"] True by (simp add: heap_pop_def same_but_idx_upd)
  next
    case False
    let ?l = "last h"
    let ?h = "?l # butlast h" and ?g2 = "?g1(?l := (?g1 ?l)\<lparr>nd_heapidx := 0\<rparr>)"
    have l: "?l \<in> set h" "h ! (length h - 1) = ?l" using False by (simp_all add: last_conv_nth)
    have ms: "mset ?h = mset h" using append_butlast_last_id [OF False] by (metis mset.simps(2) mset_append add_mset_add_single mset_append union_commute mset.simps(1))
    have dist: "distinct ?h" using ms d(2) by (metis mset_eq_imp_distinct_iff)
    have pos: "?h ! i = (n # h) ! i" if "0 < i" "i < length h" for i
      using that by (cases i) (simp_all add: nth_butlast)
    have "nd_heapidx (?g2 (?h ! i)) = int i" if "i < length ?h" for i
    proof (cases i)
      case (Suc j)
      have i: "?h ! i = h ! j" "j < length h - 1" using that Suc by (simp_all add: nth_butlast)
      have "j < length h" using i(2) by simp
      moreover have "length h - 1 < length h" using False by simp
      ultimately have "h ! j \<noteq> ?l" unfolding l(2) [symmetric] using i(2) nth_eq_iff_index_eq [OF d(2)] by blast
      moreover have "h ! j \<noteq> n" using d(1) nth_mem [OF \<open>j < length h\<close>] by metis
      moreover have "nd_heapidx (g (h ! j)) = int i" using idx [of i] Suc \<open>j < length h\<close> by simp
      ultimately show ?thesis unfolding i(1) by simp
    qed simp
    then have idx2: "idx_ok (?g2, ?h)" using dist unfolding idx_ok_def fst_conv snd_conv by blast
    have cost: "heap_cost (?g2, ?h) i = heap_cost (g, n # h) i" if "0 < i" "i < length h" for i
      using pos [OF that] by (simp add: heap_cost_def)
    have len: "length ?h = length h" using False by simp
    have "heap_cost (?g2, ?h) ((i - 1) div 2) \<le> heap_cost (?g2, ?h) i"
      if i: "0 < i" "i < length h" "(i - 1) div 2 \<noteq> 0" for i
      using cost [of i] cost [of "(i - 1) div 2"] assms(2) i by (simp add: heap_ok_def)
    then have "heap_down 0 (?g2, ?h)" unfolding heap_down_def heap_below_def snd_conv len by blast
    from push_down_ok [OF this idx2] obtain g' h' where
      p: "push_down 0 (?g2, ?h) = (g', h')" "reordered (?g2, ?h) (g', h')" "heap_ok (g', h')"
      by (cases "push_down 0 (?g2, ?h)") auto
    have "same_but_idx g ?g2" using same_but_idx_trans [OF same_but_idx_upd [of g n "-1"] same_but_idx_upd [of ?g1 ?l 0]] .
    moreover have "heap_pop (g, n # h) = (n, push_down 0 (?g2, ?h))"
      using False by (cases h) (simp_all add: heap_pop_def Let_def)
    ultimately show ?thesis
      using that p ms by (auto simp: reordered_def intro: same_but_idx_trans)
  qed
qed

section \<open>Shortest paths\<close>

inductive spf_walk :: "spf_mem \<Rightarrow> nat \<Rightarrow> nat \<Rightarrow> int \<Rightarrow> bool" for g s where
  start: "spf_walk g s s 0"
| step: "spf_walk g s u c \<Longrightarrow> e \<in> set (nd_edges (g u)) \<Longrightarrow> spf_walk g s (ed_to e) (c + ed_cost e)"

text \<open>
  What the code needs of the graph: its edges lead to nodes of the context, no cost is negative and no path
  too long for an \<^verbatim>\<open>int\<close>; every edge to the source costs something; and of the nodes with an edge to some
  node no two have one id, and none has two edges to it.
\<close>

definition spf_ok :: "spf_mem \<Rightarrow> nat list \<Rightarrow> nat \<Rightarrow> int \<Rightarrow> bool" where
  "spf_ok g ns s w \<longleftrightarrow> distinct ns \<and> s \<in> set ns \<and> 0 \<le> w \<and> int (length ns) * w < MAX_COST \<and>
     (\<forall>u \<in> set ns. length (nd_id (g u)) = NODE_ID_LEN \<and> distinct (map ed_to (nd_edges (g u))) \<and>
        (\<forall>e \<in> set (nd_edges (g u)). ed_to e \<in> set ns \<and> 0 \<le> ed_cost e \<and> ed_cost e \<le> w \<and> (ed_to e = s \<longrightarrow> 0 < ed_cost e))) \<and>
     (\<forall>u \<in> set ns. \<forall>v \<in> set ns. \<forall>e \<in> set (nd_edges (g u)). \<forall>e' \<in> set (nd_edges (g v)).
        ed_to e = ed_to e' \<and> nd_id (g u) = nd_id (g v) \<longrightarrow> u = v)"

text \<open>
  The state in the middle of a run: \<open>P\<close> are the nodes that are finished, \<open>Q\<close> those in the heap, \<open>D\<close>
  the edges that have been followed.
\<close>

definition best_parent :: "spf_mem \<Rightarrow> (nat \<times> spf_edge) set \<Rightarrow> nat \<Rightarrow> nat \<Rightarrow> bool" where
  "best_parent g D n p \<longleftrightarrow> (\<exists>e. (p, e) \<in> D \<and> ed_to e = n \<and> nd_cost (g p) + ed_cost e = nd_cost (g n)) \<and>
     (\<forall>(u, e) \<in> D. ed_to e = n \<and> nd_cost (g u) + ed_cost e = nd_cost (g n) \<longrightarrow> 0 \<le> memcmp (nd_id (g u)) (nd_id (g p)))"

definition spf_core ::
  "spf_mem \<Rightarrow> nat list \<Rightarrow> nat \<Rightarrow> int \<Rightarrow> nat set \<Rightarrow> nat set \<Rightarrow> (nat \<times> spf_edge) set \<Rightarrow> spf_mem \<Rightarrow> bool" where
  "spf_core g0 ns s w P Q D g \<longleftrightarrow>
     (\<forall>n. nd_id (g n) = nd_id (g0 n) \<and> nd_edges (g n) = nd_edges (g0 n) \<and> nd_cookie (g n) = nd_cookie (g0 n)) \<and>
     P \<subseteq> set ns \<and> Q \<subseteq> set ns \<and> P \<inter> Q = {} \<and>
     (\<forall>n \<in> set ns. nd_cost (g n) = MAX_COST \<longleftrightarrow> n \<notin> P \<union> Q) \<and>
     (\<forall>n \<in> P \<union> Q. spf_walk g0 s n (nd_cost (g n)) \<and> 0 \<le> nd_cost (g n) \<and> nd_cost (g n) \<le> int (card P) * w) \<and>
     (\<forall>(u, e) \<in> D. u \<in> P \<and> e \<in> set (nd_edges (g0 u)) \<and> nd_cost (g (ed_to e)) \<le> nd_cost (g u) + ed_cost e) \<and>
     (\<forall>u \<in> P. \<forall>v \<in> Q. nd_cost (g u) \<le> nd_cost (g v)) \<and>
     s \<in> P \<union> Q \<and> nd_cost (g s) = 0 \<and> nd_parent (g s) = None \<and>
     (\<forall>n \<in> P \<union> Q - {s}. \<exists>p. nd_parent (g n) = Some p \<and> best_parent g D n p) \<and>
     (\<forall>n \<in> set ns - (P \<union> Q). nd_parent (g n) = None)"

lemma core_same:
  assumes "spf_core g0 ns s w P Q D g" "same_but_idx g g'"
  shows "spf_core g0 ns s w P Q D g'"
  using assms(1) unfolding spf_core_def best_parent_def same_but_idxD [OF assms(2)] .


lemma coreD:
  assumes "spf_core g0 ns s w P Q D g"
  shows "nd_id (g n) = nd_id (g0 n)" "nd_edges (g n) = nd_edges (g0 n)" "P \<subseteq> set ns" "Q \<subseteq> set ns" "P \<inter> Q = {}"
    "n \<in> set ns \<Longrightarrow> nd_cost (g n) = MAX_COST \<longleftrightarrow> n \<notin> P \<union> Q"
    "n \<in> P \<union> Q \<Longrightarrow> spf_walk g0 s n (nd_cost (g n)) \<and> 0 \<le> nd_cost (g n) \<and> nd_cost (g n) \<le> int (card P) * w"
    "(u, e) \<in> D \<Longrightarrow> u \<in> P \<and> e \<in> set (nd_edges (g0 u)) \<and> nd_cost (g (ed_to e)) \<le> nd_cost (g u) + ed_cost e"
    "u \<in> P \<Longrightarrow> v \<in> Q \<Longrightarrow> nd_cost (g u) \<le> nd_cost (g v)" "s \<in> P \<union> Q" "nd_cost (g s) = 0" "nd_parent (g s) = None"
    "n \<in> P \<union> Q - {s} \<Longrightarrow> \<exists>p. nd_parent (g n) = Some p \<and> best_parent g D n p"
    "n \<in> set ns - (P \<union> Q) \<Longrightarrow> nd_parent (g n) = None" "nd_cookie (g n) = nd_cookie (g0 n)"
  using assms unfolding spf_core_def by blast+

lemma okD:
  assumes "spf_ok g ns s w"
  shows "distinct ns" "s \<in> set ns" "0 \<le> w" "int (length ns) * w < MAX_COST"
    "u \<in> set ns \<Longrightarrow> length (nd_id (g u)) = NODE_ID_LEN" "u \<in> set ns \<Longrightarrow> distinct (map ed_to (nd_edges (g u)))"
    "u \<in> set ns \<Longrightarrow> e \<in> set (nd_edges (g u)) \<Longrightarrow>
       ed_to e \<in> set ns \<and> 0 \<le> ed_cost e \<and> ed_cost e \<le> w \<and> (ed_to e = s \<longrightarrow> 0 < ed_cost e)"
    "u \<in> set ns \<Longrightarrow> v \<in> set ns \<Longrightarrow> e \<in> set (nd_edges (g u)) \<Longrightarrow> e' \<in> set (nd_edges (g v)) \<Longrightarrow>
       ed_to e = ed_to e' \<Longrightarrow> nd_id (g u) = nd_id (g v) \<Longrightarrow> u = v"
  using assms unfolding spf_ok_def by blast+

lemma best_parent_keep:
  assumes "best_parent g D n p" "\<forall>(u, e') \<in> D. nd_cost (g' u) = nd_cost (g u)" "nd_cost (g' n) = nd_cost (g n)"
    "\<And>u. nd_id (g' u) = nd_id (g u)" "\<not> (ed_to e = n \<and> nd_cost (g' v) + ed_cost e = nd_cost (g n))"
  shows "best_parent g' (insert (v, e) D) n p"
proof -
  obtain e' where "(p, e') \<in> D" "ed_to e' = n" "nd_cost (g p) + ed_cost e' = nd_cost (g n)"
    using assms(1) unfolding best_parent_def by blast
  moreover have "0 \<le> memcmp (nd_id (g' u)) (nd_id (g' p))"
    if "(u, e') \<in> insert (v, e) D" "ed_to e' = n" "nd_cost (g' u) + ed_cost e' = nd_cost (g' n)" for u e'
  proof -
    have "(u, e') \<in> D" using that assms(3,5) by auto
    then show ?thesis using that assms(1-4) unfolding best_parent_def by fastforce
  qed
  ultimately show ?thesis unfolding best_parent_def using assms(2,3) by fastforce
qed

text \<open>Following an edge that brings a lower cost; one that brings the same cost; one that brings nothing.\<close>

lemma core_lower:
  assumes core: "spf_core g0 ns s w P Q D g" and ok: "spf_ok g0 ns s w" and fP: "from \<in> P"
    and max: "\<forall>u \<in> P. nd_cost (g u) \<le> nd_cost (g from)" and room: "nd_cost (g from) + w \<le> int (card P) * w"
    and e: "e \<in> set (nd_edges (g0 from))" and c: "c = nd_cost (g from) + ed_cost e" and less: "c < nd_cost (g (ed_to e))"
  shows "ed_to e \<notin> P" "ed_to e \<noteq> s"
    "spf_core g0 ns s w P (insert (ed_to e) Q) (insert (from, e) D)
       (g(ed_to e := (g (ed_to e))\<lparr>nd_parent := Some from, nd_cost := c\<rparr>))"
proof -
  let ?t = "ed_to e"
  let ?g = "g(?t := (g ?t)\<lparr>nd_parent := Some from, nd_cost := c\<rparr>)"
  have fr: "from \<in> set ns" using coreD(3) [OF core] fP by blast
  note eok = okD(7) [OF ok fr e]
  have c0: "0 \<le> nd_cost (g from)" using coreD(7) [OF core, of "from"] fP by blast
  then have "0 \<le> c" using c eok by simp
  have "int (card P) * w \<le> int (length ns) * w"
    using okD(3) [OF ok] card_mono [OF finite_set coreD(3) [OF core]] card_length [of ns] by (intro mult_right_mono) auto
  then have "c < MAX_COST" using c eok room okD(4) [OF ok] by linarith
  have cw: "c \<le> int (card P) * w" using c eok room by linarith
  show tP: "?t \<notin> P" using less max c eok by force
  show ts: "?t \<noteq> s" using less \<open>0 \<le> c\<close> coreD(11) [OF core] by auto
  have ft: "from \<noteq> ?t" using fP tP by auto
  have walk: "spf_walk g0 s ?t c" unfolding c using spf_walk.step [of g0 s "from" _ e, OF _ e] coreD(7) [OF core, of "from"] fP by blast
  have cost: "nd_cost (?g u) = nd_cost (g u)" if "u \<in> P" for u using that tP by auto
  have edges: "u \<in> P \<and> e' \<in> set (nd_edges (g0 u)) \<and> nd_cost (?g (ed_to e')) \<le> nd_cost (?g u) + ed_cost e'"
    if "(u, e') \<in> insert (from, e) D" for u e'
  proof (cases "(u, e') = (from, e)")
    case True
    then show ?thesis using fP e c ft by simp
  next
    case False
    then have "(u, e') \<in> D" using that False by blast
    from coreD(8) [OF core this] show ?thesis using cost less by (cases "ed_to e' = ?t") auto
  qed
  have parent: "\<exists>p. nd_parent (?g n) = Some p \<and> best_parent ?g (insert (from, e) D) n p" if n: "n \<in> P \<union> insert ?t Q - {s}" for n
  proof (cases "n = ?t")
    case True
    have "0 \<le> memcmp (nd_id (?g u)) (nd_id (?g from))"
      if u: "(u, e') \<in> insert (from, e) D" "ed_to e' = ?t" "nd_cost (?g u) + ed_cost e' = c" for u e'
    proof (cases "(u, e') \<in> D")
      case True
      then show ?thesis using coreD(8) [OF core True] u(2,3) less cost [of u] by simp
    next
      case False
      then show ?thesis using u by simp
    qed
    then show ?thesis using True ft c unfolding best_parent_def by (intro exI [of _ "from"]) auto
  next
    case False
    then obtain p where p: "nd_parent (g n) = Some p" "best_parent g D n p" using coreD(13) [OF core, of n] n by blast
    have "\<forall>(u, e') \<in> D. nd_cost (?g u) = nd_cost (g u)" using coreD(8) [OF core] cost by blast
    then have "best_parent ?g (insert (from, e) D) n p" by (rule best_parent_keep [OF p(2)]) (use False in auto)
    then show ?thesis using p(1) False by auto
  qed
  show "spf_core g0 ns s w P (insert ?t Q) (insert (from, e) D) ?g"
    unfolding spf_core_def
  proof (intro conjI)
    show "\<forall>n. nd_id (?g n) = nd_id (g0 n) \<and> nd_edges (?g n) = nd_edges (g0 n) \<and> nd_cookie (?g n) = nd_cookie (g0 n)"
      using coreD(1,2,15) [OF core] by simp
    show "P \<subseteq> set ns" "insert ?t Q \<subseteq> set ns" "P \<inter> insert ?t Q = {}" using coreD(3-5) [OF core] eok tP by auto
    show "\<forall>n \<in> set ns. nd_cost (?g n) = MAX_COST \<longleftrightarrow> n \<notin> P \<union> insert ?t Q"
      using coreD(6) [OF core] \<open>c < MAX_COST\<close> by auto
    show "\<forall>n \<in> P \<union> insert ?t Q. spf_walk g0 s n (nd_cost (?g n)) \<and> 0 \<le> nd_cost (?g n) \<and> nd_cost (?g n) \<le> int (card P) * w"
      using coreD(7) [OF core] walk \<open>0 \<le> c\<close> cw by auto
    show "\<forall>(u, e') \<in> insert (from, e) D. u \<in> P \<and> e' \<in> set (nd_edges (g0 u)) \<and> nd_cost (?g (ed_to e')) \<le> nd_cost (?g u) + ed_cost e'"
      using edges by blast
    show "\<forall>u \<in> P. \<forall>v \<in> insert ?t Q. nd_cost (?g u) \<le> nd_cost (?g v)"
      using coreD(9) [OF core] max c eok tP by force
    show "s \<in> P \<union> insert ?t Q" "nd_cost (?g s) = 0" "nd_parent (?g s) = None" using coreD(10-12) [OF core] ts by auto
    show "\<forall>n \<in> P \<union> insert ?t Q - {s}. \<exists>p. nd_parent (?g n) = Some p \<and> best_parent ?g (insert (from, e) D) n p"
      using parent by blast
    show "\<forall>n \<in> set ns - (P \<union> insert ?t Q). nd_parent (?g n) = None" using coreD(14) [OF core] by auto
  qed
qed

lemma core_follow:
  assumes core: "spf_core g0 ns s w P Q D g" and fP: "from \<in> P" and e: "e \<in> set (nd_edges (g0 from))"
    and le: "nd_cost (g (ed_to e)) \<le> nd_cost (g from) + ed_cost e"
    and same: "\<And>n. nd_id (g' n) = nd_id (g n) \<and> nd_edges (g' n) = nd_edges (g n) \<and> nd_cost (g' n) = nd_cost (g n) \<and>
      nd_cookie (g' n) = nd_cookie (g n)"
    and out: "\<And>n. n \<notin> P \<union> Q - {s} \<Longrightarrow> nd_parent (g' n) = nd_parent (g n)"
    and parent: "\<And>n. n \<in> P \<union> Q - {s} \<Longrightarrow> \<exists>p. nd_parent (g' n) = Some p \<and> best_parent g' (insert (from, e) D) n p"
  shows "spf_core g0 ns s w P Q (insert (from, e) D) g'"
  unfolding spf_core_def
proof (intro conjI)
  show "\<forall>(u, e') \<in> insert (from, e) D. u \<in> P \<and> e' \<in> set (nd_edges (g0 u)) \<and> nd_cost (g' (ed_to e')) \<le> nd_cost (g' u) + ed_cost e'"
    using coreD(8) [OF core] fP e le same by auto
  show "\<forall>n \<in> P \<union> Q - {s}. \<exists>p. nd_parent (g' n) = Some p \<and> best_parent g' (insert (from, e) D) n p" using parent by blast
  show "\<forall>n \<in> P \<union> Q. spf_walk g0 s n (nd_cost (g' n)) \<and> 0 \<le> nd_cost (g' n) \<and> nd_cost (g' n) \<le> int (card P) * w"
    using coreD(7) [OF core] same by auto
qed (use coreD(1-6,9-12,14,15) [OF core] same out in auto)

lemma core_no_change:
  assumes core: "spf_core g0 ns s w P Q D g" and fP: "from \<in> P" and e: "e \<in> set (nd_edges (g0 from))"
    and less: "nd_cost (g (ed_to e)) < nd_cost (g from) + ed_cost e"
  shows "spf_core g0 ns s w P Q (insert (from, e) D) g"
proof (rule core_follow [OF core fP e])
  fix n
  assume "n \<in> P \<union> Q - {s}"
  then obtain p where p: "nd_parent (g n) = Some p" "best_parent g D n p" using coreD(13) [OF core] by blast
  have "best_parent g (insert (from, e) D) n p" by (rule best_parent_keep [OF p(2)]) (use less in auto)
  then show "\<exists>p. nd_parent (g n) = Some p \<and> best_parent g (insert (from, e) D) n p" using p(1) by blast
qed (use less in auto)

lemma memcmp_le_less:
  "length a = length b \<Longrightarrow> length b = length c \<Longrightarrow> 0 \<le> memcmp a c \<Longrightarrow> memcmp b c < 0 \<Longrightarrow> 0 \<le> memcmp a b"
  using memcmp_trans [of a b c] by linarith

lemma best_parent_upd: "best_parent (g(t := (g t)\<lparr>nd_parent := x\<rparr>)) D n p \<longleftrightarrow> best_parent g D n p"
proof -
  let ?g = "g(t := (g t)\<lparr>nd_parent := x\<rparr>)"
  have "nd_cost (?g u) = nd_cost (g u)" "nd_id (?g u) = nd_id (g u)" for u by auto
  then show ?thesis unfolding best_parent_def by presburger
qed

lemma core_tie:
  assumes core: "spf_core g0 ns s w P Q D g" and ok: "spf_ok g0 ns s w" and fP: "from \<in> P" and e: "e \<in> set (nd_edges (g0 from))"
    and new: "(from, e) \<notin> D" and eq: "nd_cost (g from) + ed_cost e = nd_cost (g (ed_to e))"
    and t: "ed_to e \<in> P \<union> Q - {s}"
  obtains p where "nd_parent (g (ed_to e)) = Some p" "memcmp (nd_id (g from)) (nd_id (g p)) \<noteq> 0"
    "memcmp (nd_id (g from)) (nd_id (g p)) < 0 \<Longrightarrow>
       spf_core g0 ns s w P Q (insert (from, e) D) (g(ed_to e := (g (ed_to e))\<lparr>nd_parent := Some from\<rparr>))"
    "\<not> memcmp (nd_id (g from)) (nd_id (g p)) < 0 \<Longrightarrow> spf_core g0 ns s w P Q (insert (from, e) D) g"
proof -
  let ?t = "ed_to e"
  let ?g = "g(?t := (g ?t)\<lparr>nd_parent := Some from\<rparr>)"
  obtain p where p: "nd_parent (g ?t) = Some p" "best_parent g D ?t p" using coreD(13) [OF core t] by blast
  then obtain e' where e': "(p, e') \<in> D" "ed_to e' = ?t" unfolding best_parent_def by blast
  have sub: "P \<subseteq> set ns" by (rule coreD(3) [OF core])
  have pP: "p \<in> P" "e' \<in> set (nd_edges (g0 p))" using coreD(8) [OF core e'(1)] by auto
  have len: "length (nd_id (g u)) = NODE_ID_LEN" if "u \<in> P" for u
    using okD(5) [OF ok, of u] that sub coreD(1) [OF core] by auto
  have other: "\<exists>q. nd_parent (g' n) = Some q \<and> best_parent g' (insert (from, e) D) n q"
    if n: "n \<in> P \<union> Q - {s}" "n \<noteq> ?t" "g' = g \<or> g' = ?g" for n g'
  proof -
    obtain q where q: "nd_parent (g n) = Some q" "best_parent g D n q" using coreD(13) [OF core n(1)] by blast
    have "best_parent g' (insert (from, e) D) n q" by (rule best_parent_keep [OF q(2)]) (use n in auto)
    then show ?thesis using q(1) n by auto
  qed
  have ne: "memcmp (nd_id (g from)) (nd_id (g p)) \<noteq> 0"
  proof
    assume "memcmp (nd_id (g from)) (nd_id (g p)) = 0"
    then have "nd_id (g0 from) = nd_id (g0 p)" using memcmp_eq_0 [of "nd_id (g from)" "nd_id (g p)"] len fP pP(1) coreD(1) [OF core] by auto
    then have "from = p" using okD(8) [OF ok _ _ e pP(2)] sub fP pP(1) e'(2) by auto
    moreover have "distinct (map ed_to (nd_edges (g0 p)))" using okD(6) [OF ok] sub pP(1) by auto
    ultimately have "e = e'" using e pP(2) e'(2) by (metis distinct_map inj_onD)
    then show False using new e'(1) \<open>from = p\<close> by simp
  qed
  show thesis
  proof (rule that [OF p(1) ne])
    assume less: "memcmp (nd_id (g from)) (nd_id (g p)) < 0"
    show "spf_core g0 ns s w P Q (insert (from, e) D) ?g"
    proof (rule core_follow [OF core fP e])
      fix n
      assume n: "n \<in> P \<union> Q - {s}"
      show "\<exists>q. nd_parent (?g n) = Some q \<and> best_parent ?g (insert (from, e) D) n q"
      proof (cases "n = ?t")
        case True
        have "0 \<le> memcmp (nd_id (g u)) (nd_id (g from))"
          if u: "(u, e'') \<in> insert (from, e) D" "ed_to e'' = ?t" "nd_cost (g u) + ed_cost e'' = nd_cost (g ?t)" for u e''
        proof (cases "(u, e'') \<in> D")
          case True
          then have "0 \<le> memcmp (nd_id (g u)) (nd_id (g p))" "u \<in> P" using p(2) u coreD(8) [OF core True] unfolding best_parent_def by auto
          then show ?thesis using memcmp_le_less [OF _ _ _ less] len fP pP(1) by simp
        next
          case False
          then show ?thesis using u by simp
        qed
        then have "best_parent g (insert (from, e) D) ?t from" using eq unfolding best_parent_def by blast
        then show ?thesis using True by (simp add: best_parent_upd)
      qed (use other [OF n] in blast)
    qed (use eq t in auto)
  next
    assume less: "\<not> memcmp (nd_id (g from)) (nd_id (g p)) < 0"
    show "spf_core g0 ns s w P Q (insert (from, e) D) g"
    proof (rule core_follow [OF core fP e])
      fix n
      assume n: "n \<in> P \<union> Q - {s}"
      show "\<exists>q. nd_parent (g n) = Some q \<and> best_parent g (insert (from, e) D) n q"
      proof (cases "n = ?t")
        case True
        then have "best_parent g (insert (from, e) D) n p" using p(2) less unfolding best_parent_def by auto
        then show ?thesis using p(1) True by simp
      qed (use other [OF n] in blast)
    qed (use eq in auto)
  qed
qed

lemma int_add_exact: "0 \<le> a + b \<Longrightarrow> a + b < MAX_COST \<Longrightarrow> int_add a b = a + b"
  unfolding int_add_def MAX_COST_def signed_of_int by (simp add: signed_take_bit_int_eq_self)

text \<open>The node whose cost falls is put in its place of the heap.\<close>

lemma heap_ok_up:
  assumes "heap_ok s" "k < length (snd s)"
  shows "heap_up k s"
proof -
  have "heap_cost s ((k - 1) div 2) \<le> heap_cost s i" if "0 < k" "0 < i" "i < length (snd s)" "(i - 1) div 2 = k" for i
  proof -
    have "heap_cost s ((k - 1) div 2) \<le> heap_cost s k" using assms that(1) by (simp add: heap_ok_def)
    also have "heap_cost s k \<le> heap_cost s i" using assms(1) that by (auto simp: heap_ok_def)
    finally show ?thesis .
  qed
  then show ?thesis using assms(1) by (simp add: heap_ok_def heap_up_def heap_below_def)
qed

lemma heap_append_up:
  assumes "heap_ok (g, h)" "\<forall>m \<in> set h. nd_cost (g' m) = nd_cost (g m)"
  shows "heap_up (length h) (g', h @ [n])"
proof -
  have "heap_cost (g', h @ [n]) i = heap_cost (g, h) i" if "i < length h" for i
    using that assms(2) by (simp add: heap_cost_def nth_append)
  moreover have "(i - 1) div 2 < length h" if "0 < i" "i < Suc (length h)" for i using that by linarith
  ultimately show ?thesis using assms(1) by (auto simp: heap_up_def heap_below_def heap_ok_def)
qed

lemma idx_ok_cong: "(\<And>m. nd_heapidx (g' m) = nd_heapidx (g m)) \<Longrightarrow> idx_ok (g', h) \<longleftrightarrow> idx_ok (g, h)"
  by (simp add: idx_ok_def)

lemma heap_ok_cong: "(\<And>m. nd_cost (g' m) = nd_cost (g m)) \<Longrightarrow> heap_ok (g', h) \<longleftrightarrow> heap_ok (g, h)"
  by (simp add: heap_ok_def heap_cost_def)

lemma pull_up_lower:
  assumes "idx_ok (g, h)" "k < length h" "heap_up k (g, h)" "c \<le> nd_cost (g n)" "n = h ! k"
  obtains g' h' where "pull_up k (g(n := (g n)\<lparr>nd_parent := p, nd_cost := c\<rparr>), h) = (g', h')"
    "same_but_idx (g(n := (g n)\<lparr>nd_parent := p, nd_cost := c\<rparr>)) g'" "set h' = set h" "idx_ok (g', h')" "heap_ok (g', h')"
proof -
  let ?g = "g(n := (g n)\<lparr>nd_parent := p, nd_cost := c\<rparr>)"
  have d: "distinct h" using assms(1) by (simp add: idx_ok_def)
  have cost: "heap_cost (?g, h) i = (if i = k then c else heap_cost (g, h) i)" if "i < length h" for i
    using that assms(2,5) nth_eq_iff_index_eq [OF d] by (simp add: heap_cost_def)
  have ck: "c \<le> heap_cost (g, h) k" using assms(4,5) by (simp add: heap_cost_def)
  have "idx_ok (?g, h)" using assms(1) idx_ok_cong [of ?g g] by simp
  moreover have "heap_up k (?g, h)"
    unfolding heap_up_def heap_below_def
  proof (intro conjI allI impI)
    fix i
    assume i: "0 < i \<and> i < length (snd (?g, h)) \<and> i \<noteq> k"
    then have "heap_cost (g, h) ((i - 1) div 2) \<le> heap_cost (g, h) i" "(i - 1) div 2 < length h"
      using assms(3) by (auto simp: heap_up_def)
    then show "heap_cost (?g, h) ((i - 1) div 2) \<le> heap_cost (?g, h) i"
      using ck i cost by (cases "(i - 1) div 2 = k") auto
  next
    fix i
    assume k: "0 < k" and i: "0 < i \<and> i < length (snd (?g, h)) \<and> (i - 1) div 2 = k"
    have "(k - 1) div 2 \<noteq> k" "(k - 1) div 2 < length h" "i \<noteq> k" using k assms(2) i by auto
    moreover have "heap_cost (g, h) ((k - 1) div 2) \<le> heap_cost (g, h) i"
      using assms(3) k i by (simp add: heap_up_def heap_below_def)
    ultimately show "heap_cost (?g, h) ((k - 1) div 2) \<le> heap_cost (?g, h) i" using i cost by simp
  qed
  ultimately have "reordered (?g, h) (pull_up k (?g, h)) \<and> heap_ok (pull_up k (?g, h))"
    using assms(2) by (intro pull_up_ok) auto
  then show thesis using that by (cases "pull_up k (?g, h)") (auto simp: reordered_def dest: mset_eq_setD)
qed

lemma relax_ok:
  assumes ok: "spf_ok g0 ns s w" and core: "spf_core g0 ns s w P (set h) D g" and heap: "idx_ok (g, h)" "heap_ok (g, h)"
    and fP: "from \<in> P" and max: "\<forall>u \<in> P. nd_cost (g u) \<le> nd_cost (g from)" and room: "nd_cost (g from) + w \<le> int (card P) * w"
    and e: "e \<in> set (nd_edges (g0 from))" and new: "(from, e) \<notin> D"
  obtains g' h' where "spf_relax (int (length ns)) from e (g, h) = Inr (g', h')"
    "spf_core g0 ns s w P (set h') (insert (from, e) D) g'" "idx_ok (g', h')" "heap_ok (g', h')"
    "\<forall>u \<in> P. nd_cost (g' u) = nd_cost (g u)"
proof -
  let ?t = "ed_to e"
  let ?c = "nd_cost (g from) + ed_cost e"
  let ?upd = "\<lambda>g. g(?t := (g ?t)\<lparr>nd_parent := Some from, nd_cost := ?c\<rparr>)"
  have fr: "from \<in> set ns" using coreD(3) [OF core] fP by blast
  note eok = okD(7) [OF ok fr e]
  have "int (card P) * w \<le> int (length ns) * w"
    using okD(3) [OF ok] card_mono [OF finite_set coreD(3) [OF core]] card_length [of ns] by (intro mult_right_mono) auto
  then have less: "?c < MAX_COST" using eok room okD(4) [OF ok] by linarith
  have pos: "0 \<le> nd_cost (g from)" using coreD(7) [OF core, of "from"] fP by blast
  have add: "int_add (nd_cost (g from)) (ed_cost e) = ?c" using int_add_exact less pos eok by simp
  consider "?c < nd_cost (g ?t)" | "?c = nd_cost (g ?t)" | "nd_cost (g ?t) < ?c" by linarith
  then show thesis
  proof cases
    case 1
    note low = core_lower [OF core ok fP max room e refl 1]
    have P: "nd_cost (g' u) = nd_cost (g u)" if "u \<in> P" "same_but_idx (?upd g) g'" for u g'
      using same_but_idxD(4) [OF that(2), of u] that(1) low(1) by auto
    show thesis
    proof (cases "?t \<in> set h")
      case True
      then obtain k where k: "k < length h" "h ! k = ?t" by (auto simp: in_set_conv_nth)
      have idx: "nd_heapidx (g ?t) = int k" using heap(1) k by (auto simp: idx_ok_def)
      have "nd_cost (g ?t) \<noteq> MAX_COST" using coreD(6) [OF core, of ?t] eok True by blast
      then have "spf_relax (int (length ns)) from e (g, h) = Inr (pull_up k (?upd g, h))"
        using 1 add idx k(1) by (simp add: spf_relax_def Let_def obind_def)
      moreover obtain g' h' where "pull_up k (?upd g, h) = (g', h')" "same_but_idx (?upd g) g'" "set h' = set h" "idx_ok (g', h')" "heap_ok (g', h')"
      proof (rule pull_up_lower [OF heap(1) k(1) heap_ok_up [OF heap(2)], of ?c ?t "Some from"])
        show "?c \<le> nd_cost (g ?t)" using 1 by simp
      qed (use k in auto)
      ultimately show thesis
        using that [of g' h'] core_same [OF low(3)] P True by (simp add: insert_absorb)
    next
      case False
      then have tQ: "?t \<notin> P \<union> set h" using low(1) by blast
      then have unseen: "nd_cost (g ?t) = MAX_COST" using coreD(6) [OF core, of ?t] eok by blast
      have "distinct h" using heap(1) by (simp add: idx_ok_def)
      have sub: "insert ?t (set h) \<subseteq> set ns" using coreD(4) [OF core] eok by blast
      have "card (insert ?t (set h)) = Suc (length h)" using False \<open>distinct h\<close> by (simp add: distinct_card)
      then have room2: "length h < length ns"
        using card_mono [OF finite_set sub] card_length [of ns] by linarith
      let ?g1 = "g(?t := (g ?t)\<lparr>nd_heapidx := int (length h)\<rparr>)"
      let ?h1 = "h @ [?t]"
      have idx1: "idx_ok (?g1, ?h1)"
        using heap(1) False by (auto simp: idx_ok_def nth_append dest: nth_mem)
      have rel: "spf_relax (int (length ns)) from e (g, h) = Inr (pull_up (length h) (?upd ?g1, ?h1))"
        using 1 add room2 unseen by (simp add: spf_relax_def Let_def obind_def)
      obtain g' h' where p: "pull_up (length h) (?upd ?g1, ?h1) = (g', h')" "same_but_idx (?upd ?g1) g'" "set h' = set ?h1"
          "idx_ok (g', h')" "heap_ok (g', h')"
      proof (rule pull_up_lower [OF idx1 _ heap_append_up [OF heap(2)], of ?c ?t "Some from"])
        show "?c \<le> nd_cost (?g1 ?t)" using 1 by simp
      qed (use False in auto)
      have "?upd ?g1 = (?upd g)(?t := ((?upd g) ?t)\<lparr>nd_heapidx := int (length h)\<rparr>)" by (cases "g ?t") simp
      then have "same_but_idx (?upd g) (?upd ?g1)" by (simp only: same_but_idx_upd)
      then have "same_but_idx (?upd g) g'" using same_but_idx_trans p(2) by blast
      then show thesis using that [of g' h'] rel p core_same [OF low(3)] P by simp
    qed
  next
    case 2
    have "?t \<in> P \<union> set h" using coreD(6) [OF core, of ?t] eok 2 less by auto
    moreover have "?t \<noteq> s" using coreD(11) [OF core] 2 eok pos by auto
    ultimately obtain p where p: "nd_parent (g ?t) = Some p" "memcmp (nd_id (g from)) (nd_id (g p)) \<noteq> 0"
      "memcmp (nd_id (g from)) (nd_id (g p)) < 0 \<Longrightarrow>
         spf_core g0 ns s w P (set h) (insert (from, e) D) (g(?t := (g ?t)\<lparr>nd_parent := Some from\<rparr>))"
      "\<not> memcmp (nd_id (g from)) (nd_id (g p)) < 0 \<Longrightarrow> spf_core g0 ns s w P (set h) (insert (from, e) D) g"
      using core_tie [OF core ok fP e new 2] by blast
    let ?g = "if memcmp (nd_id (g from)) (nd_id (g p)) < 0 then g(?t := (g ?t)\<lparr>nd_parent := Some from\<rparr>) else g"
    have cost: "nd_cost (?g u) = nd_cost (g u)" "nd_heapidx (?g u) = nd_heapidx (g u)" for u by auto
    have "spf_relax (int (length ns)) from e (g, h) = Inr (?g, h)"
      using 2 add p(1,2) by (simp add: spf_relax_def nl_def Let_def obind_def)
    moreover have "idx_ok (?g, h)" "heap_ok (?g, h)" using heap idx_ok_cong [OF cost(2)] heap_ok_cong [OF cost(1)] by simp_all
    ultimately show thesis using that [of ?g h] p(3,4) cost(1) by simp
  next
    case 3
    then have "spf_relax (int (length ns)) from e (g, h) = Inr (g, h)"
      using add by (simp add: spf_relax_def Let_def)
    then show thesis using that [of g h] core_no_change [OF core fP e 3] heap by simp
  qed
qed

text \<open>All the edges of a node.\<close>

lemma relax_all_ok:
  assumes ok: "spf_ok g0 ns s w" and fP: "from \<in> P" and D0: "from \<notin> fst ` D0"
  shows "spf_core g0 ns s w P (set h) (D0 \<union> Pair from ` set ds) g \<Longrightarrow> idx_ok (g, h) \<Longrightarrow> heap_ok (g, h) \<Longrightarrow>
    (\<forall>u \<in> P. nd_cost (g u) \<le> nd_cost (g from)) \<Longrightarrow> nd_cost (g from) + w \<le> int (card P) * w \<Longrightarrow>
    nd_edges (g0 from) = ds @ es \<Longrightarrow>
    \<exists>g' h'. ofold (spf_relax (int (length ns)) from) es (g, h) = Inr (g', h') \<and>
      spf_core g0 ns s w P (set h') (D0 \<union> Pair from ` set (ds @ es)) g' \<and> idx_ok (g', h') \<and> heap_ok (g', h')"
proof (induction es arbitrary: ds g h)
  case (Cons e es)
  have "from \<in> set ns" using coreD(3) [OF Cons.prems(1)] fP by blast
  then have "distinct (map ed_to (ds @ e # es))" using okD(6) [OF ok] Cons.prems(6) by metis
  then have "(from, e) \<notin> D0 \<union> Pair from ` set ds" using D0 by force
  moreover have "e \<in> set (nd_edges (g0 from))" using Cons.prems(6) by simp
  ultimately obtain g1 h1 where r: "spf_relax (int (length ns)) from e (g, h) = Inr (g1, h1)"
      "spf_core g0 ns s w P (set h1) (insert (from, e) (D0 \<union> Pair from ` set ds)) g1" "idx_ok (g1, h1)" "heap_ok (g1, h1)"
      "\<forall>u \<in> P. nd_cost (g1 u) = nd_cost (g u)"
    using relax_ok [OF ok Cons.prems(1-3) fP Cons.prems(4,5)] by metis
  have "spf_core g0 ns s w P (set h1) (D0 \<union> Pair from ` set (ds @ [e])) g1" using r(2) by simp
  from Cons.IH [OF this r(3,4)] r(1,5) fP Cons.prems(4-6) show ?case by (simp add: obind_def)
qed simp

definition edges_from :: "spf_mem \<Rightarrow> nat set \<Rightarrow> (nat \<times> spf_edge) set" where
  "edges_from g P = (SIGMA u:P. set (nd_edges (g u)))"

lemma core_pop:
  assumes core: "spf_core g0 ns s w P (insert n Q) D g" and new: "n \<notin> Q" and min: "\<forall>v \<in> Q. nd_cost (g n) \<le> nd_cost (g v)" and w: "0 \<le> w"
  shows "spf_core g0 ns s w (insert n P) Q D g" "\<forall>u \<in> insert n P. nd_cost (g u) \<le> nd_cost (g n)"
    "nd_cost (g n) + w \<le> int (card (insert n P)) * w" "n \<notin> P" "card (insert n P) = Suc (card P)"
proof -
  show nP: "n \<notin> P" using coreD(5) [OF core] by blast
  have "finite P" using coreD(3) [OF core] finite_subset by blast
  then show card: "card (insert n P) = Suc (card P)" using nP by simp
  show "\<forall>u \<in> insert n P. nd_cost (g u) \<le> nd_cost (g n)" using coreD(9) [OF core] by auto
  show "nd_cost (g n) + w \<le> int (card (insert n P)) * w"
    using coreD(7) [OF core, of n] unfolding card by (simp add: distrib_right)
  have grow: "int (card P) * w \<le> int (card (insert n P)) * w" using w card by (simp add: mult_right_mono)
  have un: "P \<union> insert n Q = insert n P \<union> Q" by blast
  show "spf_core g0 ns s w (insert n P) Q D g"
    unfolding spf_core_def
  proof (intro conjI)
    show "\<forall>m \<in> insert n P \<union> Q. spf_walk g0 s m (nd_cost (g m)) \<and> 0 \<le> nd_cost (g m) \<and> nd_cost (g m) \<le> int (card (insert n P)) * w"
      using coreD(7) [OF core, unfolded un] grow by fastforce
    show "\<forall>(u, e) \<in> D. u \<in> insert n P \<and> e \<in> set (nd_edges (g0 u)) \<and> nd_cost (g (ed_to e)) \<le> nd_cost (g u) + ed_cost e"
      using coreD(8) [OF core] by blast
    show "\<forall>u \<in> insert n P. \<forall>v \<in> Q. nd_cost (g u) \<le> nd_cost (g v)" using coreD(9) [OF core] min by auto
    show "insert n P \<inter> Q = {}" using coreD(5) [OF core] new by blast
  qed (use coreD(1-4,6,10-15) [OF core, unfolded un] in auto)
qed

lemma loop_ok:
  assumes ok: "spf_ok g0 ns s w"
  shows "spf_core g0 ns s w P (set h) (edges_from g0 P) g \<Longrightarrow> idx_ok (g, h) \<Longrightarrow> heap_ok (g, h) \<Longrightarrow> length ns \<le> card P + fuel \<Longrightarrow>
    \<exists>g' P'. spf_loop fuel (int (length ns)) (g, h) = Some (Inr g') \<and> spf_core g0 ns s w P' {} (edges_from g0 P') g'"
proof (induction fuel arbitrary: P g h)
  case 0
  have "card (set ns) \<le> card P" using 0 card_length [of ns] by simp
  then have "P = set ns" using coreD(3) [OF 0(1)] by (metis card_seteq finite_set)
  then have "set h \<subseteq> P" "P \<inter> set h = {}" using coreD(4,5) [OF 0(1)] by simp_all
  then have "h = []" by (simp add: Int_absorb1)
  then show ?case using 0(1) by auto
next
  case (Suc fuel)
  show ?case
  proof (cases h)
    case Nil
    then show ?thesis using Suc.prems(1) by auto
  next
    case (Cons n h0)
    obtain g1 h1 where pop: "heap_pop (g, n # h0) = (n, g1, h1)" "same_but_idx g g1" "mset h1 = mset h0" "idx_ok (g1, h1)" "heap_ok (g1, h1)"
      using heap_pop_ok Suc.prems(2,3) unfolding Cons by blast
    have set: "set h1 = set h0" using pop(3) by (metis set_mset_mset)
    have "distinct h" using Suc.prems(2) by (simp add: idx_ok_def)
    then have "n \<notin> set h1" using set Cons by simp
    moreover have "spf_core g0 ns s w P (insert n (set h1)) (edges_from g0 P) g1"
      using core_same [OF _ pop(2)] Suc.prems(1) set Cons by simp
    moreover have "\<forall>v \<in> set h1. nd_cost (g1 n) \<le> nd_cost (g1 v)"
    proof
      fix v
      assume "v \<in> set h1"
      then obtain i where "i < length h" "h ! i = v" using set Cons by (metis in_set_conv_nth list.set_intros(2))
      then show "nd_cost (g1 n) \<le> nd_cost (g1 v)"
        using heap_min [OF Suc.prems(3), of i] Cons by (simp add: heap_cost_def same_but_idxD(4) [OF pop(2)])
    qed
    ultimately have P: "spf_core g0 ns s w (insert n P) (set h1) (edges_from g0 P) g1" "\<forall>u \<in> insert n P. nd_cost (g1 u) \<le> nd_cost (g1 n)"
        "nd_cost (g1 n) + w \<le> int (card (insert n P)) * w" "n \<notin> P" "card (insert n P) = Suc (card P)"
      using core_pop okD(3) [OF ok] by meson+
    have "n \<notin> fst ` edges_from g0 P" using P(4) by (auto simp: edges_from_def)
    then obtain g2 h2 where fold: "ofold (spf_relax (int (length ns)) n) (nd_edges (g0 n)) (g1, h1) = Inr (g2, h2)"
        "spf_core g0 ns s w (insert n P) (set h2) (edges_from g0 P \<union> Pair n ` set (nd_edges (g0 n))) g2" "idx_ok (g2, h2)" "heap_ok (g2, h2)"
      using relax_all_ok [OF ok, of n "insert n P" "edges_from g0 P" h1 "[]" g1 "nd_edges (g0 n)"] P pop(4,5) by auto
    have "edges_from g0 P \<union> Pair n ` set (nd_edges (g0 n)) = edges_from g0 (insert n P)" by (auto simp: edges_from_def)
    with fold(2) have "spf_core g0 ns s w (insert n P) (set h2) (edges_from g0 (insert n P)) g2" by simp
    moreover have "length ns \<le> card (insert n P) + fuel" using Suc.prems(4) P(5) by simp
    ultimately obtain g' P' where "spf_loop fuel (int (length ns)) (g2, h2) = Some (Inr g')" "spf_core g0 ns s w P' {} (edges_from g0 P') g'"
      using Suc.IH fold(3,4) by blast
    moreover have "nd_edges (g1 n) = nd_edges (g0 n)" by (rule coreD(2) [OF P(1)])
    ultimately show ?thesis using pop(1) fold(1) Cons by auto
  qed
qed

text \<open>Nothing is left out when the heap is empty, so that the costs found are those of the shortest paths.\<close>

lemma core_walk:
  assumes ok: "spf_ok g0 ns s w" and core: "spf_core g0 ns s w P {} (edges_from g0 P) g"
  shows "spf_walk g0 s n c \<Longrightarrow> n \<in> P \<and> nd_cost (g n) \<le> c"
proof (induction rule: spf_walk.induct)
  case start
  then show ?case using coreD(10,11) [OF core] by simp
next
  case (step u c e)
  have u: "u \<in> P" "P \<subseteq> set ns" using coreD(3) [OF core] step by auto
  then have e: "ed_to e \<in> set ns" "ed_cost e \<le> w" using okD(7) [OF ok _ step.hyps(2)] by auto
  have le: "nd_cost (g (ed_to e)) \<le> nd_cost (g u) + ed_cost e"
    using coreD(8) [OF core, of u e] step by (simp add: edges_from_def)
  moreover have "ed_to e \<in> P"
  proof (rule ccontr)
    assume out: "ed_to e \<notin> P"
    then have "card P < card (set ns)" using e(1) u(2) by (intro psubset_card_mono) auto
    then have "int (card P) + 1 \<le> int (length ns)" using card_length [of ns] by linarith
    then have "(int (card P) + 1) * w \<le> int (length ns) * w" using okD(3) [OF ok] by (intro mult_right_mono) auto
    then have "int (card P) * w + w < MAX_COST" using okD(4) [OF ok] by (simp add: distrib_right)
    moreover have "nd_cost (g u) \<le> int (card P) * w" using coreD(7) [OF core, of u] u(1) by blast
    ultimately have "nd_cost (g (ed_to e)) \<noteq> MAX_COST" using le e(2) by linarith
    then show False using coreD(6) [OF core e(1)] out by blast
  qed
  ultimately show ?case using step.IH by linarith
qed

lemma reset_facts:
  "nd_id (spf_reset ns g n) = nd_id (g n) \<and> nd_edges (spf_reset ns g n) = nd_edges (g n) \<and> nd_cookie (spf_reset ns g n) = nd_cookie (g n) \<and>
   (n \<in> set ns \<longrightarrow> nd_cost (spf_reset ns g n) = MAX_COST \<and> nd_parent (spf_reset ns g n) = None)"
proof (induction ns arbitrary: g)
  case (Cons m ns)
  have keep: "n \<notin> set ns \<Longrightarrow> spf_reset ns g n = g n" for g :: spf_mem by (induction ns arbitrary: g) auto
  show ?case using Cons.IH keep by (cases "n \<in> set ns") auto
qed simp

text \<open>What a run promises.\<close>

definition shortest :: "spf_mem \<Rightarrow> nat \<Rightarrow> nat \<Rightarrow> int \<Rightarrow> bool" where
  "shortest g s n c \<longleftrightarrow> spf_walk g s n c \<and> (\<forall>c'. spf_walk g s n c' \<longrightarrow> c \<le> c')"

text \<open>\<open>spf_before g s p n\<close>: some shortest path to \<open>n\<close> ends with an edge from \<open>p\<close>.\<close>

definition spf_before :: "spf_mem \<Rightarrow> nat \<Rightarrow> nat \<Rightarrow> nat \<Rightarrow> bool" where
  "spf_before g s p n \<longleftrightarrow> (\<exists>e c. e \<in> set (nd_edges (g p)) \<and> ed_to e = n \<and> shortest g s p c \<and> shortest g s n (c + ed_cost e))"

definition spf_promise :: "spf_mem \<Rightarrow> nat list \<Rightarrow> nat \<Rightarrow> spf_mem \<Rightarrow> bool" where
  "spf_promise g ns s g' \<longleftrightarrow>
     (\<forall>n. nd_id (g' n) = nd_id (g n) \<and> nd_edges (g' n) = nd_edges (g n) \<and> nd_cookie (g' n) = nd_cookie (g n)) \<and>
     (\<forall>n \<in> set ns. if \<exists>c. spf_walk g s n c then shortest g s n (nd_cost (g' n)) \<and> nd_cost (g' n) < MAX_COST
                   else nd_cost (g' n) = MAX_COST \<and> nd_parent (g' n) = None) \<and>
     nd_parent (g' s) = None \<and>
     (\<forall>n \<in> set ns. n \<noteq> s \<longrightarrow> (\<exists>c. spf_walk g s n c) \<longrightarrow>
        (\<exists>p \<in> set ns. nd_parent (g' n) = Some p \<and> spf_before g s p n \<and>
           (\<forall>u. spf_before g s u n \<longrightarrow> 0 \<le> memcmp (nd_id (g u)) (nd_id (g p)))))"

lemma core_promise:
  assumes ok: "spf_ok g0 ns s w" and core: "spf_core g0 ns s w P {} (edges_from g0 P) g"
  shows "spf_promise g0 ns s g"
proof -
  have reach: "n \<in> P \<longleftrightarrow> (\<exists>c. spf_walk g0 s n c)" for n
    using core_walk [OF ok core] coreD(7) [OF core, of n] by blast
  have short: "shortest g0 s n (nd_cost (g n))" if "n \<in> P" for n
    using that core_walk [OF ok core] coreD(7) [OF core, of n] by (simp add: shortest_def)
  have uniq: "shortest g0 s n c \<longleftrightarrow> n \<in> P \<and> c = nd_cost (g n)" for n c
  proof
    assume "shortest g0 s n c"
    moreover from this have "n \<in> P" unfolding shortest_def reach by blast
    ultimately show "n \<in> P \<and> c = nd_cost (g n)" using short [of n] by (force simp: shortest_def)
  qed (use short in blast)
  have before: "spf_before g0 s u n \<longleftrightarrow> (\<exists>e. (u, e) \<in> edges_from g0 P \<and> ed_to e = n \<and> n \<in> P \<and> nd_cost (g u) + ed_cost e = nd_cost (g n))" for u n
    unfolding spf_before_def uniq edges_from_def by auto
  have parent: "\<exists>p \<in> set ns. nd_parent (g n) = Some p \<and> spf_before g0 s p n \<and>
      (\<forall>u. spf_before g0 s u n \<longrightarrow> 0 \<le> memcmp (nd_id (g0 u)) (nd_id (g0 p)))" if n: "n \<in> P" "n \<noteq> s" for n
  proof -
    obtain p where p: "nd_parent (g n) = Some p" "best_parent g (edges_from g0 P) n p" using coreD(13) [OF core, of n] n by blast
    then have "spf_before g0 s p n" unfolding before best_parent_def using n(1) by blast
    moreover from this have "p \<in> set ns" unfolding before edges_from_def using coreD(3) [OF core] by blast
    moreover have "0 \<le> memcmp (nd_id (g0 u)) (nd_id (g0 p))" if "spf_before g0 s u n" for u
      using p(2) that unfolding before best_parent_def coreD(1) [OF core] by blast
    ultimately show ?thesis using p(1) by blast
  qed
  have cost: "nd_cost (g n) = MAX_COST \<longleftrightarrow> n \<notin> P" if "n \<in> set ns" for n using coreD(6) [OF core that] by simp
  have less: "nd_cost (g n) < MAX_COST" if "n \<in> P" for n
  proof -
    have "int (card P) * w \<le> int (length ns) * w"
      using okD(3) [OF ok] card_mono [OF finite_set coreD(3) [OF core]] card_length [of ns] by (intro mult_right_mono) auto
    moreover have "nd_cost (g n) \<le> int (card P) * w" using coreD(7) [OF core, of n] that by blast
    ultimately show ?thesis using okD(4) [OF ok] by linarith
  qed
  show ?thesis
    unfolding spf_promise_def reach [symmetric]
    using coreD(1,2,12,14,15) [OF core] short cost parent less by simp
qed

lemma spf_run_returns:
  assumes "spf_ok g (sc_nodes ctx) source w" "sc_num_nodes ctx = int (length (sc_nodes ctx))"
  shows "\<exists>g'. spf_run ctx source g = Some (Inr g') \<and> spf_promise g (sc_nodes ctx) source g'"
proof -
  let ?ns = "sc_nodes ctx"
  let ?g0 = "spf_reset ?ns g"
  let ?g = "?g0(source := (?g0 source)\<lparr>nd_cost := 0, nd_heapidx := 0\<rparr>)"
  note s = okD(2) [OF assms(1)]
  then have pos: "0 < length ?ns" by (cases ?ns) auto
  have "spf_walk g source source 0" by (rule spf_walk.start)
  then have "spf_core g ?ns source w {} (set [source]) (edges_from g {}) ?g"
    unfolding spf_core_def using reset_facts [of ?ns g] s by (auto simp: edges_from_def MAX_COST_def)
  moreover have "idx_ok (?g, [source])" "heap_ok (?g, [source])" by (simp_all add: idx_ok_def heap_ok_def)
  moreover have "length ?ns \<le> card {} + length ?ns" by simp
  ultimately obtain g' P where "spf_loop (length ?ns) (int (length ?ns)) (?g, [source]) = Some (Inr g')"
      "spf_core g ?ns source w P {} (edges_from g P) g'"
    using loop_ok [OF assms(1)] by blast
  then show ?thesis using core_promise [OF assms(1)] assms(2) pos by (auto simp: spf_run_def Let_def)
qed

text \<open>
  C22: for every graph within the bounds of \<open>spf_ok\<close> the run of \<^verbatim>\<open>spf_run\<close> ends, without a fault: no place
  outside the heap is touched, no parent that is not there is compared with, and \<^verbatim>\<open>nl\<close> does not abort.
  The cost of each node is then the length of the shortest path to it, \<^verbatim>\<open>INT_MAX\<close> if there is none, and its
  parent is, of all the nodes that come just before it on a shortest path, the one with the least id.
\<close>

theorem spf_run_correct:
  assumes "spf_ok g (sc_nodes ctx) source w" "sc_num_nodes ctx = int (length (sc_nodes ctx))"
  shows "\<exists>g'. spf_run ctx source g = Some (Inr g') \<and> spf_promise g (sc_nodes ctx) source g'"
  using assms by (rule spf_run_returns)

text \<open>
  A graph with a choice of shortest paths to node 1, from 0 and from 2, and one node, 4, that is not reached.
\<close>

definition demo_node :: "8 word \<Rightarrow> spf_edge list \<Rightarrow> spf_node" where
  "demo_node i es = \<lparr>nd_id = replicate NODE_ID_LEN i, nd_cookie = 0, nd_edges = es, nd_parent = None, nd_cost = 7, nd_heapidx = 9\<rparr>"

definition demo_graph :: spf_mem where
  "demo_graph = (\<lambda>_. demo_node 0 [])
     (0 := demo_node 8 [\<lparr>ed_ptr = 10, ed_to = 1, ed_cost = 3\<rparr>, \<lparr>ed_ptr = 11, ed_to = 2, ed_cost = 2\<rparr>],
      1 := demo_node 6 [\<lparr>ed_ptr = 12, ed_to = 3, ed_cost = 0\<rparr>],
      2 := demo_node 4 [\<lparr>ed_ptr = 13, ed_to = 1, ed_cost = 1\<rparr>, \<lparr>ed_ptr = 14, ed_to = 0, ed_cost = 1\<rparr>, \<lparr>ed_ptr = 15, ed_to = 3, ed_cost = 5\<rparr>],
      3 := demo_node 5 [], 4 := demo_node 2 [\<lparr>ed_ptr = 16, ed_to = 0, ed_cost = 1\<rparr>])"

definition demo_ctx :: spf_context where
  "demo_ctx = \<lparr>sc_nodes = [4, 0, 1, 2, 3], sc_num_nodes = 5\<rparr>"

theorem spf_run_correct_witness:
  "\<exists>g'. spf_run demo_ctx 0 demo_graph = Some (Inr g') \<and> spf_promise demo_graph [4, 0, 1, 2, 3] 0 g'"
proof -
  have "spf_ok demo_graph (sc_nodes demo_ctx) 0 5"
    by (simp add: spf_ok_def demo_graph_def demo_ctx_def demo_node_def MAX_COST_def NODE_ID_LEN_def)
  then show ?thesis using spf_run_correct [of demo_graph demo_ctx 0 5] by (simp add: demo_ctx_def)
qed

text \<open>
  Why the bound on edges to the source is needed, and what an edge that costs nothing does elsewhere: two
  nodes joined by such edges can become each the parent of the other.
\<close>

definition zero_graph :: spf_mem where
  "zero_graph = (\<lambda>_. demo_node 0 [])
     (0 := demo_node 8 [\<lparr>ed_ptr = 10, ed_to = 1, ed_cost = 3\<rparr>, \<lparr>ed_ptr = 11, ed_to = 2, ed_cost = 3\<rparr>],
      1 := demo_node 6 [\<lparr>ed_ptr = 12, ed_to = 2, ed_cost = 0\<rparr>],
      2 := demo_node 4 [\<lparr>ed_ptr = 13, ed_to = 1, ed_cost = 0\<rparr>])"

lemma spf_zero_cost_cycle:
  "map_option (map_sum id (\<lambda>g. map (\<lambda>n. (nd_cost (g n), nd_parent (g n))) [0, 1, 2]))
     (spf_run \<lparr>sc_nodes = [0, 1, 2], sc_num_nodes = 3\<rparr> 0 zero_graph) =
   Some (Inr [(0, None), (3, Some 2), (3, Some 1)])"
  by code_simp

lemma spf_zero_cost_source:
  "map_option (map_sum id (\<lambda>g. nd_cost (g 0)))
     (spf_run \<lparr>sc_nodes = [0, 1], sc_num_nodes = 2\<rparr> 0
        (zero_graph(1 := demo_node 6 [\<lparr>ed_ptr = 13, ed_to = 0, ed_cost = 0\<rparr>],
                    0 := demo_node 8 [\<lparr>ed_ptr = 10, ed_to = 1, ed_cost = 0\<rparr>]))) = Some (Inl Null_deref)"
  by code_simp

end
