(* ===== verification/Cspf.thy ===== *)
theory Cspf
  imports Spf Conf
begin

text \<open>
  \<^verbatim>\<open>src/cspf.c\<close>: shortest paths that keep to the policy of the network.  A node of the network is two
  nodes of the graph of \<^verbatim>\<open>spf.c\<close>: \<open>a\<close>, reached by links to transit nodes and internal peers only, and \<open>b\<close>,
  from which there are only links to customers and internal peers.  The property: on a
  network within the stated bounds, the cost of each node is that of the cheapest path along
  which, once the path has left a node for a peer or a customer, it goes down to customers
  only; and its parent is the last node but one of such a path.
\<close>

section \<open>The code\<close>

text \<open>A node, with the addresses of its two nodes of the graph and of the edge between them.\<close>

record cspf_node =
  cn_id :: bytes
  cn_cookie :: nat
  cn_a :: nat
  cn_b :: nat
  cn_ab :: nat

record cspf_edge =
  ce_e0 :: nat
  ce_e1 :: nat

definition cspf_node_add :: "cspf_node \<Rightarrow> spf_context \<times> spf_mem \<Rightarrow> spf_context \<times> spf_mem" where
  "cspf_node_add n s =
     (let (ctx, g) = s;
          g = g(cn_a n := (g (cn_a n))\<lparr>nd_id := cn_id n, nd_cookie := cn_cookie n\<rparr>);
          (ctx, g) = spf_node_add (cn_a n) (ctx, g);
          g = g(cn_b n := (g (cn_b n))\<lparr>nd_id := cn_id n, nd_cookie := cn_cookie n\<rparr>);
          (ctx, g) = spf_node_add (cn_b n) (ctx, g)
      in (ctx, spf_edge_add (cn_a n) \<lparr>ed_ptr = cn_ab n, ed_to = cn_b n, ed_cost = 0\<rparr> g))"

definition cspf_node_del :: "cspf_node \<Rightarrow> spf_context \<times> spf_mem \<Rightarrow> (spf_context \<times> spf_mem) outcome" where
  "cspf_node_del n s =
     (let (ctx, g) = s
      in obind (spf_node_del (cn_a n) ctx) (\<lambda>ctx.
         obind (spf_node_del (cn_b n) ctx) (\<lambda>ctx.
         obind (spf_edge_del (cn_a n) (cn_ab n) g) (\<lambda>g. Inr (ctx, g)))))"

definition cspf_edge_add ::
  "cspf_edge \<Rightarrow> cspf_node \<Rightarrow> cspf_node \<Rightarrow> conf_peer_type \<Rightarrow> int \<Rightarrow> spf_mem \<Rightarrow> spf_mem" where
  "cspf_edge_add edge from to to_type cost g =
     (case to_type of
        CONF_PEER_TYPE_EPEER \<Rightarrow> spf_edge_add (cn_a from) \<lparr>ed_ptr = ce_e0 edge, ed_to = cn_b to, ed_cost = cost\<rparr> g
      | CONF_PEER_TYPE_CUSTOMER \<Rightarrow> spf_edge_add (cn_b from) \<lparr>ed_ptr = ce_e0 edge, ed_to = cn_b to, ed_cost = cost\<rparr> g
      | CONF_PEER_TYPE_TRANSIT \<Rightarrow> spf_edge_add (cn_a from) \<lparr>ed_ptr = ce_e0 edge, ed_to = cn_a to, ed_cost = cost\<rparr> g
      | CONF_PEER_TYPE_IPEER \<Rightarrow>
          (let g = spf_edge_add (cn_a from) \<lparr>ed_ptr = ce_e0 edge, ed_to = cn_a to, ed_cost = cost\<rparr> g
           in spf_edge_add (cn_b from) \<lparr>ed_ptr = ce_e1 edge, ed_to = cn_b to, ed_cost = cost\<rparr> g)
      | _ \<Rightarrow> g)"

definition cspf_edge_del :: "cspf_edge \<Rightarrow> cspf_node \<Rightarrow> conf_peer_type \<Rightarrow> spf_mem \<Rightarrow> spf_mem outcome" where
  "cspf_edge_del edge from to_type g =
     (case to_type of
        CONF_PEER_TYPE_EPEER \<Rightarrow> spf_edge_del (cn_a from) (ce_e0 edge) g
      | CONF_PEER_TYPE_CUSTOMER \<Rightarrow> spf_edge_del (cn_b from) (ce_e0 edge) g
      | CONF_PEER_TYPE_TRANSIT \<Rightarrow> spf_edge_del (cn_a from) (ce_e0 edge) g
      | CONF_PEER_TYPE_IPEER \<Rightarrow> obind (spf_edge_del (cn_a from) (ce_e0 edge) g) (spf_edge_del (cn_b from) (ce_e1 edge))
      | _ \<Rightarrow> Inr g)"

definition cspf_run :: "spf_context \<Rightarrow> cspf_node \<Rightarrow> spf_mem \<Rightarrow> spf_mem outcome option" where
  "cspf_run ctx source g = spf_run ctx (cn_a source) g"

definition cspf_node_parent :: "cspf_node \<Rightarrow> spf_mem \<Rightarrow> nat option" where
  "cspf_node_parent node g =
     (let parent = nd_parent (g (cn_b node));
          parent = (if parent = Some (cn_a node) then nd_parent (g (cn_a node)) else parent)
      in map_option (\<lambda>p. nd_cookie (g p)) parent)"

definition cspf_node_cost :: "cspf_node \<Rightarrow> spf_mem \<Rightarrow> int" where
  "cspf_node_cost node g = nd_cost (g (cn_b node))"


text \<open>Taking out what was put in.\<close>

lemma spf_edge_roundtrip:
  assumes "ed_ptr e \<notin> ed_ptr ` set (nd_edges (g from))"
  shows "spf_edge_del from (ed_ptr e) (spf_edge_add from e g) = Inr g"
proof -
  have "filter (\<lambda>x. ed_ptr x \<noteq> ed_ptr e) (nd_edges (g from)) = nd_edges (g from)" using assms by (intro filter_True) (metis imageI)
  then show ?thesis by (simp add: spf_edge_del_def spf_edge_add_def)
qed

lemma cspf_edge_roundtrip:
  assumes "cn_a from \<noteq> cn_b from" "ce_e0 edge \<notin> ed_ptr ` set (nd_edges (g (cn_a from)) @ nd_edges (g (cn_b from)))"
    "ce_e1 edge \<notin> ed_ptr ` set (nd_edges (g (cn_b from)))"
  shows "cspf_edge_del edge from t (cspf_edge_add edge from to t c g) = Inr g"
proof -
  have other: "spf_edge_del x p (spf_edge_add y e g) = obind (spf_edge_del x p g) (\<lambda>g. Inr (spf_edge_add y e g))" if "x \<noteq> y" for x y p e g
    using that by (auto simp: spf_edge_del_def spf_edge_add_def obind_def fun_upd_twist)
  show ?thesis
  proof (cases "t = CONF_PEER_TYPE_IPEER")
    case True
    let ?e0 = "\<lparr>ed_ptr = ce_e0 edge, ed_to = cn_a to, ed_cost = c\<rparr>"
    let ?e1 = "\<lparr>ed_ptr = ce_e1 edge, ed_to = cn_b to, ed_cost = c\<rparr>"
    have "spf_edge_del (cn_a from) (ce_e0 edge) (spf_edge_add (cn_a from) ?e0 g) = Inr g"
      by (rule spf_edge_roundtrip [of ?e0 g "cn_a from", simplified]) (use assms(2) in auto)
    moreover have "spf_edge_del (cn_b from) (ce_e1 edge) (spf_edge_add (cn_b from) ?e1 g) = Inr g"
      by (rule spf_edge_roundtrip [of ?e1 g "cn_b from", simplified]) (use assms(3) in auto)
    ultimately show ?thesis using assms(1) True by (simp add: cspf_edge_del_def cspf_edge_add_def Let_def other obind_def)
  next
    case False
    then show ?thesis
      using assms(2) spf_edge_roundtrip [of "\<lparr>ed_ptr = ce_e0 edge, ed_to = x, ed_cost = c\<rparr>" g for x]
      by (cases t) (auto simp: cspf_edge_del_def cspf_edge_add_def)
  qed
qed


section \<open>A network and its graph\<close>

record cspf_link =
  cl_edge :: cspf_edge
  cl_from :: cspf_node
  cl_to :: cspf_node
  cl_type :: conf_peer_type
  cl_cost :: int

definition add_link :: "cspf_link \<Rightarrow> spf_mem \<Rightarrow> spf_mem" where
  "add_link l = cspf_edge_add (cl_edge l) (cl_from l) (cl_to l) (cl_type l) (cl_cost l)"

text \<open>The graph that a user of the module makes of a network: first its nodes, then its links.\<close>

definition cspf_build :: "cspf_node list \<Rightarrow> cspf_link list \<Rightarrow> spf_context \<times> spf_mem \<Rightarrow> spf_context \<times> spf_mem" where
  "cspf_build ns ls s =
     (let (ctx, g) = s; (ctx, g) = fold cspf_node_add ns (spf_init ctx, g)
      in (ctx, fold add_link ls g))"

definition addrs :: "cspf_node \<Rightarrow> nat list" where
  "addrs n = [cn_a n, cn_b n]"

definition net_ok :: "cspf_node list \<Rightarrow> cspf_link list \<Rightarrow> int \<Rightarrow> bool" where
  "net_ok ns ls w \<longleftrightarrow> distinct (concat (map addrs ns)) \<and> distinct (map cn_id ns) \<and> (\<forall>n \<in> set ns. length (cn_id n) = NODE_ID_LEN) \<and>
     distinct (map (\<lambda>l. (cl_from l, cl_to l)) ls) \<and>
     (\<forall>l \<in> set ls. cl_from l \<in> set ns \<and> cl_to l \<in> set ns \<and> cl_from l \<noteq> cl_to l \<and> 0 < cl_cost l \<and> cl_cost l \<le> w) \<and>
     0 \<le> w \<and> 2 * int (length ns) * w < MAX_COST"

lemma addrs_simps [simp]: "set (addrs n) = {cn_a n, cn_b n}" "distinct (addrs n) \<longleftrightarrow> cn_a n \<noteq> cn_b n"
  by (simp_all add: addrs_def)

text \<open>The edges of the graph that one link gives.\<close>

definition ups :: "nat \<Rightarrow> cspf_link \<Rightarrow> spf_edge list" where
  "ups x l = (if cn_a (cl_from l) = x
     then if cl_type l = CONF_PEER_TYPE_EPEER then [\<lparr>ed_ptr = ce_e0 (cl_edge l), ed_to = cn_b (cl_to l), ed_cost = cl_cost l\<rparr>]
          else if cl_type l \<in> {CONF_PEER_TYPE_TRANSIT, CONF_PEER_TYPE_IPEER}
          then [\<lparr>ed_ptr = ce_e0 (cl_edge l), ed_to = cn_a (cl_to l), ed_cost = cl_cost l\<rparr>] else []
     else [])"

definition downs :: "nat \<Rightarrow> cspf_link \<Rightarrow> spf_edge list" where
  "downs x l = (if cn_b (cl_from l) = x
     then if cl_type l = CONF_PEER_TYPE_CUSTOMER then [\<lparr>ed_ptr = ce_e0 (cl_edge l), ed_to = cn_b (cl_to l), ed_cost = cl_cost l\<rparr>]
          else if cl_type l = CONF_PEER_TYPE_IPEER
          then [\<lparr>ed_ptr = ce_e1 (cl_edge l), ed_to = cn_b (cl_to l), ed_cost = cl_cost l\<rparr>] else []
     else [])"

lemma add_link_edges:
  assumes "cn_a (cl_from l) \<noteq> cn_b (cl_from l)"
  shows "add_link l g x = (g x)\<lparr>nd_edges := nd_edges (g x) @ ups x l @ downs x l\<rparr>"
  using assms by (cases "cl_type l") (auto simp: add_link_def cspf_edge_add_def spf_edge_add_def ups_def downs_def Let_def)

lemma add_links_edges:
  "\<forall>l \<in> set ls. cn_a (cl_from l) \<noteq> cn_b (cl_from l) \<Longrightarrow>
   fold add_link ls g x = (g x)\<lparr>nd_edges := nd_edges (g x) @ concat (map (\<lambda>l. ups x l @ downs x l) ls)\<rparr>"
  by (induction ls arbitrary: g) (auto simp: add_link_edges)

lemma node_add_facts:
  assumes "cn_a n \<noteq> cn_b n"
  shows "cspf_node_add n (ctx, g) = (ctx\<lparr>sc_nodes := sc_nodes ctx @ addrs n, sc_num_nodes := sc_num_nodes ctx + 2\<rparr>,
    g(cn_a n := (g (cn_a n))\<lparr>nd_id := cn_id n, nd_cookie := cn_cookie n, nd_edges := [\<lparr>ed_ptr = cn_ab n, ed_to = cn_b n, ed_cost = 0\<rparr>]\<rparr>,
      cn_b n := (g (cn_b n))\<lparr>nd_id := cn_id n, nd_cookie := cn_cookie n, nd_edges := []\<rparr>))"
  using assms by (simp add: cspf_node_add_def spf_node_add_def spf_edge_add_def addrs_def Let_def fun_upd_twist)

lemma nodes_add_facts:
  assumes "distinct (concat (map addrs ns))" "fold cspf_node_add ns (ctx, g) = (ctx', g')"
  shows "sc_nodes ctx' = sc_nodes ctx @ concat (map addrs ns) \<and> sc_num_nodes ctx' = sc_num_nodes ctx + 2 * int (length ns) \<and>
    (\<forall>n \<in> set ns. \<forall>x \<in> set (addrs n). nd_id (g' x) = cn_id n \<and> nd_cookie (g' x) = cn_cookie n) \<and>
    (\<forall>n \<in> set ns. nd_edges (g' (cn_a n)) = [\<lparr>ed_ptr = cn_ab n, ed_to = cn_b n, ed_cost = 0\<rparr>] \<and> nd_edges (g' (cn_b n)) = [])"
  using assms
proof (induction ns arbitrary: ctx' g' rule: rev_induct)
  case (snoc n ns)
  obtain c1 g1 where s: "fold cspf_node_add ns (ctx, g) = (c1, g1)" by fastforce
  have d: "distinct (concat (map addrs ns))" "cn_a n \<noteq> cn_b n" and new: "\<forall>m \<in> set ns. set (addrs m) \<inter> set (addrs n) = {}"
    using snoc.prems(1) by auto
  note IH = snoc.IH [OF d(1) s]
  have "(ctx', g') = cspf_node_add n (c1, g1)" using snoc.prems(2) s by simp
  note eq = this [unfolded node_add_facts [OF d(2)]]
  have same: "g' x = g1 x" if "m \<in> set ns" "x \<in> set (addrs m)" for m x
    using eq new that by (auto simp: addrs_def)
  have ab: "cn_a m \<in> set (addrs m)" "cn_b m \<in> set (addrs m)" for m by (simp_all add: addrs_def)
  show ?case
  proof (intro conjI ballI)
    fix m x
    assume mx: "m \<in> set (ns @ [n])" "x \<in> set (addrs m)"
    show "nd_id (g' x) = cn_id m" "nd_cookie (g' x) = cn_cookie m"
      using mx IH same eq d(2) by (cases "m \<in> set ns"; auto simp: addrs_def)+
  next
    fix m
    assume m: "m \<in> set (ns @ [n])"
    show "nd_edges (g' (cn_a m)) = [\<lparr>ed_ptr = cn_ab m, ed_to = cn_b m, ed_cost = 0\<rparr>]" "nd_edges (g' (cn_b m)) = []"
      using m IH same [OF _ ab(1)] same [OF _ ab(2)] eq d(2) by (cases "m \<in> set ns"; auto)+
  qed (use IH eq in auto)
qed simp


section \<open>Paths that keep to the policy\<close>

inductive policy_path :: "cspf_link list \<Rightarrow> cspf_node \<Rightarrow> cspf_node \<Rightarrow> conf_peer_type list \<Rightarrow> int \<Rightarrow> bool" for ls s where
  start: "policy_path ls s s [] 0"
| link: "policy_path ls s u ts c \<Longrightarrow> l \<in> set ls \<Longrightarrow> cl_from l = u \<Longrightarrow>
     policy_path ls s (cl_to l) (ts @ [cl_type l]) (c + cl_cost l)"

text \<open>Up through transit nodes and internal peers, at most once to an external peer, and then down.\<close>

fun valley_free :: "conf_peer_type list \<Rightarrow> bool" where
  "valley_free [] = True"
| "valley_free (t # ts) =
     (if t \<in> {CONF_PEER_TYPE_TRANSIT, CONF_PEER_TYPE_IPEER} then valley_free ts
      else t \<in> {CONF_PEER_TYPE_EPEER, CONF_PEER_TYPE_CUSTOMER} \<and> set ts \<subseteq> {CONF_PEER_TYPE_CUSTOMER, CONF_PEER_TYPE_IPEER})"

abbreviation only_up :: "conf_peer_type list \<Rightarrow> bool" where
  "only_up ts \<equiv> set ts \<subseteq> {CONF_PEER_TYPE_TRANSIT, CONF_PEER_TYPE_IPEER}"

lemma valley_free_up: "only_up ts \<Longrightarrow> valley_free ts"
  by (induction ts) auto

lemma valley_free_snoc:
  "valley_free (ts @ [t]) \<longleftrightarrow> only_up (ts @ [t]) \<or> only_up ts \<and> t = CONF_PEER_TYPE_EPEER \<or>
     valley_free ts \<and> t \<in> {CONF_PEER_TYPE_CUSTOMER, CONF_PEER_TYPE_IPEER}"
  by (induction ts) auto

text \<open>The graph that belongs to a network.\<close>

definition graph_of :: "cspf_node list \<Rightarrow> cspf_link list \<Rightarrow> spf_mem \<Rightarrow> bool" where
  "graph_of ns ls g \<longleftrightarrow>
     (\<forall>n \<in> set ns. \<forall>x \<in> set (addrs n). nd_id (g x) = cn_id n \<and> nd_cookie (g x) = cn_cookie n) \<and>
     (\<forall>n \<in> set ns. nd_edges (g (cn_a n)) = \<lparr>ed_ptr = cn_ab n, ed_to = cn_b n, ed_cost = 0\<rparr> # concat (map (ups (cn_a n)) ls) \<and>
                   nd_edges (g (cn_b n)) = concat (map (downs (cn_b n)) ls))"

lemma net_addrs:
  assumes "distinct (concat (map addrs ns))" "n \<in> set ns" "m \<in> set ns"
  shows "cn_a n \<noteq> cn_b m" "cn_a n = cn_a m \<longleftrightarrow> n = m" "cn_b n = cn_b m \<longleftrightarrow> n = m"
  using assms by (induction ns) auto

lemma net_okD:
  assumes "net_ok ns ls w"
  shows "distinct (concat (map addrs ns))" "distinct (map cn_id ns)" "n \<in> set ns \<Longrightarrow> length (cn_id n) = NODE_ID_LEN"
    "distinct (map (\<lambda>l. (cl_from l, cl_to l)) ls)"
    "l \<in> set ls \<Longrightarrow> cl_from l \<in> set ns \<and> cl_to l \<in> set ns \<and> cl_from l \<noteq> cl_to l \<and> 0 < cl_cost l \<and> cl_cost l \<le> w"
    "0 \<le> w" "2 * int (length ns) * w < MAX_COST"
  using assms unfolding net_ok_def by blast+

lemma build_graph:
  assumes "net_ok ns ls w" "cspf_build ns ls (ctx0, g0) = (ctx, g)"
  shows "sc_nodes ctx = concat (map addrs ns)" "sc_num_nodes ctx = int (length (sc_nodes ctx))" "graph_of ns ls g"
proof -
  note ok = net_okD [OF assms(1)]
  obtain c1 g1 where s: "fold cspf_node_add ns (spf_init ctx0, g0) = (c1, g1)" by fastforce
  note f = nodes_add_facts [OF ok(1) s]
  have ls: "\<forall>l \<in> set ls. cn_a (cl_from l) \<noteq> cn_b (cl_from l)" using ok(5) net_addrs(1) [OF ok(1)] by blast
  have eq: "ctx = c1" "g = fold add_link ls g1" using assms(2) s by (simp_all add: cspf_build_def)
  show "sc_nodes ctx = concat (map addrs ns)" using f eq by (simp add: spf_init_def)
  moreover have "length (concat (map addrs ns)) = 2 * length ns" by (induction ns) (auto simp: addrs_def)
  ultimately show "sc_num_nodes ctx = int (length (sc_nodes ctx))" using f eq by (simp add: spf_init_def)
  have a: "ups (cn_b n) l = []" "downs (cn_a n) l = []" if "n \<in> set ns" "l \<in> set ls" for n l
    using net_addrs(1) [OF ok(1)] that ok(5) [OF that(2)] by (auto simp: ups_def downs_def) metis+
  have m: "map (\<lambda>l. ups (cn_a n) l @ downs (cn_a n) l) ls = map (ups (cn_a n)) ls"
    "map (\<lambda>l. ups (cn_b n) l @ downs (cn_b n) l) ls = map (downs (cn_b n)) ls" if "n \<in> set ns" for n
    using a [OF that] by simp_all
  show "graph_of ns ls g" unfolding graph_of_def eq(2) add_links_edges [OF ls] using f by (simp add: m)
qed

text \<open>The walks of the graph and the paths of the network.\<close>

lemma graph_edge:
  assumes "net_ok ns ls w" "graph_of ns ls g" "u \<in> set ns"
  shows "e \<in> set (nd_edges (g (cn_a u))) \<longleftrightarrow> e = \<lparr>ed_ptr = cn_ab u, ed_to = cn_b u, ed_cost = 0\<rparr> \<or>
      (\<exists>l \<in> set ls. cl_from l = u \<and> (
         cl_type l = CONF_PEER_TYPE_EPEER \<and> e = \<lparr>ed_ptr = ce_e0 (cl_edge l), ed_to = cn_b (cl_to l), ed_cost = cl_cost l\<rparr> \<or>
         cl_type l \<in> {CONF_PEER_TYPE_TRANSIT, CONF_PEER_TYPE_IPEER} \<and> e = \<lparr>ed_ptr = ce_e0 (cl_edge l), ed_to = cn_a (cl_to l), ed_cost = cl_cost l\<rparr>))"
    "e \<in> set (nd_edges (g (cn_b u))) \<longleftrightarrow> (\<exists>l \<in> set ls. cl_from l = u \<and> (
         cl_type l = CONF_PEER_TYPE_CUSTOMER \<and> e = \<lparr>ed_ptr = ce_e0 (cl_edge l), ed_to = cn_b (cl_to l), ed_cost = cl_cost l\<rparr> \<or>
         cl_type l = CONF_PEER_TYPE_IPEER \<and> e = \<lparr>ed_ptr = ce_e1 (cl_edge l), ed_to = cn_b (cl_to l), ed_cost = cl_cost l\<rparr>))"
proof -
  note ok = net_okD [OF assms(1)]
  have from_u: "cn_a (cl_from l) = cn_a u \<longleftrightarrow> cl_from l = u" "cn_b (cl_from l) = cn_b u \<longleftrightarrow> cl_from l = u" if "l \<in> set ls" for l
    using net_addrs(2,3) [OF ok(1) _ assms(3)] ok(5) [OF that] by auto
  have "nd_edges (g (cn_a u)) = \<lparr>ed_ptr = cn_ab u, ed_to = cn_b u, ed_cost = 0\<rparr> # concat (map (ups (cn_a u)) ls)"
    using assms(2,3) by (simp add: graph_of_def)
  moreover have "e \<in> set (concat (map (ups (cn_a u)) ls)) \<longleftrightarrow> (\<exists>l \<in> set ls. cl_from l = u \<and> (
         cl_type l = CONF_PEER_TYPE_EPEER \<and> e = \<lparr>ed_ptr = ce_e0 (cl_edge l), ed_to = cn_b (cl_to l), ed_cost = cl_cost l\<rparr> \<or>
         cl_type l \<in> {CONF_PEER_TYPE_TRANSIT, CONF_PEER_TYPE_IPEER} \<and> e = \<lparr>ed_ptr = ce_e0 (cl_edge l), ed_to = cn_a (cl_to l), ed_cost = cl_cost l\<rparr>))"
    unfolding set_concat set_map using from_u(1) by (auto simp: ups_def split: if_splits)
  ultimately show "e \<in> set (nd_edges (g (cn_a u))) \<longleftrightarrow> e = \<lparr>ed_ptr = cn_ab u, ed_to = cn_b u, ed_cost = 0\<rparr> \<or>
      (\<exists>l \<in> set ls. cl_from l = u \<and> (
         cl_type l = CONF_PEER_TYPE_EPEER \<and> e = \<lparr>ed_ptr = ce_e0 (cl_edge l), ed_to = cn_b (cl_to l), ed_cost = cl_cost l\<rparr> \<or>
         cl_type l \<in> {CONF_PEER_TYPE_TRANSIT, CONF_PEER_TYPE_IPEER} \<and> e = \<lparr>ed_ptr = ce_e0 (cl_edge l), ed_to = cn_a (cl_to l), ed_cost = cl_cost l\<rparr>))"
    by simp
  have "nd_edges (g (cn_b u)) = concat (map (downs (cn_b u)) ls)" using assms(2,3) by (simp add: graph_of_def)
  then show "e \<in> set (nd_edges (g (cn_b u))) \<longleftrightarrow> (\<exists>l \<in> set ls. cl_from l = u \<and> (
         cl_type l = CONF_PEER_TYPE_CUSTOMER \<and> e = \<lparr>ed_ptr = ce_e0 (cl_edge l), ed_to = cn_b (cl_to l), ed_cost = cl_cost l\<rparr> \<or>
         cl_type l = CONF_PEER_TYPE_IPEER \<and> e = \<lparr>ed_ptr = ce_e1 (cl_edge l), ed_to = cn_b (cl_to l), ed_cost = cl_cost l\<rparr>))"
    unfolding set_concat set_map using from_u(2) by (auto simp: downs_def split: if_splits)
qed

lemma graph_edge_cases:
  assumes "net_ok ns ls w" "graph_of ns ls g" "u \<in> set ns"
  shows "e \<in> set (nd_edges (g (cn_a u))) \<Longrightarrow> ed_to e = cn_b u \<and> ed_cost e = 0 \<or>
      (\<exists>l \<in> set ls. cl_from l = u \<and> ed_cost e = cl_cost l \<and> (cl_type l = CONF_PEER_TYPE_EPEER \<and> ed_to e = cn_b (cl_to l) \<or>
         cl_type l \<in> {CONF_PEER_TYPE_TRANSIT, CONF_PEER_TYPE_IPEER} \<and> ed_to e = cn_a (cl_to l)))"
    "e \<in> set (nd_edges (g (cn_b u))) \<Longrightarrow> \<exists>l \<in> set ls. cl_from l = u \<and> ed_cost e = cl_cost l \<and>
       cl_type l \<in> {CONF_PEER_TYPE_CUSTOMER, CONF_PEER_TYPE_IPEER} \<and> ed_to e = cn_b (cl_to l)"
  by (auto simp: graph_edge [OF assms])

lemma policy_path_end: "policy_path ls s n ts c \<Longrightarrow> net_ok ns ls w \<Longrightarrow> s \<in> set ns \<Longrightarrow> n \<in> set ns"
  by (induction rule: policy_path.induct) (auto dest: net_okD(5))

lemma path_walk:
  assumes "net_ok ns ls w" "graph_of ns ls g" "s \<in> set ns"
  shows "policy_path ls s n ts c \<Longrightarrow>
    (only_up ts \<longrightarrow> spf_walk g (cn_a s) (cn_a n) c) \<and> (valley_free ts \<longrightarrow> spf_walk g (cn_a s) (cn_b n) c)"
proof (induction rule: policy_path.induct)
  case start
  have "spf_walk g (cn_a s) (cn_a s) 0" by (rule spf_walk.start)
  moreover from spf_walk.step [OF this, of "\<lparr>ed_ptr = cn_ab s, ed_to = cn_b s, ed_cost = 0\<rparr>"]
  have "spf_walk g (cn_a s) (cn_b s) 0" using graph_edge(1) [OF assms] by simp
  ultimately show ?case by simp
next
  case (link u ts c l)
  have u: "u \<in> set ns" "cl_to l \<in> set ns" using policy_path_end [OF link.hyps(1) assms(1,3)] net_okD(5) [OF assms(1) link.hyps(2)] by auto
  let ?t = "cl_type l"
  let ?v = "cl_to l"
  have up: "spf_walk g (cn_a s) (cn_a ?v) (c + cl_cost l)" if "only_up (ts @ [?t])"
  proof -
    have "spf_walk g (cn_a s) (cn_a u) c" using link.IH that by simp
    moreover have "\<lparr>ed_ptr = ce_e0 (cl_edge l), ed_to = cn_a ?v, ed_cost = cl_cost l\<rparr> \<in> set (nd_edges (g (cn_a u)))"
      unfolding graph_edge(1) [OF assms(1,2) u(1)] using link.hyps(2,3) that by (intro disjI2 bexI [of _ l]) auto
    ultimately show ?thesis using spf_walk.step by fastforce
  qed
  have "spf_walk g (cn_a s) (cn_b ?v) (c + cl_cost l)" if "valley_free (ts @ [?t])"
  proof -
    from that consider "only_up (ts @ [?t])" | "only_up ts" "?t = CONF_PEER_TYPE_EPEER" |
      "valley_free ts" "?t \<in> {CONF_PEER_TYPE_CUSTOMER, CONF_PEER_TYPE_IPEER}" unfolding valley_free_snoc by blast
    then show ?thesis
    proof cases
      case 1
      from spf_walk.step [OF up [OF 1], of "\<lparr>ed_ptr = cn_ab ?v, ed_to = cn_b ?v, ed_cost = 0\<rparr>"]
      show ?thesis using graph_edge(1) [OF assms(1,2) u(2)] by simp
    next
      case 2
      then have "spf_walk g (cn_a s) (cn_a u) c" using link.IH by simp
      moreover have "\<lparr>ed_ptr = ce_e0 (cl_edge l), ed_to = cn_b ?v, ed_cost = cl_cost l\<rparr> \<in> set (nd_edges (g (cn_a u)))"
        unfolding graph_edge(1) [OF assms(1,2) u(1)] using link.hyps(2,3) 2(2) by blast
      ultimately show ?thesis using spf_walk.step by fastforce
    next
      case 3
      then have "spf_walk g (cn_a s) (cn_b u) c" using link.IH by simp
      moreover have "\<lparr>ed_ptr = (if ?t = CONF_PEER_TYPE_IPEER then ce_e1 else ce_e0) (cl_edge l), ed_to = cn_b ?v, ed_cost = cl_cost l\<rparr>
          \<in> set (nd_edges (g (cn_b u)))"
        unfolding graph_edge(2) [OF assms(1,2) u(1)] using link.hyps(2,3) 3(2) by (intro bexI [of _ l]) auto
      ultimately show ?thesis using spf_walk.step by fastforce
    qed
  qed
  with up show ?case by blast
qed

lemma walk_path:
  assumes "net_ok ns ls w" "graph_of ns ls g" "s \<in> set ns"
  shows "spf_walk g (cn_a s) x c \<Longrightarrow>
    \<exists>n ts. n \<in> set ns \<and> policy_path ls s n ts c \<and> (x = cn_a n \<and> only_up ts \<or> x = cn_b n \<and> valley_free ts)"
proof (induction rule: spf_walk.induct)
  case start
  have "policy_path ls s s [] 0" by (rule policy_path.start)
  then show ?case using assms(3) by (intro exI [of _ s] exI [of _ "[]"]) simp
next
  case (step x c e)
  then obtain u ts where u: "u \<in> set ns" "policy_path ls s u ts c" and x: "x = cn_a u \<and> only_up ts \<or> x = cn_b u \<and> valley_free ts" by blast
  have next_hop: "\<exists>n ts. n \<in> set ns \<and> policy_path ls s n ts (c + ed_cost e) \<and> (ed_to e = cn_a n \<and> only_up ts \<or> ed_to e = cn_b n \<and> valley_free ts)"
    if "l \<in> set ls" "cl_from l = u" "ed_cost e = cl_cost l"
      "ed_to e = cn_a (cl_to l) \<and> only_up (ts @ [cl_type l]) \<or> ed_to e = cn_b (cl_to l) \<and> valley_free (ts @ [cl_type l])" for l
    using policy_path.link [OF u(2) that(1,2)] that(3,4) net_okD(5) [OF assms(1) that(1)] by metis
  from x show ?case
  proof (elim disjE conjE)
    assume x: "x = cn_a u" "only_up ts"
    with step.hyps(2) graph_edge_cases(1) [OF assms(1,2) u(1), of e]
    consider "ed_to e = cn_b u" "ed_cost e = 0"
      | l where "l \<in> set ls" "cl_from l = u" "ed_cost e = cl_cost l"
        "cl_type l = CONF_PEER_TYPE_EPEER \<and> ed_to e = cn_b (cl_to l) \<or>
         cl_type l \<in> {CONF_PEER_TYPE_TRANSIT, CONF_PEER_TYPE_IPEER} \<and> ed_to e = cn_a (cl_to l)"
      by blast
    then show ?case
    proof cases
      case 1
      then show ?thesis using u valley_free_up [OF x(2)] by (intro exI [of _ u] exI [of _ ts]) simp
    next
      case 2
      then show ?thesis by (intro next_hop [of l]) (use x(2) in \<open>auto simp: valley_free_snoc\<close>)
    qed
  next
    assume x: "x = cn_b u" "valley_free ts"
    with step.hyps(2) graph_edge_cases(2) [OF assms(1,2) u(1), of e]
    obtain l where "l \<in> set ls" "cl_from l = u" "ed_cost e = cl_cost l"
        "cl_type l \<in> {CONF_PEER_TYPE_CUSTOMER, CONF_PEER_TYPE_IPEER} \<and> ed_to e = cn_b (cl_to l)"
      by blast
    then show ?case by (intro next_hop [of l]) (use x(2) in \<open>auto simp: valley_free_snoc\<close>)
  qed
qed


text \<open>The graph is within the bounds of \<^verbatim>\<open>spf_run\<close>.\<close>

lemma distinct_out:
  assumes "distinct (concat (map addrs ns))"
    and f: "\<And>l. l \<in> set ls \<Longrightarrow> length (f l) \<le> 1" "\<And>l e. l \<in> set ls \<Longrightarrow> e \<in> set (f l) \<Longrightarrow> cl_from l = u \<and> ed_to e \<in> set (addrs (cl_to l))"
  shows "distinct (map (\<lambda>l. (cl_from l, cl_to l)) ls) \<Longrightarrow> \<forall>l \<in> set ls. cl_to l \<in> set ns \<Longrightarrow> distinct (map ed_to (concat (map f ls)))"
  using f
proof (induction ls)
  case (Cons l ls)
  have "distinct (map ed_to (f l))" using Cons.prems(3) [of l] by (cases "f l") auto
  moreover have "ed_to e \<noteq> ed_to e'" if "e \<in> set (f l)" "l' \<in> set ls" "e' \<in> set (f l')" for e e' l'
  proof -
    have "cl_from l = u" "ed_to e \<in> set (addrs (cl_to l))" "cl_from l' = u" "ed_to e' \<in> set (addrs (cl_to l'))"
      using Cons.prems(4) [of l e] Cons.prems(4) [of l' e'] that by auto
    moreover have "(cl_from l, cl_to l) \<noteq> (cl_from l', cl_to l')" using Cons.prems(1) that(2) by auto
    then have "cl_to l \<noteq> cl_to l'" using \<open>cl_from l = u\<close> \<open>cl_from l' = u\<close> by simp
    moreover have "cl_to l \<in> set ns" "cl_to l' \<in> set ns" using Cons.prems(2) that(2) by auto
    ultimately show ?thesis using net_addrs [OF assms(1)] by (metis addrs_simps(1) insertE singletonD)
  qed
  moreover have "distinct (map ed_to (concat (map f ls)))" using Cons by simp
  ultimately show ?case by (auto simp: image_def)
qed simp

lemma graph_spf_ok:
  assumes "net_ok ns ls w" "graph_of ns ls g" "s \<in> set ns"
  shows "spf_ok g (concat (map addrs ns)) (cn_a s) w"
proof -
  note ok = net_okD [OF assms(1)]
  note addr = net_addrs [OF ok(1)]
  note edge = graph_edge_cases [OF assms(1,2)]
  have nodes: "x \<in> set (concat (map addrs ns)) \<longleftrightarrow> (\<exists>n \<in> set ns. x = cn_a n \<or> x = cn_b n)" for x by auto
  have len: "length (concat (map addrs ns)) = 2 * length ns" by (induction ns) (auto simp: addrs_def)
  have ids: "nd_id (g (cn_a n)) = cn_id n" "nd_id (g (cn_b n)) = cn_id n" if "n \<in> set ns" for n
    using assms(2) that by (auto simp: graph_of_def)
  have inj: "cn_id n = cn_id m \<longleftrightarrow> n = m" if "n \<in> set ns" "m \<in> set ns" for n m
    using ok(2) that by (auto simp: distinct_map dest: inj_onD)
  have pair: "l = l'" if "l \<in> set ls" "l' \<in> set ls" "cl_from l = cl_from l'" "cl_to l = cl_to l'" for l l'
    using ok(4) that by (auto simp: distinct_map dest: inj_onD)
  have out: "ed_to e \<in> set (concat (map addrs ns)) \<and> 0 \<le> ed_cost e \<and> ed_cost e \<le> w \<and> (ed_to e = cn_a s \<longrightarrow> 0 < ed_cost e)"
    if x: "x \<in> set (concat (map addrs ns))" "e \<in> set (nd_edges (g x))" for x e
  proof -
    obtain n where n: "n \<in> set ns" "x = cn_a n \<or> x = cn_b n" using x(1) unfolding nodes by blast
    then consider "ed_to e = cn_b n" "ed_cost e = 0" |
      l where "l \<in> set ls" "ed_to e = cn_a (cl_to l) \<or> ed_to e = cn_b (cl_to l)" "ed_cost e = cl_cost l"
      using x(2) edge [OF n(1), of e] by metis
    then show ?thesis
    proof cases
      case 1
      then show ?thesis using n(1) ok(6) addr(1) [OF assms(3) n(1)] unfolding nodes by auto
    next
      case 2
      then show ?thesis using ok(5) [of l] unfolding nodes by auto
    qed
  qed
  have distinct: "distinct (map ed_to (nd_edges (g x)))" if x: "x \<in> set (concat (map addrs ns))" for x
  proof -
    obtain n where n: "n \<in> set ns" "x = cn_a n \<or> x = cn_b n" using x unfolding nodes by blast
    have f: "length (ups (cn_a n) l) \<le> 1" "length (downs (cn_b n) l) \<le> 1" for l by (auto simp: ups_def downs_def)
    have e: "cl_from l = n \<and> ed_to e \<in> set (addrs (cl_to l))"
      if "l \<in> set ls" "e \<in> set (ups (cn_a n) l) \<or> e \<in> set (downs (cn_b n) l)" for l e
      using that ok(5) [OF that(1)] addr [OF _ n(1)] by (auto simp: ups_def downs_def split: if_splits)
    have "distinct (map ed_to (concat (map (ups (cn_a n)) ls)))" "distinct (map ed_to (concat (map (downs (cn_b n)) ls)))"
      using distinct_out [OF ok(1) _ _ ok(4)] f e ok(5) by (metis (no_types, lifting))+
    moreover have "cn_b n \<notin> ed_to ` set (concat (map (ups (cn_a n)) ls))"
    proof
      assume "cn_b n \<in> ed_to ` set (concat (map (ups (cn_a n)) ls))"
      then obtain l e' where l: "l \<in> set ls" "e' \<in> set (ups (cn_a n) l)" "ed_to e' = cn_b n" by auto
      then have "cl_from l = n" "ed_to e' \<in> set (addrs (cl_to l))" using e by blast+
      then show False using ok(5) [OF l(1)] l(3) addr [OF _ n(1)] addr(1) [OF _ n(1)] by (metis addrs_simps(1) insertE singletonD)
    qed
    ultimately show ?thesis using n assms(2) by (auto simp: graph_of_def)
  qed
  show ?thesis
    unfolding spf_ok_def
  proof (intro conjI ballI impI)
    show "distinct (concat (map addrs ns))" "0 \<le> w" by (rule ok)+
    show "cn_a s \<in> set (concat (map addrs ns))" using assms(3) unfolding nodes by blast
    show "int (length (concat (map addrs ns))) * w < MAX_COST" using ok(7) len by simp
  next
    fix x
    assume "x \<in> set (concat (map addrs ns))"
    then show "length (nd_id (g x)) = NODE_ID_LEN" using ids ok(3) unfolding nodes by auto
  next
    fix x y e e'
    assume x: "x \<in> set (concat (map addrs ns))" "e \<in> set (nd_edges (g x))" and y: "y \<in> set (concat (map addrs ns))" "e' \<in> set (nd_edges (g y))"
      and same: "ed_to e = ed_to e' \<and> nd_id (g x) = nd_id (g y)"
    obtain n m where n: "n \<in> set ns" "x = cn_a n \<or> x = cn_b n" and m: "m \<in> set ns" "y = cn_a m \<or> y = cn_b m" using x(1) y(1) unfolding nodes by blast
    then have "n = m" using same ids inj by auto
    have cross: False if e: "e \<in> set (nd_edges (g (cn_a n)))" "e' \<in> set (nd_edges (g (cn_b n)))" "ed_to e = ed_to e'" for e e'
    proof -
      obtain l' where l': "l' \<in> set ls" "cl_from l' = n" "cl_type l' \<in> {CONF_PEER_TYPE_CUSTOMER, CONF_PEER_TYPE_IPEER}" "ed_to e' = cn_b (cl_to l')"
        using edge(2) [OF n(1) e(2)] by blast
      note t' = ok(5) [OF l'(1)]
      from edge(1) [OF n(1) e(1)]
      consider "ed_to e = cn_b n" | l where "l \<in> set ls" "cl_from l = n" "cl_type l = CONF_PEER_TYPE_EPEER" "ed_to e = cn_b (cl_to l)"
        | l where "l \<in> set ls" "ed_to e = cn_a (cl_to l)" by blast
      then show False
      proof cases
        case 1
        then show False using e(3) l' t' addr(3) [OF n(1)] by metis
      next
        case 2
        then have "cl_to l = cl_to l'" using e(3) l' t' ok(5) [OF 2(1)] addr(3) by metis
        then have "l = l'" using pair 2 l' by metis
        then show False using 2(3) l'(3) by simp
      next
        case 3
        then show False using e(3) l' t' ok(5) [OF 3(1)] addr(1) by metis
      qed
    qed
    show "x = y" using n m \<open>n = m\<close> cross x(2) y(2) same by metis
  qed (use out distinct in blast)+
qed


section \<open>What a run promises\<close>

text \<open>\<open>policy_best ls s n k\<close>: the cheapest path of the policy from \<open>s\<close> to \<open>n\<close> costs \<open>k\<close>.\<close>

definition policy_best :: "cspf_link list \<Rightarrow> cspf_node \<Rightarrow> cspf_node \<Rightarrow> int \<Rightarrow> bool" where
  "policy_best ls s n k \<longleftrightarrow> (\<exists>ts. policy_path ls s n ts k \<and> valley_free ts) \<and>
     (\<forall>ts k'. policy_path ls s n ts k' \<and> valley_free ts \<longrightarrow> k \<le> k')"

definition policy_reach :: "cspf_link list \<Rightarrow> cspf_node \<Rightarrow> cspf_node \<Rightarrow> bool" where
  "policy_reach ls s n \<longleftrightarrow> (\<exists>ts k. policy_path ls s n ts k \<and> valley_free ts)"

text \<open>\<open>last_link ls s n l k\<close>: a path of the policy to \<open>n\<close> that ends with the link \<open>l\<close> costs \<open>k\<close>.\<close>

definition last_link :: "cspf_link list \<Rightarrow> cspf_node \<Rightarrow> cspf_node \<Rightarrow> cspf_link \<Rightarrow> int \<Rightarrow> bool" where
  "last_link ls s n l k \<longleftrightarrow> l \<in> set ls \<and> cl_to l = n \<and>
     (\<exists>ts c. policy_path ls s (cl_from l) ts c \<and> valley_free (ts @ [cl_type l]) \<and> k = c + cl_cost l)"

lemma walk_policy:
  assumes "net_ok ns ls w" "graph_of ns ls g" "s \<in> set ns" "n \<in> set ns"
  shows "spf_walk g (cn_a s) (cn_b n) c \<longleftrightarrow> (\<exists>ts. policy_path ls s n ts c \<and> valley_free ts)"
    "spf_walk g (cn_a s) (cn_a n) c \<longleftrightarrow> (\<exists>ts. policy_path ls s n ts c \<and> only_up ts)"
proof -
  note addr = net_addrs [OF net_okD(1) [OF assms(1)]]
  show "spf_walk g (cn_a s) (cn_b n) c \<longleftrightarrow> (\<exists>ts. policy_path ls s n ts c \<and> valley_free ts)"
    using walk_path [OF assms(1-3), of "cn_b n" c] path_walk [OF assms(1-3), of n] addr assms(4) by metis
  show "spf_walk g (cn_a s) (cn_a n) c \<longleftrightarrow> (\<exists>ts. policy_path ls s n ts c \<and> only_up ts)"
    using walk_path [OF assms(1-3), of "cn_a n" c] path_walk [OF assms(1-3), of n] addr assms(4) by metis
qed

lemma last_hop:
  assumes net: "net_ok ns ls w" "graph_of ns ls g" "s \<in> set ns" and n: "n \<in> set ns" and p: "p \<in> set (concat (map addrs ns))"
  shows "spf_before g (cn_a s) p (cn_a n) \<Longrightarrow>
      \<exists>l k. last_link ls s n l k \<and> p \<in> set (addrs (cl_from l)) \<and> shortest g (cn_a s) (cn_a n) k" (is "?A \<Longrightarrow> _")
    "spf_before g (cn_a s) p (cn_b n) \<Longrightarrow>
      p = cn_a n \<and> (\<exists>k. shortest g (cn_a s) (cn_a n) k \<and> shortest g (cn_a s) (cn_b n) k) \<or>
      (\<exists>l k. last_link ls s n l k \<and> p \<in> set (addrs (cl_from l)) \<and> shortest g (cn_a s) (cn_b n) k)" (is "?B \<Longrightarrow> _")
proof -
  note ok = net_okD [OF net(1)]
  note addr = net_addrs [OF ok(1)]
  obtain u where u: "u \<in> set ns" "p = cn_a u \<or> p = cn_b u" using p by auto
  note edge = graph_edge_cases [OF net(1,2) u(1)]
  note walk = walk_policy [OF net u(1)]
  have last: "last_link ls s n l (c + cl_cost l)" if "l \<in> set ls" "cl_from l = u" "cl_to l = n"
      "p = cn_a u \<and> cl_type l \<in> {CONF_PEER_TYPE_EPEER, CONF_PEER_TYPE_TRANSIT, CONF_PEER_TYPE_IPEER} \<or>
       p = cn_b u \<and> cl_type l \<in> {CONF_PEER_TYPE_CUSTOMER, CONF_PEER_TYPE_IPEER}" "shortest g (cn_a s) p c" for l c
  proof -
    have "\<exists>ts. policy_path ls s u ts c \<and> valley_free (ts @ [cl_type l])"
      using that(4,5) walk [of c] addr(1) [OF u(1) u(1)] unfolding shortest_def valley_free_snoc by auto
    then show ?thesis using that(1-3) by (auto simp: last_link_def)
  qed
  have to_n: "(cn_a (cl_to l) = cn_a n \<longleftrightarrow> cl_to l = n) \<and> (cn_b (cl_to l) = cn_b n \<longleftrightarrow> cl_to l = n) \<and> cn_a (cl_to l) \<noteq> cn_b n \<and> cn_b (cl_to l) \<noteq> cn_a n"
    if "l \<in> set ls" for l
    using addr [OF _ n, of "cl_to l"] addr(1) [OF n, of "cl_to l"] ok(5) [OF that] by auto
  have un: "cn_b u \<noteq> cn_a n" "cn_b u = cn_b n \<longleftrightarrow> u = n" using addr [OF u(1) n] addr(1) [OF n u(1)] by auto
  show "\<exists>l k. last_link ls s n l k \<and> p \<in> set (addrs (cl_from l)) \<and> shortest g (cn_a s) (cn_a n) k" if ?A
  proof -
    from that obtain e c where e: "e \<in> set (nd_edges (g p))" "ed_to e = cn_a n" "shortest g (cn_a s) p c" "shortest g (cn_a s) (cn_a n) (c + ed_cost e)"
      unfolding spf_before_def by blast
    obtain l where l: "l \<in> set ls" "cl_from l = u" "ed_cost e = cl_cost l" "p = cn_a u" "cl_type l \<in> {CONF_PEER_TYPE_TRANSIT, CONF_PEER_TYPE_IPEER}" "cl_to l = n"
      using u(2) edge [of e] e(1,2) un to_n by metis
    have "last_link ls s n l (c + cl_cost l)" by (rule last) (use l e(3) in auto)
    then show ?thesis using l e(4) by auto
  qed
  show "p = cn_a n \<and> (\<exists>k. shortest g (cn_a s) (cn_a n) k \<and> shortest g (cn_a s) (cn_b n) k) \<or>
      (\<exists>l k. last_link ls s n l k \<and> p \<in> set (addrs (cl_from l)) \<and> shortest g (cn_a s) (cn_b n) k)" if ?B
  proof -
    from that obtain e c where e: "e \<in> set (nd_edges (g p))" "ed_to e = cn_b n" "shortest g (cn_a s) p c" "shortest g (cn_a s) (cn_b n) (c + ed_cost e)"
      unfolding spf_before_def by blast
    have "p = cn_a u \<and> u = n \<and> ed_cost e = 0 \<or> (\<exists>l \<in> set ls. cl_from l = u \<and> ed_cost e = cl_cost l \<and> cl_to l = n \<and>
       (p = cn_a u \<and> cl_type l \<in> {CONF_PEER_TYPE_EPEER, CONF_PEER_TYPE_TRANSIT, CONF_PEER_TYPE_IPEER} \<or>
       p = cn_b u \<and> cl_type l \<in> {CONF_PEER_TYPE_CUSTOMER, CONF_PEER_TYPE_IPEER}))"
      using u(2)
    proof
      assume p: "p = cn_a u"
      then have "e \<in> set (nd_edges (g (cn_a u)))" using e(1) by simp
      from edge(1) [OF this] show ?thesis
      proof (elim disjE bexE conjE)
        assume "ed_to e = cn_b u" "ed_cost e = 0"
        then have "u = n" using un(2) e(2) by metis
        then show ?thesis using p \<open>ed_cost e = 0\<close> by blast
      next
        fix l
        assume "l \<in> set ls" "cl_from l = u" "ed_cost e = cl_cost l" "cl_type l = CONF_PEER_TYPE_EPEER" "ed_to e = cn_b (cl_to l)"
        moreover from this have "cl_to l = n" using to_n e(2) by metis
        ultimately show ?thesis using p by blast
      next
        fix l
        assume "l \<in> set ls" "ed_to e = cn_a (cl_to l)"
        then show ?thesis using to_n e(2) by metis
      qed
    next
      assume p: "p = cn_b u"
      then have "e \<in> set (nd_edges (g (cn_b u)))" using e(1) by simp
      from edge(2) [OF this] obtain l where "l \<in> set ls" "cl_from l = u" "ed_cost e = cl_cost l"
          "cl_type l \<in> {CONF_PEER_TYPE_CUSTOMER, CONF_PEER_TYPE_IPEER}" "ed_to e = cn_b (cl_to l)" by blast
      moreover from this have "cl_to l = n" using to_n e(2) by metis
      ultimately show ?thesis using p by blast
    qed
    then show ?thesis
    proof (elim disjE bexE conjE)
      fix l
      assume "l \<in> set ls" "cl_from l = u" "ed_cost e = cl_cost l" "cl_to l = n"
        "p = cn_a u" "cl_type l \<in> {CONF_PEER_TYPE_EPEER, CONF_PEER_TYPE_TRANSIT, CONF_PEER_TYPE_IPEER}"
      then show ?thesis using last [of l c] e(3,4) u(2) by (metis addrs_simps(1) insertCI)
    next
      fix l
      assume "l \<in> set ls" "cl_from l = u" "ed_cost e = cl_cost l" "cl_to l = n"
        "p = cn_b u" "cl_type l \<in> {CONF_PEER_TYPE_CUSTOMER, CONF_PEER_TYPE_IPEER}"
      then show ?thesis using last [of l c] e(3,4) u(2) by (metis addrs_simps(1) insertCI)
    qed (use e(3,4) in auto)
  qed
qed


definition cspf_promise :: "cspf_link list \<Rightarrow> cspf_node \<Rightarrow> cspf_node \<Rightarrow> int \<Rightarrow> nat option \<Rightarrow> bool" where
  "cspf_promise ls s n cost parent \<longleftrightarrow>
     (if policy_reach ls s n
      then policy_best ls s n cost \<and> cost < MAX_COST \<and>
           (if n = s then parent = None else \<exists>l. last_link ls s n l cost \<and> parent = Some (cn_cookie (cl_from l)))
      else cost = MAX_COST \<and> parent = None)"

lemma policy_path_nonneg: "policy_path ls s n ts c \<Longrightarrow> net_ok ns ls w \<Longrightarrow> 0 \<le> c"
  by (induction rule: policy_path.induct) (auto dest: net_okD(5))

lemma shortest_unique: "shortest g s n c \<Longrightarrow> shortest g s n c' \<Longrightarrow> c = c'"
  by (force simp: shortest_def)

lemma promiseD:
  assumes "spf_promise g ns s g'"
  shows "nd_cookie (g' n) = nd_cookie (g n)" "nd_parent (g' s) = None"
    "n \<in> set ns \<Longrightarrow> spf_walk g s n c \<Longrightarrow> shortest g s n (nd_cost (g' n)) \<and> nd_cost (g' n) < MAX_COST"
    "n \<in> set ns \<Longrightarrow> \<nexists>c. spf_walk g s n c \<Longrightarrow> nd_cost (g' n) = MAX_COST \<and> nd_parent (g' n) = None"
    "n \<in> set ns \<Longrightarrow> n \<noteq> s \<Longrightarrow> spf_walk g s n c \<Longrightarrow> \<exists>p \<in> set ns. nd_parent (g' n) = Some p \<and> spf_before g s p n"
  using assms unfolding spf_promise_def by metis+

lemma cspf_promise_holds:
  assumes net: "net_ok ns ls w" "graph_of ns ls g" "s \<in> set ns" and n: "n \<in> set ns"
    and run: "spf_promise g (concat (map addrs ns)) (cn_a s) g'"
  shows "cspf_promise ls s n (cspf_node_cost n g') (cspf_node_parent n g')"
proof -
  let ?N = "concat (map addrs ns)"
  note ok = net_okD [OF net(1)]
  note addr = net_addrs [OF ok(1)]
  have in_N: "cn_a n \<in> set ?N" "cn_b n \<in> set ?N" using n by auto
  have ne: "cn_b n \<noteq> cn_a s" "cn_a n = cn_a s \<longleftrightarrow> n = s" using addr(1) [OF net(3) n] addr(2) [OF n net(3)] by auto
  have reach: "policy_reach ls s n \<longleftrightarrow> (\<exists>c. spf_walk g (cn_a s) (cn_b n) c)"
    unfolding walk_policy(1) [OF net n] policy_reach_def by blast
  have best: "shortest g (cn_a s) (cn_b n) c \<longleftrightarrow> policy_best ls s n c" for c
    unfolding shortest_def policy_best_def walk_policy(1) [OF net n] by blast
  have cookie: "nd_cookie (g' x) = cn_cookie (cl_from l)" if "last_link ls s n l k" "x \<in> set (addrs (cl_from l))" for x l k
    using that promiseD(1) [OF run] net(2) ok(5) [of l] by (auto simp: last_link_def graph_of_def)
  have last: "n \<noteq> s \<and> cl_from l \<noteq> n" if ll: "last_link ls s n l k" "policy_best ls s n k" for l k
  proof -
    obtain ts c where l: "l \<in> set ls" "cl_to l = n" "policy_path ls s (cl_from l) ts c" "k = c + cl_cost l"
      using ll(1) by (auto simp: last_link_def)
    then have "0 < k" using policy_path_nonneg [OF l(3) net(1)] ok(5) [OF l(1)] by simp
    moreover have "policy_path ls s s [] 0" by (rule policy_path.start)
    ultimately have "n \<noteq> s" using ll(2) unfolding policy_best_def by fastforce
    then show ?thesis using l(2) ok(5) [OF l(1)] by auto
  qed
  show ?thesis
  proof (cases "policy_reach ls s n")
    case False
    then show ?thesis
      using promiseD(4) [OF run in_N(2)] reach by (auto simp: cspf_promise_def cspf_node_cost_def cspf_node_parent_def)
  next
    case True
    then obtain c where c: "spf_walk g (cn_a s) (cn_b n) c" using reach by blast
    have cost: "shortest g (cn_a s) (cn_b n) (cspf_node_cost n g')" "cspf_node_cost n g' < MAX_COST"
      using promiseD(3) [OF run in_N(2) c] by (simp_all add: cspf_node_cost_def)
    obtain p where p: "p \<in> set ?N" "nd_parent (g' (cn_b n)) = Some p" "spf_before g (cn_a s) p (cn_b n)"
      using promiseD(5) [OF run in_N(2) ne(1) c] by blast
    have "if n = s then cspf_node_parent n g' = None
          else \<exists>l. last_link ls s n l (cspf_node_cost n g') \<and> cspf_node_parent n g' = Some (cn_cookie (cl_from l))"
      using last_hop(2) [OF net n p(1,3)]
    proof (elim disjE conjE exE)
      fix k
      assume k: "p = cn_a n" "shortest g (cn_a s) (cn_a n) k" "shortest g (cn_a s) (cn_b n) k"
      show ?thesis
      proof (cases "n = s")
        case True
        then show ?thesis using p(2) k(1) promiseD(2) [OF run] by (simp add: cspf_node_parent_def)
      next
        case False
        have "spf_walk g (cn_a s) (cn_a n) k" using k(2) by (simp add: shortest_def)
        then obtain q where q: "q \<in> set ?N" "nd_parent (g' (cn_a n)) = Some q" "spf_before g (cn_a s) q (cn_a n)"
          using promiseD(5) [OF run in_N(1)] ne(2) False by blast
        then obtain l k' where l: "last_link ls s n l k'" "q \<in> set (addrs (cl_from l))" "shortest g (cn_a s) (cn_a n) k'"
          using last_hop(1) [OF net n q(1)] by blast
        have "k' = cspf_node_cost n g'" using shortest_unique k l(3) cost(1) by metis
        then show ?thesis using False l(1) cookie [OF l(1,2)] p(2) k(1) q(2) by (auto simp: cspf_node_parent_def)
      qed
    next
      fix l k
      assume l: "last_link ls s n l k" "p \<in> set (addrs (cl_from l))" "shortest g (cn_a s) (cn_b n) k"
      have "k = cspf_node_cost n g'" using shortest_unique l(3) cost(1) by metis
      moreover have "n \<noteq> s" "cl_from l \<noteq> n" using last [OF l(1)] l(3) best by auto
      moreover have "p \<noteq> cn_a n"
        using l(1,2) ok(5) [of l] addr(2) [OF n, of "cl_from l"] addr(1) [OF n, of "cl_from l"] \<open>cl_from l \<noteq> n\<close>
        by (auto simp: last_link_def)
      ultimately show ?thesis using l(1) cookie [OF l(1,2)] p(2) by (auto simp: cspf_node_parent_def)
    qed
    then show ?thesis using True cost best by (simp add: cspf_promise_def)
  qed
qed

text \<open>
  C23: on a network within the bounds of \<open>net_ok\<close> - each node added once, at most one link from a node to
  another, every link with a positive cost - the graph that the calls of \<^verbatim>\<open>cspf_node_add\<close> and \<^verbatim>\<open>cspf_edge_add\<close>
  build is one on which \<^verbatim>\<open>cspf_run\<close> returns without a fault.  The cost of each node is then that of the
  cheapest path that keeps to the policy, up through transit nodes and internal peers, at most once
  across to an external peer, and down to customers, or \<^verbatim>\<open>INT_MAX\<close> if no path does; and its parent is the cookie of the last node but one
  of such a path, and \<^verbatim>\<open>NULL\<close> for the source and for the nodes that are not reached.
\<close>

theorem cspf_run_correct:
  assumes "net_ok ns ls w" "source \<in> set ns" "cspf_build ns ls (ctx0, g0) = (ctx, g)"
  shows "\<exists>g'. cspf_run ctx source g = Some (Inr g') \<and>
    (\<forall>n \<in> set ns. cspf_promise ls source n (cspf_node_cost n g') (cspf_node_parent n g'))"
proof -
  note b = build_graph [OF assms(1,3)]
  have "spf_ok g (sc_nodes ctx) (cn_a source) w" unfolding b(1) by (rule graph_spf_ok [OF assms(1) b(3) assms(2)])
  from spf_run_returns [OF this b(2)] obtain g' where "spf_run ctx (cn_a source) g = Some (Inr g')"
      "spf_promise g (concat (map addrs ns)) (cn_a source) g'"
    unfolding b(1) by blast
  then show ?thesis using cspf_promise_holds [OF assms(1) b(3) assms(2)] by (auto simp: cspf_run_def)
qed

text \<open>
  A network of four nodes: 0 has the transit node 1 and the customer 2; 1 and 3 are external peers; 2 has the
  transit node 3, which from 0 is not reached that way, by a valley, but through 1.
\<close>

definition demo_cspf :: "nat \<Rightarrow> cspf_node" where
  "demo_cspf i = \<lparr>cn_id = replicate NODE_ID_LEN (of_nat i), cn_cookie = 70 + i, cn_a = 10 + i, cn_b = 20 + i, cn_ab = 30 + i\<rparr>"

definition demo_nodes :: "cspf_node list" where
  "demo_nodes = map demo_cspf [0, 2, 4, 6]"

definition demo_link :: "nat \<Rightarrow> nat \<Rightarrow> conf_peer_type \<Rightarrow> int \<Rightarrow> cspf_link" where
  "demo_link i j t c = \<lparr>cl_edge = \<lparr>ce_e0 = 100 * i + j, ce_e1 = 100 * i + j + 50\<rparr>, cl_from = demo_cspf i, cl_to = demo_cspf j,
     cl_type = t, cl_cost = c\<rparr>"

definition demo_links :: "cspf_link list" where
  "demo_links = [demo_link 0 2 CONF_PEER_TYPE_TRANSIT 5, demo_link 0 4 CONF_PEER_TYPE_CUSTOMER 3, demo_link 2 6 CONF_PEER_TYPE_EPEER 4,
     demo_link 4 6 CONF_PEER_TYPE_TRANSIT 3]"

definition demo_net :: "spf_context \<times> spf_mem" where
  "demo_net = cspf_build demo_nodes demo_links (demo_ctx, \<lambda>_. demo_node 0 [])"

theorem cspf_run_correct_witness:
  "\<exists>g'. cspf_run (fst demo_net) (demo_cspf 0) (snd demo_net) = Some (Inr g') \<and>
    (\<forall>n \<in> set demo_nodes. cspf_promise demo_links (demo_cspf 0) n (cspf_node_cost n g') (cspf_node_parent n g'))"
proof -
  have "net_ok demo_nodes demo_links 5"
    by (simp add: net_ok_def demo_nodes_def demo_links_def demo_link_def demo_cspf_def addrs_def MAX_COST_def NODE_ID_LEN_def)
  moreover have "demo_cspf 0 \<in> set demo_nodes" by (simp add: demo_nodes_def)
  moreover have "cspf_build demo_nodes demo_links (demo_ctx, \<lambda>_. demo_node 0 []) = (fst demo_net, snd demo_net)" by (simp add: demo_net_def)
  ultimately show ?thesis by (rule cspf_run_correct)
qed

end
