(* ===== verification/Lsa_Faults.thy ===== *)
theory Lsa_Faults
  imports Lsa_Diff
begin

text \<open>
  Which bytes of a peer stop the process in \<^verbatim>\<open>src/lsa_deserialise.c\<close>, told from the bytes alone, without the
  sets that the code builds from them; and what an LSA that the code does return may be used for.
\<close>

section \<open>What the bytes say\<close>

text \<open>The attributes one after the other, up to the first that cannot be read, and whether there is none such.\<close>

type_synonym wire_attr = "int \<times> u64 \<times> bytes \<times> bytes"

function wire_attrs :: "bytes \<Rightarrow> wire_attr list \<times> bool" where
  "wire_attrs src =
     (if src = [] then ([], True)
      else case src_read_attr src of
        Inl _ \<Rightarrow> ([], False)
      | Inr (a, src') \<Rightarrow> let (as, all) = wire_attrs src' in (a # as, all))"
  by pat_completeness auto
termination
  by (relation "measure length") (auto dest!: src_read_attr_length)

declare wire_attrs.simps [simp del]

definition wire_key :: "wire_attr \<Rightarrow> int \<times> bytes" where
  "wire_key a = (case a of (type, flags, key, data) \<Rightarrow> (type, key))"

definition wire_nested :: "wire_attr \<Rightarrow> bool" where
  "wire_nested a \<longleftrightarrow> (case a of (type, flags, key, data) \<Rightarrow> flags AND LSA_ATTR_FLAG_DATA_IS_TLV \<noteq> 0)"

definition wire_data :: "wire_attr \<Rightarrow> bytes" where
  "wire_data a = (case a of (type, flags, key, data) \<Rightarrow> data)"

text \<open>
  Attributes cannot be read, at this level or in a nested set; a set nested deeper than \<open>n\<close> counts as one that cannot.
\<close>

primrec wire_fails :: "nat \<Rightarrow> bytes \<Rightarrow> bool" where
  "wire_fails 0 src \<longleftrightarrow> \<not> snd (wire_attrs src) \<or> (\<exists>a \<in> set (fst (wire_attrs src)). wire_nested a)"
| "wire_fails (Suc n) src \<longleftrightarrow> \<not> snd (wire_attrs src) \<or>
     (\<exists>a \<in> set (fst (wire_attrs src)). wire_nested a \<and> wire_fails n (wire_data a))"

definition wire_bad :: "nat \<Rightarrow> wire_attr \<Rightarrow> bool" where
  "wire_bad n a \<longleftrightarrow> wire_nested a \<and> (case n of 0 \<Rightarrow> True | Suc m \<Rightarrow> wire_fails m (wire_data a))"

lemma wire_fails_iff: "wire_fails n src \<longleftrightarrow> \<not> snd (wire_attrs src) \<or> (\<exists>a \<in> set (fst (wire_attrs src)). wire_bad n a)"
  by (cases n) (simp_all add: wire_bad_def)

text \<open>
  Before anything cannot be read, an attribute has the type and key of an earlier one of the same set, or of \<open>S\<close>.
\<close>

primrec wire_repeats :: "nat \<Rightarrow> bytes \<Rightarrow> bool" where
  "wire_repeats 0 src \<longleftrightarrow> (\<exists>as a bs. fst (wire_attrs src) = as @ a # bs \<and> (\<forall>x \<in> set as. \<not> wire_bad 0 x) \<and>
     \<not> wire_nested a \<and> wire_key a \<in> wire_key ` set as)"
| "wire_repeats (Suc n) src \<longleftrightarrow> (\<exists>as a bs. fst (wire_attrs src) = as @ a # bs \<and> (\<forall>x \<in> set as. \<not> wire_bad (Suc n) x) \<and>
     (wire_key a \<in> wire_key ` set as \<or> wire_nested a \<and> wire_repeats n (wire_data a)))"

text \<open>No attribute of the set is stored: there is none, none can be read, or the first is nested too deep.\<close>

definition wire_nothing :: "nat \<Rightarrow> bytes \<Rightarrow> bool" where
  "wire_nothing n src \<longleftrightarrow> (case fst (wire_attrs src) of [] \<Rightarrow> True | a # _ \<Rightarrow> wire_nested a \<and> n = 0)"

text \<open>Before anything cannot be read, or as the first such thing, there is a nested set of which nothing is stored.\<close>

primrec wire_empties :: "nat \<Rightarrow> bytes \<Rightarrow> bool" where
  "wire_empties 0 src \<longleftrightarrow> False"
| "wire_empties (Suc n) src \<longleftrightarrow> (\<exists>as a bs. fst (wire_attrs src) = as @ a # bs \<and> (\<forall>x \<in> set as. \<not> wire_bad (Suc n) x) \<and>
     wire_nested a \<and> (wire_nothing n (wire_data a) \<or> wire_empties n (wire_data a)))"

text \<open>The attributes of the LSA that a buffer begins with, if all of it is there.\<close>

definition wire_lsa :: "bytes \<Rightarrow> bytes option" where
  "wire_lsa buf =
     (case SRC_READ_SIZE_T buf of
        Inl _ \<Rightarrow> None
      | Inr (len, src) \<Rightarrow> if NODE_ID_LEN \<le> len \<and> len \<le> length src then Some (drop NODE_ID_LEN (take len src)) else None)"

text \<open>How many bytes that is.\<close>

definition wire_size :: "bytes \<Rightarrow> nat" where
  "wire_size buf = (case SRC_READ_SIZE_T buf of Inl _ \<Rightarrow> 0 | Inr (len, src) \<Rightarrow> len + (length buf - length src))"

section \<open>One attribute at a time\<close>

text \<open>The same conditions for a list of attributes behind others with the keys \<open>S\<close>.\<close>

definition repeat_at :: "(int \<times> bytes) set \<Rightarrow> nat \<Rightarrow> wire_attr \<Rightarrow> bool" where
  "repeat_at S n a \<longleftrightarrow> (case n of 0 \<Rightarrow> \<not> wire_nested a \<and> wire_key a \<in> S
     | Suc m \<Rightarrow> wire_key a \<in> S \<or> wire_nested a \<and> wire_repeats m (wire_data a))"

definition empty_at :: "nat \<Rightarrow> wire_attr \<Rightarrow> bool" where
  "empty_at n a \<longleftrightarrow> (case n of 0 \<Rightarrow> False
     | Suc m \<Rightarrow> wire_nested a \<and> (wire_nothing m (wire_data a) \<or> wire_empties m (wire_data a)))"

definition first_at :: "((int \<times> bytes) set \<Rightarrow> wire_attr \<Rightarrow> bool) \<Rightarrow> (int \<times> bytes) set \<Rightarrow> nat \<Rightarrow> wire_attr list \<Rightarrow> bool" where
  "first_at P S n xs \<longleftrightarrow> (\<exists>as a bs. xs = as @ a # bs \<and> (\<forall>x \<in> set as. \<not> wire_bad n x) \<and> P (S \<union> wire_key ` set as) a)"

lemma first_at_Nil [simp]: "\<not> first_at P S n []"
  by (simp add: first_at_def)

lemma first_at_Cons: "first_at P S n (x # xs) \<longleftrightarrow> P S x \<or> \<not> wire_bad n x \<and> first_at P (insert (wire_key x) S) n xs"
proof
  assume "first_at P S n (x # xs)"
  then obtain as a bs where s: "x # xs = as @ a # bs" "\<forall>y \<in> set as. \<not> wire_bad n y" "P (S \<union> wire_key ` set as) a"
    unfolding first_at_def by blast
  show "P S x \<or> \<not> wire_bad n x \<and> first_at P (insert (wire_key x) S) n xs"
  proof (cases as)
    case (Cons y ys)
    then have "xs = ys @ a # bs" "\<forall>z \<in> set ys. \<not> wire_bad n z" "P (insert (wire_key x) S \<union> wire_key ` set ys) a" "\<not> wire_bad n x"
      using s by simp_all
    then show ?thesis unfolding first_at_def by blast
  qed (use s in simp)
next
  assume "P S x \<or> \<not> wire_bad n x \<and> first_at P (insert (wire_key x) S) n xs"
  then show "first_at P S n (x # xs)"
  proof (elim disjE conjE)
    assume "P S x"
    then show ?thesis unfolding first_at_def by (intro exI [of _ "[]"] exI [of _ x] exI [of _ xs]) simp
  next
    assume good: "\<not> wire_bad n x" and "first_at P (insert (wire_key x) S) n xs"
    then obtain as a bs where "xs = as @ a # bs" "\<forall>y \<in> set as. \<not> wire_bad n y" "P (insert (wire_key x) S \<union> wire_key ` set as) a"
      unfolding first_at_def by blast
    with good show ?thesis unfolding first_at_def by (intro exI [of _ "x # as"] exI [of _ a] exI [of _ bs]) simp
  qed
qed

lemma wire_repeats_at: "wire_repeats n src \<longleftrightarrow> first_at (\<lambda>S. repeat_at S n) {} n (fst (wire_attrs src))"
  by (cases n) (simp_all add: first_at_def repeat_at_def)

lemma wire_empties_at: "wire_empties n src \<longleftrightarrow> first_at (\<lambda>S. empty_at n) {} n (fst (wire_attrs src))"
  by (cases n) (simp_all add: first_at_def empty_at_def)


section \<open>Sizes\<close>

text \<open>An integer is written in no more bytes than a greater one was read from.\<close>

lemma int_groups_strip:
  assumes "0 < m" "\<And>i. 7 * m \<le> i \<Longrightarrow> \<not> bit v i" "m \<le> k"
  shows "dropWhile (\<lambda>b. b = 0x80) (int_groups k v) = dropWhile (\<lambda>b. b = 0x80) (int_groups m v)"
  using assms(3)
proof (induction k rule: dec_induct)
  case (step k)
  have "drop_bit (7 * k) v = 0"
    by (rule bit_word_eqI) (use assms(2) step(1) in \<open>simp add: bit_simps\<close>)
  moreover obtain j where "k = Suc j" using assms(1) step(1) by (cases k) auto
  ultimately show ?case using step(3) by simp
qed simp

lemma int_groups_length: "length (int_groups k v) = k"
  by (induction k v rule: int_groups.induct) auto

lemma int_enc_bound:
  assumes "0 < m" "unat v < 2 ^ (7 * m)"
  shows "length (int_enc v) \<le> m"
proof (cases "m \<le> 10")
  case True
  have "\<not> bit v i" if "7 * m \<le> i" for i
  proof -
    have "(2 :: nat) ^ (7 * m) \<le> 2 ^ i" using that by (intro power_increasing) auto
    with assms(2) have "unat v < 2 ^ i" by linarith
    then have "drop_bit i (unat v) = 0" by (simp add: drop_bit_eq_div)
    then have "unat (drop_bit i v) = 0" by (simp only: unat_drop_bit_eq)
    then have "drop_bit i v = 0" by (simp only: unat_eq_0)
    then show ?thesis by (simp add: bit_iff_odd_drop_bit)
  qed
  then have "int_enc v = dropWhile (\<lambda>b. b = 0x80) (int_groups m v)"
    using int_groups_strip [of m v 10] assms(1) True by (simp add: int_enc_def int_val_groups)
  then show ?thesis using length_dropWhile_le [of "\<lambda>b. b = 0x80" "int_groups m v"] by (simp add: int_groups_length)
qed (use int_enc_length(2) [of v] in simp)

lemma loop_bits:
  "src_read_loop cnt b v src = Inr (w, rest) \<Longrightarrow> (\<And>i. 7 * m \<le> i \<Longrightarrow> \<not> bit v i) \<Longrightarrow>
   7 * (m + length src - length rest) \<le> i \<Longrightarrow> \<not> bit w i"
proof (induction cnt b v src arbitrary: m rule: src_read_loop.induct)
  case (2 cnt b v c src)
  show ?case
  proof (cases "b AND 0x80 \<noteq> 0")
    case True
    with 2(2) have more: "cnt + 1 \<noteq> 10"
      and run: "src_read_loop (cnt + 1) c (push_bit 7 v OR ucast (c AND 0x7f)) src = Inr (w, rest)"
      by (auto split: if_splits)
    have "\<not> bit (push_bit 7 v OR ucast (c AND 0x7f) :: u64) j" if "7 * Suc m \<le> j" for j
      using that 2(3) [of "j - 7"] by (auto simp: bit_simps mask7)
    with 2(1) [OF True more run, of "Suc m"] 2(4) src_read_loop_length [OF run] show ?thesis by simp
  qed (use 2 in auto)
qed (auto split: if_splits)

lemma read_uint_bound:
  assumes "SRC_READ_UINT64_T src = Inr (w, rest)" "unat v \<le> unat w"
  shows "length (int_enc v) + length rest \<le> length src"
proof -
  obtain b src' where b: "src = b # src'" "src_read_loop 0 b (ucast (b AND 0x7f)) src' = Inr (w, rest)"
    using assms(1) by (auto simp: SRC_READ_UINT64_T_def split: list.splits if_splits)
  let ?m = "1 + length src' - length rest"
  have len: "length rest \<le> length src'" using src_read_loop_length [OF b(2)] .
  have "\<not> bit (ucast (b AND 0x7f) :: u64) j" if "7 * 1 \<le> j" for j
    using that by (auto simp: bit_simps mask7)
  from loop_bits [OF b(2), of 1] this have "drop_bit (7 * ?m) w = 0"
    by (intro bit_word_eqI) (simp add: bit_simps)
  then have "drop_bit (7 * ?m) (unat w) = 0" by (metis unat_drop_bit_eq unsigned_0)
  then have "unat w < 2 ^ (7 * ?m)" by (simp add: drop_bit_eq_div div_eq_0_iff)
  then have "length (int_enc v) \<le> ?m" using assms(2) len by (intro int_enc_bound) auto
  with b(1) len show ?thesis by simp
qed

lemma read_attr_bound:
  assumes "src_read_attr src = Inr ((attr_type a, flags, attr_key a, d), rest)" "n \<le> length d"
  shows "length (attr_head_enc a) + length (int_enc (word_of_nat n)) + length d + length rest \<le> length src"
proof -
  have int: "length (int_enc u) + length r \<le> length s \<and> SRC_READ_UINT64_T s = Inr (v, r)"
    if "SRC_READ_INT s = Inr (v, r)" "unat u \<le> unat v" for s r and u v :: u64
    using that read_uint_bound [of s v r u] by (auto simp: SRC_READ_INT_def split: sum.splits if_splits)
  have size: "length (int_enc (word_of_nat j)) + length r \<le> length s"
    if "SRC_READ_SIZE_T s = Inr (v, r)" "j \<le> v" for s r j v
  proof -
    from that(1) obtain u where "SRC_READ_UINT64_T s = Inr (u, r)" "v = unat u"
      by (auto simp: SRC_READ_SIZE_T_def split: sum.splits if_splits)
    moreover have "unat (word_of_nat j :: u64) \<le> j" by (simp add: unat_of_nat take_bit_nat_less_eq_self)
    ultimately show ?thesis using read_uint_bound [of s u r "word_of_nat j"] that(2) by linarith
  qed
  from assms(1) obtain t s1 where t: "SRC_READ_INT src = Inr (t, s1)"
    by (cases "SRC_READ_INT src") (auto simp: src_read_attr_def)
  from assms(1) t obtain f s2 where f': "SRC_READ_INT s1 = Inr (f, s2)"
    by (cases "SRC_READ_INT s1") (auto simp: src_read_attr_def)
  let ?key = "if f AND LSA_ATTR_FLAG_HAS_KEY \<noteq> 0 then
      (case SRC_READ_SIZE_T s2 of Inl e \<Rightarrow> Inl e | Inr (keylen, src) \<Rightarrow> SRC_READ keylen src) else Inr ([], s2)"
  from assms(1) t f' obtain key s3 where k': "?key = Inr (key, s3)"
    by (cases "?key") (simp_all add: src_read_attr_def, auto)
  from assms(1) t f' k' obtain m s4 where d1: "SRC_READ_SIZE_T s3 = Inr (m, s4)"
    by (cases "SRC_READ_SIZE_T s3") (simp_all add: src_read_attr_def, auto)
  have "SRC_READ m s4 = Inr (d, rest)" "f = flags" "key = attr_key a" and ty: "int (unat t) = attr_type a"
    using assms(1) t f' k' d1 by (simp_all add: src_read_attr_def split: sum.splits prod.splits)
  with d1 k' f' have d: "SRC_READ_SIZE_T s3 = Inr (m, s4)" "SRC_READ m s4 = Inr (d, rest)"
    and f: "SRC_READ_INT s1 = Inr (flags, s2)"
    and k: "(if flags AND LSA_ATTR_FLAG_HAS_KEY \<noteq> 0 then
              (case SRC_READ_SIZE_T s2 of Inl e \<Rightarrow> Inl e | Inr (keylen, src) \<Rightarrow> SRC_READ keylen src)
            else Inr ([], s2)) = Inr (attr_key a, s3)" by simp_all
  have "word_of_int (attr_type a) = t" by (simp flip: ty)
  then have 1: "length (int_enc (word_of_int (attr_type a))) + length s1 \<le> length src" using int [OF t, of t] by simp
  have "length (int_enc (attr_flags a)) = 1" by (rule int_enc_small(1), rule attr_flags_small)
  then have 2: "length (int_enc (attr_flags a)) + length s2 \<le> length s1" using SRC_READ_INT_length [OF f] by simp
  have 3: "length (if attr_key a \<noteq> [] then int_enc (word_of_nat (length (attr_key a))) @ attr_key a else []) + length s3 \<le> length s2"
  proof (cases "flags AND LSA_ATTR_FLAG_HAS_KEY \<noteq> 0")
    case True
    with k obtain kl s where kl: "SRC_READ_SIZE_T s2 = Inr (kl, s)" "SRC_READ kl s = Inr (attr_key a, s3)"
      by (auto split: sum.splits)
    then have "kl \<le> length s" "attr_key a = take kl s" "s3 = drop kl s"
      by (auto simp: SRC_READ_def split: if_splits)
    then have "length (attr_key a) = kl" "length (attr_key a) + length s3 = length s" by simp_all
    then show ?thesis using size [OF kl(1), of kl] by auto
  qed (use k in auto)
  from d(2) have "m \<le> length s4" "d = take m s4" "rest = drop m s4" by (auto simp: SRC_READ_def split: if_splits)
  then have "length d = m" "length d + length rest = length s4" by simp_all
  then have 4: "length (int_enc (word_of_nat n)) + length d + length rest \<le> length s3"
    using size [OF d(1), of n] assms(2) by auto
  show ?thesis using 1 2 3 4 by (simp add: attr_head_enc_def)
qed


section \<open>Reading a set of attributes\<close>

definition enc_total :: "lsa_attr list \<Rightarrow> nat" where
  "enc_total as = sum_list (map (\<lambda>a. length (attr_enc False None a)) as)"

lemma enc_total_concat: "length (concat (map (attr_enc False None) as)) = enc_total as"
  by (simp add: enc_total_def length_concat comp_def)

text \<open>The set of attributes with one more.\<close>

definition attrs_more :: "lsa_attr \<Rightarrow> lsa_attr list \<Rightarrow> lsa_attr list \<Rightarrow> bool" where
  "attrs_more a as bs \<longleftrightarrow> attrs_ok bs \<and> set bs = insert a (set as) \<and>
     enc_total bs = length (attr_enc False None a) + enc_total as \<and> attrs_total bs = attr_total a + attrs_total as"

lemma insert_more:
  assumes "avl_insert compare_attr_keys a as = Some bs" "attr_ok a" "attrs_ok as"
  shows "attrs_more a as bs"
  using insert_attrs_ok [OF assms] avl_insert_sum [OF assms(1), of "\<lambda>a. length (attr_enc False None a)"]
  by (simp add: attrs_more_def enc_total_def)

lemma insert_set_child:
  "avl_insert compare_attr_keys (Lsa_attr t s k (Attr_set [])) as = Some bs \<Longrightarrow>
   (t, k) \<notin> attr_order_key ` set as \<Longrightarrow>
   avl_insert compare_attr_keys (Lsa_attr t s k (Attr_set c)) as = Some (set_child t k c bs)"
proof (induction as arbitrary: bs)
  case (Cons a as)
  have cmp: "compare_attr_keys (Lsa_attr t s k (Attr_set c)) = compare_attr_keys (Lsa_attr t s k (Attr_set []))"
    by (rule compare_attr_keys_cong) simp_all
  from Cons.prems(2) have "\<not> (attr_type a = t \<and> attr_key a = k)" by (auto simp: attr_order_key_def)
  with Cons show ?case by (auto simp: cmp split: if_splits option.splits)
qed auto

lemma key_found:
  assumes "attrs_ok as" "length k \<le> 65536"
  shows "lsa_attr_set_find_attr as t k = None \<longleftrightarrow> (t, k) \<notin> attr_order_key ` set as"
  using find_attr_None [of as t k] find_attr_member [of as] assms
  by (fastforce simp: attrs_ok_def attr_order_key_def)

lemma add_attr_any:
  assumes "attrs_ok as" "length k + length d \<le> 65536"
  shows "if (t, k) \<in> attr_order_key ` set as then lsa_attr_set_add_attr 1 b as t s k d = Inl Abort
    else \<exists>b' bs. lsa_attr_set_add_attr 1 b as t s k d = Inr (0, b', bs) \<and> attrs_more (Lsa_attr t s k (Attr_bytes d)) as bs"
proof -
  have key: "lsa_attr_set_find_attr as t k = None \<longleftrightarrow> (t, k) \<notin> attr_order_key ` set as"
    by (rule key_found) (use assms in simp_all)
  show ?thesis
  proof (cases "(t, k) \<in> attr_order_key ` set as")
    case True
    with key show ?thesis by (simp add: lsa_attr_set_add_attr_def)
  next
    case False
    with key have none: "lsa_attr_set_find_attr as t k = None" by simp
    have len: "length k \<le> 65536" using assms(2) by simp
    have "avl_ordered compare_attr_keys as" using assms(1) by (simp add: attrs_ok_def)
    then obtain bs where "lsa_attr_set_add_attr 1 b as t s k d = Inr (0, b + attr_total (Lsa_attr t s k (Attr_bytes d)), bs)"
      "avl_insert compare_attr_keys (Lsa_attr t s k (Attr_bytes d)) as = Some bs"
      by (rule add_attr_returns [where b = b and s = s and d = d, OF _ disjI1 [OF len] none])
        (use assms(2) in \<open>simp add: MAX_SERIALISED_INT_LEN_def\<close>)
    with False show ?thesis using insert_more [of "Lsa_attr t s k (Attr_bytes d)" as bs] assms(1) by auto
  qed
qed

lemma add_attr_set_any:
  assumes "attrs_ok as" "length k \<le> 65536"
  shows "if (t, k) \<in> attr_order_key ` set as then lsa_attr_set_add_attr_set 1 b as t s k = Inl Abort
    else \<exists>b' bs. lsa_attr_set_add_attr_set 1 b as t s k = Inr (True, b', bs) \<and>
      (\<forall>c. attrs_ok c \<longrightarrow> attrs_more (Lsa_attr t s k (Attr_set c)) as (set_child t k c bs))"
proof (cases "(t, k) \<in> attr_order_key ` set as")
  case True
  with key_found [OF assms] show ?thesis by (simp add: lsa_attr_set_add_attr_set_def)
next
  case False
  let ?a = "Lsa_attr t s k (Attr_set [])"
  have none: "avl_find (compare_attr_keys ?a) as = None"
    using key_found [OF assms, of t] False find_attr_eq [OF assms(2), of as t s "Attr_set []"] by simp
  have "avl_ordered compare_attr_keys as" using assms(1) by (simp add: attrs_ok_def)
  then obtain bs where bs: "avl_insert compare_attr_keys ?a as = Some bs"
    by (rule attrs_insert_Some [OF _ none])
  have "lsa_attr_set_add_attr_set 1 b as t s k = Inr (True, b + attr_size ?a, bs)"
    by (rule add_attr_set_returns [OF none bs]) (use assms(2) in \<open>simp add: MAX_SERIALISED_INT_LEN_def\<close>)
  with False show ?thesis
    using insert_more [OF insert_set_child [OF bs False] _ assms(1)] by auto
qed


lemma wire_read:
  assumes "src \<noteq> []" "src_read_attr src = Inr (a, src')"
  shows "fst (wire_attrs src) = a # fst (wire_attrs src')"
    "wire_fails n src \<longleftrightarrow> wire_bad n a \<or> wire_fails n src'" "wire_nothing n src \<longleftrightarrow> wire_nested a \<and> n = 0"
proof -
  have wire: "wire_attrs src = (a # fst (wire_attrs src'), snd (wire_attrs src'))"
    using assms by (subst wire_attrs.simps) (auto simp: Let_def split: prod.splits)
  then show "fst (wire_attrs src) = a # fst (wire_attrs src')" "wire_nothing n src \<longleftrightarrow> wire_nested a \<and> n = 0"
    by (simp_all add: wire_nothing_def)
  show "wire_fails n src \<longleftrightarrow> wire_bad n a \<or> wire_fails n src'" by (auto simp: wire_fails_iff wire)
qed

lemma wire_unread:
  assumes "src = [] \<or> src_read_attr src = Inl e"
  shows "fst (wire_attrs src) = []" "wire_fails n src \<longleftrightarrow> src \<noteq> []" "wire_nothing n src"
proof -
  have "wire_attrs src = ([], src = [])"
    by (subst wire_attrs.simps) (use assms in auto)
  then show "fst (wire_attrs src) = []" "wire_fails n src \<longleftrightarrow> src \<noteq> []" "wire_nothing n src"
    by (simp_all add: wire_fails_iff wire_nothing_def)
qed

text \<open>What is read is as filled, as large and as long as the bytes say.\<close>

definition set_read :: "nat \<Rightarrow> bytes \<Rightarrow> lsa_attr list \<Rightarrow> lsa_attr list \<Rightarrow> bool" where
  "set_read n src dst dst' \<longleftrightarrow> attrs_ok dst' \<and>
     (list_all attr_filled dst' \<longleftrightarrow> list_all attr_filled dst \<and>
        \<not> first_at (\<lambda>S. empty_at n) (attr_order_key ` set dst) n (fst (wire_attrs src))) \<and>
     (dst' = [] \<longleftrightarrow> dst = [] \<and> wire_nothing n src) \<and>
     enc_total dst' \<le> enc_total dst + length src \<and> attrs_total dst' \<le> attrs_total dst + 50 * length src"

lemma set_read_unread:
  "src = [] \<or> src_read_attr src = Inl e \<Longrightarrow> attrs_ok dst \<Longrightarrow> set_read n src dst dst"
  by (simp add: set_read_def wire_unread)

lemma enc_attr_bound:
  assumes "src_read_attr src = Inr ((t, flags, k, d), src')" "x = Attr_bytes d \<or> (\<exists>c. x = Attr_set c \<and>
      enc_total c \<le> length d \<and> attrs_total c \<le> 50 * length d)"
  shows "length (attr_enc False None (Lsa_attr t s k x)) + length src' \<le> length src"
    "attr_total (Lsa_attr t s k x) + 50 * length src' \<le> 50 * length src"
proof -
  have rd: "src_read_attr src = Inr ((attr_type (Lsa_attr t s k x), flags, attr_key (Lsa_attr t s k x), d), src')"
    using assms(1) by simp
  note len = src_read_attr_length [OF assms(1)]
  show "length (attr_enc False None (Lsa_attr t s k x)) + length src' \<le> length src"
    using assms(2) read_attr_bound [OF rd, of "length d"]
  proof (elim disjE exE conjE)
    fix c assume c: "x = Attr_set c" "enc_total c \<le> length d"
    show ?thesis using read_attr_bound [OF rd c(2)] c by (simp add: Let_def enc_total_concat)
  qed (simp add: Let_def)
  show "attr_total (Lsa_attr t s k x) + 50 * length src' \<le> 50 * length src"
    using assms(2) len by (auto simp: MAX_SERIALISED_INT_LEN_def)
qed

lemma attrs_more_nonempty: "attrs_more a dst dst1 \<Longrightarrow> dst1 \<noteq> []"
  by (auto simp: attrs_more_def)

lemma set_read_step:
  assumes "src \<noteq> []" "src_read_attr src = Inr ((t, flags, k, d), src')"
    and "attrs_more (Lsa_attr t s k x) dst dst1" "attr_filled (Lsa_attr t s k x) \<longleftrightarrow> \<not> empty_at n (t, flags, k, d)"
    and "x = Attr_bytes d \<or> (\<exists>c. x = Attr_set c \<and> enc_total c \<le> length d \<and> attrs_total c \<le> 50 * length d)"
    and "wire_nested (t, flags, k, d) \<Longrightarrow> n \<noteq> 0"
    and "if wire_bad n (t, flags, k, d) then dst' = dst1 else set_read n src' dst1 dst'"
  shows "set_read n src dst dst'"
proof -
  note bound = enc_attr_bound [OF assms(2,5), of s]
  note wire = wire_read [OF assms(1,2)]
  have keys: "attr_order_key ` set dst1 = insert (wire_key (t, flags, k, d)) (attr_order_key ` set dst)"
    using assms(3) by (simp add: attrs_more_def attr_order_key_def wire_key_def)
  have fill: "list_all attr_filled dst1 \<longleftrightarrow> \<not> empty_at n (t, flags, k, d) \<and> list_all attr_filled dst"
    using assms(3,4) by (auto simp: attrs_more_def list_all_iff)
  have ne: "dst1 \<noteq> []" using assms(3) by (rule attrs_more_nonempty)
  have tot: "enc_total dst1 = length (attr_enc False None (Lsa_attr t s k x)) + enc_total dst"
    "attrs_total dst1 = attr_total (Lsa_attr t s k x) + attrs_total dst" "attrs_ok dst1"
    using assms(3) by (simp_all only: attrs_more_def)
  show ?thesis
  proof (cases "wire_bad n (t, flags, k, d)")
    case True
    with assms(7) have "dst' = dst1" by simp
    then show ?thesis
      unfolding set_read_def wire first_at_Cons using True fill ne tot bound assms(6) by auto
  next
    case False
    with assms(7) have rd: "set_read n src' dst1 dst'" by simp
    show ?thesis
      unfolding set_read_def wire first_at_Cons using False fill ne tot bound assms(6) rd
      unfolding set_read_def keys by auto
  qed
qed


lemma des_any:
  "length src \<le> 65536 \<Longrightarrow> attrs_ok dst \<Longrightarrow>
   if first_at (\<lambda>S. repeat_at S n) (attr_order_key ` set dst) n (fst (wire_attrs src))
   then lsa_deserialise_attr_set 1 n (b, dst) src = Inl Abort
   else \<exists>b' dst'. lsa_deserialise_attr_set 1 n (b, dst) src = Inr (if wire_fails n src then -1 else 0, b', dst') \<and>
     set_read n src dst dst'"
proof (induction "length src" arbitrary: n b dst src rule: less_induct)
  case less
  show ?case
  proof (cases "src = [] \<or> (\<exists>e. src_read_attr src = Inl e)")
    case True
    then obtain e where e: "src = [] \<or> src_read_attr src = Inl e" by blast
    have "lsa_deserialise_attr_set 1 n (b, dst) src = Inr (if src = [] then 0 else -1, b, dst)"
      using e by (subst lsa_deserialise_attr_set.simps) auto
    then show ?thesis using set_read_unread [OF e less.prems(2)] by (simp add: wire_unread [OF e])
  next
    case False
    then obtain t flags k d src' where rd: "src \<noteq> []" "src_read_attr src = Inr ((t, flags, k, d), src')"
      by (cases "src_read_attr src") auto
    let ?s = "flags AND LSA_ATTR_FLAG_SIGNED \<noteq> 0" and ?a = "(t, flags, k, d)" and ?S = "attr_order_key ` set dst"
    have short: "length d < length src" "length src' < length src" "length k + length d \<le> 65536" "length k \<le> 65536"
      using src_read_attr_length [OF rd(2)] less.prems(1) by simp_all
    have small: "length d \<le> 65536" "length src' \<le> 65536" using short less.prems(1) by simp_all
    note wire = wire_read [OF rd]
    have key: "wire_key ?a = (t, k)" "wire_data ?a = d" by (simp_all add: wire_key_def wire_data_def)
    note IH = less.hyps [OF short(2) small(2)]
    have keys: "attr_order_key ` set dst1 = insert (t, k) ?S" if "attrs_more (Lsa_attr t ?s k x) dst dst1" for x dst1
      using that by (simp add: attrs_more_def attr_order_key_def)
    show ?thesis
    proof (cases "flags AND LSA_ATTR_FLAG_DATA_IS_TLV = 0")
      case True
      have flat: "\<not> wire_nested ?a" "\<not> wire_bad n ?a" "\<not> empty_at n ?a" "repeat_at ?S n ?a \<longleftrightarrow> (t, k) \<in> ?S"
        using True by (simp_all add: wire_nested_def wire_bad_def empty_at_def repeat_at_def key split: nat.splits)
      have run: "lsa_deserialise_attr_set 1 n (b, dst) src = obind (lsa_attr_set_add_attr 1 b dst t ?s k d)
          (\<lambda>(ret, b, dst). if ret < 0 then Inr (-1, b, dst) else lsa_deserialise_attr_set 1 n (b, dst) src')"
        using rd True by (subst lsa_deserialise_attr_set.simps) (simp add: Let_def)
      show ?thesis
      proof (cases "(t, k) \<in> ?S")
        case True
        then show ?thesis
          using add_attr_any [OF less.prems(2) short(3), of t b ?s] by (simp add: run wire first_at_Cons flat)
      next
        case new: False
        with add_attr_any [OF less.prems(2) short(3), of t b ?s] obtain b1 dst1
          where add: "lsa_attr_set_add_attr 1 b dst t ?s k d = Inr (0, b1, dst1)"
            and more: "attrs_more (Lsa_attr t ?s k (Attr_bytes d)) dst dst1" by auto
        have step: "set_read n src dst dst'" if "set_read n src' dst1 dst'" for dst'
          by (rule set_read_step [OF rd more]) (use that flat in simp_all)
        have "attrs_ok dst1" using more by (simp add: attrs_more_def)
        from IH [OF this, of n b1] step show ?thesis
          by (auto simp: run add wire first_at_Cons flat new key keys [OF more])
      qed
    next
      case tlv: False
      then have nested: "wire_nested ?a" by (simp add: wire_nested_def)
      show ?thesis
      proof (cases n)
        case 0
        have flat: "wire_bad n ?a" "\<not> repeat_at ?S n ?a" "\<not> empty_at n ?a"
          using nested 0 by (simp_all add: wire_bad_def repeat_at_def empty_at_def)
        have "set_read n src dst dst"
          using less.prems(2) flat by (simp add: set_read_def wire first_at_Cons nested 0)
        moreover have "lsa_deserialise_attr_set 1 n (b, dst) src = Inr (-1, b, dst)"
          using rd tlv 0 by (subst lsa_deserialise_attr_set.simps) (simp add: Let_def)
        ultimately show ?thesis by (simp add: wire first_at_Cons flat)
      next
        case (Suc m)
        have flat: "wire_bad n ?a \<longleftrightarrow> wire_fails m d" "empty_at n ?a \<longleftrightarrow> wire_nothing m d \<or> wire_empties m d"
          "repeat_at ?S n ?a \<longleftrightarrow> (t, k) \<in> ?S \<or> wire_repeats m d"
          using nested Suc by (simp_all add: wire_bad_def empty_at_def repeat_at_def key)
        have run: "lsa_deserialise_attr_set 1 n (b, dst) src = obind (lsa_attr_set_add_attr_set 1 b dst t ?s k)
            (\<lambda>(child, b, dst). if \<not> child then Inr (-1, b, dst)
              else obind (lsa_deserialise_attr_set 1 m (b, []) d) (\<lambda>(ret, b, c).
                if ret < 0 then Inr (-1, b, set_child t k c dst)
                else lsa_deserialise_attr_set 1 n (b, set_child t k c dst) src'))"
          using rd tlv unfolding Suc by (subst lsa_deserialise_attr_set.simps, unfold Let_def diff_Suc_1) simp
        show ?thesis
        proof (cases "(t, k) \<in> ?S")
          case True
          then show ?thesis
            using add_attr_set_any [OF less.prems(2) short(4), of t b ?s] by (simp add: run wire first_at_Cons flat)
        next
          case new: False
          with add_attr_set_any [OF less.prems(2) short(4), of t b ?s] obtain b1 dst1
            where add: "lsa_attr_set_add_attr_set 1 b dst t ?s k = Inr (True, b1, dst1)"
              and more: "\<And>c. attrs_ok c \<Longrightarrow> attrs_more (Lsa_attr t ?s k (Attr_set c)) dst (set_child t k c dst1)" by auto
          note inner = less.hyps [OF short(1) small(1), of "[]" m b1, folded wire_repeats_at]
          show ?thesis
          proof (cases "wire_repeats m d")
            case True
            with inner have "lsa_deserialise_attr_set 1 m (b1, []) d = Inl Abort" by (simp add: wire_repeats_at)
            then show ?thesis by (simp add: run add wire first_at_Cons flat True)
          next
            case False
            with inner obtain b2 c where c: "lsa_deserialise_attr_set 1 m (b1, []) d = Inr (if wire_fails m d then -1 else 0, b2, c)"
              "set_read m d [] c" by (auto simp: wire_repeats_at)
            then have ok: "attrs_ok c" and fill: "list_all attr_filled c \<longleftrightarrow> \<not> wire_empties m d" "c = [] \<longleftrightarrow> wire_nothing m d"
              and size: "enc_total c \<le> length d" "attrs_total c \<le> 50 * length d"
              by (simp_all add: set_read_def wire_empties_at enc_total_def)
            let ?dst = "set_child t k c dst1"
            have step: "set_read n src dst dst'" if "if wire_fails m d then dst' = ?dst else set_read n src' ?dst dst'" for dst'
              by (rule set_read_step [OF rd more [OF ok]]) (use that flat fill size Suc in auto)
            show ?thesis
            proof (cases "wire_fails m d")
              case True
              then show ?thesis using step [of ?dst] by (simp add: run add c(1) wire first_at_Cons flat new False)
            next
              case good: False
              have "attrs_ok ?dst" using more [OF ok] by (simp add: attrs_more_def)
              from IH [OF this, of n b2] step good show ?thesis
                by (auto simp: run add c(1) wire first_at_Cons flat new False key keys [OF more [OF ok]])
            qed
          qed
        qed
      qed
    qed
  qed
qed


section \<open>Reading an LSA\<close>

lemma wire_lsa_length: "wire_lsa buf = Some src \<Longrightarrow> length src + NODE_ID_LEN < length buf"
  by (auto simp: wire_lsa_def split: sum.splits if_splits dest!: SRC_READ_SIZE_T_length)

lemma des_no_lsa:
  assumes "wire_lsa buf = None"
  shows "\<exists>ret. lsa_deserialise malloc rc buf = Inr (rc, ret, None)"
proof (cases "SRC_READ_SIZE_T buf")
  case (Inl e)
  then show ?thesis by (cases e) (auto simp: lsa_deserialise_def)
next
  case (Inr x)
  obtain len src where x: "x = (len, src)" by (cases x)
  define off where "off = length buf - length src"
  have short: "SRC_READ NODE_ID_LEN (take len src) = Inl Short_read \<or> len + off > length buf"
    using assms Inr x SRC_READ_SIZE_T_length [OF Inr [unfolded x]] by (auto simp: wire_lsa_def SRC_READ_def off_def split: if_splits)
  show ?thesis
    unfolding lsa_deserialise_def Inr x sum.case prod.case Let_def off_def [symmetric] add_diff_cancel_right'
    using short by auto
qed

lemma des_lsa:
  assumes "wire_lsa buf = Some src" "length buf \<le> 65536"
  obtains nid where "0 < wire_size buf" "wire_size buf \<le> length buf" "length nid = NODE_ID_LEN"
    "lsa_deserialise (Some p) rc buf = obind (lsa_deserialise_attr_set 1 8 (42, []) src) (\<lambda>(ret, b, root).
       if ret < 0 then obind (lsa_put (rc(p := 1)) (Some \<lparr>lsa_ptr = p, lsa_bytes = b, lsa_id = nid, lsa_root = root\<rparr>))
           (\<lambda>rc. Inr (rc, -1, None))
       else Inr (rc(p := 1), int (wire_size buf), Some \<lparr>lsa_ptr = p, lsa_bytes = b, lsa_id = nid, lsa_root = root\<rparr>))"
proof -
  from assms(1) obtain len rest where rd: "SRC_READ_SIZE_T buf = Inr (len, rest)" "NODE_ID_LEN \<le> len" "len \<le> length rest"
    "src = drop NODE_ID_LEN (take len rest)"
    by (auto simp: wire_lsa_def split: sum.splits if_splits)
  note len = SRC_READ_SIZE_T_length [OF rd(1)]
  let ?n = "len + (length buf - length rest)" and ?nid = "take NODE_ID_LEN (take len rest)"
  have run: "lsa_deserialise (Some p) rc buf = obind (lsa_deserialise_attr_set 1 8 (42, []) src) (\<lambda>(ret, b, root).
       if ret < 0 then obind (lsa_put (rc(p := 1)) (Some \<lparr>lsa_ptr = p, lsa_bytes = b, lsa_id = ?nid, lsa_root = root\<rparr>))
           (\<lambda>rc. Inr (rc, -1, None))
       else Inr (rc(p := 1), int ?n, Some \<lparr>lsa_ptr = p, lsa_bytes = b, lsa_id = ?nid, lsa_root = root\<rparr>))"
  proof -
    define off where "off = length buf - length rest"
    have sz: "len \<noteq> 0" "\<not> len > SSIZE_MAX - off" "\<not> len + off > length buf" "len + off - off = len"
      using rd(2,3) len assms(2) by (simp_all add: off_def NODE_ID_LEN_def)
    have hd: "SRC_READ NODE_ID_LEN (take len rest) = Inr (?nid, src)" using rd by (simp add: SRC_READ_def)
    have init: "lsa_alloc (Some p) rc ?nid = (rc(p := 1), Some \<lparr>lsa_ptr = p, lsa_bytes = 42, lsa_id = ?nid, lsa_root = []\<rparr>)"
      by (simp add: lsa_alloc_def MAX_SERIALISED_INT_LEN_def NODE_ID_LEN_def min_def)
    show ?thesis
      unfolding lsa_deserialise_def Let_def rd(1) sum.case prod.case off_def [symmetric] sz(4) hd init option.case
        if_not_P [OF sz(1)] if_not_P [OF sz(2)] if_not_P [OF sz(3)] lsa.select_convs fun_upd_same
      by (rule arg_cong [where f = "obind _"], rule ext) (simp split: prod.split)
  qed
  have size: "wire_size buf = ?n" using rd(1) by (simp add: wire_size_def)
  show thesis by (rule that [OF _ _ _ run [folded size]]) (use rd(2,3) len in \<open>simp_all add: size NODE_ID_LEN_def\<close>)
qed

text \<open>What an LSA read from \<open>src\<close> satisfies.\<close>

definition lsa_read :: "bytes \<Rightarrow> lsa \<Rightarrow> bool" where
  "lsa_read src l \<longleftrightarrow> lsa_wf l \<and> lsa_bytes l \<le> 42 + 50 * length src \<and> list_all (attr_fits 8) (lsa_root l) \<and>
     enc_total (lsa_root l) \<le> length src \<and> (list_all attr_filled (lsa_root l) \<longleftrightarrow> \<not> wire_empties 8 src)"

lemma des_any_lsa:
  assumes "wire_lsa buf = Some src" "length buf \<le> 65536"
  shows "if wire_repeats 8 src then lsa_deserialise (Some p) rc buf = Inl Abort
    else if wire_fails 8 src then lsa_deserialise (Some p) rc buf =
      (if wire_empties 8 src then Inl Null_deref else Inr (rc(p := 0), -1, None))
    else \<exists>l. lsa_deserialise (Some p) rc buf = Inr (rc(p := 1), int (wire_size buf), Some l) \<and>
      0 < wire_size buf \<and> wire_size buf \<le> length buf \<and> lsa_ptr l = p \<and> lsa_read src l"
proof -
  obtain nid where run: "0 < wire_size buf" "wire_size buf \<le> length buf" "length nid = NODE_ID_LEN"
    "lsa_deserialise (Some p) rc buf = obind (lsa_deserialise_attr_set 1 8 (42, []) src) (\<lambda>(ret, b, root).
       if ret < 0 then obind (lsa_put (rc(p := 1)) (Some \<lparr>lsa_ptr = p, lsa_bytes = b, lsa_id = nid, lsa_root = root\<rparr>))
           (\<lambda>rc. Inr (rc, -1, None))
       else Inr (rc(p := 1), int (wire_size buf), Some \<lparr>lsa_ptr = p, lsa_bytes = b, lsa_id = nid, lsa_root = root\<rparr>))"
    by (rule des_lsa [OF assms])
  have len: "length src \<le> 65536" using wire_lsa_length [OF assms(1)] assms(2) by simp
  note any = des_any [OF len, of "[]" 8 42]
  show ?thesis
  proof (cases "wire_repeats 8 src")
    case True
    with any show ?thesis by (simp add: run(4) wire_repeats_at)
  next
    case False
    with any obtain b root where des: "lsa_deserialise_attr_set 1 8 (42, []) src = Inr (if wire_fails 8 src then -1 else 0, b, root)"
      and rd: "set_read 8 src [] root" by (auto simp: wire_repeats_at)
    let ?l = "\<lparr>lsa_ptr = p, lsa_bytes = b, lsa_id = nid, lsa_root = root\<rparr>"
    have "attrs_ok root \<and> b = 42 + attrs_total root \<and> list_all (attr_fits 8) root" using des_Inr [OF des] by simp
    with rd run(3) have l: "lsa_read src ?l"
      by (auto simp: lsa_read_def set_read_def lsa_wf_def wire_empties_at enc_total_def MAX_SERIALISED_INT_LEN_def NODE_ID_LEN_def)
    then have "lsa_wf ?l" "lsa_bytes ?l < 2 ^ 63" "list_all attr_filled root \<longleftrightarrow> \<not> wire_empties 8 src"
      using len by (auto simp: lsa_read_def)
    then have put: "lsa_put (rc(p := 1)) (Some ?l) = (if wire_empties 8 src then Inl Null_deref else Inr (rc(p := 0)))"
      using lsa_put_faults_iff [of ?l "rc(p := 1)"] by simp
    show ?thesis
      using False l run(1,2) by (auto simp: run(4) des put)
  qed
qed

lemma read_put:
  assumes "lsa_read src l" "length src \<le> 65536" "rc (lsa_ptr l) = 1"
  shows "lsa_put rc (Some l) = Inl Null_deref \<longleftrightarrow> wire_empties 8 src"
  using assms lsa_put_faults_iff [of l rc] by (auto simp: lsa_read_def split: if_splits)

text \<open>
  C26: the bytes on which reading an LSA from a peer stops the process, exactly, told from the bytes alone.
  \<^verbatim>\<open>lsa_attr_set_add_attr\<close> aborts if the message is there and, before anything in it
  cannot be read (or nests deeper than 8), two attributes of one set have the same type and key.  A null pointer is
  read if there is no such repetition and something cannot be read, and a nested set before that, or the one in which
  the reading fails, gets no attribute: the LSA is freed with an empty set.  There is no other fault.  An LSA
  is returned if all can be read and nothing is repeated; dropping the reference to it then reads through a null
  pointer if and only if a nested set of it has no attributes.
\<close>

theorem lsa_deserialise_faults:
  assumes "length buf \<le> 65536"
  shows "(lsa_deserialise (Some p) rc buf = Inl Abort \<longleftrightarrow> (\<exists>src. wire_lsa buf = Some src \<and> wire_repeats 8 src)) \<and>
    (lsa_deserialise (Some p) rc buf = Inl Null_deref \<longleftrightarrow>
      (\<exists>src. wire_lsa buf = Some src \<and> \<not> wire_repeats 8 src \<and> wire_fails 8 src \<and> wire_empties 8 src)) \<and>
    (\<forall>e. lsa_deserialise (Some p) rc buf = Inl e \<longrightarrow> e = Abort \<or> e = Null_deref) \<and>
    ((\<exists>rc' n l. lsa_deserialise (Some p) rc buf = Inr (rc', n, Some l)) \<longleftrightarrow>
      (\<exists>src. wire_lsa buf = Some src \<and> \<not> wire_repeats 8 src \<and> \<not> wire_fails 8 src)) \<and>
    (\<forall>rc' n l. lsa_deserialise (Some p) rc buf = Inr (rc', n, Some l) \<longrightarrow>
      (lsa_put rc' (Some l) = Inl Null_deref \<longleftrightarrow> (\<exists>src. wire_lsa buf = Some src \<and> wire_empties 8 src)))"
proof (cases "wire_lsa buf")
  case None
  then obtain ret where "lsa_deserialise (Some p) rc buf = Inr (rc, ret, None)" using des_no_lsa by blast
  with None show ?thesis by simp
next
  case (Some src)
  have "length src \<le> 65536" using wire_lsa_length [OF Some] assms by simp
  with des_any_lsa [OF Some assms, of p rc] Some read_put [of src _ "rc(p := 1)"] show ?thesis
    by (auto split: if_splits)
qed


text \<open>
  An attribute twice; a nested set of which nothing can be read; and an empty nested set, accepted and then released.
\<close>

lemma wire_samples:
  "wire_lsa ([38] @ replicate 32 7 @ [3, 0, 0, 3, 0, 0]) = Some [3, 0, 0, 3, 0, 0]"
  "wire_lsa ([36] @ replicate 32 7 @ [2, 2, 1, 128]) = Some [2, 2, 1, 128]"
  "wire_lsa ([35] @ replicate 32 7 @ [2, 2, 0]) = Some [2, 2, 0]"
  by (simp_all add: wire_lsa_def replicate_7 deserialise_eval)

lemma wire_sample_attrs:
  "wire_attrs [3, 0, 0, 3, 0, 0] = ([(3, 0, [], []), (3, 0, [], [])], True)"
  "wire_attrs [2, 2, 1, 128] = ([(2, 2, [], [128])], True)"
  "wire_attrs [128] = ([], False)"
  "wire_attrs [2, 2, 0] = ([(2, 2, [], [])], True)"
  "wire_attrs [] = ([], True)"
proof -
  have rd: "src_read_attr [3, 0, 0, 3, 0, 0] = Inr ((3, 0, [], []), [3, 0, 0])"
    "src_read_attr [3, 0, 0] = Inr ((3, 0, [], []), [])"
    "src_read_attr [2, 2, 1, 128] = Inr ((2, 2, [], [128]), [])"
    "src_read_attr [128] = Inl Src_error" "src_read_attr [2, 2, 0] = Inr ((2, 2, [], []), [])"
    by (simp_all add: deserialise_eval)
  show nil: "wire_attrs [] = ([], True)" by (simp add: wire_attrs.simps)
  have one: "wire_attrs [3, 0, 0] = ([(3, 0, [], [])], True)"
    by (subst wire_attrs.simps) (simp add: rd nil)
  show "wire_attrs [3, 0, 0, 3, 0, 0] = ([(3, 0, [], []), (3, 0, [], [])], True)"
    by (subst wire_attrs.simps) (simp add: rd one)
  show "wire_attrs [2, 2, 1, 128] = ([(2, 2, [], [128])], True)" "wire_attrs [128] = ([], False)"
    "wire_attrs [2, 2, 0] = ([(2, 2, [], [])], True)"
    by (subst wire_attrs.simps, simp add: rd nil)+
qed

lemmas wire_eval = wire_repeats_at wire_empties_at wire_fails_iff wire_nothing_def first_at_Cons
  repeat_at_def empty_at_def wire_bad_def wire_nested_def wire_key_def wire_data_def LSA_ATTR_FLAG_DATA_IS_TLV_def

lemma wire_sample_faults:
  "wire_repeats 8 [3, 0, 0, 3, 0, 0]"
  "\<not> wire_repeats 8 [2, 2, 1, 128]" "wire_fails 8 [2, 2, 1, 128]" "wire_empties 8 [2, 2, 1, 128]"
  "\<not> wire_repeats 8 [2, 2, 0]" "\<not> wire_fails 8 [2, 2, 0]" "wire_empties 8 [2, 2, 0]"
  by (simp_all add: wire_eval wire_sample_attrs)

theorem lsa_deserialise_faults_witness:
  "lsa_deserialise (Some 5) (\<lambda>_. 0) ([38] @ replicate 32 7 @ [3, 0, 0, 3, 0, 0]) = Inl Abort \<and>
   lsa_deserialise (Some 5) (\<lambda>_. 0) ([36] @ replicate 32 7 @ [2, 2, 1, 128]) = Inl Null_deref \<and>
   (\<exists>rc n l. lsa_deserialise (Some 5) (\<lambda>_. 0) ([35] @ replicate 32 7 @ [2, 2, 0]) = Inr (rc, n, Some l) \<and>
     lsa_put rc (Some l) = Inl Null_deref)"
proof (intro conjI)
  have len: "length ([a] @ replicate 32 7 @ [3, 0, 0, 3, 0, 0]) \<le> 65536"
    "length ([a] @ replicate 32 7 @ [2, 2, 1, 128]) \<le> 65536" "length ([a] @ replicate 32 7 @ [2, 2, 0]) \<le> 65536" for a :: byte
    by simp_all
  show "lsa_deserialise (Some 5) (\<lambda>_. 0) ([38] @ replicate 32 7 @ [3, 0, 0, 3, 0, 0]) = Inl Abort"
    using lsa_deserialise_faults [OF len(1) [of 38], of 5 "\<lambda>_. 0"] wire_samples(1) wire_sample_faults(1) by blast
  show "lsa_deserialise (Some 5) (\<lambda>_. 0) ([36] @ replicate 32 7 @ [2, 2, 1, 128]) = Inl Null_deref"
    using lsa_deserialise_faults [OF len(2) [of 36], of 5 "\<lambda>_. 0"] wire_samples(2) wire_sample_faults(2-4) by blast
  show "\<exists>rc n l. lsa_deserialise (Some 5) (\<lambda>_. 0) ([35] @ replicate 32 7 @ [2, 2, 0]) = Inr (rc, n, Some l) \<and>
     lsa_put rc (Some l) = Inl Null_deref"
    using lsa_deserialise_faults [OF len(3) [of 35], of 5 "\<lambda>_. 0"] wire_samples(3) wire_sample_faults(5-7) by blast
qed

end
