(* ===== verification/Dgp_Reader_Safe.thy ===== *)
theory Dgp_Reader_Safe
  imports Dgp_Reader Lsa_Faults
begin

text \<open>
  What the reader of \<^verbatim>\<open>src/dgp_reader.c\<close> does with any bytes of a peer, in any pieces, and when an LSA cannot be
  allocated: the process goes on and both bases keep their invariants, unless an LSA of the stream is one of those
  that stop the process when they are read or released.
\<close>

section \<open>The stream as bytes\<close>

lemma src_read_loop_split:
  "src_read_loop cnt b v src = Inr (w, rest) \<Longrightarrow>
   \<exists>xs. src = xs @ rest \<and> (\<forall>ys. src_read_loop cnt b v (xs @ ys) = Inr (w, ys))"
proof (induction cnt b v src rule: src_read_loop.induct)
  case (1 cnt b v)
  have "src_read_loop cnt b v ys = Inr (w, ys)" for ys using 1 by (cases ys) (auto split: if_splits)
  moreover have "rest = []" using 1 by (auto split: if_splits)
  ultimately show ?case by simp
next
  case (2 cnt b v c src)
  show ?case
  proof (cases "b AND 0x80 \<noteq> 0")
    case True
    with 2(2) have more: "cnt + 1 \<noteq> 10"
      and run: "src_read_loop (cnt + 1) c (push_bit 7 v OR ucast (c AND 0x7f)) src = Inr (w, rest)"
      by (auto split: if_splits)
    from 2(1) [OF True more run] obtain xs where "src = xs @ rest"
      "\<forall>ys. src_read_loop (cnt + 1) c (push_bit 7 v OR ucast (c AND 0x7f)) (xs @ ys) = Inr (w, ys)" by blast
    with True more show ?thesis by (intro exI [of _ "c # xs"]) simp
  next
    case False
    then have "src_read_loop cnt b v ys = Inr (v, ys)" for ys by (cases ys) simp_all
    with False 2(2) show ?thesis by (intro exI [of _ "[]"]) (auto split: if_splits)
  qed
qed

lemma read_size_split:
  assumes "SRC_READ_SIZE_T src = Inr (n, rest)"
  obtains xs where "src = xs @ rest" "\<And>ys. SRC_READ_SIZE_T (xs @ ys) = Inr (n, ys)"
proof -
  from assms obtain b src' v where b: "src = b # src'" "b \<noteq> 0x80"
      "src_read_loop 0 b (ucast (b AND 0x7f)) src' = Inr (v, rest)" "n = unat v"
    by (auto simp: SRC_READ_SIZE_T_def SRC_READ_UINT64_T_def split: sum.splits list.splits if_splits)
  from src_read_loop_split [OF b(3)] obtain xs where xs: "src' = xs @ rest"
    "\<forall>ys. src_read_loop 0 b (ucast (b AND 0x7f)) (xs @ ys) = Inr (v, ys)" by blast
  moreover have "\<not> unat v > SIZE_MAX" using assms b(4) by (auto simp: SRC_READ_SIZE_T_def split: sum.splits if_splits)
  ultimately show thesis using that [of "b # xs"] b by (simp add: SRC_READ_SIZE_T_def SRC_READ_UINT64_T_def)
qed

lemma read_size_more: "SRC_READ_SIZE_T src = Inr (n, rest) \<Longrightarrow> SRC_READ_SIZE_T (src @ ys) = Inr (n, rest @ ys)"
  by (erule read_size_split) (metis append_assoc)

lemma wire_more:
  assumes "wire_lsa buf = Some src"
  shows "wire_lsa (buf @ ys) = Some src" "wire_size (buf @ ys) = wire_size buf" "wire_size buf \<le> length buf" "0 < wire_size buf"
proof -
  from assms obtain len rest where rd: "SRC_READ_SIZE_T buf = Inr (len, rest)" "NODE_ID_LEN \<le> len" "len \<le> length rest"
    "src = drop NODE_ID_LEN (take len rest)"
    by (auto simp: wire_lsa_def split: sum.splits if_splits)
  from rd(1) read_size_more [OF rd(1), of ys] rd(2-) SRC_READ_SIZE_T_length [OF rd(1)]
  show "wire_lsa (buf @ ys) = Some src" "wire_size (buf @ ys) = wire_size buf" "wire_size buf \<le> length buf" "0 < wire_size buf"
    by (auto simp: wire_lsa_def wire_size_def)
qed

text \<open>The attributes of the LSAs of a stream, up to the first message that is not complete or in error.\<close>

function dgp_lsas :: "bytes \<Rightarrow> bytes list" where
  "dgp_lsas buf =
     (case wire_lsa buf of
        Some src \<Rightarrow> src # (if wire_fails 8 src then [] else dgp_lsas (drop (wire_size buf) buf))
      | None \<Rightarrow>
          (case SRC_READ_SIZE_T buf of
             Inr (len, rest) \<Rightarrow> if len = 0 then dgp_lsas rest else []
           | Inl _ \<Rightarrow> []))"
  by pat_completeness auto
termination
  by (relation "measure length") (auto dest!: SRC_READ_SIZE_T_length, frule wire_more(3), frule wire_more(4), simp)

declare dgp_lsas.simps [simp del]


text \<open>None of them stops the process when it is read or released.\<close>

definition lsa_harmless :: "bytes \<Rightarrow> bool" where
  "lsa_harmless src \<longleftrightarrow> \<not> wire_repeats 8 src \<and> \<not> wire_empties 8 src"

text \<open>
  An allocator that may fail, and otherwise gives out the address of an object without references.
\<close>

definition al_fresh :: "allocator \<Rightarrow> bool" where
  "al_fresh al \<longleftrightarrow> (\<forall>rc p. finite {q. rc q \<noteq> 0} \<longrightarrow> al_lsa al rc = Some p \<longrightarrow> rc p = 0)"

section \<open>One LSA\<close>

lemma read_adj_ok:
  assumes "lsa_read src l" "lsa_harmless src" "length src \<le> 65520"
  shows "adj_lsa_ok l"
proof -
  have l: "lsa_wf l" "lsa_bytes l < 2 ^ 62" "list_all attr_filled (lsa_root l)" "list_all (attr_fits 8) (lsa_root l)"
      "enc_total (lsa_root l) \<le> 65520"
    using assms by (auto simp: lsa_read_def lsa_harmless_def)
  have "attr_diffable a" if a: "a \<in> set (lsa_root l)" for a
  proof -
    have "length (attr_enc False None a) \<le> enc_total (lsa_root l)"
      unfolding enc_total_def by (rule member_le_sum_list) (use a in auto)
    moreover have "attr_total a \<le> lsa_bytes l" using attr_total_member [OF a] l(1) by (simp add: lsa_wf_def)
    ultimately show ?thesis
      using l a by (auto simp: attr_diffable_def lsa_wf_def attrs_ok_def list_all_iff)
  qed
  with l show ?thesis by (auto simp: adj_lsa_ok_def lsa_filled_def attrs_diffable_def lsa_wf_def attrs_ok_def list_all_iff)
qed

lemma des_no_memory:
  assumes "wire_lsa buf = Some src" "length buf \<le> 65536"
  shows "lsa_deserialise None rc buf = Inr (rc, -1, None)"
proof -
  from assms(1) obtain len rest where rd: "SRC_READ_SIZE_T buf = Inr (len, rest)" "NODE_ID_LEN \<le> len" "len \<le> length rest"
    by (auto simp: wire_lsa_def split: sum.splits if_splits)
  define off where "off = length buf - length rest"
  have "len \<noteq> 0" "\<not> len > SSIZE_MAX - off" "\<not> len + off > length buf"
    using rd(2,3) SRC_READ_SIZE_T_length [OF rd(1)] assms(2) by (simp_all add: off_def NODE_ID_LEN_def)
  then show ?thesis
    unfolding lsa_deserialise_def Let_def rd(1) sum.case prod.case off_def [symmetric] add_diff_cancel_right'
    using rd(2,3) by (simp add: lsa_alloc_def SRC_READ_def)
qed

text \<open>A message that is not an LSA, or not all of it there.\<close>

lemma des_other:
  assumes "wire_lsa buf = None"
  shows "\<exists>ret. lsa_deserialise malloc rc buf = Inr (rc, ret, None) \<and>
    (0 < ret \<longrightarrow> nat ret \<le> length buf \<and> SRC_READ_SIZE_T buf = Inr (0, drop (nat ret) buf))"
proof (cases "SRC_READ_SIZE_T buf")
  case (Inl e)
  then show ?thesis by (cases e) (auto simp: lsa_deserialise_def)
next
  case (Inr x)
  obtain len src where x: "x = (len, src)" by (cases x)
  from read_size_split [OF Inr [unfolded x]] obtain xs where "buf = xs @ src" by blast
  then have drop: "drop (length buf - length src) buf = src" by simp
  define off where "off = length buf - length src"
  have fin: ?thesis if "lsa_deserialise malloc rc buf = Inr (rc, ret, None)" "ret \<le> 0" for ret
    using that by (intro exI [of _ ret]) simp
  have run: "lsa_deserialise malloc rc buf = (if len = 0 then Inr (rc, int off, None)
      else if len > SSIZE_MAX - off then Inr (rc, -1, None)
      else if len + off > length buf then Inr (rc, 0, None)
      else Inr (rc, 0, None))" if "len = 0 \<or> SRC_READ NODE_ID_LEN (take len src) = Inl Short_read \<or> len + off > length buf"
    unfolding lsa_deserialise_def Inr x sum.case prod.case Let_def off_def [symmetric] add_diff_cancel_right' using that by auto
  have cases: "len = 0 \<or> SRC_READ NODE_ID_LEN (take len src) = Inl Short_read \<or> len + off > length buf"
    using assms Inr x SRC_READ_SIZE_T_length [OF Inr [unfolded x]] by (auto simp: wire_lsa_def SRC_READ_def off_def split: if_splits)
  show ?thesis
  proof (cases "len = 0")
    case True
    then have "lsa_deserialise malloc rc buf = Inr (rc, int off, None)" using run [OF cases] by simp
    moreover have "off \<le> length buf" "SRC_READ_SIZE_T buf = Inr (0, drop off buf)"
      using Inr x True drop by (simp_all add: off_def)
    ultimately show ?thesis by (intro exI [of _ "int off"]) simp
  next
    case False
    with run [OF cases] have "lsa_deserialise malloc rc buf = Inr (rc, if len > SSIZE_MAX - off then -1 else 0, None)" by simp
    then show ?thesis by (rule fin) simp
  qed
qed

section \<open>The loop\<close>

lemma inv_put_back:
  assumes "dgp_inv cr adj (rc, v)" "al_fresh al" "al_lsa al rc = Some p"
  shows "rc(p := 0) = rc"
proof -
  have "finite {q. rc q \<noteq> 0}" using assms(1) by (simp add: dgp_inv_def)
  with assms(2,3) have "rc p = 0" unfolding al_fresh_def by blast
  then show ?thesis by (simp add: fun_upd_idem)
qed

lemma dgp_moves_refl: "dgp_inv cr adj w \<Longrightarrow> dgp_moves cr adj w adj w"
  by (auto simp: dgp_inv_def dgp_moves_def)

lemma loop_any:
  "dgp_inv cr adj w \<Longrightarrow> al_fresh al \<Longrightarrow> length rest \<le> DGP_BUF_SIZE \<Longrightarrow>
   list_all lsa_harmless (dgp_lsas (rest @ ys)) \<Longrightarrow>
   \<exists>ret rest' adj' w'. dgp_reader_loop cr al True first rest (adj, w) = Inr (ret, rest', adj', w') \<and>
     dgp_inv cr adj' w' \<and> dgp_moves cr adj w adj' w' \<and>
     (ret = -1 \<or> ret = 0 \<and> list_all lsa_harmless (dgp_lsas (rest' @ ys)) \<and>
       (first \<or> length rest < DGP_BUF_SIZE \<longrightarrow> length rest' < DGP_BUF_SIZE))"
proof (induction "length rest" arbitrary: first rest adj w rule: less_induct)
  case less
  obtain rc v where w: "w = (rc, v)" by (cases w)
  have stop: ?case if "dgp_reader_loop cr al True first rest (adj, w) = Inr (-1, rest', adj, w)" for rest'
    using that less.prems(1) by (auto simp: dgp_moves_refl)
  have wait: ?case if "dgp_reader_loop cr al True first rest (adj, w) =
      (if first \<and> length rest = DGP_BUF_SIZE then Inr (-1, rest, adj, w) else Inr (0, rest, adj, w))"
    using that less.prems by (cases w) (auto simp: dgp_moves_refl split: if_splits)
  have next_msg: ?case
    if step: "dgp_reader_loop cr al True first rest (adj, w) = dgp_reader_loop cr al True False (drop n rest) (adj1, w1)"
      and inv: "dgp_inv cr adj1 w1" "dgp_moves cr adj w adj1 w1" and n: "0 < n" "n \<le> length rest"
      and ok: "list_all lsa_harmless (dgp_lsas (drop n rest @ ys))" for n adj1 w1
  proof -
    have short: "length (drop n rest) < length rest" "length (drop n rest) < DGP_BUF_SIZE" using n less.prems(3) by simp_all
    from less.hyps [OF short(1) inv(1) less.prems(2) _ ok, of False] short(2) obtain ret rest' adj' w'
      where run: "dgp_reader_loop cr al True False (drop n rest) (adj1, w1) = Inr (ret, rest', adj', w')"
        "dgp_inv cr adj' w'" "dgp_moves cr adj1 w1 adj' w'"
        "ret = -1 \<or> ret = 0 \<and> list_all lsa_harmless (dgp_lsas (rest' @ ys)) \<and> length rest' < DGP_BUF_SIZE"
      by auto
    have "accepted cr adj1 \<subseteq> loc_lsas (snd w1)" using inv(1) by (simp add: dgp_inv_def)
    from dgp_moves_trans [OF inv(2) run(3) this] run show ?thesis unfolding step by blast
  qed
  let ?malloc = "al_lsa al rc"
  have run: "dgp_reader_loop cr al True first rest (adj, w) =
      obind (lsa_deserialise ?malloc rc rest) (\<lambda>(rc, len, lo).
        if len < 0 then Inr (-1, rest, adj, rc, v)
        else if len = 0 then
          (if first \<and> length rest = DGP_BUF_SIZE then Inr (-1, rest, adj, rc, v) else Inr (0, rest, adj, rc, v))
        else obind (case lo of Some l \<Rightarrow> dgp_take_lsa cr al True l (adj, rc, v) | None \<Rightarrow> Inr (adj, rc, v))
          (dgp_reader_loop cr al True False (drop (nat len) rest)))" if "rest \<noteq> []"
    using that by (subst dgp_reader_loop.simps) (simp add: w Let_def)
  show ?case
  proof (cases "rest = []")
    case True
    then have "dgp_reader_loop cr al True first rest (adj, w) = Inr (0, rest, adj, w)" by (simp add: dgp_reader_loop.simps)
    with True show ?thesis by (intro wait) (simp add: DGP_BUF_SIZE_def)
  next
    case False
    note run = run [OF False]
    show ?thesis
    proof (cases "wire_lsa rest")
      case None
      from des_other [OF None, of ?malloc rc] obtain ret where ret: "lsa_deserialise ?malloc rc rest = Inr (rc, ret, None)"
        "0 < ret \<Longrightarrow> nat ret \<le> length rest \<and> SRC_READ_SIZE_T rest = Inr (0, drop (nat ret) rest)" by blast
      consider "ret < 0" | "ret = 0" | "0 < ret" by linarith
      then show ?thesis
      proof cases
        case 3
        have more: "SRC_READ_SIZE_T (rest @ ys) = Inr (0, drop (nat ret) rest @ ys)"
          using ret(2) [OF 3] by (auto intro: read_size_more)
        then have "wire_lsa (rest @ ys) = None" by (simp add: wire_lsa_def NODE_ID_LEN_def)
        with more less.prems(4) have "list_all lsa_harmless (dgp_lsas (drop (nat ret) rest @ ys))"
          by (subst (asm) dgp_lsas.simps) simp
        moreover have "dgp_reader_loop cr al True first rest (adj, w) =
            dgp_reader_loop cr al True False (drop (nat ret) rest) (adj, w)" unfolding run ret(1) using 3 by (simp add: w)
        ultimately show ?thesis
          using less.prems(1) ret(2) [OF 3] 3 by (intro next_msg [of "nat ret" adj w]) (simp_all add: dgp_moves_refl)
      next
        case 1
        then have "dgp_reader_loop cr al True first rest (adj, w) = Inr (-1, rest, adj, w)"
          unfolding run ret(1) by (simp add: w)
        then show ?thesis by (rule stop)
      next
        case 2
        then show ?thesis by (intro wait) (unfold run ret(1), simp add: w)
      qed
    next
      case (Some src)
      have len: "length rest \<le> 65536" using less.prems(3) by (simp add: DGP_BUF_SIZE_def)
      have "dgp_lsas (rest @ ys) = src # (if wire_fails 8 src then [] else dgp_lsas (drop (wire_size rest) rest @ ys))"
        by (subst dgp_lsas.simps) (use wire_more(1,2) [OF Some, of ys] wire_more(3) [OF Some] in simp)
      with less.prems(4) have ok: "lsa_harmless src"
        and tl: "\<not> wire_fails 8 src \<Longrightarrow> list_all lsa_harmless (dgp_lsas (drop (wire_size rest) rest @ ys))" by auto
      show ?thesis
      proof (cases ?malloc)
        case mem: None
        show ?thesis by (intro stop [of rest]) (unfold run mem des_no_memory [OF Some len], simp add: w)
      next
        case mem: (Some p)
        note any = des_any_lsa [OF Some len, of p rc]
        show ?thesis
        proof (cases "wire_fails 8 src")
          case True
          have "rc(p := 0) = rc" by (rule inv_put_back) (use less.prems(1,2) mem in \<open>simp_all add: w\<close>)
          with any True ok have "lsa_deserialise ?malloc rc rest = Inr (rc, -1, None)"
            by (simp add: mem lsa_harmless_def)
          then show ?thesis by (intro stop [of rest]) (unfold run, simp add: w)
        next
          case False
          with any ok obtain l where l: "lsa_deserialise ?malloc rc rest = Inr (rc(p := 1), int (wire_size rest), Some l)"
            "0 < wire_size rest" "wire_size rest \<le> length rest" "lsa_ptr l = p" "lsa_read src l"
            by (auto simp: mem lsa_harmless_def)
          have "adj_lsa_ok l"
            by (rule read_adj_ok [OF l(5) ok]) (use wire_lsa_length [OF Some] len in \<open>simp add: NODE_ID_LEN_def\<close>)
          moreover have "rc p = 0"
            using inv_put_back [of cr adj rc v al p] less.prems(1,2) mem by (metis fun_upd_same w)
          ultimately obtain adj1 rc1 v1 where take: "dgp_take_lsa cr al True l (adj, rc(p := 1), v) = Inr (adj1, rc1, v1)"
            "dgp_inv cr adj1 (rc1, v1)" "dgp_moves cr adj (rc, v) adj1 (rc1, v1)"
            using take_lsa_inv [of cr adj rc v p l al] less.prems(1) l(4) by (auto simp: w)
          have "dgp_reader_loop cr al True first rest (adj, w) =
              dgp_reader_loop cr al True False (drop (wire_size rest) rest) (adj1, rc1, v1)"
            unfolding run l(1) using l(2) by (simp add: take(1))
          then show ?thesis
            using take(2,3) l(2,3) tl [OF False] by (intro next_msg) (simp_all add: w)
        qed
      qed
    qed
  qed
qed


section \<open>The reader\<close>

text \<open>\<^verbatim>\<open>read\<close> returns at most as many bytes as the buffer has left.\<close>

fun dgp_reads_fit ::
  "'k crypto \<Rightarrow> allocator \<Rightarrow> (int \<times> timespec \<times> bytes) list \<Rightarrow> 'v dgp_reader \<Rightarrow> 'v world \<Rightarrow> bool" where
  "dgp_reads_fit cr al [] dr w \<longleftrightarrow> True"
| "dgp_reads_fit cr al ((rnd, now, d) # cs) dr w \<longleftrightarrow> length (dr_buf dr) + length d \<le> DGP_BUF_SIZE \<and>
     (case dgp_reader_read cr al rnd now dr (Read_data d) w of
        Inl _ \<Rightarrow> True
      | Inr (ret, dr, w) \<Rightarrow> ret < 0 \<or> dgp_reads_fit cr al cs dr w)"

lemma reads_any:
  assumes "dgp_inv cr (dr_adj_rib_in dr) w" "dr_remoteid dr \<noteq> None" "length (dr_buf dr) < DGP_BUF_SIZE" "al_fresh al"
    and "dgp_reads_fit cr al cs dr w" "list_all lsa_harmless (dgp_lsas (dr_buf dr @ chunks_data cs))"
  shows "\<exists>ret dr' w'. dgp_reads cr al cs dr w = Inr (ret, dr', w') \<and>
    (ret = -1 \<or> ret = 0 \<and> length (dr_buf dr') < DGP_BUF_SIZE) \<and>
    dgp_inv cr (dr_adj_rib_in dr') w' \<and> dgp_moves cr (dr_adj_rib_in dr) w (dr_adj_rib_in dr') w'"
  using assms(1-3,5,6)
proof (induction cs arbitrary: dr w)
  case Nil
  then show ?case by (cases w) (auto simp: dgp_moves_refl)
next
  case (Cons c cs)
  obtain rnd now d where c: "c = (rnd, now, d)" by (cases c)
  have len: "length (dr_buf dr @ d) \<le> DGP_BUF_SIZE" using Cons.prems(4) by (simp add: c)
  have ok: "list_all lsa_harmless (dgp_lsas ((dr_buf dr @ d) @ chunks_data cs))"
    using Cons.prems(5) by (simp add: c chunks_data_def)
  from loop_any [OF Cons.prems(1) assms(4) len ok, of True] obtain ret rest adj' w'
    where loop: "dgp_reader_loop cr al True True (dr_buf dr @ d) (dr_adj_rib_in dr, w) = Inr (ret, rest, adj', w')"
      "dgp_inv cr adj' w'" "dgp_moves cr (dr_adj_rib_in dr) w adj' w'"
      "ret = -1 \<or> ret = 0 \<and> list_all lsa_harmless (dgp_lsas (rest @ chunks_data cs)) \<and> length rest < DGP_BUF_SIZE"
    by auto
  define dr1 where "dr1 = dr\<lparr>dr_keepalive_timeout := Some (keepalive_expiry rnd now), dr_adj_rib_in := adj',
      dr_buf := if ret < 0 then dr_buf dr @ d else rest\<rparr>"
  have read: "dgp_reader_read cr al rnd now dr (Read_data d) w = Inr (if ret < 0 then -1 else 0, dr1, w')"
    using loop(1) Cons.prems(2) by (auto simp: dgp_reader_read_def Let_def dr1_def)
  show ?case
  proof (cases "ret < 0")
    case True
    with read loop(2,3) show ?thesis by (cases w') (simp add: c dr1_def)
  next
    case False
    with loop(4) have rest: "length rest < DGP_BUF_SIZE" "list_all lsa_harmless (dgp_lsas (rest @ chunks_data cs))" by auto
    have dr1: "dr_adj_rib_in dr1 = adj'" "dr_buf dr1 = rest" "dr_remoteid dr1 \<noteq> None"
      using False Cons.prems(2) by (simp_all add: dr1_def)
    have "dgp_reads_fit cr al cs dr1 w'" using Cons.prems(4) read False by (simp add: c)
    with Cons.IH [of dr1 w'] dr1 rest loop(2) obtain ret' dr' w2 where 2: "dgp_reads cr al cs dr1 w' = Inr (ret', dr', w2)"
      "ret' = -1 \<or> ret' = 0 \<and> length (dr_buf dr') < DGP_BUF_SIZE" "dgp_inv cr (dr_adj_rib_in dr') w2"
      "dgp_moves cr adj' w' (dr_adj_rib_in dr') w2" by auto
    have "accepted cr adj' \<subseteq> loc_lsas (snd w')" using loop(2) by (simp add: dgp_inv_def)
    from dgp_moves_trans [OF loop(3) 2(4) this] 2 read False show ?thesis by (cases w2) (simp add: c)
  qed
qed

text \<open>
  C2: whatever bytes a peer sends, in whatever pieces \<^verbatim>\<open>read\<close> returns them, and also when an LSA cannot be
  allocated, reading them does not stop the process, as long as no LSA of the stream repeats an attribute or has a
  nested set that gets no attribute (what these do is said by \<open>lsa_deserialise_faults\<close>).  The reader asks for more or
  gives up (and does the former, with all consumed, when the stream is of whole well-formed LSAs and keepalives and memory suffices);
  there is always room for the next read; the peer's base keeps its invariant and its size limit, the local base holds,
  of what this peer sent, exactly the LSAs that pass the filter, and no reference is lost or left over.
\<close>

theorem dgp_reader_sound:
  assumes "dgp_inv cr (dr_adj_rib_in dr) w" "dr_remoteid dr \<noteq> None" "length (dr_buf dr) < DGP_BUF_SIZE" "al_fresh al"
    and "dgp_reads_fit cr al cs dr w" "list_all lsa_harmless (dgp_lsas (dr_buf dr @ chunks_data cs))"
  shows "\<exists>ret dr' w'. dgp_reads cr al cs dr w = Inr (ret, dr', w') \<and>
    (ret = -1 \<or> ret = 0 \<and> length (dr_buf dr') < DGP_BUF_SIZE) \<and>
    (\<forall>preid ms. dr_buf dr = [] \<and> al_ok al \<and> list_all (dgp_msg_ok preid) ms \<and> chunks_data cs = dgp_stream preid ms \<longrightarrow>
      ret = 0 \<and> dr_buf dr' = []) \<and>
    dgp_inv cr (dr_adj_rib_in dr') w' \<and> dgp_moves cr (dr_adj_rib_in dr) w (dr_adj_rib_in dr') w'"
proof -
  obtain ret dr' w' where run: "dgp_reads cr al cs dr w = Inr (ret, dr', w')" "ret = -1 \<or> ret = 0 \<and> length (dr_buf dr') < DGP_BUF_SIZE"
    "dgp_inv cr (dr_adj_rib_in dr') w'" "dgp_moves cr (dr_adj_rib_in dr) w (dr_adj_rib_in dr') w'"
    using reads_any [OF assms] by blast
  have "ret = 0 \<and> dr_buf dr' = []"
    if "dr_buf dr = []" "al_ok al" "list_all (dgp_msg_ok preid) ms" "chunks_data cs = dgp_stream preid ms" for preid ms
    using reads_sound [OF assms(1,2) that] run(1) by auto
  with run show ?thesis by blast
qed

text \<open>A keepalive, an LSA and a byte no message begins with; the first three bytes are there already.\<close>

definition sample_bytes :: bytes where
  "sample_bytes = [0, 36] @ replicate 32 7 @ [3, 4, 1, 65, 128]"

lemma sample_bytes_lsas: "dgp_lsas sample_bytes = [[3, 4, 1, 65]]"
proof -
  have b: "sample_bytes = 0 # 36 # replicate 32 7 @ [3, 4, 1, 65, 128]" by (simp add: sample_bytes_def)
  have 1: "SRC_READ_SIZE_T (0 # xs) = Inr (0, xs)" for xs
    by (cases xs) (simp_all add: SRC_READ_SIZE_T_def SRC_READ_UINT64_T_def)
  then have 2: "wire_lsa (0 # xs) = None" for xs by (simp add: wire_lsa_def NODE_ID_LEN_def)
  have 3: "wire_lsa (36 # replicate 32 7 @ [3, 4, 1, 65, 128]) = Some [3, 4, 1, 65]"
    "wire_size (36 # replicate 32 7 @ [3, 4, 1, 65, 128]) = 37"
    by (simp_all add: wire_lsa_def wire_size_def replicate_7 deserialise_eval)
  have 4: "wire_lsa [128] = None" "SRC_READ_SIZE_T [128] = Inl Src_error"
    by (simp_all add: wire_lsa_def deserialise_eval)
  have 5: "dgp_lsas [128] = []" by (simp add: dgp_lsas.simps 4)
  have "dgp_lsas (36 # replicate 32 7 @ [3, 4, 1, 65, 128]) = [[3, 4, 1, 65]]"
    by (subst dgp_lsas.simps) (simp add: 3 5)
  then show ?thesis unfolding b by (subst dgp_lsas.simps) (simp add: 1 2)
qed

lemma sample_bytes_harmless: "list_all lsa_harmless (dgp_lsas sample_bytes)"
proof -
  have "src_read_attr [3, 4, 1, 65] = Inr ((3, 4, [], [65]), [])" by (simp add: deserialise_eval)
  then have "wire_attrs [3, 4, 1, 65] = ([(3, 4, [], [65])], True)"
    by (subst wire_attrs.simps) (simp add: wire_sample_attrs)
  then show ?thesis by (simp add: sample_bytes_lsas lsa_harmless_def wire_eval)
qed

lemma fit_once: "length (dr_buf dr) + length d \<le> DGP_BUF_SIZE \<Longrightarrow> dgp_reads_fit cr al [(rnd, now, d)] dr w"
  by (simp split: sum.split)

theorem dgp_reader_sound_witness:
  "\<exists>ret dr' w'. dgp_reads sample_crypto sample_allocator [(0, \<lparr>tv_sec = 1, tv_nsec = 0\<rparr>, drop 3 sample_bytes)]
      (sample_reader\<lparr>dr_buf := take 3 sample_bytes\<rparr>) sample_world = Inr (ret, dr', w') \<and> (ret = -1 \<or> ret = 0) \<and>
    dgp_inv sample_crypto (dr_adj_rib_in dr') w' \<and> dgp_moves sample_crypto sample_adj sample_world (dr_adj_rib_in dr') w'"
proof -
  let ?dr = "sample_reader\<lparr>dr_buf := take 3 sample_bytes\<rparr>" and ?cs = "[(0, \<lparr>tv_sec = 1, tv_nsec = 0\<rparr>, drop 3 sample_bytes)]"
  have dr: "dr_adj_rib_in ?dr = sample_adj" "dr_remoteid ?dr \<noteq> None" "dr_buf ?dr = take 3 sample_bytes"
    by (simp_all add: sample_reader_def)
  have fit: "length (dr_buf ?dr) < DGP_BUF_SIZE" "dgp_reads_fit sample_crypto sample_allocator ?cs ?dr sample_world"
  proof -
    have len: "length sample_bytes = 39" by (simp add: sample_bytes_def)
    then show "length (dr_buf ?dr) < DGP_BUF_SIZE" by (simp add: DGP_BUF_SIZE_def)
    have "length (dr_buf ?dr) + length (drop 3 sample_bytes) \<le> DGP_BUF_SIZE" by (simp add: len DGP_BUF_SIZE_def)
    then show "dgp_reads_fit sample_crypto sample_allocator ?cs ?dr sample_world"
      by (rule fit_once)
  qed
  have al: "al_fresh sample_allocator" using sample_allocator_ok unfolding al_ok_def al_fresh_def by blast
  have buf: "dr_buf ?dr @ chunks_data ?cs = sample_bytes" by (simp add: chunks_data_def)
  have "dgp_inv sample_crypto (dr_adj_rib_in ?dr) sample_world" unfolding dr(1) by (rule sample_world_inv)
  from dgp_reader_sound [OF this dr(2) fit(1) al fit(2), unfolded buf dr(1), OF sample_bytes_harmless]
  show ?thesis by blast
qed

end
