(* ===== verification/Spec2Isabelle.thy ===== *)
theory Spec2Isabelle
  imports Rt_Builder Confdiff Dvpn_Listen_Reach Cspf Lsa_Faults Dgp_Reader_Safe
begin

text \<open>
  A verification library for dvpn, a multipoint VPN daemon written in C on top of the event loop
  ivykis.

  \<^bold>\<open>The program.\<close>  A node has a key; its id is a digest of the public key.  Nodes keep TLS
  connections to their neighbours (\<^verbatim>\<open>tconn*.c\<close>, \<^verbatim>\<open>dvpn.c\<close>) and run a routing protocol over each: a
  node describes itself and its links in a signed link state advertisement (LSA), a set of typed,
  possibly nested attributes (\<^verbatim>\<open>lsa.c\<close>).  LSAs travel in a binary format (\<^verbatim>\<open>lsa_serialise.c\<close>,
  \<^verbatim>\<open>lsa_deserialise.c\<close>).  On each connection a reader (\<^verbatim>\<open>dgp_reader.c\<close>) cuts what the peer sends into
  messages and stores the LSAs in the base of that peer (\<^verbatim>\<open>adj_rib_in.c\<close>), which checks size, path
  and signature and passes the valid ones, through a listener (\<^verbatim>\<open>rib_listener.h\<close>,
  \<^verbatim>\<open>rib_listener_to_loc.c\<close>), to the one local base of the node (\<^verbatim>\<open>loc_rib.c\<close>).  The local
  base chooses the best LSA of every node and tells its listeners: the writers of the connections
  (\<^verbatim>\<open>dgp_writer.c\<close>), which pass it on to the peers, and the builder of the routing table
  (\<^verbatim>\<open>rt_builder.c\<close>).  Readers and writers are run by \<^verbatim>\<open>dgp_connect.c\<close>, which connects to a peer and
  tries again when that fails, and by \<^verbatim>\<open>dgp_listen.c\<close>, which accepts connections.  What to connect to
  and to listen on is read from a file (\<^verbatim>\<open>conf.c\<close>); when the file has changed the running
  configuration is brought to the new one (\<^verbatim>\<open>confdiff.c\<close>).  For every entry to connect to,
  \<^verbatim>\<open>tconn_connect.c\<close> resolves the name of the peer and tries its addresses with
  \<^verbatim>\<open>tconn_connect_one.c\<close>; a connection that stands is given to \<^verbatim>\<open>dvpn.c\<close>, which sets up an interface
  for it (\<^verbatim>\<open>tun.c\<close>, \<^verbatim>\<open>itf.c\<close>), adds the peer to the node's own LSA, which it signs and puts into the
  local base, and starts the routing protocol on it.  The other end of such a connection is accepted by
  \<^verbatim>\<open>tconn_listen.c\<close> and given to \<^verbatim>\<open>dvpn.c\<close> likewise.

  \<^bold>\<open>The theories.\<close>  Definitions have the names of the C functions they model.

  \<^item> Prelude: bytes, \<^verbatim>\<open>memcmp\<close>, the outcome of a C function (a value or a fault that stops the
    process or uses memory it must not), and \<^verbatim>\<open>iv_avl_tree\<close> as the in-order sequence of its
    elements; the locale \<open>avl_order\<close> is what a comparison function has to satisfy, and it is
    interpreted for every comparison function the modelled code has.
  \<^item> Util (\<^verbatim>\<open>util.c\<close>): \<^verbatim>\<open>avl_diff\<close>, comparison of socket addresses, the base-32 form of an id, the
    addresses derived from an id, timer arithmetic.  The printed form of an id is read back, timers
    are set within their bounds.
  \<^item> Lsa (\<^verbatim>\<open>lsa.c\<close>, \<^verbatim>\<open>lsa.h\<close>): attributes, sets, reference counts.  The size and order
    invariants are kept, attributes that were added are found, clones are equal, the reference
    counts are exact; which calls stop the process.
  \<^item> Lsa_Serialise, Lsa_Deserialise: the wire format as a function to bytes; the two-pass writer
    writes exactly it, the reader reads it back, and whatever bytes come in the result is well-formed.
  \<^item> Lsa_Faults: on which bytes the reading of an LSA stops the process, exactly, told from the bytes
    alone.
  \<^item> Lsa_Diff (\<^verbatim>\<open>lsa_diff.c\<close>), Lsa_Query (\<^verbatim>\<open>lsa_path.c\<close>, \<^verbatim>\<open>lsa_peer.c\<close>): the differences of
    two LSAs, and what the routing code asks of one.
  \<^item> Rib_Listener (\<^verbatim>\<open>rib_listener.h\<close>): the contract between a base and its listeners, as the locales
    \<open>rib_client_unique\<close> and \<open>rib_client\<close>.
  \<^item> Adj_Rib_In (\<^verbatim>\<open>adj_rib_in.c\<close>), Loc_Rib and Loc_Best (\<^verbatim>\<open>loc_rib.c\<close>), Rib_To_Loc: the bases.
    Adding, replacing and deleting an LSA keeps the invariants and the balance of references on
    every branch; the cost of an LSA is that of its path; after \<^verbatim>\<open>recompute\<close> the best LSA of every
    node is best and the listener knows exactly the best ones.  Each lemma about a listener is
    proved once in the locale; the local base, the writer and the route builder are interpretations.
  \<^item> Dgp_Reader, Dgp_Writer: the stream.  How it is cut into pieces does not matter; what was
    sent says exactly which LSAs may go to this peer; what a writer sends, the reader at the
    other end accepts; a reader that ends withdraws all LSAs of its peer.
  \<^item> Dgp_Reader_Safe: the reader on arbitrary bytes.  But for the LSAs that Lsa_Faults names, nothing
    that a peer sends stops it or damages the bases.
  \<^item> Rt_Builder (\<^verbatim>\<open>rt_builder.c\<close>): the routes are those the best LSAs ask for.
  \<^item> Event_Loop: the outcome of a handler of the event loop, with its misuse as a fault, and the
    system calls; what the state machines share.
  \<^item> Dgp_Connect, Dgp_Listen: the two ends of a connection as state machines.  The locale
    \<open>dgp_session\<close> is what they need of a reader and a writer, and is interpreted on the
    theories of the reader and the writer.  Every reachable state uses exactly its resources, and nothing is
    leaked, used after it was freed, or registered twice, but for a \<^verbatim>\<open>connect\<close> that succeeds at once,
    which stops the process.
  \<^item> Conf (\<^verbatim>\<open>conf.c\<close>), Confdiff (\<^verbatim>\<open>confdiff.c\<close>): the parser and the walk from one configuration to
    another; the locale \<open>diff_steps\<close> has what the three walks share.
  \<^item> Tconn_Connect_One, Tconn_Connect: the TLS connections a node makes, as two state machines, the
    second the user of the first.  Which keys of a peer are accepted; the locale \<open>tconn_user\<close> is
    what the second needs of its own user, and under it every reachable state uses exactly its
    resources.  Two events go wrong, and are said to: a record that cannot be sent, and a connection that the user
    refuses.
  \<^item> Tconn, Tconn_Verify (\<^verbatim>\<open>tconn.c\<close>): a TLS session over a non-blocking socket, with gnutls as trees of
    calls of its two transport functions.  The state is always what \<^verbatim>\<open>verify_state\<close> asks for, when
    events come in a stated order; the situations in which it is not, and the process stops; the
    buffers lose nothing; which key ids a chain of certificates yields.
  \<^item> My_Lsa (\<^verbatim>\<open>dvpn.c\<close>): the node's own LSA.  Each change gives a signed LSA with a higher version
    that says what it should, takes the place of the old one with the references balanced, and is accepted
    by the neighbours if and only if it is not too large (the lemmas join \<^verbatim>\<open>dvpn.c\<close>, the writer's format and the filter of
    \<^verbatim>\<open>adj_rib_in.c\<close>).
  \<^item> Tun_Itf (\<^verbatim>\<open>tun.c\<close>, \<^verbatim>\<open>itf.c\<close>): interfaces; what is asked of the system is recorded.
  \<^item> Dvpn_Connect (\<^verbatim>\<open>dvpn.c\<close>): the connections that the node makes, as the interpretation of
    \<open>tconn_user\<close>; the sessions are those of Dgp_Connect.  All sessions share one local base and
    one table of references, which is handed to a session for the time of a call.
  \<^item> Tconn_Listen, Tconn_Listen_Safe, Tconn_Listen_Match (\<^verbatim>\<open>tconn_listen.c\<close>): the TLS connections a
    node accepts.  Which entry of the configuration a peer comes to; the locale \<open>listen_user\<close> is
    what this code needs of its user, and under it every event keeps lists, timers, descriptors
    and sessions consistent; what becomes of a connection whose session cannot be set up.
  \<^item> Dvpn_Listen, Dvpn_Listen_Safe, Dvpn_Listen_Reach (\<^verbatim>\<open>dvpn.c\<close>): the user of these connections, as the
    interpretation of \<open>listen_user\<close>; their sessions are those of Dgp_Listen.  Entries and connections
    come and go in any order, the limit of an entry is kept, and stopping the socket gives everything
    back, as long as the calls whose failure the code ignores do not fail; two entries for the same peer, which
    the code lets through.
  \<^item> Spf, Cspf (\<^verbatim>\<open>spf.c\<close>, \<^verbatim>\<open>cspf.c\<close>): shortest paths with a binary heap in an array, and their use
    for paths that keep to the peering policy, by a graph in which every node occurs twice.  Within
    stated bounds the run ends without a fault and finds exactly the cheapest such paths; the two
    graphs on which it does not are given.  No other file of the repository calls this code.

  \<^bold>\<open>Modelling.\<close>  State is a record that is passed on.  A stop of the process (\<^verbatim>\<open>abort\<close>, a null
  pointer, a read out of bounds, a misuse of the event loop) is a value, so that its absence is
  proved and not assumed.  An LSA is a value with the address it lives at; reference counts are
  a table from addresses.  What is not under \<^verbatim>\<open>src/\<close> is a parameter: gnutls and nettle (a record of
  functions; only the length of a digest is assumed), \<^verbatim>\<open>malloc\<close>, the clock, random numbers, system
  calls, libini_config, and the callbacks of a component's user.  Integers are words or mathematical
  integers with the checks of the code written out.  Loops are recursive functions; the three whose
  end is not plain from their arguments carry fuel: \<^verbatim>\<open>adj_rib_in_truncate\<close> gets the number of
  LSAs, shown to be enough for every shape of the tree, reading nested attribute sets gets
  the depth limit of the code, and \<^verbatim>\<open>spf_run\<close> gets the number of nodes, shown to be enough for every
  graph within the bounds.

  \<^bold>\<open>Not modelled.\<close>  \<^verbatim>\<open>x509.c\<close> is almost only calls of gnutls, and
  \<^verbatim>\<open>iv_getaddrinfo.c\<close> of threads: what they answer is a parameter.  \<^verbatim>\<open>dbmon.c\<close>, \<^verbatim>\<open>hostmon.c\<close>,
  \<^verbatim>\<open>rtmon.c\<close>, \<^verbatim>\<open>mkgraph.c\<close>, \<^verbatim>\<open>mkhosts.c\<close>, \<^verbatim>\<open>lsa_print.c\<close> and the like print.  Running out of memory
  in the middle of an operation on an LSA stops the process in the code and is left out.

  The start of the daemon, which reads its keys, and its signal handlers, which join \<^verbatim>\<open>parse_config\<close>,
  \<^verbatim>\<open>diff_configs\<close> and the functions that start and stop an entry, all modelled, are left out.

  \<^bold>\<open>Plan.\<close>  Next are these signal handlers, over the configuration and the sockets together.
\<close>

end
